(* ===== verification/Prelude.thy ===== *)
theory Prelude
  imports Main "HOL-Library.Word"
begin

text \<open>
  Shared vocabulary of the development: the machine types of the runtime, the outcome of a
  call that may stop the process, and generic facts about lists and words that several
  components use. A byte is an \<open>8 word\<close>, a runtime word whose arithmetic wraps is a
  \<open>64 word\<close>. An \<open>i64\<close> argument that the code only compares and uses as an index is an
  \<open>int\<close>; a \<open>usize\<close> that only counts is a \<open>nat\<close>.
\<close>

unbundle bit_operations_syntax

type_synonym u8 = "8 word"
type_synonym u32 = "32 word"
type_synonym u64 = "64 word"
type_synonym bytes = "u8 list"

named_theorems pith_simps \<open>defining equations used when a component is evaluated\<close>

named_theorems pith_inv \<open>preservation lemmas of component invariants\<close>

text \<open>The calls that end the process with a diagnostic. Each names the message's data.\<close>

datatype fault =
    InvalidHandle string
  | IndexOutOfBounds int int
  | SplitsCharacter nat int int
  | BadElementSize nat

type_synonym 'a outcome = "fault + 'a"

text \<open>The \<open>usize\<close> reading of an \<open>i64\<close> that has been checked to be non-negative is
  \<open>nat\<close>; \<open>clamp_index\<close> is the idiom \<open>i.max(0).min(len)\<close>.\<close>

definition clamp_index :: "int \<Rightarrow> nat \<Rightarrow> nat" where
  "clamp_index i len = nat (min (max i 0) (int len))"

lemma clamp_index_le [simp]: "clamp_index i len \<le> len"
  by (simp add: clamp_index_def)

lemma clamp_index_id: "0 \<le> i \<Longrightarrow> i \<le> int len \<Longrightarrow> clamp_index i len = nat i"
  by (simp add: clamp_index_def)

subsection \<open>Lists\<close>

lemma list_update_take_drop:
  "i < length xs \<Longrightarrow> xs[i := v] = take i xs @ v # drop (Suc i) xs"
  by (rule upd_conv_take_nth_drop)

lemma take_take_append_drop:
  "i \<le> j \<Longrightarrow> take i xs @ take (j - i) (drop i xs) = take j xs"
  by (metis le_add_diff_inverse take_add)

lemma drop_take_split:
  "i \<le> j \<Longrightarrow> j \<le> length xs \<Longrightarrow> xs = take i xs @ drop i (take j xs) @ drop j xs"
  by (metis append.assoc append_take_drop_id drop_take take_take_append_drop)

lemma nth_drop_take:
  "i + k < j \<Longrightarrow> j \<le> length xs \<Longrightarrow> drop i (take j xs) ! k = xs ! (i + k)"
  by simp

lemma option_ext: "(\<And>i. x = Some i \<longleftrightarrow> y = Some i) \<Longrightarrow> x = y"
  by (cases x; cases y) auto

subsection \<open>Bytes and words\<close>

lemma or_word_eq_0_iff: "(a :: 'a::len word) OR b = 0 \<longleftrightarrow> a = 0 \<and> b = 0"
  by (auto simp: bit_eq_iff bit_simps)

lemma xor_word_eq_0_iff: "(a :: 'a::len word) XOR b = 0 \<longleftrightarrow> a = b"
  by (auto simp: bit_eq_iff bit_simps)

lemma u8_less_256 [simp]: "unat (b :: u8) < 256"
  using unsigned_less [of b] by simp

lemma sint_u8: "sint (b :: u8) = (if uint b < 128 then uint b else uint b - 256)"
proof -
  have "sint b = (uint b + 128) mod 256 - 128"
    by (simp add: sint_uint signed_take_bit_eq_take_bit_shift take_bit_eq_mod)
  moreover have "0 \<le> uint b" "uint b < 256"
    using unsigned_less [of b, where ?'a = int] by simp_all
  moreover have "(uint b + 128) mod 256 = uint b - 128" if "\<not> uint b < 128"
  proof -
    have "(uint b + 128) mod 256 = ((uint b - 128) + 256) mod 256" by (simp add: add.commute)
    also have "\<dots> = (uint b - 128) mod 256" by (rule mod_add_self2)
    finally show ?thesis using that \<open>uint b < 256\<close> by (simp add: mod_pos_pos_trivial)
  qed
  ultimately show ?thesis by (simp add: mod_pos_pos_trivial)
qed

lemma unat_ucast_u8 [simp]:
  "unat (ucast (b :: u8) :: u64) = unat b" "unat (ucast (b :: u8) :: u32) = unat b"
  using u8_less_256 [of b]
  by (simp_all add: unsigned_ucast_eq take_bit_nat_eq_self_iff, linarith+)

lemma unat_of_nat_u64: "n < 2 ^ 64 \<Longrightarrow> unat (of_nat n :: u64) = n"
  by (simp add: unsigned_of_nat take_bit_nat_eq_self)

end
