(* ===== verification/Utf8.thy ===== *)
theory Utf8
  imports Prelude
begin

text \<open>
  UTF-8 as \<open>std::str::from_utf8\<close> accepts it (the well-formed sequences of the Unicode
  standard), and the runtime's own test for a byte offset that would cut a character:
  \<open>splits_a_character\<close> of \<open>string_list.rs\<close>. The main fact is that a cut the test lets
  through leaves both halves of valid text valid.
\<close>

subsection \<open>Well-formed sequences\<close>

definition is_cont :: "u8 \<Rightarrow> bool" where
  "is_cont b \<longleftrightarrow> b AND 0xC0 = 0x80"

text \<open>The width a lead byte announces; 0 for a byte that starts no character.\<close>

definition lead_width :: "u8 \<Rightarrow> nat" where
  "lead_width b =
     (if unat b < 0x80 then 1
      else if 0xC2 \<le> unat b \<and> unat b \<le> 0xDF then 2
      else if 0xE0 \<le> unat b \<and> unat b \<le> 0xEF then 3
      else if 0xF0 \<le> unat b \<and> unat b \<le> 0xF4 then 4
      else 0)"

text \<open>The second byte's range, which rules out overlong forms, surrogates and code points
  past U+10FFFF.\<close>

definition second_ok :: "u8 \<Rightarrow> u8 \<Rightarrow> bool" where
  "second_ok b0 b1 \<longleftrightarrow>
     (unat b0 = 0xE0 \<longrightarrow> 0xA0 \<le> unat b1) \<and> (unat b0 = 0xED \<longrightarrow> unat b1 \<le> 0x9F) \<and>
     (unat b0 = 0xF0 \<longrightarrow> 0x90 \<le> unat b1) \<and> (unat b0 = 0xF4 \<longrightarrow> unat b1 \<le> 0x8F)"

text \<open>The width of the character at the front, 0 when the front is not well formed.\<close>

fun utf8_head :: "bytes \<Rightarrow> nat" where
  "utf8_head [] = 0"
| "utf8_head (b0 # bs) =
     (let w = lead_width b0 in
      if w \<le> 1 then w
      else if w \<le> Suc (length bs) \<and> list_all is_cont (take (w - 1) bs) \<and> second_ok b0 (hd bs)
      then w else 0)"

function utf8_valid :: "bytes \<Rightarrow> bool" where
  "utf8_valid bs =
     (if bs = [] then True
      else if utf8_head bs = 0 then False
      else utf8_valid (drop (utf8_head bs) bs))"
  by pat_completeness auto
termination
  by (relation "measure length") auto

declare utf8_valid.simps [simp del]

lemma utf8_valid_Nil [simp]: "utf8_valid []"
  by (subst utf8_valid.simps) simp

lemma utf8_valid_Cons:
  "bs \<noteq> [] \<Longrightarrow> utf8_valid bs \<longleftrightarrow> utf8_head bs \<noteq> 0 \<and> utf8_valid (drop (utf8_head bs) bs)"
  by (subst utf8_valid.simps) simp

lemma lead_width_le: "lead_width b \<le> 4"
  by (simp add: lead_width_def)

lemma utf8_head_le: "utf8_head bs \<le> length bs"
  by (cases bs) (auto simp: Let_def)

lemma utf8_head_le_4: "utf8_head bs \<le> 4"
  by (cases bs) (auto simp: Let_def lead_width_le intro: order_trans)

text \<open>The width depends on the character's own bytes only.\<close>

lemma utf8_head_append:
  "utf8_head bs \<noteq> 0 \<Longrightarrow> utf8_head (bs @ cs) = utf8_head bs"
  by (cases bs) (auto simp: Let_def hd_append split: if_splits)

lemma utf8_head_take:
  "utf8_head bs \<noteq> 0 \<Longrightarrow> utf8_head (take (utf8_head bs) bs) = utf8_head bs"
  by (cases bs) (auto simp: Let_def take_Cons' split: if_splits)

lemma utf8_valid_append:
  "utf8_valid xs \<Longrightarrow> utf8_valid ys \<Longrightarrow> utf8_valid (xs @ ys)"
proof (induction xs rule: utf8_valid.induct)
  case (1 xs)
  show ?case
  proof (cases "xs = []")
    case True
    then show ?thesis using "1.prems" by simp
  next
    case False
    with "1.prems" have h: "utf8_head xs \<noteq> 0" and v: "utf8_valid (drop (utf8_head xs) xs)"
      by (auto simp: utf8_valid_Cons)
    have "utf8_valid (drop (utf8_head xs) xs @ ys)"
      using "1.IH" False h v "1.prems" by blast
    then show ?thesis
      using False h utf8_head_le [of xs] by (simp add: utf8_valid_Cons utf8_head_append)
  qed
qed

subsection \<open>Lead and continuation bytes\<close>

lemma is_cont_iff: "is_cont b \<longleftrightarrow> 0x80 \<le> unat b \<and> unat b < 0xC0"
proof -
  have m: "(0xC0 :: u8) = NOT (mask 6)" by (simp add: mask_eq_exp_minus_1)
  have p: "b AND 0xC0 = push_bit 6 (drop_bit 6 b)"
    unfolding m by (rule bit_eqI) (auto simp del: push_bit_numeral simp: bit_simps possible_bit_def)
  have d: "drop_bit 6 (push_bit 6 (drop_bit 6 b)) = drop_bit 6 b"
    by (rule bit_eqI) (auto simp del: push_bit_numeral simp: bit_simps dest: bit_imp_possible_bit)
  have "b AND 0xC0 = 0x80 \<longleftrightarrow> drop_bit 6 b = 2"
  proof
    assume "b AND 0xC0 = 0x80"
    then have "drop_bit 6 (push_bit 6 (drop_bit 6 b)) = drop_bit 6 (0x80 :: u8)" using p by simp
    then show "drop_bit 6 b = 2" unfolding d by simp
  next
    assume "drop_bit 6 b = 2"
    then show "b AND 0xC0 = 0x80" unfolding p by simp
  qed
  moreover have "drop_bit 6 b = 2 \<longleftrightarrow> unat b div 64 = 2"
    unfolding word_unat_eq_iff unsigned_drop_bit_eq by (simp add: drop_bit_eq_div take_bit_eq_mod)
  ultimately show ?thesis unfolding is_cont_def by auto
qed

lemma utf8_head_lead: "utf8_head (b # bs) \<noteq> 0 \<Longrightarrow> \<not> is_cont b"
  by (auto simp: is_cont_iff lead_width_def Let_def not_less split: if_splits)

lemma utf8_head_conts:
  "0 < k \<Longrightarrow> k < utf8_head bs \<Longrightarrow> is_cont (bs ! k)"
  by (cases bs; cases k) (auto simp: Let_def list_all_length split: if_splits)

subsection \<open>Where a cut would split a character\<close>

fun walk_back :: "bytes \<Rightarrow> nat \<Rightarrow> nat \<Rightarrow> nat" where
  "walk_back bs index 0 = 0"
| "walk_back bs index (Suc lead) =
     (if is_cont (bs ! Suc lead) \<and> index - Suc lead < 3
      then walk_back bs index lead else Suc lead)"

definition seq_width :: "u8 \<Rightarrow> nat option" where
  "seq_width b =
     (if 0xC2 \<le> unat b \<and> unat b \<le> 0xDF then Some 2
      else if 0xE0 \<le> unat b \<and> unat b \<le> 0xEF then Some 3
      else if 0xF0 \<le> unat b \<and> unat b \<le> 0xF4 then Some 4
      else None)"

definition splits_a_character :: "bytes \<Rightarrow> nat \<Rightarrow> bool" where
  "splits_a_character bs index =
     (if index = 0 \<or> index \<ge> length bs then False
      else if \<not> is_cont (bs ! index) then False
      else
        let lead = walk_back bs index index in
        case seq_width (bs ! lead) of
          None \<Rightarrow> False
        | Some width \<Rightarrow>
            if lead + width > length bs then False
            else if \<not> utf8_valid (take width (drop lead bs)) then False
            else index < lead + width)"

text \<open>Every offset of valid text lies in one character, with valid text on both sides.\<close>

lemma utf8_char_at:
  assumes "utf8_valid bs" and "i < length bs"
  obtains p w where "p \<le> i" and "i < p + w" and "w = utf8_head (drop p bs)"
    and "utf8_valid (take p bs)" and "utf8_valid (drop p bs)"
proof -
  have "\<exists>p. p \<le> i \<and> i < p + utf8_head (drop p bs) \<and> utf8_valid (take p bs) \<and> utf8_valid (drop p bs)"
    using assms
  proof (induction bs arbitrary: i rule: utf8_valid.induct)
    case (1 bs)
    let ?w = "utf8_head bs"
    from "1.prems" have ne: "bs \<noteq> []" by auto
    with "1.prems" have w: "?w \<noteq> 0" "utf8_valid (drop ?w bs)" by (auto simp: utf8_valid_Cons)
    show ?case
    proof (cases "i < ?w")
      case True
      then show ?thesis using "1.prems" by (intro exI [of _ 0]) simp
    next
      case False
      then have "i - ?w < length (drop ?w bs)" using "1.prems" by simp
      then obtain p where p: "p \<le> i - ?w" "i - ?w < p + utf8_head (drop p (drop ?w bs))"
        "utf8_valid (take p (drop ?w bs))" "utf8_valid (drop p (drop ?w bs))"
        using "1.IH" ne w by blast
      have "take ?w bs \<noteq> []" using ne w by simp
      then have "utf8_valid (take ?w bs)"
        using w utf8_head_take [of bs] utf8_head_le [of bs] by (simp add: utf8_valid_Cons)
      then have "utf8_valid (take (?w + p) bs)"
        using p(3) by (simp add: take_add utf8_valid_append)
      then show ?thesis
        using p False by (intro exI [of _ "?w + p"]) (auto simp: add.commute)
    qed
  qed
  then show ?thesis using that by blast
qed

lemma walk_back_eq:
  assumes "p \<le> k" and "k \<le> i" and "i - p \<le> 3" and "\<not> is_cont (bs ! p)"
    and "\<And>j. p < j \<Longrightarrow> j \<le> k \<Longrightarrow> is_cont (bs ! j)"
  shows "walk_back bs i k = p"
  using assms
proof (induction k)
  case 0
  then show ?case by simp
next
  case (Suc k)
  show ?case
  proof (cases "p = Suc k")
    case True
    then show ?thesis using Suc.prems by simp
  next
    case False
    then have "is_cont (bs ! Suc k)" "i - Suc k < 3" using Suc.prems by auto
    moreover have "walk_back bs i k = p"
      using False Suc.prems by (intro Suc.IH) auto
    ultimately show ?thesis by simp
  qed
qed

lemma utf8_head_seq_width:
  "1 < utf8_head (b # bs) \<Longrightarrow> seq_width b = Some (utf8_head (b # bs))"
  by (auto simp: seq_width_def lead_width_def Let_def split: if_splits)

lemma uncut_char:
  assumes "p < i" and "i < p + w" and w: "w = utf8_head (drop p bs)" and "i < length bs"
  shows "splits_a_character bs i"
proof -
  have d: "drop p bs = bs ! p # drop (Suc p) bs"
    using assms by (metis Cons_nth_drop_Suc less_trans)
  have w1: "1 < w" using assms by simp
  have w4: "w \<le> 4" using w utf8_head_le_4 by simp
  have nc: "\<not> is_cont (bs ! p)"
    by (rule utf8_head_lead [of _ "drop (Suc p) bs"]) (use w w1 d in simp)
  have c: "is_cont (bs ! j)" if "p < j" "j < p + w" for j
    using utf8_head_conts [of "j - p" "drop p bs"] that w assms by simp
  have wb: "walk_back bs i i = p"
    using assms w4 nc c by (intro walk_back_eq) auto
  have sw: "seq_width (bs ! p) = Some w"
    using utf8_head_seq_width w w1 d by metis
  have le: "p + w \<le> length bs"
    using utf8_head_le [of "drop p bs"] w assms by simp
  have "utf8_valid (take w (drop p bs))"
  proof -
    have "take w (drop p bs) \<noteq> []" using w1 assms by simp
    then show ?thesis
      using w w1 utf8_head_take [of "drop p bs"] by (simp add: utf8_valid_Cons)
  qed
  then show ?thesis
    using assms c le wb sw by (simp add: splits_a_character_def)
qed

lemma cut_utf8_valid:
  assumes v: "utf8_valid bs" and i: "i \<le> length bs" and ns: "\<not> splits_a_character bs i"
  shows "utf8_valid (take i bs)" and "utf8_valid (drop i bs)"
proof -
  have "utf8_valid (take i bs) \<and> utf8_valid (drop i bs)"
  proof (cases "i = length bs")
    case True
    then show ?thesis using v by simp
  next
    case False
    with i have "i < length bs" by simp
    with v obtain p w where pw: "p \<le> i" "i < p + w" "w = utf8_head (drop p bs)"
      "utf8_valid (take p bs)" "utf8_valid (drop p bs)" by (rule utf8_char_at)
    show ?thesis
    proof (cases "p = i")
      case True
      then show ?thesis using pw by simp
    next
      case False
      then have "splits_a_character bs i" using pw \<open>i < length bs\<close> by (intro uncut_char) auto
      with ns show ?thesis by simp
    qed
  qed
  then show "utf8_valid (take i bs)" and "utf8_valid (drop i bs)" by auto
qed

lemma utf8_valid_append_cancel:
  "utf8_valid (xs @ ys) \<Longrightarrow> utf8_valid xs \<Longrightarrow> utf8_valid ys"
proof (induction xs rule: utf8_valid.induct)
  case (1 xs)
  show ?case
  proof (cases "xs = []")
    case False
    with "1.prems" have "utf8_head xs \<noteq> 0" "utf8_valid (drop (utf8_head xs) xs)"
      by (auto simp: utf8_valid_Cons)
    moreover from this have "utf8_valid (drop (utf8_head xs) xs @ ys)"
      using "1.prems" False utf8_head_le [of xs] by (simp add: utf8_valid_Cons utf8_head_append)
    ultimately show ?thesis using "1.IH" False by blast
  qed (use "1.prems" in simp)
qed

end
