(* ===== verification/ByteStore.thy ===== *)
theory ByteStore
  imports Utf8
begin

text \<open>
  \<open>cranelift/runtime/src/bytes.rs\<close>: the counted, immutable \<open>PithBytes\<close> values and the
  single-owner \<open>PithByteBuffer\<close>. Both live behind integer handles in one heap; a handle is
  accepted when it is aligned and the cell it names carries the right magic word, so a cell
  here is tagged by its kind and a freed cell is gone. \<open>Box::into_raw\<close> hands out a fresh
  aligned address. A C string is a byte list, the null pointer \<open>None\<close>. The performance
  counters and the quarantine diagnostics are left out: they do not change a result.
\<close>

subsection \<open>The heap of handles\<close>

datatype cell =
    BytesCell bytes u32
  | BufferCell bytes

record heap =
  cells :: "int \<Rightarrow> cell option"
  next_addr :: int

definition empty_heap :: heap where
  "empty_heap = \<lparr>cells = (\<lambda>_. None), next_addr = 8\<rparr>"

definition plausibly_aligned :: "int \<Rightarrow> bool" where
  "plausibly_aligned a \<longleftrightarrow> a \<noteq> 0 \<and> a mod 8 = 0"

definition box_new :: "heap \<Rightarrow> cell \<Rightarrow> int \<times> heap" where
  "box_new h c =
     (next_addr h, h\<lparr>cells := (cells h)(next_addr h \<mapsto> c), next_addr := next_addr h + 8\<rparr>)"

definition set_cell :: "heap \<Rightarrow> int \<Rightarrow> cell option \<Rightarrow> heap" where
  "set_cell h a c = h\<lparr>cells := (cells h)(a := c)\<rparr>"

definition heap_ok :: "heap \<Rightarrow> bool" where
  "heap_ok h \<longleftrightarrow> 0 < next_addr h \<and> next_addr h mod 8 = 0 \<and> (\<forall>a \<ge> next_addr h. cells h a = None)"

definition pith_bytes_ref :: "heap \<Rightarrow> int \<Rightarrow> (bytes \<times> u32) option" where
  "pith_bytes_ref h a =
     (if plausibly_aligned a then
        (case cells h a of Some (BytesCell d rc) \<Rightarrow> Some (d, rc) | _ \<Rightarrow> None)
      else None)"

definition pith_byte_buffer_mut :: "heap \<Rightarrow> int \<Rightarrow> bytes option" where
  "pith_byte_buffer_mut h a =
     (if plausibly_aligned a then
        (case cells h a of Some (BufferCell d) \<Rightarrow> Some d | _ \<Rightarrow> None)
      else None)"

definition pith_bytes_from_vec :: "heap \<Rightarrow> bytes \<Rightarrow> int \<times> heap" where
  "pith_bytes_from_vec h d = box_new h (BytesCell d 1)"

subsection \<open>Counts\<close>

text \<open>\<open>count_release\<close> of \<open>runtime_core.rs\<close>: the count before, and the count after. The plain
  store at one and the \<open>fetch_sub\<close> agree, and the subtraction wraps at zero.\<close>

definition count_release :: "u32 \<Rightarrow> u32 \<times> u32" where
  "count_release c = (if c = 1 then (1, 0) else (c, c - 1))"

definition pith_bytes_retain :: "heap \<Rightarrow> int \<Rightarrow> heap" where
  "pith_bytes_retain h a =
     (case pith_bytes_ref h a of
        Some (d, rc) \<Rightarrow> set_cell h a (Some (BytesCell d (rc + 1)))
      | None \<Rightarrow> h)"

definition pith_bytes_release :: "heap \<Rightarrow> int \<Rightarrow> heap" where
  "pith_bytes_release h a =
     (case pith_bytes_ref h a of
        None \<Rightarrow> h
      | Some (d, rc) \<Rightarrow>
          (let (prev, rc') = count_release rc in
           if prev > 1 then set_cell h a (Some (BytesCell d rc'))
           else if prev = 0 then set_cell h a (Some (BytesCell d (rc' + 1)))
           else set_cell h a None))"

subsection \<open>Reading a bytes value\<close>

definition pith_bytes_from_string_utf8 :: "heap \<Rightarrow> bytes option \<Rightarrow> int \<times> heap" where
  "pith_bytes_from_string_utf8 h s =
     (case s of None \<Rightarrow> pith_bytes_from_vec h [] | Some d \<Rightarrow> pith_bytes_from_vec h d)"

definition pith_bytes_to_string_utf8 :: "heap \<Rightarrow> int \<Rightarrow> bytes option" where
  "pith_bytes_to_string_utf8 h a =
     (case pith_bytes_ref h a of
        None \<Rightarrow> None
      | Some (d, _) \<Rightarrow> if \<not> utf8_valid d then None else Some d)"

text \<open>The index pair of a range read: an inverted range is empty, not reversed.\<close>

definition range_bounds :: "int \<Rightarrow> int \<Rightarrow> nat \<Rightarrow> nat \<times> nat" where
  "range_bounds start end' len =
     (let start_idx = min (max start 0) (int len);
          end_idx = min (max end' start_idx) (int len)
      in (nat start_idx, nat end_idx))"

definition pith_bytes_substring_utf8 :: "heap \<Rightarrow> int \<Rightarrow> int \<Rightarrow> int \<Rightarrow> bytes option" where
  "pith_bytes_substring_utf8 h a start end' =
     (case pith_bytes_ref h a of
        None \<Rightarrow> None
      | Some (d, _) \<Rightarrow>
          (let (i, j) = range_bounds start end' (length d); slice = drop i (take j d) in
           if \<not> utf8_valid slice then None else Some slice))"

definition pith_bytes_len :: "heap \<Rightarrow> int \<Rightarrow> int" where
  "pith_bytes_len h a =
     (case pith_bytes_ref h a of None \<Rightarrow> 0 | Some (d, _) \<Rightarrow> int (length d))"

definition pith_bytes_is_empty :: "heap \<Rightarrow> int \<Rightarrow> int" where
  "pith_bytes_is_empty h a =
     (case pith_bytes_ref h a of None \<Rightarrow> 1 | Some (d, _) \<Rightarrow> if d = [] then 1 else 0)"

definition pith_bytes_get :: "heap \<Rightarrow> int \<Rightarrow> int \<Rightarrow> int" where
  "pith_bytes_get h a idx =
     (case pith_bytes_ref h a of
        None \<Rightarrow> 0
      | Some (d, _) \<Rightarrow>
          if idx < 0 then 0
          else if nat idx < length d then uint (d ! nat idx) else 0)"

definition pith_bytes_get_strict :: "heap \<Rightarrow> int \<Rightarrow> int \<Rightarrow> int outcome" where
  "pith_bytes_get_strict h a idx =
     (case pith_bytes_ref h a of
        None \<Rightarrow> Inl (InvalidHandle ''bytes'')
      | Some (d, _) \<Rightarrow>
          if idx < 0 \<or> idx \<ge> int (length d) then Inl (IndexOutOfBounds idx (int (length d)))
          else Inr (uint (d ! nat idx)))"

definition pith_bytes_slice :: "heap \<Rightarrow> int \<Rightarrow> int \<Rightarrow> int \<Rightarrow> int \<times> heap" where
  "pith_bytes_slice h a start end' =
     (case pith_bytes_ref h a of
        None \<Rightarrow> (0, h)
      | Some (d, _) \<Rightarrow>
          (let (i, j) = range_bounds start end' (length d) in
           if i = 0 \<and> j = length d then (a, pith_bytes_retain h a)
           else pith_bytes_from_vec h (drop i (take j d))))"

definition pith_bytes_concat :: "heap \<Rightarrow> int \<Rightarrow> int \<Rightarrow> int \<times> heap" where
  "pith_bytes_concat h a b =
     (case pith_bytes_ref h a of
        None \<Rightarrow> (0, h)
      | Some (da, _) \<Rightarrow>
          (case pith_bytes_ref h b of
             None \<Rightarrow> (0, h)
           | Some (db, _) \<Rightarrow>
               if da = [] then (b, pith_bytes_retain h b)
               else if db = [] then (a, pith_bytes_retain h a)
               else pith_bytes_from_vec h (da @ db)))"

definition pith_bytes_eq :: "heap \<Rightarrow> int \<Rightarrow> int \<Rightarrow> int" where
  "pith_bytes_eq h a b =
     (if a = 0 \<and> b = 0 then 1
      else
        (case pith_bytes_ref h a of
           None \<Rightarrow> 0
         | Some (da, _) \<Rightarrow>
             (case pith_bytes_ref h b of
                None \<Rightarrow> 0
              | Some (db, _) \<Rightarrow> if da = db then 1 else 0)))"

text \<open>The comparison that gates every tag and password check. The loop runs over the longer
  length and folds each byte difference into one byte.\<close>

definition byte_or_zero :: "bytes \<Rightarrow> nat \<Rightarrow> u8" where
  "byte_or_zero d i = (if i < length d then d ! i else 0)"

definition diff_start :: "bytes \<Rightarrow> bytes \<Rightarrow> u8" where
  "diff_start x y = (if length x XOR length y \<noteq> 0 then 1 else 0) * 0xff"

fun diff_loop :: "bytes \<Rightarrow> bytes \<Rightarrow> nat list \<Rightarrow> u8 \<Rightarrow> u8" where
  "diff_loop x y [] diff = diff"
| "diff_loop x y (i # is) diff =
     diff_loop x y is (diff OR (byte_or_zero x i XOR byte_or_zero y i))"

definition pith_crypto_constant_time_eq :: "heap \<Rightarrow> int \<Rightarrow> int \<Rightarrow> int" where
  "pith_crypto_constant_time_eq h a b =
     (case pith_bytes_ref h a of
        None \<Rightarrow> 0
      | Some (x, _) \<Rightarrow>
          (case pith_bytes_ref h b of
             None \<Rightarrow> 0
           | Some (y, _) \<Rightarrow>
               (let max_len = max (length x) (length y) in
                if diff_loop x y [0..<max_len] (diff_start x y) = 0 then 1 else 0)))"

subsection \<open>Words in little-endian order\<close>

definition to_le_bytes :: "u64 \<Rightarrow> bytes" where
  "to_le_bytes w = map (\<lambda>i. ucast (drop_bit (8 * i) w)) [0..<8]"

fun from_le_bytes :: "bytes \<Rightarrow> u64" where
  "from_le_bytes [] = 0"
| "from_le_bytes (b # bs) = ucast b OR push_bit 8 (from_le_bytes bs)"

text \<open>The read pads the bytes it found to a full word with zeros.\<close>

definition pith_bytes_read_word :: "heap \<Rightarrow> int \<Rightarrow> int \<Rightarrow> int \<Rightarrow> int" where
  "pith_bytes_read_word h a off count =
     (case pith_bytes_ref h a of
        None \<Rightarrow> 0
      | Some (d, _) \<Rightarrow>
          if off < 0 \<or> \<not> (1 \<le> count \<and> count \<le> 8) then 0
          else
            let off' = nat off; count' = nat count; stop = off' + count' in
            if stop > length d then 0
            else sint (from_le_bytes (drop off' (take stop d) @ replicate (8 - count') 0)))"

subsection \<open>The growable buffer\<close>

definition pith_byte_buffer_new :: "heap \<Rightarrow> int \<times> heap" where
  "pith_byte_buffer_new h = box_new h (BufferCell [])"

text \<open>The capacity only reserves memory.\<close>

definition pith_byte_buffer_with_capacity :: "heap \<Rightarrow> int \<Rightarrow> int \<times> heap" where
  "pith_byte_buffer_with_capacity h capacity = box_new h (BufferCell [])"

definition pith_byte_buffer_free :: "heap \<Rightarrow> int \<Rightarrow> heap" where
  "pith_byte_buffer_free h a =
     (case pith_byte_buffer_mut h a of None \<Rightarrow> h | Some _ \<Rightarrow> set_cell h a None)"

definition append_to_buffer :: "heap \<Rightarrow> int \<Rightarrow> bytes option \<Rightarrow> string \<Rightarrow> (string + nat) \<times> heap" where
  "append_to_buffer h a src what =
     (case pith_byte_buffer_mut h a of
        None \<Rightarrow> (Inl ''invalid buffer handle'', h)
      | Some d \<Rightarrow>
          (case src of
             None \<Rightarrow> (Inl (''invalid '' @ what), h)
           | Some bs \<Rightarrow> (Inr (length bs), set_cell h a (Some (BufferCell (d @ bs))))))"

text \<open>\<open>write_result\<close> of \<open>ffi_util.rs\<close>: the count, or the reason under the builtin's name.\<close>

definition write_result :: "string \<Rightarrow> string + nat \<Rightarrow> string + int" where
  "write_result builtin outcome =
     (case outcome of
        Inr count \<Rightarrow> Inr (int count)
      | Inl reason \<Rightarrow> Inl (builtin @ '' failed: '' @ reason))"

definition pith_byte_buffer_write :: "heap \<Rightarrow> int \<Rightarrow> int \<Rightarrow> (string + int) \<times> heap" where
  "pith_byte_buffer_write h a src =
     (let (r, h') = append_to_buffer h a (map_option fst (pith_bytes_ref h src)) ''bytes value''
      in (write_result ''byte_buffer_write'' r, h'))"

definition pith_byte_buffer_write_string_utf8 :: "heap \<Rightarrow> int \<Rightarrow> bytes option \<Rightarrow> (string + int) \<times> heap" where
  "pith_byte_buffer_write_string_utf8 h a s =
     (let (r, h') = append_to_buffer h a s ''string''
      in (write_result ''byte_buffer_write_string_utf8'' r, h'))"

definition pith_byte_buffer_write_byte :: "heap \<Rightarrow> int \<Rightarrow> int \<Rightarrow> int \<times> heap" where
  "pith_byte_buffer_write_byte h a value' =
     (case pith_byte_buffer_mut h a of
        None \<Rightarrow> (0, h)
      | Some d \<Rightarrow>
          if \<not> (0 \<le> value' \<and> value' \<le> 255) then (0, h)
          else (1, set_cell h a (Some (BufferCell (d @ [word_of_int value'])))))"

text \<open>The overlapping copy: each round copies what is available from \<open>src\<close>, and the region
  already written feeds the next round. The loop would not end with \<open>src\<close> past the end,
  which the caller has excluded.\<close>

function extend_rounds :: "nat \<Rightarrow> bytes \<Rightarrow> nat \<Rightarrow> bytes" where
  "extend_rounds src d remaining =
     (if remaining = 0 \<or> length d \<le> src then d
      else
        let avail = length d - src; n = min avail remaining in
        extend_rounds src (d @ take n (drop src d)) (remaining - n))"
  by pat_completeness auto
termination
  by (relation "measure (\<lambda>(src, d, remaining). remaining)") auto

declare extend_rounds.simps [simp del]

definition copy_within_data :: "bytes \<Rightarrow> nat \<Rightarrow> nat \<Rightarrow> bytes" where
  "copy_within_data d src len =
     (if src + len \<le> length d then d @ drop src (take (src + len) d)
      else extend_rounds src d len)"

definition pith_byte_buffer_copy_within :: "heap \<Rightarrow> int \<Rightarrow> int \<Rightarrow> int \<Rightarrow> int \<times> heap" where
  "pith_byte_buffer_copy_within h a src len =
     (case pith_byte_buffer_mut h a of
        None \<Rightarrow> (0, h)
      | Some d \<Rightarrow>
          if src < 0 \<or> len < 0 \<or> nat src \<ge> length d then (0, h)
          else (1, set_cell h a (Some (BufferCell (copy_within_data d (nat src) (nat len))))))"

definition pith_byte_buffer_write_range :: "heap \<Rightarrow> int \<Rightarrow> int \<Rightarrow> int \<Rightarrow> int \<Rightarrow> int \<times> heap" where
  "pith_byte_buffer_write_range h a src start len =
     (case pith_byte_buffer_mut h a of
        None \<Rightarrow> (0, h)
      | Some d \<Rightarrow>
          (case pith_bytes_ref h src of
             None \<Rightarrow> (0, h)
           | Some (bs, _) \<Rightarrow>
               if start < 0 \<or> len < 0 then (0, h)
               else
                 let start' = nat start; stop = start' + nat len in
                 if stop > length bs then (0, h)
                 else (1, set_cell h a (Some (BufferCell (d @ drop start' (take stop bs)))))))"

definition pith_byte_buffer_write_word :: "heap \<Rightarrow> int \<Rightarrow> int \<Rightarrow> int \<Rightarrow> int \<times> heap" where
  "pith_byte_buffer_write_word h a word count =
     (case pith_byte_buffer_mut h a of
        None \<Rightarrow> (0, h)
      | Some d \<Rightarrow>
          if \<not> (1 \<le> count \<and> count \<le> 8) then (0, h)
          else
            (1, set_cell h a (Some (BufferCell (d @ take (nat count) (to_le_bytes (word_of_int word)))))))"

definition pith_byte_buffer_take_bytes :: "heap \<Rightarrow> int \<Rightarrow> int \<times> heap" where
  "pith_byte_buffer_take_bytes h a =
     (case pith_byte_buffer_mut h a of
        None \<Rightarrow> (0, h)
      | Some d \<Rightarrow> pith_bytes_from_vec (set_cell h a None) d)"

definition pith_byte_buffer_bytes :: "heap \<Rightarrow> int \<Rightarrow> int \<times> heap" where
  "pith_byte_buffer_bytes h a =
     (case pith_byte_buffer_mut h a of
        None \<Rightarrow> (0, h)
      | Some d \<Rightarrow> pith_bytes_from_vec h d)"

definition pith_byte_buffer_string :: "heap \<Rightarrow> int \<Rightarrow> bytes" where
  "pith_byte_buffer_string h a =
     (case pith_byte_buffer_mut h a of
        None \<Rightarrow> []
      | Some d \<Rightarrow> if d = [] then [] else d)"

definition pith_byte_buffer_len :: "heap \<Rightarrow> int \<Rightarrow> int" where
  "pith_byte_buffer_len h a =
     (case pith_byte_buffer_mut h a of None \<Rightarrow> 0 | Some d \<Rightarrow> int (length d))"

definition pith_byte_buffer_get :: "heap \<Rightarrow> int \<Rightarrow> int \<Rightarrow> int" where
  "pith_byte_buffer_get h a index =
     (case pith_byte_buffer_mut h a of
        None \<Rightarrow> 0
      | Some d \<Rightarrow>
          if index < 0 then 0
          else if nat index < length d then uint (d ! nat index) else 0)"

definition pith_byte_buffer_set :: "heap \<Rightarrow> int \<Rightarrow> int \<Rightarrow> int \<Rightarrow> int \<times> heap" where
  "pith_byte_buffer_set h a index value' =
     (case pith_byte_buffer_mut h a of
        None \<Rightarrow> (0, h)
      | Some d \<Rightarrow>
          if index < 0 \<or> \<not> (0 \<le> value' \<and> value' \<le> 255) then (0, h)
          else if nat index \<ge> length d then (0, h)
          else (1, set_cell h a (Some (BufferCell (d[nat index := word_of_int value'])))))"

definition pith_byte_buffer_clear :: "heap \<Rightarrow> int \<Rightarrow> heap" where
  "pith_byte_buffer_clear h a =
     (case pith_byte_buffer_mut h a of
        None \<Rightarrow> h
      | Some _ \<Rightarrow> set_cell h a (Some (BufferCell [])))"

subsection \<open>Comparison\<close>

lemma diff_loop_eq_0_iff:
  "diff_loop x y is diff = 0 \<longleftrightarrow> diff = 0 \<and> (\<forall>i \<in> set is. byte_or_zero x i = byte_or_zero y i)"
  by (induction "is" arbitrary: diff) (auto simp: or_word_eq_0_iff xor_word_eq_0_iff)

lemma diff_start_eq_0_iff: "diff_start x y = 0 \<longleftrightarrow> length x = length y"
proof -
  have "length x XOR length y = 0 \<longleftrightarrow> length x = length y"
    by (metis xor.assoc xor.comm_neutral xor.left_neutral xor_self_eq)
  then show ?thesis by (simp add: diff_start_def)
qed

lemma constant_time_loop_eq:
  "diff_loop x y [0..<max (length x) (length y)] (diff_start x y) = 0 \<longleftrightarrow> x = y"
proof
  assume "diff_loop x y [0..<max (length x) (length y)] (diff_start x y) = 0"
  then have l: "length x = length y" and eq: "\<forall>i < length x. byte_or_zero x i = byte_or_zero y i"
    by (auto simp: diff_loop_eq_0_iff diff_start_eq_0_iff)
  show "x = y" by (rule nth_equalityI) (use l eq in \<open>auto simp: byte_or_zero_def\<close>)
qed (simp add: diff_loop_eq_0_iff diff_start_eq_0_iff)

text \<open>The branch-free comparison answers 1 exactly when both handles are live and the two
  values are equal; an invalid handle never compares equal, not even to itself.\<close>

theorem constant_time_eq_correct:
  "pith_crypto_constant_time_eq h a b =
     (case (pith_bytes_ref h a, pith_bytes_ref h b) of
        (Some (x, _), Some (y, _)) \<Rightarrow> if x = y then 1 else 0
      | _ \<Rightarrow> 0)"
  by (simp add: pith_crypto_constant_time_eq_def constant_time_loop_eq Let_def split: option.split)

subsection \<open>The overlapping copy\<close>

text \<open>The meaning the callers rely on: a forward copy, one byte at a time.\<close>

primrec copy_bytes :: "nat \<Rightarrow> nat \<Rightarrow> bytes \<Rightarrow> bytes" where
  "copy_bytes src 0 d = d"
| "copy_bytes src (Suc n) d = copy_bytes (Suc src) n (d @ [d ! src])"

definition is_copy :: "nat \<Rightarrow> nat \<Rightarrow> bytes \<Rightarrow> bytes \<Rightarrow> bool" where
  "is_copy src n d e \<longleftrightarrow>
     length e = length d + n \<and> take (length d) e = d \<and>
     (\<forall>i < n. e ! (length d + i) = e ! (src + i))"

lemma is_copy_unique:
  assumes "is_copy src n d e" and "is_copy src n d e'" and "src < length d"
  shows "e = e'"
proof (rule nth_equalityI)
  show len: "length e = length e'" using assms by (simp add: is_copy_def)
  fix k assume "k < length e"
  then show "e ! k = e' ! k"
  proof (induction k rule: less_induct)
    case (less k)
    show ?case
    proof (cases "k < length d")
      case True
      then have "e ! k = take (length d) e ! k" and "e' ! k = take (length d) e' ! k" by simp_all
      then show ?thesis using assms by (simp add: is_copy_def)
    next
      case False
      then obtain i where i: "k = length d + i" using le_Suc_ex by (metis not_less)
      with less.prems assms have "i < n" by (simp add: is_copy_def)
      with assms i have "e ! k = e ! (src + i)" and "e' ! k = e' ! (src + i)"
        by (simp_all add: is_copy_def)
      moreover have "e ! (src + i) = e' ! (src + i)"
        using less.IH [of "src + i"] less.prems i assms(3) by simp
      ultimately show ?thesis by simp
    qed
  qed
qed

lemma copy_bytes_is_copy:
  "src < length d \<Longrightarrow> is_copy src n d (copy_bytes src n d)"
proof (induction n arbitrary: src d)
  case 0
  then show ?case by (simp add: is_copy_def)
next
  case (Suc n)
  let ?d = "d @ [d ! src]" and ?e = "copy_bytes (Suc src) n (d @ [d ! src])"
  have ic: "is_copy (Suc src) n ?d ?e" using Suc.prems by (intro Suc.IH) simp
  then have len: "length ?e = Suc (length d + n)" and tk: "take (Suc (length d)) ?e = ?d"
    and step: "\<And>i. i < n \<Longrightarrow> ?e ! (Suc (length d) + i) = ?e ! (Suc src + i)"
    by (auto simp: is_copy_def)
  have pre: "?e ! k = ?d ! k" if "k < Suc (length d)" for k
    using tk that by (metis nth_take)
  have "take (length d) ?e = take (length d) (take (Suc (length d)) ?e)" by (simp add: min_def)
  then have "take (length d) ?e = d" using tk by simp
  moreover have "?e ! (length d + i) = ?e ! (src + i)" if "i < Suc n" for i
  proof (cases i)
    case 0
    then show ?thesis using pre [of "length d"] pre [of src] Suc.prems by (simp add: nth_append)
  next
    case (Suc j)
    then show ?thesis using step [of j] that by simp
  qed
  ultimately show ?case using len by (simp add: is_copy_def)
qed

lemma is_copy_chunk:
  assumes src: "src < length d" and n: "n \<le> length d - src"
    and e: "is_copy src m (d @ take n (drop src d)) e"
    and full: "m = 0 \<or> n = length d - src"
  shows "is_copy src (n + m) d e"
proof -
  let ?d = "d @ take n (drop src d)"
  have ld: "length ?d = length d + n" using n by simp
  have len: "length e = length d + n + m" and tk: "take (length d + n) e = ?d"
    and step: "\<And>i. i < m \<Longrightarrow> e ! (length d + n + i) = e ! (src + i)"
    using e ld by (auto simp: is_copy_def)
  have pre: "e ! k = ?d ! k" if "k < length d + n" for k
    using tk that by (metis nth_take)
  have "take (length d) e = take (length d) (take (length d + n) e)" by (simp add: min_def)
  then have "take (length d) e = d" using tk by simp
  moreover have "e ! (length d + i) = e ! (src + i)" if "i < n + m" for i
    using that
  proof (induction i rule: less_induct)
    case (less i)
    show ?case
    proof (cases "i < n")
      case True
      then have "src + i < length d" using n by simp
      then show ?thesis using True pre [of "length d + i"] pre [of "src + i"] src
        by (simp add: nth_append)
    next
      case False
      then obtain j where j: "i = n + j" using le_Suc_ex by (metis not_less)
      with less.prems have jm: "j < m" by simp
      with full have nf: "n = length d - src" by auto
      have "e ! (length d + i) = e ! (src + j)" using step [OF jm] j by (simp add: add.assoc)
      also have "\<dots> = e ! (length d + j)"
        using less.IH [of j] j nf src jm by simp
      also have "\<dots> = e ! (src + i)" using nf src j by simp
      finally show ?thesis .
    qed
  qed
  ultimately show ?thesis using len by (simp add: is_copy_def)
qed

lemma extend_rounds_is_copy:
  "src < length d \<Longrightarrow> is_copy src r d (extend_rounds src d r)"
proof (induction src d r rule: extend_rounds.induct)
  case (1 src d r)
  show ?case
  proof (cases "r = 0")
    case True
    then show ?thesis by (simp add: extend_rounds.simps is_copy_def)
  next
    case False
    let ?n = "min (length d - src) r"
    let ?e = "extend_rounds src (d @ take ?n (drop src d)) (r - ?n)"
    have "is_copy src (r - ?n) (d @ take ?n (drop src d)) ?e"
      using "1.IH" False "1.prems" by simp
    then have "is_copy src (?n + (r - ?n)) d ?e"
      using "1.prems" by (intro is_copy_chunk) auto
    then show ?thesis
      using False "1.prems" by (simp add: extend_rounds.simps [of src d r] Let_def)
  qed
qed

lemma copy_within_is_copy:
  assumes "src < length d"
  shows "is_copy src n d (copy_within_data d src n)"
proof (cases "src + n \<le> length d")
  case True
  have "is_copy src 0 (d @ take n (drop src d)) (d @ take n (drop src d))"
    using True by (simp add: is_copy_def min_def)
  then have "is_copy src (n + 0) d (d @ take n (drop src d))"
    using assms True by (intro is_copy_chunk) auto
  then show ?thesis using True by (simp add: copy_within_data_def drop_take)
next
  case False
  then show ?thesis using assms extend_rounds_is_copy [of src d n] by (simp add: copy_within_data_def)
qed

text \<open>The doubling copy of \<open>pith_byte_buffer_copy_within\<close> appends exactly what a forward
  copy of one byte at a time appends, overlap or not, and refuses a bad handle or range with
  the buffer untouched.\<close>

theorem copy_within_is_byte_loop:
  "pith_byte_buffer_copy_within h a src len =
     (case pith_byte_buffer_mut h a of
        None \<Rightarrow> (0, h)
      | Some d \<Rightarrow>
          if 0 \<le> src \<and> src < int (length d) \<and> 0 \<le> len
          then (1, set_cell h a (Some (BufferCell (copy_bytes (nat src) (nat len) d))))
          else (0, h))"
proof -
  have "copy_within_data d (nat src) n = copy_bytes (nat src) n d" if "nat src < length d" for d n
    using that is_copy_unique copy_within_is_copy copy_bytes_is_copy by blast
  then show ?thesis
    by (auto simp: pith_byte_buffer_copy_within_def nat_less_iff not_less not_le
        zless_nat_eq_int_zless split: option.split)
qed

subsection \<open>Cells\<close>

lemma ref_set_cell [simp]:
  "pith_bytes_ref (set_cell h a c) b =
     (if b = a then (if plausibly_aligned a then
        (case c of Some (BytesCell d rc) \<Rightarrow> Some (d, rc) | _ \<Rightarrow> None) else None)
      else pith_bytes_ref h b)"
  by (simp add: pith_bytes_ref_def set_cell_def)

lemma mut_set_cell [simp]:
  "pith_byte_buffer_mut (set_cell h a c) b =
     (if b = a then (if plausibly_aligned a then
        (case c of Some (BufferCell d) \<Rightarrow> Some d | _ \<Rightarrow> None) else None)
      else pith_byte_buffer_mut h b)"
  by (simp add: pith_byte_buffer_mut_def set_cell_def)

lemma refD:
  "pith_bytes_ref h a = Some (d, rc) \<Longrightarrow> plausibly_aligned a \<and> cells h a = Some (BytesCell d rc)"
  by (auto simp: pith_bytes_ref_def split: if_splits option.splits cell.splits)

lemma mutD:
  "pith_byte_buffer_mut h a = Some d \<Longrightarrow> plausibly_aligned a \<and> cells h a = Some (BufferCell d)"
  by (auto simp: pith_byte_buffer_mut_def split: if_splits option.splits cell.splits)

lemma ref_not_mut: "pith_bytes_ref h a = Some x \<Longrightarrow> pith_byte_buffer_mut h a = None"
  by (cases x) (auto dest: refD simp: pith_byte_buffer_mut_def)

lemma heap_ok_fresh:
  "heap_ok h \<Longrightarrow> plausibly_aligned (next_addr h) \<and> cells h (next_addr h) = None"
  by (auto simp: heap_ok_def plausibly_aligned_def)

lemma ref_box_new:
  "heap_ok h \<Longrightarrow> pith_bytes_ref (snd (box_new h c)) b =
     (if b = next_addr h then (case c of BytesCell d rc \<Rightarrow> Some (d, rc) | _ \<Rightarrow> None)
      else pith_bytes_ref h b)"
  by (simp add: pith_bytes_ref_def box_new_def heap_ok_fresh)

lemma fst_box_new [simp]: "fst (box_new h c) = next_addr h"
  by (simp add: box_new_def)

lemma next_addr_set_cell [simp]: "next_addr (set_cell h a c) = next_addr h"
  by (simp add: set_cell_def)

lemma heap_ok_set_cell:
  "heap_ok h \<Longrightarrow> a < next_addr h \<or> c = None \<Longrightarrow> heap_ok (set_cell h a c)"
  by (auto simp: heap_ok_def set_cell_def)

lemma heap_ok_box_new: "heap_ok h \<Longrightarrow> heap_ok (snd (box_new h c))"
  by (auto simp: heap_ok_def box_new_def)

lemma heap_ok_live: "heap_ok h \<Longrightarrow> cells h a = Some c \<Longrightarrow> a < next_addr h"
  by (metis heap_ok_def not_le option.distinct(1))

subsection \<open>Word round trips\<close>

lemma bit_from_le_bytes:
  "bit (from_le_bytes bs) n \<longleftrightarrow> n < 64 \<and> n div 8 < length bs \<and> bit (bs ! (n div 8)) (n mod 8)"
proof (induction bs arbitrary: n)
  case Nil
  then show ?case by simp
next
  case (Cons b bs)
  show ?case
  proof (cases "n < 8")
    case True
    then show ?thesis by (auto simp: bit_simps)
  next
    case False
    then obtain m where m: "n = m + 8" by (metis add.commute le_Suc_ex not_less)
    have "bit (ucast b :: u64) n = False" using m by (auto simp: bit_simps dest: bit_imp_le_length)
    then have "bit (from_le_bytes (b # bs)) n \<longleftrightarrow> bit (push_bit 8 (from_le_bytes bs)) n"
      by (simp add: bit_or_iff del: push_bit_numeral)
    also have "\<dots> \<longleftrightarrow> n < 64 \<and> bit (from_le_bytes bs) m"
      using m by (auto simp: bit_push_bit_iff possible_bit_def simp del: push_bit_numeral)
    finally have "bit (from_le_bytes (b # bs)) n \<longleftrightarrow> n < 64 \<and> bit (from_le_bytes bs) m" .
    moreover have "n div 8 = Suc (m div 8)" and "n mod 8 = m mod 8" and "m < n" using m by simp_all
    ultimately show ?thesis by (auto simp: Cons.IH [of m] simp del: from_le_bytes.simps)
  qed
qed

lemma bit_to_le_bytes:
  "i < 8 \<Longrightarrow> k < 8 \<Longrightarrow> bit (to_le_bytes w ! i) k \<longleftrightarrow> bit w (8 * i + k)"
  by (simp add: to_le_bytes_def bit_simps)

lemma length_to_le_bytes [simp]: "length (to_le_bytes w) = 8"
  by (simp add: to_le_bytes_def)

lemma from_to_le_bytes:
  assumes "k \<le> 8"
  shows "from_le_bytes (take k (to_le_bytes w) @ replicate (8 - k) 0) = take_bit (8 * k) w"
proof (rule bit_eqI)
  fix n assume n: "possible_bit TYPE(u64) n"
  then have n64: "n < 64" by (simp add: possible_bit_def)
  have "bit (from_le_bytes (take k (to_le_bytes w) @ replicate (8 - k) 0)) n \<longleftrightarrow>
        n div 8 < k \<and> bit (to_le_bytes w ! (n div 8)) (n mod 8)"
    using assms n64 by (auto simp: bit_from_le_bytes nth_append)
  also have "\<dots> \<longleftrightarrow> n div 8 < k \<and> bit w n"
    using assms n64 by (auto simp: bit_to_le_bytes)
  also have "\<dots> \<longleftrightarrow> bit (take_bit (8 * k) w) n"
    by (auto simp: bit_take_bit_iff)
  finally show "bit (from_le_bytes (take k (to_le_bytes w) @ replicate (8 - k) 0)) n =
    bit (take_bit (8 * k) w) n" .
qed

text \<open>The low \<open>k\<close> bytes of a word that \<open>pith_byte_buffer_write_word\<close> appends are read back
  by \<open>pith_bytes_read_word\<close> from the bytes value extracted with
  \<open>pith_byte_buffer_take_bytes\<close>, as the word reduced to \<open>8 * k\<close> bits.\<close>

theorem word_round_trip:
  assumes h: "heap_ok h" and m: "pith_byte_buffer_mut h a = Some d" and k: "1 \<le> k" "k \<le> 8"
  shows "let (ok, h1) = pith_byte_buffer_write_word h a w k;
             (b, h2) = pith_byte_buffer_take_bytes h1 a
         in ok = 1 \<and>
            pith_bytes_read_word h2 b (int (length d)) k =
              sint (take_bit (8 * nat k) (word_of_int w :: u64))"
proof -
  let ?e = "d @ take (nat k) (to_le_bytes (word_of_int w))"
  let ?h1 = "set_cell h a (Some (BufferCell ?e))"
  have al: "plausibly_aligned a" and lt: "a < next_addr h"
    using mutD [OF m] h heap_ok_live by blast+
  have w1: "pith_byte_buffer_write_word h a w k = (1, ?h1)"
    using m k by (simp add: pith_byte_buffer_write_word_def)
  have m1: "pith_byte_buffer_mut ?h1 a = Some ?e" using al by simp
  have ok2: "heap_ok (set_cell ?h1 a None)" using h lt by (intro heap_ok_set_cell) auto
  define h2 where "h2 = snd (box_new (set_cell ?h1 a None) (BytesCell ?e 1))"
  have t: "pith_byte_buffer_take_bytes ?h1 a = (next_addr h, h2)"
    using m1 by (simp add: pith_byte_buffer_take_bytes_def pith_bytes_from_vec_def h2_def prod_eq_iff)
  have r: "pith_bytes_ref h2 (next_addr h) = Some (?e, 1)"
    unfolding h2_def using ref_box_new [OF ok2] by simp
  have "pith_bytes_read_word h2 (next_addr h) (int (length d)) k =
        sint (take_bit (8 * nat k) (word_of_int w :: u64))"
    using r k from_to_le_bytes [of "nat k" "word_of_int w"]
    by (simp add: pith_bytes_read_word_def Let_def)
  then show ?thesis by (simp add: w1 t)
qed

lemma heap_ok_empty [simp]: "heap_ok empty_heap"
  by (simp add: heap_ok_def empty_heap_def)

lemma fresh_buffer:
  "pith_byte_buffer_mut (snd (pith_byte_buffer_new empty_heap)) 8 = Some []"
  "heap_ok (snd (pith_byte_buffer_new empty_heap))"
  by (simp_all add: pith_byte_buffer_new_def pith_byte_buffer_mut_def box_new_def empty_heap_def
      plausibly_aligned_def heap_ok_def)

theorem word_round_trip_witness:
  "let (ok, h1) = pith_byte_buffer_write_word (snd (pith_byte_buffer_new empty_heap)) 8 (-2) 3;
       (b, h2) = pith_byte_buffer_take_bytes h1 8
   in ok = 1 \<and> pith_bytes_read_word h2 b 0 3 = 0xFFFFFE"
  using word_round_trip [OF fresh_buffer(2) fresh_buffer(1), of 3 "-2"] by simp

subsection \<open>Every operation, as a move of the heap\<close>

datatype byte_op =
    BytesRetain int | BytesRelease int
  | BytesFromString "bytes option" | BytesSlice int int int | BytesConcat int int
  | BufferNew | BufferWithCapacity int | BufferFree int
  | BufferWrite int int | BufferWriteString int "bytes option" | BufferWriteByte int int
  | BufferCopyWithin int int int | BufferWriteRange int int int int | BufferWriteWord int int int
  | BufferTakeBytes int | BufferBytes int | BufferSet int int int | BufferClear int

fun byte_step :: "heap \<Rightarrow> byte_op \<Rightarrow> heap" where
  "byte_step h (BytesRetain a) = pith_bytes_retain h a"
| "byte_step h (BytesRelease a) = pith_bytes_release h a"
| "byte_step h (BytesFromString s) = snd (pith_bytes_from_string_utf8 h s)"
| "byte_step h (BytesSlice a i j) = snd (pith_bytes_slice h a i j)"
| "byte_step h (BytesConcat a b) = snd (pith_bytes_concat h a b)"
| "byte_step h BufferNew = snd (pith_byte_buffer_new h)"
| "byte_step h (BufferWithCapacity n) = snd (pith_byte_buffer_with_capacity h n)"
| "byte_step h (BufferFree a) = pith_byte_buffer_free h a"
| "byte_step h (BufferWrite a b) = snd (pith_byte_buffer_write h a b)"
| "byte_step h (BufferWriteString a s) = snd (pith_byte_buffer_write_string_utf8 h a s)"
| "byte_step h (BufferWriteByte a v) = snd (pith_byte_buffer_write_byte h a v)"
| "byte_step h (BufferCopyWithin a i n) = snd (pith_byte_buffer_copy_within h a i n)"
| "byte_step h (BufferWriteRange a b i n) = snd (pith_byte_buffer_write_range h a b i n)"
| "byte_step h (BufferWriteWord a w k) = snd (pith_byte_buffer_write_word h a w k)"
| "byte_step h (BufferTakeBytes a) = snd (pith_byte_buffer_take_bytes h a)"
| "byte_step h (BufferBytes a) = snd (pith_byte_buffer_bytes h a)"
| "byte_step h (BufferSet a i v) = snd (pith_byte_buffer_set h a i v)"
| "byte_step h (BufferClear a) = pith_byte_buffer_clear h a"

inductive heap_move :: "heap \<Rightarrow> heap \<Rightarrow> bool" where
  same: "heap_move h h"
| recount: "pith_bytes_ref h a = Some (d, rc) \<Longrightarrow> heap_move h (set_cell h a (Some (BytesCell d rc')))"
| last: "pith_bytes_ref h a = Some (d, 1) \<Longrightarrow> heap_move h (set_cell h a None)"
| rewrite: "pith_byte_buffer_mut h a = Some d \<Longrightarrow> heap_move h (set_cell h a (Some (BufferCell d')))"
| alloc: "heap_move h (snd (box_new h c))"
| free: "pith_byte_buffer_mut h a = Some d \<Longrightarrow> heap_move h (set_cell h a None)"
| take_out: "pith_byte_buffer_mut h a = Some d \<Longrightarrow>
     heap_move h (snd (box_new (set_cell h a None) (BytesCell d 1)))"

lemmas byte_op_defs =
  pith_bytes_retain_def pith_bytes_from_string_utf8_def pith_bytes_from_vec_def
  pith_bytes_slice_def pith_bytes_concat_def pith_byte_buffer_new_def
  pith_byte_buffer_with_capacity_def pith_byte_buffer_free_def append_to_buffer_def
  pith_byte_buffer_write_def pith_byte_buffer_write_string_utf8_def pith_byte_buffer_write_byte_def
  pith_byte_buffer_copy_within_def pith_byte_buffer_write_range_def pith_byte_buffer_write_word_def
  pith_byte_buffer_take_bytes_def pith_byte_buffer_bytes_def pith_byte_buffer_set_def
  pith_byte_buffer_clear_def

lemma retain_move: "heap_move h (pith_bytes_retain h a)"
  by (auto simp: pith_bytes_retain_def intro: heap_move.intros split: option.split)

lemma count_cases: "(c :: u32) \<noteq> 0 \<Longrightarrow> \<not> 1 < c \<Longrightarrow> c = 1"
  by (simp add: word_less_nat_alt word_unat_eq_iff)

lemma release_move: "heap_move h (pith_bytes_release h a)"
  by (auto dest: count_cases simp: pith_bytes_release_def count_release_def Let_def
      intro: heap_move.intros split: option.split)

lemma byte_step_move: "heap_move h (byte_step h op)"
proof (cases op)
  case (BytesRetain a)
  then show ?thesis by (simp add: retain_move)
next
  case (BytesRelease a)
  then show ?thesis by (simp add: release_move)
next
  case (BytesSlice a i j)
  then show ?thesis
    by (auto simp: pith_bytes_slice_def pith_bytes_from_vec_def retain_move Let_def
        intro: heap_move.intros split: option.split prod.split)
next
  case (BytesConcat a b)
  then show ?thesis
    by (auto simp: pith_bytes_concat_def pith_bytes_from_vec_def retain_move
        intro: heap_move.intros split: option.split prod.split)
qed (auto simp: byte_op_defs Let_def intro: heap_move.intros split: option.split prod.split)

lemma heap_move_ok [pith_inv]: "heap_move h h' \<Longrightarrow> heap_ok h \<Longrightarrow> heap_ok h'"
  by (induction rule: heap_move.induct)
    (auto intro!: heap_ok_set_cell heap_ok_box_new dest!: refD mutD dest: heap_ok_live)

lemma heap_move_contents:
  "heap_move h h' \<Longrightarrow> heap_ok h \<Longrightarrow> pith_bytes_ref h a = Some (d, rc) \<Longrightarrow>
   pith_bytes_ref h' a = None \<and> rc = 1 \<or> (\<exists>rc'. pith_bytes_ref h' a = Some (d, rc'))"
proof (induction rule: heap_move.induct)
  case (alloc h c)
  then have "a \<noteq> next_addr h" using heap_ok_fresh refD by fastforce
  with alloc show ?case by (simp add: ref_box_new)
next
  case (take_out h b e)
  then have "a < next_addr h" and "a \<noteq> b" using heap_ok_live refD mutD by fastforce+
  moreover have "heap_ok (set_cell h b None)" using take_out by (intro heap_ok_set_cell) auto
  ultimately show ?case using take_out by (simp add: ref_box_new)
qed (auto dest: ref_not_mut refD split: if_splits)

text \<open>Bytes values are immutable: whatever operation runs, a live value keeps its contents,
  and it can only go away when its count is one.\<close>

theorem bytes_immutable:
  assumes "heap_ok h" and "pith_bytes_ref h a = Some (d, rc)"
  shows "heap_ok (byte_step h op) \<and>
    (pith_bytes_ref (byte_step h op) a = None \<and> rc = 1 \<or>
     (\<exists>rc'. pith_bytes_ref (byte_step h op) a = Some (d, rc')))"
  using heap_move_ok [OF byte_step_move assms(1)] heap_move_contents [OF byte_step_move assms]
  by blast

theorem bytes_immutable_witness:
  "let h = snd (pith_bytes_from_vec empty_heap [1, 2]) in
   heap_ok (byte_step h (BytesRelease 8)) \<and> pith_bytes_ref (byte_step h (BytesRelease 8)) 8 = None"
proof -
  let ?h = "snd (pith_bytes_from_vec empty_heap [1, 2])"
  have r: "pith_bytes_ref ?h 8 = Some ([1, 2], 1)"
    by (simp add: pith_bytes_from_vec_def ref_box_new empty_heap_def heap_ok_def)
  have ok: "heap_ok ?h" by (simp add: pith_bytes_from_vec_def heap_ok_box_new)
  have "pith_bytes_ref (byte_step ?h (BytesRelease 8)) 8 = None"
    using r by (simp add: pith_bytes_release_def count_release_def plausibly_aligned_def)
  then show ?thesis using bytes_immutable [OF ok r, of "BytesRelease 8"] by (simp add: Let_def)
qed

lemma release_step:
  assumes "pith_bytes_ref h a = Some (d, rc)" and "rc \<noteq> 0"
  shows "pith_bytes_ref (pith_bytes_release h a) a = (if rc = 1 then None else Some (d, rc - 1))"
proof -
  have "plausibly_aligned a" using refD [OF assms(1)] by simp
  moreover have "1 < rc" if "rc \<noteq> 1" using that assms(2) by (simp add: word_less_nat_alt word_unat_eq_iff)
  ultimately show ?thesis
    using assms by (auto simp: pith_bytes_release_def count_release_def Let_def)
qed

text \<open>A value holding \<open>n\<close> counts survives \<open>n - 1\<close> releases, each taking one count, and the
  \<open>n\<close>-th frees it; from then on its handle is refused.\<close>

theorem bytes_freed_by_last_release:
  assumes "pith_bytes_ref h a = Some (d, rc)" and "rc \<noteq> 0"
  shows "(k < unat rc \<longrightarrow>
            pith_bytes_ref (((\<lambda>x. pith_bytes_release x a) ^^ k) h) a = Some (d, rc - of_nat k)) \<and>
         pith_bytes_ref (((\<lambda>x. pith_bytes_release x a) ^^ unat rc) h) a = None"
proof -
  let ?f = "\<lambda>x. pith_bytes_release x a"
  have live: "pith_bytes_ref ((?f ^^ j) h) a = Some (d, rc - of_nat j)" if "j < unat rc" for j
    using that
  proof (induction j)
    case 0
    then show ?case using assms by simp
  next
    case (Suc j)
    have "unat rc < 2 ^ 32" using unsigned_less [of rc] by simp
    then have u: "unat (of_nat j :: u32) = j" using Suc.prems by (simp add: unat_of_nat)
    have "rc - of_nat j \<noteq> 0" and "rc - of_nat j \<noteq> 1"
      using Suc.prems u by (auto simp: word_unat_eq_iff unat_sub word_le_nat_alt)
    then show ?case
      using Suc release_step [of "(?f ^^ j) h" a d "rc - of_nat j"] by (simp add: algebra_simps)
  qed
  obtain j where j: "unat rc = Suc j" using assms(2) by (metis not0_implies_Suc unat_eq_zero)
  have "rc = of_nat (unat rc)" by simp
  then have "rc = of_nat (Suc j)" unfolding j .
  then have "rc - of_nat j = 1" by simp
  then have "pith_bytes_ref (?f ((?f ^^ j) h)) a = None"
    using live [of j] j release_step [of "(?f ^^ j) h" a d 1] by simp
  then show ?thesis using live j by simp
qed

theorem bytes_freed_by_last_release_witness:
  "let h = pith_bytes_retain (snd (pith_bytes_from_vec empty_heap [7])) 8 in
   pith_bytes_ref (pith_bytes_release h 8) 8 = Some ([7], 1) \<and>
   pith_bytes_ref (pith_bytes_release (pith_bytes_release h 8) 8) 8 = None"
proof -
  let ?h = "pith_bytes_retain (snd (pith_bytes_from_vec empty_heap [7])) 8"
  have r: "pith_bytes_ref ?h 8 = Some ([7], 2)"
    by (simp add: pith_bytes_retain_def pith_bytes_from_vec_def ref_box_new empty_heap_def heap_ok_def
        plausibly_aligned_def)
  have u: "unat (2 :: u32) = Suc (Suc 0)" by simp
  show ?thesis
    using bytes_freed_by_last_release [OF r, of 1, unfolded u] by (simp add: Let_def)
qed

end
