(* ===== verification/Search.thy ===== *)
theory Search
  imports Prelude
begin

text \<open>
  \<open>cranelift/runtime/src/substring.rs\<close>: substring search. libc's \<open>memmem\<close> and \<open>memchr\<close> are
  parameters; what the runtime relies on is their documented answer, the first occurrence.
  The packed-pair prefilter is modelled with its bit mask: one bit per start position of a
  sixteen-byte window, the lowest set bit tried first.
\<close>

subsection \<open>Occurrences\<close>

definition occurs_at :: "bytes \<Rightarrow> bytes \<Rightarrow> nat \<Rightarrow> bool" where
  "occurs_at h n i \<longleftrightarrow> i + length n \<le> length h \<and> take (length n) (drop i h) = n"

definition first_occ :: "bytes \<Rightarrow> bytes \<Rightarrow> nat \<Rightarrow> nat option" where
  "first_occ h n s = List.find (occurs_at h n) [s..<Suc (length h)]"

lemma occurs_at_bound: "occurs_at h n i \<Longrightarrow> i + length n \<le> length h"
  by (simp add: occurs_at_def)

lemma find_upt_Some_iff:
  "List.find P [s..<e] = Some i \<longleftrightarrow> s \<le> i \<and> i < e \<and> P i \<and> (\<forall>j. s \<le> j \<longrightarrow> j < i \<longrightarrow> \<not> P j)"
proof (induction "e - s" arbitrary: s)
  case 0
  then show ?case by auto
next
  case (Suc k)
  then have l: "s < e" and k: "k = e - Suc s" by auto
  show ?case
    using Suc.hyps(1) [OF k] l
    by (auto simp: upt_conv_Cons Suc_le_eq dest: le_neq_implies_less)
qed

lemma find_upt_None_iff: "List.find P [s..<e] = None \<longleftrightarrow> (\<forall>i. s \<le> i \<longrightarrow> i < e \<longrightarrow> \<not> P i)"
  by (auto simp: find_None_iff)

lemma first_occ_Some_iff:
  "first_occ h n s = Some i \<longleftrightarrow>
     s \<le> i \<and> occurs_at h n i \<and> (\<forall>j. s \<le> j \<longrightarrow> j < i \<longrightarrow> \<not> occurs_at h n j)"
  unfolding first_occ_def find_upt_Some_iff by (auto dest: occurs_at_bound)

lemma first_occ_None_iff: "first_occ h n s = None \<longleftrightarrow> (\<forall>i \<ge> s. \<not> occurs_at h n i)"
  unfolding first_occ_def find_upt_None_iff using occurs_at_bound by fastforce

lemma occurs_at_drop: "k \<le> length h \<Longrightarrow> occurs_at (drop k h) n i \<longleftrightarrow> occurs_at h n (k + i)"
  by (auto simp: occurs_at_def add.commute add.left_commute)

lemma first_occ_skip:
  assumes "\<And>j. s \<le> j \<Longrightarrow> j < t \<Longrightarrow> \<not> occurs_at h n j" and "s \<le> t"
  shows "first_occ h n s = first_occ h n t"
proof (rule option_ext)
  fix i
  show "first_occ h n s = Some i \<longleftrightarrow> first_occ h n t = Some i"
    unfolding first_occ_Some_iff using assms by (meson not_le order_trans)
qed

lemma first_occ_drop:
  assumes "k \<le> length h"
  shows "map_option ((+) k) (first_occ (drop k h) n i) = first_occ h n (k + i)"
proof (rule option_ext)
  fix r
  have *: "first_occ (drop k h) n i = Some j \<longleftrightarrow> first_occ h n (k + i) = Some (k + j)" for j
  proof
    assume "first_occ (drop k h) n i = Some j"
    then have j: "i \<le> j" "occurs_at h n (k + j)"
      and no: "\<And>l. i \<le> l \<Longrightarrow> l < j \<Longrightarrow> \<not> occurs_at h n (k + l)"
      by (auto simp: first_occ_Some_iff occurs_at_drop [OF assms])
    have "\<not> occurs_at h n l" if "k + i \<le> l" "l < k + j" for l
      using no [of "l - k"] that by simp
    then show "first_occ h n (k + i) = Some (k + j)" using j by (simp add: first_occ_Some_iff)
  next
    assume "first_occ h n (k + i) = Some (k + j)"
    then show "first_occ (drop k h) n i = Some j"
      by (simp add: first_occ_Some_iff occurs_at_drop [OF assms])
  qed
  have "map_option ((+) k) (first_occ (drop k h) n i) = Some r \<longleftrightarrow>
        (\<exists>j. first_occ (drop k h) n i = Some j \<and> r = k + j)"
    by auto
  also have "\<dots> \<longleftrightarrow> first_occ h n (k + i) = Some r"
    using * by (metis first_occ_Some_iff le_Suc_ex add.assoc)
  finally show "map_option ((+) k) (first_occ (drop k h) n i) = Some r \<longleftrightarrow>
    first_occ h n (k + i) = Some r" .
qed

subsection \<open>The prefilter\<close>

definition trailing_zeros :: "u32 \<Rightarrow> nat" where
  "trailing_zeros m = length (takeWhile (\<lambda>i. \<not> bit m i) [0..<32])"

text \<open>One bit per position of the window at \<open>at\<close>: its first byte and its last byte match.\<close>

definition pair_mask :: "bytes \<Rightarrow> bytes \<Rightarrow> nat \<Rightarrow> u32" where
  "pair_mask h n at =
     horner_sum of_bool 2
       (map (\<lambda>i. h ! (at + i) = n ! 0 \<and> h ! (at + i + (length n - 1)) = n ! (length n - 1)) [0..<16])"

datatype probe = Found nat | Missed nat

text \<open>The candidates of one window, lowest first; a false one costs a miss.\<close>

function try_mask :: "bytes \<Rightarrow> bytes \<Rightarrow> nat \<Rightarrow> u32 \<Rightarrow> nat \<Rightarrow> probe" where
  "try_mask h n at m misses =
     (if m = 0 then Missed misses
      else
        let pos = at + trailing_zeros m in
        if take (length n) (drop pos h) = n then Found pos
        else try_mask h n at (m AND (m - 1)) (Suc misses))"
  by pat_completeness auto
termination
proof (relation "measure (\<lambda>(h, n, at, m, misses). unat m)")
  fix m :: u32
  assume "m \<noteq> 0"
  then have "unat (m - 1) < unat m" by (simp add: unat_minus_one unat_gt_0)
  moreover have "unat (m AND (m - 1)) \<le> unat (m - 1)"
    by (meson word_and_le1 word_le_nat_alt)
  ultimately show "((h, n, at, m AND (m - 1), Suc misses), h, n, at, m, misses)
      \<in> measure (\<lambda>(h, n, at, m, misses). unat m)" for h :: bytes and n :: bytes and at misses :: nat
    by simp
qed simp

declare try_mask.simps [simp del]

function pair_windows ::
  "(bytes \<Rightarrow> bytes \<Rightarrow> nat option) \<Rightarrow> bytes \<Rightarrow> bytes \<Rightarrow> nat \<Rightarrow> nat \<Rightarrow> nat \<Rightarrow> nat option" where
  "pair_windows memmem h n stop misses at =
     (if at \<le> stop then
        (case try_mask h n at (pair_mask h n at) misses of
           Found pos \<Rightarrow> Some pos
         | Missed misses' \<Rightarrow>
             if misses' > 64 + (at + 16) div 8
             then map_option ((+) (at + 16)) (memmem (drop (at + 16) h) n)
             else pair_windows memmem h n stop misses' (at + 16))
      else map_option ((+) at) (memmem (drop at h) n))"
  by pat_completeness auto
termination
  by (relation "measure (\<lambda>(memmem, h, n, stop, misses, at). Suc stop - at)") auto

declare pair_windows.simps [simp del]

definition packed_pair ::
  "(bytes \<Rightarrow> bytes \<Rightarrow> nat option) \<Rightarrow> bytes \<Rightarrow> bytes \<Rightarrow> nat option" where
  "packed_pair memmem h n =
     (let last' = length n - 1 in
      if length h - last' < 16 then memmem h n
      else pair_windows memmem h n (length h - last' - 16) 0 0)"

definition PAIR_MIN_HAYSTACK :: nat where
  "PAIR_MIN_HAYSTACK = 32"

text \<open>\<open>x86_64\<close> says whether the prefilter was compiled in.\<close>

definition find_from ::
  "bool \<Rightarrow> (bytes \<Rightarrow> bytes \<Rightarrow> nat option) \<Rightarrow> (bytes \<Rightarrow> u8 \<Rightarrow> nat option) \<Rightarrow>
   bytes \<Rightarrow> bytes \<Rightarrow> nat \<Rightarrow> nat option" where
  "find_from x86_64 memmem memchr h n start =
     (if start > length h then None
      else if length n = 0 then Some start
      else if length h - start < length n then None
      else
        let rest = drop start h in
        if length n = 1 then map_option ((+) start) (memchr rest (n ! 0))
        else if x86_64 \<and> length rest \<ge> PAIR_MIN_HAYSTACK
        then map_option ((+) start) (packed_pair memmem rest n)
        else map_option ((+) start) (memmem rest n))"

definition find_sub ::
  "bool \<Rightarrow> (bytes \<Rightarrow> bytes \<Rightarrow> nat option) \<Rightarrow> (bytes \<Rightarrow> u8 \<Rightarrow> nat option) \<Rightarrow>
   bytes \<Rightarrow> bytes \<Rightarrow> nat option" where
  "find_sub x86_64 memmem memchr h n = find_from x86_64 memmem memchr h n 0"


subsection \<open>The mask's bits\<close>

lemma trailing_zeros_prop:
  assumes "m \<noteq> 0"
  shows "trailing_zeros m < 32" and "bit m (trailing_zeros m)"
    and "j < trailing_zeros m \<Longrightarrow> \<not> bit m j"
proof -
  let ?tw = "takeWhile (\<lambda>i. \<not> bit m i) [0..<32]"
  have "m = 0" if "\<forall>b<32. \<not> bit m b"
    using that by (auto intro!: bit_word_eqI)
  then have "?tw \<noteq> [0..<32]"
    using assms unfolding takeWhile_eq_all_conv by fastforce
  then have "length ?tw < length [0..<32]"
    by (metis length_takeWhile_le linorder_not_less le_neq_implies_less takeWhile_eq_take take_all)
  then show len: "trailing_zeros m < 32" and "bit m (trailing_zeros m)"
    using nth_length_takeWhile [of "\<lambda>i. \<not> bit m i" "[0..<32]"]
    by (auto simp: trailing_zeros_def)
  show "\<not> bit m j" if "j < trailing_zeros m"
  proof -
    have "?tw ! j \<in> set ?tw"
      using that by (intro nth_mem) (simp add: trailing_zeros_def)
    moreover have "?tw ! j = [0..<32] ! j"
      using that by (simp add: trailing_zeros_def takeWhile_nth)
    ultimately show ?thesis using that len by (auto dest: set_takeWhileD)
  qed
qed

lemma clear_lowest_bit:
  assumes "m \<noteq> 0"
  shows "bit (m AND (m - 1)) j \<longleftrightarrow> bit m j \<and> j \<noteq> trailing_zeros m"
proof -
  let ?t = "trailing_zeros m"
  let ?r = "unset_bit ?t m"
  note tz = trailing_zeros_prop [OF assms]
  have "m = ?r OR push_bit ?t 1"
    by (rule bit_eqI) (use tz in \<open>auto simp: bit_simps\<close>)
  also have "\<dots> = ?r + push_bit ?t 1"
    by (rule disjunctive_add_eq_or [symmetric]) (rule bit_eqI, auto simp: bit_simps)
  finally have "m - 1 = ?r + mask ?t"
    by (simp add: mask_eq_exp_minus_1 push_bit_of_1)
  also have "\<dots> = ?r OR mask ?t"
    by (rule disjunctive_add_eq_or) (rule bit_eqI, use tz in \<open>auto simp: bit_simps\<close>)
  finally have "m - 1 = ?r OR mask ?t" .
  then show ?thesis using tz(3) by (auto simp: bit_simps)
qed

lemma horner_bit:
  "bit (horner_sum of_bool (2 :: u32) (map P [0..<16])) i \<longleftrightarrow> i < 16 \<and> P i"
  by (auto simp: bit_horner_sum_bit_iff possible_bit_def)

lemma pair_mask_bit:
  "bit (pair_mask h n at) i \<longleftrightarrow>
     i < 16 \<and> h ! (at + i) = n ! 0 \<and> h ! (at + i + (length n - 1)) = n ! (length n - 1)"
  unfolding pair_mask_def by (rule horner_bit)

text \<open>What a window's loop finds: the first set bit whose position matches in full.\<close>

lemma try_mask_Found:
  "try_mask h n at m misses = Found p \<Longrightarrow>
     \<exists>i. p = at + i \<and> bit m i \<and> take (length n) (drop p h) = n \<and>
         (\<forall>j<i. bit m j \<longrightarrow> take (length n) (drop (at + j) h) \<noteq> n)"
proof (induction h n at m misses rule: try_mask.induct)
  case (1 h n at m misses)
  show ?case
  proof (cases "m = 0")
    case True
    then show ?thesis using "1.prems" by (simp add: try_mask.simps [of h n at 0])
  next
    case False
    note tz = trailing_zeros_prop [OF False]
    show ?thesis
    proof (cases "take (length n) (drop (at + trailing_zeros m) h) = n")
      case True
      then show ?thesis using "1.prems" False tz
        by (intro exI [of _ "trailing_zeros m"]) (simp add: try_mask.simps [of h n at m])
    next
      case no: False
      then have "try_mask h n at (m AND (m - 1)) (Suc misses) = Found p"
        using "1.prems" False by (simp add: try_mask.simps [of h n at m])
      then show ?thesis
        using "1.IH" [OF False refl no] no tz(3) by (auto simp: clear_lowest_bit [OF False])
    qed
  qed
qed

lemma try_mask_Missed:
  "try_mask h n at m misses = Missed k \<Longrightarrow> bit m i \<Longrightarrow> take (length n) (drop (at + i) h) \<noteq> n"
proof (induction h n at m misses rule: try_mask.induct)
  case (1 h n at m misses)
  have m: "m \<noteq> 0" using "1.prems"(2) by auto
  let ?t = "trailing_zeros m"
  have no: "take (length n) (drop (at + ?t) h) \<noteq> n"
    using "1.prems"(1) m by (auto simp: try_mask.simps [of h n at m] Let_def)
  then have "try_mask h n at (m AND (m - 1)) (Suc misses) = Missed k"
    using "1.prems"(1) m by (simp add: try_mask.simps [of h n at m])
  then show ?case
    using "1.IH" [OF m refl no] no "1.prems"(2) by (cases "i = ?t") (auto simp: clear_lowest_bit [OF m])
qed

text \<open>A position that matches in full matches at its two ends, so its bit is set.\<close>

lemma occurs_at_bit:
  assumes "occurs_at h n (at + i)" and "i < 16" and "n \<noteq> []"
  shows "bit (pair_mask h n at) i"
proof -
  have "n ! k = h ! (at + i + k)" if "k < length n" for k
    using assms(1) that unfolding occurs_at_def by (metis nth_drop nth_take le_add1 le_trans)
  from this [of 0] this [of "length n - 1"] show ?thesis
    using assms by (simp add: pair_mask_bit)
qed


subsection \<open>The search finds the first occurrence\<close>

locale substring_search =
  fixes memmem :: "bytes \<Rightarrow> bytes \<Rightarrow> nat option"
    and memchr :: "bytes \<Rightarrow> u8 \<Rightarrow> nat option"
  assumes memmem_first: "h \<noteq> [] \<Longrightarrow> n \<noteq> [] \<Longrightarrow> memmem h n = first_occ h n 0"
    and memchr_first: "memchr h c = Some i \<longleftrightarrow> i < length h \<and> h ! i = c \<and> (\<forall>j<i. h ! j \<noteq> c)"
begin

lemma memmem_tail:
  assumes "at < length h" and "n \<noteq> []"
  shows "map_option ((+) at) (memmem (drop at h) n) = first_occ h n at"
  using assms first_occ_drop [of at h n 0] by (simp add: memmem_first)

lemma window_step:
  assumes "n \<noteq> []" and "try_mask h n at (pair_mask h n at) misses = Missed k"
  shows "first_occ h n at = first_occ h n (at + 16)"
proof (rule first_occ_skip)
  fix j assume j: "at \<le> j" "j < at + 16"
  show "\<not> occurs_at h n j"
  proof
    assume o: "occurs_at h n j"
    with j assms(1) have "bit (pair_mask h n at) (j - at)"
      by (intro occurs_at_bit) auto
    from try_mask_Missed [OF assms(2) this] o j show False
      by (simp add: occurs_at_def)
  qed
qed simp

lemma window_found:
  assumes "n \<noteq> []" and "try_mask h n at (pair_mask h n at) misses = Found p"
    and "at + 16 + (length n - 1) \<le> length h"
  shows "first_occ h n at = Some p"
proof -
  from try_mask_Found [OF assms(2)] obtain i where p: "p = at + i" "bit (pair_mask h n at) i"
      "take (length n) (drop p h) = n"
      and before: "\<And>j. j < i \<Longrightarrow> bit (pair_mask h n at) j \<Longrightarrow> take (length n) (drop (at + j) h) \<noteq> n"
    by blast
  have i: "i < 16" using p(2) by (simp add: pair_mask_bit)
  have "\<not> occurs_at h n j" if "at \<le> j" "j < p" for j
  proof
    assume o: "occurs_at h n j"
    with that p(1) i assms(1) have "bit (pair_mask h n at) (j - at)"
      by (intro occurs_at_bit) auto
    with before [of "j - at"] that p(1) o show False by (simp add: occurs_at_def)
  qed
  moreover have "occurs_at h n p"
    using p i assms(1,3) by (cases n) (auto simp: occurs_at_def)
  ultimately show ?thesis using p(1) by (simp add: first_occ_Some_iff)
qed

lemma pair_windows_first:
  assumes "2 \<le> length n" and "stop + 16 + (length n - 1) = length h"
  shows "at < stop + 17 \<Longrightarrow> pair_windows memmem h n stop misses at = first_occ h n at"
proof (induction "Suc stop - at" arbitrary: misses at rule: less_induct)
  case less
  have n: "n \<noteq> []" using assms(1) by auto
  have at: "at < length h" using assms less.prems by linarith
  show ?case
  proof (cases "at \<le> stop")
    case False
    then show ?thesis
      using at n by (simp add: pair_windows.simps [of _ h n stop misses at] memmem_tail)
  next
    case True
    show ?thesis
    proof (cases "try_mask h n at (pair_mask h n at) misses")
      case (Found p)
      then show ?thesis
        using window_found [OF n Found] True assms(2)
        by (simp add: pair_windows.simps [of _ h n stop misses at])
    next
      case (Missed k)
      have "at + 16 < length h" using True assms by linarith
      then show ?thesis
        using Missed True n less.hyps [of "at + 16" k] window_step [OF n Missed]
        by (simp add: pair_windows.simps [of _ h n stop misses at] memmem_tail)
    qed
  qed
qed

lemma packed_pair_first:
  assumes "2 \<le> length n" and "length n \<le> length h"
  shows "packed_pair memmem h n = first_occ h n 0"
proof (cases "length h - (length n - 1) < 16")
  case True
  have "h \<noteq> []" and "n \<noteq> []" using assms by auto
  then show ?thesis using True by (simp add: packed_pair_def Let_def memmem_first)
next
  case False
  then show ?thesis
    using assms pair_windows_first [of n "length h - (length n - 1) - 16" h 0 0]
    by (simp add: packed_pair_def Let_def)
qed

lemma memchr_first_occ: "memchr h c = first_occ h [c] 0"
proof (rule option_ext)
  fix i
  have o: "occurs_at h [c] j \<longleftrightarrow> j < length h \<and> h ! j = c" for j
    by (auto simp: occurs_at_def take_Suc hd_drop_conv_nth)
  show "memchr h c = Some i \<longleftrightarrow> first_occ h [c] 0 = Some i"
    by (auto simp: memchr_first first_occ_Some_iff o)
qed

lemma find_from_first:
  "find_from x86_64 memmem memchr h n start =
     (if start \<le> length h then first_occ h n start else None)"
proof -
  consider "start > length h" | "start \<le> length h" "n = []"
    | "start \<le> length h" "n \<noteq> []" "length h - start < length n"
    | "length n = 1" "start < length h"
    | "2 \<le> length n" "start + length n \<le> length h"
    by (cases "length n = 0"; cases "length n = 1"; simp) linarith+
  then show ?thesis
  proof cases
    case 2
    then have "first_occ h n start = Some start" by (simp add: first_occ_Some_iff occurs_at_def)
    with 2 show ?thesis by (simp add: find_from_def)
  next
    case 3
    then have "first_occ h n start = None" by (auto simp: first_occ_None_iff occurs_at_def)
    then show ?thesis using 3 by (simp add: find_from_def)
  next
    case 4
    then obtain c where "n = [c]" by (auto simp: length_Suc_conv)
    with 4 show ?thesis
      using first_occ_drop [of start h n 0] by (simp add: find_from_def memchr_first_occ)
  next
    case 5
    have "drop start h \<noteq> []" "n \<noteq> []" using 5 by auto
    then show ?thesis
      using 5 first_occ_drop [of start h n 0]
      by (auto simp: find_from_def Let_def packed_pair_first memmem_first)
  qed (simp add: find_from_def)
qed

end

subsection \<open>The libc calls by their documented answers\<close>

definition memmem_ref :: "bytes \<Rightarrow> bytes \<Rightarrow> nat option" where
  "memmem_ref h n = first_occ h n 0"

definition memchr_ref :: "bytes \<Rightarrow> u8 \<Rightarrow> nat option" where
  "memchr_ref h c = List.find (\<lambda>i. h ! i = c) [0..<length h]"

lemma memchr_ref_Some:
  "memchr_ref h c = Some i \<longleftrightarrow> i < length h \<and> h ! i = c \<and> (\<forall>j<i. h ! j \<noteq> c)"
  unfolding memchr_ref_def find_upt_Some_iff by auto

interpretation libc: substring_search memmem_ref memchr_ref
  by unfold_locales (auto simp: memmem_ref_def memchr_ref_Some)

text \<open>
  C31. Substring search is exact. Whatever path \<open>find_from\<close> takes (the one-byte search, the
  sixteen-position prefilter with its hand-over to \<open>memmem\<close> after too many false candidates,
  the tail shorter than a window, or \<open>memmem\<close> alone), the answer is the first position at or
  after \<open>start\<close> where the needle occurs, and no answer means there is none. libc's two calls
  are assumed to answer as documented.
\<close>

theorem find_from_exact:
  assumes "substring_search memmem memchr" and "start \<le> length h"
  shows "(case find_from x86_64 memmem memchr h n start of
            Some i \<Rightarrow> start \<le> i \<and> occurs_at h n i \<and> (\<forall>j. start \<le> j \<longrightarrow> j < i \<longrightarrow> \<not> occurs_at h n j)
          | None \<Rightarrow> \<forall>i \<ge> start. \<not> occurs_at h n i)"
  using substring_search.find_from_first [OF assms(1), of x86_64 h n start] assms(2)
  by (auto simp: first_occ_Some_iff first_occ_None_iff split: option.splits)

lemma find_from_exact_witness:
  "find_from True memmem_ref memchr_ref (replicate 40 97 @ [98, 99]) [97, 98] 1 = Some 39 \<and>
   occurs_at (replicate 40 97 @ [98, 99]) [97, 98 :: u8] 39 \<and>
   \<not> occurs_at (replicate 40 97 @ [98, 99]) [97, 98 :: u8] 20"
proof -
  have e: "find_from True memmem_ref memchr_ref (replicate 40 97 @ [98, 99]) [97, 98] 1 = Some 39"
    by code_simp
  from find_from_exact [OF libc.substring_search_axioms,
      of 1 "replicate 40 97 @ [98, 99]" "[97, 98]" True]
  show ?thesis unfolding e by simp
qed

end
