(* ===== verification/TextOps.thy ===== *)
theory TextOps
  imports Utf8 Search
begin

text \<open>
  The string primitives of \<open>cranelift/runtime/src\<close>: \<open>string_list.rs\<close>, \<open>utility.rs\<close> and the
  comparison and concatenation entry points of \<open>runtime_core.rs\<close>. A C string argument is what
  \<open>cstr_bytes\<close> reads from it, the bytes or nothing for null; a returned pointer is the same.
  The zero byte after the contents is \<open>first_byte\<close>'s answer for an empty string.
\<close>

type_synonym cstr = "bytes option"

subsection \<open>The libc calls a search uses\<close>

record libc_calls =
  x86_64 :: bool
  memmem :: "bytes \<Rightarrow> bytes \<Rightarrow> nat option"
  memchr :: "bytes \<Rightarrow> u8 \<Rightarrow> nat option"

abbreviation find_in :: "libc_calls \<Rightarrow> bytes \<Rightarrow> bytes \<Rightarrow> nat \<Rightarrow> nat option" where
  "find_in C h n start \<equiv> find_from (x86_64 C) (memmem C) (memchr C) h n start"

abbreviation libc_ok :: "libc_calls \<Rightarrow> bool" where
  "libc_ok C \<equiv> substring_search (memmem C) (memchr C)"

definition libc_ref :: libc_calls where
  "libc_ref = \<lparr>x86_64 = True, memmem = memmem_ref, memchr = memchr_ref\<rparr>"

lemma libc_ref_ok [simp]: "libc_ok libc_ref"
  unfolding libc_ref_def using libc.substring_search_axioms by simp

lemma find_from_ge: "find_from b mm mc h n start = Some i \<Longrightarrow> start \<le> i \<and> start \<le> length h"
  by (auto simp: find_from_def Let_def split: if_splits)

lemma search_advances [intro]:
  "find_from b mm mc h n start = Some i \<Longrightarrow> n \<noteq> [] \<Longrightarrow>
   Suc (length h) - (i + length n) < Suc (length h) - start"
  using find_from_ge [of b mm mc h n start i] by (cases n) auto

lemma find_in_first:
  "libc_ok C \<Longrightarrow> find_in C h n s = (if s \<le> length h then first_occ h n s else None)"
  by (rule substring_search.find_from_first)

subsection \<open>Substrings\<close>

definition pith_cstring_substring :: "cstr \<Rightarrow> int \<Rightarrow> int \<Rightarrow> cstr outcome" where
  "pith_cstring_substring s start end' =
     (case s of
        None \<Rightarrow> Inr None
      | Some bs \<Rightarrow>
          (let len = int (length bs);
               lo = nat (min (max start 0) len);
               hi = nat (min (max end' (int lo)) len)
           in if splits_a_character bs lo then Inl (SplitsCharacter lo start end')
              else if splits_a_character bs hi then Inl (SplitsCharacter hi start end')
              else if hi - lo = 0 then Inr (Some [])
              else Inr (Some (drop lo (take hi bs)))))"

definition pith_cstring_char_at :: "cstr \<Rightarrow> int \<Rightarrow> cstr" where
  "pith_cstring_char_at s index =
     (case s of
        None \<Rightarrow> Some []
      | Some bs \<Rightarrow>
          if index < 0 \<or> nat index \<ge> length bs then Some [] else Some [bs ! nat index])"

definition pith_cstring_char_at_strict :: "cstr \<Rightarrow> int \<Rightarrow> cstr outcome" where
  "pith_cstring_char_at_strict s index =
     (case s of
        None \<Rightarrow> Inl (InvalidHandle ''string'')
      | Some bs \<Rightarrow>
          if index < 0 \<or> index \<ge> int (length bs) then Inl (IndexOutOfBounds index (int (length bs)))
          else Inr (Some [bs ! nat index]))"

definition pith_cstring_char_at_opt :: "cstr \<Rightarrow> int \<Rightarrow> bytes option" where
  "pith_cstring_char_at_opt s index =
     (case s of
        None \<Rightarrow> None
      | Some bs \<Rightarrow> if index < 0 \<or> nat index \<ge> length bs then None else Some [bs ! nat index])"

definition pith_cstring_byte_at :: "cstr \<Rightarrow> int \<Rightarrow> int" where
  "pith_cstring_byte_at s index =
     (case s of
        None \<Rightarrow> -1
      | Some bs \<Rightarrow> if index < 0 \<or> nat index \<ge> length bs then -1 else uint (bs ! nat index))"

text \<open>The byte a pointer reads first: the terminating zero when the string is empty.\<close>

definition first_byte :: "bytes \<Rightarrow> u8" where
  "first_byte bs = (case bs of [] \<Rightarrow> 0 | b # _ \<Rightarrow> b)"

text \<open>\<open>*s as i64\<close> reads an \<open>i8\<close>, so the widening is a sign extension.\<close>

definition pith_ord_cstr :: "cstr \<Rightarrow> int" where
  "pith_ord_cstr s =
     (case s of None \<Rightarrow> 0 | Some bs \<Rightarrow> if first_byte bs = 0 then 0 else sint (first_byte bs))"

definition pith_chr_cstr :: "int \<Rightarrow> bytes" where
  "pith_chr_cstr n = [word_of_int n]"

definition pith_cstring_chars :: "cstr \<Rightarrow> bytes list" where
  "pith_cstring_chars s =
     (case s of None \<Rightarrow> [] | Some bs \<Rightarrow> map (\<lambda>b. pith_chr_cstr (uint b)) bs)"

subsection \<open>Trimming\<close>

definition trimmed_byte :: "u8 \<Rightarrow> bool" where
  "trimmed_byte b \<longleftrightarrow> b = 32 \<or> b = 9 \<or> b = 10 \<or> b = 13"

function skip_front :: "(u8 \<Rightarrow> bool) \<Rightarrow> bytes \<Rightarrow> nat \<Rightarrow> nat \<Rightarrow> nat" where
  "skip_front ws s start stop =
     (if start < stop \<and> ws (s ! start) then skip_front ws s (Suc start) stop else start)"
  by pat_completeness auto
termination by (relation "measure (\<lambda>(ws, s, start, stop). stop - start)") auto

function skip_back :: "(u8 \<Rightarrow> bool) \<Rightarrow> bytes \<Rightarrow> nat \<Rightarrow> nat \<Rightarrow> nat" where
  "skip_back ws s start stop =
     (if stop > start \<and> ws (s ! (stop - 1)) then skip_back ws s start (stop - 1) else stop)"
  by pat_completeness auto
termination by (relation "measure (\<lambda>(ws, s, start, stop). stop - start)") auto

declare skip_front.simps [simp del] skip_back.simps [simp del]

definition pith_cstring_trim :: "cstr \<Rightarrow> cstr" where
  "pith_cstring_trim s =
     (case s of
        None \<Rightarrow> None
      | Some bs \<Rightarrow>
          (let start = skip_front trimmed_byte bs 0 (length bs);
               stop = skip_back trimmed_byte bs start (length bs)
           in Some (drop start (take stop bs))))"

definition pith_cstring_trim_left :: "cstr \<Rightarrow> cstr" where
  "pith_cstring_trim_left s =
     (case s of
        None \<Rightarrow> None
      | Some bs \<Rightarrow> Some (drop (skip_front trimmed_byte bs 0 (length bs)) bs))"

subsection \<open>Case, order, padding, repetition\<close>

definition to_ascii_uppercase :: "u8 \<Rightarrow> u8" where
  "to_ascii_uppercase b = (if 97 \<le> b \<and> b \<le> 122 then b - 32 else b)"

definition to_ascii_lowercase :: "u8 \<Rightarrow> u8" where
  "to_ascii_lowercase b = (if 65 \<le> b \<and> b \<le> 90 then b + 32 else b)"

definition pith_cstring_to_upper :: "cstr \<Rightarrow> cstr" where
  "pith_cstring_to_upper s =
     map_option (\<lambda>bs. map (\<lambda>i. to_ascii_uppercase (bs ! i)) [0..<length bs]) s"

definition pith_cstring_to_lower :: "cstr \<Rightarrow> cstr" where
  "pith_cstring_to_lower s =
     map_option (\<lambda>bs. map (\<lambda>i. to_ascii_lowercase (bs ! i)) [0..<length bs]) s"

definition pith_cstring_reverse :: "cstr \<Rightarrow> cstr" where
  "pith_cstring_reverse s =
     map_option (\<lambda>bs. map (\<lambda>i. bs ! (length bs - 1 - i)) [0..<length bs]) s"

definition fill_byte :: "cstr \<Rightarrow> u8" where
  "fill_byte fill =
     (case fill of None \<Rightarrow> 32 | Some f \<Rightarrow> if first_byte f \<noteq> 0 then first_byte f else 32)"

definition pith_cstring_pad_left :: "cstr \<Rightarrow> int \<Rightarrow> cstr \<Rightarrow> cstr" where
  "pith_cstring_pad_left s width fill =
     (case s of
        None \<Rightarrow> None
      | Some bs \<Rightarrow>
          if width \<le> 0 then Some bs
          else if length bs \<ge> nat width then Some bs
          else Some (replicate (nat width - length bs) (fill_byte fill) @ bs))"

definition pith_cstring_pad_right :: "cstr \<Rightarrow> int \<Rightarrow> cstr \<Rightarrow> cstr" where
  "pith_cstring_pad_right s width fill =
     (case s of
        None \<Rightarrow> None
      | Some bs \<Rightarrow>
          if width \<le> 0 then Some bs
          else if length bs \<ge> nat width then Some bs
          else Some (bs @ replicate (nat width - length bs) (fill_byte fill)))"

text \<open>The length product is checked against \<open>usize\<close>; an overflow gives the empty string.\<close>

definition pith_cstring_repeat :: "cstr \<Rightarrow> int \<Rightarrow> cstr" where
  "pith_cstring_repeat s n =
     (case s of
        None \<Rightarrow> Some []
      | Some bs \<Rightarrow>
          if n \<le> 0 \<or> length bs = 0 then Some []
          else if length bs * nat n \<ge> 2 ^ 64 then Some []
          else Some (concat (map (\<lambda>_. bs) [0..<nat n])))"

subsection \<open>Finding, splitting, replacing\<close>

definition pith_cstring_index_of :: "libc_calls \<Rightarrow> cstr \<Rightarrow> cstr \<Rightarrow> int" where
  "pith_cstring_index_of C haystack needle =
     (case (haystack, needle) of
        (Some h, Some n) \<Rightarrow>
          (case find_sub (x86_64 C) (memmem C) (memchr C) h n of Some at \<Rightarrow> int at | None \<Rightarrow> -1)
      | _ \<Rightarrow> -1)"

definition pith_cstring_contains :: "libc_calls \<Rightarrow> cstr \<Rightarrow> cstr \<Rightarrow> int" where
  "pith_cstring_contains C haystack needle =
     (case (haystack, needle) of
        (Some h, Some n) \<Rightarrow>
          if find_sub (x86_64 C) (memmem C) (memchr C) h n \<noteq> None then 1 else 0
      | _ \<Rightarrow> 0)"

definition pith_cstring_starts_with :: "cstr \<Rightarrow> cstr \<Rightarrow> int" where
  "pith_cstring_starts_with s pre =
     (case (s, pre) of
        (Some bs, Some ps) \<Rightarrow> if take (length ps) bs = ps then 1 else 0
      | _ \<Rightarrow> 0)"

definition pith_cstring_ends_with :: "cstr \<Rightarrow> cstr \<Rightarrow> int" where
  "pith_cstring_ends_with s suf =
     (case (s, suf) of
        (Some bs, Some ps) \<Rightarrow>
          if length ps \<le> length bs \<and> drop (length bs - length ps) bs = ps then 1 else 0
      | _ \<Rightarrow> 0)"

text \<open>\<open>str::rfind\<close>, on text both of whose sides decode.\<close>

definition last_occ :: "bytes \<Rightarrow> bytes \<Rightarrow> nat option" where
  "last_occ h n = List.find (occurs_at h n) (rev [0..<Suc (length h)])"

definition cstr_str :: "cstr \<Rightarrow> bytes option" where
  "cstr_str s = (case s of None \<Rightarrow> None | Some bs \<Rightarrow> if utf8_valid bs then Some bs else None)"

definition pith_cstring_last_index_of :: "cstr \<Rightarrow> cstr \<Rightarrow> int" where
  "pith_cstring_last_index_of haystack needle =
     (case (cstr_str haystack, cstr_str needle) of
        (Some h, Some n) \<Rightarrow> (case last_occ h n of Some i \<Rightarrow> int i | None \<Rightarrow> -1)
      | _ \<Rightarrow> -1)"

definition push_part :: "bytes list \<Rightarrow> bytes \<Rightarrow> bytes list" where
  "push_part out part = (if part = [] then out else out @ [part])"

text \<open>Each round resumes after the match, so \<open>start\<close> grows and the loop ends.\<close>

function split_loop :: "libc_calls \<Rightarrow> bytes \<Rightarrow> bytes \<Rightarrow> nat \<Rightarrow> bytes list \<Rightarrow> bytes list" where
  "split_loop C s delim start out =
     (if length delim > 0 then
        (case find_in C s delim start of
           Some at \<Rightarrow>
             split_loop C s delim (at + length delim) (push_part out (drop start (take at s)))
         | None \<Rightarrow> push_part out (drop start s))
      else push_part out (drop start s))"
  by pat_completeness auto
termination
  by (relation "measure (\<lambda>(C, s, delim, start, out). Suc (length s) - start)")
     auto

declare split_loop.simps [simp del]

definition pith_string_split_to_list :: "libc_calls \<Rightarrow> cstr \<Rightarrow> cstr \<Rightarrow> bytes list" where
  "pith_string_split_to_list C s delim =
     (case (s, delim) of
        (Some bs, Some ds) \<Rightarrow> if length bs = 0 then [] else split_loop C bs ds 0 []
      | _ \<Rightarrow> [])"

text \<open>An empty pattern has been excluded by the caller.\<close>

function replace_loop ::
  "libc_calls \<Rightarrow> bytes \<Rightarrow> bytes \<Rightarrow> bytes \<Rightarrow> nat \<Rightarrow> bytes \<Rightarrow> bytes" where
  "replace_loop C s old new copied result =
     (if length old = 0 then result @ drop copied s
      else
        (case find_in C s old copied of
           Some at \<Rightarrow>
             replace_loop C s old new (at + length old) (result @ drop copied (take at s) @ new)
         | None \<Rightarrow> result @ drop copied s))"
  by pat_completeness auto
termination
  by (relation "measure (\<lambda>(C, s, old, new, copied, result). Suc (length s) - copied)")
     auto

declare replace_loop.simps [simp del]

definition pith_cstring_replace :: "libc_calls \<Rightarrow> cstr \<Rightarrow> cstr \<Rightarrow> cstr \<Rightarrow> cstr" where
  "pith_cstring_replace C s old new =
     (case s of
        None \<Rightarrow> None
      | Some bs \<Rightarrow>
          (let from_bytes = (case old of None \<Rightarrow> [] | Some f \<Rightarrow> f);
               to_bytes = (case new of None \<Rightarrow> [] | Some t \<Rightarrow> t)
           in if length from_bytes = 0 then Some bs
              else Some (replace_loop C bs from_bytes to_bytes 0 [])))"

definition pith_cstring_is_empty :: "cstr \<Rightarrow> int" where
  "pith_cstring_is_empty s = (case s of None \<Rightarrow> 1 | Some bs \<Rightarrow> if bs = [] then 1 else 0)"

subsection \<open>Equality, order, concatenation, hashing\<close>

definition pith_cstring_eq :: "cstr \<Rightarrow> cstr \<Rightarrow> int" where
  "pith_cstring_eq a b =
     (case (a, b) of
        (None, None) \<Rightarrow> 1
      | (Some sa, Some sb) \<Rightarrow>
          if first_byte sa \<noteq> first_byte sb then 0
          else if length sa \<noteq> length sb then 0
          else if sa = sb then 1 else 0
      | _ \<Rightarrow> 0)"

text \<open>The standard library's \<open>cmp\<close> on byte slices.\<close>

fun bytes_cmp :: "bytes \<Rightarrow> bytes \<Rightarrow> int" where
  "bytes_cmp [] [] = 0"
| "bytes_cmp [] (b # bs) = -1"
| "bytes_cmp (a # as) [] = 1"
| "bytes_cmp (a # as) (b # bs) =
     (if a < b then -1 else if b < a then 1 else bytes_cmp as bs)"

definition pith_cstring_compare :: "cstr \<Rightarrow> cstr \<Rightarrow> int" where
  "pith_cstring_compare a b =
     (case (a, b) of
        (None, None) \<Rightarrow> 0
      | (None, Some _) \<Rightarrow> -1
      | (Some _, None) \<Rightarrow> 1
      | (Some sa, Some sb) \<Rightarrow> bytes_cmp sa sb)"

definition pith_cstring_lt :: "cstr \<Rightarrow> cstr \<Rightarrow> int" where
  "pith_cstring_lt a b = (if pith_cstring_compare a b < 0 then 1 else 0)"

definition pith_cstring_gt :: "cstr \<Rightarrow> cstr \<Rightarrow> int" where
  "pith_cstring_gt a b = (if pith_cstring_compare a b > 0 then 1 else 0)"

definition pith_cstring_lte :: "cstr \<Rightarrow> cstr \<Rightarrow> int" where
  "pith_cstring_lte a b = (if pith_cstring_compare a b \<le> 0 then 1 else 0)"

definition pith_cstring_gte :: "cstr \<Rightarrow> cstr \<Rightarrow> int" where
  "pith_cstring_gte a b = (if pith_cstring_compare a b \<ge> 0 then 1 else 0)"

definition pith_strdup :: "cstr \<Rightarrow> cstr" where
  "pith_strdup s = (case s of None \<Rightarrow> None | Some bs \<Rightarrow> Some bs)"

definition pith_concat_cstr :: "cstr \<Rightarrow> cstr \<Rightarrow> cstr" where
  "pith_concat_cstr a b =
     (case a of
        None \<Rightarrow> (case b of None \<Rightarrow> None | Some _ \<Rightarrow> pith_strdup b)
      | Some as \<Rightarrow> (case b of None \<Rightarrow> pith_strdup a | Some bs \<Rightarrow> Some (as @ bs)))"

definition CONCAT_MANY_MAX :: nat where
  "CONCAT_MANY_MAX = 8"

text \<open>The eight pointer arguments are the list \<open>all\<close>.\<close>

definition pith_concat_cstr_many :: "int \<Rightarrow> cstr list \<Rightarrow> cstr" where
  "pith_concat_cstr_many count all =
     (let parts = take (min (nat (max count 0)) CONCAT_MANY_MAX) all in
      if list_all (\<lambda>p. p = None) parts then None
      else Some (concat (map (\<lambda>p. case p of None \<Rightarrow> [] | Some bs \<Rightarrow> bs) parts)))"

definition pith_fnv1a :: "cstr \<Rightarrow> int" where
  "pith_fnv1a s =
     (case s of
        None \<Rightarrow> 0
      | Some bs \<Rightarrow>
          sint (foldl (\<lambda>hash b. (hash XOR ucast b) * 0x100000001b3) (0xcbf29ce484222325 :: u64) bs))"

subsection \<open>Substrings of valid text\<close>

lemma substring_cases:
  assumes "pith_cstring_substring (Some bs) start end' = Inr r"
  obtains lo hi where "lo \<le> hi" and "hi \<le> length bs"
    and "\<not> splits_a_character bs lo" and "\<not> splits_a_character bs hi"
    and "r = Some (drop lo (take hi bs))"
proof -
  define lo where "lo = nat (min (max start 0) (int (length bs)))"
  define hi where "hi = nat (min (max end' (int lo)) (int (length bs)))"
  have "lo \<le> hi" "hi \<le> length bs" by (auto simp: lo_def hi_def)
  moreover have "pith_cstring_substring (Some bs) start end' =
      (if splits_a_character bs lo then Inl (SplitsCharacter lo start end')
       else if splits_a_character bs hi then Inl (SplitsCharacter hi start end')
       else if hi - lo = 0 then Inr (Some []) else Inr (Some (drop lo (take hi bs))))"
    by (simp only: pith_cstring_substring_def Let_def lo_def hi_def option.case)
  ultimately have "\<not> splits_a_character bs lo" "\<not> splits_a_character bs hi"
    "r = Some (drop lo (take hi bs))"
    using assms
    by (cases "splits_a_character bs lo"; cases "splits_a_character bs hi"; cases "hi - lo = 0"; simp)+
  with \<open>lo \<le> hi\<close> \<open>hi \<le> length bs\<close> show ?thesis by (rule that)
qed

text \<open>
  C34. A substring never corrupts text. When the text is valid UTF-8, whatever bounds the
  caller passes (negative, inverted, past the end), the call either stops the program because
  a bound falls inside a character, or returns text that is valid UTF-8 again.
\<close>

theorem substring_keeps_utf8:
  assumes "utf8_valid bs" and "pith_cstring_substring (Some bs) start end' = Inr r"
  shows "\<exists>p. r = Some p \<and> utf8_valid p"
proof -
  from assms(2) obtain lo hi where b: "lo \<le> hi" "hi \<le> length bs"
    and ns: "\<not> splits_a_character bs lo" "\<not> splits_a_character bs hi"
    and r: "r = Some (drop lo (take hi bs))"
    by (rule substring_cases)
  have "take hi bs = take lo bs @ drop lo (take hi bs)"
    using b by (metis append_take_drop_id min.absorb1 take_take)
  moreover have "utf8_valid (take hi bs)" "utf8_valid (take lo bs)"
    using cut_utf8_valid(1) [OF assms(1)] b ns by auto
  ultimately have "utf8_valid (drop lo (take hi bs))"
    by (metis utf8_valid_append_cancel)
  with r show ?thesis by blast
qed

theorem substring_keeps_utf8_witness:
  "\<exists>p. pith_cstring_substring (Some [195, 169, 97]) (-4) 2 = Inr (Some p) \<and> utf8_valid p"
proof -
  have v: "utf8_valid [195, 169, 97]"
    and e: "pith_cstring_substring (Some [195, 169, 97]) (-4) 2 = Inr (Some [195, 169])"
    by code_simp+
  from substring_keeps_utf8 [OF v e] e show ?thesis by auto
qed

subsection \<open>Splitting and replacing are two readings of one cut\<close>

text \<open>The pieces between the occurrences of a pattern, found from left to right.\<close>

lemma occurs_at_shrinks:
  "occurs_at s d i \<Longrightarrow> d \<noteq> [] \<Longrightarrow> length s - (i + length d) < length s"
  by (cases d) (auto dest: occurs_at_bound)

function pieces :: "bytes \<Rightarrow> bytes \<Rightarrow> bytes list" where
  "pieces d s =
     (if d = [] then [s]
      else (case first_occ s d 0 of
              None \<Rightarrow> [s]
            | Some i \<Rightarrow> take i s # pieces d (drop (i + length d) s)))"
  by pat_completeness auto
termination
  by (relation "measure (\<lambda>(d, s). length s)")
    (auto simp: first_occ_Some_iff intro: occurs_at_shrinks)

declare pieces.simps [simp del]

fun join :: "bytes \<Rightarrow> bytes list \<Rightarrow> bytes" where
  "join sep [] = []"
| "join sep [p] = p"
| "join sep (p # q # ps) = p @ sep @ join sep (q # ps)"

lemma pieces_ne: "pieces d s \<noteq> []"
  by (subst pieces.simps) (auto split: option.splits)

lemma join_Cons: "ps \<noteq> [] \<Longrightarrow> join sep (p # ps) = p @ sep @ join sep ps"
  by (cases ps) auto

lemma pieces_Some:
  "d \<noteq> [] \<Longrightarrow> first_occ s d 0 = Some i \<Longrightarrow> pieces d s = take i s # pieces d (drop (i + length d) s)"
  by (subst pieces.simps) simp

lemma pieces_None:
  "first_occ s d 0 = None \<or> d = [] \<Longrightarrow> pieces d s = [s]"
  by (subst pieces.simps) auto

lemma occurs_at_split: "occurs_at s d i \<Longrightarrow> s = take i s @ d @ drop (i + length d) s"
  by (metis occurs_at_def append_take_drop_id drop_drop add.commute)

lemma join_pieces: "join d (pieces d s) = s"
proof (induction d s rule: pieces.induct)
  case (1 d s)
  show ?case
  proof (cases "d = [] \<or> first_occ s d 0 = None")
    case True
    then show ?thesis by (auto simp: pieces_None)
  next
    case False
    then obtain i where i: "first_occ s d 0 = Some i" and d: "d \<noteq> []" by auto
    have "s = take i s @ d @ drop (i + length d) s"
      using i by (intro occurs_at_split) (simp add: first_occ_Some_iff)
    then show ?thesis
      using "1.IH" [OF d i] by (simp add: pieces_Some [OF d i] join_Cons pieces_ne)
  qed
qed

lemma pieces_free:
  "d \<noteq> [] \<Longrightarrow> p \<in> set (pieces d s) \<Longrightarrow> \<not> occurs_at p d j"
proof (induction d s rule: pieces.induct)
  case (1 d s)
  show ?case
  proof (cases "first_occ s d 0")
    case None
    then show ?thesis using "1.prems" by (auto simp: pieces_None first_occ_None_iff)
  next
    case (Some i)
    have "\<not> occurs_at (take i s) d j"
    proof
      assume o: "occurs_at (take i s) d j"
      then have "j < i" using "1.prems"(1) by (cases d) (auto simp: occurs_at_def)
      moreover have "occurs_at s d j"
        using o by (auto simp: occurs_at_def drop_take min_def split: if_splits)
      ultimately show False using Some by (auto simp: first_occ_Some_iff)
    qed
    then show ?thesis
      using "1.prems" "1.IH" [OF "1.prems"(1) Some] by (auto simp: pieces_Some [OF _ Some])
  qed
qed

lemma find_in_drop:
  assumes "libc_ok C" and "start \<le> length s"
  shows "find_in C s d start = map_option ((+) start) (first_occ (drop start s) d 0)"
  using first_occ_drop [OF assms(2), of d 0] by (simp add: find_in_first [OF assms(1)] assms(2))

lemma split_loop_pieces:
  assumes C: "libc_ok C" and d: "d \<noteq> []"
  shows "start \<le> length s \<Longrightarrow>
    split_loop C s d start out = out @ filter (\<lambda>p. p \<noteq> []) (pieces d (drop start s))"
proof (induction "length s - start" arbitrary: start out rule: less_induct)
  case less
  show ?case
  proof (cases "first_occ (drop start s) d 0")
    case None
    then have "find_in C s d start = None" using find_in_drop [OF C less.prems] by simp
    then show ?thesis
      using None d by (simp add: split_loop.simps [of C s d start] pieces_None push_part_def)
  next
    case (Some i)
    then have f: "find_in C s d start = Some (start + i)"
      using find_in_drop [OF C less.prems] by simp
    have b: "i + length d \<le> length s - start"
      using Some by (auto simp: first_occ_Some_iff dest: occurs_at_bound)
    have m: "start + i + length d \<le> length s"
      and sm: "length s - (start + i + length d) < length s - start"
      using b less.prems d by (auto simp: length_greater_0_conv [symmetric] simp del: length_greater_0_conv)
    have dt: "drop start (take (start + i) s) = take i (drop start s)"
      by (simp add: drop_take)
    have "split_loop C s d start out =
        split_loop C s d (start + i + length d) (push_part out (take i (drop start s)))"
      using d f by (subst split_loop.simps) (simp add: dt)
    then show ?thesis
      unfolding less.hyps [OF sm m]
      by (simp add: pieces_Some [OF d Some] push_part_def ac_simps)
  qed
qed

lemma replace_loop_pieces:
  assumes C: "libc_ok C" and d: "d \<noteq> []"
  shows "start \<le> length s \<Longrightarrow>
    replace_loop C s d new start out = out @ join new (pieces d (drop start s))"
proof (induction "length s - start" arbitrary: start out rule: less_induct)
  case less
  show ?case
  proof (cases "first_occ (drop start s) d 0")
    case None
    then have "find_in C s d start = None" using find_in_drop [OF C less.prems] by simp
    then show ?thesis
      using None d by (simp add: replace_loop.simps [of C s d new start] pieces_None)
  next
    case (Some i)
    then have f: "find_in C s d start = Some (start + i)"
      using find_in_drop [OF C less.prems] by simp
    have b: "i + length d \<le> length s - start"
      using Some by (auto simp: first_occ_Some_iff dest: occurs_at_bound)
    have m: "start + i + length d \<le> length s"
      and sm: "length s - (start + i + length d) < length s - start"
      using b less.prems d by (auto simp: length_greater_0_conv [symmetric] simp del: length_greater_0_conv)
    have dt: "drop start (take (start + i) s) = take i (drop start s)"
      by (simp add: drop_take)
    have "replace_loop C s d new start out =
        replace_loop C s d new (start + i + length d) (out @ take i (drop start s) @ new)"
      using d f by (subst replace_loop.simps) (simp add: dt)
    then show ?thesis
      unfolding less.hyps [OF sm m]
      by (simp add: pieces_Some [OF d Some] join_Cons pieces_ne ac_simps)
  qed
qed

text \<open>
  Replacing and splitting agree. There is one cut of the text into parts, none of which
  holds the pattern and which joined by the pattern give the text back; \<open>replace\<close> returns the
  parts joined by the new text, and \<open>split\<close> returns the parts that are not empty.
\<close>

theorem replace_and_split:
  assumes "libc_ok C" and "old \<noteq> []"
  shows "\<exists>parts. join old parts = s \<and> (\<forall>p \<in> set parts. \<forall>j. \<not> occurs_at p old j) \<and>
           pith_cstring_replace C (Some s) (Some old) (Some new) = Some (join new parts) \<and>
           pith_string_split_to_list C (Some s) (Some old) = filter (\<lambda>p. p \<noteq> []) parts"
proof (intro exI conjI ballI allI)
  show "join old (pieces old s) = s" by (rule join_pieces)
  show "\<not> occurs_at p old j" if "p \<in> set (pieces old s)" for p j
    using pieces_free [OF assms(2) that] .
  show "pith_cstring_replace C (Some s) (Some old) (Some new) = Some (join new (pieces old s))"
    using replace_loop_pieces [OF assms, of 0 s new "[]"] assms(2)
    by (simp add: pith_cstring_replace_def)
  show "pith_string_split_to_list C (Some s) (Some old) = filter (\<lambda>p. p \<noteq> []) (pieces old s)"
  proof (cases "s = []")
    case True
    have "first_occ [] old 0 = None" using assms(2) by (simp add: first_occ_None_iff occurs_at_def)
    then show ?thesis using True by (simp add: pith_string_split_to_list_def pieces_None)
  next
    case False
    then show ?thesis
      using split_loop_pieces [OF assms, of 0 s "[]"] by (simp add: pith_string_split_to_list_def)
  qed
qed

theorem replace_and_split_witness:
  "pith_cstring_replace libc_ref (Some [97, 44, 44, 98]) (Some [44]) (Some [59, 59]) =
     Some [97, 59, 59, 59, 59, 98] \<and>
   (\<exists>parts. join [44] parts = [97, 44, 44, 98 :: u8] \<and>
      pith_string_split_to_list libc_ref (Some [97, 44, 44, 98]) (Some [44]) = filter (\<lambda>p. p \<noteq> []) parts)"
proof -
  have "pith_cstring_replace libc_ref (Some [97, 44, 44, 98]) (Some [44]) (Some [59, 59]) =
     Some [97, 59, 59, 59, 59, 98]"
    by code_simp
  with replace_and_split [OF libc_ref_ok, of "[44]" "[97, 44, 44, 98]" "[59, 59]"]
  show ?thesis by auto
qed

subsection \<open>Trim\<close>

lemma skip_front_spec:
  "start \<le> stop \<Longrightarrow> start \<le> skip_front ws s start stop \<and> skip_front ws s start stop \<le> stop \<and>
     (\<forall>i. start \<le> i \<longrightarrow> i < skip_front ws s start stop \<longrightarrow> ws (s ! i)) \<and>
     (skip_front ws s start stop < stop \<longrightarrow> \<not> ws (s ! skip_front ws s start stop))"
proof (induction ws s start stop rule: skip_front.induct)
  case (1 ws s start stop)
  show ?case
  proof (cases "start < stop \<and> ws (s ! start)")
    case True
    have e: "skip_front ws s start stop = skip_front ws s (Suc start) stop"
      using True by (subst skip_front.simps) simp
    show ?thesis
      unfolding e using "1.IH" [OF True] True by (metis Suc_leI le_SucI Suc_le_lessD le_eq_less_or_eq order_trans)
  next
    case False
    then show ?thesis using "1.prems" by (subst (1 2 3 4 5) skip_front.simps) auto
  qed
qed

lemma skip_back_spec:
  "start \<le> stop \<Longrightarrow> start \<le> skip_back ws s start stop \<and> skip_back ws s start stop \<le> stop \<and>
     (\<forall>i. skip_back ws s start stop \<le> i \<longrightarrow> i < stop \<longrightarrow> ws (s ! i)) \<and>
     (start < skip_back ws s start stop \<longrightarrow> \<not> ws (s ! (skip_back ws s start stop - 1)))"
proof (induction ws s start stop rule: skip_back.induct)
  case (1 ws s start stop)
  show ?case
  proof (cases "stop > start \<and> ws (s ! (stop - 1))")
    case True
    have e: "skip_back ws s start stop = skip_back ws s start (stop - 1)"
      using True by (subst skip_back.simps) simp
    have le: "start \<le> stop - 1" using True by linarith
    have "ws (s ! i)" if "skip_back ws s start (stop - 1) \<le> i" "i < stop" for i
    proof (cases "i = stop - 1")
      case False
      then have "i < stop - 1" using that by linarith
      then show ?thesis using "1.IH" [OF True le] that(1) by blast
    qed (use True in simp)
    then show ?thesis
      unfolding e using "1.IH" [OF True le] by auto
  next
    case False
    then have "skip_back ws s start stop = stop" by (subst skip_back.simps) auto
    then show ?thesis using "1.prems" False by auto
  qed
qed


text \<open>What two trims leave: the text between a front and a back of trimmed bytes.\<close>

lemma trim_split:
  fixes s :: bytes and ws :: "u8 \<Rightarrow> bool" and a b :: nat
  defines "a \<equiv> skip_front ws s 0 (length s)"
  defines "b \<equiv> skip_back ws s a (length s)"
  shows "s = take a s @ drop a (take b s) @ drop b s"
    and "list_all ws (take a s)" and "list_all ws (drop b s)"
    and "drop a (take b s) = [] \<or> (\<not> ws (hd (drop a (take b s))) \<and> \<not> ws (last (drop a (take b s))))"
    and "a \<le> b" and "b \<le> length s"
proof -
  have f: "a \<le> length s" "\<And>i. i < a \<Longrightarrow> ws (s ! i)" "a < length s \<Longrightarrow> \<not> ws (s ! a)"
    using skip_front_spec [of 0 "length s" ws s] by (auto simp: a_def)
  have b: "a \<le> b" "b \<le> length s" "\<And>i. b \<le> i \<Longrightarrow> i < length s \<Longrightarrow> ws (s ! i)"
      "a < b \<Longrightarrow> \<not> ws (s ! (b - 1))"
    using skip_back_spec [OF f(1), of ws s] by (auto simp: b_def)
  then show "a \<le> b" "b \<le> length s" by simp_all
  from drop_take_split [OF this] show "s = take a s @ drop a (take b s) @ drop b s" .
  show "list_all ws (take a s)" using f by (simp add: list_all_length)
  show "list_all ws (drop b s)" using b by (simp add: list_all_length)
  show "drop a (take b s) = [] \<or> (\<not> ws (hd (drop a (take b s))) \<and> \<not> ws (last (drop a (take b s))))"
  proof (cases "a < b")
    case True
    have "hd (drop a (take b s)) = s ! a"
      using True b(2) by (simp add: hd_drop_conv_nth)
    moreover have "last (drop a (take b s)) = s ! (b - 1)"
      using True b(2) by (simp add: last_conv_nth)
    ultimately show ?thesis using f(3) b True by simp
  qed simp
qed

text \<open>
  Trimming removes exactly the blank ends: the text is a blank front, the result and a
  blank back, and the result is empty or starts and ends with bytes that are not blank.
\<close>

theorem trim_exact:
  "\<exists>l t r. s = l @ t @ r \<and> pith_cstring_trim (Some s) = Some t \<and>
     list_all trimmed_byte l \<and> list_all trimmed_byte r \<and>
     (t = [] \<or> (\<not> trimmed_byte (hd t) \<and> \<not> trimmed_byte (last t)))"
  using trim_split [where s = s and ws = trimmed_byte] by (auto simp: pith_cstring_trim_def Let_def)

subsection \<open>Order\<close>

lemma bytes_cmp_refl [simp]: "bytes_cmp a a = 0" by (induction a) auto

lemma bytes_cmp_eq_0_iff: "bytes_cmp a b = 0 \<longleftrightarrow> a = b"
  by (induction a b rule: bytes_cmp.induct) auto

lemma bytes_cmp_swap: "bytes_cmp b a = - bytes_cmp a b"
  by (induction a b rule: bytes_cmp.induct) auto

lemma bytes_cmp_trans:
  "bytes_cmp a b \<le> 0 \<Longrightarrow> bytes_cmp b c \<le> 0 \<Longrightarrow> bytes_cmp a c \<le> 0"
proof (induction a b arbitrary: c rule: bytes_cmp.induct)
  case (4 x xs y ys)
  then show ?case by (cases c) (auto split: if_splits)
next
  case (1)
  then show ?case by simp
next
  case (2 y ys)
  then show ?case by (cases c) auto
qed auto

text \<open>
  String comparison is a total order that agrees with equality, nulls and embedded zero
  bytes included: it answers 0 exactly when \<open>pith_cstring_eq\<close> answers 1, exchanging the
  arguments exchanges the sign, and \<open>lte\<close> is transitive.
\<close>

theorem compare_total_order:
  "(pith_cstring_compare a b = 0 \<longleftrightarrow> pith_cstring_eq a b = 1) \<and>
   pith_cstring_compare b a = - pith_cstring_compare a b \<and>
   (pith_cstring_lte a b = 1 \<longrightarrow> pith_cstring_lte b c = 1 \<longrightarrow> pith_cstring_lte a c = 1)"
proof (intro conjI impI)
  show "pith_cstring_compare a b = 0 \<longleftrightarrow> pith_cstring_eq a b = 1"
    by (auto simp: pith_cstring_compare_def pith_cstring_eq_def bytes_cmp_eq_0_iff split: option.splits)
  show "pith_cstring_compare b a = - pith_cstring_compare a b"
    by (auto simp: pith_cstring_compare_def intro: bytes_cmp_swap split: option.splits)
  assume "pith_cstring_lte a b = 1" "pith_cstring_lte b c = 1"
  then show "pith_cstring_lte a c = 1"
    by (auto simp: pith_cstring_lte_def pith_cstring_compare_def dest: bytes_cmp_trans
        split: option.splits if_splits)
qed

theorem compare_total_order_witness:
  "pith_cstring_compare (Some [97]) (Some [97, 0]) = -1 \<and>
   pith_cstring_lte (Some [97]) (Some [97, 0]) = 1 \<and> pith_cstring_lte (Some [97]) (Some [98]) = 1"
proof -
  have "pith_cstring_lte (Some [97]) (Some [97, 0]) = 1" "pith_cstring_lte (Some [97, 0]) (Some [98]) = 1"
    "pith_cstring_compare (Some [97]) (Some [97, 0]) = -1"
    by code_simp+
  with compare_total_order [of "Some [97]" "Some [97, 0]" "Some [98]"] show ?thesis by simp
qed

text \<open>
  Joining up to eight strings in one call gives what the chain of pairwise concatenations
  gives, null parts and the all-null case included.
\<close>

lemma foldl_concat_Some:
  "foldl pith_concat_cstr (Some as) ps =
     Some (as @ concat (map (\<lambda>p. case p of None \<Rightarrow> [] | Some bs \<Rightarrow> bs) ps))"
  by (induction ps arbitrary: as) (auto simp: pith_concat_cstr_def pith_strdup_def split: option.splits)

lemma concat_None: "pith_concat_cstr None p = p"
  by (simp add: pith_concat_cstr_def pith_strdup_def split: option.splits)

theorem concat_many_is_chain:
  "pith_concat_cstr_many (int k) all = foldl pith_concat_cstr None (take (min k 8) all)"
proof -
  have "foldl pith_concat_cstr None ps =
      (if list_all (\<lambda>p. p = None) ps then None
       else Some (concat (map (\<lambda>p. case p of None \<Rightarrow> [] | Some bs \<Rightarrow> bs) ps)))" for ps
  proof (induction ps)
    case (Cons p ps)
    then show ?case
      by (cases p) (simp_all add: concat_None foldl_concat_Some)
  qed simp
  then show ?thesis by (simp add: pith_concat_cstr_many_def CONCAT_MANY_MAX_def)
qed

text \<open>
  The two readings of a character's code differ. The compiler lowers \<open>ord(s[i])\<close> to
  \<open>pith_cstring_byte_at\<close>, and \<open>ord(c)\<close> of the one-character string to \<open>pith_ord_cstr\<close>; the two
  agree exactly below 128, and above it the second is 256 less, because it sign-extends.
\<close>

theorem ord_sign_extends:
  assumes "0 \<le> i" and "i < int (length bs)"
  shows "pith_ord_cstr (pith_cstring_char_at (Some bs) i) =
     (if pith_cstring_byte_at (Some bs) i < 128 then pith_cstring_byte_at (Some bs) i
      else pith_cstring_byte_at (Some bs) i - 256)"
proof -
  show ?thesis using assms
    by (auto simp: sint_u8 pith_ord_cstr_def pith_cstring_char_at_def pith_cstring_byte_at_def first_byte_def)
qed

theorem ord_sign_extends_witness:
  "pith_cstring_byte_at (Some [233]) 0 = 233 \<and>
   pith_ord_cstr (pith_cstring_char_at (Some [233]) 0) = -23"
proof -
  have e: "pith_cstring_byte_at (Some [233]) 0 = 233" by code_simp
  show ?thesis using ord_sign_extends [of 0 "[233]"] by (simp add: e)
qed

end
