(* ===== verification/Codec.thy ===== *)
theory Codec
  imports TextOps
begin

text \<open>
  Text forms of data: \<open>cranelift/runtime/src/encoding.rs\<close> (integer parsing, base64, hex),
  \<open>pith_b64_decode\<close> of \<open>utility.rs\<close> and the decimal printers of \<open>runtime_core.rs\<close>. A result
  pair is \<open>string + int\<close>. Values keep their 64 bits while they are computed.
\<close>

subsection \<open>Parsing an integer\<close>

definition is_ascii_whitespace :: "u8 \<Rightarrow> bool" where
  "is_ascii_whitespace b \<longleftrightarrow> b = 32 \<or> b = 9 \<or> b = 10 \<or> b = 12 \<or> b = 13"

definition is_ascii_digit :: "u8 \<Rightarrow> bool" where
  "is_ascii_digit b \<longleftrightarrow> 48 \<le> b \<and> b \<le> 57"

fun digits_loop :: "u64 \<Rightarrow> bytes \<Rightarrow> u64 \<Rightarrow> string + u64" where
  "digits_loop limit [] val = Inr val"
| "digits_loop limit (digit # rest) val =
     (if \<not> is_ascii_digit digit then Inl ''invalid integer''
      else
        let digit_value = ucast (digit - 48) in
        if val > (limit - digit_value) div 10 then Inl ''integer overflow''
        else digits_loop limit rest (val * 10 + digit_value))"

definition signed_value :: "bool \<Rightarrow> u64 \<Rightarrow> u64 \<Rightarrow> int" where
  "signed_value negative limit val =
     (if negative then (if val = limit then - (2 ^ 63) else - sint val) else sint val)"

definition pith_parse_int :: "cstr \<Rightarrow> string + int" where
  "pith_parse_int s =
     (case s of
        None \<Rightarrow> Inl ''invalid integer''
      | Some bs \<Rightarrow>
          (let start = skip_front is_ascii_whitespace bs 0 (length bs);
               stop = skip_back is_ascii_whitespace bs start (length bs)
           in if start = stop then Inl ''invalid integer''
              else
                let signed = (bs ! start = 45 \<or> bs ! start = 43);
                    negative = (bs ! start = 45);
                    pos = (if signed then start + 1 else start)
                in if signed \<and> pos = stop then Inl ''invalid integer''
                   else
                     let limit = (if negative then 2 ^ 63 else 2 ^ 63 - 1) in
                     (case digits_loop limit (drop pos (take stop bs)) 0 of
                        Inl e \<Rightarrow> Inl e
                      | Inr val \<Rightarrow> Inr (signed_value negative limit val))))"

subsection \<open>Printing an integer\<close>

text \<open>The digits are written from the end of the buffer, at least one.\<close>

function decimal_digits :: "u64 \<Rightarrow> bytes \<Rightarrow> bytes" where
  "decimal_digits n buf =
     (let buf' = (48 + ucast (n mod 10)) # buf; n' = n div 10 in
      if n' = 0 then buf' else decimal_digits n' buf')"
  by pat_completeness auto
termination
proof (relation "measure (\<lambda>(n, buf). unat n)")
  fix n :: u64 and buf buf' :: bytes and n'
  assume "n' = n div 10" and "n' \<noteq> 0"
  then show "((n', buf'), n, buf) \<in> measure (\<lambda>(n, buf). unat n)"
    by (cases "n = 0") (auto simp: unat_div unat_gt_0)
qed simp

declare decimal_digits.simps [simp del]

definition pith_int_to_cstr :: "int \<Rightarrow> bytes" where
  "pith_int_to_cstr n =
     (if n \<ge> 0 then decimal_digits (word_of_int \<bar>n\<bar>) []
      else 45 # decimal_digits (word_of_int \<bar>n\<bar>) [])"

definition pith_uint_to_cstr :: "int \<Rightarrow> bytes" where
  "pith_uint_to_cstr n = decimal_digits (word_of_int n) []"

definition pith_bool_to_cstr :: "int \<Rightarrow> bytes" where
  "pith_bool_to_cstr b = (if b \<noteq> 0 then [116, 114, 117, 101] else [102, 97, 108, 115, 101])"

subsection \<open>Hex\<close>

definition HEX :: bytes where
  "HEX = [48, 49, 50, 51, 52, 53, 54, 55, 56, 57, 97, 98, 99, 100, 101, 102]"

definition pith_hex_encode :: "cstr \<Rightarrow> cstr" where
  "pith_hex_encode s =
     map_option (\<lambda>input. concat (map (\<lambda>b. [HEX ! unat (drop_bit 4 b), HEX ! unat (b AND 0xf)]) input)) s"

definition hex_digit :: "u8 \<Rightarrow> u8" where
  "hex_digit b =
     (if 48 \<le> b \<and> b \<le> 57 then b - 48
      else if 97 \<le> b \<and> b \<le> 102 then b - 97 + 10
      else if 65 \<le> b \<and> b \<le> 70 then b - 65 + 10
      else 0)"

definition pith_from_hex :: "cstr \<Rightarrow> cstr" where
  "pith_from_hex s =
     (case s of
        None \<Rightarrow> None
      | Some input \<Rightarrow>
          if length input mod 2 \<noteq> 0 then None
          else
            Some (map (\<lambda>i. push_bit 4 (hex_digit (input ! (i * 2))) OR hex_digit (input ! (i * 2 + 1)))
                    [0..<length input div 2]))"

subsection \<open>Base64\<close>

definition CHARS :: bytes where
  "CHARS = map of_nat ([65..<91] @ [97..<123] @ [48..<58] @ [43, 47])"

function encode_loop :: "bytes \<Rightarrow> nat \<Rightarrow> bytes \<Rightarrow> bytes" where
  "encode_loop input i out =
     (if i < length input then
        let len = length input;
            b0 = input ! i;
            b1 = (if i + 1 < len then input ! (i + 1) else 0);
            b2 = (if i + 2 < len then input ! (i + 2) else 0)
        in encode_loop input (i + 3)
             (out @
              [CHARS ! unat (drop_bit 2 b0),
               CHARS ! unat (push_bit 4 (b0 AND 3) OR drop_bit 4 b1),
               if i + 1 < len then CHARS ! unat (push_bit 2 (b1 AND 0xf) OR drop_bit 6 b2) else 61,
               if i + 2 < len then CHARS ! unat (b2 AND 0x3f) else 61])
      else out)"
  by pat_completeness auto
termination by (relation "measure (\<lambda>(input, i, out). length input - i)") auto

declare encode_loop.simps [simp del]

definition pith_b64_encode :: "cstr \<Rightarrow> cstr" where
  "pith_b64_encode s = map_option (\<lambda>input. encode_loop input 0 []) s"

definition DECODE :: "u8 \<Rightarrow> u8" where
  "DECODE b =
     (if 65 \<le> b \<and> b < 91 then b - 65
      else if 97 \<le> b \<and> b < 123 then b - 97 + 26
      else if 48 \<le> b \<and> b < 58 then b - 48 + 52
      else if b = 43 then 62
      else if b = 47 then 63
      else 255)"

text \<open>The next byte goes to the output while there is room for it; \<open>di\<close> is the number of
  bytes written.\<close>

definition put :: "nat \<Rightarrow> u8 \<Rightarrow> bytes \<Rightarrow> bytes" where
  "put out_len b out = (if length out < out_len then out @ [b] else out)"

function decode_loop :: "bytes \<Rightarrow> nat \<Rightarrow> nat \<Rightarrow> nat \<Rightarrow> bytes \<Rightarrow> nat \<times> bytes" where
  "decode_loop input in_len out_len si out =
     (if si + 3 < in_len then
        let a = ucast (DECODE (input ! si)) :: u32;
            b = ucast (DECODE (input ! (si + 1)));
            c = ucast (DECODE (input ! (si + 2)));
            d = ucast (DECODE (input ! (si + 3)));
            n = push_bit 18 a OR push_bit 12 b OR push_bit 6 c OR d
        in decode_loop input in_len out_len (si + 4)
             (put out_len (ucast n)
               (put out_len (ucast (drop_bit 8 n)) (put out_len (ucast (drop_bit 16 n)) out)))
      else (si, out))"
  by pat_completeness auto
termination by (relation "measure (\<lambda>(input, in_len, out_len, si, out). in_len - si)") auto

declare decode_loop.simps [simp del]

definition decode_tail :: "bytes \<Rightarrow> nat \<Rightarrow> nat \<Rightarrow> nat \<Rightarrow> bytes \<Rightarrow> bytes" where
  "decode_tail input in_len out_len si out =
     (if si + 1 < in_len then
        let a = ucast (DECODE (input ! si)) :: u32;
            b = ucast (DECODE (input ! (si + 1)));
            n = push_bit 18 a OR push_bit 12 b;
            out' = put out_len (ucast (drop_bit 16 n)) out
        in if si + 2 < in_len then
             let c = ucast (DECODE (input ! (si + 2)));
                 n2 = push_bit 18 a OR push_bit 12 b OR push_bit 6 c
             in put out_len (ucast (drop_bit 8 n2 AND 0xff)) out'
           else out'
      else out)"

definition pith_b64_decode :: "cstr \<Rightarrow> cstr" where
  "pith_b64_decode s =
     map_option
       (\<lambda>input.
          let in_len = skip_back (\<lambda>b. b = 61) input 0 (length input);
              out_len = in_len * 3 div 4;
              (si, out) = decode_loop input in_len out_len 0 []
          in decode_tail input in_len out_len si out) s"

fun decimal_value :: "nat \<Rightarrow> bytes \<Rightarrow> nat" where
  "decimal_value v [] = v"
| "decimal_value v (d # ds) = decimal_value (v * 10 + (unat d - 48)) ds"

lemma decimal_value_append: "decimal_value v (xs @ ys) = decimal_value (decimal_value v xs) ys"
  by (induction xs arbitrary: v) auto

lemma decimal_value_ge: "v \<le> decimal_value v ds"
proof (induction ds arbitrary: v)
  case (Cons d ds)
  have "v * 10 + (unat d - 48) \<le> decimal_value (v * 10 + (unat d - 48)) ds" by (rule Cons.IH)
  then show ?case by simp
qed simp

lemma digit_unat: "is_ascii_digit d \<longleftrightarrow> 48 \<le> unat d \<and> unat d \<le> 57"
  by (simp add: is_ascii_digit_def word_le_nat_alt)

lemma digits_loop_exact:
  assumes "9 \<le> unat limit"
  shows "list_all is_ascii_digit ds \<Longrightarrow> unat v \<le> unat limit \<Longrightarrow>
    digits_loop limit ds v =
      (if decimal_value (unat v) ds \<le> unat limit then Inr (of_nat (decimal_value (unat v) ds))
       else Inl ''integer overflow'')"
proof (induction ds arbitrary: v)
  case (Cons d ds)
  let ?dv = "ucast (d - 48) :: u64"
  have d: "48 \<le> unat d" "unat d \<le> 57" using Cons.prems by (auto simp: digit_unat)
  have dv: "unat ?dv = unat d - 48"
    using d by (simp add: unat_sub word_le_nat_alt)
  have "unat (limit - ?dv) = unat limit - (unat d - 48)"
    using dv d assms by (subst unat_sub) (auto simp: word_le_nat_alt)
  then have c: "v > (limit - ?dv) div 10 \<longleftrightarrow> unat v * 10 + (unat d - 48) > unat limit"
    using d assms by (simp add: word_less_nat_alt unat_div) linarith
  have L: "unat limit < 2 ^ 64" using unsigned_less [of limit, where ?'a = nat] by simp
  show ?case
  proof (cases "unat v * 10 + (unat d - 48) > unat limit")
    case True
    have "decimal_value (unat v) (d # ds) > unat limit"
      using True decimal_value_ge [of "unat v * 10 + (unat d - 48)" ds] by simp
    then show ?thesis using Cons.prems c True by (simp add: Let_def)
  next
    case False
    have "unat (v * 10 + ?dv) = unat v * 10 + (unat d - 48)"
      using False dv L by (simp add: unat_word_ariths unat_mult_lem)
    then show ?thesis using Cons.prems c False Cons.IH [of "v * 10 + ?dv"] by (simp add: Let_def)
  qed
qed simp

lemma digits_loop_Inr_digits:
  "digits_loop limit ds v = Inr w \<Longrightarrow> list_all is_ascii_digit ds"
  by (induction ds arbitrary: v) (auto simp: Let_def split: if_splits)

lemma decimal_digits_exact:
  "\<exists>ds. decimal_digits n buf = ds @ buf \<and> ds \<noteq> [] \<and> list_all is_ascii_digit ds \<and>
     decimal_value 0 ds = unat n \<and> (\<forall>k. unat n < 10 ^ Suc k \<longrightarrow> length ds \<le> Suc k)"
proof (induction n buf rule: decimal_digits.induct)
  case (1 n buf)
  let ?c = "48 + ucast (n mod 10) :: u8"
  have m: "unat (n mod 10) < 10" by (simp add: unat_mod)
  then have "unat (ucast (n mod 10) :: u8) = unat (n mod 10)"
    by (simp add: unsigned_ucast_eq take_bit_nat_eq_self_iff)
  then have c: "unat ?c = 48 + unat n mod 10"
    using m by (simp add: unat_word_ariths unat_mod)
  show ?case
  proof (cases "n div 10 = 0")
    case True
    then have "unat n div 10 = 0" by (simp add: word_unat_eq_iff unat_div)
    then have "unat n < 10" by auto
    then show ?thesis
      using True c by (subst decimal_digits.simps) (simp add: digit_unat)
  next
    case False
    from "1.IH" [OF refl refl False] obtain ds where ds:
      "decimal_digits (n div 10) (?c # buf) = ds @ ?c # buf" "ds \<noteq> []" "list_all is_ascii_digit ds"
      "decimal_value 0 ds = unat (n div 10)"
      "\<And>k. unat (n div 10) < 10 ^ Suc k \<Longrightarrow> length ds \<le> Suc k"
      by blast
    have "unat (n div 10) = unat n div 10" by (simp add: unat_div)
    moreover have "length (ds @ [?c]) \<le> Suc k" if k: "unat n < 10 ^ Suc k" for k
    proof (cases k)
      case 0
      have "unat n div 10 \<noteq> 0" using False by (simp add: word_unat_eq_iff unat_div)
      then show ?thesis using k 0 by simp
    next
      case (Suc j)
      then show ?thesis using k ds(5) [of j] by (simp add: unat_div less_mult_imp_div_less)
    qed
    ultimately show ?thesis
      using False ds c
      by (subst decimal_digits.simps)
        (auto simp: decimal_value_append digit_unat intro!: exI [of _ "ds @ [?c]"])
  qed
qed

definition int_of_text :: "bytes \<Rightarrow> int option" where
  "int_of_text t =
     (let signed = (t \<noteq> [] \<and> (hd t = 45 \<or> hd t = 43));
          ds = (if signed then tl t else t);
          n = int (decimal_value 0 ds)
      in if ds = [] \<or> \<not> list_all is_ascii_digit ds then None
         else Some (if t \<noteq> [] \<and> hd t = 45 then - n else n))"

definition trimmed_text :: "bytes \<Rightarrow> bytes" where
  "trimmed_text s =
     (let start = skip_front is_ascii_whitespace s 0 (length s);
          stop = skip_back is_ascii_whitespace s start (length s)
      in drop start (take stop s))"

lemma sint_below:
  assumes "unat (w :: u64) < 2 ^ 63" shows "sint w = int (unat w)"
proof -
  have "uint w = int (unat w)" by simp
  then have "uint w < 2 ^ 63" using assms by (metis of_nat_less_numeral_power_cancel_iff)
  moreover have "- (2 ^ 63) \<le> uint w" by (rule order_trans [OF _ uint_ge_0]) simp
  ultimately have "signed_take_bit 63 (uint w) = uint w" by (rule signed_take_bit_int_eq_self [rotated])
  then show ?thesis by (simp add: sint_uint)
qed

lemma digits_signed:
  assumes "ds \<noteq> []"
  shows "(case digits_loop (if neg then 2 ^ 63 else 2 ^ 63 - 1) ds 0 of
            Inl e \<Rightarrow> Inl e
          | Inr v \<Rightarrow> Inr (signed_value neg (if neg then 2 ^ 63 else 2 ^ 63 - 1) v)) = Inr n \<longleftrightarrow>
     list_all is_ascii_digit ds \<and>
     n = (if neg then - int (decimal_value 0 ds) else int (decimal_value 0 ds)) \<and>
     - (2 ^ 63) \<le> n \<and> n < 2 ^ 63" (is "?l \<longleftrightarrow> ?r")
proof (cases "list_all is_ascii_digit ds")
  case False
  then have "\<not> ?l" using digits_loop_Inr_digits [of _ ds 0] by (auto split: sum.splits)
  then show ?thesis using False by blast
next
  case True
  let ?L = "if neg then 2 ^ 63 else 2 ^ 63 - 1 :: u64"
  let ?v = "decimal_value 0 ds"
  have L: "unat ?L = (if neg then 2 ^ 63 else 2 ^ 63 - 1)" by simp
  have e: "digits_loop ?L ds 0 = (if ?v \<le> unat ?L then Inr (of_nat ?v) else Inl ''integer overflow'')"
    using digits_loop_exact [of ?L ds 0] True L by simp
  show ?thesis
  proof (cases "?v \<le> unat ?L")
    case False
    then have "\<not> ?l" unfolding e by simp
    moreover have "\<not> ?r" using False unfolding L by (auto split: if_splits)
    ultimately show ?thesis by blast
  next
    case le: True
    have u: "unat (of_nat ?v :: u64) = ?v"
      using le L by (simp add: unsigned_of_nat take_bit_nat_eq_self_iff split: if_splits)
    have "signed_value neg ?L (of_nat ?v) = (if neg then - int ?v else int ?v)"
    proof (cases "neg \<and> ?v = 2 ^ 63")
      case True
      then show ?thesis by (simp add: signed_value_def)
    next
      case no: False
      then have b: "?v < 2 ^ 63" using le L by (auto split: if_splits)
      have "unat (2 ^ 63 :: u64) = 2 ^ 63" by simp
      then have "of_nat ?v \<noteq> (2 ^ 63 :: u64)"
        using u b by (metis less_irrefl)
      then show ?thesis using sint_below [of "of_nat ?v"] u b by (simp add: signed_value_def)
    qed
    moreover have "- (2 ^ 63) \<le> (if neg then - int ?v else int ?v)"
        "(if neg then - int ?v else int ?v) < 2 ^ 63"
      using le unfolding L by (simp_all split: if_splits)
    ultimately show ?thesis unfolding e using True le by auto
  qed
qed

lemma parse_int_text:
  "pith_parse_int (Some s) = Inr n \<longleftrightarrow>
     int_of_text (trimmed_text s) = Some n \<and> - (2 ^ 63) \<le> n \<and> n < 2 ^ 63"
proof -
  define a where "a = skip_front is_ascii_whitespace s 0 (length s)"
  define b where "b = skip_back is_ascii_whitespace s a (length s)"
  have ab: "a \<le> b" "b \<le> length s"
    using trim_split(5,6) [of is_ascii_whitespace s] by (simp_all add: a_def b_def)
  have t: "trimmed_text s = drop a (take b s)" by (simp add: trimmed_text_def a_def b_def Let_def)
  show ?thesis
  proof (cases "a = b")
    case True
    have "pith_parse_int (Some s) = Inl ''invalid integer''"
      unfolding pith_parse_int_def Let_def option.case a_def [symmetric] b_def [symmetric]
      by (simp add: True)
    moreover have "int_of_text (trimmed_text s) = None"
      unfolding t using True by (simp add: int_of_text_def)
    ultimately show ?thesis by simp
  next
    case False
    with ab have lt: "a < b" by simp
    then have tne: "drop a (take b s) = s ! a # drop (Suc a) (take b s)"
      using ab by (simp add: Cons_nth_drop_Suc [symmetric])
    let ?signed = "s ! a = 45 \<or> s ! a = 43"
    define ds where "ds = (if ?signed then drop (Suc a) (take b s) else drop a (take b s))"
    have i: "int_of_text (trimmed_text s) =
        (if ds = [] \<or> \<not> list_all is_ascii_digit ds then None
         else Some (if s ! a = 45 then - int (decimal_value 0 ds) else int (decimal_value 0 ds)))"
      unfolding t int_of_text_def Let_def ds_def tne by simp
    have nil: "ds = [] \<longleftrightarrow> ?signed \<and> Suc a = b" using lt ab by (auto simp: ds_def)
    have p: "pith_parse_int (Some s) =
       (if ds = [] then Inl ''invalid integer''
        else (case digits_loop (if s ! a = 45 then 2 ^ 63 else 2 ^ 63 - 1) ds 0 of
            Inl e \<Rightarrow> Inl e
          | Inr v \<Rightarrow> Inr (signed_value (s ! a = 45) (if s ! a = 45 then 2 ^ 63 else 2 ^ 63 - 1) v)))"
      unfolding pith_parse_int_def Let_def option.case a_def [symmetric] b_def [symmetric] nil ds_def
      using False lt ab by (auto simp: min_absorb2)
    show ?thesis
    proof (cases "ds = []")
      case True
      then show ?thesis by (simp add: p i)
    next
      case False
      have "pith_parse_int (Some s) = Inr n \<longleftrightarrow>
          (case digits_loop (if s ! a = 45 then 2 ^ 63 else 2 ^ 63 - 1) ds 0 of
            Inl e \<Rightarrow> Inl e
          | Inr v \<Rightarrow> Inr (signed_value (s ! a = 45) (if s ! a = 45 then 2 ^ 63 else 2 ^ 63 - 1) v)) = Inr n"
        using False by (simp only: p if_False)
      also note digits_signed [OF False, of "s ! a = 45" n]
      finally show ?thesis using False by (auto simp: i)
    qed
  qed
qed


text \<open>
  C36. Integer parsing accepts exactly the texts of 64-bit integers. The input is a blank front,
  a core and a blank back, and the answer is the number \<open>n\<close> exactly when the core is an
  optional sign and at least one digit, reads as \<open>n\<close>, and \<open>n\<close> fits: no wrapped value is ever
  returned, and the least integer, whose magnitude does not fit a signed word, is accepted.
\<close>

theorem parse_int_exact:
  "\<exists>l t r. s = l @ t @ r \<and> list_all is_ascii_whitespace l \<and> list_all is_ascii_whitespace r \<and>
     (t = [] \<or> (\<not> is_ascii_whitespace (hd t) \<and> \<not> is_ascii_whitespace (last t))) \<and>
     (\<forall>n. pith_parse_int (Some s) = Inr n \<longleftrightarrow>
            int_of_text t = Some n \<and> - (2 ^ 63) \<le> n \<and> n < 2 ^ 63)"
  using trim_split [where ws = is_ascii_whitespace and s = s] parse_int_text [of s]
  unfolding trimmed_text_def Let_def by blast

lemma digits_not_blank: "is_ascii_digit d \<Longrightarrow> \<not> is_ascii_whitespace d \<and> d \<noteq> 45 \<and> d \<noteq> 43"
  by (auto simp: is_ascii_digit_def is_ascii_whitespace_def)

lemma trimmed_text_id:
  assumes "t \<noteq> []" and "\<not> is_ascii_whitespace (hd t)" and "\<not> is_ascii_whitespace (last t)"
  shows "trimmed_text t = t"
proof -
  have "skip_front is_ascii_whitespace t 0 (length t) = 0"
    using assms by (subst skip_front.simps) (simp add: hd_conv_nth)
  moreover have "skip_back is_ascii_whitespace t 0 (length t) = length t"
    using assms by (subst skip_back.simps) (simp add: last_conv_nth)
  ultimately show ?thesis by (simp add: trimmed_text_def)
qed

text \<open>
  Printing a 64-bit integer and parsing the text gives the integer back, the least one
  included.
\<close>

theorem int_text_round_trip:
  assumes "- (2 ^ 63) \<le> n" and "n < 2 ^ 63"
  shows "pith_parse_int (Some (pith_int_to_cstr n)) = Inr n"
proof -
  obtain ds where ds: "decimal_digits (word_of_int \<bar>n\<bar>) [] = ds" "ds \<noteq> []"
      "list_all is_ascii_digit ds" "decimal_value 0 ds = unat (word_of_int \<bar>n\<bar> :: u64)"
    using decimal_digits_exact [of "word_of_int \<bar>n\<bar>" "[]"] by auto
  have "\<bar>n\<bar> < 2 ^ 64" using assms by simp
  then have "uint (word_of_int \<bar>n\<bar> :: u64) = \<bar>n\<bar>" by (simp add: uint_word_of_int)
  then have v: "int (decimal_value 0 ds) = \<bar>n\<bar>" using ds(4) by simp
  obtain d rest where d: "ds = d # rest" "is_ascii_digit d" "is_ascii_digit (last ds)"
    using ds(2,3) by (cases ds) (auto simp: list_all_iff)
  let ?t = "pith_int_to_cstr n"
  have t: "?t = (if n \<ge> 0 then ds else 45 # ds)" unfolding pith_int_to_cstr_def ds(1) by simp
  have "trimmed_text ?t = ?t"
    using d digits_not_blank ds(2) by (intro trimmed_text_id) (auto simp: t is_ascii_whitespace_def)
  moreover have "int_of_text ?t = Some n"
    using d ds(3) v digits_not_blank [OF d(2)] by (auto simp: t int_of_text_def Let_def)
  ultimately show ?thesis using assms by (simp add: parse_int_text)
qed

theorem int_text_round_trip_witness:
  "pith_parse_int (Some (pith_int_to_cstr (- 9223372036854775808))) = Inr (- 9223372036854775808)"
  by (rule int_text_round_trip) simp_all

text \<open>The stack buffer's 20 bytes are enough.\<close>

lemma decimal_digits_length: "length (decimal_digits n []) \<le> 20"
proof -
  have "unat n < 2 ^ 64" using unsigned_less [of n, where ?'a = nat] by simp
  then have "unat n < 10 ^ Suc 19" by simp
  then show ?thesis using decimal_digits_exact [of n "[]"] by fastforce
qed

subsection \<open>Hex\<close>

lemma hex_digit_HEX: "x < 16 \<Longrightarrow> hex_digit (HEX ! unat x) = x"
proof -
  have "list_all (\<lambda>i. hex_digit (HEX ! i) = of_nat i) [0..<16]" by code_simp
  then have "i < 16 \<Longrightarrow> hex_digit (HEX ! i) = of_nat i" for i by (simp add: list_all_iff)
  moreover assume "x < 16"
  then have "unat x < 16" by (simp add: word_less_nat_alt)
  moreover have "of_nat (unat x) = x" by simp
  ultimately show ?thesis by metis
qed

lemma mask_word_simps: "(0xf :: u8) = mask 4" "(3 :: u8) = mask 2" "(0x3f :: u8) = mask 6"
  by (simp_all add: mask_eq_exp_minus_1)

lemma nibbles:
  "drop_bit 4 (b :: u8) < 16" "b AND 0xf < 16" "push_bit 4 (drop_bit 4 b) OR (b AND 0xf) = b"
proof -
  show "drop_bit 4 b < 16"
    using u8_less_256 [of b] by (simp add: word_less_nat_alt drop_bit_eq_div unat_div less_mult_imp_div_less)
  show "b AND 0xf < 16"
    by (simp add: word_less_nat_alt mask_word_simps take_bit_eq_mod unat_mod
        flip: take_bit_eq_mask)
  show "push_bit 4 (drop_bit 4 b) OR (b AND 0xf) = b"
    unfolding mask_word_simps by (rule bit_eqI) (auto simp: bit_simps)
qed

lemma pairs_of_concat:
  "map (\<lambda>i. h (concat (map (\<lambda>b. [f b, g b]) bs) ! (i * 2))
             (concat (map (\<lambda>b. [f b, g b]) bs) ! (i * 2 + 1))) [0..<length bs] =
   map (\<lambda>b. h (f b) (g b)) bs"
  by (induction bs) (simp_all add: upt_conv_Cons map_Suc_upt [symmetric] comp_def del: upt_Suc)

lemma length_pairs: "length (concat (map (\<lambda>b. [f b, g b]) bs)) = 2 * length bs"
  by (induction bs) simp_all

lemma from_hex_pairs:
  "pith_from_hex (Some (concat (map (\<lambda>b. [f b, g b]) bs))) =
     Some (map (\<lambda>b. push_bit 4 (hex_digit (f b)) OR hex_digit (g b)) bs)"
  unfolding pith_from_hex_def option.case length_pairs
  using pairs_of_concat [of "\<lambda>x y. push_bit 4 (hex_digit x) OR hex_digit y" f g bs] by simp

text \<open>
  Hex encoding and decoding are inverse on every byte string.
\<close>

theorem hex_round_trip: "pith_from_hex (pith_hex_encode (Some bs)) = Some bs"
  unfolding pith_hex_encode_def option.map from_hex_pairs
  by (simp add: hex_digit_HEX nibbles)


subsection \<open>Base64\<close>

text \<open>Encoding and decoding by chunks, without the indices and without the padding.\<close>

fun chars_of :: "bytes \<Rightarrow> bytes" where
  "chars_of (a # b # c # r) =
     [CHARS ! unat (drop_bit 2 a), CHARS ! unat (push_bit 4 (a AND 3) OR drop_bit 4 b),
      CHARS ! unat (push_bit 2 (b AND 0xf) OR drop_bit 6 c), CHARS ! unat (c AND 0x3f)] @ chars_of r"
| "chars_of [a, b] =
     [CHARS ! unat (drop_bit 2 a), CHARS ! unat (push_bit 4 (a AND 3) OR drop_bit 4 b),
      CHARS ! unat (push_bit 2 (b AND 0xf))]"
| "chars_of [a] = [CHARS ! unat (drop_bit 2 a), CHARS ! unat (push_bit 4 (a AND 3))]"
| "chars_of [] = []"

definition padding :: "bytes \<Rightarrow> bytes" where
  "padding bs = replicate ((3 - length bs mod 3) mod 3) 61"

lemma padding_step: "padding (a # b # c # r) = padding r"
  by (simp add: padding_def)

lemma encode_loop_chars:
  "encode_loop (pre @ r) (length pre) out = out @ chars_of r @ padding r"
proof (induction r arbitrary: pre out rule: chars_of.induct)
  case (1 a b c r)
  have "encode_loop (pre @ a # b # c # r) (length pre) out =
      encode_loop (pre @ a # b # c # r) (length pre + 3)
        (out @ [CHARS ! unat (drop_bit 2 a), CHARS ! unat (push_bit 4 (a AND 3) OR drop_bit 4 b),
           CHARS ! unat (push_bit 2 (b AND 0xf) OR drop_bit 6 c), CHARS ! unat (c AND 0x3f)])"
    by (subst encode_loop.simps) (simp add: nth_append)
  moreover have "encode_loop (pre @ a # b # c # r) (length pre + 3) out' = out' @ chars_of r @ padding r"
    for out' using "1.IH" [of "pre @ [a, b, c]" out'] by (simp add: numeral_3_eq_3)
  ultimately show ?case by (simp add: padding_step)
next
  case (2 a b)
  have "encode_loop (pre @ [a, b]) (length pre) out =
      out @ [CHARS ! unat (drop_bit 2 a), CHARS ! unat (push_bit 4 (a AND 3) OR drop_bit 4 b),
        CHARS ! unat (push_bit 2 (b AND 0xf)), 61]"
    by (subst encode_loop.simps, subst encode_loop.simps) (simp add: nth_append)
  then show ?case by (simp add: padding_def)
next
  case (3 a)
  have "encode_loop (pre @ [a]) (length pre) out =
      out @ [CHARS ! unat (drop_bit 2 a), CHARS ! unat (push_bit 4 (a AND 3)), 61, 61]"
    by (subst encode_loop.simps, subst encode_loop.simps) (simp add: nth_append)
  moreover have "replicate 2 (61 :: u8) = [61, 61]" by (simp add: numeral_2_eq_2)
  ultimately show ?case by (simp add: padding_def)
next
  case 4
  show ?case by (subst encode_loop.simps) (simp add: padding_def)
qed

lemma encode_chars: "pith_b64_encode (Some bs) = Some (chars_of bs @ padding bs)"
  using encode_loop_chars [of "[]" bs "[]"] by (simp add: pith_b64_encode_def)

fun bytes_of :: "bytes \<Rightarrow> bytes" where
  "bytes_of (a # b # c # d # r) =
     (let n = push_bit 18 (ucast (DECODE a)) OR push_bit 12 (ucast (DECODE b)) OR
              push_bit 6 (ucast (DECODE c)) OR (ucast (DECODE d) :: u32)
      in [ucast (drop_bit 16 n), ucast (drop_bit 8 n), ucast n] @ bytes_of r)"
| "bytes_of [a, b, c] =
     (let n = push_bit 18 (ucast (DECODE a)) OR push_bit 12 (ucast (DECODE b)) :: u32;
          n2 = push_bit 18 (ucast (DECODE a)) OR push_bit 12 (ucast (DECODE b)) OR
               push_bit 6 (ucast (DECODE c)) :: u32
      in [ucast (drop_bit 16 n), ucast (drop_bit 8 n2 AND 0xff)])"
| "bytes_of [a, b] =
     [ucast (drop_bit 16 (push_bit 18 (ucast (DECODE a)) OR push_bit 12 (ucast (DECODE b)) :: u32))]"
| "bytes_of [a] = []"
| "bytes_of [] = []"

text \<open>The room computed beforehand is used up exactly, so every guard on it passes.\<close>

lemma decode_loop_bytes:
  assumes "in_len = length pre + length r" and "length out * 4 = length pre * 3"
    and "out_len = in_len * 3 div 4"
  shows "(case decode_loop (pre @ r @ rest) in_len out_len (length pre) out of
            (si, out') \<Rightarrow> decode_tail (pre @ r @ rest) in_len out_len si out') = out @ bytes_of r"
  using assms
proof (induction r arbitrary: pre out rule: bytes_of.induct)
  case (1 a b c d r)
  let ?n = "push_bit 18 (ucast (DECODE a)) OR push_bit 12 (ucast (DECODE b)) OR
      push_bit 6 (ucast (DECODE c)) OR (ucast (DECODE d) :: u32)"
  let ?out = "out @ [ucast (drop_bit 16 ?n), ucast (drop_bit 8 ?n), ucast ?n]"
  have room: "length out + 3 \<le> out_len" using "1.prems" by simp
  have "decode_loop (pre @ (a # b # c # d # r) @ rest) in_len out_len (length pre) out =
      decode_loop (pre @ (a # b # c # d # r) @ rest) in_len out_len (length pre + 4) ?out"
    using "1.prems"(1) room by (subst decode_loop.simps) (simp add: nth_append put_def Let_def)
  moreover have "(case decode_loop (pre @ (a # b # c # d # r) @ rest) in_len out_len (length pre + 4) ?out of
      (si, out') \<Rightarrow> decode_tail (pre @ (a # b # c # d # r) @ rest) in_len out_len si out') = ?out @ bytes_of r"
  proof -
    have l: "length (pre @ [a, b, c, d]) = length pre + 4"
      and p: "(pre @ [a, b, c, d]) @ r @ rest = pre @ (a # b # c # d # r) @ rest"
      by simp_all
    show ?thesis
      by (rule "1.IH" [OF refl, of "pre @ [a, b, c, d]" ?out, unfolded l p]) (use "1.prems" in simp_all)
  qed
  ultimately show ?case by (simp add: Let_def)
next
  case (2 a b c)
  then have "length out + 2 \<le> out_len" by simp
  then show ?case
    using "2.prems" by (subst decode_loop.simps) (simp add: nth_append put_def Let_def decode_tail_def)
next
  case (3 a b)
  then have "length out + 1 \<le> out_len" by simp
  then show ?case
    using "3.prems" by (subst decode_loop.simps) (simp add: nth_append put_def Let_def decode_tail_def)
next
  case (4 a)
  then show ?case by (subst decode_loop.simps) (simp add: decode_tail_def)
next
  case 5
  then show ?case by (subst decode_loop.simps) (simp add: decode_tail_def)
qed

definition sextets :: "u8 \<Rightarrow> u8 \<Rightarrow> u8 \<Rightarrow> u32" where
  "sextets a b c =
     push_bit 18 (ucast (drop_bit 2 a)) OR push_bit 12 (ucast (push_bit 4 (a AND 3) OR drop_bit 4 b)) OR
     push_bit 6 (ucast (push_bit 2 (b AND 0xf) OR drop_bit 6 c)) OR ucast (c AND 0x3f)"

lemma not_bit_u8: "8 \<le> j \<Longrightarrow> bit (x :: u8) j = False"
  using bit_imp_le_length [of x j] by auto

lemma bit_sextets:
  assumes "j < 24"
  shows "bit (sextets a b c) j \<longleftrightarrow>
    (if j < 8 then bit c j else if j < 16 then bit b (j - 8) else bit a (j - 16))"
proof -
  have "j = 0 \<or> j = 1 \<or> j = 2 \<or> j = 3 \<or> j = 4 \<or> j = 5 \<or> j = 6 \<or> j = 7
      \<or> j = 8 \<or> j = 9 \<or> j = 10 \<or> j = 11 \<or> j = 12 \<or> j = 13 \<or> j = 14
      \<or> j = 15 \<or> j = 16 \<or> j = 17 \<or> j = 18 \<or> j = 19 \<or> j = 20 \<or> j = 21
      \<or> j = 22 \<or> j = 23"
    using assms by presburger
  then show ?thesis
    unfolding sextets_def mask_word_simps
    by (elim disjE; simp add: bit_simps not_bit_u8 del: push_bit_numeral)
qed

lemma sextets_bytes:
  "ucast (drop_bit 16 (sextets a b c)) = a" "ucast (drop_bit 8 (sextets a b c)) = b"
  "ucast (sextets a b c) = c"
  by (rule bit_eqI; simp add: bit_simps bit_sextets; auto simp: not_bit_u8 dest: bit_imp_le_length)+

lemma DECODE_CHARS: "(x :: u8) < 64 \<Longrightarrow> DECODE (CHARS ! unat x) = x"
proof -
  have "list_all (\<lambda>i. DECODE (CHARS ! i) = of_nat i) [0..<64]" by code_simp
  then have "i < 64 \<Longrightarrow> DECODE (CHARS ! i) = of_nat i" for i by (simp add: list_all_iff)
  moreover assume "x < 64"
  then have "unat x < 64" by (simp add: word_less_nat_alt)
  moreover have "of_nat (unat x) = x" by simp
  ultimately show ?thesis by metis
qed

lemma CHARS_not_pad: "(x :: u8) < 64 \<Longrightarrow> CHARS ! unat x \<noteq> 61"
proof -
  have "list_all (\<lambda>i. CHARS ! i \<noteq> 61) [0..<64]" by code_simp
  then have "i < 64 \<Longrightarrow> CHARS ! i \<noteq> 61" for i by (simp add: list_all_iff)
  moreover assume "x < 64"
  then have "unat x < 64" by (simp add: word_less_nat_alt)
  ultimately show ?thesis by simp
qed

lemma below_64:
  fixes x :: u8
  assumes *: "\<And>j. 6 \<le> j \<Longrightarrow> \<not> bit x j"
  shows "x < 64"
proof -
  have "take_bit 6 x = x" by (rule bit_eqI) (use * in \<open>auto simp: bit_simps, meson not_le\<close>)
  then have "take_bit 6 (unat x) = unat x" by (metis unsigned_take_bit_eq)
  then have "unat x < 64" by (simp add: take_bit_nat_eq_self_iff)
  then show ?thesis by (simp add: word_less_nat_alt)
qed

lemma sextet_bounds:
  "drop_bit 2 (a :: u8) < 64" "push_bit 4 (a AND 3) OR drop_bit 4 b < (64 :: u8)"
  "push_bit 2 (b AND 0xf) OR drop_bit 6 c < (64 :: u8)" "c AND 0x3f < (64 :: u8)"
  "push_bit 4 (a AND 3) < (64 :: u8)" "push_bit 2 (b AND 0xf) < (64 :: u8)"
  unfolding mask_word_simps
  by (rule below_64; auto simp: bit_simps not_bit_u8 simp del: push_bit_numeral)+

lemmas sextet_rules =
  DECODE_CHARS [OF sextet_bounds(1)] DECODE_CHARS [OF sextet_bounds(2)]
  DECODE_CHARS [OF sextet_bounds(3)] DECODE_CHARS [OF sextet_bounds(4)]
  DECODE_CHARS [OF sextet_bounds(5)] DECODE_CHARS [OF sextet_bounds(6)]

lemma ucast_and_ff: "ucast ((x :: u32) AND 0xff) = (ucast x :: u8)"
proof -
  have m: "(0xff :: u32) = mask 8" by (simp add: mask_eq_exp_minus_1)
  show ?thesis unfolding m by (rule bit_eqI) (auto simp: bit_simps)
qed

lemma drop_16_push_6: "drop_bit 16 (push_bit 6 (ucast (x :: u8)) :: u32) = 0"
  by (rule bit_eqI) (auto simp: bit_simps not_bit_u8 simp del: push_bit_numeral)

lemma bytes_of_chars: "bytes_of (chars_of bs) = bs"
proof (induction bs rule: chars_of.induct)
  case (1 a b c r)
  then show ?case
    using sextets_bytes [of a b c]
    by (simp only: chars_of.simps append_Cons append_Nil bytes_of.simps sextet_rules Let_def
        sextets_def [symmetric])
next
  case (2 a b)
  have e: "push_bit 18 (ucast (drop_bit 2 a)) OR push_bit 12 (ucast (push_bit 4 (a AND 3) OR drop_bit 4 b)) OR
     push_bit 6 (ucast (push_bit 2 (b AND 0xf))) = sextets a b 0"
    by (simp add: sextets_def del: push_bit_numeral)
  have "drop_bit 16 (push_bit 18 (ucast (drop_bit 2 a)) OR
     push_bit 12 (ucast (push_bit 4 (a AND 3) OR drop_bit 4 b)) :: u32) = drop_bit 16 (sextets a b 0)"
    unfolding e [symmetric] drop_bit_or drop_16_push_6 by (simp only: or.right_neutral)
  then show ?case using sextets_bytes(1,2) [of a b 0]
    by (simp only: chars_of.simps bytes_of.simps sextet_rules Let_def ucast_and_ff e)
next
  case (3 a)
  have e: "push_bit 18 (ucast (drop_bit 2 a)) OR push_bit 12 (ucast (push_bit 4 (a AND 3))) = sextets a 0 0"
    by (simp add: sextets_def del: push_bit_numeral)
  then show ?case using sextets_bytes(1) [of a 0 0]
    by (simp only: chars_of.simps bytes_of.simps sextet_rules e)
qed simp

lemma chars_of_last: "chars_of bs = [] \<or> last (chars_of bs) \<noteq> 61"
  by (induction bs rule: chars_of.induct)
    (use CHARS_not_pad [OF sextet_bounds(4)] CHARS_not_pad [OF sextet_bounds(5)]
      CHARS_not_pad [OF sextet_bounds(6)] in \<open>auto simp del: push_bit_and\<close>)

lemma skip_back_append:
  assumes "list_all ws ys" and "xs = [] \<or> \<not> ws (last xs)"
  shows "skip_back ws (xs @ ys) 0 (length (xs @ ys)) = length xs"
proof -
  let ?k = "skip_back ws (xs @ ys) 0 (length (xs @ ys))"
  have k: "?k \<le> length (xs @ ys)" "\<And>i. ?k \<le> i \<Longrightarrow> i < length (xs @ ys) \<Longrightarrow> ws ((xs @ ys) ! i)"
      "0 < ?k \<Longrightarrow> \<not> ws ((xs @ ys) ! (?k - 1))"
    using skip_back_spec [of 0 "length (xs @ ys)" ws "xs @ ys"] by auto
  have "\<not> ?k < length xs"
  proof
    assume lt: "?k < length xs"
    then have "xs \<noteq> []" by auto
    moreover have "ws ((xs @ ys) ! (length xs - 1))" using k(2) [of "length xs - 1"] lt by simp
    ultimately show False using assms(2) by (simp add: nth_append last_conv_nth)
  qed
  moreover have "\<not> length xs < ?k"
  proof
    assume lt: "length xs < ?k"
    then have "(xs @ ys) ! (?k - 1) = ys ! (?k - 1 - length xs)" "?k - 1 - length xs < length ys"
      using k(1) by (auto simp: nth_append)
    then show False using k(3) lt assms(1) by (simp add: list_all_length)
  qed
  ultimately show ?thesis by simp
qed

text \<open>
  C40. Base64 decoding undoes encoding on every byte string: the padding is stripped, the room
  computed from the stripped length is filled exactly, and each group of four characters gives
  back its three bytes.
\<close>

theorem b64_round_trip: "pith_b64_decode (pith_b64_encode (Some bs)) = Some bs"
proof -
  let ?c = "chars_of bs" and ?p = "padding bs"
  have "skip_back (\<lambda>b. b = 61) (?c @ ?p) 0 (length (?c @ ?p)) = length ?c"
    using chars_of_last [of bs] by (intro skip_back_append) (auto simp: padding_def list_all_iff)
  moreover have "(case decode_loop ([] @ ?c @ ?p) (length ?c) (length ?c * 3 div 4) (length ([] :: bytes)) [] of
      (si, out') \<Rightarrow> decode_tail ([] @ ?c @ ?p) (length ?c) (length ?c * 3 div 4) si out') = [] @ bytes_of ?c"
    by (rule decode_loop_bytes) simp_all
  ultimately show ?thesis
    by (simp add: encode_chars pith_b64_decode_def Let_def bytes_of_chars)
qed

end
