(* ===== verification/Steps.thy ===== *)
theory Steps
  imports Prelude
begin

text \<open>
  Transition systems: the states a step relation reaches from its initial states, and the
  contract of an inductive invariant. Every component with concurrent steps interprets
  \<open>inductive_invariant\<close> on its own relation.
\<close>

inductive reachable :: "('s \<Rightarrow> bool) \<Rightarrow> ('s \<Rightarrow> 's \<Rightarrow> bool) \<Rightarrow> 's \<Rightarrow> bool"
  for init :: "'s \<Rightarrow> bool" and step :: "'s \<Rightarrow> 's \<Rightarrow> bool"
where
  reachable_init: "init s \<Longrightarrow> reachable init step s"
| reachable_step: "reachable init step s \<Longrightarrow> step s t \<Longrightarrow> reachable init step t"

locale inductive_invariant =
  fixes init :: "'s \<Rightarrow> bool" and step :: "'s \<Rightarrow> 's \<Rightarrow> bool" and inv :: "'s \<Rightarrow> bool"
  assumes init_inv: "init s \<Longrightarrow> inv s"
    and step_inv: "inv s \<Longrightarrow> step s t \<Longrightarrow> inv t"
begin

lemma invariant: "reachable init step s \<Longrightarrow> inv s"
  by (induction rule: reachable.induct) (auto intro: init_inv step_inv)

end

lemma reachable_trans:
  "reachable init step s \<Longrightarrow> step\<^sup>*\<^sup>* s t \<Longrightarrow> reachable init step t"
  by (rotate_tac, induction rule: rtranclp.induct) (auto intro: reachable_step)

text \<open>A count summed over the threads, when one thread changes its share.\<close>

lemma sum_upd:
  fixes f :: "'t::finite \<Rightarrow> nat"
  shows "(\<Sum>t\<in>UNIV. (f(c := x)) t) + f c = (\<Sum>t\<in>UNIV. f t) + x"
proof -
  have "(\<Sum>t\<in>UNIV. (f(c := x)) t) = x + (\<Sum>t\<in>UNIV - {c}. f t)"
    by (simp add: sum.remove [of UNIV c])
  moreover have "(\<Sum>t\<in>UNIV. f t) = f c + (\<Sum>t\<in>UNIV - {c}. f t)"
    by (simp add: sum.remove [of UNIV c])
  ultimately show ?thesis by simp
qed

end
