(* ===== verification/RunQueues.thy ===== *)
theory RunQueues
  imports Prelude "HOL-Library.Multiset"
begin

text \<open>
  The run queues of the green scheduler, \<open>concurrency/green/queues.rs\<close>: the pinned queue with
  its affinity slot and the streak that bounds it, and the stealable queue with the length
  mirror idle workers read. A queue operation runs under its lock, so it is one function; the
  two that skip a queue whose lock is taken get that fact as an argument.
\<close>

type_synonym task_id = nat

subsection \<open>The pinned queue\<close>

definition MAX_AFFINITY_STREAK :: nat where
  "MAX_AFFINITY_STREAK = 32"

record pinned_queue =
  slot :: "task_id option"
  fifo :: "task_id list"
  affinity_streak :: nat

definition pinned_new :: pinned_queue where
  "pinned_new = \<lparr>slot = None, fifo = [], affinity_streak = 0\<rparr>"

definition fifo_first :: "pinned_queue \<Rightarrow> task_id option \<times> pinned_queue" where
  "fifo_first q =
     (let q' = q\<lparr>affinity_streak := 0\<rparr> in
      case fifo q' of
        t # ts \<Rightarrow> (Some t, q'\<lparr>fifo := ts\<rparr>)
      | [] \<Rightarrow> (slot q', q'\<lparr>slot := None\<rparr>))"

definition pinned_pop :: "pinned_queue \<Rightarrow> task_id option \<times> pinned_queue" where
  "pinned_pop q =
     (if affinity_streak q < MAX_AFFINITY_STREAK then
        (case slot q of
           Some t \<Rightarrow> (Some t, q\<lparr>slot := None, affinity_streak := affinity_streak q + 1\<rparr>)
         | None \<Rightarrow> fifo_first q)
      else fifo_first q)"

definition pinned_push :: "task_id \<Rightarrow> pinned_queue \<Rightarrow> pinned_queue" where
  "pinned_push t q = q\<lparr>fifo := fifo q @ [t]\<rparr>"

definition pinned_push_next :: "task_id \<Rightarrow> pinned_queue \<Rightarrow> pinned_queue" where
  "pinned_push_next t q =
     (case slot q of
        None \<Rightarrow> q\<lparr>slot := Some t\<rparr>
      | Some previous \<Rightarrow> q\<lparr>slot := Some t, fifo := fifo q @ [previous]\<rparr>)"

definition pinned_is_empty :: "pinned_queue \<Rightarrow> bool" where
  "pinned_is_empty q \<longleftrightarrow> slot q = None \<and> fifo q = []"

text \<open>What the queue holds.\<close>

definition pinned_tasks :: "pinned_queue \<Rightarrow> task_id multiset" where
  "pinned_tasks q = mset (fifo q) + (case slot q of None \<Rightarrow> {#} | Some t \<Rightarrow> {#t#})"

lemma pinned_push_tasks [simp]: "pinned_tasks (pinned_push t q) = add_mset t (pinned_tasks q)"
  by (simp add: pinned_tasks_def pinned_push_def)

lemma pinned_push_next_tasks [simp]:
  "pinned_tasks (pinned_push_next t q) = add_mset t (pinned_tasks q)"
  by (simp add: pinned_tasks_def pinned_push_next_def split: option.splits)

lemma pinned_pop_tasks:
  "pinned_pop q = (Some t, q') \<Longrightarrow> pinned_tasks q = add_mset t (pinned_tasks q')"
  "pinned_pop q = (None, q') \<Longrightarrow> pinned_tasks q = {#} \<and> pinned_tasks q' = {#}"
  by (auto simp: pinned_tasks_def pinned_pop_def fifo_first_def Let_def
      split: if_splits option.splits list.splits)

subsection \<open>A run of the pinned queue\<close>

datatype pin_op = Push task_id | PushNext task_id | Pop

fun pin_run :: "pin_op list \<Rightarrow> pinned_queue \<Rightarrow> task_id list \<times> pinned_queue" where
  "pin_run [] q = ([], q)"
| "pin_run (Push t # ops) q = pin_run ops (pinned_push t q)"
| "pin_run (PushNext t # ops) q = pin_run ops (pinned_push_next t q)"
| "pin_run (Pop # ops) q =
     (let (t, q') = pinned_pop q; (ts, q'') = pin_run ops q'
      in ((case t of None \<Rightarrow> [] | Some i \<Rightarrow> [i]) @ ts, q''))"

fun pushed :: "pin_op list \<Rightarrow> task_id multiset" where
  "pushed [] = {#}"
| "pushed (Push t # ops) = add_mset t (pushed ops)"
| "pushed (PushNext t # ops) = add_mset t (pushed ops)"
| "pushed (Pop # ops) = pushed ops"

fun pops :: "pin_op list \<Rightarrow> nat" where
  "pops [] = 0"
| "pops (Pop # ops) = Suc (pops ops)"
| "pops (_ # ops) = pops ops"

lemma pin_run_conserves:
  "pin_run ops q = (ts, q') \<Longrightarrow> pinned_tasks q + pushed ops = mset ts + pinned_tasks q'"
proof (induction ops q arbitrary: ts q' rule: pin_run.induct)
  case (4 ops q)
  obtain t q1 where p: "pinned_pop q = (t, q1)" by fastforce
  obtain us q2 where r: "pin_run ops q1 = (us, q2)" by fastforce
  from "4.IH" [OF p [symmetric] refl r]
  have "pinned_tasks q1 + pushed ops = mset us + pinned_tasks q2" .
  then show ?case using "4.prems" p r pinned_pop_tasks(1) [of q _ q1] pinned_pop_tasks(2) [of q q1] by (cases t) auto
qed auto

text \<open>How long the entry at position \<open>k\<close> of the fifo can wait. Every pop lowers this number or
  takes the entry, and no push raises it.\<close>

definition patience :: "pinned_queue \<Rightarrow> nat \<Rightarrow> nat" where
  "patience q k = 33 * k + (MAX_AFFINITY_STREAK - affinity_streak q)"

definition streak_ok :: "pinned_queue \<Rightarrow> bool" where
  "streak_ok q \<longleftrightarrow> affinity_streak q \<le> MAX_AFFINITY_STREAK"

lemma streak_ok_ops [pith_inv]:
  "streak_ok q \<Longrightarrow> streak_ok (pinned_push t q)"
  "streak_ok q \<Longrightarrow> streak_ok (pinned_push_next t q)"
  "streak_ok q \<Longrightarrow> streak_ok (snd (pinned_pop q))"
  by (auto simp: streak_ok_def pinned_push_def pinned_push_next_def pinned_pop_def fifo_first_def Let_def
      split: option.splits list.splits)

lemma pop_patience:
  assumes "streak_ok q" and "k < length (fifo q)" and "pinned_pop q = (u, q')"
  shows "u = Some (fifo q ! k) \<or>
    (\<exists>k'. k' < length (fifo q') \<and> fifo q' ! k' = fifo q ! k \<and> patience q' k' < patience q k)"
proof (cases "affinity_streak q < MAX_AFFINITY_STREAK \<and> slot q \<noteq> None")
  case True
  then have "fifo q' = fifo q" "patience q' k < patience q k"
    using assms by (auto simp: pinned_pop_def patience_def)
  then show ?thesis using assms(2) by metis
next
  case False
  then have p: "pinned_pop q = fifo_first q" by (auto simp: pinned_pop_def)
  obtain t ts where f: "fifo q = t # ts" using assms(2) by (cases "fifo q") auto
  then have q': "u = Some t" "fifo q' = ts" "affinity_streak q' = 0"
    using assms(3) p by (auto simp: fifo_first_def)
  show ?thesis
  proof (cases k)
    case 0
    then show ?thesis using f q' by simp
  next
    case (Suc j)
    then have "j < length (fifo q')" "fifo q' ! j = fifo q ! k" using f q' assms(2) by auto
    moreover have "patience q' j < patience q k"
      using assms(1) Suc q' by (simp add: patience_def streak_ok_def MAX_AFFINITY_STREAK_def)
    ultimately show ?thesis by blast
  qed
qed

lemma served_within_patience:
  "streak_ok q \<Longrightarrow> k < length (fifo q) \<Longrightarrow> patience q k < pops ops \<Longrightarrow>
   fifo q ! k \<in> set (fst (pin_run ops q))"
proof (induction ops q arbitrary: k rule: pin_run.induct)
  case (2 t ops q)
  have "fifo (pinned_push t q) ! k = fifo q ! k" "k < length (fifo (pinned_push t q))"
    "patience (pinned_push t q) k = patience q k"
    using "2.prems" by (auto simp: pinned_push_def nth_append patience_def)
  then show ?case using "2.IH" [of k] "2.prems" streak_ok_ops(1) by auto
next
  case (3 t ops q)
  have "fifo (pinned_push_next t q) ! k = fifo q ! k" "k < length (fifo (pinned_push_next t q))"
    "patience (pinned_push_next t q) k = patience q k"
    using "3.prems" by (auto simp: pinned_push_next_def nth_append patience_def split: option.splits)
  then show ?case using "3.IH" [of k] "3.prems" streak_ok_ops(2) by auto
next
  case (4 ops q)
  obtain u q1 where p: "pinned_pop q = (u, q1)" by fastforce
  have ok: "streak_ok q1" using streak_ok_ops(3) [OF "4.prems"(1)] p by simp
  from pop_patience [OF "4.prems"(1,2) p] show ?case
  proof (elim disjE exE conjE)
    assume "u = Some (fifo q ! k)"
    then show ?thesis using p by (simp add: case_prod_beta)
  next
    fix k' assume k': "k' < length (fifo q1)" "fifo q1 ! k' = fifo q ! k" "patience q1 k' < patience q k"
    have "fifo q1 ! k' \<in> set (fst (pin_run ops q1))"
      using "4.IH" [OF p [symmetric] refl ok k'(1)] k'(3) "4.prems"(3) by simp
    then show ?thesis using p k'(2) by (simp add: case_prod_beta)
  qed
qed auto

text \<open>
  C27. No task waits behind a talking pair. Whatever pushes arrive in between, a task that sits
  at position \<open>k\<close> of a worker's pinned fifo is among the tasks returned by the next
  \<open>33 * (k + 1)\<close> pops, although a same-worker wake may claim the affinity slot before every
  one of them.
\<close>

theorem fifo_wait_is_bounded:
  assumes "affinity_streak q \<le> MAX_AFFINITY_STREAK" and "k < length (fifo q)"
    and "33 * (k + 1) \<le> pops ops"
  shows "fifo q ! k \<in> set (fst (pin_run ops q))"
  using served_within_patience [of q k ops] assms
  by (simp add: streak_ok_def patience_def MAX_AFFINITY_STREAK_def)

theorem fifo_wait_is_bounded_witness:
  "7 \<in> set (fst (pin_run (concat (replicate 33 [PushNext 1, Pop]))
     \<lparr>slot = None, fifo = [7], affinity_streak = 0\<rparr>))"
  using fifo_wait_is_bounded [of "\<lparr>slot = None, fifo = [7], affinity_streak = 0\<rparr>" 0
      "concat (replicate 33 [PushNext 1, Pop])"]
  by (simp add: MAX_AFFINITY_STREAK_def numeral_eq_Suc)

text \<open>
  The pinned queue neither loses nor repeats a task: over any run of pushes and pops, what
  it held at the start and what was pushed is what was popped and what it still holds, task by
  task with multiplicity.
\<close>

theorem pinned_queue_conserves:
  "pinned_tasks q + pushed ops = mset (fst (pin_run ops q)) + pinned_tasks (snd (pin_run ops q))"
  using pin_run_conserves [of ops q] by (cases "pin_run ops q") auto

subsection \<open>The stealable queue\<close>

record steal_queue =
  squeue :: "task_id list"
  len :: nat

definition STEAL_MAX :: nat where
  "STEAL_MAX = 32"

definition steal_ok :: "steal_queue \<Rightarrow> bool" where
  "steal_ok s \<longleftrightarrow> len s = length (squeue s)"

definition steal_is_empty :: "steal_queue \<Rightarrow> bool" where
  "steal_is_empty s \<longleftrightarrow> len s = 0"

definition store_queue :: "task_id list \<Rightarrow> steal_queue \<Rightarrow> steal_queue" where
  "store_queue q s = s\<lparr>squeue := q, len := length q\<rparr>"

definition steal_push :: "task_id \<Rightarrow> steal_queue \<Rightarrow> steal_queue" where
  "steal_push t s = store_queue (squeue s @ [t]) s"

definition pop_front :: "steal_queue \<Rightarrow> task_id option \<times> steal_queue" where
  "pop_front s =
     (case squeue s of [] \<Rightarrow> (None, store_queue [] s) | t # ts \<Rightarrow> (Some t, store_queue ts s))"

definition steal_pop :: "steal_queue \<Rightarrow> task_id option \<times> steal_queue" where
  "steal_pop s = (if steal_is_empty s then (None, s) else pop_front s)"

definition steal_try_pop :: "bool \<Rightarrow> steal_queue \<Rightarrow> task_id option \<times> steal_queue" where
  "steal_try_pop locked s =
     (if steal_is_empty s then (None, s) else if locked then (None, s) else pop_front s)"

text \<open>The front task is run by the thief; up to half of the rest moves onto its own queue.\<close>

definition steal_half ::
  "bool \<Rightarrow> steal_queue \<Rightarrow> steal_queue \<Rightarrow> task_id option \<times> steal_queue \<times> steal_queue" where
  "steal_half locked s into =
     (if steal_is_empty s then (None, s, into)
      else if locked then (None, s, into)
      else
        (case squeue s of
           [] \<Rightarrow> (None, s, into)
         | t # ts \<Rightarrow>
             (let taken = min (length ts div 2) STEAL_MAX;
                  batch = take taken ts;
                  s' = store_queue (drop taken ts) s
              in (Some t, s', if taken > 0 then store_queue (squeue into @ batch) into else into))))"

lemma steal_ok_ops [pith_inv]:
  "steal_ok (steal_push t s)"
  "steal_ok s \<Longrightarrow> steal_ok (snd (steal_pop s))"
  "steal_ok s \<Longrightarrow> steal_ok (snd (steal_try_pop l s))"
  by (auto simp: steal_ok_def steal_push_def store_queue_def steal_pop_def steal_try_pop_def
      pop_front_def split: list.splits)

text \<open>
  Stealing half moves tasks without losing, repeating or reordering them, and keeps both
  length mirrors exact: the victim's queue was the returned task, the batch that went to the
  back of the thief's queue, and what is left, in this order; the batch is at most 32 tasks and
  never more than is left, and an idle queue answers nothing only when it is empty or another
  thread holds its lock.
\<close>

theorem steal_half_moves:
  assumes "steal_ok s" and "steal_ok into" and "steal_half locked s into = (r, s', into')"
  shows "steal_ok s' \<and> steal_ok into' \<and>
    (case r of
       Some t \<Rightarrow> \<exists>batch. squeue s = t # batch @ squeue s' \<and> squeue into' = squeue into @ batch \<and>
                   length batch \<le> 32 \<and> length batch \<le> length (squeue s')
     | None \<Rightarrow> s' = s \<and> into' = into \<and> (squeue s = [] \<or> locked))"
proof (cases "steal_is_empty s \<or> locked \<or> squeue s = []")
  case True
  then have "(r, s', into') = (None, s, into)"
    using assms(3) by (auto simp: steal_half_def split: if_splits)
  then show ?thesis using True assms(1,2) by (auto simp: steal_is_empty_def steal_ok_def)
next
  case False
  then obtain t ts where q: "squeue s = t # ts" by (cases "squeue s") auto
  let ?taken = "min (length ts div 2) STEAL_MAX"
  have e: "r = Some t" "s' = store_queue (drop ?taken ts) s"
    "into' = (if ?taken > 0 then store_queue (squeue into @ take ?taken ts) into else into)"
    using assms(3) False q by (auto simp: steal_half_def Let_def)
  have "squeue into' = squeue into @ take ?taken ts"
    using e(3) by (auto simp: store_queue_def)
  moreover have "steal_ok into'" using e(3) assms(2) by (auto simp: steal_ok_def store_queue_def)
  moreover have "steal_ok s'" using e(2) by (auto simp: steal_ok_def store_queue_def)
  moreover have "length (take ?taken ts) \<le> 32" "length (take ?taken ts) \<le> length (squeue s')"
    using e(2) by (auto simp: STEAL_MAX_def store_queue_def)
  moreover have "squeue s = t # take ?taken ts @ squeue s'" using q e(2) by (simp add: store_queue_def)
  ultimately show ?thesis using e(1) by auto
qed

theorem steal_half_moves_witness:
  "steal_half False \<lparr>squeue = [1, 2, 3, 4, 5], len = 5\<rparr> \<lparr>squeue = [9], len = 1\<rparr> =
     (Some 1, \<lparr>squeue = [4, 5], len = 2\<rparr>, \<lparr>squeue = [9, 2, 3], len = 3\<rparr>) \<and>
   (\<exists>batch. [1, 2, 3, 4, 5] = 1 # batch @ [4, 5 :: nat])"
proof -
  let ?s = "\<lparr>squeue = [1, 2, 3, 4, 5], len = 5\<rparr>" and ?i = "\<lparr>squeue = [9], len = 1\<rparr>"
  have e: "steal_half False ?s ?i =
      (Some 1, \<lparr>squeue = [4, 5], len = 2\<rparr>, \<lparr>squeue = [9, 2, 3], len = 3\<rparr>)"
    by (simp add: steal_half_def steal_is_empty_def store_queue_def Let_def STEAL_MAX_def)
  from steal_half_moves [OF _ _ e] e show ?thesis by (auto simp: steal_ok_def)
qed

end
