(* ===== verification/GreenTask.thy ===== *)
theory GreenTask
  imports Steps
begin

text \<open>
  One green task's scheduling word: \<open>concurrency/green/task.rs\<close>, \<open>wake.rs\<close>, \<open>run.rs\<close> and the
  owner rewrite of \<open>worker.rs\<close>. The word keeps its 64 bits: the run state in bits 0 and 1, the
  two pending flags in bits 2 and 3, the owner worker plus one from bit 32. Each CAS loop of
  the code retries on the value it lost to, so it acts as one step on the current word; the
  writes around it (the coroutine cell, the run queues) are steps of their own.
\<close>

subsection \<open>The word\<close>

definition S_STATE_MASK :: u64 where "S_STATE_MASK = 3"
definition S_READY :: u64 where "S_READY = 0"
definition S_RUNNING :: u64 where "S_RUNNING = 1"
definition S_PARKED :: u64 where "S_PARKED = 2"
definition S_DONE :: u64 where "S_DONE = 3"
definition S_WAKE_PENDING :: u64 where "S_WAKE_PENDING = push_bit 2 1"
definition S_PREEMPT_PENDING :: u64 where "S_PREEMPT_PENDING = push_bit 3 1"
definition S_OWNER_SHIFT :: nat where "S_OWNER_SHIFT = 32"
definition S_OWNER_MASK :: u64 where "S_OWNER_MASK = push_bit S_OWNER_SHIFT (NOT 0)"

lemmas word_consts = S_STATE_MASK_def S_READY_def S_RUNNING_def S_PARKED_def S_DONE_def
  S_WAKE_PENDING_def S_PREEMPT_PENDING_def S_OWNER_SHIFT_def S_OWNER_MASK_def

definition word_owner :: "u64 \<Rightarrow> nat option" where
  "word_owner word =
     (let w = drop_bit S_OWNER_SHIFT word in if w = 0 then None else Some (unat w - 1))"

definition owner_bits :: "nat \<Rightarrow> u64" where
  "owner_bits worker = push_bit S_OWNER_SHIFT (of_nat worker + 1)"

datatype wake_result = Claim u64 "nat option" | Pend u64 | Skip

definition wake_step :: "u64 \<Rightarrow> (nat option \<Rightarrow> nat option) \<Rightarrow> wake_result" where
  "wake_step word home_for =
     (if word AND S_STATE_MASK = S_PARKED then
        (let home = home_for (word_owner word) in
         Claim (case home of None \<Rightarrow> S_READY | Some w \<Rightarrow> owner_bits w OR S_READY) home)
      else if word AND S_STATE_MASK = S_RUNNING then Pend (word OR S_WAKE_PENDING)
      else Skip)"

text \<open>Where the woken task resumes: on the worker that wakes it, when moving is allowed.\<close>

definition home_for :: "bool \<Rightarrow> bool \<Rightarrow> nat option \<Rightarrow> nat option \<Rightarrow> nat option" where
  "home_for migrate may_move current_worker owner =
     (if migrate \<and> may_move then
        (case (owner, current_worker) of
           (Some own, Some w) \<Rightarrow> if w \<noteq> own then Some w else owner
         | _ \<Rightarrow> owner)
      else owner)"

text \<open>The new word, and the worker to enqueue the claimed task on.\<close>

definition claim_parked ::
  "bool \<Rightarrow> bool \<Rightarrow> nat option \<Rightarrow> u64 \<Rightarrow> u64 \<times> nat option option" where
  "claim_parked migrate may_move current_worker word =
     (case wake_step word (home_for migrate may_move current_worker) of
        Claim next' home \<Rightarrow> (next', Some home)
      | Pend next' \<Rightarrow> (next', None)
      | Skip \<Rightarrow> (word, None))"

datatype requeue = Woken "nat option" | Preempted "nat option" | NoRequeue

definition after_yield :: "u64 \<Rightarrow> u64 \<times> requeue" where
  "after_yield word =
     (let ready = (word AND S_OWNER_MASK) OR S_READY in
      if word AND S_PREEMPT_PENDING \<noteq> 0 then (ready, Preempted (word_owner word))
      else if word AND S_WAKE_PENDING \<noteq> 0 then (ready, Woken (word_owner word))
      else ((word AND S_OWNER_MASK) OR S_PARKED, NoRequeue))"

text \<open>The claim of \<open>run_task\<close>: nothing when the task is not ready.\<close>

definition run_claim :: "nat option \<Rightarrow> u64 \<Rightarrow> u64 option" where
  "run_claim current_worker word =
     (if word AND S_STATE_MASK \<noteq> S_READY then None
      else
        (let next' = (word AND S_OWNER_MASK) OR S_RUNNING in
         Some (if next' AND S_OWNER_MASK = 0
               then (case current_worker of None \<Rightarrow> next' | Some w \<Rightarrow> next' OR owner_bits w)
               else next')))"

text \<open>The owner rewrite of \<open>steal_pinned\<close>, on a task popped off its owner's queue.\<close>

definition steal_owner :: "nat \<Rightarrow> u64 \<Rightarrow> u64" where
  "steal_owner thief word =
     (if word AND S_STATE_MASK = S_READY then (word AND NOT S_OWNER_MASK) OR owner_bits thief
      else word)"

subsection \<open>The bits of the word\<close>

lemma owner_mask_bit [simp]: "bit S_OWNER_MASK n \<longleftrightarrow> 32 \<le> n \<and> n < 64"
  by (auto simp: word_consts bit_simps possible_bit_def)

lemma state_mask_bit [simp]: "bit S_STATE_MASK n \<longleftrightarrow> n < 2"
proof -
  have m: "S_STATE_MASK = mask 2" by (simp add: S_STATE_MASK_def mask_eq_exp_minus_1)
  show ?thesis unfolding m by (auto simp: bit_simps)
qed

lemma state_mask_disjoint: "S_OWNER_MASK AND S_STATE_MASK = 0" "owner_bits w AND S_STATE_MASK = 0"
  by (auto intro!: bit_eqI simp: bit_and_iff owner_bits_def S_OWNER_SHIFT_def bit_push_bit_iff)

lemma state_of:
  "((w AND S_OWNER_MASK) OR S_READY) AND S_STATE_MASK = S_READY"
  "((w AND S_OWNER_MASK) OR S_RUNNING) AND S_STATE_MASK = S_RUNNING"
  "((w AND S_OWNER_MASK) OR S_PARKED) AND S_STATE_MASK = S_PARKED"
  "(owner_bits k OR S_READY) AND S_STATE_MASK = S_READY"
  "S_READY AND S_STATE_MASK = S_READY"
  "S_DONE AND S_STATE_MASK = S_DONE"
  "(w OR S_WAKE_PENDING) AND S_STATE_MASK = w AND S_STATE_MASK"
  "(w OR S_PREEMPT_PENDING) AND S_STATE_MASK = w AND S_STATE_MASK"
  "(w OR owner_bits k) AND S_STATE_MASK = w AND S_STATE_MASK"
  "(w AND NOT S_OWNER_MASK) AND S_STATE_MASK = w AND S_STATE_MASK"
proof -
  have o: "(w AND S_OWNER_MASK) AND S_STATE_MASK = 0" for w
    by (metis and.assoc and_zero_eq state_mask_disjoint(1))
  show "((w AND S_OWNER_MASK) OR S_READY) AND S_STATE_MASK = S_READY"
    "((w AND S_OWNER_MASK) OR S_RUNNING) AND S_STATE_MASK = S_RUNNING"
    "((w AND S_OWNER_MASK) OR S_PARKED) AND S_STATE_MASK = S_PARKED"
    "(owner_bits k OR S_READY) AND S_STATE_MASK = S_READY"
    "S_READY AND S_STATE_MASK = S_READY"
    "S_DONE AND S_STATE_MASK = S_DONE"
    "(w OR S_WAKE_PENDING) AND S_STATE_MASK = w AND S_STATE_MASK"
    "(w OR S_PREEMPT_PENDING) AND S_STATE_MASK = w AND S_STATE_MASK"
    "(w OR owner_bits k) AND S_STATE_MASK = w AND S_STATE_MASK"
    by (simp_all add: bit.conj_disj_distrib2 o state_mask_disjoint)
      (simp_all add: S_READY_def S_RUNNING_def S_PARKED_def S_DONE_def S_STATE_MASK_def
        S_WAKE_PENDING_def S_PREEMPT_PENDING_def)
  show "(w AND NOT S_OWNER_MASK) AND S_STATE_MASK = w AND S_STATE_MASK"
    by (rule bit_eqI) (use state_mask_disjoint(1) in \<open>auto simp: bit_simps bit_eq_iff\<close>)
qed

lemma flags_nonzero [simp]: "S_WAKE_PENDING \<noteq> 0" "S_PREEMPT_PENDING \<noteq> 0"
  by (simp_all add: S_WAKE_PENDING_def S_PREEMPT_PENDING_def)

lemma wake_flag:
  "(w OR S_WAKE_PENDING) AND S_WAKE_PENDING \<noteq> 0"
  "(w OR S_PREEMPT_PENDING) AND S_WAKE_PENDING = w AND S_WAKE_PENDING"
  "(w OR S_PREEMPT_PENDING) AND S_PREEMPT_PENDING \<noteq> 0"
proof -
  have "S_WAKE_PENDING \<noteq> 0" "S_PREEMPT_PENDING AND S_WAKE_PENDING = 0" "S_PREEMPT_PENDING \<noteq> 0"
    by (simp_all add: S_WAKE_PENDING_def S_PREEMPT_PENDING_def)
  then show "(w OR S_WAKE_PENDING) AND S_WAKE_PENDING \<noteq> 0"
    "(w OR S_PREEMPT_PENDING) AND S_WAKE_PENDING = w AND S_WAKE_PENDING"
    "(w OR S_PREEMPT_PENDING) AND S_PREEMPT_PENDING \<noteq> 0"
    by (simp_all add: bit.conj_disj_distrib2 or_word_eq_0_iff)
qed

lemma drop_owner_mask:
  "drop_bit S_OWNER_SHIFT (w AND S_OWNER_MASK) = drop_bit S_OWNER_SHIFT w"
  by (rule bit_eqI) (auto simp: bit_simps S_OWNER_SHIFT_def dest: bit_imp_le_length)

lemma drop_small [simp]:
  "drop_bit S_OWNER_SHIFT S_READY = 0" "drop_bit S_OWNER_SHIFT S_RUNNING = 0"
  "drop_bit S_OWNER_SHIFT S_PARKED = 0" "drop_bit S_OWNER_SHIFT S_WAKE_PENDING = 0"
  "drop_bit S_OWNER_SHIFT S_PREEMPT_PENDING = 0"
  by (simp_all add: word_consts)

lemma drop_owner_bits:
  assumes "k + 1 < 2 ^ 32"
  shows "drop_bit S_OWNER_SHIFT (owner_bits k) = of_nat (k + 1)"
proof -
  let ?x = "of_nat (k + 1) :: u64"
  have u: "unat ?x = k + 1"
    using assms by (intro unat_of_nat_u64) simp
  have "push_bit 32 (k + 1) < 2 ^ 64" using assms by (simp add: push_bit_eq_mult)
  then have "unat (push_bit 32 ?x) = push_bit 32 (k + 1)"
    by (simp only: unsigned_push_bit_eq u) (simp add: take_bit_nat_eq_self_iff)
  then have "unat (drop_bit 32 (push_bit 32 ?x)) = drop_bit 32 (push_bit 32 (k + 1))"
    by (simp only: unat_drop_bit_eq)
  also have "\<dots> = k + 1" by (simp only: drop_bit_eq_div push_bit_eq_mult) simp
  finally have "unat (drop_bit 32 (push_bit 32 ?x)) = k + 1" .
  then show ?thesis
    unfolding owner_bits_def S_OWNER_SHIFT_def by (metis u add.commute of_nat_1 of_nat_add unsigned_word_eqI)
qed

lemma word_owner_bits:
  assumes "k + 1 < 2 ^ 32" and "drop_bit S_OWNER_SHIFT s = 0"
  shows "word_owner (owner_bits k OR s) = Some k"
proof -
  have "drop_bit S_OWNER_SHIFT (owner_bits k OR s) = of_nat (k + 1)"
    using assms by (simp only: drop_bit_or drop_owner_bits or.right_neutral)
  moreover have u: "unat (of_nat (k + 1) :: u64) = k + 1"
    using assms(1) by (intro unat_of_nat_u64) simp
  moreover have "of_nat (k + 1) \<noteq> (0 :: u64)" using u by (metis add_is_0 one_neq_zero unsigned_0)
  ultimately show ?thesis by (simp only: word_owner_def Let_def) simp
qed

subsection \<open>One task through the scheduler\<close>

text \<open>
  Where the worker that resumes the task stands: it won the claim, it has taken the coroutine
  out and runs it, it has put the coroutine back and has not settled the word yet.
\<close>

datatype run_pc = Off | Claimed | OnCpu | PutBack

text \<open>
  \<open>tickets\<close> counts the threads that owe the task an enqueue (the spawner, a waker that won
  the claim, the yield arm), \<open>queued\<close> its entries in run queues, \<open>popped\<close> the workers that
  took one of these out and have not claimed the word yet. \<open>signalled\<close> records that a wake
  acted since the task was last put on a processor.
\<close>

record green =
  word :: u64
  coro :: bool
  tickets :: nat
  queued :: nat
  popped :: nat
  pc :: run_pc
  signalled :: bool

definition green_init :: "green \<Rightarrow> bool" where
  "green_init g \<longleftrightarrow>
     g = \<lparr>word = S_DONE, coro = False, tickets = 0, queued = 0, popped = 0, pc = Off, signalled = False\<rparr>"

text \<open>\<open>arm\<close> needs the block to itself: the id came off a free pool.\<close>

definition arm :: "green \<Rightarrow> green" where
  "arm g = g\<lparr>coro := True, word := S_READY, tickets := tickets g + 1, signalled := False\<rparr>"

definition wake :: "bool \<Rightarrow> bool \<Rightarrow> nat option \<Rightarrow> green \<Rightarrow> green" where
  "wake migrate may_move cur g =
     (case claim_parked migrate may_move cur (word g) of
        (w, Some _) \<Rightarrow> g\<lparr>word := w, tickets := tickets g + 1, signalled := True\<rparr>
      | (w, None) \<Rightarrow> g\<lparr>word := w, signalled := signalled g \<or> word g AND S_STATE_MASK = S_RUNNING\<rparr>)"

definition claim :: "nat option \<Rightarrow> green \<Rightarrow> green" where
  "claim cur g =
     (case run_claim cur (word g) of
        None \<Rightarrow> g\<lparr>popped := popped g - 1\<rparr>
      | Some w \<Rightarrow> g\<lparr>word := w, popped := popped g - 1, pc := Claimed\<rparr>)"

definition take_coro :: "green \<Rightarrow> green" where
  "take_coro g = (if coro g then g\<lparr>coro := False, pc := OnCpu, signalled := False\<rparr> else g\<lparr>pc := Off\<rparr>)"

definition settle :: "green \<Rightarrow> green" where
  "settle g =
     (case after_yield (word g) of
        (w, NoRequeue) \<Rightarrow> g\<lparr>word := w, pc := Off\<rparr>
      | (w, _) \<Rightarrow> g\<lparr>word := w, pc := Off, tickets := tickets g + 1\<rparr>)"

inductive green_step :: "green \<Rightarrow> green \<Rightarrow> bool" where
  spawn: "word g AND S_STATE_MASK = S_DONE \<Longrightarrow> pc g = Off \<Longrightarrow> green_step g (arm g)"
| wakes: "green_step g (wake migrate may_move cur g)"
| enqueue: "0 < tickets g \<Longrightarrow> green_step g (g\<lparr>tickets := tickets g - 1, queued := queued g + 1\<rparr>)"
| dequeue: "0 < queued g \<Longrightarrow> green_step g (g\<lparr>queued := queued g - 1, popped := popped g + 1\<rparr>)"
| steals: "0 < popped g \<Longrightarrow> green_step g (g\<lparr>word := steal_owner thief (word g)\<rparr>)"
| claims: "0 < popped g \<Longrightarrow> green_step g (claim cur g)"
| resumes: "pc g = Claimed \<Longrightarrow> green_step g (take_coro g)"
| preempts: "pc g = OnCpu \<Longrightarrow> green_step g (g\<lparr>word := word g OR S_PREEMPT_PENDING\<rparr>)"
| suspends: "pc g = OnCpu \<Longrightarrow> green_step g (g\<lparr>coro := True, pc := PutBack\<rparr>)"
| settles: "pc g = PutBack \<Longrightarrow> green_step g (settle g)"
| finishes: "pc g = OnCpu \<Longrightarrow> green_step g (g\<lparr>word := S_DONE, pc := Off\<rparr>)"

inductive_cases green_step_cases: "green_step g g'"

abbreviation run_state :: "green \<Rightarrow> u64" where
  "run_state g \<equiv> word g AND S_STATE_MASK"

text \<open>The task is in one place at a time, and a signal is never slept on.\<close>

definition green_inv :: "green \<Rightarrow> bool" where
  "green_inv g \<longleftrightarrow>
     (run_state g = S_READY \<and> pc g = Off \<and> coro g \<and> tickets g + queued g + popped g = 1 \<or>
      run_state g = S_RUNNING \<and> pc g \<noteq> Off \<and> (coro g \<longleftrightarrow> pc g \<noteq> OnCpu) \<and>
        tickets g + queued g + popped g = 0 \<and>
        (signalled g \<longrightarrow> pc g \<noteq> Claimed \<longrightarrow> word g AND S_WAKE_PENDING \<noteq> 0) \<or>
      run_state g = S_PARKED \<and> pc g = Off \<and> coro g \<and> tickets g + queued g + popped g = 0 \<and>
        \<not> signalled g \<or>
      run_state g = S_DONE \<and> pc g = Off \<and> tickets g + queued g + popped g = 0)"

lemma states_distinct [simp]:
  "S_READY \<noteq> S_RUNNING" "S_READY \<noteq> S_PARKED" "S_READY \<noteq> S_DONE" "S_RUNNING \<noteq> S_PARKED"
  "S_RUNNING \<noteq> S_DONE" "S_PARKED \<noteq> S_DONE"
  "S_RUNNING \<noteq> S_READY" "S_PARKED \<noteq> S_READY" "S_DONE \<noteq> S_READY" "S_PARKED \<noteq> S_RUNNING"
  "S_DONE \<noteq> S_RUNNING" "S_DONE \<noteq> S_PARKED"
  by (simp_all add: word_consts)

lemma wake_cases:
  "wake migrate may_move cur g =
     (if run_state g = S_PARKED then
        (let home = home_for migrate may_move cur (word_owner (word g)) in
         g\<lparr>word := (case home of None \<Rightarrow> S_READY | Some w \<Rightarrow> owner_bits w OR S_READY),
           tickets := tickets g + 1, signalled := True\<rparr>)
      else if run_state g = S_RUNNING then g\<lparr>word := word g OR S_WAKE_PENDING, signalled := True\<rparr>
      else g)"
  by (simp add: wake_def claim_parked_def wake_step_def Let_def)

lemma wake_inv: "green_inv g \<Longrightarrow> green_inv (wake m v c g)"
  by (auto simp: green_inv_def wake_cases Let_def state_of wake_flag split: option.splits)

lemma claim_inv: "green_inv g \<Longrightarrow> 0 < popped g \<Longrightarrow> green_inv (claim c g)"
  by (auto simp: green_inv_def claim_def run_claim_def Let_def state_of split: option.splits)

lemma settle_inv: "green_inv g \<Longrightarrow> pc g = PutBack \<Longrightarrow> green_inv (settle g)"
  by (auto simp: green_inv_def settle_def after_yield_def Let_def state_of split: if_splits)

lemma steal_state [simp]: "steal_owner k w AND S_STATE_MASK = w AND S_STATE_MASK"
  by (simp add: steal_owner_def state_of)

lemma green_step_inv [pith_inv]: "green_step g g' \<Longrightarrow> green_inv g \<Longrightarrow> green_inv g'"
proof (induction rule: green_step.induct)
  case (claims g c)
  then show ?case by (simp add: claim_inv)
next
  case (settles g)
  then show ?case by (simp add: settle_inv)
next
  case (wakes g m v c)
  then show ?case by (simp add: wake_inv)
qed (auto simp: green_inv_def arm_def take_coro_def state_of wake_flag)

lemma green_init_inv: "green_init g \<Longrightarrow> green_inv g"
  by (simp add: green_init_def green_inv_def state_of)

interpretation green: inductive_invariant green_init green_step green_inv
  by unfold_locales (auto intro: green_init_inv elim: green_step_inv)

text \<open>
  C5. A green task is in one place. In every reachable state the spawner's or waker's debt, the
  run-queue entries and the workers about to claim the task add up to one when the word reads
  Ready and to none otherwise, so the task is never queued twice and never dropped; a worker is
  running it, from the claim it won to the word it settles, exactly when the word reads Running;
  and until the task is Done its block holds the coroutine exactly when the task is not on a
  processor, so a worker that has won the claim, and a parked task, always have it.
\<close>

theorem task_in_one_place:
  assumes "reachable green_init green_step g"
  shows "tickets g + queued g + popped g = (if run_state g = S_READY then 1 else 0) \<and>
    (pc g \<noteq> Off \<longleftrightarrow> run_state g = S_RUNNING) \<and>
    (run_state g \<noteq> S_DONE \<longrightarrow> (coro g \<longleftrightarrow> pc g \<noteq> OnCpu)) \<and>
    (pc g = Claimed \<longrightarrow> coro g) \<and> (run_state g = S_PARKED \<longrightarrow> coro g)"
  using green.invariant [OF assms] by (auto simp: green_inv_def)

lemma owner_bits_mask: "owner_bits k AND S_OWNER_MASK = owner_bits k"
  by (rule bit_eqI) (auto simp: bit_and_iff owner_bits_def S_OWNER_SHIFT_def bit_push_bit_iff)

definition run_once :: green where
  "run_once =
     \<lparr>word = owner_bits 0 OR S_RUNNING, coro = True, tickets = 0, queued = 0, popped = 0,
      pc = Claimed, signalled = False\<rparr>"

lemma reachable_run_once: "reachable green_init green_step run_once"
proof -
  let ?g = "\<lparr>word = S_DONE, coro = False, tickets = 0, queued = 0, popped = 0, pc = Off, signalled = False\<rparr>"
  let ?a = "?g\<lparr>coro := True, word := S_READY, tickets := 1\<rparr>"
  have "reachable green_init green_step ?g" by (rule reachable_init) (simp add: green_init_def)
  moreover have "green_step ?g ?a"
    using spawn [of ?g] by (simp add: arm_def state_of)
  moreover have "green_step ?a (?a\<lparr>tickets := 0, queued := 1\<rparr>)"
    using enqueue [of ?a] by simp
  moreover have "green_step (?a\<lparr>tickets := 0, queued := 1\<rparr>) (?a\<lparr>tickets := 0, popped := 1\<rparr>)"
    using dequeue [of "?a\<lparr>tickets := 0, queued := 1\<rparr>"] by simp
  moreover have "green_step (?a\<lparr>tickets := 0, popped := 1\<rparr>) run_once"
  proof -
    have "S_RUNNING AND S_OWNER_MASK = 0"
      by (auto intro!: bit_eqI simp: bit_and_iff S_RUNNING_def bit_1_iff)
    then have "claim (Some 0) (?a\<lparr>tickets := 0, popped := 1\<rparr>) = run_once"
      by (simp add: claim_def run_claim_def run_once_def state_of)
        (simp add: S_READY_def or.commute)
    then show ?thesis using claims [of "?a\<lparr>tickets := 0, popped := 1\<rparr>" "Some 0"] by simp
  qed
  ultimately show ?thesis by (blast intro: reachable_step)
qed

theorem task_in_one_place_witness: "tickets run_once + queued run_once + popped run_once = 0 \<and> coro run_once"
  using task_in_one_place [OF reachable_run_once] by (simp add: run_once_def bit.conj_disj_distrib2 state_mask_disjoint)

text \<open>
  C1. A wake is never lost. In every reachable state a task that a wake has acted on since it
  was last put on a processor is not parked; if its worker is about to settle the suspended
  task's word, the settled word is Ready and the worker owes it an enqueue.
\<close>

theorem wake_never_lost:
  assumes "reachable green_init green_step g" and "signalled g"
  shows "run_state g \<noteq> S_PARKED \<and>
    (pc g = PutBack \<longrightarrow> run_state (settle g) = S_READY \<and> tickets (settle g) = 1)"
proof -
  have inv: "green_inv g" by (rule green.invariant [OF assms(1)])
  then have "run_state g \<noteq> S_PARKED" using assms(2) by (auto simp: green_inv_def)
  moreover have "run_state (settle g) = S_READY \<and> tickets (settle g) = 1" if "pc g = PutBack"
    using inv assms(2) that
    by (auto simp: green_inv_def settle_def after_yield_def Let_def state_of)
  ultimately show ?thesis by blast
qed

definition woken_while_suspending :: green where
  "woken_while_suspending =
     run_once\<lparr>word := word run_once OR S_WAKE_PENDING, pc := PutBack, signalled := True\<rparr>"

lemma run_once_running: "word run_once AND S_STATE_MASK = S_RUNNING"
  by (simp add: run_once_def bit.conj_disj_distrib2 state_mask_disjoint) (simp add: word_consts)

lemma reachable_woken: "reachable green_init green_step woken_while_suspending"
proof -
  let ?t = "take_coro run_once"
  have "green_step run_once ?t" by (rule resumes) (simp add: run_once_def)
  moreover have "green_step ?t (wake False False None ?t)" by (rule wakes)
  moreover have "green_step (wake False False None ?t) woken_while_suspending"
  proof -
    have "wake False False None ?t = ?t\<lparr>word := word run_once OR S_WAKE_PENDING, signalled := True\<rparr>"
      using run_once_running by (simp add: wake_cases take_coro_def)
    then show ?thesis
      using suspends [of "wake False False None ?t"]
      by (simp add: woken_while_suspending_def take_coro_def run_once_def)
  qed
  ultimately show ?thesis using reachable_run_once by (blast intro: reachable_step)
qed

theorem wake_never_lost_witness:
  "run_state woken_while_suspending = S_RUNNING \<and> run_state (settle woken_while_suspending) = S_READY"
  using wake_never_lost [OF reachable_woken] run_once_running
  by (simp add: woken_while_suspending_def state_of)

text \<open>
  C16. A woken task runs. From every reachable state in which the word reads Ready there is a way
  through the scheduler that puts the task on a processor with its coroutine taken out.
\<close>

theorem ready_task_can_run:
  assumes "reachable green_init green_step g" and "run_state g = S_READY"
  shows "\<exists>g'. green_step\<^sup>*\<^sup>* g g' \<and> pc g' = OnCpu \<and> \<not> coro g'"
proof -
  have inv: "pc g = Off" "coro g" "tickets g + queued g + popped g = 1"
    using green.invariant [OF assms(1)] assms(2) by (auto simp: green_inv_def)
  have from_popped: "\<exists>h'. green_step\<^sup>*\<^sup>* h h' \<and> pc h' = OnCpu \<and> \<not> coro h'"
    if "run_state h = S_READY" "coro h" "0 < popped h" for h
  proof -
    have c: "green_step h (claim None h)" using that(3) by (rule claims)
    have co: "pc (claim None h) = Claimed" "coro (claim None h)"
      using that by (auto simp: claim_def run_claim_def Let_def)
    have "green_step (claim None h) (take_coro (claim None h))" using co(1) by (rule resumes)
    moreover have "pc (take_coro (claim None h)) = OnCpu" "\<not> coro (take_coro (claim None h))"
      using co by (simp_all add: take_coro_def)
    ultimately have "\<exists>h'. green_step (claim None h) h' \<and> pc h' = OnCpu \<and> \<not> coro h'" by blast
    with c show ?thesis by (meson converse_rtranclp_into_rtranclp r_into_rtranclp)
  qed
  have from_queued: "\<exists>h'. green_step\<^sup>*\<^sup>* h h' \<and> pc h' = OnCpu \<and> \<not> coro h'"
    if "run_state h = S_READY" "coro h" "0 < queued h" for h
    using from_popped [of "h\<lparr>queued := queued h - 1, popped := popped h + 1\<rparr>"] that
      dequeue [of h] by (auto intro: converse_rtranclp_into_rtranclp)
  consider "0 < popped g" | "0 < queued g" | "0 < tickets g" using inv(3) by linarith
  then show ?thesis
  proof cases
    case 3
    then show ?thesis
      using from_queued [of "g\<lparr>tickets := tickets g - 1, queued := queued g + 1\<rparr>"] assms(2) inv(2)
        enqueue [of g] by (auto intro: converse_rtranclp_into_rtranclp)
  qed (use from_popped from_queued assms(2) inv(2) in blast)+
qed

theorem ready_task_can_run_witness:
  "\<exists>g'. green_step\<^sup>*\<^sup>* (arm \<lparr>word = S_DONE, coro = False, tickets = 0, queued = 0, popped = 0,
      pc = Off, signalled = False\<rparr>) g' \<and> pc g' = OnCpu \<and> \<not> coro g'"
proof -
  let ?g = "\<lparr>word = S_DONE, coro = False, tickets = 0, queued = 0, popped = 0, pc = Off, signalled = False\<rparr>"
  have "reachable green_init green_step ?g" by (rule reachable_init) (simp add: green_init_def)
  moreover have "green_step ?g (arm ?g)" by (rule spawn) (simp_all add: state_of)
  ultimately have "reachable green_init green_step (arm ?g)" by (rule reachable_step)
  then show ?thesis by (rule ready_task_can_run) (simp add: arm_def state_of)
qed

text \<open>
  The word and the enqueue agree on a task's home. The worker a wake enqueues a parked task
  on is the owner the claiming step wrote into the word, whichever way the move was decided, and
  the claim and the yield arm keep the owner, for every worker index the owner bits can hold.
\<close>

theorem word_tracks_home:
  assumes "k + 1 < 2 ^ 32" and "word_owner w = Some k"
  shows "(case claim_parked migrate may_move cur w of
            (w', Some home) \<Rightarrow> (\<forall>j. home = Some j \<longrightarrow> j + 1 < 2 ^ 32 \<longrightarrow> word_owner w' = home)
          | (w', None) \<Rightarrow> word_owner w' = Some k) \<and>
     (\<forall>w'. run_claim cur w = Some w' \<longrightarrow> word_owner w' = Some k) \<and>
     word_owner (fst (after_yield w)) = Some k"
proof -
  have keep: "word_owner ((w AND S_OWNER_MASK) OR s) = word_owner w" "word_owner (w OR s) = word_owner w"
    if "drop_bit S_OWNER_SHIFT s = 0" for s
    by (simp_all only: word_owner_def drop_bit_or drop_owner_mask that or.right_neutral)
  have "word_owner (owner_bits j OR S_READY) = Some j" if "j + 1 < 2 ^ 32" for j
    using that by (rule word_owner_bits) simp
  then have "case claim_parked migrate may_move cur w of
            (w', Some home) \<Rightarrow> (\<forall>j. home = Some j \<longrightarrow> j + 1 < 2 ^ 32 \<longrightarrow> word_owner w' = home)
          | (w', None) \<Rightarrow> word_owner w' = Some k"
    using assms(2) by (auto simp: claim_parked_def wake_step_def Let_def keep split: option.splits)
  moreover have "word_owner w' = Some k" if "run_claim cur w = Some w'" for w'
  proof -
    let ?n = "(w AND S_OWNER_MASK) OR S_RUNNING"
    have o: "word_owner ?n = Some k" using keep(1) [of S_RUNNING] assms(2) by simp
    have "?n AND S_OWNER_MASK \<noteq> 0"
    proof
      assume z: "?n AND S_OWNER_MASK = 0"
      have "drop_bit S_OWNER_SHIFT ?n = 0"
        unfolding drop_owner_mask [of ?n, symmetric] z by simp
      then show False using o by (simp only: word_owner_def Let_def if_True) simp
    qed
    then show ?thesis using that o by (auto simp: run_claim_def Let_def split: if_splits)
  qed
  moreover have "word_owner (fst (after_yield w)) = Some k"
    using assms(2) keep(1) [of S_READY] keep(1) [of S_PARKED] by (simp add: after_yield_def Let_def)
  ultimately show ?thesis by blast
qed

theorem word_tracks_home_witness:
  "word_owner (fst (claim_parked True True (Some 3) (owner_bits 1 OR S_PARKED))) = Some 3 \<and>
   word_owner (fst (after_yield (owner_bits 1 OR S_PARKED))) = Some 1"
proof -
  have o: "word_owner (owner_bits 1 OR S_PARKED) = Some 1" by (rule word_owner_bits) simp_all
  have s: "(owner_bits 1 OR S_PARKED) AND S_STATE_MASK = S_PARKED"
    by (simp add: bit.conj_disj_distrib2 state_mask_disjoint) (simp add: word_consts)
  have c: "claim_parked True True (Some 3) (owner_bits 1 OR S_PARKED) = (owner_bits 3 OR S_READY, Some (Some 3))"
    by (simp only: claim_parked_def wake_step_def s o) (simp add: home_for_def)
  show ?thesis
    using word_tracks_home [OF _ o, of True True "Some 3"] unfolding c by simp
qed

end
