(* ===== verification/MutexLock.thy ===== *)
theory MutexLock
  imports Steps
begin

text \<open>
  The mutex of \<open>concurrency/mutex.rs\<close>. Its word is 0 when free, 1 when held, 2 when held with
  green tasks registered to be woken. Every atomic operation and every critical section of the
  waiter list's own lock is one step, so every interleaving of lockers and unlockers is covered.
  A parked task that a wake reaches runs again (\<open>GreenTask\<close> proves that no wake is lost), and a
  stray wake may resume a parked task at any time.
\<close>

text \<open>Where a task stands in \<open>lock_green\<close>, \<open>lock_os\<close> or \<open>unlock\<close>.\<close>

datatype mutex_pc =
    Outside
  | Trying          \<comment> \<open>green, about to try the lock\<close>
  | Contended       \<comment> \<open>green, about to take the waiter lock\<close>
  | Listing         \<comment> \<open>green, holds the waiter lock, about to mark the word\<close>
  | Marked          \<comment> \<open>green, word marked, about to register\<close>
  | Asleep          \<comment> \<open>green, registered and parked\<close>
  | Spinning        \<comment> \<open>an os thread in its loop\<close>
  | Holding
  | Draining        \<comment> \<open>unlocked a word of 2, about to drain the waiters\<close>

record mutex =
  state :: u32
  list_lock :: "nat option"
  waiters :: "nat list"
  at :: "nat \<Rightarrow> mutex_pc"

definition pith_mutex_new :: mutex where
  "pith_mutex_new = \<lparr>state = 0, list_lock = None, waiters = [], at = (\<lambda>_. Outside)\<rparr>"

abbreviation go :: "nat \<Rightarrow> mutex_pc \<Rightarrow> mutex \<Rightarrow> mutex" where
  "go t p m \<equiv> m\<lparr>at := (at m)(t := p)\<rparr>"

text \<open>The strong compare-exchange of \<open>try_acquire\<close>.\<close>

definition try_acquire :: "mutex \<Rightarrow> bool \<times> mutex" where
  "try_acquire m = (if state m = 0 then (True, m\<lparr>state := 1\<rparr>) else (False, m))"

definition try_green :: "nat \<Rightarrow> mutex \<Rightarrow> mutex" where
  "try_green t m =
     (case try_acquire m of (True, m') \<Rightarrow> go t Holding m' | (False, m') \<Rightarrow> go t Contended m')"

definition try_os :: "nat \<Rightarrow> mutex \<Rightarrow> mutex" where
  "try_os t m =
     (case try_acquire m of (True, m') \<Rightarrow> go t Holding m' | (False, m') \<Rightarrow> go t Spinning m')"

text \<open>Under the waiter lock: 1 becomes 2, 2 stays, and anything else means the lock was
  released in between, so the task gives the waiter lock back and tries again.\<close>

definition mark_waiters :: "nat \<Rightarrow> mutex \<Rightarrow> mutex" where
  "mark_waiters t m =
     (if state m = 1 then go t Marked (m\<lparr>state := 2\<rparr>)
      else if state m = 2 then go t Marked m
      else go t Trying (m\<lparr>list_lock := None\<rparr>))"

definition register_waiter :: "nat \<Rightarrow> mutex \<Rightarrow> mutex" where
  "register_waiter t m =
     go t Asleep
       (m\<lparr>waiters := (if t \<in> set (waiters m) then waiters m else waiters m @ [t]), list_lock := None\<rparr>)"

text \<open>\<open>unlock\<close>: swap in 0, and drain only when the old word was 2.\<close>

definition swap_free :: "nat \<Rightarrow> mutex \<Rightarrow> mutex" where
  "swap_free t m =
     (if state m = 2 then go t Draining (m\<lparr>state := 0\<rparr>) else go t Outside (m\<lparr>state := 0\<rparr>))"

text \<open>The drain runs under the waiter lock and wakes every listed task; a wake moves a parked
  task and no other.\<close>

definition drain_waiters :: "nat \<Rightarrow> mutex \<Rightarrow> mutex" where
  "drain_waiters t m =
     go t Outside
       (m\<lparr>waiters := [],
          at := (\<lambda>u. if u \<in> set (waiters m) \<and> at m u = Asleep then Trying else at m u)\<rparr>)"

inductive mutex_step :: "mutex \<Rightarrow> mutex \<Rightarrow> bool" where
  enter_green: "at m t = Outside \<Longrightarrow> mutex_step m (go t Trying m)"
| enter_os: "at m t = Outside \<Longrightarrow> mutex_step m (go t Spinning m)"
| tries: "at m t = Trying \<Longrightarrow> mutex_step m (try_green t m)"
| spins: "at m t = Spinning \<Longrightarrow> mutex_step m (try_os t m)"
| locks_list: "at m t = Contended \<Longrightarrow> list_lock m = None \<Longrightarrow>
    mutex_step m (go t Listing (m\<lparr>list_lock := Some t\<rparr>))"
| marks: "at m t = Listing \<Longrightarrow> mutex_step m (mark_waiters t m)"
| registers: "at m t = Marked \<Longrightarrow> mutex_step m (register_waiter t m)"
| stray_wake: "at m t = Asleep \<Longrightarrow> mutex_step m (go t Trying m)"
| unlocks: "at m t = Holding \<Longrightarrow> mutex_step m (swap_free t m)"
| drains: "at m t = Draining \<Longrightarrow> list_lock m = None \<Longrightarrow> mutex_step m (drain_waiters t m)"

inductive_cases mutex_step_cases: "mutex_step m m'"

text \<open>At most one holder, and the word tells whether there is one.\<close>

definition mutex_excl :: "mutex \<Rightarrow> bool" where
  "mutex_excl m \<longleftrightarrow>
     state m \<in> {0, 1, 2} \<and>
     (\<forall>t. at m t = Holding \<longrightarrow> state m \<noteq> 0) \<and>
     (\<forall>t u. at m t = Holding \<longrightarrow> at m u = Holding \<longrightarrow> t = u) \<and>
     (state m \<noteq> 0 \<longrightarrow> (\<exists>h. at m h = Holding))"

text \<open>The waiter lock is held by the task that is listing itself.\<close>

definition mutex_list :: "mutex \<Rightarrow> bool" where
  "mutex_list m \<longleftrightarrow>
     (\<forall>t. (at m t = Listing \<or> at m t = Marked) = (list_lock m = Some t)) \<and>
     (\<forall>t. at m t = Asleep \<longrightarrow> t \<in> set (waiters m)) \<and> distinct (waiters m)"

text \<open>Someone will wake the sleepers: the holder, whose unlock will see 2, or a drainer.\<close>

definition mutex_watched :: "mutex \<Rightarrow> bool" where
  "mutex_watched m \<longleftrightarrow>
     (\<forall>t. at m t = Asleep \<or> at m t = Marked \<longrightarrow> state m = 2 \<or> (\<exists>d. at m d = Draining))"

definition mutex_inv :: "mutex \<Rightarrow> bool" where
  "mutex_inv m \<longleftrightarrow> mutex_excl m \<and> mutex_list m \<and> mutex_watched m"

lemmas mutex_ops = try_green_def try_os_def try_acquire_def mark_waiters_def register_waiter_def
  swap_free_def drain_waiters_def

lemma mutex_excl_step: "mutex_step m m' \<Longrightarrow> mutex_excl m \<Longrightarrow> mutex_excl m'"
  by (induction rule: mutex_step.induct;
      auto simp: mutex_excl_def mutex_ops split: if_splits; metis mutex_pc.distinct)

lemma mutex_list_step: "mutex_step m m' \<Longrightarrow> mutex_list m \<Longrightarrow> mutex_list m'"
  by (induction rule: mutex_step.induct;
      auto simp: mutex_list_def mutex_ops split: if_splits; metis mutex_pc.distinct option.inject)

lemma drained:
  assumes "mutex_list m" and "list_lock m = None"
  shows "at (drain_waiters t m) u \<noteq> Marked" "at (drain_waiters t m) u \<noteq> Asleep"
  using assms by (auto simp: mutex_list_def drain_waiters_def)

lemma mutex_watched_step:
  "mutex_step m m' \<Longrightarrow> mutex_list m \<Longrightarrow> mutex_watched m \<Longrightarrow> mutex_watched m'"
proof (induction rule: mutex_step.induct)
  case (drains m t)
  then show ?case using drained [of m t] by (simp add: mutex_watched_def)
qed ((auto simp: mutex_watched_def mutex_ops split: if_splits; metis mutex_pc.distinct)+)

lemma mutex_step_inv [pith_inv]: "mutex_inv m \<Longrightarrow> mutex_step m m' \<Longrightarrow> mutex_inv m'"
  unfolding mutex_inv_def using mutex_excl_step mutex_list_step mutex_watched_step by blast

lemma mutex_new_inv: "mutex_inv pith_mutex_new"
  by (simp add: mutex_inv_def mutex_excl_def mutex_list_def mutex_watched_def pith_mutex_new_def)

interpretation mutex: inductive_invariant "(=) pith_mutex_new" mutex_step mutex_inv
  by unfold_locales (use mutex_new_inv mutex_step_inv in blast)+

text \<open>
  C19. The mutex excludes and forgets no sleeper. In every reachable state at most one task holds
  the lock and the word is 0 exactly when none does; and while any green task is parked in
  \<open>lock\<close> it is registered, and either the word reads 2, so the holder's unlock will drain the
  list, or some unlocker is already about to drain it.
\<close>

theorem mutex_exclusion_and_wakeup:
  assumes "reachable ((=) pith_mutex_new) mutex_step m"
  shows "(\<forall>t u. at m t = Holding \<longrightarrow> at m u = Holding \<longrightarrow> t = u) \<and>
    (state m = 0 \<longleftrightarrow> (\<forall>t. at m t \<noteq> Holding)) \<and>
    (\<forall>t. at m t = Asleep \<longrightarrow> t \<in> set (waiters m) \<and>
       (state m = 2 \<and> (\<exists>h. at m h = Holding) \<or> (\<exists>d. at m d = Draining)))"
proof -
  have inv: "mutex_excl m" "mutex_list m" "mutex_watched m"
    using mutex.invariant [OF assms] by (simp_all add: mutex_inv_def)
  then have "\<exists>h. at m h = Holding" if "state m = 2" using that by (simp add: mutex_excl_def)
  with inv show ?thesis unfolding mutex_excl_def mutex_list_def mutex_watched_def by blast
qed

text \<open>A drain gives every sleeper another try at the lock.\<close>

lemma drain_wakes_all:
  assumes "mutex_inv m" and "list_lock m = None"
  shows "at (drain_waiters d m) t \<noteq> Asleep"
  using assms drained by (simp add: mutex_inv_def)

definition contended_mutex :: mutex where
  "contended_mutex =
     \<lparr>state = 2, list_lock = None, waiters = [1],
      at = (\<lambda>_. Outside)(0 := Holding, 1 := Asleep)\<rparr>"

lemma reachable_contended: "reachable ((=) pith_mutex_new) mutex_step contended_mutex"
proof -
  let ?n = pith_mutex_new
  let ?s1 = "go 0 Trying ?n"
  let ?s2 = "?n\<lparr>state := 1, at := (\<lambda>_. Outside)(0 := Holding)\<rparr>"
  have s2: "reachable ((=) ?n) mutex_step ?s2"
  proof -
    have "reachable ((=) ?n) mutex_step ?n" by (rule reachable_init) simp
    moreover have "mutex_step ?n ?s1" by (rule enter_green) (simp add: pith_mutex_new_def)
    moreover have "try_green 0 ?s1 = ?s2"
      by (simp add: try_green_def try_acquire_def pith_mutex_new_def)
    then have "mutex_step ?s1 ?s2" using tries [of ?s1 0] by (simp add: pith_mutex_new_def)
    ultimately show ?thesis by (meson reachable_step)
  qed
  let ?at = "\<lambda>p. (\<lambda>_. Outside)(0 := Holding, 1 := p)"
  let ?s = "\<lambda>p l w. \<lparr>state = w, list_lock = l, waiters = [], at = ?at p\<rparr>"
  have "mutex_step ?s2 (?s Trying None 1)"
    using enter_green [of ?s2 1] by (simp add: pith_mutex_new_def)
  moreover have "mutex_step (?s Trying None 1) (?s Contended None 1)"
    using tries [of "?s Trying None 1" 1] by (simp add: try_green_def try_acquire_def)
  moreover have "mutex_step (?s Contended None 1) (?s Listing (Some 1) 1)"
    using locks_list [of "?s Contended None 1" 1] by simp
  moreover have "mutex_step (?s Listing (Some 1) 1) (?s Marked (Some 1) 2)"
    using marks [of "?s Listing (Some 1) 1" 1] by (simp add: mark_waiters_def)
  moreover have "mutex_step (?s Marked (Some 1) 2) contended_mutex"
    using registers [of "?s Marked (Some 1) 2" 1]
    by (simp add: register_waiter_def contended_mutex_def)
  ultimately show ?thesis using s2 by (meson reachable_step)
qed

theorem mutex_exclusion_and_wakeup_witness:
  "at contended_mutex 1 = Asleep \<and> state contended_mutex = 2 \<and> 1 \<in> set (waiters contended_mutex)"
proof -
  have "at contended_mutex 1 = Asleep" by (simp add: contended_mutex_def)
  moreover have "at contended_mutex d \<noteq> Draining" for d by (simp add: contended_mutex_def)
  ultimately show ?thesis using mutex_exclusion_and_wakeup [OF reachable_contended] by metis
qed

end
