(* ===== verification/SyncSites.thy ===== *)
theory SyncSites
  imports Steps "HOL-Library.Multiset"
begin

text \<open>
  The semaphore and the waitgroup, \<open>concurrency/semaphore.rs\<close> and \<open>waitgroup.rs\<close>. Every
  operation runs under the primitive's lock up to the point where its caller waits, so each is
  one step. A green task that waits is \<open>Waiting\<close> until a wake reaches it, \<open>Woken\<close> until it has
  taken the lock again; \<open>GreenTask\<close> proves that a wake is not lost. An os thread waits on the
  condition variable; \<open>notify_one\<close> releases one of those, \<open>notify_all\<close> all, and either may
  return without a notification.
\<close>

datatype task_status = Idle | Waiting | Woken

definition wake_status :: "task_status \<Rightarrow> task_status" where
  "wake_status s = (case s of Waiting \<Rightarrow> Woken | _ \<Rightarrow> s)"

text \<open>\<open>rposition\<close> and \<open>remove\<close>: the last entry of the task goes.\<close>

definition remove_last_entry :: "nat \<Rightarrow> nat list \<Rightarrow> nat list" where
  "remove_last_entry t ws = rev (remove1 t (rev ws))"

lemma remove_last_entry_distinct:
  "distinct ws \<Longrightarrow> set (remove_last_entry t ws) = set ws - {t} \<and> distinct (remove_last_entry t ws)"
  by (simp add: remove_last_entry_def)

subsection \<open>The semaphore\<close>

record sem =
  count :: nat
  max_permits :: nat
  green_waiters :: "nat list"
  status :: "nat \<Rightarrow> task_status"
  os_waiting :: nat
  os_notified :: nat

definition pith_semaphore_new :: "int \<Rightarrow> sem" where
  "pith_semaphore_new initial =
     \<lparr>count = nat (max initial 0), max_permits = nat (max initial 0), green_waiters = [],
      status = (\<lambda>_. Idle), os_waiting = 0, os_notified = 0\<rparr>"

text \<open>One pass of the loop in \<open>acquire\<close>: take a permit, or register and suspend.\<close>

definition acquire_pass :: "nat \<Rightarrow> sem \<Rightarrow> sem" where
  "acquire_pass t s =
     (if count s = 0
      then s\<lparr>green_waiters := green_waiters s @ [t], status := (status s)(t := Waiting)\<rparr>
      else s\<lparr>count := count s - 1, status := (status s)(t := Idle)\<rparr>)"

text \<open>After the suspension the task takes the lock, removes an entry of its own that a stray
  wake left behind, and goes round the loop.\<close>

definition acquire_resume :: "nat \<Rightarrow> sem \<Rightarrow> sem" where
  "acquire_resume t s =
     acquire_pass t (s\<lparr>green_waiters := remove_last_entry t (green_waiters s)\<rparr>)"

definition acquire_os :: "sem \<Rightarrow> sem" where
  "acquire_os s =
     (if count s = 0 then s\<lparr>os_waiting := os_waiting s + 1\<rparr> else s\<lparr>count := count s - 1\<rparr>)"

definition wake_one_green_waiter :: "sem \<Rightarrow> sem" where
  "wake_one_green_waiter s =
     (case green_waiters s of
        [] \<Rightarrow> s
      | t # ts \<Rightarrow> s\<lparr>green_waiters := ts, status := (status s)(t := wake_status (status s t))\<rparr>)"

definition notify_one :: "sem \<Rightarrow> sem" where
  "notify_one s =
     (if 0 < os_waiting s
      then s\<lparr>os_waiting := os_waiting s - 1, os_notified := os_notified s + 1\<rparr> else s)"

definition pith_semaphore_release :: "sem \<Rightarrow> sem" where
  "pith_semaphore_release s =
     wake_one_green_waiter
       (notify_one (if count s < max_permits s then s\<lparr>count := count s + 1\<rparr> else s))"

inductive sem_step :: "sem \<Rightarrow> sem \<Rightarrow> bool" where
  acquires: "status s t = Idle \<Longrightarrow> sem_step s (acquire_pass t s)"
| resumes: "status s t = Woken \<Longrightarrow> sem_step s (acquire_resume t s)"
| stray: "status s t = Waiting \<Longrightarrow> sem_step s (s\<lparr>status := (status s)(t := Woken)\<rparr>)"
| acquires_os: "sem_step s (acquire_os s)"
| resumes_os: "0 < os_notified s \<Longrightarrow> sem_step s (acquire_os (s\<lparr>os_notified := os_notified s - 1\<rparr>))"
| stray_os: "0 < os_waiting s \<Longrightarrow>
    sem_step s (s\<lparr>os_waiting := os_waiting s - 1, os_notified := os_notified s + 1\<rparr>)"
| releases: "sem_step s (pith_semaphore_release s)"

inductive_cases sem_step_cases: "sem_step s s'"

text \<open>The tasks a release meant: woken, and no longer listed.\<close>

definition meant :: "sem \<Rightarrow> nat set" where
  "meant s = {t. status s t = Woken \<and> t \<notin> set (green_waiters s)}"

definition sem_lists :: "sem \<Rightarrow> bool" where
  "sem_lists s \<longleftrightarrow>
     distinct (green_waiters s) \<and>
     (\<forall>t. status s t = Waiting \<longrightarrow> t \<in> set (green_waiters s)) \<and>
     (\<forall>t. t \<in> set (green_waiters s) \<longrightarrow> status s t \<noteq> Idle)"

definition sem_inv :: "sem \<Rightarrow> bool" where
  "sem_inv s \<longleftrightarrow>
     sem_lists s \<and> finite {t. status s t \<noteq> Idle} \<and> count s \<le> max_permits s \<and>
     ((\<exists>t. status s t = Waiting) \<longrightarrow> count s \<le> card (meant s)) \<and>
     (0 < os_waiting s \<longrightarrow> count s \<le> os_notified s)"

lemmas sem_ops = acquire_pass_def acquire_resume_def acquire_os_def wake_one_green_waiter_def
  notify_one_def pith_semaphore_release_def wake_status_def

text \<open>A step moves at most one task.\<close>

lemma sem_step_frame: "sem_step s s' \<Longrightarrow> \<exists>t. \<forall>u. u \<noteq> t \<longrightarrow> status s' u = status s u"
  by (induction rule: sem_step.induct; auto simp: sem_ops split: list.splits)

lemma sem_step_finite:
  assumes "sem_step s s'" and "finite {t. status s t \<noteq> Idle}"
  shows "finite {t. status s' t \<noteq> Idle}"
proof -
  from sem_step_frame [OF assms(1)] obtain t where "\<And>u. u \<noteq> t \<Longrightarrow> status s' u = status s u" by auto
  then have "{t. status s' t \<noteq> Idle} \<subseteq> insert t {t. status s t \<noteq> Idle}" by auto
  then show ?thesis using assms(2) finite_subset by blast
qed

lemma sem_step_count: "sem_step s s' \<Longrightarrow> count s \<le> max_permits s \<Longrightarrow> count s' \<le> max_permits s'"
  by (induction rule: sem_step.induct; auto simp: sem_ops split: list.splits)

lemma sem_step_os:
  "sem_step s s' \<Longrightarrow> 0 < os_waiting s \<longrightarrow> count s \<le> os_notified s \<Longrightarrow>
   0 < os_waiting s' \<longrightarrow> count s' \<le> os_notified s'"
  by (induction rule: sem_step.induct; auto simp: sem_ops split: list.splits if_splits)

lemma sem_lists_step: "sem_step s s' \<Longrightarrow> sem_lists s \<Longrightarrow> sem_lists s'"
proof (induction rule: sem_step.induct)
  case (resumes s t)
  then show ?case
    using remove_last_entry_distinct [of "green_waiters s" t] by (auto simp: sem_lists_def sem_ops)
next
  case (releases s)
  then show ?case
    by (auto simp: sem_lists_def sem_ops split: list.splits task_status.splits if_splits)
qed (auto simp: sem_lists_def sem_ops)

lemma finite_meant: "finite {t. status s t \<noteq> Idle} \<Longrightarrow> finite (meant s)"
  unfolding meant_def by (auto elim: finite_subset [rotated])

lemma card_le_Suc: "A \<subseteq> insert t B \<Longrightarrow> finite B \<Longrightarrow> card A \<le> Suc (card B)"
  using card_mono [of "insert t B" A] by (auto simp: card_insert_if split: if_splits)

lemma sem_step_meant:
  assumes "sem_step s s'" and "sem_lists s" and "finite {t. status s t \<noteq> Idle}"
    and "(\<exists>t. status s t = Waiting) \<longrightarrow> count s \<le> card (meant s)"
  shows "(\<exists>t. status s' t = Waiting) \<longrightarrow> count s' \<le> card (meant s')"
  using assms
proof (induction rule: sem_step.induct)
  case (acquires s t)
  show ?case
  proof (cases "count s = 0")
    case False
    have "meant (acquire_pass t s) = meant s"
      using acquires False by (auto simp: meant_def acquire_pass_def)
    then show ?thesis using acquires False by (auto simp: acquire_pass_def split: if_splits)
  qed (simp add: acquire_pass_def)
next
  case (resumes s t)
  note fin = finite_meant [OF resumes(3)]
  show ?case
  proof (cases "count s = 0")
    case False
    have "meant s \<subseteq> insert t (meant (acquire_resume t s))"
      using resumes remove_last_entry_distinct [of "green_waiters s" t] False
      by (auto simp: meant_def sem_ops sem_lists_def)
    moreover have "meant (acquire_resume t s) \<subseteq> meant s"
      using resumes remove_last_entry_distinct [of "green_waiters s" t] False
      by (auto simp: meant_def sem_ops sem_lists_def split: if_splits)
    ultimately have "card (meant s) \<le> Suc (card (meant (acquire_resume t s)))"
      using fin by (meson card_le_Suc finite_subset)
    then show ?thesis using resumes False by (auto simp: sem_ops split: if_splits)
  qed (simp add: sem_ops)
next
  case (stray s t)
  have "meant (s\<lparr>status := (status s)(t := Woken)\<rparr>) = meant s"
    using stray by (auto simp: meant_def sem_lists_def)
  then show ?case using stray by auto
next
  case (releases s)
  show ?case
  proof (cases "green_waiters s")
    case Nil
    then have "status s t \<noteq> Waiting" for t using releases(1) by (auto simp: sem_lists_def)
    then have "status (pith_semaphore_release s) t \<noteq> Waiting" for t
      using Nil by (simp add: sem_ops)
    then show ?thesis by blast
  next
    case (Cons u us)
    let ?r = "pith_semaphore_release s"
    have r: "status ?r = (status s)(u := wake_status (status s u))" "green_waiters ?r = us"
        "count ?r \<le> Suc (count s)"
      using Cons by (simp_all add: sem_ops)
    have u: "status s u \<noteq> Idle" "u \<notin> set us" using releases(1) Cons by (auto simp: sem_lists_def)
    then have "meant ?r = insert u (meant s)"
      using r Cons by (auto simp: meant_def wake_status_def split: task_status.splits)
    moreover have "u \<notin> meant s" using Cons by (simp add: meant_def)
    ultimately have "card (meant ?r) = Suc (card (meant s))"
      using finite_meant [OF releases(2)] by simp
    moreover have "\<exists>t. status s t = Waiting" if "\<exists>t. status ?r t = Waiting"
      using that r by (auto simp: wake_status_def split: if_splits task_status.splits)
    ultimately show ?thesis using releases(3) r(3) by auto
  qed
qed (auto simp: sem_ops meant_def)

lemma sem_step_inv [pith_inv]: "sem_inv s \<Longrightarrow> sem_step s s' \<Longrightarrow> sem_inv s'"
  unfolding sem_inv_def
  using sem_lists_step [of s s'] sem_step_finite [of s s'] sem_step_count [of s s']
    sem_step_os [of s s'] sem_step_meant [of s s'] by auto

definition sem_init :: "sem \<Rightarrow> bool" where
  "sem_init s \<longleftrightarrow> (\<exists>initial. s = pith_semaphore_new initial)"

lemma sem_new_inv: "sem_init s \<Longrightarrow> sem_inv s"
  by (auto simp: sem_init_def sem_inv_def sem_lists_def pith_semaphore_new_def)

interpretation semaphore: inductive_invariant sem_init sem_step sem_inv
  by unfold_locales (use sem_new_inv sem_step_inv in blast)+

text \<open>
  C22. No permit lies free beside a sleeper. In every reachable state of a semaphore the free
  permits are at most the initial ones; while a green task is parked in \<open>acquire\<close>, every free
  permit has a woken task of its own on its way to take it; and while an os thread waits on the
  condition variable, every free permit has a notified thread on its way.
\<close>

theorem no_permit_sleeps:
  assumes "reachable sem_init sem_step s"
  shows "count s \<le> max_permits s \<and>
    ((\<exists>t. status s t = Waiting) \<longrightarrow>
       count s \<le> card {t. status s t = Woken \<and> t \<notin> set (green_waiters s)}) \<and>
    (0 < os_waiting s \<longrightarrow> count s \<le> os_notified s)"
  using semaphore.invariant [OF assms] by (simp add: sem_inv_def meant_def)

definition sem_after_release :: sem where
  "sem_after_release =
     pith_semaphore_release (acquire_pass 2 (acquire_pass 1 (acquire_pass 0 (pith_semaphore_new 1))))"

lemma reachable_after_release: "reachable sem_init sem_step sem_after_release"
proof -
  let ?a = "acquire_pass 0 (pith_semaphore_new 1)"
  let ?b = "acquire_pass 1 ?a"
  have "reachable sem_init sem_step (pith_semaphore_new 1)"
    by (rule reachable_init) (auto simp: sem_init_def)
  moreover have "sem_step (pith_semaphore_new 1) ?a"
    by (rule acquires) (simp add: pith_semaphore_new_def)
  moreover have "sem_step ?a ?b" "sem_step ?b (acquire_pass 2 ?b)"
    by (rule acquires, simp add: pith_semaphore_new_def acquire_pass_def)+
  moreover have "sem_step (acquire_pass 2 ?b) sem_after_release"
    unfolding sem_after_release_def by (rule releases)
  ultimately show ?thesis by (meson reachable_step)
qed

theorem no_permit_sleeps_witness:
  "status sem_after_release 2 = Waiting \<and>
   1 \<le> card {t. status sem_after_release t = Woken \<and> t \<notin> set (green_waiters sem_after_release)}"
proof -
  have e: "status sem_after_release 2 = Waiting" "count sem_after_release = 1"
    by (simp_all add: sem_after_release_def sem_ops pith_semaphore_new_def)
  then show ?thesis using no_permit_sleeps [OF reachable_after_release] by metis
qed

subsection \<open>The waitgroup\<close>

record wait_group =
  pending :: nat
  wg_waiters :: "nat list"
  wg_status :: "nat \<Rightarrow> task_status"
  wg_os_waiting :: nat
  wg_os_notified :: nat

definition pith_waitgroup_new :: wait_group where
  "pith_waitgroup_new =
     \<lparr>pending = 0, wg_waiters = [], wg_status = (\<lambda>_. Idle), wg_os_waiting = 0, wg_os_notified = 0\<rparr>"

definition pith_waitgroup_add :: "int \<Rightarrow> wait_group \<Rightarrow> wait_group" where
  "pith_waitgroup_add delta w = w\<lparr>pending := nat (max (int (pending w) + delta) 0)\<rparr>"

definition wake_green_waiters :: "wait_group \<Rightarrow> wait_group" where
  "wake_green_waiters w =
     w\<lparr>wg_waiters := [],
       wg_status := (\<lambda>t. if t \<in> set (wg_waiters w) then wake_status (wg_status w t) else wg_status w t)\<rparr>"

definition notify_all :: "wait_group \<Rightarrow> wait_group" where
  "notify_all w = w\<lparr>wg_os_waiting := 0, wg_os_notified := wg_os_notified w + wg_os_waiting w\<rparr>"

definition pith_waitgroup_done :: "wait_group \<Rightarrow> wait_group" where
  "pith_waitgroup_done w =
     (let w' = (if 0 < pending w then w\<lparr>pending := pending w - 1\<rparr> else w) in
      if pending w' = 0 then wake_green_waiters (notify_all w') else w')"

definition wait_pass :: "nat \<Rightarrow> wait_group \<Rightarrow> wait_group" where
  "wait_pass t w =
     (if 0 < pending w
      then w\<lparr>wg_waiters := wg_waiters w @ [t], wg_status := (wg_status w)(t := Waiting)\<rparr>
      else w\<lparr>wg_status := (wg_status w)(t := Idle)\<rparr>)"

definition wait_resume :: "nat \<Rightarrow> wait_group \<Rightarrow> wait_group" where
  "wait_resume t w = wait_pass t (w\<lparr>wg_waiters := remove_last_entry t (wg_waiters w)\<rparr>)"

definition wait_os :: "wait_group \<Rightarrow> wait_group" where
  "wait_os w = (if 0 < pending w then w\<lparr>wg_os_waiting := wg_os_waiting w + 1\<rparr> else w)"

text \<open>The steps of a program that never passes a delta that takes the counter to zero: it counts
  work in with \<open>add\<close> and out with \<open>done\<close>.\<close>

inductive wg_step :: "wait_group \<Rightarrow> wait_group \<Rightarrow> bool" where
  adds: "0 < int (pending w) + delta \<or> 0 \<le> delta \<Longrightarrow> wg_step w (pith_waitgroup_add delta w)"
| dones: "wg_step w (pith_waitgroup_done w)"
| waits: "wg_status w t = Idle \<Longrightarrow> wg_step w (wait_pass t w)"
| wait_resumes: "wg_status w t = Woken \<Longrightarrow> wg_step w (wait_resume t w)"
| wait_stray: "wg_status w t = Waiting \<Longrightarrow> wg_step w (w\<lparr>wg_status := (wg_status w)(t := Woken)\<rparr>)"
| waits_os: "wg_step w (wait_os w)"
| wait_resumes_os: "0 < wg_os_notified w \<Longrightarrow>
    wg_step w (wait_os (w\<lparr>wg_os_notified := wg_os_notified w - 1\<rparr>))"
| wait_stray_os: "0 < wg_os_waiting w \<Longrightarrow>
    wg_step w (w\<lparr>wg_os_waiting := wg_os_waiting w - 1, wg_os_notified := wg_os_notified w + 1\<rparr>)"

inductive_cases wg_step_cases: "wg_step w w'"

definition wg_inv :: "wait_group \<Rightarrow> bool" where
  "wg_inv w \<longleftrightarrow>
     distinct (wg_waiters w) \<and> (\<forall>t. wg_status w t = Waiting \<longrightarrow> t \<in> set (wg_waiters w)) \<and>
     (\<forall>t. t \<in> set (wg_waiters w) \<longrightarrow> wg_status w t \<noteq> Idle) \<and>
     (pending w = 0 \<longrightarrow> (\<forall>t. wg_status w t \<noteq> Waiting) \<and> wg_os_waiting w = 0)"

lemmas wg_ops = pith_waitgroup_add_def wake_green_waiters_def notify_all_def
  pith_waitgroup_done_def wait_pass_def wait_resume_def wait_os_def wake_status_def

lemma wg_step_inv [pith_inv]: "wg_step w w' \<Longrightarrow> wg_inv w \<Longrightarrow> wg_inv w'"
proof (induction rule: wg_step.induct)
  case (wait_resumes w t)
  then show ?case
    using remove_last_entry_distinct [of "wg_waiters w" t] by (auto simp: wg_inv_def wg_ops)
next
  case (dones w)
  then show ?case
    by (auto simp: wg_inv_def wg_ops Let_def split: if_splits task_status.splits)
next
  case (adds w delta)
  then show ?case by (auto simp: wg_inv_def wg_ops)
qed (auto simp: wg_inv_def wg_ops)

lemma wg_new_inv: "wg_inv pith_waitgroup_new"
  by (simp add: wg_inv_def pith_waitgroup_new_def)

interpretation waitgroup: inductive_invariant "(=) pith_waitgroup_new" wg_step wg_inv
  by unfold_locales (use wg_new_inv wg_step_inv in blast)+

text \<open>
  The last \<open>done\<close> releases every waiter. In every state reached by a program whose negative
  deltas do not take the counter to zero, a counter of zero leaves no green task parked and no
  os thread waiting; and a waiter is always registered where the last \<open>done\<close> will find it.
\<close>

theorem zero_releases_waiters:
  assumes "reachable ((=) pith_waitgroup_new) wg_step w"
  shows "(pending w = 0 \<longrightarrow> (\<forall>t. wg_status w t \<noteq> Waiting) \<and> wg_os_waiting w = 0) \<and>
    (\<forall>t. wg_status w t = Waiting \<longrightarrow> t \<in> set (wg_waiters w))"
  using waitgroup.invariant [OF assms] by (simp add: wg_inv_def)

definition wg_waited :: wait_group where
  "wg_waited = wait_pass 4 (pith_waitgroup_add 1 pith_waitgroup_new)"

lemma reachable_wg_waited: "reachable ((=) pith_waitgroup_new) wg_step wg_waited"
proof -
  have "reachable ((=) pith_waitgroup_new) wg_step pith_waitgroup_new" by (rule reachable_init) simp
  moreover have "wg_step pith_waitgroup_new (pith_waitgroup_add 1 pith_waitgroup_new)"
    by (rule adds) simp
  moreover have "wg_step (pith_waitgroup_add 1 pith_waitgroup_new) wg_waited"
    unfolding wg_waited_def by (rule waits) (simp add: pith_waitgroup_add_def pith_waitgroup_new_def)
  ultimately show ?thesis by (meson reachable_step)
qed

theorem zero_releases_waiters_witness:
  "wg_status wg_waited 4 = Waiting \<and> 4 \<in> set (wg_waiters wg_waited) \<and>
   wg_status (pith_waitgroup_done wg_waited) 4 = Woken"
proof -
  have w: "wg_status wg_waited 4 = Waiting" "wg_status (pith_waitgroup_done wg_waited) 4 = Woken"
    by (simp_all add: wg_waited_def wg_ops pith_waitgroup_new_def Let_def)
  moreover have "4 \<in> set (wg_waiters wg_waited)"
    using zero_releases_waiters [OF reachable_wg_waited] w(1) by blast
  ultimately show ?thesis by blast
qed

text \<open>
  A negative delta can strand a waiter. \<open>add\<close> clamps the counter at zero but signals no one,
  so when a negative delta is what brings it to zero, a green task parked in \<open>wait\<close> stays
  parked and an os thread stays blocked, although a caller that arrives now passes at once.
\<close>

theorem negative_add_strands:
  assumes "wg_status w t = Waiting" and "int (pending w) + delta \<le> 0"
  shows "pending (pith_waitgroup_add delta w) = 0 \<and>
    wg_status (pith_waitgroup_add delta w) t = Waiting \<and>
    wg_os_waiting (pith_waitgroup_add delta w) = wg_os_waiting w \<and>
    wg_status (wait_pass u (pith_waitgroup_add delta w)) u = Idle"
  using assms by (simp add: pith_waitgroup_add_def wait_pass_def)

theorem negative_add_strands_witness:
  "pending (pith_waitgroup_add (-1) wg_waited) = 0 \<and>
   wg_status (pith_waitgroup_add (-1) wg_waited) 4 = Waiting"
  using negative_add_strands [of wg_waited 4 "-1"]
  by (simp add: wg_waited_def wg_ops pith_waitgroup_new_def)

end
