(* ===== verification/RefCount.thy ===== *)
theory RefCount
  imports Prelude
begin

text \<open>
  The contract every counted handle keeps: a retain adds one owner, a release takes one away,
  and the last release frees. Bytes values, synchronization handles, channels and the
  containers interpret \<open>counted\<close> on their own retain and release.
\<close>

datatype rc_op = Retain | Release

text \<open>The owners left after a sequence of operations, and none once the last owner went.\<close>

fun owners :: "nat \<Rightarrow> rc_op list \<Rightarrow> nat option" where
  "owners n [] = (if n = 0 then None else Some n)"
| "owners n (Retain # ops) = (if n = 0 then None else owners (Suc n) ops)"
| "owners n (Release # ops) = (if n \<le> 1 then None else owners (n - 1) ops)"

lemma owners_pos: "owners n ops = Some k \<Longrightarrow> 0 < n \<and> 0 < k \<and> k \<le> n + length ops"
  by (induction n ops rule: owners.induct) (auto split: if_splits)

lemma owners_retains: "0 < n \<Longrightarrow> owners n (replicate k Retain @ ops) = owners (n + k) ops"
  by (induction k arbitrary: n) auto

lemma owners_releases: "k < n \<Longrightarrow> owners n (replicate k Release @ ops) = owners (n - k) ops"
  by (induction k arbitrary: n) auto

locale counted =
  fixes count_of :: "'s \<Rightarrow> nat option" and retain :: "'s \<Rightarrow> 's" and release :: "'s \<Rightarrow> 's"
    and bound :: nat
  assumes retain_live: "count_of s = Some n \<Longrightarrow> 0 < n \<Longrightarrow> n < bound \<Longrightarrow> count_of (retain s) = Some (Suc n)"
    and release_shared: "count_of s = Some n \<Longrightarrow> 1 < n \<Longrightarrow> count_of (release s) = Some (n - 1)"
    and release_last: "count_of s = Some 1 \<Longrightarrow> count_of (release s) = None"
begin

definition run_ops :: "rc_op list \<Rightarrow> 's \<Rightarrow> 's" where
  "run_ops ops s = foldl (\<lambda>s op. case op of Retain \<Rightarrow> retain s | Release \<Rightarrow> release s) s ops"

lemma run_ops_simps [simp]:
  "run_ops [] s = s"
  "run_ops (Retain # ops) s = run_ops ops (retain s)"
  "run_ops (Release # ops) s = run_ops ops (release s)"
  by (simp_all add: run_ops_def)

lemma counts_owners:
  "count_of s = Some n \<Longrightarrow> n + length ops \<le> bound \<Longrightarrow> owners n ops = Some k \<Longrightarrow>
   count_of (run_ops ops s) = Some k"
proof (induction n ops arbitrary: s rule: owners.induct)
  case (2 n ops)
  then show ?case using retain_live [of s n] by (auto split: if_splits)
next
  case (3 n ops)
  then show ?case using release_shared [of s n] by (auto split: if_splits)
qed (auto split: if_splits)

lemma last_owner_frees:
  "count_of s = Some n \<Longrightarrow> n + length ops \<le> bound \<Longrightarrow> owners n ops = Some 1 \<Longrightarrow>
   count_of (release (run_ops ops s)) = None"
  using counts_owners release_last by simp

end

end
