(* ===== verification/SyncHandle.thy ===== *)
theory SyncHandle
  imports RefCount
begin

text \<open>
  The owner count shared by the four synchronization primitives, \<open>concurrency/sync_handle.rs\<close>:
  the header with its magic word, retain and release, and the count a blocking operation takes
  for the span of its wait. A freed primitive has its magic scrubbed; \<open>refs\<close> wraps at 64 bits.
\<close>

definition MUTEX_MAGIC :: u32 where "MUTEX_MAGIC = 0x504d5458"
definition WAITGROUP_MAGIC :: u32 where "WAITGROUP_MAGIC = 0x50574752"
definition SEMAPHORE_MAGIC :: u32 where "SEMAPHORE_MAGIC = 0x5053454d"
definition ATOMIC_INT_MAGIC :: u32 where "ATOMIC_INT_MAGIC = 0x5041544d"

record sync_header =
  magic :: u32
  refs :: u64

definition sync_header_new :: "u32 \<Rightarrow> sync_header" where
  "sync_header_new m = \<lparr>magic = m, refs = 1\<rparr>"

definition is_sync_magic :: "u32 \<Rightarrow> bool" where
  "is_sync_magic w \<longleftrightarrow>
     w = MUTEX_MAGIC \<or> w = WAITGROUP_MAGIC \<or> w = SEMAPHORE_MAGIC \<or> w = ATOMIC_INT_MAGIC"

definition header_of :: "sync_header \<Rightarrow> u32 \<Rightarrow> sync_header option" where
  "header_of h m = (if magic h = m then Some h else None)"

definition any_header :: "sync_header \<Rightarrow> sync_header option" where
  "any_header h = (if is_sync_magic (magic h) then Some h else None)"

definition free_box :: "sync_header \<Rightarrow> sync_header" where
  "free_box h = h\<lparr>magic := 0\<rparr>"

definition release_count :: "sync_header \<Rightarrow> sync_header" where
  "release_count h =
     (let prev = refs h; h' = h\<lparr>refs := refs h - 1\<rparr> in
      if prev > 1 then h'
      else if prev = 0 then h'\<lparr>refs := refs h' + 1\<rparr>
      else free_box h')"

definition pith_sync_retain :: "sync_header \<Rightarrow> sync_header" where
  "pith_sync_retain h = (case any_header h of None \<Rightarrow> h | Some _ \<Rightarrow> h\<lparr>refs := refs h + 1\<rparr>)"

definition pith_sync_release :: "sync_header \<Rightarrow> sync_header" where
  "pith_sync_release h = (case any_header h of None \<Rightarrow> h | Some _ \<Rightarrow> release_count h)"

text \<open>A blocked operation: whether it took its count yet, and the header it took it from.\<close>

definition block_take :: "bool \<times> sync_header \<Rightarrow> bool \<times> sync_header" where
  "block_take b = (case b of (taken, h) \<Rightarrow> if taken then b else (True, h\<lparr>refs := refs h + 1\<rparr>))"

definition block_drop :: "bool \<times> sync_header \<Rightarrow> sync_header" where
  "block_drop b = (case b of (taken, h) \<Rightarrow> if taken then release_count h else h)"

definition sync_count :: "sync_header \<Rightarrow> nat option" where
  "sync_count h = (case any_header h of None \<Rightarrow> None | Some h \<Rightarrow> Some (unat (refs h)))"

lemma sync_magic_nonzero: "\<not> is_sync_magic 0"
  by (simp add: is_sync_magic_def MUTEX_MAGIC_def WAITGROUP_MAGIC_def SEMAPHORE_MAGIC_def
      ATOMIC_INT_MAGIC_def)

lemma unat_succ: "unat (w :: u64) < 2 ^ 64 - 1 \<Longrightarrow> unat (w + 1) = Suc (unat w)"
  by (simp add: unat_word_ariths)

lemma unat_pred: "1 < unat (w :: u64) \<Longrightarrow> unat (w - 1) = unat w - 1"
proof -
  assume "1 < unat w"
  then have "w \<noteq> 0" by (auto simp: word_unat_eq_iff)
  then show ?thesis by (rule unat_minus_one)
qed

interpretation sync: counted sync_count pith_sync_retain pith_sync_release "2 ^ 64 - 1"
proof
  fix s n
  show "sync_count s = Some n \<Longrightarrow> 0 < n \<Longrightarrow> n < 2 ^ 64 - 1 \<Longrightarrow> sync_count (pith_sync_retain s) = Some (Suc n)"
    by (auto simp: sync_count_def pith_sync_retain_def any_header_def unat_succ split: if_splits)
  show "sync_count s = Some n \<Longrightarrow> 1 < n \<Longrightarrow> sync_count (pith_sync_release s) = Some (n - 1)"
    by (auto simp: sync_count_def pith_sync_release_def any_header_def release_count_def Let_def
        unat_pred word_less_nat_alt split: if_splits)
  show "sync_count s = Some 1 \<Longrightarrow> sync_count (pith_sync_release s) = None"
    by (auto simp: sync_count_def pith_sync_release_def any_header_def release_count_def Let_def
        free_box_def sync_magic_nonzero word_less_nat_alt word_unat_eq_iff split: if_splits)
qed

text \<open>
  A blocked operation keeps its primitive alive. Let a primitive have \<open>n\<close> owners when an
  operation on it starts to wait and takes its count, however often it waits. If all \<open>n\<close> owners
  release it meanwhile the primitive is still there, and it is freed when the operation returns;
  one release fewer leaves it to its last owner.
\<close>

theorem blocked_operation_keeps_primitive:
  assumes "is_sync_magic (magic h)" and "unat (refs h) = n" and "0 < n" and "n < 2 ^ 64 - 1"
  defines "blocked \<equiv> snd (block_take (block_take (False, h)))"
  shows "sync_count ((pith_sync_release ^^ n) blocked) = Some 1 \<and>
    sync_count (block_drop (True, (pith_sync_release ^^ n) blocked)) = None \<and>
    sync_count (block_drop (True, (pith_sync_release ^^ (n - 1)) blocked)) = Some 1"
proof -
  have live: "sync_count blocked = Some (Suc n)"
    using assms(1-4) unat_succ [of "refs h"]
    by (simp add: blocked_def block_take_def sync_count_def any_header_def)
  have rel: "sync_count ((pith_sync_release ^^ k) blocked) = Some (Suc n - k)" if "k \<le> n" for k
    using that
  proof (induction k)
    case (Suc k)
    then show ?case using sync.release_shared [of "(pith_sync_release ^^ k) blocked" "Suc n - k"] by simp
  qed (simp add: live)
  have drop: "sync_count (block_drop (True, g)) = sync_count (pith_sync_release g)"
    if "sync_count g = Some m" for g m
    using that by (auto simp: block_drop_def pith_sync_release_def sync_count_def split: option.splits)
  have "sync_count (pith_sync_release ((pith_sync_release ^^ n) blocked)) = None"
    using rel [of n] by (intro sync.release_last) simp
  moreover have "sync_count (pith_sync_release ((pith_sync_release ^^ (n - 1)) blocked)) = Some 1"
    using sync.release_shared [of _ 2] rel [of "n - 1"] assms(3) by fastforce
  ultimately show ?thesis using rel [of n] rel [of "n - 1"] drop by simp
qed

theorem blocked_operation_keeps_primitive_witness:
  "sync_count ((pith_sync_release ^^ 1) (snd (block_take (block_take (False, sync_header_new MUTEX_MAGIC))))) = Some 1"
  using blocked_operation_keeps_primitive [of "sync_header_new MUTEX_MAGIC" 1]
  by (simp add: sync_header_new_def is_sync_magic_def)

end
