(* ===== verification/ChannelRing.thy ===== *)
theory ChannelRing
  imports Steps
begin

text \<open>
  The lock-free core of a buffered channel, \<open>Ring\<close> of \<open>concurrency/channel.rs\<close>: a ring of
  slots with two growing positions and a ticket in each slot. \<open>try_enqueue\<close> and
  \<open>try_dequeue\<close> run concurrently, so each atomic access is one step of a relation over the
  ring and the place every thread has reached. Positions are natural numbers: a \<open>usize\<close>
  position wraps after \<open>2 ^ 64\<close> messages. Weak compare-exchanges may fail spuriously, which
  here is a step that loads the position again.
\<close>

subsection \<open>The ring\<close>

record slot =
  ticket :: nat
  cell :: int

record ring =
  buffer :: "slot list"
  mask :: nat
  exact :: bool
  enqueue_pos :: nat
  dequeue_pos :: nat

fun next_power_of_two :: "nat \<Rightarrow> nat" where
  "next_power_of_two n = (if n \<le> 1 then 1 else 2 * next_power_of_two ((n + 1) div 2))"

declare next_power_of_two.simps [simp del]

definition slot_count :: "nat \<Rightarrow> nat" where
  "slot_count capacity = max (next_power_of_two capacity) 2"

definition ring_new :: "nat \<Rightarrow> ring" where
  "ring_new capacity =
     (let size = slot_count capacity in
      \<lparr>buffer = map (\<lambda>i. \<lparr>ticket = i, cell = 0\<rparr>) [0..<size], mask = size - 1,
       exact = (capacity = size), enqueue_pos = 0, dequeue_pos = 0\<rparr>)"

definition ring_len :: "ring \<Rightarrow> nat" where
  "ring_len r = enqueue_pos r - dequeue_pos r"

lemma next_power_of_two_power: "\<exists>k. next_power_of_two n = 2 ^ k"
proof (induction n rule: next_power_of_two.induct)
  case (1 n)
  show ?case
  proof (cases "n \<le> 1")
    case True
    then show ?thesis by (intro exI [of _ 0]) (simp add: next_power_of_two.simps)
  next
    case False
    then obtain k where "next_power_of_two ((n + 1) div 2) = 2 ^ k" using 1 by blast
    then show ?thesis using False
      by (intro exI [of _ "Suc k"]) (simp add: next_power_of_two.simps [of n])
  qed
qed

lemma next_power_of_two_bounds: "n \<le> next_power_of_two n \<and> (1 < n \<longrightarrow> next_power_of_two n < 2 * n)"
proof (induction n rule: next_power_of_two.induct)
  case (1 n)
  show ?case
  proof (cases "n \<le> 1")
    case True
    then show ?thesis by (simp add: next_power_of_two.simps)
  next
    case False
    define m where "m = (n + 1) div 2"
    have m: "n \<le> 2 * m" "2 * m \<le> n + 1" by (auto simp: m_def)
    have ih: "m \<le> next_power_of_two m" "1 < m \<Longrightarrow> next_power_of_two m < 2 * m"
      using 1 False by (auto simp: m_def)
    have eq: "next_power_of_two n = 2 * next_power_of_two m"
      using False by (subst next_power_of_two.simps) (simp add: m_def)
    show ?thesis
    proof (cases "m = 1")
      case True
      then show ?thesis using False m eq by (simp add: next_power_of_two.simps [of "Suc 0"])
    next
      case False
      then have "1 < m" using m \<open>\<not> n \<le> 1\<close> by linarith
      obtain k where k: "next_power_of_two m = 2 ^ k" using next_power_of_two_power by blast
      have "next_power_of_two m < 2 * m" using ih \<open>1 < m\<close> by simp
      moreover have "even (next_power_of_two m)"
        using k ih(1) \<open>1 < m\<close> by (cases k) auto
      ultimately have "next_power_of_two m \<le> 2 * m - 2" by (auto elim!: evenE)
      then show ?thesis using eq m ih(1) \<open>1 < m\<close> by linarith
    qed
  qed
qed

lemma slot_count_power: "\<exists>k. slot_count c = 2 ^ k"
proof -
  obtain k where "next_power_of_two c = 2 ^ k" using next_power_of_two_power by blast
  then show ?thesis
    unfolding slot_count_def by (metis max_def power_one_right)
qed

lemma slot_count_bounds: "2 \<le> slot_count c" "c \<le> slot_count c"
  using next_power_of_two_bounds [of c] by (auto simp: slot_count_def)

lemma and_mask_mod: "0 < k \<Longrightarrow> k = 2 ^ j \<Longrightarrow> (p :: nat) AND (k - 1) = p mod k"
  by (metis mask_eq_exp_minus_1 take_bit_eq_mask take_bit_eq_mod)


subsection \<open>Threads in the ring\<close>

text \<open>Where a thread stands in \<open>try_enqueue\<close> or \<open>try_dequeue\<close>.\<close>

datatype ring_pc =
    Rest
  | EnqLoad int           \<comment> \<open>about to load \<open>enqueue_pos\<close>\<close>
  | EnqTop int nat        \<comment> \<open>holds a position, about to check the capacity\<close>
  | EnqSlot int nat       \<comment> \<open>about to load the ticket of the slot\<close>
  | EnqCas int nat        \<comment> \<open>saw the slot free\<close>
  | EnqWrite int nat      \<comment> \<open>claimed the position\<close>
  | EnqPublish nat        \<comment> \<open>wrote the cell\<close>
  | EnqDone bool
  | DeqLoad
  | DeqTop nat
  | DeqCas nat            \<comment> \<open>saw the slot full\<close>
  | DeqRead nat           \<comment> \<open>claimed the position\<close>
  | DeqRelease nat int    \<comment> \<open>read the cell\<close>
  | DeqDone "int option"

text \<open>\<open>sent\<close> lists the values by the position they were claimed for, and \<open>reads\<close> the positions
  and values that dequeuers have read: the history the properties are stated over.\<close>

record ring_sys =
  ring_of :: ring
  at :: "nat \<Rightarrow> ring_pc"
  sent :: "int list"
  reads :: "(nat \<times> int) list"

definition ring_start :: "nat \<Rightarrow> ring_sys \<Rightarrow> bool" where
  "ring_start capacity s \<longleftrightarrow>
     s = \<lparr>ring_of = ring_new capacity, at = (\<lambda>_. Rest), sent = [], reads = []\<rparr>"

definition slot_at :: "ring \<Rightarrow> nat \<Rightarrow> slot" where
  "slot_at r pos = buffer r ! (pos AND mask r)"

definition set_slot :: "ring \<Rightarrow> nat \<Rightarrow> slot \<Rightarrow> ring" where
  "set_slot r pos x = r\<lparr>buffer := (buffer r)[pos AND mask r := x]\<rparr>"

abbreviation goto :: "nat \<Rightarrow> ring_pc \<Rightarrow> ring_sys \<Rightarrow> ring_sys" where
  "goto t p s \<equiv> s\<lparr>at := (at s)(t := p)\<rparr>"

definition enq_check :: "nat \<Rightarrow> int \<Rightarrow> nat \<Rightarrow> ring \<Rightarrow> ring_pc" where
  "enq_check capacity v pos r =
     (if \<not> exact r \<and> capacity \<le> pos - dequeue_pos r then EnqDone False else EnqSlot v pos)"

definition enq_ticket :: "int \<Rightarrow> nat \<Rightarrow> ring \<Rightarrow> ring_pc" where
  "enq_ticket v pos r =
     (let seq = ticket (slot_at r pos) in
      if seq = pos then EnqCas v pos else if seq < pos then EnqDone False else EnqLoad v)"

definition enq_cas :: "nat \<Rightarrow> int \<Rightarrow> nat \<Rightarrow> ring_sys \<Rightarrow> ring_sys" where
  "enq_cas t v pos s =
     (if enqueue_pos (ring_of s) = pos
      then goto t (EnqWrite v pos)
             (s\<lparr>ring_of := (ring_of s)\<lparr>enqueue_pos := pos + 1\<rparr>, sent := sent s @ [v]\<rparr>)
      else goto t (EnqTop v (enqueue_pos (ring_of s))) s)"

definition enq_write :: "nat \<Rightarrow> int \<Rightarrow> nat \<Rightarrow> ring_sys \<Rightarrow> ring_sys" where
  "enq_write t v pos s =
     goto t (EnqPublish pos)
       (s\<lparr>ring_of := set_slot (ring_of s) pos ((slot_at (ring_of s) pos)\<lparr>cell := v\<rparr>)\<rparr>)"

definition enq_publish :: "nat \<Rightarrow> nat \<Rightarrow> ring_sys \<Rightarrow> ring_sys" where
  "enq_publish t pos s =
     goto t (EnqDone True)
       (s\<lparr>ring_of := set_slot (ring_of s) pos ((slot_at (ring_of s) pos)\<lparr>ticket := pos + 1\<rparr>)\<rparr>)"

definition deq_ticket :: "nat \<Rightarrow> ring \<Rightarrow> ring_pc" where
  "deq_ticket pos r =
     (let seq = ticket (slot_at r pos) in
      if seq = pos + 1 then DeqCas pos else if seq \<le> pos then DeqDone None else DeqLoad)"

definition deq_cas :: "nat \<Rightarrow> nat \<Rightarrow> ring_sys \<Rightarrow> ring_sys" where
  "deq_cas t pos s =
     (if dequeue_pos (ring_of s) = pos
      then goto t (DeqRead pos) (s\<lparr>ring_of := (ring_of s)\<lparr>dequeue_pos := pos + 1\<rparr>\<rparr>)
      else goto t (DeqTop (dequeue_pos (ring_of s))) s)"

definition deq_read :: "nat \<Rightarrow> nat \<Rightarrow> ring_sys \<Rightarrow> ring_sys" where
  "deq_read t pos s =
     (let v = cell (slot_at (ring_of s) pos) in
      goto t (DeqRelease pos v) (s\<lparr>reads := reads s @ [(pos, v)]\<rparr>))"

definition deq_release :: "nat \<Rightarrow> nat \<Rightarrow> int \<Rightarrow> ring_sys \<Rightarrow> ring_sys" where
  "deq_release t pos v s =
     goto t (DeqDone (Some v))
       (s\<lparr>ring_of := set_slot (ring_of s) pos
            ((slot_at (ring_of s) pos)\<lparr>ticket := pos + mask (ring_of s) + 1\<rparr>)\<rparr>)"

text \<open>The next access of a thread in the middle of an operation.\<close>

definition advance :: "nat \<Rightarrow> nat \<Rightarrow> ring_sys \<Rightarrow> ring_sys" where
  "advance capacity t s =
     (case at s t of
        EnqLoad v \<Rightarrow> goto t (EnqTop v (enqueue_pos (ring_of s))) s
      | EnqTop v pos \<Rightarrow> goto t (enq_check capacity v pos (ring_of s)) s
      | EnqSlot v pos \<Rightarrow> goto t (enq_ticket v pos (ring_of s)) s
      | EnqCas v pos \<Rightarrow> enq_cas t v pos s
      | EnqWrite v pos \<Rightarrow> enq_write t v pos s
      | EnqPublish pos \<Rightarrow> enq_publish t pos s
      | DeqLoad \<Rightarrow> goto t (DeqTop (dequeue_pos (ring_of s))) s
      | DeqTop pos \<Rightarrow> goto t (deq_ticket pos (ring_of s)) s
      | DeqCas pos \<Rightarrow> deq_cas t pos s
      | DeqRead pos \<Rightarrow> deq_read t pos s
      | DeqRelease pos v \<Rightarrow> deq_release t pos v s
      | _ \<Rightarrow> s)"

inductive ring_step :: "nat \<Rightarrow> ring_sys \<Rightarrow> ring_sys \<Rightarrow> bool" for capacity where
  enqueues: "at s t \<in> {Rest, EnqDone b, DeqDone w} \<Longrightarrow> ring_step capacity s (goto t (EnqLoad v) s)"
| dequeues: "at s t \<in> {Rest, EnqDone b, DeqDone w} \<Longrightarrow> ring_step capacity s (goto t DeqLoad s)"
| advances: "ring_step capacity s (advance capacity t s)"
| enq_spurious: "at s t = EnqCas v pos \<Longrightarrow> ring_step capacity s (goto t (EnqTop v (enqueue_pos (ring_of s))) s)"
| deq_spurious: "at s t = DeqCas pos \<Longrightarrow> ring_step capacity s (goto t (DeqTop (dequeue_pos (ring_of s))) s)"

inductive_cases ring_step_cases: "ring_step capacity s s'"

subsection \<open>The invariant\<close>

text \<open>The positions from \<open>dequeue_pos\<close> on, one lap long, name every slot once. Below
  \<open>enqueue_pos\<close> such a slot holds its value or waits for the writer that claimed it; from
  there on it is free or waits for the reader of the lap before.\<close>

fun writing :: "ring_pc \<Rightarrow> nat option" where
  "writing (EnqWrite v pos) = Some pos"
| "writing (EnqPublish pos) = Some pos"
| "writing _ = None"

fun reading :: "ring_pc \<Rightarrow> nat option" where
  "reading (DeqRead pos) = Some pos"
| "reading (DeqRelease pos v) = Some pos"
| "reading _ = None"

abbreviation enq :: "ring_sys \<Rightarrow> nat" where "enq s \<equiv> enqueue_pos (ring_of s)"
abbreviation deq :: "ring_sys \<Rightarrow> nat" where "deq s \<equiv> dequeue_pos (ring_of s)"
abbreviation place :: "ring_sys \<Rightarrow> nat \<Rightarrow> slot" where "place s p \<equiv> slot_at (ring_of s) p"
abbreviation tick :: "ring_sys \<Rightarrow> nat \<Rightarrow> nat" where "tick s p \<equiv> ticket (place s p)"

definition ring_shape :: "nat \<Rightarrow> ring_sys \<Rightarrow> bool" where
  "ring_shape capacity s \<longleftrightarrow>
     length (buffer (ring_of s)) = slot_count capacity \<and> mask (ring_of s) = slot_count capacity - 1 \<and>
     exact (ring_of s) = (capacity = slot_count capacity) \<and> length (sent s) = enq s \<and>
     deq s \<le> enq s \<and> enq s \<le> deq s + capacity"

definition filled_ok :: "ring_sys \<Rightarrow> bool" where
  "filled_ok s \<longleftrightarrow>
     (\<forall>p. deq s \<le> p \<longrightarrow> p < enq s \<longrightarrow>
        tick s p = p \<and> (\<exists>t. writing (at s t) = Some p) \<or>
        tick s p = p + 1 \<and> cell (place s p) = sent s ! p)"

definition free_ok :: "nat \<Rightarrow> ring_sys \<Rightarrow> bool" where
  "free_ok n s \<longleftrightarrow>
     (\<forall>p. enq s \<le> p \<longrightarrow> p < deq s + n \<longrightarrow>
        tick s p = p \<or> n \<le> p \<and> tick s p = p - n + 1 \<and> (\<exists>t. reading (at s t) = Some (p - n)))"

fun thread_ok :: "nat \<Rightarrow> nat \<Rightarrow> ring_sys \<Rightarrow> ring_pc \<Rightarrow> bool" where
  "thread_ok c n s (EnqTop v pos) \<longleftrightarrow> pos \<le> enq s"
| "thread_ok c n s (EnqSlot v pos) \<longleftrightarrow> pos \<le> enq s \<and>
     (exact (ring_of s) \<or> pos < deq s + c)"
| "thread_ok c n s (EnqCas v pos) \<longleftrightarrow> pos \<le> enq s \<and>
     (exact (ring_of s) \<or> pos < deq s + c) \<and>
     (pos = enq s \<longrightarrow> tick s pos = pos)"
| "thread_ok c n s (EnqWrite v pos) \<longleftrightarrow>
     deq s \<le> pos \<and> pos < enq s \<and> tick s pos = pos \<and>
     sent s ! pos = v"
| "thread_ok c n s (EnqPublish pos) \<longleftrightarrow>
     deq s \<le> pos \<and> pos < enq s \<and> tick s pos = pos \<and>
     cell (place s pos) = sent s ! pos"
| "thread_ok c n s (DeqTop pos) \<longleftrightarrow> pos \<le> deq s"
| "thread_ok c n s (DeqCas pos) \<longleftrightarrow> pos \<le> deq s \<and>
     (pos = deq s \<longrightarrow>
        deq s < enq s \<and> tick s pos = pos + 1)"
| "thread_ok c n s (DeqRead pos) \<longleftrightarrow>
     pos < deq s \<and> enq s \<le> pos + n \<and>
     tick s pos = pos + 1 \<and> cell (place s pos) = sent s ! pos \<and>
     pos \<notin> fst ` set (reads s)"
| "thread_ok c n s (DeqRelease pos v) \<longleftrightarrow>
     pos < deq s \<and> enq s \<le> pos + n \<and>
     tick s pos = pos + 1 \<and> v = sent s ! pos"
| "thread_ok c n s _ \<longleftrightarrow> True"

definition claims_unique :: "ring_sys \<Rightarrow> bool" where
  "claims_unique s \<longleftrightarrow>
     (\<forall>t u p. writing (at s t) = Some p \<longrightarrow> writing (at s u) = Some p \<longrightarrow> t = u) \<and>
     (\<forall>t u p. reading (at s t) = Some p \<longrightarrow> reading (at s u) = Some p \<longrightarrow> t = u)"

definition reads_ok :: "ring_sys \<Rightarrow> bool" where
  "reads_ok s \<longleftrightarrow>
     distinct (map fst (reads s)) \<and>
     (\<forall>(p, v) \<in> set (reads s). p < deq s \<and> v = sent s ! p) \<and>
     (\<forall>p < deq s. p \<in> fst ` set (reads s) \<or> (\<exists>t. at s t = DeqRead p))"

definition ring_inv :: "nat \<Rightarrow> ring_sys \<Rightarrow> bool" where
  "ring_inv c s \<longleftrightarrow> ring_shape c s \<and> filled_ok s \<and> free_ok (slot_count c) s \<and>
     (\<forall>t. thread_ok c (slot_count c) s (at s t)) \<and> claims_unique s \<and> reads_ok s"

subsection \<open>Preservation\<close>

lemma mod_gap: "p mod n = q mod n \<Longrightarrow> p < q \<Longrightarrow> p + n \<le> (q :: nat)"
proof -
  assume eq: "p mod n = q mod n" and lt: "p < q"
  have "n dvd q - p" using eq lt by (metis less_imp_le mod_eq_dvd_iff_nat)
  then show ?thesis using lt by (auto dest: dvd_imp_le)
qed

lemma mod_Suc_neq: "2 \<le> n \<Longrightarrow> Suc p mod n \<noteq> p mod n"
  using mod_gap [of p n "Suc p"] by fastforce

lemma mod_window: "p mod n = q mod n \<Longrightarrow> a \<le> p \<Longrightarrow> p < a + n \<Longrightarrow> a \<le> q \<Longrightarrow> q < a + n \<Longrightarrow> p = (q :: nat)"
  using mod_gap [of p n q] mod_gap [of q n p] by (cases p q rule: linorder_cases) auto

lemma ring_invD:
  assumes "ring_inv c s"
  shows "ring_shape c s" "filled_ok s" "free_ok (slot_count c) s" "thread_ok c (slot_count c) s (at s t)"
    "claims_unique s" "reads_ok s" "length (sent s) = enq s" "deq s \<le> enq s" "enq s \<le> deq s + c"
  using assms by (auto simp: ring_inv_def ring_shape_def)

lemma filled_okD:
  "filled_ok s \<Longrightarrow> deq s \<le> p \<Longrightarrow> p < enq s \<Longrightarrow>
     tick s p = p \<and> (\<exists>t. writing (at s t) = Some p) \<or> tick s p = p + 1 \<and> cell (place s p) = sent s ! p"
  by (simp add: filled_ok_def)

lemma free_okD:
  "free_ok n s \<Longrightarrow> enq s \<le> p \<Longrightarrow> p < deq s + n \<Longrightarrow>
     tick s p = p \<or> n \<le> p \<and> tick s p = p - n + 1 \<and> (\<exists>t. reading (at s t) = Some (p - n))"
  by (simp add: free_ok_def)

lemma slot_index: "ring_shape c s \<Longrightarrow> p AND mask (ring_of s) = p mod slot_count c"
proof -
  assume sh: "ring_shape c s"
  obtain k where "slot_count c = 2 ^ k" using slot_count_power by blast
  then have "p AND (slot_count c - 1) = p mod slot_count c"
    using slot_count_bounds [of c] by (intro and_mask_mod) auto
  then show ?thesis using sh by (simp add: ring_shape_def)
qed

lemma slot_same: "ring_shape c s \<Longrightarrow> p mod slot_count c = q mod slot_count c \<Longrightarrow> slot_at (ring_of s) p = slot_at (ring_of s) q"
  by (simp add: slot_at_def slot_index)

lemma slot_set:
  assumes "ring_shape c s"
  shows "slot_at (set_slot (ring_of s) q x) p =
    (if p mod slot_count c = q mod slot_count c then x else slot_at (ring_of s) p)"
proof -
  have "q mod slot_count c < length (buffer (ring_of s))"
    using assms slot_count_bounds [of c] by (simp add: ring_shape_def Let_def)
  then show ?thesis
    using slot_index [OF assms] by (simp add: slot_at_def set_slot_def)
qed

lemma set_slot_sel [simp]:
  "enqueue_pos (set_slot r p x) = enqueue_pos r" "dequeue_pos (set_slot r p x) = dequeue_pos r"
  "mask (set_slot r p x) = mask r" "exact (set_slot r p x) = exact r"
  "length (buffer (set_slot r p x)) = length (buffer r)"
  by (simp_all add: set_slot_def)

lemma slot_at_pos [simp]:
  "slot_at (r\<lparr>enqueue_pos := e\<rparr>) p = slot_at r p" "slot_at (r\<lparr>dequeue_pos := e\<rparr>) p = slot_at r p"
  by (simp_all add: slot_at_def)

text \<open>A step that only moves a thread which claims nothing before or after.\<close>

lemma thread_ok_goto [simp]:
  "thread_ok c n (goto t p s) q = thread_ok c n s q"
  by (cases q) simp_all

lemma ring_inv_goto:
  assumes inv: "ring_inv c s" and ok: "thread_ok c (slot_count c) s p"
    and old: "writing (at s t) = None" "reading (at s t) = None"
    and new: "writing p = None" "reading p = None"
  shows "ring_inv c (goto t p s)"
proof -
  have w: "writing (((at s)(t := p)) u) = writing (at s u)" for u using old new by auto
  have rd: "reading (((at s)(t := p)) u) = reading (at s u)" for u using old new by auto
  have dr: "((at s)(t := p)) u = DeqRead k \<longleftrightarrow> at s u = DeqRead k" for u k using old new by auto
  have "ring_shape c (goto t p s)" using inv by (simp add: ring_inv_def ring_shape_def)
  moreover have "filled_ok (goto t p s)" "free_ok (slot_count c) (goto t p s)" "claims_unique (goto t p s)"
    using inv w rd by (simp_all add: ring_inv_def filled_ok_def free_ok_def claims_unique_def del: fun_upd_apply)
  moreover have "reads_ok (goto t p s)"
    using inv dr by (simp add: ring_inv_def reads_ok_def del: fun_upd_apply)
  moreover have "thread_ok c (slot_count c) (goto t p s) (at (goto t p s) u)" for u
    using inv ok by (simp add: ring_inv_def)
  ultimately show ?thesis by (simp add: ring_inv_def)
qed

lemma ring_inv_idle:
  assumes "ring_inv c s" and "writing (at s t) = None" and "reading (at s t) = None"
    and "p \<in> {EnqLoad v, DeqLoad, EnqDone b, DeqDone w, EnqTop v (enqueue_pos (ring_of s)), DeqTop (dequeue_pos (ring_of s))}"
  shows "ring_inv c (goto t p s)"
  using assms by (intro ring_inv_goto) auto

lemma enq_check_ok:
  "thread_ok c n s (EnqTop v pos) \<Longrightarrow> 0 < c \<Longrightarrow> thread_ok c n s (enq_check c v pos (ring_of s))"
  by (auto simp: enq_check_def)

lemma enq_ticket_ok:
  "thread_ok c n s (EnqSlot v pos) \<Longrightarrow> thread_ok c n s (enq_ticket v pos (ring_of s))"
  by (auto simp: enq_ticket_def Let_def)

lemma deq_ticket_ok:
  assumes inv: "ring_inv c s" and ok: "thread_ok c n s (DeqTop pos)"
  shows "thread_ok c n s (deq_ticket pos (ring_of s))"
proof -
  let ?n = "slot_count c"
  have "deq s < enq s" if full: "pos = deq s" "tick s pos = pos + 1"
  proof (rule ccontr)
    assume "\<not> ?thesis"
    then have "enq s = deq s" using inv by (auto simp: ring_inv_def ring_shape_def)
    then have "tick s pos = pos \<or> ?n \<le> pos \<and> tick s pos = pos - ?n + 1"
      using free_okD [OF ring_invD(3) [OF inv], of pos] full(1) slot_count_bounds(1) [of c] by auto
    then show False using full(2) slot_count_bounds(1) [of c] by linarith
  qed
  then show ?thesis using ok by (auto simp: deq_ticket_def Let_def)
qed

lemma place_lap: "ring_inv c s \<Longrightarrow> place s (p + slot_count c) = place s p"
  by (rule slot_same [OF ring_invD(1)]) auto

lemma enq_room:
  assumes inv: "ring_inv c s" and at: "at s t = EnqCas v pos" "enq s = pos" and "0 < c"
  shows "pos < deq s + c \<and> tick s pos = pos"
proof -
  let ?n = "slot_count c"
  have tick: "tick s pos = pos" and chk: "exact (ring_of s) \<or> pos < deq s + c"
    using ring_invD(4) [OF inv, of t] at by auto
  have "pos \<noteq> deq s + c" if ex: "exact (ring_of s)"
  proof
    assume full: "pos = deq s + c"
    have n: "c = ?n" using ring_invD(1) [OF inv] ex by (simp add: ring_shape_def)
    then have "tick s (deq s) = pos" using tick full place_lap [OF inv, of "deq s"] by simp
    moreover have "tick s (deq s) = deq s \<or> tick s (deq s) = deq s + 1"
      using ring_invD(2) [OF inv] full at(2) \<open>0 < c\<close> by (auto simp: filled_ok_def)
    ultimately show False using full n slot_count_bounds(1) [of c] by auto
  qed
  then show ?thesis using tick chk ring_invD(9) [OF inv] at(2) by fastforce
qed

lemma enq_cas_inv:
  assumes inv: "ring_inv c s" and at: "at s t = EnqCas v pos" "enq s = pos" and "0 < c"
  shows "ring_inv c (enq_cas t v pos s)"
proof -
  let ?n = "slot_count c"
  define s' where "s' = enq_cas t v pos s"
  note I = ring_invD [OF inv]
  have room: "pos < deq s + c" and tick: "tick s pos = pos" using enq_room [OF assms] by auto
  have s': "enq s' = pos + 1" "deq s' = deq s" "place s' p = place s p" "exact (ring_of s') = exact (ring_of s)"
    "sent s' = sent s @ [v]" "reads s' = reads s" "at s' = (at s)(t := EnqWrite v pos)" for p
    using at by (simp_all add: s'_def enq_cas_def)
  have sent: "sent s' ! p = sent s ! p" if "p < pos" for p
    using that I(7) at(2) by (simp add: s' nth_append)
  have sentpos: "sent s' ! pos = v" using I(7) at(2) by (simp add: s' nth_append)
  have w: "writing (at s' u) = Some p \<longleftrightarrow> writing (at s u) = Some p \<or> u = t \<and> p = pos" for u p
    using at by (auto simp: s')
  have rd: "reading (at s' u) = reading (at s u)" for u using at by (simp add: s')
  have dr: "at s' u = DeqRead p \<longleftrightarrow> at s u = DeqRead p" for u p using at by (simp add: s')
  have "ring_shape c s'"
    using I(1) room at(2) unfolding s'_def enq_cas_def ring_shape_def by simp
  moreover have "filled_ok s'"
    unfolding filled_ok_def
  proof (intro allI impI)
    fix p assume p: "deq s' \<le> p" "p < enq s'"
    show "tick s' p = p \<and> (\<exists>t. writing (at s' t) = Some p) \<or> tick s' p = p + 1 \<and> cell (place s' p) = sent s' ! p"
    proof (cases "p = pos")
      case True
      then show ?thesis using tick w [of t pos] by (auto simp: s')
    next
      case False
      then show ?thesis using I(2) p at(2) sent [of p] w unfolding filled_ok_def s' by (metis Suc_eq_plus1 less_antisym)
    qed
  qed
  moreover have "free_ok ?n s'"
    using I(3) at(2) rd unfolding free_ok_def s' by (simp add: Suc_le_eq)
  moreover have "thread_ok c ?n s' (at s' u)" for u
  proof (cases "u = t")
    case True
    then show ?thesis using I(8) at(2) tick sentpos by (simp add: s')
  next
    case False
    have ne: "enq s \<noteq> p + ?n" if "tick s p = p + 1" for p
      using that tick at(2) place_lap [OF inv, of p] slot_count_bounds(1) [of c] by auto
    show ?thesis
      using I(4) [of u] I(8) False at(2) sent ne s'
      by (cases "at s u") (auto simp: le_less Suc_le_eq)
  qed
  moreover have "claims_unique s'"
  proof -
    have "\<not> writing (at s u) = Some pos" for u
      using I(4) [of u] at(2) by (cases "at s u") auto
    then show ?thesis using I(5) unfolding claims_unique_def w rd by blast
  qed
  moreover have "reads_ok s'"
    using I(6) I(8) at(2) sent dr unfolding reads_ok_def by (fastforce simp: s'(2,6))
  ultimately show ?thesis by (simp add: ring_inv_def s'_def)
qed

lemma claims_uniqueD:
  "claims_unique s \<Longrightarrow> writing (at s t) = Some p \<Longrightarrow> writing (at s u) = Some p \<Longrightarrow> t = u"
  "claims_unique s \<Longrightarrow> reading (at s t) = Some p \<Longrightarrow> reading (at s u) = Some p \<Longrightarrow> t = u"
  unfolding claims_unique_def by blast+

lemma lap_ticks:
  assumes inv: "ring_inv c s" and eq: "p mod slot_count c = q mod slot_count c" and t: "tick s q = q"
  shows "tick s p = q \<and> tick s p \<noteq> p + 1 \<and> (tick s p = p \<longrightarrow> p = q)"
  using slot_same [OF ring_invD(1) [OF inv] eq] t mod_Suc_neq [of "slot_count c" p]
    slot_count_bounds(1) [of c] eq by auto

lemma enq_write_inv:
  assumes inv: "ring_inv c s" and at: "at s t = EnqWrite v pos"
  shows "ring_inv c (enq_write t v pos s)"
proof -
  let ?n = "slot_count c"
  define s' where "s' = enq_write t v pos s"
  note I = ring_invD [OF inv]
  have own: "deq s \<le> pos" "pos < enq s" "tick s pos = pos" "sent s ! pos = v"
    using I(4) [of t] at by auto
  have s': "enq s' = enq s" "deq s' = deq s" "exact (ring_of s') = exact (ring_of s)"
    "sent s' = sent s" "reads s' = reads s" "at s' = (at s)(t := EnqPublish pos)"
    by (simp_all add: s'_def enq_write_def)
  have place: "place s' p = (if p mod ?n = pos mod ?n then (place s pos)\<lparr>cell := v\<rparr> else place s p)" for p
    unfolding s'_def enq_write_def by (simp add: slot_set [OF I(1)])
  have tick: "tick s' p = tick s p" for p
    using place [of p] slot_same [OF I(1), of p pos] by auto
  have cell: "cell (place s' p) = cell (place s p)" if "tick s p = p + 1" for p
    using place [of p] lap_ticks [OF inv _ own(3), of p] that by auto
  have w: "writing (at s' u) = writing (at s u)" for u using at by (simp add: s')
  have rd: "reading (at s' u) = reading (at s u)" for u using at by (simp add: s')
  have dr: "at s' u = DeqRead p \<longleftrightarrow> at s u = DeqRead p" for u p using at by (simp add: s')
  have "ring_shape c s'" using I(1) unfolding s'_def enq_write_def ring_shape_def by simp
  moreover have "filled_ok s'"
    using I(2) cell unfolding filled_ok_def s'(1,2,4) tick w by fastforce
  moreover have "free_ok ?n s'" using I(3) unfolding free_ok_def s'(1,2) tick rd .
  moreover have "thread_ok c ?n s' (at s' u)" for u
  proof (cases "u = t")
    case True
    then show ?thesis using own tick place by (simp add: s')
  next
    case False
    have "p \<noteq> pos" if "at s u = EnqPublish p" for p
      using claims_uniqueD(1) [OF I(5), of u pos t] that at False by auto
    then have "cell (place s' p) = cell (place s p)" if "at s u = EnqPublish p" for p
      using that I(4) [of u] place [of p] lap_ticks [OF inv _ own(3), of p] by auto
    then show ?thesis
      using I(4) [of u] False cell by (cases "at s u") (auto simp: s' tick)
  qed
  moreover have "claims_unique s'" using I(5) unfolding claims_unique_def w rd .
  moreover have "reads_ok s'" using I(6) unfolding reads_ok_def s'(2,4,5) dr .
  ultimately show ?thesis by (simp add: ring_inv_def s'_def)
qed

lemma enq_publish_inv:
  assumes inv: "ring_inv c s" and at: "at s t = EnqPublish pos"
  shows "ring_inv c (enq_publish t pos s)"
proof -
  let ?n = "slot_count c"
  define s' where "s' = enq_publish t pos s"
  note I = ring_invD [OF inv]
  have own: "deq s \<le> pos" "pos < enq s" "tick s pos = pos" "cell (place s pos) = sent s ! pos"
    using I(4) [of t] at by auto
  have s': "enq s' = enq s" "deq s' = deq s" "exact (ring_of s') = exact (ring_of s)"
    "sent s' = sent s" "reads s' = reads s" "at s' = (at s)(t := EnqDone True)"
    by (simp_all add: s'_def enq_publish_def)
  have place: "place s' p = (if p mod ?n = pos mod ?n then (place s pos)\<lparr>ticket := pos + 1\<rparr> else place s p)" for p
    unfolding s'_def enq_publish_def by (simp add: slot_set [OF I(1)])
  have cell: "cell (place s' p) = cell (place s p)" for p
    using place [of p] slot_same [OF I(1), of p pos] by auto
  have other: "tick s' p = tick s p" if "p mod ?n \<noteq> pos mod ?n" for p using that place by simp
  have full: "tick s' p = tick s p" if "tick s p = p + 1" for p
    using that other [of p] lap_ticks [OF inv _ own(3), of p] by auto
  have window: "p = pos" if "p mod ?n = pos mod ?n" "deq s \<le> p" "p < deq s + ?n" for p
    using that own(1,2) I(9) slot_count_bounds(2) [of c] by (intro mod_window [of p ?n pos "deq s"]) auto
  have w: "writing (at s' u) = Some p \<longleftrightarrow> writing (at s u) = Some p \<and> u \<noteq> t" for u p using at by (simp add: s')
  have rd: "reading (at s' u) = reading (at s u)" for u using at by (simp add: s')
  have dr: "at s' u = DeqRead p \<longleftrightarrow> at s u = DeqRead p" for u p using at by (simp add: s')
  have "ring_shape c s'" using I(1) unfolding s'_def enq_publish_def ring_shape_def by simp
  moreover have "filled_ok s'"
    unfolding filled_ok_def
  proof (intro allI impI)
    fix p assume p: "deq s' \<le> p" "p < enq s'"
    then have p': "deq s \<le> p" "p < enq s" by (simp_all add: s')
    show "tick s' p = p \<and> (\<exists>t. writing (at s' t) = Some p) \<or> tick s' p = p + 1 \<and> cell (place s' p) = sent s' ! p"
    proof (cases "p = pos")
      case True
      then show ?thesis using place [of pos] own(4) by (simp add: s')
    next
      case False
      then have "tick s' p = tick s p"
        using window [of p] p' I(9) slot_count_bounds(2) [of c] by (intro other) auto
      moreover have "\<exists>u. writing (at s u) = Some p \<Longrightarrow> \<exists>u. writing (at s' u) = Some p"
        using False at unfolding w by auto
      ultimately show ?thesis using filled_okD [OF I(2) p'] cell [of p] by (auto simp: s'(4))
    qed
  qed
  moreover have "free_ok ?n s'"
    unfolding free_ok_def
  proof (intro allI impI)
    fix p assume p: "enq s' \<le> p" "p < deq s' + ?n"
    then have p': "enq s \<le> p" "p < deq s + ?n" by (simp_all add: s')
    then have "tick s' p = tick s p" using window [of p] own I(8) by (intro other) auto
    then show "tick s' p = p \<or> ?n \<le> p \<and> tick s' p = p - ?n + 1 \<and> (\<exists>t. reading (at s' t) = Some (p - ?n))"
      using free_okD [OF I(3) p'] rd by simp
  qed
  moreover have "thread_ok c ?n s' (at s' u)" for u
  proof (cases "u = t")
    case True
    then show ?thesis by (simp add: s')
  next
    case False
    have ne: "p \<noteq> pos" if "writing (at s u) = Some p" for p
      using claims_uniqueD(1) [OF I(5), of u pos t] that at False by auto
    have keep: "tick s' p = p" if "tick s p = p" "p \<noteq> pos" for p
      using that other [of p] lap_ticks [OF inv _ own(3), of p] by auto
    show ?thesis
      using I(4) [of u] False cell full keep ne own(2) by (cases "at s u") (auto simp: s')
  qed
  moreover have "claims_unique s'" using I(5) unfolding claims_unique_def w rd by blast
  moreover have "reads_ok s'" using I(6) unfolding reads_ok_def s'(2,4,5) dr .
  ultimately show ?thesis by (simp add: ring_inv_def s'_def)
qed

lemma deq_cas_inv:
  assumes inv: "ring_inv c s" and at: "at s t = DeqCas pos" "deq s = pos"
  shows "ring_inv c (deq_cas t pos s)"
proof -
  let ?n = "slot_count c"
  define s' where "s' = deq_cas t pos s"
  note I = ring_invD [OF inv]
  have own: "pos < enq s" "tick s pos = pos + 1" using I(4) [of t] at by auto
  have cell: "cell (place s pos) = sent s ! pos"
    using filled_okD [OF I(2), of pos] own at(2) by simp
  have s': "enq s' = enq s" "deq s' = pos + 1" "place s' p = place s p" "exact (ring_of s') = exact (ring_of s)"
    "sent s' = sent s" "reads s' = reads s" "at s' = (at s)(t := DeqRead pos)" for p
    using at by (simp_all add: s'_def deq_cas_def)
  have w: "writing (at s' u) = writing (at s u)" for u using at by (simp add: s')
  have rd: "reading (at s' u) = Some p \<longleftrightarrow> reading (at s u) = Some p \<or> u = t \<and> p = pos" for u p
    using at by (auto simp: s')
  have dr: "at s' u = DeqRead p \<longleftrightarrow> at s u = DeqRead p \<or> u = t \<and> p = pos" for u p
    using at by (auto simp: s')
  have "ring_shape c s'"
    using I(1,9) own at(2) unfolding s'_def deq_cas_def ring_shape_def by simp
  moreover have "filled_ok s'"
    using I(2) at(2) unfolding filled_ok_def s'(1-3,5) w by simp
  moreover have "free_ok ?n s'"
    unfolding free_ok_def
  proof (intro allI impI)
    fix p assume p: "enq s' \<le> p" "p < deq s' + ?n"
    show "tick s' p = p \<or> ?n \<le> p \<and> tick s' p = p - ?n + 1 \<and> (\<exists>t. reading (at s' t) = Some (p - ?n))"
    proof (cases "p = pos + ?n")
      case True
      then show ?thesis using own(2) place_lap [OF inv, of pos] rd [of t pos] by (auto simp: s'(3))
    next
      case False
      then have "enq s \<le> p" "p < deq s + ?n" using p at(2) by (auto simp: s')
      then show ?thesis using free_okD [OF I(3), of p] rd s'(3) by metis
    qed
  qed
  moreover have "thread_ok c ?n s' (at s' u)" for u
  proof (cases "u = t")
    case True
    have "pos \<notin> fst ` set (reads s)" using I(6) at(2) by (fastforce simp: reads_ok_def)
    then show ?thesis
      using True own cell I(9) at(2) slot_count_bounds(2) [of c] by (simp add: s')
  next
    case False
    have "p \<noteq> pos" if "tick s p = p" for p using that own(2) by auto
    then show ?thesis using I(4) [of u] False at(2) s' by (cases "at s u") (auto simp: le_less Suc_le_eq)
  qed
  moreover have "claims_unique s'"
  proof -
    have "\<not> reading (at s u) = Some pos" for u
      using I(4) [of u] at(2) by (cases "at s u") auto
    then show ?thesis using I(5) unfolding claims_unique_def w rd by blast
  qed
  moreover have "reads_ok s'"
    using I(6) at(2) unfolding reads_ok_def s'(2,5,6) dr by (fastforce simp: less_Suc_eq)
  ultimately show ?thesis by (simp add: ring_inv_def s'_def)
qed

lemma deq_read_inv:
  assumes inv: "ring_inv c s" and at: "at s t = DeqRead pos"
  shows "ring_inv c (deq_read t pos s)"
proof -
  let ?n = "slot_count c"
  define s' where "s' = deq_read t pos s"
  note I = ring_invD [OF inv]
  have own: "pos < deq s" "enq s \<le> pos + ?n" "tick s pos = pos + 1" "cell (place s pos) = sent s ! pos"
    "pos \<notin> fst ` set (reads s)"
    using I(4) [of t] at by auto
  have s': "ring_of s' = ring_of s" "sent s' = sent s" "reads s' = reads s @ [(pos, sent s ! pos)]"
    "at s' = (at s)(t := DeqRelease pos (sent s ! pos))"
    using own(4) by (simp_all add: s'_def deq_read_def Let_def)
  have w: "writing (at s' u) = writing (at s u)" for u using at by (simp add: s')
  have rd: "reading (at s' u) = reading (at s u)" for u using at by (simp add: s')
  have dr: "at s' u = DeqRead p \<longleftrightarrow> at s u = DeqRead p \<and> u \<noteq> t" for u p using at by (auto simp: s')
  have "ring_shape c s'" using I(1) unfolding ring_shape_def s'(1,2) .
  moreover have "filled_ok s'" using I(2) unfolding filled_ok_def s'(1,2) w .
  moreover have "free_ok ?n s'" using I(3) unfolding free_ok_def s'(1) rd .
  moreover have "thread_ok c ?n s' (at s' u)" for u
  proof (cases "u = t")
    case True
    then show ?thesis using own by (simp add: s')
  next
    case False
    have "p \<noteq> pos" if "at s u = DeqRead p" for p
      using claims_uniqueD(2) [OF I(5), of u pos t] that at False by auto
    then show ?thesis using I(4) [of u] False s' by (cases "at s u") auto
  qed
  moreover have "claims_unique s'" using I(5) unfolding claims_unique_def w rd .
  moreover have "reads_ok s'"
    unfolding reads_ok_def
  proof (intro conjI allI impI)
    show "distinct (map fst (reads s'))" using I(6) own(5) by (simp add: s' reads_ok_def)
    show "\<forall>(p, v)\<in>set (reads s'). p < deq s' \<and> v = sent s' ! p"
      using I(6) own(1) by (auto simp: s' reads_ok_def)
    fix p assume "p < deq s'"
    then show "p \<in> fst ` set (reads s') \<or> (\<exists>u. at s' u = DeqRead p)"
      using I(6) at unfolding reads_ok_def dr s'(1,3) by fastforce
  qed
  ultimately show ?thesis by (simp add: ring_inv_def s'_def)
qed

lemma deq_release_inv:
  assumes inv: "ring_inv c s" and at: "at s t = DeqRelease pos v"
  shows "ring_inv c (deq_release t pos v s)"
proof -
  let ?n = "slot_count c"
  define s' where "s' = deq_release t pos v s"
  note I = ring_invD [OF inv]
  have own: "pos < deq s" "enq s \<le> pos + ?n" "tick s pos = pos + 1" using I(4) [of t] at by auto
  have n: "mask (ring_of s) + 1 = ?n" "2 \<le> ?n"
    using I(1) slot_count_bounds(1) [of c] by (simp_all add: ring_shape_def)
  have s': "enq s' = enq s" "deq s' = deq s" "exact (ring_of s') = exact (ring_of s)"
    "sent s' = sent s" "reads s' = reads s" "at s' = (at s)(t := DeqDone (Some v))"
    by (simp_all add: s'_def deq_release_def)
  have place: "place s' p = (if p mod ?n = pos mod ?n then (place s pos)\<lparr>ticket := pos + ?n\<rparr> else place s p)" for p
    using n unfolding s'_def deq_release_def by (simp add: slot_set [OF I(1)] add.assoc)
  have cell: "cell (place s' p) = cell (place s p)" for p
    using place [of p] slot_same [OF I(1), of p pos] by auto
  have other: "tick s' p = tick s p" if "p mod ?n \<noteq> pos mod ?n" for p using that place by simp
  have lap: "tick s p = pos + 1" if "p mod ?n = pos mod ?n" for p
    using slot_same [OF I(1) that] own(3) by simp
  have window: "p = pos + ?n" if "p mod ?n = pos mod ?n" "deq s \<le> p" "p < deq s + ?n" for p
    using that own(1,2) I(8) by (intro mod_window [of p ?n _ "deq s"]) (use I(9) slot_count_bounds(2) [of c] in auto)
  have w: "writing (at s' u) = writing (at s u)" for u using at by (simp add: s')
  have rd: "reading (at s' u) = Some p \<longleftrightarrow> reading (at s u) = Some p \<and> u \<noteq> t" for u p using at by (simp add: s')
  have dr: "at s' u = DeqRead p \<longleftrightarrow> at s u = DeqRead p" for u p using at by (simp add: s')
  have keep: "tick s' p = p" if "tick s p = p" for p
    using that other [of p] lap [of p] mod_Suc_neq [OF n(2), of pos] by (cases "p mod ?n = pos mod ?n") auto
  have keep1: "tick s' p = p + 1" if "tick s p = p + 1" "p \<noteq> pos" for p
    using that other [of p] lap [of p] by (cases "p mod ?n = pos mod ?n") auto
  have "ring_shape c s'" using I(1) unfolding s'_def deq_release_def ring_shape_def by simp
  moreover have "filled_ok s'"
    using I(2) keep keep1 own(1) unfolding filled_ok_def s'(1,2,4) cell w by (metis leD)
  moreover have "free_ok ?n s'"
    unfolding free_ok_def
  proof (intro allI impI)
    fix p assume p: "enq s' \<le> p" "p < deq s' + ?n"
    show "tick s' p = p \<or> ?n \<le> p \<and> tick s' p = p - ?n + 1 \<and> (\<exists>t. reading (at s' t) = Some (p - ?n))"
    proof (cases "p mod ?n = pos mod ?n")
      case True
      then show ?thesis using window [of p] p place [of p] I(8) by (simp add: s')
    next
      case False
      then have "?n \<le> p \<Longrightarrow> p - ?n \<noteq> pos" by (auto simp: mod_if)
      moreover have "reading (at s t) = Some pos" using at by simp
      ultimately show ?thesis
        using free_okD [OF I(3), of p] p other [OF False] rd by (fastforce simp: s'(1,2))
    qed
  qed
  moreover have "thread_ok c ?n s' (at s' u)" for u
  proof (cases "u = t")
    case True
    then show ?thesis by (simp add: s')
  next
    case False
    have ne: "p \<noteq> pos" if "reading (at s u) = Some p" for p
      using claims_uniqueD(2) [OF I(5), of u pos t] that at False by auto
    show ?thesis
      using I(4) [of u] False cell keep keep1 ne own(1) by (cases "at s u") (auto simp: s')
  qed
  moreover have "claims_unique s'" using I(5) unfolding claims_unique_def w rd by blast
  moreover have "reads_ok s'" using I(6) unfolding reads_ok_def s'(2,4,5) dr .
  ultimately show ?thesis by (simp add: ring_inv_def s'_def)
qed

lemma ring_inv_advance:
  assumes inv: "ring_inv c s" and "0 < c"
  shows "ring_inv c (advance c t s)"
proof -
  note ok = ring_invD(4) [OF inv, of t]
  show ?thesis
  proof (cases "at s t")
    case (EnqTop v pos)
    then show ?thesis
      using enq_check_ok [of c _ s v pos] ok assms
      by (auto simp: advance_def enq_check_def intro!: ring_inv_goto)
  next
    case (EnqSlot v pos)
    then show ?thesis
      using enq_ticket_ok [of c _ s v pos] ok inv
      by (auto simp: advance_def enq_ticket_def Let_def intro!: ring_inv_goto)
  next
    case (DeqTop pos)
    then show ?thesis
      using deq_ticket_ok [OF inv, of "slot_count c" pos] ok inv
      by (auto simp: advance_def deq_ticket_def Let_def intro!: ring_inv_goto)
  next
    case (EnqCas v pos)
    then show ?thesis
      using enq_cas_inv [OF inv EnqCas _ \<open>0 < c\<close>] ring_inv_idle [OF inv]
      by (cases "enq s = pos") (simp_all add: advance_def, simp add: enq_cas_def)
  next
    case (DeqCas pos)
    then show ?thesis
      using deq_cas_inv [OF inv DeqCas] ring_inv_idle [OF inv]
      by (cases "deq s = pos") (simp_all add: advance_def, simp add: deq_cas_def)
  qed (use inv enq_write_inv enq_publish_inv deq_read_inv deq_release_inv ring_inv_idle [OF inv] in
      \<open>simp_all add: advance_def\<close>)
qed

lemma ring_step_inv:
  assumes "ring_inv c s" and "0 < c" and "ring_step c s s'"
  shows "ring_inv c s'"
  using assms(3)
proof cases
  case (enqueues t b w v)
  then show ?thesis using ring_inv_idle [OF assms(1), of t] by auto
next
  case (dequeues t b w)
  then show ?thesis using ring_inv_idle [OF assms(1), of t] by auto
qed (use ring_inv_advance ring_inv_idle assms in auto)

lemma ring_init_inv: "ring_start c s \<Longrightarrow> ring_inv c s"
proof -
  assume s: "ring_start c s"
  have n: "2 \<le> slot_count c" "c \<le> slot_count c" by (rule slot_count_bounds)+
  have sh: "ring_shape c s"
    using s n by (auto simp: ring_start_def ring_shape_def ring_new_def Let_def)
  have "tick s p = p" if "p < slot_count c" for p
    using that slot_index [OF sh, of p] s
    by (simp add: slot_at_def ring_start_def ring_new_def Let_def)
  then show ?thesis
    using s sh by (simp add: ring_inv_def ring_start_def filled_ok_def free_ok_def claims_unique_def
        reads_ok_def ring_new_def Let_def)
qed

interpretation ring: inductive_invariant "ring_start (Suc c)" "ring_step (Suc c)" "ring_inv (Suc c)" for c
  by unfold_locales (use ring_init_inv ring_step_inv in blast)+

lemma ring_reachable_inv: "reachable (ring_start c) (ring_step c) s \<Longrightarrow> 0 < c \<Longrightarrow> ring_inv c s"
  using ring.invariant [of "c - 1" s] by simp

definition contents :: "ring_sys \<Rightarrow> int list" where
  "contents s = drop (deq s) (sent s)"

subsection \<open>What the ring guarantees\<close>

text \<open>
  C2. Values leave the ring in the order of their tickets, once each: no position is read twice,
  the value read for a position is the value its sender claimed it for, every position below
  \<open>dequeue_pos\<close> has been read or is about to be read by the receiver that claimed it, and the
  ring never holds more than the capacity the program asked for.
\<close>

theorem ring_delivers_once_in_order:
  assumes "reachable (ring_start c) (ring_step c) s" and "0 < c"
  shows "distinct (map fst (reads s)) \<and>
    list_all (\<lambda>(p, v). p < deq s \<and> v = sent s ! p) (reads s) \<and>
    {..<deq s} = fst ` set (reads s) \<union> {p. \<exists>t. at s t = DeqRead p} \<and>
    length (contents s) \<le> c \<and> length (contents s) = ring_len (ring_of s)"
proof -
  note I = ring_invD [OF ring_reachable_inv [OF assms]]
  have "p < deq s" if "at s t = DeqRead p" for t p
    using I(4) [of t] that by simp
  then have "{..<deq s} = fst ` set (reads s) \<union> {p. \<exists>t. at s t = DeqRead p}"
    using I(6) unfolding reads_ok_def by fastforce
  then show ?thesis
    using I(6-9) by (auto simp: reads_ok_def list_all_iff contents_def ring_len_def)
qed

text \<open>The bounded queue that the ring implements, and the step a ring step is in it.\<close>

datatype queue_event = Quiet | Append int | Remove int

fun queue_step :: "nat \<Rightarrow> int list \<Rightarrow> queue_event \<Rightarrow> int list \<Rightarrow> bool" where
  "queue_step c q Quiet q' \<longleftrightarrow> q' = q"
| "queue_step c q (Append v) q' \<longleftrightarrow> length q < c \<and> q' = q @ [v]"
| "queue_step c q (Remove v) q' \<longleftrightarrow> q = v # q'"

text \<open>The event of the next access of thread \<open>t\<close>: only a compare-exchange that wins is one, and
  the receiver that wins it holds the ticket of the value removed.\<close>

definition event_of :: "nat \<Rightarrow> ring_sys \<Rightarrow> queue_event" where
  "event_of t s =
     (case at s t of
        EnqCas v pos \<Rightarrow> if enq s = pos then Append v else Quiet
      | DeqCas pos \<Rightarrow> if deq s = pos then Remove (sent s ! pos) else Quiet
      | _ \<Rightarrow> Quiet)"

text \<open>
  C3. The ring implements a bounded first-in first-out queue: in every reachable state the next
  access of any thread is a step of the queue on the contents, an append when it wins the
  enqueue position and the removal of the front when it wins the dequeue position, whatever
  the other threads are in the middle of.
\<close>

theorem ring_implements_bounded_queue:
  assumes "reachable (ring_start c) (ring_step c) s" and "0 < c"
  shows "queue_step c (contents s) (event_of t s) (contents (advance c t s))"
proof -
  note inv = ring_reachable_inv [OF assms]
  note I = ring_invD [OF inv]
  have room: "length (contents s) < c" if "at s t = EnqCas v (enq s)" for v
    using enq_room [OF inv that refl \<open>0 < c\<close>] I(7,8) by (auto simp: contents_def)
  have front: "contents s = sent s ! deq s # drop (Suc (deq s)) (sent s)" if "at s t = DeqCas (deq s)"
    using I(4) [of t] that I(7) by (simp add: contents_def Cons_nth_drop_Suc)
  show ?thesis
    using room front I(7,8)
    by (cases "at s t")
      (auto simp: event_of_def advance_def contents_def enq_cas_def deq_cas_def enq_write_def
        enq_publish_def deq_read_def deq_release_def Let_def)
qed

definition idle :: "ring_pc \<Rightarrow> bool" where
  "idle p \<longleftrightarrow> (case p of Rest \<Rightarrow> True | EnqDone _ \<Rightarrow> True | DeqDone _ \<Rightarrow> True | _ \<Rightarrow> False)"

lemma idle_claims: "idle p \<Longrightarrow> writing p = None \<and> reading p = None"
  by (cases p) (auto simp: idle_def)

lemma quiet_ring:
  assumes inv: "ring_inv c s" and "\<forall>u. idle (at s u)"
  shows "deq s \<le> p \<Longrightarrow> p < enq s \<Longrightarrow> tick s p = p + 1 \<and> cell (place s p) = sent s ! p"
    and "enq s \<le> p \<Longrightarrow> p < deq s + slot_count c \<Longrightarrow> tick s p = p"
  using filled_okD [OF ring_invD(2) [OF inv], of p] free_okD [OF ring_invD(3) [OF inv], of p]
    assms(2) idle_claims by (metis option.distinct(1))+

lemma advance_at:
  "at (goto t p s) t = p" "ring_of (goto t p s) = ring_of s" "sent (goto t p s) = sent s"
  by simp_all

lemma advance_done:
  "at s t = EnqDone b \<Longrightarrow> advance c t s = s" "at s t = DeqDone w \<Longrightarrow> advance c t s = s"
  by (simp_all add: advance_def)

lemma six_steps: "(f ^^ 6) x = f (f (f (f (f (f x)))))"
  by (simp add: numeral_eq_Suc)

lemma quiet_enqueue:
  fixes c t :: nat and v :: int and s :: ring_sys
  assumes inv: "ring_inv c s" and quiet: "\<forall>u. idle (at s u)" and "0 < c"
  defines "s1 \<equiv> (advance c t ^^ 6) (goto t (EnqLoad v) s)"
  shows "at s1 t = EnqDone (length (contents s) < c) \<and>
    contents s1 = (if length (contents s) < c then contents s @ [v] else contents s)"
proof -
  note I = ring_invD [OF inv]
  have n: "2 \<le> slot_count c" "c \<le> slot_count c" by (rule slot_count_bounds)+
  have len: "length (contents s) = enq s - deq s" using I(7) by (simp add: contents_def)
  have load: "advance c t (goto t (EnqLoad v) s) = goto t (EnqTop v (enq s)) s"
    by (simp add: advance_def)
  have check: "advance c t (goto t (EnqTop v (enq s)) s) = goto t (enq_check c v (enq s) (ring_of s)) s"
    by (simp add: advance_def)
  have ticket: "advance c t (goto t (EnqSlot v (enq s)) s) = goto t (enq_ticket v (enq s) (ring_of s)) s"
    by (simp add: advance_def)
  show ?thesis
  proof (cases "enq s - deq s < c")
    case True
    have "tick s (enq s) = enq s" using quiet_ring(2) [OF inv quiet, of "enq s"] True n I(8) by simp
    then have "enq_ticket v (enq s) (ring_of s) = EnqCas v (enq s)" by (simp add: enq_ticket_def)
    moreover have "enq_check c v (enq s) (ring_of s) = EnqSlot v (enq s)" using True by (simp add: enq_check_def)
    ultimately have s1: "s1 = advance c t (advance c t (advance c t (goto t (EnqCas v (enq s)) s)))"
      unfolding s1_def six_steps load check by (simp add: ticket del: fun_upd_apply)
    show ?thesis unfolding s1
      using True len I(7,8)
      by (simp add: advance_def enq_cas_def enq_write_def enq_publish_def contents_def)
  next
    case False
    then have full: "enq s = deq s + c" using I(8,9) by linarith
    have "enq_check c v (enq s) (ring_of s) = EnqDone False \<or>
        enq_check c v (enq s) (ring_of s) = EnqSlot v (enq s) \<and> enq_ticket v (enq s) (ring_of s) = EnqDone False"
    proof (cases "exact (ring_of s)")
      case True
      then have "c = slot_count c" using I(1) by (simp add: ring_shape_def)
      then have "tick s (enq s) = tick s (deq s)" using place_lap [OF inv, of "deq s"] full by simp
      moreover have "tick s (deq s) = deq s + 1" using quiet_ring(1) [OF inv quiet, of "deq s"] full \<open>0 < c\<close> by simp
      ultimately show ?thesis
        using True full \<open>c = slot_count c\<close> n(1) by (simp add: enq_check_def enq_ticket_def)
    next
      case False
      then show ?thesis using full by (simp add: enq_check_def)
    qed
    then have "s1 = goto t (EnqDone False) s"
      unfolding s1_def six_steps load check
      by (elim disjE conjE) (simp_all only: ticket advance_done(1) [OF advance_at(1)])
    then show ?thesis using False len by (simp add: contents_def)
  qed
qed

lemma quiet_dequeue:
  fixes c t :: nat and s :: ring_sys
  assumes inv: "ring_inv c s" and quiet: "\<forall>u. idle (at s u)" and "0 < c"
  defines "s2 \<equiv> (advance c t ^^ 6) (goto t DeqLoad s)"
  shows "at s2 t = DeqDone (case contents s of [] \<Rightarrow> None | x # xs \<Rightarrow> Some x) \<and> contents s2 = tl (contents s)"
proof -
  note I = ring_invD [OF inv]
  have n: "2 \<le> slot_count c" "c \<le> slot_count c" by (rule slot_count_bounds)+
  have load: "advance c t (goto t DeqLoad s) = goto t (DeqTop (deq s)) s"
    by (simp add: advance_def)
  have ticket: "advance c t (goto t (DeqTop (deq s)) s) = goto t (deq_ticket (deq s) (ring_of s)) s"
    by (simp add: advance_def)
  show ?thesis
  proof (cases "deq s < enq s")
    case True
    have front: "contents s = sent s ! deq s # drop (Suc (deq s)) (sent s)"
      using True I(7) by (simp add: contents_def Cons_nth_drop_Suc)
    have full: "tick s (deq s) = deq s + 1" "cell (place s (deq s)) = sent s ! deq s"
      using quiet_ring(1) [OF inv quiet, of "deq s"] True by auto
    then have "deq_ticket (deq s) (ring_of s) = DeqCas (deq s)" by (simp add: deq_ticket_def)
    then have s2: "s2 = advance c t (advance c t (advance c t (advance c t (goto t (DeqCas (deq s)) s))))"
      unfolding s2_def six_steps load by (simp add: ticket del: fun_upd_apply)
    show ?thesis unfolding s2 front
      using full by (simp add: advance_def deq_cas_def deq_read_def deq_release_def contents_def slot_at_def Let_def)
  next
    case False
    then have "contents s = []" "enq s = deq s" using I(7,8) by (auto simp: contents_def)
    moreover have "tick s (deq s) = deq s"
      using quiet_ring(2) [OF inv quiet, of "deq s"] False n I(8) by simp
    ultimately have "s2 = goto t (DeqDone None) s"
      unfolding s2_def six_steps load ticket
      by (simp add: deq_ticket_def advance_done(2) [OF advance_at(1)] del: fun_upd_apply)
    then show ?thesis using \<open>contents s = []\<close> by (simp add: contents_def)
  qed
qed

text \<open>
  With no other operation in flight, \<open>try_enqueue\<close> answers true exactly when fewer than
  \<open>capacity\<close> values are queued, and then the value is at the back; \<open>try_dequeue\<close> answers the
  value at the front and removes it, or nothing when the ring is empty. Both finish within six
  accesses.
\<close>

theorem quiet_ring_is_a_queue:
  fixes c t :: nat and v :: int and s :: ring_sys
  assumes "reachable (ring_start c) (ring_step c) s" and "0 < c" and "\<forall>u. idle (at s u)"
  defines "s1 \<equiv> (advance c t ^^ 6) (goto t (EnqLoad v) s)"
    and "s2 \<equiv> (advance c t ^^ 6) (goto t DeqLoad s)"
  shows "at s1 t = EnqDone (length (contents s) < c) \<and>
    contents s1 = (if length (contents s) < c then contents s @ [v] else contents s) \<and>
    at s2 t = DeqDone (case contents s of [] \<Rightarrow> None | x # xs \<Rightarrow> Some x) \<and>
    contents s2 = tl (contents s)"
  using quiet_enqueue [OF ring_reachable_inv [OF assms(1,2)] assms(3,2)]
    quiet_dequeue [OF ring_reachable_inv [OF assms(1,2)] assms(3,2)]
  unfolding s1_def s2_def by blast

text \<open>A ring of capacity three that two senders and a receiver share.\<close>

definition ring_begin :: "nat \<Rightarrow> ring_sys" where
  "ring_begin c = \<lparr>ring_of = ring_new c, at = (\<lambda>_. Rest), sent = [], reads = []\<rparr>"

lemma ring_begin_reachable: "reachable (ring_start c) (ring_step c) (ring_begin c)"
  by (simp add: reachable_init ring_start_def ring_begin_def)

lemma reachable_advance:
  "reachable (ring_start c) (ring_step c) s \<Longrightarrow> reachable (ring_start c) (ring_step c) ((advance c t ^^ k) s)"
  by (induction k) (auto intro: reachable_step ring_step.advances)

lemma reachable_enqueue:
  "reachable (ring_start c) (ring_step c) s \<Longrightarrow> at s t = Rest \<Longrightarrow>
     reachable (ring_start c) (ring_step c) (goto t (EnqLoad v) s)"
  by (rule reachable_step, assumption, rule ring_step.enqueues) simp

definition sent_once :: ring_sys where
  "sent_once = (advance 3 0 ^^ 6) (goto 0 (EnqLoad 7) (ring_begin 3))"

lemma sent_once_reachable: "reachable (ring_start 3) (ring_step 3) sent_once"
  unfolding sent_once_def
  by (intro reachable_advance reachable_enqueue ring_begin_reachable) (simp add: ring_begin_def)

theorem ring_delivers_once_in_order_witness: "length (contents sent_once) \<le> 3"
  using ring_delivers_once_in_order [OF sent_once_reachable] by simp

theorem ring_implements_bounded_queue_witness:
  "queue_step 3 (contents sent_once) (event_of 1 sent_once) (contents (advance 3 1 sent_once))"
  by (rule ring_implements_bounded_queue [OF sent_once_reachable]) simp

theorem quiet_ring_is_a_queue_witness:
  "at ((advance 3 0 ^^ 6) (goto 0 (EnqLoad 7) (ring_begin 3))) 0 = EnqDone True"
  using quiet_ring_is_a_queue [OF ring_begin_reachable [of 3], where t = 0 and v = 7]
  by (simp add: ring_begin_def idle_def contents_def)

end
