(* ===== verification/Rendezvous.thy ===== *)
theory Rendezvous
  imports Steps
begin

text \<open>
  The unbuffered channel of \<open>concurrency/channel.rs\<close>: a rendezvous carried under the channel
  mutex. Each step is one critical section, from taking the lock to returning or blocking. A
  blocked caller is parked in its role until a wake moves it on; \<open>wake_senders\<close> and
  \<open>wake_receivers\<close> wake every parked caller of the role, an os thread by the broadcast of
  \<open>notify_role\<close> at capacity zero, a green task by draining its list. A stray wake may move any
  parked caller at any time.
\<close>

subsection \<open>The state\<close>

datatype rdv_pc =
    Away
  | SendParked int          \<comment> \<open>waiting for a receiver\<close>
  | SendWoken int
  | DepParked int nat       \<comment> \<open>deposited at this count of deliveries, waiting for the take\<close>
  | DepWoken int nat
  | RecvParked
  | RecvWoken
  | Answered int
  | Received "int option"

text \<open>\<open>owner\<close> and \<open>handed\<close> are history: who deposited the pending value (nobody waits for a
  \<open>try_send\<close>), and the deposits taken so far in order.\<close>

record rdv =
  closed :: bool
  pending_value :: "int option"
  deliveries :: nat
  receiver_waiting :: nat
  sender_waiting :: nat
  at :: "nat \<Rightarrow> rdv_pc"
  owner :: "nat option"
  handed :: "(nat option \<times> int) list"

definition rdv_start :: "rdv \<Rightarrow> bool" where
  "rdv_start s \<longleftrightarrow>
     s = \<lparr>closed = False, pending_value = None, deliveries = 0, receiver_waiting = 0,
          sender_waiting = 0, at = (\<lambda>_. Away), owner = None, handed = []\<rparr>"

fun wake_sender :: "rdv_pc \<Rightarrow> rdv_pc" where
  "wake_sender (SendParked v) = SendWoken v"
| "wake_sender (DepParked v h) = DepWoken v h"
| "wake_sender p = p"

fun wake_receiver :: "rdv_pc \<Rightarrow> rdv_pc" where
  "wake_receiver RecvParked = RecvWoken"
| "wake_receiver p = p"

definition wake_senders :: "rdv \<Rightarrow> rdv" where
  "wake_senders s = s\<lparr>at := wake_sender \<circ> at s\<rparr>"

definition wake_receivers :: "rdv \<Rightarrow> rdv" where
  "wake_receivers s = s\<lparr>at := wake_receiver \<circ> at s\<rparr>"

abbreviation goto :: "nat \<Rightarrow> rdv_pc \<Rightarrow> rdv \<Rightarrow> rdv" where
  "goto t p s \<equiv> s\<lparr>at := (at s)(t := p)\<rparr>"

subsection \<open>The operations\<close>

definition deposit :: "nat option \<Rightarrow> int \<Rightarrow> rdv \<Rightarrow> rdv" where
  "deposit who v s = wake_receivers (s\<lparr>pending_value := Some v, owner := who\<rparr>)"

text \<open>One round of the loop of \<open>pith_channel_send\<close>, up to the next block or the return.\<close>

definition send_pass :: "nat \<Rightarrow> int \<Rightarrow> rdv \<Rightarrow> rdv" where
  "send_pass t v s =
     (if closed s then goto t (Answered 0) s
      else if 0 < receiver_waiting s \<and> pending_value s = None then
        (let handoffs_before = deliveries s; s' = deposit (Some t) v s in
         goto t (DepParked v handoffs_before) (s'\<lparr>sender_waiting := sender_waiting s' + 1\<rparr>))
      else goto t (SendParked v) (s\<lparr>sender_waiting := sender_waiting s + 1\<rparr>))"

definition send_resume :: "nat \<Rightarrow> int \<Rightarrow> rdv \<Rightarrow> rdv" where
  "send_resume t v s = send_pass t v (s\<lparr>sender_waiting := sender_waiting s - 1\<rparr>)"

definition deposit_resume :: "nat \<Rightarrow> int \<Rightarrow> nat \<Rightarrow> rdv \<Rightarrow> rdv" where
  "deposit_resume t v handoffs_before s =
     (if \<not> closed s \<and> pending_value s \<noteq> None then goto t (DepParked v handoffs_before) s
      else goto t (Answered (if deliveries s \<noteq> handoffs_before then 1 else 0))
             (s\<lparr>sender_waiting := sender_waiting s - 1\<rparr>))"

definition take_pending :: "int \<Rightarrow> rdv \<Rightarrow> rdv" where
  "take_pending v s =
     wake_senders (s\<lparr>pending_value := None, deliveries := deliveries s + 1,
                     handed := handed s @ [(owner s, v)]\<rparr>)"

definition recv_pass :: "nat \<Rightarrow> rdv \<Rightarrow> rdv" where
  "recv_pass t s =
     (case pending_value s of
        Some v \<Rightarrow> goto t (Received (Some v)) (take_pending v s)
      | None \<Rightarrow>
          if closed s then goto t (Received None) s
          else goto t RecvParked (wake_senders (s\<lparr>receiver_waiting := receiver_waiting s + 1\<rparr>)))"

definition recv_resume :: "nat \<Rightarrow> rdv \<Rightarrow> rdv" where
  "recv_resume t s = recv_pass t (s\<lparr>receiver_waiting := receiver_waiting s - 1\<rparr>)"

definition pith_channel_try_send :: "nat \<Rightarrow> int \<Rightarrow> rdv \<Rightarrow> rdv" where
  "pith_channel_try_send t v s =
     (if closed s then goto t (Answered 0) s
      else if receiver_waiting s = 0 \<or> pending_value s \<noteq> None then goto t (Answered 0) s
      else goto t (Answered 1) (deposit None v s))"

definition channel_try_recv :: "nat \<Rightarrow> rdv \<Rightarrow> rdv" where
  "channel_try_recv t s =
     (case pending_value s of
        Some v \<Rightarrow> goto t (Received (Some v)) (take_pending v s)
      | None \<Rightarrow> goto t (Received None) s)"

definition pith_channel_close :: "nat \<Rightarrow> rdv \<Rightarrow> rdv" where
  "pith_channel_close t s =
     (if closed s then goto t (Answered 0) s
      else goto t (Answered 1)
             (wake_receivers (wake_senders (s\<lparr>closed := True, pending_value := None\<rparr>))))"

definition pith_channel_len :: "rdv \<Rightarrow> int" where
  "pith_channel_len s = (if pending_value s \<noteq> None then 1 else 0)"

definition outside :: "rdv_pc \<Rightarrow> bool" where
  "outside p \<longleftrightarrow> (case p of Away \<Rightarrow> True | Answered _ \<Rightarrow> True | Received _ \<Rightarrow> True | _ \<Rightarrow> False)"

inductive rdv_step :: "rdv \<Rightarrow> rdv \<Rightarrow> bool" where
  sends: "outside (at s t) \<Longrightarrow> rdv_step s (send_pass t v s)"
| send_resumes: "at s t = SendWoken v \<Longrightarrow> rdv_step s (send_resume t v s)"
| deposit_resumes: "at s t = DepWoken v h \<Longrightarrow> rdv_step s (deposit_resume t v h s)"
| recvs: "outside (at s t) \<Longrightarrow> rdv_step s (recv_pass t s)"
| recv_resumes: "at s t = RecvWoken \<Longrightarrow> rdv_step s (recv_resume t s)"
| try_sends: "outside (at s t) \<Longrightarrow> rdv_step s (pith_channel_try_send t v s)"
| try_recvs: "outside (at s t) \<Longrightarrow> rdv_step s (channel_try_recv t s)"
| closes: "outside (at s t) \<Longrightarrow> rdv_step s (pith_channel_close t s)"
| strays: "rdv_step s (goto t (wake_receiver (wake_sender (at s t))) s)"

inductive_cases rdv_step_cases: "rdv_step s s'"

subsection \<open>The invariants\<close>

text \<open>The counters count: \<open>deliveries\<close> the values handed, \<open>receiver_waiting\<close> the receivers that
  blocked and have not run since. Finitely many callers wait, so this is a cardinality.\<close>

definition in_recv :: "(nat \<Rightarrow> rdv_pc) \<Rightarrow> nat set" where
  "in_recv f = {t. f t = RecvParked \<or> f t = RecvWoken}"

definition counts_ok :: "rdv \<Rightarrow> bool" where
  "counts_ok s \<longleftrightarrow> deliveries s = length (handed s) \<and> finite (in_recv (at s)) \<and>
     receiver_waiting s = card (in_recv (at s)) \<and> (closed s \<longrightarrow> pending_value s = None)"

definition deposits_ok :: "rdv \<Rightarrow> bool" where
  "deposits_ok s \<longleftrightarrow>
     (\<forall>t v h. at s t = DepParked v h \<or> at s t = DepWoken v h \<longrightarrow>
        h \<le> length (handed s) \<and>
        (if h = length (handed s) then closed s \<or> pending_value s = Some v \<and> owner s = Some t
         else handed s ! h = (Some t, v)))"

definition waits_ok :: "rdv \<Rightarrow> bool" where
  "waits_ok s \<longleftrightarrow>
     (pending_value s \<noteq> None \<longrightarrow> (\<forall>t. at s t \<noteq> RecvParked) \<and> 0 < receiver_waiting s) \<and>
     (\<forall>t v. at s t = SendParked v \<longrightarrow> receiver_waiting s = 0 \<or> pending_value s \<noteq> None) \<and>
     (\<forall>t v h. at s t = DepParked v h \<longrightarrow> pending_value s \<noteq> None) \<and>
     (closed s \<longrightarrow> (\<forall>t v. at s t \<noteq> SendParked v \<and> at s t \<noteq> RecvParked))"

subsection \<open>Preservation\<close>

lemma wake_simps [simp]:
  "wake_sender p = SendParked v \<longleftrightarrow> False" "wake_sender p = DepParked v h \<longleftrightarrow> False"
  "wake_sender p = DepWoken v h \<longleftrightarrow> p = DepParked v h \<or> p = DepWoken v h"
  "wake_sender p = RecvParked \<longleftrightarrow> p = RecvParked" "wake_sender p = RecvWoken \<longleftrightarrow> p = RecvWoken"
  "wake_receiver p = RecvParked \<longleftrightarrow> False" "wake_receiver p = RecvWoken \<longleftrightarrow> p = RecvParked \<or> p = RecvWoken"
  "wake_receiver p = SendParked v \<longleftrightarrow> p = SendParked v" "wake_receiver p = DepParked v h \<longleftrightarrow> p = DepParked v h"
  "wake_receiver p = DepWoken v h \<longleftrightarrow> p = DepWoken v h"
  by (cases p; auto)+

lemma in_recv_wake [simp]: "in_recv (wake_sender \<circ> f) = in_recv f" "in_recv (wake_receiver \<circ> f) = in_recv f"
  by (auto simp: in_recv_def)

lemma in_recv_upd [simp]:
  "in_recv (f(t := p)) = (if p = RecvParked \<or> p = RecvWoken then insert t (in_recv f) else in_recv f - {t})"
  by (auto simp: in_recv_def)

lemma wake_sel [simp]:
  "closed (wake_senders s) = closed s" "pending_value (wake_senders s) = pending_value s"
  "deliveries (wake_senders s) = deliveries s" "receiver_waiting (wake_senders s) = receiver_waiting s"
  "sender_waiting (wake_senders s) = sender_waiting s" "owner (wake_senders s) = owner s"
  "handed (wake_senders s) = handed s" "at (wake_senders s) = wake_sender \<circ> at s"
  "closed (wake_receivers s) = closed s" "pending_value (wake_receivers s) = pending_value s"
  "deliveries (wake_receivers s) = deliveries s" "receiver_waiting (wake_receivers s) = receiver_waiting s"
  "sender_waiting (wake_receivers s) = sender_waiting s" "owner (wake_receivers s) = owner s"
  "handed (wake_receivers s) = handed s" "at (wake_receivers s) = wake_receiver \<circ> at s"
  by (simp_all add: wake_senders_def wake_receivers_def)

lemma outside_not: "outside p \<Longrightarrow> p \<noteq> RecvParked \<and> p \<noteq> RecvWoken"
  by (cases p) (auto simp: outside_def)

lemmas rdv_defs = send_pass_def send_resume_def deposit_resume_def recv_pass_def recv_resume_def
  pith_channel_try_send_def channel_try_recv_def pith_channel_close_def deposit_def take_pending_def

lemma in_recv_out: "outside (at s t) \<Longrightarrow> t \<notin> in_recv (at s)"
  by (auto simp: in_recv_def dest: outside_not)

lemma in_recv_minus: "outside (at s t) \<Longrightarrow> in_recv (at s) - {t} = in_recv (at s)"
  by (simp add: in_recv_out)

lemma counts_step: "rdv_step s s' \<Longrightarrow> counts_ok s \<Longrightarrow> counts_ok s'"
proof (induction rule: rdv_step.induct)
  case (recv_resumes s t)
  have "t \<in> in_recv (at s)" using recv_resumes(1) by (simp add: in_recv_def)
  then have "0 < card (in_recv (at s))" "insert t (in_recv (at s)) = in_recv (at s)"
    using recv_resumes(2) by (auto simp: counts_ok_def card_gt_0_iff)
  then show ?case
    using recv_resumes \<open>t \<in> in_recv (at s)\<close>
    by (auto simp: counts_ok_def rdv_defs card_Diff_singleton split: option.splits)
next
  case (recvs s t)
  then show ?case
    using in_recv_out [OF recvs(1)]
    by (auto simp: counts_ok_def rdv_defs split: option.splits)
next
  case (strays s t)
  have "in_recv ((at s)(t := wake_receiver (wake_sender (at s t)))) = in_recv (at s)"
    by (auto simp: in_recv_def split: if_splits)
  then show ?case using strays by (simp add: counts_ok_def del: in_recv_upd)
next
  case (send_resumes s t v)
  then have "t \<notin> in_recv (at s)" by (simp add: in_recv_def)
  then show ?case
    using send_resumes by (auto simp: counts_ok_def rdv_defs Let_def split: option.splits)
next
  case (deposit_resumes s t v h)
  then have "t \<notin> in_recv (at s)" by (simp add: in_recv_def)
  then show ?case
    using deposit_resumes by (auto simp: counts_ok_def rdv_defs Let_def split: option.splits)
qed (auto simp: counts_ok_def rdv_defs Let_def in_recv_minus split: option.splits)

lemma waits_step: "rdv_step s s' \<Longrightarrow> counts_ok s \<Longrightarrow> waits_ok s \<Longrightarrow> waits_ok s'"
proof (induction rule: rdv_step.induct)
  case (sends s t v)
  then show ?case by (auto simp: waits_ok_def rdv_defs Let_def)
next
  case (send_resumes s t v)
  then show ?case by (auto simp: waits_ok_def rdv_defs Let_def)
next
  case (deposit_resumes s t v h)
  then show ?case by (auto simp: waits_ok_def rdv_defs Let_def)
next
  case (recvs s t)
  then show ?case by (cases "pending_value s") (auto simp: waits_ok_def rdv_defs Let_def)
next
  case (recv_resumes s t)
  then show ?case by (cases "pending_value s") (auto simp: waits_ok_def rdv_defs Let_def)
next
  case (try_sends s t v)
  then show ?case by (auto simp: waits_ok_def rdv_defs Let_def)
next
  case (try_recvs s t)
  then show ?case by (cases "pending_value s") (auto simp: waits_ok_def rdv_defs Let_def)
next
  case (closes s t)
  then show ?case by (auto simp: waits_ok_def rdv_defs Let_def)
next
  case (strays s t)
  then show ?case by (auto simp: waits_ok_def rdv_defs Let_def)
qed

lemma deposits_okD:
  "deposits_ok s \<Longrightarrow> at s t = DepParked v h \<or> at s t = DepWoken v h \<Longrightarrow>
     h \<le> length (handed s) \<and>
     (if h = length (handed s) then closed s \<or> pending_value s = Some v \<and> owner s = Some t
      else handed s ! h = (Some t, v))"
  unfolding deposits_ok_def by blast

text \<open>A step that only moves callers keeps the deposits, as long as no caller gets one.\<close>

lemma deposits_ok_move:
  assumes "deposits_ok s" and "handed s' = handed s" and "closed s \<longrightarrow> closed s'"
    and "closed s' \<or> pending_value s' = pending_value s \<and> owner s' = owner s"
    and "\<And>t v h. at s' t = DepParked v h \<or> at s' t = DepWoken v h \<Longrightarrow> at s t = DepParked v h \<or> at s t = DepWoken v h"
  shows "deposits_ok s'"
  unfolding deposits_ok_def
proof (intro allI impI)
  fix t v h assume "at s' t = DepParked v h \<or> at s' t = DepWoken v h"
  then show "h \<le> length (handed s') \<and>
      (if h = length (handed s') then closed s' \<or> pending_value s' = Some v \<and> owner s' = Some t
       else handed s' ! h = (Some t, v))"
    using assms(2-4) deposits_okD [OF assms(1) assms(5)] by metis
qed

lemma deposits_ok_deposit:
  assumes "deposits_ok s" and "counts_ok s" and "pending_value s = None" and "\<not> closed s"
    and "handed s' = handed s" and "pending_value s' = Some v" and "owner s' = who"
    and new: "\<And>t w h. at s' t = DepParked w h \<or> at s' t = DepWoken w h \<Longrightarrow>
      (at s t = DepParked w h \<or> at s t = DepWoken w h) \<or> who = Some t \<and> w = v \<and> h = deliveries s"
  shows "deposits_ok s'"
  unfolding deposits_ok_def
proof (intro allI impI)
  fix t w h assume "at s' t = DepParked w h \<or> at s' t = DepWoken w h"
  then have "(at s t = DepParked w h \<or> at s t = DepWoken w h) \<or> who = Some t \<and> w = v \<and> h = deliveries s"
    by (rule new)
  then show "h \<le> length (handed s') \<and>
      (if h = length (handed s') then closed s' \<or> pending_value s' = Some w \<and> owner s' = Some t
       else handed s' ! h = (Some t, w))"
    using assms(2-7) deposits_okD [OF assms(1), of t w h] by (auto simp: counts_ok_def split: if_splits)
qed

lemma deposits_ok_take:
  assumes "deposits_ok s" and "counts_ok s" and "pending_value s = Some v"
    and "handed s' = handed s @ [(owner s, v)]"
    and new: "\<And>t w h. at s' t = DepParked w h \<or> at s' t = DepWoken w h \<Longrightarrow> at s t = DepParked w h \<or> at s t = DepWoken w h"
  shows "deposits_ok s'"
  unfolding deposits_ok_def
proof (intro allI impI)
  fix t w h assume "at s' t = DepParked w h \<or> at s' t = DepWoken w h"
  then have "at s t = DepParked w h \<or> at s t = DepWoken w h" by (rule new)
  then show "h \<le> length (handed s') \<and>
      (if h = length (handed s') then closed s' \<or> pending_value s' = Some w \<and> owner s' = Some t
       else handed s' ! h = (Some t, w))"
    using assms(2-4) deposits_okD [OF assms(1), of t w h]
    by (auto simp: counts_ok_def nth_append split: if_splits)
qed

lemma send_pass_deposits:
  assumes d: "deposits_ok s" and c: "counts_ok s"
  shows "deposits_ok (send_pass t v s)"
proof (cases "\<not> closed s \<and> 0 < receiver_waiting s \<and> pending_value s = None")
  case True
  show ?thesis
    by (rule deposits_ok_deposit [OF d c, where v = v and who = "Some t"])
      (use True in \<open>auto simp: rdv_defs Let_def split: if_splits\<close>)
next
  case False
  show ?thesis
    by (rule deposits_ok_move [OF d]) (use False in \<open>auto simp: rdv_defs Let_def split: if_splits\<close>)
qed

lemma recv_pass_deposits:
  assumes d: "deposits_ok s" and c: "counts_ok s"
  shows "deposits_ok (recv_pass t s)"
proof (cases "pending_value s")
  case (Some v)
  show ?thesis
    by (rule deposits_ok_take [OF d c Some]) (use Some in \<open>auto simp: rdv_defs split: if_splits\<close>)
next
  case None
  show ?thesis
    by (rule deposits_ok_move [OF d]) (use None in \<open>auto simp: rdv_defs split: if_splits\<close>)
qed

lemma deposits_step: "rdv_step s s' \<Longrightarrow> counts_ok s \<Longrightarrow> deposits_ok s \<Longrightarrow> deposits_ok s'"
proof (induction rule: rdv_step.induct)
  case (sends s t v)
  then show ?case by (intro send_pass_deposits)
next
  case (recvs s t)
  then show ?case by (intro recv_pass_deposits)
next
  case (send_resumes s t v)
  show ?case
  proof (cases "\<not> closed s \<and> 0 < receiver_waiting s \<and> pending_value s = None")
    case True
    show ?thesis
      by (rule deposits_ok_deposit [OF send_resumes(3,2), where v = v and who = "Some t"])
        (use True in \<open>auto simp: rdv_defs Let_def split: if_splits\<close>)
  next
    case False
    show ?thesis
      by (rule deposits_ok_move [OF send_resumes(3)])
        (use False in \<open>auto simp: rdv_defs Let_def split: if_splits\<close>)
  qed
next
  case (recv_resumes s t)
  show ?case
  proof (cases "pending_value s")
    case (Some v)
    show ?thesis
      by (rule deposits_ok_take [OF recv_resumes(3,2) Some]) (use Some in \<open>auto simp: rdv_defs split: if_splits\<close>)
  next
    case None
    show ?thesis
      by (rule deposits_ok_move [OF recv_resumes(3)]) (use None in \<open>auto simp: rdv_defs split: if_splits\<close>)
  qed
next
  case (deposit_resumes s t v h)
  show ?case
    by (rule deposits_ok_move [OF deposit_resumes(3)])
      (use deposit_resumes in \<open>auto simp: rdv_defs split: if_splits\<close>)
next
  case (try_sends s t v)
  show ?case
  proof (cases "\<not> closed s \<and> receiver_waiting s \<noteq> 0 \<and> pending_value s = None")
    case True
    show ?thesis
      by (rule deposits_ok_deposit [OF try_sends(3,2), where v = v and who = None])
        (use True in \<open>auto simp: rdv_defs split: if_splits\<close>)
  next
    case False
    show ?thesis
      by (rule deposits_ok_move [OF try_sends(3)]) (use False in \<open>auto simp: rdv_defs split: if_splits\<close>)
  qed
next
  case (try_recvs s t)
  show ?case
  proof (cases "pending_value s")
    case (Some v)
    show ?thesis
      by (rule deposits_ok_take [OF try_recvs(3,2) Some]) (use Some in \<open>auto simp: rdv_defs split: if_splits\<close>)
  next
    case None
    show ?thesis
      by (rule deposits_ok_move [OF try_recvs(3)]) (use None in \<open>auto simp: rdv_defs split: if_splits\<close>)
  qed
next
  case (closes s t)
  show ?case
    by (rule deposits_ok_move [OF closes(3)]) (auto simp: rdv_defs split: if_splits)
next
  case (strays s t)
  show ?case
    by (rule deposits_ok_move [OF strays(2)]) (auto split: if_splits)
qed

interpretation rdv: inductive_invariant rdv_start rdv_step "\<lambda>s. counts_ok s \<and> deposits_ok s \<and> waits_ok s"
proof
  fix s s' assume "rdv_start s"
  then show "counts_ok s \<and> deposits_ok s \<and> waits_ok s"
    by (simp add: rdv_start_def counts_ok_def deposits_ok_def waits_ok_def in_recv_def)
next
  fix s s' assume "counts_ok s \<and> deposits_ok s \<and> waits_ok s" "rdv_step s s'"
  then show "counts_ok s' \<and> deposits_ok s' \<and> waits_ok s'"
    using counts_step deposits_step waits_step by blast
qed

lemma closed_step: "rdv_step s s' \<Longrightarrow> counts_ok s \<Longrightarrow> closed s \<Longrightarrow> closed s' \<and> handed s' = handed s"
  by (induction rule: rdv_step.induct) (auto simp: counts_ok_def rdv_defs)

lemma closed_hands_nothing:
  "rdv_step\<^sup>*\<^sup>* s s' \<Longrightarrow> counts_ok s \<Longrightarrow> closed s \<Longrightarrow> closed s' \<and> handed s' = handed s \<and> counts_ok s'"
  by (induction rule: rtranclp.induct) (use closed_step counts_step in auto)

subsection \<open>What a rendezvous promises\<close>

text \<open>
  C6. A blocking send tells the truth. When a sender that deposited its value returns, it answers
  1 exactly when the delivery it waited for is of its own value, even if the channel was closed
  before it ran again or another sender deposited meanwhile; and when it answers 0 the channel is
  closed and the value is delivered to nobody, then or later.
\<close>

theorem send_answer_is_delivery:
  assumes "reachable rdv_start rdv_step s" and "at s t = DepWoken v h"
    and "at (deposit_resume t v h s) t = Answered b" and "rdv_step\<^sup>*\<^sup>* (deposit_resume t v h s) s'"
  shows "b = 1 \<and> h < length (handed s) \<and> handed s ! h = (Some t, v) \<or>
    b = 0 \<and> closed s \<and> length (handed s') = h"
proof -
  have inv: "counts_ok s" "deposits_ok s" using rdv.invariant [OF assms(1)] by auto
  have dep: "h \<le> length (handed s)" "h \<noteq> length (handed s) \<Longrightarrow> handed s ! h = (Some t, v)"
    "h = length (handed s) \<Longrightarrow> closed s \<or> pending_value s = Some v"
    using deposits_okD [OF inv(2), of t v h] assms(2) by (auto split: if_splits)
  have finished: "closed s \<or> pending_value s = None" "b = (if deliveries s \<noteq> h then 1 else 0)"
    using assms(3) by (auto simp: deposit_resume_def split: if_splits)
  show ?thesis
  proof (cases "h = length (handed s)")
    case True
    then have cl: "closed s" using dep(3) finished(1) by auto
    moreover have "counts_ok (deposit_resume t v h s)"
      using counts_step [OF rdv_step.deposit_resumes] inv(1) assms(2) by blast
    moreover have "closed (deposit_resume t v h s)" "handed (deposit_resume t v h s) = handed s"
      using cl by (simp_all add: deposit_resume_def)
    ultimately show ?thesis
      using closed_hands_nothing [OF assms(4)] True finished(2) inv(1) by (simp add: counts_ok_def)
  next
    case False
    then show ?thesis using dep(1,2) finished(2) inv(1) by (simp add: counts_ok_def)
  qed
qed

text \<open>
  C20. A rendezvous is never missed: a sender and a receiver are never both parked on a channel
  with nothing deposited; a deposited value always has a woken receiver to take it and its sender
  is parked only while a deposit stands; and nobody is parked on a closed channel.
\<close>

theorem rendezvous_never_misses:
  assumes "reachable rdv_start rdv_step s"
  shows "(pending_value s = None \<longrightarrow> \<not> ((\<exists>t v. at s t = SendParked v) \<and> (\<exists>u. at s u = RecvParked))) \<and>
    (pending_value s \<noteq> None \<longrightarrow> (\<exists>u. at s u = RecvWoken) \<and> (\<forall>u. at s u \<noteq> RecvParked)) \<and>
    (\<forall>t v h. at s t = DepParked v h \<longrightarrow> pending_value s \<noteq> None) \<and>
    (closed s \<longrightarrow> (\<forall>t v h. at s t \<notin> {RecvParked, SendParked v, DepParked v h}))"
proof -
  have inv: "counts_ok s" "waits_ok s" using rdv.invariant [OF assms] by auto
  have pos: "0 < receiver_waiting s \<longleftrightarrow> (\<exists>u. at s u = RecvParked \<or> at s u = RecvWoken)"
    using inv(1) by (auto simp: counts_ok_def in_recv_def card_gt_0_iff)
  have "\<not> ((\<exists>t v. at s t = SendParked v) \<and> (\<exists>u. at s u = RecvParked))" if "pending_value s = None"
    using inv(2) pos that unfolding waits_ok_def by fastforce
  moreover have "(\<exists>u. at s u = RecvWoken) \<and> (\<forall>u. at s u \<noteq> RecvParked)" if "pending_value s \<noteq> None"
    using inv(2) pos that unfolding waits_ok_def by blast
  moreover have "at s t \<notin> {RecvParked, SendParked v, DepParked v h}" if "closed s" for t v h
    using inv that by (auto simp: waits_ok_def counts_ok_def)
  ultimately show ?thesis using inv(2) unfolding waits_ok_def by blast
qed

text \<open>
  A \<open>try_send\<close> on an unbuffered channel that answered 1 can still lose its value: nobody waits
  for the take, so a close that comes before the receiver runs again drops the deposit, and no
  receiver gets it at any later time.
\<close>

theorem try_send_can_be_dropped:
  fixes v :: int
  assumes "reachable rdv_start rdv_step s" and "\<not> closed s" and "pending_value s = None"
    and "0 < receiver_waiting s" and "outside (at s t)" and "outside (at s u)" and "t \<noteq> u"
  defines "s1 \<equiv> pith_channel_try_send t v s"
  assumes "rdv_step\<^sup>*\<^sup>* (pith_channel_close u s1) s'"
  shows "at s1 t = Answered 1 \<and> pending_value s1 = Some v \<and> handed s' = handed s"
proof -
  have inv: "counts_ok s" using rdv.invariant [OF assms(1)] by auto
  have s1: "at s1 t = Answered 1" "pending_value s1 = Some v" "handed s1 = handed s" "\<not> closed s1"
    using assms(2-4) by (simp_all add: s1_def rdv_defs)
  have "outside (at s1 u)"
    using assms(2-4,6,7) by (cases "at s u") (auto simp: s1_def rdv_defs outside_def)
  then have "counts_ok (pith_channel_close u s1)"
    using counts_step [OF rdv_step.try_sends [OF assms(5)] inv] counts_step rdv_step.closes
    unfolding s1_def by blast
  moreover have "closed (pith_channel_close u s1)" "handed (pith_channel_close u s1) = handed s"
    using s1 by (simp_all add: pith_channel_close_def)
  ultimately show ?thesis using closed_hands_nothing [OF assms(9)] s1 by simp
qed

text \<open>A run: thread 0 receives and parks, thread 1 deposits 7, thread 0 takes it.\<close>

definition rdv_new :: rdv where
  "rdv_new = \<lparr>closed = False, pending_value = None, deliveries = 0, receiver_waiting = 0,
     sender_waiting = 0, at = (\<lambda>_. Away), owner = None, handed = []\<rparr>"

definition one_receiver :: rdv where "one_receiver = recv_pass 0 rdv_new"
definition one_deposit :: rdv where "one_deposit = send_pass 1 7 one_receiver"
definition one_handed :: rdv where "one_handed = recv_resume 0 one_deposit"

lemma run_at:
  "at rdv_new t = Away" "at one_receiver = (\<lambda>_. Away)(0 := RecvParked)"
  "at one_deposit = (\<lambda>_. Away)(0 := RecvWoken, 1 := DepParked 7 0)"
  "at one_handed = (\<lambda>_. Away)(0 := Received (Some 7), 1 := DepWoken 7 0)"
  by (auto simp: rdv_new_def one_receiver_def one_deposit_def one_handed_def rdv_defs fun_eq_iff)

lemma run_reachable:
  "reachable rdv_start rdv_step one_receiver" "reachable rdv_start rdv_step one_deposit"
  "reachable rdv_start rdv_step one_handed"
proof -
  have "reachable rdv_start rdv_step rdv_new"
    by (rule reachable_init) (simp add: rdv_start_def rdv_new_def)
  then show r: "reachable rdv_start rdv_step one_receiver"
    unfolding one_receiver_def
    by (rule reachable_step) (rule rdv_step.recvs, simp add: run_at outside_def)
  then show d: "reachable rdv_start rdv_step one_deposit"
    unfolding one_deposit_def
    by (rule reachable_step) (rule rdv_step.sends, simp add: run_at outside_def)
  then show "reachable rdv_start rdv_step one_handed"
    unfolding one_handed_def
    by (rule reachable_step) (rule rdv_step.recv_resumes, simp add: run_at)
qed

theorem send_answer_is_delivery_witness:
  "at (deposit_resume 1 7 0 one_handed) 1 = Answered 1 \<and> handed one_handed ! 0 = (Some 1, 7)"
proof -
  have ans: "at (deposit_resume 1 7 0 one_handed) 1 = Answered 1"
    by (simp add: rdv_new_def one_receiver_def one_deposit_def one_handed_def rdv_defs)
  have "at one_handed 1 = DepWoken 7 0" by (simp add: run_at)
  from send_answer_is_delivery [OF run_reachable(3) this ans rtranclp.rtrancl_refl]
  show ?thesis using ans by simp
qed

theorem rendezvous_never_misses_witness: "pending_value one_deposit = Some 7 \<and> at one_deposit 0 = RecvWoken"
proof -
  have p: "pending_value one_deposit = Some 7"
    by (simp add: rdv_new_def one_receiver_def one_deposit_def rdv_defs)
  then obtain u where "at one_deposit u = RecvWoken"
    using rendezvous_never_misses [OF run_reachable(2)] by auto
  then show ?thesis using p by (auto simp: run_at split: if_splits)
qed

theorem try_send_can_be_dropped_witness:
  "at (pith_channel_try_send 1 9 one_receiver) 1 = Answered 1 \<and>
   handed (pith_channel_close 2 (pith_channel_try_send 1 9 one_receiver)) = []"
  using try_send_can_be_dropped [OF run_reachable(1), where t = 1 and u = 2 and v = 9
      and s' = "pith_channel_close 2 (pith_channel_try_send 1 9 one_receiver)"]
  by (simp add: rdv_new_def one_receiver_def rdv_defs outside_def)

end
