(* ===== verification/CountHeap.thy ===== *)
theory CountHeap
  imports Prelude "HOL-Library.Multiset"
begin

text \<open>
  The counted objects that containers own, \<open>retain_element\<close> and \<open>release_element\<close> of
  \<open>collections/list.rs\<close>, and the cascade of a release. An object's handle is its position in
  the heap, from 1; a freed object stays there as \<open>Dead\<close>, as its scrubbed magic word leaves it. 0
  is the null handle, and a handle that is not positive stands for a value outside the counted
  heap, such as a string literal. The counts of the code are 32-bit words; here they do not wrap.
  The suspect hooks of the cycle collector are not part of a release here.
\<close>

subsection \<open>Objects\<close>

datatype list_type_tag =
  PrimitiveTag | StringTag | ListTag | MapTag | StructTag | BytesTag | ClosureTag | SetTag
  | ChannelTag | SyncTag

definition element_tag_from_code :: "int \<Rightarrow> list_type_tag" where
  "element_tag_from_code code =
     (if code = 1 then StringTag else if code = 2 then ListTag else if code = 3 then MapTag
      else if code = 4 then StructTag else if code = 5 then BytesTag else if code = 6 then ClosureTag
      else if code = 7 then SetTag else if code = 8 then ChannelTag else if code = 9 then SyncTag
      else PrimitiveTag)"

text \<open>The cast of a code that arrives as a 64-bit value.\<close>

definition as_i32 :: "int \<Rightarrow> int" where
  "as_i32 code = signed_take_bit 31 code"

text \<open>A list of eight-byte elements, the only size the compiler and the runtime construct.\<close>

record list_impl =
  rc :: nat
  type_tag :: list_type_tag
  values8 :: "int list"

text \<open>
  A map of word-sized values. The entries of the hash table are in the order its iteration visits
  them. Keys are the map's own copies, so only the values can own counts.
\<close>

datatype map_key = IntKey int | StringKey bytes | BytesKey bytes

datatype key_type = IntKeys | StringKeys | BytesKeys

record map_impl =
  map_rc :: nat
  key_type :: key_type
  val_tag :: list_type_tag
  data :: "(map_key \<times> int) list"
  int_values8 :: "(int \<times> int) list option"

text \<open>A set stores its own copies of its elements.\<close>

datatype set_element = IntElem int | StringElem bytes | BytesElem bytes

datatype elem_type = IntElems | StringElems | BytesElems

record set_impl =
  set_rc :: nat
  elem_type :: elem_type
  members :: "set_element list"

text \<open>
  What is left of a release is a list of actions, so that the recursion through nested objects is
  a loop: \<open>Drop\<close> releases a handle of a kind, \<open>Finish\<close> frees an object whose contents are released.
\<close>

datatype action = Drop list_type_tag int | Finish int

definition release_all_elements :: "list_impl \<Rightarrow> action list" where
  "release_all_elements l =
     (if type_tag l = PrimitiveTag then [] else map (Drop (type_tag l)) (values8 l))"

definition release_all_values :: "map_impl \<Rightarrow> action list" where
  "release_all_values m =
     (if val_tag m = PrimitiveTag then [] else map (Drop (val_tag m)) (map snd (data m)))"

text \<open>
  The objects. A struct's destructor is compiled code that releases the fields that own a count, a
  closure releases its captures: both are \<open>OtherCell\<close> with the kind and handle of what they release.
\<close>

datatype cell =
    Dead
  | ListCell list_impl
  | MapCell map_impl
  | SetCell set_impl
  | StringCell nat bytes
  | BytesCell nat bytes
  | OtherCell list_type_tag nat "(list_type_tag \<times> int) list"

type_synonym heap = "cell list"

definition cell_at :: "heap \<Rightarrow> int \<Rightarrow> cell" where
  "cell_at h a = (if 0 < a \<and> nat a \<le> length h then h ! (nat a - 1) else Dead)"

definition set_cell :: "heap \<Rightarrow> int \<Rightarrow> cell \<Rightarrow> heap" where
  "set_cell h a c = (if 0 < a then h[nat a - 1 := c] else h)"

fun kind_of :: "cell \<Rightarrow> list_type_tag option" where
  "kind_of Dead = None"
| "kind_of (ListCell l) = Some ListTag"
| "kind_of (MapCell m) = Some MapTag"
| "kind_of (SetCell s) = Some SetTag"
| "kind_of (StringCell n b) = Some StringTag"
| "kind_of (BytesCell n b) = Some BytesTag"
| "kind_of (OtherCell k n os) = Some k"

fun count_of :: "cell \<Rightarrow> nat" where
  "count_of Dead = 0"
| "count_of (ListCell l) = rc l"
| "count_of (MapCell m) = map_rc m"
| "count_of (SetCell s) = set_rc s"
| "count_of (StringCell n b) = n"
| "count_of (BytesCell n b) = n"
| "count_of (OtherCell k n os) = n"

fun with_count :: "nat \<Rightarrow> cell \<Rightarrow> cell" where
  "with_count n Dead = Dead"
| "with_count n (ListCell l) = ListCell (l\<lparr>rc := n\<rparr>)"
| "with_count n (MapCell m) = MapCell (m\<lparr>map_rc := n\<rparr>)"
| "with_count n (SetCell s) = SetCell (s\<lparr>set_rc := n\<rparr>)"
| "with_count n (StringCell m b) = StringCell n b"
| "with_count n (BytesCell m b) = BytesCell n b"
| "with_count n (OtherCell k m os) = OtherCell k n os"

text \<open>The releases an object's death makes, in the order it makes them.\<close>

fun owned :: "cell \<Rightarrow> action list" where
  "owned (ListCell l) = release_all_elements l"
| "owned (MapCell m) = release_all_values m"
| "owned (OtherCell k n os) = map (\<lambda>(t, v). Drop t v) os"
| "owned _ = []"

lemma count_with_count [simp]: "count_of (with_count n c) = (if c = Dead then 0 else n)"
  by (cases c) auto

lemma kind_with_count [simp]: "kind_of (with_count n c) = kind_of c"
  by (cases c) auto

lemma owned_with_count [simp]: "owned (with_count n c) = owned c"
  by (cases c) (auto simp: release_all_elements_def release_all_values_def)

lemma with_count_twice [simp]: "with_count n (with_count m c) = with_count n c"
  by (cases c) auto

lemma with_count_same [simp]: "with_count (count_of c) c = c"
  by (cases c) auto

lemma with_count_Dead [simp]: "with_count n c = Dead \<longleftrightarrow> c = Dead" "Dead = with_count n c \<longleftrightarrow> c = Dead"
  by (cases c; auto)+

lemma kind_None [simp]: "kind_of c = None \<longleftrightarrow> c = Dead"
  by (cases c) auto

lemma with_count_List [simp]: "with_count n c = ListCell l \<longleftrightarrow> (\<exists>l'. c = ListCell l' \<and> l = l'\<lparr>rc := n\<rparr>)"
  by (cases c) auto

lemma with_count_Map [simp]: "with_count n c = MapCell m \<longleftrightarrow> (\<exists>m'. c = MapCell m' \<and> m = m'\<lparr>map_rc := n\<rparr>)"
  by (cases c) auto

lemma Finish_owned [simp]: "Finish a \<notin> set (owned c)"
  by (cases c) (auto simp: release_all_elements_def release_all_values_def)

subsection \<open>Retain and release\<close>

text \<open>Each kind's operation answers a handle of another kind by doing nothing.\<close>

definition retain_element :: "list_type_tag \<Rightarrow> int \<Rightarrow> heap \<Rightarrow> heap" where
  "retain_element tag raw h =
     (let c = cell_at h raw in
      if tag = PrimitiveTag \<or> kind_of c \<noteq> Some tag then h
      else set_cell h raw (with_count (count_of c + 1) c))"

definition release_step :: "list_type_tag \<Rightarrow> int \<Rightarrow> heap \<Rightarrow> action list \<times> heap" where
  "release_step tag raw h =
     (let c = cell_at h raw in
      if tag = PrimitiveTag \<or> kind_of c \<noteq> Some tag then ([], h)
      else if count_of c > 1 then ([], set_cell h raw (with_count (count_of c - 1) c))
      else if count_of c = 0 then ([], h)
      else (owned c @ [Finish raw], set_cell h raw (with_count 0 c)))"

definition total_count :: "heap \<Rightarrow> nat" where
  "total_count h = sum_list (map count_of h)"

lemma sum_list_update_nat:
  "i < length xs \<Longrightarrow> sum_list (map f (xs[i := c])) + f (xs ! i) = sum_list (map f xs) + (f c :: nat)"
proof (induction xs arbitrary: i)
  case (Cons x xs)
  then show ?case by (cases i) auto
qed simp

lemma cell_at_live: "cell_at h a \<noteq> Dead \<Longrightarrow> 0 < a \<and> nat a - 1 < length h \<and> h ! (nat a - 1) = cell_at h a"
  by (auto simp: cell_at_def split: if_splits)

lemma kind_live: "kind_of (cell_at h a) = Some k \<Longrightarrow> cell_at h a \<noteq> Dead \<and> 0 < a"
  using cell_at_live [of h a] by (cases "cell_at h a = Dead") auto

lemma set_cell_Dead: "cell_at h a = Dead \<Longrightarrow> set_cell h a Dead = h"
  by (auto simp: cell_at_def set_cell_def list_update_beyond split: if_splits) (metis list_update_id)+

lemma total_set_cell:
  "cell_at h a \<noteq> Dead \<Longrightarrow> total_count (set_cell h a c) + count_of (cell_at h a) = total_count h + count_of c"
  using cell_at_live [of h a] sum_list_update_nat [of "nat a - 1" h count_of c]
  by (simp add: total_count_def set_cell_def)

lemma release_step_total:
  assumes "release_step t v h = (w, h')"
  shows "total_count h' < total_count h \<or> h' = h \<and> w = []"
  using assms total_set_cell [of h v "with_count (count_of (cell_at h v) - 1) (cell_at h v)"]
    total_set_cell [of h v "with_count 0 (cell_at h v)"] kind_live [of h v t]
  by (auto simp: release_step_def Let_def split: if_splits)

lemma finish_total: "total_count (set_cell h a Dead) \<le> total_count h"
  using total_set_cell [of h a Dead] set_cell_Dead [of h a] by (cases "cell_at h a = Dead") auto

function run_release :: "action list \<Rightarrow> heap \<Rightarrow> heap" where
  "run_release [] h = h"
| "run_release (Drop t v # w) h =
     (let (acts, h') = release_step t v h in run_release (acts @ w) h')"
| "run_release (Finish a # w) h = run_release w (set_cell h a Dead)"
  by pat_completeness auto

termination run_release
proof (relation "measures [\<lambda>(w, h). total_count h, \<lambda>(w, h). length w]")
  fix t v w h x acts h'
  assume "x = release_step t v h" "(acts, h') = x"
  then show "((acts @ w, h'), Drop t v # w, h) \<in> measures [\<lambda>(w, h). total_count h, \<lambda>(w, h). length w]"
    using release_step_total [of t v h acts h'] by auto
next
  fix a w h
  show "((w, set_cell h a Dead), Finish a # w, h) \<in> measures [\<lambda>(w, h). total_count h, \<lambda>(w, h). length w]"
    using finish_total [of h a] by auto
qed simp

definition release_element :: "list_type_tag \<Rightarrow> int \<Rightarrow> heap \<Rightarrow> heap" where
  "release_element tag raw h = run_release [Drop tag raw] h"

lemma run_release_append: "run_release (v @ w) h = run_release w (run_release v h)"
  by (induction v h rule: run_release.induct) (auto split: prod.splits simp flip: append_assoc)

subsection \<open>Owners\<close>

text \<open>The counts the objects of the heap own on \<open>v\<close> as a value of kind \<open>t\<close>. An object that is
  being freed has handed its counts to the cascade.\<close>

definition cell_refs :: "list_type_tag \<Rightarrow> int \<Rightarrow> cell \<Rightarrow> nat" where
  "cell_refs t v c = (if 0 < count_of c then count_list (owned c) (Drop t v) else 0)"

definition refs :: "heap \<Rightarrow> list_type_tag \<Rightarrow> int \<Rightarrow> nat" where
  "refs h t v = sum_list (map (cell_refs t v) h)"

text \<open>
  \<open>counts_sound E w h\<close>: \<open>E a\<close> holders outside the heap own a count on \<open>a\<close> each, and \<open>w\<close> is
  left of a cascade. Every count is exactly the owners; whatever an object or the cascade holds is
  an object of the right kind that is still there, or no counted object at all; and only an
  object the cascade is about to free has no count.
\<close>

definition counts_sound :: "(int \<Rightarrow> nat) \<Rightarrow> action list \<Rightarrow> heap \<Rightarrow> bool" where
  "counts_sound E w h \<longleftrightarrow>
     (\<forall>a k. kind_of (cell_at h a) = Some k \<longrightarrow>
        count_of (cell_at h a) = E a + count_list w (Drop k a) + refs h k a) \<and>
     (\<forall>t v. t \<noteq> PrimitiveTag \<longrightarrow> 0 < v \<longrightarrow> 0 < count_list w (Drop t v) + refs h t v \<longrightarrow>
        kind_of (cell_at h v) = Some t) \<and>
     (\<forall>a. 0 < E a \<longrightarrow> cell_at h a \<noteq> Dead) \<and>
     (\<forall>a. cell_at h a \<noteq> Dead \<longrightarrow> count_of (cell_at h a) = 0 \<longrightarrow> Finish a \<in> set w) \<and>
     (\<forall>a. Finish a \<in> set w \<longrightarrow> count_of (cell_at h a) = 0) \<and>
     (\<forall>a k. kind_of (cell_at h a) = Some k \<longrightarrow> k \<noteq> PrimitiveTag)"

lemma cell_at_set:
  "cell_at h a \<noteq> Dead \<Longrightarrow> cell_at (set_cell h a c) b = (if b = a then c else cell_at h b)"
proof -
  assume "cell_at h a \<noteq> Dead"
  then have a: "0 < a" "nat a - 1 < length h" using cell_at_live by blast+
  have "nat b - 1 = nat a - 1 \<longleftrightarrow> b = a" if "0 < b" using that a by linarith
  then show ?thesis using a by (auto simp: cell_at_def set_cell_def)
qed

lemma cell_at_set_Dead: "cell_at (set_cell h a Dead) b = (if b = a then Dead else cell_at h b)"
  using cell_at_set [of h a Dead b] set_cell_Dead [of h a] by (cases "cell_at h a = Dead") auto

lemma refs_set:
  "cell_at h a \<noteq> Dead \<Longrightarrow>
     refs (set_cell h a c) t v + cell_refs t v (cell_at h a) = refs h t v + cell_refs t v c"
  using cell_at_live [of h a] sum_list_update_nat [of "nat a - 1" h "cell_refs t v" c]
  by (simp add: refs_def set_cell_def)

lemma count_list_drops: "count_list (map (Drop t) vs) (Drop k a) = (if k = t then count_list vs a else 0)"
  by (induction vs) auto

lemma counts_soundD:
  assumes "counts_sound E w h"
  shows "kind_of (cell_at h a) = Some k \<Longrightarrow>
      count_of (cell_at h a) = E a + count_list w (Drop k a) + refs h k a"
    and "t \<noteq> PrimitiveTag \<Longrightarrow> 0 < v \<Longrightarrow> 0 < count_list w (Drop t v) + refs h t v \<Longrightarrow>
      kind_of (cell_at h v) = Some t"
    and "0 < E a \<Longrightarrow> cell_at h a \<noteq> Dead"
    and "cell_at h a \<noteq> Dead \<Longrightarrow> count_of (cell_at h a) = 0 \<Longrightarrow> Finish a \<in> set w"
    and "Finish a \<in> set w \<Longrightarrow> count_of (cell_at h a) = 0"
    and "kind_of (cell_at h a) = Some k \<Longrightarrow> k \<noteq> PrimitiveTag"
  using assms unfolding counts_sound_def by (elim conjE, metis)+

lemma counts_soundI:
  assumes "\<And>a k. kind_of (cell_at h a) = Some k \<Longrightarrow>
      count_of (cell_at h a) = E a + count_list w (Drop k a) + refs h k a"
    and "\<And>t v. t \<noteq> PrimitiveTag \<Longrightarrow> 0 < v \<Longrightarrow> 0 < count_list w (Drop t v) + refs h t v \<Longrightarrow>
      kind_of (cell_at h v) = Some t"
    and "\<And>a. 0 < E a \<Longrightarrow> cell_at h a \<noteq> Dead"
    and "\<And>a. cell_at h a \<noteq> Dead \<Longrightarrow> count_of (cell_at h a) = 0 \<Longrightarrow> Finish a \<in> set w"
    and "\<And>a. Finish a \<in> set w \<Longrightarrow> count_of (cell_at h a) = 0"
    and "\<And>a k. kind_of (cell_at h a) = Some k \<Longrightarrow> k \<noteq> PrimitiveTag"
  shows "counts_sound E w h"
  unfolding counts_sound_def by (intro conjI allI impI) (rule assms; assumption)+

text \<open>
  A change of one object that keeps its kind, with the owners of everything accounted for: the
  counts the object owned move between it, the cascade and the owners outside.
\<close>

lemma sound_change:
  assumes S: "counts_sound E w h" and live: "kind_of (cell_at h a) = Some k" and c: "kind_of c = Some k"
    and self: "count_of c = E' a + count_list w' (Drop k a) + (refs h k a + cell_refs k a c - cell_refs k a (cell_at h a))"
    and others: "\<And>b j. b \<noteq> a \<Longrightarrow> kind_of (cell_at h b) = Some j \<Longrightarrow>
      E' b + count_list w' (Drop j b) + cell_refs j b c = E b + count_list w (Drop j b) + cell_refs j b (cell_at h a)"
    and kinds: "\<And>t v. t \<noteq> PrimitiveTag \<Longrightarrow> 0 < v \<Longrightarrow> 0 < count_list w' (Drop t v) + cell_refs t v c \<Longrightarrow>
      kind_of (cell_at h v) = Some t"
    and live': "\<And>b. 0 < E' b \<Longrightarrow> cell_at h b \<noteq> Dead"
    and fin: "\<And>b. b \<noteq> a \<Longrightarrow> Finish b \<in> set w' \<longleftrightarrow> Finish b \<in> set w"
    and fina: "Finish a \<in> set w' \<longleftrightarrow> count_of c = 0"
  shows "counts_sound E' w' (set_cell h a c)"
proof -
  have ne: "cell_at h a \<noteq> Dead" using live by auto
  have at: "cell_at (set_cell h a c) b = (if b = a then c else cell_at h b)" for b
    by (rule cell_at_set [OF ne])
  have rf: "refs (set_cell h a c) t v + cell_refs t v (cell_at h a) = refs h t v + cell_refs t v c" for t v
    by (rule refs_set [OF ne])
  have kk: "kind_of (cell_at (set_cell h a c) b) = kind_of (cell_at h b)" for b using at c live by simp
  show ?thesis
  proof (rule counts_soundI)
    fix b j assume "kind_of (cell_at (set_cell h a c) b) = Some j"
    then have j: "kind_of (cell_at h b) = Some j" by (simp add: kk)
    show "count_of (cell_at (set_cell h a c) b) = E' b + count_list w' (Drop j b) + refs (set_cell h a c) j b"
    proof (cases "b = a")
      case True
      then show ?thesis using self j live rf [of k a] by (simp add: at)
    next
      case False
      then show ?thesis using others [OF False j] rf [of j b] counts_soundD(1) [OF S j] by (simp add: at)
    qed
  next
    fix t v assume h: "t \<noteq> PrimitiveTag" "0 < v" "0 < count_list w' (Drop t v) + refs (set_cell h a c) t v"
    have "kind_of (cell_at h v) = Some t"
    proof (cases "0 < count_list w' (Drop t v) + cell_refs t v c")
      case False
      then show ?thesis using h(3) rf [of t v] counts_soundD(2) [OF S h(1,2)] by simp
    qed (rule kinds [OF h(1,2)])
    then show "kind_of (cell_at (set_cell h a c) v) = Some t" by (simp add: kk)
  next
    fix b assume "0 < E' b"
    then show "cell_at (set_cell h a c) b \<noteq> Dead" using live' [of b] kk [of b] by (metis kind_None)
  next
    fix b assume "cell_at (set_cell h a c) b \<noteq> Dead" "count_of (cell_at (set_cell h a c) b) = 0"
    then show "Finish b \<in> set w'"
      using fina fin [of b] counts_soundD(4) [OF S, of b] at [of b] by (cases "b = a") auto
  next
    fix b assume "Finish b \<in> set w'"
    then show "count_of (cell_at (set_cell h a c) b) = 0"
      using fina fin [of b] counts_soundD(5) [OF S, of b] at [of b] by (cases "b = a") auto
  next
    fix b j assume "kind_of (cell_at (set_cell h a c) b) = Some j"
    then show "j \<noteq> PrimitiveTag" using counts_soundD(6) [OF S, of b] by (simp add: kk)
  qed
qed

lemma sound_skip:
  assumes S: "counts_sound E (Drop t v # w) h" and skip: "t = PrimitiveTag \<or> v \<le> 0"
  shows "counts_sound E w h"
proof -
  have other: "count_list (Drop t v # w) (Drop j b) = count_list w (Drop j b)" if "j \<noteq> PrimitiveTag" "0 < b" for j b
    using skip that by auto
  show ?thesis
  proof (rule counts_soundI)
    fix b j assume k: "kind_of (cell_at h b) = Some j"
    show "count_of (cell_at h b) = E b + count_list w (Drop j b) + refs h j b"
      using counts_soundD(1) [OF S k] other [of j b] counts_soundD(6) [OF S k] kind_live [OF k] by simp
  next
    fix j b assume "j \<noteq> PrimitiveTag" "0 < b" "0 < count_list w (Drop j b) + refs h j b"
    then show "kind_of (cell_at h b) = Some j"
      using counts_soundD(2) [OF S, of j b] other [of j b] by simp
  next
    fix b assume "0 < E b"
    then show "cell_at h b \<noteq> Dead" by (rule counts_soundD(3) [OF S])
  next
    fix b assume "cell_at h b \<noteq> Dead" "count_of (cell_at h b) = 0"
    then show "Finish b \<in> set w" using counts_soundD(4) [OF S, of b] by simp
  next
    fix b assume "Finish b \<in> set w"
    then show "count_of (cell_at h b) = 0" by (intro counts_soundD(5) [OF S]) simp
  next
    fix b j assume "kind_of (cell_at h b) = Some j"
    then show "j \<noteq> PrimitiveTag" by (rule counts_soundD(6) [OF S])
  qed
qed

lemma drop_sound:
  assumes S: "counts_sound E (Drop t v # w) h" and step: "release_step t v h = (acts, h')"
  shows "counts_sound E (acts @ w) h'"
proof (cases "t = PrimitiveTag \<or> v \<le> 0")
  case True
  then have "acts = []" "h' = h" using step by (auto simp: release_step_def cell_at_def split: if_splits)
  then show ?thesis using sound_skip [OF S True] by simp
next
  case False
  then have t: "t \<noteq> PrimitiveTag" "0 < v" by auto
  let ?c = "cell_at h v"
  have kind: "kind_of ?c = Some t" using counts_soundD(2) [OF S, of t v] t by simp
  have count: "count_of ?c = E v + (1 + count_list w (Drop t v)) + refs h t v"
    using counts_soundD(1) [OF S kind] by simp
  have ne: "?c \<noteq> Dead" using kind by auto
  have fine: "Finish v \<notin> set w" using counts_soundD(5) [OF S, of v] count by auto
  have held: "kind_of (cell_at h x) = Some j" if "j \<noteq> PrimitiveTag" "0 < x" "0 < count_list w (Drop j x) + cell_refs j x ?c" for j x
    using counts_soundD(2) [OF S that(1,2)] refs_set [OF ne, of Dead j x] that(3)
    by (auto simp: cell_refs_def)
  have self: "cell_refs t v ?c \<le> refs h t v" using refs_set [OF ne, of Dead t v] by (simp add: cell_refs_def)
  show ?thesis
  proof (cases "count_of ?c > 1")
    case True
    then have out: "acts = []" "h' = set_cell h v (with_count (count_of ?c - 1) ?c)"
      using step kind t by (auto simp: release_step_def Let_def)
    have same: "cell_refs j x (with_count (count_of ?c - 1) ?c) = cell_refs j x ?c" for j x
      using True ne by (auto simp: cell_refs_def)
    show ?thesis unfolding out append_Nil
      by (rule sound_change [OF S kind])
        (use True ne kind count same self held fine counts_soundD(3) [OF S] in \<open>auto simp del: with_count_Dead\<close>)
  next
    case False
    then have one: "count_of ?c = 1" using count by simp
    then have out: "acts = owned ?c @ [Finish v]" "h' = set_cell h v (with_count 0 ?c)"
      using step kind t by (auto simp: release_step_def Let_def)
    have none: "cell_refs j x (with_count 0 ?c) = 0" for j x using ne by (simp add: cell_refs_def)
    have own: "cell_refs j x ?c = count_list (owned ?c) (Drop j x)" for j x using one by (simp add: cell_refs_def)
    have zero: "E v = 0" "count_list w (Drop t v) = 0" "refs h t v = 0" using count one by auto
    have pend: "count_list (acts @ w) (Drop j x) = cell_refs j x ?c + count_list w (Drop j x)" for j x
      unfolding out own by simp
    show ?thesis unfolding out(2)
    proof (rule sound_change [OF S kind])
      show "count_of (with_count 0 ?c) = E v + count_list (acts @ w) (Drop t v) +
          (refs h t v + cell_refs t v (with_count 0 ?c) - cell_refs t v ?c)"
        using zero self ne unfolding pend none by simp
      show "E b + count_list (acts @ w) (Drop j b) + cell_refs j b (with_count 0 ?c) =
          E b + count_list (Drop t v # w) (Drop j b) + cell_refs j b ?c"
        if "b \<noteq> v" for b j using that unfolding pend none by simp
      show "kind_of (cell_at h x) = Some j" if "j \<noteq> PrimitiveTag" "0 < x"
          "0 < count_list (acts @ w) (Drop j x) + cell_refs j x (with_count 0 ?c)" for j x
        using held [OF that(1,2)] that(3) unfolding pend none by auto
      show "Finish b \<in> set (acts @ w) \<longleftrightarrow> Finish b \<in> set (Drop t v # w)" if "b \<noteq> v" for b
        using that by (simp add: out)
      show "Finish v \<in> set (acts @ w) \<longleftrightarrow> count_of (with_count 0 ?c) = 0" by (simp add: out)
      show "cell_at h b \<noteq> Dead" if "0 < E b" for b by (rule counts_soundD(3) [OF S that])
    qed (use kind in simp)
  qed
qed

lemma finish_sound:
  assumes S: "counts_sound E (Finish a # w) h"
  shows "counts_sound E w (set_cell h a Dead)"
proof -
  have zero: "count_of (cell_at h a) = 0" using counts_soundD(5) [OF S, of a] by simp
  have at: "cell_at (set_cell h a Dead) b = (if b = a then Dead else cell_at h b)" for b
    by (rule cell_at_set_Dead)
  have rf: "refs (set_cell h a Dead) j b = refs h j b" for j b
    using refs_set [of h a Dead j b] set_cell_Dead [of h a] zero
    by (cases "cell_at h a = Dead") (auto simp: cell_refs_def)
  have none: "E a = 0" if "cell_at h a \<noteq> Dead"
  proof -
    obtain k where "kind_of (cell_at h a) = Some k" using \<open>cell_at h a \<noteq> Dead\<close> by (cases "kind_of (cell_at h a)") auto
    from counts_soundD(1) [OF S this] show ?thesis using zero by simp
  qed
  have gone: "count_list w (Drop j a) + refs h j a = 0" if "0 < a" "j \<noteq> PrimitiveTag" for j
  proof (rule ccontr)
    assume n: "\<not> ?thesis"
    then have "kind_of (cell_at h a) = Some j" using counts_soundD(2) [OF S that(2,1)] by simp
    from counts_soundD(1) [OF S this] show False using zero n by simp
  qed
  show ?thesis
  proof (rule counts_soundI)
    fix b j assume "kind_of (cell_at (set_cell h a Dead) b) = Some j"
    then have b: "b \<noteq> a" "kind_of (cell_at h b) = Some j" by (auto simp: at split: if_splits)
    show "count_of (cell_at (set_cell h a Dead) b) = E b + count_list w (Drop j b) + refs (set_cell h a Dead) j b"
      using b counts_soundD(1) [OF S b(2)] by (simp add: at rf)
    show "j \<noteq> PrimitiveTag" by (rule counts_soundD(6) [OF S b(2)])
  next
    fix j b assume h: "j \<noteq> PrimitiveTag" "0 < b" "0 < count_list w (Drop j b) + refs (set_cell h a Dead) j b"
    then show "kind_of (cell_at (set_cell h a Dead) b) = Some j"
      using counts_soundD(2) [OF S h(1,2)] gone [of j] by (cases "b = a") (auto simp: at rf)
  next
    fix b assume b: "0 < E b"
    then have "b \<noteq> a" using none counts_soundD(3) [OF S b] by auto
    then show "cell_at (set_cell h a Dead) b \<noteq> Dead" using counts_soundD(3) [OF S b] by (simp add: at)
  next
    fix b assume "cell_at (set_cell h a Dead) b \<noteq> Dead" "count_of (cell_at (set_cell h a Dead) b) = 0"
    then show "Finish b \<in> set w" using counts_soundD(4) [OF S, of b] by (auto simp: at split: if_splits)
  next
    fix b assume "Finish b \<in> set w"
    then show "count_of (cell_at (set_cell h a Dead) b) = 0"
      using counts_soundD(5) [OF S, of b] by (auto simp: at)
  qed
qed

lemma run_release_sound: "counts_sound E w h \<Longrightarrow> counts_sound E [] (run_release w h)"
proof (induction w h rule: run_release.induct)
  case (2 t v w h)
  then show ?case using drop_sound [OF "2.prems"] by (auto split: prod.splits)
next
  case (3 a w h)
  then show ?case using finish_sound [OF "3.prems"] by simp
qed simp

subsection \<open>Moving counts between owners\<close>

text \<open>One more owner outside the heap, when the value is a counted object.\<close>

definition owe :: "(int \<Rightarrow> nat) \<Rightarrow> list_type_tag \<Rightarrow> int \<Rightarrow> int \<Rightarrow> nat" where
  "owe E t v = (if t \<noteq> PrimitiveTag \<and> 0 < v then E(v := E v + 1) else E)"

text \<open>\<open>v\<close> is a value of kind \<open>t\<close>: a live object of that kind, or nothing counted.\<close>

definition value_of_kind :: "heap \<Rightarrow> list_type_tag \<Rightarrow> int \<Rightarrow> bool" where
  "value_of_kind h t v \<longleftrightarrow> t = PrimitiveTag \<or> v \<le> 0 \<or> kind_of (cell_at h v) = Some t"

lemma value_of_kind_cell:
  "value_of_kind h t v \<Longrightarrow> t \<noteq> PrimitiveTag \<Longrightarrow> 0 < v \<Longrightarrow> kind_of (cell_at h v) = Some t"
  by (simp add: value_of_kind_def)

lemma owe_at:
  assumes "value_of_kind h t v" and k: "kind_of (cell_at h x) = Some j" and "j \<noteq> PrimitiveTag"
  shows "owe E t v x = E x + (if t = j \<and> v = x then 1 else 0)"
proof (cases "t \<noteq> PrimitiveTag \<and> 0 < v \<and> x = v")
  case True
  then have "t = j" using value_of_kind_cell [OF assms(1)] k by simp
  then show ?thesis using True by (simp add: owe_def)
qed (use assms(3) kind_live [OF k] in \<open>auto simp: owe_def\<close>)

lemma sound_count_pos:
  "counts_sound E [] h \<Longrightarrow> cell_at h a \<noteq> Dead \<Longrightarrow> 0 < count_of (cell_at h a)"
  using counts_soundD(4) [of E "[]" h a] by auto

lemma retain_none: "t = PrimitiveTag \<or> v \<le> 0 \<Longrightarrow> retain_element t v h = h"
  by (auto simp: retain_element_def cell_at_def)

lemma retain_elsewhere: "kind_of (cell_at h v) \<noteq> Some t \<Longrightarrow> retain_element t v h = h"
  by (simp add: retain_element_def Let_def)

lemma retain_at:
  "cell_at (retain_element t v h) a =
     (if a = v \<and> t \<noteq> PrimitiveTag \<and> kind_of (cell_at h v) = Some t
      then with_count (count_of (cell_at h v) + 1) (cell_at h v) else cell_at h a)"
proof (cases "t \<noteq> PrimitiveTag \<and> kind_of (cell_at h v) = Some t")
  case True
  then have "cell_at h v \<noteq> Dead" by auto
  from cell_at_set [OF this] show ?thesis using True by (auto simp: retain_element_def Let_def)
qed (auto simp: retain_element_def Let_def)

lemma retain_counts:
  assumes "kind_of (cell_at h v) = Some t" and "t \<noteq> PrimitiveTag"
  shows "count_of (cell_at (retain_element t v h) b) = count_of (cell_at h b) + (if b = v then 1 else 0)"
  using assms by (auto simp: retain_at)

lemma retain_kind [simp]: "kind_of (cell_at (retain_element t v h) a) = kind_of (cell_at h a)"
  by (simp add: retain_at)

lemma retain_same:
  obtains n where "cell_at (retain_element t v h) a = with_count n (cell_at h a)"
  using retain_at [of t v h a] with_count_same [of "cell_at h a"] by metis

lemma retain_value [simp]: "value_of_kind (retain_element t v h) k x = value_of_kind h k x"
  by (simp add: value_of_kind_def)

lemma retain_sound:
  assumes S: "counts_sound E [] h" and v: "value_of_kind h t v"
  shows "counts_sound (owe E t v) [] (retain_element t v h)"
proof (cases "t = PrimitiveTag \<or> v \<le> 0")
  case True
  then have "owe E t v = E" by (auto simp: owe_def)
  then show ?thesis using S retain_none [OF True, of h] by simp
next
  case False
  then have kind: "kind_of (cell_at h v) = Some t" and t: "t \<noteq> PrimitiveTag" "0 < v"
    using value_of_kind_cell [OF v] by auto
  let ?c = "cell_at h v"
  have ne: "?c \<noteq> Dead" using kind by auto
  then have pos: "0 < count_of ?c" by (rule sound_count_pos [OF S])
  have same: "cell_refs j x (with_count (count_of ?c + 1) ?c) = cell_refs j x ?c" for j x
    using pos ne by (simp add: cell_refs_def)
  have eq: "retain_element t v h = set_cell h v (with_count (count_of ?c + 1) ?c)"
    using kind t by (simp add: retain_element_def Let_def)
  have count: "count_of ?c = E v + refs h t v" using counts_soundD(1) [OF S kind] by simp
  have held: "kind_of (cell_at h x) = Some j" if "j \<noteq> PrimitiveTag" "0 < x" "0 < cell_refs j x ?c" for j x
    using counts_soundD(2) [OF S that(1,2)] refs_set [OF ne, of Dead j x] that(3) by (auto simp: cell_refs_def)
  show ?thesis unfolding eq
  proof (rule sound_change [OF S kind])
    show "0 < owe E t v b \<Longrightarrow> cell_at h b \<noteq> Dead" for b
      using ne counts_soundD(3) [OF S, of b] by (auto simp: owe_def split: if_splits)
    show "count_of (with_count (count_of ?c + 1) ?c) = owe E t v v + count_list [] (Drop t v) +
        (refs h t v + cell_refs t v (with_count (count_of ?c + 1) ?c) - cell_refs t v ?c)"
      unfolding same using ne count t by (simp add: owe_def)
    show "owe E t v b + count_list [] (Drop j b) + cell_refs j b (with_count (count_of ?c + 1) ?c) =
        E b + count_list [] (Drop j b) + cell_refs j b ?c" if "b \<noteq> v" for b j
      unfolding same using that by (simp add: owe_def)
    show "kind_of (cell_at h x) = Some j" if "j \<noteq> PrimitiveTag" "0 < x"
        "0 < count_list [] (Drop j x) + cell_refs j x (with_count (count_of ?c + 1) ?c)" for j x
      using held [OF that(1,2)] that(3) unfolding same by simp
  qed (use kind ne in simp_all)
qed

text \<open>An outside owner hands its count to the cascade.\<close>

lemma owner_to_drop:
  assumes S: "counts_sound (owe E t v) w h" and v: "value_of_kind h t v"
  shows "counts_sound E (Drop t v # w) h"
proof (rule counts_soundI)
  fix a k assume k: "kind_of (cell_at h a) = Some k"
  then show kp: "k \<noteq> PrimitiveTag" by (rule counts_soundD(6) [OF S])
  have "owe E t v a = E a + (if t = k \<and> v = a then 1 else 0)" by (rule owe_at [OF v k kp])
  then show "count_of (cell_at h a) = E a + count_list (Drop t v # w) (Drop k a) + refs h k a"
    using counts_soundD(1) [OF S k] by simp
next
  fix k a assume h: "k \<noteq> PrimitiveTag" "0 < a" "0 < count_list (Drop t v # w) (Drop k a) + refs h k a"
  show "kind_of (cell_at h a) = Some k"
  proof (cases "t = k \<and> v = a")
    case True
    then show ?thesis using value_of_kind_cell [OF v] h(1,2) by simp
  next
    case False
    then have "0 < count_list w (Drop k a) + refs h k a" using h(3) by (auto split: if_splits)
    then show ?thesis by (rule counts_soundD(2) [OF S h(1,2)])
  qed
next
  fix a assume "0 < E a"
  then have "0 < owe E t v a" by (simp add: owe_def)
  then show "cell_at h a \<noteq> Dead" by (rule counts_soundD(3) [OF S])
next
  fix a assume "cell_at h a \<noteq> Dead" "count_of (cell_at h a) = 0"
  then show "Finish a \<in> set (Drop t v # w)" using counts_soundD(4) [OF S, of a] by simp
next
  fix a assume "Finish a \<in> set (Drop t v # w)"
  then show "count_of (cell_at h a) = 0" using counts_soundD(5) [OF S, of a] by simp
qed

lemma release_sound:
  assumes "counts_sound (owe E t v) [] h" and "value_of_kind h t v"
  shows "counts_sound E [] (release_element t v h)"
  unfolding release_element_def by (rule run_release_sound [OF owner_to_drop [OF assms]])

definition hand_over :: "(int \<Rightarrow> nat) \<Rightarrow> (list_type_tag \<times> int) list \<Rightarrow> int \<Rightarrow> nat" where
  "hand_over E os = fold (\<lambda>(t, v) E. owe E t v) os E"

lemma owners_to_drops:
  assumes "counts_sound (hand_over E os) w h" and "\<And>t v. (t, v) \<in> set os \<Longrightarrow> value_of_kind h t v"
  shows "counts_sound E (map (\<lambda>(t, v). Drop t v) os @ w) h"
  using assms
proof (induction os arbitrary: E)
  case (Cons o' os)
  obtain t v where o': "o' = (t, v)" by fastforce
  have "counts_sound (owe E t v) (map (\<lambda>(t, v). Drop t v) os @ w) h"
    using Cons.IH [of "owe E t v"] Cons.prems by (simp add: hand_over_def o')
  then show ?case using owner_to_drop [of E t v] Cons.prems(2) [of t v] by (simp add: o')
qed (simp add: hand_over_def)

text \<open>A new object has one owner, and owns what the cascade was about to release.\<close>

lemma sound_new:
  assumes S: "counts_sound E (owned c) h" and c: "kind_of c = Some j" "j \<noteq> PrimitiveTag" "count_of c = 1"
  shows "counts_sound (E(int (length h) + 1 := 1)) [] (h @ [c])"
proof -
  let ?n = "int (length h) + 1"
  have at: "cell_at (h @ [c]) a = (if a = ?n then c else cell_at h a)" for a
    by (auto simp: cell_at_def nth_append)
  have "\<not> nat ?n \<le> length h" by linarith
  then have dead: "cell_at h ?n = Dead" by (simp add: cell_at_def)
  have rf: "refs (h @ [c]) k v = count_list (owned c) (Drop k v) + refs h k v" for k v
    using c(3) by (simp add: refs_def cell_refs_def)
  have none: "count_list (owned c) (Drop k ?n) + refs h k ?n = 0" if "k \<noteq> PrimitiveTag" for k
    using counts_soundD(2) [OF S that, of ?n] dead
    by (cases "count_list (owned c) (Drop k ?n) + refs h k ?n") auto
  have ne: "c \<noteq> Dead" using c(1) by auto
  show ?thesis
  proof (rule counts_soundI)
    fix a k assume k: "kind_of (cell_at (h @ [c]) a) = Some k"
    show kp: "k \<noteq> PrimitiveTag"
      using k c counts_soundD(6) [OF S, of a k] unfolding at by (auto split: if_splits)
    show "count_of (cell_at (h @ [c]) a) = (E(?n := 1)) a + count_list [] (Drop k a) + refs (h @ [c]) k a"
    proof (cases "a = ?n")
      case True
      then show ?thesis using c(3) none [OF kp] unfolding at rf by simp
    next
      case False
      then have "kind_of (cell_at h a) = Some k" using k by (simp add: at)
      from counts_soundD(1) [OF S this] show ?thesis using False unfolding at rf by simp
    qed
  next
    fix k v assume h: "k \<noteq> PrimitiveTag" "0 < v" "0 < count_list [] (Drop k v) + refs (h @ [c]) k v"
    then have "kind_of (cell_at h v) = Some k" using counts_soundD(2) [OF S h(1,2)] unfolding rf by simp
    then show "kind_of (cell_at (h @ [c]) v) = Some k" using dead unfolding at by auto
  next
    fix a assume "0 < (E(?n := 1)) a"
    then show "cell_at (h @ [c]) a \<noteq> Dead" using ne counts_soundD(3) [OF S, of a] unfolding at by (auto split: if_splits)
  next
    fix a assume "cell_at (h @ [c]) a \<noteq> Dead" "count_of (cell_at (h @ [c]) a) = 0"
    then show "Finish a \<in> set []"
      using c(3) counts_soundD(4) [OF S, of a] unfolding at by (auto split: if_splits)
  qed simp
qed

subsection \<open>Stores into an object\<close>

text \<open>
  A store into a live object: the new content owns what it owned before and what an owner outside
  gave it, less what is left to release in \<open>w\<close> and what an owner outside took.
\<close>

lemma sound_store:
  assumes S: "counts_sound E [] h" and live: "kind_of (cell_at h a) = Some k"
    and c: "kind_of c = Some k" "count_of c = count_of (cell_at h a)"
    and acc: "\<And>v j. j \<noteq> PrimitiveTag \<Longrightarrow> kind_of (cell_at h v) = Some j \<Longrightarrow>
      E' v + count_list w (Drop j v) + count_list (owned c) (Drop j v) =
      E v + count_list (owned (cell_at h a)) (Drop j v)"
    and kinds: "\<And>t v. Drop t v \<in> set w \<union> set (owned c) \<Longrightarrow> value_of_kind h t v"
    and live': "\<And>v. 0 < E' v \<Longrightarrow> cell_at h v \<noteq> Dead"
    and nofin: "\<And>b. Finish b \<notin> set w"
  shows "counts_sound E' w (set_cell h a c)"
proof -
  have ne: "cell_at h a \<noteq> Dead" using live by auto
  have pos: "0 < count_of (cell_at h a)" by (rule sound_count_pos [OF S ne])
  have old: "cell_refs j x (cell_at h a) = count_list (owned (cell_at h a)) (Drop j x)" for j x
    using pos by (simp add: cell_refs_def)
  have new: "cell_refs j x c = count_list (owned c) (Drop j x)" for j x
    using pos c(2) by (simp add: cell_refs_def)
  have part: "cell_refs j x (cell_at h a) \<le> refs h j x" for j x
    using refs_set [OF ne, of Dead j x] by (simp add: cell_refs_def)
  have np: "j \<noteq> PrimitiveTag" if "kind_of (cell_at h x) = Some j" for j x
    by (rule counts_soundD(6) [OF S that])
  show ?thesis
  proof (rule sound_change [OF S live c(1)])
    have "count_of (cell_at h a) = E a + refs h k a" using counts_soundD(1) [OF S live] by simp
    then show "count_of c = E' a + count_list w (Drop k a) + (refs h k a + cell_refs k a c - cell_refs k a (cell_at h a))"
      using acc [OF np [OF live] live] part [of k a] unfolding old new c(2) by linarith
    show "E' b + count_list w (Drop j b) + cell_refs j b c = E b + count_list [] (Drop j b) + cell_refs j b (cell_at h a)"
      if "kind_of (cell_at h b) = Some j" for b j
      using acc [OF np [OF that] that] unfolding old new by simp
    show "kind_of (cell_at h v) = Some t" if "t \<noteq> PrimitiveTag" "0 < v" "0 < count_list w (Drop t v) + cell_refs t v c" for t v
    proof (rule value_of_kind_cell [OF kinds that(1,2)])
      show "Drop t v \<in> set w \<union> set (owned c)"
        using that(3) unfolding new by (metis Un_iff add_eq_0_iff_both_eq_0 count_list_0_iff neq0_conv)
    qed
    show "Finish a \<in> set w \<longleftrightarrow> count_of c = 0" using nofin pos c(2) by simp
  qed (use live' nofin in simp_all)
qed

text \<open>What an object owns is there.\<close>

lemma sound_owned:
  assumes S: "counts_sound E [] h" and own: "Drop t v \<in> set (owned (cell_at h a))"
  shows "value_of_kind h t v"
proof (cases "t = PrimitiveTag \<or> v \<le> 0")
  case False
  have ne: "cell_at h a \<noteq> Dead" using own by auto
  have "0 < cell_refs t v (cell_at h a)"
    using sound_count_pos [OF S ne] own by (simp add: cell_refs_def) (metis count_list_0_iff gr0I)
  then have "0 < refs h t v"
    using refs_set [OF ne, of Dead t v] by (simp add: cell_refs_def [of _ _ Dead])
  then show ?thesis using counts_soundD(2) [OF S, of t v] False by (simp add: value_of_kind_def)
qed (auto simp: value_of_kind_def)

text \<open>\<open>moves h t ins outs old new w\<close>: every counted value of kind \<open>t\<close> is in the new content or the
  left-over releases as often as in the old content, plus \<open>ins\<close>, less \<open>outs\<close>.\<close>

definition moves :: "action list \<Rightarrow> action list \<Rightarrow> action list \<Rightarrow> action list \<Rightarrow> action list \<Rightarrow> bool" where
  "moves ins outs old new w \<longleftrightarrow>
     (\<forall>j v. j \<noteq> PrimitiveTag \<longrightarrow>
        count_list w (Drop j v) + count_list new (Drop j v) + count_list outs (Drop j v) =
        count_list old (Drop j v) + count_list ins (Drop j v))"

lemma movesD:
  assumes "moves ins outs old new w" and "j \<noteq> PrimitiveTag"
  shows "count_list w (Drop j v) + count_list new (Drop j v) + count_list outs (Drop j v) =
    count_list old (Drop j v) + count_list ins (Drop j v)"
  using assms unfolding moves_def by blast

lemma moves_members:
  assumes "moves ins outs old new w" and "Drop t v \<in> set w \<union> set new \<union> set outs" and "t \<noteq> PrimitiveTag"
  shows "Drop t v \<in> set old \<union> set ins"
proof -
  have "0 < count_list w (Drop t v) + count_list new (Drop t v) + count_list outs (Drop t v)"
    using assms(2) by (metis (no_types, lifting) Un_iff add_gr_0 count_list_0_iff neq0_conv)
  then have "0 < count_list old (Drop t v) + count_list ins (Drop t v)"
    using movesD [OF assms(1,3), of v] by simp
  then show ?thesis by (metis Un_iff add_eq_0_iff_both_eq_0 count_list_0_iff neq0_conv)
qed

lemma moves_kinds:
  assumes S: "counts_sound E [] h" and m: "moves ins outs (owned (cell_at h a)) new w"
    and ins: "\<And>t v. Drop t v \<in> set ins \<Longrightarrow> value_of_kind h t v"
    and "Drop t v \<in> set w \<union> set new \<union> set outs"
  shows "value_of_kind h t v"
  using moves_members [OF m assms(4)] ins [of t v] sound_owned [OF S, of t v a]
  by (cases "t = PrimitiveTag") (auto simp: value_of_kind_def)

text \<open>The three ways an object changes: it takes a value from an owner outside, it gives values
  to the cascade, it hands a value to an owner outside.\<close>

lemma sound_put:
  assumes S: "counts_sound (owe E t v) [] h" and live: "kind_of (cell_at h a) = Some k"
    and c: "kind_of c = Some k" "count_of c = count_of (cell_at h a)"
    and v: "value_of_kind h t v" and m: "moves [Drop t v] [] (owned (cell_at h a)) (owned c) w"
    and nofin: "\<And>b. Finish b \<notin> set w"
  shows "counts_sound E w (set_cell h a c)"
proof (rule sound_store [OF S live c])
  show "E x + count_list w (Drop j x) + count_list (owned c) (Drop j x) =
      owe E t v x + count_list (owned (cell_at h a)) (Drop j x)"
    if "j \<noteq> PrimitiveTag" "kind_of (cell_at h x) = Some j" for x j
  proof -
    have "owe E t v x = E x + (if t = j \<and> v = x then 1 else 0)"
      by (rule owe_at [OF v that(2,1)])
    then show ?thesis using movesD [OF m that(1), of x] by auto
  qed
  show "value_of_kind h j x" if "Drop j x \<in> set w \<union> set (owned c)" for j x
    by (rule moves_kinds [OF S m]) (use that v in auto)
  show "cell_at h x \<noteq> Dead" if "0 < E x" for x
    using counts_soundD(3) [OF S, of x] that by (simp add: owe_def split: if_splits)
qed (rule nofin)

lemma sound_give:
  assumes S: "counts_sound E [] h" and live: "kind_of (cell_at h a) = Some k"
    and c: "kind_of c = Some k" "count_of c = count_of (cell_at h a)"
    and m: "moves [] [] (owned (cell_at h a)) (owned c) w"
    and nofin: "\<And>b. Finish b \<notin> set w"
  shows "counts_sound E w (set_cell h a c)"
proof (rule sound_store [OF S live c])
  show "E x + count_list w (Drop j x) + count_list (owned c) (Drop j x) =
      E x + count_list (owned (cell_at h a)) (Drop j x)" if "j \<noteq> PrimitiveTag" for x j
    using movesD [OF m that, of x] by simp
  show "value_of_kind h j x" if "Drop j x \<in> set w \<union> set (owned c)" for j x
    by (rule moves_kinds [OF S m]) (use that in auto)
qed (use counts_soundD(3) [OF S] nofin in blast)+

lemma sound_hand_out:
  assumes S: "counts_sound E [] h" and live: "kind_of (cell_at h a) = Some k"
    and c: "kind_of c = Some k" "count_of c = count_of (cell_at h a)"
    and m: "moves [] [Drop t v] (owned (cell_at h a)) (owned c) []"
  shows "counts_sound (owe E t v) [] (set_cell h a c)"
proof (rule sound_store [OF S live c])
  have v: "value_of_kind h t v" by (rule moves_kinds [OF S m]) auto
  show "owe E t v x + count_list [] (Drop j x) + count_list (owned c) (Drop j x) =
      E x + count_list (owned (cell_at h a)) (Drop j x)"
    if "j \<noteq> PrimitiveTag" "kind_of (cell_at h x) = Some j" for x j
  proof -
    have "owe E t v x = E x + (if t = j \<and> v = x then 1 else 0)"
      by (rule owe_at [OF v that(2,1)])
    moreover have "count_list (owned c) (Drop j x) + (if t = j \<and> v = x then 1 else 0) = count_list (owned (cell_at h a)) (Drop j x)"
      using movesD [OF m that(1), of x] by auto
    ultimately show ?thesis by simp
  qed
  show "value_of_kind h j x" if "Drop j x \<in> set [] \<union> set (owned c)" for j x
    by (rule moves_kinds [OF S m]) (use that in auto)
  show "cell_at h x \<noteq> Dead" if "0 < owe E t v x" for x
    using counts_soundD(3) [OF S, of x] value_of_kind_cell [OF v] that
    by (cases "t \<noteq> PrimitiveTag \<and> 0 < v \<and> x = v") (auto simp: owe_def split: if_splits)
qed simp

lemma moves_refl [simp]: "moves [] [] w w []"
  by (simp add: moves_def)

text \<open>An object may change what does not own anything.\<close>

lemma sound_same:
  assumes "counts_sound E [] h" and "kind_of (cell_at h a) = Some k" and "kind_of c = Some k"
    and "count_of c = count_of (cell_at h a)" and "owned c = owned (cell_at h a)"
  shows "counts_sound E [] (set_cell h a c)"
  by (rule sound_give [OF assms(1-4)]) (simp_all add: assms(5))

subsection \<open>What a cascade leaves alone\<close>

text \<open>A cascade changes counts and frees objects, and never changes what an object holds.\<close>

definition same_content :: "cell \<Rightarrow> cell \<Rightarrow> bool" where
  "same_content c d \<longleftrightarrow> with_count 0 c = with_count 0 d"

lemma same_content_refl [simp]: "same_content c c" "same_content c (with_count n c)"
  by (simp_all add: same_content_def)

lemma same_content_trans: "same_content c d \<Longrightarrow> same_content d e \<Longrightarrow> same_content c e"
  by (simp add: same_content_def)

lemma same_content_iff: "same_content c d \<longleftrightarrow> (\<exists>n. d = with_count n c)"
  unfolding same_content_def by (metis with_count_same with_count_twice)

lemma release_step_content:
  "release_step t v h = (acts, h') \<Longrightarrow> same_content (cell_at h b) (cell_at h' b)"
proof (cases "cell_at h v = Dead")
  case False
  assume "release_step t v h = (acts, h')"
  then show ?thesis using cell_at_set [OF False] by (auto simp: release_step_def Let_def split: if_splits)
qed (auto simp: release_step_def Let_def split: if_splits)

lemma run_release_Dead: "cell_at h b = Dead \<Longrightarrow> cell_at (run_release w h) b = Dead"
proof (induction w h rule: run_release.induct)
  case (2 t v w h)
  obtain acts h' where step: "release_step t v h = (acts, h')" by fastforce
  have "cell_at h' b = Dead"
    using release_step_content [OF step, of b] 2(2) by (simp add: same_content_iff)
  then show ?case using 2(1) [OF step [symmetric] refl] step by simp
qed (simp_all add: cell_at_set_Dead)

lemma run_release_content:
  "cell_at (run_release w h) b = Dead \<or> same_content (cell_at h b) (cell_at (run_release w h) b)"
proof (induction w h rule: run_release.induct)
  case (2 t v w h)
  obtain acts h' where step: "release_step t v h = (acts, h')" by fastforce
  from 2 [OF step [symmetric] refl] show ?case
    using same_content_trans [OF release_step_content [OF step, of b]] step by auto
next
  case (3 a w h)
  then show ?case
    using run_release_Dead [of "set_cell h a Dead" b w] by (cases "b = a") (auto simp: cell_at_set_Dead)
qed simp

text \<open>An object with an owner outside the heap survives every cascade.\<close>

lemma run_release_owned:
  assumes "counts_sound E [] (run_release w h)" and "0 < E b"
  shows "same_content (cell_at h b) (cell_at (run_release w h) b)"
  using counts_soundD(3) [OF assms] run_release_content [of w h b] by simp

subsection \<open>Emptying before or after the releases\<close>

text \<open>
  \<open>clear\<close> releases what the object owns before it empties the storage. When the caller holds the
  object this is the same as emptying it first: no release on the way reaches its death.
\<close>

definition alter_cell :: "int \<Rightarrow> (cell \<Rightarrow> cell) \<Rightarrow> heap \<Rightarrow> heap" where
  "alter_cell a f h = (if cell_at h a = Dead then h else set_cell h a (f (cell_at h a)))"

lemma set_cell_twice: "set_cell (set_cell h a c) a d = set_cell h a d"
  by (simp add: set_cell_def)

lemma set_cell_id: "cell_at h a = c \<Longrightarrow> c \<noteq> Dead \<Longrightarrow> set_cell h a c = h"
  using cell_at_live [of h a] by (metis list_update_id set_cell_def)

lemma set_cell_swap:
  assumes "a \<noteq> v" and "cell_at h a \<noteq> Dead" and "cell_at h v \<noteq> Dead"
  shows "set_cell (set_cell h a c) v d = set_cell (set_cell h v d) a c"
proof -
  have "nat a - 1 \<noteq> nat v - 1" using assms cell_at_live [OF assms(2)] cell_at_live [OF assms(3)] by linarith
  then show ?thesis by (simp add: set_cell_def list_update_swap)
qed

lemma alter_cell_at:
  "cell_at (alter_cell a f h) b = (if b = a \<and> cell_at h a \<noteq> Dead then f (cell_at h a) else cell_at h b)"
  using cell_at_set [of h a "f (cell_at h a)" b] by (auto simp: alter_cell_def)

lemma alter_set:
  assumes "a \<noteq> v" and "cell_at h v \<noteq> Dead"
  shows "set_cell (alter_cell a f h) v d = alter_cell a f (set_cell h v d)"
  using assms cell_at_set [OF assms(2), of d a] set_cell_swap [OF assms(1) _ assms(2), of "f (cell_at h a)" d]
  by (auto simp: alter_cell_def)

lemma alter_recount:
  assumes "cell_at h a \<noteq> Dead" and "\<And>c n. f (with_count n c) = with_count n (f c)"
  shows "set_cell (alter_cell a f h) a (with_count n (f (cell_at h a))) =
    alter_cell a f (set_cell h a (with_count n (cell_at h a)))"
  using assms by (simp add: alter_cell_def set_cell_twice cell_at_set)

lemma alter_run_release:
  assumes "counts_sound E w (alter_cell a f h)" and "0 < E a"
    and f: "\<And>c. kind_of (f c) = kind_of c" "\<And>c n. f (with_count n c) = with_count n (f c)"
  shows "run_release w (alter_cell a f h) = alter_cell a f (run_release w h)"
  using assms(1)
proof (induction w h rule: run_release.induct)
  case (2 t v w h)
  let ?g = "alter_cell a f h"
  have count: "count_of (f c) = count_of c" for c
  proof -
    have "count_of (f (with_count (count_of c) c)) = (if f c = Dead then 0 else count_of c)"
      unfolding f(2) by simp
    moreover have "f c = Dead \<longleftrightarrow> c = Dead" using f(1) [of c] by (metis kind_None)
    ultimately show ?thesis by (auto split: if_splits)
  qed
  have ne: "f (cell_at h a) \<noteq> Dead" if "cell_at h a \<noteq> Dead" using f(1) [of "cell_at h a"] that by (metis kind_None)
  obtain acts h' where step: "release_step t v h = (acts, h')" by fastforce
  have alt: "release_step t v ?g = (acts, alter_cell a f h')"
  proof (cases "t = PrimitiveTag \<or> kind_of (cell_at h v) \<noteq> Some t")
    case True
    moreover have "kind_of (cell_at ?g v) = kind_of (cell_at h v)" using f(1) by (simp add: alter_cell_at)
    ultimately show ?thesis using step by (auto simp: release_step_def Let_def)
  next
    case False
    then have tv: "t \<noteq> PrimitiveTag" "kind_of (cell_at h v) = Some t" "cell_at h v \<noteq> Dead" by auto
    show ?thesis
    proof (cases "v = a")
      case True
      have at: "cell_at ?g a = f (cell_at h a)" using tv True by (simp add: alter_cell_at)
      have "kind_of (cell_at ?g a) = Some t" using at f(1) tv True by simp
      then have "1 < count_of (cell_at h a)"
        using counts_soundD(1) [OF 2(2), of a t] assms(2) at count True by simp
      then show ?thesis
        using step tv True at count f(1) alter_recount [OF _ f(2), of h a "count_of (cell_at h a) - 1"]
        by (simp add: release_step_def Let_def)
    next
      case False
      have "cell_at ?g v = cell_at h v" using False by (simp add: alter_cell_at)
      then show ?thesis
        using step tv False alter_set [of a v h f] by (auto simp: release_step_def Let_def split: if_splits)
    qed
  qed
  have "counts_sound E (acts @ w) (alter_cell a f h')" by (rule drop_sound [OF 2(2) alt])
  from 2(1) [OF step [symmetric] refl this] show ?case using step alt by simp
next
  case (3 b w h)
  let ?g = "alter_cell a f h"
  have "b \<noteq> a"
  proof
    assume "b = a"
    then have z: "count_of (cell_at ?g a) = 0" using counts_soundD(5) [OF 3(2), of a] by simp
    obtain k where "kind_of (cell_at ?g a) = Some k"
      using counts_soundD(3) [OF 3(2) assms(2)] by (cases "kind_of (cell_at ?g a)") auto
    from counts_soundD(1) [OF 3(2) this] show False using z assms(2) by simp
  qed
  have eq: "set_cell ?g b Dead = alter_cell a f (set_cell h b Dead)"
  proof (cases "cell_at h b = Dead")
    case True
    then show ?thesis using set_cell_Dead [of h b] set_cell_Dead [of ?g b] \<open>b \<noteq> a\<close> by (simp add: alter_cell_at)
  next
    case False
    then show ?thesis using \<open>b \<noteq> a\<close> by (intro alter_set) auto
  qed
  have "counts_sound E w (alter_cell a f (set_cell h b Dead))"
    using finish_sound [OF 3(2)] eq by simp
  from 3(1) [OF this] show ?case using eq by simp
qed simp

lemma clear_sound:
  assumes S: "counts_sound E [] h" and live: "kind_of (cell_at h a) = Some k" and own: "0 < E a"
    and f: "\<And>c. kind_of (f c) = kind_of c" "\<And>c n. f (with_count n c) = with_count n (f c)"
      "owned (f (cell_at h a)) = []" "count_of (f (cell_at h a)) = count_of (cell_at h a)"
  shows "counts_sound E [] (alter_cell a f (run_release (owned (cell_at h a)) h))"
    and "alter_cell a f (run_release (owned (cell_at h a)) h) =
      run_release (owned (cell_at h a)) (alter_cell a f h)"
proof -
  have "cell_at h a \<noteq> Dead" using live by auto
  then have S': "counts_sound E (owned (cell_at h a)) (alter_cell a f h)"
    using sound_give [OF S live, of "f (cell_at h a)" "owned (cell_at h a)"] live f
    by (simp add: alter_cell_def moves_def)
  then show eq: "alter_cell a f (run_release (owned (cell_at h a)) h) =
      run_release (owned (cell_at h a)) (alter_cell a f h)"
    by (intro alter_run_release [symmetric]) (use own f in auto)
  show "counts_sound E [] (alter_cell a f (run_release (owned (cell_at h a)) h))"
    unfolding eq by (rule run_release_sound [OF S'])
qed

subsection \<open>How long a release takes\<close>

text \<open>The cascade with a budget of steps.\<close>

fun release_fuel :: "nat \<Rightarrow> action list \<Rightarrow> heap \<Rightarrow> heap option" where
  "release_fuel n [] h = Some h"
| "release_fuel 0 (x # w) h = None"
| "release_fuel (Suc n) (Drop t v # w) h =
     (let (acts, h') = release_step t v h in release_fuel n (acts @ w) h')"
| "release_fuel (Suc n) (Finish a # w) h = release_fuel n w (set_cell h a Dead)"

text \<open>The steps the objects that still count can add: one for each, and one for each handle it owns.\<close>

definition slots :: "cell \<Rightarrow> nat" where
  "slots c = (if 0 < count_of c then length (owned c) + 1 else 0)"

definition work :: "heap \<Rightarrow> nat" where
  "work h = sum_list (map slots h)"

lemma work_set_cell: "cell_at h a \<noteq> Dead \<Longrightarrow> work (set_cell h a c) + slots (cell_at h a) = work h + slots c"
  using cell_at_live [of h a] sum_list_update_nat [of "nat a - 1" h slots c] by (simp add: work_def set_cell_def)

lemma release_step_work:
  assumes "release_step t v h = (acts, h')"
  shows "length acts + work h' \<le> work h"
proof (cases "kind_of (cell_at h v) = Some t \<and> t \<noteq> PrimitiveTag \<and> count_of (cell_at h v) \<noteq> 0")
  case True
  then have live: "cell_at h v \<noteq> Dead" by auto
  show ?thesis
  proof (cases "count_of (cell_at h v) > 1")
    case True
    then have "acts = []" "h' = set_cell h v (with_count (count_of (cell_at h v) - 1) (cell_at h v))"
      using assms \<open>kind_of (cell_at h v) = Some t \<and> _\<close> by (auto simp: release_step_def Let_def)
    then show ?thesis using work_set_cell [OF live, of "with_count (count_of (cell_at h v) - 1) (cell_at h v)"] True live
      by (simp add: slots_def)
  next
    case False
    then have "acts = owned (cell_at h v) @ [Finish v]" "h' = set_cell h v (with_count 0 (cell_at h v))"
      using assms \<open>kind_of (cell_at h v) = Some t \<and> _\<close> by (auto simp: release_step_def Let_def)
    then show ?thesis
      using work_set_cell [OF live, of "with_count 0 (cell_at h v)"] \<open>_ \<and> _ \<and> count_of (cell_at h v) \<noteq> 0\<close> live
      by (simp add: slots_def)
  qed
next
  case False
  then have "acts = [] \<and> h' = h" using assms by (auto simp: release_step_def Let_def split: if_splits)
  then show ?thesis by simp
qed

lemma finish_work: "work (set_cell h a Dead) \<le> work h"
  using work_set_cell [of h a Dead] set_cell_Dead [of h a] by (cases "cell_at h a = Dead") (auto simp: slots_def)

lemma run_release_fuel: "length w + work h \<le> n \<Longrightarrow> release_fuel n w h = Some (run_release w h)"
proof (induction n w h rule: release_fuel.induct)
  case (3 n t v w h)
  obtain acts h' where step: "release_step t v h = (acts, h')" by fastforce
  show ?case using "3.IH" [OF step [symmetric] refl] "3.prems" release_step_work [OF step] step by simp
next
  case (4 n a w h)
  then show ?case using finish_work [of h a] by simp
qed simp_all

text \<open>
  C38. A release ends: however deep the objects are nested, and whether or not they form cycles,
  the cascade takes at most one step for the release itself, one for each object that still counts
  and one for each handle such an object owns.
\<close>

theorem release_ends:
  "release_fuel (1 + work h) [Drop t v] h = Some (release_element t v h)"
  unfolding release_element_def by (rule run_release_fuel) simp

end
