(* ===== verification/Lists.thy ===== *)
theory Lists
  imports CountHeap Steps
begin

text \<open>
  \<open>List[T]\<close>, \<open>collections/list.rs\<close>: the operations on lists of eight-byte elements over the
  counted heap. A handle whose magic word does not match is a cell that is no list. An index is
  a signed 64-bit value; the cast of a negative one to \<open>usize\<close> lies past any length. The calls
  that end the process answer a fault.
\<close>

subsection \<open>Handles\<close>

definition list_ref :: "heap \<Rightarrow> int \<Rightarrow> list_impl option" where
  "list_ref h a = (case cell_at h a of ListCell l \<Rightarrow> Some l | _ \<Rightarrow> None)"

definition list_mut :: "int \<Rightarrow> (list_impl \<Rightarrow> list_impl) \<Rightarrow> heap \<Rightarrow> heap" where
  "list_mut a f h = (case cell_at h a of ListCell l \<Rightarrow> set_cell h a (ListCell (f l)) | _ \<Rightarrow> h)"

definition pith_list_new :: "int \<Rightarrow> heap \<Rightarrow> int \<times> heap" where
  "pith_list_new code h =
     (int (length h) + 1, h @ [ListCell \<lparr>rc = 1, type_tag = element_tag_from_code code, values8 = []\<rparr>])"

definition pith_list_len :: "int \<Rightarrow> heap \<Rightarrow> int" where
  "pith_list_len a h = (case list_ref h a of None \<Rightarrow> 0 | Some l \<Rightarrow> int (length (values8 l)))"

definition pith_list_retain_handle :: "int \<Rightarrow> heap \<Rightarrow> heap" where
  "pith_list_retain_handle a h = retain_element ListTag a h"

definition pith_list_release_handle :: "int \<Rightarrow> heap \<Rightarrow> heap" where
  "pith_list_release_handle a h = release_element ListTag a h"

subsection \<open>The storage\<close>

definition insert_value_at :: "nat \<Rightarrow> int \<Rightarrow> list_impl \<Rightarrow> list_impl" where
  "insert_value_at index v l =
     (let idx = min index (length (values8 l)) in
      l\<lparr>values8 := take idx (values8 l) @ v # drop idx (values8 l)\<rparr>)"

definition push_value :: "int \<Rightarrow> list_impl \<Rightarrow> list_impl" where
  "push_value v l = l\<lparr>values8 := values8 l @ [v]\<rparr>"

definition set_value :: "nat \<Rightarrow> int \<Rightarrow> list_impl \<Rightarrow> list_impl" where
  "set_value index v l =
     (if index < length (values8 l) then l\<lparr>values8 := (values8 l)[index := v]\<rparr> else l)"

definition remove_at :: "nat \<Rightarrow> list_impl \<Rightarrow> list_impl" where
  "remove_at index l =
     (if index < length (values8 l)
      then l\<lparr>values8 := take index (values8 l) @ drop (Suc index) (values8 l)\<rparr> else l)"

definition clear_values :: "list_impl \<Rightarrow> list_impl" where
  "clear_values l = l\<lparr>values8 := []\<rparr>"

definition swap_values :: "nat \<Rightarrow> nat \<Rightarrow> list_impl \<Rightarrow> list_impl" where
  "swap_values a b l =
     (if a < length (values8 l) \<and> b < length (values8 l)
      then l\<lparr>values8 := (values8 l)[a := values8 l ! b, b := values8 l ! a]\<rparr> else l)"

definition get_value :: "list_impl \<Rightarrow> nat \<Rightarrow> int option" where
  "get_value l index = (if index < length (values8 l) then Some (values8 l ! index) else None)"

definition displaced_element :: "list_impl \<Rightarrow> nat \<Rightarrow> int option" where
  "displaced_element l index = (if type_tag l = PrimitiveTag then None else get_value l index)"

definition release_displaced :: "list_type_tag \<Rightarrow> int option \<Rightarrow> heap \<Rightarrow> heap" where
  "release_displaced t d h = (case d of None \<Rightarrow> h | Some raw \<Rightarrow> release_element t raw h)"

text \<open>The kind a store carries: an empty untagged list adopts it. The answer says whether the
  list owns counts of the kind.\<close>

definition adopt_element_tag :: "list_type_tag \<Rightarrow> list_impl \<Rightarrow> bool \<times> list_impl" where
  "adopt_element_tag tag l =
     (if tag = PrimitiveTag then (False, l)
      else if type_tag l = tag then (True, l)
      else if type_tag l = PrimitiveTag \<and> values8 l = [] then (True, l\<lparr>type_tag := tag\<rparr>)
      else (False, l))"

definition borrowed_store_retains :: "int \<Rightarrow> int \<Rightarrow> int \<Rightarrow> list_impl \<Rightarrow> heap \<Rightarrow> heap" where
  "borrowed_store_retains a v code l h =
     (let tag = element_tag_from_code (as_i32 code); (owns, l') = adopt_element_tag tag l;
          h1 = set_cell h a (ListCell l'); h2 = retain_element (type_tag l') v h1 in
      if owns then h2 else retain_element tag v h2)"

subsection \<open>Stores\<close>

definition push_value_inner :: "int \<Rightarrow> int \<Rightarrow> bool \<Rightarrow> heap \<Rightarrow> heap" where
  "push_value_inner a v takes h =
     (case list_ref h a of
        None \<Rightarrow> h
      | Some l \<Rightarrow> list_mut a (push_value v) (if takes then h else retain_element (type_tag l) v h))"

definition pith_list_push_value :: "int \<Rightarrow> int \<Rightarrow> heap \<Rightarrow> heap" where
  "pith_list_push_value a v h = push_value_inner a v False h"

definition pith_list_push_value_owned :: "int \<Rightarrow> int \<Rightarrow> heap \<Rightarrow> heap" where
  "pith_list_push_value_owned a v h = push_value_inner a v True h"

definition pith_list_push_value_kind :: "int \<Rightarrow> int \<Rightarrow> int \<Rightarrow> heap \<Rightarrow> heap" where
  "pith_list_push_value_kind a v code h =
     (case list_ref h a of
        None \<Rightarrow> h
      | Some l \<Rightarrow> list_mut a (push_value v) (borrowed_store_retains a v code l h))"

definition insert_value_inner :: "int \<Rightarrow> int \<Rightarrow> int \<Rightarrow> bool \<Rightarrow> heap \<Rightarrow> heap" where
  "insert_value_inner a index v takes h =
     (case list_ref h a of
        None \<Rightarrow> h
      | Some l \<Rightarrow>
          list_mut a (insert_value_at (nat (max index 0)) v)
            (if takes then h else retain_element (type_tag l) v h))"

definition pith_list_insert_value :: "int \<Rightarrow> int \<Rightarrow> int \<Rightarrow> heap \<Rightarrow> heap" where
  "pith_list_insert_value a index v h = insert_value_inner a index v False h"

definition pith_list_insert_value_owned :: "int \<Rightarrow> int \<Rightarrow> int \<Rightarrow> heap \<Rightarrow> heap" where
  "pith_list_insert_value_owned a index v h = insert_value_inner a index v True h"

definition pith_list_insert_value_kind :: "int \<Rightarrow> int \<Rightarrow> int \<Rightarrow> int \<Rightarrow> heap \<Rightarrow> heap" where
  "pith_list_insert_value_kind a index v code h =
     (case list_ref h a of
        None \<Rightarrow> h
      | Some l \<Rightarrow>
          list_mut a (insert_value_at (nat (max index 0)) v) (borrowed_store_retains a v code l h))"

definition inside :: "int \<Rightarrow> list_impl \<Rightarrow> bool" where
  "inside index l \<longleftrightarrow> 0 \<le> index \<and> nat index < length (values8 l)"

text \<open>The incoming element is retained before the displaced one is released.\<close>

definition set_value_inner :: "int \<Rightarrow> int \<Rightarrow> int \<Rightarrow> bool \<Rightarrow> heap \<Rightarrow> heap" where
  "set_value_inner a index v takes h =
     (case list_ref h a of
        None \<Rightarrow> h
      | Some l \<Rightarrow>
          if \<not> inside index l then (if takes then release_element (type_tag l) v h else h)
          else
            (let h1 = (if takes then h else retain_element (type_tag l) v h);
                 displaced = displaced_element l (nat index) in
             release_displaced (type_tag l) displaced (list_mut a (set_value (nat index) v) h1)))"

definition pith_list_set_value :: "int \<Rightarrow> int \<Rightarrow> int \<Rightarrow> heap \<Rightarrow> heap" where
  "pith_list_set_value a index v h = set_value_inner a index v False h"

definition pith_list_set_value_owned :: "int \<Rightarrow> int \<Rightarrow> int \<Rightarrow> heap \<Rightarrow> heap" where
  "pith_list_set_value_owned a index v h = set_value_inner a index v True h"

definition pith_list_set_value_kind :: "int \<Rightarrow> int \<Rightarrow> int \<Rightarrow> int \<Rightarrow> heap \<Rightarrow> heap" where
  "pith_list_set_value_kind a index v code h =
     (case list_ref h a of
        None \<Rightarrow> h
      | Some l \<Rightarrow>
          if \<not> inside index l then h
          else
            (let h1 = borrowed_store_retains a v code l h;
                 displaced = displaced_element l (nat index) in
             release_displaced (type_tag l) displaced (list_mut a (set_value (nat index) v) h1)))"

definition pith_list_set_scalar :: "int \<Rightarrow> int \<Rightarrow> int \<Rightarrow> heap \<Rightarrow> heap" where
  "pith_list_set_scalar a index v h =
     (case list_ref h a of
        None \<Rightarrow> h
      | Some l \<Rightarrow>
          if type_tag l \<noteq> PrimitiveTag then set_value_inner a index v False h
          else if inside index l then list_mut a (set_value (nat index) v) h else h)"

text \<open>The strict stores behind \<open>xs[i] = v\<close>, and the checked ones inside a fallible function.\<close>

definition check_store_index :: "int \<Rightarrow> int \<Rightarrow> heap \<Rightarrow> unit outcome" where
  "check_store_index a index h =
     (case list_ref h a of
        None \<Rightarrow> Inl (InvalidHandle ''list'')
      | Some l \<Rightarrow>
          if index < 0 \<or> int (length (values8 l)) \<le> index
          then Inl (IndexOutOfBounds index (int (length (values8 l)))) else Inr ())"

definition strictly :: "int \<Rightarrow> int \<Rightarrow> (heap \<Rightarrow> heap) \<Rightarrow> heap \<Rightarrow> heap outcome" where
  "strictly a index store h =
     (case check_store_index a index h of Inl e \<Rightarrow> Inl e | Inr _ \<Rightarrow> Inr (store h))"

definition pith_list_set_value_strict :: "int \<Rightarrow> int \<Rightarrow> int \<Rightarrow> heap \<Rightarrow> heap outcome" where
  "pith_list_set_value_strict a index v = strictly a index (set_value_inner a index v False)"

definition pith_list_set_value_owned_strict :: "int \<Rightarrow> int \<Rightarrow> int \<Rightarrow> heap \<Rightarrow> heap outcome" where
  "pith_list_set_value_owned_strict a index v = strictly a index (set_value_inner a index v True)"

definition pith_list_set_scalar_strict :: "int \<Rightarrow> int \<Rightarrow> int \<Rightarrow> heap \<Rightarrow> heap outcome" where
  "pith_list_set_scalar_strict a index v = strictly a index (pith_list_set_scalar a index v)"

definition pith_list_set_value_kind_strict ::
  "int \<Rightarrow> int \<Rightarrow> int \<Rightarrow> int \<Rightarrow> heap \<Rightarrow> heap outcome" where
  "pith_list_set_value_kind_strict a index v code =
     strictly a index (pith_list_set_value_kind a index v code)"

definition store_index_in_bounds :: "int \<Rightarrow> int \<Rightarrow> heap \<Rightarrow> bool" where
  "store_index_in_bounds a index h =
     (case list_ref h a of None \<Rightarrow> False | Some l \<Rightarrow> 0 \<le> index \<and> nat index < length (values8 l))"

definition checked :: "int \<Rightarrow> int \<Rightarrow> (heap \<Rightarrow> heap) \<Rightarrow> heap \<Rightarrow> int \<times> heap" where
  "checked a index store h = (if store_index_in_bounds a index h then (1, store h) else (0, h))"

definition pith_list_set_value_checked :: "int \<Rightarrow> int \<Rightarrow> int \<Rightarrow> heap \<Rightarrow> int \<times> heap" where
  "pith_list_set_value_checked a index v = checked a index (set_value_inner a index v False)"

definition pith_list_set_value_owned_checked :: "int \<Rightarrow> int \<Rightarrow> int \<Rightarrow> heap \<Rightarrow> int \<times> heap" where
  "pith_list_set_value_owned_checked a index v = checked a index (set_value_inner a index v True)"

definition pith_list_set_scalar_checked :: "int \<Rightarrow> int \<Rightarrow> int \<Rightarrow> heap \<Rightarrow> int \<times> heap" where
  "pith_list_set_scalar_checked a index v = checked a index (pith_list_set_scalar a index v)"

subsection \<open>Reads\<close>

definition pith_list_get_opt :: "int \<Rightarrow> int \<Rightarrow> heap \<Rightarrow> int option" where
  "pith_list_get_opt a index h =
     (case list_ref h a of
        None \<Rightarrow> None
      | Some l \<Rightarrow>
          if index < 0 \<or> int (length (values8 l)) \<le> index then None
          else Some (values8 l ! nat index))"

definition list_first :: "int \<Rightarrow> heap \<Rightarrow> int option" where
  "list_first a h =
     (case list_ref h a of
        None \<Rightarrow> None | Some l \<Rightarrow> if length (values8 l) = 0 then None else Some (values8 l ! 0))"

definition list_last :: "int \<Rightarrow> heap \<Rightarrow> int option" where
  "list_last a h =
     (case list_ref h a of
        None \<Rightarrow> None
      | Some l \<Rightarrow>
          if length (values8 l) = 0 then None else Some (values8 l ! (length (values8 l) - 1)))"

definition pith_list_get_value_strict :: "int \<Rightarrow> int \<Rightarrow> heap \<Rightarrow> int outcome" where
  "pith_list_get_value_strict a index h =
     (case list_ref h a of
        None \<Rightarrow> Inl (InvalidHandle ''list'')
      | Some l \<Rightarrow>
          if index < 0 \<or> int (length (values8 l)) \<le> index
          then Inl (IndexOutOfBounds index (int (length (values8 l))))
          else Inr (values8 l ! nat index))"

definition pith_list_get_value :: "int \<Rightarrow> int \<Rightarrow> heap \<Rightarrow> int" where
  "pith_list_get_value a index h =
     (case list_ref h a of
        None \<Rightarrow> 0
      | Some l \<Rightarrow>
          if index < 0 \<or> int (length (values8 l)) \<le> index then 0 else values8 l ! nat index)"

definition pith_list_get_value_unchecked :: "int \<Rightarrow> int \<Rightarrow> heap \<Rightarrow> int" where
  "pith_list_get_value_unchecked a index h =
     (if index < 0 then 0
      else
        (case list_ref h a of
           None \<Rightarrow> 0
         | Some l \<Rightarrow> if int (length (values8 l)) \<le> index then 0 else values8 l ! nat index))"

subsection \<open>Removals and order\<close>

text \<open>The popped element's count goes to the caller.\<close>

definition pith_list_pop :: "int \<Rightarrow> heap \<Rightarrow> int option \<times> heap" where
  "pith_list_pop a h =
     (case list_ref h a of
        None \<Rightarrow> (None, h)
      | Some l \<Rightarrow>
          if values8 l = [] then (None, h)
          else (Some (last (values8 l)), list_mut a (\<lambda>l. l\<lparr>values8 := butlast (values8 l)\<rparr>) h))"

definition pith_list_remove_value :: "int \<Rightarrow> int \<Rightarrow> heap \<Rightarrow> int \<times> heap" where
  "pith_list_remove_value a index h =
     (case list_ref h a of
        None \<Rightarrow> (0, h)
      | Some l \<Rightarrow>
          if index < 0 \<or> int (length (values8 l)) \<le> index then (0, h)
          else
            (let displaced = displaced_element l (nat index) in
             (1, release_displaced (type_tag l) displaced (list_mut a (remove_at (nat index)) h))))"

definition pith_list_clear_value :: "int \<Rightarrow> heap \<Rightarrow> heap" where
  "pith_list_clear_value a h =
     (case list_ref h a of
        None \<Rightarrow> h
      | Some l \<Rightarrow> list_mut a clear_values (run_release (release_all_elements l) h))"

definition reverse_swaps :: "list_impl \<Rightarrow> list_impl" where
  "reverse_swaps l =
     (let len = length (values8 l) in
      fold (\<lambda>i. swap_values i (len - 1 - i)) [0..<len div 2] l)"

definition pith_list_reverse_value :: "int \<Rightarrow> heap \<Rightarrow> heap" where
  "pith_list_reverse_value a h = list_mut a reverse_swaps h"

definition pith_list_reverse :: "int \<Rightarrow> heap \<Rightarrow> heap" where
  "pith_list_reverse a h = list_mut a (\<lambda>l. l\<lparr>values8 := rev (values8 l)\<rparr>) h"

subsection \<open>The reversal loop\<close>

lemma swap_sel [simp]: "length (values8 (swap_values i j l)) = length (values8 l)"
  "rc (swap_values i j l) = rc l" "type_tag (swap_values i j l) = type_tag l"
  by (simp_all add: swap_values_def)

lemma fold_swaps_sel:
  "length (values8 (fold (\<lambda>i. swap_values i (n - 1 - i)) is l)) = length (values8 l) \<and>
   rc (fold (\<lambda>i. swap_values i (n - 1 - i)) is l) = rc l \<and>
   type_tag (fold (\<lambda>i. swap_values i (n - 1 - i)) is l) = type_tag l"
  by (induction "is" arbitrary: l) auto

lemma swaps_at:
  assumes n: "length (values8 l) = n" and "k \<le> n div 2" and "j < n"
  shows "values8 (fold (\<lambda>i. swap_values i (n - 1 - i)) [0..<k] l) ! j =
    values8 l ! (if j < k \<or> n - k \<le> j then n - 1 - j else j)"
  using assms(2,3)
proof (induction k arbitrary: j)
  case (Suc k)
  define m where "m = fold (\<lambda>i. swap_values i (n - 1 - i)) [0..<k] l"
  have len: "length (values8 m) = n" using fold_swaps_sel n by (simp add: m_def)
  have ih: "values8 m ! i = values8 l ! (if i < k \<or> n - k \<le> i then n - 1 - i else i)" if "i < n" for i
    using Suc that unfolding m_def by simp
  have k: "k < n - 1 - k" "n - 1 - k < n" "k < n" using Suc.prems(1) by linarith+
  have "fold (\<lambda>i. swap_values i (n - 1 - i)) [0..<Suc k] l = swap_values k (n - 1 - k) m"
    by (simp add: m_def)
  moreover have "values8 (swap_values k (n - 1 - k) m) ! j =
      (if j = k then values8 m ! (n - 1 - k) else if j = n - 1 - k then values8 m ! k else values8 m ! j)"
    using len k by (simp add: swap_values_def nth_list_update)
  moreover consider "j = k" | "j = n - 1 - k" | "j \<noteq> k" "j \<noteq> n - 1 - k" by blast
  then have "(if j = k then values8 m ! (n - 1 - k) else if j = n - 1 - k then values8 m ! k else values8 m ! j) =
      values8 l ! (if j < Suc k \<or> n - Suc k \<le> j then n - 1 - j else j)"
  proof cases
    case 1
    have "\<not> n - k \<le> n - 1 - k" using k by linarith
    then show ?thesis using 1 ih [of "n - 1 - k"] k by simp
  next
    case 2
    have "\<not> n - k \<le> k" using k by linarith
    then show ?thesis using 2 ih [of k] k by simp
  next
    case 3
    have "(j < Suc k) = (j < k)" "(n - Suc k \<le> j) = (n - k \<le> j)" using 3 k by linarith+
    then show ?thesis using 3 ih [of j] Suc.prems(2) by simp
  qed
  ultimately show ?case by simp
qed simp

lemma reverse_swaps_eq: "reverse_swaps l = l\<lparr>values8 := rev (values8 l)\<rparr>"
proof -
  let ?n = "length (values8 l)"
  let ?m = "fold (\<lambda>i. swap_values i (?n - 1 - i)) [0..<?n div 2] l"
  have sel: "length (values8 ?m) = ?n" "rc ?m = rc l" "type_tag ?m = type_tag l"
    using fold_swaps_sel [of ?n "[0..<?n div 2]" l] by auto
  have "values8 ?m = rev (values8 l)"
  proof (rule nth_equalityI)
    fix j assume "j < length (values8 ?m)"
    then have j: "j < ?n" unfolding sel(1) .
    have mid: "?n - 1 - j = j" if "\<not> (j < ?n div 2)" "\<not> (?n - ?n div 2 \<le> j)"
      using that j by linarith
    show "values8 ?m ! j = rev (values8 l) ! j"
      using swaps_at [OF refl order_refl j] mid j by (auto simp: rev_nth)
  qed (simp only: sel length_rev)
  then show ?thesis using sel(2,3) by (simp add: reverse_swaps_def Let_def)
qed

text \<open>The in-place reversal by swaps gives the reversed list, as the library reversal does.\<close>

theorem reverse_value_is_reverse: "pith_list_reverse_value a h = pith_list_reverse a h"
proof -
  have "reverse_swaps = (\<lambda>l. l\<lparr>values8 := rev (values8 l)\<rparr>)"
    by (rule ext) (rule reverse_swaps_eq)
  then show ?thesis by (simp add: pith_list_reverse_value_def pith_list_reverse_def)
qed

subsection \<open>Cells and stores\<close>

lemma list_ref_Some: "list_ref h a = Some l \<longleftrightarrow> cell_at h a = ListCell l"
  by (auto simp: list_ref_def split: cell.splits)

lemma list_mut_cell: "cell_at h a = ListCell l \<Longrightarrow> list_mut a f h = set_cell h a (ListCell (f l))"
  by (simp add: list_mut_def)

text \<open>The release of a displaced element finishes a store that left it to release.\<close>

lemma displaced_drops:
  assumes "i < length (values8 l)"
  shows "run_release (map (Drop (type_tag l)) [values8 l ! i]) h =
    release_displaced (type_tag l) (displaced_element l i) h"
  using assms
  by (auto simp: release_displaced_def displaced_element_def get_value_def release_element_def release_step_def)

lemma mset_insert: "mset (take i xs @ v # drop i xs) = add_mset v (mset xs)"
proof -
  have "mset (take i xs) + mset (drop i xs) = mset xs" by (metis append_take_drop_id mset_append)
  then show ?thesis by simp
qed

lemma mset_remove: "i < length xs \<Longrightarrow> add_mset (xs ! i) (mset (take i xs @ drop (Suc i) xs)) = mset xs"
  using arg_cong [OF id_take_nth_drop [of i xs], of mset] by simp

lemma mset_set: "i < length xs \<Longrightarrow> mset [xs ! i] + mset (xs[i := v]) = add_mset v (mset xs)"
  by (simp add: mset_update)

lemma count_list_mset: "count_list xs v = count (mset xs) v"
  by (induction xs) auto

lemma list_moves:
  assumes "mset ds + mset vs + mset os = mset (values8 l) + mset is" and "type_tag l' = type_tag l" and "values8 l' = vs"
  shows "moves (map (Drop (type_tag l)) is) (map (Drop (type_tag l)) os) (owned (ListCell l)) (owned (ListCell l'))
    (map (Drop (type_tag l)) ds)"
proof -
  have "count_list ds v + count_list vs v + count_list os v = count_list (values8 l) v + count_list is v" for v
    using arg_cong [OF assms(1), of "\<lambda>M. count M v"] by (simp add: count_list_mset)
  then show ?thesis
    using assms(2,3) by (auto simp: moves_def release_all_elements_def count_list_drops)
qed

lemma Finish_drops [simp]: "Finish a \<notin> Drop t ` V"
  by auto

text \<open>A store of a borrowed value: retain it, then put it.\<close>

lemma store_owned:
  assumes S: "counts_sound (owe E (type_tag l) v) [] h" and at: "cell_at h a = ListCell l"
    and v: "value_of_kind h (type_tag l) v" and f: "f l = l\<lparr>values8 := vs\<rparr>"
    and m: "mset ds + mset vs = add_mset v (mset (values8 l))"
  shows "counts_sound E (map (Drop (type_tag l)) ds) (list_mut a f h)"
  unfolding list_mut_cell [OF at]
  by (rule sound_put [OF S, of a ListTag])
    (use at v f m list_moves [of ds vs "[]" l "[v]" "f l"] in simp_all)

lemma store_borrowed:
  assumes S: "counts_sound E [] h" and at: "cell_at h a = ListCell l"
    and v: "value_of_kind h (type_tag l) v"
    and f: "\<And>n. f (l\<lparr>rc := n\<rparr>) = l\<lparr>rc := n, values8 := vs\<rparr>"
    and m: "mset ds + mset vs = add_mset v (mset (values8 l))"
  shows "counts_sound E (map (Drop (type_tag l)) ds) (list_mut a f (retain_element (type_tag l) v h))"
proof -
  let ?h = "retain_element (type_tag l) v h"
  obtain n where "cell_at ?h a = with_count n (cell_at h a)" by (rule retain_same)
  then have n: "cell_at ?h a = ListCell (l\<lparr>rc := n\<rparr>)" using at by simp
  show ?thesis
    using store_owned [OF _ n, of E v f vs ds] retain_sound [OF S v] v f [of n] m by simp
qed

lemma push_sound:
  assumes S: "counts_sound E [] h" and at: "cell_at h a = ListCell l" and v: "value_of_kind h (type_tag l) v"
  shows "counts_sound E [] (pith_list_push_value a v h)"
proof -
  have "counts_sound E (map (Drop (type_tag l)) []) (list_mut a (push_value v) (retain_element (type_tag l) v h))"
    by (rule store_borrowed [OF S at v]) (auto simp: push_value_def)
  then show ?thesis
    using at by (simp add: pith_list_push_value_def push_value_inner_def list_ref_def)
qed

lemma push_owned_sound:
  assumes S: "counts_sound (owe E (type_tag l) v) [] h" and at: "cell_at h a = ListCell l"
    and v: "value_of_kind h (type_tag l) v"
  shows "counts_sound E [] (pith_list_push_value_owned a v h)"
proof -
  have "counts_sound E (map (Drop (type_tag l)) []) (list_mut a (push_value v) h)"
    by (rule store_owned [OF S at v]) (auto simp: push_value_def)
  then show ?thesis
    using at by (simp add: pith_list_push_value_owned_def push_value_inner_def list_ref_def)
qed

lemma insert_sound:
  assumes S: "counts_sound E [] h" and at: "cell_at h a = ListCell l" and v: "value_of_kind h (type_tag l) v"
  shows "counts_sound E [] (pith_list_insert_value a index v h)"
proof -
  have "counts_sound E (map (Drop (type_tag l)) [])
      (list_mut a (insert_value_at (nat (max index 0)) v) (retain_element (type_tag l) v h))"
    by (rule store_borrowed [OF S at v]) (auto simp: insert_value_at_def Let_def mset_insert simp del: mset_append)
  then show ?thesis
    using at by (simp add: pith_list_insert_value_def insert_value_inner_def list_ref_def)
qed

lemma insert_owned_sound:
  assumes S: "counts_sound (owe E (type_tag l) v) [] h" and at: "cell_at h a = ListCell l"
    and v: "value_of_kind h (type_tag l) v"
  shows "counts_sound E [] (pith_list_insert_value_owned a index v h)"
proof -
  have "counts_sound E (map (Drop (type_tag l)) []) (list_mut a (insert_value_at (nat (max index 0)) v) h)"
    by (rule store_owned [OF S at v]) (auto simp: insert_value_at_def Let_def mset_insert simp del: mset_append)
  then show ?thesis
    using at by (simp add: pith_list_insert_value_owned_def insert_value_inner_def list_ref_def)
qed

lemma set_sound:
  assumes S: "counts_sound E [] h" and at: "cell_at h a = ListCell l" and v: "value_of_kind h (type_tag l) v"
  shows "counts_sound E [] (pith_list_set_value a index v h)"
proof (cases "inside index l")
  case True
  then have i: "nat index < length (values8 l)" by (simp add: inside_def)
  have "counts_sound E (map (Drop (type_tag l)) [values8 l ! nat index])
      (list_mut a (set_value (nat index) v) (retain_element (type_tag l) v h))"
    by (rule store_borrowed [OF S at v _ mset_set [OF i]]) (use i in \<open>auto simp: set_value_def\<close>)
  from run_release_sound [OF this] displaced_drops [OF i] show ?thesis
    using at True by (simp add: pith_list_set_value_def set_value_inner_def list_ref_def Let_def)
qed (use S at in \<open>simp add: pith_list_set_value_def set_value_inner_def list_ref_def\<close>)

lemma set_owned_sound:
  assumes S: "counts_sound (owe E (type_tag l) v) [] h" and at: "cell_at h a = ListCell l"
    and v: "value_of_kind h (type_tag l) v"
  shows "counts_sound E [] (pith_list_set_value_owned a index v h)"
proof (cases "inside index l")
  case True
  then have i: "nat index < length (values8 l)" by (simp add: inside_def)
  have "counts_sound E (map (Drop (type_tag l)) [values8 l ! nat index]) (list_mut a (set_value (nat index) v) h)"
    by (rule store_owned [OF S at v _ mset_set [OF i]]) (use i in \<open>auto simp: set_value_def\<close>)
  from run_release_sound [OF this] displaced_drops [OF i] show ?thesis
    using at True by (simp add: pith_list_set_value_owned_def set_value_inner_def list_ref_def Let_def)
next
  case False
  then show ?thesis
    using release_sound [OF S v] at by (simp add: pith_list_set_value_owned_def set_value_inner_def list_ref_def)
qed

lemma give_elements:
  assumes S: "counts_sound E [] h" and at: "cell_at h a = ListCell l"
    and f: "f l = l\<lparr>values8 := vs\<rparr>" and m: "mset ds + mset vs = mset (values8 l)"
  shows "counts_sound E (map (Drop (type_tag l)) ds) (list_mut a f h)"
  unfolding list_mut_cell [OF at]
  by (rule sound_give [OF S, of a ListTag]) (use at f m list_moves [of ds vs "[]" l "[]" "f l"] in simp_all)

lemma remove_sound:
  assumes S: "counts_sound E [] h"
  shows "counts_sound E [] (snd (pith_list_remove_value a index h))"
proof (cases "\<exists>l. cell_at h a = ListCell l \<and> \<not> (index < 0 \<or> int (length (values8 l)) \<le> index)")
  case True
  then obtain l where l: "cell_at h a = ListCell l" "\<not> (index < 0 \<or> int (length (values8 l)) \<le> index)" by blast
  then have i: "nat index < length (values8 l)" by auto
  have "counts_sound E (map (Drop (type_tag l)) [values8 l ! nat index]) (list_mut a (remove_at (nat index)) h)"
    by (rule give_elements [OF S l(1)]) (use i mset_remove [OF i] in \<open>simp_all add: remove_at_def del: mset_append\<close>)
  from run_release_sound [OF this] displaced_drops [OF i] show ?thesis
    using l by (simp add: pith_list_remove_value_def list_ref_def Let_def)
qed (use S in \<open>auto simp: pith_list_remove_value_def list_ref_def split: cell.split\<close>)

lemma pop_sound:
  assumes S: "counts_sound E [] h" and at: "cell_at h a = ListCell l" and ne: "values8 l \<noteq> []"
  shows "counts_sound (owe E (type_tag l) (last (values8 l))) [] (snd (pith_list_pop a h))"
proof -
  let ?l = "l\<lparr>values8 := butlast (values8 l)\<rparr>"
  have "mset [] + mset (butlast (values8 l)) + mset [last (values8 l)] = mset (values8 l) + mset []"
    using arg_cong [OF append_butlast_last_id [OF ne], of mset] by simp
  from list_moves [OF this, of ?l]
  have "counts_sound (owe E (type_tag l) (last (values8 l))) [] (set_cell h a (ListCell ?l))"
    by (intro sound_hand_out [OF S, of a ListTag]) (simp_all add: at)
  then show ?thesis
    using at ne list_mut_cell [OF at] by (simp add: pith_list_pop_def list_ref_def)
qed

lemma reverse_sound:
  assumes S: "counts_sound E [] h"
  shows "counts_sound E [] (pith_list_reverse_value a h)"
proof (cases "\<exists>l. cell_at h a = ListCell l")
  case True
  then obtain l where "cell_at h a = ListCell l" by blast
  from give_elements [OF S this, of reverse_swaps "rev (values8 l)" "[]"] show ?thesis
    by (simp add: pith_list_reverse_value_def reverse_swaps_eq)
qed (use S in \<open>auto simp: pith_list_reverse_value_def list_mut_def split: cell.split\<close>)

text \<open>An empty list may change the kind it owns.\<close>

lemma sound_retag:
  assumes S: "counts_sound E [] h" and at: "cell_at h a = ListCell l" and "values8 l = []"
  shows "counts_sound E [] (set_cell h a (ListCell (l\<lparr>type_tag := t\<rparr>)))"
  by (rule sound_same [OF S, of a ListTag]) (use assms in \<open>simp_all add: release_all_elements_def\<close>)

text \<open>\<open>clear\<close> releases every element before it empties the storage.\<close>

definition emptied_list :: "cell \<Rightarrow> cell" where
  "emptied_list c = (case c of ListCell l \<Rightarrow> ListCell (clear_values l) | _ \<Rightarrow> c)"

lemma emptied_list_ok:
  "kind_of (emptied_list c) = kind_of c" "emptied_list (with_count n c) = with_count n (emptied_list c)"
  "count_of (emptied_list c) = count_of c"
  by (cases c; auto simp: emptied_list_def clear_values_def)+

lemma clear_as_release:
  assumes "cell_at h a = ListCell l" and "cell_at (run_release (owned (ListCell l)) h) a = Dead \<or>
      (\<exists>l'. cell_at (run_release (owned (ListCell l)) h) a = ListCell l')"
  shows "pith_list_clear_value a h = alter_cell a emptied_list (run_release (owned (ListCell l)) h)"
  using assms by (auto simp: pith_list_clear_value_def list_ref_def list_mut_def alter_cell_def emptied_list_def)

lemma list_survives:
  assumes "cell_at h a = ListCell l"
  shows "cell_at (run_release w h) a = Dead \<or> (\<exists>n. cell_at (run_release w h) a = ListCell (l\<lparr>rc := n\<rparr>))"
  using run_release_content [of w h a] assms by (auto simp: same_content_iff)

lemma clear_list_sound:
  assumes S: "counts_sound E [] h" and at: "cell_at h a = ListCell l" and own: "0 < E a"
  shows "counts_sound E [] (pith_list_clear_value a h)"
    and "pith_list_clear_value a h = run_release (owned (ListCell l)) (list_mut a clear_values h)"
proof -
  have eq: "pith_list_clear_value a h = alter_cell a emptied_list (run_release (owned (ListCell l)) h)"
    by (rule clear_as_release [OF at]) (use list_survives [OF at] in blast)
  have k: "kind_of (cell_at h a) = Some ListTag" using at by simp
  have e: "owned (emptied_list (cell_at h a)) = []"
    using at by (simp add: emptied_list_def clear_values_def release_all_elements_def)
  have lm: "alter_cell a emptied_list h = list_mut a clear_values h"
    using at by (simp add: alter_cell_def emptied_list_def list_mut_def)
  show "counts_sound E [] (pith_list_clear_value a h)"
    using clear_sound(1) [OF S k own emptied_list_ok(1,2) e emptied_list_ok(3)] at eq by simp
  show "pith_list_clear_value a h = run_release (owned (ListCell l)) (list_mut a clear_values h)"
    using clear_sound(2) [OF S k own emptied_list_ok(1,2) e emptied_list_ok(3)] at eq lm by simp
qed

subsection \<open>The kind-carrying stores\<close>

text \<open>A store under a kind finds a list that owns the kind, makes an empty untagged list own it, or
  leaves the value with a count nobody gives back.\<close>

lemma adopt_cases:
  assumes "tag \<noteq> PrimitiveTag"
  obtains (owns) l' where "adopt_element_tag tag l = (True, l')" "type_tag l' = tag" "rc l' = rc l"
      "values8 l' = values8 l" "l' = l \<or> values8 l = [] \<and> l' = l\<lparr>type_tag := tag\<rparr>"
  | (other) "adopt_element_tag tag l = (False, l)" "type_tag l \<noteq> tag"
proof (cases "type_tag l = tag \<or> type_tag l = PrimitiveTag \<and> values8 l = []")
  case True
  then show ?thesis
    using owns [of l] owns [of "l\<lparr>type_tag := tag\<rparr>"] assms
    by (cases "type_tag l = tag") (simp_all add: adopt_element_tag_def)
next
  case False
  then show ?thesis using other assms by (auto simp: adopt_element_tag_def)
qed

text \<open>
  A kind-carrying push takes exactly one count on the value, whatever kind the list was built
  with: the list owns it when it owns the kind or adopts it, and otherwise the value is left with
  one count that no list gives back, never with a count too few.
\<close>

theorem kind_push_takes_one_count:
  assumes "counts_sound E [] h" and "cell_at h a = ListCell l"
    and "element_tag_from_code (as_i32 code) \<noteq> PrimitiveTag"
    and "kind_of (cell_at h v) = Some (element_tag_from_code (as_i32 code))"
  defines "tag \<equiv> element_tag_from_code (as_i32 code)"
    and "h' \<equiv> pith_list_push_value_kind a v code h"
  shows "count_of (cell_at h' v) = count_of (cell_at h v) + 1 \<and>
    (if type_tag l = tag \<or> type_tag l = PrimitiveTag \<and> values8 l = []
     then counts_sound E [] h'
     else count_of (cell_at h' v) = E v + refs h tag v + 1)"
proof -
  let ?h1 = "\<lambda>l'. set_cell h a (ListCell l')"
  have ne: "cell_at h a \<noteq> Dead" using assms(2) by simp
  have v: "value_of_kind h tag v" using assms(4) by (simp add: value_of_kind_def tag_def)
  have np: "tag \<noteq> PrimitiveTag" using assms(3) by (simp add: tag_def)
  have keep: "count_of (cell_at (list_mut a (push_value v) g) b) = count_of (cell_at g b)" for g b
    using cell_at_set [of g a] by (cases "cell_at g a") (auto simp: list_mut_def push_value_def)
  consider (owns) l' where "adopt_element_tag tag l = (True, l')" "type_tag l' = tag" "rc l' = rc l"
      "values8 l' = values8 l" "l' = l \<or> values8 l = [] \<and> l' = l\<lparr>type_tag := tag\<rparr>"
    | (other) "adopt_element_tag tag l = (False, l)" "type_tag l \<noteq> tag"
    by (rule adopt_cases [OF np, of l])
  then show ?thesis
  proof cases
    case (owns l')
    have S1: "counts_sound E [] (?h1 l')"
      using owns(5) sound_retag [OF assms(1,2)] assms(1) set_cell_id [OF assms(2)] by auto
    have at1: "cell_at (?h1 l') a = ListCell l'" by (simp add: cell_at_set [OF ne])
    have kinds: "kind_of (cell_at (?h1 l') v) = Some tag"
      using assms(2,4) by (auto simp: cell_at_set [OF ne] tag_def)
    have counts: "count_of (cell_at (?h1 l') v) = count_of (cell_at h v)"
      using assms(2) owns(3) by (simp add: cell_at_set [OF ne])
    have h': "h' = pith_list_push_value a v (?h1 l')"
      using owns at1 assms(2) by (simp add: h'_def pith_list_push_value_kind_def list_ref_def
          borrowed_store_retains_def Let_def pith_list_push_value_def push_value_inner_def flip: tag_def)
    have "counts_sound E [] h'"
      unfolding h' by (rule push_sound [OF S1 at1]) (simp add: value_of_kind_def kinds owns(2))
    moreover have "count_of (cell_at h' v) = count_of (cell_at h v) + 1"
      using retain_counts [OF kinds np, of v] counts keep owns(2) at1
      by (simp add: h' pith_list_push_value_def push_value_inner_def list_ref_def)
    moreover have "type_tag l = tag \<or> type_tag l = PrimitiveTag \<and> values8 l = []"
      using owns(1) by (auto simp: adopt_element_tag_def split: if_splits)
    ultimately show ?thesis by simp
  next
    case other
    have same: "?h1 l = h"
      using set_cell_id [OF assms(2)] by simp
    have "retain_element (type_tag l) v h = h"
      using other(2) assms(4) by (intro retain_elsewhere) (simp add: tag_def)
    then have h': "h' = list_mut a (push_value v) (retain_element tag v h)"
      using other assms(2) same by (simp add: h'_def pith_list_push_value_kind_def list_ref_def
          borrowed_store_retains_def Let_def flip: tag_def)
    have "\<not> (type_tag l = PrimitiveTag \<and> values8 l = [])"
      using other np by (auto simp: adopt_element_tag_def)
    then show ?thesis
      using other(2) retain_counts [OF assms(4) assms(3), of v] keep counts_soundD(1) [OF assms(1,4)]
      by (auto simp: h' tag_def)
  qed
qed

definition list_and_string :: heap where
  "list_and_string =
     [ListCell \<lparr>rc = 1, type_tag = PrimitiveTag, values8 = [5]\<rparr>, StringCell 1 []]"

lemma list_and_string_at:
  "cell_at list_and_string b =
     (if b = 1 then ListCell \<lparr>rc = 1, type_tag = PrimitiveTag, values8 = [5]\<rparr>
      else if b = 2 then StringCell 1 [] else Dead)"
proof -
  consider "b \<le> 0" | "b = 1" | "b = 2" | "3 \<le> b" by linarith
  then show ?thesis by cases (auto simp: cell_at_def list_and_string_def)
qed

lemma list_and_string_sound: "counts_sound (\<lambda>b. if b = 1 \<or> b = 2 then 1 else 0) [] list_and_string"
proof -
  have rf: "refs list_and_string k x = 0" for k x
    by (simp add: refs_def cell_refs_def list_and_string_def release_all_elements_def)
  show ?thesis
    by (rule counts_soundI; unfold list_and_string_at rf) (auto split: if_splits)
qed

theorem kind_push_takes_one_count_witness:
  "count_of (cell_at (pith_list_push_value_kind 1 2 1 list_and_string) 2) = 2"
  using kind_push_takes_one_count [OF list_and_string_sound, of 1 _ 1 2]
  by (simp add: list_and_string_at element_tag_from_code_def as_i32_def)

end
