(* ===== verification/Maps.thy ===== *)
theory Maps
  imports Lists "HOL-Library.AList"
begin

text \<open>
  \<open>Map[K, V]\<close>, \<open>collections/map.rs\<close>, over the counted heap of \<open>CountHeap\<close>. The hash table is
  \<open>hashbrown\<close>'s; what the code relies on is that it holds one entry a key and that its iteration
  visits each entry once. The entries are kept in the order iteration visits them: an insert of a
  new key takes the order the table has afterwards as the argument \<open>p\<close>, any permutation of the
  entries. A C string key is its content, \<open>None\<close> for a null pointer; a bytes key is a handle. Every
  map the code constructs has eight-byte values, so a stored value is one word. The calls that end
  the process with a diagnostic answer \<open>Inl\<close>.
\<close>

subsection \<open>Keys\<close>

text \<open>A borrowed key, what the map copies it to, and the writes both feed to the hasher.\<close>

datatype key_ref = IntRef int | StrRef bytes | BytesRef bytes

definition map_key_from :: "key_ref \<Rightarrow> map_key" where
  "map_key_from k = (case k of IntRef n \<Rightarrow> IntKey n | StrRef b \<Rightarrow> StringKey b | BytesRef b \<Rightarrow> BytesKey b)"

fun equivalent :: "key_ref \<Rightarrow> map_key \<Rightarrow> bool" where
  "equivalent (IntRef a) (IntKey b) = (a = b)"
| "equivalent (StrRef a) (StringKey b) = (a = b)"
| "equivalent (BytesRef a) (BytesKey b) = (a = b)"
| "equivalent _ _ = False"

datatype hash_write = WriteU8 nat | WriteI64 int | WriteLen nat | WriteBytes bytes

fun hash_map_key :: "map_key \<Rightarrow> hash_write list" where
  "hash_map_key (IntKey n) = [WriteU8 0, WriteI64 n]"
| "hash_map_key (StringKey b) = [WriteU8 1, WriteLen (length b), WriteBytes b]"
| "hash_map_key (BytesKey b) = [WriteU8 2, WriteLen (length b), WriteBytes b]"

fun hash_key_ref :: "key_ref \<Rightarrow> hash_write list" where
  "hash_key_ref (IntRef n) = [WriteU8 0, WriteI64 n]"
| "hash_key_ref (StrRef b) = [WriteU8 1, WriteLen (length b), WriteBytes b]"
| "hash_key_ref (BytesRef b) = [WriteU8 2, WriteLen (length b), WriteBytes b]"

definition key_type_from_code :: "int \<Rightarrow> key_type" where
  "key_type_from_code code = (if code = 1 then StringKeys else if code = 2 then BytesKeys else IntKeys)"

datatype map_fault =
    WrongFlavor key_type key_type
  | KeyNotFound map_key
  | NullKey
  | InvalidMap
  | NotBytesValue
  | CountedUpdate

type_synonym 'a map_outcome = "map_fault + 'a"

definition require_key_flavor :: "key_type \<Rightarrow> key_type \<Rightarrow> unit map_outcome" where
  "require_key_flavor actual wanted =
     (if actual = wanted \<or> actual \<noteq> BytesKeys \<and> wanted \<noteq> BytesKeys then Inr ()
      else Inl (WrongFlavor actual wanted))"

subsection \<open>The tables\<close>

definition reorder :: "nat list \<Rightarrow> 'a list \<Rightarrow> 'a list" where
  "reorder p xs = map (\<lambda>i. xs ! i) p"

definition table_put :: "nat list \<Rightarrow> 'k \<Rightarrow> 'v \<Rightarrow> ('k \<times> 'v) list \<Rightarrow> ('k \<times> 'v) list" where
  "table_put p k v es =
     (if map_of es k = None then reorder p (es @ [(k, v)]) else AList.update k v es)"

definition table_get :: "key_ref \<Rightarrow> (map_key \<times> int) list \<Rightarrow> int option" where
  "table_get k es = map_option snd (find (\<lambda>e. equivalent k (fst e)) es)"

definition table_remove :: "key_ref \<Rightarrow> (map_key \<times> int) list \<Rightarrow> (map_key \<times> int) list" where
  "table_remove k es = filter (\<lambda>e. \<not> equivalent k (fst e)) es"

subsection \<open>Operations of the map\<close>

definition map_new :: "key_type \<Rightarrow> list_type_tag \<Rightarrow> map_impl" where
  "map_new kt tag =
     \<lparr>map_rc = 1, key_type = kt, val_tag = tag, data = [],
      int_values8 = (if kt = IntKeys \<and> tag = PrimitiveTag then Some [] else None)\<rparr>"

definition val_is_heap :: "map_impl \<Rightarrow> bool" where
  "val_is_heap m \<longleftrightarrow> val_tag m \<noteq> PrimitiveTag"

definition map_len :: "map_impl \<Rightarrow> nat" where
  "map_len m = (case int_values8 m of Some d \<Rightarrow> length d | None \<Rightarrow> length (data m))"

definition adopt_value_tag :: "list_type_tag \<Rightarrow> map_impl \<Rightarrow> bool \<times> map_impl" where
  "adopt_value_tag tag m =
     (if tag = PrimitiveTag then (False, m)
      else if val_tag m = tag then (True, m)
      else if val_tag m = PrimitiveTag \<and> map_len m = 0
      then (True, m\<lparr>val_tag := tag, int_values8 := None\<rparr>)
      else (False, m))"

definition map_insert :: "nat list \<Rightarrow> key_ref \<Rightarrow> int \<Rightarrow> map_impl \<Rightarrow> int option \<times> map_impl" where
  "map_insert p k v m =
     (table_get k (data m), m\<lparr>data := table_put p (map_key_from k) v (data m)\<rparr>)"

definition wrapping_add :: "int \<Rightarrow> int \<Rightarrow> int" where
  "wrapping_add a b = signed_take_bit 63 (a + b)"

definition upsert_add :: "key_ref \<Rightarrow> int \<Rightarrow> map_impl \<Rightarrow> int option \<times> map_impl" where
  "upsert_add k delta m =
     (case (k, int_values8 m) of
        (IntRef n, Some d) \<Rightarrow>
          (case map_of d n of
             None \<Rightarrow> (None, m)
           | Some w \<Rightarrow>
               (Some (wrapping_add w delta), m\<lparr>int_values8 := Some (AList.update n (wrapping_add w delta) d)\<rparr>))
      | _ \<Rightarrow>
          (case table_get k (data m) of
             None \<Rightarrow> (None, m)
           | Some w \<Rightarrow>
               (Some (wrapping_add w delta),
                m\<lparr>data := AList.update (map_key_from k) (wrapping_add w delta) (data m)\<rparr>)))"

definition map_remove :: "key_ref \<Rightarrow> map_impl \<Rightarrow> int option \<times> map_impl" where
  "map_remove k m = (table_get k (data m), m\<lparr>data := table_remove k (data m)\<rparr>)"

definition contains_key :: "key_ref \<Rightarrow> map_impl \<Rightarrow> bool" where
  "contains_key k m \<longleftrightarrow> table_get k (data m) \<noteq> None"

definition map_clear :: "map_impl \<Rightarrow> map_impl" where
  "map_clear m =
     (case int_values8 m of Some d \<Rightarrow> m\<lparr>int_values8 := Some []\<rparr> | None \<Rightarrow> m\<lparr>data := []\<rparr>)"

definition map_keys :: "map_impl \<Rightarrow> map_key list" where
  "map_keys m = (case int_values8 m of Some d \<Rightarrow> map (IntKey \<circ> fst) d | None \<Rightarrow> map fst (data m))"

definition value_words :: "map_impl \<Rightarrow> int list" where
  "value_words m = (case int_values8 m of Some d \<Rightarrow> map snd d | None \<Rightarrow> map snd (data m))"

definition uses_int_values8 :: "map_impl \<Rightarrow> bool" where
  "uses_int_values8 m \<longleftrightarrow> int_values8 m \<noteq> None"

definition insert_int_value :: "nat list \<Rightarrow> int \<Rightarrow> int \<Rightarrow> map_impl \<Rightarrow> map_impl" where
  "insert_int_value p k v m =
     (case int_values8 m of Some d \<Rightarrow> m\<lparr>int_values8 := Some (table_put p k v d)\<rparr> | None \<Rightarrow> m)"

definition get_int_value :: "int \<Rightarrow> map_impl \<Rightarrow> int option" where
  "get_int_value k m = (case int_values8 m of Some d \<Rightarrow> map_of d k | None \<Rightarrow> None)"

definition contains_int_key :: "int \<Rightarrow> map_impl \<Rightarrow> bool" where
  "contains_int_key k m \<longleftrightarrow> (case int_values8 m of Some d \<Rightarrow> map_of d k \<noteq> None | None \<Rightarrow> False)"

definition remove_int_value :: "int \<Rightarrow> map_impl \<Rightarrow> int option \<times> map_impl" where
  "remove_int_value k m =
     (case int_values8 m of
        Some d \<Rightarrow> (map_of d k, m\<lparr>int_values8 := Some (filter (\<lambda>e. fst e \<noteq> k) d)\<rparr>)
      | None \<Rightarrow> (None, m))"

text \<open>The map's counts on its values.\<close>

definition release_value :: "map_impl \<Rightarrow> int \<Rightarrow> heap \<Rightarrow> heap" where
  "release_value m v h = (if val_is_heap m then release_element (val_tag m) v h else h)"

definition retain_value :: "map_impl \<Rightarrow> int \<Rightarrow> heap \<Rightarrow> heap" where
  "retain_value m v h = (if val_is_heap m then retain_element (val_tag m) v h else h)"

subsection \<open>Handles\<close>

definition map_ref :: "heap \<Rightarrow> int \<Rightarrow> map_impl option" where
  "map_ref h a = (case cell_at h a of MapCell m \<Rightarrow> Some m | _ \<Rightarrow> None)"

definition map_mut :: "int \<Rightarrow> (map_impl \<Rightarrow> map_impl) \<Rightarrow> heap \<Rightarrow> heap" where
  "map_mut a f h = (case cell_at h a of MapCell m \<Rightarrow> set_cell h a (MapCell (f m)) | _ \<Rightarrow> h)"

definition pith_map_new_tagged :: "int \<Rightarrow> int \<Rightarrow> heap \<Rightarrow> int \<times> heap" where
  "pith_map_new_tagged kcode vcode h =
     (int (length h) + 1, h @ [MapCell (map_new (key_type_from_code kcode) (element_tag_from_code vcode))])"

definition pith_map_new :: "int \<Rightarrow> int \<Rightarrow> heap \<Rightarrow> int \<times> heap" where
  "pith_map_new kcode heap_values h = pith_map_new_tagged kcode (if heap_values \<noteq> 0 then 1 else 0) h"

definition pith_map_len :: "int \<Rightarrow> heap \<Rightarrow> int" where
  "pith_map_len a h = (case map_ref h a of None \<Rightarrow> 0 | Some m \<Rightarrow> int (map_len m))"

definition pith_map_is_empty_handle :: "int \<Rightarrow> heap \<Rightarrow> int" where
  "pith_map_is_empty_handle a h =
     (case map_ref h a of None \<Rightarrow> 1 | Some m \<Rightarrow> if map_len m = 0 then 1 else 0)"

definition bytes_key_ref :: "heap \<Rightarrow> int \<Rightarrow> key_ref option" where
  "bytes_key_ref h key =
     (if key = 0 then Some (BytesRef [])
      else (case cell_at h key of BytesCell n b \<Rightarrow> Some (BytesRef b) | _ \<Rightarrow> None))"

text \<open>The entry points of each flavor reach the map through the flavor check.\<close>

definition with_flavor :: "heap \<Rightarrow> int \<Rightarrow> key_type \<Rightarrow> 'a \<Rightarrow> (map_impl \<Rightarrow> 'a map_outcome) \<Rightarrow> 'a map_outcome" where
  "with_flavor h a wanted dflt f =
     (case map_ref h a of
        None \<Rightarrow> Inr dflt
      | Some m \<Rightarrow> (case require_key_flavor (key_type m) wanted of Inl e \<Rightarrow> Inl e | Inr _ \<Rightarrow> f m))"

subsection \<open>Stores\<close>

definition displace :: "map_impl \<Rightarrow> int option \<Rightarrow> heap \<Rightarrow> heap" where
  "displace m old h = (case old of None \<Rightarrow> h | Some v \<Rightarrow> release_value m v h)"

definition insert_keyed :: "nat list \<Rightarrow> int \<Rightarrow> map_impl \<Rightarrow> key_ref \<Rightarrow> int \<Rightarrow> bool \<Rightarrow> heap \<Rightarrow> heap" where
  "insert_keyed p a m k v takes h =
     (let h1 = (if takes then h else retain_value m v h);
          h2 = map_mut a (\<lambda>m. snd (map_insert p k v m)) h1 in
      displace m (fst (map_insert p k v m)) h2)"

definition insert_cstr_inner :: "nat list \<Rightarrow> int \<Rightarrow> bytes option \<Rightarrow> int \<Rightarrow> bool \<Rightarrow> heap \<Rightarrow> heap map_outcome" where
  "insert_cstr_inner p a key v takes h =
     (case key of
        None \<Rightarrow> Inr h
      | Some s \<Rightarrow> with_flavor h a StringKeys h (\<lambda>m. Inr (insert_keyed p a m (StrRef s) v takes h)))"

definition insert_bkey_inner :: "nat list \<Rightarrow> int \<Rightarrow> int \<Rightarrow> int \<Rightarrow> bool \<Rightarrow> heap \<Rightarrow> heap map_outcome" where
  "insert_bkey_inner p a key v takes h =
     with_flavor h a BytesKeys h
       (\<lambda>m. case bytes_key_ref h key of None \<Rightarrow> Inr h | Some k \<Rightarrow> Inr (insert_keyed p a m k v takes h))"

definition insert_ikey_inner :: "nat list \<Rightarrow> int \<Rightarrow> int \<Rightarrow> int \<Rightarrow> bool \<Rightarrow> heap \<Rightarrow> heap" where
  "insert_ikey_inner p a key v takes h =
     (case map_ref h a of
        None \<Rightarrow> h
      | Some m \<Rightarrow>
          if uses_int_values8 m then map_mut a (insert_int_value p key v) h
          else insert_keyed p a m (IntRef key) v takes h)"

definition pith_map_insert_cstr :: "nat list \<Rightarrow> int \<Rightarrow> bytes option \<Rightarrow> int \<Rightarrow> heap \<Rightarrow> heap map_outcome" where
  "pith_map_insert_cstr p a key v h = insert_cstr_inner p a key v False h"

definition pith_map_insert_cstr_owned :: "nat list \<Rightarrow> int \<Rightarrow> bytes option \<Rightarrow> int \<Rightarrow> heap \<Rightarrow> heap map_outcome" where
  "pith_map_insert_cstr_owned p a key v h = insert_cstr_inner p a key v True h"

definition pith_map_insert_bkey :: "nat list \<Rightarrow> int \<Rightarrow> int \<Rightarrow> int \<Rightarrow> heap \<Rightarrow> heap map_outcome" where
  "pith_map_insert_bkey p a key v h = insert_bkey_inner p a key v False h"

definition pith_map_insert_bkey_owned :: "nat list \<Rightarrow> int \<Rightarrow> int \<Rightarrow> int \<Rightarrow> heap \<Rightarrow> heap map_outcome" where
  "pith_map_insert_bkey_owned p a key v h = insert_bkey_inner p a key v True h"

definition pith_map_insert_ikey :: "nat list \<Rightarrow> int \<Rightarrow> int \<Rightarrow> int \<Rightarrow> heap \<Rightarrow> heap" where
  "pith_map_insert_ikey p a key v h = insert_ikey_inner p a key v False h"

definition pith_map_insert_ikey_owned :: "nat list \<Rightarrow> int \<Rightarrow> int \<Rightarrow> int \<Rightarrow> heap \<Rightarrow> heap" where
  "pith_map_insert_ikey_owned p a key v h = insert_ikey_inner p a key v True h"

text \<open>The json filler's store, under key bytes that are no C string.\<close>

definition insert_bytes_key :: "nat list \<Rightarrow> int \<Rightarrow> bytes \<Rightarrow> int \<Rightarrow> bool \<Rightarrow> heap \<Rightarrow> heap map_outcome" where
  "insert_bytes_key p a key v takes h =
     with_flavor h a StringKeys h (\<lambda>m. Inr (insert_keyed p a m (StrRef key) v takes h))"

text \<open>The stores that carry the kind of the value.\<close>

definition map_adopt_value_tag :: "int \<Rightarrow> int \<Rightarrow> heap \<Rightarrow> bool \<times> heap" where
  "map_adopt_value_tag a code h =
     (case map_ref h a of
        None \<Rightarrow> (False, h)
      | Some m \<Rightarrow>
          (let (owns, m') = adopt_value_tag (element_tag_from_code (as_i32 code)) m in
           (owns, set_cell h a (MapCell m'))))"

definition borrowed_kind :: "int \<Rightarrow> int \<Rightarrow> int \<Rightarrow> heap \<Rightarrow> heap" where
  "borrowed_kind a v code h =
     (let (owns, h1) = map_adopt_value_tag a code h in
      if owns then h1 else retain_element (element_tag_from_code (as_i32 code)) v h1)"

definition pith_map_insert_cstr_kind ::
  "nat list \<Rightarrow> int \<Rightarrow> bytes option \<Rightarrow> int \<Rightarrow> int \<Rightarrow> heap \<Rightarrow> heap map_outcome" where
  "pith_map_insert_cstr_kind p a key v code h = insert_cstr_inner p a key v False (borrowed_kind a v code h)"

definition pith_map_insert_cstr_owned_kind ::
  "nat list \<Rightarrow> int \<Rightarrow> bytes option \<Rightarrow> int \<Rightarrow> int \<Rightarrow> heap \<Rightarrow> heap map_outcome" where
  "pith_map_insert_cstr_owned_kind p a key v code h =
     insert_cstr_inner p a key v True (snd (map_adopt_value_tag a code h))"

definition pith_map_insert_bkey_kind ::
  "nat list \<Rightarrow> int \<Rightarrow> int \<Rightarrow> int \<Rightarrow> int \<Rightarrow> heap \<Rightarrow> heap map_outcome" where
  "pith_map_insert_bkey_kind p a key v code h = insert_bkey_inner p a key v False (borrowed_kind a v code h)"

definition pith_map_insert_bkey_owned_kind ::
  "nat list \<Rightarrow> int \<Rightarrow> int \<Rightarrow> int \<Rightarrow> int \<Rightarrow> heap \<Rightarrow> heap map_outcome" where
  "pith_map_insert_bkey_owned_kind p a key v code h =
     insert_bkey_inner p a key v True (snd (map_adopt_value_tag a code h))"

definition pith_map_insert_ikey_kind :: "nat list \<Rightarrow> int \<Rightarrow> int \<Rightarrow> int \<Rightarrow> int \<Rightarrow> heap \<Rightarrow> heap" where
  "pith_map_insert_ikey_kind p a key v code h = insert_ikey_inner p a key v False (borrowed_kind a v code h)"

definition pith_map_insert_ikey_owned_kind :: "nat list \<Rightarrow> int \<Rightarrow> int \<Rightarrow> int \<Rightarrow> int \<Rightarrow> heap \<Rightarrow> heap" where
  "pith_map_insert_ikey_owned_kind p a key v code h =
     insert_ikey_inner p a key v True (snd (map_adopt_value_tag a code h))"

subsection \<open>Fused updates\<close>

definition with_flavor_strict :: "heap \<Rightarrow> int \<Rightarrow> key_type \<Rightarrow> (map_impl \<Rightarrow> 'a map_outcome) \<Rightarrow> 'a map_outcome" where
  "with_flavor_strict h a wanted f =
     (case map_ref h a of
        None \<Rightarrow> Inl InvalidMap
      | Some m \<Rightarrow> (case require_key_flavor (key_type m) wanted of Inl e \<Rightarrow> Inl e | Inr _ \<Rightarrow> f m))"

definition upsert_add_keyed :: "int \<Rightarrow> map_impl \<Rightarrow> key_ref \<Rightarrow> int \<Rightarrow> heap \<Rightarrow> (int \<times> heap) map_outcome" where
  "upsert_add_keyed a m k delta h =
     (if val_is_heap m then Inl CountedUpdate
      else
        (case upsert_add k delta m of
           (Some v, m') \<Rightarrow> Inr (v, map_mut a (\<lambda>_. m') h)
         | (None, _) \<Rightarrow> Inl (KeyNotFound (map_key_from k))))"

definition pith_map_upsert_add_cstr :: "int \<Rightarrow> bytes option \<Rightarrow> int \<Rightarrow> heap \<Rightarrow> (int \<times> heap) map_outcome" where
  "pith_map_upsert_add_cstr a key delta h =
     (case key of
        None \<Rightarrow> Inl NullKey
      | Some s \<Rightarrow> with_flavor_strict h a StringKeys (\<lambda>m. upsert_add_keyed a m (StrRef s) delta h))"

definition pith_map_upsert_add_ikey :: "int \<Rightarrow> int \<Rightarrow> int \<Rightarrow> heap \<Rightarrow> (int \<times> heap) map_outcome" where
  "pith_map_upsert_add_ikey a key delta h =
     (case map_ref h a of
        None \<Rightarrow> Inl InvalidMap | Some m \<Rightarrow> upsert_add_keyed a m (IntRef key) delta h)"

definition pith_map_upsert_add_bkey :: "int \<Rightarrow> int \<Rightarrow> int \<Rightarrow> heap \<Rightarrow> (int \<times> heap) map_outcome" where
  "pith_map_upsert_add_bkey a key delta h =
     with_flavor_strict h a BytesKeys
       (\<lambda>m. case bytes_key_ref h key of
          None \<Rightarrow> Inl NotBytesValue | Some k \<Rightarrow> upsert_add_keyed a m k delta h)"

subsection \<open>Reads\<close>

definition map_get_cstr :: "int \<Rightarrow> bytes option \<Rightarrow> heap \<Rightarrow> int option map_outcome" where
  "map_get_cstr a key h =
     (case key of
        None \<Rightarrow> Inr None
      | Some s \<Rightarrow> with_flavor h a StringKeys None (\<lambda>m. Inr (table_get (StrRef s) (data m))))"

definition map_get_bkey :: "int \<Rightarrow> int \<Rightarrow> heap \<Rightarrow> int option map_outcome" where
  "map_get_bkey a key h =
     with_flavor h a BytesKeys None
       (\<lambda>m. Inr (case bytes_key_ref h key of None \<Rightarrow> None | Some k \<Rightarrow> table_get k (data m)))"

definition map_get_ikey :: "int \<Rightarrow> int \<Rightarrow> heap \<Rightarrow> int option" where
  "map_get_ikey a key h =
     (case map_ref h a of
        None \<Rightarrow> None
      | Some m \<Rightarrow> if uses_int_values8 m then get_int_value key m else table_get (IntRef key) (data m))"

definition pith_map_get_cstr :: "int \<Rightarrow> bytes option \<Rightarrow> heap \<Rightarrow> int map_outcome" where
  "pith_map_get_cstr a key h =
     (case key of
        None \<Rightarrow> Inr 0
      | Some s \<Rightarrow>
          with_flavor h a StringKeys 0
            (\<lambda>m. case table_get (StrRef s) (data m) of None \<Rightarrow> Inr 0 | Some v \<Rightarrow> Inr v))"

definition pith_map_get_cstr_strict :: "int \<Rightarrow> bytes option \<Rightarrow> heap \<Rightarrow> int map_outcome" where
  "pith_map_get_cstr_strict a key h =
     (case key of
        None \<Rightarrow> Inl NullKey
      | Some s \<Rightarrow>
          with_flavor_strict h a StringKeys
            (\<lambda>m. case table_get (StrRef s) (data m) of
               Some v \<Rightarrow> Inr v | None \<Rightarrow> Inl (KeyNotFound (StringKey s))))"

definition pith_map_contains_cstr :: "int \<Rightarrow> bytes option \<Rightarrow> heap \<Rightarrow> int map_outcome" where
  "pith_map_contains_cstr a key h =
     (case key of
        None \<Rightarrow> Inr 0
      | Some s \<Rightarrow> with_flavor h a StringKeys 0 (\<lambda>m. Inr (if contains_key (StrRef s) m then 1 else 0)))"

definition pith_map_get_default_cstr :: "int \<Rightarrow> bytes option \<Rightarrow> int \<Rightarrow> heap \<Rightarrow> int map_outcome" where
  "pith_map_get_default_cstr a key dflt h =
     (case key of
        None \<Rightarrow> Inr dflt
      | Some s \<Rightarrow>
          with_flavor h a StringKeys dflt
            (\<lambda>m. Inr (case table_get (StrRef s) (data m) of None \<Rightarrow> dflt | Some v \<Rightarrow> v)))"

definition pith_map_get_bkey :: "int \<Rightarrow> int \<Rightarrow> heap \<Rightarrow> int map_outcome" where
  "pith_map_get_bkey a key h =
     with_flavor h a BytesKeys 0
       (\<lambda>m. Inr (case bytes_key_ref h key of
          None \<Rightarrow> 0 | Some k \<Rightarrow> (case table_get k (data m) of None \<Rightarrow> 0 | Some v \<Rightarrow> v)))"

definition pith_map_get_bkey_strict :: "int \<Rightarrow> int \<Rightarrow> heap \<Rightarrow> int map_outcome" where
  "pith_map_get_bkey_strict a key h =
     with_flavor_strict h a BytesKeys
       (\<lambda>m. case bytes_key_ref h key of
          None \<Rightarrow> Inl NotBytesValue
        | Some k \<Rightarrow>
            (case table_get k (data m) of
               Some v \<Rightarrow> Inr v | None \<Rightarrow> Inl (KeyNotFound (map_key_from k))))"

definition pith_map_contains_bkey :: "int \<Rightarrow> int \<Rightarrow> heap \<Rightarrow> int map_outcome" where
  "pith_map_contains_bkey a key h =
     with_flavor h a BytesKeys 0
       (\<lambda>m. Inr (case bytes_key_ref h key of
          None \<Rightarrow> 0 | Some k \<Rightarrow> if contains_key k m then 1 else 0))"

definition pith_map_get_default_bkey :: "int \<Rightarrow> int \<Rightarrow> int \<Rightarrow> heap \<Rightarrow> int map_outcome" where
  "pith_map_get_default_bkey a key dflt h =
     with_flavor h a BytesKeys dflt
       (\<lambda>m. Inr (case bytes_key_ref h key of
          None \<Rightarrow> dflt | Some k \<Rightarrow> (case table_get k (data m) of None \<Rightarrow> dflt | Some v \<Rightarrow> v)))"

definition pith_map_get_ikey :: "int \<Rightarrow> int \<Rightarrow> heap \<Rightarrow> int" where
  "pith_map_get_ikey a key h =
     (case map_ref h a of
        None \<Rightarrow> 0
      | Some m \<Rightarrow>
          (case (if uses_int_values8 m then get_int_value key m else table_get (IntRef key) (data m)) of
             None \<Rightarrow> 0 | Some v \<Rightarrow> v))"

definition pith_map_get_ikey_strict :: "int \<Rightarrow> int \<Rightarrow> heap \<Rightarrow> int map_outcome" where
  "pith_map_get_ikey_strict a key h =
     (case map_ref h a of
        None \<Rightarrow> Inl InvalidMap
      | Some m \<Rightarrow>
          (case (if uses_int_values8 m then get_int_value key m else table_get (IntRef key) (data m)) of
             Some v \<Rightarrow> Inr v | None \<Rightarrow> Inl (KeyNotFound (IntKey key))))"

definition pith_map_contains_ikey :: "int \<Rightarrow> int \<Rightarrow> heap \<Rightarrow> int" where
  "pith_map_contains_ikey a key h =
     (case map_ref h a of
        None \<Rightarrow> 0
      | Some m \<Rightarrow>
          if (if uses_int_values8 m then contains_int_key key m else contains_key (IntRef key) m) then 1 else 0)"

definition pith_map_get_default_ikey :: "int \<Rightarrow> int \<Rightarrow> int \<Rightarrow> heap \<Rightarrow> int" where
  "pith_map_get_default_ikey a key dflt h =
     (case map_ref h a of
        None \<Rightarrow> dflt
      | Some m \<Rightarrow>
          (case (if uses_int_values8 m then get_int_value key m else table_get (IntRef key) (data m)) of
             None \<Rightarrow> dflt | Some v \<Rightarrow> v))"

subsection \<open>Removals\<close>

definition remove_keyed :: "int \<Rightarrow> map_impl \<Rightarrow> key_ref \<Rightarrow> heap \<Rightarrow> heap" where
  "remove_keyed a m k h = displace m (fst (map_remove k m)) (map_mut a (\<lambda>m. snd (map_remove k m)) h)"

definition pith_map_remove_cstr :: "int \<Rightarrow> bytes option \<Rightarrow> heap \<Rightarrow> heap map_outcome" where
  "pith_map_remove_cstr a key h =
     (case key of
        None \<Rightarrow> Inr h
      | Some s \<Rightarrow> with_flavor h a StringKeys h (\<lambda>m. Inr (remove_keyed a m (StrRef s) h)))"

definition pith_map_remove_bkey :: "int \<Rightarrow> int \<Rightarrow> heap \<Rightarrow> heap map_outcome" where
  "pith_map_remove_bkey a key h =
     with_flavor h a BytesKeys h
       (\<lambda>m. Inr (case bytes_key_ref h key of None \<Rightarrow> h | Some k \<Rightarrow> remove_keyed a m k h))"

definition pith_map_remove_ikey :: "int \<Rightarrow> int \<Rightarrow> heap \<Rightarrow> heap" where
  "pith_map_remove_ikey a key h =
     (case map_ref h a of
        None \<Rightarrow> h
      | Some m \<Rightarrow>
          if uses_int_values8 m then map_mut a (\<lambda>m. snd (remove_int_value key m)) h
          else remove_keyed a m (IntRef key) h)"

text \<open>A take hands the value's count to the caller.\<close>

definition take_keyed :: "int \<Rightarrow> map_impl \<Rightarrow> key_ref \<Rightarrow> heap \<Rightarrow> int \<times> heap" where
  "take_keyed a m k h =
     (case fst (map_remove k m) of None \<Rightarrow> 0 | Some v \<Rightarrow> v, map_mut a (\<lambda>m. snd (map_remove k m)) h)"

definition pith_map_take_ikey :: "int \<Rightarrow> int \<Rightarrow> heap \<Rightarrow> int \<times> heap" where
  "pith_map_take_ikey a key h =
     (case map_ref h a of
        None \<Rightarrow> (0, h)
      | Some m \<Rightarrow>
          if uses_int_values8 m
          then (case fst (remove_int_value key m) of None \<Rightarrow> 0 | Some v \<Rightarrow> v,
            map_mut a (\<lambda>m. snd (remove_int_value key m)) h)
          else take_keyed a m (IntRef key) h)"

definition pith_map_take :: "int \<Rightarrow> bytes \<Rightarrow> heap \<Rightarrow> (int \<times> heap) map_outcome" where
  "pith_map_take a key h =
     with_flavor h a StringKeys (0, h) (\<lambda>m. Inr (take_keyed a m (StrRef key) h))"

definition pith_map_take_bkey :: "int \<Rightarrow> int \<Rightarrow> heap \<Rightarrow> (int \<times> heap) map_outcome" where
  "pith_map_take_bkey a key h =
     with_flavor h a BytesKeys (0, h)
       (\<lambda>m. Inr (case bytes_key_ref h key of None \<Rightarrow> (0, h) | Some k \<Rightarrow> take_keyed a m k h))"

definition pith_map_clear_handle :: "int \<Rightarrow> heap \<Rightarrow> heap" where
  "pith_map_clear_handle a h =
     (case map_ref h a of
        None \<Rightarrow> h | Some m \<Rightarrow> map_mut a map_clear (run_release (release_all_values m) h))"

definition pith_map_retain_handle :: "int \<Rightarrow> heap \<Rightarrow> heap" where
  "pith_map_retain_handle a h = retain_element MapTag a h"

definition pith_map_release_handle :: "int \<Rightarrow> heap \<Rightarrow> heap" where
  "pith_map_release_handle a h = release_element MapTag a h"

subsection \<open>Keys and values as lists\<close>

definition copy_cstring :: "bytes \<Rightarrow> heap \<Rightarrow> int \<times> heap" where
  "copy_cstring b h = (int (length h) + 1, h @ [StringCell 1 b])"

definition bytes_from_vec :: "bytes \<Rightarrow> heap \<Rightarrow> int \<times> heap" where
  "bytes_from_vec b h = (int (length h) + 1, h @ [BytesCell 1 b])"

definition push_string_key :: "int \<Rightarrow> map_key \<Rightarrow> heap \<Rightarrow> heap" where
  "push_string_key list k h =
     (case k of
        StringKey b \<Rightarrow>
          (let (ptr, h1) = copy_cstring b h in release_element StringTag ptr (pith_list_push_value list ptr h1))
      | _ \<Rightarrow> h)"

definition pith_map_keys_cstr :: "int \<Rightarrow> heap \<Rightarrow> (int \<times> heap) map_outcome" where
  "pith_map_keys_cstr a h =
     (case map_ref h a of
        None \<Rightarrow> Inr (pith_list_new 0 h)
      | Some m \<Rightarrow>
          (case require_key_flavor (key_type m) StringKeys of
             Inl e \<Rightarrow> Inl e
           | Inr _ \<Rightarrow>
               (let (list, h1) = pith_list_new 1 h in
                Inr (list, fold (push_string_key list) (map fst (data m)) h1))))"

definition push_bytes_key :: "int \<Rightarrow> map_key \<Rightarrow> heap \<Rightarrow> heap" where
  "push_bytes_key list k h =
     (case k of
        BytesKey b \<Rightarrow> (let (ptr, h1) = bytes_from_vec b h in pith_list_push_value_owned list ptr h1)
      | _ \<Rightarrow> h)"

definition pith_map_keys_bkey :: "int \<Rightarrow> heap \<Rightarrow> (int \<times> heap) map_outcome" where
  "pith_map_keys_bkey a h =
     (case map_ref h a of
        None \<Rightarrow> Inr (pith_list_new 0 h)
      | Some m \<Rightarrow>
          (case require_key_flavor (key_type m) BytesKeys of
             Inl e \<Rightarrow> Inl e
           | Inr _ \<Rightarrow>
               (let (list, h1) = pith_list_new 5 h in
                Inr (list, fold (push_bytes_key list) (map_keys m) h1))))"

definition push_int_key :: "int \<Rightarrow> map_key \<Rightarrow> heap \<Rightarrow> heap" where
  "push_int_key list k h = (case k of IntKey n \<Rightarrow> pith_list_push_value list n h | _ \<Rightarrow> h)"

definition pith_map_keys_ikey :: "int \<Rightarrow> heap \<Rightarrow> int \<times> heap" where
  "pith_map_keys_ikey a h =
     (case map_ref h a of
        None \<Rightarrow> pith_list_new 0 h
      | Some m \<Rightarrow>
          (let (list, h1) = pith_list_new 0 h in (list, fold (push_int_key list) (map_keys m) h1)))"

text \<open>The list of the values carries the map's own tag, so that it owns counts of its own.\<close>

definition tag_code :: "list_type_tag \<Rightarrow> int" where
  "tag_code t =
     (case t of PrimitiveTag \<Rightarrow> 0 | StringTag \<Rightarrow> 1 | ListTag \<Rightarrow> 2 | MapTag \<Rightarrow> 3 | StructTag \<Rightarrow> 4
      | BytesTag \<Rightarrow> 5 | ClosureTag \<Rightarrow> 6 | SetTag \<Rightarrow> 7 | ChannelTag \<Rightarrow> 8 | SyncTag \<Rightarrow> 9)"

definition pith_map_values_handle :: "int \<Rightarrow> heap \<Rightarrow> int \<times> heap" where
  "pith_map_values_handle a h =
     (case map_ref h a of
        None \<Rightarrow> pith_list_new 0 h
      | Some m \<Rightarrow>
          (let (list, h1) = pith_list_new (tag_code (val_tag m)) h in
           (list, fold (pith_list_push_value list) (value_words m) h1)))"

subsection \<open>Probing\<close>

lemma equivalent_iff: "equivalent k m \<longleftrightarrow> m = map_key_from k"
  by (cases k; cases m) (auto simp: map_key_from_def)

lemma hash_map_key_eq: "hash_map_key k = hash_map_key k' \<longleftrightarrow> k = k'"
  by (cases k; cases k') auto

text \<open>
  A probe with a borrowed key finds exactly the stored key it would become: the borrowed form
  is equivalent to one owned key, feeds the hasher the very same writes as that key, and no two
  different keys feed it the same writes.
\<close>

theorem borrowed_keys_agree:
  "(equivalent k m \<longleftrightarrow> m = map_key_from k) \<and> hash_key_ref k = hash_map_key (map_key_from k) \<and>
   (hash_map_key m = hash_key_ref k \<longleftrightarrow> equivalent k m)"
proof -
  have h: "hash_key_ref k = hash_map_key (map_key_from k)" by (cases k) (simp_all add: map_key_from_def)
  then show ?thesis using equivalent_iff [of k m] hash_map_key_eq [of m "map_key_from k"] by simp
qed

lemma table_get_map_of: "table_get k es = map_of es (map_key_from k)"
  by (induction es) (auto simp: table_get_def equivalent_iff)

lemma table_remove_eq: "table_remove k es = AList.delete (map_key_from k) es"
  by (simp add: table_remove_def equivalent_iff AList.delete_eq case_prod_unfold eq_commute)

lemma map_of_table_remove: "map_of (table_remove k es) = (map_of es)(map_key_from k := None)"
  by (simp add: table_remove_eq AList.delete_conv')

subsection \<open>The order of iteration\<close>

text \<open>The order the table may have after a new entry.\<close>

definition table_order :: "nat list \<Rightarrow> 'k \<Rightarrow> ('k \<times> 'v) list \<Rightarrow> bool" where
  "table_order p k es \<longleftrightarrow> (map_of es k = None \<longrightarrow> mset p = mset [0..<Suc (length es)])"

lemma mset_reorder: "mset p = mset [0..<length xs] \<Longrightarrow> mset (reorder p xs) = mset xs"
proof -
  assume "mset p = mset [0..<length xs]"
  then have "mset (map ((!) xs) p) = mset (map ((!) xs) [0..<length xs])" by (simp only: mset_map)
  then show ?thesis by (simp add: reorder_def map_nth)
qed

lemma table_put_new:
  assumes "table_order p k es" and "map_of es k = None"
  shows "mset (table_put p k v es) = add_mset (k, v) (mset es)"
  using assms mset_reorder [of p "es @ [(k, v)]"] by (simp add: table_put_def table_order_def)

lemma mset_update:
  assumes "map_of es k = Some old"
  shows "add_mset old (mset (map snd (AList.update k v es))) = add_mset v (mset (map snd es))"
  using assms by (induction es) (auto simp: add_mset_commute split: if_splits)

lemma mset_delete:
  assumes "distinct (map fst es)" and "map_of es k = Some old"
  shows "add_mset old (mset (map snd (AList.delete k es))) = mset (map snd es)"
  using assms
proof (induction es)
  case (Cons e es)
  show ?case
  proof (cases "fst e = k")
    case True
    then have "k \<notin> fst ` set es" using Cons.prems by auto
    then have "AList.delete k es = es" by (simp add: AList.delete_idem)
    then show ?thesis using True Cons.prems by (cases e) auto
  next
    case False
    then show ?thesis using Cons by (cases e) (auto simp: add_mset_commute)
  qed
qed simp

lemma table_put_values:
  assumes "table_order p k es"
  shows "mset (case map_of es k of None \<Rightarrow> [] | Some old \<Rightarrow> [old]) + mset (map snd (table_put p k v es)) =
    add_mset v (mset (map snd es))"
proof (cases "map_of es k")
  case None
  then show ?thesis using table_put_new [OF assms None, of v] by simp
next
  case (Some old)
  then show ?thesis using mset_update [OF Some, of v] by (simp add: table_put_def)
qed

lemma table_put_distinct:
  assumes "table_order p k es" and "distinct (map fst es)"
  shows "distinct (map fst (table_put p k v es))"
proof (cases "map_of es k")
  case None
  then have "mset (map fst (table_put p k v es)) = mset (k # map fst es)"
    using arg_cong [OF table_put_new [OF assms(1) None, of v], of "image_mset fst"] by simp
  then have "distinct (map fst (table_put p k v es)) = distinct (k # map fst es)" by (rule mset_eq_imp_distinct_iff)
  then show ?thesis using assms(2) None by (auto simp: map_of_eq_None_iff)
next
  case (Some old)
  then show ?thesis using assms(2) by (simp add: table_put_def AList.distinct_update)
qed

lemma map_of_table_put:
  assumes "table_order p k es" and "distinct (map fst es)"
  shows "map_of (table_put p k v es) = (map_of es)(k \<mapsto> v)"
proof (cases "map_of es k")
  case None
  have "set (table_put p k v es) = set ((k, v) # es)"
    using arg_cong [OF table_put_new [OF assms(1) None, of v], of set_mset] by simp
  moreover have "distinct (map fst ((k, v) # es))" using None assms(2) by (auto simp: map_of_eq_None_iff)
  ultimately have "map_of (table_put p k v es) = map_of ((k, v) # es)"
    using table_put_distinct [OF assms, of v] map_of_inject_set by blast
  then show ?thesis by simp
next
  case (Some old)
  then show ?thesis by (simp add: table_put_def AList.update_conv')
qed

subsection \<open>Typed maps\<close>

fun flavor_of :: "map_key \<Rightarrow> key_type" where
  "flavor_of (IntKey n) = IntKeys"
| "flavor_of (StringKey b) = StringKeys"
| "flavor_of (BytesKey b) = BytesKeys"

text \<open>
  The typing of a map: its table holds one entry a key, every key has the flavor the map was built
  for, and a map on the scalar path is an integer-keyed map that owns nothing and leaves the
  general table empty.
\<close>

definition map_ok :: "map_impl \<Rightarrow> bool" where
  "map_ok m \<longleftrightarrow>
     distinct (map fst (data m)) \<and> dom (map_of (data m)) \<subseteq> {k. flavor_of k = key_type m} \<and>
     (\<forall>d. int_values8 m = Some d \<longrightarrow>
        distinct (map fst d) \<and> data m = [] \<and> val_tag m = PrimitiveTag \<and> key_type m = IntKeys)"

text \<open>The finite map a map object stands for.\<close>

definition contents :: "map_impl \<Rightarrow> map_key \<Rightarrow> int option" where
  "contents m =
     (case int_values8 m of
        Some d \<Rightarrow> (\<lambda>k. case k of IntKey n \<Rightarrow> map_of d n | _ \<Rightarrow> None)
      | None \<Rightarrow> map_of (data m))"

lemma map_okD:
  assumes "map_ok m"
  shows "distinct (map fst (data m))" and "dom (map_of (data m)) \<subseteq> {k. flavor_of k = key_type m}"
    and "int_values8 m = Some d \<Longrightarrow> distinct (map fst d)" and "int_values8 m = Some d \<Longrightarrow> data m = []"
    and "int_values8 m = Some d \<Longrightarrow> val_tag m = PrimitiveTag"
    and "int_values8 m = Some d \<Longrightarrow> key_type m = IntKeys"
  using assms unfolding map_ok_def by blast+

lemma map_ok_rc [simp]: "map_ok (m\<lparr>map_rc := n\<rparr>) = map_ok m" "contents (m\<lparr>map_rc := n\<rparr>) = contents m"
  by (simp_all add: map_ok_def contents_def split: option.split)

lemma map_new_ok: "map_ok (map_new kt t)" "contents (map_new kt t) = Map.empty"
  by (auto simp: map_ok_def map_new_def contents_def split: map_key.split)

lemma map_len_card: "map_ok m \<Longrightarrow> map_len m = card (dom (contents m))"
proof (cases "int_values8 m")
  case None
  assume "map_ok m"
  then have "distinct (map fst (data m))" by (rule map_okD)
  then show ?thesis
    using None by (simp add: map_len_def contents_def dom_map_of_conv_image_fst distinct_card flip: set_map)
next
  case (Some d)
  assume "map_ok m"
  then have "distinct (map fst d)" using Some by (rule map_okD)
  moreover have "dom (contents m) = IntKey ` dom (map_of d)"
  proof -
    have "contents m k \<noteq> None \<longleftrightarrow> (\<exists>n. k = IntKey n \<and> map_of d n \<noteq> None)" for k
      using Some by (cases k) (auto simp: contents_def)
    then show ?thesis by (auto simp: dom_def)
  qed
  moreover have "inj_on IntKey (dom (map_of d))" by (simp add: inj_on_def)
  then have "card (IntKey ` dom (map_of d)) = card (dom (map_of d))" by (rule card_image)
  moreover have "card (dom (map_of d)) = length d" if "distinct (map fst d)"
    using distinct_card [OF that] by (simp add: dom_map_of_conv_image_fst)
  ultimately show ?thesis using Some by (simp add: map_len_def)
qed

text \<open>Each operation on a typed map keeps its typing and is the operation on the finite map.\<close>

lemma map_insert_ok:
  assumes ok: "map_ok m" and "table_order p (map_key_from k) (data m)"
    and "flavor_of (map_key_from k) = key_type m" and "int_values8 m = None"
  shows "map_ok (snd (map_insert p k v m))" and "contents (snd (map_insert p k v m)) = (contents m)(map_key_from k \<mapsto> v)"
    and "fst (map_insert p k v m) = contents m (map_key_from k)"
  using assms table_put_distinct [OF assms(2) map_okD(1) [OF ok], of v]
    map_of_table_put [OF assms(2) map_okD(1) [OF ok], of v]
  by (auto simp: map_ok_def map_insert_def contents_def table_get_map_of)

lemma insert_int_ok:
  assumes ok: "map_ok m" and d: "int_values8 m = Some d" and "table_order p k d"
  shows "map_ok (insert_int_value p k v m)" and "contents (insert_int_value p k v m) = (contents m)(IntKey k \<mapsto> v)"
  using assms table_put_distinct [OF assms(3) map_okD(3) [OF ok d], of v]
    map_of_table_put [OF assms(3) map_okD(3) [OF ok d], of v]
  by (auto simp: map_ok_def insert_int_value_def contents_def fun_eq_iff split: map_key.split)

lemma map_remove_ok:
  assumes ok: "map_ok m" and "int_values8 m = None"
  shows "map_ok (snd (map_remove k m))" and "contents (snd (map_remove k m)) = (contents m)(map_key_from k := None)"
    and "fst (map_remove k m) = contents m (map_key_from k)"
  using assms map_of_table_remove [of k "data m"] AList.distinct_delete [of "data m" "map_key_from k"]
  by (auto simp: map_ok_def map_remove_def contents_def table_get_map_of simp flip: table_remove_eq)

lemma remove_int_ok:
  assumes ok: "map_ok m" and d: "int_values8 m = Some d"
  shows "map_ok (snd (remove_int_value k m))" and "contents (snd (remove_int_value k m)) = (contents m)(IntKey k := None)"
    and "fst (remove_int_value k m) = contents m (IntKey k)"
proof -
  have eq: "filter (\<lambda>e. fst e \<noteq> k) d = AList.delete k d" by (simp add: AList.delete_eq case_prod_unfold eq_commute)
  show "map_ok (snd (remove_int_value k m))" "contents (snd (remove_int_value k m)) = (contents m)(IntKey k := None)"
    "fst (remove_int_value k m) = contents m (IntKey k)"
    using assms AList.distinct_delete [of d k] delete_conv' [of k d]
    by (auto simp: remove_int_value_def map_ok_def contents_def fun_eq_iff eq split: map_key.split)
qed

lemma map_clear_ok:
  assumes "map_ok m"
  shows "map_ok (map_clear m)" and "contents (map_clear m) = Map.empty"
  using assms by (auto simp: map_ok_def map_clear_def contents_def split: option.split map_key.split)

lemma adopt_ok:
  assumes "map_ok m"
  shows "map_ok (snd (adopt_value_tag t m))" and "contents (snd (adopt_value_tag t m)) = contents m"
proof -
  have "contents m = Map.empty" if "map_len m = 0"
    using that by (auto simp: map_len_def contents_def fun_eq_iff split: option.splits map_key.split)
  moreover have "data m = []" if "map_len m = 0"
    using that assms by (auto simp: map_len_def map_ok_def split: option.splits)
  ultimately show "map_ok (snd (adopt_value_tag t m))" "contents (snd (adopt_value_tag t m)) = contents m"
    using assms by (cases "int_values8 m"; auto simp: adopt_value_tag_def map_ok_def contents_def)+
qed

lemma upsert_ok:
  assumes ok: "map_ok m" and fl: "flavor_of (map_key_from k) = key_type m"
  shows "map_ok (snd (upsert_add k delta m))"
    and "fst (upsert_add k delta m) = map_option (\<lambda>w. wrapping_add w delta) (contents m (map_key_from k))"
    and "contents (snd (upsert_add k delta m)) =
      (case contents m (map_key_from k) of None \<Rightarrow> contents m
       | Some w \<Rightarrow> (contents m)(map_key_from k \<mapsto> wrapping_add w delta))"
proof -
  have "map_ok (snd (upsert_add k delta m)) \<and>
    fst (upsert_add k delta m) = map_option (\<lambda>w. wrapping_add w delta) (contents m (map_key_from k)) \<and>
    contents (snd (upsert_add k delta m)) =
      (case contents m (map_key_from k) of None \<Rightarrow> contents m
       | Some w \<Rightarrow> (contents m)(map_key_from k \<mapsto> wrapping_add w delta))"
  proof (cases "int_values8 m")
    case None
    then have "upsert_add k delta m =
        (case table_get k (data m) of
             None \<Rightarrow> (None, m)
           | Some w \<Rightarrow>
               (Some (wrapping_add w delta),
                m\<lparr>data := AList.update (map_key_from k) (wrapping_add w delta) (data m)\<rparr>))"
      by (simp add: upsert_add_def split: key_ref.split)
    then show ?thesis
      using ok fl None
      by (auto simp: table_get_map_of map_ok_def contents_def AList.distinct_update AList.update_conv' split: option.split)
  next
    case (Some d)
    have "key_type m = IntKeys" using ok Some by (rule map_okD)
    then obtain n where "k = IntRef n" using fl by (cases k) (auto simp: map_key_from_def)
    then show ?thesis
      using ok Some
      by (auto simp: upsert_add_def map_key_from_def map_ok_def contents_def AList.distinct_update AList.update_conv'
          fun_eq_iff split: option.split map_key.split)
  qed
  then show "map_ok (snd (upsert_add k delta m))"
    "fst (upsert_add k delta m) = map_option (\<lambda>w. wrapping_add w delta) (contents m (map_key_from k))"
    "contents (snd (upsert_add k delta m)) =
      (case contents m (map_key_from k) of None \<Rightarrow> contents m
       | Some w \<Rightarrow> (contents m)(map_key_from k \<mapsto> wrapping_add w delta))" by blast+
qed

subsection \<open>Counts\<close>

lemma map_ref_Some: "map_ref h a = Some m \<longleftrightarrow> cell_at h a = MapCell m"
  by (auto simp: map_ref_def split: cell.splits)

lemma map_mut_cell: "cell_at h a = MapCell m \<Longrightarrow> map_mut a f h = set_cell h a (MapCell (f m))"
  by (simp add: map_mut_def)

lemma retain_value_eq: "retain_value m v h = retain_element (val_tag m) v h"
  by (simp add: retain_value_def val_is_heap_def retain_none)

lemma release_value_eq: "release_value m v h = release_element (val_tag m) v h"
  by (simp add: release_value_def val_is_heap_def release_element_def release_step_def)

lemma displace_run:
  "displace m old h = run_release (map (Drop (val_tag m)) (case old of None \<Rightarrow> [] | Some v \<Rightarrow> [v])) h"
  by (cases old) (simp_all add: displace_def release_value_eq release_element_def)

lemma map_moves:
  assumes "mset ds + mset (map snd (data m')) + mset os = mset (map snd (data m)) + mset is" and "val_tag m' = val_tag m"
  shows "moves (map (Drop (val_tag m)) is) (map (Drop (val_tag m)) os) (owned (MapCell m)) (owned (MapCell m'))
    (map (Drop (val_tag m)) ds)"
proof -
  have "count_list ds v + count_list (map snd (data m')) v + count_list os v =
      count_list (map snd (data m)) v + count_list is v" for v
    using arg_cong [OF assms(1), of "\<lambda>M. count M v"] by (simp add: count_list_mset)
  then show ?thesis
    using assms(2) by (auto simp: moves_def release_all_values_def count_list_drops simp del: map_map)
qed

lemma insert_owned_keyed:
  assumes S: "counts_sound (owe E (val_tag m) v) [] h" and at: "cell_at h a = MapCell m"
    and v: "value_of_kind h (val_tag m) v" and p: "table_order p (map_key_from k) (data m)"
  shows "counts_sound E [] (insert_keyed p a m k v True h)"
proof -
  let ?m = "snd (map_insert p k v m)" and ?old = "fst (map_insert p k v m)"
  let ?ds = "case ?old of None \<Rightarrow> [] | Some v \<Rightarrow> [v]"
  have "mset ?ds + mset (map snd (data ?m)) + mset [] = mset (map snd (data m)) + mset [v]"
    using table_put_values [OF p, of v] by (simp add: map_insert_def table_get_map_of)
  moreover have "val_tag ?m = val_tag m" "map_rc ?m = map_rc m" by (simp_all add: map_insert_def)
  ultimately have "counts_sound E (map (Drop (val_tag m)) ?ds) (set_cell h a (MapCell ?m))"
    using map_moves [of ?ds ?m "[]" m "[v]"] by (intro sound_put [OF S, of a MapTag]) (simp_all add: at v)
  then show ?thesis
    using at by (simp add: insert_keyed_def Let_def displace_run map_mut_cell run_release_sound)
qed

lemma insert_keyed_retained:
  "insert_keyed p a m k v False h = insert_keyed p a m k v True (retain_element (val_tag m) v h)"
  by (simp add: insert_keyed_def Let_def retain_value_eq)

lemma insert_keyed_rc [simp]: "insert_keyed p a (m\<lparr>map_rc := n\<rparr>) k v True h = insert_keyed p a m k v True h"
  by (simp add: insert_keyed_def Let_def displace_run map_insert_def)

lemma insert_borrowed_keyed:
  assumes S: "counts_sound E [] h" and at: "cell_at h a = MapCell m"
    and v: "value_of_kind h (val_tag m) v" and p: "table_order p (map_key_from k) (data m)"
  shows "counts_sound E [] (insert_keyed p a m k v False h)"
proof -
  let ?h = "retain_element (val_tag m) v h"
  obtain n where "cell_at ?h a = with_count n (cell_at h a)" by (rule retain_same)
  then have n: "cell_at ?h a = MapCell (m\<lparr>map_rc := n\<rparr>)" using at by simp
  have "counts_sound E [] (insert_keyed p a (m\<lparr>map_rc := n\<rparr>) k v True ?h)"
    by (rule insert_owned_keyed [OF _ n]) (use retain_sound [OF S v] v p in simp_all)
  then show ?thesis by (simp add: insert_keyed_retained)
qed

lemma same_owned_map:
  assumes S: "counts_sound E [] h" and at: "cell_at h a = MapCell m"
    and "map_rc (f m) = map_rc m" and "owned (MapCell (f m)) = owned (MapCell m)"
  shows "counts_sound E [] (map_mut a f h)"
  unfolding map_mut_cell [OF at] by (rule sound_same [OF S, of a MapTag]) (use assms in simp_all)

lemma insert_int_sound:
  assumes "counts_sound E [] h" and "cell_at h a = MapCell m"
  shows "counts_sound E [] (map_mut a (insert_int_value p k v) h)"
  by (rule same_owned_map [OF assms]) (simp_all add: insert_int_value_def release_all_values_def split: option.split)

lemma remove_sound_keyed:
  assumes S: "counts_sound E [] h" and at: "cell_at h a = MapCell m" and d: "distinct (map fst (data m))"
  shows "counts_sound E [] (remove_keyed a m k h)"
proof -
  let ?m = "snd (map_remove k m)" and ?old = "fst (map_remove k m)"
  let ?ds = "case ?old of None \<Rightarrow> [] | Some v \<Rightarrow> [v]"
  have "mset ?ds + mset (map snd (data ?m)) + mset [] = mset (map snd (data m)) + mset []"
  proof (cases "map_of (data m) (map_key_from k)")
    case None
    then have "table_remove k (data m) = data m" by (simp add: table_remove_eq AList.delete_idem map_of_eq_None_iff)
    then show ?thesis using None by (simp add: map_remove_def table_get_map_of)
  next
    case (Some old)
    then show ?thesis
      using mset_delete [OF d Some] by (simp add: map_remove_def table_get_map_of table_remove_eq)
  qed
  moreover have "val_tag ?m = val_tag m" "map_rc ?m = map_rc m" by (simp_all add: map_remove_def)
  ultimately have "counts_sound E (map (Drop (val_tag m)) ?ds) (set_cell h a (MapCell ?m))"
    using map_moves [of ?ds ?m "[]" m "[]"] by (intro sound_give [OF S, of a MapTag]) (simp_all add: at)
  then show ?thesis
    using at by (simp add: remove_keyed_def displace_run map_mut_cell run_release_sound)
qed

lemma take_sound_keyed:
  assumes S: "counts_sound E [] h" and at: "cell_at h a = MapCell m" and d: "distinct (map fst (data m))"
  shows "counts_sound (case map_of (data m) (map_key_from k) of None \<Rightarrow> E | Some v \<Rightarrow> owe E (val_tag m) v) []
    (snd (take_keyed a m k h))"
proof (cases "map_of (data m) (map_key_from k)")
  case None
  then have "table_remove k (data m) = data m" by (simp add: table_remove_eq AList.delete_idem map_of_eq_None_iff)
  then show ?thesis
    using None same_owned_map [OF S at, of "\<lambda>m. snd (map_remove k m)"]
    by (simp add: take_keyed_def map_remove_def release_all_values_def)
next
  case (Some v)
  let ?m = "snd (map_remove k m)"
  have "mset [] + mset (map snd (data ?m)) + mset [v] = mset (map snd (data m)) + mset []"
    using mset_delete [OF d Some] by (simp add: map_remove_def table_remove_eq)
  moreover have "val_tag ?m = val_tag m" "map_rc ?m = map_rc m" by (simp_all add: map_remove_def)
  ultimately have "counts_sound (owe E (val_tag m) v) [] (set_cell h a (MapCell ?m))"
    using map_moves [of "[]" ?m "[v]" m "[]"] by (intro sound_hand_out [OF S, of a MapTag]) (simp_all add: at)
  then show ?thesis using Some at by (simp add: take_keyed_def map_mut_cell)
qed

lemma remove_int_sound:
  assumes "counts_sound E [] h" and "cell_at h a = MapCell m"
  shows "counts_sound E [] (map_mut a (\<lambda>m. snd (remove_int_value k m)) h)"
  by (rule same_owned_map [OF assms]) (simp_all add: remove_int_value_def release_all_values_def split: option.split)

lemma adopt_sound:
  assumes S: "counts_sound E [] h" and at: "cell_at h a = MapCell m" and ok: "map_ok m"
  shows "counts_sound E [] (set_cell h a (MapCell (snd (adopt_value_tag t m))))"
proof (rule sound_same [OF S, of a MapTag])
  have "data m = []" if "map_len m = 0"
    using that ok by (auto simp: map_len_def map_ok_def split: option.splits)
  then show "owned (MapCell (snd (adopt_value_tag t m))) = owned (cell_at h a)"
    using at by (auto simp: adopt_value_tag_def release_all_values_def)
qed (simp_all add: at adopt_value_tag_def)

lemma upsert_sound:
  assumes S: "counts_sound E [] h" and at: "cell_at h a = MapCell m" and r: "upsert_add_keyed a m k delta h = Inr (v, h')"
  shows "counts_sound E [] h'"
proof -
  have p: "val_tag m = PrimitiveTag" and h': "h' = map_mut a (\<lambda>_. snd (upsert_add k delta m)) h"
    using r by (auto simp: upsert_add_keyed_def val_is_heap_def split: if_splits prod.splits option.splits)
  have "val_tag (snd (upsert_add k delta m)) = val_tag m" "map_rc (snd (upsert_add k delta m)) = map_rc m"
    by (simp_all add: upsert_add_def split: key_ref.split option.split)
  then show ?thesis unfolding h' by (intro same_owned_map [OF S at]) (simp_all add: release_all_values_def p)
qed

text \<open>\<open>clear\<close> releases every value before it empties the storage.\<close>

definition emptied_map :: "cell \<Rightarrow> cell" where
  "emptied_map c = (case c of MapCell m \<Rightarrow> MapCell (map_clear m) | _ \<Rightarrow> c)"

lemma emptied_map_ok:
  "kind_of (emptied_map c) = kind_of c" "emptied_map (with_count n c) = with_count n (emptied_map c)"
  "count_of (emptied_map c) = count_of c"
  by (cases c; auto simp: emptied_map_def map_clear_def split: option.split)+

lemma map_survives:
  assumes "cell_at h a = MapCell m"
  shows "cell_at (run_release w h) a = Dead \<or> (\<exists>n. cell_at (run_release w h) a = MapCell (m\<lparr>map_rc := n\<rparr>))"
  using run_release_content [of w h a] assms by (auto simp: same_content_iff)

lemma map_clear_sound:
  assumes S: "counts_sound E [] h" and at: "cell_at h a = MapCell m" and ok: "map_ok m" and own: "0 < E a"
  shows "counts_sound E [] (pith_map_clear_handle a h)"
    and "pith_map_clear_handle a h = run_release (owned (MapCell m)) (map_mut a map_clear h)"
proof -
  have eq: "pith_map_clear_handle a h = alter_cell a emptied_map (run_release (owned (MapCell m)) h)"
    using map_survives [OF at, of "release_all_values m"] at
    by (auto simp: pith_map_clear_handle_def map_ref_def map_mut_def alter_cell_def emptied_map_def)
  have k: "kind_of (cell_at h a) = Some MapTag" using at by simp
  have "data (map_clear m) = []" using ok by (auto simp: map_clear_def map_ok_def split: option.split)
  then have e: "owned (emptied_map (cell_at h a)) = []"
    using at by (simp add: emptied_map_def release_all_values_def)
  have lm: "alter_cell a emptied_map h = map_mut a map_clear h"
    using at by (simp add: alter_cell_def emptied_map_def map_mut_def)
  show "counts_sound E [] (pith_map_clear_handle a h)"
    using clear_sound(1) [OF S k own emptied_map_ok(1,2) e emptied_map_ok(3)] at eq by simp
  show "pith_map_clear_handle a h = run_release (owned (MapCell m)) (map_mut a map_clear h)"
    using clear_sound(2) [OF S k own emptied_map_ok(1,2) e emptied_map_ok(3)] at eq lm by simp
qed

end
