(* ===== verification/Sets.thy ===== *)
theory Sets
  imports Maps
begin

text \<open>
  \<open>Set[T]\<close>, \<open>collections/set.rs\<close>: sets of integers, strings or bytes over the counted heap. A set
  keeps its own copies, so it owns no counts. The elements are in the order the table's iteration
  visits them; an add of a new element takes the order afterwards as an argument, as in \<open>Maps\<close>.
\<close>

subsection \<open>Elements\<close>

datatype elem_ref = IntElemRef int | StrElemRef bytes | BytesElemRef bytes

definition set_element_from :: "elem_ref \<Rightarrow> set_element" where
  "set_element_from e =
     (case e of IntElemRef n \<Rightarrow> IntElem n | StrElemRef b \<Rightarrow> StringElem b | BytesElemRef b \<Rightarrow> BytesElem b)"

fun elem_equivalent :: "elem_ref \<Rightarrow> set_element \<Rightarrow> bool" where
  "elem_equivalent (IntElemRef a) (IntElem b) = (a = b)"
| "elem_equivalent (StrElemRef a) (StringElem b) = (a = b)"
| "elem_equivalent (BytesElemRef a) (BytesElem b) = (a = b)"
| "elem_equivalent _ _ = False"

fun hash_set_element :: "set_element \<Rightarrow> hash_write list" where
  "hash_set_element (IntElem n) = [WriteU8 0, WriteI64 n]"
| "hash_set_element (StringElem b) = [WriteU8 1, WriteLen (length b), WriteBytes b]"
| "hash_set_element (BytesElem b) = [WriteU8 2, WriteLen (length b), WriteBytes b]"

fun hash_elem_ref :: "elem_ref \<Rightarrow> hash_write list" where
  "hash_elem_ref (IntElemRef n) = [WriteU8 0, WriteI64 n]"
| "hash_elem_ref (StrElemRef b) = [WriteU8 1, WriteLen (length b), WriteBytes b]"
| "hash_elem_ref (BytesElemRef b) = [WriteU8 2, WriteLen (length b), WriteBytes b]"

definition elem_type_from_code :: "int \<Rightarrow> elem_type" where
  "elem_type_from_code code = (if code = 1 then StringElems else if code = 2 then BytesElems else IntElems)"

datatype set_fault = WrongElements elem_type elem_type

definition require_flavor :: "elem_type \<Rightarrow> elem_type \<Rightarrow> set_fault + unit" where
  "require_flavor actual wanted =
     (if actual = wanted \<or> actual \<noteq> BytesElems \<and> wanted \<noteq> BytesElems then Inr ()
      else Inl (WrongElements actual wanted))"

subsection \<open>Operations of the set\<close>

definition set_new :: "elem_type \<Rightarrow> set_impl" where
  "set_new t = \<lparr>set_rc = 1, elem_type = t, members = []\<rparr>"

definition set_contains :: "elem_ref \<Rightarrow> set_impl \<Rightarrow> bool" where
  "set_contains e s \<longleftrightarrow> (\<exists>x \<in> set (members s). elem_equivalent e x)"

definition set_insert :: "nat list \<Rightarrow> elem_ref \<Rightarrow> set_impl \<Rightarrow> bool \<times> set_impl" where
  "set_insert p e s =
     (if set_contains e s then (False, s)
      else (True, s\<lparr>members := reorder p (members s @ [set_element_from e])\<rparr>))"

definition set_remove :: "elem_ref \<Rightarrow> set_impl \<Rightarrow> bool \<times> set_impl" where
  "set_remove e s = (set_contains e s, s\<lparr>members := filter (\<lambda>x. \<not> elem_equivalent e x) (members s)\<rparr>)"

definition set_clear :: "set_impl \<Rightarrow> set_impl" where
  "set_clear s = s\<lparr>members := []\<rparr>"

subsection \<open>Handles\<close>

definition set_ref :: "heap \<Rightarrow> int \<Rightarrow> set_impl option" where
  "set_ref h a = (case cell_at h a of SetCell s \<Rightarrow> Some s | _ \<Rightarrow> None)"

definition set_mut :: "int \<Rightarrow> (set_impl \<Rightarrow> set_impl) \<Rightarrow> heap \<Rightarrow> heap" where
  "set_mut a f h = (case cell_at h a of SetCell s \<Rightarrow> set_cell h a (SetCell (f s)) | _ \<Rightarrow> h)"

definition pith_set_new_handle :: "int \<Rightarrow> heap \<Rightarrow> int \<times> heap" where
  "pith_set_new_handle code h = (int (length h) + 1, h @ [SetCell (set_new (elem_type_from_code code))])"

definition pith_set_len_handle :: "int \<Rightarrow> heap \<Rightarrow> int" where
  "pith_set_len_handle a h = (case set_ref h a of None \<Rightarrow> 0 | Some s \<Rightarrow> int (length (members s)))"

definition pith_set_is_empty_handle :: "int \<Rightarrow> heap \<Rightarrow> int" where
  "pith_set_is_empty_handle a h =
     (case set_ref h a of None \<Rightarrow> 1 | Some s \<Rightarrow> if length (members s) = 0 then 1 else 0)"

definition pith_set_retain_handle :: "int \<Rightarrow> heap \<Rightarrow> heap" where
  "pith_set_retain_handle a h = retain_element SetTag a h"

definition pith_set_release_handle :: "int \<Rightarrow> heap \<Rightarrow> heap" where
  "pith_set_release_handle a h = release_element SetTag a h"

definition bytes_elem_ref :: "heap \<Rightarrow> int \<Rightarrow> elem_ref option" where
  "bytes_elem_ref h e =
     (if e = 0 then Some (BytesElemRef [])
      else (case cell_at h e of BytesCell n b \<Rightarrow> Some (BytesElemRef b) | _ \<Rightarrow> None))"

definition flag :: "bool \<Rightarrow> int" where
  "flag b = (if b then 1 else 0)"

text \<open>The string flavor; a string argument is its content, \<open>None\<close> for a null pointer.\<close>

definition pith_set_add_cstr :: "nat list \<Rightarrow> int \<Rightarrow> bytes option \<Rightarrow> heap \<Rightarrow> set_fault + (int \<times> heap)" where
  "pith_set_add_cstr p a elem h =
     (case elem of
        None \<Rightarrow> Inr (0, h)
      | Some b \<Rightarrow>
          (case set_ref h a of
             None \<Rightarrow> Inr (0, h)
           | Some s \<Rightarrow>
               (case require_flavor (elem_type s) StringElems of
                  Inl e \<Rightarrow> Inl e
                | Inr _ \<Rightarrow>
                    Inr (flag (fst (set_insert p (StrElemRef b) s)),
                      set_mut a (\<lambda>s. snd (set_insert p (StrElemRef b) s)) h))))"

definition pith_set_contains_cstr :: "int \<Rightarrow> bytes option \<Rightarrow> heap \<Rightarrow> set_fault + int" where
  "pith_set_contains_cstr a elem h =
     (case elem of
        None \<Rightarrow> Inr 0
      | Some b \<Rightarrow>
          (case set_ref h a of
             None \<Rightarrow> Inr 0
           | Some s \<Rightarrow>
               (case require_flavor (elem_type s) StringElems of
                  Inl e \<Rightarrow> Inl e | Inr _ \<Rightarrow> Inr (flag (set_contains (StrElemRef b) s)))))"

definition pith_set_remove_cstr :: "int \<Rightarrow> bytes option \<Rightarrow> heap \<Rightarrow> set_fault + heap" where
  "pith_set_remove_cstr a elem h =
     (case elem of
        None \<Rightarrow> Inr h
      | Some b \<Rightarrow>
          (case set_ref h a of
             None \<Rightarrow> Inr h
           | Some s \<Rightarrow>
               (case require_flavor (elem_type s) StringElems of
                  Inl e \<Rightarrow> Inl e
                | Inr _ \<Rightarrow> Inr (set_mut a (\<lambda>s. snd (set_remove (StrElemRef b) s)) h))))"

text \<open>The integer flavor answers a set of another flavor by doing nothing.\<close>

definition pith_set_add_int_handle :: "nat list \<Rightarrow> int \<Rightarrow> int \<Rightarrow> heap \<Rightarrow> int \<times> heap" where
  "pith_set_add_int_handle p a n h =
     (case set_ref h a of
        None \<Rightarrow> (0, h)
      | Some s \<Rightarrow>
          if elem_type s \<noteq> IntElems then (0, h)
          else (flag (fst (set_insert p (IntElemRef n) s)), set_mut a (\<lambda>s. snd (set_insert p (IntElemRef n) s)) h))"

definition pith_set_contains_int_handle :: "int \<Rightarrow> int \<Rightarrow> heap \<Rightarrow> int" where
  "pith_set_contains_int_handle a n h =
     (case set_ref h a of
        None \<Rightarrow> 0
      | Some s \<Rightarrow> if elem_type s \<noteq> IntElems then 0 else flag (set_contains (IntElemRef n) s))"

definition pith_set_remove_int_handle :: "int \<Rightarrow> int \<Rightarrow> heap \<Rightarrow> heap" where
  "pith_set_remove_int_handle a n h =
     (case set_ref h a of
        None \<Rightarrow> h
      | Some s \<Rightarrow> if elem_type s \<noteq> IntElems then h else set_mut a (\<lambda>s. snd (set_remove (IntElemRef n) s)) h)"

definition pith_set_remove_int :: "int \<Rightarrow> int \<Rightarrow> heap \<Rightarrow> bool \<times> heap" where
  "pith_set_remove_int a n h =
     (case set_ref h a of
        None \<Rightarrow> (False, h)
      | Some s \<Rightarrow>
          if elem_type s \<noteq> IntElems then (False, h)
          else (fst (set_remove (IntElemRef n) s), set_mut a (\<lambda>s. snd (set_remove (IntElemRef n) s)) h))"

text \<open>The bytes flavor takes a handle and works on its content.\<close>

definition pith_set_add_bytes :: "nat list \<Rightarrow> int \<Rightarrow> int \<Rightarrow> heap \<Rightarrow> set_fault + (int \<times> heap)" where
  "pith_set_add_bytes p a elem h =
     (case set_ref h a of
        None \<Rightarrow> Inr (0, h)
      | Some s \<Rightarrow>
          (case require_flavor (elem_type s) BytesElems of
             Inl e \<Rightarrow> Inl e
           | Inr _ \<Rightarrow>
               (case bytes_elem_ref h elem of
                  None \<Rightarrow> Inr (0, h)
                | Some e \<Rightarrow> Inr (flag (fst (set_insert p e s)), set_mut a (\<lambda>s. snd (set_insert p e s)) h))))"

definition pith_set_contains_bytes :: "int \<Rightarrow> int \<Rightarrow> heap \<Rightarrow> set_fault + int" where
  "pith_set_contains_bytes a elem h =
     (case set_ref h a of
        None \<Rightarrow> Inr 0
      | Some s \<Rightarrow>
          (case require_flavor (elem_type s) BytesElems of
             Inl e \<Rightarrow> Inl e
           | Inr _ \<Rightarrow>
               (case bytes_elem_ref h elem of None \<Rightarrow> Inr 0 | Some e \<Rightarrow> Inr (flag (set_contains e s)))))"

definition pith_set_remove_bytes :: "int \<Rightarrow> int \<Rightarrow> heap \<Rightarrow> set_fault + heap" where
  "pith_set_remove_bytes a elem h =
     (case set_ref h a of
        None \<Rightarrow> Inr h
      | Some s \<Rightarrow>
          (case require_flavor (elem_type s) BytesElems of
             Inl e \<Rightarrow> Inl e
           | Inr _ \<Rightarrow>
               (case bytes_elem_ref h elem of
                  None \<Rightarrow> Inr h | Some e \<Rightarrow> Inr (set_mut a (\<lambda>s. snd (set_remove e s)) h))))"

definition pith_set_clear_handle :: "int \<Rightarrow> heap \<Rightarrow> heap" where
  "pith_set_clear_handle a h = set_mut a set_clear h"

subsection \<open>Elements as lists\<close>

definition push_int_elem :: "int \<Rightarrow> set_element \<Rightarrow> heap \<Rightarrow> heap" where
  "push_int_elem list x h = (case x of IntElem n \<Rightarrow> pith_list_push_value list n h | _ \<Rightarrow> h)"

definition pith_set_to_list_int :: "int \<Rightarrow> heap \<Rightarrow> int \<times> heap" where
  "pith_set_to_list_int a h =
     (case set_ref h a of
        None \<Rightarrow> (0, h)
      | Some s \<Rightarrow>
          if elem_type s \<noteq> IntElems then (0, h)
          else (let (list, h1) = pith_list_new 0 h in (list, fold (push_int_elem list) (members s) h1)))"

definition pith_set_to_list_int_handle :: "int \<Rightarrow> heap \<Rightarrow> int \<times> heap" where
  "pith_set_to_list_int_handle a h =
     (if set_ref h a = None then pith_list_new 0 h else pith_set_to_list_int a h)"

definition push_string_elem :: "int \<Rightarrow> set_element \<Rightarrow> heap \<Rightarrow> heap" where
  "push_string_elem list x h =
     (case x of
        StringElem b \<Rightarrow>
          (let (ptr, h1) = copy_cstring b h in release_element StringTag ptr (pith_list_push_value list ptr h1))
      | _ \<Rightarrow> h)"

definition pith_set_to_list_string :: "int \<Rightarrow> heap \<Rightarrow> int \<times> heap" where
  "pith_set_to_list_string a h =
     (case set_ref h a of
        None \<Rightarrow> (0, h)
      | Some s \<Rightarrow>
          if elem_type s \<noteq> StringElems then (0, h)
          else (let (list, h1) = pith_list_new 1 h in (list, fold (push_string_elem list) (members s) h1)))"

definition pith_set_to_list_cstr :: "int \<Rightarrow> heap \<Rightarrow> set_fault + (int \<times> heap)" where
  "pith_set_to_list_cstr a h =
     (case set_ref h a of
        None \<Rightarrow> Inr (pith_list_new 0 h)
      | Some s \<Rightarrow>
          (case require_flavor (elem_type s) StringElems of
             Inl e \<Rightarrow> Inl e | Inr _ \<Rightarrow> Inr (pith_set_to_list_string a h)))"

definition push_bytes_elem :: "int \<Rightarrow> set_element \<Rightarrow> heap \<Rightarrow> heap" where
  "push_bytes_elem list x h =
     (case x of
        BytesElem b \<Rightarrow> (let (ptr, h1) = bytes_from_vec b h in pith_list_push_value_owned list ptr h1)
      | _ \<Rightarrow> h)"

definition pith_set_to_list_bytes :: "int \<Rightarrow> heap \<Rightarrow> set_fault + (int \<times> heap)" where
  "pith_set_to_list_bytes a h =
     (case set_ref h a of
        None \<Rightarrow> Inr (pith_list_new 0 h)
      | Some s \<Rightarrow>
          (case require_flavor (elem_type s) BytesElems of
             Inl e \<Rightarrow> Inl e
           | Inr _ \<Rightarrow>
               (let (list, h1) = pith_list_new 5 h in Inr (list, fold (push_bytes_elem list) (members s) h1))))"

subsection \<open>Sets as sets\<close>

lemma elem_equivalent_iff: "elem_equivalent e x \<longleftrightarrow> x = set_element_from e"
  by (cases e; cases x) (auto simp: set_element_from_def)

text \<open>The typing of a set: no element twice, and every element of the flavor it was built for.\<close>

fun elem_flavor :: "set_element \<Rightarrow> elem_type" where
  "elem_flavor (IntElem n) = IntElems"
| "elem_flavor (StringElem b) = StringElems"
| "elem_flavor (BytesElem b) = BytesElems"

definition set_ok :: "set_impl \<Rightarrow> bool" where
  "set_ok s \<longleftrightarrow> distinct (members s) \<and> elem_flavor ` set (members s) \<subseteq> {elem_type s}"

definition set_order :: "nat list \<Rightarrow> set_impl \<Rightarrow> bool" where
  "set_order p s \<longleftrightarrow> mset p = mset [0..<Suc (length (members s))]"

lemma set_contains_iff: "set_contains e s \<longleftrightarrow> set_element_from e \<in> set (members s)"
  by (auto simp: set_contains_def elem_equivalent_iff)

lemma set_insert_ok:
  assumes "set_ok s" and "set_order p s" and "elem_flavor (set_element_from e) = elem_type s"
  shows "set_ok (snd (set_insert p e s))"
    and "set (members (snd (set_insert p e s))) = insert (set_element_from e) (set (members s))"
    and "fst (set_insert p e s) \<longleftrightarrow> set_element_from e \<notin> set (members s)"
proof -
  let ?x = "set_element_from e"
  have m: "mset (reorder p (members s @ [?x])) = mset (members s @ [?x])"
    using assms(2) by (intro mset_reorder) (simp add: set_order_def)
  then have d: "distinct (reorder p (members s @ [?x])) = distinct (members s @ [?x])"
    by (rule mset_eq_imp_distinct_iff)
  have s: "set (reorder p (members s @ [?x])) = insert ?x (set (members s))"
    using arg_cong [OF m, of set_mset] by simp
  show "set_ok (snd (set_insert p e s))"
    using assms d s by (auto simp: set_ok_def set_insert_def set_contains_iff)
  show "set (members (snd (set_insert p e s))) = insert ?x (set (members s))"
    using s by (auto simp: set_insert_def set_contains_iff)
  show "fst (set_insert p e s) \<longleftrightarrow> ?x \<notin> set (members s)" by (simp add: set_insert_def set_contains_iff)
qed

lemma set_remove_ok:
  assumes "set_ok s"
  shows "set_ok (snd (set_remove e s))"
    and "set (members (snd (set_remove e s))) = set (members s) - {set_element_from e}"
    and "fst (set_remove e s) \<longleftrightarrow> set_element_from e \<in> set (members s)"
  using assms by (auto simp: set_ok_def set_remove_def set_contains_iff elem_equivalent_iff)

lemma set_ref_Some: "set_ref h a = Some s \<longleftrightarrow> cell_at h a = SetCell s"
  by (auto simp: set_ref_def split: cell.splits)

lemma set_mut_cell: "cell_at h a = SetCell s \<Longrightarrow> set_mut a f h = set_cell h a (SetCell (f s))"
  by (simp add: set_mut_def)

lemma set_mut_sound:
  assumes S: "counts_sound E [] h" and f: "\<And>s. set_rc (f s) = set_rc s"
  shows "counts_sound E [] (set_mut a f h)"
proof (cases "\<exists>s. cell_at h a = SetCell s")
  case True
  then obtain s where s: "cell_at h a = SetCell s" by blast
  show ?thesis unfolding set_mut_cell [OF s] by (rule sound_same [OF S, of a SetTag]) (simp_all add: s f)
qed (use S in \<open>auto simp: set_mut_def split: cell.split\<close>)

lemma set_op_rc [simp]: "set_rc (snd (set_insert p e s)) = set_rc s" "set_rc (snd (set_remove e s)) = set_rc s"
  "set_rc (set_clear s) = set_rc s"
  by (simp_all add: set_insert_def set_remove_def set_clear_def)

end
