(* ===== verification/TypedHeap.thy ===== *)
theory TypedHeap
  imports Sets
begin

text \<open>
  The typing of the heap of lists, maps and sets, and that the operations which only move counts
  or rewrite one object keep it.
\<close>

definition content_ok :: "cell \<Rightarrow> bool" where
  "content_ok c = (case c of MapCell m \<Rightarrow> map_ok m | SetCell s \<Rightarrow> set_ok s | _ \<Rightarrow> True)"

definition typed_heap :: "heap \<Rightarrow> bool" where
  "typed_heap h \<longleftrightarrow> (\<forall>c \<in> set h. content_ok c)"

named_theorems typed \<open>operations that keep the typing of the heap\<close>

lemma content_ok_simps [simp]: "content_ok Dead" "content_ok (ListCell l)" "content_ok (MapCell m) = map_ok m"
  "content_ok (SetCell s) = set_ok s" "content_ok (StringCell n b)" "content_ok (BytesCell n b)"
  "content_ok (OtherCell k n os)"
  by (simp_all add: content_ok_def)

lemma content_ok_count [simp]: "content_ok (with_count n c) = content_ok c"
  by (cases c) (simp_all add: set_ok_def)

lemma typed_at: "typed_heap h \<Longrightarrow> content_ok (cell_at h a)"
  by (auto simp: typed_heap_def cell_at_def)

lemma typed_map: "typed_heap h \<Longrightarrow> cell_at h a = MapCell m \<Longrightarrow> map_ok m"
  using typed_at [of h a] by simp

lemma typed_set: "typed_heap h \<Longrightarrow> cell_at h a = SetCell s \<Longrightarrow> set_ok s"
  using typed_at [of h a] by simp

lemma typed_set_cell [typed]: "typed_heap h \<Longrightarrow> content_ok c \<Longrightarrow> typed_heap (set_cell h a c)"
  using set_update_subset_insert [of h "nat a - 1" c] by (auto simp: typed_heap_def set_cell_def)

lemma typed_append [typed]: "typed_heap h \<Longrightarrow> content_ok c \<Longrightarrow> typed_heap (h @ [c])"
  by (simp add: typed_heap_def)

lemma typed_retain [typed]: "typed_heap h \<Longrightarrow> typed_heap (retain_element t v h)"
  using typed_set_cell typed_at by (auto simp: retain_element_def Let_def)

lemma typed_run_release [typed]: "typed_heap h \<Longrightarrow> typed_heap (run_release w h)"
proof (induction w h rule: run_release.induct)
  case (2 t v w h)
  obtain acts h' where step: "release_step t v h = (acts, h')" by fastforce
  have "typed_heap h'"
    using step typed_set_cell [OF 2(2)] typed_at [OF 2(2)] 2(2) by (auto simp: release_step_def Let_def split: if_splits)
  then show ?case using 2(1) [OF step [symmetric] refl] step by simp
qed (simp_all add: typed_set_cell)

lemma typed_release [typed]: "typed_heap h \<Longrightarrow> typed_heap (release_element t v h)"
  unfolding release_element_def by (rule typed_run_release)

lemma typed_list_mut [typed]: "typed_heap h \<Longrightarrow> typed_heap (list_mut a f h)"
  by (simp add: list_mut_def typed_set_cell split: cell.split)

lemma typed_map_mut [typed]:
  "typed_heap h \<Longrightarrow> (\<And>m. cell_at h a = MapCell m \<Longrightarrow> map_ok (f m)) \<Longrightarrow> typed_heap (map_mut a f h)"
  by (simp add: map_mut_def typed_set_cell split: cell.split)

lemma typed_set_mut [typed]:
  "typed_heap h \<Longrightarrow> (\<And>s. cell_at h a = SetCell s \<Longrightarrow> set_ok (f s)) \<Longrightarrow> typed_heap (set_mut a f h)"
  by (simp add: set_mut_def typed_set_cell split: cell.split)

lemma typed_displaced [typed]: "typed_heap h \<Longrightarrow> typed_heap (release_displaced t d h)"
  by (simp add: release_displaced_def typed_release split: option.split)

lemma typed_displace [typed]: "typed_heap h \<Longrightarrow> typed_heap (displace m d h)"
  by (simp add: displace_run typed_run_release)

lemmas list_op_defs = pith_list_push_value_def pith_list_push_value_owned_def push_value_inner_def
  pith_list_insert_value_def pith_list_insert_value_owned_def insert_value_inner_def
  pith_list_set_value_def pith_list_set_value_owned_def set_value_inner_def pith_list_pop_def
  pith_list_remove_value_def pith_list_clear_value_def pith_list_reverse_value_def

lemma typed_list_op [typed]:
  assumes "typed_heap h"
  shows "typed_heap (pith_list_push_value a v h)" "typed_heap (pith_list_push_value_owned a v h)"
    "typed_heap (pith_list_insert_value a i v h)" "typed_heap (pith_list_insert_value_owned a i v h)"
    "typed_heap (pith_list_set_value a i v h)" "typed_heap (pith_list_set_value_owned a i v h)"
    "typed_heap (snd (pith_list_pop a h))" "typed_heap (snd (pith_list_remove_value a i h))"
    "typed_heap (pith_list_clear_value a h)" "typed_heap (pith_list_reverse_value a h)"
  using assms by (simp_all add: list_op_defs Let_def typed split: option.split)

text \<open>A keyed insert keeps the typing when the key has the map's flavor.\<close>

lemma typed_insert_keyed:
  assumes "typed_heap h" and at: "cell_at h a = MapCell m" and "int_values8 m = None"
    and "table_order p (map_key_from k) (data m)" and "flavor_of (map_key_from k) = key_type m"
  shows "typed_heap (insert_keyed p a m k v takes h)"
proof -
  let ?h = "if takes then h else retain_value m v h"
  have h: "typed_heap ?h" using assms(1) by (simp add: retain_value_eq typed_retain)
  obtain n where "cell_at (retain_element (val_tag m) v h) a = with_count n (cell_at h a)" by (rule retain_same)
  then have "\<exists>n. cell_at ?h a = MapCell (m\<lparr>map_rc := n\<rparr>)"
    using at by (cases takes) (auto simp: retain_value_eq intro: exI [of _ "map_rc m"])
  then obtain n where n: "cell_at ?h a = MapCell (m\<lparr>map_rc := n\<rparr>)" by blast
  have "map_ok m" using typed_map [OF assms(1) at] .
  then have "map_ok (snd (map_insert p k v (m\<lparr>map_rc := n\<rparr>)))"
    using map_insert_ok(1) [of "m\<lparr>map_rc := n\<rparr>" p k v] assms(3-) by simp
  then have "typed_heap (map_mut a (\<lambda>m. snd (map_insert p k v m)) ?h)"
    by (intro typed_map_mut [OF h]) (simp add: n)
  then show ?thesis unfolding insert_keyed_def Let_def by (rule typed_displace)
qed

end
