(* ===== verification/TrialDeletion.thy ===== *)
theory TrialDeletion
  imports TypedHeap
begin

text \<open>
  The collection pass of \<open>cycle.rs\<close>: trial deletion from the suspects over the ownership graph,
  with the world stopped. The pass subtracts from every candidate's count the edges between
  candidates, restores what an owner outside still reaches, and frees the rest: the members of
  cycles that no live reference reaches. The worklists are the code's explicit stacks, with the
  top at the head. A struct's tracer reports the fields its destructor releases; a weak count is
  no edge.
\<close>

subsection \<open>The ownership graph\<close>

definition cycle_child_code :: "list_type_tag \<Rightarrow> bool" where
  "cycle_child_code t \<longleftrightarrow> t = ListTag \<or> t = MapTag \<or> t = SetTag \<or> t = StructTag \<or> t = ClosureTag"

definition real_strong_count :: "heap \<Rightarrow> int \<Rightarrow> list_type_tag \<Rightarrow> int option" where
  "real_strong_count h a t =
     (if cycle_child_code t \<and> kind_of (cell_at h a) = Some t then Some (int (count_of (cell_at h a))) else None)"

definition edges :: "action list \<Rightarrow> (int \<times> list_type_tag) list" where
  "edges acts =
     concat (map (\<lambda>x. case x of
        Drop t v \<Rightarrow> if v \<noteq> 0 \<and> cycle_child_code t then [(v, t)] else [] | Finish a \<Rightarrow> []) acts)"

definition children_of :: "heap \<Rightarrow> int \<Rightarrow> list_type_tag \<Rightarrow> (int \<times> list_type_tag) list" where
  "children_of h a t = (if kind_of (cell_at h a) = Some t then edges (owned (cell_at h a)) else [])"

subsection \<open>The passes\<close>

datatype color = Fresh | Gray | Black | White

record node =
  node_kind :: list_type_tag
  trial :: int
  color :: color
  node_children :: "(int \<times> list_type_tag) list"

type_synonym nodes = "(int \<times> node) list"

definition seed_node :: "heap \<Rightarrow> int \<Rightarrow> list_type_tag \<Rightarrow> nodes \<Rightarrow> bool \<times> nodes" where
  "seed_node h a t ns =
     (if map_of ns a \<noteq> None then (True, ns)
      else
        (case real_strong_count h a t of
           None \<Rightarrow> (False, ns)
         | Some c \<Rightarrow>
             (True, (a, \<lparr>node_kind = t, trial = c, color = Fresh, node_children = children_of h a t\<rparr>) # ns)))"

definition adjust :: "int \<Rightarrow> int \<Rightarrow> node \<Rightarrow> nodes \<Rightarrow> nodes" where
  "adjust a d n ns = AList.update a (n\<lparr>trial := trial n + d\<rparr>) ns"

text \<open>One edge of the mark: seed its target, take one off the trial count, and push a target that
  is not gray.\<close>

fun subtract_edge :: "heap \<Rightarrow> int \<times> list_type_tag \<Rightarrow> nodes \<times> int list \<Rightarrow> nodes \<times> int list" where
  "subtract_edge h (child, t) (ns, stack) =
     (let (ok, ns1) = seed_node h child t ns in
      if \<not> ok then (ns1, stack)
      else
        (case map_of ns1 child of
           None \<Rightarrow> (ns1, stack)
         | Some n \<Rightarrow>
             (adjust child (-1) n ns1,
              if color n \<noteq> Gray then child # stack else stack)))"

text \<open>The nodes of a color.\<close>

definition colored :: "color \<Rightarrow> nodes \<Rightarrow> int set" where
  "colored c ns = {a. \<exists>n. map_of ns a = Some n \<and> color n = c}"

definition paint :: "int \<Rightarrow> color \<Rightarrow> node \<Rightarrow> nodes \<Rightarrow> nodes" where
  "paint a c n ns = AList.update a (n\<lparr>color := c\<rparr>) ns"

text \<open>What the mark has not yet grayed: the nodes, and the objects that may become nodes.\<close>

definition ungray :: "heap \<Rightarrow> nodes \<Rightarrow> int set" where
  "ungray h ns = (dom (map_of ns) \<union> {a. cell_at h a \<noteq> Dead}) - colored Gray ns"

lemma finite_live: "finite {a. cell_at h a \<noteq> Dead}"
proof (rule finite_subset)
  show "{a. cell_at h a \<noteq> Dead} \<subseteq> {0..int (length h)}" by (auto simp: cell_at_def)
qed simp

lemma finite_colored: "finite (colored c ns)"
  by (rule finite_subset [of _ "dom (map_of ns)"]) (auto simp: colored_def finite_dom_map_of)

lemma finite_ungray: "finite (ungray h ns)"
  by (simp add: ungray_def finite_dom_map_of finite_live)

lemma paint_colored [simp]:
  "colored c (paint a d n ns) = (if d = c then insert a (colored c ns) else colored c ns - {a})"
  "dom (map_of (paint a d n ns)) = insert a (dom (map_of ns))"
  by (auto simp: colored_def paint_def AList.update_conv')

lemma adjust_colored [simp]:
  assumes "map_of ns a = Some n"
  shows "colored c (adjust a d n ns) = colored c ns" and "dom (map_of (adjust a d n ns)) = dom (map_of ns)"
  using assms by (auto simp: colored_def adjust_def AList.update_conv' split: if_splits)

lemma colored_same: "a \<in> colored c ns \<Longrightarrow> a \<in> colored d ns \<Longrightarrow> c = d"
  by (auto simp: colored_def)

lemma real_live: "real_strong_count h a t = Some c \<Longrightarrow> cell_at h a \<noteq> Dead"
  by (auto simp: real_strong_count_def split: if_splits)

lemma colored_seed:
  "seed_node h a t ns = (ok, ns') \<Longrightarrow> c \<noteq> Fresh \<Longrightarrow> colored c ns' = colored c ns"
  by (auto simp: seed_node_def colored_def split: if_splits option.splits)

lemma subtract_edge_ungray:
  assumes "subtract_edge h e (ns, st) = (ns', st')"
  shows "ungray h ns' = ungray h ns" and "colored Gray ns' = colored Gray ns"
proof -
  obtain c t where e: "e = (c, t)" by fastforce
  have "colored Gray ns' = colored Gray ns \<and>
    dom (map_of ns') \<union> {a. cell_at h a \<noteq> Dead} = dom (map_of ns) \<union> {a. cell_at h a \<noteq> Dead}"
  proof (cases "seed_node h c t ns")
    case (Pair ok ns1)
    have s: "colored Gray ns1 = colored Gray ns"
      "dom (map_of ns1) \<union> {a. cell_at h a \<noteq> Dead} = dom (map_of ns) \<union> {a. cell_at h a \<noteq> Dead}"
      using colored_seed [OF Pair] Pair real_live [of h c t] by (auto simp: seed_node_def split: if_splits option.splits)
    show ?thesis
    proof (cases "map_of ns1 c")
      case None
      then show ?thesis using assms Pair s by (auto simp: e split: if_splits)
    next
      case (Some n)
      have "ns' = adjust c (-1) n ns1 \<or> ns' = ns1" using assms Pair Some by (auto simp: e split: if_splits)
      then show ?thesis using s adjust_colored [OF Some] by metis
    qed
  qed
  then show "ungray h ns' = ungray h ns" "colored Gray ns' = colored Gray ns" by (simp_all add: ungray_def)
qed

lemma fold_subtract_ungray:
  "fold (subtract_edge h) es (ns, st) = (ns', st') \<Longrightarrow> ungray h ns' = ungray h ns \<and> colored Gray ns' = colored Gray ns"
proof (induction es arbitrary: ns st)
  case (Cons e es)
  obtain ns1 st1 where e: "subtract_edge h e (ns, st) = (ns1, st1)" by fastforce
  show ?case using Cons.IH [of ns1 st1] Cons.prems subtract_edge_ungray [OF e] e by simp
qed simp

lemma ungray_paint:
  assumes "map_of ns a = Some n" and "color n \<noteq> Gray"
  shows "card (ungray h (paint a Gray n ns)) < card (ungray h ns)"
proof (rule psubset_card_mono [OF finite_ungray])
  have "a \<in> ungray h ns" using assms by (auto simp: ungray_def colored_def)
  moreover have "ungray h (paint a Gray n ns) = ungray h ns - {a}"
    using assms by (auto simp: ungray_def)
  ultimately show "ungray h (paint a Gray n ns) \<subset> ungray h ns" by auto
qed

function mark_loop :: "heap \<Rightarrow> int list \<Rightarrow> nodes \<Rightarrow> nodes" where
  "mark_loop h [] ns = ns"
| "mark_loop h (a # st) ns =
     (case map_of ns a of
        None \<Rightarrow> mark_loop h st ns
      | Some n \<Rightarrow>
          if color n = Gray then mark_loop h st ns
          else
            (let (ns', st') = fold (subtract_edge h) (node_children n) (paint a Gray n ns, st)
             in mark_loop h st' ns'))"
  by pat_completeness auto

termination mark_loop
proof (relation "measures [\<lambda>(h, st, ns). card (ungray h ns), \<lambda>(h, st, ns). length st]")
  fix h a st ns n x ns' st'
  assume n: "map_of ns a = Some n" "color n \<noteq> Gray"
    and "x = fold (subtract_edge h) (node_children n) (paint a Gray n ns, st)" "(ns', st') = x"
  then have "ungray h ns' = ungray h (paint a Gray n ns)" using fold_subtract_ungray by metis
  then show "((h, st', ns'), h, a # st, ns) \<in> measures [\<lambda>(h, st, ns). card (ungray h ns), \<lambda>(h, st, ns). length st]"
    using ungray_paint [OF n, of h] by simp
qed simp_all

definition mark_gray :: "heap \<Rightarrow> int \<Rightarrow> nodes \<Rightarrow> nodes" where
  "mark_gray h root ns = mark_loop h [root] ns"

text \<open>One edge of the restoring pass.\<close>

fun restore_edge :: "int \<times> list_type_tag \<Rightarrow> nodes \<times> int list \<Rightarrow> nodes \<times> int list" where
  "restore_edge (child, t) (ns, stack) =
     (case map_of ns child of
        None \<Rightarrow> (ns, stack)
      | Some n \<Rightarrow>
          (adjust child 1 n ns, if color n \<noteq> Black then child # stack else stack))"

lemma restore_edge_colors:
  assumes "restore_edge e (ns, st) = (ns', st')"
  shows "colored c ns' = colored c ns" and "dom (map_of ns') = dom (map_of ns)"
proof -
  obtain x t where e: "e = (x, t)" by fastforce
  have "colored c ns' = colored c ns \<and> dom (map_of ns') = dom (map_of ns)"
  proof (cases "map_of ns x")
    case None
    then show ?thesis using assms by (simp add: e)
  next
    case (Some n)
    then have "ns' = adjust x 1 n ns" using assms by (simp add: e)
    then show ?thesis using adjust_colored [OF Some] by simp
  qed
  then show "colored c ns' = colored c ns" "dom (map_of ns') = dom (map_of ns)" by simp_all
qed

lemma fold_restore_colors:
  "fold restore_edge es (ns, st) = (ns', st') \<Longrightarrow> colored c ns' = colored c ns \<and> dom (map_of ns') = dom (map_of ns)"
proof (induction es arbitrary: ns st)
  case (Cons e es)
  obtain ns1 st1 where e: "restore_edge e (ns, st) = (ns1, st1)" by fastforce
  show ?case using Cons.IH [of ns1 st1] Cons.prems restore_edge_colors [OF e] e by simp
qed simp

definition unblack :: "nodes \<Rightarrow> int set" where
  "unblack ns = dom (map_of ns) - colored Black ns"

lemma finite_unblack: "finite (unblack ns)"
  by (simp add: unblack_def finite_dom_map_of)

lemma unblack_paint:
  assumes "map_of ns a = Some n" and "color n \<noteq> Black"
  shows "card (unblack (paint a Black n ns)) < card (unblack ns)"
proof (rule psubset_card_mono [OF finite_unblack])
  have "a \<in> unblack ns" using assms by (auto simp: unblack_def colored_def)
  moreover have "unblack (paint a Black n ns) = unblack ns - {a}"
    using assms by (auto simp: unblack_def)
  ultimately show "unblack (paint a Black n ns) \<subset> unblack ns" by auto
qed

function black_loop :: "int list \<Rightarrow> nodes \<Rightarrow> nodes" where
  "black_loop [] ns = ns"
| "black_loop (a # st) ns =
     (case map_of ns a of
        None \<Rightarrow> black_loop st ns
      | Some n \<Rightarrow>
          if color n = Black then black_loop st ns
          else
            (let (ns', st') = fold restore_edge (node_children n) (paint a Black n ns, st)
             in black_loop st' ns'))"
  by pat_completeness auto

termination black_loop
proof (relation "measures [\<lambda>(st, ns). card (unblack ns), \<lambda>(st, ns). length st]")
  fix a st ns n x ns' st'
  assume n: "map_of ns a = Some n" "color n \<noteq> Black"
    and "x = fold restore_edge (node_children n) (paint a Black n ns, st)" "(ns', st') = x"
  then have "unblack ns' = unblack (paint a Black n ns)" unfolding unblack_def using fold_restore_colors by metis
  then show "((st', ns'), a # st, ns) \<in> measures [\<lambda>(st, ns). card (unblack ns), \<lambda>(st, ns). length st]"
    using unblack_paint [OF n] by simp
qed simp_all

definition scan_black :: "int \<Rightarrow> nodes \<Rightarrow> nodes" where
  "scan_black root ns = black_loop [root] ns"

lemma black_loop_colors:
  "colored Gray (black_loop st ns) \<subseteq> colored Gray ns" "dom (map_of (black_loop st ns)) = dom (map_of ns)"
  "colored Black ns \<subseteq> colored Black (black_loop st ns)"
proof -
  have "colored Gray (black_loop st ns) \<subseteq> colored Gray ns \<and> dom (map_of (black_loop st ns)) = dom (map_of ns) \<and>
    colored Black ns \<subseteq> colored Black (black_loop st ns)"
  proof (induction st ns rule: black_loop.induct)
    case (2 a st ns)
    show ?case
    proof (cases "map_of ns a")
      case (Some n)
      show ?thesis
      proof (cases "color n = Black")
        case False
        obtain ns' st' where f: "fold restore_edge (node_children n) (paint a Black n ns, st) = (ns', st')" by fastforce
        have "dom (map_of (paint a Black n ns)) = dom (map_of ns)" using Some by auto
        then show ?thesis
          using 2(3) [OF Some False f [symmetric] refl] Some False f fold_restore_colors [OF f] by auto
      qed (use 2(2) [OF Some] Some in auto)
    qed (use 2(1) in auto)
  qed simp
  then show "colored Gray (black_loop st ns) \<subseteq> colored Gray ns" "dom (map_of (black_loop st ns)) = dom (map_of ns)"
    "colored Black ns \<subseteq> colored Black (black_loop st ns)" by blast+
qed

lemma black_loop_root: "map_of ns a \<noteq> None \<Longrightarrow> a \<in> colored Black (black_loop (a # st) ns)"
proof -
  assume "map_of ns a \<noteq> None"
  then obtain n where n: "map_of ns a = Some n" by blast
  show ?thesis
  proof (cases "color n = Black")
    case True
    then have "a \<in> colored Black ns" using n by (simp add: colored_def)
    then show ?thesis using n True black_loop_colors(3) by auto
  next
    case False
    obtain ns' st' where f: "fold restore_edge (node_children n) (paint a Black n ns, st) = (ns', st')" by fastforce
    have "a \<in> colored Black ns'" using fold_restore_colors [OF f, of Black] by simp
    then show ?thesis using n False f black_loop_colors(3) [of ns' st'] by auto
  qed
qed

function scan_loop :: "int list \<Rightarrow> nodes \<Rightarrow> nodes" where
  "scan_loop [] ns = ns"
| "scan_loop (a # st) ns =
     (case map_of ns a of
        None \<Rightarrow> scan_loop st ns
      | Some n \<Rightarrow>
          if color n \<noteq> Gray then scan_loop st ns
          else if trial n > 0 then scan_loop st (scan_black a ns)
          else scan_loop (rev (map fst (node_children n)) @ st) (paint a White n ns))"
  by pat_completeness auto

termination scan_loop
proof (relation "measures [\<lambda>(st, ns). card (colored Gray ns), \<lambda>(st, ns). length st]")
  fix a st and ns :: nodes and n
  assume n: "map_of ns a = Some n" "\<not> color n \<noteq> Gray"
  then have a: "a \<in> colored Gray ns" by (simp add: colored_def)
  have "a \<in> colored Black (scan_black a ns)" unfolding scan_black_def using n(1) by (intro black_loop_root) simp
  then have "a \<notin> colored Gray (scan_black a ns)" using colored_same by blast
  then have "colored Gray (scan_black a ns) \<subset> colored Gray ns"
    using a black_loop_colors(1) [of "[a]" ns] unfolding scan_black_def by blast
  then have "card (colored Gray (scan_black a ns)) < card (colored Gray ns)"
    by (rule psubset_card_mono [OF finite_colored])
  then show "((st, scan_black a ns), a # st, ns) \<in> measures [\<lambda>(st, ns). card (colored Gray ns), \<lambda>(st, ns). length st]"
    by simp
  have "card (colored Gray (paint a White n ns)) < card (colored Gray ns)"
    using a by (intro psubset_card_mono [OF finite_colored]) auto
  then show "((rev (map fst (node_children n)) @ st, paint a White n ns), a # st, ns)
      \<in> measures [\<lambda>(st, ns). card (colored Gray ns), \<lambda>(st, ns). length st]" by simp
qed simp_all

definition scan :: "int \<Rightarrow> nodes \<Rightarrow> nodes" where
  "scan root ns = scan_loop [root] ns"

subsection \<open>Collection\<close>

definition WHITE_GUARD :: nat where
  "WHITE_GUARD = 2 ^ 30"

text \<open>The guard on a white's count, its destruction body, which leaves it owning nothing, and the
  end of its shell.\<close>

definition guard_white :: "int \<Rightarrow> heap \<Rightarrow> heap" where
  "guard_white a h =
     (let c = cell_at h a in if c = Dead then h else set_cell h a (with_count (count_of c + WHITE_GUARD) c))"

fun emptied :: "cell \<Rightarrow> cell" where
  "emptied (ListCell l) = ListCell (clear_values l)"
| "emptied (MapCell m) = MapCell (Maps.map_clear m)"
| "emptied (SetCell s) = SetCell (Sets.set_clear s)"
| "emptied (OtherCell k n os) = OtherCell k n []"
| "emptied c = c"

definition destroy_white :: "int \<Rightarrow> heap \<Rightarrow> heap" where
  "destroy_white a h = alter_cell a emptied (run_release (owned (cell_at h a)) h)"

definition free_white_shell :: "int \<Rightarrow> heap \<Rightarrow> heap" where
  "free_white_shell a h = set_cell h a Dead"

text \<open>The suspects that are still alive are the roots.\<close>

definition live_roots :: "heap \<Rightarrow> (int \<times> list_type_tag) list \<Rightarrow> (int \<times> list_type_tag) list" where
  "live_roots h suspects = filter (\<lambda>(a, t). real_strong_count h a t \<noteq> None) suspects"

definition mark_root :: "heap \<Rightarrow> int \<times> list_type_tag \<Rightarrow> nodes \<Rightarrow> nodes" where
  "mark_root h r ns =
     (let (ok, ns1) = seed_node h (fst r) (snd r) ns in if ok then mark_gray h (fst r) ns1 else ns1)"

definition trial_graph :: "heap \<Rightarrow> (int \<times> list_type_tag) list \<Rightarrow> nodes" where
  "trial_graph h roots = fold (\<lambda>r. scan (fst r)) roots (fold (mark_root h) roots [])"

definition whites :: "nodes \<Rightarrow> int list" where
  "whites ns = map fst (filter (\<lambda>e. color (snd e) = White) ns)"

definition free_whites :: "int list \<Rightarrow> heap \<Rightarrow> heap" where
  "free_whites ws h = fold free_white_shell ws (fold destroy_white ws (fold guard_white ws h))"

text \<open>The pass; the table of nodes hands out the whites in an order \<open>p\<close> of its own.\<close>

definition collect :: "nat list \<Rightarrow> (int \<times> list_type_tag) list \<Rightarrow> heap \<Rightarrow> heap" where
  "collect p suspects h = free_whites (reorder p (whites (trial_graph h (live_roots h suspects)))) h"

subsection \<open>The mark\<close>

definition out :: "heap \<Rightarrow> int \<Rightarrow> (int \<times> list_type_tag) list" where
  "out h x = edges (owned (cell_at h x))"

definition out_to :: "heap \<Rightarrow> int \<Rightarrow> int \<Rightarrow> nat" where
  "out_to h x a = count_list (map fst (out h x)) a"

definition candidate :: "heap \<Rightarrow> int \<Rightarrow> bool" where
  "candidate h a \<longleftrightarrow> (\<exists>t. cycle_child_code t \<and> kind_of (cell_at h a) = Some t)"

definition edges_ok :: "heap \<Rightarrow> bool" where
  "edges_ok h \<longleftrightarrow>
     (\<forall>x c t. (c, t) \<in> set (out h x) \<longrightarrow> candidate h c \<longrightarrow> kind_of (cell_at h c) = Some t \<and> cycle_child_code t)"

definition nodes_ok :: "heap \<Rightarrow> nodes \<Rightarrow> bool" where
  "nodes_ok h ns \<longleftrightarrow>
     distinct (map fst ns) \<and> (\<forall>a n. map_of ns a = Some n \<longrightarrow> candidate h a \<and> node_children n = out h a)"

definition trial_of :: "heap \<Rightarrow> nodes \<Rightarrow> int \<Rightarrow> int" where
  "trial_of h ns a = (case map_of ns a of Some n \<Rightarrow> trial n | None \<Rightarrow> int (count_of (cell_at h a)))"

text \<open>A set that edges to candidates do not leave.\<close>

definition edge_closed :: "heap \<Rightarrow> int set \<Rightarrow> bool" where
  "edge_closed h R \<longleftrightarrow> (\<forall>x \<in> R. \<forall>c \<in> fst ` set (out h x). candidate h c \<longrightarrow> c \<in> R)"

text \<open>
  The mark in progress, with the stack \<open>st\<close> and the edges \<open>ds\<close> of the node that was just grayed
  still to subtract: a trial count is the real count less the edges out of gray nodes.
\<close>

definition marking :: "heap \<Rightarrow> int set \<Rightarrow> nodes \<Rightarrow> int list \<Rightarrow> (int \<times> list_type_tag) list \<Rightarrow> bool" where
  "marking h R ns st ds \<longleftrightarrow>
     nodes_ok h ns \<and>
     (\<forall>a. candidate h a \<longrightarrow>
        trial_of h ns a + (\<Sum>x \<in> colored Gray ns. int (out_to h x a)) =
        int (count_of (cell_at h a)) + int (count_list (map fst ds) a)) \<and>
     colored Black ns = {} \<and> colored White ns = {} \<and>
     (\<forall>x \<in> colored Gray ns. \<forall>c \<in> fst ` set (out h x). candidate h c \<longrightarrow>
        c \<in> colored Gray ns \<union> set st \<union> fst ` set ds) \<and>
     dom (map_of ns) \<subseteq> colored Gray ns \<union> set st \<union> fst ` set ds \<and>
     (\<forall>(c, t) \<in> set ds. candidate h c \<longrightarrow> c \<in> R \<and> kind_of (cell_at h c) = Some t \<and> cycle_child_code t) \<and>
     dom (map_of ns) \<subseteq> R \<and> set st \<subseteq> dom (map_of ns)"

lemma markingD:
  assumes "marking h R ns st ds"
  shows "nodes_ok h ns"
    and "candidate h a \<Longrightarrow> trial_of h ns a + (\<Sum>x \<in> colored Gray ns. int (out_to h x a)) =
      int (count_of (cell_at h a)) + int (count_list (map fst ds) a)"
    and "colored Black ns = {}" and "colored White ns = {}"
    and "x \<in> colored Gray ns \<Longrightarrow> c \<in> fst ` set (out h x) \<Longrightarrow> candidate h c \<Longrightarrow>
      c \<in> colored Gray ns \<union> set st \<union> fst ` set ds"
    and "dom (map_of ns) \<subseteq> colored Gray ns \<union> set st \<union> fst ` set ds"
    and "(c, t) \<in> set ds \<Longrightarrow> candidate h c \<Longrightarrow> c \<in> R \<and> kind_of (cell_at h c) = Some t \<and> cycle_child_code t"
    and "dom (map_of ns) \<subseteq> R" and "set st \<subseteq> dom (map_of ns)"
  using assms unfolding marking_def by blast+

lemma nodes_okD:
  assumes "nodes_ok h ns"
  shows "distinct (map fst ns)" and "map_of ns a = Some n \<Longrightarrow> candidate h a"
    and "map_of ns a = Some n \<Longrightarrow> node_children n = out h a"
  using assms unfolding nodes_ok_def by blast+

lemma nodes_ok_update:
  assumes "nodes_ok h ns" and "map_of ns a = Some n" and "node_children m = node_children n"
  shows "nodes_ok h (AList.update a m ns)"
  using assms by (auto simp: nodes_ok_def AList.distinct_update AList.update_conv')

lemma marking_push:
  assumes M: "marking h R ns st ds" and "set st \<subseteq> set st'" and "set st' \<subseteq> dom (map_of ns)"
  shows "marking h R ns st' ds"
proof -
  have "\<forall>x \<in> colored Gray ns. \<forall>c \<in> fst ` set (out h x). candidate h c \<longrightarrow>
      c \<in> colored Gray ns \<union> set st' \<union> fst ` set ds"
    using markingD(5) [OF M] assms(2) by fast
  moreover have "dom (map_of ns) \<subseteq> colored Gray ns \<union> set st' \<union> fst ` set ds"
    using markingD(6) [OF M] assms(2) by fast
  ultimately show ?thesis using M assms(3) unfolding marking_def by simp
qed

lemma seed_marking:
  assumes M: "marking h R ns st ds" and k: "kind_of (cell_at h c) = Some t" "cycle_child_code t" and "c \<in> R"
    and s: "seed_node h c t ns = (ok, ns1)" and "set st \<subseteq> set st'" "set st' \<subseteq> insert c (set st)"
    and "c \<in> set st' \<union> fst ` set ds"
  shows "ok" and "marking h R ns1 st' ds" and "map_of ns1 c \<noteq> None"
proof -
  have "ok \<and> marking h R ns1 st' ds \<and> map_of ns1 c \<noteq> None"
  proof (cases "map_of ns c")
    case (Some n)
    then have "c \<in> dom (map_of ns)" by blast
    then have "marking h R ns st' ds" using assms(7) markingD(9) [OF M] by (intro marking_push [OF M assms(6)]) auto
    then show ?thesis using Some s by (simp add: seed_node_def)
  next
    case None
    have cand: "candidate h c" using k by (auto simp: candidate_def)
    let ?n = "\<lparr>node_kind = t, trial = int (count_of (cell_at h c)), color = Fresh, node_children = out h c\<rparr>"
    have ns1: "ok" "ns1 = (c, ?n) # ns"
      using s None k by (auto simp: seed_node_def real_strong_count_def children_of_def out_def)
    have col: "colored d ns1 = colored d ns" if "d \<noteq> Fresh" for d
      using None that by (auto simp: ns1 colored_def)
    have gray: "colored Gray ns1 = colored Gray ns" by (rule col) simp
    have "nodes_ok h ns1" using markingD(1) [OF M] None cand by (auto simp: nodes_ok_def ns1 map_of_eq_None_iff)
    moreover have "trial_of h ns1 a = trial_of h ns a" for a using None by (simp add: trial_of_def ns1)
    moreover have dom: "dom (map_of ns1) = insert c (dom (map_of ns))" by (simp add: ns1)
    moreover have "dom (map_of ns1) \<subseteq> colored Gray ns1 \<union> set st' \<union> fst ` set ds"
      "dom (map_of ns1) \<subseteq> R \<and> set st' \<subseteq> dom (map_of ns1)"
      using markingD(6,8,9) [OF M] assms(4,6-8) by (auto simp: dom col)
    moreover have "\<forall>x \<in> colored Gray ns1. \<forall>c \<in> fst ` set (out h x). candidate h c \<longrightarrow>
        c \<in> colored Gray ns1 \<union> set st' \<union> fst ` set ds"
      using markingD(5) [OF M] assms(6) unfolding gray by fast
    ultimately have "marking h R ns1 st' ds" using M unfolding marking_def by (simp add: col)
    then show ?thesis using ns1(1) dom by auto
  qed
  then show "ok" "marking h R ns1 st' ds" "map_of ns1 c \<noteq> None" by blast+
qed

lemma adjust_marking:
  assumes M: "marking h R ns st ((c, t) # ds)" and n: "map_of ns c = Some n"
  shows "marking h R (adjust c (- 1) n ns) (if color n \<noteq> Gray then c # st else st) ds"
proof -
  let ?ns = "adjust c (- 1) n ns" and ?st = "if color n \<noteq> Gray then c # st else st"
  have at: "map_of ?ns = (map_of ns)(c \<mapsto> n\<lparr>trial := trial n - 1\<rparr>)" by (simp add: adjust_def AList.update_conv')
  have g: "c \<in> colored Gray ns \<longleftrightarrow> color n = Gray" using n by (simp add: colored_def)
  have "nodes_ok h ?ns" unfolding adjust_def by (rule nodes_ok_update [OF markingD(1) [OF M] n]) simp
  moreover have "trial_of h ?ns a + (\<Sum>x \<in> colored Gray ?ns. int (out_to h x a)) =
      int (count_of (cell_at h a)) + int (count_list (map fst ds) a)" if "candidate h a" for a
    using markingD(2) [OF M that] n by (cases "a = c") (auto simp: trial_of_def at)
  moreover have "insert c (colored Gray ns \<union> set st \<union> fst ` set ds) = colored Gray ?ns \<union> set ?st \<union> fst ` set ds"
    using n g by auto
  moreover have "c \<in> dom (map_of ns)" using n by blast
  ultimately show ?thesis
    using M n unfolding marking_def by (simp add: insert_absorb)
qed

lemma subtract_edge_marking:
  assumes M: "marking h R ns st ((c, t) # ds)" and s: "subtract_edge h (c, t) (ns, st) = (ns', st')"
  shows "marking h R ns' st' ds"
proof (cases "candidate h c")
  case True
  have k: "c \<in> R" "kind_of (cell_at h c) = Some t" "cycle_child_code t"
    using markingD(7) [OF M _ True] by auto
  obtain ok ns1 where seed: "seed_node h c t ns = (ok, ns1)" by fastforce
  note sm = seed_marking [OF M k(2,3,1) seed subset_refl subset_insertI]
  obtain n where n: "map_of ns1 c = Some n" using sm(3) by auto
  have "ns' = adjust c (- 1) n ns1" "st' = (if color n \<noteq> Gray then c # st else st)"
    using s sm(1) n by (simp_all add: seed)
  then show ?thesis using adjust_marking [OF _ n] sm(2) by simp
next
  case False
  then have "map_of ns c = None" using nodes_okD(2) [OF markingD(1) [OF M]] by fastforce
  moreover have "real_strong_count h c t = None" using False by (auto simp: real_strong_count_def candidate_def)
  ultimately have eq: "ns' = ns" "st' = st" using s by (simp_all add: seed_node_def)
  have "c \<notin> dom (map_of ns)" using \<open>map_of ns c = None\<close> by auto
  moreover have "a \<noteq> c" if "candidate h a" for a using that False by auto
  ultimately show ?thesis using M False unfolding marking_def eq by auto
qed

lemma fold_subtract_marking:
  "marking h R ns st es \<Longrightarrow> fold (subtract_edge h) es (ns, st) = (ns', st') \<Longrightarrow> marking h R ns' st' []"
proof (induction es arbitrary: ns st)
  case (Cons e es)
  obtain c t where e: "e = (c, t)" by fastforce
  obtain ns1 st1 where s: "subtract_edge h (c, t) (ns, st) = (ns1, st1)" by fastforce
  show ?case using Cons.IH [OF subtract_edge_marking [OF Cons.prems(1) [unfolded e] s]] Cons.prems(2) s e by simp
qed simp

lemma paint_gray_marking:
  assumes M: "marking h R ns (a # st) []" and n: "map_of ns a = Some n" "color n \<noteq> Gray"
    and "edges_ok h" and "edge_closed h R"
  shows "marking h R (paint a Gray n ns) st (node_children n)"
proof -
  have out: "node_children n = out h a" by (rule nodes_okD(3) [OF markingD(1) [OF M] n(1)])
  have a: "a \<notin> colored Gray ns" using n by (simp add: colored_def)
  have R: "a \<in> R" using markingD(8) [OF M] n by auto
  have "trial_of h (paint a Gray n ns) b = trial_of h ns b" for b
    using n by (simp add: trial_of_def paint_def AList.update_conv')
  then have "trial_of h (paint a Gray n ns) b + (\<Sum>x \<in> colored Gray (paint a Gray n ns). int (out_to h x b)) =
      int (count_of (cell_at h b)) + int (count_list (map fst (node_children n)) b)" if "candidate h b" for b
    using markingD(2) [OF M that] a finite_colored by (simp add: out out_to_def)
  moreover have "nodes_ok h (paint a Gray n ns)"
    unfolding paint_def by (rule nodes_ok_update [OF markingD(1) [OF M] n(1)]) simp
  moreover have "candidate h c \<Longrightarrow> c \<in> R \<and> kind_of (cell_at h c) = Some t \<and> cycle_child_code t"
    if "(c, t) \<in> set (out h a)" for c t
    using that assms(4,5) R unfolding edges_ok_def edge_closed_def by force
  moreover have "dom (map_of ns) \<subseteq> insert a (colored Gray ns \<union> set st)" using markingD(6) [OF M] by auto
  ultimately show ?thesis
    unfolding marking_def using M n(1) R by (auto simp: marking_def out)
qed

lemma fold_subtract_dom:
  "fold (subtract_edge h) es (ns, st) = (ns', st') \<Longrightarrow> dom (map_of ns) \<subseteq> dom (map_of ns')"
proof (induction es arbitrary: ns st)
  case (Cons e es)
  obtain c t where e: "e = (c, t)" by fastforce
  obtain ns1 st1 where s: "subtract_edge h e (ns, st) = (ns1, st1)" by fastforce
  have "dom (map_of ns) \<subseteq> dom (map_of ns1)"
  proof (cases "seed_node h c t ns")
    case (Pair ok ns2)
    have "dom (map_of ns) \<subseteq> dom (map_of ns2)"
      using Pair by (auto simp: seed_node_def split: if_splits option.splits)
    moreover have "ns1 = ns2 \<or> (\<exists>n. map_of ns2 c = Some n \<and> ns1 = adjust c (- 1) n ns2)"
      using s Pair by (auto simp: e split: if_splits option.splits)
    ultimately show ?thesis by (metis adjust_colored(2))
  qed
  then show ?case using Cons.IH [of ns1 st1] Cons.prems s by auto
qed simp

lemma mark_loop_marking:
  "marking h R ns st [] \<Longrightarrow> edges_ok h \<Longrightarrow> edge_closed h R \<Longrightarrow>
     marking h R (mark_loop h st ns) [] [] \<and> dom (map_of ns) \<subseteq> dom (map_of (mark_loop h st ns))"
proof (induction h st ns rule: mark_loop.induct)
  case (2 h a st ns)
  note M = "2.prems"(1)
  show ?case
  proof (cases "map_of ns a")
    case None
    then show ?thesis using markingD(9) [OF M] by auto
  next
    case (Some n)
    show ?thesis
    proof (cases "color n = Gray")
      case True
      then have "a \<in> colored Gray ns" using Some by (simp add: colored_def)
      then have "marking h R ns st []" using M unfolding marking_def by auto
      then show ?thesis using 2(2) [OF Some True] "2.prems" Some True by simp
    next
      case False
      obtain ns' st' where f: "fold (subtract_edge h) (node_children n) (paint a Gray n ns, st) = (ns', st')" by fastforce
      have "marking h R ns' st' []"
        by (rule fold_subtract_marking [OF paint_gray_marking [OF M Some False] f]) (use "2.prems" in auto)
      moreover have "dom (map_of ns) \<subseteq> dom (map_of ns')"
        using fold_subtract_dom [OF f] by auto
      ultimately show ?thesis using 2(3) [OF Some False f [symmetric] refl] "2.prems" Some False f by auto
    qed
  qed
qed simp

text \<open>After the mark every node is gray, the nodes are the candidates the roots reach, and a trial
  count is the real count less the edges between candidates.\<close>

definition valid_roots :: "heap \<Rightarrow> (int \<times> list_type_tag) list \<Rightarrow> bool" where
  "valid_roots h roots \<longleftrightarrow>
     (\<forall>(a, t) \<in> set roots. kind_of (cell_at h a) = Some t \<and> cycle_child_code t)"

definition marked :: "heap \<Rightarrow> (int \<times> list_type_tag) list \<Rightarrow> nodes" where
  "marked h roots = fold (mark_root h) roots []"

lemma mark_root_marking:
  assumes "edges_ok h" and "edge_closed h R" and M: "marking h R ns [] []"
    and "kind_of (cell_at h a) = Some t" "cycle_child_code t" and "a \<in> R"
  shows "marking h R (mark_root h (a, t) ns) [] [] \<and>
    insert a (dom (map_of ns)) \<subseteq> dom (map_of (mark_root h (a, t) ns))"
proof -
  obtain ok ns1 where s: "seed_node h a t ns = (ok, ns1)" by fastforce
  have "ok" "marking h R ns1 [a] []" "map_of ns1 a \<noteq> None"
    using seed_marking [OF M assms(4,5,6) s, of "[a]"] by simp_all
  moreover have "dom (map_of ns) \<subseteq> dom (map_of ns1)" using s by (auto simp: seed_node_def split: if_splits option.splits)
  ultimately show ?thesis
    using mark_loop_marking [of h R ns1 "[a]"] assms(1,2) s by (auto simp: mark_root_def mark_gray_def)
qed

lemma fold_mark_marking:
  "marking h R ns [] [] \<Longrightarrow> edges_ok h \<Longrightarrow> edge_closed h R \<Longrightarrow> valid_roots h roots \<Longrightarrow> fst ` set roots \<subseteq> R \<Longrightarrow>
     marking h R (fold (mark_root h) roots ns) [] [] \<and>
     fst ` set roots \<union> dom (map_of ns) \<subseteq> dom (map_of (fold (mark_root h) roots ns))"
proof (induction roots arbitrary: ns)
  case (Cons r roots)
  obtain a t where r: "r = (a, t)" by fastforce
  have "marking h R (mark_root h r ns) [] [] \<and> insert a (dom (map_of ns)) \<subseteq> dom (map_of (mark_root h r ns))"
    using mark_root_marking [OF Cons.prems(2,3,1), of a t] Cons.prems(4,5) by (simp add: r valid_roots_def)
  note step = conjunct1 [OF this] conjunct2 [OF this]
  have "valid_roots h roots" "fst ` set roots \<subseteq> R" using Cons.prems(4,5) by (simp_all add: valid_roots_def)
  note IH = Cons.IH [OF step(1) Cons.prems(2,3) this]
  have "fst ` set (r # roots) \<union> dom (map_of ns) \<subseteq> dom (map_of (fold (mark_root h) roots (mark_root h r ns)))"
    using step(2) conjunct2 [OF IH] unfolding r list.set image_insert fst_conv by blast
  then show ?case using conjunct1 [OF IH] by simp
qed simp

lemma marked_marking:
  assumes "edges_ok h" and "edge_closed h R" and "valid_roots h roots" and "fst ` set roots \<subseteq> R"
  shows "marking h R (marked h roots) [] []" and "fst ` set roots \<subseteq> dom (map_of (marked h roots))"
proof -
  have "marking h R [] [] []" by (simp add: marking_def nodes_ok_def trial_of_def colored_def)
  from fold_mark_marking [OF this assms] show "marking h R (marked h roots) [] []"
    "fst ` set roots \<subseteq> dom (map_of (marked h roots))" by (auto simp: marked_def)
qed

subsection \<open>The scan\<close>

text \<open>The counts a candidate owes to owners outside the set \<open>D\<close> of candidates.\<close>

definition ext :: "heap \<Rightarrow> int set \<Rightarrow> int \<Rightarrow> int" where
  "ext h D a = int (count_of (cell_at h a)) - (\<Sum>x \<in> D. int (out_to h x a))"

definition blackening :: "heap \<Rightarrow> int set \<Rightarrow> int set \<Rightarrow> nodes \<Rightarrow> int list \<Rightarrow> (int \<times> list_type_tag) list \<Rightarrow> bool" where
  "blackening h D K ns st ds \<longleftrightarrow>
     nodes_ok h ns \<and> dom (map_of ns) = D \<and>
     (\<forall>a n. map_of ns a = Some n \<longrightarrow>
        trial n + int (count_list (map fst ds) a) = ext h D a + (\<Sum>x \<in> colored Black ns. int (out_to h x a))) \<and>
     (\<forall>x \<in> colored Black ns. \<forall>c \<in> fst ` set (out h x). c \<in> D \<longrightarrow>
        c \<in> colored Black ns \<union> set st \<union> fst ` set ds) \<and>
     colored Black ns \<union> set st \<union> (fst ` set ds \<inter> D) \<subseteq> K"

lemma blackeningD:
  assumes "blackening h D K ns st ds"
  shows "nodes_ok h ns" and "dom (map_of ns) = D"
    and "map_of ns a = Some n \<Longrightarrow>
      trial n + int (count_list (map fst ds) a) = ext h D a + (\<Sum>x \<in> colored Black ns. int (out_to h x a))"
    and "x \<in> colored Black ns \<Longrightarrow> c \<in> fst ` set (out h x) \<Longrightarrow> c \<in> D \<Longrightarrow>
      c \<in> colored Black ns \<union> set st \<union> fst ` set ds"
    and "colored Black ns \<union> set st \<union> (fst ` set ds \<inter> D) \<subseteq> K"
  using assms unfolding blackening_def by blast+

lemma restore_edge_blackening:
  assumes B: "blackening h D K ns st ((c, t) # ds)" and s: "restore_edge (c, t) (ns, st) = (ns', st')"
  shows "blackening h D K ns' st' ds"
proof (cases "map_of ns c")
  case None
  then have "c \<notin> D" using blackeningD(2) [OF B] by auto
  have eq: "ns' = ns" "st' = st" using s None by simp_all
  have ne: "a \<noteq> c" if "map_of ns a = Some n" for a n using that None by auto
  have "trial n + int (count_list (map fst ds) a) = ext h D a + (\<Sum>x \<in> colored Black ns. int (out_to h x a))"
    if "map_of ns a = Some n" for a n using blackeningD(3) [OF B that] ne [OF that] by simp
  moreover have "\<forall>x \<in> colored Black ns. \<forall>b \<in> fst ` set (out h x). b \<in> D \<longrightarrow> b \<in> colored Black ns \<union> set st \<union> fst ` set ds"
  proof (intro ballI impI)
    fix x b assume "x \<in> colored Black ns" "b \<in> fst ` set (out h x)" "b \<in> D"
    from blackeningD(4) [OF B this] show "b \<in> colored Black ns \<union> set st \<union> fst ` set ds"
      using \<open>b \<in> D\<close> \<open>c \<notin> D\<close> by auto
  qed
  moreover have "colored Black ns \<union> set st \<union> (fst ` set ds \<inter> D) \<subseteq> K" using blackeningD(5) [OF B] by auto
  ultimately show ?thesis using blackeningD(1,2) [OF B] unfolding blackening_def eq by blast
next
  case (Some n)
  have ns': "ns' = adjust c 1 n ns" and st': "st' = (if color n \<noteq> Black then c # st else st)" using s Some by simp_all
  have at: "map_of ns' = (map_of ns)(c \<mapsto> n\<lparr>trial := trial n + 1\<rparr>)" by (simp add: ns' adjust_def AList.update_conv')
  have col: "colored d ns' = colored d ns" and dom: "dom (map_of ns') = dom (map_of ns)" for d
    using adjust_colored [OF Some] by (simp_all add: ns')
  have black: "color n = Black \<longleftrightarrow> c \<in> colored Black ns" using Some by (simp add: colored_def)
  have "nodes_ok h ns'" unfolding ns' adjust_def by (rule nodes_ok_update [OF blackeningD(1) [OF B] Some]) simp
  moreover have "trial m + int (count_list (map fst ds) a) = ext h D a + (\<Sum>x \<in> colored Black ns'. int (out_to h x a))"
    if "map_of ns' a = Some m" for a m
  proof (cases "a = c")
    case True
    then have "trial m = trial n + 1" using that by (auto simp: at)
    then show ?thesis using True blackeningD(3) [OF B Some] unfolding col by simp
  next
    case False
    then have "map_of ns a = Some m" using that by (simp add: at)
    from blackeningD(3) [OF B this] show ?thesis using False unfolding col by simp
  qed
  moreover have "\<forall>x \<in> colored Black ns'. \<forall>b \<in> fst ` set (out h x). b \<in> D \<longrightarrow> b \<in> colored Black ns' \<union> set st' \<union> fst ` set ds"
  proof (intro ballI impI)
    fix x b assume "x \<in> colored Black ns'" "b \<in> fst ` set (out h x)" "b \<in> D"
    from blackeningD(4) [OF B this [unfolded col]]
    show "b \<in> colored Black ns' \<union> set st' \<union> fst ` set ds" using black unfolding col st' by auto
  qed
  moreover have "colored Black ns' \<union> set st' \<union> (fst ` set ds \<inter> D) \<subseteq> K"
    using blackeningD(5) [OF B] blackeningD(2) [OF B] Some unfolding col st' by auto
  ultimately show ?thesis using blackeningD(2) [OF B] dom unfolding blackening_def by blast
qed

lemma fold_restore_blackening:
  "blackening h D K ns st es \<Longrightarrow> fold restore_edge es (ns, st) = (ns', st') \<Longrightarrow> blackening h D K ns' st' []"
proof (induction es arbitrary: ns st)
  case (Cons e es)
  obtain c t where e: "e = (c, t)" by fastforce
  obtain ns1 st1 where s: "restore_edge (c, t) (ns, st) = (ns1, st1)" by fastforce
  show ?case using Cons.IH [OF restore_edge_blackening [OF Cons.prems(1) [unfolded e] s]] Cons.prems(2) s e by simp
qed simp

definition keeps_in :: "heap \<Rightarrow> int set \<Rightarrow> int set \<Rightarrow> bool" where
  "keeps_in h D K \<longleftrightarrow> (\<forall>x \<in> K. \<forall>c \<in> fst ` set (out h x). c \<in> D \<longrightarrow> c \<in> K)"

lemma paint_black_blackening:
  assumes B: "blackening h D K ns (a # st) []" and n: "map_of ns a = Some n" "color n \<noteq> Black" and K: "keeps_in h D K"
  shows "blackening h D K (paint a Black n ns) st (node_children n)"
proof -
  let ?ns = "paint a Black n ns"
  have out: "node_children n = out h a" by (rule nodes_okD(3) [OF blackeningD(1) [OF B] n(1)])
  have a: "a \<notin> colored Black ns" using n by (simp add: colored_def)
  have aK: "a \<in> K" using blackeningD(5) [OF B] by simp
  have at: "map_of ?ns = (map_of ns)(a \<mapsto> n\<lparr>color := Black\<rparr>)" by (simp add: paint_def AList.update_conv')
  have "nodes_ok h ?ns" unfolding paint_def by (rule nodes_ok_update [OF blackeningD(1) [OF B] n(1)]) simp
  moreover have "trial m + int (count_list (map fst (node_children n)) b) =
      ext h D b + (\<Sum>x \<in> colored Black ?ns. int (out_to h x b))" if m: "map_of ?ns b = Some m" for b m
  proof -
    obtain m' where m': "map_of ns b = Some m'" "trial m' = trial m"
      using m n(1) that by (cases "b = a") (auto simp: at)
    show ?thesis using blackeningD(3) [OF B m'(1)] m'(2) a finite_colored by (simp add: out out_to_def)
  qed
  moreover have "\<forall>x \<in> colored Black ?ns. \<forall>c \<in> fst ` set (out h x). c \<in> D \<longrightarrow>
      c \<in> colored Black ?ns \<union> set st \<union> fst ` set (node_children n)"
    using blackeningD(4) [OF B] by (auto simp: out)
  moreover have "colored Black ?ns \<union> set st \<union> (fst ` set (node_children n) \<inter> D) \<subseteq> K"
    using blackeningD(5) [OF B] K aK unfolding keeps_in_def out by auto
  moreover have "dom (map_of ?ns) = D" using blackeningD(2) [OF B] n(1) by auto
  ultimately show ?thesis unfolding blackening_def by blast
qed

lemma blackening_skip:
  assumes B: "blackening h D K ns (a # st) []" and "a \<in> colored Black ns \<or> a \<notin> D"
  shows "blackening h D K ns st []"
proof -
  have "\<forall>x \<in> colored Black ns. \<forall>c \<in> fst ` set (out h x). c \<in> D \<longrightarrow> c \<in> colored Black ns \<union> set st \<union> fst ` set []"
    using blackeningD(4) [OF B] assms(2) by auto
  then show ?thesis using B unfolding blackening_def by auto
qed

lemma black_loop_blackening:
  "blackening h D K ns st [] \<Longrightarrow> keeps_in h D K \<Longrightarrow> blackening h D K (black_loop st ns) [] []"
proof (induction st ns rule: black_loop.induct)
  case (2 a st ns)
  note B = "2.prems"(1)
  show ?case
  proof (cases "map_of ns a")
    case None
    then have "a \<notin> D" using blackeningD(2) [OF B] by auto
    then show ?thesis using 2(1) [OF None] blackening_skip [OF B] "2.prems"(2) None by simp
  next
    case (Some n)
    show ?thesis
    proof (cases "color n = Black")
      case True
      then have "a \<in> colored Black ns" using Some by (simp add: colored_def)
      then show ?thesis using 2(2) [OF Some True] blackening_skip [OF B] "2.prems"(2) Some True by simp
    next
      case False
      obtain ns' st' where f: "fold restore_edge (node_children n) (paint a Black n ns, st) = (ns', st')" by fastforce
      have "blackening h D K ns' st' []"
        by (rule fold_restore_blackening [OF paint_black_blackening [OF B Some False "2.prems"(2)] f])
      then show ?thesis using 2(3) [OF Some False f [symmetric] refl] "2.prems"(2) Some False f by simp
    qed
  qed
qed simp

lemma black_loop_others: "c \<noteq> Black \<Longrightarrow> colored c (black_loop st ns) = colored c ns - colored Black (black_loop st ns)"
proof (induction st ns rule: black_loop.induct)
  case (1 ns)
  then show ?case using colored_same [of _ c ns Black] by auto
next
  case (2 a st ns)
  show ?case
  proof (cases "map_of ns a")
    case None
    then show ?thesis using 2(1) [OF None] "2.prems" by simp
  next
    case (Some n)
    show ?thesis
    proof (cases "color n = Black")
      case False
      obtain ns' st' where f: "fold restore_edge (node_children n) (paint a Black n ns, st) = (ns', st')" by fastforce
      have "colored c ns' = colored c ns - {a}" "a \<in> colored Black ns'"
        using fold_restore_colors [OF f] "2.prems" by simp_all
      moreover have "colored Black ns' \<subseteq> colored Black (black_loop st' ns')" by (rule black_loop_colors(3))
      ultimately show ?thesis using 2(3) [OF Some False f [symmetric] refl] "2.prems" Some False f by auto
    qed (use 2(2) [OF Some] "2.prems" Some in simp)
  qed
qed

definition scanning :: "heap \<Rightarrow> int set \<Rightarrow> int set \<Rightarrow> nodes \<Rightarrow> int list \<Rightarrow> bool" where
  "scanning h D K ns st \<longleftrightarrow>
     blackening h D K ns [] [] \<and> colored Fresh ns = {} \<and> (\<forall>a \<in> colored White ns. ext h D a \<le> 0) \<and>
     (\<forall>x \<in> colored White ns. \<forall>c \<in> fst ` set (out h x). c \<in> D \<longrightarrow>
        c \<in> colored White ns \<union> colored Black ns \<union> set st)"

text \<open>Once the black nodes are closed, a node that is not black owes its trial count to owners
  outside the candidates.\<close>

lemma trial_ext:
  assumes B: "blackening h D K ns [] []" and n: "map_of ns a = Some n" "color n \<noteq> Black"
  shows "trial n = ext h D a"
proof -
  have a: "a \<in> D" "a \<notin> colored Black ns" using n blackeningD(2) [OF B] by (auto simp: colored_def)
  have "out_to h x a = 0" if "x \<in> colored Black ns" for x
    using blackeningD(4) [OF B that _ a(1)] a(2) by (auto simp: out_to_def count_list_0_iff)
  then show ?thesis using blackeningD(3) [OF B n(1)] by simp
qed

lemma scan_black_scanning:
  assumes S: "scanning h D K ns (a # st)" and K: "keeps_in h D K" and "a \<in> K" and "a \<in> D"
  shows "scanning h D K (scan_black a ns) st"
proof -
  have B: "blackening h D K ns [] []" using S unfolding scanning_def by blast
  have "blackening h D K ns [a] []" using B assms(3) by (auto simp: blackening_def)
  then have B': "blackening h D K (scan_black a ns) [] []" unfolding scan_black_def by (rule black_loop_blackening [OF _ K])
  have others: "colored c (scan_black a ns) = colored c ns - colored Black (scan_black a ns)" if "c \<noteq> Black" for c
    unfolding scan_black_def by (rule black_loop_others [OF that])
  have black: "insert a (colored Black ns) \<subseteq> colored Black (scan_black a ns)"
    using black_loop_colors(3) [of ns "[a]"] black_loop_root [of ns a "[]"] blackeningD(2) [OF B] assms(4)
    unfolding scan_black_def by auto
  have w: "colored White (scan_black a ns) = colored White ns - colored Black (scan_black a ns)"
    and f: "colored Fresh (scan_black a ns) = colored Fresh ns - colored Black (scan_black a ns)"
    using others by simp_all
  have "\<forall>x \<in> colored White (scan_black a ns). \<forall>c \<in> fst ` set (out h x). c \<in> D \<longrightarrow>
      c \<in> colored White (scan_black a ns) \<union> colored Black (scan_black a ns) \<union> set st"
  proof (intro ballI impI)
    fix x c assume x: "x \<in> colored White (scan_black a ns)" and c: "c \<in> fst ` set (out h x)" "c \<in> D"
    have "x \<in> colored White ns" using x w by blast
    then have "c \<in> colored White ns \<union> colored Black ns \<union> set (a # st)" using S c unfolding scanning_def by blast
    then show "c \<in> colored White (scan_black a ns) \<union> colored Black (scan_black a ns) \<union> set st"
      using w black by auto
  qed
  moreover have "colored Fresh (scan_black a ns) = {}" "\<forall>b \<in> colored White (scan_black a ns). ext h D b \<le> 0"
    using S w f unfolding scanning_def by simp_all
  ultimately show ?thesis using B' unfolding scanning_def by simp
qed

lemma paint_white_scanning:
  assumes S: "scanning h D K ns (a # st)" and n: "map_of ns a = Some n" "color n = Gray" "trial n \<le> 0"
  shows "scanning h D K (paint a White n ns) (rev (map fst (node_children n)) @ st)"
proof -
  let ?ns = "paint a White n ns"
  have B: "blackening h D K ns [] []" using S unfolding scanning_def by blast
  have out: "node_children n = out h a" by (rule nodes_okD(3) [OF blackeningD(1) [OF B] n(1)])
  have a: "a \<notin> colored Black ns" using n by (simp add: colored_def)
  have at: "map_of ?ns = (map_of ns)(a \<mapsto> n\<lparr>color := White\<rparr>)" by (simp add: paint_def AList.update_conv')
  have black: "colored Black ?ns = colored Black ns" using a by simp
  have "trial m = ext h D b + (\<Sum>x \<in> colored Black ns. int (out_to h x b))" if m: "map_of ?ns b = Some m" for b m
  proof -
    obtain m' where m': "map_of ns b = Some m'" "trial m' = trial m"
      using m n(1) that by (cases "b = a") (auto simp: at)
    then show ?thesis using blackeningD(3) [OF B m'(1)] by simp
  qed
  moreover have "nodes_ok h ?ns" unfolding paint_def by (rule nodes_ok_update [OF blackeningD(1) [OF B] n(1)]) simp
  moreover have "dom (map_of ?ns) = D" using blackeningD(2) [OF B] n(1) by auto
  ultimately have "blackening h D K ?ns [] []" using B unfolding blackening_def black by simp
  moreover have "ext h D a \<le> 0" using trial_ext [OF B n(1)] n(2,3) by simp
  moreover have "\<forall>x \<in> colored White ?ns. \<forall>c \<in> fst ` set (out h x). c \<in> D \<longrightarrow>
      c \<in> colored White ?ns \<union> colored Black ?ns \<union> set (rev (map fst (node_children n)) @ st)"
  proof (intro ballI impI)
    fix x c assume x: "x \<in> colored White ?ns" and c: "c \<in> fst ` set (out h x)" "c \<in> D"
    show "c \<in> colored White ?ns \<union> colored Black ?ns \<union> set (rev (map fst (node_children n)) @ st)"
    proof (cases "x = a")
      case True
      then show ?thesis using c(1) by (simp add: out)
    next
      case False
      then have "x \<in> colored White ns" using x by simp
      then have "c \<in> colored White ns \<union> colored Black ns \<union> set (a # st)" using S c unfolding scanning_def by blast
      then show ?thesis unfolding black by auto
    qed
  qed
  ultimately show ?thesis using S unfolding scanning_def by auto
qed

lemma scanning_skip:
  assumes "scanning h D K ns (a # st)" and "a \<in> colored White ns \<union> colored Black ns \<or> a \<notin> D"
  shows "scanning h D K ns st"
proof -
  have "\<forall>x \<in> colored White ns. \<forall>c \<in> fst ` set (out h x). c \<in> D \<longrightarrow> c \<in> colored White ns \<union> colored Black ns \<union> set st"
  proof (intro ballI impI)
    fix x c assume "x \<in> colored White ns" "c \<in> fst ` set (out h x)" "c \<in> D"
    then have "c \<in> colored White ns \<union> colored Black ns \<union> set (a # st)" using assms(1) unfolding scanning_def by blast
    then show "c \<in> colored White ns \<union> colored Black ns \<union> set st" using assms(2) \<open>c \<in> D\<close> by auto
  qed
  then show ?thesis using assms(1) unfolding scanning_def by blast
qed

text \<open>The nodes the scan has decided.\<close>

definition decided :: "nodes \<Rightarrow> int set" where
  "decided ns = colored White ns \<union> colored Black ns"

lemma scan_loop_scanning:
  "scanning h D K ns st \<Longrightarrow> keeps_in h D K \<Longrightarrow> (\<And>a. a \<in> D \<Longrightarrow> 0 < ext h D a \<Longrightarrow> a \<in> K) \<Longrightarrow>
     scanning h D K (scan_loop st ns) [] \<and> decided ns \<union> (set st \<inter> D) \<subseteq> decided (scan_loop st ns)"
proof (induction st ns rule: scan_loop.induct)
  case (2 a st ns)
  note S = "2.prems"(1)
  have B: "blackening h D K ns [] []" using S unfolding scanning_def by blast
  show ?case
  proof (cases "map_of ns a")
    case None
    then have "a \<notin> D" using blackeningD(2) [OF B] by auto
    then show ?thesis using 2(1) [OF None scanning_skip [OF S] "2.prems"(2,3)] None by auto
  next
    case (Some n)
    have aD: "a \<in> D" using Some blackeningD(2) [OF B] by auto
    show ?thesis
    proof (cases "color n = Gray")
      case False
      have "color n \<noteq> Fresh" using S Some unfolding scanning_def by (auto simp: colored_def)
      then have dec: "a \<in> decided ns" using False Some by (cases "color n") (auto simp: decided_def colored_def)
      then have "scanning h D K ns st" using scanning_skip [OF S] by (simp add: decided_def)
      from 2(2) [OF Some False this "2.prems"(2,3)] show ?thesis using dec Some False by auto
    next
      case gray: True
      show ?thesis
      proof (cases "trial n > 0")
        case True
        have aK: "a \<in> K" using trial_ext [OF B Some] gray True "2.prems"(3) [OF aD] by simp
        note S' = scan_black_scanning [OF S "2.prems"(2) aK aD]
        have black: "insert a (colored Black ns) \<subseteq> colored Black (scan_black a ns)"
          using black_loop_colors(3) [of ns "[a]"] black_loop_root [of ns a "[]"] Some unfolding scan_black_def by auto
        then have "insert a (decided ns) \<subseteq> decided (scan_black a ns)"
          using black_loop_others [of White "[a]" ns] unfolding decided_def scan_black_def by auto
        moreover note 2(3) [OF Some _ True S' "2.prems"(2,3)]
        ultimately show ?thesis using Some gray True by auto
      next
        case False
        note S' = paint_white_scanning [OF S Some gray]
        have "insert a (decided ns) \<subseteq> decided (paint a White n ns)" by (auto simp: decided_def)
        moreover note 2(4) [OF Some _ False S' "2.prems"(2,3)]
        ultimately show ?thesis using Some gray False by auto
      qed
    qed
  qed
qed (auto simp: decided_def)

lemma fold_scan_scanning:
  "scanning h D K ns [] \<Longrightarrow> keeps_in h D K \<Longrightarrow> (\<And>a. a \<in> D \<Longrightarrow> 0 < ext h D a \<Longrightarrow> a \<in> K) \<Longrightarrow>
     scanning h D K (fold (\<lambda>r. scan (fst r)) roots ns) [] \<and>
     decided ns \<union> (fst ` set roots \<inter> D) \<subseteq> decided (fold (\<lambda>r. scan (fst r)) roots ns)"
proof (induction roots arbitrary: ns)
  case (Cons r roots)
  have "scanning h D K ns [fst r]" using Cons.prems(1) by (auto simp: scanning_def)
  note step = scan_loop_scanning [OF this Cons.prems(2,3), folded scan_def]
  show ?case using Cons.IH [OF conjunct1 [OF step] Cons.prems(2,3)] conjunct2 [OF step] by auto
qed simp

subsection \<open>The whites are the garbage\<close>

definition edge_rel :: "heap \<Rightarrow> (int \<times> int) set" where
  "edge_rel h = {(x, c). c \<in> fst ` set (out h x) \<and> candidate h c}"

definition reach :: "heap \<Rightarrow> int set \<Rightarrow> int set" where
  "reach h X = (edge_rel h)\<^sup>* `` X"

lemma reach_closed: "edge_closed h (reach h X)"
  by (auto simp: edge_closed_def reach_def edge_rel_def intro: rtrancl_into_rtrancl)

lemma reach_subset: "edge_closed h R \<Longrightarrow> X \<subseteq> R \<Longrightarrow> reach h X \<subseteq> R"
proof
  fix a assume R: "edge_closed h R" "X \<subseteq> R" and "a \<in> reach h X"
  then obtain x where "x \<in> X" "(x, a) \<in> (edge_rel h)\<^sup>*" by (auto simp: reach_def)
  from this(2,1) show "a \<in> R"
    by induction (use R in \<open>auto simp: edge_closed_def edge_rel_def\<close>)
qed

lemma reach_refl: "X \<subseteq> reach h X"
  by (auto simp: reach_def)

text \<open>An owner outside the candidates \<open>D\<close>: a variable of the program, or an object that is none.\<close>

definition owned_outside :: "(int \<Rightarrow> nat) \<Rightarrow> heap \<Rightarrow> int set \<Rightarrow> int \<Rightarrow> bool" where
  "owned_outside E h D a \<longleftrightarrow> 0 < E a \<or> (\<exists>x. x \<notin> D \<and> a \<in> fst ` set (out h x))"

lemma edges_mem: "(c, t) \<in> set (edges acts) \<longleftrightarrow> Drop t c \<in> set acts \<and> c \<noteq> 0 \<and> cycle_child_code t"
  by (auto simp: edges_def split: action.splits)

lemma cycle_not_primitive: "cycle_child_code t \<Longrightarrow> t \<noteq> PrimitiveTag"
  by (auto simp: cycle_child_code_def)

lemma candidate_pos: "candidate h a \<Longrightarrow> 0 < a \<and> cell_at h a \<noteq> Dead"
  using kind_live by (auto simp: candidate_def)

lemma sound_edges: "counts_sound E [] h \<Longrightarrow> edges_ok h"
  unfolding edges_ok_def
proof (intro allI impI)
  fix x c t assume S: "counts_sound E [] h" and e: "(c, t) \<in> set (out h x)" and c: "candidate h c"
  have "Drop t c \<in> set (owned (cell_at h x))" "cycle_child_code t" using e by (simp_all add: out_def edges_mem)
  then show "kind_of (cell_at h c) = Some t \<and> cycle_child_code t"
    using value_of_kind_cell [OF sound_owned [OF S]] candidate_pos [OF c] cycle_not_primitive by blast
qed

lemma count_edges:
  assumes "\<And>t. Drop t a \<in> set acts \<Longrightarrow> cycle_child_code t \<Longrightarrow> t = k" and "cycle_child_code k" and "a \<noteq> 0"
  shows "count_list (map fst (edges acts)) a = count_list acts (Drop k a)"
  using assms(1)
proof (induction acts)
  case (Cons x acts)
  have split: "edges (x # acts) = edges [x] @ edges acts" by (simp add: edges_def)
  have "count_list (map fst (edges [x])) a = (if x = Drop k a then 1 else 0)"
  proof (cases x)
    case (Drop t v)
    then show ?thesis
      using Cons.prems [of t] assms(2,3) by (cases "v = a"; cases "cycle_child_code t") (auto simp: edges_def)
  qed (simp add: edges_def)
  moreover have "count_list (map fst (edges acts)) a = count_list acts (Drop k a)"
    by (rule Cons.IH) (use Cons.prems in simp)
  ultimately show ?case unfolding split by simp
qed (simp add: edges_def)

lemma refs_out:
  assumes S: "counts_sound E [] h" and k: "kind_of (cell_at h a) = Some k" "cycle_child_code k"
  shows "refs h k a = (\<Sum>x \<in> {x. cell_at h x \<noteq> Dead}. out_to h x a)"
proof -
  have a: "a \<noteq> 0" using kind_live [OF k(1)] by simp
  have drop: "t = k" if "Drop t a \<in> set (owned (cell_at h x))" "t \<noteq> PrimitiveTag" for t x
    using value_of_kind_cell [OF sound_owned [OF S that(1)] that(2)] kind_live [OF k(1)] k(1) by simp
  have one: "cell_refs k a (cell_at h x) = out_to h x a" if "cell_at h x \<noteq> Dead" for x
  proof -
    have "count_list (map fst (edges (owned (cell_at h x)))) a = count_list (owned (cell_at h x)) (Drop k a)"
    proof (rule count_edges [OF _ k(2) a])
      fix t assume t: "Drop t a \<in> set (owned (cell_at h x))" "cycle_child_code t"
      then show "t = k" by (intro drop [OF t(1)] cycle_not_primitive)
    qed
    then show ?thesis using sound_count_pos [OF S that] by (simp add: cell_refs_def out_to_def out_def)
  qed
  have "refs h k a = (\<Sum>i<length h. cell_refs k a (h ! i))"
    by (simp add: refs_def sum_list_sum_nth atLeast0LessThan)
  also have "\<dots> = (\<Sum>x \<in> {1..int (length h)}. cell_refs k a (cell_at h x))"
    by (rule sum.reindex_bij_witness [where i = "\<lambda>x. nat x - 1" and j = "\<lambda>i. int i + 1"])
      (auto simp: cell_at_def nat_add_distrib)
  also have "\<dots> = (\<Sum>x \<in> {x. cell_at h x \<noteq> Dead}. cell_refs k a (cell_at h x))"
    by (rule sum.mono_neutral_right) (auto simp: cell_at_def cell_refs_def)
  also have "\<dots> = (\<Sum>x \<in> {x. cell_at h x \<noteq> Dead}. out_to h x a)" by (rule sum.cong) (simp_all add: one)
  finally show ?thesis .
qed

lemma ext_sum:
  assumes S: "counts_sound E [] h" and "D \<subseteq> {a. candidate h a}" and "a \<in> D"
  shows "ext h D a = int (E a) + (\<Sum>x \<in> {x. cell_at h x \<noteq> Dead} - D. int (out_to h x a))"
proof -
  obtain k where k: "kind_of (cell_at h a) = Some k" "cycle_child_code k" using assms(2,3) by (auto simp: candidate_def)
  have sub: "D \<subseteq> {x. cell_at h x \<noteq> Dead}" using assms(2) candidate_pos by blast
  have "int (count_of (cell_at h a)) = int (E a) + (\<Sum>x \<in> {x. cell_at h x \<noteq> Dead}. int (out_to h x a))"
    using counts_soundD(1) [OF S k(1)] refs_out [OF S k] by (simp del: Collect_mem_eq)
  then show ?thesis using sum.subset_diff [OF sub finite_live, of "\<lambda>x. int (out_to h x a)"] by (simp add: ext_def)
qed

lemma ext_pos:
  assumes "counts_sound E [] h" and "D \<subseteq> {a. candidate h a}" and "a \<in> D"
  shows "0 < ext h D a \<longleftrightarrow> owned_outside E h D a"
proof -
  let ?L = "{x. cell_at h x \<noteq> Dead} - D"
  have fin: "finite ?L" using finite_live by simp
  have dead: "out h x = []" if "cell_at h x = Dead" for x using that by (simp add: out_def edges_def)
  define n where "n = (\<Sum>x \<in> ?L. out_to h x a)"
  have "ext h D a = int (E a + n)" unfolding n_def using ext_sum [OF assms] by simp
  moreover have "0 < n \<longleftrightarrow> (\<exists>x \<in> ?L. 0 < out_to h x a)"
    unfolding n_def using sum_eq_0_iff [OF fin, of "\<lambda>x. out_to h x a"] by (metis gr_zeroI less_numeral_extra(3))
  ultimately have "0 < ext h D a \<longleftrightarrow> 0 < E a \<or> (\<exists>x \<in> ?L. 0 < out_to h x a)" by linarith
  moreover have "0 < out_to h x a \<longleftrightarrow> a \<in> fst ` set (out h x)" for x
    using count_list_0_iff [of "map fst (out h x)" a] by (simp add: out_to_def flip: neq0_conv)
  ultimately have "0 < ext h D a \<longleftrightarrow> 0 < E a \<or> (\<exists>x \<in> ?L. a \<in> fst ` set (out h x))" by simp
  then show ?thesis unfolding owned_outside_def using dead by auto
qed

lemma set_whites: "distinct (map fst ns) \<Longrightarrow> set (whites ns) = colored White ns"
proof -
  assume d: "distinct (map fst ns)"
  have "a \<in> set (whites ns) \<longleftrightarrow> (\<exists>n. (a, n) \<in> set ns \<and> color n = White)" for a by (force simp: whites_def)
  then show ?thesis using d by (auto simp: colored_def)
qed

lemma marked_nodes:
  assumes S: "counts_sound E [] h" and roots: "valid_roots h roots"
  shows "marking h (reach h (fst ` set roots)) (marked h roots) [] []"
    and "dom (map_of (marked h roots)) = reach h (fst ` set roots)"
    and "colored Gray (marked h roots) = reach h (fst ` set roots)"
proof -
  let ?ns = "marked h roots" and ?R = "reach h (fst ` set roots)"
  note M = marked_marking [OF sound_edges [OF S] reach_closed roots reach_refl]
  show "marking h ?R ?ns [] []" by (rule M(1))
  have "colored Gray ?ns \<subseteq> dom (map_of ?ns)" by (auto simp: colored_def)
  then have gray: "dom (map_of ?ns) = colored Gray ?ns" using markingD(6) [OF M(1)] by auto
  have "edge_closed h (dom (map_of ?ns))"
    using markingD(5) [OF M(1)] unfolding edge_closed_def gray by auto
  then have "?R \<subseteq> dom (map_of ?ns)" by (rule reach_subset) (rule M(2))
  then show "dom (map_of ?ns) = ?R" using markingD(8) [OF M(1)] by blast
  then show "colored Gray ?ns = ?R" using gray by simp
qed

lemma reach_candidates: "X \<subseteq> {a. candidate h a} \<Longrightarrow> reach h X \<subseteq> {a. candidate h a}"
  by (rule reach_subset) (auto simp: edge_closed_def)

lemma marked_scanning:
  assumes S: "counts_sound E [] h" and roots: "valid_roots h roots"
  defines "D \<equiv> reach h (fst ` set roots)"
  shows "scanning h D (reach h {a \<in> D. 0 < ext h D a}) (marked h roots) []"
proof -
  let ?ns = "marked h roots"
  note m = marked_nodes [OF S roots, folded D_def]
  have "trial n = ext h D a" if n: "map_of ?ns a = Some n" for a n
  proof -
    have "candidate h a" using nodes_okD(2) [OF markingD(1) [OF m(1)] n] .
    from markingD(2) [OF m(1) this] show ?thesis using n m(3) by (simp add: trial_of_def ext_def)
  qed
  moreover have "colored Fresh ?ns = {}"
  proof -
    have "colored Fresh ?ns \<subseteq> colored Gray ?ns" using m(2,3) by (auto simp: colored_def)
    then show ?thesis using colored_same [of _ Fresh ?ns Gray] by blast
  qed
  ultimately show ?thesis
    using markingD(1,3,4) [OF m(1)] m(2) by (simp add: scanning_def blackening_def)
qed

text \<open>
  C8. Trial deletion finds exactly the garbage: the whites of a pass over sound counts are the
  candidates the suspects reach that no owner outside the candidates reaches, neither a variable
  of the program nor an object that is no candidate.
\<close>

theorem trial_deletion_finds_garbage:
  assumes S: "counts_sound E [] h" and roots: "valid_roots h roots"
  defines "D \<equiv> reach h (fst ` set roots)"
  shows "set (whites (trial_graph h roots)) = D - reach h {a \<in> D. owned_outside E h D a}"
proof -
  define K where "K = reach h {a \<in> D. 0 < ext h D a}"
  let ?ns = "trial_graph h roots"
  have "fst ` set roots \<subseteq> {a. candidate h a}" using roots by (force simp: valid_roots_def candidate_def)
  then have DC: "D \<subseteq> {a. candidate h a}" unfolding D_def by (rule reach_candidates)
  have Dc: "edge_closed h D" unfolding D_def by (rule reach_closed)
  have "edge_closed h K" unfolding K_def by (rule reach_closed)
  then have keep: "keeps_in h D K" using DC unfolding keeps_in_def edge_closed_def by blast
  have inK: "a \<in> K" if "a \<in> D" "0 < ext h D a" for a
    using subsetD [OF reach_refl [of "{a \<in> D. 0 < ext h D a}" h], of a] that by (simp add: K_def)
  note F = fold_scan_scanning [OF marked_scanning [OF S roots, folded D_def, folded K_def] keep inK, of roots]
  have ns: "fold (\<lambda>r. scan (fst r)) roots (marked h roots) = ?ns" by (simp add: trial_graph_def marked_def)
  have Sc: "scanning h D K ?ns []" and dec: "fst ` set roots \<inter> D \<subseteq> decided ?ns"
    using conjunct1 [OF F] conjunct2 [OF F] unfolding ns by simp_all
  have B: "blackening h D K ?ns [] []" using Sc unfolding scanning_def by blast
  have child: "c \<in> D" if "x \<in> D" "c \<in> fst ` set (out h x)" "candidate h c" for x c
    using Dc that unfolding edge_closed_def by blast
  have decD: "decided ?ns \<subseteq> D" using blackeningD(2) [OF B] by (auto simp: decided_def colored_def)
  have "edge_closed h (decided ?ns)"
    unfolding edge_closed_def
  proof (intro ballI impI)
    fix x c assume x: "x \<in> decided ?ns" and c: "c \<in> fst ` set (out h x)" "candidate h c"
    have "c \<in> D" using child decD x c by blast
    then show "c \<in> decided ?ns"
      using x c(1) Sc blackeningD(4) [OF B _ c(1)] unfolding scanning_def decided_def by auto
  qed
  moreover have "fst ` set roots \<subseteq> decided ?ns" using dec reach_refl unfolding D_def by blast
  ultimately have "D \<subseteq> decided ?ns" unfolding D_def by (rule reach_subset)
  then have WB: "decided ?ns = D" using decD by blast
  have blackc: "edge_closed h (colored Black ?ns)"
    unfolding edge_closed_def
  proof (intro ballI impI)
    fix x c assume x: "x \<in> colored Black ?ns" and c: "c \<in> fst ` set (out h x)" "candidate h c"
    have "x \<in> D" using x WB by (auto simp: decided_def)
    then show "c \<in> colored Black ?ns" using blackeningD(4) [OF B x c(1) child] c by simp
  qed
  have "{a \<in> D. 0 < ext h D a} \<subseteq> colored Black ?ns"
    using WB Sc unfolding scanning_def decided_def by fastforce
  then have "K \<subseteq> colored Black ?ns" unfolding K_def by (rule reach_subset [OF blackc])
  then have "K = colored Black ?ns" using blackeningD(5) [OF B] by blast
  moreover have "colored White ?ns \<inter> colored Black ?ns = {}" using colored_same [of _ White ?ns Black] by blast
  moreover have "set (whites ?ns) = colored White ?ns"
    by (rule set_whites) (rule nodes_okD(1) [OF blackeningD(1) [OF B]])
  moreover have "{a \<in> D. 0 < ext h D a} = {a \<in> D. owned_outside E h D a}" using ext_pos [OF S DC] by blast
  ultimately show ?thesis using WB unfolding decided_def K_def by auto
qed

end
