(* ===== verification/Collection.thy ===== *)
theory Collection
  imports TrialDeletion
begin

text \<open>
  The end of a collection: the whites are guarded, destroyed and freed. The counts stay exact,
  the garbage is gone, and what the program can reach is as it was.
\<close>

subsection \<open>Garbage\<close>

text \<open>A set of candidates that nothing outside it owns.\<close>

definition unowned :: "(int \<Rightarrow> nat) \<Rightarrow> heap \<Rightarrow> int set \<Rightarrow> bool" where
  "unowned E h W \<longleftrightarrow>
     (\<forall>w \<in> W. candidate h w \<and> E w = 0 \<and> (\<forall>x. w \<in> fst ` set (out h x) \<longrightarrow> x \<in> W))"

lemma whites_unowned:
  assumes S: "counts_sound E [] h" and roots: "valid_roots h roots"
  shows "unowned E h (set (whites (trial_graph h roots)))"
proof -
  define D where "D = reach h (fst ` set roots)"
  define X where "X = {a \<in> D. owned_outside E h D a}"
  have W: "set (whites (trial_graph h roots)) = D - reach h X"
    unfolding D_def X_def by (rule trial_deletion_finds_garbage [OF S roots])
  have "fst ` set roots \<subseteq> {a. candidate h a}" using roots by (force simp: valid_roots_def candidate_def)
  then have DC: "D \<subseteq> {a. candidate h a}" unfolding D_def by (rule reach_candidates)
  show ?thesis
    unfolding unowned_def W
  proof (intro ballI conjI allI impI)
    fix w assume w: "w \<in> D - reach h X"
    then show cw: "candidate h w" using DC by blast
    have "w \<notin> X" using w reach_refl [of X h] by blast
    then have free: "\<not> owned_outside E h D w" using w by (simp add: X_def)
    then show "E w = 0" by (simp add: owned_outside_def)
    fix x assume x: "w \<in> fst ` set (out h x)"
    then have "x \<in> D" using free by (auto simp: owned_outside_def)
    moreover have "x \<notin> reach h X"
      using reach_closed [of h X] x cw w unfolding edge_closed_def by blast
    ultimately show "x \<in> D - reach h X" by simp
  qed
qed

lemma blackening_mono: "blackening h D K ns st ds \<Longrightarrow> K \<subseteq> L \<Longrightarrow> blackening h D L ns st ds"
  unfolding blackening_def by (elim conjE) (intro conjI, assumption+, erule (1) order_trans)

lemma distinct_whites: "counts_sound E [] h \<Longrightarrow> valid_roots h roots \<Longrightarrow> distinct (whites (trial_graph h roots))"
proof -
  assume S: "counts_sound E [] h" and roots: "valid_roots h roots"
  define D where "D = reach h (fst ` set roots)"
  have DC: "D \<subseteq> {a. candidate h a}" unfolding D_def
    by (rule reach_candidates) (use roots in \<open>force simp: valid_roots_def candidate_def\<close>)
  note M = marked_scanning [OF S roots, folded D_def]
  have "blackening h D UNIV (marked h roots) [] []"
    using M unfolding scanning_def by (intro blackening_mono [OF _ subset_UNIV]) blast
  then have all: "scanning h D UNIV (marked h roots) []" using M by (simp add: scanning_def)
  have "keeps_in h D UNIV" by (simp add: keeps_in_def)
  from fold_scan_scanning [OF all this, of roots]
  have "scanning h D UNIV (trial_graph h roots) []" by (simp add: trial_graph_def marked_def)
  then have "blackening h D UNIV (trial_graph h roots) [] []" by (simp add: scanning_def)
  then have "distinct (map fst (trial_graph h roots))" by (rule nodes_okD(1) [OF blackeningD(1)])
  then show ?thesis by (simp add: whites_def distinct_map_filter)
qed

subsection \<open>The guard\<close>

lemma bump_sound:
  assumes "counts_sound E [] h" and "cell_at h a \<noteq> Dead"
  shows "counts_sound (E(a := E a + g)) [] (set_cell h a (with_count (count_of (cell_at h a) + g) (cell_at h a)))"
proof (induction g)
  case 0
  then show ?case using assms set_cell_id [OF refl assms(2)] by simp
next
  case (Suc g)
  let ?E = "E(a := E a + g)" and ?c = "with_count (count_of (cell_at h a) + g) (cell_at h a)"
  let ?h = "set_cell h a ?c"
  obtain k where k: "kind_of (cell_at h a) = Some k" using assms(2) kind_None [of "cell_at h a"] by (cases "kind_of (cell_at h a)") auto
  have kp: "k \<noteq> PrimitiveTag" "0 < a" using counts_soundD(6) [OF assms(1) k] kind_live [OF k] by auto
  have at: "cell_at ?h a = ?c" using cell_at_set [OF assms(2)] by simp
  have "counts_sound (owe ?E k a) [] (retain_element k a ?h)"
    by (rule retain_sound [OF Suc]) (use k at in \<open>simp add: value_of_kind_def\<close>)
  moreover have "retain_element k a ?h = set_cell h a (with_count (count_of (cell_at h a) + Suc g) (cell_at h a))"
    using k kp assms(2) at by (simp add: retain_element_def Let_def set_cell_twice)
  moreover have "owe ?E k a = E(a := E a + Suc g)" using kp by (simp add: owe_def)
  ultimately show ?case by (simp only:)
qed

text \<open>The owners during the collection: the program, and the guard on the whites.\<close>

definition guarded :: "(int \<Rightarrow> nat) \<Rightarrow> int set \<Rightarrow> int \<Rightarrow> nat" where
  "guarded E W a = E a + (if a \<in> W then WHITE_GUARD else 0)"

lemma guard_white_at:
  "\<exists>n. cell_at (guard_white a h) b = with_count n (cell_at h b)"
proof (cases "cell_at h a = Dead")
  case True
  then show ?thesis by (intro exI [of _ "count_of (cell_at h b)"]) (simp add: guard_white_def)
next
  case False
  then show ?thesis
    using cell_at_set [OF False, of _ b]
    by (cases "b = a") (auto simp: guard_white_def Let_def intro: exI [of _ "count_of (cell_at h b)"])
qed

lemma fold_guard_typed: "typed_heap h \<Longrightarrow> typed_heap (fold guard_white ws h)"
proof (induction ws arbitrary: h)
  case (Cons w ws)
  have "typed_heap (guard_white w h)"
    using typed_set_cell [OF Cons.prems] typed_at [OF Cons.prems] Cons.prems by (simp add: guard_white_def Let_def)
  then show ?case using Cons.IH by simp
qed simp

lemma fold_typed_free: "typed_heap h \<Longrightarrow> typed_heap (fold free_white_shell ws h)"
proof (induction ws arbitrary: h)
  case (Cons w ws)
  have "typed_heap (free_white_shell w h)" using typed_set_cell [OF Cons.prems] by (simp add: free_white_shell_def)
  then show ?case using Cons.IH by simp
qed simp

lemma fold_guard:
  "counts_sound E [] h \<Longrightarrow> distinct ws \<Longrightarrow> (\<And>w. w \<in> set ws \<Longrightarrow> cell_at h w \<noteq> Dead) \<Longrightarrow>
     counts_sound (guarded E (set ws)) [] (fold guard_white ws h) \<and>
     (\<forall>b. \<exists>n. cell_at (fold guard_white ws h) b = with_count n (cell_at h b))"
proof (induction ws arbitrary: E h)
  case Nil
  have "\<exists>n. cell_at h b = with_count n (cell_at h b)" for b by (intro exI [of _ "count_of (cell_at h b)"]) simp
  then show ?case using Nil by (simp add: guarded_def [abs_def])
next
  case (Cons w ws)
  let ?h = "guard_white w h"
  have w: "cell_at h w \<noteq> Dead" using Cons.prems(3) by simp
  have S: "counts_sound (E(w := E w + WHITE_GUARD)) [] ?h"
    using bump_sound [OF Cons.prems(1) w] w by (simp add: guard_white_def Let_def)
  have "cell_at ?h v \<noteq> Dead" if "v \<in> set ws" for v
    using guard_white_at [of w h v] Cons.prems(3) [of v] that by auto
  note IH = Cons.IH [OF S _ this]
  have "guarded (E(w := E w + WHITE_GUARD)) (set ws) = guarded E (set (w # ws))"
    using Cons.prems(2) by (auto simp: guarded_def)
  moreover have "\<exists>n. cell_at (fold guard_white ws ?h) b = with_count n (cell_at h b)" for b
    using IH Cons.prems(2) guard_white_at [of w h b] by (metis distinct.simps(2) with_count_twice)
  moreover have "distinct ws" using Cons.prems(2) by simp
  ultimately show ?case using IH by (simp only: fold_Cons comp_apply) blast
qed

subsection \<open>The destruction bodies\<close>

lemma emptied_laws:
  "kind_of (emptied c) = kind_of c" "emptied (with_count n c) = with_count n (emptied c)"
  "count_of (emptied c) = count_of c" "content_ok c \<Longrightarrow> content_ok (emptied c)"
  by (cases c; auto simp: clear_values_def map_clear_def Sets.set_clear_def set_ok_def map_ok_def split: option.split)+

lemma emptied_owned: "content_ok c \<Longrightarrow> owned (emptied c) = []"
  by (cases c) (auto simp: clear_values_def map_clear_def release_all_elements_def release_all_values_def map_ok_def
    split: option.split)

lemma destroy_sound:
  assumes S: "counts_sound E [] h" and T: "typed_heap h" and own: "0 < E a" and live: "cell_at h a \<noteq> Dead"
  shows "counts_sound E [] (destroy_white a h)" and "typed_heap (destroy_white a h)"
    and "owned (cell_at (destroy_white a h) a) = []"
    and "cell_at (destroy_white a h) b = Dead \<or> same_content (cell_at h b) (cell_at (destroy_white a h) b) \<or>
      b = a \<and> kind_of (cell_at (destroy_white a h) b) = kind_of (cell_at h b)"
proof -
  let ?g = "run_release (owned (cell_at h a)) h"
  obtain k where k: "kind_of (cell_at h a) = Some k" using live kind_None [of "cell_at h a"] by (cases "kind_of (cell_at h a)") auto
  have ok: "content_ok (cell_at h a)" by (rule typed_at [OF T])
  note c = clear_sound [OF S k own emptied_laws(1,2) emptied_owned [OF ok] emptied_laws(3)]
  show S': "counts_sound E [] (destroy_white a h)" unfolding destroy_white_def by (rule c(1))
  have tg: "typed_heap ?g" by (rule typed_run_release [OF T])
  show "typed_heap (destroy_white a h)"
    using typed_set_cell [OF tg emptied_laws(4) [OF typed_at [OF tg]]] tg
    by (simp add: destroy_white_def alter_cell_def)
  have at: "cell_at (destroy_white a h) b = (if b = a \<and> cell_at ?g a \<noteq> Dead then emptied (cell_at ?g a) else cell_at ?g b)" for b
    unfolding destroy_white_def by (rule alter_cell_at)
  show "owned (cell_at (destroy_white a h) a) = []"
    unfolding at using emptied_owned [OF typed_at [OF tg, of a]] by auto
  have content: "cell_at ?g b = Dead \<or> same_content (cell_at h b) (cell_at ?g b)" by (rule run_release_content)
  then show "cell_at (destroy_white a h) b = Dead \<or> same_content (cell_at h b) (cell_at (destroy_white a h) b) \<or>
      b = a \<and> kind_of (cell_at (destroy_white a h) b) = kind_of (cell_at h b)"
    unfolding at using emptied_laws(1) by (auto simp: same_content_iff)
qed

text \<open>What the bodies leave of the heap \<open>h\<close>: an object owns what it owned or nothing, a white keeps
  its kind, and any other object is as it was or freed.\<close>

definition shrunk :: "heap \<Rightarrow> int set \<Rightarrow> heap \<Rightarrow> bool" where
  "shrunk h W g \<longleftrightarrow>
     (\<forall>b. owned (cell_at g b) = owned (cell_at h b) \<or> owned (cell_at g b) = []) \<and>
     (\<forall>b \<in> W. kind_of (cell_at g b) = kind_of (cell_at h b)) \<and>
     (\<forall>b. b \<notin> W \<longrightarrow> cell_at g b = Dead \<or> same_content (cell_at h b) (cell_at g b))"

lemma shrunkD:
  assumes "shrunk h W g"
  shows "owned (cell_at g b) = owned (cell_at h b) \<or> owned (cell_at g b) = []"
    and "b \<in> W \<Longrightarrow> kind_of (cell_at g b) = kind_of (cell_at h b)"
    and "b \<notin> W \<Longrightarrow> cell_at g b = Dead \<or> same_content (cell_at h b) (cell_at g b)"
  using assms unfolding shrunk_def by blast+

lemma same_content_kind: "same_content c d \<Longrightarrow> kind_of d = kind_of c \<and> owned d = owned c"
  by (auto simp: same_content_iff)

lemma destroy_owned:
  assumes "counts_sound E [] g" "typed_heap g" "0 < E a" "cell_at g a \<noteq> Dead"
  shows "owned (cell_at (destroy_white a g) b) = owned (cell_at g b) \<or> owned (cell_at (destroy_white a g) b) = []"
proof -
  consider "b = a" | "cell_at (destroy_white a g) b = Dead" | "same_content (cell_at g b) (cell_at (destroy_white a g) b)"
    using destroy_sound(4) [OF assms, of b] by blast
  then show ?thesis
    by cases (use destroy_sound(3) [OF assms] same_content_kind in simp_all)
qed

lemma shrunk_destroy:
  assumes "shrunk h W g" and S: "counts_sound E [] g" and T: "typed_heap g" and W: "\<And>w. w \<in> W \<Longrightarrow> 0 < E w"
    and a: "a \<in> W" and live: "\<And>w. w \<in> W \<Longrightarrow> cell_at h w \<noteq> Dead"
  shows "shrunk h W (destroy_white a g)"
  unfolding shrunk_def
proof (intro conjI allI ballI impI)
  have la: "cell_at g a \<noteq> Dead" using shrunkD(2) [OF assms(1) a] live [OF a] by (metis kind_None)
  note d = destroy_sound [OF S T W [OF a] la]
  fix b
  show "owned (cell_at (destroy_white a g) b) = owned (cell_at h b) \<or> owned (cell_at (destroy_white a g) b) = []"
    using destroy_owned [OF S T W [OF a] la, of b] shrunkD(1) [OF assms(1), of b] by auto
  show "cell_at (destroy_white a g) b = Dead \<or> same_content (cell_at h b) (cell_at (destroy_white a g) b)" if "b \<notin> W"
    using d(4) [of b] shrunkD(3) [OF assms(1) that] a that by (auto simp: same_content_def)
  show "kind_of (cell_at (destroy_white a g) b) = kind_of (cell_at h b)" if "b \<in> W"
  proof -
    have "cell_at (destroy_white a g) b \<noteq> Dead" using counts_soundD(3) [OF d(1) W [OF that]] .
    then show ?thesis using d(4) [of b] shrunkD(2) [OF assms(1) that] same_content_kind by metis
  qed
qed

lemma fold_destroy:
  "shrunk h W g \<Longrightarrow> counts_sound E [] g \<Longrightarrow> typed_heap g \<Longrightarrow> (\<And>w. w \<in> W \<Longrightarrow> 0 < E w) \<Longrightarrow>
     (\<And>w. w \<in> W \<Longrightarrow> cell_at h w \<noteq> Dead) \<Longrightarrow> set ws \<subseteq> W \<Longrightarrow>
     shrunk h W (fold destroy_white ws g) \<and> counts_sound E [] (fold destroy_white ws g) \<and>
     typed_heap (fold destroy_white ws g) \<and> (\<forall>w \<in> set ws. owned (cell_at (fold destroy_white ws g) w) = []) \<and>
     (\<forall>b. owned (cell_at g b) = [] \<longrightarrow> owned (cell_at (fold destroy_white ws g) b) = [])"
proof (induction ws arbitrary: g)
  case (Cons w ws)
  have w: "w \<in> W" using Cons.prems(6) by simp
  have la: "cell_at g w \<noteq> Dead" using shrunkD(2) [OF Cons.prems(1) w] Cons.prems(5) [OF w] by (metis kind_None)
  note d = destroy_sound [OF Cons.prems(2,3) Cons.prems(4) [OF w] la]
  note s = shrunk_destroy [OF Cons.prems(1-4) w Cons.prems(5)]
  note IH = Cons.IH [OF s d(1,2) Cons.prems(4,5)]
  have "owned (cell_at (destroy_white w g) b) = []" if "owned (cell_at g b) = []" for b
    using destroy_owned [OF Cons.prems(2,3) Cons.prems(4) [OF w] la, of b] that by simp
  then show ?case using IH d(3) Cons.prems(6) by simp
qed simp

subsection \<open>The shells\<close>

lemma free_shell_sound:
  assumes S: "counts_sound E [] h" and live: "kind_of (cell_at h a) = Some k"
    and "owned (cell_at h a) = []" and refs: "refs h k a = 0"
  shows "counts_sound (E(a := 0)) [] (free_white_shell a h)"
proof -
  have "cell_at h a \<noteq> Dead" using kind_live [OF live] by simp
  then have rf: "refs (free_white_shell a h) t v = refs h t v" for t v
    using refs_set [of h a Dead t v] assms(3) by (simp add: free_white_shell_def cell_refs_def split: if_splits)
  have at: "cell_at (free_white_shell a h) b = (if b = a then Dead else cell_at h b)" for b
    unfolding free_white_shell_def by (rule cell_at_set_Dead)
  show ?thesis
  proof (rule counts_soundI)
    show "count_of (cell_at (free_white_shell a h) b) = (E(a := 0)) b + count_list [] (Drop j b) + refs (free_white_shell a h) j b"
      if "kind_of (cell_at (free_white_shell a h) b) = Some j" for b j
      using counts_soundD(1) [OF S, of b j] that by (auto simp: at rf split: if_splits)
    show "kind_of (cell_at (free_white_shell a h) v) = Some t"
      if "t \<noteq> PrimitiveTag" "0 < v" "0 < count_list [] (Drop t v) + refs (free_white_shell a h) t v" for t v
    proof -
      have k: "kind_of (cell_at h v) = Some t" using counts_soundD(2) [OF S that(1,2)] that(3) by (simp add: rf)
      then have "v \<noteq> a" using live refs that(3) by (auto simp: rf)
      then show ?thesis using k by (simp add: at)
    qed
    show "cell_at (free_white_shell a h) b \<noteq> Dead" if "0 < (E(a := 0)) b" for b
      using counts_soundD(3) [OF S, of b] that by (auto simp: at split: if_splits)
    show "Finish b \<in> set []" if "cell_at (free_white_shell a h) b \<noteq> Dead" "count_of (cell_at (free_white_shell a h) b) = 0" for b
      using counts_soundD(4) [OF S, of b] that by (auto simp: at split: if_splits)
    show "j \<noteq> PrimitiveTag" if "kind_of (cell_at (free_white_shell a h) b) = Some j" for b j
      using counts_soundD(6) [OF S, of b j] that by (auto simp: at split: if_splits)
  qed simp
qed

lemma fold_free_at: "cell_at (fold free_white_shell ws h) b = (if b \<in> set ws then Dead else cell_at h b)"
  by (induction ws arbitrary: h) (auto simp: free_white_shell_def cell_at_set_Dead)

lemma fold_free_sound:
  "counts_sound E [] h \<Longrightarrow> distinct ws \<Longrightarrow>
     (\<And>w. w \<in> set ws \<Longrightarrow> \<exists>k. kind_of (cell_at h w) = Some k \<and> owned (cell_at h w) = [] \<and> refs h k w = 0) \<Longrightarrow>
     counts_sound (\<lambda>a. if a \<in> set ws then 0 else E a) [] (fold free_white_shell ws h)"
proof (induction ws arbitrary: E h)
  case (Cons w ws)
  obtain k where k: "kind_of (cell_at h w) = Some k" "owned (cell_at h w) = []" "refs h k w = 0"
    using Cons.prems(3) by auto
  note S = free_shell_sound [OF Cons.prems(1) k]
  have "cell_at h w \<noteq> Dead" using kind_live [OF k(1)] by simp
  then have rf: "refs (free_white_shell w h) t v = refs h t v" for t v
    using refs_set [of h w Dead t v] k(2) by (simp add: free_white_shell_def cell_refs_def split: if_splits)
  have "\<exists>j. kind_of (cell_at (free_white_shell w h) v) = Some j \<and> owned (cell_at (free_white_shell w h) v) = [] \<and>
      refs (free_white_shell w h) j v = 0" if "v \<in> set ws" for v
  proof -
    have "cell_at (free_white_shell w h) v = cell_at h v"
      using Cons.prems(2) that by (auto simp: free_white_shell_def cell_at_set_Dead)
    then show ?thesis using Cons.prems(3) [of v] that by (simp add: rf)
  qed
  from Cons.IH [OF S _ this]
  have "counts_sound (\<lambda>a. if a \<in> set ws then 0 else (E(w := 0)) a) [] (fold free_white_shell (w # ws) h)"
    using Cons.prems(2) by simp
  moreover have "(\<lambda>a. if a \<in> set ws then 0 else (E(w := 0)) a) = (\<lambda>a. if a \<in> set (w # ws) then 0 else E a)" by auto
  ultimately show ?case by (simp only:)
qed simp

subsection \<open>The pass\<close>

lemma whites_unreferenced:
  assumes U: "unowned E h W" and S: "shrunk h W g" and "\<And>w. w \<in> W \<Longrightarrow> owned (cell_at g w) = []"
    and w: "w \<in> W" and k: "kind_of (cell_at g w) = Some k"
  shows "refs g k w = 0"
proof -
  have cand: "candidate h w" using U w by (simp add: unowned_def)
  then have kc: "cycle_child_code k" using shrunkD(2) [OF S w] k by (auto simp: candidate_def)
  have "Drop k w \<notin> set (owned c)" if cg: "c \<in> set g" for c
  proof
    assume c: "Drop k w \<in> set (owned c)"
    obtain i where "i < length g" "g ! i = c" using cg by (auto simp: in_set_conv_nth)
    then have x: "cell_at g (int i + 1) = c" by (simp add: cell_at_def nat_add_distrib)
    then have "Drop k w \<in> set (owned (cell_at h (int i + 1)))" using shrunkD(1) [OF S, of "int i + 1"] c by auto
    then have "(w, k) \<in> set (out h (int i + 1))" using kc candidate_pos [OF cand] by (simp add: out_def edges_mem)
    then have "int i + 1 \<in> W" using U w by (force simp: unowned_def)
    then show False using assms(3) x c by fastforce
  qed
  then have "\<forall>c \<in> set g. cell_refs k w c = 0" by (simp add: cell_refs_def count_list_0_iff)
  then show ?thesis by (simp add: refs_def)
qed

lemma free_whites_ok:
  assumes S: "counts_sound E [] h" and T: "typed_heap h" and U: "unowned E h (set ws)" and "distinct ws"
  shows "counts_sound E [] (free_whites ws h)" and "typed_heap (free_whites ws h)"
    and "w \<in> set ws \<Longrightarrow> cell_at (free_whites ws h) w = Dead"
    and "b \<notin> set ws \<Longrightarrow> cell_at (free_whites ws h) b = Dead \<or> same_content (cell_at h b) (cell_at (free_whites ws h) b)"
proof -
  let ?W = "set ws" and ?g = "fold guard_white ws h"
  let ?d = "fold destroy_white ws ?g"
  have live: "cell_at h v \<noteq> Dead" if "v \<in> ?W" for v using U that candidate_pos by (auto simp: unowned_def)
  note g = fold_guard [OF S assms(4) live]
  have same: "same_content (cell_at h b) (cell_at ?g b)" for b using g by (auto simp: same_content_iff)
  have tg: "typed_heap ?g"
    using T by (rule fold_guard_typed) 
  have "shrunk h ?W ?g" using same same_content_kind unfolding shrunk_def by metis
  moreover have "0 < guarded E ?W v" if "v \<in> ?W" for v using that by (simp add: guarded_def WHITE_GUARD_def)
  ultimately have d: "shrunk h ?W ?d" "counts_sound (guarded E ?W) [] ?d" "typed_heap ?d"
    "\<And>v. v \<in> ?W \<Longrightarrow> owned (cell_at ?d v) = []"
    using fold_destroy [of h ?W ?g "guarded E ?W" ws] g tg live by simp_all
  have "\<exists>k. kind_of (cell_at ?d v) = Some k \<and> owned (cell_at ?d v) = [] \<and> refs ?d k v = 0" if v: "v \<in> ?W" for v
  proof -
    obtain k where k: "kind_of (cell_at ?d v) = Some k"
      using shrunkD(2) [OF d(1) v] live [OF v] kind_None by (metis not_None_eq)
    then show ?thesis using d(4) [OF v] whites_unreferenced [OF U d(1,4) v k] by blast
  qed
  from fold_free_sound [OF d(2) assms(4) this]
  have "counts_sound (\<lambda>a. if a \<in> ?W then 0 else guarded E ?W a) [] (free_whites ws h)" by (simp add: free_whites_def)
  moreover have "(\<lambda>a. if a \<in> ?W then 0 else guarded E ?W a) = E"
    using U by (auto simp: guarded_def unowned_def)
  ultimately show "counts_sound E [] (free_whites ws h)" by (simp only:)
  have at: "cell_at (free_whites ws h) b = (if b \<in> ?W then Dead else cell_at ?d b)" for b
    unfolding free_whites_def by (rule fold_free_at)
  then show "w \<in> ?W \<Longrightarrow> cell_at (free_whites ws h) w = Dead" by simp
  show "b \<notin> ?W \<Longrightarrow> cell_at (free_whites ws h) b = Dead \<or> same_content (cell_at h b) (cell_at (free_whites ws h) b)"
    using shrunkD(3) [OF d(1), of b] by (simp add: at)
  show "typed_heap (free_whites ws h)"
    using d(3) unfolding free_whites_def by (rule fold_typed_free)
qed

text \<open>The roots the pass starts from and the order its table hands out the whites in.\<close>

definition white_order :: "nat list \<Rightarrow> (int \<times> list_type_tag) list \<Rightarrow> heap \<Rightarrow> bool" where
  "white_order p suspects h \<longleftrightarrow> mset p = mset [0..<length (whites (trial_graph h (live_roots h suspects)))]"

lemma live_roots_valid: "valid_roots h (live_roots h suspects)"
  by (auto simp: valid_roots_def live_roots_def real_strong_count_def split: if_splits)

lemma collect_ok:
  assumes S: "counts_sound E [] h" and T: "typed_heap h" and p: "white_order p suspects h"
  defines "W \<equiv> set (whites (trial_graph h (live_roots h suspects)))"
  shows "counts_sound E [] (collect p suspects h)" and "typed_heap (collect p suspects h)"
    and "w \<in> W \<Longrightarrow> cell_at (collect p suspects h) w = Dead"
    and "b \<notin> W \<Longrightarrow> cell_at (collect p suspects h) b = Dead \<or> same_content (cell_at h b) (cell_at (collect p suspects h) b)"
proof -
  let ?ws = "whites (trial_graph h (live_roots h suspects))"
  have m: "mset (reorder p ?ws) = mset ?ws" using p by (intro mset_reorder) (simp add: white_order_def)
  then have s: "set (reorder p ?ws) = W" unfolding W_def by (rule mset_eq_setD)
  have u: "unowned E h (set (reorder p ?ws))" unfolding s W_def by (rule whites_unowned [OF S live_roots_valid])
  have "distinct (reorder p ?ws)"
    using distinct_whites [OF S live_roots_valid] mset_eq_imp_distinct_iff [OF m] by simp
  note f = free_whites_ok [OF S T u this, folded collect_def, unfolded s]
  show "counts_sound E [] (collect p suspects h)" "typed_heap (collect p suspects h)"
    "w \<in> W \<Longrightarrow> cell_at (collect p suspects h) w = Dead"
    "b \<notin> W \<Longrightarrow> cell_at (collect p suspects h) b = Dead \<or> same_content (cell_at h b) (cell_at (collect p suspects h) b)"
    using f(1,2) f(3) [of w] f(4) [of b] by blast+
qed

text \<open>What an object of the program reaches, through owned values of every kind.\<close>

definition owns_rel :: "heap \<Rightarrow> (int \<times> int) set" where
  "owns_rel h = {(x, v). 0 < v \<and> (\<exists>t. t \<noteq> PrimitiveTag \<and> Drop t v \<in> set (owned (cell_at h x)))}"

text \<open>
  C9. A collection changes nothing the program can see: every object that a variable reaches is
  still there with the content it had, the counts are exact again, and the candidates that no
  owner outside them reaches are gone.
\<close>

theorem collection_frees_exactly_garbage:
  assumes S: "counts_sound E [] h" and T: "typed_heap h" and p: "white_order p suspects h"
  defines "D \<equiv> reach h (fst ` set (live_roots h suspects))"
  shows "counts_sound E [] (collect p suspects h) \<and>
    (\<forall>x a. 0 < E x \<longrightarrow> (x, a) \<in> (owns_rel h)\<^sup>* \<longrightarrow> cell_at (collect p suspects h) a \<noteq> Dead \<and>
       same_content (cell_at h a) (cell_at (collect p suspects h) a)) \<and>
    (\<forall>a \<in> D - reach h {a \<in> D. owned_outside E h D a}. cell_at (collect p suspects h) a = Dead)"
proof -
  let ?h = "collect p suspects h"
  note c = collect_ok [OF S T p]
  have stays: "same_content (cell_at h a) (cell_at ?h a)" if "cell_at ?h a \<noteq> Dead" for a
    using c(3) [of a] c(4) [of a] that by blast
  have "cell_at ?h a \<noteq> Dead" if x: "0 < E x" and "(x, a) \<in> (owns_rel h)\<^sup>*" for x a
    using that(2)
  proof induction
    case base
    show ?case by (rule counts_soundD(3) [OF c(1) x])
  next
    case (step y z)
    obtain t where t: "t \<noteq> PrimitiveTag" "0 < z" "Drop t z \<in> set (owned (cell_at h y))"
      using step.hyps(2) by (auto simp: owns_rel_def)
    have "owned (cell_at ?h y) = owned (cell_at h y)" using stays [OF step.IH] same_content_kind by blast
    then have "value_of_kind ?h t z" using sound_owned [OF c(1), of t z y] t(3) by simp
    then have "kind_of (cell_at ?h z) = Some t" using value_of_kind_cell t(1,2) by blast
    then show ?case by auto
  qed
  moreover have "set (whites (trial_graph h (live_roots h suspects))) = D - reach h {a \<in> D. owned_outside E h D a}"
    unfolding D_def by (rule trial_deletion_finds_garbage [OF S live_roots_valid])
  ultimately show ?thesis using c(1,3) stays by blast
qed

text \<open>A list that holds only itself, and a list that a variable holds and that holds it.\<close>

definition ring :: heap where
  "ring = [ListCell \<lparr>rc = 2, type_tag = ListTag, values8 = [1]\<rparr>, ListCell \<lparr>rc = 1, type_tag = ListTag, values8 = [2]\<rparr>]"

lemma ring_at: "cell_at ring a = (if a = 1 then ListCell \<lparr>rc = 2, type_tag = ListTag, values8 = [1]\<rparr>
    else if a = 2 then ListCell \<lparr>rc = 1, type_tag = ListTag, values8 = [2]\<rparr> else Dead)"
proof -
  consider "a \<le> 0" | "a = 1" | "a = 2" | "a > 2" by linarith
  then show ?thesis by cases (auto simp: ring_def cell_at_def)
qed

lemma ring_refs: "refs ring t v = (if t = ListTag \<and> (v = 1 \<or> v = 2) then 1 else 0)"
  by (simp add: ring_def refs_def cell_refs_def release_all_elements_def)

lemma ring_sound: "counts_sound ((\<lambda>_. 0)(1 := 1)) [] ring"
  by (rule counts_soundI) (auto simp: ring_at ring_refs split: if_splits)

lemma ring_roots: "live_roots ring [(2, ListTag)] = [(2, ListTag)]"
  by (simp add: live_roots_def real_strong_count_def cycle_child_code_def ring_at)

lemma ring_out: "out ring x = (if x = 1 \<or> x = 2 then [(x, ListTag)] else [])"
  by (simp add: out_def ring_at release_all_elements_def edges_def cycle_child_code_def)

lemma ring_reach: "reach ring {2} = {2}"
proof
  show "reach ring {2} \<subseteq> {2}" by (rule reach_subset) (simp_all add: edge_closed_def ring_out)
qed (rule reach_refl)

lemma ring_free: "{a \<in> {2}. owned_outside ((\<lambda>_. 0)(1 := 1)) ring {2} a} = {}"
  by (auto simp: owned_outside_def ring_out split: if_splits)

lemma ring_garbage:
  "reach ring (fst ` set [(2, ListTag)]) - reach ring {a \<in> reach ring (fst ` set [(2, ListTag)]).
     owned_outside ((\<lambda>_. 0)(1 := 1)) ring (reach ring (fst ` set [(2, ListTag)])) a} = {2}"
proof -
  have "fst ` set [(2 :: int, ListTag)] = {2}" by simp
  then show ?thesis unfolding ring_reach ring_free by (simp only: ring_reach ring_free) (simp add: reach_def)
qed

theorem trial_deletion_finds_garbage_witness: "set (whites (trial_graph ring [(2, ListTag)])) = {2}"
  using trial_deletion_finds_garbage [OF ring_sound, of "[(2, ListTag)]"] unfolding ring_garbage
  by (simp add: valid_roots_def ring_at cycle_child_code_def)

lemma ring_typed: "typed_heap ring"
  by (simp add: typed_heap_def ring_def)

theorem collection_frees_exactly_garbage_witness:
  "cell_at (collect [0] [(2, ListTag)] ring) 2 = Dead \<and> cell_at (collect [0] [(2, ListTag)] ring) 1 \<noteq> Dead"
proof -
  have "whites (trial_graph ring [(2, ListTag)]) = [2]" by code_simp
  then have p: "white_order [0] [(2, ListTag)] ring" by (simp add: white_order_def ring_roots)
  note c = collection_frees_exactly_garbage [OF ring_sound ring_typed p]
  have "cell_at (collect [0] [(2, ListTag)] ring) 2 = Dead"
    using c unfolding ring_roots ring_garbage by blast
  moreover have "cell_at (collect [0] [(2, ListTag)] ring) 1 \<noteq> Dead"
    using conjunct1 [OF conjunct2 [OF c], rule_format, of 1 1] by simp
  ultimately show ?thesis by simp
qed

end
