(* ===== verification/Containers.thy ===== *)
theory Containers
  imports Collection Steps
begin

text \<open>
  Programs over lists, maps and sets: the calls on the shared heap as a step relation, with the
  typing of the heap and the accounts of its counts as its invariant.
\<close>

subsection \<open>Lists of keys\<close>

text \<open>The list under construction: the program holds it, and it owns the kind.\<close>

definition building :: "(int \<Rightarrow> nat) \<Rightarrow> int \<Rightarrow> list_type_tag \<Rightarrow> heap \<Rightarrow> bool" where
  "building E a t h \<longleftrightarrow> counts_sound E [] h \<and> typed_heap h \<and> 0 < E a \<and> (\<exists>l. cell_at h a = ListCell l \<and> type_tag l = t)"

lemma buildingI:
  assumes "counts_sound E [] h" "typed_heap h" "0 < E a" "cell_at h a = ListCell l" "type_tag l = t"
  shows "building E a t h"
  using assms by (auto simp: building_def)

lemma buildingE:
  assumes "building E a t h"
  obtains l where "counts_sound E [] h" "typed_heap h" "0 < E a" "cell_at h a = ListCell l" "type_tag l = t"
  using assms by (auto simp: building_def)

lemma fold_invariant: "(\<And>x h. x \<in> set xs \<Longrightarrow> P h \<Longrightarrow> P (f x h)) \<Longrightarrow> P h \<Longrightarrow> P (fold f xs h)"
  by (induction xs arbitrary: h) auto

lemma new_list_building:
  assumes "counts_sound E [] h" and "typed_heap h" and "element_tag_from_code code = t"
  shows "building (E(int (length h) + 1 := 1)) (int (length h) + 1) t (snd (pith_list_new code h))"
proof -
  let ?l = "\<lparr>rc = 1, type_tag = t, values8 = []\<rparr>"
  have "counts_sound (E(int (length h) + 1 := 1)) [] (h @ [ListCell ?l])"
    by (rule sound_new [of _ _ _ ListTag]) (use assms in \<open>simp_all add: release_all_elements_def\<close>)
  moreover have "cell_at (h @ [ListCell ?l]) (int (length h) + 1) = ListCell ?l"
    by (simp add: cell_at_def nat_add_distrib)
  ultimately show ?thesis
    using assms by (auto simp: pith_list_new_def building_def typed_append)
qed

lemma push_list_at:
  assumes "cell_at h a = ListCell l"
  shows "\<exists>l'. cell_at (pith_list_push_value a v h) a = ListCell l' \<and> type_tag l' = type_tag l"
    and "\<exists>l'. cell_at (pith_list_push_value_owned a v h) a = ListCell l' \<and> type_tag l' = type_tag l"
proof -
  obtain n where "cell_at (retain_element (type_tag l) v h) a = with_count n (cell_at h a)" by (rule retain_same)
  then have n: "cell_at (retain_element (type_tag l) v h) a = ListCell (l\<lparr>rc := n\<rparr>)" using assms by simp
  then show "\<exists>l'. cell_at (pith_list_push_value a v h) a = ListCell l' \<and> type_tag l' = type_tag l"
    using assms by (simp add: pith_list_push_value_def push_value_inner_def list_ref_def list_mut_cell cell_at_set push_value_def)
  show "\<exists>l'. cell_at (pith_list_push_value_owned a v h) a = ListCell l' \<and> type_tag l' = type_tag l"
    using assms by (simp add: pith_list_push_value_owned_def push_value_inner_def list_ref_def list_mut_cell cell_at_set push_value_def)
qed

lemma list_mut_kind [simp]: "kind_of (cell_at (list_mut a f h) b) = kind_of (cell_at h b)"
  using cell_at_set [of h a "ListCell (f l)" b for l] by (auto simp: list_mut_def split: cell.splits)

lemma push_kind [simp]: "kind_of (cell_at (pith_list_push_value a v h) b) = kind_of (cell_at h b)"
  by (simp add: pith_list_push_value_def push_value_inner_def split: option.split)

lemma building_push:
  assumes "building E a t h" and "value_of_kind h t v"
  shows "building E a t (pith_list_push_value a v h)"
  using assms push_list_at(1) [of h a _ v] push_sound [of E h a _ v]
  by (auto simp: building_def typed)

text \<open>A fresh object of kind \<open>t\<close> that is pushed and then given up by its maker.\<close>

lemma fresh_owned:
  assumes S: "counts_sound E [] h" and c: "kind_of c = Some t" "t \<noteq> PrimitiveTag" "count_of c = 1" "owned c = []"
  shows "counts_sound (owe E t (int (length h) + 1)) [] (h @ [c])"
    and "value_of_kind (h @ [c]) t (int (length h) + 1)"
    and "a \<noteq> int (length h) + 1 \<Longrightarrow> cell_at (h @ [c]) a = cell_at h a"
proof -
  let ?n = "int (length h) + 1"
  have "\<not> nat ?n \<le> length h" by linarith
  then have dead: "cell_at h ?n = Dead" by (simp add: cell_at_def)
  then have "E ?n = 0" using counts_soundD(3) [OF S, of ?n] by auto
  then have "owe E t ?n = E(?n := 1)" using c by (simp add: owe_def)
  then show "counts_sound (owe E t ?n) [] (h @ [c])"
    using sound_new [of E c h t] S c by simp
  show "value_of_kind (h @ [c]) t ?n"
    using c by (simp add: value_of_kind_def cell_at_def nat_add_distrib)
  show "a \<noteq> ?n \<Longrightarrow> cell_at (h @ [c]) a = cell_at h a"
    by (auto simp: cell_at_def nth_append)
qed

lemma live_not_fresh: "cell_at h a \<noteq> Dead \<Longrightarrow> a \<noteq> int (length h) + 1"
  using cell_at_live [of h a] by linarith

lemma building_fresh_owned:
  assumes b: "building E a t h" and c: "kind_of c = Some t" "t \<noteq> PrimitiveTag" "count_of c = 1" "owned c = []" "content_ok c"
  shows "building E a t (pith_list_push_value_owned a (int (length h) + 1) (h @ [c]))"
proof -
  obtain l where l: "counts_sound E [] h" "typed_heap h" "0 < E a" "cell_at h a = ListCell l" "type_tag l = t"
    using b by (rule buildingE)
  note f = fresh_owned [OF l(1) c(1-4)]
  have at: "cell_at (h @ [c]) a = ListCell l" using f(3) [of a] live_not_fresh [of h a] l(4) by simp
  have "counts_sound E [] (pith_list_push_value_owned a (int (length h) + 1) (h @ [c]))"
    by (rule push_owned_sound [OF _ at]) (use f l(5) in simp_all)
  then show ?thesis
    using l c(5) push_list_at(2) [OF at, of "int (length h) + 1"] by (auto simp: building_def typed)
qed

lemma building_fresh:
  assumes b: "building E a t h" and c: "kind_of c = Some t" "t \<noteq> PrimitiveTag" "count_of c = 1" "owned c = []" "content_ok c"
  shows "building E a t (release_element t (int (length h) + 1) (pith_list_push_value a (int (length h) + 1) (h @ [c])))"
proof -
  let ?n = "int (length h) + 1"
  obtain l where l: "counts_sound E [] h" "typed_heap h" "0 < E a" "cell_at h a = ListCell l" "type_tag l = t"
    using b by (rule buildingE)
  note f = fresh_owned [OF l(1) c(1-4)]
  have at: "cell_at (h @ [c]) a = ListCell l" using f(3) [of a] live_not_fresh [of h a] l(4) by simp
  let ?g = "pith_list_push_value a ?n (h @ [c])"
  have S: "counts_sound (owe E t ?n) [] ?g"
    by (rule push_sound [OF f(1) at]) (use f(2) l(5) in simp)
  have v: "value_of_kind ?g t ?n" using f(2) by (simp add: value_of_kind_def)
  have S': "counts_sound E [] (release_element t ?n ?g)" by (rule release_sound [OF S v])
  obtain l' where l': "cell_at ?g a = ListCell l'" "type_tag l' = t" using push_list_at(1) [OF at, of ?n] l(5) by blast
  have "same_content (cell_at ?g a) (cell_at (release_element t ?n ?g) a)"
    unfolding release_element_def by (rule run_release_owned [OF S' [unfolded release_element_def] l(3)])
  then obtain n where "cell_at (release_element t ?n ?g) a = ListCell (l'\<lparr>rc := n\<rparr>)"
    using l'(1) by (auto simp: same_content_iff)
  then show ?thesis using S' l l'(2) c(5) by (auto simp: building_def typed)
qed

lemma building_string_key: "building E a StringTag h \<Longrightarrow> building E a StringTag (push_string_key a k h)"
  using building_fresh [of E a StringTag h "StringCell 1 b" for b]
  by (cases k) (simp_all add: push_string_key_def copy_cstring_def)

lemma building_bytes_key: "building E a BytesTag h \<Longrightarrow> building E a BytesTag (push_bytes_key a k h)"
  using building_fresh_owned [of E a BytesTag h "BytesCell 1 b" for b]
  by (cases k) (simp_all add: push_bytes_key_def bytes_from_vec_def)

lemma building_int_key: "building E a PrimitiveTag h \<Longrightarrow> building E a PrimitiveTag (push_int_key a k h)"
  by (cases k) (simp_all add: push_int_key_def building_push value_of_kind_def)

lemma building_string_elem: "building E a StringTag h \<Longrightarrow> building E a StringTag (push_string_elem a k h)"
  using building_fresh [of E a StringTag h "StringCell 1 b" for b]
  by (cases k) (simp_all add: push_string_elem_def copy_cstring_def)

lemma building_bytes_elem: "building E a BytesTag h \<Longrightarrow> building E a BytesTag (push_bytes_elem a k h)"
  using building_fresh_owned [of E a BytesTag h "BytesCell 1 b" for b]
  by (cases k) (simp_all add: push_bytes_elem_def bytes_from_vec_def)

lemma building_int_elem: "building E a PrimitiveTag h \<Longrightarrow> building E a PrimitiveTag (push_int_elem a k h)"
  by (cases k) (simp_all add: push_int_elem_def building_push value_of_kind_def)

subsection \<open>Programs\<close>

text \<open>The order an insert of an integer key takes, on either path.\<close>

definition int_table_order :: "nat list \<Rightarrow> int \<Rightarrow> map_impl \<Rightarrow> bool" where
  "int_table_order p key m =
     (case int_values8 m of Some d \<Rightarrow> table_order p key d | None \<Rightarrow> table_order p (IntKey key) (data m))"

text \<open>
  The calls a program makes, over the counts its own variables hold and the heap. A call is
  allowed when the program is well typed and owns what it hands over: a value that is lent is
  alive and of the container's kind, an owned value's count is the program's to give, a map or
  set is reached through the entry points of its flavor, and a container that is cleared is held
  by the caller. \<open>birth\<close> makes a string, a bytes value, or a struct or closure that takes over
  counts of its maker; \<open>adopt\<close> is the first half of a map store that carries the kind of its value.
  The strict and checked forms of a list store are the plain store or no change, and have no rule
  of their own; the kind-carrying stores of lists are not among the calls;
  \<open>collects\<close> is a collection of the cycle collector from whatever suspects it drained.
\<close>

inductive program_call :: "(int \<Rightarrow> nat) \<times> heap \<Rightarrow> (int \<Rightarrow> nat) \<times> heap \<Rightarrow> bool" where
  retain: "value_of_kind h t v \<Longrightarrow> program_call (E, h) (owe E t v, retain_element t v h)"
| release: "value_of_kind h t v \<Longrightarrow> program_call (owe E t v, h) (E, release_element t v h)"
| birth_string: "program_call (E, h) (E(int (length h) + 1 := 1), h @ [StringCell 1 b])"
| birth_bytes: "program_call (E, h) (E(int (length h) + 1 := 1), h @ [BytesCell 1 b])"
| birth: "k \<noteq> PrimitiveTag \<Longrightarrow> (\<And>t v. (t, v) \<in> set os \<Longrightarrow> value_of_kind h t v) \<Longrightarrow>
    program_call (hand_over E os, h) (E(int (length h) + 1 := 1), h @ [OtherCell k 1 os])"
| list_new: "program_call (E, h) (E(int (length h) + 1 := 1), snd (pith_list_new code h))"
| list_push: "list_ref h a = Some l \<Longrightarrow> value_of_kind h (type_tag l) v \<Longrightarrow>
    program_call (E, h) (E, pith_list_push_value a v h)"
| list_push_owned: "list_ref h a = Some l \<Longrightarrow> value_of_kind h (type_tag l) v \<Longrightarrow>
    program_call (owe E (type_tag l) v, h) (E, pith_list_push_value_owned a v h)"
| list_insert: "list_ref h a = Some l \<Longrightarrow> value_of_kind h (type_tag l) v \<Longrightarrow>
    program_call (E, h) (E, pith_list_insert_value a index v h)"
| list_insert_owned: "list_ref h a = Some l \<Longrightarrow> value_of_kind h (type_tag l) v \<Longrightarrow>
    program_call (owe E (type_tag l) v, h) (E, pith_list_insert_value_owned a index v h)"
| list_set: "list_ref h a = Some l \<Longrightarrow> value_of_kind h (type_tag l) v \<Longrightarrow>
    program_call (E, h) (E, pith_list_set_value a index v h)"
| list_set_owned: "list_ref h a = Some l \<Longrightarrow> value_of_kind h (type_tag l) v \<Longrightarrow>
    program_call (owe E (type_tag l) v, h) (E, pith_list_set_value_owned a index v h)"
| list_pop: "list_ref h a = Some l \<Longrightarrow> pith_list_pop a h = (Some v, h') \<Longrightarrow>
    program_call (E, h) (owe E (type_tag l) v, h')"
| list_remove: "program_call (E, h) (E, snd (pith_list_remove_value a index h))"
| list_clear: "list_ref h a = Some l \<Longrightarrow> 0 < E a \<Longrightarrow> program_call (E, h) (E, pith_list_clear_value a h)"
| list_reverse: "program_call (E, h) (E, pith_list_reverse_value a h)"
| map_new: "program_call (E, h) (E(int (length h) + 1 := 1), snd (pith_map_new_tagged kcode vcode h))"
| adopt: "map_ref h a = Some m \<Longrightarrow> program_call (E, h) (E, snd (map_adopt_value_tag a code h))"
| map_insert_cstr: "map_ref h a = Some m \<Longrightarrow> key_type m = StringKeys \<Longrightarrow>
    table_order p (StringKey s) (data m) \<Longrightarrow> value_of_kind h (val_tag m) v \<Longrightarrow>
    pith_map_insert_cstr p a (Some s) v h = Inr h' \<Longrightarrow> program_call (E, h) (E, h')"
| map_insert_cstr_owned: "map_ref h a = Some m \<Longrightarrow> key_type m = StringKeys \<Longrightarrow>
    table_order p (StringKey s) (data m) \<Longrightarrow> value_of_kind h (val_tag m) v \<Longrightarrow>
    pith_map_insert_cstr_owned p a (Some s) v h = Inr h' \<Longrightarrow> program_call (owe E (val_tag m) v, h) (E, h')"
| map_insert_bkey: "map_ref h a = Some m \<Longrightarrow> key_type m = BytesKeys \<Longrightarrow> bytes_key_ref h key = Some k \<Longrightarrow>
    table_order p (map_key_from k) (data m) \<Longrightarrow> value_of_kind h (val_tag m) v \<Longrightarrow>
    pith_map_insert_bkey p a key v h = Inr h' \<Longrightarrow> program_call (E, h) (E, h')"
| map_insert_bkey_owned: "map_ref h a = Some m \<Longrightarrow> key_type m = BytesKeys \<Longrightarrow> bytes_key_ref h key = Some k \<Longrightarrow>
    table_order p (map_key_from k) (data m) \<Longrightarrow> value_of_kind h (val_tag m) v \<Longrightarrow>
    pith_map_insert_bkey_owned p a key v h = Inr h' \<Longrightarrow> program_call (owe E (val_tag m) v, h) (E, h')"
| map_insert_ikey: "map_ref h a = Some m \<Longrightarrow> key_type m = IntKeys \<Longrightarrow> int_table_order p key m \<Longrightarrow>
    value_of_kind h (val_tag m) v \<Longrightarrow> program_call (E, h) (E, pith_map_insert_ikey p a key v h)"
| map_insert_ikey_owned: "map_ref h a = Some m \<Longrightarrow> key_type m = IntKeys \<Longrightarrow> int_table_order p key m \<Longrightarrow>
    value_of_kind h (val_tag m) v \<Longrightarrow>
    program_call (owe E (val_tag m) v, h) (E, pith_map_insert_ikey_owned p a key v h)"
| map_upsert_cstr: "map_ref h a = Some m \<Longrightarrow> key_type m = StringKeys \<Longrightarrow>
    pith_map_upsert_add_cstr a (Some s) delta h = Inr (v, h') \<Longrightarrow> program_call (E, h) (E, h')"
| map_upsert_bkey: "map_ref h a = Some m \<Longrightarrow> key_type m = BytesKeys \<Longrightarrow>
    pith_map_upsert_add_bkey a key delta h = Inr (v, h') \<Longrightarrow> program_call (E, h) (E, h')"
| map_upsert_ikey: "map_ref h a = Some m \<Longrightarrow> key_type m = IntKeys \<Longrightarrow>
    pith_map_upsert_add_ikey a key delta h = Inr (v, h') \<Longrightarrow> program_call (E, h) (E, h')"
| map_remove_cstr: "map_ref h a = Some m \<Longrightarrow> key_type m = StringKeys \<Longrightarrow>
    pith_map_remove_cstr a (Some s) h = Inr h' \<Longrightarrow> program_call (E, h) (E, h')"
| map_remove_bkey: "map_ref h a = Some m \<Longrightarrow> key_type m = BytesKeys \<Longrightarrow>
    pith_map_remove_bkey a key h = Inr h' \<Longrightarrow> program_call (E, h) (E, h')"
| map_remove_ikey: "map_ref h a = Some m \<Longrightarrow> key_type m = IntKeys \<Longrightarrow>
    program_call (E, h) (E, pith_map_remove_ikey a key h)"
| map_take_cstr: "map_ref h a = Some m \<Longrightarrow> key_type m = StringKeys \<Longrightarrow>
    map_get_cstr a (Some s) h = Inr (Some v) \<Longrightarrow> pith_map_take a s h = Inr (v, h') \<Longrightarrow>
    program_call (E, h) (owe E (val_tag m) v, h')"
| map_take_bkey: "map_ref h a = Some m \<Longrightarrow> key_type m = BytesKeys \<Longrightarrow>
    map_get_bkey a key h = Inr (Some v) \<Longrightarrow> pith_map_take_bkey a key h = Inr (v, h') \<Longrightarrow>
    program_call (E, h) (owe E (val_tag m) v, h')"
| map_take_ikey: "map_ref h a = Some m \<Longrightarrow> key_type m = IntKeys \<Longrightarrow> map_get_ikey a key h = Some v \<Longrightarrow>
    program_call (E, h) (owe E (val_tag m) v, snd (pith_map_take_ikey a key h))"
| map_clear: "map_ref h a = Some m \<Longrightarrow> 0 < E a \<Longrightarrow> program_call (E, h) (E, pith_map_clear_handle a h)"
| map_keys_cstr: "pith_map_keys_cstr a h = Inr (list, h') \<Longrightarrow> program_call (E, h) (E(list := 1), h')"
| map_keys_bkey: "pith_map_keys_bkey a h = Inr (list, h') \<Longrightarrow> program_call (E, h) (E(list := 1), h')"
| map_keys_ikey: "pith_map_keys_ikey a h = (list, h') \<Longrightarrow> program_call (E, h) (E(list := 1), h')"
| map_values: "pith_map_values_handle a h = (list, h') \<Longrightarrow> program_call (E, h) (E(list := 1), h')"
| set_new: "program_call (E, h) (E(int (length h) + 1 := 1), snd (pith_set_new_handle code h))"
| set_add_cstr: "set_ref h a = Some s \<Longrightarrow> elem_type s = StringElems \<Longrightarrow> set_order p s \<Longrightarrow>
    pith_set_add_cstr p a (Some b) h = Inr (r, h') \<Longrightarrow> program_call (E, h) (E, h')"
| set_add_int: "set_ref h a = Some s \<Longrightarrow> elem_type s = IntElems \<Longrightarrow> set_order p s \<Longrightarrow>
    program_call (E, h) (E, snd (pith_set_add_int_handle p a n h))"
| set_add_bytes: "set_ref h a = Some s \<Longrightarrow> elem_type s = BytesElems \<Longrightarrow> set_order p s \<Longrightarrow>
    pith_set_add_bytes p a b h = Inr (r, h') \<Longrightarrow> program_call (E, h) (E, h')"
| set_remove_cstr: "pith_set_remove_cstr a b h = Inr h' \<Longrightarrow> program_call (E, h) (E, h')"
| set_remove_int: "program_call (E, h) (E, pith_set_remove_int_handle a n h)"
| set_remove_bytes: "pith_set_remove_bytes a b h = Inr h' \<Longrightarrow> program_call (E, h) (E, h')"
| set_clear: "program_call (E, h) (E, pith_set_clear_handle a h)"
| set_to_list_cstr: "set_ref h a = Some s \<Longrightarrow> elem_type s = StringElems \<Longrightarrow>
    pith_set_to_list_cstr a h = Inr (list, h') \<Longrightarrow> program_call (E, h) (E(list := 1), h')"
| set_to_list_int: "set_ref h a = Some s \<Longrightarrow> elem_type s = IntElems \<Longrightarrow>
    pith_set_to_list_int_handle a h = (list, h') \<Longrightarrow> program_call (E, h) (E(list := 1), h')"
| collects: "white_order p suspects h \<Longrightarrow> program_call (E, h) (E, collect p suspects h)"
| set_to_list_bytes: "pith_set_to_list_bytes a h = Inr (list, h') \<Longrightarrow> program_call (E, h) (E(list := 1), h')"

definition program_start :: "(int \<Rightarrow> nat) \<times> heap \<Rightarrow> bool" where
  "program_start s \<longleftrightarrow> s = (\<lambda>_. 0, [])"

subsection \<open>The entry points keep the invariant\<close>

definition keeps :: "(int \<Rightarrow> nat) \<Rightarrow> heap \<Rightarrow> bool" where
  "keeps E h \<longleftrightarrow> counts_sound E [] h \<and> typed_heap h"

definition program_inv :: "(int \<Rightarrow> nat) \<times> heap \<Rightarrow> bool" where
  "program_inv s \<longleftrightarrow> keeps (fst s) (snd s)"

lemma keepsD: "keeps E h \<Longrightarrow> counts_sound E [] h" "keeps E h \<Longrightarrow> typed_heap h"
  by (simp_all add: keeps_def)

lemma no_ints: "map_ok m \<Longrightarrow> key_type m \<noteq> IntKeys \<Longrightarrow> int_values8 m = None"
  using map_okD(6) [of m] by (cases "int_values8 m") auto

lemma keeps_insert_keyed:
  assumes typed: "typed_heap h" and at: "cell_at h a = MapCell m" and none: "int_values8 m = None"
    and p: "table_order p (map_key_from k) (data m)" and fl: "flavor_of (map_key_from k) = key_type m"
    and v: "value_of_kind h (val_tag m) v"
  shows "counts_sound E [] h \<Longrightarrow> keeps E (insert_keyed p a m k v False h)"
    and "counts_sound (owe E (val_tag m) v) [] h \<Longrightarrow> keeps E (insert_keyed p a m k v True h)"
  using typed_insert_keyed [OF typed at none p fl] insert_borrowed_keyed [OF _ at v p, of E]
    insert_owned_keyed [OF _ at v p, of E] by (auto simp: keeps_def)

lemma flavor_check: "key_type m = t \<Longrightarrow> require_key_flavor (key_type m) t = Inr ()"
  by (simp add: require_key_flavor_def)

lemma bytes_key_flavor: "bytes_key_ref h key = Some k \<Longrightarrow> flavor_of (map_key_from k) = BytesKeys"
  by (auto simp: bytes_key_ref_def map_key_from_def split: if_splits cell.splits)

lemma keeps_cstr:
  assumes "typed_heap h" and at: "map_ref h a = Some m" and kt: "key_type m = StringKeys"
    and "table_order p (StringKey s) (data m)" and "value_of_kind h (val_tag m) v"
  shows "counts_sound E [] h \<Longrightarrow> pith_map_insert_cstr p a (Some s) v h = Inr h' \<Longrightarrow> keeps E h'"
    and "counts_sound (owe E (val_tag m) v) [] h \<Longrightarrow> pith_map_insert_cstr_owned p a (Some s) v h = Inr h' \<Longrightarrow> keeps E h'"
proof -
  have cell: "cell_at h a = MapCell m" using at by (simp add: map_ref_Some)
  have none: "int_values8 m = None" using no_ints [OF typed_map [OF assms(1) cell]] kt by simp
  note k = keeps_insert_keyed [OF assms(1) cell none _ _ assms(5), of p "StrRef s"]
  show "counts_sound E [] h \<Longrightarrow> pith_map_insert_cstr p a (Some s) v h = Inr h' \<Longrightarrow> keeps E h'"
    using k(1) [of E] assms kt flavor_check [OF kt]
    by (auto simp: pith_map_insert_cstr_def insert_cstr_inner_def with_flavor_def map_key_from_def)
  show "counts_sound (owe E (val_tag m) v) [] h \<Longrightarrow> pith_map_insert_cstr_owned p a (Some s) v h = Inr h' \<Longrightarrow> keeps E h'"
    using k(2) [of E] assms kt flavor_check [OF kt]
    by (auto simp: pith_map_insert_cstr_owned_def insert_cstr_inner_def with_flavor_def map_key_from_def)
qed

lemma keeps_bkey:
  assumes "typed_heap h" and at: "map_ref h a = Some m" and kt: "key_type m = BytesKeys"
    and key: "bytes_key_ref h key = Some k" and "table_order p (map_key_from k) (data m)" and "value_of_kind h (val_tag m) v"
  shows "counts_sound E [] h \<Longrightarrow> pith_map_insert_bkey p a key v h = Inr h' \<Longrightarrow> keeps E h'"
    and "counts_sound (owe E (val_tag m) v) [] h \<Longrightarrow> pith_map_insert_bkey_owned p a key v h = Inr h' \<Longrightarrow> keeps E h'"
proof -
  have cell: "cell_at h a = MapCell m" using at by (simp add: map_ref_Some)
  have none: "int_values8 m = None" using no_ints [OF typed_map [OF assms(1) cell]] kt by simp
  note k = keeps_insert_keyed [OF assms(1) cell none assms(5) _ assms(6)]
  show "counts_sound E [] h \<Longrightarrow> pith_map_insert_bkey p a key v h = Inr h' \<Longrightarrow> keeps E h'"
    using k(1) [of E] at kt key flavor_check [OF kt] bytes_key_flavor [OF key]
    by (auto simp: pith_map_insert_bkey_def insert_bkey_inner_def with_flavor_def)
  show "counts_sound (owe E (val_tag m) v) [] h \<Longrightarrow> pith_map_insert_bkey_owned p a key v h = Inr h' \<Longrightarrow> keeps E h'"
    using k(2) [of E] at kt key flavor_check [OF kt] bytes_key_flavor [OF key]
    by (auto simp: pith_map_insert_bkey_owned_def insert_bkey_inner_def with_flavor_def)
qed

lemma keeps_ikey:
  assumes typed: "typed_heap h" and at: "map_ref h a = Some m" and kt: "key_type m = IntKeys"
    and p: "int_table_order p key m" and v: "value_of_kind h (val_tag m) v"
  shows "counts_sound E [] h \<Longrightarrow> keeps E (pith_map_insert_ikey p a key v h)"
    and "counts_sound (owe E (val_tag m) v) [] h \<Longrightarrow> keeps E (pith_map_insert_ikey_owned p a key v h)"
proof -
  have cell: "cell_at h a = MapCell m" using at by (simp add: map_ref_Some)
  note ok = typed_map [OF typed cell]
  have "(counts_sound E [] h \<longrightarrow> keeps E (pith_map_insert_ikey p a key v h)) \<and>
    (counts_sound (owe E (val_tag m) v) [] h \<longrightarrow> keeps E (pith_map_insert_ikey_owned p a key v h))"
  proof (cases "int_values8 m")
    case None
    then show ?thesis
      using keeps_insert_keyed [OF typed cell None _ _ v, of p "IntRef key" E] at kt p
      by (auto simp: pith_map_insert_ikey_def pith_map_insert_ikey_owned_def insert_ikey_inner_def
          uses_int_values8_def int_table_order_def map_key_from_def)
  next
    case (Some d)
    have prim: "val_tag m = PrimitiveTag" using map_okD(5) [OF ok Some] .
    have "typed_heap (map_mut a (insert_int_value p key v) h)"
      using insert_int_ok(1) [OF ok Some] p Some by (intro typed_map_mut [OF typed]) (simp add: cell int_table_order_def)
    then show ?thesis
      using insert_int_sound [OF _ cell, of E p key v] at Some prim
      by (simp add: pith_map_insert_ikey_def pith_map_insert_ikey_owned_def insert_ikey_inner_def
          uses_int_values8_def keeps_def owe_def)
  qed
  then show "counts_sound E [] h \<Longrightarrow> keeps E (pith_map_insert_ikey p a key v h)"
    and "counts_sound (owe E (val_tag m) v) [] h \<Longrightarrow> keeps E (pith_map_insert_ikey_owned p a key v h)" by blast+
qed

lemma keeps_upsert:
  assumes "keeps E h" and at: "cell_at h a = MapCell m" and "flavor_of (map_key_from k) = key_type m"
    and r: "upsert_add_keyed a m k delta h = Inr (v, h')"
  shows "keeps E h'"
proof -
  have h': "h' = map_mut a (\<lambda>_. snd (upsert_add k delta m)) h"
    using r by (auto simp: upsert_add_keyed_def split: if_splits prod.splits option.splits)
  have "map_ok (snd (upsert_add k delta m))"
    using upsert_ok(1) [OF typed_map [OF keepsD(2) [OF assms(1)] at]] assms(3) by simp
  then show ?thesis
    using upsert_sound [OF keepsD(1) [OF assms(1)] at r] typed_map_mut [OF keepsD(2) [OF assms(1)]]
    by (simp add: keeps_def h')
qed

lemma keeps_remove_keyed:
  assumes "keeps E h" and at: "cell_at h a = MapCell m" and none: "int_values8 m = None"
  shows "keeps E (remove_keyed a m k h)"
    and "map_of (data m) (map_key_from k) = Some v \<Longrightarrow> keeps (owe E (val_tag m) v) (snd (take_keyed a m k h))"
proof -
  note S = keepsD(1) [OF assms(1)] and T = keepsD(2) [OF assms(1)]
  note ok = typed_map [OF T at]
  have t: "typed_heap (map_mut a (\<lambda>m. snd (map_remove k m)) h)"
    by (intro typed_map_mut [OF T]) (use map_remove_ok(1) [OF ok none, of k] at in simp)
  show "keeps E (remove_keyed a m k h)"
    using remove_sound_keyed [OF S at map_okD(1) [OF ok], of k] typed_displace [OF t]
    by (simp add: keeps_def remove_keyed_def)
  show "map_of (data m) (map_key_from k) = Some v \<Longrightarrow> keeps (owe E (val_tag m) v) (snd (take_keyed a m k h))"
    using take_sound_keyed [OF S at map_okD(1) [OF ok], of k] t by (simp add: keeps_def take_keyed_def)
qed

lemma keeps_new:
  assumes "keeps E h" and c: "kind_of c = Some k" "k \<noteq> PrimitiveTag" "count_of c = 1" "owned c = []" "content_ok c"
  shows "keeps (E(int (length h) + 1 := 1)) (h @ [c])"
  using assms sound_new [of E c h k] typed_append by (auto simp: keeps_def)

lemma keeps_building: "building E a t h \<Longrightarrow> keeps E h"
  by (simp add: building_def keeps_def)

lemma keeps_list_new: "keeps E h \<Longrightarrow> keeps (E(int (length h) + 1 := 1)) (snd (pith_list_new code h))"
  using keeps_building [OF new_list_building [of E h code, OF _ _ refl]] by (simp add: keeps_def)

lemma keeps_new_list:
  assumes "keeps E h" and "\<And>x g. x \<in> set xs \<Longrightarrow> building (E(int (length h) + 1 := 1)) (int (length h) + 1) t g \<Longrightarrow>
      building (E(int (length h) + 1 := 1)) (int (length h) + 1) t (f x g)"
    and "element_tag_from_code code = t"
  shows "keeps (E(int (length h) + 1 := 1)) (fold f xs (snd (pith_list_new code h)))"
proof (rule keeps_building)
  show "building (E(int (length h) + 1 := 1)) (int (length h) + 1) t (fold f xs (snd (pith_list_new code h)))"
    by (rule fold_invariant [where P = "building (E(int (length h) + 1 := 1)) (int (length h) + 1) t"])
      (use assms new_list_building [OF keepsD(1) [OF assms(1)] keepsD(2) [OF assms(1)]] in auto)
qed

lemma keeps_set_mut:
  assumes "keeps E h" and "\<And>s. set_rc (f s) = set_rc s" and "\<And>s. cell_at h a = SetCell s \<Longrightarrow> set_ok s \<Longrightarrow> set_ok (f s)"
  shows "keeps E (set_mut a f h)"
  using set_mut_sound [OF keepsD(1) [OF assms(1)] assms(2)] typed_set_mut [OF keepsD(2) [OF assms(1)]]
    assms(3) typed_set [OF keepsD(2) [OF assms(1)]]
  by (auto simp: keeps_def)

lemma new_list_kind:
  assumes "kind_of (cell_at h b) \<noteq> None"
  shows "kind_of (cell_at (snd (pith_list_new c h)) b) = kind_of (cell_at h b)"
proof -
  have "cell_at h b \<noteq> Dead" using assms by auto
  from cell_at_live [OF this] have "0 < b" "nat b - 1 < length h" "nat b \<le> length h" by linarith+
  then show ?thesis by (simp add: pith_list_new_def cell_at_def nth_append)
qed

lemma keeps_values:
  assumes "keeps E h" and v: "pith_map_values_handle a h = (list, h')"
  shows "keeps (E(list := 1)) h'"
proof (cases "map_ref h a")
  case None
  then show ?thesis
    using v keeps_list_new [OF assms(1), of 0] by (auto simp: pith_map_values_handle_def pith_list_new_def)
next
  case (Some m)
  then have at: "cell_at h a = MapCell m" by (simp add: map_ref_Some)
  let ?E = "E(int (length h) + 1 := 1)" and ?n = "int (length h) + 1"
  have tag: "element_tag_from_code (tag_code (val_tag m)) = val_tag m"
    by (cases "val_tag m") (simp_all add: tag_code_def element_tag_from_code_def)
  have kinds: "value_of_kind h (val_tag m) x" if "x \<in> set (value_words m)" for x
  proof (cases "val_tag m = PrimitiveTag")
    case False
    then have "int_values8 m = None"
      using map_okD(5) [OF typed_map [OF keepsD(2) [OF assms(1)] at]] by (cases "int_values8 m") auto
    then have "Drop (val_tag m) x \<in> set (owned (cell_at h a))"
      using that at False by (auto simp: value_words_def release_all_values_def)
    then show ?thesis by (rule sound_owned [OF keepsD(1) [OF assms(1)]])
  qed (simp add: value_of_kind_def)
  have step: "building ?E ?n (val_tag m) (fold (pith_list_push_value ?n) xs g) "
    if "building ?E ?n (val_tag m) g" "\<And>b. kind_of (cell_at h b) \<noteq> None \<Longrightarrow> kind_of (cell_at g b) = kind_of (cell_at h b)"
      "set xs \<subseteq> set (value_words m)" for xs g
    using that
  proof (induction xs arbitrary: g)
    case (Cons x xs)
    have x: "value_of_kind h (val_tag m) x" using kinds Cons.prems(3) by simp
    have "value_of_kind g (val_tag m) x"
    proof (cases "val_tag m = PrimitiveTag \<or> x \<le> 0")
      case False
      then have "kind_of (cell_at h x) = Some (val_tag m)" using value_of_kind_cell [OF x] by auto
      then show ?thesis using Cons.prems(2) [of x] by (simp add: value_of_kind_def)
    qed (auto simp: value_of_kind_def)
    then have "building ?E ?n (val_tag m) (pith_list_push_value ?n x g)" by (rule building_push [OF Cons.prems(1)])
    from Cons.IH [OF this] show ?case
      unfolding fold_Cons comp_apply using Cons.prems(2,3) by simp
  qed simp
  have "building ?E ?n (val_tag m) (fold (pith_list_push_value ?n) (value_words m) (snd (pith_list_new (tag_code (val_tag m)) h)))"
    by (intro step [OF new_list_building [OF keepsD(1) [OF assms(1)] keepsD(2) [OF assms(1)] tag]] subset_refl new_list_kind)
  then show ?thesis
    using v Some keeps_building by (auto simp: pith_map_values_handle_def pith_list_new_def)
qed

lemma keeps_set_cstr:
  assumes "keeps E h" "set_ref h a = Some s" "elem_type s = StringElems" "set_order p s"
    "pith_set_add_cstr p a (Some b) h = Inr (r, h')"
  shows "keeps E h'"
proof -
  have "h' = set_mut a (\<lambda>s. snd (set_insert p (StrElemRef b) s)) h"
    using assms(2-5) by (auto simp: pith_set_add_cstr_def require_flavor_def)
  then show ?thesis
    using keeps_set_mut [OF assms(1), of "\<lambda>s. snd (set_insert p (StrElemRef b) s)" a] set_insert_ok(1) [of s p "StrElemRef b"] assms(2-4)
    by (simp add: set_ref_Some set_element_from_def)
qed

lemma keeps_set_bytes:
  assumes "keeps E h" "set_ref h a = Some s" "elem_type s = BytesElems" "set_order p s"
    "pith_set_add_bytes p a b h = Inr (r, h')"
  shows "keeps E h'"
proof (cases "bytes_elem_ref h b")
  case None
  then have "h' = h" using assms(2-5) by (auto simp: pith_set_add_bytes_def require_flavor_def)
  then show ?thesis using assms(1) by simp
next
  case (Some e)
  then have "elem_flavor (set_element_from e) = BytesElems"
    by (auto simp: bytes_elem_ref_def set_element_from_def split: if_splits cell.splits)
  moreover have "h' = set_mut a (\<lambda>s. snd (set_insert p e s)) h"
    using assms(2-5) Some by (auto simp: pith_set_add_bytes_def require_flavor_def)
  ultimately show ?thesis
    using keeps_set_mut [OF assms(1), of "\<lambda>s. snd (set_insert p e s)" a] set_insert_ok(1) [of s p e] assms(2-4)
    by (simp add: set_ref_Some)
qed

lemma keeps_set_remove: "keeps E h \<Longrightarrow> keeps E (set_mut a (\<lambda>s. snd (set_remove e s)) h)"
  by (rule keeps_set_mut) (simp_all add: set_remove_ok)

lemma program_call_inv: "program_call s s' \<Longrightarrow> program_inv s \<Longrightarrow> program_inv s'"
proof (induction rule: program_call.induct)
  case (retain h t v E)
  then show ?case using retain_sound [of E h t v] typed_retain [of h t v] by (simp add: program_inv_def keeps_def)
next
  case (release h t v E)
  then show ?case using release_sound [of E t v h] typed_release [of h t v] by (simp add: program_inv_def keeps_def)
next
  case (birth_string E h b)
  then show ?case using keeps_new [of E h "StringCell 1 b" StringTag] by (simp add: program_inv_def)
next
  case (birth_bytes E h b)
  then show ?case using keeps_new [of E h "BytesCell 1 b" BytesTag] by (simp add: program_inv_def)
next
  case (birth k os h E)
  have "counts_sound E (map (\<lambda>(t, v). Drop t v) os @ []) h"
    by (rule owners_to_drops) (use birth in \<open>auto simp: program_inv_def keeps_def\<close>)
  then show ?case
    using birth sound_new [of E "OtherCell k 1 os" h k] typed_append [of h "OtherCell k 1 os"]
    by (simp add: program_inv_def keeps_def)
next
  case (list_new E h code)
  then show ?case using keeps_list_new by (simp add: program_inv_def)
next
  case (list_push h a l v E)
  then show ?case using push_sound [of E h a l v] by (simp add: program_inv_def keeps_def list_ref_Some typed)
next
  case (list_push_owned h a l v E)
  then show ?case using push_owned_sound [of E l v h a] by (simp add: program_inv_def keeps_def list_ref_Some typed)
next
  case (list_insert h a l v E index)
  then show ?case using insert_sound [of E h a l v index] by (simp add: program_inv_def keeps_def list_ref_Some typed)
next
  case (list_insert_owned h a l v E index)
  then show ?case using insert_owned_sound [of E l v h a index] by (simp add: program_inv_def keeps_def list_ref_Some typed)
next
  case (list_set h a l v E index)
  then show ?case using set_sound [of E h a l v index] by (simp add: program_inv_def keeps_def list_ref_Some typed)
next
  case (list_set_owned h a l v E index)
  then show ?case using set_owned_sound [of E l v h a index] by (simp add: program_inv_def keeps_def list_ref_Some typed)
next
  case (list_pop h a l v h' E)
  have p: "values8 l \<noteq> []" "v = last (values8 l)" "h' = snd (pith_list_pop a h)"
    using list_pop(1,2) by (auto simp: pith_list_pop_def split: if_splits)
  then show ?case
    using list_pop pop_sound [of E h a l] typed_list_op(7) [of h a] by (simp add: program_inv_def keeps_def list_ref_Some)
next
  case (list_remove E h a index)
  then show ?case using remove_sound [of E h a index] by (simp add: program_inv_def keeps_def typed)
next
  case (list_clear h a l E)
  then show ?case using clear_list_sound(1) [of E h a l] by (simp add: program_inv_def keeps_def list_ref_Some typed)
next
  case (list_reverse E h a)
  then show ?case using reverse_sound [of E h a] by (simp add: program_inv_def keeps_def typed)
next
  case (map_new E h kcode vcode)
  let ?m = "map_new (key_type_from_code kcode) (element_tag_from_code vcode)"
  have "release_all_values ?m = []" by (simp add: release_all_values_def map_new_def)
  then show ?case
    using map_new keeps_new [of E h "MapCell ?m" MapTag] map_new_ok(1)
    by (simp add: program_inv_def pith_map_new_tagged_def) (simp add: map_new_def)
next
  case (adopt h a m E code)
  then have at: "cell_at h a = MapCell m" by (simp add: map_ref_Some)
  have ok: "map_ok m" using typed_map [OF _ at] adopt(2) by (simp add: program_inv_def keeps_def)
  show ?case
    using adopt adopt_sound [OF _ at ok, of E] typed_set_cell [of h] adopt_ok(1) [OF ok]
    by (auto simp: program_inv_def keeps_def map_adopt_value_tag_def split: prod.splits) (metis snd_conv content_ok_simps(3))+
next
  case (map_insert_cstr h a m p s v h' E)
  then show ?case using keeps_cstr(1) [of h a m p s v E h'] by (simp add: program_inv_def keeps_def)
next
  case (map_insert_cstr_owned h a m p s v h' E)
  then show ?case using keeps_cstr(2) [of h a m p s v E h'] by (simp add: program_inv_def keeps_def)
next
  case (map_insert_bkey h a m key k p v h' E)
  then show ?case using keeps_bkey(1) [of h a m key k p v E h'] by (simp add: program_inv_def keeps_def)
next
  case (map_insert_bkey_owned h a m key k p v h' E)
  then show ?case using keeps_bkey(2) [of h a m key k p v E h'] by (simp add: program_inv_def keeps_def)
next
  case (map_insert_ikey h a m p key v E)
  then show ?case using keeps_ikey(1) [of h a m p key v E] by (simp add: program_inv_def keeps_def)
next
  case (map_insert_ikey_owned h a m p key v E)
  then show ?case using keeps_ikey(2) [of h a m p key v E] by (simp add: program_inv_def keeps_def)
next
  case (map_upsert_cstr h a m s delta v h' E)
  then have at: "cell_at h a = MapCell m" by (simp add: map_ref_Some)
  show ?case
    using map_upsert_cstr keeps_upsert [OF _ at, of E "StrRef s" delta v h']
    by (simp add: program_inv_def pith_map_upsert_add_cstr_def with_flavor_strict_def require_key_flavor_def map_key_from_def)
next
  case (map_upsert_bkey h a m key delta v h' E)
  then show ?case
    using keeps_upsert [of E h a m _ delta v h'] bytes_key_flavor [of h key]
    by (auto simp: program_inv_def pith_map_upsert_add_bkey_def with_flavor_strict_def require_key_flavor_def map_ref_Some
        split: option.splits)
next
  case (map_upsert_ikey h a m key delta v h' E)
  then have at: "cell_at h a = MapCell m" by (simp add: map_ref_Some)
  show ?case
    using map_upsert_ikey keeps_upsert [OF _ at, of E "IntRef key" delta v h']
    by (simp add: program_inv_def pith_map_upsert_add_ikey_def map_key_from_def)
next
  case (map_remove_cstr h a m s h' E)
  then have at: "cell_at h a = MapCell m" by (simp add: map_ref_Some)
  then show ?case
    using map_remove_cstr keeps_remove_keyed(1) [OF _ at] no_ints [OF typed_map [OF _ at]]
    by (auto simp: program_inv_def pith_map_remove_cstr_def with_flavor_def require_key_flavor_def keepsD)
next
  case (map_remove_bkey h a m key h' E)
  then have at: "cell_at h a = MapCell m" by (simp add: map_ref_Some)
  then show ?case
    using map_remove_bkey keeps_remove_keyed(1) [OF _ at] no_ints [OF typed_map [OF _ at]]
    by (auto simp: program_inv_def pith_map_remove_bkey_def with_flavor_def require_key_flavor_def keepsD split: option.splits)
next
  case (map_remove_ikey h a m E key)
  then have at: "cell_at h a = MapCell m" and k: "keeps E h" by (simp_all add: map_ref_Some program_inv_def)
  note ok = typed_map [OF keepsD(2) [OF k] at]
  show ?case
  proof (cases "int_values8 m")
    case None
    then show ?thesis
      using map_remove_ikey(1) keeps_remove_keyed(1) [OF k at None] by (simp add: program_inv_def pith_map_remove_ikey_def uses_int_values8_def)
  next
    case (Some d)
    have "typed_heap (map_mut a (\<lambda>m. snd (remove_int_value key m)) h)"
      by (intro typed_map_mut [OF keepsD(2) [OF k]]) (use remove_int_ok(1) [OF ok Some, of key] at in simp)
    then show ?thesis
      using map_remove_ikey(1) Some remove_int_sound [OF keepsD(1) [OF k] at, of key]
      by (simp add: program_inv_def keeps_def pith_map_remove_ikey_def uses_int_values8_def)
  qed
next
  case (map_take_cstr h a m s v h' E)
  then have at: "cell_at h a = MapCell m" and k: "keeps E h" by (simp_all add: map_ref_Some program_inv_def)
  have none: "int_values8 m = None" using no_ints [OF typed_map [OF keepsD(2) [OF k] at]] map_take_cstr(2) by simp
  show ?case
    using map_take_cstr(1-4) keeps_remove_keyed(2) [OF k at none, of "StrRef s" v]
    by (simp add: program_inv_def map_get_cstr_def pith_map_take_def with_flavor_def require_key_flavor_def table_get_map_of)
next
  case (map_take_bkey h a m key v h' E)
  then have at: "cell_at h a = MapCell m" and k: "keeps E h" by (simp_all add: map_ref_Some program_inv_def)
  have none: "int_values8 m = None" using no_ints [OF typed_map [OF keepsD(2) [OF k] at]] map_take_bkey(2) by simp
  obtain kr where kr: "bytes_key_ref h key = Some kr"
    using map_take_bkey(1-3) by (auto simp: map_get_bkey_def with_flavor_def require_key_flavor_def split: option.splits)
  show ?case
    using map_take_bkey(1-4) keeps_remove_keyed(2) [OF k at none, of kr v] kr
    by (simp add: program_inv_def map_get_bkey_def pith_map_take_bkey_def with_flavor_def require_key_flavor_def table_get_map_of)
next
  case (map_take_ikey h a m key v E)
  then have at: "cell_at h a = MapCell m" and k: "keeps E h" by (simp_all add: map_ref_Some program_inv_def)
  note ok = typed_map [OF keepsD(2) [OF k] at]
  show ?case
  proof (cases "int_values8 m")
    case None
    then show ?thesis
      using map_take_ikey(1-3) keeps_remove_keyed(2) [OF k at None, of "IntRef key" v]
      by (simp add: program_inv_def pith_map_take_ikey_def map_get_ikey_def uses_int_values8_def table_get_map_of)
  next
    case (Some d)
    have "typed_heap (map_mut a (\<lambda>m. snd (remove_int_value key m)) h)"
      by (intro typed_map_mut [OF keepsD(2) [OF k]]) (use remove_int_ok(1) [OF ok Some, of key] at in simp)
    then show ?thesis
      using map_take_ikey(1) Some remove_int_sound [OF keepsD(1) [OF k] at, of key] map_okD(5) [OF ok Some]
      by (simp add: program_inv_def keeps_def pith_map_take_ikey_def uses_int_values8_def owe_def)
  qed
next
  case (map_clear h a m E)
  then have at: "cell_at h a = MapCell m" and k: "keeps E h" by (simp_all add: map_ref_Some program_inv_def)
  note ok = typed_map [OF keepsD(2) [OF k] at]
  have "typed_heap (run_release (owned (MapCell m)) (map_mut a Maps.map_clear h))"
    by (intro typed) (use map_clear_ok(1) [OF ok] at keepsD(2) [OF k] in simp_all)
  then show ?case
    using map_clear_sound [OF keepsD(1) [OF k] at ok map_clear(2)] by (simp add: program_inv_def keeps_def)
next
  case (map_keys_cstr a h list h' E)
  then have k: "keeps E h" by (simp add: program_inv_def)
  show ?case
    using map_keys_cstr(1) keeps_list_new [OF k, of 0] keeps_new_list [OF k building_string_key, where code = 1]
    by (auto simp: program_inv_def pith_map_keys_cstr_def pith_list_new_def element_tag_from_code_def
        split: option.splits sum.splits)
next
  case (map_keys_bkey a h list h' E)
  then have k: "keeps E h" by (simp add: program_inv_def)
  show ?case
    using map_keys_bkey(1) keeps_list_new [OF k, of 0] keeps_new_list [OF k building_bytes_key, where code = 5]
    by (auto simp: program_inv_def pith_map_keys_bkey_def pith_list_new_def element_tag_from_code_def
        split: option.splits sum.splits)
next
  case (map_keys_ikey a h list h' E)
  then have k: "keeps E h" by (simp add: program_inv_def)
  show ?case
    using map_keys_ikey(1) keeps_list_new [OF k, of 0] keeps_new_list [OF k building_int_key, where code = 0]
    by (auto simp: program_inv_def pith_map_keys_ikey_def pith_list_new_def element_tag_from_code_def
        split: option.splits)
next
  case (map_values a h list h' E)
  then show ?case using keeps_values [of E h a list h'] by (simp add: program_inv_def)
next
  case (set_new E h code)
  then show ?case
    using keeps_new [of E h "SetCell (Sets.set_new (elem_type_from_code code))" SetTag]
    by (simp add: program_inv_def pith_set_new_handle_def set_ok_def Sets.set_new_def)
next
  case (set_add_cstr h a s p b r h' E)
  then show ?case using keeps_set_cstr [of E h a s p b r h'] by (simp add: program_inv_def)
next
  case (set_add_int h a s p E n)
  then have at: "cell_at h a = SetCell s" by (simp add: set_ref_Some)
  show ?case
    using set_add_int keeps_set_mut [of E h "\<lambda>s. snd (set_insert p (IntElemRef n) s)" a] set_insert_ok(1) [of s p "IntElemRef n"] at
    by (simp add: program_inv_def pith_set_add_int_handle_def set_element_from_def)
next
  case (set_add_bytes h a s p b r h' E)
  then show ?case using keeps_set_bytes [of E h a s p b r h'] by (simp add: program_inv_def)
next
  case (set_remove_cstr a b h h' E)
  then show ?case
    using keeps_set_remove [of E h a]
    by (auto simp: program_inv_def pith_set_remove_cstr_def split: option.splits sum.splits)
next
  case (set_remove_int E h a n)
  then show ?case
    using keeps_set_remove [of E h a] by (auto simp: program_inv_def pith_set_remove_int_handle_def split: option.splits)
next
  case (set_remove_bytes a b h h' E)
  then show ?case
    using keeps_set_remove [of E h a]
    by (auto simp: program_inv_def pith_set_remove_bytes_def split: option.splits sum.splits)
next
  case (set_clear E h a)
  then show ?case
    using keeps_set_mut [of E h Sets.set_clear a]
    by (simp add: program_inv_def pith_set_clear_handle_def) (simp add: set_ok_def Sets.set_clear_def)
next
  case (set_to_list_cstr h a s list h' E)
  then have k: "keeps E h" by (simp add: program_inv_def)
  show ?case
    using set_to_list_cstr(1-3) keeps_new_list [OF k building_string_elem, where xs = "members s" and code = 1]
    by (auto simp: program_inv_def pith_set_to_list_cstr_def pith_set_to_list_string_def require_flavor_def
        pith_list_new_def element_tag_from_code_def)
next
  case (set_to_list_int h a s list h' E)
  then have k: "keeps E h" by (simp add: program_inv_def)
  show ?case
    using set_to_list_int(1-3) keeps_new_list [OF k building_int_elem, where xs = "members s" and code = 0]
    by (auto simp: program_inv_def pith_set_to_list_int_handle_def pith_set_to_list_int_def
        pith_list_new_def element_tag_from_code_def)
next
  case (set_to_list_bytes a h list h' E)
  then have k: "keeps E h" by (simp add: program_inv_def)
  show ?case
    using set_to_list_bytes(1) keeps_list_new [OF k, of 0] keeps_new_list [OF k building_bytes_elem, where code = 5]
    by (auto simp: program_inv_def pith_set_to_list_bytes_def pith_list_new_def element_tag_from_code_def
        split: option.splits sum.splits)
next
  case (collects p suspects h E)
  then show ?case using collect_ok(1,2) [of E h p suspects] by (simp add: program_inv_def keeps_def)
qed

interpretation containers: inductive_invariant program_start program_call program_inv
proof
  fix s :: "(int \<Rightarrow> nat) \<times> heap"
  assume "program_start s"
  moreover have "cell_at [] a = Dead" for a by (auto simp: cell_at_def)
  moreover have "refs [] t v = 0" for t v by (simp add: refs_def)
  ultimately show "program_inv s"
    by (auto simp: program_start_def program_inv_def keeps_def counts_sound_def typed_heap_def)
qed (use program_call_inv in blast)

end
