(* ===== verification/Programs.thy ===== *)
theory Programs
  imports Containers
begin

text \<open>
  What a program over lists, maps and sets can rely on: its counts are exact, containers own live
  values, only cycles are left behind, and a container it holds behaves as the sequence, the
  finite map or the set it stands for.
\<close>

subsection \<open>Counts\<close>

lemma reachable_keeps:
  assumes "reachable program_start program_call (E, h)"
  shows "counts_sound E [] h" and "typed_heap h"
  using containers.invariant [OF assms] by (simp_all add: program_inv_def keepsD)

text \<open>
  C7. Containers own what they hold. In every state a program reaches, the count of a live object
  is exactly the counts the program's variables hold plus the list elements, map values and fields
  that own it, and whatever a live object owns as a heap kind is a live object of that kind: no
  sequence of stores, displacements, removals, takes, clears and cascading releases leaves a
  container with a freed value.
\<close>

theorem containers_own_what_they_hold:
  assumes "reachable program_start program_call (E, h)"
  shows "(\<forall>a k. kind_of (cell_at h a) = Some k \<longrightarrow> count_of (cell_at h a) = E a + refs h k a) \<and>
    (\<forall>a t v. Drop t v \<in> set (owned (cell_at h a)) \<longrightarrow> 0 < v \<longrightarrow> t \<noteq> PrimitiveTag \<longrightarrow>
       kind_of (cell_at h v) = Some t \<and> 0 < count_of (cell_at h v))"
proof -
  note S = reachable_keeps(1) [OF assms]
  have "kind_of (cell_at h v) = Some t \<and> 0 < count_of (cell_at h v)"
    if "Drop t v \<in> set (owned (cell_at h a))" "0 < v" "t \<noteq> PrimitiveTag" for a t v
  proof -
    have kind: "kind_of (cell_at h v) = Some t" using value_of_kind_cell [OF sound_owned [OF S that(1)]] that by simp
    then have "cell_at h v \<noteq> Dead" by auto
    then show ?thesis using kind sound_count_pos [OF S] by blast
  qed
  then show ?thesis using counts_soundD(1) [OF S] by (intro conjI allI impI) (simp, blast+)
qed

lemma sum_list_pos: "0 < sum_list (map f xs) \<Longrightarrow> \<exists>x \<in> set xs. (0 :: nat) < f x"
  by (induction xs) auto

lemma count_list_pos: "0 < count_list xs v \<Longrightarrow> v \<in> set xs"
  by (induction xs) (auto split: if_splits)

lemma refs_owner:
  assumes "0 < refs h k a"
  shows "\<exists>b. Drop k a \<in> set (owned (cell_at h b))"
proof -
  obtain c where c: "c \<in> set h" "0 < cell_refs k a c" using assms unfolding refs_def using sum_list_pos by blast
  then have "Drop k a \<in> set (owned c)" by (auto simp: cell_refs_def count_list_pos split: if_splits)
  moreover obtain i where "i < length h" "h ! i = c" using c(1) by (auto simp: in_set_conv_nth)
  then have "cell_at h (int i + 1) = c" by (simp add: cell_at_def nat_add_distrib)
  ultimately show ?thesis by metis
qed

text \<open>
  C28. Nothing is left behind but cycles: once the program holds no counts, every object that is
  still live is owned by a live object.
\<close>

theorem only_cycles_stay:
  assumes "reachable program_start program_call (E, h)" and "\<forall>a. E a = 0" and "kind_of (cell_at h a) = Some k"
  shows "\<exists>b. Drop k a \<in> set (owned (cell_at h b))"
proof (rule refs_owner)
  note S = reachable_keeps(1) [OF assms(1)]
  have "cell_at h a \<noteq> Dead" using assms(3) by auto
  then show "0 < refs h k a"
    using sound_count_pos [OF S, of a] counts_soundD(1) [OF S assms(3)] assms(2) by simp
qed

subsection \<open>Held containers survive a cascade\<close>

definition elems :: "heap \<Rightarrow> int \<Rightarrow> int list option" where
  "elems h a = (case cell_at h a of ListCell l \<Rightarrow> Some (values8 l) | _ \<Rightarrow> None)"

definition entries :: "heap \<Rightarrow> int \<Rightarrow> (map_key \<Rightarrow> int option) option" where
  "entries h a = (case cell_at h a of MapCell m \<Rightarrow> Some (contents m) | _ \<Rightarrow> None)"

definition elements :: "heap \<Rightarrow> int \<Rightarrow> set_element set option" where
  "elements h a = (case cell_at h a of SetCell s \<Rightarrow> Some (set (members s)) | _ \<Rightarrow> None)"

lemma elems_Some: "elems h a = Some xs \<longleftrightarrow> (\<exists>l. cell_at h a = ListCell l \<and> values8 l = xs)"
  by (auto simp: elems_def split: cell.splits)

lemma same_content_views:
  "same_content (cell_at h a) (cell_at g b) \<Longrightarrow>
     elems g b = elems h a \<and> entries g b = entries h a \<and> elements g b = elements h a"
  by (cases "cell_at h a") (auto simp: same_content_iff elems_def entries_def elements_def)

lemma run_release_views:
  assumes "counts_sound E [] (run_release w h)" and "0 < E b"
  shows "elems (run_release w h) b = elems h b" "entries (run_release w h) b = entries h b"
  using same_content_views [OF run_release_owned [OF assms]] by simp_all

lemma retain_views [simp]:
  "elems (retain_element t v h) b = elems h b" "entries (retain_element t v h) b = entries h b"
proof -
  obtain n where "cell_at (retain_element t v h) b = with_count n (cell_at h b)" by (rule retain_same)
  then have "same_content (cell_at h b) (cell_at (retain_element t v h) b)" by simp
  then show "elems (retain_element t v h) b = elems h b" "entries (retain_element t v h) b = entries h b"
    using same_content_views by blast+
qed

lemma list_mut_elems:
  "elems (list_mut a f h) b = (if b = a then map_option (\<lambda>l. values8 (f l)) (list_ref h a) else elems h b)"
  using cell_at_set [of h a] by (cases "cell_at h a") (auto simp: list_mut_def elems_def list_ref_def)

lemma map_mut_entries:
  "entries (map_mut a f h) b = (if b = a then map_option (\<lambda>m. contents (f m)) (map_ref h a) else entries h b)"
  using cell_at_set [of h a] by (cases "cell_at h a") (auto simp: map_mut_def entries_def map_ref_def)

lemma set_mut_elements:
  "elements (set_mut a f h) b = (if b = a then map_option (\<lambda>s. set (members (f s))) (set_ref h a) else elements h b)"
  using cell_at_set [of h a] by (cases "cell_at h a") (auto simp: set_mut_def elements_def set_ref_def)

lemma displaced_run: "\<exists>w. release_displaced t d h = run_release w h"
proof (cases d)
  case None
  then show ?thesis by (intro exI [of _ "[]"]) (simp add: release_displaced_def)
next
  case (Some r)
  then show ?thesis
    by (intro exI [of _ "[Drop t r]"]) (simp only: release_displaced_def release_element_def option.case)
qed

lemma displaced_elems:
  assumes "counts_sound E [] (release_displaced t d h)" and "0 < E b" and "elems h b = Some xs"
  shows "elems (release_displaced t d h) b = Some xs"
  using assms displaced_run [of t d h] run_release_views(1) by metis

lemma retain_values:
  "elems h a = Some xs \<Longrightarrow> \<exists>l. list_ref (retain_element t v h) a = Some l \<and> values8 l = xs"
proof -
  assume "elems h a = Some xs"
  then have "elems (retain_element t v h) a = Some xs" by simp
  then show ?thesis unfolding elems_Some list_ref_Some by blast
qed

subsection \<open>Lists as sequences\<close>

text \<open>What a list answers, and the bound test every indexed access makes.\<close>

lemma list_answers:
  assumes "list_ref h a = Some l" and "values8 l = xs"
  shows "pith_list_len a h = int (length xs)"
    and "list_first a h = (if xs = [] then None else Some (hd xs))"
    and "list_last a h = (if xs = [] then None else Some (last xs))"
    and "pith_list_get_opt a index h = (if 0 \<le> index \<and> nat index < length xs then Some (xs ! nat index) else None)"
    and "pith_list_get_value a index h = (if 0 \<le> index \<and> nat index < length xs then xs ! nat index else 0)"
    and "pith_list_get_value_unchecked a index h = (if 0 \<le> index \<and> nat index < length xs then xs ! nat index else 0)"
    and "pith_list_get_value_strict a index h =
      (if 0 \<le> index \<and> nat index < length xs then Inr (xs ! nat index)
       else Inl (IndexOutOfBounds index (int (length xs))))"
    and "strictly a index store h =
      (if 0 \<le> index \<and> nat index < length xs then Inr (store h)
       else Inl (IndexOutOfBounds index (int (length xs))))"
    and "checked a index store h =
      (if 0 \<le> index \<and> nat index < length xs then (1, store h) else (0, h))"
  using assms
  by (auto simp: pith_list_len_def list_first_def list_last_def hd_conv_nth last_conv_nth
      pith_list_get_opt_def pith_list_get_value_def pith_list_get_value_unchecked_def
      pith_list_get_value_strict_def strictly_def check_store_index_def checked_def
      store_index_in_bounds_def)

text \<open>
  C23. A list held by the program behaves as a sequence: the length, the first and the last
  element and the four indexed reads are those of the sequence, each with its own answer outside
  the bounds; a push appends, an insert clamps its index to the ends, a set writes inside the
  bounds, and outside them does nothing, answers 0 or ends the process, by its form; a removal
  closes the gap and reports whether it did, a pop gives the last element, a clear empties and
  the two reversals reverse, whatever the releases on the way free. The owned, scalar and
  kind-carrying forms of push, insert and set are not in the statement.
\<close>

theorem lists_are_sequences:
  fixes E :: "int \<Rightarrow> nat" and h :: heap and a v index :: int and xs :: "int list"
  assumes "reachable program_start program_call (E, h)" and "elems h a = Some xs" and "0 < E a"
    and "\<And>l. list_ref h a = Some l \<Longrightarrow> value_of_kind h (type_tag l) v"
  defines "i \<equiv> min (nat (max index 0)) (length xs)"
  shows "elems (pith_list_push_value a v h) a = Some (xs @ [v]) \<and>
    elems (pith_list_insert_value a index v h) a = Some (take i xs @ v # drop i xs) \<and>
    elems (pith_list_set_value a index v h) a =
      Some (if 0 \<le> index \<and> nat index < length xs then xs[nat index := v] else xs) \<and>
    elems (snd (pith_list_remove_value a index h)) a =
      Some (if 0 \<le> index \<and> nat index < length xs then take (nat index) xs @ drop (Suc (nat index)) xs else xs) \<and>
    (fst (pith_list_remove_value a index h) = 1 \<longleftrightarrow> 0 \<le> index \<and> nat index < length xs) \<and>
    fst (pith_list_pop a h) = (if xs = [] then None else Some (last xs)) \<and>
    elems (snd (pith_list_pop a h)) a = Some (butlast xs) \<and>
    elems (pith_list_clear_value a h) a = Some [] \<and>
    elems (pith_list_reverse_value a h) a = Some (rev xs) \<and>
    elems (pith_list_reverse a h) a = Some (rev xs) \<and>
    pith_list_len a h = int (length xs) \<and>
    list_first a h = (if xs = [] then None else Some (hd xs)) \<and>
    list_last a h = (if xs = [] then None else Some (last xs)) \<and>
    pith_list_get_opt a index h =
      (if 0 \<le> index \<and> nat index < length xs then Some (xs ! nat index) else None) \<and>
    pith_list_get_value a index h = (if 0 \<le> index \<and> nat index < length xs then xs ! nat index else 0) \<and>
    pith_list_get_value_unchecked a index h =
      (if 0 \<le> index \<and> nat index < length xs then xs ! nat index else 0) \<and>
    pith_list_get_value_strict a index h =
      (if 0 \<le> index \<and> nat index < length xs then Inr (xs ! nat index)
       else Inl (IndexOutOfBounds index (int (length xs)))) \<and>
    map_sum id (\<lambda>h'. elems h' a) (pith_list_set_value_strict a index v h) =
      (if 0 \<le> index \<and> nat index < length xs then Inr (Some (xs[nat index := v]))
       else Inl (IndexOutOfBounds index (int (length xs)))) \<and>
    map_prod id (\<lambda>h'. elems h' a) (pith_list_set_value_checked a index v h) =
      (if 0 \<le> index \<and> nat index < length xs then (1, Some (xs[nat index := v])) else (0, Some xs))"
proof -
  note S = reachable_keeps(1) [OF assms(1)]
  obtain l where at: "cell_at h a = ListCell l" and xs: "values8 l = xs"
    using assms(2) by (auto simp: elems_Some)
  have lr: "list_ref h a = Some l" using at by (simp add: list_ref_Some)
  have v: "value_of_kind h (type_tag l) v" by (rule assms(4) [OF lr])
  obtain l' where l': "list_ref (retain_element (type_tag l) v h) a = Some l'" "values8 l' = xs"
    using retain_values [OF assms(2)] by blast
  have "elems (pith_list_push_value a v h) a = Some (xs @ [v])"
    using lr l' by (simp add: pith_list_push_value_def push_value_inner_def list_mut_elems push_value_def)
  moreover have "elems (pith_list_insert_value a index v h) a = Some (take i xs @ v # drop i xs)"
    using lr l' by (simp add: pith_list_insert_value_def insert_value_inner_def list_mut_elems
        insert_value_at_def Let_def i_def)
  moreover have set: "elems (pith_list_set_value a index v h) a =
      Some (if 0 \<le> index \<and> nat index < length xs then xs[nat index := v] else xs)"
  proof (cases "inside index l")
    case True
    have "elems (list_mut a (set_value (nat index) v) (retain_element (type_tag l) v h)) a = Some (xs[nat index := v])"
      using True l' xs by (simp add: list_mut_elems set_value_def inside_def)
    then show ?thesis
      using displaced_elems [where E = E and b = a, OF _ assms(3)] set_sound [OF S at v, of index] True lr xs
      by (simp add: pith_list_set_value_def set_value_inner_def Let_def inside_def)
  next
    case False
    then show ?thesis using lr xs assms(2) by (auto simp: pith_list_set_value_def set_value_inner_def inside_def)
  qed
  moreover have "elems (snd (pith_list_remove_value a index h)) a =
      Some (if 0 \<le> index \<and> nat index < length xs then take (nat index) xs @ drop (Suc (nat index)) xs else xs)"
  proof (cases "inside index l")
    case True
    have "elems (list_mut a (remove_at (nat index)) h) a = Some (take (nat index) xs @ drop (Suc (nat index)) xs)"
      using True lr xs by (simp add: list_mut_elems remove_at_def inside_def)
    then show ?thesis
      using displaced_elems [where E = E and b = a, OF _ assms(3)] remove_sound [OF S, of a index] True lr xs
      by (auto simp: pith_list_remove_value_def Let_def inside_def)
  next
    case False
    then show ?thesis using lr xs assms(2) by (auto simp: pith_list_remove_value_def inside_def)
  qed
  moreover have "fst (pith_list_remove_value a index h) = 1 \<longleftrightarrow> 0 \<le> index \<and> nat index < length xs"
    using lr xs by (auto simp: pith_list_remove_value_def Let_def)
  moreover have "fst (pith_list_pop a h) = (if xs = [] then None else Some (last xs))"
    "elems (snd (pith_list_pop a h)) a = Some (butlast xs)"
    using lr xs assms(2) by (auto simp: pith_list_pop_def list_mut_elems)
  moreover have "elems (pith_list_clear_value a h) a = Some []"
  proof -
    have "elems (list_mut a clear_values h) a = Some []" using lr by (simp add: list_mut_elems clear_values_def)
    then show ?thesis
      using clear_list_sound [OF S at assms(3)] run_release_views(1) [of E _ _ a] assms(3) by metis
  qed
  moreover have "elems (pith_list_reverse_value a h) a = Some (rev xs)"
    using lr xs by (simp add: pith_list_reverse_value_def list_mut_elems reverse_swaps_eq)
  moreover have "elems (pith_list_reverse a h) a = Some (rev xs)"
    using lr xs by (simp add: pith_list_reverse_def list_mut_elems)
  moreover have "map_sum id (\<lambda>h'. elems h' a) (pith_list_set_value_strict a index v h) =
      (if 0 \<le> index \<and> nat index < length xs then Inr (Some (xs[nat index := v]))
       else Inl (IndexOutOfBounds index (int (length xs))))"
    "map_prod id (\<lambda>h'. elems h' a) (pith_list_set_value_checked a index v h) =
      (if 0 \<le> index \<and> nat index < length xs then (1, Some (xs[nat index := v])) else (0, Some xs))"
    using set assms(2) by (simp_all add: list_answers [OF lr xs] pith_list_set_value_strict_def
        pith_list_set_value_checked_def pith_list_set_value_def split: if_splits)
  moreover note list_answers(1-3) [OF lr xs] list_answers(4-7) [OF lr xs, of index]
  ultimately show ?thesis by blast
qed

subsection \<open>Maps as finite maps\<close>

lemma entries_insert_keyed:
  assumes S: "counts_sound E [] (insert_keyed p a m k v takes h)" and held: "0 < E a"
    and at: "cell_at h a = MapCell m" and ok: "map_ok m" and none: "int_values8 m = None"
    and p: "table_order p (map_key_from k) (data m)" and fl: "flavor_of (map_key_from k) = key_type m"
  shows "entries (insert_keyed p a m k v takes h) a = Some ((contents m)(map_key_from k \<mapsto> v))"
proof -
  let ?h = "if takes then h else retain_value m v h"
  obtain n where "cell_at (retain_element (val_tag m) v h) a = with_count n (cell_at h a)" by (rule retain_same)
  then have "\<exists>n. cell_at ?h a = MapCell (m\<lparr>map_rc := n\<rparr>)"
    using at by (cases takes) (auto simp: retain_value_eq intro: exI [of _ "map_rc m"])
  then obtain n where n: "map_ref ?h a = Some (m\<lparr>map_rc := n\<rparr>)" by (auto simp: map_ref_Some)
  have "contents (snd (map_insert p k v (m\<lparr>map_rc := n\<rparr>))) = (contents m)(map_key_from k \<mapsto> v)"
    using map_insert_ok(2) [of "m\<lparr>map_rc := n\<rparr>" p k v] ok none p fl by simp
  then have "entries (map_mut a (\<lambda>m. snd (map_insert p k v m)) ?h) a = Some ((contents m)(map_key_from k \<mapsto> v))"
    using n by (simp add: map_mut_entries)
  then show ?thesis
    using run_release_views(2) [OF S [unfolded insert_keyed_def Let_def displace_run] held]
    by (simp add: insert_keyed_def Let_def displace_run)
qed

lemma entries_remove_keyed:
  assumes S: "counts_sound E [] (remove_keyed a m k h)" and held: "0 < E a"
    and at: "cell_at h a = MapCell m" and ok: "map_ok m" and none: "int_values8 m = None"
  shows "entries (remove_keyed a m k h) a = Some ((contents m)(map_key_from k := None))"
proof -
  have "entries (map_mut a (\<lambda>m. snd (map_remove k m)) h) a = Some ((contents m)(map_key_from k := None))"
    using map_remove_ok(2) [OF ok none] at by (simp add: map_mut_entries map_ref_Some [THEN iffD2])
  then show ?thesis
    using run_release_views(2) [OF S [unfolded remove_keyed_def displace_run] held] by (simp add: remove_keyed_def displace_run)
qed

lemma take_keyed_eq:
  assumes at: "cell_at h a = MapCell m" and ok: "map_ok m" and none: "int_values8 m = None"
  shows "fst (take_keyed a m k h) = (case contents m (map_key_from k) of None \<Rightarrow> 0 | Some w \<Rightarrow> w)"
    and "entries (snd (take_keyed a m k h)) a = Some ((contents m)(map_key_from k := None))"
  using map_remove_ok(2,3) [OF ok none] at by (simp_all add: take_keyed_def map_mut_entries map_ref_Some [THEN iffD2])

lemma entries_clear:
  assumes S: "counts_sound E [] h" and at: "cell_at h a = MapCell m" and ok: "map_ok m" and held: "0 < E a"
  shows "entries (pith_map_clear_handle a h) a = Some Map.empty"
proof -
  have "entries (map_mut a map_clear h) a = Some Map.empty"
    using map_clear_ok(2) [OF ok] at by (simp add: map_mut_entries map_ref_Some [THEN iffD2])
  then show ?thesis
    using map_clear_sound [OF S at ok held] run_release_views(2) [of E _ _ a] held by metis
qed

text \<open>
  C21. A string-keyed map held by the program behaves as a finite map: an insert binds the key, a
  removal and a take unbind it, a take and the plain lookup give the bound value or 0, the
  membership test and the length are those of the domain, and a clear empties it. None of them
  ends the process.
\<close>

theorem string_maps_are_finite_maps:
  assumes "reachable program_start program_call (E, h)" and "0 < E a"
    and "map_ref h a = Some m" and "key_type m = StringKeys"
    and "table_order p (StringKey s) (data m)" and "value_of_kind h (val_tag m) v"
  shows "map_sum id (\<lambda>h'. entries h' a) (pith_map_insert_cstr p a (Some s) v h) =
      Inr (Some ((contents m)(StringKey s \<mapsto> v))) \<and>
    map_sum id (\<lambda>h'. entries h' a) (pith_map_remove_cstr a (Some s) h) =
      Inr (Some ((contents m)(StringKey s := None))) \<and>
    map_sum id (\<lambda>(w, h'). (w, entries h' a)) (pith_map_take a s h) =
      Inr (case contents m (StringKey s) of None \<Rightarrow> 0 | Some w \<Rightarrow> w, Some ((contents m)(StringKey s := None))) \<and>
    pith_map_get_cstr a (Some s) h = Inr (case contents m (StringKey s) of None \<Rightarrow> 0 | Some w \<Rightarrow> w) \<and>
    pith_map_contains_cstr a (Some s) h = Inr (if StringKey s \<in> dom (contents m) then 1 else 0) \<and>
    pith_map_len a h = int (card (dom (contents m))) \<and>
    entries (pith_map_clear_handle a h) a = Some Map.empty"
proof -
  note S = reachable_keeps(1) [OF assms(1)] and T = reachable_keeps(2) [OF assms(1)]
  have at: "cell_at h a = MapCell m" using assms(3) by (simp add: map_ref_Some)
  note ok = typed_map [OF T at]
  have none: "int_values8 m = None" using no_ints [OF ok] assms(4) by simp
  have key: "map_key_from (StrRef s) = StringKey s" by (simp add: map_key_from_def)
  have ins: "entries (insert_keyed p a m (StrRef s) v False h) a = Some ((contents m)(StringKey s \<mapsto> v))"
    using entries_insert_keyed [OF insert_borrowed_keyed [OF S at assms(6)] assms(2) at ok none, of p "StrRef s"]
      assms(4,5) key by simp
  have rem: "entries (remove_keyed a m (StrRef s) h) a = Some ((contents m)(StringKey s := None))"
    using entries_remove_keyed [OF remove_sound_keyed [OF S at map_okD(1) [OF ok]] assms(2) at ok none, of "StrRef s"] key by simp
  have got: "table_get (StrRef s) (data m) = contents m (StringKey s)"
    using none by (simp add: table_get_map_of key contents_def)
  note flavor = with_flavor_def flavor_check [OF assms(4)] assms(3)
  have "map_sum id (\<lambda>h'. entries h' a) (pith_map_insert_cstr p a (Some s) v h) = Inr (Some ((contents m)(StringKey s \<mapsto> v)))"
    using ins by (simp add: pith_map_insert_cstr_def insert_cstr_inner_def flavor)
  moreover have "map_sum id (\<lambda>h'. entries h' a) (pith_map_remove_cstr a (Some s) h) = Inr (Some ((contents m)(StringKey s := None)))"
    using rem by (simp add: pith_map_remove_cstr_def flavor)
  moreover have "map_sum id (\<lambda>(w, h'). (w, entries h' a)) (pith_map_take a s h) =
      Inr (case contents m (StringKey s) of None \<Rightarrow> 0 | Some w \<Rightarrow> w, Some ((contents m)(StringKey s := None)))"
    using take_keyed_eq [OF at ok none, of "StrRef s"] key by (simp add: pith_map_take_def flavor case_prod_unfold)
  moreover have "pith_map_get_cstr a (Some s) h = Inr (case contents m (StringKey s) of None \<Rightarrow> 0 | Some w \<Rightarrow> w)"
    using got by (simp add: pith_map_get_cstr_def flavor split: option.split)
  moreover have "pith_map_contains_cstr a (Some s) h = Inr (if StringKey s \<in> dom (contents m) then 1 else 0)"
    using got by (auto simp: pith_map_contains_cstr_def flavor contains_key_def)
  moreover have "pith_map_len a h = int (card (dom (contents m)))"
    using map_len_card [OF ok] assms(3) by (simp add: pith_map_len_def)
  ultimately show ?thesis using entries_clear [OF S at ok assms(2)] by blast
qed

text \<open>
  An integer-keyed map held by the program behaves as the same finite map on either of its
  two representations, the packed table of scalars and the general table of counted values.
\<close>

theorem int_maps_are_finite_maps:
  assumes "reachable program_start program_call (E, h)" and "0 < E a"
    and "map_ref h a = Some m" and "key_type m = IntKeys"
    and "int_table_order p n m" and "value_of_kind h (val_tag m) v"
  shows "entries (pith_map_insert_ikey p a n v h) a = Some ((contents m)(IntKey n \<mapsto> v)) \<and>
    entries (pith_map_remove_ikey a n h) a = Some ((contents m)(IntKey n := None)) \<and>
    fst (pith_map_take_ikey a n h) = (case contents m (IntKey n) of None \<Rightarrow> 0 | Some w \<Rightarrow> w) \<and>
    entries (snd (pith_map_take_ikey a n h)) a = Some ((contents m)(IntKey n := None)) \<and>
    pith_map_get_ikey a n h = (case contents m (IntKey n) of None \<Rightarrow> 0 | Some w \<Rightarrow> w) \<and>
    pith_map_contains_ikey a n h = (if IntKey n \<in> dom (contents m) then 1 else 0) \<and>
    pith_map_len a h = int (card (dom (contents m)))"
proof -
  note S = reachable_keeps(1) [OF assms(1)] and T = reachable_keeps(2) [OF assms(1)]
  have at: "cell_at h a = MapCell m" using assms(3) by (simp add: map_ref_Some)
  note ok = typed_map [OF T at]
  have key: "map_key_from (IntRef n) = IntKey n" by (simp add: map_key_from_def)
  have len: "pith_map_len a h = int (card (dom (contents m)))"
    using map_len_card [OF ok] assms(3) by (simp add: pith_map_len_def)
  show ?thesis
  proof (cases "int_values8 m")
    case None
    have "entries (insert_keyed p a m (IntRef n) v False h) a = Some ((contents m)(IntKey n \<mapsto> v))"
      using entries_insert_keyed [OF insert_borrowed_keyed [OF S at assms(6)] assms(2) at ok None, of p "IntRef n"]
        assms(4,5) key None by (simp add: int_table_order_def)
    moreover have "entries (remove_keyed a m (IntRef n) h) a = Some ((contents m)(IntKey n := None))"
      using entries_remove_keyed [OF remove_sound_keyed [OF S at map_okD(1) [OF ok]] assms(2) at ok None, of "IntRef n"] key by simp
    moreover have "table_get (IntRef n) (data m) = contents m (IntKey n)"
      using None by (simp add: table_get_map_of key contents_def)
    ultimately show ?thesis
      using None assms(3) len take_keyed_eq [OF at ok None, of "IntRef n"] key
      by (auto simp: pith_map_insert_ikey_def insert_ikey_inner_def pith_map_remove_ikey_def pith_map_take_ikey_def
          pith_map_get_ikey_def pith_map_contains_ikey_def uses_int_values8_def contains_key_def)
  next
    case (Some d)
    have p: "table_order p n d" using assms(5) Some by (simp add: int_table_order_def)
    have "get_int_value n m = contents m (IntKey n)" "contains_int_key n m \<longleftrightarrow> contents m (IntKey n) \<noteq> None"
      using Some by (simp_all add: get_int_value_def contains_int_key_def contents_def)
    then show ?thesis
      using Some assms(3) len insert_int_ok(2) [OF ok Some p, of v] remove_int_ok(2,3) [OF ok Some, of n]
      by (auto simp: pith_map_insert_ikey_def insert_ikey_inner_def pith_map_remove_ikey_def pith_map_take_ikey_def
          pith_map_get_ikey_def pith_map_contains_ikey_def uses_int_values8_def map_mut_entries)
  qed
qed

text \<open>
  A strict read gives the bound value and ends the process exactly when the key is missing,
  whichever flavor and representation the map has; a fused update does so as well, refuses a map
  of counted values, and otherwise rebinds the key to the wrapped sum; and a string entry point on
  a map of bytes keys ends the process instead of missing the entry.
\<close>

theorem strict_reads_end_on_missing_keys:
  assumes "reachable program_start program_call (E, h)" and "map_ref h a = Some m"
  shows "(key_type m = StringKeys \<longrightarrow>
      pith_map_get_cstr_strict a (Some s) h =
        (case contents m (StringKey s) of None \<Rightarrow> Inl (KeyNotFound (StringKey s)) | Some w \<Rightarrow> Inr w) \<and>
      map_sum id (\<lambda>(w, h'). (w, entries h' a)) (pith_map_upsert_add_cstr a (Some s) delta h) =
        (if val_tag m \<noteq> PrimitiveTag then Inl CountedUpdate
         else case contents m (StringKey s) of
           None \<Rightarrow> Inl (KeyNotFound (StringKey s))
         | Some w \<Rightarrow> Inr (wrapping_add w delta, Some ((contents m)(StringKey s \<mapsto> wrapping_add w delta))))) \<and>
    (key_type m = IntKeys \<longrightarrow>
      pith_map_get_ikey_strict a n h =
        (case contents m (IntKey n) of None \<Rightarrow> Inl (KeyNotFound (IntKey n)) | Some w \<Rightarrow> Inr w)) \<and>
    (key_type m = BytesKeys \<longrightarrow>
      pith_map_get_cstr_strict a (Some s) h = Inl (WrongFlavor BytesKeys StringKeys))"
proof (intro conjI impI)
  have at: "cell_at h a = MapCell m" using assms(2) by (simp add: map_ref_Some)
  note ok = typed_map [OF reachable_keeps(2) [OF assms(1)] at]
  have key: "map_key_from (StrRef s) = StringKey s" "map_key_from (IntRef n) = IntKey n"
    by (simp_all add: map_key_from_def)
  {
    assume kt: "key_type m = StringKeys"
    have none: "int_values8 m = None" using no_ints [OF ok] kt by simp
    note strict = with_flavor_strict_def require_key_flavor_def assms(2) kt
    show "pith_map_get_cstr_strict a (Some s) h =
        (case contents m (StringKey s) of None \<Rightarrow> Inl (KeyNotFound (StringKey s)) | Some w \<Rightarrow> Inr w)"
      using none by (simp add: pith_map_get_cstr_strict_def strict table_get_map_of key contents_def split: option.split)
    have up: "upsert_add (StrRef s) delta m =
        (map_option (\<lambda>w. wrapping_add w delta) (contents m (StringKey s)), snd (upsert_add (StrRef s) delta m))"
      using upsert_ok(2) [OF ok, of "StrRef s" delta] kt by (simp add: key prod_eq_iff)
    show "map_sum id (\<lambda>(w, h'). (w, entries h' a)) (pith_map_upsert_add_cstr a (Some s) delta h) =
        (if val_tag m \<noteq> PrimitiveTag then Inl CountedUpdate
         else case contents m (StringKey s) of
           None \<Rightarrow> Inl (KeyNotFound (StringKey s))
         | Some w \<Rightarrow> Inr (wrapping_add w delta, Some ((contents m)(StringKey s \<mapsto> wrapping_add w delta))))"
    proof (cases "contents m (StringKey s)")
      case None
      then show ?thesis
        using up by (cases "upsert_add (StrRef s) delta m")
          (simp add: pith_map_upsert_add_cstr_def strict upsert_add_keyed_def val_is_heap_def key(1))
    next
      case (Some w)
      then show ?thesis
        using up upsert_ok(3) [OF ok, of "StrRef s" delta] kt key(1)
        by (cases "upsert_add (StrRef s) delta m")
          (simp add: pith_map_upsert_add_cstr_def strict upsert_add_keyed_def val_is_heap_def key(1) map_mut_entries)
    qed
  }
  show "pith_map_get_ikey_strict a n h = (case contents m (IntKey n) of None \<Rightarrow> Inl (KeyNotFound (IntKey n)) | Some w \<Rightarrow> Inr w)"
    using assms(2) by (cases "int_values8 m")
      (simp_all add: pith_map_get_ikey_strict_def uses_int_values8_def get_int_value_def table_get_map_of key contents_def split: option.split)
  show "key_type m = BytesKeys \<Longrightarrow> pith_map_get_cstr_strict a (Some s) h = Inl (WrongFlavor BytesKeys StringKeys)"
    using assms(2) by (simp add: pith_map_get_cstr_strict_def with_flavor_strict_def require_key_flavor_def)
qed

subsection \<open>Sets as sets\<close>

text \<open>
  A set of integers behaves as the finite set it stands for: an add inserts and reports
  whether the element was new, a removal deletes, the membership test and the length are those
  of the set, and a clear empties it.
\<close>

theorem int_sets_are_sets:
  assumes "reachable program_start program_call (E, h)" and "set_ref h a = Some s"
    and "elem_type s = IntElems" and "set_order p s"
  shows "fst (pith_set_add_int_handle p a n h) = (if IntElem n \<in> set (members s) then 0 else 1) \<and>
    elements (snd (pith_set_add_int_handle p a n h)) a = Some (insert (IntElem n) (set (members s))) \<and>
    elements (pith_set_remove_int_handle a n h) a = Some (set (members s) - {IntElem n}) \<and>
    pith_set_contains_int_handle a n h = (if IntElem n \<in> set (members s) then 1 else 0) \<and>
    pith_set_len_handle a h = int (card (set (members s))) \<and>
    elements (pith_set_clear_handle a h) a = Some {}"
proof -
  have at: "cell_at h a = SetCell s" using assms(2) by (simp add: set_ref_Some)
  note ok = typed_set [OF reachable_keeps(2) [OF assms(1)] at]
  have elem: "set_element_from (IntElemRef n) = IntElem n" by (simp add: set_element_from_def)
  have "pith_set_len_handle a h = int (card (set (members s)))"
    using ok assms(2) by (simp add: pith_set_len_handle_def set_ok_def distinct_card)
  then show ?thesis
    using assms(2,3) set_insert_ok(2,3) [OF ok assms(4), of "IntElemRef n"] set_remove_ok(2) [OF ok, of "IntElemRef n"] elem
    by (simp add: pith_set_add_int_handle_def pith_set_remove_int_handle_def pith_set_contains_int_handle_def
        pith_set_clear_handle_def set_mut_elements flag_def set_contains_iff Sets.set_clear_def)
qed

subsection \<open>Types\<close>

text \<open>
  C17. Containers stay typed. In every state a program reaches, every map has one entry a key and
  only keys of the flavor it was built for, the packed table belongs to an integer-keyed map of
  scalars whose general table is empty, and every set has no element twice and only elements of
  its flavor.
\<close>

theorem containers_stay_typed:
  assumes "reachable program_start program_call (E, h)"
  shows "(\<forall>a m. map_ref h a = Some m \<longrightarrow> map_ok m) \<and> (\<forall>a s. set_ref h a = Some s \<longrightarrow> set_ok s)"
  using typed_map [OF reachable_keeps(2) [OF assms]] typed_set [OF reachable_keeps(2) [OF assms]]
  by (simp add: map_ref_Some set_ref_Some)

subsection \<open>Runs\<close>

text \<open>Short programs that reach states with containers in them.\<close>

named_theorems computed \<open>the operations, for evaluation on a concrete heap\<close>

lemmas [computed] = pith_list_new_def pith_list_push_value_def pith_list_push_value_owned_def push_value_inner_def
  list_ref_def cell_at_def retain_element_def list_mut_def set_cell_def push_value_def element_tag_from_code_def
  pith_map_new_tagged_def map_new_def key_type_from_code_def map_ref_def map_mut_def value_of_kind_def
  pith_map_insert_cstr_owned_def insert_cstr_inner_def with_flavor_def require_key_flavor_def insert_keyed_def
  map_insert_def table_get_def table_put_def reorder_def displace_def map_key_from_def
  pith_map_insert_ikey_def insert_ikey_inner_def uses_int_values8_def insert_int_value_def
  pith_set_new_handle_def elem_type_from_code_def Sets.set_new_def set_ref_def set_mut_def pith_set_add_int_handle_def
  set_insert_def set_contains_def set_element_from_def flag_def table_order_def set_order_def int_table_order_def

abbreviation no_owner :: "int \<Rightarrow> nat" where
  "no_owner \<equiv> \<lambda>_. 0"

lemma start_reachable: "reachable program_start program_call (no_owner, [])"
  by (rule reachable_init) (simp add: program_start_def)

definition two_numbers :: heap where
  "two_numbers = [ListCell \<lparr>rc = 1, type_tag = PrimitiveTag, values8 = [5, 6]\<rparr>]"

lemma two_numbers_reachable: "reachable program_start program_call (no_owner(1 := 1), two_numbers)"
proof -
  let ?h = "\<lambda>xs. [ListCell \<lparr>rc = 1, type_tag = PrimitiveTag, values8 = xs\<rparr>]"
  have push: "program_call (no_owner(1 := 1), ?h xs) (no_owner(1 := 1), ?h (xs @ [v]))" for xs v
    using program_call.list_push [of "?h xs" 1 _ v "no_owner(1 := 1)"] by (simp add: computed)
  have "reachable program_start program_call (no_owner(1 := 1), ?h [])"
    by (rule reachable_step [OF start_reachable])
      (use program_call.list_new [of no_owner "[]" 0] in \<open>simp add: computed\<close>)
  from reachable_step [OF reachable_step [OF this push [of "[]" 5]] push [of "[] @ [5]" 6]]
  show ?thesis by (simp add: two_numbers_def)
qed

theorem lists_are_sequences_witness:
  "elems (pith_list_insert_value 1 9 7 two_numbers) 1 = Some [5, 6, 7]"
  using lists_are_sequences [OF two_numbers_reachable, where a = 1 and xs = "[5, 6]" and v = 7 and index = 9]
  by (simp add: two_numbers_def elems_def cell_at_def list_ref_def value_of_kind_def)

text \<open>A map from strings to strings with the key \<open>a\<close>, whose value only the map holds.\<close>

definition named_map :: map_impl where
  "named_map = \<lparr>map_rc = 1, key_type = StringKeys, val_tag = StringTag, data = [(StringKey [97], 2)], int_values8 = None\<rparr>"

definition named_heap :: heap where
  "named_heap = [MapCell named_map, StringCell 1 [98]]"

lemma named_heap_reachable: "reachable program_start program_call (no_owner(1 := 1), named_heap)"
proof -
  let ?E = "no_owner(1 := 1)"
  let ?m = "named_map\<lparr>data := []\<rparr>"
  have "reachable program_start program_call (?E, [MapCell ?m])"
    by (rule reachable_step [OF start_reachable])
      (use program_call.map_new [of no_owner "[]" 1 1] in \<open>simp add: computed named_map_def\<close>)
  then have "reachable program_start program_call (?E(2 := 1), [MapCell ?m, StringCell 1 [98]])"
    by (rule reachable_step) (use program_call.birth_string [of ?E "[MapCell ?m]" "[98]"] in simp)
  moreover have "owe ?E StringTag 2 = ?E(2 := 1)" by (simp add: owe_def)
  moreover have "program_call (owe ?E StringTag 2, [MapCell ?m, StringCell 1 [98]]) (?E, named_heap)"
    using program_call.map_insert_cstr_owned [of "[MapCell ?m, StringCell 1 [98]]" 1 ?m "[0]" "[97]" 2 named_heap ?E]
    by (simp add: computed named_map_def named_heap_def)
  ultimately show ?thesis using reachable_step by metis
qed

lemma named_heap_at: "map_ref named_heap 1 = Some named_map" "cell_at named_heap 2 = StringCell 1 [98]"
  by (simp_all add: named_heap_def map_ref_def cell_at_def)

theorem containers_own_what_they_hold_witness: "kind_of (cell_at named_heap 2) = Some StringTag"
proof -
  have "Drop StringTag 2 \<in> set (owned (cell_at named_heap 1))"
    using named_heap_at(1) by (simp add: map_ref_Some release_all_values_def named_map_def)
  then show ?thesis using containers_own_what_they_hold [OF named_heap_reachable] by fastforce
qed

theorem string_maps_are_finite_maps_witness:
  "pith_map_get_cstr 1 (Some [97]) named_heap = Inr 2 \<and> pith_map_len 1 named_heap = 1"
  using string_maps_are_finite_maps [OF named_heap_reachable _ named_heap_at(1), of "[0]" "[97]" 2]
  by (simp add: named_map_def contents_def table_order_def value_of_kind_def named_heap_at(2))

theorem strict_reads_end_on_missing_keys_witness:
  "pith_map_get_cstr_strict 1 (Some [99]) named_heap = Inl (KeyNotFound (StringKey [99]))"
  using strict_reads_end_on_missing_keys [OF named_heap_reachable named_heap_at(1), of "[99]" 0 0]
  by (simp add: named_map_def contents_def)

theorem containers_stay_typed_witness: "map_ok named_map"
  using containers_stay_typed [OF named_heap_reachable] named_heap_at(1) by blast

text \<open>A list that holds itself and is held by nobody.\<close>

definition self_cycle :: heap where
  "self_cycle = [ListCell \<lparr>rc = 1, type_tag = ListTag, values8 = [1]\<rparr>]"

theorem only_cycles_stay_witness: "Drop ListTag 1 \<in> set (owned (cell_at self_cycle 1))"
proof -
  let ?h = "[ListCell \<lparr>rc = 1, type_tag = ListTag, values8 = []\<rparr>]"
  have "reachable program_start program_call (no_owner(1 := 1), ?h)"
    by (rule reachable_step [OF start_reachable])
      (use program_call.list_new [of no_owner "[]" 2] in \<open>simp add: computed\<close>)
  moreover have "owe no_owner ListTag 1 = no_owner(1 := 1)" by (simp add: owe_def)
  moreover have "program_call (owe no_owner ListTag 1, ?h) (no_owner, self_cycle)"
    using program_call.list_push_owned [of ?h 1 _ 1 no_owner] by (simp add: computed self_cycle_def)
  ultimately have r: "reachable program_start program_call (no_owner, self_cycle)" using reachable_step by metis
  have at: "cell_at self_cycle a = (if a = 1 then ListCell \<lparr>rc = 1, type_tag = ListTag, values8 = [1]\<rparr> else Dead)" for a
    by (auto simp: self_cycle_def cell_at_def)
  obtain b where "Drop ListTag 1 \<in> set (owned (cell_at self_cycle b))"
    using only_cycles_stay [OF r, of 1 ListTag] by (auto simp: at)
  then show ?thesis by (auto simp: at split: if_splits)
qed

text \<open>A packed map and a set of integers.\<close>

definition counters :: map_impl where
  "counters = \<lparr>map_rc = 1, key_type = IntKeys, val_tag = PrimitiveTag, data = [], int_values8 = Some [(7, 1)]\<rparr>"

definition sevens :: set_impl where
  "sevens = \<lparr>set_rc = 1, elem_type = IntElems, members = [IntElem 7]\<rparr>"

lemma sevens_reachable:
  "reachable program_start program_call (no_owner(1 := 1, 2 := 1), [MapCell counters, SetCell sevens])"
proof -
  let ?m = "counters\<lparr>int_values8 := Some []\<rparr>" and ?s = "sevens\<lparr>members := []\<rparr>" and ?E = "no_owner(1 := 1)"
  have "reachable program_start program_call (?E, [MapCell ?m])"
    by (rule reachable_step [OF start_reachable])
      (use program_call.map_new [of no_owner "[]" 0 0] in \<open>simp add: computed counters_def\<close>)
  then have "reachable program_start program_call (?E, [MapCell counters])"
    by (rule reachable_step)
      (use program_call.map_insert_ikey [of "[MapCell ?m]" 1 ?m "[0]" 7 1 ?E] in \<open>simp add: computed counters_def\<close>)
  then have "reachable program_start program_call (?E(2 := 1), [MapCell counters, SetCell ?s])"
    by (rule reachable_step)
      (use program_call.set_new [of ?E "[MapCell counters]" 0] in \<open>simp add: computed sevens_def\<close>)
  then show ?thesis
    by (rule reachable_step)
      (use program_call.set_add_int [of "[MapCell counters, SetCell ?s]" 2 ?s "[0]" "?E(2 := 1)" 7] in
        \<open>simp add: computed sevens_def\<close>)
qed

theorem int_maps_are_finite_maps_witness:
  "entries (pith_map_insert_ikey [0] 1 7 3 [MapCell counters, SetCell sevens]) 1 =
     Some ((contents counters)(IntKey 7 \<mapsto> 3))"
  using int_maps_are_finite_maps [OF sevens_reachable, of 1 counters "[0]" 7 3]
  by (simp add: map_ref_def cell_at_def int_table_order_def table_order_def value_of_kind_def counters_def)

theorem int_sets_are_sets_witness:
  "fst (pith_set_add_int_handle [0, 1] 2 7 [MapCell counters, SetCell sevens]) = 0"
  using int_sets_are_sets [OF sevens_reachable, of 2 sevens "[0, 1]" 7]
  by (simp add: set_ref_def cell_at_def set_order_def sevens_def)

end
