(* ===== verification/StopWorld.thy ===== *)
theory StopWorld
  imports Steps
begin

text \<open>
  The stop-the-world rendezvous of \<open>cycle.rs\<close>: the mutators' state words, the stop request,
  the gate, the native bracket and the stopper, each store, load and locked section being one
  step. The accesses are sequentially consistent, so an execution is an interleaving of them.
  A mutator is a pair of its registered state word and the point its code has reached;
  \<open>Mutating\<close> is the only point at which it may touch a reference count. The stop timeout is
  a choice: a failed scan is followed by another one or by the abandonment.
\<close>

datatype slot_state = RUNNING | NATIVE | PARKED_FOR_GC | EXITED

datatype point =
    Mutating
  | Joining       \<comment> \<open>registered by its own first gate or bracket, which it is in\<close>
  | InBracket     \<comment> \<open>inside a native bracket\<close>
  | LeftBracket   \<comment> \<open>\<open>exit_native\<close> has stored, and has yet to load the request\<close>
  | Parking       \<comment> \<open>saw the request, about to store that it is parked\<close>
  | AtGate        \<comment> \<open>about to take the gate and look at the request\<close>
  | Waiting       \<comment> \<open>on the condition variable\<close>
  | Leaving       \<comment> \<open>saw the request clear and dropped the gate, about to store\<close>
  | Stopper       \<comment> \<open>is itself the caller that stops the world\<close>
  | Gone

record mutator =
  word_of :: slot_state
  point_of :: point

text \<open>The calling thread of \<open>with_world_stopped\<close>, with its own slot when it has one. The
  lock \<open>STOPPER\<close> admits one at a time.\<close>

datatype phase =
    Away
  | Asking
  | Raising
  | Scanning nat
  | Missed        \<comment> \<open>a scan found a running mutator\<close>
  | Holding       \<comment> \<open>\<open>pith_cycle_stop_the_world\<close> has answered true\<close>
  | Restoring
  | Clearing
  | Returning

record world =
  mutators :: "mutator list"
  gc_stop :: bool
  phase :: phase
  own :: "nat option"
  preempt :: u8
  preempt_prior :: u8
  preempt_saved :: bool
  late :: "nat set"

text \<open>\<open>late\<close> is not in the code: it holds the mutators that were between their last look at
  the request and their store when the current request was made, and those they spawned since.\<close>

definition put :: "nat \<Rightarrow> slot_state \<Rightarrow> point \<Rightarrow> world \<Rightarrow> world" where
  "put t s p w = w\<lparr>mutators := (mutators w)[t := \<lparr>word_of = s, point_of = p\<rparr>]\<rparr>"

definition go :: "nat \<Rightarrow> point \<Rightarrow> world \<Rightarrow> world" where
  "go t p w = put t (word_of (mutators w ! t)) p w"

subsection \<open>The mutators\<close>

text \<open>\<open>register_new_slot\<close>: the first exited slot is taken over, or a new one is pushed.\<close>

fun first_exited :: "mutator list \<Rightarrow> nat" where
  "first_exited [] = 0"
| "first_exited (m # ms) = (if word_of m = EXITED then 0 else Suc (first_exited ms))"

definition register_new_slot :: "point \<Rightarrow> world \<Rightarrow> nat \<times> world" where
  "register_new_slot p w =
     (let i = first_exited (mutators w); m = \<lparr>word_of = RUNNING, point_of = p\<rparr> in
      if i < length (mutators w) then (i, w\<lparr>mutators := (mutators w)[i := m]\<rparr>)
      else (i, w\<lparr>mutators := mutators w @ [m]\<rparr>))"

definition mutator_slot_for_spawn :: "nat \<Rightarrow> world \<Rightarrow> world" where
  "mutator_slot_for_spawn parent w =
     (case register_new_slot Mutating w of
        (child, w') \<Rightarrow>
          w'\<lparr>late := (if parent \<in> late w then insert child (late w) else late w - {child})\<rparr>)"

definition mutator_slot_first_use :: "world \<Rightarrow> world" where
  "mutator_slot_first_use w = snd (register_new_slot Joining w)"

definition mutator_gate_slow :: "nat \<Rightarrow> world \<Rightarrow> world" where
  "mutator_gate_slow t w = go t (if gc_stop w then Parking else Mutating) w"

definition enter_native :: "nat \<Rightarrow> world \<Rightarrow> world" where
  "enter_native t w = put t NATIVE InBracket w"

definition exit_native_store :: "nat \<Rightarrow> world \<Rightarrow> world" where
  "exit_native_store t w = put t RUNNING LeftBracket w"

definition exit_native_check :: "nat \<Rightarrow> world \<Rightarrow> world" where
  "exit_native_check t w = go t (if gc_stop w then Parking else Mutating) w"

definition park_store :: "nat \<Rightarrow> world \<Rightarrow> world" where
  "park_store t w = put t PARKED_FOR_GC AtGate w"

text \<open>One turn of the loop under the gate: the wait gives the gate up in the same step in
  which it begins.\<close>

definition park_look :: "nat \<Rightarrow> world \<Rightarrow> world" where
  "park_look t w = go t (if gc_stop w then Waiting else Leaving) w"

definition park_return :: "nat \<Rightarrow> world \<Rightarrow> world" where
  "park_return t w = put t RUNNING Mutating w"

definition slot_owner_drop :: "nat \<Rightarrow> world \<Rightarrow> world" where
  "slot_owner_drop t w = put t EXITED Gone w"

subsection \<open>The stopper\<close>

definition stop_begin :: "nat option \<Rightarrow> world \<Rightarrow> world" where
  "stop_begin caller w =
     (case caller of None \<Rightarrow> w | Some t \<Rightarrow> put t NATIVE Stopper w)\<lparr>phase := Asking, own := caller\<rparr>"

definition stop_request :: "world \<Rightarrow> world" where
  "stop_request w =
     w\<lparr>gc_stop := True, phase := Raising,
       late := set (filter (\<lambda>t. point_of (mutators w ! t) = Leaving) [0..<length (mutators w)])\<rparr>"

definition raise_preempt :: "world \<Rightarrow> world" where
  "raise_preempt w =
     w\<lparr>preempt := 1, preempt_prior := preempt w, preempt_saved := True, phase := Scanning 0\<rparr>"

text \<open>\<open>world_is_stopped\<close> holds the registry's lock while it reads one word after the other.\<close>

definition scan_next :: "nat \<Rightarrow> world \<Rightarrow> world" where
  "scan_next i w =
     (if i < length (mutators w)
      then w\<lparr>phase := (if word_of (mutators w ! i) = RUNNING then Missed else Scanning (Suc i))\<rparr>
      else w\<lparr>phase := Holding\<rparr>)"

definition release_preempt :: "world \<Rightarrow> world" where
  "release_preempt w =
     (if preempt_saved w then w\<lparr>preempt := preempt_prior w, preempt_saved := False\<rparr> else w)
       \<lparr>phase := Clearing\<rparr>"

definition wake_parked :: "mutator \<Rightarrow> mutator" where
  "wake_parked m = (if point_of m = Waiting then m\<lparr>point_of := AtGate\<rparr> else m)"

definition release_clear :: "world \<Rightarrow> world" where
  "release_clear w =
     w\<lparr>gc_stop := False, mutators := map wake_parked (mutators w), phase := Returning\<rparr>"

definition release_own :: "world \<Rightarrow> world" where
  "release_own w =
     (case own w of None \<Rightarrow> w | Some t \<Rightarrow> put t RUNNING Mutating w)\<lparr>phase := Away, own := None\<rparr>"

subsection \<open>The interleaving\<close>

datatype move =
    Spawn nat | FirstUse | Gate nat | Enter nat | ExitStore nat | ExitCheck nat
  | ParkStore nat | ParkLook nat | Wake nat | ParkReturn nat | Exit nat
  | StopBegin "nat option" | StopRequest | RaisePreempt | ScanNext | Retry | Abandon | Resume
  | ReleasePreempt | ReleaseClear | ReleaseOwn | Monitor u8

definition at :: "point \<Rightarrow> nat \<Rightarrow> world \<Rightarrow> bool" where
  "at p t w \<longleftrightarrow> t < length (mutators w) \<and> point_of (mutators w ! t) = p"

definition scanning :: "world \<Rightarrow> bool" where
  "scanning w \<longleftrightarrow> (case phase w of Scanning _ \<Rightarrow> True | _ \<Rightarrow> False)"

text \<open>The next state of a move, when the thread that makes it has come to that point.
  A registration waits for a scan that holds the registry's lock.\<close>

fun perform :: "move \<Rightarrow> world \<Rightarrow> world option" where
  "perform (Spawn t) w =
     (if at Mutating t w \<and> \<not> scanning w then Some (mutator_slot_for_spawn t w) else None)"
| "perform FirstUse w = (if \<not> scanning w then Some (mutator_slot_first_use w) else None)"
| "perform (Gate t) w =
     (if at Mutating t w \<or> at Joining t w then Some (mutator_gate_slow t w) else None)"
| "perform (Enter t) w =
     (if at Mutating t w \<or> at Joining t w then Some (enter_native t w) else None)"
| "perform (ExitStore t) w = (if at InBracket t w then Some (exit_native_store t w) else None)"
| "perform (ExitCheck t) w = (if at LeftBracket t w then Some (exit_native_check t w) else None)"
| "perform (ParkStore t) w = (if at Parking t w then Some (park_store t w) else None)"
| "perform (ParkLook t) w = (if at AtGate t w then Some (park_look t w) else None)"
| "perform (Wake t) w = (if at Waiting t w then Some (go t AtGate w) else None)"
| "perform (ParkReturn t) w = (if at Leaving t w then Some (park_return t w) else None)"
| "perform (Exit t) w = (if at Mutating t w then Some (slot_owner_drop t w) else None)"
| "perform (StopBegin caller) w =
     (if phase w = Away \<and> (case caller of None \<Rightarrow> True | Some t \<Rightarrow> at Mutating t w)
      then Some (stop_begin caller w) else None)"
| "perform StopRequest w = (if phase w = Asking then Some (stop_request w) else None)"
| "perform RaisePreempt w = (if phase w = Raising then Some (raise_preempt w) else None)"
| "perform ScanNext w = (case phase w of Scanning i \<Rightarrow> Some (scan_next i w) | _ \<Rightarrow> None)"
| "perform Retry w = (if phase w = Missed then Some (w\<lparr>phase := Scanning 0\<rparr>) else None)"
| "perform Abandon w = (if phase w = Missed then Some (w\<lparr>phase := Restoring\<rparr>) else None)"
| "perform Resume w = (if phase w = Holding then Some (w\<lparr>phase := Restoring\<rparr>) else None)"
| "perform ReleasePreempt w = (if phase w = Restoring then Some (release_preempt w) else None)"
| "perform ReleaseClear w = (if phase w = Clearing then Some (release_clear w) else None)"
| "perform ReleaseOwn w = (if phase w = Returning then Some (release_own w) else None)"
| "perform (Monitor b) w = Some (w\<lparr>preempt := b\<rparr>)"

inductive world_step :: "world \<Rightarrow> world \<Rightarrow> bool" where
  moves: "perform m w = Some w' \<Longrightarrow> world_step w w'"

text \<open>\<open>register_main_mutator\<close>: the main thread's slot is there before the program runs.\<close>

definition world_start :: world where
  "world_start =
     \<lparr>mutators = [\<lparr>word_of = RUNNING, point_of = Mutating\<rparr>], gc_stop = False, phase = Away,
      own = None, preempt = 0, preempt_prior = 0, preempt_saved = False, late = {}\<rparr>"

abbreviation world_reached :: "world \<Rightarrow> bool" where
  "world_reached \<equiv> reachable (\<lambda>w. w = world_start) world_step"

subsection \<open>Which mutators a stopped world can hold\<close>

fun word_at :: "point \<Rightarrow> slot_state" where
  "word_at InBracket = NATIVE"
| "word_at Stopper = NATIVE"
| "word_at AtGate = PARKED_FOR_GC"
| "word_at Waiting = PARKED_FOR_GC"
| "word_at Leaving = PARKED_FOR_GC"
| "word_at Gone = EXITED"
| "word_at _ = RUNNING"

definition words_ok :: "world \<Rightarrow> bool" where
  "words_ok w \<longleftrightarrow>
     (\<forall>t < length (mutators w). word_of (mutators w ! t) = word_at (point_of (mutators w ! t)))"

definition requested :: "phase \<Rightarrow> bool" where
  "requested p \<longleftrightarrow> p \<noteq> Away \<and> p \<noteq> Asking \<and> p \<noteq> Returning"

definition request_ok :: "world \<Rightarrow> bool" where
  "request_ok w \<longleftrightarrow> (gc_stop w \<longleftrightarrow> requested (phase w))"

definition waits_ok :: "world \<Rightarrow> bool" where
  "waits_ok w \<longleftrightarrow> (\<forall>t. at Waiting t w \<longrightarrow> gc_stop w)"

definition leaving_ok :: "world \<Rightarrow> bool" where
  "leaving_ok w \<longleftrightarrow> (gc_stop w \<longrightarrow> (\<forall>t. at Leaving t w \<longrightarrow> t \<in> late w))"

definition scanned :: "world \<Rightarrow> nat" where
  "scanned w = (case phase w of Scanning i \<Rightarrow> i | Holding \<Rightarrow> length (mutators w) | _ \<Rightarrow> 0)"

definition still :: "nat \<Rightarrow> world \<Rightarrow> bool" where
  "still t w \<longleftrightarrow> t \<in> late w \<or> \<not> at Mutating t w \<and> \<not> at Leaving t w"

definition scan_ok :: "world \<Rightarrow> bool" where
  "scan_ok w \<longleftrightarrow> scanned w \<le> length (mutators w) \<and> (\<forall>t < scanned w. still t w)"

definition world_inv :: "world \<Rightarrow> bool" where
  "world_inv w \<longleftrightarrow> words_ok w \<and> request_ok w \<and> waits_ok w \<and> leaving_ok w \<and> scan_ok w"

lemma put_sel [simp]:
  "length (mutators (put t s p w)) = length (mutators w)" "gc_stop (put t s p w) = gc_stop w"
  "phase (put t s p w) = phase w" "late (put t s p w) = late w" "own (put t s p w) = own w"
  by (simp_all add: put_def)

lemma at_put [simp]:
  "at q u (put t s p w) \<longleftrightarrow> (if u = t then t < length (mutators w) \<and> p = q else at q u w)"
  by (auto simp: at_def put_def nth_list_update)

lemma words_put:
  "words_ok w \<Longrightarrow> s = word_at p \<Longrightarrow> words_ok (put t s p w)"
  unfolding words_ok_def by (intro allI impI, rename_tac u, case_tac "u = t") (auto simp: put_def)

text \<open>A thread moves on: the words stay those of the points, nobody comes to wait without a
  request, nobody comes to leave during one, and a mutator that has been counted as stopped
  does not run.\<close>

lemma put_inv:
  assumes "world_inv w" and "at q t w" and "s = word_at p"
    and "p = Waiting \<Longrightarrow> gc_stop w"
    and "p = Leaving \<Longrightarrow> \<not> gc_stop w"
    and "p = Mutating \<Longrightarrow> gc_stop w \<Longrightarrow> q = Mutating \<or> q = Leaving"
  shows "world_inv (put t s p w)"
proof -
  have t: "t < length (mutators w)" using assms(2) by (simp add: at_def)
  have none: "scanned w = 0" if "\<not> gc_stop w"
    using assms(1) that
    by (cases "phase w") (auto simp: world_inv_def request_ok_def requested_def scanned_def)
  have "scanned (put t s p w) = scanned w" by (simp add: scanned_def split: phase.splits)
  moreover have "still u (put t s p w)" if "u < scanned w" for u
  proof -
    have "gc_stop w" using none that by (cases "gc_stop w") auto
    moreover have "still u w" using assms(1) that by (simp add: world_inv_def scan_ok_def)
    ultimately show ?thesis using assms(2,5,6) t by (auto simp: still_def)
  qed
  moreover have "leaving_ok (put t s p w)"
    using assms(1,5) by (auto simp: world_inv_def leaving_ok_def)
  moreover have "waits_ok (put t s p w)"
    using assms(1,4) by (auto simp: world_inv_def waits_ok_def)
  ultimately show ?thesis
    using assms(1,3) by (simp add: world_inv_def words_put request_ok_def scan_ok_def)
qed

text \<open>The stopper moves on without a scan: the mutators are as they were.\<close>

lemma phase_inv:
  assumes "world_inv w" and "mutators w' = mutators w" and "gc_stop w' = gc_stop w"
    and "late w' = late w" and "requested (phase w') = requested (phase w)"
    and "scanned w' \<le> scanned w"
  shows "world_inv w'"
proof -
  have "at q t w' = at q t w" for q t using assms(2) by (simp add: at_def)
  then have still: "still t w' = still t w" for t using assms(4) by (simp add: still_def)
  have "scan_ok w'"
    using assms(1,2,6) by (auto simp: world_inv_def scan_ok_def still intro: less_le_trans)
  then show ?thesis
    using assms(1-5)
    by (auto simp: world_inv_def words_ok_def request_ok_def waits_ok_def leaving_ok_def at_def)
qed

lemma first_exited_word:
  "first_exited ms < length ms \<Longrightarrow> word_of (ms ! first_exited ms) = EXITED"
  by (induction ms) auto

lemma first_exited_le: "first_exited ms \<le> length ms"
  by (induction ms) auto

lemma register_sel:
  assumes "register_new_slot p w = (c, w')"
  shows "gc_stop w' = gc_stop w" "phase w' = phase w" "late w' = late w"
    "length (mutators w) \<le> length (mutators w')" "c < length (mutators w')"
    "length (mutators w') \<le> Suc (length (mutators w))"
    "length (mutators w') = Suc (length (mutators w)) \<Longrightarrow> c = length (mutators w)"
    "at q u w' \<longleftrightarrow> (if u = c then p = q else at q u w)"
  using assms first_exited_le [of "mutators w"]
  by (auto simp: register_new_slot_def Let_def at_def nth_append nth_list_update
      split: if_splits)

lemma register_words:
  assumes "register_new_slot p w = (c, w')" and "words_ok w" and "word_at p = RUNNING"
  shows "words_ok w'"
  using assms
  by (auto simp: words_ok_def register_new_slot_def Let_def nth_append nth_list_update less_Suc_eq
      split: if_splits)

text \<open>A registration during a stop adds a mutator that does not run, or one that a late
  mutator spawned.\<close>

lemma register_inv:
  assumes inv: "world_inv w" and reg: "register_new_slot p w = (c, w')"
    and "\<not> scanning w" and "p = Mutating \<or> p = Joining"
    and mark: "l = late w \<and> p = Joining \<or> l = insert c (late w) \<or>
      l = late w - {c} \<and> phase w \<noteq> Holding"
  shows "world_inv (w'\<lparr>late := l\<rparr>)"
proof -
  note sel = register_sel [OF reg]
  have at: "at q u (w'\<lparr>late := l\<rparr>) \<longleftrightarrow> (if u = c then p = q else at q u w)" for q u
    using sel(8) by (simp add: at_def)
  have p: "p \<noteq> Waiting" "p \<noteq> Leaving" using assms(4) by auto
  have "words_ok w'" using inv register_words [OF reg] assms(4) by (auto simp: world_inv_def)
  moreover have "leaving_ok (w'\<lparr>late := l\<rparr>)"
    using inv mark p by (auto simp: world_inv_def leaving_ok_def at sel(1) split: if_splits)
  moreover have "scan_ok (w'\<lparr>late := l\<rparr>)"
  proof (cases "phase w = Holding")
    case True
    have "still u (w'\<lparr>late := l\<rparr>)" if "u < length (mutators w')" for u
    proof (cases "u = c")
      case True
      then show ?thesis using mark p \<open>phase w = Holding\<close> by (auto simp: still_def at)
    next
      case False
      then have "u < length (mutators w)" using sel(4,6,7) that by linarith
      then have "still u w" using inv True by (simp add: world_inv_def scan_ok_def scanned_def)
      then show ?thesis using mark False True by (auto simp: still_def at)
    qed
    then show ?thesis using True by (simp add: scan_ok_def scanned_def sel(2))
  next
    case False
    then show ?thesis
      using assms(3) by (auto simp: scan_ok_def scanned_def scanning_def sel(2) split: phase.splits)
  qed
  ultimately show ?thesis
    using inv p by (auto simp: world_inv_def words_ok_def request_ok_def waits_ok_def at sel(1,2))
qed

lemma spawn_inv:
  assumes "world_inv w" and "at Mutating t w" and "\<not> scanning w"
  shows "world_inv (mutator_slot_for_spawn t w)"
proof -
  obtain c w' where reg: "register_new_slot Mutating w = (c, w')" by fastforce
  have "phase w = Holding \<Longrightarrow> t \<in> late w"
    using assms(1,2) by (auto simp: world_inv_def scan_ok_def scanned_def still_def at_def)
  then show ?thesis
    using register_inv [OF assms(1) reg assms(3)]
    by (auto simp: mutator_slot_for_spawn_def reg)
qed

lemma first_use_inv:
  assumes "world_inv w" and "\<not> scanning w"
  shows "world_inv (mutator_slot_first_use w)"
proof -
  obtain c w' where reg: "register_new_slot Joining w = (c, w')" by fastforce
  have "w'\<lparr>late := late w\<rparr> = w'" using register_sel(3) [OF reg] by (cases w') simp
  then show ?thesis
    using register_inv [OF assms(1) reg assms(2), of "late w"]
    by (simp add: mutator_slot_first_use_def reg)
qed

lemma stop_request_inv:
  assumes "world_inv w" and "phase w = Asking"
  shows "world_inv (stop_request w)"
  using assms
  by (auto simp: world_inv_def stop_request_def words_ok_def request_ok_def requested_def
      waits_ok_def leaving_ok_def scan_ok_def scanned_def at_def)

lemma scan_next_inv:
  assumes inv: "world_inv w" and ph: "phase w = Scanning i"
  shows "world_inv (scan_next i w)"
proof (cases "i < length (mutators w) \<and> word_of (mutators w ! i) \<noteq> RUNNING")
  case True
  have "gc_stop w" using inv ph by (simp add: world_inv_def request_ok_def requested_def)
  have "word_of (mutators w ! i) = word_at (point_of (mutators w ! i))"
    using inv True by (simp add: world_inv_def words_ok_def)
  then have "\<not> at Mutating i w" using True by (auto simp: at_def)
  moreover have "at Leaving i w \<longrightarrow> i \<in> late w"
    using inv \<open>gc_stop w\<close> by (simp add: world_inv_def leaving_ok_def)
  ultimately have "still i w" by (auto simp: still_def)
  moreover have "\<forall>u < i. still u w" using inv ph by (simp add: world_inv_def scan_ok_def scanned_def)
  ultimately have new: "\<forall>u < Suc i. still u w" by (simp add: less_Suc_eq)
  have same: "at q u (w\<lparr>phase := p\<rparr>) = at q u w" for q u p by (simp add: at_def)
  show ?thesis
    using inv ph True new
    by (simp add: world_inv_def scan_next_def words_ok_def request_ok_def requested_def waits_ok_def
        leaving_ok_def scan_ok_def scanned_def still_def same)
next
  case False
  have "i \<le> length (mutators w)" using inv ph by (simp add: world_inv_def scan_ok_def scanned_def)
  then show ?thesis
    using False ph
    by (intro phase_inv [OF inv]) (auto simp: scan_next_def requested_def scanned_def)
qed

lemma release_clear_inv:
  assumes "world_inv w"
  shows "world_inv (release_clear w)"
proof -
  have "word_at (point_of (wake_parked m)) = word_at (point_of m)" for m
    by (simp add: wake_parked_def)
  moreover have "word_of (wake_parked m) = word_of m" "point_of (wake_parked m) \<noteq> Waiting" for m
    by (simp_all add: wake_parked_def)
  ultimately show ?thesis
    using assms
    by (simp add: world_inv_def release_clear_def words_ok_def request_ok_def requested_def
        waits_ok_def leaving_ok_def scan_ok_def scanned_def at_def)
qed

lemma word_here: "world_inv w \<Longrightarrow> at q t w \<Longrightarrow> word_of (mutators w ! t) = word_at q"
  by (auto simp: world_inv_def words_ok_def at_def)

lemma go_inv:
  assumes "world_inv w" and "at q t w" and "word_at q = word_at p"
    and "p = Waiting \<Longrightarrow> gc_stop w" and "p = Leaving \<Longrightarrow> \<not> gc_stop w"
    and "p = Mutating \<Longrightarrow> gc_stop w \<Longrightarrow> q = Mutating \<or> q = Leaving"
  shows "world_inv (go t p w)"
  unfolding go_def
  using assms by (intro put_inv [OF assms(1,2)]) (simp_all add: word_here)

lemma release_own_inv:
  assumes inv: "world_inv w" and ph: "phase w = Returning"
  shows "world_inv (release_own w)"
proof -
  have "\<not> gc_stop w" using inv ph by (simp add: world_inv_def request_ok_def requested_def)
  then have "world_inv (put t RUNNING Mutating w)" if "t < length (mutators w)" for t
    using that by (intro put_inv [OF inv, of "point_of (mutators w ! t)"]) (auto simp: at_def)
  moreover have "put t RUNNING Mutating w = w" if "\<not> t < length (mutators w)" for t
    using that by (cases w) (simp add: put_def list_update_beyond)
  ultimately have "world_inv (put t RUNNING Mutating w)" for t
    using inv by (cases "t < length (mutators w)") simp_all
  then have "world_inv (case own w of None \<Rightarrow> w | Some t \<Rightarrow> put t RUNNING Mutating w)"
    using inv by (auto split: option.splits)
  then show ?thesis
    unfolding release_own_def
    by (rule phase_inv) (auto simp: requested_def scanned_def ph split: option.splits)
qed

lemma stop_begin_inv:
  assumes inv: "world_inv w" and ph: "phase w = Away"
    and "case caller of None \<Rightarrow> True | Some t \<Rightarrow> at Mutating t w"
  shows "world_inv (stop_begin caller w)"
proof -
  have "world_inv (case caller of None \<Rightarrow> w | Some t \<Rightarrow> put t NATIVE Stopper w)"
    using inv assms(3) by (auto intro: put_inv split: option.splits)
  then show ?thesis
    unfolding stop_begin_def
    by (rule phase_inv) (auto simp: requested_def scanned_def ph split: option.splits)
qed

lemma perform_inv:
  assumes inv: "world_inv w" and "perform m w = Some w'"
  shows "world_inv w'"
proof -
  note go_inv [OF inv, intro] put_inv [OF inv, intro] phase_inv [OF inv, intro]
  from assms(2) show ?thesis
  proof (cases m)
    case (Spawn t)
    then show ?thesis using assms(2) spawn_inv [OF inv] by (auto split: if_splits)
  next
    case FirstUse
    then show ?thesis using assms(2) first_use_inv [OF inv] by (auto split: if_splits)
  next
    case ScanNext
    then show ?thesis using assms(2) scan_next_inv [OF inv] by (auto split: phase.splits)
  next
    case (StopBegin caller)
    then show ?thesis
      using assms(2) stop_begin_inv [OF inv] by (auto split: if_splits)
  next
    case (Monitor b)
    then have "w' = w\<lparr>preempt := b\<rparr>" using assms(2) by simp
    then show ?thesis by (intro phase_inv [OF inv]) (simp_all add: scanned_def split: phase.split)
  qed (use assms(2) stop_request_inv [OF inv] release_clear_inv [OF inv] release_own_inv [OF inv] in
      \<open>auto simp: mutator_gate_slow_def exit_native_check_def park_look_def enter_native_def
        exit_native_store_def park_store_def park_return_def slot_owner_drop_def raise_preempt_def
        release_preempt_def requested_def scanned_def split: if_splits\<close>)
qed

lemma world_step_inv: "world_inv w \<Longrightarrow> world_step w w' \<Longrightarrow> world_inv w'"
  by (auto elim: world_step.cases intro: perform_inv)

lemma world_start_inv: "world_inv world_start"
  by (auto simp: world_inv_def world_start_def words_ok_def request_ok_def requested_def
      waits_ok_def leaving_ok_def scan_ok_def scanned_def at_def)

interpretation rendezvous: inductive_invariant "\<lambda>w. w = world_start" world_step world_inv
  by unfold_locales (auto intro: world_step_inv world_start_inv)

fun performs :: "move list \<Rightarrow> world \<Rightarrow> world option" where
  "performs [] w = Some w"
| "performs (m # ms) w = (case perform m w of None \<Rightarrow> None | Some w' \<Rightarrow> performs ms w')"

lemma performs_reached: "world_reached w \<Longrightarrow> performs ms w = Some w' \<Longrightarrow> world_reached w'"
proof (induction ms arbitrary: w)
  case (Cons m ms)
  then obtain v where "perform m w = Some v" "performs ms v = Some w'"
    by (auto split: option.splits)
  moreover from this(1) have "world_reached v" by (rule reachable_step [OF Cons.prems(1) moves])
  ultimately show ?case using Cons.IH by blast
qed simp

text \<open>C10. While \<open>with_world_stopped\<close> runs its closure, no registered mutator is at a point
  where it may touch a reference count, save those that were between the last look of
  \<open>park_for_gc\<close> and its store when the request was made, and those they have spawned since.\<close>

theorem stopped_world_is_still:
  assumes "world_reached w" and "phase w = Holding" and "t \<notin> late w"
  shows "\<not> at Mutating t w"
proof -
  have "world_inv w" using assms(1) by (rule rendezvous.invariant)
  then have "scan_ok w" by (simp add: world_inv_def)
  then show ?thesis
    using assms(2,3) by (auto simp: scan_ok_def scanned_def still_def at_def)
qed

text \<open>One whole stop with a mutator in a bracket, one that parks and one that has exited.\<close>

definition one_stop :: "move list" where
  "one_stop =
     [Spawn 0, Spawn 1, Enter 1, Exit 2, StopBegin None, StopRequest, RaisePreempt, ScanNext, Retry,
      Gate 0, ParkStore 0, ParkLook 0, ExitStore 1, ScanNext, ScanNext, Retry, ExitCheck 1,
      ParkStore 1, ScanNext, ScanNext, ScanNext, ScanNext]"

lemmas performs_simps = at_def scanning_def mutator_slot_for_spawn_def register_new_slot_def
  Let_def put_def go_def enter_native_def slot_owner_drop_def stop_begin_def stop_request_def
  raise_preempt_def scan_next_def mutator_gate_slow_def park_store_def park_look_def
  park_return_def exit_native_store_def exit_native_check_def release_preempt_def
  release_clear_def release_own_def wake_parked_def upt_rec

theorem stopped_world_is_still_witness:
  "case performs one_stop world_start of
     None \<Rightarrow> False | Some w \<Rightarrow> phase w = Holding \<and> length (mutators w) = 3 \<and> \<not> at Mutating 0 w"
proof -
  obtain w where w: "performs one_stop world_start = Some w"
    "phase w = Holding" "length (mutators w) = 3" "late w = {}"
    by (simp add: one_stop_def world_start_def performs_simps)
  moreover have "world_reached w" by (rule performs_reached [OF reachable_init w(1)]) simp
  ultimately show ?thesis using stopped_world_is_still [of w 0] by simp
qed

text \<open>The exception is real. A mutator that waited out one stop can be preempted after it
  has dropped the gate and before it stores that it runs; the next stop reads its word as
  parked, answers that the world is stopped, and the mutator then returns to the program.\<close>

definition two_stops :: "move list" where
  "two_stops =
     [StopBegin None, StopRequest, RaisePreempt, Gate 0, ParkStore 0, ParkLook 0, ScanNext, ScanNext,
      Resume, ReleasePreempt, ReleaseClear, ReleaseOwn, ParkLook 0,
      StopBegin None, StopRequest, RaisePreempt, ScanNext, ScanNext, ParkReturn 0]"

theorem parked_mutator_can_outrun_a_stop:
  "\<exists>w. world_reached w \<and> phase w = Holding \<and> at Mutating 0 w"
proof -
  obtain w where w: "performs two_stops world_start = Some w" "phase w = Holding" "at Mutating 0 w"
    by (simp add: two_stops_def world_start_def performs_simps)
  moreover have "world_reached w" by (rule performs_reached [OF reachable_init w(1)]) simp
  ultimately show ?thesis by blast
qed

text \<open>A release leaves nobody behind: whenever no stop is requested no mutator waits on
  the condition variable of the gate.\<close>

theorem release_wakes_every_parked_mutator:
  assumes "world_reached w" and "\<not> gc_stop w"
  shows "\<not> at Waiting t w"
  using rendezvous.invariant [OF assms(1)] assms(2) by (auto simp: world_inv_def waits_ok_def)

theorem release_wakes_every_parked_mutator_witness:
  "case performs (one_stop @ [Resume, ReleasePreempt, ReleaseClear]) world_start of
     None \<Rightarrow> False | Some w \<Rightarrow> \<not> gc_stop w \<and> length (mutators w) = 3 \<and> \<not> at Waiting 0 w"
proof -
  obtain w where w: "performs (one_stop @ [Resume, ReleasePreempt, ReleaseClear]) world_start = Some w"
    "\<not> gc_stop w" "length (mutators w) = 3"
    by (simp add: one_stop_def world_start_def performs_simps)
  moreover have "world_reached w" by (rule performs_reached [OF reachable_init w(1)]) simp
  ultimately show ?thesis using release_wakes_every_parked_mutator [of w 0] by simp
qed

end
