(* ===== verification/ForcedCollection.thy ===== *)
theory ForcedCollection
  imports Steps
begin

text \<open>
  The protocol between \<open>pith_cycle_gc_collect_now\<close> and the collector thread of \<open>cycle.rs\<close>.
  Each section under the control lock is one step. The wait on the condition variable may
  return at any time, so a waiting caller may look again at any time. Whether an attempt
  stops the world is a choice, as is the buffer standing above its threshold. The sequence
  numbers are counted without wrap-around.
\<close>

record gc_control =
  force_pending :: nat
  force_done :: nat
  last_force_ok :: bool

datatype caller = Outside | Asked nat | Answered nat bool

datatype collector_phase = Looking | Attempting nat

record forced =
  ctrl :: gc_control
  collector :: collector_phase
  callers :: "nat \<Rightarrow> caller"
  attempts :: "(nat \<times> bool) list"

text \<open>\<open>attempts\<close> is not in the code: for each finished attempt it holds the last request made
  before it began and whether it stopped the world and collected.\<close>

definition collect_now_request :: "nat \<Rightarrow> forced \<Rightarrow> forced" where
  "collect_now_request t s =
     (let seq = force_pending (ctrl s) + 1 in
      s\<lparr>ctrl := (ctrl s)\<lparr>force_pending := seq\<rparr>, callers := (callers s)(t := Asked seq)\<rparr>)"

definition collect_now_look :: "nat \<Rightarrow> nat \<Rightarrow> forced \<Rightarrow> forced" where
  "collect_now_look t seq s =
     (if force_done (ctrl s) < seq then s
      else s\<lparr>callers := (callers s)(t := Answered seq (last_force_ok (ctrl s)))\<rparr>)"

text \<open>\<open>crossed\<close>: the suspect buffer holds at least the threshold.\<close>

definition wait_for_work :: "bool \<Rightarrow> forced \<Rightarrow> forced" where
  "wait_for_work crossed s =
     (if force_done (ctrl s) < force_pending (ctrl s) \<or> crossed
      then s\<lparr>collector := Attempting (force_pending (ctrl s))\<rparr> else s)"

definition finish_forced :: "nat \<Rightarrow> bool \<Rightarrow> forced \<Rightarrow> forced" where
  "finish_forced goal stopped s =
     (if force_done (ctrl s) < goal
      then s\<lparr>ctrl := (ctrl s)\<lparr>force_done := goal, last_force_ok := stopped\<rparr>\<rparr> else s)
       \<lparr>collector := Looking, attempts := (goal, stopped) # attempts s\<rparr>"

inductive forced_step :: "forced \<Rightarrow> forced \<Rightarrow> bool" where
  requests: "callers s t = Outside \<Longrightarrow> forced_step s (collect_now_request t s)"
| looks: "callers s t = Asked seq \<Longrightarrow> forced_step s (collect_now_look t seq s)"
| returns: "callers s t = Answered seq v \<Longrightarrow> forced_step s (s\<lparr>callers := (callers s)(t := Outside)\<rparr>)"
| begins: "collector s = Looking \<Longrightarrow> forced_step s (wait_for_work crossed s)"
| finishes: "collector s = Attempting goal \<Longrightarrow> forced_step s (finish_forced goal stopped s)"

definition forced_start :: forced where
  "forced_start =
     \<lparr>ctrl = \<lparr>force_pending = 0, force_done = 0, last_force_ok = False\<rparr>, collector = Looking,
      callers = (\<lambda>_. Outside), attempts = []\<rparr>"

abbreviation forced_reached :: "forced \<Rightarrow> bool" where
  "forced_reached \<equiv> reachable (\<lambda>s. s = forced_start) forced_step"

text \<open>The answer \<open>v\<close> of an attempt that began after the request \<open>seq\<close>.\<close>

definition covered :: "nat \<Rightarrow> bool \<Rightarrow> (nat \<times> bool) list \<Rightarrow> bool" where
  "covered seq v as \<longleftrightarrow> (\<exists>goal. (goal, v) \<in> set as \<and> seq \<le> goal)"

definition asked_ok :: "forced \<Rightarrow> nat \<Rightarrow> bool" where
  "asked_ok s t = (case callers s t of
       Outside \<Rightarrow> True
     | Asked seq \<Rightarrow> 0 < seq \<and> seq \<le> force_pending (ctrl s)
     | Answered seq v \<Rightarrow> covered seq v (attempts s))"

definition forced_inv :: "forced \<Rightarrow> bool" where
  "forced_inv s \<longleftrightarrow>
     (\<forall>t. asked_ok s t) \<and>
     force_done (ctrl s) \<le> force_pending (ctrl s) \<and>
     (0 < force_done (ctrl s) \<longrightarrow> covered (force_done (ctrl s)) (last_force_ok (ctrl s)) (attempts s)) \<and>
     (\<forall>goal. collector s = Attempting goal \<longrightarrow> goal \<le> force_pending (ctrl s))"

lemma covered_Cons [simp]: "covered seq v ((g, w) # as) \<longleftrightarrow> seq \<le> g \<and> w = v \<or> covered seq v as"
  by (auto simp: covered_def)

lemma covered_weaken: "covered g v as \<Longrightarrow> seq \<le> g \<Longrightarrow> covered seq v as"
  unfolding covered_def by (meson order_trans)

lemmas forced_ops = collect_now_request_def collect_now_look_def wait_for_work_def
  finish_forced_def Let_def

lemma forced_asked: "forced_step s s' \<Longrightarrow> forced_inv s \<Longrightarrow> asked_ok s' u"
proof (induction rule: forced_step.induct)
  case (looks s t seq)
  have "asked_ok s u" "asked_ok s t" using looks.prems by (simp_all add: forced_inv_def)
  moreover have "force_done (ctrl s) < seq \<or> covered seq (last_force_ok (ctrl s)) (attempts s)"
    using looks \<open>asked_ok s t\<close> by (auto simp: forced_inv_def asked_ok_def intro: covered_weaken)
  ultimately show ?case by (auto simp: asked_ok_def collect_now_look_def split: caller.splits)
qed (auto simp: forced_inv_def asked_ok_def forced_ops split: caller.splits
  dest: spec [where x = u] elim: allE [of _ u])

lemma forced_step_inv: "forced_inv s \<Longrightarrow> forced_step s s' \<Longrightarrow> forced_inv s'"
proof -
  assume inv: "forced_inv s" and step: "forced_step s s'"
  then have "\<forall>u. asked_ok s' u" using forced_asked by blast
  with step inv show "forced_inv s'"
    by (induction rule: forced_step.induct) (auto simp: forced_inv_def forced_ops split: if_splits)
qed

interpretation forcing: inductive_invariant "\<lambda>s. s = forced_start" forced_step forced_inv
proof unfold_locales
  show "s = forced_start \<Longrightarrow> forced_inv s" for s
    by (simp add: forced_inv_def forced_start_def asked_ok_def)
qed (rule forced_step_inv)

text \<open>A forced collection answers 1 only when an attempt that began after the request
  stopped the world and collected, and 0 only when such an attempt failed; a caller that is
  not yet covered leaves the collector a reason to begin an attempt.\<close>

theorem forced_collection_answers:
  assumes "forced_reached s"
  shows "(callers s t = Answered seq v \<longrightarrow> (\<exists>goal. (goal, v) \<in> set (attempts s) \<and> seq \<le> goal)) \<and>
    (callers s t = Asked seq \<and> force_done (ctrl s) < seq \<and> collector s = Looking \<longrightarrow>
      (\<exists>goal. collector (wait_for_work False s) = Attempting goal \<and> seq \<le> goal))"
proof -
  have "asked_ok s t" using forcing.invariant [OF assms] by (simp add: forced_inv_def)
  then show ?thesis by (auto simp: asked_ok_def covered_def wait_for_work_def)
qed

definition forced_once :: forced where
  "forced_once =
     collect_now_look 0 1 (finish_forced 1 True (wait_for_work False (collect_now_request 0 forced_start)))"

lemma forced_once_reached: "forced_reached forced_once"
proof -
  let ?a = "collect_now_request 0 forced_start"
  let ?b = "wait_for_work False ?a"
  let ?c = "finish_forced 1 True ?b"
  have "forced_reached ?a"
    by (rule reachable_step [OF reachable_init]) (rule refl, rule requests, simp add: forced_start_def)
  then have "forced_reached ?b"
    by (rule reachable_step) (rule begins, simp add: forced_start_def forced_ops)
  then have "forced_reached ?c"
    by (rule reachable_step) (rule finishes, simp add: forced_start_def forced_ops)
  then have "forced_reached (collect_now_look 0 1 ?c)"
    by (rule reachable_step) (rule looks, simp add: forced_start_def forced_ops)
  then show ?thesis by (simp add: forced_once_def)
qed

theorem forced_collection_answers_witness:
  "callers forced_once 0 = Answered 1 True \<and> (\<exists>goal. (goal, True) \<in> set (attempts forced_once) \<and> 1 \<le> goal)"
proof -
  have at: "callers forced_once 0 = Answered 1 True"
    by (simp add: forced_once_def forced_start_def forced_ops)
  then show ?thesis
    using forced_collection_answers [OF forced_once_reached, of 0 1 True] by simp
qed

end
