(* ===== verification/Rfc8259.thy ===== *)
theory Rfc8259
  imports Prelude
begin

text \<open>
  JSON as RFC 8259 states it, with nothing taken from \<open>json.rs\<close>: the strings of section 7 with
  the UTF-8 of RFC 3629, the numbers of section 6, and the values of sections 3 to 5 over them. The
  document grammar takes its integers, floats and strings as parameters, so that the theories of
  the scanner can relate it to what the code reads. \<open>%xHH\<close> of the standard is \<open>0xHH\<close> here.
\<close>

subsection \<open>UTF-8 (RFC 3629, section 3)\<close>

text \<open>The bits of the character number, split as the four rows of the table have them.\<close>

inductive utf8_char :: "nat \<Rightarrow> bytes \<Rightarrow> bool" where
  U1: "x < 2 ^ 7 \<Longrightarrow> utf8_char x [of_nat x]"
| U2: "x < 2 ^ 5 \<Longrightarrow> y < 2 ^ 6 \<Longrightarrow> 0x80 \<le> x * 2 ^ 6 + y \<Longrightarrow>
    utf8_char (x * 2 ^ 6 + y) [of_nat (0xC0 + x), of_nat (0x80 + y)]"
| U3: "x < 2 ^ 4 \<Longrightarrow> y < 2 ^ 6 \<Longrightarrow> z < 2 ^ 6 \<Longrightarrow> 0x800 \<le> x * 2 ^ 12 + y * 2 ^ 6 + z \<Longrightarrow>
    utf8_char (x * 2 ^ 12 + y * 2 ^ 6 + z) [of_nat (0xE0 + x), of_nat (0x80 + y), of_nat (0x80 + z)]"
| U4: "x < 2 ^ 3 \<Longrightarrow> y < 2 ^ 6 \<Longrightarrow> z < 2 ^ 6 \<Longrightarrow> u < 2 ^ 6 \<Longrightarrow>
    0x10000 \<le> x * 2 ^ 18 + y * 2 ^ 12 + z * 2 ^ 6 + u \<Longrightarrow>
    x * 2 ^ 18 + y * 2 ^ 12 + z * 2 ^ 6 + u \<le> 0x10FFFF \<Longrightarrow>
    utf8_char (x * 2 ^ 18 + y * 2 ^ 12 + z * 2 ^ 6 + u)
      [of_nat (0xF0 + x), of_nat (0x80 + y), of_nat (0x80 + z), of_nat (0x80 + u)]"

subsection \<open>Strings (section 7)\<close>

text \<open>The two-character escapes: the letter, and the character it stands for.\<close>

definition escape_table :: "(u8 \<times> u8) list" where
  "escape_table =
     [(0x22, 0x22), (0x5C, 0x5C), (0x2F, 0x2F), (0x62, 0x08), (0x66, 0x0C), (0x6E, 0x0A),
      (0x72, 0x0D), (0x74, 0x09)]"

text \<open>\<open>HEXDIG\<close>, in either case.\<close>

definition hexdig :: "u8 \<Rightarrow> nat \<Rightarrow> bool" where
  "hexdig b n \<longleftrightarrow>
     n < 16 \<and> (b = of_char (''0123456789ABCDEF'' ! n) \<or> b = of_char (''0123456789abcdef'' ! n))"

inductive four_hexdig :: "bytes \<Rightarrow> nat \<Rightarrow> bool" where
  "hexdig a i \<Longrightarrow> hexdig b j \<Longrightarrow> hexdig c k \<Longrightarrow> hexdig d l \<Longrightarrow>
    four_hexdig [a, b, c, d] (i * 16 ^ 3 + j * 16 ^ 2 + k * 16 + l)"

text \<open>What may stand between the quotes, and the bytes it means. A byte of a character over
  \<open>0x7F\<close> stands for itself. With \<open>lax\<close> a control byte may stand for itself too, which section 7
  does not allow.\<close>

inductive json_string :: "bool \<Rightarrow> bytes \<Rightarrow> bytes \<Rightarrow> bool" for lax where
  S_end: "json_string lax [] []"
| S_unescaped: "b \<noteq> 0x22 \<Longrightarrow> b \<noteq> 0x5C \<Longrightarrow> lax \<or> 0x20 \<le> b \<Longrightarrow> json_string lax raw s \<Longrightarrow>
    json_string lax (b # raw) (b # s)"
| S_escape: "(e, c) \<in> set escape_table \<Longrightarrow> json_string lax raw s \<Longrightarrow>
    json_string lax (0x5C # e # raw) (c # s)"
| S_unit: "four_hexdig ds code \<Longrightarrow> \<not> (0xD800 \<le> code \<and> code \<le> 0xDFFF) \<Longrightarrow> utf8_char code u \<Longrightarrow>
    json_string lax raw s \<Longrightarrow> json_string lax (0x5C # 0x75 # ds @ raw) (u @ s)"
| S_pair: "four_hexdig ds (0xD800 + i) \<Longrightarrow> four_hexdig es (0xDC00 + j) \<Longrightarrow> i < 2 ^ 10 \<Longrightarrow> j < 2 ^ 10 \<Longrightarrow>
    utf8_char (0x10000 + i * 2 ^ 10 + j) u \<Longrightarrow> json_string lax raw s \<Longrightarrow>
    json_string lax (0x5C # 0x75 # ds @ 0x5C # 0x75 # es @ raw) (u @ s)"

subsection \<open>Numbers (section 6)\<close>

definition digit :: "u8 \<Rightarrow> bool" where
  "digit b \<longleftrightarrow> 0x30 \<le> b \<and> b \<le> 0x39"

text \<open>\<open>int = zero / ( digit1-9 *DIGIT )\<close>, and its value in base ten.\<close>

definition int_part :: "bytes \<Rightarrow> bool" where
  "int_part ds \<longleftrightarrow> ds = [0x30] \<or> ds \<noteq> [] \<and> hd ds \<noteq> 0x30 \<and> list_all digit ds"

definition base_ten :: "bytes \<Rightarrow> nat" where
  "base_ten ds = (\<Sum>i<length ds. (unat (rev ds ! i) - 0x30) * 10 ^ i)"

definition frac_part :: "bytes \<Rightarrow> bool" where
  "frac_part f \<longleftrightarrow> f = [] \<or> (\<exists>ds. f = 0x2E # ds \<and> ds \<noteq> [] \<and> list_all digit ds)"

definition exp_part :: "bytes \<Rightarrow> bool" where
  "exp_part x \<longleftrightarrow> x = [] \<or>
     (\<exists>e sign ds. x = e # sign @ ds \<and> (e = 0x65 \<or> e = 0x45) \<and> (sign = [] \<or> sign = [0x2B] \<or> sign = [0x2D]) \<and>
        ds \<noteq> [] \<and> list_all digit ds)"

definition json_integer :: "int \<Rightarrow> bytes \<Rightarrow> bool" where
  "json_integer n t \<longleftrightarrow>
     int_part t \<and> n = int (base_ten t) \<or>
     (\<exists>ds. t = 0x2D # ds \<and> int_part ds \<and> n = - int (base_ten ds))"

definition json_float :: "bytes \<Rightarrow> bool" where
  "json_float t \<longleftrightarrow>
     (\<exists>sign ds f x. t = sign @ ds @ f @ x \<and> (sign = [] \<or> sign = [0x2D]) \<and> int_part ds \<and>
        frac_part f \<and> exp_part x \<and> (f \<noteq> [] \<or> x \<noteq> []))"

subsection \<open>Values (sections 2 to 5)\<close>

text \<open>A number keeps its text, since a float field reads the text of an integer.\<close>

datatype json =
    JNull
  | JBool bool
  | JInt int bytes
  | JFloat bytes
  | JStr bytes
  | JArr "json list"
  | JObj "(bytes \<times> json) list"

definition blank :: "bytes \<Rightarrow> bool" where
  "blank w \<longleftrightarrow> set w \<subseteq> {0x20, 0x09, 0x0A, 0x0D}"

text \<open>\<open>doc_items\<close> and \<open>doc_members\<close> are the texts between the brackets, with their commas.\<close>

inductive doc :: "(int \<Rightarrow> bytes \<Rightarrow> bool) \<Rightarrow> (bytes \<Rightarrow> bool) \<Rightarrow> (bytes \<Rightarrow> bytes \<Rightarrow> bool) \<Rightarrow> json \<Rightarrow> bytes \<Rightarrow> bool"
  and doc_items :: "(int \<Rightarrow> bytes \<Rightarrow> bool) \<Rightarrow> (bytes \<Rightarrow> bool) \<Rightarrow> (bytes \<Rightarrow> bytes \<Rightarrow> bool) \<Rightarrow> json list \<Rightarrow> bytes \<Rightarrow> bool"
  and doc_members :: "(int \<Rightarrow> bytes \<Rightarrow> bool) \<Rightarrow> (bytes \<Rightarrow> bool) \<Rightarrow> (bytes \<Rightarrow> bytes \<Rightarrow> bool) \<Rightarrow>
    (bytes \<times> json) list \<Rightarrow> bytes \<Rightarrow> bool"
  for ints floats strings where
  W_null: "doc ints floats strings JNull [0x6E, 0x75, 0x6C, 0x6C]"
| W_true: "doc ints floats strings (JBool True) [0x74, 0x72, 0x75, 0x65]"
| W_false: "doc ints floats strings (JBool False) [0x66, 0x61, 0x6C, 0x73, 0x65]"
| W_int: "ints n t \<Longrightarrow> doc ints floats strings (JInt n t) t"
| W_float: "floats t \<Longrightarrow> doc ints floats strings (JFloat t) t"
| W_str: "strings raw s \<Longrightarrow> doc ints floats strings (JStr s) (0x22 # raw @ [0x22])"
| W_arr0: "blank w \<Longrightarrow> doc ints floats strings (JArr []) (0x5B # w @ [0x5D])"
| W_arr: "doc_items ints floats strings vs t \<Longrightarrow> doc ints floats strings (JArr vs) (0x5B # t @ [0x5D])"
| W_obj0: "blank w \<Longrightarrow> doc ints floats strings (JObj []) (0x7B # w @ [0x7D])"
| W_obj: "doc_members ints floats strings ms t \<Longrightarrow> doc ints floats strings (JObj ms) (0x7B # t @ [0x7D])"
| I_one: "blank w \<Longrightarrow> blank w' \<Longrightarrow> doc ints floats strings v t \<Longrightarrow>
    doc_items ints floats strings [v] (w @ t @ w')"
| I_more: "blank w \<Longrightarrow> blank w' \<Longrightarrow> doc ints floats strings v t \<Longrightarrow> doc_items ints floats strings vs ts \<Longrightarrow>
    doc_items ints floats strings (v # vs) (w @ t @ w' @ 0x2C # ts)"
| M_one: "blank w1 \<Longrightarrow> blank w2 \<Longrightarrow> blank w3 \<Longrightarrow> blank w4 \<Longrightarrow> strings raw k \<Longrightarrow>
    doc ints floats strings v t \<Longrightarrow>
    doc_members ints floats strings [(k, v)] (w1 @ 0x22 # raw @ 0x22 # w2 @ 0x3A # w3 @ t @ w4)"
| M_more: "blank w1 \<Longrightarrow> blank w2 \<Longrightarrow> blank w3 \<Longrightarrow> blank w4 \<Longrightarrow> strings raw k \<Longrightarrow>
    doc ints floats strings v t \<Longrightarrow> doc_members ints floats strings ms ts \<Longrightarrow>
    doc_members ints floats strings ((k, v) # ms)
      (w1 @ 0x22 # raw @ 0x22 # w2 @ 0x3A # w3 @ t @ w4 @ 0x2C # ts)"

text \<open>\<open>json_text v t\<close>: the standard's grammar derives \<open>t\<close>, with the contents \<open>v\<close>.\<close>

abbreviation json_text :: "json \<Rightarrow> bytes \<Rightarrow> bool" where
  "json_text \<equiv> doc json_integer json_float (json_string False)"

text \<open>A wider choice of numbers and strings gives a wider grammar.\<close>

lemma doc_mono:
  assumes "\<And>n t. ints n t \<Longrightarrow> ints' n t" and "\<And>t. floats t \<Longrightarrow> floats' t"
    and "\<And>raw s. strings raw s \<Longrightarrow> strings' raw s"
  shows "doc ints floats strings v t \<Longrightarrow> doc ints' floats' strings' v t"
    and "doc_items ints floats strings vs t \<Longrightarrow> doc_items ints' floats' strings' vs t"
    and "doc_members ints floats strings ms t \<Longrightarrow> doc_members ints' floats' strings' ms t"
  by (induction v t and vs t and ms t rule: doc_doc_items_doc_members.inducts)
    (auto intro: doc_doc_items_doc_members.intros assms)

text \<open>Adding a condition on the numbers is asking it of every number of the tree.\<close>

fun numbers :: "(int \<Rightarrow> bool) \<Rightarrow> (bytes \<Rightarrow> bool) \<Rightarrow> json \<Rightarrow> bool" where
  "numbers P Q (JInt n t) \<longleftrightarrow> P n"
| "numbers P Q (JFloat t) \<longleftrightarrow> Q t"
| "numbers P Q (JArr vs) \<longleftrightarrow> (\<forall>v \<in> set vs. numbers P Q v)"
| "numbers P Q (JObj ms) \<longleftrightarrow> (\<forall>m \<in> set ms. numbers P Q (snd m))"
| "numbers P Q v \<longleftrightarrow> True"

lemma doc_numbers:
  "doc ints floats strings v t \<Longrightarrow> numbers P Q v \<Longrightarrow>
     doc (\<lambda>n t. ints n t \<and> P n) (\<lambda>t. floats t \<and> Q t) strings v t"
  "doc_items ints floats strings vs t \<Longrightarrow> \<forall>v \<in> set vs. numbers P Q v \<Longrightarrow>
     doc_items (\<lambda>n t. ints n t \<and> P n) (\<lambda>t. floats t \<and> Q t) strings vs t"
  "doc_members ints floats strings ms t \<Longrightarrow> \<forall>m \<in> set ms. numbers P Q (snd m) \<Longrightarrow>
     doc_members (\<lambda>n t. ints n t \<and> P n) (\<lambda>t. floats t \<and> Q t) strings ms t"
  by (induction v t and vs t and ms t rule: doc_doc_items_doc_members.inducts)
    (auto intro: doc_doc_items_doc_members.intros)

subsection \<open>Strings without control bytes\<close>

lemma below_16: "n < 16 \<Longrightarrow> n \<in> {0, 1, 2, 3, 4, 5, 6, 7, 8, 9, 10, 11, 12, 13, 14, 15 :: nat}"
  by (simp only: insert_iff empty_iff) presburger

lemma hexdig_bytes: "hexdig b n \<Longrightarrow> 0x20 \<le> b"
  unfolding hexdig_def using below_16 [of n] by auto

lemma four_hexdig_bytes: "four_hexdig ds n \<Longrightarrow> b \<in> set ds \<Longrightarrow> 0x20 \<le> b"
  by (auto elim!: four_hexdig.cases dest!: hexdig_bytes)

lemma json_string_strict:
  "json_string False raw s \<longleftrightarrow> json_string True raw s \<and> list_all (\<lambda>b. 0x20 \<le> b) raw"
proof
  assume "json_string False raw s"
  then show "json_string True raw s \<and> list_all (\<lambda>b. 0x20 \<le> b) raw"
    by (induction rule: json_string.induct)
      (auto intro: json_string.intros four_hexdig_bytes simp: escape_table_def list_all_iff)
next
  assume "json_string True raw s \<and> list_all (\<lambda>b. 0x20 \<le> b) raw"
  then have "json_string True raw s" "list_all (\<lambda>b. 0x20 \<le> b) raw" by simp_all
  then show "json_string False raw s"
    by (induction rule: json_string.induct) (auto intro: json_string.intros)
qed

end
