(* ===== verification/Json.thy ===== *)
theory Json
  imports Codec
begin

text \<open>
  The scanner of \<open>json.rs\<close>: white space, strings with their escapes, numbers, and the values a
  decode steps over. A position \<open>pos\<close> of the code is the unread rest \<open>input[pos..]\<close> here, so
  \<open>pos >= input.len()\<close> is the empty list and the position a function returns is the rest it
  leaves. The recursion carries a fuel that every call takes one from; \<open>skip_ends\<close> shows that a
  document's length is enough. The code's result is \<open>Inr\<close>, its \<open>NestedAbort\<close> is \<open>Inl\<close>.
\<close>

datatype nested_abort =
    Malformed
  | TooDeep
  | Panicked      \<comment> \<open>an index past the end of a slice\<close>
  | OutOfFuel     \<comment> \<open>not an outcome of the code\<close>

type_synonym 'a parse = "nested_abort + 'a"

fun followed_by :: "'a parse \<Rightarrow> ('a \<Rightarrow> 'b parse) \<Rightarrow> 'b parse" where
  "followed_by (Inl e) k = Inl e"
| "followed_by (Inr x) k = k x"

lemma followed_by_cong [fundef_cong]:
  "r = r' \<Longrightarrow> (\<And>x. r' = Inr x \<Longrightarrow> k x = k' x) \<Longrightarrow> followed_by r k = followed_by r' k'"
  by (cases r') auto

lemma followed_by_Inr: "followed_by r k = Inr y \<longleftrightarrow> (\<exists>x. r = Inr x \<and> k x = Inr y)"
  by (cases r) auto

lemma followed_by_Inl: "followed_by r k = Inl e \<longleftrightarrow> r = Inl e \<or> (\<exists>x. r = Inr x \<and> k x = Inl e)"
  by (cases r) auto

subsection \<open>White space and literals\<close>

definition is_ws :: "u8 \<Rightarrow> bool" where
  "is_ws b \<longleftrightarrow> b = 32 \<or> b = 9 \<or> b = 10 \<or> b = 13"

fun skip_ws :: "bytes \<Rightarrow> bytes" where
  "skip_ws [] = []"
| "skip_ws (b # bs) = (if is_ws b then skip_ws bs else b # bs)"

definition lit_true :: bytes where "lit_true = [116, 114, 117, 101]"
definition lit_false :: bytes where "lit_false = [102, 97, 108, 115, 101]"
definition lit_null :: bytes where "lit_null = [110, 117, 108, 108]"

definition starts_with :: "bytes \<Rightarrow> bytes \<Rightarrow> bool" where
  "starts_with bs lit \<longleftrightarrow> take (length lit) bs = lit"

text \<open>The idiom after an element: one comma may follow, then white space.\<close>

fun skip_byte :: "u8 \<Rightarrow> bytes \<Rightarrow> bytes" where
  "skip_byte c [] = []"
| "skip_byte c (b # bs) = (if b = c then bs else b # bs)"

definition after_item :: "bytes \<Rightarrow> bytes" where
  "after_item bs = skip_ws (skip_byte 44 (skip_ws bs))"

subsection \<open>Strings\<close>

text \<open>\<open>code as u8\<close> keeps the low byte of the sum.\<close>

definition nested_push_utf8 :: "nat \<Rightarrow> bytes" where
  "nested_push_utf8 code =
     (if code < 0x80 then [of_nat code]
      else if code < 0x800 then [of_nat (0xC0 + code div 64), of_nat (0x80 + code mod 64)]
      else if code < 0x10000
      then [of_nat (0xE0 + code div 4096), of_nat (0x80 + (code div 64) mod 64),
            of_nat (0x80 + code mod 64)]
      else [of_nat (0xF0 + code div 262144), of_nat (0x80 + (code div 4096) mod 64),
            of_nat (0x80 + (code div 64) mod 64), of_nat (0x80 + code mod 64)])"

definition hex_value :: "u8 \<Rightarrow> nat option" where
  "hex_value b =
     (if 48 \<le> unat b \<and> unat b \<le> 57 then Some (unat b - 48)
      else if 97 \<le> unat b \<and> unat b \<le> 102 then Some (unat b - 97 + 10)
      else if 65 \<le> unat b \<and> unat b \<le> 70 then Some (unat b - 65 + 10)
      else None)"

fun hex_digits :: "nat \<Rightarrow> bytes \<Rightarrow> nat option" where
  "hex_digits code [] = Some code"
| "hex_digits code (b # bs) =
     (case hex_value b of None \<Rightarrow> None | Some d \<Rightarrow> hex_digits (code * 16 + d) bs)"

definition nested_hex4 :: "bytes \<Rightarrow> nat option" where
  "nested_hex4 bs = hex_digits 0 (take 4 bs)"

definition simple_escape :: "u8 \<Rightarrow> u8 option" where
  "simple_escape c =
     (if c = 34 \<or> c = 92 \<or> c = 47 then Some c
      else if c = 98 then Some 8
      else if c = 102 then Some 12
      else if c = 110 then Some 10
      else if c = 114 then Some 13
      else if c = 116 then Some 9
      else None)"

text \<open>The escape \<open>\u\<close> with the rest that begins at its four digits: a code point and what
  follows it. A high surrogate needs an escaped low one right after it, a low one alone is
  refused.\<close>

definition unicode_escape :: "bytes \<Rightarrow> (nat \<times> bytes) option" where
  "unicode_escape bs =
     (if length bs < 4 then None
      else case nested_hex4 bs of None \<Rightarrow> None
      | Some code \<Rightarrow>
          let bs = drop 4 bs in
          if 0xD800 \<le> code \<and> code \<le> 0xDBFF then
            (if length bs < 6 \<or> bs ! 0 \<noteq> 92 \<or> bs ! 1 \<noteq> 117 then None
             else case nested_hex4 (drop 2 bs) of None \<Rightarrow> None
             | Some low \<Rightarrow>
                 if \<not> (0xDC00 \<le> low \<and> low \<le> 0xDFFF) then None
                 else Some (0x10000 + (code - 0xD800) * 1024 + (low - 0xDC00), drop 6 bs))
          else if 0xDC00 \<le> code \<and> code \<le> 0xDFFF then None
          else Some (code, bs))"

lemma unicode_escape_shorter: "unicode_escape bs = Some (code, r) \<Longrightarrow> length r < length bs"
  by (auto simp: unicode_escape_def Let_def split: if_splits option.splits)

function nested_unescape :: "bytes \<Rightarrow> bytes \<Rightarrow> bytes option" where
  "nested_unescape [] out = Some out"
| "nested_unescape (c # bs) out =
     (if c \<noteq> 92 then nested_unescape bs (out @ [c])
      else case bs of [] \<Rightarrow> None
      | e # bs \<Rightarrow>
          if e = 117 then
            (case unicode_escape bs of None \<Rightarrow> None
             | Some x \<Rightarrow> nested_unescape (snd x) (out @ nested_push_utf8 (fst x)))
          else (case simple_escape e of None \<Rightarrow> None
             | Some c \<Rightarrow> nested_unescape bs (out @ [c])))"
  by pat_completeness auto
termination
  by (relation "measure (length \<circ> fst)") (auto dest: unicode_escape_shorter)

text \<open>The scan for the closing quote, from the byte after the opening one: the content,
  whether a backslash sat in it, and the rest after the quote.\<close>

fun quote_scan :: "bytes \<Rightarrow> (bytes \<times> bool \<times> bytes) option" where
  "quote_scan [] = None"
| "quote_scan (b # bs) =
     (if b = 34 then Some ([], False, bs)
      else if b = 92 then
        (case bs of [] \<Rightarrow> None
         | c # bs' \<Rightarrow>
             (case quote_scan bs' of None \<Rightarrow> None
              | Some (raw, _, r) \<Rightarrow> Some (92 # c # raw, True, r)))
      else
        (case quote_scan bs of None \<Rightarrow> None
         | Some (raw, escaped, r) \<Rightarrow> Some (b # raw, escaped, r)))"

text \<open>\<open>bs\<close> begins after the opening quote.\<close>

definition nested_read_string :: "bytes \<Rightarrow> (bytes \<times> bytes) parse" where
  "nested_read_string bs =
     (case quote_scan bs of None \<Rightarrow> Inl Malformed
      | Some (raw, escaped, r) \<Rightarrow>
          if \<not> escaped then Inr (raw, r)
          else (case nested_unescape raw [] of None \<Rightarrow> Inl Malformed
                | Some decoded \<Rightarrow> Inr (decoded, r)))"

subsection \<open>Numbers\<close>

definition nested_is_number_start :: "u8 \<Rightarrow> bool" where
  "nested_is_number_start b \<longleftrightarrow> is_ascii_digit b \<or> b = 45 \<or> b = 43"

definition nested_is_number_char :: "u8 \<Rightarrow> bool" where
  "nested_is_number_char b \<longleftrightarrow> is_ascii_digit b \<or> b = 46 \<or> b = 101 \<or> b = 69 \<or> b = 43 \<or> b = 45"

fun number_span_end :: "bytes \<Rightarrow> bytes" where
  "number_span_end [] = []"
| "number_span_end (b # bs) = (if nested_is_number_char b then number_span_end bs else b # bs)"

text \<open>The bytes between two positions of one input.\<close>

definition span_to :: "bytes \<Rightarrow> bytes \<Rightarrow> bytes" where
  "span_to bs r = take (length bs - length r) bs"

fun digit_sum :: "int \<Rightarrow> bytes \<Rightarrow> int option" where
  "digit_sum value [] = Some value"
| "digit_sum value (b # bs) =
     (if is_ascii_digit b then
        (if value > 922337203685477580 div 10 then None
         else digit_sum (value * 10 + (uint b - 48)) bs)
      else digit_sum value bs)"

definition nested_read_number :: "bytes \<Rightarrow> (int option \<times> bytes) parse" where
  "nested_read_number bs =
     (let r = number_span_end (tl bs) in
      if list_ex (\<lambda>b. b = 46 \<or> b = 101 \<or> b = 69) (span_to (tl bs) r) then Inr (None, r)
      else
        case digit_sum 0 (span_to bs r) of None \<Rightarrow> Inl Malformed
        | Some value \<Rightarrow> Inr (Some (if hd bs = 45 then - value else value), r))"

subsection \<open>Values that nobody keeps\<close>

definition NESTED_MAX_DEPTH :: nat where "NESTED_MAX_DEPTH = 128"

text \<open>The bytes of a bracket are consumed when \<open>nested_skip_array\<close> and \<open>nested_skip_object\<close>
  are called; the \<open>loop\<close> functions are their \<open>while\<close> loops.\<close>

function (sequential) nested_skip_value :: "nat \<Rightarrow> bytes \<Rightarrow> nat \<Rightarrow> bytes parse"
  and nested_skip_array :: "nat \<Rightarrow> bytes \<Rightarrow> nat \<Rightarrow> bytes parse"
  and skip_array_loop :: "nat \<Rightarrow> bytes \<Rightarrow> nat \<Rightarrow> bytes parse"
  and nested_skip_object :: "nat \<Rightarrow> bytes \<Rightarrow> nat \<Rightarrow> bytes parse"
  and skip_object_loop :: "nat \<Rightarrow> bytes \<Rightarrow> nat \<Rightarrow> bytes parse" where
  "nested_skip_value 0 bs depth = Inl OutOfFuel"
| "nested_skip_value (Suc n) bs depth =
     (if depth > NESTED_MAX_DEPTH then Inl TooDeep
      else case skip_ws bs of [] \<Rightarrow> Inl Malformed
      | b # r \<Rightarrow>
          if b = 34 then followed_by (nested_read_string r) (\<lambda>x. Inr (snd x))
          else if starts_with (b # r) lit_true \<or> starts_with (b # r) lit_null
          then Inr (drop 4 (b # r))
          else if starts_with (b # r) lit_false then Inr (drop 5 (b # r))
          else if b = 91 then nested_skip_array n r depth
          else if b = 123 then nested_skip_object n r depth
          else if nested_is_number_start b
          then followed_by (nested_read_number (b # r)) (\<lambda>x. Inr (snd x))
          else Inl Malformed)"
| "nested_skip_array 0 bs depth = Inl OutOfFuel"
| "nested_skip_array (Suc n) bs depth =
     (let p = skip_ws bs in
      if p \<noteq> [] \<and> hd p = 93 then Inr (tl p) else skip_array_loop n p depth)"
| "skip_array_loop 0 p depth = Inl OutOfFuel"
| "skip_array_loop (Suc n) p depth =
     (if p = [] then Inr []
      else if hd p = 93 then Inr (tl p)
      else followed_by (nested_skip_value n p (depth + 1))
             (\<lambda>r. skip_array_loop n (after_item r) depth))"
| "nested_skip_object 0 bs depth = Inl OutOfFuel"
| "nested_skip_object (Suc n) bs depth =
     (let p = skip_ws bs in
      if p \<noteq> [] \<and> hd p = 125 then Inr (tl p) else skip_object_loop n p depth)"
| "skip_object_loop 0 p depth = Inl OutOfFuel"
| "skip_object_loop (Suc n) p depth =
     (if p = [] then Inr []
      else case skip_ws p of [] \<Rightarrow> Inl Malformed
      | b # q \<Rightarrow>
          if b \<noteq> 34 then Inl Malformed
          else followed_by (nested_read_string q)
            (\<lambda>x. followed_by (nested_skip_value n (skip_byte 58 (skip_ws (snd x))) (depth + 1))
              (\<lambda>r. let p = after_item r in
                 if p \<noteq> [] \<and> hd p = 125 then Inr (tl p) else skip_object_loop n p depth)))"

  by pat_completeness auto
termination
  by (relation "measure (\<lambda>x. case x of
        Inl y \<Rightarrow> (case y of Inl v \<Rightarrow> fst v | Inr a \<Rightarrow> fst a)
      | Inr y \<Rightarrow> (case y of Inl l \<Rightarrow> fst l | Inr z \<Rightarrow> (case z of Inl ob \<Rightarrow> fst ob | Inr m \<Rightarrow> fst m)))")
     simp_all

subsection \<open>Every scan makes progress and ends\<close>

lemma skip_ws_le: "length (skip_ws bs) \<le> length bs"
  by (induction bs) auto

lemma skip_byte_le: "length (skip_byte c bs) \<le> length bs"
  by (cases bs) auto

lemma after_item_le: "length (after_item bs) \<le> length bs"
  unfolding after_item_def by (meson order_trans skip_ws_le skip_byte_le)

lemma quote_scan_shorter: "quote_scan bs = Some (raw, e, r) \<Longrightarrow> length r < length bs"
  by (induction bs arbitrary: raw e rule: quote_scan.induct)
     (fastforce split: if_splits option.splits list.splits)+

lemma read_string_shorter: "nested_read_string bs = Inr (s, r) \<Longrightarrow> length r < length bs"
  by (auto simp: nested_read_string_def dest: quote_scan_shorter split: option.splits if_splits)

lemma number_span_end_le: "length (number_span_end bs) \<le> length bs"
  by (induction bs) auto

lemma read_number_shorter:
  "bs \<noteq> [] \<Longrightarrow> nested_read_number bs = Inr (v, r) \<Longrightarrow> length r < length bs"
  using number_span_end_le [of "tl bs"]
  by (cases bs) (auto simp: nested_read_number_def Let_def split: option.splits if_splits)

lemma starts_with_le: "starts_with bs lit \<Longrightarrow> length lit \<le> length bs"
  by (metis length_take min.bounded_iff starts_with_def order_refl)

lemma skip_ws_ConsD: "skip_ws bs = b # q \<Longrightarrow> Suc (length q) \<le> length bs"
  using skip_ws_le [of bs] by simp

lemma value_shorter:
  assumes "nested_skip_value n bs d = Inr r"
    and "\<And>m q. n = Suc m \<Longrightarrow> nested_skip_array m q d = Inr r \<Longrightarrow> length r \<le> length q"
    and "\<And>m q. n = Suc m \<Longrightarrow> nested_skip_object m q d = Inr r \<Longrightarrow> length r \<le> length q"
  shows "length r < length bs"
proof (cases n)
  case (Suc m)
  with assms(1) obtain b q where q: "skip_ws bs = b # q" by (auto split: if_splits list.splits)
  then have len: "Suc (length q) \<le> length bs" by (rule skip_ws_ConsD)
  show ?thesis
    using assms(1) q len Suc assms(2,3) [OF Suc, of q]
    by (auto simp: followed_by_Inr lit_true_def lit_false_def lit_null_def split: if_splits
        dest!: read_string_shorter read_number_shorter [rotated] starts_with_le)
qed (use assms(1) in simp)

lemma skip_shorter:
  "nested_skip_value n bs d = Inr r \<Longrightarrow> length r < length bs"
  "nested_skip_array n bs d = Inr r \<Longrightarrow> length r \<le> length bs"
  "skip_array_loop n bs d = Inr r \<Longrightarrow> length r \<le> length bs"
  "nested_skip_object n bs d = Inr r \<Longrightarrow> length r \<le> length bs"
  "skip_object_loop n bs d = Inr r \<Longrightarrow> length r \<le> length bs"
proof (induction n arbitrary: bs d r)
  case (Suc n)
  note IH = Suc.IH
  {
    case 1
    then show ?case by (rule value_shorter) (auto intro: IH)
  next
    case 2
    then show ?case
      using skip_ws_le [of bs] IH(3) [of "skip_ws bs" d r]
      by (cases "skip_ws bs") (auto simp: Let_def split: if_splits)
  next
    case 3
    show ?case
    proof (cases "bs = [] \<or> hd bs = 93")
      case False
      with 3 obtain v where v: "nested_skip_value n bs (d + 1) = Inr v"
        and r: "skip_array_loop n (after_item v) d = Inr r"
        by (auto simp: followed_by_Inr split: if_splits)
      then show ?thesis using IH(1) [OF v] IH(3) [OF r] after_item_le [of v] by linarith
    qed (use 3 in \<open>auto split: if_splits\<close>)
  next
    case 4
    then show ?case
      using skip_ws_le [of bs] IH(5) [of "skip_ws bs" d r]
      by (cases "skip_ws bs") (auto simp: Let_def split: if_splits)
  next
    case 5
    show ?case
    proof (cases "bs = []")
      case False
      with 5 obtain b q s q' v where "skip_ws bs = b # q" "nested_read_string q = Inr (s, q')"
        and v: "nested_skip_value n (skip_byte 58 (skip_ws q')) (d + 1) = Inr v"
        and r: "(let p = after_item v in
           if p \<noteq> [] \<and> hd p = 125 then Inr (tl p) else skip_object_loop n p d) = Inr r"
        by (auto simp: followed_by_Inr split: list.splits if_splits)
      moreover have "length r \<le> length (after_item v)"
        using r IH(5) [of "after_item v" d r] by (auto simp: Let_def split: if_splits)
      moreover note IH(1) [OF v] after_item_le [of v] skip_ws_ConsD [of bs b q]
        read_string_shorter [of q s q'] skip_byte_le [of 58 "skip_ws q'"] skip_ws_le [of q']
      ultimately show ?thesis by linarith
    qed (use 5 in simp)
  }
qed simp_all

text \<open>The fuel: three calls per byte are enough, so \<open>OutOfFuel\<close> is no outcome of a scan that
  starts with three times the document's length.\<close>

lemma read_string_fuel: "nested_read_string bs \<noteq> Inl OutOfFuel"
  by (simp add: nested_read_string_def split: option.splits)

lemma read_number_fuel: "nested_read_number bs \<noteq> Inl OutOfFuel"
  by (simp add: nested_read_number_def Let_def split: option.splits)

lemma skip_fuel:
  "3 * length bs + 1 \<le> n \<Longrightarrow> nested_skip_value n bs d \<noteq> Inl OutOfFuel"
  "3 * length bs + 3 \<le> n \<Longrightarrow> nested_skip_array n bs d \<noteq> Inl OutOfFuel"
  "3 * length bs + 2 \<le> n \<Longrightarrow> skip_array_loop n bs d \<noteq> Inl OutOfFuel"
  "3 * length bs + 3 \<le> n \<Longrightarrow> nested_skip_object n bs d \<noteq> Inl OutOfFuel"
  "3 * length bs + 2 \<le> n \<Longrightarrow> skip_object_loop n bs d \<noteq> Inl OutOfFuel"
proof (induction n arbitrary: bs d)
  case (Suc n)
  note IH = Suc.IH
  {
    case 1
    show ?case
    proof (cases "skip_ws bs")
      case (Cons b q)
      then have "3 * length q + 3 \<le> n" using 1 skip_ws_ConsD [OF Cons] by linarith
      then have "nested_skip_array n q d \<noteq> Inl OutOfFuel" "nested_skip_object n q d \<noteq> Inl OutOfFuel"
        by (rule IH)+
      then show ?thesis
        using Cons read_string_fuel read_number_fuel by (simp add: followed_by_Inl)
    qed simp
  next
    case 2
    then have "3 * length (skip_ws bs) + 2 \<le> n" using skip_ws_le [of bs] by linarith
    then show ?case using IH(3) [of "skip_ws bs" d] by (simp add: Let_def)
  next
    case 3
    have "skip_array_loop n (after_item r) d \<noteq> Inl OutOfFuel"
      if "nested_skip_value n bs (d + 1) = Inr r" for r
      using 3 skip_shorter(1) [OF that] after_item_le [of r] by (intro IH(3)) linarith
    moreover have "nested_skip_value n bs (d + 1) \<noteq> Inl OutOfFuel"
      using 3 by (intro IH(1)) simp
    ultimately show ?case by (simp add: followed_by_Inl)
  next
    case 4
    then have "3 * length (skip_ws bs) + 2 \<le> n" using skip_ws_le [of bs] by linarith
    then show ?case using IH(5) [of "skip_ws bs" d] by (simp add: Let_def)
  next
    case 5
    show ?case
    proof (cases "skip_ws bs")
      case (Cons b q)
      have "nested_skip_value n (skip_byte 58 (skip_ws q')) (d + 1) \<noteq> Inl OutOfFuel \<and>
          (\<forall>r. nested_skip_value n (skip_byte 58 (skip_ws q')) (d + 1) = Inr r \<longrightarrow>
             skip_object_loop n (after_item r) d \<noteq> Inl OutOfFuel)"
        if "nested_read_string q = Inr (s, q')" for s q'
      proof -
        let ?v = "skip_byte 58 (skip_ws q')"
        have v: "3 * length ?v + 4 \<le> n"
          using 5 skip_ws_ConsD [OF Cons] read_string_shorter [OF that]
            skip_byte_le [of 58 "skip_ws q'"] skip_ws_le [of q'] by linarith
        have "skip_object_loop n (after_item r) d \<noteq> Inl OutOfFuel"
          if "nested_skip_value n ?v (d + 1) = Inr r" for r
          using v skip_shorter(1) [OF that] after_item_le [of r] by (intro IH(5)) linarith
        moreover have "nested_skip_value n ?v (d + 1) \<noteq> Inl OutOfFuel"
          using v by (intro IH(1)) simp
        ultimately show ?thesis by blast
      qed
      then show ?thesis
        using Cons read_string_fuel [of q] by (auto simp: followed_by_Inl Let_def)
    qed simp
  }
qed simp_all

definition skip_value :: "bytes \<Rightarrow> nat \<Rightarrow> bytes parse" where
  "skip_value bs depth = nested_skip_value (3 * length bs + 1) bs depth"

lemma skip_ends: "skip_value bs d \<noteq> Inl OutOfFuel"
  unfolding skip_value_def by (rule skip_fuel(1)) simp

end
