(* ===== verification/JsonText.thy ===== *)
theory JsonText
  imports Json Rfc8259
begin

text \<open>
  The strings of \<open>json.rs\<close>: \<open>spells raw s\<close> follows the reader, in its own escapes, digits and
  encoder. It is the grammar of RFC 8259 (\<open>json_string\<close> of \<open>Rfc8259\<close>) with raw control bytes let
  through, so the reader takes exactly that, and it keeps UTF-8.
\<close>

subsection \<open>What a string spells\<close>

definition surrogate :: "nat \<Rightarrow> bool" where
  "surrogate code \<longleftrightarrow> 0xD800 \<le> code \<and> code \<le> 0xDFFF"

definition hex4 :: "bytes \<Rightarrow> nat \<Rightarrow> bool" where
  "hex4 ds code \<longleftrightarrow> length ds = 4 \<and> hex_digits 0 ds = Some code"

inductive spells :: "bytes \<Rightarrow> bytes \<Rightarrow> bool" where
  spells_end: "spells [] []"
| spells_plain: "c \<noteq> 92 \<Longrightarrow> c \<noteq> 34 \<Longrightarrow> spells raw s \<Longrightarrow> spells (c # raw) (c # s)"
| spells_simple: "simple_escape e = Some c \<Longrightarrow> spells raw s \<Longrightarrow> spells (92 # e # raw) (c # s)"
| spells_unit: "hex4 ds code \<Longrightarrow> \<not> surrogate code \<Longrightarrow> spells raw s \<Longrightarrow>
    spells (92 # 117 # ds @ raw) (nested_push_utf8 code @ s)"
| spells_pair: "hex4 ds hi \<Longrightarrow> hex4 es lo \<Longrightarrow> 0xD800 \<le> hi \<Longrightarrow> hi \<le> 0xDBFF \<Longrightarrow>
    0xDC00 \<le> lo \<Longrightarrow> lo \<le> 0xDFFF \<Longrightarrow> spells raw s \<Longrightarrow>
    spells (92 # 117 # ds @ 92 # 117 # es @ raw)
      (nested_push_utf8 (0x10000 + (hi - 0xD800) * 1024 + (lo - 0xDC00)) @ s)"

lemma hex4_take: "4 \<le> length bs \<Longrightarrow> nested_hex4 bs = Some code \<longleftrightarrow> hex4 (take 4 bs) code"
  by (simp add: nested_hex4_def hex4_def)

lemma hex4_append: "hex4 ds code \<Longrightarrow> nested_hex4 (ds @ bs) = Some code"
  by (simp add: nested_hex4_def hex4_def)

lemma hex_value_less: "hex_value b = Some d \<Longrightarrow> d < 16"
  by (auto simp: hex_value_def split: if_splits)

lemma hex_value_ascii: "hex_value b = Some d \<Longrightarrow> unat b < 0x80 \<and> b \<noteq> 34 \<and> b \<noteq> 92"
  by (auto simp: hex_value_def split: if_splits)

lemma hex_digits_bound: "hex_digits v ds = Some code \<Longrightarrow> code < (v + 1) * 16 ^ length ds"
proof (induction ds arbitrary: v)
  case (Cons b ds)
  then obtain d where d: "hex_value b = Some d" "hex_digits (v * 16 + d) ds = Some code"
    by (auto split: option.splits)
  have "code < (v * 16 + d + 1) * 16 ^ length ds" by (rule Cons.IH [OF d(2)])
  also have "\<dots> \<le> (v + 1) * 16 * 16 ^ length ds"
    using hex_value_less [OF d(1)] by (intro mult_right_mono) auto
  finally show ?case by (simp add: algebra_simps)
qed simp

lemma hex4_bound: "hex4 ds code \<Longrightarrow> code < 0x10000"
  using hex_digits_bound [of 0 ds code] by (simp add: hex4_def)

lemma hex_digits_ascii:
  "hex_digits v ds = Some code \<Longrightarrow> list_all (\<lambda>b. unat b < 0x80 \<and> b \<noteq> 34 \<and> b \<noteq> 92) ds"
  by (induction ds arbitrary: v) (auto dest: hex_value_ascii split: option.splits)

lemma split_six: "6 \<le> length q \<Longrightarrow> q = q ! 0 # q ! 1 # take 4 (drop 2 q) @ drop 6 q"
  by (cases q; cases "tl q") simp_all

text \<open>The escape \<open>\u\<close> consumes four digits, or ten bytes when it is a pair.\<close>

lemma unicode_escape_cases:
  assumes "unicode_escape bs = Some (code, r)"
  obtains ds where "bs = ds @ r" "hex4 ds code" "\<not> surrogate code"
  | ds hi es lo where "bs = ds @ 92 # 117 # es @ r" "hex4 ds hi" "hex4 es lo" "0xD800 \<le> hi"
      "hi \<le> 0xDBFF" "0xDC00 \<le> lo" "lo \<le> 0xDFFF"
      "code = 0x10000 + (hi - 0xD800) * 1024 + (lo - 0xDC00)"
proof -
  from assms obtain hi where len: "4 \<le> length bs" and hi: "nested_hex4 bs = Some hi"
    by (auto simp: unicode_escape_def split: if_splits option.splits)
  let ?ds = "take 4 bs" and ?q = "drop 4 bs"
  have ds: "hex4 ?ds hi" using hex4_take len hi by blast
  show thesis
  proof (cases "0xD800 \<le> hi \<and> hi \<le> 0xDBFF")
    case False
    then have "\<not> (0xDC00 \<le> hi \<and> hi \<le> 0xDFFF)" "code = hi" "r = ?q"
      using assms len hi by (auto simp: unicode_escape_def Let_def split: if_splits)
    then show thesis using False ds by (intro that(1) [of ?ds]) (auto simp: surrogate_def)
  next
    case True
    then obtain lo where q: "6 \<le> length ?q" "?q ! 0 = 92" "?q ! 1 = 117"
      "nested_hex4 (drop 2 ?q) = Some lo" "0xDC00 \<le> lo" "lo \<le> 0xDFFF"
      "code = 0x10000 + (hi - 0xD800) * 1024 + (lo - 0xDC00)" "r = drop 6 ?q"
      using assms len hi by (auto simp: unicode_escape_def Let_def split: if_splits option.splits)
    let ?es = "take 4 (drop 2 ?q)"
    have "?q = 92 # 117 # ?es @ r" using split_six [OF q(1)] unfolding q(2,3) q(8) .
    then have "bs = ?ds @ 92 # 117 # ?es @ r" by (metis append_take_drop_id)
    moreover have "hex4 ?es lo" using hex4_take [of "drop 2 ?q" lo] q(1,4) by simp
    ultimately show thesis using that(2) ds q True by blast
  qed
qed

lemma unicode_escape_unit:
  assumes "hex4 ds code" and "\<not> surrogate code"
  shows "unicode_escape (ds @ r) = Some (code, r)"
  using assms hex4_append [OF assms(1), of r]
  by (auto simp: unicode_escape_def hex4_def surrogate_def Let_def)

lemma unicode_escape_pair:
  assumes "hex4 ds hi" and "hex4 es lo" and "0xD800 \<le> hi" and "hi \<le> 0xDBFF"
    and "0xDC00 \<le> lo" and "lo \<le> 0xDFFF"
  shows "unicode_escape (ds @ 92 # 117 # es @ r) =
    Some (0x10000 + (hi - 0xD800) * 1024 + (lo - 0xDC00), r)"
proof -
  have "length ds = 4" "length es = 4" using assms(1,2) by (simp_all add: hex4_def)
  then show ?thesis
    using assms hex4_append [OF assms(1), of "92 # 117 # es @ r"] hex4_append [OF assms(2), of r]
    by (simp add: unicode_escape_def Let_def)
qed

lemma unescape_out: "nested_unescape raw out = map_option (append out) (nested_unescape raw [])"
proof (induction raw arbitrary: out rule: length_induct)
  case (1 raw)
  have IH: "nested_unescape r o2 = map_option (append o2) (nested_unescape r [])"
    if "length r < length raw" for r o2
    using 1 that by blast
  show ?case
  proof (cases raw)
    case (Cons c bs)
    show ?thesis
    proof (cases "c = 92")
      case False
      then show ?thesis
        using IH [of bs "out @ [c]"] IH [of bs "[c]"] Cons
        by (cases "nested_unescape bs []") simp_all
    next
      case True
      show ?thesis
      proof (cases bs)
        case Nil
        then show ?thesis using Cons True by simp
      next
        case c2: (Cons e q)
        have simple: "nested_unescape q (o2 @ [x]) = map_option (append (o2 @ [x])) (nested_unescape q [])"
          for o2 x using Cons c2 by (intro IH) simp
        have unit: "nested_unescape r (o2 @ u) = map_option (append (o2 @ u)) (nested_unescape r [])"
          if "unicode_escape q = Some (code, r)" for o2 u code r
          using unicode_escape_shorter [OF that] Cons c2 by (intro IH) simp
        show ?thesis
        proof (cases "e = 117")
          case True
          show ?thesis
          proof (cases "unicode_escape q")
            case (Some x)
            then obtain code r where x: "unicode_escape q = Some (code, r)" by (cases x) auto
            let ?u = "nested_push_utf8 code"
            show ?thesis
              using Cons c2 \<open>c = 92\<close> True x unit [OF x, of "[]" ?u] unit [OF x, of out ?u]
              by (cases "nested_unescape r []") simp_all
          qed (use Cons c2 \<open>c = 92\<close> True in simp)
        next
          case False
          show ?thesis
          proof (cases "simple_escape e")
            case (Some x)
            then show ?thesis
              using Cons c2 \<open>c = 92\<close> False simple [of "[]" x] simple [of out x]
              by (cases "nested_unescape q []") simp_all
          qed (use Cons c2 \<open>c = 92\<close> False in simp)
        qed
      qed
    qed
  qed simp
qed

text \<open>The bytes up to the closing quote, and what they spell.\<close>

lemma quote_scan_plain: "c \<noteq> 34 \<Longrightarrow> c \<noteq> 92 \<Longrightarrow> quote_scan (c # bs) =
    (case quote_scan bs of None \<Rightarrow> None | Some (raw, e, r) \<Rightarrow> Some (c # raw, e, r))"
  by simp

lemma spells_scanned:
  "spells raw s \<Longrightarrow> \<exists>e. quote_scan (raw @ 34 # r) = Some (raw, e, r) \<and> (\<not> e \<longrightarrow> raw = s)"
proof (induction rule: spells.induct)
  case (spells_unit ds code raw s)
  then have "list_all (\<lambda>b. unat b < 0x80 \<and> b \<noteq> 34 \<and> b \<noteq> 92) ds"
    by (auto simp: hex4_def dest: hex_digits_ascii)
  then have "\<exists>e. quote_scan (ds @ raw @ 34 # r) = Some (ds @ raw, e, r)"
    using spells_unit.IH by (induction ds) auto
  then show ?case by auto
next
  case (spells_pair ds hi es lo raw s)
  then have ds: "list_all (\<lambda>b. unat b < 0x80 \<and> b \<noteq> 34 \<and> b \<noteq> 92) ds"
    and es: "list_all (\<lambda>b. unat b < 0x80 \<and> b \<noteq> 34 \<and> b \<noteq> 92) es"
    by (auto simp: hex4_def dest: hex_digits_ascii)
  have "\<exists>e. quote_scan (es @ raw @ 34 # r) = Some (es @ raw, e, r)"
    using es spells_pair.IH by (induction es) auto
  then have "\<exists>e. quote_scan (92 # 117 # es @ raw @ 34 # r) = Some (92 # 117 # es @ raw, e, r)"
    by auto
  then have "\<exists>e. quote_scan (ds @ 92 # 117 # es @ raw @ 34 # r) = Some (ds @ 92 # 117 # es @ raw, e, r)"
    using ds by (induction ds) auto
  then show ?case by auto
qed (auto simp: quote_scan_plain)

lemma spells_unescape: "spells raw s \<Longrightarrow> nested_unescape raw [] = Some s"
proof (induction rule: spells.induct)
  case (spells_plain c raw s)
  then show ?case by (simp add: unescape_out [of raw "[c]"])
next
  case (spells_simple e c raw s)
  then have "e \<noteq> 117" by (auto simp: simple_escape_def)
  then show ?case using spells_simple by (simp add: unescape_out [of raw "[c]"])
next
  case (spells_unit ds code raw s)
  then show ?case
    by (simp add: unicode_escape_unit unescape_out [of raw "nested_push_utf8 code"])
next
  case (spells_pair ds hi es lo raw s)
  then show ?case
    by (simp add: unicode_escape_pair [OF spells_pair(1-6)] unescape_out [of raw "nested_push_utf8 _"])
qed simp

lemma quote_scan_append: "quote_scan bs = Some (raw, e, r) \<Longrightarrow> bs = raw @ 34 # r"
  by (induction bs arbitrary: raw e rule: quote_scan.induct)
     (auto split: if_splits option.splits list.splits)

lemma quote_scan_over:
  "list_all (\<lambda>b. unat b < 0x80 \<and> b \<noteq> 34 \<and> b \<noteq> 92) ds \<Longrightarrow>
     quote_scan (ds @ bs) = map_option (\<lambda>(raw, e, r). (ds @ raw, e, r)) (quote_scan bs)"
  by (induction ds) (cases "quote_scan bs"; auto)+

lemma hex4_over:
  "hex4 ds code \<Longrightarrow>
     quote_scan (ds @ bs) = map_option (\<lambda>(raw, e, r). (ds @ raw, e, r)) (quote_scan bs)"
  by (rule quote_scan_over) (auto simp: hex4_def dest: hex_digits_ascii)

lemma unescape_spells:
  "quote_scan (raw @ 34 # r) = Some (raw, e, r) \<Longrightarrow> nested_unescape raw [] = Some s \<Longrightarrow> spells raw s"
proof (induction raw arbitrary: e s rule: length_induct)
  case (1 raw)
  have IH: "spells q t"
    if "length q < length raw" "quote_scan (q @ 34 # r) = Some (q, f, r)" "nested_unescape q [] = Some t"
    for q f t
    using 1 that by blast
  note scan = "1.prems"(1) and dec = "1.prems"(2)
  show ?case
  proof (cases raw)
    case Nil
    then show ?thesis using dec by (simp add: spells_end)
  next
    case (Cons c q)
    then have "c \<noteq> 34" using scan by auto
    show ?thesis
    proof (cases "c = 92")
      case False
      then obtain f where "quote_scan (q @ 34 # r) = Some (q, f, r)"
        using scan Cons \<open>c \<noteq> 34\<close> by (auto split: option.splits)
      moreover obtain t where "nested_unescape q [] = Some t" "s = c # t"
        using dec Cons False unescape_out [of q "[c]"] by auto
      ultimately show ?thesis using IH [of q] False \<open>c \<noteq> 34\<close> Cons by (simp add: spells_plain)
    next
      case True
      then obtain d p where q: "q = d # p" using dec Cons by (cases q) auto
      then have p: "quote_scan (p @ 34 # r) \<noteq> None"
        "\<And>x y z. quote_scan (p @ 34 # r) = Some (x, y, z) \<Longrightarrow> x = p \<and> z = r"
        using scan Cons True by (auto split: option.splits)
      then obtain f where f: "quote_scan (p @ 34 # r) = Some (p, f, r)" by fastforce
      show ?thesis
      proof (cases "d = 117")
        case False
        then obtain x where x: "simple_escape d = Some x"
          using dec Cons True q by (auto split: option.splits)
        moreover obtain t where "nested_unescape p [] = Some t" "s = x # t"
          using dec Cons True q False x unescape_out [of p "[x]"] by auto
        ultimately show ?thesis using IH [of p] f Cons True q by (simp add: spells_simple)
      next
        case u: True
        then obtain code w where w: "unicode_escape p = Some (code, w)"
          using dec Cons True q by (auto split: option.splits)
        then obtain t where t: "nested_unescape w [] = Some t" "s = nested_push_utf8 code @ t"
          using dec Cons True q u unescape_out [of w "nested_push_utf8 code"] by auto
        have shorter: "length w < length raw"
          using unicode_escape_shorter [OF w] Cons q by simp
        from w show ?thesis
        proof (cases rule: unicode_escape_cases)
          case (1 ds)
          then obtain g where "quote_scan (w @ 34 # r) = Some (w, g, r)"
            using f hex4_over [of ds code "w @ 34 # r"] by auto
          then show ?thesis
            using IH [OF shorter] t 1 Cons True q u by (simp add: spells_unit)
        next
          case (2 ds hi es lo)
          then obtain g where "quote_scan (w @ 34 # r) = Some (w, g, r)"
            using f hex4_over [of ds hi "92 # 117 # es @ w @ 34 # r"] hex4_over [of es lo "w @ 34 # r"]
            by (auto split: option.splits)
          then show ?thesis
            using IH [OF shorter _ t(1)] spells_pair [OF 2(2-7)] t(2) 2(1,8) Cons True q u by simp
        qed
      qed
    qed
  qed
qed

lemma unescaped_spells: "quote_scan bs = Some (raw, False, r) \<Longrightarrow> spells raw raw"
  by (induction bs arbitrary: raw rule: quote_scan.induct)
     (auto intro: spells.intros split: if_splits option.splits list.splits)

text \<open>The standard's own tables say the same.\<close>

lemma hex_value_iff: "hex_value b = Some n \<longleftrightarrow> hexdig b n"
proof
  assume v: "hex_value b = Some n"
  have b: "b = of_nat (unat b)" by simp
  consider "48 \<le> unat b" "unat b \<le> 57" | "97 \<le> unat b" "unat b \<le> 102" | "65 \<le> unat b" "unat b \<le> 70"
    using v by (auto simp: hex_value_def split: if_splits)
  then have "unat b \<in> {48, 49, 50, 51, 52, 53, 54, 55, 56, 57, 97, 98, 99, 100, 101, 102, 65, 66, 67, 68, 69, 70}"
    by cases (simp_all only: insert_iff empty_iff; presburger)+
  then obtain k where "b = of_nat k" "k \<in> {48, 49, 50, 51, 52, 53, 54, 55, 56, 57, 97, 98, 99, 100, 101, 102, 65, 66, 67, 68, 69, 70}"
    using b by blast
  then show "hexdig b n" using v by (auto simp: hex_value_def hexdig_def)
next
  assume "hexdig b n"
  then have "n < 16" "b = of_char (''0123456789ABCDEF'' ! n) \<or> b = of_char (''0123456789abcdef'' ! n)"
    by (simp_all add: hexdig_def)
  then show "hex_value b = Some n"
    using below_16 [of n] by (auto simp: hex_value_def)
qed

lemma hex4_iff: "hex4 ds code \<longleftrightarrow> four_hexdig ds code"
proof
  assume "hex4 ds code"
  then obtain a b c d where "ds = [a, b, c, d]" "hex_digits 0 [a, b, c, d] = Some code"
    by (auto simp: hex4_def length_Suc_conv eval_nat_numeral)
  then show "four_hexdig ds code"
    using four_hexdig.intros
    by (fastforce split: option.splits simp: hex_value_iff algebra_simps)
next
  assume "four_hexdig ds code"
  then show "hex4 ds code"
    by (rule four_hexdig.cases) (auto simp: hex4_def algebra_simps simp flip: hex_value_iff)
qed

lemma digit_split: "z < n \<Longrightarrow> (a * n + z) div n = a" "z < n \<Longrightarrow> (a * n + z) mod n = (z :: nat)"
  by simp_all

lemma utf8_char_iff:
  assumes "code \<le> 0x10FFFF"
  shows "utf8_char code u \<longleftrightarrow> u = nested_push_utf8 code"
proof
  assume "utf8_char code u"
  then show "u = nested_push_utf8 code"
  proof cases
    case (U2 x y)
    then have "code div 64 = x" "code mod 64 = y" "code < 2048" by simp_all
    then show ?thesis using U2 by (simp add: nested_push_utf8_def)
  next
    case (U3 x y z)
    then have e: "code = (x * 64 + y) * 64 + z" "code = x * 4096 + (y * 64 + z)" by simp_all
    have "code div 64 = x * 64 + y" "code mod 64 = z" unfolding e(1) using U3 by (intro digit_split; simp)+
    moreover have "code div 4096 = x" unfolding e(2) using U3 by (intro digit_split) simp
    moreover have "2048 \<le> code" "code < 65536" unfolding e(2) using U3 by simp_all
    ultimately show ?thesis using U3(2-4) by (simp add: nested_push_utf8_def)
  next
    case (U4 x y z w)
    then have e: "code = ((x * 64 + y) * 64 + z) * 64 + w" "code = (x * 64 + y) * 4096 + (z * 64 + w)"
      "code = x * 262144 + (y * 4096 + (z * 64 + w))" by simp_all
    have "code div 64 = (x * 64 + y) * 64 + z" "code mod 64 = w"
      unfolding e(1) using U4 by (intro digit_split; simp)+
    moreover have "code div 4096 = x * 64 + y" unfolding e(2) using U4 by (intro digit_split) simp
    moreover have "code div 262144 = x" unfolding e(3) using U4 by (intro digit_split) simp
    moreover have "((x * 64 + y) * 64 + z) mod 64 = z" "(x * 64 + y) mod 64 = y"
      using U4 by (intro digit_split; simp)+
    moreover have "65536 \<le> code" unfolding e(3) using U4 by simp
    ultimately have "nested_push_utf8 code = [of_nat (0xF0 + x), of_nat (0x80 + y), of_nat (0x80 + z), of_nat (0x80 + w)]"
      unfolding nested_push_utf8_def by (simp only:) simp
    then show ?thesis using U4(2) by (simp add: nested_push_utf8_def)
  qed (simp add: nested_push_utf8_def)
next
  have six: "code = code div 64 * 64 + code mod 64" "code div 64 = code div 4096 * 64 + code div 64 mod 64"
    "code div 4096 = code div 262144 * 64 + code div 4096 mod 64"
    using div_mult2_eq [of code 64 64] div_mult2_eq [of code 4096 64]
    by (simp_all only: div_mult_mod_eq) simp_all
  consider (1) "code < 0x80" | (2) "0x80 \<le> code" "code < 0x800"
    | (3) "0x800 \<le> code" "code < 0x10000" | (4) "0x10000 \<le> code"
    by linarith
  moreover assume "u = nested_push_utf8 code"
  ultimately show "utf8_char code u"
  proof cases
    case 1
    then show ?thesis using U1 [of code] \<open>u = _\<close> by (simp add: nested_push_utf8_def)
  next
    case 2
    then show ?thesis using U2 [of "code div 64" "code mod 64"] \<open>u = _\<close> six
      by (simp add: nested_push_utf8_def less_mult_imp_div_less)
  next
    case 3
    have "code = code div 4096 * 4096 + code div 64 mod 64 * 64 + code mod 64"
      using six by linarith
    then show ?thesis using 3 U3 [of "code div 4096" "code div 64 mod 64" "code mod 64"] \<open>u = _\<close>
      by (simp add: nested_push_utf8_def less_mult_imp_div_less)
  next
    case 4
    have "code = code div 262144 * 262144 + code div 4096 mod 64 * 4096 + code div 64 mod 64 * 64 + code mod 64"
      using six by linarith
    moreover have "code div 262144 < 2 ^ 3" using assms by (simp add: less_mult_imp_div_less)
    ultimately show ?thesis
      using 4 assms U4 [of "code div 262144" "code div 4096 mod 64" "code div 64 mod 64" "code mod 64"] \<open>u = _\<close>
      by (simp add: nested_push_utf8_def)
  qed
qed

lemma escape_iff: "simple_escape e = Some c \<longleftrightarrow> (e, c) \<in> set escape_table"
  by (auto simp: simple_escape_def escape_table_def)

lemma spells_iff: "spells raw s \<longleftrightarrow> json_string True raw s"
proof
  assume "spells raw s"
  then show "json_string True raw s"
  proof (induction rule: spells.induct)
    case (spells_unit ds code raw s)
    moreover have "utf8_char code (nested_push_utf8 code)"
      using hex4_bound [OF spells_unit.hyps(1)] utf8_char_iff [of code] by simp
    ultimately show ?case by (intro S_unit) (simp_all add: hex4_iff surrogate_def)
  next
    case (spells_pair ds hi es lo raw s)
    moreover have "utf8_char (0x10000 + (hi - 0xD800) * 1024 + (lo - 0xDC00))
        (nested_push_utf8 (0x10000 + (hi - 0xD800) * 1024 + (lo - 0xDC00)))"
      using spells_pair.hyps by (subst utf8_char_iff) simp_all
    ultimately show ?case
      by (intro S_pair [where i = "hi - 0xD800" and j = "lo - 0xDC00"]) (simp_all add: hex4_iff)
  qed (auto intro: json_string.intros simp: escape_iff)
next
  assume "json_string True raw s"
  then show "spells raw s"
  proof (induction rule: json_string.induct)
    case (S_unit ds code u raw s)
    then have "u = nested_push_utf8 code"
      using hex4_bound [of ds code] by (simp add: hex4_iff utf8_char_iff)
    then show ?case using S_unit by (simp add: spells_unit hex4_iff surrogate_def)
  next
    case (S_pair ds i es j u raw s)
    then have "u = nested_push_utf8 (0x10000 + i * 1024 + j)" by (simp add: utf8_char_iff)
    then show ?case
      using S_pair spells_pair [of ds "0xD800 + i" es "0xDC00 + j" raw s] by (simp add: hex4_iff)
  qed (auto intro: spells.intros simp: escape_iff)
qed

lemma read_string_spells:
  "nested_read_string bs = Inr (s, r) \<longleftrightarrow> (\<exists>raw. bs = raw @ 34 # r \<and> spells raw s)"
proof
  assume read: "nested_read_string bs = Inr (s, r)"
  then obtain raw e where scan: "quote_scan bs = Some (raw, e, r)"
    and s: "if e then nested_unescape raw [] = Some s else s = raw"
    by (auto simp: nested_read_string_def split: option.splits if_splits)
  have bs: "bs = raw @ 34 # r" using scan by (rule quote_scan_append)
  have "spells raw s"
    using s scan unescaped_spells unescape_spells unfolding bs by (cases e) auto
  then show "\<exists>raw. bs = raw @ 34 # r \<and> spells raw s" using bs by blast
next
  assume "\<exists>raw. bs = raw @ 34 # r \<and> spells raw s"
  then obtain raw where bs: "bs = raw @ 34 # r" and raw: "spells raw s" by blast
  obtain e where "quote_scan bs = Some (raw, e, r)" "\<not> e \<longrightarrow> raw = s"
    using spells_scanned [OF raw] bs by blast
  then show "nested_read_string bs = Inr (s, r)"
    using spells_unescape [OF raw] by (cases e) (auto simp: nested_read_string_def)
qed


subsection \<open>The decoded string is UTF-8\<close>

lemma utf8_valid_ascii: "unat c < 0x80 \<Longrightarrow> utf8_valid (c # ys) \<longleftrightarrow> utf8_valid ys"
  by (simp add: utf8_valid_Cons [of "c # ys"] lead_width_def Let_def)

lemma utf8_split_ascii:
  assumes c: "unat c < 0x80"
  shows "utf8_valid (xs @ c # ys) \<longleftrightarrow> utf8_valid xs \<and> utf8_valid ys"
proof (induction xs rule: utf8_valid.induct)
  case (1 xs)
  show ?case
  proof (cases "xs = []")
    case True
    then show ?thesis using c by (simp add: utf8_valid_ascii)
  next
    case False
    let ?h = "utf8_head (xs @ c # ys)"
    have in_xs: "?h \<le> length xs" if "?h \<noteq> 0"
    proof (rule ccontr)
      assume "\<not> ?h \<le> length xs"
      then have "is_cont ((xs @ c # ys) ! length xs)"
        using False by (intro utf8_head_conts) auto
      then show False using c by (simp add: is_cont_iff)
    qed
    have head: "utf8_head xs = ?h" if h: "?h \<noteq> 0"
    proof -
      have "take ?h (xs @ c # ys) = take ?h xs" using in_xs [OF h] by simp
      then have "utf8_head (take ?h xs) = ?h" using utf8_head_take [OF h] by simp
      then show ?thesis
        using utf8_head_append [of "take ?h xs" "drop ?h xs"] h by simp
    qed
    have "utf8_head xs \<noteq> 0 \<longleftrightarrow> ?h \<noteq> 0"
      using head utf8_head_append [of xs "c # ys"] by auto
    moreover have "utf8_valid (xs @ c # ys) \<longleftrightarrow> ?h \<noteq> 0 \<and> utf8_valid (drop ?h (xs @ c # ys))"
      by (rule utf8_valid_Cons) simp
    moreover have "utf8_valid xs \<longleftrightarrow> utf8_head xs \<noteq> 0 \<and> utf8_valid (drop (utf8_head xs) xs)"
      by (rule utf8_valid_Cons [OF False])
    moreover have "utf8_valid (drop (utf8_head xs) xs @ c # ys) \<longleftrightarrow>
        utf8_valid (drop (utf8_head xs) xs) \<and> utf8_valid ys" if "utf8_head xs \<noteq> 0"
      using "1.IH" False that by blast
    moreover have "drop ?h (xs @ c # ys) = drop ?h xs @ c # ys" if "?h \<noteq> 0"
      using in_xs [OF that] by simp
    ultimately show ?thesis using head by metis
  qed
qed

lemma utf8_bytes_valid:
  assumes "bs \<noteq> []" and "utf8_head bs = length bs"
  shows "utf8_valid bs"
  using assms by (simp add: utf8_valid_Cons)

lemma of_nat_u8 [simp]: "unat (of_nat n :: u8) = n mod 256"
  by (simp add: unsigned_of_nat take_bit_eq_mod)

lemma utf8_two:
  "0xC2 \<le> unat a \<Longrightarrow> unat a \<le> 0xDF \<Longrightarrow> is_cont b \<Longrightarrow> utf8_valid [a, b]"
  by (rule utf8_bytes_valid) (simp_all add: lead_width_def second_ok_def Let_def)

lemma utf8_three:
  "0xE0 \<le> unat a \<Longrightarrow> unat a \<le> 0xEF \<Longrightarrow> is_cont b \<Longrightarrow> is_cont c \<Longrightarrow> second_ok a b \<Longrightarrow>
     utf8_valid [a, b, c]"
  by (rule utf8_bytes_valid) (simp_all add: lead_width_def Let_def)

lemma utf8_four:
  "0xF0 \<le> unat a \<Longrightarrow> unat a \<le> 0xF4 \<Longrightarrow> is_cont b \<Longrightarrow> is_cont c \<Longrightarrow> is_cont d \<Longrightarrow> second_ok a b \<Longrightarrow>
     utf8_valid [a, b, c, d]"
  by (rule utf8_bytes_valid) (simp_all add: lead_width_def Let_def)

lemma unat_small: "n < 256 \<Longrightarrow> unat (of_nat n :: u8) = n"
  using of_nat_u8 [of n] by (simp del: of_nat_u8)

lemma second_three:
  assumes "unat a = 0xE0 + x" and "unat b = 0x80 + y" and "x < 16" and "y < 64"
    and "32 \<le> x * 64 + y" and "x * 64 + y < 864 \<or> 896 \<le> x * 64 + y"
  shows "second_ok a b"
  unfolding second_ok_def assms(1,2) using assms(3-) by presburger

lemma second_four:
  assumes "unat a = 0xF0 + x" and "unat b = 0x80 + y" and "y < 64"
    and "16 \<le> x * 64 + y" and "x * 64 + y < 272"
  shows "second_ok a b"
  unfolding second_ok_def assms(1,2) using assms(3-) by presburger

lemma cont_byte: "is_cont (of_nat (0x80 + n mod 64))"
proof -
  have "n mod 64 < 64" by simp
  then have "unat (of_nat (0x80 + n mod 64) :: u8) = 0x80 + n mod 64" by (intro unat_small) linarith
  then show ?thesis using \<open>n mod 64 < 64\<close> unfolding is_cont_iff by linarith
qed

lemma push_utf8_valid:
  assumes "code < 0x110000" and "\<not> surrogate code"
  shows "utf8_valid (nested_push_utf8 code)"
proof -
  consider (1) "code < 0x80" | (2) "0x80 \<le> code" "code < 0x800"
    | (3) "0x800 \<le> code" "code < 0x10000" | (4) "0x10000 \<le> code"
    by linarith
  then show ?thesis
  proof cases
    case 1
    then show ?thesis by (simp add: nested_push_utf8_def utf8_valid_ascii)
  next
    case 2
    then have q: "2 \<le> code div 64" "code div 64 < 32" using div_le_mono [of 128 code 64] by (simp_all add: less_mult_imp_div_less)
    then have "unat (of_nat (0xC0 + code div 64) :: u8) = 0xC0 + code div 64"
      by (intro unat_small) linarith
    then have "utf8_valid [of_nat (0xC0 + code div 64), of_nat (0x80 + code mod 64)]"
      using q by (intro utf8_two cont_byte) linarith+
    then show ?thesis using 2 by (simp add: nested_push_utf8_def)
  next
    case 3
    let ?a = "code div 4096" and ?b = "code div 64 mod 64"
    have q: "?a < 16" "?b < 64" using 3 by (simp_all add: less_mult_imp_div_less)
    have a: "unat (of_nat (0xE0 + ?a) :: u8) = 0xE0 + ?a" using q by (intro unat_small) linarith
    have b: "unat (of_nat (0x80 + ?b) :: u8) = 0x80 + ?b" using q by (intro unat_small) linarith
    have split: "code div 64 = ?a * 64 + ?b" using div_mult2_eq [of code 64 64] by simp
    have "32 \<le> code div 64" using 3 div_le_mono [of 2048 code 64] by simp
    moreover have "code div 64 < 864 \<or> 896 \<le> code div 64"
    proof (cases "code < 0xD800")
      case False
      then have "0xE000 \<le> code" using assms(2) by (simp add: surrogate_def)
      then show ?thesis using div_le_mono [of 57344 code 64] by simp
    qed (simp add: less_mult_imp_div_less)
    ultimately have "second_ok (of_nat (0xE0 + ?a)) (of_nat (0x80 + ?b))"
      using q by (intro second_three [OF a b]) (simp_all only: split [symmetric])
    then have "utf8_valid [of_nat (0xE0 + ?a), of_nat (0x80 + ?b), of_nat (0x80 + code mod 64)]"
      using q a by (intro utf8_three cont_byte) linarith+
    then show ?thesis using 3 by (simp add: nested_push_utf8_def)
  next
    case 4
    let ?a = "code div 262144" and ?b = "code div 4096 mod 64"
    have q: "?a \<le> 4" "?b < 64" using assms(1) by (simp_all add: less_Suc_eq_le [symmetric] less_mult_imp_div_less)
    have a: "unat (of_nat (0xF0 + ?a) :: u8) = 0xF0 + ?a" using q by (intro unat_small) linarith
    have b: "unat (of_nat (0x80 + ?b) :: u8) = 0x80 + ?b" using q by (intro unat_small) linarith
    have split: "code div 4096 = ?a * 64 + ?b" using div_mult2_eq [of code 4096 64] by simp
    have "16 \<le> code div 4096" using 4 div_le_mono [of 65536 code 4096] by simp
    moreover have "code div 4096 < 272" using assms(1) by (simp add: less_mult_imp_div_less)
    ultimately have "second_ok (of_nat (0xF0 + ?a)) (of_nat (0x80 + ?b))"
      using q by (intro second_four [OF a b]) (simp_all only: split [symmetric])
    then have "utf8_valid [of_nat (0xF0 + ?a), of_nat (0x80 + ?b),
        of_nat (0x80 + code div 64 mod 64), of_nat (0x80 + code mod 64)]"
      using q a by (intro utf8_four cont_byte) linarith+
    then show ?thesis using 4 by (simp add: nested_push_utf8_def)
  qed
qed

lemma utf8_drop_ascii:
  "list_all (\<lambda>b. unat b < 0x80) ds \<Longrightarrow> utf8_valid (ds @ r) \<longleftrightarrow> utf8_valid r"
  by (induction ds) (simp_all add: utf8_valid_ascii)

lemma hex4_drop: "hex4 ds code \<Longrightarrow> utf8_valid (ds @ r) \<longleftrightarrow> utf8_valid r"
  by (rule utf8_drop_ascii) (auto simp: hex4_def list_all_iff dest: hex_digits_ascii)

lemma pair_code:
  assumes "0xD800 \<le> hi" and "hi \<le> 0xDBFF" and "0xDC00 \<le> lo" and "lo \<le> 0xDFFF"
  shows "0x10000 + (hi - 0xD800) * 1024 + (lo - 0xDC00) < 0x110000"
    and "\<not> surrogate (0x10000 + (hi - 0xD800) * 1024 + (lo - 0xDC00))"
  using assms by (simp_all add: surrogate_def)

lemma spells_valid: "spells raw s \<Longrightarrow> utf8_valid (out @ raw) \<Longrightarrow> utf8_valid (out @ s)"
proof (induction arbitrary: out rule: spells.induct)
  case (spells_plain c raw s)
  then show ?case using spells_plain.IH [of "out @ [c]"] by simp
next
  case (spells_simple e c raw s)
  then have e: "unat e < 0x80" "unat c < 0x80"
    by (auto simp: simple_escape_def split: if_splits)
  then have "utf8_valid out" "utf8_valid raw"
    using spells_simple.prems by (auto simp: utf8_split_ascii utf8_valid_ascii)
  then have "utf8_valid ((out @ [c]) @ raw)" using e by (simp add: utf8_split_ascii)
  then show ?case using spells_simple.IH [of "out @ [c]"] by simp
next
  case (spells_unit ds code raw s)
  then have v: "utf8_valid out" "utf8_valid raw"
    by (auto simp: utf8_split_ascii utf8_valid_ascii hex4_drop)
  have "utf8_valid (nested_push_utf8 code)"
    using spells_unit.hyps hex4_bound [of ds code] by (intro push_utf8_valid) auto
  then have "utf8_valid ((out @ nested_push_utf8 code) @ raw)"
    using v by (simp add: utf8_valid_append)
  then show ?case using spells_unit.IH [of "out @ nested_push_utf8 code"] by simp
next
  case (spells_pair ds hi es lo raw s)
  let ?u = "nested_push_utf8 (0x10000 + (hi - 0xD800) * 1024 + (lo - 0xDC00))"
  have v: "utf8_valid out" "utf8_valid raw"
    using spells_pair by (auto simp: utf8_split_ascii utf8_valid_ascii hex4_drop)
  have "utf8_valid ?u"
    using spells_pair.hyps by (intro push_utf8_valid pair_code)
  then have "utf8_valid ((out @ ?u) @ raw)" using v by (simp add: utf8_valid_append)
  then show ?case using spells_pair.IH [of "out @ ?u"] by simp
qed simp

text \<open>Reading a string keeps UTF-8: out of valid text comes a valid string, whatever its
  escapes, and the text after it is valid.\<close>

theorem read_string_keeps_utf8:
  assumes "nested_read_string bs = Inr (s, r)" and "utf8_valid bs"
  shows "utf8_valid s \<and> utf8_valid r"
proof -
  from assms(1) obtain raw where bs: "bs = raw @ 34 # r" and raw: "spells raw s"
    using read_string_spells by blast
  then have "utf8_valid raw" "utf8_valid r" using assms(2) by (simp_all add: utf8_split_ascii)
  then show ?thesis using spells_valid [OF raw, of "[]"] by simp
qed

theorem read_string_keeps_utf8_witness:
  "utf8_valid [0xF0, 0x9F, 0x98, 0x80, 0x0A] \<and> utf8_valid [125]"
proof (rule read_string_keeps_utf8)
  show "nested_read_string [92, 117, 100, 56, 51, 100, 92, 117, 100, 101, 48, 48, 92, 110, 34, 125] =
      Inr ([0xF0, 0x9F, 0x98, 0x80, 0x0A], [125])"
    by (simp add: nested_read_string_def unicode_escape_def nested_hex4_def hex_value_def
        nested_push_utf8_def simple_escape_def Let_def)
  show "utf8_valid [92, 117, 100, 56, 51, 100, 92, 117, 100, 101, 48, 48, 92, 110, 34, 125]"
    by (simp add: utf8_valid_ascii)
qed

end
