(* ===== verification/JsonFloat.thy ===== *)
theory JsonFloat
  imports JsonText Complex_Main
begin

text \<open>
  The float of a JSON number: \<open>float_of_span\<close> of \<open>json.rs\<close>, with the standard library's
  conversion of a decimal to the binary64 nearest to it, ties to the even one. A float is its
  64 bits; a decimal is a sign, a natural number and a power of ten. What the conversion takes
  besides numbers, \<open>inf\<close> and \<open>nan\<close>, is not finite and refused like a text that is no number.
\<close>

subsection \<open>The decimal\<close>

definition sign_of :: "bytes \<Rightarrow> bool \<times> bytes" where
  "sign_of bs =
     (case bs of b # r \<Rightarrow> if b = 45 then (True, r) else if b = 43 then (False, r) else (False, bs)
      | [] \<Rightarrow> (False, []))"

definition exponent_of :: "bytes \<Rightarrow> int option" where
  "exponent_of bs =
     (case bs of [] \<Rightarrow> Some 0
      | b # r \<Rightarrow>
          if b = 101 \<or> b = 69 then
            (case sign_of r of (neg, ds) \<Rightarrow>
               if ds = [] \<or> \<not> list_all is_ascii_digit ds then None
               else Some (if neg then - int (decimal_value 0 ds) else int (decimal_value 0 ds)))
          else None)"

definition decimal_of :: "bytes \<Rightarrow> (bool \<times> nat \<times> int) option" where
  "decimal_of bs =
     (case sign_of bs of (neg, r) \<Rightarrow>
        let whole = takeWhile is_ascii_digit r; r = dropWhile is_ascii_digit r;
            point = (r \<noteq> [] \<and> hd r = 46);
            part = (if point then takeWhile is_ascii_digit (tl r) else []);
            r = (if point then dropWhile is_ascii_digit (tl r) else r)
        in if whole = [] \<and> part = [] then None
           else case exponent_of r of None \<Rightarrow> None
           | Some e \<Rightarrow> Some (neg, decimal_value 0 (whole @ part), e - int (length part)))"

subsection \<open>The nearest binary64\<close>

fun log2_floor :: "nat \<Rightarrow> nat" where
  "log2_floor n = (if n < 2 then 0 else Suc (log2_floor (n div 2)))"

declare log2_floor.simps [simp del]

text \<open>The exponent of the fraction \<open>p / q\<close>, and the unit in the last place of its binade.\<close>

definition ratio_log2 :: "nat \<Rightarrow> nat \<Rightarrow> int" where
  "ratio_log2 p q =
     (let k = int (log2_floor p) - int (log2_floor q) in
      if p * 2 ^ nat (- k) < q * 2 ^ nat k then k - 1 else k)"

definition unit_exponent :: "nat \<Rightarrow> nat \<Rightarrow> int" where
  "unit_exponent p q = max (- 1074) (ratio_log2 p q - 52)"

definition round_half_even :: "nat \<Rightarrow> nat \<Rightarrow> nat" where
  "round_half_even a b =
     (let d = a div b; r = a mod b in
      if 2 * r < b \<or> 2 * r = b \<and> even d then d else d + 1)"

definition nearest_bits :: "nat \<Rightarrow> nat \<Rightarrow> nat" where
  "nearest_bits p q =
     (let k = unit_exponent p q in
      nat (k + 1074) * 2 ^ 52 + round_half_even (p * 2 ^ nat (- k)) (q * 2 ^ nat k))"

definition finite_bits :: nat where "finite_bits = 2047 * 2 ^ 52"

definition float_of_span :: "bytes \<Rightarrow> u64 option" where
  "float_of_span text =
     (case decimal_of text of None \<Rightarrow> None
      | Some (neg, m, e) \<Rightarrow>
          let bits = (if m = 0 then 0 else nearest_bits (m * 10 ^ nat e) (10 ^ nat (- e))) in
          if bits < finite_bits then Some (of_nat bits OR (if neg then push_bit 63 1 else 0))
          else None)"

definition JSON_FLOAT_REFUSED :: u64 where "JSON_FLOAT_REFUSED = 0x7ff8000000000001"

text \<open>The generated decoder's entry: the text, and the span's bounds in it.\<close>

definition pith_json_float_bits :: "bytes option \<Rightarrow> int \<Rightarrow> int \<Rightarrow> u64" where
  "pith_json_float_bits ptr start stop =
     (case ptr of None \<Rightarrow> JSON_FLOAT_REFUSED
      | Some text \<Rightarrow>
          if start < 0 \<or> stop < start then JSON_FLOAT_REFUSED
          else case float_of_span (take (nat (stop - start)) (drop (nat start) text)) of
            Some bits \<Rightarrow> bits | None \<Rightarrow> JSON_FLOAT_REFUSED)"


subsection \<open>The conversion is exact rounding\<close>

text \<open>The value of a finite float, and the same in units of the least one.\<close>

definition float_units :: "nat \<Rightarrow> nat" where
  "float_units n =
     (if n div 2 ^ 52 = 0 then n mod 2 ^ 52 else (2 ^ 52 + n mod 2 ^ 52) * 2 ^ (n div 2 ^ 52 - 1))"

definition float_value :: "nat \<Rightarrow> real" where
  "float_value n = real (float_units n) * 2 powi (- 1074)"

lemma log2_floor_bounds:
  assumes "0 < n" shows "2 ^ log2_floor n \<le> n \<and> n < 2 ^ Suc (log2_floor n)"
  using assms
proof (induction n rule: log2_floor.induct)
  case (1 n)
  show ?case
  proof (cases "n < 2")
    case True
    then show ?thesis using "1.prems" by (subst (1 2) log2_floor.simps) simp
  next
    case False
    then have "2 ^ log2_floor (n div 2) \<le> n div 2 \<and> n div 2 < 2 ^ Suc (log2_floor (n div 2))"
      using "1.IH" by simp
    then show ?thesis using False by (subst (1 2) log2_floor.simps) auto
  qed
qed

lemma powi_nat: "(2 :: real) powi k * 2 ^ nat (- k) = 2 ^ nat k"
proof (cases "0 \<le> k")
  case True
  then show ?thesis by (simp add: power_int_def)
next
  case False
  then have "(2 :: real) powi k = inverse (2 ^ nat (- k))" by (simp add: power_int_def power_one_over inverse_eq_divide)
  then show ?thesis using False by simp
qed

lemma scale_less:
  "real p < real q * 2 powi k \<longleftrightarrow> p * 2 ^ nat (- k) < q * 2 ^ nat k"
proof -
  have "real p < real q * 2 powi k \<longleftrightarrow> real p * 2 ^ nat (- k) < real q * 2 powi k * 2 ^ nat (- k)"
    by simp
  also have "\<dots> \<longleftrightarrow> real p * 2 ^ nat (- k) < real q * 2 ^ nat k"
    by (simp only: mult.assoc powi_nat)
  also have "\<dots> \<longleftrightarrow> real (p * 2 ^ nat (- k)) < real (q * 2 ^ nat k)" by simp
  finally show ?thesis by (simp only: of_nat_less_iff)
qed

lemma ratio_log2_bounds:
  assumes "0 < p" and "0 < q"
  shows "real q * 2 powi ratio_log2 p q \<le> real p \<and> real p < real q * 2 powi (ratio_log2 p q + 1)"
proof -
  let ?a = "log2_floor p" and ?b = "log2_floor q"
  let ?k = "int ?a - int ?b"
  have p: "real (2 ^ ?a) \<le> real p" "real p < real (2 ^ Suc ?a)"
    using log2_floor_bounds [OF assms(1)] by (simp_all only: of_nat_le_iff of_nat_less_iff)
  have q: "real (2 ^ ?b) \<le> real q" "real q < real (2 ^ Suc ?b)"
    using log2_floor_bounds [OF assms(2)] by (simp_all only: of_nat_le_iff of_nat_less_iff)
  have a: "(2 :: real) powi int n = 2 ^ n" for n by (simp add: power_int_def)
  have k: "(2 :: real) ^ ?b * 2 powi ?k = 2 ^ ?a"
    by (simp add: power_int_diff)
  have up: "real p < real q * 2 powi (?k + 1)"
  proof -
    have "real p < 2 * (2 ^ ?b * 2 powi ?k)" using p(2) unfolding k by simp
    also have "\<dots> \<le> 2 * (real q * 2 powi ?k)" using q(1) by (simp add: mult_right_mono)
    finally show ?thesis by (simp add: power_int_add)
  qed
  have low: "real q * 2 powi (?k - 1) \<le> real p"
  proof -
    have "real q * 2 powi (?k - 1) = real q / 2 * 2 powi ?k" by (simp add: power_int_diff)
    also have "\<dots> \<le> 2 ^ ?b * 2 powi ?k" using q(2) by (intro mult_right_mono) simp_all
    also have "\<dots> \<le> real p" using p(1) unfolding k by simp
    finally show ?thesis .
  qed
  show ?thesis
    using up low scale_less [of p q ?k] unfolding ratio_log2_def Let_def by auto
qed

lemma nearer_end:
  fixes d f j :: real
  assumes "0 \<le> f" and "f < 1" and "j \<le> d \<or> d + 1 \<le> j"
  shows "f \<le> 1 / 2 \<Longrightarrow> \<bar>d + f - d\<bar> \<le> \<bar>d + f - j\<bar>"
    and "1 / 2 \<le> f \<Longrightarrow> \<bar>d + f - (d + 1)\<bar> \<le> \<bar>d + f - j\<bar>"
  using assms by linarith+

lemma div_mod_built: "x < b \<Longrightarrow> (x + c * b) div b = (c :: nat) \<and> (x + c * b) mod b = x"
  by simp

lemma units_scaled: "k = c + int E \<Longrightarrow> (v :: real) * 2 powi c = v / 2 ^ E * 2 powi k"
  by (simp add: power_int_add)

lemma round_half_even_nearest:
  assumes "0 < b"
  shows "\<bar>real a / real b - real (round_half_even a b)\<bar> \<le> \<bar>real a / real b - real j\<bar>"
proof -
  let ?d = "a div b" and ?r = "a mod b"
  have "real a = real ?d * real b + real ?r" by (metis div_mult_mod_eq of_nat_add of_nat_mult)
  then have ab: "real a / real b = real ?d + real ?r / real b"
    using assms by (simp add: add_divide_distrib)
  have r: "0 \<le> real ?r / real b" "real ?r / real b < 1" using assms by simp_all
  have j: "real j \<le> real ?d \<or> real ?d + 1 \<le> real j"
  proof (cases "j \<le> ?d")
    case False
    then have "real (?d + 1) \<le> real j" by (simp only: of_nat_le_iff)
    then show ?thesis by simp
  qed simp
  have low: "real ?r / real b \<le> 1 / 2" if "2 * ?r \<le> b"
  proof -
    have "real (2 * ?r) \<le> real b" using that by (simp only: of_nat_le_iff)
    then show ?thesis using assms by (simp add: field_simps)
  qed
  have high: "1 / 2 \<le> real ?r / real b" if "b \<le> 2 * ?r"
  proof -
    have "real b \<le> real (2 * ?r)" using that by (simp only: of_nat_le_iff)
    then show ?thesis using assms by (simp add: field_simps)
  qed
  show ?thesis
  proof (cases "2 * ?r < b \<or> 2 * ?r = b \<and> even ?d")
    case True
    then have "round_half_even a b = ?d" by (simp add: round_half_even_def)
    then show ?thesis unfolding ab using nearer_end(1) [OF r j] low True by auto
  next
    case False
    then have "real (round_half_even a b) = real ?d + 1"
      by (simp add: round_half_even_def Let_def)
    then show ?thesis unfolding ab using nearer_end(2) [OF r j] high False by auto
  qed
qed

lemma float_units_built:
  assumes "m < 2 ^ 52 \<Longrightarrow> E = 0" and "m \<le> 2 ^ 53"
  shows "float_units (E * 2 ^ 52 + m) = m * 2 ^ E"
proof -
  consider (1) "m < 2 ^ 52" | (2) "2 ^ 52 \<le> m" "m < 2 ^ 53" | (3) "m = 2 ^ 53"
    using assms(2) by linarith
  then show ?thesis
  proof cases
    case 1
    then show ?thesis using assms(1) by (simp add: float_units_def)
  next
    case 2
    then have "m - 2 ^ 52 < 2 ^ 52" and n: "E * 2 ^ 52 + m = (m - 2 ^ 52) + Suc E * 2 ^ 52" by simp_all
    then have "(E * 2 ^ 52 + m) div 2 ^ 52 = Suc E" "(E * 2 ^ 52 + m) mod 2 ^ 52 = m - 2 ^ 52"
      unfolding n using div_mod_built by blast+
    then show ?thesis using 2 by (simp add: float_units_def)
  next
    case 3
    then have n: "E * 2 ^ 52 + m = 0 + Suc (Suc E) * 2 ^ 52" by simp
    have "(E * 2 ^ 52 + m) div 2 ^ 52 = Suc (Suc E)" "(E * 2 ^ 52 + m) mod 2 ^ 52 = 0"
      unfolding n by simp_all
    then show ?thesis using 3 by (simp add: float_units_def)
  qed
qed

lemma float_units_grid:
  "(\<exists>j. float_units n = j * 2 ^ E) \<or> 0 < E \<and> float_units n < 2 ^ 52 * 2 ^ E"
proof -
  let ?e = "n div 2 ^ 52" and ?f = "n mod 2 ^ 52"
  have f: "?f < 2 ^ 52" by simp
  show ?thesis
  proof (cases "E < ?e")
    case True
    then have "float_units n = ((2 ^ 52 + ?f) * 2 ^ (?e - 1 - E)) * 2 ^ E"
      by (auto simp: float_units_def mult.assoc power_add [symmetric])
    then show ?thesis by blast
  next
    case False
    show ?thesis
    proof (cases "E = 0")
      case True
      then show ?thesis by simp
    next
      case E: False
      have "float_units n < 2 ^ 52 * 2 ^ E"
      proof (cases "?e = 0")
        case True
        then have "float_units n < 2 ^ 52 * 1" using f by (simp add: float_units_def)
        also have "(2 :: nat) ^ 52 * 1 \<le> 2 ^ 52 * 2 ^ E" by (intro mult_left_mono) simp_all
        finally show ?thesis .
      next
        case e: False
        then have "float_units n = (2 ^ 52 + ?f) * 2 ^ (?e - 1)" by (simp add: float_units_def)
        also have "\<dots> < (2 ^ 52 * 2) * 2 ^ (?e - 1)" using f by (intro mult_strict_right_mono) simp_all
        also have "\<dots> = 2 ^ 52 * 2 ^ ?e" using e by (simp add: power_eq_if)
        also have "\<dots> \<le> 2 ^ 52 * 2 ^ E" using False by (intro mult_left_mono power_increasing) simp_all
        finally show ?thesis .
      qed
      then show ?thesis using E by blast
    qed
  qed
qed

lemma abs_scale: "0 \<le> c \<Longrightarrow> \<bar>y * c - z * c\<bar> = \<bar>y - z\<bar> * (c :: real)"
  by (metis abs_mult abs_of_nonneg left_diff_distrib)

lemma closer_than_outside:
  fixes y c m z :: real
  assumes "c \<le> y" and "\<bar>y - m\<bar> \<le> \<bar>y - c\<bar>" and "z \<le> c"
  shows "\<bar>y - m\<bar> \<le> \<bar>y - z\<bar>"
  using assms by linarith

theorem nearest_bits_nearest:
  assumes "0 < p" and "0 < q"
  shows "\<bar>real p / real q - float_value (nearest_bits p q)\<bar> \<le> \<bar>real p / real q - float_value n\<bar>"
proof -
  define k where "k = unit_exponent p q"
  define E where "E = nat (k + 1074)"
  define a where "a = p * 2 ^ nat (- k)"
  define b where "b = q * 2 ^ nat k"
  define m where "m = round_half_even a b"
  define y where "y = real a / real b"
  have k: "- 1074 \<le> k" by (simp add: k_def unit_exponent_def)
  have b: "0 < b" using assms by (simp add: b_def)
  have near: "\<bar>y - real m\<bar> \<le> \<bar>y - real j\<bar>" for j
    unfolding y_def m_def by (rule round_half_even_nearest [OF b])
  have y: "real p / real q = y * 2 powi k"
  proof -
    have "real q * 2 ^ nat k \<noteq> 0" "real q \<noteq> 0" using assms by simp_all
    moreover have "y * 2 powi k = real p * (2 powi k * 2 ^ nat (- k)) / (real q * 2 ^ nat k)"
      by (simp add: y_def a_def b_def)
    ultimately show ?thesis by (simp only: powi_nat) simp
  qed
  have up: "y < 2 ^ 53" and low: "E \<noteq> 0 \<Longrightarrow> 2 ^ 52 \<le> y"
  proof -
    let ?L = "ratio_log2 p q"
    have L: "2 powi ?L \<le> y * 2 powi k" "y * 2 powi k < 2 powi (?L + 1)"
      using ratio_log2_bounds [OF assms] assms by (simp_all add: y [symmetric] field_simps)
    have pos: "0 < (2 :: real) powi k" by simp
    have "(2 :: real) powi (?L + 1) \<le> 2 powi (53 + k)"
      by (rule power_int_increasing) (simp_all add: k_def unit_exponent_def)
    also have "(2 :: real) powi (53 + k) = 2 ^ 53 * 2 powi k" by (simp add: power_int_add)
    finally have "y * 2 powi k < 2 ^ 53 * 2 powi k" using L(2) by linarith
    then show "y < 2 ^ 53" using mult_less_cancel_right_pos [OF pos] by blast
    assume "E \<noteq> 0"
    then have "?L = 52 + k" by (simp add: E_def k_def unit_exponent_def max_def split: if_splits)
    then have "2 ^ 52 * 2 powi k \<le> y * 2 powi k" using L(1) by (simp add: power_int_add)
    then show "2 ^ 52 \<le> y" using mult_le_cancel_right_pos [OF pos] by blast
  qed
  have m53: "m \<le> 2 ^ 53"
  proof (rule ccontr)
    assume "\<not> m \<le> 2 ^ 53"
    then have "real (2 ^ 53) < real m" by (simp only: of_nat_less_iff not_le)
    then show False using near [of "2 ^ 53"] up by (simp add: abs_if split: if_splits)
  qed
  have m52: "E = 0" if "m < 2 ^ 52"
  proof (rule ccontr)
    assume "E \<noteq> 0"
    moreover have "real m < real (2 ^ 52)" using that by (simp only: of_nat_less_iff)
    ultimately show False using near [of "2 ^ 52"] low by (simp add: abs_if split: if_splits)
  qed
  have scaled: "real v * 2 powi (- 1074) = real v / 2 ^ E * 2 powi k" for v :: nat
  proof -
    have "k = - 1074 + int E" using k by (simp add: E_def)
    then show ?thesis by (rule units_scaled)
  qed
  have bits: "float_value (nearest_bits p q) = real m * 2 powi k"
  proof -
    have "nearest_bits p q = E * 2 ^ 52 + m"
      by (simp add: nearest_bits_def Let_def E_def k_def m_def a_def b_def)
    then have "float_units (nearest_bits p q) = m * 2 ^ E"
      using float_units_built [OF m52 m53] by simp
    then show ?thesis unfolding float_value_def scaled by simp
  qed
  have "\<bar>y - real m\<bar> \<le> \<bar>y - real (float_units n) / 2 ^ E\<bar>"
  proof (cases "\<exists>j. float_units n = j * 2 ^ E")
    case True
    then show ?thesis using near by auto
  next
    case False
    then have E: "E \<noteq> 0" "float_units n < 2 ^ 52 * 2 ^ E" using float_units_grid [of n E] by auto
    then have "real (float_units n) < real (2 ^ 52 * 2 ^ E)" by (simp only: of_nat_less_iff)
    then have "real (float_units n) / 2 ^ E \<le> 2 ^ 52" by (simp add: field_simps)
    moreover have "\<bar>y - real m\<bar> \<le> \<bar>y - 2 ^ 52\<bar>" using near [of "2 ^ 52"] by simp
    ultimately show ?thesis using closer_than_outside [OF low [OF E(1)]] by blast
  qed
  then have "\<bar>y - real m\<bar> * 2 powi k \<le> \<bar>y - real (float_units n) / 2 ^ E\<bar> * 2 powi k"
    by (rule mult_right_mono) simp
  moreover have pos: "0 \<le> (2 :: real) powi k" by simp
  ultimately show ?thesis
    unfolding y bits unfolding float_value_def scaled abs_scale [OF pos] by blast
qed

lemma signed_word:
  assumes "n < 2 ^ 63"
  shows "unat (take_bit 63 (of_nat n OR (if neg then push_bit 63 1 else 0) :: u64)) = n"
    and "bit (of_nat n OR (if neg then push_bit 63 1 else 0) :: u64) 63 = neg"
proof -
  let ?w = "of_nat n OR (if neg then push_bit 63 1 else 0) :: u64"
  have "\<not> bit n i" if "63 \<le> i" for i
  proof -
    have "n < 2 ^ i" using assms that by (meson less_le_trans one_le_numeral power_increasing)
    then show ?thesis by (simp add: bit_iff_odd)
  qed
  then have high: "\<not> bit (of_nat n :: u64) i" if "63 \<le> i" for i
    using that by (simp add: bit_simps)
  have top: "bit (push_bit 63 (1 :: u64)) i \<longleftrightarrow> i = 63" for i
    unfolding bit_push_bit_iff by (auto simp: bit_1_iff)
  have bit_w: "bit ?w i \<longleftrightarrow> bit (of_nat n :: u64) i \<or> neg \<and> i = 63" for i
    using top [of i] by (simp only: bit_or_iff split: if_split) simp
  have "take_bit 63 ?w = of_nat n"
  proof (rule bit_eqI)
    show "bit (take_bit 63 ?w) i = bit (of_nat n :: u64) i" for i
      unfolding bit_take_bit_iff bit_w using high [of i] by (cases "i < 63") auto
  qed
  then show "unat (take_bit 63 ?w) = n" using assms by (simp add: unat_of_nat_u64)
  show "bit ?w 63 = neg" unfolding bit_w using high [of 63] by simp
qed

lemma powi_ten: "(10 :: real) powi e = 10 ^ nat e / 10 ^ nat (- e)"
proof (cases "0 \<le> e")
  case True
  then show ?thesis by (simp add: power_int_def)
next
  case False
  then show ?thesis by (simp add: power_int_def power_one_over inverse_eq_divide)
qed

text \<open>
  C32. The float of a number is the binary64 nearest to it: no float is nearer to the decimal
  the text denotes than the magnitude of the answer, and the sign bit is the sign of the text, on
  zero as well.
\<close>

theorem float_of_span_nearest:
  assumes "decimal_of text = Some (neg, m, e)" and "float_of_span text = Some w"
  shows "bit w 63 = neg \<and>
    \<bar>real m * 10 powi e - float_value (unat (take_bit 63 w))\<bar> \<le> \<bar>real m * 10 powi e - float_value n\<bar>"
proof -
  define bits where
    "bits = (if m = 0 then 0 else nearest_bits (m * 10 ^ nat e) (10 ^ nat (- e)))"
  have fin: "bits < finite_bits" and w: "w = of_nat bits OR (if neg then push_bit 63 1 else 0)"
    using assms by (auto simp: float_of_span_def Let_def bits_def split: if_splits)
  then have "bits < 2 ^ 63" by (simp add: finite_bits_def)
  note word = signed_word [OF this, of neg, folded w]
  have ten: "real m * 10 powi e = real (m * 10 ^ nat e) / real (10 ^ nat (- e))"
    by (simp add: powi_ten)
  have "\<bar>real m * 10 powi e - float_value bits\<bar> \<le> \<bar>real m * 10 powi e - float_value n\<bar>"
  proof (cases "m = 0")
    case True
    then show ?thesis by (simp add: bits_def float_value_def float_units_def)
  next
    case False
    then show ?thesis
      unfolding ten bits_def using nearest_bits_nearest [of "m * 10 ^ nat e" "10 ^ nat (- e)" n] by simp
  qed
  then show ?thesis using word by simp
qed

text \<open>\<open>-2.5\<close> is its own nearest float.\<close>

theorem float_of_span_nearest_witness:
  "bit (0xC004000000000000 :: u64) 63 = True \<and>
   \<bar>real 25 * 10 powi - 1 - float_value (unat (take_bit 63 (0xC004000000000000 :: u64)))\<bar>
     \<le> \<bar>real 25 * 10 powi - 1 - float_value 0\<bar>"
proof (rule float_of_span_nearest)
  show d: "decimal_of [45, 50, 46, 53] = Some (True, 25, - 1)"
    by (simp add: decimal_of_def sign_of_def exponent_of_def is_ascii_digit_def Let_def)
  have "log2_floor 25 = 4" "log2_floor 10 = 3" by (simp_all add: log2_floor.simps)
  then have "ratio_log2 25 10 = 1" by (simp add: ratio_log2_def Let_def)
  then have "nearest_bits 25 10 = 0x4004000000000000"
    by (simp add: nearest_bits_def unit_exponent_def round_half_even_def Let_def)
  then show "float_of_span [45, 50, 46, 53] = Some 0xC004000000000000"
    unfolding float_of_span_def d by (simp add: finite_bits_def Let_def)
qed

end
