(* ===== verification/JsonDocument.thy ===== *)
theory JsonDocument
  imports JsonFloat
begin

text \<open>
  Whole documents, in the grammar of \<open>Rfc8259\<close>. \<open>json_text v t\<close> is the standard's own; \<open>scanned\<close>
  is the same with the wider numbers and strings the scanner lets through, and \<open>written\<close> those of
  them whose numbers it also keeps. \<open>nested_skip_value\<close> steps over exactly a document, and stops
  at the first value nested too deep or integer too large.
\<close>

subsection \<open>Integers\<close>

lemma digit_sum_exact:
  assumes "list_all is_ascii_digit ds" and "ds \<noteq> []"
  shows "digit_sum (int v) ds =
    (if decimal_value v ds \<le> 922337203685477589 then Some (int (decimal_value v ds)) else None)"
  using assms
proof (induction ds arbitrary: v)
  case (Cons d ds)
  have d: "48 \<le> unat d" "unat d \<le> 57" using Cons.prems by (auto simp: digit_unat)
  have v: "int v * 10 + (uint d - 48) = int (v * 10 + (unat d - 48))"
    using d by (simp add: of_nat_diff)
  show ?case
  proof (cases "v \<le> 92233720368547758")
    case False
    then have "922337203685477589 < v * 10 + (unat d - 48)" by simp
    then have "922337203685477589 < decimal_value (v * 10 + (unat d - 48)) ds"
      using decimal_value_ge [of "v * 10 + (unat d - 48)" ds] by (rule less_le_trans)
    then show ?thesis using False Cons.prems by simp
  next
    case True
    show ?thesis
    proof (cases "ds = []")
      case False
      then show ?thesis using Cons True by (simp add: v del: of_nat_add of_nat_mult)
    qed (use True d Cons.prems in \<open>simp add: v del: of_nat_add of_nat_mult\<close>)
  qed
qed simp

lemma number_span_all:
  "list_all nested_is_number_char ds \<Longrightarrow> r = [] \<or> \<not> nested_is_number_char (hd r) \<Longrightarrow>
     number_span_end (ds @ r) = r"
proof (induction ds)
  case Nil
  then show ?case by (cases r) auto
qed simp

lemma span_to_append [simp]: "span_to (ds @ r) r = ds"
  by (simp add: span_to_def)

text \<open>The texts the scanner takes for an integer: digits after an optional minus. Those it keeps
  are within a bound of its own, a tenth of the 64-bit range.\<close>

definition any_int :: "int \<Rightarrow> bytes \<Rightarrow> bool" where
  "any_int n t \<longleftrightarrow>
     (\<exists>ds. ds \<noteq> [] \<and> list_all is_ascii_digit ds \<and>
        (t = ds \<and> n = int (decimal_value 0 ds) \<or> t = 45 # ds \<and> n = - int (decimal_value 0 ds)))"

definition kept_int :: "int \<Rightarrow> bool" where
  "kept_int n \<longleftrightarrow> \<bar>n\<bar> \<le> 922337203685477589"

abbreviation int_text :: "int \<Rightarrow> bytes \<Rightarrow> bool" where
  "int_text \<equiv> \<lambda>n t. any_int n t \<and> kept_int n"

definition float_text :: "bytes \<Rightarrow> bool" where
  "float_text t \<longleftrightarrow>
     t \<noteq> [] \<and> nested_is_number_start (hd t) \<and> list_all nested_is_number_char (tl t) \<and>
     list_ex (\<lambda>b. b = 46 \<or> b = 101 \<or> b = 69) (tl t)"

definition number_ends :: "bytes \<Rightarrow> bool" where
  "number_ends r \<longleftrightarrow> r = [] \<or> \<not> nested_is_number_char (hd r)"

lemma digit_char: "is_ascii_digit d \<Longrightarrow> nested_is_number_char d \<and> nested_is_number_start d"
  by (simp add: nested_is_number_char_def nested_is_number_start_def)

lemma digit_not_float: "is_ascii_digit d \<Longrightarrow> d \<noteq> 46 \<and> d \<noteq> 101 \<and> d \<noteq> 69 \<and> d \<noteq> 45"
  by (auto simp: is_ascii_digit_def)

lemma read_any_int:
  assumes "any_int n t" and "number_ends r"
  shows "nested_read_number (t @ r) = (if kept_int n then Inr (Some n, r) else Inl Malformed)"
proof -
  obtain ds where ds: "ds \<noteq> []" "list_all is_ascii_digit ds"
    and t: "t = ds \<and> n = int (decimal_value 0 ds) \<or> t = 45 # ds \<and> n = - int (decimal_value 0 ds)"
    using assms(1) by (auto simp: any_int_def)
  have chars: "list_all nested_is_number_char ds" and plain: "\<not> list_ex (\<lambda>b. b = 46 \<or> b = 101 \<or> b = 69) ds"
    using ds(2) digit_char digit_not_float by (auto simp: list_all_iff list_ex_iff)
  have kept: "kept_int n \<longleftrightarrow> decimal_value 0 ds \<le> 922337203685477589"
    using t by (auto simp: kept_int_def)
  note sum = digit_sum_exact [OF ds(2,1), of 0, folded kept, simplified]
  from t show ?thesis
  proof
    assume t: "t = ds \<and> n = int (decimal_value 0 ds)"
    obtain d q where d: "ds = d # q" using ds(1) by (cases ds) auto
    have "number_span_end (q @ r) = r"
      using chars assms(2) d by (intro number_span_all) (auto simp: number_ends_def)
    then show ?thesis
      using t d sum plain digit_not_float [of d] ds(2) span_to_append [of ds r]
      by (auto simp: nested_read_number_def Let_def)
  next
    assume t: "t = 45 # ds \<and> n = - int (decimal_value 0 ds)"
    have "number_span_end (ds @ r) = r"
      using chars assms(2) by (intro number_span_all) (auto simp: number_ends_def)
    then show ?thesis
      using t sum plain span_to_append [of t r]
      by (auto simp: nested_read_number_def Let_def is_ascii_digit_def)
  qed
qed

lemma read_int: "int_text n t \<Longrightarrow> number_ends r \<Longrightarrow> nested_read_number (t @ r) = Inr (Some n, r)"
  using read_any_int [of n t r] by simp

lemma read_float:
  assumes "float_text t" and "number_ends r"
  shows "nested_read_number (t @ r) = Inr (None, r)"
proof -
  obtain b q where t: "t = b # q" using assms(1) by (cases t) (auto simp: float_text_def)
  then have "number_span_end (q @ r) = r"
    using assms by (intro number_span_all) (auto simp: number_ends_def float_text_def)
  then show ?thesis
    using assms(1) t by (simp add: nested_read_number_def Let_def float_text_def)
qed

text \<open>The scanner refuses the rest of the 64-bit range, although \<open>std/json.pith\<close> reads it.\<close>

theorem large_integers_are_refused:
  "any_int n t \<Longrightarrow> 922337203685477589 < \<bar>n\<bar> \<Longrightarrow> number_ends r \<Longrightarrow> nested_read_number (t @ r) = Inl Malformed"
  using read_any_int [of n t r] by (simp add: kept_int_def)

subsection \<open>Documents\<close>

text \<open>What the scanner lets through, and what it also keeps: integers within its bound, and floats
  that are finite.\<close>

abbreviation scanned :: "json \<Rightarrow> bytes \<Rightarrow> bool" where
  "scanned \<equiv> doc any_int float_text spells"

abbreviation kept_float :: "bytes \<Rightarrow> bool" where
  "kept_float \<equiv> \<lambda>t. float_text t \<and> float_of_span t \<noteq> None"

abbreviation written :: "json \<Rightarrow> bytes \<Rightarrow> bool" where
  "written \<equiv> doc int_text kept_float spells"

abbreviation items :: "json list \<Rightarrow> bytes \<Rightarrow> bool" where
  "items \<equiv> doc_items int_text kept_float spells"

abbreviation members :: "(bytes \<times> json) list \<Rightarrow> bytes \<Rightarrow> bool" where
  "members \<equiv> doc_members int_text kept_float spells"

definition kept_numbers :: "json \<Rightarrow> bool" where
  "kept_numbers = numbers kept_int (\<lambda>t. float_of_span t \<noteq> None)"

lemma written_scanned:
  "written v t \<Longrightarrow> scanned v t"
  "items vs t \<Longrightarrow> doc_items any_int float_text spells vs t"
  "members ms t \<Longrightarrow> doc_members any_int float_text spells ms t"
  by (erule doc_mono [rotated 3]; simp)+

lemma written_numbers:
  "written v t \<Longrightarrow> kept_numbers v"
  "items vs t \<Longrightarrow> \<forall>v \<in> set vs. kept_numbers v"
  "members ms t \<Longrightarrow> \<forall>m \<in> set ms. kept_numbers (snd m)"
  by (induction v t and vs t and ms t rule: doc_doc_items_doc_members.inducts)
    (simp_all add: kept_numbers_def)

subsection \<open>The standard's documents are scanned\<close>

lemma base_ten_decimal: "base_ten ds = decimal_value 0 ds"
proof (induction ds rule: rev_induct)
  case (snoc d ds)
  have "base_ten (ds @ [d]) = (unat d - 0x30) + (\<Sum>i<length ds. (unat (rev ds ! i) - 0x30) * 10 ^ Suc i)"
    by (simp add: base_ten_def sum.lessThan_Suc_shift del: sum.lessThan_Suc)
  also have "\<dots> = (unat d - 48) + 10 * base_ten ds"
    by (simp add: base_ten_def sum_distrib_left mult.left_commute)
  finally show ?case using snoc by (simp add: decimal_value_append)
qed (simp add: base_ten_def)

lemma digit_ascii: "digit = is_ascii_digit"
  by (rule ext) (simp add: digit_def is_ascii_digit_def)

lemma int_part_digits: "int_part ds \<Longrightarrow> ds \<noteq> [] \<and> list_all is_ascii_digit ds"
  by (auto simp: int_part_def digit_ascii is_ascii_digit_def)

lemma json_integer_scanned: "json_integer n t \<Longrightarrow> any_int n t"
  using int_part_digits unfolding json_integer_def any_int_def base_ten_decimal by blast

lemma frac_part_chars:
  "frac_part f \<Longrightarrow> list_all nested_is_number_char f \<and> (f \<noteq> [] \<longrightarrow> 46 \<in> set f)"
  using digit_char by (auto simp: frac_part_def digit_ascii list_all_iff nested_is_number_char_def)

lemma exp_part_chars:
  "exp_part x \<Longrightarrow> list_all nested_is_number_char x \<and> (x \<noteq> [] \<longrightarrow> 101 \<in> set x \<or> 69 \<in> set x)"
  using digit_char by (auto simp: exp_part_def digit_ascii list_all_iff nested_is_number_char_def)

lemma json_float_scanned:
  assumes "json_float t"
  shows "float_text t"
proof -
  obtain sign ds f x where t: "t = sign @ ds @ f @ x" "sign = [] \<or> sign = [45]" "int_part ds"
    "frac_part f" "exp_part x" "f \<noteq> [] \<or> x \<noteq> []"
    using assms by (auto simp: json_float_def)
  note ds = int_part_digits [OF t(3)]
  obtain c q where c: "sign @ ds = c # q" "nested_is_number_start c" "list_all nested_is_number_char q"
    using t(2) ds digit_char by (cases ds) (auto simp: list_all_iff nested_is_number_start_def)
  then have "t = c # q @ f @ x" using t(1) by (simp flip: append_assoc)
  then show ?thesis
    using c frac_part_chars [OF t(4)] exp_part_chars [OF t(5)] t(6)
    by (auto simp: float_text_def list_ex_iff)
qed

lemma json_text_scanned: "json_text v t \<Longrightarrow> scanned v t"
  by (erule doc_mono(1) [rotated 3])
    (simp_all add: json_integer_scanned json_float_scanned spells_iff json_string_strict)

lemma json_text_written: "json_text v t \<Longrightarrow> kept_numbers v \<Longrightarrow> written v t"
  unfolding kept_numbers_def by (rule doc_numbers(1) [OF json_text_scanned])

text \<open>How many levels of values lie below a value.\<close>

fun height :: "json \<Rightarrow> nat"
  and height_list :: "json list \<Rightarrow> nat"
  and height_members :: "(bytes \<times> json) list \<Rightarrow> nat" where
  "height (JArr vs) = height_list vs"
| "height (JObj ms) = height_members ms"
| "height _ = 0"
| "height_list [] = 0"
| "height_list (v # vs) = max (Suc (height v)) (height_list vs)"
| "height_members [] = 0"
| "height_members (m # ms) = max (Suc (height (snd m))) (height_members ms)"

subsection \<open>How a text starts\<close>

lemma blank_ws: "blank w \<longleftrightarrow> list_all is_ws w"
  by (auto simp: blank_def is_ws_def list_all_iff)

lemma skip_ws_blank [simp]: "blank w \<Longrightarrow> skip_ws (w @ bs) = skip_ws bs"
  by (induction w) (simp_all add: blank_ws)

lemma skip_ws_stay: "bs = [] \<or> \<not> is_ws (hd bs) \<Longrightarrow> skip_ws bs = bs"
  by (cases bs) auto

lemma skip_ws_twice [simp]: "skip_ws (skip_ws bs) = skip_ws bs"
  by (induction bs) auto

lemma ws_bytes [simp]:
  "\<not> is_ws 34" "\<not> is_ws 44" "\<not> is_ws 58" "\<not> is_ws 91" "\<not> is_ws 93" "\<not> is_ws 123" "\<not> is_ws 125"
  by (simp_all add: is_ws_def)

lemma after_item_comma [simp]: "blank w \<Longrightarrow> after_item (w @ 44 # ts) = skip_ws ts"
  by (simp add: after_item_def)

lemma after_item_close [simp]:
  "blank w \<Longrightarrow> after_item (w @ 93 # r) = 93 # r" "blank w \<Longrightarrow> after_item (w @ 125 # r) = 125 # r"
  by (simp_all add: after_item_def)

text \<open>The first byte of a value tells its kind.\<close>

definition opens :: "json \<Rightarrow> u8 \<Rightarrow> bool" where
  "opens v b \<longleftrightarrow> (case v of
       JNull \<Rightarrow> b = 110 | JBool True \<Rightarrow> b = 116 | JBool False \<Rightarrow> b = 102
     | JInt _ _ \<Rightarrow> nested_is_number_start b | JFloat _ \<Rightarrow> nested_is_number_start b
     | JStr _ \<Rightarrow> b = 34 | JArr _ \<Rightarrow> b = 91 | JObj _ \<Rightarrow> b = 123)"

lemma number_start_cases:
  "nested_is_number_start b \<longleftrightarrow> 48 \<le> unat b \<and> unat b \<le> 57 \<or> b = 45 \<or> b = 43"
  by (simp add: nested_is_number_start_def digit_unat)

lemma scanned_opens: "scanned v t \<Longrightarrow> \<exists>b q. t = b # q \<and> opens v b"
proof -
  assume "scanned v t"
  then show ?thesis
  proof (cases rule: doc.cases)
    case (W_int n)
    then obtain ds where "ds \<noteq> []" "list_all is_ascii_digit ds" "t = ds \<or> t = 45 # ds"
      by (auto simp: any_int_def)
    then show ?thesis
      using W_int digit_char by (cases ds) (auto simp: opens_def nested_is_number_start_def)
  next
    case W_float
    then show ?thesis by (cases t) (auto simp: opens_def float_text_def)
  qed (simp_all add: opens_def)
qed

lemmas written_opens = scanned_opens [OF written_scanned(1)]

lemma opens_not:
  "opens v b \<Longrightarrow> \<not> is_ws b \<and> b \<noteq> 44 \<and> b \<noteq> 93 \<and> b \<noteq> 125 \<and> b \<noteq> 58"
  by (auto simp: opens_def number_start_cases is_ws_def split: json.splits bool.splits)

lemma number_start_not:
  "nested_is_number_start b \<Longrightarrow> b \<noteq> 34 \<and> b \<noteq> 91 \<and> b \<noteq> 123 \<and> b \<noteq> 116 \<and> b \<noteq> 110 \<and> b \<noteq> 102"
  by (auto simp: number_start_cases)

lemma starts_with_first: "starts_with (b # bs) (c # lit) \<Longrightarrow> b = c"
  by (simp add: starts_with_def)

lemma literal_start:
  "starts_with (b # bs) lit_true \<Longrightarrow> b = 116" "starts_with (b # bs) lit_false \<Longrightarrow> b = 102"
  "starts_with (b # bs) lit_null \<Longrightarrow> b = 110"
  by (auto simp: lit_true_def lit_false_def lit_null_def dest: starts_with_first)

lemma starts_with_append [simp]: "starts_with (lit @ bs) lit"
  by (simp add: starts_with_def)

text \<open>What a step of \<open>nested_skip_value\<close> does before each kind of value.\<close>

lemma skip_number_step:
  assumes "nested_is_number_start b" and "d \<le> NESTED_MAX_DEPTH"
  shows "nested_skip_value (Suc n) (b # q) d =
    followed_by (nested_read_number (b # q)) (\<lambda>x. Inr (snd x))"
proof -
  have "\<not> is_ws b" using assms(1) by (auto simp: number_start_cases is_ws_def)
  then show ?thesis
    using assms number_start_not [OF assms(1)] literal_start [of b q] by (auto simp: not_less)
qed

lemma skip_bracket_step:
  assumes "d \<le> NESTED_MAX_DEPTH"
  shows "nested_skip_value (Suc n) (34 # q) d = followed_by (nested_read_string q) (\<lambda>x. Inr (snd x))"
    and "nested_skip_value (Suc n) (91 # q) d = nested_skip_array n q d"
    and "nested_skip_value (Suc n) (123 # q) d = nested_skip_object n q d"
  using assms literal_start [of 91 q] literal_start [of 123 q] by auto

lemma skip_literal_step:
  assumes "d \<le> NESTED_MAX_DEPTH"
  shows "nested_skip_value (Suc n) (lit_null @ q) d = Inr q"
    and "nested_skip_value (Suc n) (lit_true @ q) d = Inr q"
    and "nested_skip_value (Suc n) (lit_false @ q) d = Inr q"
  using assms by (auto simp: lit_true_def lit_false_def lit_null_def starts_with_def is_ws_def)

lemma read_spelled: "spells raw s \<Longrightarrow> nested_read_string (raw @ 34 # r) = Inr (s, r)"
  using read_string_spells by blast

lemma skip_value_ws: "nested_skip_value n (skip_ws bs) d = nested_skip_value n bs d"
  by (cases n) simp_all

lemma skip_too_deep: "0 < n \<Longrightarrow> NESTED_MAX_DEPTH < d \<Longrightarrow> nested_skip_value n bs d = Inl TooDeep"
  by (cases n) simp_all

lemma scanned_hd:
  assumes "scanned v t"
  shows "skip_ws (t @ r) = t @ r" "t @ r \<noteq> []" "hd (t @ r) \<noteq> 93" "hd (t @ r) \<noteq> 125"
    "\<not> is_ws (hd (t @ r))" "hd (t @ r) \<noteq> 58"
  using scanned_opens [OF assms] by (auto simp: skip_ws_stay dest: opens_not)

lemmas written_hd = scanned_hd [OF written_scanned(1)]

lemma scanned_pos: "scanned v t \<Longrightarrow> t \<noteq> []"
  using scanned_opens by fastforce

lemmas written_pos = scanned_pos [OF written_scanned(1)]

lemma number_ends_after:
  "blank w \<Longrightarrow> c = 44 \<or> c = 93 \<or> c = 125 \<Longrightarrow> number_ends (w @ c # r)"
  by (cases w) (auto simp: number_ends_def blank_ws is_ws_def nested_is_number_char_def digit_unat)

lemma scanned_items_start:
  assumes "doc_items any_int float_text spells vs t"
  shows "skip_ws (t @ r) \<noteq> [] \<and> hd (skip_ws (t @ r)) \<noteq> 93"
  using assms by (cases rule: doc_items.cases) (auto simp: scanned_hd dest: scanned_pos)

lemma scanned_members_start:
  assumes "doc_members any_int float_text spells ms t"
  shows "\<exists>q. skip_ws (t @ r) = 34 # q"
  using assms by (cases rule: doc_members.cases) auto

lemmas items_start = scanned_items_start [OF written_scanned(2)]
lemmas members_start = scanned_members_start [OF written_scanned(3)]

subsection \<open>Stepping over a document\<close>

text \<open>What ends the scan of a value at depth \<open>d\<close>, in the order of its text: a value deeper than
  the bound, or an integer the scanner does not keep.\<close>

fun first_fault :: "nat \<Rightarrow> json \<Rightarrow> nested_abort option"
  and first_fault_list :: "nat \<Rightarrow> json list \<Rightarrow> nested_abort option"
  and first_fault_members :: "nat \<Rightarrow> (bytes \<times> json) list \<Rightarrow> nested_abort option" where
  "first_fault d (JInt n t) =
     (if NESTED_MAX_DEPTH < d then Some TooDeep else if kept_int n then None else Some Malformed)"
| "first_fault d (JArr vs) = (if NESTED_MAX_DEPTH < d then Some TooDeep else first_fault_list (d + 1) vs)"
| "first_fault d (JObj ms) = (if NESTED_MAX_DEPTH < d then Some TooDeep else first_fault_members (d + 1) ms)"
| "first_fault d v = (if NESTED_MAX_DEPTH < d then Some TooDeep else None)"
| "first_fault_list d [] = None"
| "first_fault_list d (v # vs) = (case first_fault d v of Some e \<Rightarrow> Some e | None \<Rightarrow> first_fault_list d vs)"
| "first_fault_members d [] = None"
| "first_fault_members d (m # ms) =
     (case first_fault d (snd m) of Some e \<Rightarrow> Some e | None \<Rightarrow> first_fault_members d ms)"

definition stepped :: "nested_abort option \<Rightarrow> bytes \<Rightarrow> bytes parse" where
  "stepped fault r = (case fault of None \<Rightarrow> Inr r | Some e \<Rightarrow> Inl e)"

lemma stepped_simps [simp]: "stepped None r = Inr r" "stepped (Some e) r = Inl e"
  by (simp_all add: stepped_def)

lemma followed_stepped: "followed_by (stepped f r) k = (case f of None \<Rightarrow> k r | Some e \<Rightarrow> Inl e)"
  by (cases f) simp_all

lemma first_fault_deep: "NESTED_MAX_DEPTH < d \<Longrightarrow> first_fault d v = Some TooDeep"
  by (cases v) simp_all

text \<open>A value inside the bound, by its kind.\<close>

lemma skip_shallow:
  assumes "0 < n" and "d \<le> NESTED_MAX_DEPTH \<Longrightarrow> nested_skip_value n bs d = stepped (first_fault d v) r"
  shows "nested_skip_value n bs d = stepped (first_fault d v) r"
  using assms by (cases "d \<le> NESTED_MAX_DEPTH") (simp_all add: skip_too_deep first_fault_deep)

lemma skip_scanned_int:
  assumes "any_int i t" and "number_ends r" and "0 < n"
  shows "nested_skip_value n (t @ r) d = stepped (first_fault d (JInt i t)) r"
proof (rule skip_shallow [OF assms(3)])
  assume d: "d \<le> NESTED_MAX_DEPTH"
  obtain b q m where "t = b # q" "nested_is_number_start b" "n = Suc m"
    using scanned_opens [OF W_int [where ints = any_int, OF assms(1)]] assms(3) by (cases n) (auto simp: opens_def)
  then show "nested_skip_value n (t @ r) d = stepped (first_fault d (JInt i t)) r"
    using d read_any_int [OF assms(1,2)] by (simp add: skip_number_step del: nested_skip_value.simps)
qed

lemma skip_scanned_float:
  assumes "float_text t" and "number_ends r" and "0 < n"
  shows "nested_skip_value n (t @ r) d = stepped (first_fault d (JFloat t)) r"
proof (rule skip_shallow [OF assms(3)])
  assume d: "d \<le> NESTED_MAX_DEPTH"
  obtain b q m where "t = b # q" "nested_is_number_start b" "n = Suc m"
    using scanned_opens [OF W_float [where floats = float_text, OF assms(1)]] assms(3) by (cases n) (auto simp: opens_def)
  then show "nested_skip_value n (t @ r) d = stepped (first_fault d (JFloat t)) r"
    using d read_float [OF assms(1,2)] by (simp add: skip_number_step del: nested_skip_value.simps)
qed

lemma skip_scanned_gen:
  "scanned v t \<Longrightarrow> number_ends r \<Longrightarrow> 3 * length (t @ r) + 1 \<le> n \<Longrightarrow>
     nested_skip_value n (t @ r) d = stepped (first_fault d v) r"
  "doc_items any_int float_text spells vs t \<Longrightarrow> 3 * length (t @ 93 # r) + 2 \<le> n \<Longrightarrow>
     skip_array_loop n (skip_ws (t @ 93 # r)) d = stepped (first_fault_list (d + 1) vs) r"
  "doc_members any_int float_text spells ms t \<Longrightarrow> 3 * length (t @ 125 # r) + 2 \<le> n \<Longrightarrow>
     skip_object_loop n (skip_ws (t @ 125 # r)) d = stepped (first_fault_members (d + 1) ms) r"
proof (induction v t and vs t and ms t arbitrary: n r d and n r d and n r d
    rule: doc_doc_items_doc_members.inducts)
  case W_null
  then obtain m where "n = Suc m" by (cases n) auto
  then show ?case
    using skip_literal_step(1) [of d m r] by - (rule skip_shallow, simp_all add: lit_null_def del: nested_skip_value.simps)
next
  case W_true
  then obtain m where "n = Suc m" by (cases n) auto
  then show ?case
    using skip_literal_step(2) [of d m r] by - (rule skip_shallow, simp_all add: lit_true_def del: nested_skip_value.simps)
next
  case W_false
  then obtain m where "n = Suc m" by (cases n) auto
  then show ?case
    using skip_literal_step(3) [of d m r] by - (rule skip_shallow, simp_all add: lit_false_def del: nested_skip_value.simps)
next
  case (W_int i t)
  then show ?case by (intro skip_scanned_int) simp_all
next
  case (W_float t)
  then show ?case by (intro skip_scanned_float) simp_all
next
  case (W_str raw s)
  then obtain m where "n = Suc m" by (cases n) auto
  then show ?case
    using W_str by - (rule skip_shallow, simp_all add: skip_bracket_step read_spelled del: nested_skip_value.simps)
next
  case (W_arr0 w)
  then obtain m where "n = Suc (Suc m)" by (cases n; cases "n - 1") auto
  then show ?case
    using W_arr0 by - (rule skip_shallow, simp_all add: skip_bracket_step skip_ws_stay del: nested_skip_value.simps)
next
  case (W_obj0 w)
  then obtain m where "n = Suc (Suc m)" by (cases n; cases "n - 1") auto
  then show ?case
    using W_obj0 by - (rule skip_shallow, simp_all add: skip_bracket_step skip_ws_stay del: nested_skip_value.simps)
next
  case (W_arr vs t)
  then obtain m where "n = Suc (Suc m)" by (cases n; cases "n - 1") auto
  then show ?case
    using W_arr scanned_items_start [OF W_arr(1), of "93 # r"] by - (rule skip_shallow, simp_all add: skip_bracket_step Let_def del: nested_skip_value.simps skip_array_loop.simps)
next
  case (W_obj ms t)
  then obtain m where n: "n = Suc (Suc m)" by (cases n; cases "n - 1") auto
  obtain q where "skip_ws (t @ 125 # r) = 34 # q" using scanned_members_start [OF W_obj(1)] by blast
  then show ?case
    using W_obj(2) [of r m d] W_obj.prems n by - (rule skip_shallow, simp_all add: skip_bracket_step Let_def del: nested_skip_value.simps skip_object_loop.simps)
next
  case (I_one w w' v t)
  then obtain m where n: "n = Suc (Suc m)" by (cases n; cases "n - 1") auto
  have "nested_skip_value (Suc m) (t @ w' @ 93 # r) (d + 1) = stepped (first_fault (d + 1) v) (w' @ 93 # r)"
    using I_one n by (intro I_one(4)) (auto intro: number_ends_after)
  then show ?case
    using I_one(1-3) n scanned_hd [OF I_one(3), of "w' @ 93 # r"]
    by (simp add: followed_stepped del: nested_skip_value.simps split: option.split)
next
  case (I_more w w' v t vs ts)
  let ?r = "w' @ 44 # ts @ 93 # r"
  obtain m where n: "n = Suc m" "0 < m" using I_more.prems by (cases n) auto
  have "nested_skip_value m (t @ ?r) (d + 1) = stepped (first_fault (d + 1) v) ?r"
    using I_more n by (intro I_more(4)) (auto intro: number_ends_after)
  moreover have "skip_array_loop m (skip_ws (ts @ 93 # r)) d = stepped (first_fault_list (d + 1) vs) r"
    using I_more.prems n by (intro I_more(6)) auto
  ultimately show ?case
    using I_more(1-3) n scanned_hd [OF I_more(3), of ?r]
    by (simp add: followed_stepped del: nested_skip_value.simps split: option.split)
next
  case (M_one w1 w2 w3 w4 raw k v t)
  then obtain m where n: "n = Suc (Suc m)" by (cases n; cases "n - 1") auto
  have "nested_skip_value (Suc m) (t @ w4 @ 125 # r) (d + 1) = stepped (first_fault (d + 1) v) (w4 @ 125 # r)"
    using M_one n by (intro M_one(7)) (auto intro: number_ends_after)
  moreover have "nested_skip_value (Suc m) (w3 @ t @ w4 @ 125 # r) (d + 1) =
      nested_skip_value (Suc m) (t @ w4 @ 125 # r) (d + 1)"
    using skip_value_ws [of "Suc m" "w3 @ t @ w4 @ 125 # r"] skip_value_ws [of "Suc m" "t @ w4 @ 125 # r"]
      M_one(1-6) by simp
  ultimately show ?case
    using M_one(1-6) n read_spelled [OF M_one(5), of "w2 @ 58 # w3 @ t @ w4 @ 125 # r"]
    by (simp add: followed_stepped Let_def del: nested_skip_value.simps split: option.split)
next
  case (M_more w1 w2 w3 w4 raw k v t ms ts)
  let ?r = "w4 @ 44 # ts @ 125 # r"
  obtain m where n: "n = Suc m" "0 < m" using M_more.prems by (cases n) auto
  have "nested_skip_value m (t @ ?r) (d + 1) = stepped (first_fault (d + 1) v) ?r"
    using M_more n by (intro M_more(7)) (auto intro: number_ends_after)
  moreover have "nested_skip_value m (w3 @ t @ ?r) (d + 1) = nested_skip_value m (t @ ?r) (d + 1)"
    using skip_value_ws [of m "w3 @ t @ ?r"] skip_value_ws [of m "t @ ?r"] M_more(1-6) by simp
  moreover have "skip_object_loop m (skip_ws (ts @ 125 # r)) d = stepped (first_fault_members (d + 1) ms) r"
    using M_more.prems n by (intro M_more(9)) auto
  moreover obtain q where "skip_ws (ts @ 125 # r) = 34 # q"
    using scanned_members_start [OF M_more(8)] by blast
  ultimately show ?case
    using M_more(1-6) n read_spelled [OF M_more(5), of "w2 @ 58 # w3 @ t @ ?r"]
    by (auto simp: followed_stepped Let_def simp del: nested_skip_value.simps split: option.split)
qed

lemma skip_value_scanned:
  "scanned v t \<Longrightarrow> number_ends r \<Longrightarrow> skip_value (t @ r) d = stepped (first_fault d v) r"
  unfolding skip_value_def by (intro skip_scanned_gen(1)) simp_all

text \<open>With integers that are kept only the depth can end the scan.\<close>

definition depth_bound :: "nat \<Rightarrow> nat \<Rightarrow> bytes \<Rightarrow> bytes parse" where
  "depth_bound d h r = (if d + h \<le> NESTED_MAX_DEPTH then Inr r else Inl TooDeep)"

lemma first_fault_kept:
  "numbers kept_int Q v \<Longrightarrow> first_fault d v = (if d + height v \<le> NESTED_MAX_DEPTH then None else Some TooDeep)"
  "\<forall>v \<in> set vs. numbers kept_int Q v \<Longrightarrow> d \<le> NESTED_MAX_DEPTH \<Longrightarrow>
     first_fault_list (d + 1) vs = (if d + height_list vs \<le> NESTED_MAX_DEPTH then None else Some TooDeep)"
  "\<forall>m \<in> set ms. numbers kept_int Q (snd m) \<Longrightarrow> d \<le> NESTED_MAX_DEPTH \<Longrightarrow>
     first_fault_members (d + 1) ms = (if d + height_members ms \<le> NESTED_MAX_DEPTH then None else Some TooDeep)"
  by (induction v and vs and ms arbitrary: d and d and d rule: height_height_list_height_members.induct)
    (auto simp: not_less not_le)

lemma skip_value_written:
  "written v t \<Longrightarrow> number_ends r \<Longrightarrow> skip_value (t @ r) d = depth_bound d (height v) r"
  using skip_value_scanned [OF written_scanned(1)] written_numbers(1) [of v t]
  by (simp add: first_fault_kept(1) kept_numbers_def depth_bound_def)


text \<open>\<open>[1, {"a": true}]\<close> before a comma, at level 2 and at the last level.\<close>

definition sample_text :: bytes where
  "sample_text = [91, 49, 44, 32, 123, 34, 97, 34, 58, 116, 114, 117, 101, 125, 93]"

lemma sample_json: "json_text (JArr [JInt 1 [49], JObj [([97], JBool True)]]) sample_text"
proof -
  have one: "json_text (JInt 1 [49]) [49]"
    by (rule W_int) (simp add: json_integer_def int_part_def digit_def base_ten_def)
  have a: "json_string False [97] [97]" by (rule S_unescaped) (simp_all add: S_end)
  have "doc_members json_integer json_float (json_string False) [([97], JBool True)]
      ([] @ 34 # [97] @ 34 # [] @ 58 # [] @ [116, 114, 117, 101] @ [])"
    by (rule M_one) (simp_all add: blank_def a W_true)
  then have "json_text (JObj [([97], JBool True)]) (123 # [34, 97, 34, 58, 116, 114, 117, 101] @ [125])"
    by (intro W_obj) simp
  then have "doc_items json_integer json_float (json_string False) [JObj [([97], JBool True)]]
      ([32] @ [123, 34, 97, 34, 58, 116, 114, 117, 101, 125] @ [])"
    by (intro I_one) (simp_all add: blank_def)
  then have "doc_items json_integer json_float (json_string False) [JInt 1 [49], JObj [([97], JBool True)]]
      ([] @ [49] @ [] @ 44 # ([32] @ [123, 34, 97, 34, 58, 116, 114, 117, 101, 125] @ []))"
    by (rule I_more [rotated -1]) (simp_all add: blank_def one)
  then have "json_text (JArr [JInt 1 [49], JObj [([97], JBool True)]])
      (91 # [49, 44, 32, 123, 34, 97, 34, 58, 116, 114, 117, 101, 125] @ [93])"
    by (intro W_arr) simp
  then show ?thesis by (simp add: sample_text_def)
qed


end
