(* ===== verification/JsonFill.thy ===== *)
theory JsonFill
  imports JsonDocument
begin

text \<open>
  The decoder of \<open>json.rs\<close> that fills a tree of structs in one pass over the bytes, driven by the
  field spec the compiler emits. A slot is a \<open>cell\<close>: a scalar's 64 bits, or the string, struct,
  list or map it owns. The counts behind the handles are those of \<open>CountHeap\<close> and are left out:
  everything a fill builds hangs below the root struct, which is released whole on failure, so an
  abort carries no cells. An allocation succeeds. A spec that ends in an open parenthesis, which
  no compiler emits, is read like one that closes it.
\<close>

definition ascii :: "string \<Rightarrow> bytes" where "ascii s = map of_char s"

definition NESTED_TOO_DEEP :: bytes where
  "NESTED_TOO_DEEP = ascii ''json nested deeper than 128 levels''"

definition abort_message :: "nested_abort \<Rightarrow> bytes" where
  "abort_message e = (if e = TooDeep then NESTED_TOO_DEEP else ascii ''invalid json object'')"

subsection \<open>The field spec\<close>

record nested_field =
  field_kind :: u8
  field_name :: bytes
  field_dtor :: int
  field_sub :: bytes
  field_end :: bytes

text \<open>What the loop over the parentheses consumes, the last closing one included, and the rest.\<close>

fun paren_scan :: "nat \<Rightarrow> bytes \<Rightarrow> bytes \<times> bytes" where
  "paren_scan depth [] = ([], [])"
| "paren_scan 0 bs = ([], bs)"
| "paren_scan (Suc d) (b # bs) =
     (case paren_scan (if b = 40 then Suc (Suc d) else if b = 41 then d else Suc d) bs of
        (used, r) \<Rightarrow> (b # used, r))"

definition name_byte :: "u8 \<Rightarrow> bool" where
  "name_byte b \<longleftrightarrow> b \<noteq> 44 \<and> b \<noteq> 40 \<and> b \<noteq> 35"

definition dtor_index :: "bytes \<Rightarrow> int \<times> bytes" where
  "dtor_index r =
     (if r \<noteq> [] \<and> hd r = 35
      then (int (decimal_value 0 (takeWhile is_ascii_digit (tl r))), dropWhile is_ascii_digit (tl r))
      else (- 1, r))"

definition sub_spec :: "bytes \<Rightarrow> bytes \<times> bytes" where
  "sub_spec r =
     (if r \<noteq> [] \<and> hd r = 40
      then (case paren_scan 1 (tl r) of (used, r') \<Rightarrow> (butlast used, r')) else ([], r))"

definition nested_field_at :: "bytes \<Rightarrow> nested_field" where
  "nested_field_at spec =
     (let name = takeWhile name_byte (tl spec);
          (dtor, r) = dtor_index (dropWhile name_byte (tl spec));
          (sub, r) = sub_spec r
      in \<lparr>field_kind = hd spec, field_name = name, field_dtor = dtor, field_sub = sub, field_end = r\<rparr>)"

definition nested_next_pos :: "nested_field \<Rightarrow> bytes" where
  "nested_next_pos f = tl (field_end f)"

fun separators :: "nat \<Rightarrow> bytes \<Rightarrow> nat" where
  "separators depth [] = 0"
| "separators depth (b # bs) =
     (if b = 40 then separators (depth + 1) bs
      else if b = 41 then separators (depth - 1) bs
      else if b = 44 \<and> depth = 0 then Suc (separators depth bs)
      else separators depth bs)"

definition nested_spec_field_count :: "bytes \<Rightarrow> nat" where
  "nested_spec_field_count spec = (if spec = [] then 0 else 1 + separators 0 spec)"

lemma paren_scan_rest: "length (snd (paren_scan d bs)) \<le> length bs"
  by (induction d bs rule: paren_scan.induct) (auto split: prod.splits)

lemma next_pos_shorter:
  assumes "spec \<noteq> []" shows "length (nested_next_pos (nested_field_at spec)) < length spec"
proof -
  have drop: "length (dropWhile P xs) \<le> length xs" for P and xs :: bytes
    by (rule length_dropWhile_le)
  have "length (snd (dtor_index r)) \<le> length r" for r
    using drop [of is_ascii_digit "tl r"] by (cases r) (auto simp: dtor_index_def)
  moreover have "length (snd (sub_spec r)) \<le> length r" for r
    using paren_scan_rest [of 1 "tl r"] by (cases r) (auto simp: sub_spec_def split: prod.splits)
  ultimately have "length (field_end (nested_field_at spec)) \<le> length (tl spec)"
    using drop [of name_byte "tl spec"]
    by (simp add: nested_field_at_def Let_def case_prod_beta) (meson order_trans)
  then show ?thesis using assms by (cases spec) (auto simp: nested_next_pos_def)
qed

text \<open>A cursor is the spec from the field expected next, and that field's slot.\<close>

type_synonym spec_cursor = "bytes \<times> nat"

function spec_walk :: "bytes \<Rightarrow> bytes \<Rightarrow> nat \<Rightarrow> (nat \<times> nested_field) option" where
  "spec_walk key spec idx =
     (if spec = [] then None
      else if field_name (nested_field_at spec) = key then Some (idx, nested_field_at spec)
      else spec_walk key (nested_next_pos (nested_field_at spec)) (idx + 1))"
  by pat_completeness auto
termination
  by (relation "measure (\<lambda>(key, spec, idx). length spec)") (simp_all add: next_pos_shorter)

declare spec_walk.simps [simp del]

definition nested_lookup ::
  "bytes \<Rightarrow> bytes \<Rightarrow> spec_cursor \<Rightarrow> (nat \<times> nested_field \<times> spec_cursor) option" where
  "nested_lookup spec key cur =
     (if fst cur \<noteq> [] \<and> field_name (nested_field_at (fst cur)) = key
      then Some (snd cur, nested_field_at (fst cur),
                 (nested_next_pos (nested_field_at (fst cur)), snd cur + 1))
      else case spec_walk key spec 0 of None \<Rightarrow> None
        | Some (idx, f) \<Rightarrow> Some (idx, f, (nested_next_pos f, idx + 1)))"

subsection \<open>The messages\<close>

definition nested_kind_word :: "u8 \<Rightarrow> bytes" where
  "nested_kind_word kind =
     (if kind = 115 then ascii ''string'' else if kind = 105 then ascii ''int''
      else if kind = 98 then ascii ''bool'' else if kind = 102 then ascii ''float''
      else if kind = 108 then ascii ''list'' else if kind = 109 then ascii ''map''
      else ascii ''object'')"

definition nested_push_index :: "bytes \<Rightarrow> nat \<Rightarrow> bytes" where
  "nested_push_index path i = path @ [91] @ decimal_digits (of_nat i) [] @ [93]"

definition nested_member_path :: "bytes \<Rightarrow> bytes \<Rightarrow> bytes" where
  "nested_member_path path key = path @ [46] @ key"

definition nested_kind_error_at :: "u8 \<Rightarrow> bytes \<Rightarrow> bytes" where
  "nested_kind_error_at kind path = ascii ''expected '' @ nested_kind_word kind @ ascii '' element: '' @ path"

definition nested_prefixed_at :: "bytes \<Rightarrow> bytes \<Rightarrow> bytes" where
  "nested_prefixed_at path msg = path @ ascii '': '' @ msg"

definition nested_field_error :: "bytes \<Rightarrow> u8 \<Rightarrow> bytes \<Rightarrow> bytes" where
  "nested_field_error prefix kind name = prefix @ nested_kind_word kind @ ascii '' field: '' @ name"

subsection \<open>What is built\<close>

datatype elem_tag = TagString | TagStruct | TagList | TagMap | TagPrimitive

datatype cell =
    Scalar u64
  | Str bytes
  | Struct int "cell list"
  | ListOf elem_tag "cell list"
  | MapOf elem_tag "bytes \<Rightarrow> cell option"

text \<open>A struct carries the address of its destructor, a map the value of each key.\<close>

definition nested_elem_tag :: "bytes \<Rightarrow> elem_tag" where
  "nested_elem_tag elem =
     (case elem of [] \<Rightarrow> TagPrimitive
      | b # _ \<Rightarrow> if b = 115 then TagString else if b = 111 then TagStruct
          else if b = 108 then TagList else if b = 109 then TagMap else TagPrimitive)"

definition nested_new_list :: "bytes \<Rightarrow> cell list \<Rightarrow> cell" where
  "nested_new_list elem vs = ListOf (nested_elem_tag elem) vs"

definition nested_new_map :: "bytes \<Rightarrow> (bytes \<Rightarrow> cell option) \<Rightarrow> cell" where
  "nested_new_map elem es = MapOf (nested_elem_tag elem) es"

definition nested_map_insert ::
  "bytes \<Rightarrow> cell \<Rightarrow> (bytes \<Rightarrow> cell option) \<Rightarrow> bytes \<Rightarrow> cell option" where
  "nested_map_insert key v es = es(key \<mapsto> v)"

definition is_null :: "cell \<Rightarrow> bool" where
  "is_null v = (case v of Scalar w \<Rightarrow> w = 0 | _ \<Rightarrow> False)"

definition nested_dtor_at :: "int list \<Rightarrow> int \<Rightarrow> int option" where
  "nested_dtor_at dtors k = (if k < 0 \<or> length dtors \<le> nat k then None else Some (dtors ! nat k))"

definition nested_alloc_struct :: "nat \<Rightarrow> int \<Rightarrow> cell" where
  "nested_alloc_struct field_count dtor = Struct dtor (replicate field_count (Scalar 0))"

text \<open>A scalar of the spec's kind at \<open>p\<close>, which is not empty; \<open>None\<close> when the byte there does
  not begin one, so that the match of the code goes on to its other arms. An integer that is
  written as a float is read and has no value.\<close>

definition scalar_value :: "u8 \<Rightarrow> bytes \<Rightarrow> (cell option \<times> bytes) parse option" where
  "scalar_value kind p =
     (if kind = 115 \<and> hd p = 34
      then Some (followed_by (nested_read_string (tl p)) (\<lambda>x. Inr (Some (Str (fst x)), snd x)))
      else if kind = 105 \<and> nested_is_number_start (hd p)
      then Some (followed_by (nested_read_number p)
        (\<lambda>x. Inr (map_option (\<lambda>v. Scalar (word_of_int v)) (fst x), snd x)))
      else if kind = 102 \<and> nested_is_number_start (hd p)
      then Some (let r = number_span_end (tl p) in
        case float_of_span (span_to p r) of None \<Rightarrow> Inl Malformed
        | Some bits \<Rightarrow> Inr (Some (Scalar bits), r))
      else if kind = 98 \<and> starts_with p lit_true then Some (Inr (Some (Scalar 1), drop 4 p))
      else if kind = 98 \<and> starts_with p lit_false then Some (Inr (Some (Scalar 0), drop 5 p))
      else None)"

subsection \<open>An object's bookkeeping\<close>

record object_fill =
  slots :: "cell list"
  filled :: u64
  wrong :: u64
  deferred :: "(nat \<times> bytes) list"
  cursor :: spec_cursor

definition fill_start :: "bytes \<Rightarrow> cell list \<Rightarrow> object_fill" where
  "fill_start spec obj = \<lparr>slots = obj, filled = 0, wrong = 0, deferred = [], cursor = (spec, 0)\<rparr>"

text \<open>\<open>1u64 << idx\<close>: a release build takes the distance modulo 64, a debug build would stop.\<close>

definition slot_bit :: "nat \<Rightarrow> u64" where "slot_bit idx = push_bit (idx mod 64) 1"

definition note_error :: "'k \<Rightarrow> bytes option \<Rightarrow> ('k \<times> bytes) list \<Rightarrow> ('k \<times> bytes) list" where
  "note_error k err ds =
     filter (\<lambda>d. fst d \<noteq> k) ds @ (case err of None \<Rightarrow> [] | Some msg \<Rightarrow> [(k, msg)])"

definition note_filled :: "nat \<Rightarrow> cell \<Rightarrow> object_fill \<Rightarrow> object_fill" where
  "note_filled idx v st =
     st\<lparr>slots := (slots st)[idx := v], filled := filled st OR slot_bit idx,
        wrong := wrong st AND NOT (slot_bit idx)\<rparr>"

definition note_wrong :: "nat \<Rightarrow> object_fill \<Rightarrow> object_fill" where
  "note_wrong idx st =
     st\<lparr>filled := filled st AND NOT (slot_bit idx), wrong := wrong st OR slot_bit idx,
        deferred := note_error idx None (deferred st)\<rparr>"

definition note_nested :: "nat \<Rightarrow> cell \<Rightarrow> bytes option \<Rightarrow> object_fill \<Rightarrow> object_fill" where
  "note_nested idx v err st =
     note_filled idx v (st\<lparr>deferred := note_error idx err (deferred st)\<rparr>)"

text \<open>The first error in declaration order.\<close>

function first_error :: "object_fill \<Rightarrow> bytes \<Rightarrow> nat \<Rightarrow> bytes option" where
  "first_error st spec idx =
     (if spec = [] then None
      else
        let f = nested_field_at spec in
        if wrong st AND slot_bit idx \<noteq> 0
        then Some (nested_field_error (ascii ''expected '') (field_kind f) (field_name f))
        else if filled st AND slot_bit idx = 0
        then Some (nested_field_error (ascii ''missing '') (field_kind f) (field_name f))
        else
          case (if field_kind f = 111 \<or> field_kind f = 108 \<or> field_kind f = 109
                then map_of (deferred st) idx else None) of
            Some msg \<Rightarrow> Some msg
          | None \<Rightarrow> first_error st (nested_next_pos f) (idx + 1))"
  by pat_completeness auto
termination
  by (relation "measure (\<lambda>(st, spec, idx). length spec)") (simp_all add: next_pos_shorter)

declare first_error.simps [simp del]

subsection \<open>The one pass\<close>

text \<open>The bracket that opens an object or a list is consumed when its filler is called. The
  \<open>loop\<close> functions are the \<open>while\<close> loops; \<open>fill_field\<close> is the body of one under a known or an
  unknown key, \<open>fill_value\<close> what an element and a member have in common: they differ in the path
  that names the position.\<close>

type_synonym 'a fill = "(bytes \<times> 'a \<times> bytes option) parse"

function (sequential) nested_fill_object ::
    "nat \<Rightarrow> int list \<Rightarrow> bytes \<Rightarrow> bytes \<Rightarrow> cell list \<Rightarrow> nat \<Rightarrow> cell list fill"
  and fill_object_loop ::
    "nat \<Rightarrow> int list \<Rightarrow> bytes \<Rightarrow> bytes \<Rightarrow> object_fill \<Rightarrow> nat \<Rightarrow> cell list fill"
  and fill_field ::
    "nat \<Rightarrow> int list \<Rightarrow> bytes \<Rightarrow> bytes \<Rightarrow> bytes \<Rightarrow> object_fill \<Rightarrow> nat \<Rightarrow> (bytes \<times> object_fill) parse"
  and nested_fill_list ::
    "nat \<Rightarrow> int list \<Rightarrow> bytes \<Rightarrow> bytes \<Rightarrow> bytes \<Rightarrow> nat \<Rightarrow> cell list fill"
  and fill_list_loop ::
    "nat \<Rightarrow> int list \<Rightarrow> bytes \<Rightarrow> bytes \<Rightarrow> bytes \<Rightarrow> nat \<Rightarrow> cell list \<Rightarrow> bytes option \<Rightarrow> nat \<Rightarrow> cell list fill"
  and nested_fill_element ::
    "nat \<Rightarrow> int list \<Rightarrow> bytes \<Rightarrow> bytes \<Rightarrow> bytes \<Rightarrow> nat \<Rightarrow> nat \<Rightarrow> cell option fill"
  and nested_fill_map ::
    "nat \<Rightarrow> int list \<Rightarrow> bytes \<Rightarrow> bytes \<Rightarrow> bytes \<Rightarrow> nat \<Rightarrow> (bytes \<Rightarrow> cell option) fill"
  and fill_map_loop ::
    "nat \<Rightarrow> int list \<Rightarrow> bytes \<Rightarrow> bytes \<Rightarrow> bytes \<Rightarrow> (bytes \<Rightarrow> cell option) \<Rightarrow> (bytes \<times> bytes) list \<Rightarrow>
       nat \<Rightarrow> (bytes \<Rightarrow> cell option) fill"
  and nested_fill_member ::
    "nat \<Rightarrow> int list \<Rightarrow> bytes \<Rightarrow> bytes \<Rightarrow> bytes \<Rightarrow> bytes \<Rightarrow> nat \<Rightarrow> cell option fill"
  and fill_value ::
    "nat \<Rightarrow> int list \<Rightarrow> bytes \<Rightarrow> bytes \<Rightarrow> bytes \<Rightarrow> nat \<Rightarrow> cell option fill" where
  "nested_fill_object 0 dtors p spec obj depth = Inl OutOfFuel"
| "nested_fill_object (Suc n) dtors p spec obj depth =
     (let p = skip_ws p; st = fill_start spec obj in
      if p \<noteq> [] \<and> hd p = 125 then Inr (tl p, slots st, first_error st spec 0)
      else fill_object_loop n dtors p spec st depth)"
| "fill_object_loop 0 dtors p spec st depth = Inl OutOfFuel"
| "fill_object_loop (Suc n) dtors p spec st depth =
     (if p = [] then Inr ([], slots st, first_error st spec 0)
      else case skip_ws p of [] \<Rightarrow> Inl Malformed
      | b # q \<Rightarrow>
          if b \<noteq> 34 then Inl Malformed
          else followed_by (nested_read_string q) (\<lambda>x.
            let v = skip_byte 58 (skip_ws (snd x)) in
            if depth + 1 > NESTED_MAX_DEPTH then Inl TooDeep
            else if skip_ws v = [] then Inl Malformed
            else followed_by (fill_field n dtors (skip_ws v) spec (fst x) st (depth + 1)) (\<lambda>y.
              let p = after_item (fst y) in
              if p \<noteq> [] \<and> hd p = 125
              then Inr (tl p, slots (snd y), first_error (snd y) spec 0)
              else fill_object_loop n dtors p spec (snd y) depth)))"
| "fill_field 0 dtors p spec key st depth = Inl OutOfFuel"
| "fill_field (Suc n) dtors p spec key st depth =
     (case nested_lookup spec key (cursor st) of
        None \<Rightarrow> followed_by (skip_value p depth) (\<lambda>e. Inr (e, st))
      | Some (idx, f, cur) \<Rightarrow>
          let st = st\<lparr>cursor := cur\<rparr> in
          case scalar_value (field_kind f) p of
            Some r \<Rightarrow> followed_by r (\<lambda>x. Inr (snd x,
              case fst x of None \<Rightarrow> note_wrong idx st | Some v \<Rightarrow> note_filled idx v st))
          | None \<Rightarrow>
              if field_kind f = 111 \<and> hd p = 123 \<and> (\<not> is_null (slots st ! idx) \<or> 0 \<le> field_dtor f)
              then
                case (if 0 \<le> field_dtor f
                      then map_option (nested_alloc_struct (nested_spec_field_count (field_sub f)))
                             (nested_dtor_at dtors (field_dtor f))
                      else Some (slots st ! idx)) of
                  None \<Rightarrow> Inl Malformed
                | Some (Struct a cells) \<Rightarrow>
                    followed_by (nested_fill_object n dtors (tl p) (field_sub f) cells depth)
                      (\<lambda>y. Inr (fst y, note_nested idx (Struct a (fst (snd y))) (snd (snd y)) st))
                | Some _ \<Rightarrow> Inl Panicked
              else if field_kind f = 108 \<and> hd p = 91
              then followed_by (nested_fill_list n dtors (tl p) (field_sub f) (field_name f) depth)
                (\<lambda>y. Inr (fst y,
                   note_nested idx (nested_new_list (field_sub f) (fst (snd y))) (snd (snd y)) st))
              else if field_kind f = 109 \<and> hd p = 123
              then followed_by (nested_fill_map n dtors (tl p) (field_sub f) (field_name f) depth)
                (\<lambda>y. Inr (fst y,
                   note_nested idx (nested_new_map (field_sub f) (fst (snd y))) (snd (snd y)) st))
              else followed_by (skip_value p depth) (\<lambda>e. Inr (e, note_wrong idx st)))"
| "nested_fill_list 0 dtors p elem path depth = Inl OutOfFuel"
| "nested_fill_list (Suc n) dtors p elem path depth =
     (let p = skip_ws p in
      if p \<noteq> [] \<and> hd p = 93 then Inr (tl p, [], None)
      else fill_list_loop n dtors p elem path 0 [] None depth)"
| "fill_list_loop 0 dtors p elem path index vs err depth = Inl OutOfFuel"
| "fill_list_loop (Suc n) dtors p elem path index vs err depth =
     (if p = [] \<or> hd p = 93 then Inr (tl p, vs, err)
      else if depth + 1 > NESTED_MAX_DEPTH then Inl TooDeep
      else followed_by (nested_fill_element n dtors p elem path index (depth + 1)) (\<lambda>y.
        fill_list_loop n dtors (after_item (fst y)) elem path (index + 1)
          (case fst (snd y) of None \<Rightarrow> vs | Some v \<Rightarrow> vs @ [v])
          (case err of None \<Rightarrow> snd (snd y) | Some _ \<Rightarrow> err) depth))"
| "nested_fill_element 0 dtors p elem path index depth = Inl OutOfFuel"
| "nested_fill_element (Suc n) dtors p elem path index depth =
     fill_value n dtors p elem (nested_push_index path index) depth"
| "nested_fill_map 0 dtors p elem path depth = Inl OutOfFuel"
| "nested_fill_map (Suc n) dtors p elem path depth =
     (let p = skip_ws p in
      if p \<noteq> [] \<and> hd p = 125 then Inr (tl p, Map.empty, None)
      else fill_map_loop n dtors p elem path Map.empty [] depth)"
| "fill_map_loop 0 dtors p elem path es ds depth = Inl OutOfFuel"
| "fill_map_loop (Suc n) dtors p elem path es ds depth =
     (if p = [] then Inr ([], es, map_option snd (find (\<lambda>_. True) ds))
      else case skip_ws p of [] \<Rightarrow> Inl Malformed
      | b # q \<Rightarrow>
          if b \<noteq> 34 then Inl Malformed
          else followed_by (nested_read_string q) (\<lambda>x.
            let v = skip_byte 58 (skip_ws (snd x)) in
            if depth + 1 > NESTED_MAX_DEPTH then Inl TooDeep
            else if skip_ws v = [] then Inl Malformed
            else followed_by (nested_fill_member n dtors (skip_ws v) elem path (fst x) (depth + 1)) (\<lambda>y.
              let p = after_item (fst y);
                  es = (case fst (snd y) of None \<Rightarrow> es | Some c \<Rightarrow> nested_map_insert (fst x) c es);
                  ds = note_error (fst x) (snd (snd y)) ds in
              if p \<noteq> [] \<and> hd p = 125 then Inr (tl p, es, map_option snd (find (\<lambda>_. True) ds))
              else fill_map_loop n dtors p elem path es ds depth)))"
| "nested_fill_member 0 dtors p elem path key depth = Inl OutOfFuel"
| "nested_fill_member (Suc n) dtors p elem path key depth =
     fill_value n dtors p elem (nested_member_path path key) depth"
| "fill_value 0 dtors p elem pos depth = Inl OutOfFuel"
| "fill_value (Suc n) dtors p elem pos depth =
     (if elem = [] then Inl Panicked
      else
        let f = nested_field_at elem in
        case scalar_value (field_kind f) p of
          Some r \<Rightarrow> followed_by r (\<lambda>x. Inr (snd x, fst x,
            case fst x of None \<Rightarrow> Some (nested_kind_error_at (field_kind f) pos) | Some _ \<Rightarrow> None))
        | None \<Rightarrow>
            if field_kind f = 111 \<and> hd p = 123 then
              case nested_dtor_at dtors (field_dtor f) of
                None \<Rightarrow> Inl Malformed
              | Some a \<Rightarrow>
                  followed_by (nested_fill_object n dtors (tl p) (field_sub f)
                      (replicate (nested_spec_field_count (field_sub f)) (Scalar 0)) depth)
                    (\<lambda>y. Inr (fst y, Some (Struct a (fst (snd y))),
                       map_option (nested_prefixed_at pos) (snd (snd y))))
            else if field_kind f = 108 \<and> hd p = 91 then
              followed_by (nested_fill_list n dtors (tl p) (field_sub f) pos depth)
                (\<lambda>y. Inr (fst y, Some (nested_new_list (field_sub f) (fst (snd y))), snd (snd y)))
            else if field_kind f = 109 \<and> hd p = 123 then
              followed_by (nested_fill_map n dtors (tl p) (field_sub f) pos depth)
                (\<lambda>y. Inr (fst y, Some (nested_new_map (field_sub f) (fst (snd y))), snd (snd y)))
            else followed_by (skip_value p depth)
              (\<lambda>e. Inr (e, None, Some (nested_kind_error_at (field_kind f) pos))))"
  by pat_completeness auto
termination
  by (relation "measure (\<lambda>x. case x of
        Inl y \<Rightarrow> (case y of
            Inl z \<Rightarrow> (case z of Inl v \<Rightarrow> fst v | Inr v \<Rightarrow> fst v)
          | Inr z \<Rightarrow> (case z of Inl v \<Rightarrow> fst v | Inr u \<Rightarrow> (case u of Inl v \<Rightarrow> fst v | Inr v \<Rightarrow> fst v)))
      | Inr y \<Rightarrow> (case y of
            Inl z \<Rightarrow> (case z of Inl v \<Rightarrow> fst v | Inr v \<Rightarrow> fst v)
          | Inr z \<Rightarrow> (case z of Inl v \<Rightarrow> fst v | Inr u \<Rightarrow> (case u of Inl v \<Rightarrow> fst v | Inr v \<Rightarrow> fst v))))")
     simp_all

end
