(* ===== verification/JsonSpec.thy ===== *)
theory JsonSpec
  imports JsonFill
begin

text \<open>
  The field specs that the compiler emits, as trees: \<open>render\<close> writes one in the grammar of
  \<open>json.rs\<close>, and the readers of the filler give every part of it back.
\<close>

datatype schema =
    SStr
  | SInt
  | SBool
  | SFloat
  | SPre int "(bytes \<times> schema) list"   \<comment> \<open>a struct in its slot already, with its destructor\<close>
  | SObj nat "(bytes \<times> schema) list"   \<comment> \<open>a struct the filler allocates, with its table index\<close>
  | SList schema
  | SMap schema

fun kind_of :: "schema \<Rightarrow> u8" where
  "kind_of SStr = 115"
| "kind_of SInt = 105"
| "kind_of SBool = 98"
| "kind_of SFloat = 102"
| "kind_of (SPre a fs) = 111"
| "kind_of (SObj k fs) = 111"
| "kind_of (SList e) = 108"
| "kind_of (SMap e) = 109"

fun render :: "bytes \<Rightarrow> schema \<Rightarrow> bytes" and render_fields :: "(bytes \<times> schema) list \<Rightarrow> bytes" where
  "render name (SPre a fs) = 111 # name @ 40 # render_fields fs @ [41]"
| "render name (SObj k fs) = 111 # name @ 35 # decimal_digits (of_nat k) [] @ 40 # render_fields fs @ [41]"
| "render name (SList e) = 108 # name @ 40 # render [] e @ [41]"
| "render name (SMap e) = 109 # name @ 40 # render [] e @ [41]"
| "render name SStr = 115 # name"
| "render name SInt = 105 # name"
| "render name SBool = 98 # name"
| "render name SFloat = 102 # name"
| "render_fields [] = []"
| "render_fields (f # fs) =
     render (fst f) (snd f) @ (if fs = [] then [] else 44 # render_fields fs)"

definition name_ok :: "bytes \<Rightarrow> bool" where
  "name_ok name \<longleftrightarrow> list_all (\<lambda>b. name_byte b \<and> b \<noteq> 41) name"

text \<open>A spec of the compiler: field names apart from each other, at most 63 fields to an object,
  a table index for every struct inside a collection, none where a struct lies in its slot.\<close>

fun wf_schema :: "nat \<Rightarrow> bool \<Rightarrow> schema \<Rightarrow> bool"
  and wf_fields :: "nat \<Rightarrow> bool \<Rightarrow> (bytes \<times> schema) list \<Rightarrow> bool" where
  "wf_schema count pre (SPre a fs) \<longleftrightarrow> pre \<and> wf_fields count True fs \<and> length fs \<le> 63"
| "wf_schema count pre (SObj k fs) \<longleftrightarrow> k < count \<and> wf_fields count False fs \<and> length fs \<le> 63"
| "wf_schema count pre (SList e) \<longleftrightarrow> wf_schema count False e"
| "wf_schema count pre (SMap e) \<longleftrightarrow> wf_schema count False e"
| "wf_schema count pre SStr \<longleftrightarrow> True"
| "wf_schema count pre SInt \<longleftrightarrow> True"
| "wf_schema count pre SBool \<longleftrightarrow> True"
| "wf_schema count pre SFloat \<longleftrightarrow> True"
| "wf_fields count pre [] \<longleftrightarrow> True"
| "wf_fields count pre (f # fs) \<longleftrightarrow>
     name_ok (fst f) \<and> fst f \<notin> fst ` set fs \<and> wf_schema count pre (snd f) \<and> wf_fields count pre fs"

fun sub_of :: "schema \<Rightarrow> bytes" where
  "sub_of (SPre a fs) = render_fields fs"
| "sub_of (SObj k fs) = render_fields fs"
| "sub_of (SList e) = render [] e"
| "sub_of (SMap e) = render [] e"
| "sub_of _ = []"

fun dtor_of :: "schema \<Rightarrow> int" where
  "dtor_of (SObj k fs) = int k"
| "dtor_of _ = - 1"

subsection \<open>Parentheses match\<close>

lemma paren_scan_plain:
  "list_all (\<lambda>b. b \<noteq> 40 \<and> b \<noteq> 41) t \<Longrightarrow>
     paren_scan (Suc d) (t @ r) = (t @ fst (paren_scan (Suc d) r), snd (paren_scan (Suc d) r))"
  by (induction t) (auto split: prod.splits)

lemma digits_plain:
  "list_all (\<lambda>b. b \<noteq> 40 \<and> b \<noteq> 41) (decimal_digits n [])" "list_all is_ascii_digit (decimal_digits n [])"
proof -
  show d: "list_all is_ascii_digit (decimal_digits n [])"
    using decimal_digits_exact [of n "[]"] by auto
  then show "list_all (\<lambda>b. b \<noteq> 40 \<and> b \<noteq> 41) (decimal_digits n [])"
    by (auto simp: list_all_iff is_ascii_digit_def)
qed

lemma name_plain: "name_ok name \<Longrightarrow> list_all (\<lambda>b. b \<noteq> 40 \<and> b \<noteq> 41) name"
  by (auto simp: name_ok_def name_byte_def list_all_iff)

lemma paren_scan_open:
  "paren_scan (Suc d) (40 # r) =
     (40 # fst (paren_scan (Suc (Suc d)) r), snd (paren_scan (Suc (Suc d)) r))"
  "paren_scan (Suc (Suc d)) (41 # r) =
     (41 # fst (paren_scan (Suc d) r), snd (paren_scan (Suc d) r))"
  by (simp_all split: prod.splits)

lemma paren_scan_byte:
  "b \<noteq> 40 \<Longrightarrow> b \<noteq> 41 \<Longrightarrow>
     paren_scan (Suc d) (b # r) = (b # fst (paren_scan (Suc d) r), snd (paren_scan (Suc d) r))"
  by (simp split: prod.splits)

lemma paren_scan_render:
  "wf_schema count pre s \<Longrightarrow> name_ok name \<Longrightarrow> paren_scan (Suc d) (render name s @ r) =
     (render name s @ fst (paren_scan (Suc d) r), snd (paren_scan (Suc d) r))"
  "wf_fields count pre fs \<Longrightarrow> paren_scan (Suc d) (render_fields fs @ r) =
     (render_fields fs @ fst (paren_scan (Suc d) r), snd (paren_scan (Suc d) r))"
proof (induction name s and fs arbitrary: pre d r and pre d r rule: render_render_fields.induct)
  case (1 name a fs)
  then have "wf_fields count True fs" by simp
  from "1.IH" [OF this] show ?case
    using "1.prems" by (simp add: paren_scan_plain paren_scan_open paren_scan_byte name_plain digits_plain del: paren_scan.simps)
next
  case (2 name k fs)
  then have "wf_fields count False fs" by simp
  from "2.IH" [OF this] show ?case
    using "2.prems" by (simp add: paren_scan_plain paren_scan_open paren_scan_byte name_plain digits_plain del: paren_scan.simps)
next
  case (10 f fs)
  then have w: "wf_schema count pre (snd f)" "name_ok (fst f)" "wf_fields count pre fs" by simp_all
  show ?case
    using "10.IH"(1) [OF w(1,2)] "10.IH"(2) [OF _ w(3)]
    by (cases "fs = []") (simp_all add: paren_scan_byte del: paren_scan.simps)
qed (simp_all add: paren_scan_plain paren_scan_open paren_scan_byte name_plain digits_plain
    name_ok_def del: paren_scan.simps)

lemma paren_scan_sub:
  assumes "\<And>d r. paren_scan (Suc d) (t @ r) = (t @ fst (paren_scan (Suc d) r), snd (paren_scan (Suc d) r))"
  shows "paren_scan 1 (t @ 41 # r) = (t @ [41], r)"
proof -
  have "paren_scan 0 r = ([], r)" by (cases r) simp_all
  then show ?thesis using assms [of 0 "41 # r"] by simp
qed

lemma separators_plain: "list_all (\<lambda>b. b \<noteq> 40 \<and> b \<noteq> 41 \<and> b \<noteq> 44) t \<Longrightarrow> separators d (t @ r) = separators d r"
  by (induction t) auto

lemma name_apart: "name_ok name \<Longrightarrow> list_all (\<lambda>b. b \<noteq> 40 \<and> b \<noteq> 41 \<and> b \<noteq> 44) name"
  by (auto simp: name_ok_def name_byte_def list_all_iff)

lemma digits_apart: "list_all (\<lambda>b. b \<noteq> 40 \<and> b \<noteq> 41 \<and> b \<noteq> 44) (decimal_digits n [])"
  using digits_plain(2) [of n] by (auto simp: list_all_iff is_ascii_digit_def)

lemma separators_render:
  "wf_schema count pre s \<Longrightarrow> name_ok name \<Longrightarrow> separators d (render name s @ r) = separators d r"
  "wf_fields count pre fs \<Longrightarrow>
     separators d (render_fields fs @ r) = separators d r + (if d = 0 then length fs - 1 else 0)"
proof (induction name s and fs arbitrary: pre d r and pre d r rule: render_render_fields.induct)
  case (1 name a fs)
  then have "wf_fields count True fs" by simp
  from "1.IH" [OF this] show ?case
    using "1.prems" by (simp add: separators_plain name_apart digits_apart)
next
  case (2 name k fs)
  then have "wf_fields count False fs" by simp
  from "2.IH" [OF this] show ?case
    using "2.prems" by (simp add: separators_plain name_apart digits_apart)
next
  case (10 f fs)
  then have w: "wf_schema count pre (snd f)" "name_ok (fst f)" "wf_fields count pre fs" by simp_all
  show ?case
    using "10.IH"(1) [OF w(1,2)] "10.IH"(2) [OF _ w(3)]
    by (cases "fs = []") (auto simp: Suc_diff_le Suc_le_eq)
qed (simp_all add: separators_plain name_apart digits_apart name_ok_def)

lemma render_not_Nil [simp]: "render name s \<noteq> []"
  by (cases s) simp_all

lemma render_fields_Nil [simp]: "render_fields fs = [] \<longleftrightarrow> fs = []"
  by (cases fs) simp_all

lemma field_count_render:
  "wf_fields count pre fs \<Longrightarrow> nested_spec_field_count (render_fields fs) = length fs"
  using separators_render(2) [of count pre fs 0 "[]"]
  by (cases fs) (simp_all add: nested_spec_field_count_def del: render_fields.simps)

subsection \<open>A field is read back\<close>

lemma take_drop_while:
  assumes "list_all P xs" and "ys = [] \<or> \<not> P (hd ys)"
  shows "takeWhile P (xs @ ys) = xs \<and> dropWhile P (xs @ ys) = ys"
  using assms by (induction xs) (cases ys; auto)+

lemma name_split:
  assumes "name_ok name" and "r = [] \<or> \<not> name_byte (hd r)"
  shows "takeWhile name_byte (name @ r) = name" "dropWhile name_byte (name @ r) = r"
  using take_drop_while [of name_byte name r] assms by (auto simp: name_ok_def list_all_iff)

lemma field_at_render:
  assumes "wf_schema count pre s" and "name_ok name" and "r = [] \<or> hd r = 44"
    and "count \<le> 2 ^ 64"
  shows "nested_field_at (render name s @ r) =
    \<lparr>field_kind = kind_of s, field_name = name, field_dtor = dtor_of s, field_sub = sub_of s,
     field_end = r\<rparr>"
proof -
  have r: "r = [] \<or> \<not> name_byte (hd r)" "dtor_index r = (- 1, r)" "sub_spec r = ([], r)"
    using assms(3) by (auto simp: name_byte_def dtor_index_def sub_spec_def)
  have paren: "dtor_index (40 # q) = (- 1, 40 # q)" "\<not> name_byte 40" "\<not> name_byte 35" for q
    by (simp_all add: dtor_index_def name_byte_def)
  note names = name_split [OF assms(2)]
  show ?thesis
  proof (cases s)
    case (SPre a fs)
    then have "paren_scan 1 (render_fields fs @ 41 # r) = (render_fields fs @ [41], r)"
      using assms(1) by (intro paren_scan_sub paren_scan_render(2)) auto
    then show ?thesis using SPre by (simp add: nested_field_at_def Let_def names paren sub_spec_def)
  next
    case (SObj k fs)
    then have scan: "paren_scan 1 (render_fields fs @ 41 # r) = (render_fields fs @ [41], r)"
      using assms(1) by (intro paren_scan_sub paren_scan_render(2)) auto
    let ?ds = "decimal_digits (of_nat k) []"
    have "k < 2 ^ 64" using SObj assms(1,4) by auto
    then have v: "decimal_value 0 ?ds = k"
      using decimal_digits_exact [of "of_nat k" "[]"] by (auto simp: unat_of_nat_u64)
    have "takeWhile is_ascii_digit (?ds @ 40 # q) = ?ds \<and> dropWhile is_ascii_digit (?ds @ 40 # q) = 40 # q" for q
      by (rule take_drop_while) (simp_all add: digits_plain, simp add: is_ascii_digit_def)
    then have "dtor_index (35 # ?ds @ 40 # q) = (int k, 40 # q)" for q
      by (simp add: dtor_index_def v)
    then show ?thesis using SObj scan by (simp add: nested_field_at_def Let_def names paren sub_spec_def)
  next
    case (SList e)
    then have "paren_scan 1 (render [] e @ 41 # r) = (render [] e @ [41], r)"
      using assms(1) by (intro paren_scan_sub paren_scan_render(1)) (auto simp: name_ok_def)
    then show ?thesis using SList by (simp add: nested_field_at_def Let_def names paren sub_spec_def)
  next
    case (SMap e)
    then have "paren_scan 1 (render [] e @ 41 # r) = (render [] e @ [41], r)"
      using assms(1) by (intro paren_scan_sub paren_scan_render(1)) (auto simp: name_ok_def)
    then show ?thesis using SMap by (simp add: nested_field_at_def Let_def names paren sub_spec_def)
  qed (simp_all add: nested_field_at_def Let_def names r)
qed

text \<open>The field at the head of a rendered spec, and the spec after it.\<close>

lemma field_at_fields:
  assumes "wf_fields count pre (f # fs)" and "count \<le> 2 ^ 64"
  defines "g \<equiv> nested_field_at (render_fields (f # fs))"
  shows "field_kind g = kind_of (snd f)" "field_name g = fst f" "field_dtor g = dtor_of (snd f)"
    "field_sub g = sub_of (snd f)" "nested_next_pos g = render_fields fs"
proof -
  have "g = \<lparr>field_kind = kind_of (snd f), field_name = fst f, field_dtor = dtor_of (snd f),
      field_sub = sub_of (snd f), field_end = (if fs = [] then [] else 44 # render_fields fs)\<rparr>"
    unfolding g_def render_fields.simps using assms(1,2) by (intro field_at_render) auto
  then show "field_kind g = kind_of (snd f)" "field_name g = fst f" "field_dtor g = dtor_of (snd f)"
    "field_sub g = sub_of (snd f)" "nested_next_pos g = render_fields fs"
    by (simp_all add: nested_next_pos_def)
qed

lemma wf_fields_drop: "wf_fields count pre fs \<Longrightarrow> wf_fields count pre (drop i fs)"
  by (induction fs arbitrary: i) (auto simp: drop_Cons split: nat.splits)

lemma wf_fields_nth: "wf_fields count pre fs \<Longrightarrow> i < length fs \<Longrightarrow> wf_schema count pre (snd (fs ! i))"
  by (induction fs arbitrary: i) (auto simp: nth_Cons split: nat.splits)

lemma wf_fields_distinct: "wf_fields count pre fs \<Longrightarrow> distinct (map fst fs)"
  by (induction fs) auto

lemma field_at_drop:
  assumes "wf_fields count pre fs" and "count \<le> 2 ^ 64" and "i < length fs"
  defines "g \<equiv> nested_field_at (render_fields (drop i fs))"
  shows "field_kind g = kind_of (snd (fs ! i))" "field_name g = fst (fs ! i)"
    "field_dtor g = dtor_of (snd (fs ! i))" "field_sub g = sub_of (snd (fs ! i))"
    "nested_next_pos g = render_fields (drop (Suc i) fs)"
  using field_at_fields [of count pre "fs ! i" "drop (Suc i) fs"] wf_fields_drop [OF assms(1), of i]
    assms(2,3)
  by (simp_all add: g_def Cons_nth_drop_Suc)

fun field_index :: "bytes \<Rightarrow> (bytes \<times> schema) list \<Rightarrow> nat option" where
  "field_index key [] = None"
| "field_index key (f # fs) = (if fst f = key then Some 0 else map_option Suc (field_index key fs))"

lemma field_index_Some:
  "field_index key fs = Some i \<Longrightarrow> i < length fs \<and> fst (fs ! i) = key"
  by (induction fs arbitrary: i) (auto split: if_splits)

lemma field_index_None: "field_index key fs = None \<longleftrightarrow> key \<notin> fst ` set fs"
  by (induction fs) auto

lemma field_index_nth:
  "distinct (map fst fs) \<Longrightarrow> i < length fs \<Longrightarrow> field_index (fst (fs ! i)) fs = Some i"
  by (induction fs arbitrary: i) (auto simp: nth_Cons split: nat.splits)

lemma spec_walk_render:
  "wf_fields count pre fs \<Longrightarrow> count \<le> 2 ^ 64 \<Longrightarrow> spec_walk key (render_fields fs) i =
     map_option (\<lambda>j. (i + j, nested_field_at (render_fields (drop j fs)))) (field_index key fs)"
proof (induction fs arbitrary: i)
  case Nil
  then show ?case by (simp add: spec_walk.simps)
next
  case (Cons f fs)
  note at = field_at_fields [OF Cons.prems]
  show ?case
    using Cons at
    by (subst spec_walk.simps) (simp add: option.map_comp comp_def del: render_fields.simps)
qed

definition cursor_ok :: "(bytes \<times> schema) list \<Rightarrow> spec_cursor \<Rightarrow> bool" where
  "cursor_ok fs cur \<longleftrightarrow> (\<exists>i \<le> length fs. cur = (render_fields (drop i fs), i))"

text \<open>The lookup finds the field of the key, wherever the cursor stands.\<close>

lemma lookup_render:
  assumes wf: "wf_fields count pre fs" "count \<le> 2 ^ 64" and "cursor_ok fs cur"
  shows "nested_lookup (render_fields fs) key cur =
    map_option (\<lambda>j. (j, nested_field_at (render_fields (drop j fs)), render_fields (drop (Suc j) fs), Suc j))
      (field_index key fs)"
proof -
  obtain i where i: "i \<le> length fs" "cur = (render_fields (drop i fs), i)"
    using assms(3) by (auto simp: cursor_ok_def)
  have walk: "spec_walk key (render_fields fs) 0 =
      map_option (\<lambda>j. (j, nested_field_at (render_fields (drop j fs)))) (field_index key fs)"
    using spec_walk_render [OF wf] by simp
  show ?thesis
  proof (cases "i < length fs \<and> fst (fs ! i) = key")
    case True
    then have "field_index key fs = Some i"
      using field_index_nth [OF wf_fields_distinct [OF wf(1)]] by blast
    then show ?thesis using i True field_at_drop [OF wf, of i] by (simp add: nested_lookup_def)
  next
    case False
    then have "\<not> (fst cur \<noteq> [] \<and> field_name (nested_field_at (fst cur)) = key)"
      using i field_at_drop(2) [OF wf, of i] by auto
    moreover have "nested_next_pos (nested_field_at (render_fields (drop j fs))) = render_fields (drop (Suc j) fs)"
      if "field_index key fs = Some j" for j
      using field_index_Some [OF that] field_at_drop(5) [OF wf] by blast
    ultimately show ?thesis
      by (auto simp: nested_lookup_def walk split: option.splits)
  qed
qed

lemma cursor_ok_next:
  "field_index key fs = Some j \<Longrightarrow> cursor_ok fs (render_fields (drop (Suc j) fs), Suc j)"
  using field_index_Some by (fastforce simp: cursor_ok_def)

lemma cursor_ok_start: "cursor_ok fs (render_fields fs, 0)"
  by (auto simp: cursor_ok_def intro: exI [of _ 0])

end
