(* ===== verification/JsonDecode.thy ===== *)
theory JsonDecode
  imports JsonSpec
begin

text \<open>
  The filler against a reference decoder that works in two passes: a document is first a tree,
  then the tree is checked field by field, in declaration order. \<open>decode\<close> is the second pass.
  Here are that decoder, the bookkeeping of an object's fields, which keeps the outcome of each
  field as the reference has it, and the scalars.
\<close>

subsection \<open>The reference decoder\<close>

fun collect :: "('a \<Rightarrow> 'e + 'b) \<Rightarrow> 'a list \<Rightarrow> 'e + 'b list" where
  "collect f [] = Inr []"
| "collect f (x # xs) =
     (case f x of Inl e \<Rightarrow> Inl e
      | Inr y \<Rightarrow> (case collect f xs of Inl e \<Rightarrow> Inl e | Inr ys \<Rightarrow> Inr (y # ys)))"

text \<open>The last member under each key, in the order of those members.\<close>

fun lasts :: "(bytes \<times> 'a) list \<Rightarrow> (bytes \<times> 'a) list" where
  "lasts [] = []"
| "lasts (m # ms) = (if fst m \<in> fst ` set ms then lasts ms else m # lasts ms)"

fun tag_of :: "schema \<Rightarrow> elem_tag" where
  "tag_of SStr = TagString"
| "tag_of (SPre a fs) = TagStruct"
| "tag_of (SObj k fs) = TagStruct"
| "tag_of (SList e) = TagList"
| "tag_of (SMap e) = TagMap"
| "tag_of _ = TagPrimitive"

definition mismatch :: "bool \<Rightarrow> bytes \<Rightarrow> schema \<Rightarrow> bytes" where
  "mismatch field pos s =
     (if field then nested_field_error (ascii ''expected '') (kind_of s) pos
      else nested_kind_error_at (kind_of s) pos)"

definition placed :: "bool \<Rightarrow> bytes \<Rightarrow> (cell list \<Rightarrow> cell) \<Rightarrow> bytes + cell list \<Rightarrow> bytes + cell" where
  "placed field pos mk r =
     (case r of Inl m \<Rightarrow> Inl (if field then m else nested_prefixed_at pos m) | Inr cs \<Rightarrow> Inr (mk cs))"

text \<open>\<open>field\<close>: the value of a field named \<open>pos\<close>; otherwise an element or a member at \<open>pos\<close>.\<close>

fun decode :: "int list \<Rightarrow> bool \<Rightarrow> bytes \<Rightarrow> schema \<Rightarrow> json \<Rightarrow> bytes + cell"
  and decode_fields :: "int list \<Rightarrow> (bytes \<times> schema) list \<Rightarrow> (bytes \<times> json) list \<Rightarrow> bytes + cell list" where
  "decode dtors field pos SStr v =
     (case v of JStr s \<Rightarrow> Inr (Str s) | _ \<Rightarrow> Inl (mismatch field pos SStr))"
| "decode dtors field pos SInt v =
     (case v of JInt n t \<Rightarrow> Inr (Scalar (word_of_int n)) | _ \<Rightarrow> Inl (mismatch field pos SInt))"
| "decode dtors field pos SBool v =
     (case v of JBool b \<Rightarrow> Inr (Scalar (if b then 1 else 0)) | _ \<Rightarrow> Inl (mismatch field pos SBool))"
| "decode dtors field pos SFloat v =
     (case v of JInt n t \<Rightarrow> Inr (Scalar (the (float_of_span t)))
      | JFloat t \<Rightarrow> Inr (Scalar (the (float_of_span t)))
      | _ \<Rightarrow> Inl (mismatch field pos SFloat))"
| "decode dtors field pos (SPre a fs) v =
     (case v of JObj ms \<Rightarrow> placed field pos (Struct a) (decode_fields dtors fs ms)
      | _ \<Rightarrow> Inl (mismatch field pos (SPre a fs)))"
| "decode dtors field pos (SObj k fs) v =
     (case v of JObj ms \<Rightarrow> placed field pos (Struct (dtors ! k)) (decode_fields dtors fs ms)
      | _ \<Rightarrow> Inl (mismatch field pos (SObj k fs)))"
| "decode dtors field pos (SList e) v =
     (case v of JArr vs \<Rightarrow>
        placed True pos (ListOf (tag_of e))
          (collect (\<lambda>x. decode dtors False (nested_push_index pos (fst x)) e (snd x)) (enumerate 0 vs))
      | _ \<Rightarrow> Inl (mismatch field pos (SList e)))"
| "decode dtors field pos (SMap e) v =
     (case v of JObj ms \<Rightarrow>
        (case collect (\<lambda>x. case decode dtors False (nested_member_path pos (fst x)) e (snd x) of
                         Inl m \<Rightarrow> Inl m | Inr c \<Rightarrow> Inr (fst x, c)) (lasts ms) of
           Inl m \<Rightarrow> Inl m
         | Inr es \<Rightarrow> Inr (MapOf (tag_of e) (map_of es)))
      | _ \<Rightarrow> Inl (mismatch field pos (SMap e)))"
| "decode_fields dtors [] ms = Inr []"
| "decode_fields dtors (f # fs) ms =
     (case map_of (rev ms) (fst f) of
        None \<Rightarrow> Inl (nested_field_error (ascii ''missing '') (kind_of (snd f)) (fst f))
      | Some v \<Rightarrow>
          (case decode dtors True (fst f) (snd f) v of
             Inl m \<Rightarrow> Inl m
           | Inr c \<Rightarrow> (case decode_fields dtors fs ms of Inl m \<Rightarrow> Inl m | Inr cs \<Rightarrow> Inr (c # cs))))"

text \<open>The slots a root struct starts with: the structs that lie in them have the destructors the
  schema names.\<close>

fun fits :: "schema \<Rightarrow> cell \<Rightarrow> bool" and fits_all :: "(bytes \<times> schema) list \<Rightarrow> cell list \<Rightarrow> bool" where
  "fits (SPre a fs) c \<longleftrightarrow> (case c of Struct b cs \<Rightarrow> b = a \<and> fits_all fs cs | _ \<Rightarrow> False)"
| "fits _ c \<longleftrightarrow> True"
| "fits_all [] cs \<longleftrightarrow> cs = []"
| "fits_all (f # fs) cs \<longleftrightarrow> cs \<noteq> [] \<and> fits (snd f) (hd cs) \<and> fits_all fs (tl cs)"

lemma fits_all_length: "fits_all fs cs \<Longrightarrow> length cs = length fs"
  by (induction fs arbitrary: cs) (auto simp: neq_Nil_conv)

lemma fits_all_nth: "fits_all fs cs \<Longrightarrow> i < length fs \<Longrightarrow> fits (snd (fs ! i)) (cs ! i)"
proof (induction fs arbitrary: cs i)
  case (Cons f fs)
  then obtain c cs' where "cs = c # cs'" by (cases cs) auto
  then show ?case using Cons by (cases i) auto
qed simp

lemma fits_all_update:
  "fits_all fs cs \<Longrightarrow> i < length fs \<Longrightarrow> fits (snd (fs ! i)) c \<Longrightarrow> fits_all fs (cs[i := c])"
proof (induction fs arbitrary: cs i)
  case (Cons f fs)
  then obtain c' cs' where "cs = c' # cs'" by (cases cs) auto
  then show ?case using Cons by (cases i) auto
qed simp

lemma fits_fresh:
  "wf_schema count False s \<Longrightarrow> fits s c"
  by (cases s) auto

lemma fits_all_fresh: "wf_fields count False fs \<Longrightarrow> length cs = length fs \<Longrightarrow> fits_all fs cs"
  by (induction fs arbitrary: cs) (auto intro: fits_fresh simp: length_Suc_conv)

subsection \<open>An object's bookkeeping\<close>

lemma slot_bit_test [simp]: "i < 64 \<Longrightarrow> w AND slot_bit i = 0 \<longleftrightarrow> \<not> bit (w :: u64) i"
  by (simp add: slot_bit_def push_bit_of_1 and_exp_eq_0_iff_not_bit)

lemma bit_slot_bit: "j < 64 \<Longrightarrow> bit (slot_bit j) i \<longleftrightarrow> i = j"
  by (auto simp: slot_bit_def bit_simps)

definition status :: "object_fill \<Rightarrow> nat \<Rightarrow> u8 \<Rightarrow> bytes \<Rightarrow> bytes option" where
  "status st i kind name =
     (if bit (wrong st) i then Some (nested_field_error (ascii ''expected '') kind name)
      else if \<not> bit (filled st) i then Some (nested_field_error (ascii ''missing '') kind name)
      else if kind = 111 \<or> kind = 108 \<or> kind = 109 then map_of (deferred st) i else None)"

lemma map_of_note_error [simp]:
  "map_of (note_error k err ds) i = (if i = k then err else map_of ds i)"
proof -
  have "map_of (filter (\<lambda>d. fst d \<noteq> k) ds) i = (if i = k then None else map_of ds i)"
    by (induction ds) auto
  then show ?thesis
    by (auto simp: note_error_def map_add_def split: option.splits)
qed

lemma status_note_filled:
  assumes "j < 64" and "i < 64"
  shows "status (note_filled j v st) i kind name =
    (if i = j then if kind = 111 \<or> kind = 108 \<or> kind = 109 then map_of (deferred st) i else None
     else status st i kind name)"
  using assms by (auto simp: status_def note_filled_def bit_simps bit_slot_bit)

lemma status_note_nested:
  assumes "j < 64" and "i < 64" and "kind = 111 \<or> kind = 108 \<or> kind = 109"
  shows "status (note_nested j v err st) i kind name =
    (if i = j then err else status st i kind name)"
  using assms by (simp add: note_nested_def status_note_filled) (simp add: status_def)

lemma status_note_nested_other:
  assumes "j < 64" and "i < 64" and "i \<noteq> j"
  shows "status (note_nested j v err st) i kind name = status st i kind name"
  using assms by (simp add: note_nested_def status_note_filled) (simp add: status_def)

lemma status_note_wrong:
  assumes "j < 64" and "i < 64"
  shows "status (note_wrong j st) i kind name =
    (if i = j then Some (nested_field_error (ascii ''expected '') kind name)
     else status st i kind name)"
  using assms by (auto simp: status_def note_wrong_def bit_simps bit_slot_bit)

lemma status_cursor [simp]: "status (st\<lparr>cursor := c\<rparr>) i kind name = status st i kind name"
  by (simp add: status_def)

lemma note_fields [simp]:
  "slots (note_filled i v st) = (slots st)[i := v]" "slots (note_wrong i st) = slots st"
  "slots (note_nested i v err st) = (slots st)[i := v]"
  "cursor (note_filled i v st) = cursor st" "cursor (note_wrong i st) = cursor st"
  "cursor (note_nested i v err st) = cursor st"
  by (simp_all add: note_filled_def note_wrong_def note_nested_def)

text \<open>What a field's value decodes to, when \<open>ms\<close> is what has been read.\<close>

definition outcome :: "int list \<Rightarrow> (bytes \<times> json) list \<Rightarrow> bytes \<times> schema \<Rightarrow> bytes + cell" where
  "outcome dtors ms f =
     (case map_of (rev ms) (fst f) of
        None \<Rightarrow> Inl (nested_field_error (ascii ''missing '') (kind_of (snd f)) (fst f))
      | Some v \<Rightarrow> decode dtors True (fst f) (snd f) v)"

lemma decode_fields_collect: "decode_fields dtors fs ms = collect (outcome dtors ms) fs"
  by (induction fs) (auto simp: outcome_def split: option.splits sum.splits)

lemma outcome_snoc:
  "outcome dtors (ms @ [(k, v)]) f = (if fst f = k then decode dtors True k (snd f) v else outcome dtors ms f)"
  by (simp add: outcome_def)

definition agrees :: "bytes + cell \<Rightarrow> bytes option \<Rightarrow> cell \<Rightarrow> bool" where
  "agrees out err c \<longleftrightarrow> (case out of Inl m \<Rightarrow> err = Some m | Inr d \<Rightarrow> err = None \<and> c = d)"

definition object_inv :: "int list \<Rightarrow> (bytes \<times> schema) list \<Rightarrow> (bytes \<times> json) list \<Rightarrow> object_fill \<Rightarrow> bool" where
  "object_inv dtors fs ms st \<longleftrightarrow>
     fits_all fs (slots st) \<and> cursor_ok fs (cursor st) \<and>
     (\<forall>i<length fs. agrees (outcome dtors ms (fs ! i))
        (status st i (kind_of (snd (fs ! i))) (fst (fs ! i))) (slots st ! i))"

lemma object_inv_start:
  "fits_all fs obj \<Longrightarrow> object_inv dtors fs [] (fill_start (render_fields fs) obj)"
  by (simp add: object_inv_def fill_start_def cursor_ok_start agrees_def outcome_def status_def)

lemma first_error_fields:
  assumes "wf_fields count pre (f # fs)" and "count \<le> 2 ^ 64" and "i < 64"
  shows "first_error st (render_fields (f # fs)) i =
    (case status st i (kind_of (snd f)) (fst f) of Some m \<Rightarrow> Some m
     | None \<Rightarrow> first_error st (render_fields fs) (Suc i))"
  using field_at_fields [OF assms(1,2)] assms(3)
  by (subst first_error.simps) (simp add: Let_def status_def del: render_fields.simps cong: option.case_cong)

lemma first_error_collect:
  assumes "wf_fields count pre fs" and "count \<le> 2 ^ 64" and "i + length fs \<le> 63" and "fits_all fs cells"
    and "\<And>j. j < length fs \<Longrightarrow>
      agrees (out (fs ! j)) (status st (i + j) (kind_of (snd (fs ! j))) (fst (fs ! j))) (cells ! j)"
  shows "case collect out fs of
      Inl m \<Rightarrow> first_error st (render_fields fs) i = Some m
    | Inr cs \<Rightarrow> first_error st (render_fields fs) i = None \<and> cells = cs"
  using assms
proof (induction fs arbitrary: i cells)
  case Nil
  then show ?case by (simp add: first_error.simps)
next
  case (Cons f fs)
  obtain c cells' where c: "cells = c # cells'" "fits_all fs cells'"
    using Cons.prems(4) by (cases cells) auto
  have "case collect out fs of
      Inl m \<Rightarrow> first_error st (render_fields fs) (Suc i) = Some m
    | Inr cs \<Rightarrow> first_error st (render_fields fs) (Suc i) = None \<and> cells' = cs"
    using Cons.prems(1-3) c Cons.prems(5) [of "Suc j" for j] by (intro Cons.IH) auto
  moreover have "agrees (out f) (status st i (kind_of (snd f)) (fst f)) c"
    using Cons.prems(5) [of 0] c by simp
  ultimately show ?case
    using first_error_fields [OF Cons.prems(1,2), of i st] Cons.prems(3) c
    by (auto simp: agrees_def simp del: render_fields.simps split: sum.splits)
qed

text \<open>What an object's filler returns besides the rest of the text.\<close>

definition filled_object ::
  "int list \<Rightarrow> (bytes \<times> schema) list \<Rightarrow> (bytes \<times> json) list \<Rightarrow> cell list \<Rightarrow> bytes option \<Rightarrow> bool" where
  "filled_object dtors fs ms cells err \<longleftrightarrow>
     fits_all fs cells \<and>
     (case decode_fields dtors fs ms of Inl m \<Rightarrow> err = Some m | Inr cs \<Rightarrow> err = None \<and> cells = cs)"

lemma object_inv_filled:
  assumes "object_inv dtors fs ms st" and "wf_fields count pre fs" and "count \<le> 2 ^ 64"
    and "length fs \<le> 63"
  shows "filled_object dtors fs ms (slots st) (first_error st (render_fields fs) 0)"
  using assms first_error_collect [OF assms(2,3), of 0 "slots st" "outcome dtors ms" st]
  by (auto simp: filled_object_def object_inv_def decode_fields_collect split: sum.splits)

lemma object_inv_step:
  assumes inv: "object_inv dtors fs ms st" and idx: "field_index k fs = Some i"
    and "cursor_ok fs (cursor st')" and "fits_all fs (slots st')"
    and "\<And>j kind name. j < length fs \<Longrightarrow> j \<noteq> i \<Longrightarrow>
      status st' j kind name = status st j kind name \<and> slots st' ! j = slots st ! j"
    and "agrees (decode dtors True k (snd (fs ! i)) v)
      (status st' i (kind_of (snd (fs ! i))) k) (slots st' ! i)"
    and "distinct (map fst fs)"
  shows "object_inv dtors fs (ms @ [(k, v)]) st'"
  unfolding object_inv_def
proof (intro conjI allI impI)
  fix j assume j: "j < length fs"
  have i: "i < length fs" "fst (fs ! i) = k" using field_index_Some [OF idx] by auto
  show "agrees (outcome dtors (ms @ [(k, v)]) (fs ! j))
      (status st' j (kind_of (snd (fs ! j))) (fst (fs ! j))) (slots st' ! j)"
  proof (cases "j = i")
    case True
    then show ?thesis using assms(6) i by (simp add: outcome_snoc)
  next
    case False
    then have "fst (fs ! j) \<noteq> k"
      using i j assms(7) by (metis distinct_conv_nth length_map nth_map)
    then show ?thesis using inv j False assms(5) by (simp add: object_inv_def outcome_snoc)
  qed
qed (use assms in simp_all)

lemma object_inv_unknown:
  assumes "object_inv dtors fs ms st" and "field_index k fs = None"
  shows "object_inv dtors fs (ms @ [(k, v)]) st"
proof -
  have "fst (fs ! i) \<noteq> k" if "i < length fs" for i
    using assms(2) that nth_mem [OF that] by (auto simp: field_index_None)
  then show ?thesis using assms(1) by (simp add: object_inv_def outcome_snoc)
qed


subsection \<open>A value of the spec's kind\<close>

text \<open>The arms for scalars: \<open>None\<close> when none of them applies, and no value where a float
  stands for an integer.\<close>

fun scalar_case :: "schema \<Rightarrow> json \<Rightarrow> cell option option" where
  "scalar_case SStr (JStr s) = Some (Some (Str s))"
| "scalar_case SInt (JInt n t) = Some (Some (Scalar (word_of_int n)))"
| "scalar_case SInt (JFloat t) = Some None"
| "scalar_case SFloat (JInt n t) = Some (Some (Scalar (the (float_of_span t))))"
| "scalar_case SFloat (JFloat t) = Some (Some (Scalar (the (float_of_span t))))"
| "scalar_case SBool (JBool b) = Some (Some (Scalar (if b then 1 else 0)))"
| "scalar_case s v = None"

lemma nearest_bits_whole:
  assumes "0 < p" and "p < 2 ^ 60"
  shows "nearest_bits p 1 < finite_bits"
proof -
  let ?k = "unit_exponent p 1"
  have "log2_floor p < 60"
    using log2_floor_bounds [OF assms(1)] assms(2)
    by (meson le_less_trans nat_power_less_imp_less zero_less_numeral)
  moreover have "log2_floor 1 = 0" by (simp add: log2_floor.simps)
  ultimately have "ratio_log2 p 1 \<le> 59" by (simp add: ratio_log2_def Let_def)
  then have k: "?k \<le> 7" by (simp add: unit_exponent_def)
  have "real p < 2 powi (ratio_log2 p 1 + 1)" using ratio_log2_bounds [OF assms(1), of 1] by simp
  also have "\<dots> \<le> 2 powi (53 + ?k)" by (rule power_int_increasing) (simp_all add: unit_exponent_def)
  also have "\<dots> = real (2 ^ 53) * 2 powi ?k" by (simp add: power_int_add)
  finally have "p * 2 ^ nat (- ?k) < 2 ^ 53 * 2 ^ nat ?k" by (simp only: scale_less)
  then have "p * 2 ^ nat (- ?k) div 2 ^ nat ?k < 2 ^ 53"
    by (simp add: less_mult_imp_div_less)
  then have "round_half_even (p * 2 ^ nat (- ?k)) (1 * 2 ^ nat ?k) \<le> 2 ^ 53"
    by (simp add: round_half_even_def Let_def)
  moreover have "nat (?k + 1074) \<le> 1081" using k by simp
  ultimately have "nearest_bits p 1 \<le> 1081 * 2 ^ 52 + 2 ^ 53"
    unfolding nearest_bits_def Let_def by (intro add_mono mult_right_mono) simp_all
  then show ?thesis by (simp add: finite_bits_def)
qed

lemma int_text_float: "int_text n t \<Longrightarrow> float_of_span t \<noteq> None"
proof -
  assume "int_text n t"
  then obtain ds where ds: "ds \<noteq> []" "list_all is_ascii_digit ds" "decimal_value 0 ds \<le> 922337203685477589"
    and t: "t = ds \<or> t = 45 # ds"
    by (auto simp: any_int_def kept_int_def)
  then obtain d q where d: "ds = d # q" by (cases ds) auto
  have run: "takeWhile is_ascii_digit ds = ds" "dropWhile is_ascii_digit ds = []"
    using ds(2) by (simp_all add: takeWhile_eq_all_conv dropWhile_eq_Nil_conv list_all_iff)
  have "sign_of t = (t \<noteq> ds, ds)"
    using t d ds(2) digit_not_float [of d] by (auto simp: sign_of_def is_ascii_digit_def)
  then have "decimal_of t = Some (t \<noteq> ds, decimal_value 0 ds, 0)"
    by (simp add: decimal_of_def exponent_of_def Let_def run ds(1))
  moreover have "nearest_bits (decimal_value 0 ds) 1 < finite_bits" if "decimal_value 0 ds \<noteq> 0"
    using that ds(3) by (intro nearest_bits_whole) simp_all
  moreover have "0 < finite_bits" by (simp add: finite_bits_def)
  ultimately show ?thesis
    by (simp add: float_of_span_def Let_def)
qed

lemma number_text:
  assumes "written v t" and "v = JInt n t \<or> v = JFloat t" and "number_ends r"
  shows "t \<noteq> []" "nested_is_number_start (hd t)" "number_span_end (tl (t @ r)) = r" "float_of_span t \<noteq> None"
proof -
  from assms(1) show "float_of_span t \<noteq> None"
    using assms(2) by (cases rule: doc.cases) (auto dest: int_text_float [OF conjI])
  from assms(1) have k: "int_text n t \<or> float_text t"
    using assms(2) by (cases rule: doc.cases) auto
  obtain b q where t: "t = b # q" "nested_is_number_start b"
    using written_opens [OF assms(1)] assms(2) by (auto simp: opens_def)
  then show "t \<noteq> []" "nested_is_number_start (hd t)" by simp_all
  have "list_all nested_is_number_char q"
    using k t(1) digit_char by (auto simp: any_int_def float_text_def list_all_iff)
  then show "number_span_end (tl (t @ r)) = r"
    using t assms(3) by (simp add: number_span_all number_ends_def)
qed

lemma kind_number: "kind_of s = 115 \<longleftrightarrow> s = SStr" "kind_of s = 105 \<longleftrightarrow> s = SInt"
  "kind_of s = 98 \<longleftrightarrow> s = SBool" "kind_of s = 102 \<longleftrightarrow> s = SFloat"
  by (cases s; simp)+

lemma not_literal:
  "hd p \<noteq> 116 \<Longrightarrow> p \<noteq> [] \<Longrightarrow> \<not> starts_with p lit_true"
  "hd p \<noteq> 102 \<Longrightarrow> p \<noteq> [] \<Longrightarrow> \<not> starts_with p lit_false"
  using literal_start by (cases p; fastforce)+

lemma scalar_number:
  assumes "written v t" and "v = JInt n t \<or> v = JFloat t" and "number_ends r"
  shows "scalar_value (kind_of s) (t @ r) =
    (if s = SInt then Some (followed_by (nested_read_number (t @ r))
        (\<lambda>x. Inr (map_option (\<lambda>v. Scalar (word_of_int v)) (fst x), snd x)))
     else if s = SFloat then Some (Inr (Some (Scalar (the (float_of_span t))), r)) else None)"
proof -
  note num = number_text [OF assms]
  have "hd (t @ r) = hd t" "t @ r \<noteq> []" using num(1) by simp_all
  then show ?thesis
    using num(2-4) number_start_not [OF num(2)]
    by (auto simp: scalar_value_def kind_number not_literal Let_def simp del: append_is_Nil_conv)
qed

lemma scalar_written:
  assumes "written v t" and "number_ends r"
  shows "scalar_value (kind_of s) (t @ r) = map_option (\<lambda>x. Inr (x, r)) (scalar_case s v)"
  using assms(1)
proof (cases rule: doc.cases)
  case (W_int n)
  show ?thesis
    unfolding scalar_number [OF assms(1) disjI1 [OF W_int(1)] assms(2)] read_int [OF W_int(2) assms(2)]
    by (cases s) (simp_all add: W_int)
next
  case W_float
  show ?thesis
    unfolding scalar_number [OF assms(1) disjI2 [OF W_float(1)] assms(2)] read_float [OF conjunct1 [OF W_float(2)] assms(2)]
    by (cases s) (simp_all add: W_float)
next
  case (W_str raw x)
  then show ?thesis
    by (cases s) (auto simp: scalar_value_def not_literal read_spelled nested_is_number_start_def is_ascii_digit_def)
qed (cases s; simp add: scalar_value_def not_literal nested_is_number_start_def is_ascii_digit_def
    lit_true_def lit_false_def starts_with_def)+

lemma scalar_decode:
  "scalar_case s v = Some x \<Longrightarrow> decode dtors field pos s v =
     (case x of None \<Rightarrow> Inl (mismatch field pos s) | Some c \<Rightarrow> Inr c)"
  "scalar_case s v = Some x \<Longrightarrow> kind_of s \<noteq> 111 \<and> kind_of s \<noteq> 108 \<and> kind_of s \<noteq> 109 \<and> fits s c"
  by (cases s; cases v; auto)+

end
