(* ===== verification/JsonExact.thy ===== *)
theory JsonExact
  imports JsonDecode
begin

text \<open>
  The filler on the text of a document: it leaves the text after it, with the cells and the
  message of the reference decoder, or refuses it as too deep.
\<close>

subsection \<open>What each filler returns\<close>

definition gives :: "nat \<Rightarrow> nat \<Rightarrow> bytes \<Rightarrow> ('a \<Rightarrow> bytes option \<Rightarrow> bool) \<Rightarrow> 'a fill \<Rightarrow> bool" where
  "gives d h r Q res \<longleftrightarrow>
     (if d + h \<le> NESTED_MAX_DEPTH then \<exists>x err. res = Inr (r, x, err) \<and> Q x err
      else res = Inl TooDeep)"

definition filled_list ::
  "int list \<Rightarrow> bytes \<Rightarrow> schema \<Rightarrow> nat \<Rightarrow> json list \<Rightarrow> cell list \<Rightarrow> bytes option \<Rightarrow> bool" where
  "filled_list dtors path e i vs cells err \<longleftrightarrow>
     (case collect (\<lambda>x. decode dtors False (nested_push_index path (fst x)) e (snd x)) (enumerate i vs) of
        Inl m \<Rightarrow> err = Some m | Inr cs \<Rightarrow> err = None \<and> cells = cs)"

definition member_outcome :: "int list \<Rightarrow> bytes \<Rightarrow> schema \<Rightarrow> bytes \<times> json \<Rightarrow> bytes + bytes \<times> cell" where
  "member_outcome dtors path e x =
     (case decode dtors False (nested_member_path path (fst x)) e (snd x) of
        Inl m \<Rightarrow> Inl m | Inr c \<Rightarrow> Inr (fst x, c))"

definition filled_map ::
  "int list \<Rightarrow> bytes \<Rightarrow> schema \<Rightarrow> (bytes \<times> json) list \<Rightarrow> (bytes \<Rightarrow> cell option) \<Rightarrow> bytes option \<Rightarrow> bool" where
  "filled_map dtors path e ms es err \<longleftrightarrow>
     (case collect (member_outcome dtors path e) (lasts ms) of
        Inl m \<Rightarrow> err = Some m | Inr cs \<Rightarrow> err = None \<and> es = map_of cs)"

definition filled_value ::
  "int list \<Rightarrow> bytes \<Rightarrow> schema \<Rightarrow> json \<Rightarrow> cell option \<Rightarrow> bytes option \<Rightarrow> bool" where
  "filled_value dtors pos e v c err \<longleftrightarrow>
     (case decode dtors False pos e v of Inl m \<Rightarrow> err = Some m | Inr x \<Rightarrow> c = Some x \<and> err = None)"

text \<open>The fillers of objects, lists and maps behave on the text of one value.\<close>

definition bodies :: "int list \<Rightarrow> json \<Rightarrow> bytes \<Rightarrow> bool" where
  "bodies dtors v t \<longleftrightarrow>
     (\<forall>n r d. 5 * length (t @ r) \<le> n \<longrightarrow> d \<le> NESTED_MAX_DEPTH \<longrightarrow>
        (\<forall>ms pre fs cells. v = JObj ms \<longrightarrow> wf_fields (length dtors) pre fs \<longrightarrow> length fs \<le> 63 \<longrightarrow>
           fits_all fs cells \<longrightarrow>
           gives d (height v) r (filled_object dtors fs ms)
             (nested_fill_object n dtors (tl (t @ r)) (render_fields fs) cells d)) \<and>
        (\<forall>ms e path. v = JObj ms \<longrightarrow> wf_schema (length dtors) False e \<longrightarrow>
           gives d (height v) r (filled_map dtors path e ms)
             (nested_fill_map n dtors (tl (t @ r)) (render [] e) path d)) \<and>
        (\<forall>vs e path. v = JArr vs \<longrightarrow> wf_schema (length dtors) False e \<longrightarrow>
           gives d (height v) r (filled_list dtors path e 0 vs)
             (nested_fill_list n dtors (tl (t @ r)) (render [] e) path d)))"

lemma bodies_object:
  "bodies dtors (JObj ms) t \<Longrightarrow> 5 * length (t @ r) \<le> n \<Longrightarrow> d \<le> NESTED_MAX_DEPTH \<Longrightarrow>
     wf_fields (length dtors) pre fs \<Longrightarrow> length fs \<le> 63 \<Longrightarrow> fits_all fs cells \<Longrightarrow>
     gives d (height (JObj ms)) r (filled_object dtors fs ms)
       (nested_fill_object n dtors (tl (t @ r)) (render_fields fs) cells d)"
  unfolding bodies_def by blast

lemma bodies_map:
  "bodies dtors (JObj ms) t \<Longrightarrow> 5 * length (t @ r) \<le> n \<Longrightarrow> d \<le> NESTED_MAX_DEPTH \<Longrightarrow>
     wf_schema (length dtors) False e \<Longrightarrow>
     gives d (height (JObj ms)) r (filled_map dtors path e ms)
       (nested_fill_map n dtors (tl (t @ r)) (render [] e) path d)"
  unfolding bodies_def by blast

lemma bodies_list:
  "bodies dtors (JArr vs) t \<Longrightarrow> 5 * length (t @ r) \<le> n \<Longrightarrow> d \<le> NESTED_MAX_DEPTH \<Longrightarrow>
     wf_schema (length dtors) False e \<Longrightarrow>
     gives d (height (JArr vs)) r (filled_list dtors path e 0 vs)
       (nested_fill_list n dtors (tl (t @ r)) (render [] e) path d)"
  unfolding bodies_def by blast

lemma gives_followed:
  assumes "gives d h r Q res" and "\<And>x err. Q x err \<Longrightarrow> \<exists>y err'. k (r, x, err) = Inr (r, y, err') \<and> R y err'"
  shows "gives d h r R (followed_by res k)"
proof (cases "d + h \<le> NESTED_MAX_DEPTH")
  case True
  then obtain x err where "res = Inr (r, x, err)" "Q x err" using assms(1) by (auto simp: gives_def)
  then show ?thesis using True assms(2) [of x err] by (simp add: gives_def)
next
  case False
  then show ?thesis using assms(1) by (simp add: gives_def)
qed

lemma gives_skip:
  assumes "written v t" and "number_ends r" and "d \<le> NESTED_MAX_DEPTH" and "Q c err"
  shows "gives d (height v) r Q (followed_by (skip_value (t @ r) d) (\<lambda>e. Inr (e, c, err)))"
  using assms skip_value_written [OF assms(1,2)] by (auto simp: gives_def depth_bound_def)

lemma written_bracket:
  assumes "written v t"
  shows "hd (t @ r) = 123 \<longleftrightarrow> (\<exists>ms. v = JObj ms)" "hd (t @ r) = 91 \<longleftrightarrow> (\<exists>vs. v = JArr vs)"
proof -
  obtain b q where t: "t = b # q" "opens v b" using written_opens [OF assms] by blast
  then show "hd (t @ r) = 123 \<longleftrightarrow> (\<exists>ms. v = JObj ms)" "hd (t @ r) = 91 \<longleftrightarrow> (\<exists>vs. v = JArr vs)"
    using number_start_not [of b] by (cases v; auto simp: opens_def split: bool.splits)+
qed

lemma scalar_case_height: "scalar_case s v = Some x \<Longrightarrow> height v = 0"
  by (cases s; cases v; simp)

lemma field_at_elem:
  assumes "wf_schema count pre e" and "count \<le> 2 ^ 64"
  shows "field_kind (nested_field_at (render [] e)) = kind_of e"
    "field_dtor (nested_field_at (render [] e)) = dtor_of e"
    "field_sub (nested_field_at (render [] e)) = sub_of e"
  using field_at_render [OF assms(1) _ _ assms(2), of "[]" "[]"] by (simp_all add: name_ok_def)

lemma elem_tag_render: "nested_elem_tag (render [] e) = tag_of e"
  by (cases e) (simp_all add: nested_elem_tag_def)

subsection \<open>An element or a member\<close>

lemma fill_value_written:
  assumes w: "written v t" "number_ends r" and b: "bodies dtors v t" and dt: "length dtors \<le> 2 ^ 64"
    and e: "wf_schema (length dtors) False e" and n: "5 * length (t @ r) + 1 \<le> n"
    and d: "d \<le> NESTED_MAX_DEPTH"
  shows "gives d (height v) r (filled_value dtors pos e v) (fill_value n dtors (t @ r) (render [] e) pos d)"
proof -
  obtain m where n: "n = Suc m" "5 * length (t @ r) \<le> m" using n by (cases n) auto
  note at = field_at_elem [OF e dt]
  show ?thesis
  proof (cases "scalar_case e v")
    case (Some x)
    then show ?thesis
      using d at scalar_case_height [OF Some]
      by (cases x) (simp_all add: n(1) Let_def scalar_written [OF w] scalar_decode(1) gives_def
          filled_value_def mismatch_def)
  next
    case None
    note sc = scalar_written [OF w, of e, unfolded None, simplified]
    show ?thesis
    proof (cases "decode dtors False pos e v = Inl (mismatch False pos e) \<and> \<not> (kind_of e = 111 \<and> (\<exists>ms. v = JObj ms))
        \<and> \<not> (kind_of e = 109 \<and> (\<exists>ms. v = JObj ms)) \<and> \<not> (kind_of e = 108 \<and> (\<exists>vs. v = JArr vs))")
      case True
      then have "gives d (height v) r (filled_value dtors pos e v)
          (followed_by (skip_value (t @ r) d) (\<lambda>q. Inr (q, None, Some (nested_kind_error_at (kind_of e) pos))))"
        using w d by (intro gives_skip) (simp_all add: filled_value_def mismatch_def)
      then show ?thesis
        using True by (auto simp: n(1) Let_def sc at written_bracket [OF w(1)])
    next
      case False
      then consider
        (object) k fs ms where "e = SObj k fs" "v = JObj ms"
        | (list) e' vs where "e = SList e'" "v = JArr vs"
        | (map) e' ms where "e = SMap e'" "v = JObj ms"
        using None e by (cases e; cases v) (auto split: json.splits)
      then show ?thesis
      proof cases
        case object
        have fs: "wf_fields (length dtors) False fs" "length fs \<le> 63" "k < length dtors"
          using e object by auto
        have "gives d (height (JObj ms)) r (filled_value dtors pos e v)
            (followed_by (nested_fill_object m dtors (tl (t @ r)) (render_fields fs) (replicate (length fs) (Scalar 0)) d)
              (\<lambda>y. Inr (fst y, Some (Struct (dtors ! k) (fst (snd y))), map_option (nested_prefixed_at pos) (snd (snd y)))))"
          using b n fs d object
          by (intro gives_followed [OF bodies_object [of dtors ms t]])
            (auto simp: filled_object_def filled_value_def placed_def fits_all_fresh split: sum.splits)
        then show ?thesis
          using object fs(3) at sc field_count_render [OF fs(1)] written_bracket [OF w(1), of r]
          by (auto simp: n(1) Let_def nested_dtor_at_def)
      next
        case list
        have "gives d (height (JArr vs)) r (filled_value dtors pos e v)
            (followed_by (nested_fill_list m dtors (tl (t @ r)) (render [] e') pos d)
              (\<lambda>y. Inr (fst y, Some (nested_new_list (render [] e') (fst (snd y))), snd (snd y))))"
          using b n e d list
          by (intro gives_followed [OF bodies_list [of dtors vs t]])
            (auto simp: filled_list_def filled_value_def placed_def nested_new_list_def elem_tag_render split: sum.splits)
        then show ?thesis
          using list at sc written_bracket [OF w(1), of r] by (auto simp: n(1) Let_def)
      next
        case map
        have "gives d (height (JObj ms)) r (filled_value dtors pos e v)
            (followed_by (nested_fill_map m dtors (tl (t @ r)) (render [] e') pos d)
              (\<lambda>y. Inr (fst y, Some (nested_new_map (render [] e') (fst (snd y))), snd (snd y))))"
          using b n e d map
          by (intro gives_followed [OF bodies_map [of dtors ms t]])
            (auto simp: filled_map_def filled_value_def member_outcome_def [abs_def] nested_new_map_def elem_tag_render split: sum.splits)
        then show ?thesis
          using map at sc written_bracket [OF w(1), of r] by (auto simp: n(1) Let_def)
      qed
    qed
  qed
qed

subsection \<open>A field\<close>

definition leaves :: "nat \<Rightarrow> nat \<Rightarrow> bytes \<Rightarrow> ('a \<Rightarrow> bool) \<Rightarrow> (bytes \<times> 'a) parse \<Rightarrow> bool" where
  "leaves d h r Q res \<longleftrightarrow>
     (if d + h \<le> NESTED_MAX_DEPTH then \<exists>x. res = Inr (r, x) \<and> Q x else res = Inl TooDeep)"

lemma gives_leaves:
  assumes "gives d h r Q res" and "\<And>x err. Q x err \<Longrightarrow> \<exists>y. k (r, x, err) = Inr (r, y) \<and> R y"
  shows "leaves d h r R (followed_by res k)"
proof (cases "d + h \<le> NESTED_MAX_DEPTH")
  case True
  then obtain x err where "res = Inr (r, x, err)" "Q x err" using assms(1) by (auto simp: gives_def)
  then show ?thesis using True assms(2) [of x err] by (simp add: leaves_def)
next
  case False
  then show ?thesis using assms(1) by (simp add: gives_def leaves_def)
qed

lemma leaves_skip:
  assumes "written v t" and "number_ends r" and "d \<le> NESTED_MAX_DEPTH" and "Q st"
  shows "leaves d (height v) r Q (followed_by (skip_value (t @ r) d) (\<lambda>e. Inr (e, st)))"
  using assms skip_value_written [OF assms(1,2)] by (auto simp: leaves_def depth_bound_def)

text \<open>A field's value is noted: as wrong, as filled, or as filled with what a nested value reports.\<close>

lemma object_inv_wrong:
  assumes "object_inv dtors fs ms st" and "field_index k fs = Some i" and "cursor_ok fs c"
    and "wf_fields count pre fs" and "length fs \<le> 63"
    and "decode dtors True k (snd (fs ! i)) v = Inl (mismatch True k (snd (fs ! i)))"
  shows "object_inv dtors fs (ms @ [(k, v)]) (note_wrong i (st\<lparr>cursor := c\<rparr>))"
proof (rule object_inv_step [OF assms(1,2)])
  have i: "i < length fs" "fst (fs ! i) = k" using field_index_Some [OF assms(2)] by auto
  show "fits_all fs (slots (note_wrong i (st\<lparr>cursor := c\<rparr>)))"
    using assms(1) by (simp add: object_inv_def)
  show "agrees (decode dtors True k (snd (fs ! i)) v)
      (status (note_wrong i (st\<lparr>cursor := c\<rparr>)) i (kind_of (snd (fs ! i))) k)
      (slots (note_wrong i (st\<lparr>cursor := c\<rparr>)) ! i)"
    using assms(5,6) i by (simp add: status_note_wrong agrees_def mismatch_def)
  show "status (note_wrong i (st\<lparr>cursor := c\<rparr>)) j kind name = status st j kind name \<and>
      slots (note_wrong i (st\<lparr>cursor := c\<rparr>)) ! j = slots st ! j"
    if "j < length fs" "j \<noteq> i" for j kind name
    using that i assms(5) by (simp add: status_note_wrong)
qed (use assms wf_fields_distinct in simp_all)

lemma object_inv_filled_scalar:
  assumes "object_inv dtors fs ms st" and "field_index k fs = Some i" and "cursor_ok fs c"
    and "wf_fields count pre fs" and "length fs \<le> 63"
    and "decode dtors True k (snd (fs ! i)) v = Inr x" and "fits (snd (fs ! i)) x"
    and "kind_of (snd (fs ! i)) \<noteq> 111 \<and> kind_of (snd (fs ! i)) \<noteq> 108 \<and> kind_of (snd (fs ! i)) \<noteq> 109"
  shows "object_inv dtors fs (ms @ [(k, v)]) (note_filled i x (st\<lparr>cursor := c\<rparr>))"
proof (rule object_inv_step [OF assms(1,2)])
  have i: "i < length fs" using field_index_Some [OF assms(2)] by auto
  have f: "fits_all fs (slots st)" using assms(1) by (simp add: object_inv_def)
  show "fits_all fs (slots (note_filled i x (st\<lparr>cursor := c\<rparr>)))"
    using f i assms(7) by (simp add: fits_all_update)
  show "agrees (decode dtors True k (snd (fs ! i)) v)
      (status (note_filled i x (st\<lparr>cursor := c\<rparr>)) i (kind_of (snd (fs ! i))) k)
      (slots (note_filled i x (st\<lparr>cursor := c\<rparr>)) ! i)"
    using assms(5,6,8) i fits_all_length [OF f] by (simp add: status_note_filled agrees_def)
  show "status (note_filled i x (st\<lparr>cursor := c\<rparr>)) j kind name = status st j kind name \<and>
      slots (note_filled i x (st\<lparr>cursor := c\<rparr>)) ! j = slots st ! j"
    if "j < length fs" "j \<noteq> i" for j kind name
    using that i assms(5) by (simp add: status_note_filled)
qed (use assms wf_fields_distinct in simp_all)

lemma object_inv_nested:
  assumes "object_inv dtors fs ms st" and "field_index k fs = Some i" and "cursor_ok fs c"
    and "wf_fields count pre fs" and "length fs \<le> 63"
    and "agrees (decode dtors True k (snd (fs ! i)) v) err x" and "fits (snd (fs ! i)) x"
    and "kind_of (snd (fs ! i)) = 111 \<or> kind_of (snd (fs ! i)) = 108 \<or> kind_of (snd (fs ! i)) = 109"
  shows "object_inv dtors fs (ms @ [(k, v)]) (note_nested i x err (st\<lparr>cursor := c\<rparr>))"
proof (rule object_inv_step [OF assms(1,2)])
  have i: "i < length fs" using field_index_Some [OF assms(2)] by auto
  have f: "fits_all fs (slots st)" using assms(1) by (simp add: object_inv_def)
  show "fits_all fs (slots (note_nested i x err (st\<lparr>cursor := c\<rparr>)))"
    using f i assms(7) by (simp add: fits_all_update)
  show "agrees (decode dtors True k (snd (fs ! i)) v)
      (status (note_nested i x err (st\<lparr>cursor := c\<rparr>)) i (kind_of (snd (fs ! i))) k)
      (slots (note_nested i x err (st\<lparr>cursor := c\<rparr>)) ! i)"
    using assms(5,6,8) i fits_all_length [OF f] by (simp add: status_note_nested)
  show "status (note_nested i x err (st\<lparr>cursor := c\<rparr>)) j kind name = status st j kind name \<and>
      slots (note_nested i x err (st\<lparr>cursor := c\<rparr>)) ! j = slots st ! j"
    if "j < length fs" "j \<noteq> i" for j kind name
    using that i assms(5) by (simp add: status_note_nested_other)
qed (use assms wf_fields_distinct in simp_all)

lemma fill_field_written:
  assumes w: "written v t" "number_ends r" and b: "bodies dtors v t" and dt: "length dtors \<le> 2 ^ 64"
    and fs: "wf_fields (length dtors) pre fs" "length fs \<le> 63" and inv: "object_inv dtors fs ms st"
    and n: "5 * length (t @ r) + 1 \<le> n" and d: "d \<le> NESTED_MAX_DEPTH"
  shows "leaves d (height v) r (object_inv dtors fs (ms @ [(k, v)]))
    (fill_field n dtors (t @ r) (render_fields fs) k st d)"
proof -
  obtain m where n: "n = Suc m" "5 * length (t @ r) \<le> m" using n by (cases n) auto
  have cur: "cursor_ok fs (cursor st)" and fits: "fits_all fs (slots st)"
    using inv by (auto simp: object_inv_def)
  note look = lookup_render [OF fs(1) dt cur, of k]
  show ?thesis
  proof (cases "field_index k fs")
    case None
    then have "leaves d (height v) r (object_inv dtors fs (ms @ [(k, v)]))
        (followed_by (skip_value (t @ r) d) (\<lambda>e. Inr (e, st)))"
      using w d inv by (intro leaves_skip object_inv_unknown)
    then show ?thesis using None look by (simp add: n(1))
  next
    case (Some i)
    let ?s = "snd (fs ! i)" and ?c = "(render_fields (drop (Suc i) fs), Suc i)"
    have i: "i < length fs" "fst (fs ! i) = k" using field_index_Some [OF Some] by auto
    have wf: "wf_schema (length dtors) pre ?s" using wf_fields_nth [OF fs(1) i(1)] .
    have c: "cursor_ok fs ?c" using cursor_ok_next [OF Some] .
    note at = field_at_drop [OF fs(1) dt i(1)]
    note inv_wrong = object_inv_wrong [OF inv Some c fs]
      and inv_filled = object_inv_filled_scalar [OF inv Some c fs]
      and inv_nested = object_inv_nested [OF inv Some c fs]
    show ?thesis
    proof (cases "scalar_case ?s v")
      case sc: (Some x)
      show ?thesis
        using d inv_wrong [of v] inv_filled [of v "the x"] scalar_case_height [OF sc] scalar_decode [OF sc]
        by (cases x) (simp_all add: n(1) Let_def scalar_written [OF w] look Some at sc leaves_def)
    next
      case sc: None
      note scn = scalar_written [OF w, of ?s, unfolded sc, simplified]
      show ?thesis
      proof (cases "decode dtors True k ?s v = Inl (mismatch True k ?s) \<and> \<not> (kind_of ?s = 111 \<and> (\<exists>ms. v = JObj ms))
          \<and> \<not> (kind_of ?s = 109 \<and> (\<exists>ms. v = JObj ms)) \<and> \<not> (kind_of ?s = 108 \<and> (\<exists>vs. v = JArr vs))")
        case True
        then have "leaves d (height v) r (object_inv dtors fs (ms @ [(k, v)]))
            (followed_by (skip_value (t @ r) d) (\<lambda>e. Inr (e, note_wrong i (st\<lparr>cursor := ?c\<rparr>))))"
          using w d inv_wrong by (intro leaves_skip) simp_all
        then show ?thesis
          using True by (auto simp: n(1) Let_def scn look Some at written_bracket [OF w(1)])
      next
        case False
        then consider
          (own) a fs' ms' where "?s = SPre a fs'" "v = JObj ms'"
          | (object) j fs' ms' where "?s = SObj j fs'" "v = JObj ms'"
          | (list) e vs where "?s = SList e" "v = JArr vs"
          | (map) e ms' where "?s = SMap e" "v = JObj ms'"
          using sc by (cases ?s; cases v) (auto split: json.splits)
        then show ?thesis
        proof cases
          case own
          then have fs': "wf_fields (length dtors) True fs'" "length fs' \<le> 63" using wf by auto
          obtain cells where cells: "slots st ! i = Struct a cells" "fits_all fs' cells"
            using fits_all_nth [OF fits i(1)] own by (auto split: cell.splits)
          have "leaves d (height (JObj ms')) r (object_inv dtors fs (ms @ [(k, v)]))
              (followed_by (nested_fill_object m dtors (tl (t @ r)) (render_fields fs') cells d)
                (\<lambda>y. Inr (fst y, note_nested i (Struct a (fst (snd y))) (snd (snd y)) (st\<lparr>cursor := ?c\<rparr>))))"
            using b n fs' d own cells
            by (intro gives_leaves [OF bodies_object [of dtors ms' t]])
              (auto intro!: inv_nested simp: filled_object_def placed_def agrees_def split: sum.splits)
          then show ?thesis
            using own cells scn look Some at written_bracket [OF w(1), of r]
            by (auto simp: n(1) Let_def is_null_def)
        next
          case object
          then have fs': "wf_fields (length dtors) False fs'" "length fs' \<le> 63" "j < length dtors"
            using wf by auto
          have "leaves d (height (JObj ms')) r (object_inv dtors fs (ms @ [(k, v)]))
              (followed_by (nested_fill_object m dtors (tl (t @ r)) (render_fields fs') (replicate (length fs') (Scalar 0)) d)
                (\<lambda>y. Inr (fst y, note_nested i (Struct (dtors ! j) (fst (snd y))) (snd (snd y)) (st\<lparr>cursor := ?c\<rparr>))))"
            using b n fs' d object
            by (intro gives_leaves [OF bodies_object [of dtors ms' t]])
              (auto intro!: inv_nested simp: filled_object_def placed_def agrees_def fits_all_fresh split: sum.splits)
          then show ?thesis
            using object fs'(3) scn look Some at field_count_render [OF fs'(1)] written_bracket [OF w(1), of r]
            by (auto simp: n(1) Let_def nested_dtor_at_def nested_alloc_struct_def)
        next
          case list
          have "leaves d (height (JArr vs)) r (object_inv dtors fs (ms @ [(k, v)]))
              (followed_by (nested_fill_list m dtors (tl (t @ r)) (render [] e) k d)
                (\<lambda>y. Inr (fst y, note_nested i (nested_new_list (render [] e) (fst (snd y))) (snd (snd y)) (st\<lparr>cursor := ?c\<rparr>))))"
            using b n d list wf
            by (intro gives_leaves [OF bodies_list [of dtors vs t]])
              (auto intro!: inv_nested simp: filled_list_def placed_def agrees_def nested_new_list_def
                elem_tag_render split: sum.splits)
          then show ?thesis
            using list scn look Some at i(2) written_bracket [OF w(1), of r] by (auto simp: n(1) Let_def)
        next
          case map
          have "leaves d (height (JObj ms')) r (object_inv dtors fs (ms @ [(k, v)]))
              (followed_by (nested_fill_map m dtors (tl (t @ r)) (render [] e) k d)
                (\<lambda>y. Inr (fst y, note_nested i (nested_new_map (render [] e) (fst (snd y))) (snd (snd y)) (st\<lparr>cursor := ?c\<rparr>))))"
            using b n d map wf
            by (intro gives_leaves [OF bodies_map [of dtors ms' t]])
              (auto intro!: inv_nested simp: filled_map_def member_outcome_def [abs_def] agrees_def
                nested_new_map_def elem_tag_render split: sum.splits)
          then show ?thesis
            using map scn look Some at i(2) written_bracket [OF w(1), of r] by (auto simp: n(1) Let_def)
        qed
      qed
    qed
  qed
qed

end
