(* ===== verification/JsonLoops.thy ===== *)
theory JsonLoops
  imports JsonExact
begin

text \<open>
  The loops over members and elements, and from them the filler as a whole.
\<close>

subsection \<open>A map's members\<close>

definition member_error :: "int list \<Rightarrow> bytes \<Rightarrow> schema \<Rightarrow> bytes \<times> json \<Rightarrow> (bytes \<times> bytes) list" where
  "member_error dtors path e x =
     (case decode dtors False (nested_member_path path (fst x)) e (snd x) of
        Inl m \<Rightarrow> [(fst x, m)] | Inr c \<Rightarrow> [])"

definition map_inv ::
  "int list \<Rightarrow> bytes \<Rightarrow> schema \<Rightarrow> (bytes \<times> json) list \<Rightarrow> (bytes \<Rightarrow> cell option) \<Rightarrow> (bytes \<times> bytes) list \<Rightarrow> bool" where
  "map_inv dtors path e ms es ds \<longleftrightarrow>
     ds = concat (map (member_error dtors path e) (lasts ms)) \<and>
     (\<forall>k. es k \<noteq> None \<longrightarrow> k \<in> fst ` set ms) \<and>
     (\<forall>x c. x \<in> set (lasts ms) \<longrightarrow> decode dtors False (nested_member_path path (fst x)) e (snd x) = Inr c \<longrightarrow>
        es (fst x) = Some c)"

lemma lasts_snoc: "lasts (ms @ [(k, v)]) = filter (\<lambda>x. fst x \<noteq> k) (lasts ms) @ [(k, v)]"
  by (induction ms) auto

lemma lasts_keys: "fst ` set (lasts ms) = fst ` set ms"
  by (induction ms) auto

lemma filter_member_error:
  "filter (\<lambda>d. fst d \<noteq> k) (concat (map (member_error dtors path e) xs)) =
     concat (map (member_error dtors path e) (filter (\<lambda>x. fst x \<noteq> k) xs))"
proof -
  have "filter (\<lambda>d. fst d \<noteq> k) (member_error dtors path e x) =
      (if fst x = k then [] else member_error dtors path e x)" for x
    by (simp add: member_error_def split: sum.split)
  then show ?thesis by (induction xs) auto
qed

lemma map_inv_start: "map_inv dtors path e [] Map.empty []"
  by (simp add: map_inv_def)

lemma map_inv_value:
  "map_inv dtors path e ms es ds \<Longrightarrow> x \<in> set (lasts ms) \<Longrightarrow>
     decode dtors False (nested_member_path path (fst x)) e (snd x) = Inr c \<Longrightarrow> es (fst x) = Some c"
  unfolding map_inv_def by blast

lemma map_inv_step:
  assumes "map_inv dtors path e ms es ds"
    and "filled_value dtors (nested_member_path path k) e v c err"
  shows "map_inv dtors path e (ms @ [(k, v)])
    (case c of None \<Rightarrow> es | Some x \<Rightarrow> nested_map_insert k x es) (note_error k err ds)"
  unfolding map_inv_def
proof (intro conjI allI impI)
  show "note_error k err ds = concat (map (member_error dtors path e) (lasts (ms @ [(k, v)])))"
    using assms by (auto simp: map_inv_def note_error_def lasts_snoc filter_member_error filled_value_def
        member_error_def split: sum.splits)
next
  fix j assume "(case c of None \<Rightarrow> es | Some x \<Rightarrow> nested_map_insert k x es) j \<noteq> None"
  then show "j \<in> fst ` set (ms @ [(k, v)])"
    using assms(1) by (cases c; cases "j = k") (auto simp: map_inv_def nested_map_insert_def)
next
  fix x d assume "x \<in> set (lasts (ms @ [(k, v)]))"
    and x: "decode dtors False (nested_member_path path (fst x)) e (snd x) = Inr d"
  then consider "x = (k, v)" | "x \<in> set (lasts ms)" "fst x \<noteq> k" by (auto simp: lasts_snoc)
  then show "(case c of None \<Rightarrow> es | Some x \<Rightarrow> nested_map_insert k x es) (fst x) = Some d"
  proof cases
    case 1
    then show ?thesis using assms(2) x by (simp add: filled_value_def nested_map_insert_def)
  next
    case 2
    then show ?thesis using map_inv_value [OF assms(1) _ x] by (cases c) (simp_all add: nested_map_insert_def)
  qed
qed

lemma collect_errors:
  "case collect (member_outcome dtors path e) xs of
     Inl m \<Rightarrow> map_option snd (find (\<lambda>_. True) (concat (map (member_error dtors path e) xs))) = Some m
   | Inr cs \<Rightarrow> concat (map (member_error dtors path e) xs) = [] \<and>
       list_all2 (\<lambda>x c. c = (fst x, snd c) \<and>
         decode dtors False (nested_member_path path (fst x)) e (snd x) = Inr (snd c)) xs cs"
  by (induction xs) (auto simp: member_outcome_def member_error_def split: sum.splits)

lemma map_of_collected:
  assumes "list_all2 (\<lambda>x c. c = (fst x, snd c) \<and> P x (snd c)) xs cs"
    and "\<And>x c. x \<in> set xs \<Longrightarrow> P x c \<Longrightarrow> es (fst x) = Some c"
  shows "map_of cs k = (if k \<in> fst ` set xs then es k else None)"
  using assms
proof (induction rule: list_all2_induct)
  case (Cons x xs c cs)
  then obtain b where "c = (fst x, b)" "P x b" by (cases c) auto
  moreover have "map_of cs k = (if k \<in> fst ` set xs then es k else None)"
    using Cons.prems by (intro Cons.IH) simp
  ultimately show ?case using Cons.prems [of x b] by auto
qed simp

lemma map_inv_filled:
  assumes "map_inv dtors path e ms es ds"
  shows "filled_map dtors path e ms es (map_option snd (find (\<lambda>_. True) ds))"
proof (cases "collect (member_outcome dtors path e) (lasts ms)")
  case (Inl m)
  then show ?thesis
    using assms collect_errors [of dtors path e "lasts ms"] by (simp add: filled_map_def map_inv_def)
next
  case (Inr cs)
  then have c: "concat (map (member_error dtors path e) (lasts ms)) = []"
    "list_all2 (\<lambda>x c. c = (fst x, snd c) \<and>
       decode dtors False (nested_member_path path (fst x)) e (snd x) = Inr (snd c)) (lasts ms) cs"
    using collect_errors [of dtors path e "lasts ms"] by simp_all
  have "map_of cs k = es k" for k
  proof -
    have "map_of cs k = (if k \<in> fst ` set (lasts ms) then es k else None)"
      using map_inv_value [OF assms] by (intro map_of_collected [OF c(2)])
    moreover have "es k = None" if "k \<notin> fst ` set ms"
      using assms that by (auto simp: map_inv_def)
    ultimately show ?thesis by (auto simp: lasts_keys)
  qed
  then have "map_of cs = es" by blast
  moreover have "ds = []" using assms c(1) unfolding map_inv_def by metis
  ultimately show ?thesis using Inr by (simp add: filled_map_def)
qed

subsection \<open>A step of a loop\<close>

lemma gives_step:
  assumes "d + 1 \<le> NESTED_MAX_DEPTH \<Longrightarrow> gives (d + 1) h r Q res"
    and "\<And>x err. d + 1 + h \<le> NESTED_MAX_DEPTH \<Longrightarrow> Q x err \<Longrightarrow> gives d h' r' R (k (r, x, err))"
  shows "gives d (max (Suc h) h') r' R (if d + 1 > NESTED_MAX_DEPTH then Inl TooDeep else followed_by res k)"
proof (cases "d + 1 + h \<le> NESTED_MAX_DEPTH")
  case True
  then obtain x err where "res = Inr (r, x, err)" "Q x err" using assms(1) by (auto simp: gives_def)
  then show ?thesis using True assms(2) [of x err] by (auto simp: gives_def max_def split: if_splits)
next
  case False
  then show ?thesis using assms(1) by (auto simp: gives_def)
qed

lemma leaves_step:
  assumes "d + 1 \<le> NESTED_MAX_DEPTH \<Longrightarrow> leaves (d + 1) h r Q res"
    and "\<And>x. d + 1 + h \<le> NESTED_MAX_DEPTH \<Longrightarrow> Q x \<Longrightarrow> gives d h' r' R (k (r, x))"
  shows "gives d (max (Suc h) h') r' R (if d + 1 > NESTED_MAX_DEPTH then Inl TooDeep else followed_by res k)"
proof (cases "d + 1 + h \<le> NESTED_MAX_DEPTH")
  case True
  then obtain x where "res = Inr (r, x)" "Q x" using assms(1) by (auto simp: leaves_def)
  then show ?thesis using True assms(2) [of x] by (auto simp: gives_def max_def split: if_splits)
next
  case False
  then show ?thesis using assms(1) by (auto simp: leaves_def gives_def)
qed

lemma fill_element_written:
  assumes "written v t" "number_ends r" and "bodies dtors v t" and "length dtors \<le> 2 ^ 64"
    and "wf_schema (length dtors) False e" and "5 * length (t @ r) + 2 \<le> n" and "d \<le> NESTED_MAX_DEPTH"
  shows "gives d (height v) r (filled_value dtors (nested_push_index path i) e v)
    (nested_fill_element n dtors (t @ r) (render [] e) path i d)"
    and "gives d (height v) r (filled_value dtors (nested_member_path path k) e v)
    (nested_fill_member n dtors (t @ r) (render [] e) path k d)"
  using fill_value_written [OF assms(1-5), of "n - 1" d] assms(6,7) by (cases n; simp)+

text \<open>The bracket after a loop's opening byte, and the loop's first turn.\<close>

lemma list_body:
  assumes "items vs t"
    and "gives d h r Q (fill_list_loop n dtors (skip_ws (t @ q)) e path 0 [] None d)"
  shows "gives d h r Q (nested_fill_list (Suc n) dtors (t @ q) e path d)"
  using assms(2) items_start [OF assms(1), of q] by (simp add: Let_def)

lemma map_body:
  assumes "members ms t"
    and "gives d h r Q (fill_map_loop n dtors (skip_ws (t @ q)) e path Map.empty [] d)"
  shows "gives d h r Q (nested_fill_map (Suc n) dtors (t @ q) e path d)"
  using assms(2) members_start [OF assms(1), of q] by (auto simp: Let_def)

lemma object_body:
  assumes "members ms t"
    and "gives d h r Q (fill_object_loop n dtors (skip_ws (t @ q)) spec (fill_start spec obj) d)"
  shows "gives d h r Q (nested_fill_object (Suc n) dtors (t @ q) spec obj d)"
  using assms(2) members_start [OF assms(1), of q] by (auto simp: Let_def)

lemma object_turn:
  assumes "spells raw k" and "blank w2" and "blank w3" and "written v t"
  shows "fill_object_loop (Suc n) dtors (34 # raw @ 34 # w2 @ 58 # w3 @ t @ r) spec st d =
    (if d + 1 > NESTED_MAX_DEPTH then Inl TooDeep
     else followed_by (fill_field n dtors (t @ r) spec k st (d + 1)) (\<lambda>y.
       let p = after_item (fst y) in
       if p \<noteq> [] \<and> hd p = 125 then Inr (tl p, slots (snd y), first_error (snd y) spec 0)
       else fill_object_loop n dtors p spec (snd y) d))"
  using assms written_hd [OF assms(4), of r] written_pos [OF assms(4)]
    read_spelled [OF assms(1), of "w2 @ 58 # w3 @ t @ r"]
  by (simp add: Let_def cong: option.case_cong)

lemma map_turn:
  assumes "spells raw k" and "blank w2" and "blank w3" and "written v t"
  shows "fill_map_loop (Suc n) dtors (34 # raw @ 34 # w2 @ 58 # w3 @ t @ r) e path es ds d =
    (if d + 1 > NESTED_MAX_DEPTH then Inl TooDeep
     else followed_by (nested_fill_member n dtors (t @ r) e path k (d + 1)) (\<lambda>y.
       let p = after_item (fst y);
           es = (case fst (snd y) of None \<Rightarrow> es | Some c \<Rightarrow> nested_map_insert k c es);
           ds = note_error k (snd (snd y)) ds in
       if p \<noteq> [] \<and> hd p = 125 then Inr (tl p, es, map_option snd (find (\<lambda>_. True) ds))
       else fill_map_loop n dtors p e path es ds d))"
  using assms written_hd [OF assms(4), of r] written_pos [OF assms(4)]
    read_spelled [OF assms(1), of "w2 @ 58 # w3 @ t @ r"]
  by (simp add: Let_def cong: option.case_cong)

lemma list_turn:
  assumes "written v t"
  shows "fill_list_loop (Suc n) dtors (t @ r) e path i vs err d =
    (if d + 1 > NESTED_MAX_DEPTH then Inl TooDeep
     else followed_by (nested_fill_element n dtors (t @ r) e path i (d + 1)) (\<lambda>y.
       fill_list_loop n dtors (after_item (fst y)) e path (i + 1)
         (case fst (snd y) of None \<Rightarrow> vs | Some v \<Rightarrow> vs @ [v])
         (case err of None \<Rightarrow> snd (snd y) | Some _ \<Rightarrow> err) d))"
  using written_hd [OF assms, of r] written_pos [OF assms] by simp

text \<open>What a loop returns from any of its turns.\<close>

definition listed ::
  "int list \<Rightarrow> bytes \<Rightarrow> schema \<Rightarrow> nat \<Rightarrow> json list \<Rightarrow> cell list \<Rightarrow> bytes option \<Rightarrow> cell list \<Rightarrow> bytes option \<Rightarrow> bool" where
  "listed dtors path e i vs acc err cells err' \<longleftrightarrow>
     (case err of Some m \<Rightarrow> err' = Some m
      | None \<Rightarrow> (\<exists>rest. filled_list dtors path e i vs rest err' \<and> (err' = None \<longrightarrow> cells = acc @ rest)))"

lemma listed_nil: "listed dtors path e i [] acc err acc err"
  by (auto simp: listed_def filled_list_def split: option.splits)

lemma listed_cons:
  assumes "filled_value dtors (nested_push_index path i) e v c m"
    and "listed dtors path e (Suc i) vs (case c of None \<Rightarrow> acc | Some x \<Rightarrow> acc @ [x])
      (case err of None \<Rightarrow> m | Some _ \<Rightarrow> err) cells err'"
  shows "listed dtors path e i (v # vs) acc err cells err'"
  using assms by (auto simp: listed_def filled_value_def filled_list_def split: option.splits sum.splits)

definition item_loop :: "int list \<Rightarrow> json list \<Rightarrow> bytes \<Rightarrow> bool" where
  "item_loop dtors vs t \<longleftrightarrow>
     (\<forall>n r d e path i acc err. 5 * length (t @ 93 # r) + 4 \<le> n \<longrightarrow> d \<le> NESTED_MAX_DEPTH \<longrightarrow>
        wf_schema (length dtors) False e \<longrightarrow>
        gives d (height_list vs) r (listed dtors path e i vs acc err)
          (fill_list_loop n dtors (skip_ws (t @ 93 # r)) (render [] e) path i acc err d))"

definition member_loops :: "int list \<Rightarrow> (bytes \<times> json) list \<Rightarrow> bytes \<Rightarrow> bool" where
  "member_loops dtors ms t \<longleftrightarrow>
     (\<forall>n r d. 5 * length (t @ 125 # r) + 4 \<le> n \<longrightarrow> d \<le> NESTED_MAX_DEPTH \<longrightarrow>
        (\<forall>pre fs seen st. wf_fields (length dtors) pre fs \<longrightarrow> length fs \<le> 63 \<longrightarrow>
           object_inv dtors fs seen st \<longrightarrow>
           gives d (height_members ms) r (filled_object dtors fs (seen @ ms))
             (fill_object_loop n dtors (skip_ws (t @ 125 # r)) (render_fields fs) st d)) \<and>
        (\<forall>e path seen es ds. wf_schema (length dtors) False e \<longrightarrow> map_inv dtors path e seen es ds \<longrightarrow>
           gives d (height_members ms) r (filled_map dtors path e (seen @ ms))
             (fill_map_loop n dtors (skip_ws (t @ 125 # r)) (render [] e) path es ds d)))"

lemma bodies_scalar: "\<forall>ms. v \<noteq> JObj ms \<Longrightarrow> \<forall>vs. v \<noteq> JArr vs \<Longrightarrow> bodies dtors v t"
  by (simp add: bodies_def)

lemma bodies_arr:
  assumes "\<And>n r d e path. 5 * length (t @ r) \<le> n \<Longrightarrow> d \<le> NESTED_MAX_DEPTH \<Longrightarrow>
      wf_schema (length dtors) False e \<Longrightarrow>
      gives d (height (JArr vs)) r (filled_list dtors path e 0 vs)
        (nested_fill_list n dtors (tl (t @ r)) (render [] e) path d)"
  shows "bodies dtors (JArr vs) t"
  using assms by (simp add: bodies_def)

lemma bodies_obj:
  assumes "\<And>n r d pre fs cells. 5 * length (t @ r) \<le> n \<Longrightarrow> d \<le> NESTED_MAX_DEPTH \<Longrightarrow>
      wf_fields (length dtors) pre fs \<Longrightarrow> length fs \<le> 63 \<Longrightarrow> fits_all fs cells \<Longrightarrow>
      gives d (height (JObj ms)) r (filled_object dtors fs ms)
        (nested_fill_object n dtors (tl (t @ r)) (render_fields fs) cells d)"
    and "\<And>n r d e path. 5 * length (t @ r) \<le> n \<Longrightarrow> d \<le> NESTED_MAX_DEPTH \<Longrightarrow>
      wf_schema (length dtors) False e \<Longrightarrow>
      gives d (height (JObj ms)) r (filled_map dtors path e ms)
        (nested_fill_map n dtors (tl (t @ r)) (render [] e) path d)"
  shows "bodies dtors (JObj ms) t"
  using assms unfolding bodies_def by simp

lemma bodies_empty:
  assumes "blank w" and dt: "length dtors \<le> 2 ^ 64"
  shows "bodies dtors (JArr []) (91 # w @ [93])" "bodies dtors (JObj []) (123 # w @ [125])"
proof -
  show "bodies dtors (JArr []) (91 # w @ [93])"
  proof (rule bodies_arr)
    fix n r d e path assume "5 * length ((91 # w @ [93]) @ r) \<le> n" "d \<le> NESTED_MAX_DEPTH"
    then show "gives d (height (JArr [])) r (filled_list dtors path e 0 [])
        (nested_fill_list n dtors (tl ((91 # w @ [93]) @ r)) (render [] e) path d)"
      using assms by (cases n) (simp_all add: skip_ws_stay gives_def filled_list_def)
  qed
  show "bodies dtors (JObj []) (123 # w @ [125])"
  proof (rule bodies_obj)
    fix n r d e path assume "5 * length ((123 # w @ [125]) @ r) \<le> n" "d \<le> NESTED_MAX_DEPTH"
    then show "gives d (height (JObj [])) r (filled_map dtors path e [])
        (nested_fill_map n dtors (tl ((123 # w @ [125]) @ r)) (render [] e) path d)"
      using assms by (cases n) (simp_all add: skip_ws_stay gives_def filled_map_def)
  next
    fix n r d pre fs cells
    assume n: "5 * length ((123 # w @ [125]) @ r) \<le> n" "d \<le> NESTED_MAX_DEPTH"
      and fs: "wf_fields (length dtors) pre fs" "length fs \<le> 63" "fits_all fs cells"
    have "filled_object dtors fs [] cells (first_error (fill_start (render_fields fs) cells) (render_fields fs) 0)"
      using object_inv_filled [OF object_inv_start [OF fs(3)] fs(1) dt fs(2)] by (simp add: fill_start_def)
    then show "gives d (height (JObj [])) r (filled_object dtors fs [])
        (nested_fill_object n dtors (tl ((123 # w @ [125]) @ r)) (render_fields fs) cells d)"
      using n assms by (cases n) (simp_all add: skip_ws_stay gives_def Let_def, simp add: fill_start_def)
  qed
qed

lemma bodies_items:
  assumes "items vs t" and "item_loop dtors vs t"
  shows "bodies dtors (JArr vs) (91 # t @ [93])"
proof (rule bodies_arr)
  fix n r d e path
  assume n: "5 * length ((91 # t @ [93]) @ r) \<le> n" and d: "d \<le> NESTED_MAX_DEPTH"
    and e: "wf_schema (length dtors) False e"
  obtain m where m: "n = Suc m" "5 * length (t @ 93 # r) + 4 \<le> m" using n by (cases n) auto
  have "gives d (height (JArr vs)) r (listed dtors path e 0 vs [] None)
      (fill_list_loop m dtors (skip_ws (t @ 93 # r)) (render [] e) path 0 [] None d)"
    using assms(2) m d e by (simp add: item_loop_def)
  moreover have "listed dtors path e 0 vs [] None = filled_list dtors path e 0 vs"
    by (auto simp: fun_eq_iff listed_def filled_list_def split: sum.splits)
  ultimately show "gives d (height (JArr vs)) r (filled_list dtors path e 0 vs)
      (nested_fill_list n dtors (tl ((91 # t @ [93]) @ r)) (render [] e) path d)"
    using list_body [OF assms(1)] m(1) by simp
qed

lemma bodies_members:
  assumes "members ms t" and "member_loops dtors ms t"
  shows "bodies dtors (JObj ms) (123 # t @ [125])"
proof (rule bodies_obj)
  fix n r d e path
  assume n: "5 * length ((123 # t @ [125]) @ r) \<le> n" and d: "d \<le> NESTED_MAX_DEPTH"
    and e: "wf_schema (length dtors) False e"
  obtain m where m: "n = Suc m" "5 * length (t @ 125 # r) + 4 \<le> m" using n by (cases n) auto
  have "gives d (height_members ms) r (filled_map dtors path e ([] @ ms))
      (fill_map_loop m dtors (skip_ws (t @ 125 # r)) (render [] e) path Map.empty [] d)"
    using assms(2) m d e map_inv_start unfolding member_loops_def by blast
  then show "gives d (height (JObj ms)) r (filled_map dtors path e ms)
      (nested_fill_map n dtors (tl ((123 # t @ [125]) @ r)) (render [] e) path d)"
    using map_body [OF assms(1)] m(1) by simp
next
  fix n r d pre fs cells
  assume n: "5 * length ((123 # t @ [125]) @ r) \<le> n" and d: "d \<le> NESTED_MAX_DEPTH"
    and fs: "wf_fields (length dtors) pre fs" "length fs \<le> 63" "fits_all fs cells"
  obtain m where m: "n = Suc m" "5 * length (t @ 125 # r) + 4 \<le> m" using n by (cases n) auto
  have "gives d (height_members ms) r (filled_object dtors fs ([] @ ms))
      (fill_object_loop m dtors (skip_ws (t @ 125 # r)) (render_fields fs) (fill_start (render_fields fs) cells) d)"
    using assms(2) m d fs object_inv_start [OF fs(3)] unfolding member_loops_def by blast
  then show "gives d (height (JObj ms)) r (filled_object dtors fs ms)
      (nested_fill_object n dtors (tl ((123 # t @ [125]) @ r)) (render_fields fs) cells d)"
    using object_body [OF assms(1)] m(1) by simp
qed

subsection \<open>The loops\<close>

lemma gives_mono:
  "gives d h r Q res \<Longrightarrow> (\<And>x err. Q x err \<Longrightarrow> R x err) \<Longrightarrow> gives d h r R res"
  unfolding gives_def by (cases "d + h \<le> NESTED_MAX_DEPTH") (simp_all, blast)

lemma item_turn:
  assumes w: "written v t" "number_ends q" and b: "bodies dtors v t" and dt: "length dtors \<le> 2 ^ 64"
    and e: "wf_schema (length dtors) False e" and n: "5 * length (t @ q) + 2 \<le> n"
    and rest: "\<And>acc err. gives d h r (listed dtors path e (Suc i) vs acc err)
      (fill_list_loop n dtors (after_item q) (render [] e) path (Suc i) acc err d)"
  shows "gives d (max (Suc (height v)) h) r (listed dtors path e i (v # vs) acc err)
    (fill_list_loop (Suc n) dtors (t @ q) (render [] e) path i acc err d)"
  unfolding list_turn [OF w(1)]
proof (rule gives_step)
  show "d + 1 \<le> NESTED_MAX_DEPTH \<Longrightarrow>
      gives (d + 1) (height v) q (filled_value dtors (nested_push_index path i) e v)
        (nested_fill_element n dtors (t @ q) (render [] e) path i (d + 1))"
    by (rule fill_element_written(1) [OF w b dt e n])
  fix x m assume "filled_value dtors (nested_push_index path i) e v x m"
  note one = listed_cons [OF this]
  show "gives d h r (listed dtors path e i (v # vs) acc err)
      (fill_list_loop n dtors (after_item (fst (q, x, m))) (render [] e) path (i + 1)
        (case fst (snd (q, x, m)) of None \<Rightarrow> acc | Some v \<Rightarrow> acc @ [v])
        (case err of None \<Rightarrow> snd (snd (q, x, m)) | Some _ \<Rightarrow> err) d)"
    unfolding fst_conv snd_conv Suc_eq_plus1 [symmetric] by (rule gives_mono [OF rest one])
qed

lemma item_loop_one:
  assumes "blank w" "blank w'" and "written v t" and "bodies dtors v t" and "length dtors \<le> 2 ^ 64"
  shows "item_loop dtors [v] (w @ t @ w')"
  unfolding item_loop_def
proof (intro allI impI)
  fix n r d e path i acc err
  assume n: "5 * length ((w @ t @ w') @ 93 # r) + 4 \<le> n" and e: "wf_schema (length dtors) False e"
  obtain m where m: "n = Suc (Suc m)" using n by (cases n; cases "n - 1") auto
  have "gives d 0 r (listed dtors path e (Suc i) [] acc err)
      (fill_list_loop (Suc m) dtors (after_item (w' @ 93 # r)) (render [] e) path (Suc i) acc err d)"
    if "d \<le> NESTED_MAX_DEPTH" for acc err
    using assms(2) that by (simp add: gives_def listed_nil)
  moreover assume "d \<le> NESTED_MAX_DEPTH"
  ultimately have "gives d (max (Suc (height v)) 0) r (listed dtors path e i [v] acc err)
      (fill_list_loop (Suc (Suc m)) dtors (t @ w' @ 93 # r) (render [] e) path i acc err d)"
    using n m assms e by (intro item_turn) (auto intro: number_ends_after)
  then show "gives d (height_list [v]) r (listed dtors path e i [v] acc err)
      (fill_list_loop n dtors (skip_ws ((w @ t @ w') @ 93 # r)) (render [] e) path i acc err d)"
    using assms(1) m written_hd(1) [OF assms(3), of "w' @ 93 # r"] by simp
qed

lemma item_loop_more:
  assumes "blank w" "blank w'" and "written v t" and "bodies dtors v t" and "length dtors \<le> 2 ^ 64"
    and "item_loop dtors vs ts"
  shows "item_loop dtors (v # vs) (w @ t @ w' @ 44 # ts)"
  unfolding item_loop_def
proof (intro allI impI)
  fix n r d e path i acc err
  assume n: "5 * length ((w @ t @ w' @ 44 # ts) @ 93 # r) + 4 \<le> n" and d: "d \<le> NESTED_MAX_DEPTH"
    and e: "wf_schema (length dtors) False e"
  obtain m where m: "n = Suc m" using n by (cases n) auto
  have "gives d (height_list vs) r (listed dtors path e (Suc i) vs acc err)
      (fill_list_loop m dtors (after_item (w' @ 44 # ts @ 93 # r)) (render [] e) path (Suc i) acc err d)" for acc err
    using assms(2,6) n m d e by (simp add: item_loop_def)
  then have "gives d (max (Suc (height v)) (height_list vs)) r (listed dtors path e i (v # vs) acc err)
      (fill_list_loop (Suc m) dtors (t @ w' @ 44 # ts @ 93 # r) (render [] e) path i acc err d)"
    using n m assms e by (intro item_turn) (auto intro: number_ends_after)
  then show "gives d (height_list (v # vs)) r (listed dtors path e i (v # vs) acc err)
      (fill_list_loop n dtors (skip_ws ((w @ t @ w' @ 44 # ts) @ 93 # r)) (render [] e) path i acc err d)"
    using assms(1) m written_hd(1) [OF assms(3), of "w' @ 44 # ts @ 93 # r"] by simp
qed

text \<open>Both loops over members, after one of them: \<open>q\<close> is the text after the value.\<close>

lemma member_turn_object:
  assumes k: "spells raw k" "blank w2" "blank w3" and w: "written v t" "number_ends q"
    and b: "bodies dtors v t" and dt: "length dtors \<le> 2 ^ 64"
    and fs: "wf_fields (length dtors) pre fs" "length fs \<le> 63" and inv: "object_inv dtors fs seen st"
    and n: "5 * length (t @ q) + 1 \<le> n"
    and rest: "\<And>st'. object_inv dtors fs (seen @ [(k, v)]) st' \<Longrightarrow>
      gives d h r (filled_object dtors fs ms)
        (if after_item q \<noteq> [] \<and> hd (after_item q) = 125
         then Inr (tl (after_item q), slots st', first_error st' (render_fields fs) 0)
         else fill_object_loop n dtors (after_item q) (render_fields fs) st' d)"
  shows "gives d (max (Suc (height v)) h) r (filled_object dtors fs ms)
    (fill_object_loop (Suc n) dtors (34 # raw @ 34 # w2 @ 58 # w3 @ t @ q) (render_fields fs) st d)"
  unfolding object_turn [OF k w(1)]
proof (rule leaves_step)
  show "d + 1 \<le> NESTED_MAX_DEPTH \<Longrightarrow>
      leaves (d + 1) (height v) q (object_inv dtors fs (seen @ [(k, v)]))
        (fill_field n dtors (t @ q) (render_fields fs) k st (d + 1))"
    by (rule fill_field_written [OF w b dt fs inv n])
qed (use rest in \<open>simp add: Let_def\<close>)

lemma member_turn_map:
  assumes k: "spells raw k" "blank w2" "blank w3" and w: "written v t" "number_ends q"
    and b: "bodies dtors v t" and dt: "length dtors \<le> 2 ^ 64"
    and e: "wf_schema (length dtors) False e" and inv: "map_inv dtors path e seen es ds"
    and n: "5 * length (t @ q) + 2 \<le> n"
    and rest: "\<And>es ds. map_inv dtors path e (seen @ [(k, v)]) es ds \<Longrightarrow>
      gives d h r (filled_map dtors path e ms)
        (if after_item q \<noteq> [] \<and> hd (after_item q) = 125
         then Inr (tl (after_item q), es, map_option snd (find (\<lambda>_. True) ds))
         else fill_map_loop n dtors (after_item q) (render [] e) path es ds d)"
  shows "gives d (max (Suc (height v)) h) r (filled_map dtors path e ms)
    (fill_map_loop (Suc n) dtors (34 # raw @ 34 # w2 @ 58 # w3 @ t @ q) (render [] e) path es ds d)"
  unfolding map_turn [OF k w(1)]
proof (rule gives_step)
  show "d + 1 \<le> NESTED_MAX_DEPTH \<Longrightarrow>
      gives (d + 1) (height v) q (filled_value dtors (nested_member_path path k) e v)
        (nested_fill_member n dtors (t @ q) (render [] e) path k (d + 1))"
    by (rule fill_element_written(2) [OF w b dt e n])
  fix x m assume "filled_value dtors (nested_member_path path k) e v x m"
  from rest [OF map_inv_step [OF inv this]]
  show "gives d h r (filled_map dtors path e ms)
      (let p = after_item (fst (q, x, m));
           es = (case fst (snd (q, x, m)) of None \<Rightarrow> es | Some c \<Rightarrow> nested_map_insert k c es);
           ds = note_error k (snd (snd (q, x, m))) ds in
       if p \<noteq> [] \<and> hd p = 125 then Inr (tl p, es, map_option snd (find (\<lambda>_. True) ds))
       else fill_map_loop n dtors p (render [] e) path es ds d)"
    by (simp add: Let_def)
qed

lemma member_loops_one:
  assumes bl: "blank w1" "blank w2" "blank w3" "blank w4" and k: "spells raw k" and w: "written v t"
    and b: "bodies dtors v t" and dt: "length dtors \<le> 2 ^ 64"
  shows "member_loops dtors [(k, v)] (w1 @ 34 # raw @ 34 # w2 @ 58 # w3 @ t @ w4)"
  unfolding member_loops_def
proof (intro allI impI conjI)
  fix n r d pre fs seen st
  assume n: "5 * length ((w1 @ 34 # raw @ 34 # w2 @ 58 # w3 @ t @ w4) @ 125 # r) + 4 \<le> n"
    and d: "d \<le> NESTED_MAX_DEPTH" and fs: "wf_fields (length dtors) pre fs" "length fs \<le> 63"
    and inv: "object_inv dtors fs seen st"
  obtain m where m: "n = Suc m" using n by (cases n) auto
  have "gives d (max (Suc (height v)) 0) r (filled_object dtors fs (seen @ [(k, v)]))
      (fill_object_loop (Suc m) dtors (34 # raw @ 34 # w2 @ 58 # w3 @ t @ w4 @ 125 # r) (render_fields fs) st d)"
    using n m d bl by (intro member_turn_object [OF k bl(2,3) w _ b dt fs inv])
      (auto simp: gives_def intro: number_ends_after object_inv_filled [OF _ fs(1) dt fs(2)])
  then show "gives d (height_members [(k, v)]) r (filled_object dtors fs (seen @ [(k, v)]))
      (fill_object_loop n dtors (skip_ws ((w1 @ 34 # raw @ 34 # w2 @ 58 # w3 @ t @ w4) @ 125 # r)) (render_fields fs) st d)"
    using bl(1) m by simp
next
  fix n r d e path seen es ds
  assume n: "5 * length ((w1 @ 34 # raw @ 34 # w2 @ 58 # w3 @ t @ w4) @ 125 # r) + 4 \<le> n"
    and d: "d \<le> NESTED_MAX_DEPTH" and e: "wf_schema (length dtors) False e"
    and inv: "map_inv dtors path e seen es ds"
  obtain m where m: "n = Suc m" using n by (cases n) auto
  have "gives d (max (Suc (height v)) 0) r (filled_map dtors path e (seen @ [(k, v)]))
      (fill_map_loop (Suc m) dtors (34 # raw @ 34 # w2 @ 58 # w3 @ t @ w4 @ 125 # r) (render [] e) path es ds d)"
    using n m d bl by (intro member_turn_map [OF k bl(2,3) w _ b dt e inv])
      (auto simp: gives_def intro: number_ends_after map_inv_filled)
  then show "gives d (height_members [(k, v)]) r (filled_map dtors path e (seen @ [(k, v)]))
      (fill_map_loop n dtors (skip_ws ((w1 @ 34 # raw @ 34 # w2 @ 58 # w3 @ t @ w4) @ 125 # r)) (render [] e) path es ds d)"
    using bl(1) m by simp
qed

lemma member_loops_more:
  assumes bl: "blank w1" "blank w2" "blank w3" "blank w4" and k: "spells raw k" and w: "written v t"
    and b: "bodies dtors v t" and dt: "length dtors \<le> 2 ^ 64"
    and ts: "members ms ts" and loop: "member_loops dtors ms ts"
  shows "member_loops dtors ((k, v) # ms) (w1 @ 34 # raw @ 34 # w2 @ 58 # w3 @ t @ w4 @ 44 # ts)"
  unfolding member_loops_def
proof (intro allI impI conjI)
  fix n r d pre fs seen st
  assume n: "5 * length ((w1 @ 34 # raw @ 34 # w2 @ 58 # w3 @ t @ w4 @ 44 # ts) @ 125 # r) + 4 \<le> n"
    and d: "d \<le> NESTED_MAX_DEPTH" and fs: "wf_fields (length dtors) pre fs" "length fs \<le> 63"
    and inv: "object_inv dtors fs seen st"
  obtain m where m: "n = Suc m" using n by (cases n) auto
  obtain q where q: "skip_ws (ts @ 125 # r) = 34 # q" using members_start [OF ts] by blast
  have "gives d (height_members ms) r (filled_object dtors fs ((seen @ [(k, v)]) @ ms))
      (fill_object_loop m dtors (skip_ws (ts @ 125 # r)) (render_fields fs) st' d)"
    if "object_inv dtors fs (seen @ [(k, v)]) st'" for st'
  proof -
    have "5 * length (ts @ 125 # r) + 4 \<le> m" using n m by simp
    then show ?thesis using loop d fs that unfolding member_loops_def by blast
  qed
  then have "gives d (max (Suc (height v)) (height_members ms)) r (filled_object dtors fs (seen @ (k, v) # ms))
      (fill_object_loop (Suc m) dtors (34 # raw @ 34 # w2 @ 58 # w3 @ t @ w4 @ 44 # ts @ 125 # r) (render_fields fs) st d)"
    using n m bl q by (intro member_turn_object [OF k bl(2,3) w _ b dt fs inv]) (auto intro: number_ends_after)
  then show "gives d (height_members ((k, v) # ms)) r (filled_object dtors fs (seen @ (k, v) # ms))
      (fill_object_loop n dtors (skip_ws ((w1 @ 34 # raw @ 34 # w2 @ 58 # w3 @ t @ w4 @ 44 # ts) @ 125 # r)) (render_fields fs) st d)"
    using bl(1) m by simp
next
  fix n r d e path seen es ds
  assume n: "5 * length ((w1 @ 34 # raw @ 34 # w2 @ 58 # w3 @ t @ w4 @ 44 # ts) @ 125 # r) + 4 \<le> n"
    and d: "d \<le> NESTED_MAX_DEPTH" and e: "wf_schema (length dtors) False e"
    and inv: "map_inv dtors path e seen es ds"
  obtain m where m: "n = Suc m" using n by (cases n) auto
  obtain q where q: "skip_ws (ts @ 125 # r) = 34 # q" using members_start [OF ts] by blast
  have "gives d (height_members ms) r (filled_map dtors path e ((seen @ [(k, v)]) @ ms))
      (fill_map_loop m dtors (skip_ws (ts @ 125 # r)) (render [] e) path es ds d)"
    if "map_inv dtors path e (seen @ [(k, v)]) es ds" for es ds
  proof -
    have "5 * length (ts @ 125 # r) + 4 \<le> m" using n m by simp
    then show ?thesis using loop d e that unfolding member_loops_def by blast
  qed
  then have "gives d (max (Suc (height v)) (height_members ms)) r (filled_map dtors path e (seen @ (k, v) # ms))
      (fill_map_loop (Suc m) dtors (34 # raw @ 34 # w2 @ 58 # w3 @ t @ w4 @ 44 # ts @ 125 # r) (render [] e) path es ds d)"
    using n m bl q by (intro member_turn_map [OF k bl(2,3) w _ b dt e inv]) (auto intro: number_ends_after)
  then show "gives d (height_members ((k, v) # ms)) r (filled_map dtors path e (seen @ (k, v) # ms))
      (fill_map_loop n dtors (skip_ws ((w1 @ 34 # raw @ 34 # w2 @ 58 # w3 @ t @ w4 @ 44 # ts) @ 125 # r)) (render [] e) path es ds d)"
    using bl(1) m by simp
qed

lemma written_bodies:
  assumes "length dtors \<le> 2 ^ 64"
  shows "written v t \<Longrightarrow> bodies dtors v t" "items vs t \<Longrightarrow> item_loop dtors vs t"
    "members ms t \<Longrightarrow> member_loops dtors ms t"
proof (induction v t and vs t and ms t rule: doc_doc_items_doc_members.inducts)
  case W_arr0
  then show ?case using assms by (intro bodies_empty)
next
  case W_obj0
  then show ?case using assms by (intro bodies_empty)
next
  case I_one
  then show ?case using assms by (intro item_loop_one)
next
  case I_more
  then show ?case using assms by (intro item_loop_more)
next
  case M_one
  then show ?case using assms by (intro member_loops_one)
next
  case M_more
  then show ?case using assms by (intro member_loops_more)
qed (simp_all add: bodies_scalar bodies_items bodies_members)

end
