(* ===== verification/JsonRoot.thy ===== *)
theory JsonRoot
  imports JsonLoops
begin

text \<open>
  The entry of the filler, which the generated \<open>decode\<close> calls, and what it promises: it returns
  on every input, and on a document it is the reference decoder.
\<close>

definition invalid :: bytes where "invalid = ascii ''invalid json object''"

definition nested_fill_root ::
  "int list \<Rightarrow> bytes option \<Rightarrow> bytes \<Rightarrow> cell list \<Rightarrow> bool \<Rightarrow> bytes + cell list" where
  "nested_fill_root dtors bytes_handle spec obj check_utf8 =
     (case bytes_handle of None \<Rightarrow> Inl invalid
      | Some input \<Rightarrow>
          if check_utf8 \<and> \<not> utf8_valid input then Inl (ascii ''bytes_to_string_utf8 failed'')
          else
            let p = skip_ws input in
            if p = [] \<or> hd p \<noteq> 123 then Inl invalid
            else
              case nested_fill_object (5 * length (tl p) + 5) dtors (tl p) spec obj 1 of
                Inl e \<Rightarrow> Inl (abort_message e)
              | Inr (r, cells, field_error) \<Rightarrow>
                  if skip_ws r \<noteq> [] then Inl invalid
                  else case field_error of Some msg \<Rightarrow> Inl msg | None \<Rightarrow> Inr cells)"

definition pith_json_fill_struct_nested ::
  "bytes option \<Rightarrow> bytes \<Rightarrow> cell list \<Rightarrow> bool \<Rightarrow> bytes + cell list" where
  "pith_json_fill_struct_nested bytes_handle spec obj check_utf8 =
     nested_fill_root [] bytes_handle spec obj check_utf8"

text \<open>The table of destructors is null when no struct lies inside a collection.\<close>

definition pith_json_fill_struct_lists ::
  "bytes option \<Rightarrow> bytes \<Rightarrow> cell list \<Rightarrow> bool \<Rightarrow> int list option \<Rightarrow> int \<Rightarrow> bytes + cell list" where
  "pith_json_fill_struct_lists bytes_handle spec obj check_utf8 dtors_ptr dtor_count =
     nested_fill_root
       (case dtors_ptr of None \<Rightarrow> []
        | Some table \<Rightarrow> if dtor_count \<le> 0 then [] else take (nat dtor_count) table)
       bytes_handle spec obj check_utf8"

subsection \<open>It returns\<close>

definition returns :: "nat \<Rightarrow> (bytes \<times> 'a) parse \<Rightarrow> bool" where
  "returns l res \<longleftrightarrow> res \<noteq> Inl OutOfFuel \<and> (\<forall>r x. res = Inr (r, x) \<longrightarrow> length r \<le> l)"

lemma returns_Inr [simp]: "returns l (Inr (r, x)) \<longleftrightarrow> length r \<le> l"
  by (simp add: returns_def)

lemma returns_Inl [simp]: "returns l (Inl e) \<longleftrightarrow> e \<noteq> OutOfFuel"
  by (simp add: returns_def)

lemma returns_abort: "returns l (Inl Malformed)" "returns l (Inl Panicked)" "returns l (Inl TooDeep)"
  by simp_all

lemma returns_followed:
  assumes "returns l res" and "\<And>r x. length r \<le> l \<Longrightarrow> returns l' (k (r, x))"
  shows "returns l' (followed_by res k)"
proof (cases res)
  case (Inr y)
  then show ?thesis using assms(1) assms(2) [of "fst y" "snd y"] by (cases y) (simp add: Inr)
qed (use assms(1) in simp)

lemma returns_mono: "returns l res \<Longrightarrow> l \<le> l' \<Longrightarrow> returns l' res"
  by (auto simp: returns_def)

lemma returns_skip:
  assumes "\<And>e. length e < length p \<Longrightarrow> returns l (k e)"
  shows "returns l (followed_by (skip_value p d) k)"
proof (cases "skip_value p d")
  case (Inl e)
  then show ?thesis using skip_ends [of p d] by auto
next
  case (Inr e)
  then have "length e < length p" unfolding skip_value_def by (rule skip_shorter(1))
  then show ?thesis using assms Inr by simp
qed

lemma returns_string:
  assumes "\<And>s r. length r < length p \<Longrightarrow> returns l (k (s, r))"
  shows "returns l (followed_by (nested_read_string p) k)"
proof (cases "nested_read_string p")
  case (Inl e)
  then show ?thesis using read_string_fuel [of p] by auto
next
  case (Inr x)
  then show ?thesis using assms read_string_shorter [of p "fst x" "snd x"] by (cases x) simp
qed

lemma followed_by_assoc: "followed_by (followed_by r j) k = followed_by r (\<lambda>x. followed_by (j x) k)"
  by (cases r) simp_all

lemma returns_scalar:
  assumes "scalar_value kind p = Some res" and "p \<noteq> []"
    and k: "\<And>c r. length r < length p \<Longrightarrow> returns l (k (c, r))"
  shows "returns l (followed_by res k)"
proof -
  have "length (number_span_end (tl p)) < length p"
    using number_span_end_le [of "tl p"] assms(2) by (cases p) auto
  moreover have "returns l (followed_by (nested_read_string (tl p)) (\<lambda>x. k (Some (Str (fst x)), snd x)))"
    using assms(2) by (intro returns_string) (auto intro!: k)
  moreover have "returns l (followed_by (nested_read_number p) (\<lambda>x. k (map_option (\<lambda>v. Scalar (word_of_int v)) (fst x), snd x)))"
  proof (cases "nested_read_number p")
    case (Inl e)
    then show ?thesis using read_number_fuel [of p] by auto
  next
    case (Inr x)
    then show ?thesis using k read_number_shorter [OF assms(2), of "fst x" "snd x"] by (cases x) simp
  qed
  ultimately show ?thesis
    using assms(1,2) k by (auto simp: scalar_value_def Let_def followed_by_assoc split: if_splits option.splits)
qed

text \<open>An item of a loop takes at least a byte, and so does a bracket.\<close>

lemma loop_fuel:
  "5 * length p + 5 \<le> Suc n \<Longrightarrow> 5 * length (skip_ws p) + 4 \<le> n"
  "5 * length p + c \<le> Suc n \<Longrightarrow> p \<noteq> [] \<Longrightarrow> 1 \<le> c \<Longrightarrow> 5 * length (tl p) + 5 \<le> n"
  using skip_ws_le [of p] by simp_all (cases p; simp)

lemma after_item_fuel:
  assumes "length r < l" and "5 * l + 4 \<le> Suc n"
  shows "5 * length (after_item r) + 4 \<le> n" "length (after_item r) \<le> l"
  using assms after_item_le [of r] by simp_all

lemma field_returns:
  assumes "\<And>spec obj d. returns l (nested_fill_object n dtors (tl p) spec obj d)"
    and "\<And>elem path d. returns l (nested_fill_list n dtors (tl p) elem path d)"
    and "\<And>elem path d. returns l (nested_fill_map n dtors (tl p) elem path d)"
    and p: "p \<noteq> []" "l = length p - 1"
  shows "returns l (fill_field (Suc n) dtors p spec key st d)"
proof -
  note ret = returns_followed [OF assms(1)] returns_followed [OF assms(2)] returns_followed [OF assms(3)]
  have skip: "returns l (followed_by (skip_value p d) (\<lambda>e. Inr (e, x)))" for x :: object_fill
    using p by (intro returns_skip) auto
  show ?thesis
  proof (cases "nested_lookup spec key (cursor st)")
    case None
    then show ?thesis using skip by simp
  next
    case (Some y)
    then obtain idx f cur where y: "nested_lookup spec key (cursor st) = Some (idx, f, cur)" by (cases y) auto
    show ?thesis
    proof (cases "scalar_value (field_kind f) p")
      case sc: (Some res)
      have "returns l (followed_by res (\<lambda>x. Inr (snd x, g (fst x))))" for g :: "cell option \<Rightarrow> object_fill"
        using p by (intro returns_scalar [OF sc]) auto
      then show ?thesis using y sc by (simp add: Let_def)
    next
      case sc: None
      show ?thesis
        unfolding fill_field.simps y option.case prod.case sc Let_def
        by (split if_split option.split cell.split | rule conjI impI allI skip returns_abort | (rule ret; simp))+
    qed
  qed
qed

lemma value_returns:
  assumes "\<And>spec obj d. returns l (nested_fill_object n dtors (tl p) spec obj d)"
    and "\<And>elem path d. returns l (nested_fill_list n dtors (tl p) elem path d)"
    and "\<And>elem path d. returns l (nested_fill_map n dtors (tl p) elem path d)"
    and p: "p \<noteq> []" "l = length p - 1"
  shows "returns l (fill_value (Suc n) dtors p elem pos d)"
proof -
  let ?f = "nested_field_at elem"
  note ret = returns_followed [OF assms(1)] returns_followed [OF assms(2)] returns_followed [OF assms(3)]
  have skip: "returns l (followed_by (skip_value p d) (\<lambda>e. Inr (e, x)))" for x :: "cell option \<times> bytes option"
    using p by (intro returns_skip) auto
  show ?thesis
  proof (cases "scalar_value (field_kind ?f) p")
    case sc: (Some res)
    have "returns l (followed_by res (\<lambda>x. Inr (snd x, fst x, g (fst x))))" for g :: "cell option \<Rightarrow> bytes option"
      using p by (intro returns_scalar [OF sc]) auto
    then show ?thesis using sc by (simp add: Let_def)
  next
    case sc: None
    show ?thesis
      unfolding fill_value.simps Let_def sc option.case
      by (split if_split option.split | rule conjI impI allI skip returns_abort | (rule ret; simp))+
  qed
qed

lemma fill_returns:
  "5 * length p + 5 \<le> n \<Longrightarrow> returns (length p) (nested_fill_object n dtors p spec obj d)"
  "5 * length p + 4 \<le> n \<Longrightarrow> returns (length p) (fill_object_loop n dtors p spec st d)"
  "5 * length p + 1 \<le> n \<Longrightarrow> p \<noteq> [] \<Longrightarrow> returns (length p - 1) (fill_field n dtors p spec key st d)"
  "5 * length p + 5 \<le> n \<Longrightarrow> returns (length p) (nested_fill_list n dtors p elem path d)"
  "5 * length p + 4 \<le> n \<Longrightarrow> returns (length p) (fill_list_loop n dtors p elem path i vs err d)"
  "5 * length p + 2 \<le> n \<Longrightarrow> p \<noteq> [] \<Longrightarrow> returns (length p - 1) (nested_fill_element n dtors p elem path i d)"
  "5 * length p + 5 \<le> n \<Longrightarrow> returns (length p) (nested_fill_map n dtors p elem path d)"
  "5 * length p + 4 \<le> n \<Longrightarrow> returns (length p) (fill_map_loop n dtors p elem path es ds d)"
  "5 * length p + 2 \<le> n \<Longrightarrow> p \<noteq> [] \<Longrightarrow> returns (length p - 1) (nested_fill_member n dtors p elem path key d)"
  "5 * length p + 1 \<le> n \<Longrightarrow> p \<noteq> [] \<Longrightarrow> returns (length p - 1) (fill_value n dtors p elem pos d)"
proof (induction n arbitrary: p spec obj st key elem path i vs err es ds pos d)
  case (Suc n)
  note IH = Suc.IH
  have ws: "length (skip_ws p) \<le> length p" for p by (rule skip_ws_le)
  have tl_ws: "length (skip_ws p) - 1 \<le> length p" for p using ws [of p] by simp
  have tl: "length (tl p) \<le> length p - 1" for p :: bytes by simp
  {
    case 1
    from IH(2) [OF loop_fuel(1) [OF 1], THEN returns_mono, OF ws] show ?case
      using tl_ws by (auto simp: Let_def)
  next
    case 2
    show ?case
    proof (cases "skip_ws p")
      case (Cons b q)
      then have q: "length q < length p" using ws [of p] by simp
      have "returns (length p) (followed_by (fill_field n dtors (skip_ws v) spec k st (d + 1)) (\<lambda>y.
          let p = after_item (fst y) in
          if p \<noteq> [] \<and> hd p = 125 then Inr (tl p, slots (snd y), first_error (snd y) spec 0)
          else fill_object_loop n dtors p spec (snd y) d))"
        if v: "skip_ws v \<noteq> []" "length v < length q" for v k
      proof -
        have l: "length (skip_ws v) < length p" "5 * length (skip_ws v) + 1 \<le> n"
          using v q ws [of v] 2 by simp_all
        show ?thesis
        proof (rule returns_followed [OF IH(3) [OF l(2) v(1)]])
          fix r :: bytes and x :: object_fill assume "length r \<le> length (skip_ws v) - 1"
          then have r: "length r < length p" using l(1) by simp
          show "returns (length p) (let p = after_item (fst (r, x)) in
              if p \<noteq> [] \<and> hd p = 125 then Inr (tl p, slots (snd (r, x)), first_error (snd (r, x)) spec 0)
              else fill_object_loop n dtors p spec (snd (r, x)) d)"
            using IH(2) [OF after_item_fuel(1) [OF r 2], THEN returns_mono, OF after_item_fuel(2) [OF r 2]]
              after_item_fuel(2) [OF r 2] by (auto simp: Let_def)
        qed
      qed
      moreover have "length (skip_byte 58 (skip_ws r)) < length q" if "length r < length q" for r
        using that ws [of r] skip_byte_le [of 58 "skip_ws r"] by simp
      ultimately show ?thesis using Cons by (auto simp: Let_def intro!: returns_string)
    qed simp
  next
    case 3
    note tl = loop_fuel(2) [OF 3 le_refl] tl [of p]
    show ?case
      using 3 by (intro field_returns IH(1,4,7) [OF tl(1), THEN returns_mono, OF tl(2)]) simp_all
  next
    case 4
    from IH(5) [OF loop_fuel(1) [OF 4], THEN returns_mono, OF ws] show ?case
      using tl_ws by (auto simp: Let_def)
  next
    case 5
    show ?case
    proof (cases "p = []")
      case False
      then have e: "returns (length p - 1) (nested_fill_element n dtors p elem path i (d + 1))"
        using 5 by (intro IH(6)) simp_all
      have "returns (length p) (fill_list_loop n dtors (after_item r) elem path j us e d)"
        if "length r \<le> length p - 1" for r j us e
      proof -
        from that False have r: "length r < length p" by (cases p) auto
        show ?thesis using IH(5) [OF after_item_fuel(1) [OF r 5], THEN returns_mono, OF after_item_fuel(2) [OF r 5]] .
      qed
      then show ?thesis
        by (auto intro!: returns_followed [OF e [simplified]])
    qed simp
  next
    case 7
    from IH(8) [OF loop_fuel(1) [OF 7], THEN returns_mono, OF ws] show ?case
      using tl_ws by (auto simp: Let_def)
  next
    case 8
    show ?case
    proof (cases "skip_ws p")
      case (Cons b q)
      then have q: "length q < length p" using ws [of p] by simp
      have "returns (length p) (followed_by (nested_fill_member n dtors (skip_ws v) elem path k (d + 1)) (\<lambda>y.
          let p = after_item (fst y);
              es = (case fst (snd y) of None \<Rightarrow> es | Some c \<Rightarrow> nested_map_insert k c es);
              ds = note_error k (snd (snd y)) ds in
          if p \<noteq> [] \<and> hd p = 125 then Inr (tl p, es, map_option snd (find (\<lambda>_. True) ds))
          else fill_map_loop n dtors p elem path es ds d))"
        if v: "skip_ws v \<noteq> []" "length v < length q" for v k
      proof -
        have l: "length (skip_ws v) < length p" "5 * length (skip_ws v) + 2 \<le> n"
          using v q ws [of v] 8 by simp_all
        show ?thesis
        proof (rule returns_followed [OF IH(9) [OF l(2) v(1)]])
          fix r :: bytes and x :: "cell option \<times> bytes option" assume "length r \<le> length (skip_ws v) - 1"
          then have r: "length r < length p" using l(1) by simp
          show "returns (length p) (let p = after_item (fst (r, x));
              es = (case fst (snd (r, x)) of None \<Rightarrow> es | Some c \<Rightarrow> nested_map_insert k c es);
              ds = note_error k (snd (snd (r, x))) ds in
              if p \<noteq> [] \<and> hd p = 125 then Inr (tl p, es, map_option snd (find (\<lambda>_. True) ds))
              else fill_map_loop n dtors p elem path es ds d)"
            using IH(8) [OF after_item_fuel(1) [OF r 8], THEN returns_mono, OF after_item_fuel(2) [OF r 8]]
              after_item_fuel(2) [OF r 8] by (auto simp: Let_def)
        qed
      qed
      moreover have "length (skip_byte 58 (skip_ws r)) < length q" if "length r < length q" for r
        using that ws [of r] skip_byte_le [of 58 "skip_ws r"] by simp
      ultimately show ?thesis using Cons by (auto simp: Let_def intro!: returns_string cong: option.case_cong)
    qed simp
  next
    case 10
    note tl = loop_fuel(2) [OF 10 le_refl] tl [of p]
    show ?case
      using 10 by (intro value_returns IH(1,4,7) [OF tl(1), THEN returns_mono, OF tl(2)]) simp_all
  }
qed simp_all

text \<open>A filler of objects returns: with five calls to its fuel for each byte and five to start, of
  which a value it steps over takes one, it is never out of fuel, and it consumes nothing past
  its input. A spec with an empty element makes it panic, which no compiler emits.\<close>

theorem fill_always_returns:
  "case nested_fill_object (5 * length p + 5) dtors p spec obj depth of
     Inl e \<Rightarrow> e \<noteq> OutOfFuel
   | Inr (r, cells, err) \<Rightarrow> length r \<le> length p"
  using fill_returns(1) [of p "5 * length p + 5" dtors spec obj depth]
  by (auto simp: returns_def split: sum.split)

subsection \<open>It decodes\<close>

lemma fill_document:
  assumes t: "written (JObj ms) t" and w: "blank w'" and dt: "length dtors \<le> 2 ^ 64"
    and fs: "wf_fields (length dtors) True fs" "length fs \<le> 63" "fits_all fs obj"
  shows "gives 1 (height (JObj ms)) w' (filled_object dtors fs ms)
    (nested_fill_object (5 * length (tl (t @ w')) + 5) dtors (tl (t @ w')) (render_fields fs) obj 1)"
proof -
  have "5 * length (t @ w') \<le> 5 * length (tl (t @ w')) + 5" using written_pos [OF t] by (cases t) simp_all
  then show ?thesis
    using written_bodies(1) [OF dt t] fs by (intro bodies_object) (simp_all add: NESTED_MAX_DEPTH_def)
qed


lemma object_text: "json_text (JObj [([97], JArr [JInt 1 [49]])]) [123, 34, 97, 34, 58, 91, 49, 93, 125]"
proof -
  have "json_text (JInt 1 [49]) [49]"
    by (rule W_int) (simp add: json_integer_def int_part_def digit_def base_ten_def)
  then have "doc_items json_integer json_float (json_string False) [JInt 1 [49]] ([] @ [49] @ [])"
    by (intro I_one) (simp_all add: blank_def)
  then have "json_text (JArr [JInt 1 [49]]) (91 # [49] @ [93])" by (intro W_arr) simp
  moreover have "json_string False [97] [97]" by (rule S_unescaped) (simp_all add: S_end)
  ultimately have "doc_members json_integer json_float (json_string False) [([97], JArr [JInt 1 [49]])]
      ([] @ 34 # [97] @ 34 # [] @ 58 # [] @ [91, 49, 93] @ [])"
    by (intro M_one) (simp_all add: blank_def)
  then have "json_text (JObj [([97], JArr [JInt 1 [49]])]) (123 # [34, 97, 34, 58, 91, 49, 93] @ [125])"
    by (intro W_obj) simp
  then show ?thesis by simp
qed


end
