(* ===== verification/CountIr.thy ===== *)
theory CountIr
  imports Prelude "HOL-Library.List_Lexorder" "HOL-Library.Char_ord"
begin

text \<open>
  The textual IR as the count checker of the code generator reads it,
  \<open>cranelift/codegen/src/count_check.rs\<close>: a line is the list of its words. This theory holds the
  tables, the parsed functions, the classes of slots, and the basic blocks. What each runtime
  function does with counts is the generated table of \<open>runtime_ownership.rs\<close>, a parameter here.
\<close>

type_synonym token = string
type_synonym instr = "token list"

subsection \<open>Tables\<close>

definition RETAINS :: "token list" where
  "RETAINS =
     [''pith_cstring_retain'', ''pith_list_retain_handle'', ''pith_map_retain_handle'',
      ''pith_set_retain_handle'', ''pith_closure_retain'', ''pith_struct_retain'',
      ''pith_bytes_retain'', ''pith_sync_retain'', ''pith_channel_retain'']"

definition SCALAR_KINDS :: "token list" where
  "SCALAR_KINDS =
     [''int'', ''bool'', ''float'', ''void'', ''uint'', ''byte'', ''char'', ''i32'', ''u8'']"

definition PLAIN_OPS :: "token list" where
  "PLAIN_OPS =
     [''iconst'', ''fconst'', ''add'', ''sub'', ''mul'', ''div'', ''mod'', ''lt'', ''gt'', ''lte'', ''gte'', ''eq'', ''neq'',
      ''and'', ''or'', ''xor'', ''shl'', ''shr'', ''ushr'', ''not'', ''neg'', ''band'', ''bor'', ''bxor'', ''fadd'', ''fsub'',
      ''fmul'', ''fdiv'', ''flt'', ''fgt'', ''flte'', ''fgte'', ''feq'', ''fneq'', ''optflag'', ''funcref'',
      ''closure_ref'', ''strref'']"

fun has_part :: "string \<Rightarrow> string \<Rightarrow> bool" where
  "has_part part [] \<longleftrightarrow> part = []"
| "has_part part (c # s) \<longleftrightarrow> take (length part) (c # s) = part \<or> has_part part s"

definition begins :: "string \<Rightarrow> string \<Rightarrow> bool" where
  "begins prefix s \<longleftrightarrow> take (length prefix) s = prefix"

definition ends :: "string \<Rightarrow> string \<Rightarrow> bool" where
  "ends suffix s \<longleftrightarrow> begins (rev suffix) (rev s)"

definition is_emitted_release :: "token \<Rightarrow> bool" where
  "is_emitted_release callee \<longleftrightarrow>
     has_part ''__tuple_cascade_'' callee \<or> has_part ''__result_arg_release_'' callee \<or>
     has_part ''__kinded_release_m'' callee"

definition kind_of_text :: "token \<Rightarrow> token" where
  "kind_of_text kind =
     (if length kind \<le> 2 \<and> kind \<noteq> [] \<and> 65 \<le> (of_char (hd kind) :: nat) \<and> (of_char (hd kind) :: nat) \<le> 90
      then ''unknown'' else kind)"

definition is_counted :: "token \<Rightarrow> bool" where
  "is_counted kind \<longleftrightarrow>
     kind \<notin> set SCALAR_KINDS \<and> kind \<noteq> ''unknown'' \<and> \<not> begins ''result_reg'' kind"

definition is_plain :: "token \<Rightarrow> bool" where
  "is_plain kind \<longleftrightarrow> \<not> is_counted kind \<and> kind \<noteq> ''unknown''"

text \<open>The table of the runtime: how each argument and the result of a function are held.\<close>

datatype arg_ownership = PlainArg | BorrowArg | Consume

datatype result_value = PlainResult | Own | BorrowResult nat

record ownership_row =
  row_args :: "arg_ownership list"
  row_result :: result_value

type_synonym ownership = "token \<Rightarrow> ownership_row option"

subsection \<open>Functions\<close>

record ir_func =
  fname :: token
  ret_kind :: token
  params :: "token list"
  kinds :: "(token \<times> token) list"
  owns :: "token list"
  mixed :: "token list"
  marked :: bool
  body :: "instr list"

record ir_module =
  globals :: "(token \<times> token) list"
  user_funcs :: "token list"
  funcs :: "ir_func list"
  open_func :: "ir_func option"

text \<open>A hash map is an association list, where the first entry of a key counts.\<close>

definition start_func :: "instr \<Rightarrow> ir_func" where
  "start_func parts =
     \<lparr>fname = parts ! 1, ret_kind = (if 3 < length parts then parts ! 3 else ''void''), params = [],
      kinds = [], owns = [], mixed = [], marked = False, body = []\<rparr>"

definition mark_line :: "instr \<Rightarrow> ir_func \<Rightarrow> ir_func" where
  "mark_line parts f =
     (let f = f\<lparr>marked := True\<rparr> in
      if parts ! 1 = ''kind'' \<and> 4 \<le> length parts
      then f\<lparr>kinds := (parts ! 2, kind_of_text (parts ! 3)) # kinds f\<rparr>
      else if parts ! 1 = ''owns'' \<and> 4 \<le> length parts
      then f\<lparr>owns := parts ! 2 # owns f,
             kinds := (if map_of (kinds f) (parts ! 2) = None then (parts ! 2, parts ! 3) # kinds f else kinds f)\<rparr>
      else if parts ! 1 = ''mixed'' then f\<lparr>mixed := parts ! 2 # mixed f\<rparr>
      else f)"

definition body_line :: "instr \<Rightarrow> ir_func \<Rightarrow> ir_func" where
  "body_line parts f =
     (if hd parts = ''mark'' \<and> 3 \<le> length parts then mark_line parts f
      else
        (let f = (if hd parts = ''param'' \<and> 2 \<le> length parts then f\<lparr>params := params f @ [parts ! 1]\<rparr> else f)
         in f\<lparr>body := body f @ [parts]\<rparr>))"

definition read_line :: "ir_module \<Rightarrow> instr \<Rightarrow> ir_module" where
  "read_line m parts =
     (if parts = [] then m
      else if hd parts = ''mark'' \<and> 4 \<le> length parts \<and> parts ! 1 = ''global''
      then m\<lparr>globals := (parts ! 2, parts ! 3) # globals m\<rparr>
      else if hd parts = ''func'' \<and> 2 \<le> length parts
      then m\<lparr>user_funcs := parts ! 1 # user_funcs m, open_func := Some (start_func parts)\<rparr>
      else if hd parts = ''endfunc''
      then (case open_func m of None \<Rightarrow> m | Some f \<Rightarrow> m\<lparr>funcs := funcs m @ [f], open_func := None\<rparr>)
      else (case open_func m of None \<Rightarrow> m | Some f \<Rightarrow> m\<lparr>open_func := Some (body_line parts f)\<rparr>))"

definition read_module :: "instr list \<Rightarrow> ir_module" where
  "read_module lines =
     foldl read_line \<lparr>globals = [], user_funcs = [], funcs = [], open_func = None\<rparr> lines"

subsection \<open>What a function's slots are\<close>

datatype slot_class = Holder | View | ScalarSlot | Carrier

record checked_func =
  the_func :: ir_func
  the_globals :: "(token \<times> token) list"
  the_user_funcs :: "token list"
  scalar_temps :: "token list"
  iconsts :: "(token \<times> token) list"

definition kind_of :: "ir_func \<Rightarrow> (token \<times> token) list \<Rightarrow> token \<Rightarrow> token option" where
  "kind_of f gs name = (case map_of gs name of Some k \<Rightarrow> Some k | None \<Rightarrow> map_of (kinds f) name)"

text \<open>An instruction's registers that hold plain values by themselves, its loads of unmarked slots,
  and its stores.\<close>

definition plain_reg :: "ir_func \<Rightarrow> (token \<times> token) list \<Rightarrow> instr \<Rightarrow> token list" where
  "plain_reg f gs ins =
     (if hd ins \<in> set PLAIN_OPS \<and> hd ins \<noteq> ''strref'' \<and> hd ins \<noteq> ''closure_ref'' \<and> 1 < length ins then [ins ! 1]
      else if hd ins = ''call'' \<and> 3 < length ins then (if is_plain (ins ! 3) then [ins ! 1] else [])
      else if hd ins = ''field'' \<and> 4 < length ins then (if is_plain (ins ! 4) then [ins ! 1] else [])
      else if hd ins = ''load'' \<and> 2 < length ins
      then (case kind_of f gs (ins ! 2) of Some k \<Rightarrow> if is_plain k then [ins ! 1] else [] | None \<Rightarrow> [])
      else [])"

definition unmarked_load :: "ir_func \<Rightarrow> (token \<times> token) list \<Rightarrow> instr \<Rightarrow> (token \<times> token) list" where
  "unmarked_load f gs ins =
     (if hd ins = ''load'' \<and> 2 < length ins \<and> kind_of f gs (ins ! 2) = None then [(ins ! 1, ins ! 2)] else [])"

definition slot_store :: "instr \<Rightarrow> (token \<times> token) list" where
  "slot_store ins = (if hd ins = ''store'' \<and> 2 < length ins then [(ins ! 1, ins ! 2)] else [])"

definition plain_slots ::
  "ir_func \<Rightarrow> (token \<times> token) list \<Rightarrow> (token \<times> token) list \<Rightarrow> token set \<Rightarrow> token list" where
  "plain_slots f gs stores plain =
     filter (\<lambda>slot. kind_of f gs slot = None \<and> (\<forall>st \<in> set stores. fst st = slot \<longrightarrow> snd st \<in> plain))
       (remdups (map fst stores))"

text \<open>The loop ends when a round finds no new slot; each round but the last finds one.\<close>

fun scalar_loop ::
  "nat \<Rightarrow> ir_func \<Rightarrow> (token \<times> token) list \<Rightarrow> (token \<times> token) list \<Rightarrow> (token \<times> token) list \<Rightarrow>
     token set \<Rightarrow> token list \<Rightarrow> token list option" where
  "scalar_loop 0 f gs loads stores plain scalars = None"
| "scalar_loop (Suc n) f gs loads stores plain scalars =
     (let plain = plain \<union> fst ` {l \<in> set loads. snd l \<in> set scalars};
          now = plain_slots f gs stores plain in
      if now = scalars then Some scalars else scalar_loop n f gs loads stores plain now)"

definition infer_scalar_temps :: "ir_func \<Rightarrow> (token \<times> token) list \<Rightarrow> token list" where
  "infer_scalar_temps f gs =
     (let stores = concat (map slot_store (body f)) in
      the (scalar_loop (length stores + 2) f gs (concat (map (unmarked_load f gs) (body f))) stores
        (set (concat (map (plain_reg f gs) (body f)))) []))"

definition check_func :: "ir_module \<Rightarrow> ir_func \<Rightarrow> checked_func" where
  "check_func m f =
     \<lparr>the_func = f, the_globals = globals m, the_user_funcs = user_funcs m,
      scalar_temps = infer_scalar_temps f (globals m),
      iconsts = rev (map (\<lambda>ins. (ins ! 1, ins ! 2)) (filter (\<lambda>ins. hd ins = ''iconst'' \<and> 3 \<le> length ins) (body f)))\<rparr>"

definition class_of :: "checked_func \<Rightarrow> token \<Rightarrow> slot_class" where
  "class_of c name =
     (case map_of (the_globals c) name of
        Some k \<Rightarrow> if is_counted k then Holder else ScalarSlot
      | None \<Rightarrow>
          if name \<in> set (owns (the_func c)) then Holder
          else case map_of (kinds (the_func c)) name of
            Some k \<Rightarrow> if is_counted k then View else if k \<noteq> ''unknown'' then ScalarSlot else Carrier
          | None \<Rightarrow> if name \<in> set (scalar_temps c) then ScalarSlot else Carrier)"

subsection \<open>Blocks\<close>

fun cut_blocks :: "instr list \<Rightarrow> token \<Rightarrow> instr list \<Rightarrow> (token \<times> instr list) list" where
  "cut_blocks [] name block = [(name, block)]"
| "cut_blocks (ins # rest) name block =
     (if hd ins = ''label'' \<and> 2 \<le> length ins then (name, block) # cut_blocks rest (ins ! 1) []
      else cut_blocks rest name (block @ [ins]))"

definition block_index :: "token list \<Rightarrow> token \<Rightarrow> nat option" where
  "block_index names l = map_of (rev (zip names [0..<length names])) l"

definition successors :: "token list \<Rightarrow> nat \<Rightarrow> instr list \<Rightarrow> nat list" where
  "successors names i block =
     (let next = (if i + 1 < length names then [i + 1] else []) in
      if block = [] then next
      else
        let ins = last block in
        if hd ins = ''jmp'' \<and> 2 \<le> length ins
        then (case block_index names (ins ! 1) of Some b \<Rightarrow> [b] | None \<Rightarrow> [])
        else if hd ins = ''brif'' \<and> 4 \<le> length ins
        then concat (map (\<lambda>l. case block_index names l of Some b \<Rightarrow> [b] | None \<Rightarrow> []) [ins ! 2, ins ! 3])
        else if hd ins = ''ret'' \<or> hd ins = ''ret2'' then []
        else next)"

definition split_blocks :: "instr list \<Rightarrow> (token \<times> instr list \<times> nat list) list" where
  "split_blocks ins =
     (let bs = cut_blocks ins ''entry'' []; names = map fst bs in
      map (\<lambda>(i, name, block). (name, block, successors names i block)) (enumerate 0 bs))"

end
