(* ===== verification/CountCheck.thy ===== *)
theory CountCheck
  imports CountIr "HOL-Library.Product_Lexorder"
begin

text \<open>
  The balance rule of \<open>count_check.rs\<close>: an abstract run of a function over the counts it holds,
  block by block, to a fixed point of the states where paths meet. Ordered maps are association
  lists in the order of their keys, so that two of them are equal when they hold the same; the
  order in which problems are found is not kept. An object's name, a text in the code, is a
  datatype, a field \<open>base:index\<close> a pair.
\<close>

subsection \<open>Ordered maps\<close>

fun put :: "'k::linorder \<Rightarrow> 'v \<Rightarrow> ('k \<times> 'v) list \<Rightarrow> ('k \<times> 'v) list" where
  "put k v [] = [(k, v)]"
| "put k v (x # m) =
     (if k = fst x then (k, v) # m else if k < fst x then (k, v) # x # m else x # put k v m)"

definition drop_key :: "'k \<Rightarrow> ('k \<times> 'v) list \<Rightarrow> ('k \<times> 'v) list" where
  "drop_key k m = filter (\<lambda>x. fst x \<noteq> k) m"

definition add :: "'k::linorder \<Rightarrow> 'k list \<Rightarrow> 'k list" where
  "add k ks = (if k \<in> set ks then ks else insort k ks)"

definition drop_elem :: "'k \<Rightarrow> 'k list \<Rightarrow> 'k list" where
  "drop_elem k ks = filter (\<lambda>x. x \<noteq> k) ks"

lemma map_of_put [simp]: "map_of (put k v m) = (map_of m)(k \<mapsto> v)"
  by (induction m) (auto simp: fun_eq_iff)

lemma map_of_drop_key [simp]: "map_of (drop_key k m) j = (if j = k then None else map_of m j)"
  by (induction m) (auto simp: drop_key_def)

lemma set_add [simp]: "set (add k ks) = insert k (set ks)"
  by (auto simp: add_def set_insort_key)

lemma set_drop_elem [simp]: "set (drop_elem k ks) = set ks - {k}"
  by (auto simp: drop_elem_def)

subsection \<open>Names and values\<close>

text \<open>An object is named by the register that made it, by what it was at the entry, or past a
  block boundary by the slots that hold it. \<open>BaseReg\<close> is the base of a field read through a register
  that holds no object.\<close>

datatype oname =
    Reg token
  | Param token
  | Global token
  | Tls token
  | Held "token list"
  | BaseReg token

fun name_tag :: "oname \<Rightarrow> nat" where
  "name_tag (Reg t) = 0"
| "name_tag (Param t) = 1"
| "name_tag (Global t) = 2"
| "name_tag (Tls t) = 3"
| "name_tag (Held ts) = 4"
| "name_tag (BaseReg t) = 5"

fun name_text :: "oname \<Rightarrow> token list" where
  "name_text (Held ts) = ts"
| "name_text (Reg t) = [t]"
| "name_text (Param t) = [t]"
| "name_text (Global t) = [t]"
| "name_text (Tls t) = [t]"
| "name_text (BaseReg t) = [t]"

lemma name_eqI: "name_tag a = name_tag b \<Longrightarrow> name_text a = name_text b \<Longrightarrow> a = b"
  by (cases a; cases b) simp_all

instantiation oname :: linorder
begin

definition less_eq_oname :: "oname \<Rightarrow> oname \<Rightarrow> bool" where
  "a \<le> b \<longleftrightarrow> name_tag a < name_tag b \<or> name_tag a = name_tag b \<and> name_text a \<le> name_text b"

definition less_oname :: "oname \<Rightarrow> oname \<Rightarrow> bool" where
  "a < b \<longleftrightarrow> name_tag a < name_tag b \<or> name_tag a = name_tag b \<and> name_text a < name_text b"

instance
proof
  fix a b c :: oname
  show "a < b \<longleftrightarrow> a \<le> b \<and> \<not> b \<le> a" by (auto simp: less_eq_oname_def less_oname_def)
  show "a \<le> a" by (simp add: less_eq_oname_def)
  show "a \<le> b \<Longrightarrow> b \<le> c \<Longrightarrow> a \<le> c" by (auto simp: less_eq_oname_def)
  show "a \<le> b \<Longrightarrow> b \<le> a \<Longrightarrow> a = b" by (auto simp: less_eq_oname_def intro: name_eqI)
  show "a \<le> b \<or> b \<le> a" by (auto simp: less_eq_oname_def)
qed

end

datatype val = Plain | Null | Unknown | Obj oname

type_synonym field = "oname \<times> token"

record count_state =
  counts :: "(oname \<times> int) list"
  slots :: "(token \<times> val) list"
  regs :: "(token \<times> val) list"
  maybe_null :: "oname list"
  field_of :: "(oname \<times> field \<times> nat) list"
  emptied :: "field list"
  shells :: "oname list"
  owned_fields :: "field list"
  null_tests :: "(token \<times> oname \<times> bool) list"

definition empty_state :: count_state where
  "empty_state = \<lparr>counts = [], slots = [], regs = [], maybe_null = [], field_of = [], emptied = [],
     shells = [], owned_fields = [], null_tests = []\<rparr>"

text \<open>A state at a block boundary; a live register is \<open>None\<close> when it is null.\<close>

record canon_state =
  c_objs :: "(token list \<times> int \<times> bool) list"
  c_regobjs :: "(oname \<times> int) list"
  c_regs :: "(token \<times> oname option) list"
  c_nulls :: "token list"
  c_unknowns :: "token list"
  c_emptied :: "field list"
  c_shells :: "oname list"
  c_owned_fields :: "field list"
  c_aliases :: "(token \<times> token) list"

definition empty_canon :: canon_state where
  "empty_canon = \<lparr>c_objs = [], c_regobjs = [], c_regs = [], c_nulls = [], c_unknowns = [], c_emptied = [],
     c_shells = [], c_owned_fields = [], c_aliases = []\<rparr>"

text \<open>The problems, with the data their messages show.\<close>

datatype problem =
    StillHeldWhenAgain instr
  | HeldByNothing token instr
  | GivenUpTwice token
  | OnePathOnly token instr
  | NotHeld token token
  | FieldDangles
  | NeverGivenUp int
  | GivesUpMore int

record check_log =
  problems :: "problem list"
  origins :: "(oname \<times> instr) list"
  reads :: nat

type_synonym 'a settled = "string + 'a"

definition found :: "problem \<Rightarrow> check_log \<Rightarrow> check_log" where
  "found p k = k\<lparr>problems := problems k @ [p]\<rparr>"

definition origin :: "check_log \<Rightarrow> oname \<Rightarrow> instr" where
  "origin k o' = (case map_of (origins k) o' of None \<Rightarrow> [] | Some ins \<Rightarrow> ins)"

definition count :: "count_state \<Rightarrow> oname \<Rightarrow> int" where
  "count st o' = (case map_of (counts st) o' of None \<Rightarrow> 0 | Some n \<Rightarrow> n)"

definition set_count :: "oname \<Rightarrow> int \<Rightarrow> count_state \<Rightarrow> count_state" where
  "set_count o' n st = st\<lparr>counts := put o' n (counts st)\<rparr>"

definition reg_val :: "count_state \<Rightarrow> token \<Rightarrow> val" where
  "reg_val st r = (case map_of (regs st) r of None \<Rightarrow> Plain | Some v \<Rightarrow> v)"

definition set_reg :: "token \<Rightarrow> val \<Rightarrow> count_state \<Rightarrow> count_state" where
  "set_reg r v st = st\<lparr>regs := put r v (regs st)\<rparr>"

definition new_obj :: "instr \<Rightarrow> int \<Rightarrow> check_log \<times> count_state \<Rightarrow> oname \<times> check_log \<times> count_state" where
  "new_obj ins n ks =
     (case ks of (k, st) \<Rightarrow>
        let o' = Reg (if 1 < length ins then ins ! 1 else []);
            held = (Obj o' \<in> snd ` set (slots st));
            k = (if \<not> held \<and> 0 < count st o' then found (StillHeldWhenAgain (origin k o')) k else k)
        in (o', k\<lparr>origins := put o' ins (origins k)\<rparr>,
            (set_count o' n st)\<lparr>maybe_null := drop_elem o' (maybe_null st)\<rparr>))"

subsection \<open>Block boundaries\<close>

definition holders :: "count_state \<Rightarrow> oname \<Rightarrow> token list" where
  "holders st o' = map fst (filter (\<lambda>x. snd x = Obj o') (slots st))"

definition owners :: "checked_func \<Rightarrow> token list \<Rightarrow> token list" where
  "owners c names = filter (\<lambda>s. class_of c s = Holder) names"

text \<open>How one object goes over the boundary; \<open>key\<close> collects the names the objects get.\<close>

definition canon_object ::
  "checked_func \<Rightarrow> token \<Rightarrow> count_state \<Rightarrow> oname \<times> int \<Rightarrow>
     check_log \<times> canon_state \<times> (oname \<times> oname) list \<Rightarrow> check_log \<times> canon_state \<times> (oname \<times> oname) list" where
  "canon_object c at' st on s =
     (case (on, s) of ((o', n), k, out, key) \<Rightarrow>
        let names = holders st o'; own = owners c names; mn = (o' \<in> set (maybe_null st)) in
        if names \<noteq> [] then
          (if 2 \<le> length names \<and> own \<noteq> [] \<and> n = int (length own)
           then (k, out\<lparr>c_objs := fold (\<lambda>s. put [s] (1, mn)) own (c_objs out),
                        c_aliases := fold (\<lambda>s. put s (hd own)) (filter (\<lambda>s. s \<notin> set own) names) (c_aliases out)\<rparr>,
                 (o', Held [hd own]) # key)
           else (k, out\<lparr>c_objs := put names (n, mn) (c_objs out)\<rparr>, (o', Held names) # key))
        else if n \<noteq> 0 \<and> Obj o' \<in> snd ` set (regs st)
        then (k, out\<lparr>c_regobjs := put o' n (c_regobjs out)\<rparr>, (o', o') # key)
        else if 0 < n then (found (HeldByNothing at' (origin k o')) k, out, key)
        else if n < 0 then (found (GivenUpTwice at') k, out, key)
        else (k, out, key))"

definition canon_reg :: "(oname \<times> oname) list \<Rightarrow> token \<times> val \<Rightarrow> (token \<times> oname option) list \<Rightarrow>
  (token \<times> oname option) list" where
  "canon_reg key rv m =
     (case snd rv of
        Obj o' \<Rightarrow> (case map_of key o' of None \<Rightarrow> m | Some h \<Rightarrow> put (fst rv) (Some h) m)
      | Null \<Rightarrow> put (fst rv) None m
      | _ \<Rightarrow> m)"

definition canon :: "checked_func \<Rightarrow> token \<Rightarrow> check_log \<times> count_state \<Rightarrow> check_log \<times> canon_state" where
  "canon c at' ks =
     (case ks of (k, st) \<Rightarrow>
        case fold (canon_object c at' st) (counts st) (k, empty_canon, []) of (k, out, key) \<Rightarrow>
          (k, out\<lparr>
             c_regs := fold (canon_reg key) (regs st) [],
             c_nulls := map fst (filter (\<lambda>x. snd x = Null) (slots st)),
             c_unknowns := map fst (filter (\<lambda>x. snd x = Unknown) (slots st)),
             c_shells := fold (\<lambda>o' m. case map_of key o' of None \<Rightarrow> m | Some h \<Rightarrow> add h m) (shells st) [],
             c_owned_fields := fold (\<lambda>f m. case map_of key (fst f) of None \<Rightarrow> m | Some h \<Rightarrow> add (h, snd f) m)
               (owned_fields st) [],
             c_emptied := fold (\<lambda>f. add (case map_of key (fst f) of None \<Rightarrow> fst f | Some h \<Rightarrow> h, snd f))
               (emptied st) []\<rparr>))"

definition from_canon :: "canon_state \<Rightarrow> count_state" where
  "from_canon cn =
     (let held = fold (\<lambda>x. fold (\<lambda>s. put s (Obj (Held (fst x)))) (fst x)) (c_objs cn) [];
          aliased = fold (\<lambda>va m. case map_of m (snd va) of None \<Rightarrow> m | Some v \<Rightarrow> put (fst va) v m) (c_aliases cn) held
      in \<lparr>counts = fold (\<lambda>x. put (fst x) (snd x)) (c_regobjs cn)
            (fold (\<lambda>x. put (Held (fst x)) (fst (snd x))) (c_objs cn) []),
          slots = fold (\<lambda>s. put s Unknown) (c_unknowns cn) (fold (\<lambda>s. put s Null) (c_nulls cn) aliased),
          regs = fold (\<lambda>x. put (fst x) (case snd x of None \<Rightarrow> Null | Some h \<Rightarrow> Obj h)) (c_regs cn) [],
          maybe_null = map (\<lambda>x. Held (fst x)) (filter (\<lambda>x. snd (snd x)) (c_objs cn)),
          field_of = [], emptied = c_emptied cn, shells = c_shells cn, owned_fields = c_owned_fields cn,
          null_tests = []\<rparr>)"

end
