(* ===== verification/CountStep.thy ===== *)
theory CountStep
  imports CountCheck
begin

text \<open>
  The instructions of \<open>count_check.rs\<close>: \<open>step\<close> runs one on a state, and answers \<open>Inl\<close> with the reason
  when the checker cannot settle the function.
\<close>

subsection \<open>Counts given up\<close>

text \<open>Freeing a shell passes the counts of its fields to their readers.\<close>

definition pass_on :: "oname \<Rightarrow> count_state \<Rightarrow> count_state" where
  "pass_on o' st =
     (let readers = map fst (filter (\<lambda>x. fst (fst (snd x)) = o' \<and> fst (snd x) \<in> set (owned_fields st) \<and>
            count st (fst x) = 0) (field_of st))
      in fold (\<lambda>r st. (set_count r 1 st)\<lparr>field_of := drop_key r (field_of st)\<rparr>) readers st)"

definition take_count ::
  "token \<Rightarrow> token \<Rightarrow> check_log \<times> count_state \<Rightarrow> (check_log \<times> count_state) settled" where
  "take_count r why ks =
     (case ks of (k, st) \<Rightarrow>
        case reg_val st r of
          Obj o' \<Rightarrow>
            let give = (let n = count st o'; k = (if n \<le> 0 then found (NotHeld why r) k else k);
                            st = set_count o' (n - 1) st
                        in Inr (k, if n - 1 = 0 \<and> o' \<in> set (shells st) then pass_on o' st else st))
            in
              if 0 < count st o' then give
              else
                (case map_of (field_of st) o' of
                   None \<Rightarrow> give
                 | Some (f, seq) \<Rightarrow>
                     if f \<in> set (owned_fields st)
                     then Inr (k, st\<lparr>owned_fields := drop_elem f (owned_fields st), field_of := drop_key o' (field_of st)\<rparr>)
                     else if fst f \<notin> set (shells st) then Inr (k, st\<lparr>emptied := add f (emptied st)\<rparr>)
                     else give)
        | Unknown \<Rightarrow> Inl ''a value of unknown kind meets a count''
        | _ \<Rightarrow> Inr (k, st))"

fun take_all ::
  "(token \<times> arg_ownership) list \<Rightarrow> token \<Rightarrow> check_log \<times> count_state \<Rightarrow> (check_log \<times> count_state) settled" where
  "take_all [] why ks = Inr ks"
| "take_all (a # as) why ks =
     (if snd a = Consume
      then (case take_count (fst a) why ks of Inl e \<Rightarrow> Inl e | Inr ks \<Rightarrow> take_all as why ks)
      else take_all as why ks)"

subsection \<open>Calls\<close>

definition counted_tls_slot :: "checked_func \<Rightarrow> instr \<Rightarrow> token option" where
  "counted_tls_slot c ins =
     (if hd ins \<noteq> ''call'' \<or> length ins < 6 \<or> \<not> begins ''pith_tls_'' (ins ! 2) then None
      else
        let counted = (if ends ''_tagged'' (ins ! 2)
              then (case map_of (iconsts c) (last ins) of None \<Rightarrow> False | Some t \<Rightarrow> t \<noteq> ''0'')
              else begins ''pith_tls_get_or_init'' (ins ! 2) \<and> is_counted (ins ! 3))
        in case map_of (iconsts c) (ins ! 5) of None \<Rightarrow> None
           | Some n \<Rightarrow> if counted then Some (''tls:'' @ n) else None)"

definition set_result :: "token \<Rightarrow> val \<Rightarrow> check_log \<times> count_state \<Rightarrow> check_log \<times> count_state" where
  "set_result dst v ks = (fst ks, set_reg dst v (snd ks))"

definition made :: "instr \<Rightarrow> int \<Rightarrow> check_log \<times> count_state \<Rightarrow> val \<times> check_log \<times> count_state" where
  "made ins n ks = (case new_obj ins n ks of (o', ks) \<Rightarrow> (Obj o', ks))"

text \<open>The result of a call by the runtime's row for it, or of a user function.\<close>

definition row_value ::
  "instr \<Rightarrow> result_value \<Rightarrow> check_log \<times> count_state \<Rightarrow> val \<times> check_log \<times> count_state" where
  "row_value ins res ks =
     (let typ = ins ! 3 in
      if typ \<in> set SCALAR_KINDS then (Plain, ks)
      else case res of
        Own \<Rightarrow> if typ = ''unknown'' then (Unknown, ks) else made ins 1 ks
      | PlainResult \<Rightarrow> if is_counted typ then made ins 0 ks else (Plain, ks)
      | BorrowResult i \<Rightarrow> made ins 0 ks)"

definition user_value :: "instr \<Rightarrow> check_log \<times> count_state \<Rightarrow> val \<times> check_log \<times> count_state" where
  "user_value ins ks =
     (if ins ! 3 = ''unknown'' then (Unknown, ks)
      else if is_counted (ins ! 3) then made ins 1 ks else (Plain, ks))"

definition keep_shell :: "instr \<Rightarrow> val \<times> check_log \<times> count_state \<Rightarrow> check_log \<times> count_state" where
  "keep_shell ins vks =
     (case vks of (v, k, st) \<Rightarrow>
        let st = (case v of
              Obj o' \<Rightarrow>
                if ins ! 2 = ''pith_struct_alloc'' \<and> (ins ! 3 = ''struct:tuple'' \<or> ins ! 3 = ''tuple'')
                then st\<lparr>shells := add o' (shells st)\<rparr> else st
            | _ \<Rightarrow> st)
        in set_result (ins ! 1) v (k, st))"

definition tls_slot_of :: "checked_func \<Rightarrow> count_state \<Rightarrow> token list \<Rightarrow> token option" where
  "tls_slot_of c st args =
     (case args of [] \<Rightarrow> None
      | a # _ \<Rightarrow>
          (case map_of (iconsts c) a of None \<Rightarrow> None
           | Some n \<Rightarrow> if map_of (slots st) (''tls:'' @ n) = None then None else Some (''tls:'' @ n)))"

text \<open>What a getter or a setter of a thread-local slot does, when the slot holds a counted value.\<close>

definition tls_call ::
  "checked_func \<Rightarrow> instr \<Rightarrow> check_log \<times> count_state \<Rightarrow> (check_log \<times> count_state) option" where
  "tls_call c ins ks =
     (case ks of (k, st) \<Rightarrow>
        if begins ''pith_tls_get_or_init'' (ins ! 2) \<or> begins ''pith_tls_set'' (ins ! 2)
        then
          (case tls_slot_of c st (drop 5 ins) of None \<Rightarrow> None
           | Some slot \<Rightarrow>
               if begins ''pith_tls_set'' (ins ! 2) then
                 (let v = (if 6 < length ins then reg_val st (ins ! 6) else Plain);
                      vks = (if v = Null \<or> v = Plain then made ins 1 ks else (v, ks))
                  in Some (set_result (ins ! 1) Plain
                       (fst (snd vks), (snd (snd vks))\<lparr>slots := put slot (fst vks) (slots (snd (snd vks)))\<rparr>)))
               else if is_counted (ins ! 3)
               then Some (set_result (ins ! 1) (case map_of (slots st) slot of None \<Rightarrow> Plain | Some v \<Rightarrow> v) ks)
               else None)
        else None)"

definition call_step ::
  "ownership \<Rightarrow> checked_func \<Rightarrow> instr \<Rightarrow> check_log \<times> count_state \<Rightarrow> (check_log \<times> count_state) settled" where
  "call_step rt c ins ks =
     (let callee = ins ! 2; args = drop 5 ins in
      if begins ''pith_struct_weak_'' callee then Inl ''a weak reference''
      else if has_part ''__tuple_stack_cascade_'' callee then Inr (set_result (ins ! 1) Plain ks)
      else case tls_call c ins ks of Some ks \<Rightarrow> Inr ks
      | None \<Rightarrow>
          if is_emitted_release callee then
            (case (if args = [] then Inr ks else take_count (hd args) callee ks) of Inl e \<Rightarrow> Inl e
             | Inr ks \<Rightarrow> Inr (set_result (ins ! 1) Plain ks))
          else if callee \<in> set RETAINS then
            (case reg_val (snd ks) (hd args) of
               Unknown \<Rightarrow> Inl ''a value of unknown kind meets a count''
             | Obj o' \<Rightarrow> Inr (set_result (ins ! 1) Plain
                  (fst ks, set_count o' (count (snd ks) o' + 1) (snd ks)))
             | _ \<Rightarrow> Inr (set_result (ins ! 1) Plain ks))
          else
            let ks = (if callee = ''pith_struct_set_dtor'' \<and> args \<noteq> [] then
                  (case reg_val (snd ks) (hd args) of
                     Obj o' \<Rightarrow> (fst ks, (snd ks)\<lparr>shells := drop_elem o' (shells (snd ks))\<rparr>)
                   | _ \<Rightarrow> ks) else ks)
            in case rt callee of
                 Some row \<Rightarrow>
                   (case take_all (zip args (row_args row)) callee ks of Inl e \<Rightarrow> Inl e
                    | Inr ks \<Rightarrow> Inr (keep_shell ins (row_value ins (row_result row) ks)))
               | None \<Rightarrow>
                   if callee \<in> set (the_user_funcs c) then Inr (keep_shell ins (user_value ins ks))
                   else Inl ''a call the checker has no summary for'')"

subsection \<open>Fields\<close>

fun show_nat :: "nat \<Rightarrow> string" where
  "show_nat n = (if n < 10 then [char_of (48 + n)] else show_nat (n div 10) @ [char_of (48 + n mod 10)])"

declare show_nat.simps [simp del]

definition show_int :: "int \<Rightarrow> string" where
  "show_int i = (if i < 0 then ''-'' @ show_nat (nat (- i)) else show_nat (nat i))"

definition digit_of :: "char \<Rightarrow> nat option" where
  "digit_of ch = (let n = of_char ch in if 48 \<le> n \<and> n \<le> 57 then Some (n - 48) else None)"

definition read_i64 :: "string \<Rightarrow> int option" where
  "read_i64 s =
     (let ds = (if s \<noteq> [] \<and> (hd s = CHR ''-'' \<or> hd s = CHR ''+'') then tl s else s);
          v = int (foldl (\<lambda>a ch. a * 10 + the (digit_of ch)) 0 ds);
          i = (if s \<noteq> [] \<and> hd s = CHR ''-'' then - v else v)
      in if ds = [] \<or> (\<exists>ch \<in> set ds. digit_of ch = None) \<or> i < - (2 ^ 63) \<or> 2 ^ 63 \<le> i then None else Some i)"

text \<open>A read names its field by byte offset, a store by index; the division is toward zero.\<close>

definition field_index :: "token \<Rightarrow> token" where
  "field_index off =
     show_int (case read_i64 off of None \<Rightarrow> - 1 | Some b \<Rightarrow> if b < 0 then - (- b div 8) else b div 8)"

definition base_key :: "count_state \<Rightarrow> token \<Rightarrow> oname" where
  "base_key st r = (case reg_val st r of Obj o' \<Rightarrow> o' | _ \<Rightarrow> BaseReg r)"

definition field_step :: "instr \<Rightarrow> check_log \<times> count_state \<Rightarrow> check_log \<times> count_state" where
  "field_step ins ks =
     (if kind_of_text (ins ! 4) = ''unknown'' then set_result (ins ! 1) Unknown ks
      else if is_counted (ins ! 4) then
        (case new_obj ins 0 ks of (o', k, st) \<Rightarrow>
           let k = k\<lparr>reads := reads k + 1\<rparr>;
               st = st\<lparr>field_of := put o' ((base_key st (ins ! 2), field_index (ins ! 3)), reads k) (field_of st)\<rparr>
           in set_result (ins ! 1) (Obj o') (k, st))
      else set_result (ins ! 1) Plain ks)"

text \<open>The latest read of a field that held no count.\<close>

definition displaced :: "field \<Rightarrow> count_state \<Rightarrow> oname option" where
  "displaced f st =
     (let rs = filter (\<lambda>x. fst (snd x) = f \<and> count st (fst x) = 0) (field_of st) in
      if rs = [] then None
      else Some (fst (foldl (\<lambda>a x. if snd (snd a) \<le> snd (snd x) then x else a) (hd rs) (tl rs))))"

definition store_field :: "instr \<Rightarrow> check_log \<times> count_state \<Rightarrow> (check_log \<times> count_state) settled" where
  "store_field ins ks =
     (let st = snd ks; f = (base_key st (ins ! 1), ins ! 2);
          into_shell = (case reg_val st (ins ! 1) of Obj b \<Rightarrow> b \<in> set (shells st) | _ \<Rightarrow> False);
          held = (case reg_val st (ins ! 3) of Obj o' \<Rightarrow> 0 < count st o' | _ \<Rightarrow> False)
      in if into_shell \<and> \<not> held then Inr ks
         else case take_count (ins ! 3) ''a struct field store'' ks of Inl e \<Rightarrow> Inl e
         | Inr (k, st) \<Rightarrow>
             let st = (if into_shell then st\<lparr>owned_fields := add f (owned_fields st)\<rparr> else st) in
             if f \<in> set (emptied st) then Inr (k, st\<lparr>emptied := drop_elem f (emptied st)\<rparr>)
             else
               let st = (case displaced f st of None \<Rightarrow> st | Some o' \<Rightarrow> set_count o' 1 st)
               in Inr (k, st\<lparr>field_of := filter (\<lambda>x. fst (snd x) \<noteq> f) (field_of st)\<rparr>))"

subsection \<open>An instruction\<close>

definition null_test :: "instr \<Rightarrow> count_state \<Rightarrow> count_state" where
  "null_test ins st =
     (let seen = (case (reg_val st (ins ! 2), reg_val st (ins ! 3)) of
            (Obj o', Null) \<Rightarrow> Some o' | (Null, Obj o') \<Rightarrow> Some o' | _ \<Rightarrow> None)
      in case seen of None \<Rightarrow> st
         | Some o' \<Rightarrow> st\<lparr>null_tests := put (ins ! 1) (o', hd ins = ''neq'') (null_tests st)\<rparr>)"

definition flag_test :: "instr \<Rightarrow> check_log \<Rightarrow> count_state \<Rightarrow> count_state" where
  "flag_test ins k st =
     (case reg_val st (ins ! 2) of
        Obj o' \<Rightarrow>
          (let from = butlast (tl (origin k o')) in
           if ''pith_channel_try_recv'' \<in> set from \<or> ''pith_channel_recv'' \<in> set from
           then st\<lparr>null_tests := put (ins ! 1) (o', True) (null_tests st)\<rparr> else st)
      | _ \<Rightarrow> st)"

definition load_val :: "checked_func \<Rightarrow> token \<Rightarrow> count_state \<Rightarrow> val settled" where
  "load_val c slot st =
     (if class_of c slot = ScalarSlot then Inr Plain
      else case map_of (slots st) slot of
        Some v \<Rightarrow> Inr v
      | None \<Rightarrow> if class_of c slot = Carrier then Inr Plain
          else Inl ''a counted slot is read before it is written'')"

definition store_slot :: "checked_func \<Rightarrow> token \<Rightarrow> val \<Rightarrow> count_state \<Rightarrow> count_state" where
  "store_slot c slot v st =
     (case class_of c slot of
        ScalarSlot \<Rightarrow> st
      | Holder \<Rightarrow> st\<lparr>slots := put slot (if v = Plain then Null else v) (slots st)\<rparr>
      | _ \<Rightarrow> st\<lparr>slots := put slot v (slots st)\<rparr>)"

definition returns_count :: "checked_func \<Rightarrow> bool" where
  "returns_count c \<longleftrightarrow> is_counted (ret_kind (the_func c)) \<or> ret_kind (the_func c) = ''unknown''"

definition global_slot :: "checked_func \<Rightarrow> token \<Rightarrow> bool" where
  "global_slot c s \<longleftrightarrow> map_of (the_globals c) s \<noteq> None \<or> begins ''tls:'' s"

definition ret_step :: "checked_func \<Rightarrow> instr \<Rightarrow> check_log \<times> count_state \<Rightarrow> check_log" where
  "ret_step c ins ks =
     (case ks of (k, st) \<Rightarrow>
        let k = (if emptied st \<noteq> [] then found FieldDangles k else k);
            st = (if 1 < length ins \<and> returns_count c
                  then (case reg_val st (ins ! 1) of Obj o' \<Rightarrow> set_count o' (count st o' - 1) st | _ \<Rightarrow> st) else st)
        in fold (\<lambda>on k.
             let expected = int (length (filter (\<lambda>x. snd x = Obj (fst on) \<and> global_slot c (fst x)) (slots st)))
             in if expected < snd on then found (NeverGivenUp (snd on - expected)) k
                else if snd on < expected then found (GivesUpMore (expected - snd on)) k else k)
           (counts st) k)"

definition made_step :: "instr \<Rightarrow> int \<Rightarrow> check_log \<times> count_state \<Rightarrow> check_log \<times> count_state" where
  "made_step ins n ks = (case made ins n ks of (v, ks) \<Rightarrow> set_result (ins ! 1) v ks)"

text \<open>One instruction; \<open>True\<close> when the function has returned.\<close>

definition step ::
  "ownership \<Rightarrow> checked_func \<Rightarrow> instr \<Rightarrow> check_log \<times> count_state \<Rightarrow> (bool \<times> check_log \<times> count_state) settled" where
  "step rt c ins ks =
     (let op = hd ins; n = length ins; st = snd ks;
          done' = (\<lambda>r. case r of Inl e \<Rightarrow> Inl e | Inr ks \<Rightarrow> Inr (False, ks))
      in
      if op \<in> {''param'', ''label'', ''jmp'', ''brif'', ''runtime_abi''} then Inr (False, ks)
      else if op = ''iconst'' \<and> 3 \<le> n
      then Inr (False, set_result (ins ! 1) (if ins ! 2 = ''0'' then Null else Plain) ks)
      else if (op = ''eq'' \<or> op = ''neq'') \<and> 4 \<le> n
      then Inr (False, set_result (ins ! 1) Plain (fst ks, null_test ins st))
      else if op = ''optflag'' \<and> 3 \<le> n
      then Inr (False, set_result (ins ! 1) Plain (fst ks, flag_test ins (fst ks) st))
      else if op \<in> set PLAIN_OPS
      then Inr (False, if 1 < n then set_result (ins ! 1) Plain ks else ks)
      else if op = ''load'' \<and> 3 \<le> n
      then (case load_val c (ins ! 2) st of Inl e \<Rightarrow> Inl e | Inr v \<Rightarrow> Inr (False, set_result (ins ! 1) v ks))
      else if op = ''store'' \<and> 3 \<le> n
      then Inr (False, fst ks, store_slot c (ins ! 1) (reg_val st (ins ! 2)) st)
      else if op = ''field'' \<and> 5 \<le> n then Inr (False, field_step ins ks)
      else if op = ''sstore'' \<and> 4 \<le> n then done' (store_field ins ks)
      else if (op = ''concat'' \<or> op = ''concatn'' \<or> op = ''appendn'') \<and> 2 \<le> n
      then Inr (False, made_step ins 1 ks)
      else if op = ''call'' \<and> 5 \<le> n then done' (call_step rt c ins ks)
      else if op = ''rcall'' then Inl ''a call returning the register pair''
      else if op = ''ret2'' then Inl ''a register-pair return''
      else if op = ''optval'' then Inl ''instruction optval''
      else if op = ''tuple_stack'' \<and> 2 \<le> n then
        (case new_obj ins 0 ks of (o', k, st) \<Rightarrow>
           Inr (False, set_result (ins ! 1) (Obj o') (k, st\<lparr>shells := add o' (shells st)\<rparr>)))
      else if op = ''closure_stack'' \<and> 2 \<le> n then Inr (False, made_step ins 0 ks)
      else if op = ''ret'' then Inr (True, ret_step c ins ks, st)
      else Inl (''instruction '' @ op))"

end
