(* ===== verification/CountRun.thy ===== *)
theory CountRun
  imports CountStep
begin

text \<open>
  The run of \<open>count_check.rs\<close>: the states that meet at a block are joined, and a block is run again
  as long as its state changes; the report over a module.
\<close>

subsection \<open>Where paths meet\<close>

definition one_count_only :: "canon_state \<Rightarrow> canon_state \<Rightarrow> token list list" where
  "one_count_only x y =
     map fst (filter (\<lambda>kv. fst (snd kv) = 1 \<and> map_of (c_objs y) (fst kv) = None) (c_objs x))"

text \<open>Objects with one count on each path, in slots that overlap.\<close>

definition pair_up ::
  "canon_state \<Rightarrow> canon_state \<Rightarrow> token list list \<Rightarrow> token list \<Rightarrow>
     (token list \<times> int \<times> bool) list \<times> token list list \<Rightarrow> (token list \<times> int \<times> bool) list \<times> token list list" where
  "pair_up a b b_one ka s =
     (case s of (objs, paired) \<Rightarrow>
        case filter (\<lambda>kb. \<exists>x \<in> set kb. x \<in> set ka) b_one of
          [kb] \<Rightarrow>
            let shared = filter (\<lambda>x. x \<in> set kb) ka;
                mn = (\<lambda>cn k. case map_of (c_objs cn) k of None \<Rightarrow> False | Some v \<Rightarrow> snd v)
            in if map_of objs shared \<noteq> None \<or> kb \<in> set paired then s
               else (put shared (1, mn a ka \<or> mn b kb) objs, ka # kb # paired)
        | _ \<Rightarrow> s)"

text \<open>The other objects. \<open>None\<close> is a disagreement.\<close>

definition join_object ::
  "canon_state \<Rightarrow> canon_state \<Rightarrow> token list \<Rightarrow>
     ((token list \<times> int \<times> bool) list \<times> token list \<times> token list) option \<Rightarrow>
     ((token list \<times> int \<times> bool) list \<times> token list \<times> token list) option" where
  "join_object a b k s =
     (case s of None \<Rightarrow> None
      | Some (objs, a_nulls, b_nulls) \<Rightarrow>
          let null = (\<exists>x \<in> set k. x \<in> set a_nulls \<or> x \<in> set b_nulls);
              one_side = (\<lambda>n. if n = 0 \<and> \<not> null then Some (objs, a_nulls, b_nulls)
                    else if n = 1 \<and> \<not> null then Some (put k (1, True) objs, a_nulls, b_nulls) else None)
          in case (map_of (c_objs a) k, map_of (c_objs b) k) of
               (Some x, Some y) \<Rightarrow>
                 if fst x = fst y then Some (put k (fst x, snd x \<or> snd y) objs, a_nulls, b_nulls) else None
             | (Some x, None) \<Rightarrow>
                 if length k = 1 \<and> fst x \<le> 1 \<and> hd k \<in> set b_nulls
                 then Some (put k (fst x, True) objs, a_nulls, drop_elem (hd k) b_nulls)
                 else one_side (fst x)
             | (None, Some y) \<Rightarrow>
                 if length k = 1 \<and> fst y \<le> 1 \<and> hd k \<in> set a_nulls
                 then Some (put k (fst y, True) objs, drop_elem (hd k) a_nulls, b_nulls)
                 else one_side (fst y)
             | (None, None) \<Rightarrow> None)"

text \<open>An object only registers hold: kept when both sides agree, a leak when one lacks it.\<close>

definition join_regobj ::
  "canon_state \<Rightarrow> canon_state \<Rightarrow> oname \<Rightarrow> ((oname \<times> int) list \<times> oname list) option \<Rightarrow>
     ((oname \<times> int) list \<times> oname list) option" where
  "join_regobj a b o' s =
     (case s of None \<Rightarrow> None
      | Some (objs, leaks) \<Rightarrow>
          (case (map_of (c_regobjs a) o', map_of (c_regobjs b) o') of
             (Some x, Some y) \<Rightarrow> if x = y then Some (put o' x objs, leaks) else None
           | (Some n, None) \<Rightarrow> Some (objs, if 0 < n then leaks @ [o'] else leaks)
           | (None, Some n) \<Rightarrow> Some (objs, if 0 < n then leaks @ [o'] else leaks)
           | (None, None) \<Rightarrow> Some (objs, leaks)))"

definition join_reg ::
  "(oname option \<Rightarrow> bool) \<Rightarrow> (oname option \<Rightarrow> bool) \<Rightarrow> oname option option \<Rightarrow> oname option option \<Rightarrow>
     oname option option" where
  "join_reg live maybe x y =
     (case (x, y) of
        (Some x, Some y) \<Rightarrow>
          if x = y then Some x
          else if x = None \<and> live y then Some y
          else if y = None \<and> live x then Some x
          else None
      | (Some x, None) \<Rightarrow> if maybe x then Some x else None
      | (None, Some y) \<Rightarrow> if maybe y then Some y else None
      | (None, None) \<Rightarrow> None)"

definition sorted_keys :: "('k::linorder \<times> 'v) list \<Rightarrow> ('k \<times> 'v) list \<Rightarrow> 'k list" where
  "sorted_keys m m' = fold add (map fst m @ map fst m') []"

text \<open>The joined state, and the register objects that only one path holds a count of.\<close>

definition join :: "canon_state \<Rightarrow> canon_state \<Rightarrow> (canon_state \<times> oname list) option" where
  "join a b =
     (if a = b then Some (a, [])
      else if c_unknowns a \<noteq> c_unknowns b \<or> c_emptied a \<noteq> c_emptied b then None
      else
        let (paired_objs, paired) = fold (pair_up a b (one_count_only b a)) (one_count_only a b) ([], []);
            ks = filter (\<lambda>k. k \<notin> set paired) (sorted_keys (c_objs a) (c_objs b))
        in case fold (join_object a b) ks (Some (paired_objs, c_nulls a, c_nulls b)) of
             None \<Rightarrow> None
           | Some (objs, a_nulls, b_nulls) \<Rightarrow>
               if \<exists>x \<in> set a_nulls \<union> set b_nulls. \<exists>kv \<in> set objs. x \<in> set (fst kv) then None
               else
                 case fold (join_regobj a b) (sorted_keys (c_regobjs a) (c_regobjs b)) (Some ([], [])) of
                   None \<Rightarrow> None
                 | Some (regobjs, leaks) \<Rightarrow>
                     let live = (\<lambda>h. case h of None \<Rightarrow> True
                           | Some o' \<Rightarrow> map_of regobjs o' \<noteq> None \<or> (\<exists>kv \<in> set objs. Held (fst kv) = o'));
                         maybe = (\<lambda>h. \<exists>kv \<in> set objs. snd (snd kv) \<and> h = Some (Held (fst kv)));
                         reg = (\<lambda>r m. case join_reg live maybe (map_of (c_regs a) r) (map_of (c_regs b) r) of
                             None \<Rightarrow> m | Some h \<Rightarrow> if live h then put r h m else m)
                     in Some (\<lparr>c_objs = objs, c_regobjs = regobjs,
                          c_regs = fold reg (sorted_keys (c_regs a) (c_regs b)) [],
                          c_nulls = filter (\<lambda>x. x \<in> set b_nulls) a_nulls,
                          c_unknowns = c_unknowns a, c_emptied = c_emptied a,
                          c_shells = fold add (c_shells b) (c_shells a),
                          c_owned_fields = fold add (c_owned_fields b) (c_owned_fields a),
                          c_aliases = filter (\<lambda>va. map_of (c_aliases b) (fst va) = Some (snd va)) (c_aliases a)\<rparr>,
                        leaks))"

definition join_at ::
  "canon_state \<Rightarrow> canon_state \<Rightarrow> token \<Rightarrow> check_log \<Rightarrow> (check_log \<times> canon_state) option" where
  "join_at a b l k =
     (case join a b of None \<Rightarrow> None
      | Some (out, leaks) \<Rightarrow>
          Some (fold (\<lambda>o' k. found (OnePathOnly l (origin k o')) k) leaks k, out))"

subsection \<open>A function\<close>

definition param_state :: "checked_func \<Rightarrow> token \<Rightarrow> count_state \<Rightarrow> count_state" where
  "param_state c p st =
     (case class_of c p of
        ScalarSlot \<Rightarrow> st
      | Carrier \<Rightarrow> st\<lparr>slots := put p Unknown (slots st)\<rparr>
      | _ \<Rightarrow> (set_count (Param p) 0 st)\<lparr>slots := put p (Obj (Param p)) (slots st)\<rparr>)"

definition hold_one :: "oname \<Rightarrow> token \<Rightarrow> count_state \<Rightarrow> count_state" where
  "hold_one o' slot st =
     (set_count o' 1 st)\<lparr>maybe_null := o' # maybe_null st, slots := put slot (Obj o') (slots st)\<rparr>"

definition tls_state :: "checked_func \<Rightarrow> instr \<Rightarrow> count_state \<Rightarrow> count_state" where
  "tls_state c ins st =
     (case counted_tls_slot c ins of None \<Rightarrow> st
      | Some slot \<Rightarrow> if map_of (slots st) slot = None then hold_one (Tls slot) slot st else st)"

definition named_slots :: "instr list \<Rightarrow> token list" where
  "named_slots ins =
     map (\<lambda>i. if hd i = ''load'' then i ! 2 else i ! 1)
       (filter (\<lambda>i. (hd i = ''load'' \<or> hd i = ''store'') \<and> 3 \<le> length i) ins)"

definition global_state :: "checked_func \<Rightarrow> token \<Rightarrow> count_state \<Rightarrow> count_state" where
  "global_state c g st =
     (case map_of (the_globals c) g of
        Some kd \<Rightarrow>
          if is_counted kd \<and> g \<in> set (named_slots (body (the_func c))) then hold_one (Global g) g st else st
      | None \<Rightarrow> st)"

definition entry_state :: "checked_func \<Rightarrow> count_state" where
  "entry_state c =
     fold (global_state c) (remdups (map fst (the_globals c)))
       (fold (tls_state c) (body (the_func c)) (fold (param_state c) (params (the_func c)) empty_state))"

fun run_block ::
  "ownership \<Rightarrow> checked_func \<Rightarrow> instr list \<Rightarrow> check_log \<times> count_state \<Rightarrow> (bool \<times> check_log \<times> count_state) settled" where
  "run_block rt c [] ks = Inr (False, ks)"
| "run_block rt c (ins # rest) ks =
     (case step rt c ins ks of Inl e \<Rightarrow> Inl e
      | Inr (True, ks) \<Rightarrow> Inr (True, ks)
      | Inr (False, ks) \<Rightarrow> run_block rt c rest ks)"

text \<open>A branch on whether a value is there settles its count on the side where it is not: the
  object, and whether the null side is the one the branch takes when the test is set.\<close>

definition settle_side :: "instr \<Rightarrow> count_state \<Rightarrow> (oname \<times> bool) option" where
  "settle_side ins st =
     (case map_of (null_tests st) (ins ! 1) of
        Some (o', there) \<Rightarrow> Some (o', \<not> there)
      | None \<Rightarrow> (case reg_val st (ins ! 1) of Obj o' \<Rightarrow> Some (o', False) | _ \<Rightarrow> None))"

definition block_ends ::
  "checked_func \<Rightarrow> token \<Rightarrow> instr list \<Rightarrow> nat list \<Rightarrow> check_log \<times> count_state \<Rightarrow>
     check_log \<times> (nat \<times> canon_state) list" where
  "block_ends c name block succ ks =
     (case ks of (k, st) \<Rightarrow>
        let at' = ''the end of '' @ name;
            branch = (if block \<noteq> [] \<and> hd (last block) = ''brif'' \<and> 4 \<le> length (last block) \<and> length succ = 2
                      then settle_side (last block) st else None)
        in case branch of
             Some (o', null_set) \<Rightarrow>
               fold (\<lambda>i kw.
                   let side = (if (i = 0) = null_set then set_count o' 0 st else st)\<lparr>null_tests := []\<rparr>;
                       (k, out) = canon c at' (fst kw, side)
                   in (k, (succ ! i, out) # snd kw)) [0, 1] (k, [])
           | None \<Rightarrow> (case canon c at' (k, st) of (k, out) \<Rightarrow> (k, rev (map (\<lambda>s. (s, out)) succ))))"

text \<open>The worklist, its last entry first.\<close>

definition MAX_STEPS :: nat where "MAX_STEPS = 200000"

function work_loop ::
  "ownership \<Rightarrow> checked_func \<Rightarrow> (token \<times> instr list \<times> nat list) list \<Rightarrow> nat \<Rightarrow> (nat \<times> canon_state) list \<Rightarrow>
     (nat \<times> canon_state) list \<Rightarrow> check_log \<Rightarrow> check_log settled" where
  "work_loop rt c blocks steps work seen k =
     (case work of [] \<Rightarrow> Inr k
      | (b, key) # work \<Rightarrow>
          if MAX_STEPS < steps + 1 then Inl ''no fixed point''
          else
            let (name, block, succ) = blocks ! b;
                joined = (case map_of seen b of None \<Rightarrow> Some (k, key) | Some prev \<Rightarrow> join_at prev key name k)
            in case joined of None \<Rightarrow> Inl ''paths join with different counts''
               | Some (k, key) \<Rightarrow>
                   if map_of seen b = Some key then work_loop rt c blocks (steps + 1) work seen k
                   else case run_block rt c block (k, from_canon key) of
                     Inl e \<Rightarrow> Inl e
                   | Inr (True, k, st) \<Rightarrow> work_loop rt c blocks (steps + 1) work ((b, key) # seen) k
                   | Inr (False, k, st) \<Rightarrow>
                       (case block_ends c name block succ (k, st) of (k, outs) \<Rightarrow>
                          work_loop rt c blocks (steps + 1) (outs @ work) ((b, key) # seen) k))"
  by pat_completeness auto
termination
  by (relation "measure (\<lambda>(rt, c, blocks, steps, work, seen, k). MAX_STEPS - steps)") auto

declare work_loop.simps [simp del]

definition run :: "ownership \<Rightarrow> checked_func \<Rightarrow> check_log settled" where
  "run rt c =
     (if mixed (the_func c) \<noteq> [] then Inl ''a local whose kind changes by path''
      else if \<exists>kv \<in> set (kinds (the_func c)). begins ''__jf_'' (fst kv) then Inl ''a JSON decoder's raw word slots''
      else
        case canon c ''entry'' (\<lparr>problems = [], origins = [], reads = 0\<rparr>, entry_state c) of (k, entry) \<Rightarrow>
          work_loop rt c (split_blocks (body (the_func c))) 0 [(0, entry)] [] k)"

subsection \<open>The report\<close>

record count_report =
  passed :: nat
  failed :: nat
  undecided :: nat
  unmarked :: nat
  found_problems :: "(token \<times> problem list) list"
  balanced_names :: "token list"

definition report_func :: "ownership \<Rightarrow> ir_module \<Rightarrow> ir_func \<Rightarrow> count_report \<Rightarrow> count_report" where
  "report_func rt m f r =
     (if \<not> marked f then r\<lparr>unmarked := unmarked r + 1\<rparr>
      else case run rt (check_func m f) of
        Inl reason \<Rightarrow> r\<lparr>undecided := undecided r + 1\<rparr>
      | Inr k \<Rightarrow>
          if problems k = [] then r\<lparr>passed := passed r + 1, balanced_names := balanced_names r @ [fname f]\<rparr>
          else r\<lparr>failed := failed r + 1, found_problems := found_problems r @ [(fname f, problems k)]\<rparr>)"

definition check_counts :: "ownership \<Rightarrow> instr list \<Rightarrow> count_report" where
  "check_counts rt lines =
     (let m = read_module lines in
      fold (report_func rt m) (funcs m)
        \<lparr>passed = 0, failed = 0, undecided = 0, unmarked = 0, found_problems = [], balanced_names = []\<rparr>)"

end
