(* ===== verification/CountPaths.thy ===== *)
theory CountPaths
  imports CountRun
begin

text \<open>
  What the balance rule of \<open>count_check.rs\<close> promises. \<open>act\<close> is a machine that runs instructions on
  objects and keeps the true account: how many counts on each object the function holds. A value
  is \<open>Some n\<close>, a handle of object \<open>n\<close>, or \<open>None\<close>, a word or a null. What a call returns is chosen
  freely, so an object may come back any number of times under any name.
\<close>

subsection \<open>The machine\<close>

record machine =
  m_regs :: "token \<Rightarrow> nat option"
  m_slots :: "token \<Rightarrow> nat option"
  ledger :: "nat \<Rightarrow> int"

definition change :: "int \<Rightarrow> nat option \<Rightarrow> machine \<Rightarrow> machine" where
  "change d v m = (case v of None \<Rightarrow> m | Some n \<Rightarrow> m\<lparr>ledger := (ledger m)(n := ledger m n + d)\<rparr>)"

definition set_m :: "token \<Rightarrow> nat option \<Rightarrow> machine \<Rightarrow> machine" where
  "set_m r v m = m\<lparr>m_regs := (m_regs m)(r := v)\<rparr>"

fun consume_all :: "(token \<times> arg_ownership) list \<Rightarrow> machine \<Rightarrow> machine" where
  "consume_all [] m = m"
| "consume_all (a # as) m =
     consume_all as (if snd a = Consume then change (- 1) (m_regs m (fst a)) m else m)"

text \<open>A result that carries a count, one that does not, and a plain one.\<close>

definition act_result :: "instr \<Rightarrow> int option \<Rightarrow> nat option \<Rightarrow> machine \<Rightarrow> machine" where
  "act_result ins d res m =
     (case d of None \<Rightarrow> set_m (ins ! 1) None m | Some d \<Rightarrow> set_m (ins ! 1) res (change d res m))"

definition result_count :: "token \<Rightarrow> result_value \<Rightarrow> int option" where
  "result_count typ r =
     (if typ \<in> set SCALAR_KINDS then None
      else case r of Own \<Rightarrow> Some 1 | PlainResult \<Rightarrow> if is_counted typ then Some 0 else None
      | BorrowResult i \<Rightarrow> Some 0)"

definition act_call :: "ownership \<Rightarrow> checked_func \<Rightarrow> instr \<Rightarrow> nat option \<Rightarrow> machine \<Rightarrow> machine" where
  "act_call rt c ins res m =
     (let callee = ins ! 2; args = drop 5 ins in
      if is_emitted_release callee
      then set_m (ins ! 1) None (if args = [] then m else change (- 1) (m_regs m (hd args)) m)
      else if callee \<in> set RETAINS then set_m (ins ! 1) None (change 1 (m_regs m (hd args)) m)
      else case rt callee of
        Some row \<Rightarrow> act_result ins (result_count (ins ! 3) (row_result row)) res (consume_all (zip args (row_args row)) m)
      | None \<Rightarrow> act_result ins (if is_counted (ins ! 3) then Some 1 else None) res m)"

text \<open>One instruction with the result \<open>res\<close>; \<open>None\<close> for an object stored where the marks say a
  scalar is.\<close>

definition act ::
  "ownership \<Rightarrow> checked_func \<Rightarrow> instr \<times> nat option \<Rightarrow> machine \<Rightarrow> machine option" where
  "act rt c i m =
     (case i of (ins, res) \<Rightarrow>
        if hd ins \<in> set PLAIN_OPS then Some (if 1 < length ins then set_m (ins ! 1) None m else m)
        else if hd ins = ''load'' then Some (set_m (ins ! 1) (m_slots m (ins ! 2)) m)
        else if hd ins = ''store'' then
          (if class_of c (ins ! 1) = ScalarSlot \<and> m_regs m (ins ! 2) \<noteq> None then None
           else Some (m\<lparr>m_slots := (m_slots m)(ins ! 1 := m_regs m (ins ! 2))\<rparr>))
        else if hd ins \<in> {''concat'', ''concatn'', ''appendn''} then Some (act_result ins (Some 1) res m)
        else if hd ins = ''call'' then Some (act_call rt c ins res m)
        else Some m)"

fun acts ::
  "ownership \<Rightarrow> checked_func \<Rightarrow> (instr \<times> nat option) list \<Rightarrow> machine \<Rightarrow> machine option" where
  "acts rt c [] m = Some m"
| "acts rt c (i # is) m = (case act rt c i m of None \<Rightarrow> None | Some m \<Rightarrow> acts rt c is m)"

text \<open>The instructions the machine runs: no fields, no thread-local slots, no values of an unknown
  kind.\<close>

definition runs_plainly :: "instr \<Rightarrow> bool" where
  "runs_plainly ins \<longleftrightarrow>
     (let op = hd ins; n = length ins in
      op \<in> {''param'', ''runtime_abi''} \<or>
      op \<in> set PLAIN_OPS \<or>
      op = ''load'' \<and> 3 \<le> n \<or> op = ''store'' \<and> 3 \<le> n \<or>
      op \<in> {''concat'', ''concatn'', ''appendn''} \<and> 2 \<le> n \<or>
      op = ''call'' \<and> 5 \<le> n \<and> ins ! 3 \<noteq> ''unknown'' \<and> \<not> begins ''pith_tls_'' (ins ! 2) \<and>
        \<not> has_part ''__tuple_stack_cascade_'' (ins ! 2) \<and>
        (ins ! 2 \<in> set RETAINS \<or> is_emitted_release (ins ! 2) \<longrightarrow> 5 < n))"

definition makes :: "instr \<Rightarrow> bool" where
  "makes ins \<longleftrightarrow> hd ins \<in> {''concat'', ''concatn'', ''appendn'', ''call''}"

subsection \<open>The checker's state tells the machine's\<close>

definition denotes :: "(oname \<Rightarrow> nat option) \<Rightarrow> val \<Rightarrow> nat option \<Rightarrow> bool" where
  "denotes g v x \<longleftrightarrow> (case v of Obj o' \<Rightarrow> x = g o' | Unknown \<Rightarrow> False | _ \<Rightarrow> x = None)"

definition known :: "(oname \<Rightarrow> nat option) \<Rightarrow> val option \<Rightarrow> nat option \<Rightarrow> bool" where
  "known g ov x \<longleftrightarrow> (case ov of None \<Rightarrow> x = None | Some v \<Rightarrow> denotes g v x)"

definition account :: "(oname \<Rightarrow> nat option) \<Rightarrow> count_state \<Rightarrow> nat \<Rightarrow> int" where
  "account g st n = (\<Sum>o' \<in> fst ` set (counts st). if g o' = Some n then count st o' else 0)"

abbreviation named :: "count_state \<Rightarrow> oname set" where
  "named st \<equiv> fst ` set (counts st)"

definition in_order :: "('k::linorder \<times> 'v) list \<Rightarrow> bool" where
  "in_order m \<longleftrightarrow> sorted_wrt (<) (map fst m)"

definition tidy :: "token set \<Rightarrow> count_state \<Rightarrow> bool" where
  "tidy used st \<longleftrightarrow>
     in_order (counts st) \<and> in_order (slots st) \<and>
     (\<forall>o'. 0 \<le> count st o') \<and>
     (\<forall>t. Reg t \<in> named st \<longrightarrow> t \<in> used) \<and>
     (\<forall>s o'. map_of (slots st) s = Some (Obj o') \<longrightarrow> o' \<in> named st) \<and>
     (\<forall>r o'. reg_val st r = Obj o' \<longrightarrow> o' \<in> named st) \<and>
     field_of st = [] \<and> emptied st = []"

definition told ::
  "checked_func \<Rightarrow> (oname \<Rightarrow> nat option) \<Rightarrow> count_state \<Rightarrow> machine \<Rightarrow> bool" where
  "told c g st m \<longleftrightarrow>
     (\<forall>r. denotes g (reg_val st r) (m_regs m r)) \<and>
     (\<forall>s. known g (map_of (slots st) s) (m_slots m s)) \<and>
     (\<forall>s. class_of c s = ScalarSlot \<longrightarrow> m_slots m s = None) \<and>
     (\<forall>n. ledger m n = account g st n)"

lemma dom_put: "fst ` set (put k v m) = insert k (fst ` set m)"
  by (induction m) auto

lemma in_order_put [simp]: "in_order m \<Longrightarrow> in_order (put k v m)"
proof (induction m)
  case (Cons x m)
  have m: "p \<in> set m \<Longrightarrow> fst x < fst p" for p using Cons.prems by (simp add: in_order_def)
  have "fst x < fst p" if "p \<in> set (put k v m)" "fst x < k" for p
  proof -
    have "fst p \<in> insert k (fst ` set m)" using that(1) dom_put [of k v m] by (metis imageI)
    then show ?thesis using m that(2) by auto
  qed
  moreover have "in_order (put k v m)" using Cons by (simp add: in_order_def)
  ultimately show ?case
    using Cons.prems m less_trans [OF _ m, of k] by (auto simp: in_order_def)
qed (simp add: in_order_def)

lemma in_order_distinct: "in_order m \<Longrightarrow> distinct (map fst m)"
  by (auto simp: in_order_def strict_sorted_iff)

lemma count_set_count [simp]: "count (set_count o' n st) p = (if p = o' then n else count st p)"
  by (simp add: count_def set_count_def)

lemma named_set_count [simp]: "named (set_count o' n st) = insert o' (named st)"
  by (simp add: set_count_def dom_put)

lemma count_absent: "o' \<notin> named st \<Longrightarrow> count st o' = 0"
  by (simp add: count_def map_of_eq_None_iff [THEN iffD2])

lemma account_set_count:
  "account g (set_count o' k st) n = account g st n + (if g o' = Some n then k - count st o' else 0)"
proof -
  let ?A = "named st"
  have "(\<Sum>p \<in> insert o' ?A. if g p = Some n then count (set_count o' k st) p else 0) =
      (if g o' = Some n then k else 0) + (\<Sum>p \<in> ?A - {o'}. if g p = Some n then count st p else 0)"
    by (subst sum.insert_remove) (auto intro!: sum.cong split: if_splits)
  moreover have "(\<Sum>p \<in> ?A. if g p = Some n then count st p else 0) =
      (if g o' = Some n then count st o' else 0) + (\<Sum>p \<in> ?A - {o'}. if g p = Some n then count st p else 0)"
  proof (cases "o' \<in> ?A")
    case True
    then show ?thesis by (subst sum.remove [of ?A o']) auto
  next
    case False
    then show ?thesis using count_absent [OF False] by simp
  qed
  ultimately show ?thesis unfolding account_def named_set_count by simp
qed

lemma account_rename:
  assumes "o' \<notin> named st"
  shows "account (g(o' := x)) st n = account g st n"
  using assms unfolding account_def by (intro sum.cong) auto

lemma same_counts:
  assumes "counts st' = counts st"
  shows "account g st' n = account g st n" "count st' o' = count st o'"
proof -
  have c: "count st' = count st" by (simp add: count_def fun_eq_iff assms)
  show "account g st' n = account g st n" unfolding account_def c assms ..
  show "count st' o' = count st o'" by (simp add: c)
qed

lemma reg_val_set_reg [simp]: "reg_val (set_reg r v st) q = (if q = r then v else reg_val st q)"
  by (simp add: reg_val_def set_reg_def)

lemma reg_val_set_count [simp]: "reg_val (set_count o' n st) = reg_val st"
  by (simp add: fun_eq_iff reg_val_def set_count_def)

text \<open>The parts of a state that no other part looks at.\<close>

definition alike :: "count_state \<Rightarrow> count_state \<Rightarrow> bool" where
  "alike st st' \<longleftrightarrow> counts st' = counts st \<and> slots st' = slots st \<and> regs st' = regs st \<and>
     field_of st' = field_of st \<and> emptied st' = emptied st"

lemma alike_told: "alike st st' \<Longrightarrow> told c g st m \<Longrightarrow> told c g st' m"
  unfolding told_def alike_def using same_counts [of st' st] by (simp add: reg_val_def)

lemma alike_tidy: "alike st st' \<Longrightarrow> tidy used st \<Longrightarrow> tidy used st'"
  unfolding tidy_def alike_def using same_counts [of st' st] by (simp add: reg_val_def)

lemma tidyD:
  assumes "tidy used st"
  shows "in_order (counts st)" "in_order (slots st)" "0 \<le> count st o'"
    "Reg t \<in> named st \<Longrightarrow> t \<in> used" "map_of (slots st) s = Some (Obj o') \<Longrightarrow> o' \<in> named st"
    "reg_val st r = Obj o' \<Longrightarrow> o' \<in> named st" "field_of st = []" "emptied st = []"
  using assms by (simp_all add: tidy_def)

lemma toldD:
  assumes "told c g st m"
  shows "denotes g (reg_val st r) (m_regs m r)" "known g (map_of (slots st) s) (m_slots m s)"
    "class_of c s = ScalarSlot \<Longrightarrow> m_slots m s = None" "ledger m n = account g st n"
  using assms by (simp_all add: told_def)

text \<open>A register gets a value that the state knows, a slot one of a register, an object another
  count.\<close>

lemma set_reg_tidy:
  assumes "tidy used st" and "\<And>o'. v = Obj o' \<Longrightarrow> o' \<in> named st"
  shows "tidy used (set_reg r v st)"
proof -
  have "count (set_reg r v st) = count st" by (simp add: fun_eq_iff count_def set_reg_def)
  moreover have "counts (set_reg r v st) = counts st" "slots (set_reg r v st) = slots st"
    "field_of (set_reg r v st) = field_of st" "emptied (set_reg r v st) = emptied st"
    by (simp_all add: set_reg_def)
  ultimately show ?thesis
    using tidyD [OF assms(1)] assms(2) unfolding tidy_def by (simp split: if_splits)
qed

lemma set_reg_told:
  assumes "told c g st m" and "denotes g v x"
  shows "told c g (set_reg r v st) (set_m r x m)"
proof -
  have "account g (set_reg r v st) n = account g st n" for n
    by (rule same_counts) (simp add: set_reg_def)
  moreover have "slots (set_reg r v st) = slots st" by (simp add: set_reg_def)
  ultimately show ?thesis using toldD [OF assms(1)] assms(2) unfolding told_def by (simp add: set_m_def)
qed

lemma put_slot_tidy:
  assumes "tidy used st" and "\<And>o'. v = Obj o' \<Longrightarrow> o' \<in> named st"
  shows "tidy used (st\<lparr>slots := put s v (slots st)\<rparr>)"
proof -
  have "count (st\<lparr>slots := put s v (slots st)\<rparr>) = count st" by (simp add: fun_eq_iff count_def)
  moreover have "reg_val (st\<lparr>slots := put s v (slots st)\<rparr>) = reg_val st" by (simp add: fun_eq_iff reg_val_def)
  ultimately show ?thesis
    using tidyD [OF assms(1)] assms(2) unfolding tidy_def by (simp split: if_splits)
qed

lemma put_slot_told:
  assumes "told c g st m" and "denotes g v x" and "class_of c s \<noteq> ScalarSlot"
  shows "told c g (st\<lparr>slots := put s v (slots st)\<rparr>) (m\<lparr>m_slots := (m_slots m)(s := x)\<rparr>)"
proof -
  have "account g (st\<lparr>slots := put s v (slots st)\<rparr>) n = account g st n" for n
    by (rule same_counts) simp
  moreover have "reg_val (st\<lparr>slots := put s v (slots st)\<rparr>) = reg_val st" by (simp add: fun_eq_iff reg_val_def)
  ultimately show ?thesis using toldD [OF assms(1)] assms(2,3) unfolding told_def by (auto simp: known_def)
qed

lemma set_count_tidy:
  assumes "tidy used st" and "0 \<le> n" and "\<And>t. o' = Reg t \<Longrightarrow> t \<in> used"
  shows "tidy used (set_count o' n st)"
proof -
  have "slots (set_count o' n st) = slots st" "field_of (set_count o' n st) = field_of st"
    "emptied (set_count o' n st) = emptied st" "in_order (counts (set_count o' n st))"
    using tidyD(1) [OF assms(1)] by (simp_all add: set_count_def)
  then show ?thesis using tidyD [OF assms(1)] assms(2,3) unfolding tidy_def by auto
qed

lemma set_count_told:
  assumes "told c g st m" and "x = g o'" and "d = n - count st o'"
  shows "told c g (set_count o' n st) (change d x m)"
proof -
  have "slots (set_count o' n st) = slots st" by (simp add: set_count_def)
  then show ?thesis
    using toldD [OF assms(1)] assms(2,3) unfolding told_def
    by (auto simp: change_def account_set_count split: option.splits)
qed

text \<open>A new name.\<close>

lemma rename_told:
  assumes t: "told c g st m" and y: "tidy used st" and o': "o' \<notin> named st"
  shows "told c (g(o' := x)) st m"
proof -
  have r: "denotes (g(o' := x)) (reg_val st r) (m_regs m r)" for r
    using toldD(1) [OF t, of r] tidyD(6) [OF y, of r o'] o' by (auto simp: denotes_def split: val.splits)
  have s: "known (g(o' := x)) (map_of (slots st) s) (m_slots m s)" for s
    using toldD(2) [OF t, of s] tidyD(5) [OF y, of s o'] o'
    by (auto simp: known_def denotes_def split: option.splits val.splits)
  show ?thesis using toldD [OF t] r s account_rename [OF o'] unfolding told_def by simp
qed

subsection \<open>One instruction\<close>

definition follows :: "checked_func \<Rightarrow> token set \<Rightarrow> check_log \<times> count_state \<Rightarrow> machine \<Rightarrow> bool" where
  "follows c used ks m \<longleftrightarrow> problems (fst ks) = [] \<and> tidy used (snd ks) \<and> (\<exists>g. told c g (snd ks) m)"

lemma followsI:
  "problems k = [] \<Longrightarrow> tidy used st \<Longrightarrow> told c g st m \<Longrightarrow> follows c used (k, st) m"
  by (auto simp: follows_def)

lemma followsE:
  assumes "follows c used (k, st) m"
  obtains g where "problems k = []" "tidy used st" "told c g st m"
  using assms by (auto simp: follows_def)

lemma tidy_mono: "tidy used st \<Longrightarrow> used \<subseteq> used' \<Longrightarrow> tidy used' st"
  unfolding tidy_def by blast

lemma pass_on_nothing: "field_of st = [] \<Longrightarrow> pass_on o' st = st"
  by (simp add: pass_on_def Let_def)

lemma denotes_plain: "denotes g Plain x \<longleftrightarrow> x = None" "denotes g Null x \<longleftrightarrow> x = None"
  "denotes g (Obj o') x \<longleftrightarrow> x = g o'" "\<not> denotes g Unknown x"
  by (simp_all add: denotes_def)

lemma change_none [simp]: "change d None m = m"
  by (simp add: change_def)

lemma m_regs_change [simp]: "m_regs (change d x m) = m_regs m"
  by (simp add: change_def split: option.splits)

lemma follows_plain:
  assumes "follows c used (k, st) m"
  shows "follows c used (set_result r Plain (k, st)) (set_m r None m)"
  using assms
  by (auto elim!: followsE intro!: followsI set_reg_tidy set_reg_told simp: set_result_def denotes_plain)

lemma follows_alike:
  "follows c used (k, st) m \<Longrightarrow> alike st st' \<Longrightarrow> follows c used (k, st') m"
  unfolding follows_def using alike_tidy [of st st' used] alike_told [of st st' c _ m] by auto

lemma take_count_grows: "take_count r why (k, st) = Inr (k', st') \<Longrightarrow> problems k' = [] \<Longrightarrow> problems k = []"
  by (cases "reg_val st r")
    (simp_all add: take_count_def Let_def found_def split: if_splits option.splits prod.splits, auto)

lemma take_count_obj:
  assumes "reg_val st r = Obj o'" and "field_of st = []"
  shows "take_count r why (k, st) =
    Inr (if count st o' \<le> 0 then found (NotHeld why r) k else k, set_count o' (count st o' - 1) st)"
proof -
  have "field_of (set_count o' n st) = []" for n using assms(2) by (simp add: set_count_def)
  then show ?thesis using assms by (simp add: take_count_def Let_def pass_on_nothing)
qed

lemma follows_take_count:
  assumes f: "follows c used (k, st) m"
    and s: "take_count r why (k, st) = Inr (k', st')" and p: "problems k' = []"
  shows "follows c used (k', st') (change (- 1) (m_regs m r) m)"
  using f
proof (rule followsE)
  fix g assume pk: "problems k = []" and y: "tidy used st" and t: "told c g st m"
  note r = toldD(1) [OF t, of r]
  show ?thesis
  proof (cases "reg_val st r")
    case (Obj o')
    note eq = s [unfolded take_count_obj [OF Obj tidyD(7) [OF y]]]
    then have n: "0 < count st o'" using p by (auto simp: found_def split: if_splits)
    have x: "m_regs m r = g o'" using r by (simp add: Obj denotes_plain)
    have "tidy used (set_count o' (count st o' - 1) st)"
      using n tidyD(4) [OF y] tidyD(6) [OF y Obj] by (intro set_count_tidy [OF y]) auto
    moreover have "told c g (set_count o' (count st o' - 1) st) (change (- 1) (m_regs m r) m)"
      by (rule set_count_told [OF t x]) simp
    ultimately show ?thesis using eq n pk by (auto intro: followsI)
  qed (use s r pk y t in \<open>auto simp: take_count_def denotes_plain intro: followsI\<close>)
qed

lemma take_all_grows: "take_all as why ks = Inr ks' \<Longrightarrow> problems (fst ks') = [] \<Longrightarrow> problems (fst ks) = []"
proof (induction as arbitrary: ks)
  case (Cons a as)
  obtain k st where ks: "ks = (k, st)" by (cases ks)
  show ?case
  proof (cases "snd a = Consume")
    case True
    then obtain k2 st2 where e: "take_count (fst a) why ks = Inr (k2, st2)" "take_all as why (k2, st2) = Inr ks'"
      using Cons.prems(1) by (auto split: sum.splits)
    have "problems k2 = []" using Cons.IH [OF e(2) Cons.prems(2)] by simp
    then show ?thesis using take_count_grows [OF e(1) [unfolded ks]] ks by simp
  qed (use Cons in simp)
qed simp

lemma follows_take_all:
  assumes "follows c used ks m" and "take_all as why ks = Inr ks'" and p: "problems (fst ks') = []"
  shows "follows c used ks' (consume_all as m)"
  using assms(1,2)
proof (induction as arbitrary: ks m)
  case (Cons a as)
  obtain k st where ks: "ks = (k, st)" by (cases ks)
  show ?case
  proof (cases "snd a = Consume")
    case True
    then obtain k2 st2 where e: "take_count (fst a) why ks = Inr (k2, st2)" "take_all as why (k2, st2) = Inr ks'"
      using Cons.prems(2) by (auto split: sum.splits)
    have "problems k2 = []" using take_all_grows [OF e(2) p] by simp
    then show ?thesis
      using follows_take_count [OF Cons.prems(1) [unfolded ks] e(1) [unfolded ks]] Cons.IH [OF _ e(2)] True by simp
  qed (use Cons in simp)
qed simp

text \<open>An object is made under a name that no instruction made before.\<close>

lemma follows_made:
  assumes f: "follows c used (k, st) m" and n: "0 \<le> n" and l: "2 \<le> length ins" and u: "ins ! 1 \<notin> used"
  obtains k' st' where "made ins n (k, st) = (Obj (Reg (ins ! 1)), k', st')"
    and "\<And>st2. alike st' st2 \<Longrightarrow>
      follows c (insert (ins ! 1) used) (set_result (ins ! 1) (Obj (Reg (ins ! 1))) (k', st2))
        (set_m (ins ! 1) x (change n x m))"
  using f
proof (rule followsE)
  fix g assume pk: "problems k = []" and y: "tidy used st" and t: "told c g st m"
  let ?o = "Reg (ins ! 1)" and ?used = "insert (ins ! 1) used"
  let ?st = "(set_count ?o n st)\<lparr>maybe_null := drop_elem ?o (maybe_null st)\<rparr>"
  have fresh: "?o \<notin> named st" using tidyD(4) [OF y] u by blast
  have "tidy ?used (set_count ?o n st)"
    by (rule set_count_tidy [OF tidy_mono [OF y] n]) auto
  then have y': "tidy ?used ?st" by (rule alike_tidy [rotated]) (simp add: alike_def)
  have "told c (g(?o := x)) (set_count ?o n st) (change n x m)"
    by (rule set_count_told [OF rename_told [OF t y fresh]]) (simp, unfold count_absent [OF fresh], simp)
  then have t': "told c (g(?o := x)) ?st (change n x m)" by (rule alike_told [rotated]) (simp add: alike_def)
  let ?k = "k\<lparr>origins := put ?o ins (origins k)\<rparr>"
  have "made ins n (k, st) = (Obj ?o, ?k, ?st)"
    using l using count_absent [OF fresh] by (simp add: made_def new_obj_def Let_def)
  moreover have all: "follows c ?used (set_result (ins ! 1) (Obj ?o) (?k, st2)) (set_m (ins ! 1) x (change n x m))"
    if a: "alike ?st st2" for st2
  proof -
    have "named st2 = named ?st" using a by (simp add: alike_def)
    moreover have "named ?st = insert ?o (named st)" by (simp add: set_count_def dom_put)
    ultimately have "?o \<in> named st2" by simp
    then have "tidy ?used (set_reg (ins ! 1) (Obj ?o) st2)"
      by (intro set_reg_tidy alike_tidy [OF a y']) auto
    moreover have "told c (g(?o := x)) (set_reg (ins ! 1) (Obj ?o) st2) (set_m (ins ! 1) x (change n x m))"
      by (rule set_reg_told [OF alike_told [OF a t']]) (simp add: denotes_plain)
    ultimately show ?thesis using pk by (auto simp: set_result_def intro!: followsI)
  qed
  ultimately show thesis by (rule that)
qed

text \<open>The result of a call.\<close>

definition call_value ::
  "instr \<Rightarrow> int option \<Rightarrow> check_log \<times> count_state \<Rightarrow> val \<times> check_log \<times> count_state" where
  "call_value ins x ks = (case x of None \<Rightarrow> (Plain, ks) | Some n \<Rightarrow> made ins n ks)"

lemma row_value_eq: "ins ! 3 \<noteq> ''unknown'' \<Longrightarrow> row_value ins r ks = call_value ins (result_count (ins ! 3) r) ks"
  by (simp add: row_value_def call_value_def result_count_def split: result_value.split)

lemma user_value_eq: "ins ! 3 \<noteq> ''unknown'' \<Longrightarrow>
    user_value ins ks = call_value ins (if is_counted (ins ! 3) then Some 1 else None) ks"
  by (simp add: user_value_def call_value_def)

lemma result_count_pos: "result_count typ r = Some n \<Longrightarrow> 0 \<le> n"
  by (auto simp: result_count_def split: if_splits result_value.splits)

lemma made_grows: "made ins n (k, st) = (v, k', st') \<Longrightarrow> problems k' = [] \<Longrightarrow> problems k = []"
  by (auto simp: made_def new_obj_def Let_def found_def split: if_splits)

lemma keep_shell_eq:
  "\<exists>st'. alike st st' \<and> keep_shell ins (v, k, st) = set_result (ins ! 1) v (k, st')"
  by (cases v) (auto simp: keep_shell_def Let_def alike_def intro: exI [of _ st] exI [of _ "st\<lparr>shells := s\<rparr>" for s])

lemma call_value_grows:
  assumes "problems (fst (keep_shell ins (call_value ins x ks))) = []"
  shows "problems (fst ks) = []"
proof -
  obtain v k' st' where e: "call_value ins x ks = (v, k', st')" by (cases "call_value ins x ks")
  obtain k st where ks: "ks = (k, st)" by (cases ks)
  have "problems k' = []"
    using assms keep_shell_eq [of st' ins v k'] unfolding e by (auto simp: set_result_def)
  then show ?thesis using e ks made_grows by (auto simp: call_value_def split: option.splits)
qed

lemma follows_value:
  assumes f: "follows c used ks m" and x: "\<And>n. x = Some n \<Longrightarrow> 0 \<le> n" and l: "2 \<le> length ins" and u: "ins ! 1 \<notin> used"
  shows "follows c (insert (ins ! 1) used) (keep_shell ins (call_value ins x ks)) (act_result ins x res m)"
proof -
  obtain k st where ks: "ks = (k, st)" by (cases ks)
  show ?thesis
  proof (cases x)
    case None
    have "follows c (insert (ins ! 1) used) (k, st) m"
      using f ks by (auto simp: follows_def intro: tidy_mono)
    then show ?thesis
      using follows_plain by (simp add: None ks call_value_def keep_shell_def act_result_def)
  next
    case (Some n)
    from follows_made [OF f [unfolded ks] x [OF Some] l u]
    obtain k' st' where m: "made ins n (k, st) = (Obj (Reg (ins ! 1)), k', st')"
      and g: "\<And>st2. alike st' st2 \<Longrightarrow> follows c (insert (ins ! 1) used)
        (set_result (ins ! 1) (Obj (Reg (ins ! 1))) (k', st2)) (set_m (ins ! 1) res (change n res m))"
      by metis
    from keep_shell_eq obtain st2 where st2: "alike st' st2"
      "keep_shell ins (Obj (Reg (ins ! 1)), k', st') = set_result (ins ! 1) (Obj (Reg (ins ! 1))) (k', st2)"
      by blast
    show ?thesis unfolding ks Some call_value_def option.case m st2(2) act_result_def by (rule g [OF st2(1)])
  qed
qed

text \<open>A call.\<close>

lemma not_a_getter:
  assumes "\<not> begins ''pith_tls_'' x"
  shows "\<not> begins ''pith_tls_get_or_init'' x" "\<not> begins ''pith_tls_set'' x"
proof -
  have p: "begins p x" if "begins (p @ q) x" for p q
  proof -
    have "take (length p) (take (length (p @ q)) x) = p"
      using that unfolding begins_def by (metis append_eq_conv_conj)
    then show ?thesis by (simp add: begins_def)
  qed
  show "\<not> begins ''pith_tls_get_or_init'' x" "\<not> begins ''pith_tls_set'' x"
    using p [of "''pith_tls_''" "''get_or_init''"] p [of "''pith_tls_''" "''set''"] assms by auto
qed

definition after_dtor :: "instr \<Rightarrow> check_log \<times> count_state \<Rightarrow> check_log \<times> count_state" where
  "after_dtor ins ks =
     (if ins ! 2 = ''pith_struct_set_dtor'' \<and> drop 5 ins \<noteq> [] then
        (case reg_val (snd ks) (hd (drop 5 ins)) of
           Obj o' \<Rightarrow> (fst ks, (snd ks)\<lparr>shells := drop_elem o' (shells (snd ks))\<rparr>)
         | _ \<Rightarrow> ks) else ks)"

lemma after_dtor_alike: "fst (after_dtor ins ks) = fst ks" "alike (snd ks) (snd (after_dtor ins ks))"
  by (auto simp: after_dtor_def alike_def split: val.splits)

lemma follows_dtor: "follows c used ks m \<Longrightarrow> follows c used (after_dtor ins ks) m"
  using follows_alike [of c used "fst ks" "snd ks" m "snd (after_dtor ins ks)"]
  by (metis after_dtor_alike prod.collapse)

lemma call_step_eq:
  assumes "runs_plainly ins" and "hd ins = ''call''"
  shows "call_step rt c ins ks =
     (let callee = ins ! 2; args = drop 5 ins in
      if begins ''pith_struct_weak_'' callee then Inl ''a weak reference''
      else if is_emitted_release callee then
        (case (if args = [] then Inr ks else take_count (hd args) callee ks) of Inl e \<Rightarrow> Inl e
         | Inr ks \<Rightarrow> Inr (set_result (ins ! 1) Plain ks))
      else if callee \<in> set RETAINS then
        (case reg_val (snd ks) (hd args) of
           Unknown \<Rightarrow> Inl ''a value of unknown kind meets a count''
         | Obj o' \<Rightarrow> Inr (set_result (ins ! 1) Plain (fst ks, set_count o' (count (snd ks) o' + 1) (snd ks)))
         | _ \<Rightarrow> Inr (set_result (ins ! 1) Plain ks))
      else case rt callee of
        Some row \<Rightarrow>
          (case take_all (zip args (row_args row)) callee (after_dtor ins ks) of Inl e \<Rightarrow> Inl e
           | Inr ks \<Rightarrow> Inr (keep_shell ins (call_value ins (result_count (ins ! 3) (row_result row)) ks)))
      | None \<Rightarrow>
          if callee \<in> set (the_user_funcs c)
          then Inr (keep_shell ins (call_value ins (if is_counted (ins ! 3) then Some 1 else None) (after_dtor ins ks)))
          else Inl ''a call the checker has no summary for'')"
proof -
  have p: "\<not> begins ''pith_tls_'' (ins ! 2)" "\<not> has_part ''__tuple_stack_cascade_'' (ins ! 2)" "ins ! 3 \<noteq> ''unknown''"
    using assms unfolding runs_plainly_def Let_def by (auto simp: PLAIN_OPS_def)
  have "tls_call c ins ks = None"
    by (cases ks) (simp add: tls_call_def not_a_getter [OF p(1)])
  then show ?thesis
    unfolding call_step_def row_value_eq [OF p(3)] user_value_eq [OF p(3)] after_dtor_def Let_def
    using p(2) by simp
qed

lemma call_grows:
  assumes r: "runs_plainly ins" "hd ins = ''call''"
    and s: "call_step rt c ins ks = Inr ks'" and p: "problems (fst ks') = []"
  shows "problems (fst ks) = []"
proof -
  note s = s [unfolded call_step_eq [OF r] Let_def]
  obtain k st where ks: "ks = (k, st)" by (cases ks)
  consider "is_emitted_release (ins ! 2)" | "\<not> is_emitted_release (ins ! 2)" "ins ! 2 \<in> set RETAINS"
    | "\<not> is_emitted_release (ins ! 2)" "ins ! 2 \<notin> set RETAINS" by blast
  then show ?thesis
  proof cases
    case 1
    then show ?thesis using s p ks take_count_grows
      by (auto simp: set_result_def split: if_splits sum.splits)
  next
    case 2
    then show ?thesis using s p by (auto simp: set_result_def split: if_splits val.splits)
  next
    case 3
    show ?thesis
    proof (cases "rt (ins ! 2)")
      case (Some row)
      then obtain ks2 where t: "take_all (zip (drop 5 ins) (row_args row)) (ins ! 2) (after_dtor ins ks) = Inr ks2"
        and k: "ks' = keep_shell ins (call_value ins (result_count (ins ! 3) (row_result row)) ks2)"
        using s 3 by (auto split: if_splits sum.splits)
      have "problems (fst ks2) = []" using p k call_value_grows by blast
      then show ?thesis using take_all_grows [OF t] after_dtor_alike(1) [of ins ks] by simp
    next
      case None
      then have k: "ks' = keep_shell ins (call_value ins (if is_counted (ins ! 3) then Some 1 else None) (after_dtor ins ks))"
        using s 3 by (auto split: if_splits)
      show ?thesis using call_value_grows p after_dtor_alike(1) [of ins ks] unfolding k by metis
    qed
  qed
qed

lemma follows_call:
  assumes r: "runs_plainly ins" "hd ins = ''call''"
    and f: "follows c used ks m" and u: "ins ! 1 \<notin> used"
    and s: "call_step rt c ins ks = Inr ks'" and p: "problems (fst ks') = []"
  shows "follows c (insert (ins ! 1) used) ks' (act_call rt c ins res m)"
proof -
  note s = s [unfolded call_step_eq [OF r] Let_def]
  obtain k st where ks: "ks = (k, st)" by (cases ks)
  have l: "2 \<le> length ins" and args: "ins ! 2 \<in> set RETAINS \<or> is_emitted_release (ins ! 2) \<Longrightarrow> drop 5 ins \<noteq> []"
    using r unfolding runs_plainly_def Let_def by (auto simp: PLAIN_OPS_def)
  have up: "follows c (insert (ins ! 1) used) ks' m'" if "follows c used ks' m'" for ks' m'
    using that by (auto simp: follows_def intro: tidy_mono)
  consider "is_emitted_release (ins ! 2)" | "\<not> is_emitted_release (ins ! 2)" "ins ! 2 \<in> set RETAINS"
    | "\<not> is_emitted_release (ins ! 2)" "ins ! 2 \<notin> set RETAINS" by blast
  then show ?thesis
  proof cases
    case 1
    then obtain k2 st2 where t: "take_count (hd (drop 5 ins)) (ins ! 2) (k, st) = Inr (k2, st2)"
      and k: "ks' = set_result (ins ! 1) Plain (k2, st2)"
      using s args ks by (auto split: if_splits sum.splits)
    have "problems k2 = []" using p k by (simp add: set_result_def)
    from up [OF follows_plain [OF follows_take_count [OF f [unfolded ks] t this], of "ins ! 1"]]
    show ?thesis unfolding k act_call_def Let_def using 1 args by simp
  next
    case 2
    let ?a = "hd (drop 5 ins)"
    have e: "act_call rt c ins res m = set_m (ins ! 1) None (change 1 (m_regs m ?a) m)"
      using 2 by (simp add: act_call_def Let_def)
    from f [unfolded ks] show ?thesis
    proof (rule followsE)
      fix g assume pk: "problems k = []" and y: "tidy used st" and t: "told c g st m"
      note d = toldD(1) [OF t, of ?a]
      show ?thesis
      proof (cases "reg_val st ?a")
        case (Obj o')
        have "tidy used (set_count o' (count st o' + 1) st)"
          using tidyD(3,4) [OF y] tidyD(6) [OF y Obj] by (intro set_count_tidy [OF y]) (auto intro: add_nonneg_nonneg)
        moreover have "told c g (set_count o' (count st o' + 1) st) (change 1 (m_regs m ?a) m)"
          using d by (intro set_count_told [OF t]) (simp_all add: Obj denotes_plain)
        ultimately have "follows c used (k, set_count o' (count st o' + 1) st) (change 1 (m_regs m ?a) m)"
          using pk by (auto intro: followsI)
        from up [OF follows_plain [OF this, of "ins ! 1"]] show ?thesis
          unfolding e using s 2 ks Obj by (auto split: if_splits)
      qed (use s 2 ks d e up [OF follows_plain [OF f [unfolded ks], of "ins ! 1"]] in
          \<open>auto simp: denotes_plain split: if_splits\<close>)
    qed
  next
    case 3
    show ?thesis
    proof (cases "rt (ins ! 2)")
      case (Some row)
      then obtain ks2 where t: "take_all (zip (drop 5 ins) (row_args row)) (ins ! 2) (after_dtor ins ks) = Inr ks2"
        and k: "ks' = keep_shell ins (call_value ins (result_count (ins ! 3) (row_result row)) ks2)"
        using s 3 by (auto split: if_splits sum.splits)
      have "problems (fst ks2) = []" using p k call_value_grows by blast
      from follows_value [OF follows_take_all [OF follows_dtor [OF f] t this] result_count_pos l u]
      show ?thesis unfolding k act_call_def Let_def using 3 Some by simp
    next
      case None
      then have k: "ks' = keep_shell ins (call_value ins (if is_counted (ins ! 3) then Some 1 else None) (after_dtor ins ks))"
        using s 3 by (auto split: if_splits)
      have pos: "(if is_counted (ins ! 3) then Some (1 :: int) else None) = Some n \<Longrightarrow> 0 \<le> n" for n
        by (simp split: if_splits)
      from follows_value [OF follows_dtor [OF f] pos l u]
      show ?thesis unfolding k act_call_def Let_def using 3 None by simp
    qed
  qed
qed

text \<open>What \<open>step\<close> does to the instructions the machine runs, by their kind.\<close>

lemma step_quiet:
  assumes "hd ins \<in> {''param'', ''runtime_abi''}"
  shows "step rt c ins ks = Inr (False, ks)"
proof -
  have "hd ins \<in> {''param'', ''label'', ''jmp'', ''brif'', ''runtime_abi''}" using assms by auto
  then show ?thesis unfolding step_def Let_def by (simp only: if_True)
qed

lemma step_plain_op:
  assumes "hd ins \<in> set PLAIN_OPS" and "step rt c ins (k, st) = Inr (b, ks')"
  shows "\<not> b \<and> (if 1 < length ins then \<exists>v st'. (v = Plain \<or> v = Null) \<and> alike st st' \<and> ks' = set_result (ins ! 1) v (k, st')
     else ks' = (k, st))"
proof -
  have a: "alike st (null_test ins st)" "alike st (flag_test ins k st)" "alike st st"
    by (auto simp: alike_def null_test_def flag_test_def Let_def split: option.splits val.splits)
  have n: "hd ins \<notin> {''param'', ''label'', ''jmp'', ''brif'', ''runtime_abi''}"
    using assms(1) by (auto simp: PLAIN_OPS_def)
  show ?thesis
    using assms(2) a n assms(1) unfolding step_def Let_def by (auto split: if_splits)
qed

lemma step_load:
  assumes "hd ins = ''load''" "3 \<le> length ins"
  shows "step rt c ins (k, st) = (case load_val c (ins ! 2) st of Inl e \<Rightarrow> Inl e
    | Inr v \<Rightarrow> Inr (False, set_result (ins ! 1) v (k, st)))"
  using assms by (simp add: step_def Let_def PLAIN_OPS_def)

lemma step_store:
  assumes "hd ins = ''store''" "3 \<le> length ins"
  shows "step rt c ins (k, st) = Inr (False, k, store_slot c (ins ! 1) (reg_val st (ins ! 2)) st)"
  using assms by (simp add: step_def Let_def PLAIN_OPS_def)

lemma step_concat:
  assumes "hd ins \<in> {''concat'', ''concatn'', ''appendn''}" "2 \<le> length ins"
  shows "step rt c ins ks = Inr (False, made_step ins 1 ks)"
proof -
  from assms(1) consider "hd ins = ''concat''" | "hd ins = ''concatn''" | "hd ins = ''appendn''" by blast
  then show ?thesis using assms(2) by cases (simp_all add: step_def Let_def PLAIN_OPS_def)
qed

lemma step_call:
  assumes "hd ins = ''call''" "5 \<le> length ins"
  shows "step rt c ins ks = (case call_step rt c ins ks of Inl e \<Rightarrow> Inl e | Inr ks \<Rightarrow> Inr (False, ks))"
  using assms by (simp add: step_def Let_def PLAIN_OPS_def)

lemma step_ret:
  assumes "hd ins = ''ret''"
  shows "step rt c ins (k, st) = Inr (True, ret_step c ins (k, st), st)"
  using assms by (simp add: step_def Let_def PLAIN_OPS_def)

lemma made_step_grows: "problems (fst (made_step ins n ks)) = [] \<Longrightarrow> problems (fst ks) = []"
  by (cases ks) (auto simp: made_step_def made_def new_obj_def Let_def found_def set_result_def split: if_splits)

lemma plainly_cases:
  assumes "runs_plainly ins"
  obtains (quiet) "hd ins \<in> {''param'', ''runtime_abi''}"
    | (op) "hd ins \<in> set PLAIN_OPS"
    | (load) "hd ins = ''load''" "3 \<le> length ins"
    | (store) "hd ins = ''store''" "3 \<le> length ins"
    | (concat) "hd ins \<in> {''concat'', ''concatn'', ''appendn''}" "2 \<le> length ins"
    | (call) "hd ins = ''call''" "5 \<le> length ins"
  using assms unfolding runs_plainly_def Let_def by blast

lemma step_grows:
  assumes "runs_plainly ins" and "step rt c ins ks = Inr (b, ks')" and "problems (fst ks') = []"
  shows "\<not> b \<and> problems (fst ks) = []"
proof -
  obtain k st where ks: "ks = (k, st)" by (cases ks)
  from assms(1) show ?thesis
  proof (cases rule: plainly_cases)
    case op
    from step_plain_op [OF op assms(2) [unfolded ks]] show ?thesis
      using assms(3) ks by (auto simp: set_result_def split: if_splits)
  next
    case call
    then show ?thesis using assms call_grows [OF assms(1) call(1)] by (auto simp: step_call split: sum.splits)
  next
    case concat
    then have "ks' = made_step ins 1 ks" "\<not> b" using assms(2) by (simp_all add: step_concat)
    then show ?thesis using made_step_grows assms(3) by metis
  qed (use assms ks in \<open>auto simp: step_quiet step_load step_store set_result_def split: sum.splits\<close>)
qed

lemma known_load:
  assumes y: "tidy used st" and t: "told c g st m" and v: "load_val c s st = Inr v"
  shows "denotes g v (m_slots m s)" and "v = Obj o' \<Longrightarrow> o' \<in> named st"
proof -
  show "denotes g v (m_slots m s)"
    using v toldD(2,3) [OF t, of s]
    by (auto simp: load_val_def known_def denotes_plain split: if_splits option.splits)
  show "v = Obj o' \<Longrightarrow> o' \<in> named st"
    using v tidyD(5) [OF y, of s o'] by (auto simp: load_val_def split: if_splits option.splits)
qed

lemma follows_store:
  assumes f: "follows c used (k, st) m"
    and ok: "class_of c s = ScalarSlot \<Longrightarrow> m_regs m r = None"
  shows "follows c used (k, store_slot c s (reg_val st r) st) (m\<lparr>m_slots := (m_slots m)(s := m_regs m r)\<rparr>)"
  using f
proof (rule followsE)
  fix g assume pk: "problems k = []" and y: "tidy used st" and t: "told c g st m"
  note d = toldD(1) [OF t, of r]
  show ?thesis
  proof (cases "class_of c s = ScalarSlot")
    case True
    have "m\<lparr>m_slots := (m_slots m)(s := None)\<rparr> = m" using toldD(3) [OF t True] by (simp add: fun_upd_idem)
    then show ?thesis using True ok f by (simp add: store_slot_def)
  next
    case False
    define v where "v = (if class_of c s = Holder \<and> reg_val st r = Plain then Null else reg_val st r)"
    have e: "store_slot c s (reg_val st r) st = st\<lparr>slots := put s v (slots st)\<rparr>"
      using False by (simp add: store_slot_def v_def split: slot_class.splits)
    have "denotes g v (m_regs m r)" using d by (auto simp: v_def denotes_plain)
    moreover have "v = Obj o' \<Longrightarrow> o' \<in> named st" for o'
      using tidyD(6) [OF y, of r o'] by (simp add: v_def split: if_splits)
    ultimately show ?thesis
      unfolding e using pk put_slot_tidy [OF y] put_slot_told [OF t _ False] by (intro followsI) auto
  qed
qed

text \<open>A step of the checker that finds no problem tells what the machine does.\<close>

lemma follows_step:
  assumes r: "runs_plainly ins" and f: "follows c used ks m"
    and u: "makes ins \<Longrightarrow> ins ! 1 \<notin> used"
    and s: "step rt c ins ks = Inr (b, ks')" and p: "problems (fst ks') = []"
    and a: "act rt c (ins, res) m = Some m'"
  shows "follows c (if makes ins then insert (ins ! 1) used else used) ks' m'"
proof -
  obtain k st where ks: "ks = (k, st)" by (cases ks)
  from f [unfolded ks] obtain g where pk: "problems k = []" and y: "tidy used st" and t: "told c g st m"
    by (rule followsE)
  from r show ?thesis
  proof (cases rule: plainly_cases)
    case quiet
    then show ?thesis using s a f by (auto simp: step_quiet act_def makes_def PLAIN_OPS_def)
  next
    case op
    have nm: "\<not> makes ins" using op by (auto simp: makes_def PLAIN_OPS_def)
    note e = step_plain_op [OF op s [unfolded ks]]
    show ?thesis
    proof (cases "1 < length ins")
      case True
      then obtain v st' where v: "v = Plain \<or> v = Null" "alike st st'" "ks' = set_result (ins ! 1) v (k, st')"
        using e by auto
      have "follows c used (k, set_reg (ins ! 1) v st') (set_m (ins ! 1) None m)"
        using v(1) by (intro followsI [OF pk, where g = g] set_reg_tidy [OF alike_tidy [OF v(2) y]]
            set_reg_told [OF alike_told [OF v(2) t]]) (auto simp: denotes_plain)
      then show ?thesis using True a op nm v(3) by (simp add: act_def set_result_def)
    qed (use e a op nm f ks in \<open>simp add: act_def\<close>)
  next
    case load
    then obtain v where v: "load_val c (ins ! 2) st = Inr v" "ks' = set_result (ins ! 1) v (k, st)"
      using s ks by (auto simp: step_load split: sum.splits)
    have "follows c used ks' (set_m (ins ! 1) (m_slots m (ins ! 2)) m)"
      unfolding v(2) set_result_def
      using pk set_reg_tidy [OF y known_load(2) [OF y t v(1)]] set_reg_told [OF t known_load(1) [OF y t v(1)]]
      by (auto intro: followsI)
    then show ?thesis using load a by (simp add: act_def makes_def PLAIN_OPS_def)
  next
    case store
    then have "ks' = (k, store_slot c (ins ! 1) (reg_val st (ins ! 2)) st)"
      using s ks by (simp add: step_store)
    moreover have "m' = m\<lparr>m_slots := (m_slots m)(ins ! 1 := m_regs m (ins ! 2))\<rparr>"
      "class_of c (ins ! 1) = ScalarSlot \<Longrightarrow> m_regs m (ins ! 2) = None"
      using store a by (auto simp: act_def PLAIN_OPS_def split: if_splits)
    ultimately show ?thesis
      using follows_store [OF f [unfolded ks]] store by (simp add: makes_def)
  next
    case concat
    have mk: "makes ins" using concat by (auto simp: makes_def)
    have m': "m' = act_result ins (Some 1) res m" using concat a by (auto simp: act_def PLAIN_OPS_def)
    from follows_made [OF f [unfolded ks] _ concat(2) u [OF mk], of 1 res]
    obtain k' st' where m: "made ins 1 (k, st) = (Obj (Reg (ins ! 1)), k', st')"
      and g: "\<And>st2. alike st' st2 \<Longrightarrow> follows c (insert (ins ! 1) used)
        (set_result (ins ! 1) (Obj (Reg (ins ! 1))) (k', st2)) (set_m (ins ! 1) res (change 1 res m))"
      by (metis zero_le_one)
    have "ks' = set_result (ins ! 1) (Obj (Reg (ins ! 1))) (k', st')"
      using s ks concat m by (simp add: step_concat made_step_def)
    then show ?thesis using g [of st'] mk m' by (simp add: alike_def act_result_def)
  next
    case call
    have mk: "makes ins" using call by (auto simp: makes_def)
    have m': "m' = act_call rt c ins res m" using call a by (auto simp: act_def PLAIN_OPS_def)
    have "call_step rt c ins ks = Inr ks'" using s call by (auto simp: step_call split: sum.splits)
    from follows_call [OF r call(1) f u [OF mk] this p] show ?thesis using mk m' by simp
  qed
qed

end
