(* ===== verification/CountBalance.thy ===== *)
theory CountBalance
  imports CountPaths
begin

text \<open>
  The verdict of \<open>count_check.rs\<close> on a function of one block: what it finds at the entry and at the
  return, and that a function with no problem gives up exactly the counts it does not hand on.
\<close>

subsection \<open>A block to its return\<close>

lemma fold_grows:
  assumes "\<And>x k. problems (f x k) = [] \<Longrightarrow> problems k = []"
  shows "problems (fold f xs k) = [] \<Longrightarrow> problems k = []"
  by (induction xs arbitrary: k) (auto dest: assms)

lemma ret_step_grows: "problems (ret_step c ins (k, st)) = [] \<Longrightarrow> problems k = []"
  unfolding ret_step_def Let_def prod.case
  by (drule fold_grows [rotated]) (simp_all add: found_def split: if_splits)

lemma run_block_grows:
  assumes "\<forall>i \<in> set is. runs_plainly i" and "hd ret = ''ret''"
    and "run_block rt c (is @ [ret]) ks = Inr (b, ks')" and "problems (fst ks') = []"
  shows "problems (fst ks) = []"
  using assms(1,3)
proof (induction "is" arbitrary: ks)
  case Nil
  obtain k st where "ks = (k, st)" by (cases ks)
  then show ?case using Nil assms(2,4) ret_step_grows by (auto simp: step_ret)
next
  case (Cons i "is")
  then obtain b2 ks2 where s: "step rt c i ks = Inr (b2, ks2)" by (auto split: sum.splits)
  show ?case
  proof (cases b2)
    case True
    then have "ks2 = ks'" using Cons.prems(2) s by simp
    then show ?thesis using step_grows [OF _ s] Cons.prems(1) assms(4) by simp
  next
    case False
    then have "run_block rt c (is @ [ret]) ks2 = Inr (b, ks')" using Cons.prems(2) s by simp
    then have "problems (fst ks2) = []" using Cons.IH Cons.prems(1) by simp
    then show ?thesis using step_grows [OF _ s] Cons.prems(1) by simp
  qed
qed

lemma follows_pos: "follows c used ks m \<Longrightarrow> 0 \<le> ledger m n"
  by (cases ks) (auto elim!: followsE simp: toldD(4) account_def tidyD(3) intro!: sum_nonneg)

lemma follows_block:
  assumes "\<forall>i \<in> set is. runs_plainly i" and "distinct (map (\<lambda>i. i ! 1) (filter makes is))"
    and "\<And>i. i \<in> set is \<Longrightarrow> makes i \<Longrightarrow> i ! 1 \<notin> used"
    and ret: "hd ret = ''ret''" and "length rs = length is"
    and "follows c used ks m" and "run_block rt c (is @ [ret]) ks = Inr (b, ks')"
    and p: "problems (fst ks') = []"
  shows "(\<forall>j m'. acts rt c (take j (zip is rs)) m = Some m' \<longrightarrow> (\<forall>n. 0 \<le> ledger m' n)) \<and>
    (\<forall>m'. acts rt c (zip is rs) m = Some m' \<longrightarrow>
      (\<exists>used k st. follows c used (k, st) m' \<and> b \<and> ks' = (ret_step c ret (k, st), st)))"
  using assms(1-3,5-7)
proof (induction "is" arbitrary: used rs ks m)
  case Nil
  then show ?case using follows_pos [OF Nil(5)]
    by (cases ks) (auto simp: step_ret [OF ret])
next
  case (Cons i "is")
  obtain r rs' where rs: "rs = r # rs'" using Cons.prems(4) by (cases rs) auto
  have i: "runs_plainly i" using Cons.prems(1) by simp
  obtain b2 ks2 where s: "step rt c i ks = Inr (b2, ks2)" "run_block rt c (is @ [ret]) ks2 = Inr (b, ks')"
  proof -
    obtain b2 ks2 where s: "step rt c i ks = Inr (b2, ks2)" using Cons.prems(6) by (auto split: sum.splits)
    moreover have "\<not> b2"
      using step_grows [OF i s] Cons.prems(6) p s by (cases b2) auto
    ultimately show thesis using Cons.prems(6) that by auto
  qed
  have p2: "problems (fst ks2) = []"
    using run_block_grows [OF _ ret s(2) p] Cons.prems(1) by simp
  have ih: "(\<forall>j m'. acts rt c (take j (zip is rs')) m2 = Some m' \<longrightarrow> (\<forall>n. 0 \<le> ledger m' n)) \<and>
    (\<forall>m'. acts rt c (zip is rs') m2 = Some m' \<longrightarrow>
      (\<exists>used k st. follows c used (k, st) m' \<and> b \<and> ks' = (ret_step c ret (k, st), st)))"
    if m2: "act rt c (i, r) m = Some m2" for m2
  proof -
    have "makes i \<Longrightarrow> i ! 1 \<notin> used" using Cons.prems(3) by simp
    from follows_step [OF i Cons.prems(5) this s(1) p2 m2]
    have f: "follows c (if makes i then insert (i ! 1) used else used) ks2 m2" .
    show ?thesis
    proof (rule Cons.IH [OF _ _ _ _ f s(2)])
      show "i' ! 1 \<notin> (if makes i then insert (i ! 1) used else used)" if "i' \<in> set is" "makes i'" for i'
        using that Cons.prems(2,3) by (auto simp: image_iff) metis
    qed (use Cons.prems rs in \<open>auto split: if_splits\<close>)
  qed
  show ?case
  proof (intro conjI allI impI)
    fix j m' n assume a: "acts rt c (take j (zip (i # is) rs)) m = Some m'"
    show "0 \<le> ledger m' n"
    proof (cases j)
      case 0
      then show ?thesis using a follows_pos [OF Cons.prems(5)] by simp
    next
      case (Suc j)
      then show ?thesis using a ih rs by (auto split: option.splits)
    qed
  next
    fix m' assume "acts rt c (zip (i # is) rs) m = Some m'"
    then show "\<exists>used k st. follows c used (k, st) m' \<and> b \<and> ks' = (ret_step c ret (k, st), st)"
      using ih rs by (auto split: option.splits)
  qed
qed

subsection \<open>The return\<close>

definition handed_on :: "checked_func \<Rightarrow> instr \<Rightarrow> machine \<Rightarrow> nat \<Rightarrow> int" where
  "handed_on c ret m n =
     int (card {s. global_slot c s \<and> m_slots m s = Some n}) +
     (if 1 < length ret \<and> returns_count c \<and> m_regs m (ret ! 1) = Some n then 1 else 0)"

definition expected :: "checked_func \<Rightarrow> count_state \<Rightarrow> oname \<Rightarrow> int" where
  "expected c st o' = int (length (filter (\<lambda>x. snd x = Obj o' \<and> global_slot c (fst x)) (slots st)))"

lemma quiet_fold:
  assumes "problems (fold (\<lambda>on k. if e (fst on) < snd on then found (p on) k
      else if snd on < e (fst on) then found (q on) k else k) xs k) = []"
    and "(o', n :: int) \<in> set xs"
  shows "n = e o'"
  using assms
proof (induction xs arbitrary: k)
  case (Cons x xs)
  let ?f = "\<lambda>on k. if e (fst on) < snd on then found (p on) k else if snd on < e (fst on) then found (q on) k else k"
  have grows: "problems (fold ?f ys k) = [] \<Longrightarrow> problems k = []" for ys k
    by (rule fold_grows) (simp_all add: found_def split: if_splits)
  show ?case
  proof (cases "x = (o', n)")
    case True
    from Cons.prems(1) have "problems (fold ?f xs (?f x k)) = []" unfolding fold_Cons comp_def .
    from grows [OF this] show ?thesis unfolding True by (simp add: found_def split: if_splits)
  next
    case False
    then show ?thesis using Cons by simp
  qed
qed simp

lemma expected_card:
  assumes "in_order (slots st)"
  shows "expected c st o' = int (card {s. global_slot c s \<and> map_of (slots st) s = Some (Obj o')})"
proof -
  let ?f = "filter (\<lambda>x. snd x = Obj o' \<and> global_slot c (fst x)) (slots st)"
  have d: "distinct (map fst (slots st))" by (rule in_order_distinct [OF assms])
  then have "distinct (map fst ?f)" by (rule distinct_map_filter)
  then have "length ?f = card (set (map fst ?f))" by (simp only: distinct_card length_map)
  also have "set (map fst ?f) = {s. global_slot c s \<and> map_of (slots st) s = Some (Obj o')}"
    unfolding map_of_eq_Some_iff [OF d] set_map set_filter by (auto intro: rev_image_eqI)
  finally show ?thesis by (simp add: expected_def)
qed

lemma ret_balances:
  assumes f: "follows c used (k, st) m" and p: "problems (ret_step c ret (k, st)) = []"
  shows "ledger m n = handed_on c ret m n"
  using f
proof (rule followsE)
  fix g assume y: "tidy used st" and t: "told c g st m"
  let ?ret = "1 < length ret \<and> returns_count c"
  define st2 where "st2 = (if ?ret
    then (case reg_val st (ret ! 1) of Obj o' \<Rightarrow> set_count o' (count st o' - 1) st | _ \<Rightarrow> st) else st)"
  have st2: "slots st2 = slots st" "named st2 = named st" "in_order (counts st2)"
    using tidyD(6) [OF y, of "ret ! 1"] tidyD(1) [OF y]
    by (auto simp: st2_def set_count_def dom_put split: val.splits)
  have acc: "account g st2 n = ledger m n - (if ?ret \<and> m_regs m (ret ! 1) = Some n then 1 else 0)"
    using toldD(1) [OF t, of "ret ! 1"] toldD(4) [OF t, of n]
    by (auto simp: st2_def account_set_count denotes_plain split: val.splits)
  have e: "count st2 o' = expected c st o'" if "o' \<in> named st" for o'
  proof -
    have "o' \<in> named st2" using that st2(2) by simp
    then obtain n where n: "(o', n) \<in> set (counts st2)" by auto
    then have "count st2 o' = n"
      using in_order_distinct [OF st2(3)] by (simp add: count_def)
    moreover have "n = expected c st2 o'"
      using p unfolding ret_step_def Let_def prod.case st2_def [symmetric] expected_def [symmetric]
      by (rule quiet_fold [OF _ n])
    ultimately show ?thesis by (simp add: expected_def st2(1))
  qed
  let ?N = "{o' \<in> named st. g o' = Some n}"
  let ?S = "\<lambda>o'. {s. global_slot c s \<and> map_of (slots st) s = Some (Obj o')}"
  have "finite (dom (map_of (slots st)))" by (rule finite_dom_map_of)
  then have fin: "finite (?S o')" for o' by (rule rev_finite_subset) auto
  have "account g st2 n = (\<Sum>o' \<in> named st. if g o' = Some n then expected c st o' else 0)"
    unfolding account_def st2(2) by (rule sum.cong) (simp_all add: e)
  also have "\<dots> = (\<Sum>o' \<in> ?N. int (card (?S o')))"
    unfolding expected_card [OF tidyD(2) [OF y]] by (rule sum.inter_filter [symmetric]) simp
  also have "\<dots> = int (card (\<Union>o' \<in> ?N. ?S o'))"
    using fin by (subst card_UN_disjoint) auto
  also have "(\<Union>o' \<in> ?N. ?S o') = {s. global_slot c s \<and> m_slots m s = Some n}"
  proof -
    have "(\<exists>o' \<in> named st. g o' = Some n \<and> map_of (slots st) s = Some (Obj o')) \<longleftrightarrow> m_slots m s = Some n" for s
      using toldD(2) [OF t, of s] tidyD(5) [OF y, of s]
      by (auto simp: known_def denotes_def split: option.splits val.splits)
    then show ?thesis by auto
  qed
  finally show ?thesis using acc by (simp add: handed_on_def)
qed

end
