(* ===== verification/CountEntry.thy ===== *)
theory CountEntry
  imports CountBalance
begin

text \<open>
  What a function of \<open>count_check.rs\<close> starts with: its parameters as borrowed objects and one count
  for each counted global it names. \<open>run\<close> hands the entry over as a block boundary does.
\<close>

subsection \<open>The entry\<close>

definition borrowed_params :: "checked_func \<Rightarrow> token set" where
  "borrowed_params c = {p \<in> set (params (the_func c)). class_of c p \<noteq> ScalarSlot}"

definition named_globals :: "checked_func \<Rightarrow> token set" where
  "named_globals c =
     {g. (\<exists>kd. map_of (the_globals c) g = Some kd \<and> is_counted kd) \<and> g \<in> set (named_slots (body (the_func c)))}"

definition entry_like :: "token set \<Rightarrow> token set \<Rightarrow> count_state \<Rightarrow> bool" where
  "entry_like P G st \<longleftrightarrow>
     in_order (counts st) \<and> in_order (slots st) \<and>
     (\<forall>s. map_of (slots st) s =
        (if s \<in> G then Some (Obj (Global s)) else if s \<in> P then Some (Obj (Param s)) else None)) \<and>
     (\<forall>o'. map_of (counts st) o' =
        (case o' of Param s \<Rightarrow> if s \<in> P then Some 0 else None
         | Global s \<Rightarrow> if s \<in> G then Some 1 else None | _ \<Rightarrow> None)) \<and>
     regs st = [] \<and> field_of st = [] \<and> emptied st = [] \<and> shells st = [] \<and> owned_fields st = []"

lemma entry_params:
  assumes "\<forall>p \<in> set ps. class_of c p \<noteq> Carrier" and "entry_like P {} st"
  shows "entry_like (P \<union> {p \<in> set ps. class_of c p \<noteq> ScalarSlot}) {} (fold (param_state c) ps st)"
  using assms
proof (induction ps arbitrary: P st)
  case (Cons p ps)
  let ?P = "if class_of c p \<noteq> ScalarSlot then insert p P else P"
  have "entry_like ?P {} (param_state c p st)"
    using Cons.prems
    by (auto simp: param_state_def entry_like_def set_count_def split: slot_class.splits oname.splits)
  moreover have "?P \<union> {p \<in> set ps. class_of c p \<noteq> ScalarSlot} = P \<union> {p' \<in> set (p # ps). class_of c p' \<noteq> ScalarSlot}"
    by auto
  ultimately show ?case using Cons.IH [of ?P] Cons.prems(1) by simp
qed simp

lemma entry_globals:
  assumes "entry_like P G st"
  shows "entry_like P (G \<union> {g \<in> set gs. g \<in> named_globals c}) (fold (global_state c) gs st)"
  using assms
proof (induction gs arbitrary: G st)
  case (Cons g gs)
  let ?G = "if g \<in> named_globals c then insert g G else G"
  have "entry_like P ?G (global_state c g st)"
    using Cons.prems
    by (auto simp: global_state_def hold_one_def named_globals_def entry_like_def set_count_def
        split: option.splits oname.splits)
  moreover have "?G \<union> {g \<in> set gs. g \<in> named_globals c} = G \<union> {g' \<in> set (g # gs). g' \<in> named_globals c}"
    by auto
  ultimately show ?case using Cons.IH by fastforce
qed simp

lemma no_tls:
  assumes "\<forall>i \<in> set is. runs_plainly i \<or> hd i = ''ret''"
  shows "fold (tls_state c) is st = st"
  using assms
proof (induction "is" arbitrary: st)
  case (Cons i "is")
  have "hd i \<noteq> ''call'' \<or> \<not> begins ''pith_tls_'' (i ! 2)"
    using Cons.prems unfolding runs_plainly_def Let_def by (auto simp: PLAIN_OPS_def)
  then have "tls_state c i st = st" by (auto simp: tls_state_def counted_tls_slot_def)
  then show ?case using Cons by simp
qed simp

lemma entry_state_like:
  assumes "\<forall>i \<in> set (body (the_func c)). runs_plainly i \<or> hd i = ''ret''"
    and "\<forall>p \<in> set (params (the_func c)). class_of c p \<noteq> Carrier"
  shows "entry_like (borrowed_params c) (named_globals c) (entry_state c)"
proof -
  have "entry_like {} {} empty_state"
    by (simp add: entry_like_def empty_state_def in_order_def split: oname.splits)
  from entry_globals [OF entry_params [OF assms(2) this], of "remdups (map fst (the_globals c))"]
  show ?thesis
    unfolding entry_state_def no_tls [OF assms(1)] borrowed_params_def
    by (simp add: named_globals_def) (smt (verit, del_insts) Collect_cong image_eqI fst_conv map_of_SomeD)
qed

subsection \<open>Over the boundary\<close>

lemma map_of_put_all:
  assumes "distinct (map f xs)"
  shows "map_of (fold (\<lambda>x. put (f x) (h x)) xs m) = map_of m ++ map_of (map (\<lambda>x. (f x, h x)) xs)"
  using assms
proof (induction xs arbitrary: m)
  case (Cons x xs)
  have "f x \<notin> dom (map_of (map (\<lambda>x. (f x, h x)) xs))"
    using Cons.prems by (auto simp: dom_map_of_conv_image_fst)
  then show ?case using Cons by (auto simp: fun_eq_iff map_add_def domIff split: option.splits)
qed simp

lemma in_order_put_all: "in_order m \<Longrightarrow> in_order (fold (\<lambda>x. put (f x) (h x)) xs m)"
  by (induction xs arbitrary: m) simp_all

lemma one_at_most: "set xs \<subseteq> {x} \<Longrightarrow> distinct xs \<Longrightarrow> xs = [] \<or> xs = [x]"
  by (cases xs; cases "tl xs") auto

lemma entry_holders:
  assumes "entry_like P G st" and "map_of (counts st) o' = Some n"
  shows "(\<exists>s. holders st o' = [s] \<and> map_of (slots st) s = Some (Obj o') \<and> n = (if s \<in> G then 1 else 0)) \<or>
    holders st o' = [] \<and> n = 0"
proof -
  have d: "distinct (map fst (slots st))" using assms(1) by (simp add: entry_like_def in_order_distinct)
  obtain s where o': "o' = Param s \<or> o' = Global s" and s: "o' = Global s \<Longrightarrow> s \<in> G \<and> n = 1" "o' = Param s \<Longrightarrow> n = 0"
    using assms by (cases o') (auto simp: entry_like_def split: if_splits)
  have at: "fst x = s" if "x \<in> set (slots st)" "snd x = Obj o'" for x
  proof -
    have "map_of (slots st) (fst x) = Some (Obj o')" using d that by (simp add: prod_eq_iff flip: that(2))
    then show ?thesis using assms(1) o' by (auto simp: entry_like_def split: if_splits)
  qed
  let ?F = "filter (\<lambda>x. snd x = Obj o') (slots st)"
  have "set (map fst ?F) \<subseteq> {s}" using at by auto
  moreover have "distinct (map fst ?F)" using d by (rule distinct_map_filter)
  ultimately have h: "holders st o' = [] \<or> holders st o' = [s]"
    unfolding holders_def by (rule one_at_most)
  have i: "holders st o' = [s] \<longleftrightarrow> map_of (slots st) s = Some (Obj o')"
  proof -
    have "holders st o' \<noteq> [] \<longleftrightarrow> (s, Obj o') \<in> set (slots st)"
      using at by (force simp: holders_def filter_empty_conv)
    then show ?thesis using h map_of_eq_Some_iff [OF d, of s "Obj o'"] by auto
  qed
  show ?thesis
    using h i s o' assms(1) by (auto simp: entry_like_def split: if_splits)
qed

definition canon_kept :: "count_state \<Rightarrow> oname \<times> int \<Rightarrow> (token list \<times> int \<times> bool) list \<Rightarrow> (token list \<times> int \<times> bool) list" where
  "canon_kept st on m =
     (if holders st (fst on) = [] then m
      else put (holders st (fst on)) (snd on, fst on \<in> set (maybe_null st)) m)"

lemma canon_entry_objects:
  assumes "\<And>o' n. (o', n) \<in> set xs \<Longrightarrow> (\<exists>s. holders st o' = [s]) \<or> holders st o' = [] \<and> n = 0"
  shows "\<exists>key'. fold (canon_object c l st) xs (k, out, key) =
    (k, out\<lparr>c_objs := fold (canon_kept st) xs (c_objs out)\<rparr>, key')"
  using assms
proof (induction xs arbitrary: out key)
  case (Cons x xs)
  obtain o' n where x: "x = (o', n)" by (cases x)
  have "(\<exists>s. holders st o' = [s]) \<or> holders st o' = [] \<and> n = 0" using Cons.prems x by simp
  then have "\<exists>key'. canon_object c l st x (k, out, key) = (k, out\<lparr>c_objs := canon_kept st x (c_objs out)\<rparr>, key')"
    by (auto simp: x canon_object_def canon_kept_def Let_def)
  then obtain key' where "canon_object c l st x (k, out, key) = (k, out\<lparr>c_objs := canon_kept st x (c_objs out)\<rparr>, key')" ..
  then show ?case using Cons.IH [of "out\<lparr>c_objs := canon_kept st x (c_objs out)\<rparr>" key'] Cons.prems by auto
qed simp

lemma fold_filtered:
  "(\<And>x m. x \<in> set xs \<Longrightarrow> \<not> P x \<Longrightarrow> f x m = m) \<Longrightarrow> fold f xs m = fold f (filter P xs) m"
  by (induction xs arbitrary: m) auto

text \<open>After the boundary each slot holds an object of its own, named by the slot.\<close>

lemma map_of_pairs:
  assumes "distinct (map f xs)"
  shows "map_of (map (\<lambda>x. (f x, h x)) xs) y = Some v \<longleftrightarrow> (\<exists>x \<in> set xs. f x = y \<and> h x = v)"
proof -
  have "distinct (map fst (map (\<lambda>x. (f x, h x)) xs))" using assms by (simp add: comp_def)
  from map_of_eq_Some_iff [OF this] show ?thesis by auto
qed

lemma option_is: "(\<And>v. x = Some v \<longleftrightarrow> P \<and> v = w) \<Longrightarrow> x = (if P then Some w else None)"
  by (cases x) auto

lemma entry_objects:
  assumes e: "entry_like P G st"
  defines "objs \<equiv> fold (canon_kept st) (counts st) []"
  shows "in_order objs"
    and "\<And>x. x \<in> set objs \<Longrightarrow> \<exists>s \<in> P \<union> G. fst x = [s] \<and> fst (snd x) = (if s \<in> G then 1 else 0)"
    and "\<And>s. s \<in> P \<union> G \<Longrightarrow> \<exists>x \<in> set objs. fst x = [s]"
proof -
  note f = e [unfolded entry_like_def]
  have dc: "distinct (map fst (counts st))" and ds: "distinct (map fst (slots st))"
    using f in_order_distinct by blast+
  have h: "(\<exists>s. holders st o' = [s] \<and> map_of (slots st) s = Some (Obj o') \<and> n = (if s \<in> G then 1 else 0)) \<or>
    holders st o' = [] \<and> n = 0" if "(o', n) \<in> set (counts st)" for o' n
    using entry_holders [OF e] that dc by simp
  define kept where "kept = filter (\<lambda>x. holders st (fst x) \<noteq> []) (counts st)"
  have objs: "objs = fold (\<lambda>x. put (holders st (fst x)) (snd x, fst x \<in> set (maybe_null st))) kept []"
    unfolding kept_def objs_def by (subst fold_filtered [where P = "\<lambda>x. holders st (fst x) \<noteq> []"])
      (auto simp: canon_kept_def intro!: fold_cong)
  show ord: "in_order objs" unfolding objs by (rule in_order_put_all) (simp add: in_order_def)
  have inj: "distinct (map (\<lambda>x. holders st (fst x)) kept)"
  proof -
    have "inj_on (\<lambda>x. holders st (fst x)) (set kept)"
    proof (rule inj_onI)
      fix x y assume "x \<in> set kept" "y \<in> set kept" "holders st (fst x) = holders st (fst y)"
      then show "x = y"
        using h [of "fst x" "snd x"] h [of "fst y" "snd y"] by (auto simp: kept_def prod_eq_iff)
    qed
    moreover have "distinct kept" using dc by (simp add: kept_def distinct_map)
    ultimately show ?thesis by (simp add: distinct_map)
  qed
  have in_objs: "(ks, n, b) \<in> set objs \<longleftrightarrow>
      (\<exists>x \<in> set kept. holders st (fst x) = ks \<and> snd x = n \<and> (fst x \<in> set (maybe_null st)) = b)" for ks n b
    using map_of_eq_Some_iff [OF in_order_distinct [OF ord], of ks "(n, b)"]
    unfolding objs map_of_put_all [OF inj] by (simp add: map_of_pairs [OF inj])
  show "\<exists>s \<in> P \<union> G. fst x = [s] \<and> fst (snd x) = (if s \<in> G then 1 else 0)" if m: "x \<in> set objs" for x
  proof -
    obtain ks n b where x: "x = (ks, n, b)" by (cases x)
    then obtain o' where o': "(o', n) \<in> set (counts st)" "holders st o' = ks" "ks \<noteq> []"
      using m in_objs [of ks n b] by (auto simp: kept_def)
    from h [OF o'(1)] o' obtain s where s: "ks = [s]" "map_of (slots st) s = Some (Obj o')" "n = (if s \<in> G then 1 else 0)"
      by auto
    then have "s \<in> P \<union> G" using f by (auto split: if_splits)
    then show ?thesis using s x by auto
  qed
  show "\<exists>x \<in> set objs. fst x = [s]" if "s \<in> P \<union> G" for s
  proof -
    let ?o = "if s \<in> G then Global s else Param s"
    have s: "map_of (slots st) s = Some (Obj ?o)" using f that by auto
    have "map_of (counts st) ?o = Some (if s \<in> G then 1 else 0)" using f that by auto
    then have c: "(?o, if s \<in> G then 1 else 0) \<in> set (counts st)" by (rule map_of_SomeD)
    have "s \<in> set (holders st ?o)" using map_of_SomeD [OF s] by (force simp: holders_def)
    then have hs: "holders st ?o = [s]" using h [OF c] by auto
    then have "(?o, if s \<in> G then 1 else 0) \<in> set kept" using c by (simp add: kept_def)
    then have "([s], if s \<in> G then 1 else 0, ?o \<in> set (maybe_null st)) \<in> set objs"
      using hs unfolding in_objs by force
    then show ?thesis by force
  qed
qed

text \<open>After the boundary each slot holds an object of its own, named by the slot.\<close>

definition fresh_entry :: "token set \<Rightarrow> token set \<Rightarrow> count_state \<Rightarrow> bool" where
  "fresh_entry P G st \<longleftrightarrow>
     in_order (counts st) \<and> in_order (slots st) \<and>
     (\<forall>s. map_of (slots st) s = (if s \<in> P \<union> G then Some (Obj (Held [s])) else None)) \<and>
     (\<forall>o' n. map_of (counts st) o' = Some n \<longleftrightarrow>
        (\<exists>s \<in> P \<union> G. o' = Held [s] \<and> n = (if s \<in> G then 1 else 0))) \<and>
     regs st = [] \<and> field_of st = [] \<and> emptied st = []"

lemma entry_boundary:
  assumes e: "entry_like P G st" and c: "canon c l (k, st) = (k', cn)"
  shows "k' = k \<and> fresh_entry P G (from_canon cn)"
proof -
  note f = e [unfolded entry_like_def]
  let ?objs = "fold (canon_kept st) (counts st) []"
  note o1 = entry_objects(1) [OF e] and o2 = entry_objects(2) [OF e] and o3 = entry_objects(3) [OF e]
  have dc: "distinct (map fst (counts st))" and ds: "distinct (map fst (slots st))"
    using f in_order_distinct by blast+
  have "(\<exists>s. holders st o' = [s]) \<or> holders st o' = [] \<and> n = 0" if "(o', n) \<in> set (counts st)" for o' n
    using entry_holders [OF e, of o' n] that dc by auto
  from canon_entry_objects [OF this, of "counts st" c l k empty_canon "[]"] obtain key where key:
    "fold (canon_object c l st) (counts st) (k, empty_canon, []) =
      (k, empty_canon\<lparr>c_objs := fold (canon_kept st) (counts st) (c_objs empty_canon)\<rparr>, key)" by blast
  have obj: "\<exists>o'. snd x = Obj o'" if "x \<in> set (slots st)" for x
  proof -
    have "map_of (slots st) (fst x) = Some (snd x)"
      unfolding map_of_eq_Some_iff [OF ds] using that by simp
    moreover have "map_of (slots st) (fst x) = (if fst x \<in> G then Some (Obj (Global (fst x)))
        else if fst x \<in> P then Some (Obj (Param (fst x))) else None)"
      using f by blast
    ultimately show ?thesis by (auto split: if_splits dest: sym)
  qed
  have no: "filter (\<lambda>x. snd x = Null) (slots st) = []" "filter (\<lambda>x. snd x = Unknown) (slots st) = []"
    using obj by (fastforce simp: filter_empty_conv)+
  have cn: "k' = k" "cn = empty_canon\<lparr>c_objs := ?objs\<rparr>"
    using c f unfolding canon_def prod.case key no by (simp_all add: empty_canon_def)
  have held: "fold (\<lambda>x. fold (\<lambda>s. put s (Obj (Held (fst x)))) (fst x)) ?objs [] =
      fold (\<lambda>x. put (hd (fst x)) (Obj (Held (fst x)))) ?objs []"
    by (rule fold_cong) (use o2 in fastforce)+
  have k1: "distinct (map (\<lambda>x. Held (fst x)) ?objs)"
    using in_order_distinct [OF o1] by (auto simp: distinct_map inj_on_def)
  have k2: "distinct (map (\<lambda>x. hd (fst x)) ?objs)"
  proof -
    have single: "\<exists>s. a = [s]" if "a \<in> set (map fst ?objs)" for a using that o2 by force
    have "inj_on hd (set (map fst ?objs))"
    proof (rule inj_onI)
      fix a b assume "a \<in> set (map fst ?objs)" "b \<in> set (map fst ?objs)" "hd a = hd b"
      then show "a = b" using single [of a] single [of b] by auto
    qed
    then have "distinct (map hd (map fst ?objs))" using in_order_distinct [OF o1] by (subst distinct_map) simp
    then show ?thesis by (simp add: comp_def)
  qed
  let ?st = "from_canon cn"
  have st: "counts ?st = fold (\<lambda>x. put (Held (fst x)) (fst (snd x))) ?objs []"
    "slots ?st = fold (\<lambda>x. put (hd (fst x)) (Obj (Held (fst x)))) ?objs []"
    "regs ?st = []" "field_of ?st = []" "emptied ?st = []"
    unfolding cn(2) from_canon_def Let_def by (simp_all add: empty_canon_def held)
  have "map_of (slots ?st) s = (if s \<in> P \<union> G then Some (Obj (Held [s])) else None)" for s
  proof (rule option_is)
    fix v
    have "map_of (slots ?st) s = Some v \<longleftrightarrow> (\<exists>x \<in> set ?objs. hd (fst x) = s \<and> Obj (Held (fst x)) = v)"
      unfolding st map_of_put_all [OF k2] by (simp add: map_of_pairs [OF k2])
    also have "\<dots> \<longleftrightarrow> s \<in> P \<union> G \<and> v = Obj (Held [s])"
      using o2 o3 by (metis list.sel(1))
    finally show "map_of (slots ?st) s = Some v \<longleftrightarrow> s \<in> P \<union> G \<and> v = Obj (Held [s])" .
  qed
  moreover have "map_of (counts ?st) o' = Some n \<longleftrightarrow> (\<exists>s \<in> P \<union> G. o' = Held [s] \<and> n = (if s \<in> G then 1 else 0))" for o' n
  proof -
    have "map_of (counts ?st) o' = Some n \<longleftrightarrow> (\<exists>x \<in> set ?objs. Held (fst x) = o' \<and> fst (snd x) = n)"
      unfolding st map_of_put_all [OF k1] by (simp add: map_of_pairs [OF k1])
    also have "\<dots> \<longleftrightarrow> (\<exists>s \<in> P \<union> G. o' = Held [s] \<and> n = (if s \<in> G then 1 else 0))"
      using o2 o3 by (metis list.inject)
    finally show ?thesis .
  qed
  moreover have "in_order (counts ?st)" "in_order (slots ?st)"
    unfolding st by (rule in_order_put_all, simp add: in_order_def)+
  ultimately show ?thesis using st(3-5) cn(1) unfolding fresh_entry_def by blast
qed

subsection \<open>A function of one block\<close>

text \<open>What the caller hands over: the parameters and the globals hold what they hold, and the
  account has one count for each counted global that the function names.\<close>

definition starts :: "checked_func \<Rightarrow> machine \<Rightarrow> bool" where
  "starts c m \<longleftrightarrow>
     (\<forall>r. m_regs m r = None) \<and>
     (\<forall>s. m_slots m s \<noteq> None \<longrightarrow> s \<in> borrowed_params c \<union> named_globals c) \<and>
     (\<forall>n. ledger m n = int (card {g \<in> named_globals c. m_slots m g = Some n}))"

lemma named_globals_finite: "finite (named_globals c)"
proof (rule finite_subset)
  show "named_globals c \<subseteq> set (named_slots (body (the_func c)))" by (auto simp: named_globals_def)
qed simp

lemma follows_entry:
  assumes e: "fresh_entry (borrowed_params c) (named_globals c) st" and m: "starts c m" and p: "problems k = []"
  shows "follows c {} (k, st) m"
proof -
  let ?P = "borrowed_params c" and ?G = "named_globals c"
  note f = e [unfolded fresh_entry_def]
  define g where "g = (\<lambda>o'. case o' of Held [s] \<Rightarrow> m_slots m s | _ \<Rightarrow> None)"
  have g: "g (Held [s]) = m_slots m s" for s by (simp add: g_def)
  have slots: "map_of (slots st) s = (if s \<in> ?P \<union> ?G then Some (Obj (Held [s])) else None)" for s
    using f by blast
  have counts: "map_of (counts st) o' = Some n \<longleftrightarrow> (\<exists>s \<in> ?P \<union> ?G. o' = Held [s] \<and> n = (if s \<in> ?G then 1 else 0))" for o' n
    using f by blast
  have named: "o' \<in> named st \<longleftrightarrow> (\<exists>s \<in> ?P \<union> ?G. o' = Held [s])" for o'
  proof -
    have "o' \<in> named st \<longleftrightarrow> (\<exists>n. map_of (counts st) o' = Some n)"
      by (metis domIff dom_map_of_conv_image_fst option.exhaust option.simps(3))
    then show ?thesis unfolding counts by auto
  qed
  have one: "count st (Held [s]) = (if s \<in> ?G then 1 else 0)" for s
    using counts [of "Held [s]"] by (cases "map_of (counts st) (Held [s])") (auto simp: count_def)
  have regs: "reg_val st r = Plain" for r using f by (simp add: reg_val_def)
  have acc: "account g st n = ledger m n" for n
  proof -
    have n: "named st = (\<lambda>s. Held [s]) ` (?P \<union> ?G)" using named by auto
    have fin: "finite (?P \<union> ?G)" using named_globals_finite by (simp add: borrowed_params_def)
    have "account g st n = (\<Sum>s \<in> ?P \<union> ?G. if m_slots m s = Some n then if s \<in> ?G then 1 else 0 else 0)"
      unfolding account_def n by (subst sum.reindex) (auto simp: inj_on_def g one intro!: sum.cong)
    also have "\<dots> = (\<Sum>s \<in> {g \<in> ?G. m_slots m g = Some n}. 1)"
      by (rule sum.mono_neutral_cong_right) (use fin in auto)
    finally show ?thesis using m by (simp add: starts_def)
  qed
  have "tidy {} st"
    using f unfolding tidy_def named regs slots
    by (auto simp: count_def counts split: option.splits)
  moreover have "told c g st m"
  proof -
    have "known g (map_of (slots st) s) (m_slots m s)" for s
      using m by (auto simp: slots known_def denotes_plain g starts_def)
    moreover have "m_slots m s = None" if "class_of c s = ScalarSlot" for s
      using m that by (auto simp: starts_def borrowed_params_def named_globals_def class_of_def split: if_splits)
    ultimately show ?thesis using m unfolding told_def regs acc by (simp add: denotes_plain starts_def)
  qed
  ultimately show ?thesis using p by (auto intro: followsI)
qed

lemma one_block:
  assumes "\<forall>i \<in> set ins. hd i \<noteq> ''label''"
  shows "cut_blocks ins name block = [(name, block @ ins)]"
  using assms by (induction ins arbitrary: block) auto

lemma run_one_block:
  assumes r: "run rt c = Inr k" and one: "\<forall>i \<in> set (body (the_func c)). hd i \<noteq> ''label''"
  obtains k0 entry where "canon c ''entry'' (\<lparr>problems = [], origins = [], reads = 0\<rparr>, entry_state c) = (k0, entry)"
    and "\<And>b k' st. run_block rt c (body (the_func c)) (k0, from_canon entry) = Inr (b, k', st) \<Longrightarrow> b \<Longrightarrow> k = k'"
    and "\<exists>b ks. run_block rt c (body (the_func c)) (k0, from_canon entry) = Inr (b, ks)"
proof -
  obtain k0 entry where c: "canon c ''entry'' (\<lparr>problems = [], origins = [], reads = 0\<rparr>, entry_state c) = (k0, entry)"
    by (meson surj_pair)
  obtain succ where b: "split_blocks (body (the_func c)) = [(''entry'', body (the_func c), succ)]"
    by (simp add: split_blocks_def one_block [OF one])
  have w: "work_loop rt c (split_blocks (body (the_func c))) 0 [(0, entry)] [] k0 = Inr k"
    using r unfolding run_def c by (simp split: if_splits)
  then have "\<exists>b ks. run_block rt c (body (the_func c)) (k0, from_canon entry) = Inr (b, ks)"
    unfolding b by (subst (asm) work_loop.simps) (auto simp: MAX_STEPS_def split: sum.splits)
  moreover have "k = k'" if "run_block rt c (body (the_func c)) (k0, from_canon entry) = Inr (b', k', st)" "b'" for b' k' st
    using w that unfolding b
    by (subst (asm) work_loop.simps) (auto simp: MAX_STEPS_def work_loop.simps split: sum.splits)
  ultimately show thesis using that c by blast
qed

end
