(* ===== verification/CountVerdict.thy ===== *)
theory CountVerdict
  imports CountEntry "HOL-Library.Code_Target_Nat"
begin

text \<open>
  The verdict on a function of one block, with the account of the machine it stands for.
\<close>

lemma run_block_returns:
  assumes "\<forall>i \<in> set is. runs_plainly i" and "hd ret = ''ret''"
    and "run_block rt c (is @ [ret]) ks = Inr (b, ks')"
  shows "b"
  using assms(1,3)
proof (induction "is" arbitrary: ks)
  case Nil
  then show ?case by (cases ks) (simp add: step_ret [OF assms(2)])
next
  case (Cons i "is")
  then show ?case by (auto split: sum.splits bool.splits)
qed


subsection \<open>A function that passes\<close>

definition one_release :: ownership where
  "one_release f =
     (if f = ''pith_cstring_release'' then Some \<lparr>row_args = [Consume], row_result = PlainResult\<rparr> else None)"

text \<open>It keeps a new string in a global, over the old one, and returns it.\<close>

definition kept_copy :: "instr list" where
  "kept_copy =
     [[''param'', ''p''], [''load'', ''1'', ''p''], [''concat'', ''2'', ''1'', ''1''], [''store'', ''x'', ''2''],
      [''load'', ''3'', ''x''], [''call'', ''4'', ''pith_cstring_retain'', ''void'', ''1'', ''3''],
      [''load'', ''5'', ''g''], [''call'', ''6'', ''pith_cstring_release'', ''void'', ''1'', ''5''],
      [''store'', ''g'', ''3''], [''load'', ''7'', ''x'']]"

definition keeper :: checked_func where
  "keeper = \<lparr>the_func = \<lparr>fname = ''keep'', ret_kind = ''string'', params = [''p''],
      kinds = [(''p'', ''string''), (''x'', ''string'')], owns = [''x''], mixed = [], marked = True,
      body = kept_copy @ [[''ret'', ''7'']]\<rparr>,
    the_globals = [(''g'', ''string'')], the_user_funcs = [], scalar_temps = [], iconsts = []\<rparr>"

text \<open>Object 0 is the parameter, 1 the old value of the global, 2 the new string.\<close>

definition keeper_start :: machine where
  "keeper_start = \<lparr>m_regs = \<lambda>r. None,
     m_slots = \<lambda>s. if s = ''p'' then Some 0 else if s = ''g'' then Some 1 else None,
     ledger = \<lambda>n. if n = 1 then 1 else 0\<rparr>"

definition keeper_results :: "nat option list" where
  "keeper_results = [None, None, Some 2, None, None, None, None, None, None, None]"

lemma keeper_run:
  "case run one_release keeper of Inl e \<Rightarrow> False | Inr k \<Rightarrow> problems k = []"
  by code_simp

lemma keeper_plainly: "list_all runs_plainly kept_copy"
  by code_simp

lemma keeper_ends:
  "map_option (\<lambda>m. (ledger m 0, ledger m 1, ledger m 2)) (acts one_release keeper (zip kept_copy keeper_results) keeper_start) =
     Some (0, 0, 2)"
  by code_simp

lemma keeper_starts: "starts keeper keeper_start"
proof -
  have "named_globals keeper = {''g''}"
    by (auto simp: named_globals_def keeper_def kept_copy_def named_slots_def is_counted_def SCALAR_KINDS_def begins_def)
  moreover have "borrowed_params keeper = {''p''}"
    by (auto simp: borrowed_params_def keeper_def class_of_def is_counted_def SCALAR_KINDS_def begins_def)
  ultimately show ?thesis
    by (auto simp: starts_def keeper_start_def Collect_conv_if)
qed


subsection \<open>A function that should not\<close>

definition path :: "checked_func \<Rightarrow> nat list \<Rightarrow> bool" where
  "path c bs \<longleftrightarrow>
     (let blocks = split_blocks (body (the_func c)) in
      bs \<noteq> [] \<and> hd bs = 0 \<and> list_all (\<lambda>b. b < length blocks) bs \<and>
      list_all (\<lambda>(b, b'). b' \<in> set (snd (snd (blocks ! b)))) (zip bs (tl bs)))"

definition along :: "checked_func \<Rightarrow> nat list \<Rightarrow> instr list" where
  "along c bs = concat (map (\<lambda>b. fst (snd (split_blocks (body (the_func c)) ! b))) bs)"

definition one_sided :: "token \<Rightarrow> token \<Rightarrow> instr list" where
  "one_sided l1 l2 =
     [[''func'', ''pick'', ''2'', ''void''], [''mark'', ''kind'', ''p'', ''string''], [''mark'', ''kind'', ''c'', ''int''],
      [''mark'', ''owns'', ''x'', ''string''], [''param'', ''p''], [''param'', ''c''],
      [''load'', ''1'', ''c''], [''brif'', ''1'', ''L1'', ''L2''],
      [''label'', l1], [''load'', ''2'', ''p''], [''store'', ''x'', ''2''], [''jmp'', ''L3''],
      [''label'', l2], [''concat'', ''3'', ''8'', ''9''], [''store'', ''x'', ''3''], [''jmp'', ''L3''],
      [''label'', ''L3''], [''load'', ''4'', ''x''],
      [''call'', ''5'', ''pith_cstring_release'', ''void'', ''1'', ''4''], [''ret''], [''endfunc'']]"

definition pick :: "token \<Rightarrow> token \<Rightarrow> checked_func" where
  "pick l1 l2 = (let m = read_module (one_sided l1 l2) in check_func m (hd (funcs m)))"

definition pick_start :: machine where
  "pick_start = \<lparr>m_regs = \<lambda>r. None, m_slots = \<lambda>s. if s = ''p'' then Some 0 else None, ledger = \<lambda>n. 0\<rparr>"

text \<open>Where paths meet, a count that one path holds is kept as one count or nothing, without a
  look at what the other path left in the slot. The checker passes a function that on one path
  releases its borrowed parameter, whose count it never held; the same function with the names of
  the two arms exchanged it rejects.\<close>

theorem one_sided_count_passes:
  "passed (check_counts one_release (one_sided ''L1'' ''L2'')) = 1 \<and>
   failed (check_counts one_release (one_sided ''L2'' ''L1'')) = 1 \<and>
   path (pick ''L1'' ''L2'') [0, 1, 3] \<and> path (pick ''L2'' ''L1'') [0, 1, 3] \<and>
   map_option (\<lambda>m. ledger m 0) (acts one_release (pick ''L1'' ''L2'')
     (map (\<lambda>i. (i, None)) (along (pick ''L1'' ''L2'') [0, 1, 3])) pick_start) = Some (- 1)"
  by code_simp

end
