(* ===== verification/CountSlots.thy ===== *)
theory CountSlots
  imports CountIr
begin

text \<open>
  The slots that \<open>count_check.rs\<close> takes for plain ones without a mark: its loop in
  \<open>infer_scalar_temps\<close> ends, and finds the slots that can be shown plain, store by store.
\<close>

definition stores_of :: "ir_func \<Rightarrow> (token \<times> token) list" where
  "stores_of f = concat (map slot_store (body f))"

definition loads_of :: "ir_func \<Rightarrow> (token \<times> token) list \<Rightarrow> (token \<times> token) list" where
  "loads_of f gs = concat (map (unmarked_load f gs) (body f))"

text \<open>A register holds a plain value when its instruction makes one, or loads a plain slot; an
  unmarked slot is plain when all its stores are of such registers.\<close>

inductive plain_value :: "ir_func \<Rightarrow> (token \<times> token) list \<Rightarrow> token \<Rightarrow> bool"
  and plain_slot :: "ir_func \<Rightarrow> (token \<times> token) list \<Rightarrow> token \<Rightarrow> bool"
  for f :: ir_func and gs :: "(token \<times> token) list" where
  made_plain: "i \<in> set (body f) \<Longrightarrow> r \<in> set (plain_reg f gs i) \<Longrightarrow> plain_value f gs r"
| loaded_plain: "(r, s) \<in> set (loads_of f gs) \<Longrightarrow> plain_slot f gs s \<Longrightarrow> plain_value f gs r"
| stored_plain: "kind_of f gs s = None \<Longrightarrow> s \<in> fst ` set (stores_of f) \<Longrightarrow>
    (\<And>r. (s, r) \<in> set (stores_of f) \<Longrightarrow> plain_value f gs r) \<Longrightarrow> plain_slot f gs s"

lemma plain_slots_iff:
  "s \<in> set (plain_slots f gs stores plain) \<longleftrightarrow>
    kind_of f gs s = None \<and> s \<in> fst ` set stores \<and> (\<forall>r. (s, r) \<in> set stores \<longrightarrow> r \<in> plain)"
  by (force simp: plain_slots_def)

lemma plain_slots_mono:
  assumes "plain \<subseteq> plain'"
  shows "set (plain_slots f gs stores plain) \<subseteq> set (plain_slots f gs stores plain')"
  using assms unfolding subset_iff plain_slots_iff by blast

lemma plain_slots_short: "length (plain_slots f gs stores plain) \<le> length stores"
proof -
  have "length (plain_slots f gs stores plain) \<le> length (remdups (map fst stores))"
    unfolding plain_slots_def by (rule length_filter_le)
  also have "\<dots> \<le> length stores" using length_remdups_leq [of "map fst stores"] by simp
  finally show ?thesis .
qed

lemma plain_slots_distinct: "distinct (plain_slots f gs stores plain)"
  by (simp add: plain_slots_def)

text \<open>Rounds of the same slots give the same list, so the test for a new slot compares sets.\<close>

lemma plain_slots_eq:
  assumes "set (plain_slots f gs stores p) = set (plain_slots f gs stores q)"
  shows "plain_slots f gs stores p = plain_slots f gs stores q"
  using assms unfolding plain_slots_def by (intro filter_cong) (auto simp: set_eq_iff)

definition loop_state ::
  "ir_func \<Rightarrow> (token \<times> token) list \<Rightarrow> token set \<Rightarrow> token list \<Rightarrow> bool" where
  "loop_state f gs plain scalars \<longleftrightarrow>
     {r. \<exists>i \<in> set (body f). r \<in> set (plain_reg f gs i)} \<subseteq> plain \<and> plain \<subseteq> {r. plain_value f gs r} \<and>
     (scalars = [] \<or> (\<exists>p \<subseteq> plain. scalars = plain_slots f gs (stores_of f) p))"

lemma scalars_plain:
  assumes "loop_state f gs plain scalars" "s \<in> set scalars"
  shows "plain_slot f gs s"
proof -
  obtain p where p: "p \<subseteq> plain" "scalars = plain_slots f gs (stores_of f) p"
    using assms by (auto simp: loop_state_def)
  have s: "kind_of f gs s = None" "s \<in> fst ` set (stores_of f)" "\<And>r. (s, r) \<in> set (stores_of f) \<Longrightarrow> r \<in> p"
    using assms(2) unfolding p(2) plain_slots_iff by blast+
  show ?thesis
  proof (rule stored_plain [OF s(1,2)])
    fix r assume "(s, r) \<in> set (stores_of f)"
    then have "r \<in> plain" using s(3) p(1) by blast
    then show "plain_value f gs r" using assms(1) unfolding loop_state_def by blast
  qed
qed

lemma loop_state_next:
  assumes "loop_state f gs plain scalars"
  defines "plain' \<equiv> plain \<union> fst ` {l \<in> set (loads_of f gs). snd l \<in> set scalars}"
  shows "loop_state f gs plain' (plain_slots f gs (stores_of f) plain')"
    and "set scalars \<subseteq> set (plain_slots f gs (stores_of f) plain')"
proof -
  have "plain' \<subseteq> {r. plain_value f gs r}"
    using assms(1) scalars_plain [OF assms(1)] loaded_plain
    by (auto simp: plain'_def loop_state_def)
  then show "loop_state f gs plain' (plain_slots f gs (stores_of f) plain')"
    using assms(1) unfolding loop_state_def plain'_def by blast
  show "set scalars \<subseteq> set (plain_slots f gs (stores_of f) plain')"
  proof (cases "scalars = []")
    case False
    then obtain p where "p \<subseteq> plain" "scalars = plain_slots f gs (stores_of f) p"
      using assms(1) by (auto simp: loop_state_def)
    then show ?thesis using plain_slots_mono [of p plain' f gs "stores_of f"] unfolding plain'_def by blast
  qed simp
qed

text \<open>The loop ends within a round for each store, with a set of slots that one more round leaves
  as it is.\<close>

lemma scalar_loop_ends:
  assumes "loop_state f gs plain scalars" and "length (stores_of f) + 1 \<le> n + length scalars" and "0 < n"
  shows "\<exists>s plain'. scalar_loop n f gs (loads_of f gs) (stores_of f) plain scalars = Some s \<and>
    loop_state f gs plain' s \<and>
    fst ` {l \<in> set (loads_of f gs). snd l \<in> set s} \<subseteq> plain' \<and>
    set s = set (plain_slots f gs (stores_of f) plain')"
  using assms
proof (induction n arbitrary: plain scalars)
  case (Suc n)
  let ?plain = "plain \<union> fst ` {l \<in> set (loads_of f gs). snd l \<in> set scalars}"
  let ?now = "plain_slots f gs (stores_of f) ?plain"
  note nxt = loop_state_next [OF Suc.prems(1)]
  show ?case
  proof (cases "?now = scalars")
    case True
    then show ?thesis
      using nxt(1) by (intro exI [of _ scalars] exI [of _ ?plain]) (auto simp: Let_def)
  next
    case False
    have dist: "distinct scalars"
      using Suc.prems(1) plain_slots_distinct by (auto simp: loop_state_def)
    have "set scalars \<noteq> set ?now"
    proof
      assume eq: "set scalars = set ?now"
      show False
      proof (cases "scalars = []")
        case True
        then show False using eq False by simp
      next
        case ne: False
        then obtain p where p: "scalars = plain_slots f gs (stores_of f) p"
          using Suc.prems(1) unfolding loop_state_def by blast
        have "plain_slots f gs (stores_of f) p = ?now"
          by (rule plain_slots_eq, unfold p [symmetric], rule eq)
        then have "scalars = ?now" unfolding p [symmetric] .
        then show False using False by (rule notE [OF _ sym, rotated])
      qed
    qed
    then have "card (set scalars) < card (set ?now)"
      using nxt(2) psubset_card_mono [OF finite_set, of "set scalars" ?now] by blast
    then have more: "length scalars < length ?now"
      using distinct_card [OF dist] distinct_card [OF plain_slots_distinct] by simp
    have short: "length ?now \<le> length (stores_of f)" by (rule plain_slots_short)
    have "\<exists>s plain'. scalar_loop n f gs (loads_of f gs) (stores_of f) ?plain ?now = Some s \<and>
      loop_state f gs plain' s \<and>
      fst ` {l \<in> set (loads_of f gs). snd l \<in> set s} \<subseteq> plain' \<and>
      set s = set (plain_slots f gs (stores_of f) plain')"
      by (rule Suc.IH [OF nxt(1)]) (use Suc.prems(2) more short in linarith)+
    then show ?thesis using False by (simp add: Let_def)
  qed
qed simp

text \<open>C35. The loop of \<open>infer_scalar_temps\<close> ends, and the slots it finds are those that can be shown
  plain: unmarked, and every store to them is of a register whose instruction makes a plain value or
  loads such a slot.\<close>

theorem scalar_temps_are_plain_slots:
  "set (infer_scalar_temps f gs) = {s. plain_slot f gs s}"
proof -
  let ?p = "set (concat (map (plain_reg f gs) (body f)))"
  have st: "loop_state f gs ?p []"
    by (auto simp: loop_state_def intro: made_plain)
  obtain s plain where s: "scalar_loop (length (stores_of f) + 2) f gs (loads_of f gs) (stores_of f) ?p [] = Some s"
    "loop_state f gs plain s" "fst ` {l \<in> set (loads_of f gs). snd l \<in> set s} \<subseteq> plain"
    "set s = set (plain_slots f gs (stores_of f) plain)"
    using scalar_loop_ends [OF st, of "length (stores_of f) + 2"] by auto
  have "plain_value f gs r \<Longrightarrow> r \<in> plain" and "plain_slot f gs q \<Longrightarrow> q \<in> set s" for r q
  proof (induction rule: plain_value_plain_slot.inducts)
    case (made_plain i r)
    then show ?case using s(2) by (auto simp: loop_state_def)
  next
    case (loaded_plain r q)
    then show ?case using s(3) by force
  next
    case (stored_plain q)
    then show ?case unfolding s(4) plain_slots_iff by blast
  qed
  then have "set s = {q. plain_slot f gs q}" using scalars_plain [OF s(2)] by blast
  moreover have "infer_scalar_temps f gs = s"
    using s(1) by (simp add: infer_scalar_temps_def stores_of_def loads_of_def Let_def)
  ultimately show ?thesis by simp
qed

end
