(* ===== verification/CountBorrow.thy ===== *)
theory CountBorrow
  imports CountIr
begin

text \<open>
  The borrow rule of \<open>count_check.rs\<close>: which functions can drop a stored value, and the loop
  variables read after an instruction that can drop the element they borrow.
\<close>

subsection \<open>Instructions that can drop a stored value\<close>

definition EVICTING_NAME_PARTS :: "string list" where
  "EVICTING_NAME_PARTS =
     [''clear'', ''remove'', ''pop'', ''set_value'', ''take'', ''truncate'', ''drain'', ''store_u64'', ''tls_set'',
      ''set_env'']"

definition runtime_call_writes :: "token \<Rightarrow> bool" where
  "runtime_call_writes callee \<longleftrightarrow>
     \<not> (has_part ''release'' callee \<or> has_part ''retain'' callee) \<and>
     (\<exists>p \<in> set EVICTING_NAME_PARTS. has_part p callee)"

definition fresh_allocations :: "instr list \<Rightarrow> token list" where
  "fresh_allocations code =
     map (\<lambda>ins. ins ! 1)
       (filter (\<lambda>ins. hd ins = ''call'' \<and> 2 < length ins \<and> ins ! 2 = ''pith_struct_alloc'' \<or>
          hd ins = ''tuple_stack'' \<and> 1 < length ins) code)"

definition callee_of :: "instr \<Rightarrow> token option" where
  "callee_of ins =
     (let i = (if hd ins = ''call'' then 2 else 3) in if i < length ins then Some (ins ! i) else None)"

definition instruction_writes ::
  "ownership \<Rightarrow> instr \<Rightarrow> token list \<Rightarrow> token list \<Rightarrow> token list \<Rightarrow> token list \<Rightarrow> bool" where
  "instruction_writes rt ins gs user writers fresh \<longleftrightarrow>
     (if hd ins = ''sstore'' then length ins < 2 \<or> ins ! 1 \<notin> set fresh
      else if hd ins = ''store'' \<and> 2 \<le> length ins then ins ! 1 \<in> set gs
      else if hd ins = ''call'' \<or> hd ins = ''rcall'' then
        (case callee_of ins of None \<Rightarrow> True
         | Some callee \<Rightarrow>
             if is_emitted_release callee \<or> has_part ''__tuple_stack_cascade_'' callee then False
             else if callee \<in> set user then callee \<in> set writers
             else if rt callee \<noteq> None then runtime_call_writes callee
             else True)
      else False)"

subsection \<open>The functions that can\<close>

type_synonym ir_bodies = "(token \<times> instr list) list"

text \<open>One pass over the functions; the writers found so far count at once.\<close>

fun writers_pass ::
  "ownership \<Rightarrow> ir_bodies \<Rightarrow> token list \<Rightarrow> token list \<Rightarrow> token list \<times> bool \<Rightarrow> token list \<times> bool" where
  "writers_pass rt [] gs user s = s"
| "writers_pass rt (f # fs) gs user s =
     writers_pass rt fs gs user
       (if fst f \<in> set (fst s) then s
        else if \<exists>ins \<in> set (snd f). instruction_writes rt ins gs user (fst s) (fresh_allocations (snd f))
        then (fst f # fst s, True) else s)"

definition unwritten :: "ir_bodies \<Rightarrow> token list \<Rightarrow> nat" where
  "unwritten fs writers = length (filter (\<lambda>f. fst f \<notin> set writers) fs)"

lemma writers_pass_grows: "set (fst s) \<subseteq> set (fst (writers_pass rt fs gs user s))"
  by (induction fs arbitrary: s) (simp, force)

lemma writers_pass_keeps: "snd s \<Longrightarrow> snd (writers_pass rt fs gs user s)"
  by (induction fs arbitrary: s) simp_all

lemma writers_pass_new:
  "snd (writers_pass rt fs gs user s) \<Longrightarrow> \<not> snd s \<Longrightarrow>
    \<exists>f \<in> set fs. fst f \<notin> set (fst s) \<and> fst f \<in> set (fst (writers_pass rt fs gs user s))"
proof (induction fs arbitrary: s)
  case (Cons f fs)
  show ?case
  proof (cases "fst f \<notin> set (fst s) \<and>
      (\<exists>ins \<in> set (snd f). instruction_writes rt ins gs user (fst s) (fresh_allocations (snd f)))")
    case True
    then show ?thesis
      using writers_pass_grows [of "(fst f # fst s, True)" rt fs gs user] by auto
  next
    case False
    then have e: "writers_pass rt (f # fs) gs user s = writers_pass rt fs gs user s" by auto
    show ?thesis using Cons.IH [of s] Cons.prems unfolding e by auto
  qed
qed simp

function writers_loop :: "ownership \<Rightarrow> ir_bodies \<Rightarrow> token list \<Rightarrow> token list \<Rightarrow> token list" where
  "writers_loop rt fs gs writers =
     (case writers_pass rt fs gs (map fst fs) (writers, False) of
        (writers, changed) \<Rightarrow> if changed then writers_loop rt fs gs writers else writers)"
  by pat_completeness auto
termination
proof (relation "measure (\<lambda>(rt, fs, gs, writers). unwritten fs writers)", goal_cases)
  case (2 rt fs gs writers writers' changed)
  have p: "writers_pass rt fs gs (map fst fs) (writers, False) = (writers', True)" using 2 by simp
  have sub: "set writers \<subseteq> set writers'"
    using writers_pass_grows [of "(writers, False)" rt fs gs "map fst fs"] p by simp
  obtain f where f: "f \<in> set fs" "fst f \<notin> set writers" "fst f \<in> set writers'"
    using writers_pass_new [of rt fs gs "map fst fs" "(writers, False)"] p by auto
  let ?old = "filter (\<lambda>f. fst f \<notin> set writers) fs"
  have "filter (\<lambda>f. fst f \<notin> set writers') fs = filter (\<lambda>f. fst f \<notin> set writers') ?old"
    using sub by (auto intro!: filter_cong)
  also have "length \<dots> < length ?old"
    by (rule length_filter_less [of f]) (use f in auto)
  finally show ?case by (simp add: unwritten_def)
qed simp

declare writers_loop.simps [simp del]

definition storage_writers :: "ownership \<Rightarrow> ir_bodies \<Rightarrow> token list \<Rightarrow> token list" where
  "storage_writers rt fs gs = writers_loop rt fs gs []"

text \<open>What the fixed point stands for: a writing instruction of the function itself, or of one it
  calls, through any number of calls.\<close>

inductive can_write :: "ownership \<Rightarrow> ir_bodies \<Rightarrow> token list \<Rightarrow> token \<Rightarrow> bool" for rt fs gs where
  writes_itself: "(f, code) \<in> set fs \<Longrightarrow> ins \<in> set code \<Longrightarrow>
    instruction_writes rt ins gs (map fst fs) [] (fresh_allocations code) \<Longrightarrow> can_write rt fs gs f"
| calls_writer: "(f, code) \<in> set fs \<Longrightarrow> ins \<in> set code \<Longrightarrow> hd ins = ''call'' \<or> hd ins = ''rcall'' \<Longrightarrow>
    callee_of ins = Some g \<Longrightarrow> \<not> is_emitted_release g \<Longrightarrow> \<not> has_part ''__tuple_stack_cascade_'' g \<Longrightarrow>
    can_write rt fs gs g \<Longrightarrow> can_write rt fs gs f"

inductive_cases can_writeE: "can_write rt fs gs f"

lemma can_write_function: "can_write rt fs gs f \<Longrightarrow> f \<in> fst ` set fs"
  by (induction rule: can_write.induct) force+

text \<open>An instruction writes by itself or through a call.\<close>

lemma instruction_writes_iff:
  "instruction_writes rt ins gs user writers fresh \<longleftrightarrow>
     instruction_writes rt ins gs user [] fresh \<or>
     (hd ins = ''call'' \<or> hd ins = ''rcall'') \<and>
     (\<exists>g. callee_of ins = Some g \<and> \<not> is_emitted_release g \<and> \<not> has_part ''__tuple_stack_cascade_'' g \<and>
       g \<in> set user \<and> g \<in> set writers)"
  by (cases "callee_of ins") (auto simp: instruction_writes_def)

lemma writers_pass_sound:
  assumes "set fs' \<subseteq> set fs" and "\<forall>w \<in> set (fst s). can_write rt fs gs w"
  shows "\<forall>w \<in> set (fst (writers_pass rt fs' gs (map fst fs) s)). can_write rt fs gs w"
  using assms
proof (induction fs' arbitrary: s)
  case (Cons f fs')
  have "can_write rt fs gs (fst f)"
    if "ins \<in> set (snd f)" "instruction_writes rt ins gs (map fst fs) (fst s) (fresh_allocations (snd f))" for ins
    using that Cons.prems instruction_writes_iff [of rt ins gs "map fst fs" "fst s" "fresh_allocations (snd f)"]
      writes_itself [of "fst f" "snd f" fs ins rt gs] calls_writer [of "fst f" "snd f" fs ins _ rt gs]
    by auto
  then have "\<forall>w \<in> set (fst (if fst f \<in> set (fst s) then s
      else if \<exists>ins \<in> set (snd f). instruction_writes rt ins gs (map fst fs) (fst s) (fresh_allocations (snd f))
      then (fst f # fst s, True) else s)). can_write rt fs gs w"
    using Cons.prems(2) by auto
  then show ?case unfolding writers_pass.simps using Cons.IH Cons.prems(1) by simp
qed simp

lemma writers_pass_complete:
  assumes "\<not> snd (writers_pass rt fs gs user (writers, False))"
  shows "fst (writers_pass rt fs gs user (writers, False)) = writers"
    and "\<And>f ins. f \<in> set fs \<Longrightarrow> ins \<in> set (snd f) \<Longrightarrow>
      instruction_writes rt ins gs user writers (fresh_allocations (snd f)) \<Longrightarrow> fst f \<in> set writers"
proof -
  have "fst (writers_pass rt fs gs user (writers, False)) = writers \<and>
    (\<forall>f \<in> set fs. (\<exists>ins \<in> set (snd f). instruction_writes rt ins gs user writers (fresh_allocations (snd f)))
      \<longrightarrow> fst f \<in> set writers)"
    using assms by (induction fs) (auto simp: writers_pass_keeps split: if_splits)
  then show "fst (writers_pass rt fs gs user (writers, False)) = writers"
    and "\<And>f ins. f \<in> set fs \<Longrightarrow> ins \<in> set (snd f) \<Longrightarrow>
      instruction_writes rt ins gs user writers (fresh_allocations (snd f)) \<Longrightarrow> fst f \<in> set writers"
    by blast+
qed

lemma writers_loop_exact:
  assumes "\<forall>w \<in> set writers. can_write rt fs gs w"
  shows "set (writers_loop rt fs gs writers) = {f. can_write rt fs gs f}"
  using assms
proof (induction rt fs gs writers rule: writers_loop.induct)
  case (1 rt fs gs writers)
  obtain writers' changed where p: "writers_pass rt fs gs (map fst fs) (writers, False) = (writers', changed)"
    by (meson surj_pair)
  have sound: "\<forall>w \<in> set writers'. can_write rt fs gs w"
    using writers_pass_sound [of fs fs "(writers, False)" rt gs] "1.prems" p by simp
  show ?case
  proof (cases changed)
    case True
    then show ?thesis
      using "1.IH" [OF p [symmetric] True] sound p by (subst writers_loop.simps) simp
  next
    case False
    note c = writers_pass_complete [of rt fs gs "map fst fs" writers, unfolded p, simplified, OF False]
    have "f \<in> set writers" if "can_write rt fs gs f" for f
      using that
    proof (induction rule: can_write.induct)
      case (writes_itself f code ins)
      then show ?case
        using c(2) [OF writes_itself(1)] instruction_writes_iff [of rt ins gs "map fst fs" writers] by auto
    next
      case (calls_writer f code ins g)
      have "g \<in> set (map fst fs)" using can_write_function [OF calls_writer(7)] by simp
      then show ?case
        using c(2) [OF calls_writer(1)] calls_writer instruction_writes_iff [of rt ins gs "map fst fs" writers]
        by auto
    qed
    then show ?thesis using sound c(1) p False by (subst writers_loop.simps) auto
  qed
qed

text \<open>C37. \<open>storage_writers\<close> ends, and names exactly the functions that can drop a stored value: those
  from which an instruction that drops one is reached through calls.\<close>

theorem storage_writers_exact:
  "set (storage_writers rt fs gs) = {f. can_write rt fs gs f}"
  unfolding storage_writers_def by (rule writers_loop_exact) simp

subsection \<open>Borrowed loop variables\<close>

record borrow_module =
  b_globals :: "token list"
  b_funcs :: ir_bodies
  b_borrows :: "(nat \<times> token \<times> token) list"

definition borrow_line :: "borrow_module \<Rightarrow> instr \<Rightarrow> borrow_module" where
  "borrow_line m parts =
     (if parts = [] then m
      else if hd parts = ''global'' \<and> 2 \<le> length parts then m\<lparr>b_globals := parts ! 1 # b_globals m\<rparr>
      else if hd parts = ''func'' \<and> 2 \<le> length parts then m\<lparr>b_funcs := b_funcs m @ [(parts ! 1, [])]\<rparr>
      else if hd parts = ''mark'' \<and> 4 \<le> length parts \<and> parts ! 1 = ''borrow''
      then (if b_funcs m = [] then m
            else m\<lparr>b_borrows := b_borrows m @ [(length (b_funcs m) - 1, parts ! 2, parts ! 3)]\<rparr>)
      else if hd parts = ''endfunc'' \<or> hd parts = ''mark'' then m
      else if b_funcs m = [] then m
      else m\<lparr>b_funcs := butlast (b_funcs m) @ [(fst (last (b_funcs m)), snd (last (b_funcs m)) @ [parts])]\<rparr>)"

definition read_borrows :: "instr list \<Rightarrow> borrow_module" where
  "read_borrows lines = foldl borrow_line \<lparr>b_globals = [], b_funcs = [], b_borrows = []\<rparr> lines"

fun position :: "('a \<Rightarrow> bool) \<Rightarrow> 'a list \<Rightarrow> nat option" where
  "position P [] = None"
| "position P (x # xs) =
     (if P x then Some 0 else case position P xs of None \<Rightarrow> None | Some i \<Rightarrow> Some (Suc i))"

definition rposition :: "('a \<Rightarrow> bool) \<Rightarrow> 'a list \<Rightarrow> nat option" where
  "rposition P xs = (case position P (rev xs) of None \<Rightarrow> None | Some i \<Rightarrow> Some (length xs - 1 - i))"

text \<open>\<open>trim_start_matches\<close> takes the prefix off as often as it is there.\<close>

function trim_loopvar :: "token \<Rightarrow> token" where
  "trim_loopvar s = (if begins ''__loopvar_'' s then trim_loopvar (drop 10 s) else s)"
  by pat_completeness auto
termination
proof (relation "measure length")
  fix s :: token assume "begins ''__loopvar_'' s"
  then have "s \<noteq> []" by (auto simp: begins_def)
  then show "(drop 10 s, s) \<in> measure length" by simp
qed simp

declare trim_loopvar.simps [simp del]

definition loop_index :: "token \<Rightarrow> token" where
  "loop_index var = ''__for_idx_'' @ takeWhile (\<lambda>ch. ch \<noteq> CHR ''_'') (trim_loopvar var)"

definition reads_var :: "token \<Rightarrow> instr \<Rightarrow> bool" where
  "reads_var var ins \<longleftrightarrow> hd ins = ''load'' \<and> 2 < length ins \<and> ins ! 2 = var"

text \<open>The loop of a borrowed variable: from its first store to the last jump back to the label
  before the first read of the loop's index.\<close>

definition loop_bounds :: "instr list \<Rightarrow> token \<Rightarrow> (nat \<times> nat) option" where
  "loop_bounds code var =
     (case position (\<lambda>ins. hd ins = ''store'' \<and> 1 < length ins \<and> ins ! 1 = var) code of
        None \<Rightarrow> None
      | Some start \<Rightarrow>
          (case position (reads_var (loop_index var)) code of
             None \<Rightarrow> None
           | Some i \<Rightarrow>
               (case rposition (\<lambda>ins. hd ins = ''label'') (take i code) of
                  None \<Rightarrow> None
                | Some l \<Rightarrow>
                    if length (code ! l) < 2 then None
                    else
                      (case rposition (\<lambda>ins. hd ins = ''jmp'' \<and> 1 < length ins \<and> ins ! 1 = code ! l ! 1) code of
                         None \<Rightarrow> None
                       | Some stop \<Rightarrow> if stop \<le> start then None else Some (start, stop)))))"

text \<open>The function, the variable, what it borrows from, and the instruction that can drop it.\<close>

definition borrow_problem ::
  "ownership \<Rightarrow> borrow_module \<Rightarrow> token list \<Rightarrow> nat \<times> token \<times> token \<Rightarrow> (token \<times> token \<times> token \<times> instr) option" where
  "borrow_problem rt m writers b =
     (case b of (fi, var, source) \<Rightarrow>
        let (name, code) = b_funcs m ! fi in
        case loop_bounds code var of None \<Rightarrow> None
        | Some (start, stop) \<Rightarrow>
            let region = take (stop - (start + 1)) (drop (start + 1) code) in
            case position (\<lambda>ins. instruction_writes rt ins (b_globals m) (map fst (b_funcs m)) writers
                (fresh_allocations code)) region of
              None \<Rightarrow> None
            | Some w \<Rightarrow>
                if \<exists>ins \<in> set (drop (w + 1) region). reads_var var ins then Some (name, var, source, region ! w)
                else None)"

definition check_loop_borrows :: "ownership \<Rightarrow> instr list \<Rightarrow> (token \<times> token \<times> token \<times> instr) list" where
  "check_loop_borrows rt lines =
     (let m = read_borrows lines; writers = storage_writers rt (b_funcs m) (b_globals m)
      in List.map_filter (borrow_problem rt m writers) (b_borrows m))"

text \<open>An instruction that drops a stored value, by itself or in what it calls.\<close>

definition drops :: "ownership \<Rightarrow> borrow_module \<Rightarrow> instr list \<Rightarrow> instr \<Rightarrow> bool" where
  "drops rt m code ins \<longleftrightarrow>
     instruction_writes rt ins (b_globals m) (map fst (b_funcs m)) [] (fresh_allocations code) \<or>
     (hd ins = ''call'' \<or> hd ins = ''rcall'') \<and>
     (\<exists>g. callee_of ins = Some g \<and> \<not> is_emitted_release g \<and> \<not> has_part ''__tuple_stack_cascade_'' g \<and>
       can_write rt (b_funcs m) (b_globals m) g)"

lemma drops_iff:
  "instruction_writes rt ins (b_globals m) (map fst (b_funcs m)) (storage_writers rt (b_funcs m) (b_globals m))
     (fresh_allocations code) \<longleftrightarrow> drops rt m code ins"
proof -
  have w: "set (storage_writers rt (b_funcs m) (b_globals m)) = {f. can_write rt (b_funcs m) (b_globals m) f}"
    unfolding storage_writers_def by (rule writers_loop_exact) simp
  have u: "g \<in> set (map fst (b_funcs m))" if "can_write rt (b_funcs m) (b_globals m) g" for g
    using can_write_function [OF that] by simp
  show ?thesis
    unfolding drops_def
    by (subst instruction_writes_iff) (use w u in auto)
qed

lemma position_Some:
  "position P xs = Some i \<longleftrightarrow> i < length xs \<and> P (xs ! i) \<and> (\<forall>j < i. \<not> P (xs ! j))"
proof (induction xs arbitrary: i)
  case (Cons x xs)
  show ?case
  proof (cases i)
    case (Suc k)
    show ?thesis
      using Cons.IH [of k] by (auto simp: Suc less_Suc_eq_0_disj split: option.splits)
  qed (auto split: option.splits)
qed simp

lemma position_None: "position P xs = None \<longleftrightarrow> (\<forall>x \<in> set xs. \<not> P x)"
  by (induction xs) (auto split: option.splits)

lemma borrow_problem_iff:
  fixes rt m
  defines "writers \<equiv> storage_writers rt (b_funcs m) (b_globals m)"
  assumes fn: "b_funcs m ! fi = (name, code)"
  shows "borrow_problem rt m writers (fi, var, source) \<noteq> None \<longleftrightarrow>
    (\<exists>start stop i j. loop_bounds code var = Some (start, stop) \<and> start < i \<and> i < j \<and> j < stop \<and> j < length code \<and>
      drops rt m code (code ! i) \<and> reads_var var (code ! j))"
proof (cases "loop_bounds code var")
  case None
  then show ?thesis by (simp add: borrow_problem_def fn)
next
  case (Some ss)
  obtain start stop where ss: "ss = (start, stop)" by (cases ss)
  define region where "region = take (stop - (start + 1)) (drop (start + 1) code)"
  have len: "length region = min (stop - (start + 1)) (length code - (start + 1))" by (simp add: region_def)
  have nth: "region ! i = code ! (start + 1 + i)" if "i < length region" for i
  proof -
    have "start + 1 \<le> length code" using that len by linarith
    then show ?thesis using that len by (simp add: region_def)
  qed
  let ?w = "\<lambda>ins. instruction_writes rt ins (b_globals m) (map fst (b_funcs m)) writers (fresh_allocations code)"
  have w: "?w ins \<longleftrightarrow> drops rt m code ins" for ins unfolding writers_def by (rule drops_iff)
  have "borrow_problem rt m writers (fi, var, source) \<noteq> None \<longleftrightarrow>
      (\<exists>i. position ?w region = Some i \<and> (\<exists>ins \<in> set (drop (i + 1) region). reads_var var ins))"
    unfolding borrow_problem_def prod.case fn Let_def Some ss option.case region_def [symmetric]
    by (auto split: option.splits if_splits)
  also have "\<dots> \<longleftrightarrow> (\<exists>i j. i < j \<and> j < length region \<and> drops rt m code (region ! i) \<and> reads_var var (region ! j))"
  proof
    assume "\<exists>i. position ?w region = Some i \<and> (\<exists>ins \<in> set (drop (i + 1) region). reads_var var ins)"
    then obtain i n where i: "position ?w region = Some i" "n < length region - (i + 1)"
      "reads_var var (drop (i + 1) region ! n)" by (auto simp: in_set_conv_nth)
    then have "drops rt m code (region ! i)" using w by (simp add: position_Some)
    then show "\<exists>i j. i < j \<and> j < length region \<and> drops rt m code (region ! i) \<and> reads_var var (region ! j)"
      using i(2,3) by (intro exI [of _ i] exI [of _ "i + 1 + n"]) (simp add: add.commute)
  next
    assume "\<exists>i j. i < j \<and> j < length region \<and> drops rt m code (region ! i) \<and> reads_var var (region ! j)"
    then obtain i j where ij: "i < j" "j < length region" "drops rt m code (region ! i)" "reads_var var (region ! j)"
      by blast
    have "region ! i \<in> set region" using ij by simp
    then obtain k where k: "position ?w region = Some k"
      using ij(3) w position_None [of ?w region] by (cases "position ?w region") auto
    then have "k \<le> i" using ij(3) w unfolding position_Some by (meson not_le_imp_less)
    then have "drop (k + 1) region ! (j - (k + 1)) = region ! j" "j - (k + 1) < length (drop (k + 1) region)"
      using ij by simp_all
    then have "region ! j \<in> set (drop (k + 1) region)" by (metis nth_mem)
    then show "\<exists>i. position ?w region = Some i \<and> (\<exists>ins \<in> set (drop (i + 1) region). reads_var var ins)"
      using k ij(4) by blast
  qed
  also have "\<dots> \<longleftrightarrow> (\<exists>i j. start < i \<and> i < j \<and> j < stop \<and> j < length code \<and>
      drops rt m code (code ! i) \<and> reads_var var (code ! j))" (is "?l \<longleftrightarrow> ?r")
  proof
    assume ?l
    then obtain i j where "i < j" "j < length region" "drops rt m code (region ! i)" "reads_var var (region ! j)" by blast
    then show ?r using nth len
      by (intro exI [of _ "start + 1 + i"] exI [of _ "start + 1 + j"]) auto
  next
    assume ?r
    then obtain i j where ij: "start < i" "i < j" "j < stop" "j < length code"
      "drops rt m code (code ! i)" "reads_var var (code ! j)" by blast
    then have "j - (start + 1) < length region" unfolding len by auto
    then show ?l using ij nth [of "i - (start + 1)"] nth [of "j - (start + 1)"]
      by (intro exI [of _ "i - (start + 1)"] exI [of _ "j - (start + 1)"]) auto
  qed
  finally show ?thesis using Some ss by simp
qed

text \<open>C39. \<open>check_loop_borrows\<close> reports a problem exactly when some borrowed loop variable is read, in
  the body of its loop, after an instruction that drops a stored value, by itself or in what it calls.\<close>

theorem loop_borrow_reported:
  "check_loop_borrows rt lines \<noteq> [] \<longleftrightarrow>
    (\<exists>fi var source start stop i j. (fi, var, source) \<in> set (b_borrows (read_borrows lines)) \<and>
      loop_bounds (snd (b_funcs (read_borrows lines) ! fi)) var = Some (start, stop) \<and>
      start < i \<and> i < j \<and> j < stop \<and> j < length (snd (b_funcs (read_borrows lines) ! fi)) \<and>
      drops rt (read_borrows lines) (snd (b_funcs (read_borrows lines) ! fi)) (snd (b_funcs (read_borrows lines) ! fi) ! i) \<and>
      reads_var var (snd (b_funcs (read_borrows lines) ! fi) ! j))"
proof -
  let ?m = "read_borrows lines"
  have "check_loop_borrows rt lines \<noteq> [] \<longleftrightarrow>
    (\<exists>fi var source. (fi, var, source) \<in> set (b_borrows ?m) \<and>
      borrow_problem rt ?m (storage_writers rt (b_funcs ?m) (b_globals ?m)) (fi, var, source) \<noteq> None)"
    unfolding check_loop_borrows_def Let_def List.map_filter_def
    by (simp add: filter_empty_conv) fast
  then show ?thesis using borrow_problem_iff [OF prod.collapse [symmetric]] by fast
qed

end
