(* ===== verification/FdHandle.thy ===== *)
theory FdHandle
  imports Steps
begin

text \<open>
  The handles of sockets and pipes, \<open>fd_handle.rs\<close>: one word for each descriptor number, with the
  generation of its last open, whether that handle is live, its kind, and how many calls hold it.
  A number whose chunk was never allocated has the word 0, which refuses every handle.
\<close>

subsection \<open>The word\<close>

datatype fd_kind = Socket | Pipe

definition GEN_MASK :: u64 where "GEN_MASK = 0x7fffffff"
definition LIVE :: u64 where "LIVE = push_bit 31 1"
definition PIPE :: u64 where "PIPE = push_bit 30 1"
definition OPENED :: u64 where "OPENED = push_bit 29 1"
definition USERS_MASK :: u64 where "USERS_MASK = push_bit 29 1 - 1"
definition FD_MASK :: u64 where "FD_MASK = 0x7fffffff"

definition CHUNK :: nat where "CHUNK = 4096"
definition CHUNKS :: nat where "CHUNKS = 4096"

definition generation :: "u64 \<Rightarrow> u64" where
  "generation word = drop_bit 32 word AND GEN_MASK"

definition users :: "u64 \<Rightarrow> u64" where
  "users word = word AND USERS_MASK"

definition kind_bit :: "fd_kind \<Rightarrow> u64" where
  "kind_bit kind = (case kind of Socket \<Rightarrow> 0 | Pipe \<Rightarrow> PIPE)"

text \<open>A handle is an \<open>i64\<close>; its number and generation.\<close>

definition split :: "u64 \<Rightarrow> (nat \<times> u64) option" where
  "split handle =
     (if sint handle \<le> 0 then None
      else Some (unat (handle AND FD_MASK), drop_bit 32 handle AND GEN_MASK))"

definition make_handle :: "nat \<Rightarrow> u64 \<Rightarrow> u64" where
  "make_handle fd gen = push_bit 32 gen OR of_nat fd"

text \<open>The word that \<open>open\<close> puts over an old one.\<close>

definition next_generation :: "nat \<Rightarrow> u64 \<Rightarrow> u64" where
  "next_generation fd word =
     (let gen = (if word AND OPENED = 0 then 0 else (generation word + 1) AND GEN_MASK)
      in if make_handle fd gen = 0 then 1 else gen)"

definition opened_word :: "nat \<Rightarrow> fd_kind \<Rightarrow> u64 \<Rightarrow> u64" where
  "opened_word fd kind word =
     push_bit 32 (next_generation fd word) OR LIVE OR OPENED OR kind_bit kind"

text \<open>Why \<open>acquire\<close> turns a handle away.\<close>

definition refused :: "u64 \<Rightarrow> fd_kind \<Rightarrow> u64 \<Rightarrow> bool" where
  "refused gen kind word \<longleftrightarrow>
     gen \<noteq> generation word \<or> word AND LIVE = 0 \<or> word AND PIPE \<noteq> kind_bit kind \<or> users word = USERS_MASK"

definition is_live :: "(nat \<Rightarrow> u64) \<Rightarrow> u64 \<Rightarrow> bool" where
  "is_live table handle \<longleftrightarrow>
     (case split handle of None \<Rightarrow> False
      | Some (fd, gen) \<Rightarrow> gen = generation (table fd) \<and> table fd AND LIVE \<noteq> 0)"

subsection \<open>Its fields\<close>

lemma users_take: "users w = take_bit 29 w"
  by (simp add: users_def USERS_MASK_def take_bit_eq_mask mask_eq_exp_minus_1 push_bit_eq_mult)

lemma USERS_MASK_mask: "USERS_MASK = mask 29"
  by (simp add: USERS_MASK_def mask_eq_exp_minus_1 push_bit_eq_mult)

lemma GEN_MASK_mask: "GEN_MASK = mask 31"
  by (simp add: GEN_MASK_def mask_eq_exp_minus_1)

lemma FD_MASK_mask: "FD_MASK = mask 31"
  by (simp add: FD_MASK_def mask_eq_exp_minus_1)

lemma and_one_bit: "w AND push_bit n 1 = 0 \<longleftrightarrow> \<not> bit w n" if "n < 64" for w :: u64
proof -
  have "bit (w AND push_bit n 1) k \<longleftrightarrow> k = n \<and> bit w n" for k using that by (auto simp: bit_simps)
  then show ?thesis by (metis bit_0_eq bit_eqI bot_apply bot_bool_def)
qed

lemma flag_bits [simp]: "bit LIVE n \<longleftrightarrow> n = 31" "bit PIPE n \<longleftrightarrow> n = 30" "bit OPENED n \<longleftrightarrow> n = 29"
  unfolding LIVE_def PIPE_def OPENED_def bit_push_bit_iff bit_1_iff by auto

lemma live_iff: "w AND LIVE = 0 \<longleftrightarrow> \<not> bit w 31"
  unfolding LIVE_def by (rule and_one_bit) simp

lemma generation_bits: "bit (generation w) n \<longleftrightarrow> n < 31 \<and> bit w (32 + n)"
  by (auto simp: generation_def GEN_MASK_mask bit_simps)

lemma high_bits_same:
  assumes "drop_bit 29 v = drop_bit 29 w"
  shows "generation v = generation w" "v AND LIVE = 0 \<longleftrightarrow> w AND LIVE = 0"
proof -
  have b: "bit v (29 + n) = bit w (29 + n)" for n
    using assms by (metis bit_drop_bit_eq comp_apply)
  have "bit v (32 + n) = bit w (32 + n)" for n using b [of "3 + n"] by (simp add: add.assoc [symmetric])
  then show "generation v = generation w" by (intro bit_eqI) (simp add: generation_bits)
  show "v AND LIVE = 0 \<longleftrightarrow> w AND LIVE = 0" using b [of 2] by (simp add: live_iff)
qed

lemma unat_users: "unat (users w) = unat w mod 2 ^ 29"
  by (simp add: users_take take_bit_eq_mod unat_mod)

text \<open>One more user and one less touch nothing but the count.\<close>

lemma one_more_user:
  assumes "users w \<noteq> USERS_MASK"
  shows "drop_bit 29 (w + 1) = drop_bit 29 w" "unat (users (w + 1)) = unat (users w) + 1"
proof -
  let ?n = "unat w"
  note u = unat_users
  have "unat (users w) \<noteq> 2 ^ 29 - 1"
  proof
    assume "unat (users w) = 2 ^ 29 - 1"
    then have "users w = of_nat (2 ^ 29 - 1)" by (metis of_nat_unat ucast_id)
    then show False using assms by (simp add: USERS_MASK_def push_bit_eq_mult)
  qed
  then have m: "?n mod 2 ^ 29 \<noteq> 2 ^ 29 - 1" by (simp add: u)
  have "?n \<noteq> 2 ^ 64 - 1" using m by (auto simp del: word_unat_eq_iff)
  moreover have "?n < 2 ^ 64" using unsigned_less [of w, where ?'a = nat] by simp
  ultimately have s: "unat (w + 1) = ?n + 1"
    by (simp add: unat_word_ariths)
  have "(?n + 1) div 2 ^ 29 = ?n div 2 ^ 29" using m by (simp add: div_Suc mod_Suc)
  then show "drop_bit 29 (w + 1) = drop_bit 29 w"
    by (simp only: word_unat_eq_iff unat_drop_bit_eq) (simp add: drop_bit_eq_div s)
  show "unat (users (w + 1)) = unat (users w) + 1" using m by (simp add: u s mod_Suc)
qed

lemma one_less_user:
  assumes "users w \<noteq> 0"
  shows "drop_bit 29 (w - 1) = drop_bit 29 w" "unat (users w) = unat (users (w - 1)) + 1"
proof -
  have "users (w - 1) \<noteq> USERS_MASK"
  proof
    assume "users (w - 1) = USERS_MASK"
    then have "unat (users (w - 1)) = 2 ^ 29 - 1" by (simp add: USERS_MASK_def push_bit_eq_mult)
    then have m: "unat (w - 1) mod 2 ^ 29 = 2 ^ 29 - 1" by (simp add: unat_users)
    have "unat w = (unat (w - 1) + 1) mod 2 ^ 64" using unat_word_ariths(1) [of "w - 1" 1] by simp
    then have "unat w mod 2 ^ 29 = (unat (w - 1) + 1) mod 2 ^ 29" by (simp add: mod_mod_cancel)
    also have "\<dots> = 0" using m by (simp add: mod_Suc)
    finally show False using assms by (simp add: unat_users word_unat_eq_iff [of "users w"])
  qed
  from one_more_user [OF this] show "drop_bit 29 (w - 1) = drop_bit 29 w"
    "unat (users w) = unat (users (w - 1)) + 1" by simp_all
qed

lemma closed_word:
  "generation (w AND NOT LIVE) = generation w" "users (w AND NOT LIVE) = users w"
  "(w AND NOT LIVE) AND LIVE = 0" "(w AND NOT LIVE) AND PIPE = w AND PIPE"
proof -
  have b: "bit (w AND NOT LIVE) n \<longleftrightarrow> bit w n \<and> n \<noteq> 31" for n
    by (auto simp: bit_and_iff bit_not_iff dest: bit_imp_le_length)
  show "generation (w AND NOT LIVE) = generation w"
    by (intro bit_eqI) (simp add: generation_bits b)
  show "users (w AND NOT LIVE) = users w"
    by (rule bit_eqI, unfold users_take bit_take_bit_iff b) auto
  show "(w AND NOT LIVE) AND LIVE = 0" by (simp add: live_iff b)
  show "(w AND NOT LIVE) AND PIPE = w AND PIPE"
    by (rule bit_eqI, unfold bit_and_iff b) (auto simp: bit_not_iff)
qed

lemma next_generation_small: "next_generation fd word AND GEN_MASK = next_generation fd word"
proof -
  have "(1 :: u64) AND GEN_MASK = 1" by (simp add: GEN_MASK_def)
  then show ?thesis by (auto simp: next_generation_def Let_def and.assoc)
qed

lemma opened_word_fields:
  "generation (opened_word fd kind word) = next_generation fd word"
  "users (opened_word fd kind word) = 0"
  "opened_word fd kind word AND LIVE \<noteq> 0"
  "opened_word fd kind word AND PIPE = kind_bit kind"
  "opened_word fd kind word AND OPENED \<noteq> 0"
proof -
  let ?g = "next_generation fd word"
  have g: "bit ?g n \<Longrightarrow> n < 31" for n
    using next_generation_small [of fd word] by (metis GEN_MASK_mask bit_and_iff bit_mask_iff)
  have k: "bit (kind_bit kind) n \<longleftrightarrow> kind = Pipe \<and> n = 30" for n
    by (cases kind) (auto simp: kind_bit_def)
  have b: "bit (opened_word fd kind word) n \<longleftrightarrow>
      32 \<le> n \<and> bit ?g (n - 32) \<or> n = 31 \<or> n = 29 \<or> kind = Pipe \<and> n = 30" for n
    using g [of "n - 32"] by (auto simp: opened_word_def bit_or_iff k bit_push_bit_iff dest: bit_imp_le_length)
  show "generation (opened_word fd kind word) = ?g"
    using g by (intro bit_eqI) (auto simp: generation_bits b)
  show "users (opened_word fd kind word) = 0"
    by (intro bit_eqI) (auto simp: users_take bit_take_bit_iff b)
  show "opened_word fd kind word AND LIVE \<noteq> 0" by (simp add: live_iff b)
  show "opened_word fd kind word AND PIPE = kind_bit kind"
    by (intro bit_eqI) (auto simp: bit_and_iff b k)
  show "opened_word fd kind word AND OPENED \<noteq> 0"
    unfolding OPENED_def by (subst and_one_bit) (simp_all add: b)
qed

text \<open>A handle tells its number and generation: what \<open>open\<close> packs for a descriptor is positive and
  splits into that number and the generation of the new word.\<close>

lemma open_handle_splits:
  assumes "fd < 2 ^ 31"
  shows "split (make_handle fd (next_generation fd word)) = Some (fd, next_generation fd word)"
proof -
  let ?g = "next_generation fd word" and ?h = "make_handle fd (next_generation fd word)"
  have g: "bit ?g n \<Longrightarrow> n < 31" for n
    using next_generation_small [of fd word] by (metis GEN_MASK_mask bit_and_iff bit_mask_iff)
  have f: "bit (of_nat fd :: u64) n \<longleftrightarrow> n < 64 \<and> bit fd n" for n
    by (simp add: bit_of_nat_iff possible_bit_word)
  have f31: "bit fd n \<Longrightarrow> n < 31" for n
    using assms by (metis bit_take_bit_iff take_bit_nat_eq_self)
  have b: "bit ?h n \<longleftrightarrow> n < 64 \<and> (32 \<le> n \<and> bit ?g (n - 32) \<or> bit fd n)" for n
    by (auto simp: make_handle_def bit_or_iff bit_push_bit_iff f dest: bit_imp_le_length)
  have "?h AND FD_MASK = of_nat fd"
    using f31 by (intro bit_eqI) (auto simp: FD_MASK_mask bit_and_iff bit_mask_iff b f)
  then have n: "unat (?h AND FD_MASK) = fd"
    using assms by (simp add: unat_of_nat_u64)
  have "drop_bit 32 ?h AND GEN_MASK = ?g"
    using g f31 by (intro bit_eqI) (auto simp: GEN_MASK_mask bit_and_iff bit_mask_iff bit_drop_bit_eq b dest: f31 g)
  moreover have "0 < sint ?h"
  proof -
    have "?h \<noteq> 0"
    proof
      assume z: "?h = 0"
      have "next_generation fd word = 1"
        using z by (auto simp: next_generation_def Let_def make_handle_def split: if_splits)
      then have "bit ?h 32" unfolding b by simp
      then show False using z by simp
    qed
    moreover have "\<not> bit ?h 63" using f31 [of 63] g [of 31] by (auto simp: b)
    ultimately have "sint ?h \<noteq> 0" "\<not> sint ?h < 0" 
      using bit_last_iff [of ?h] signed_word_eqI [of ?h 0, where ?'a = int] by auto
    then show ?thesis by simp
  qed
  ultimately show ?thesis using n by (simp add: split_def)
qed

subsection \<open>Cached timeouts\<close>

text \<open>The words of \<open>READ_TIMEOUTS\<close> or \<open>WRITE_TIMEOUTS\<close>, by number; a number without a chunk has 0.
  Milliseconds are an \<open>i64\<close>.\<close>

definition cached_timeout :: "(nat \<Rightarrow> u64) \<Rightarrow> u64 \<Rightarrow> int option" where
  "cached_timeout timeouts handle =
     (case split handle of None \<Rightarrow> None
      | Some (fd, gen) \<Rightarrow>
          (let word = timeouts fd; code = word AND 0xffffffff
           in if drop_bit 32 word \<noteq> gen then None
              else if code = 0 then None else if code = 1 then Some (- 1) else Some (uint code - 1)))"

definition cache_timeout :: "(nat \<Rightarrow> u64) \<Rightarrow> u64 \<Rightarrow> int option \<Rightarrow> (nat \<Rightarrow> u64)" where
  "cache_timeout timeouts handle ms =
     (case split handle of None \<Rightarrow> timeouts
      | Some (fd, gen) \<Rightarrow>
          (let code = (case ms of None \<Rightarrow> 0 | Some ms \<Rightarrow>
                 if ms \<le> 0 then 1 else word_of_int (min ms (2 ^ 32 - 2)) + 1)
           in if fd div CHUNK < CHUNKS then timeouts(fd := push_bit 32 gen OR code) else timeouts))"

lemma timeout_word:
  fixes code gen :: u64
  assumes "unat code < 2 ^ 32" and "gen AND GEN_MASK = gen"
  shows "(push_bit 32 gen OR code) AND 0xffffffff = code" "drop_bit 32 (push_bit 32 gen OR code) = gen"
proof -
  have m: "(0xffffffff :: u64) = mask 32" by (simp add: mask_eq_exp_minus_1)
  have "take_bit 32 code = code"
    using assms(1) by (simp add: take_bit_eq_mod word_unat_eq_iff unat_mod)
  then have c: "bit code n \<Longrightarrow> n < 32" for n by (metis bit_take_bit_iff)
  have g: "bit gen n \<Longrightarrow> n < 31" for n
    using assms(2) by (metis GEN_MASK_mask bit_and_iff bit_mask_iff)
  show "(push_bit 32 gen OR code) AND 0xffffffff = code"
    unfolding m by (intro bit_eqI) (auto simp: bit_or_iff bit_push_bit_iff bit_and_iff bit_mask_iff dest: c)
  show "drop_bit 32 (push_bit 32 gen OR code) = gen"
    by (intro bit_eqI) (auto simp: bit_or_iff bit_push_bit_iff bit_drop_bit_eq dest: c g)
qed

lemma split_gen: "split handle = Some (fd, gen) \<Longrightarrow> gen AND GEN_MASK = gen"
  by (auto simp: split_def split: if_splits)

text \<open>A cached timeout is read back through its own handle, clamped to what 32 bits hold, and never
  through a handle of another generation on the same number.\<close>

lemma cached_timeout_round_trip:
  assumes "split handle = Some (fd, gen)" and "fd div CHUNK < CHUNKS"
  shows "cached_timeout (cache_timeout timeouts handle ms) handle =
           (case ms of None \<Rightarrow> None | Some ms \<Rightarrow> if ms \<le> 0 then Some (- 1) else Some (min ms (2 ^ 32 - 2)))"
    and "split other = Some (fd, gen') \<Longrightarrow> gen' \<noteq> gen \<Longrightarrow>
           cached_timeout (cache_timeout timeouts handle ms) other = None"
proof -
  define code :: u64 where "code = (case ms of None \<Rightarrow> 0 | Some ms \<Rightarrow>
                 if ms \<le> 0 then 1 else word_of_int (min ms (2 ^ 32 - 2)) + 1)"
  have big: "uint code = min m (2 ^ 32 - 2) + 1" if "ms = Some m" "0 < m" for m
  proof -
    let ?k = "min m (2 ^ 32 - 2) + 1"
    have "code = word_of_int ?k" using that by (simp add: code_def)
    then have "uint code = take_bit 64 ?k" by (simp only: uint_word_of_int_eq) simp
    also have "\<dots> = ?k" using that(2) by (intro take_bit_int_eq_self) auto
    finally show ?thesis .
  qed
  have "uint code < 2 ^ 32"
    using big by (cases ms) (auto simp: code_def split: if_splits)
  then have "nat (uint code) < nat (2 ^ 32)" by (subst nat_less_eq_zless) simp_all
  then have "unat code < 2 ^ 32" unfolding unat_eq_nat_uint by (simp only: nat_power_eq nat_numeral) 
  note w = timeout_word [OF this split_gen [OF assms(1)]]
  have t: "cache_timeout timeouts handle ms fd = push_bit 32 gen OR code"
    using assms by (simp add: cache_timeout_def code_def Let_def)
  have z: "code = 0 \<longleftrightarrow> ms = None" "code = 1 \<longleftrightarrow> (\<exists>m. ms = Some m \<and> m \<le> 0)"
  proof -
    have "code \<noteq> 0 \<and> code \<noteq> 1" if "ms = Some m" "0 < m" for m
      using big [OF that] that(2) by (auto simp: min_def split: if_splits)
    then show "code = 0 \<longleftrightarrow> ms = None" "code = 1 \<longleftrightarrow> (\<exists>m. ms = Some m \<and> m \<le> 0)"
      by (cases ms; force simp: code_def)+
  qed
  show "cached_timeout (cache_timeout timeouts handle ms) handle =
           (case ms of None \<Rightarrow> None | Some ms \<Rightarrow> if ms \<le> 0 then Some (- 1) else Some (min ms (2 ^ 32 - 2)))"
    using z big by (auto simp: cached_timeout_def assms(1) t w Let_def
        simp del: drop_bit_or split: option.splits)
  show "cached_timeout (cache_timeout timeouts handle ms) other = None"
    if "split other = Some (fd, gen')" "gen' \<noteq> gen"
    using that by (simp add: cached_timeout_def t w del: drop_bit_or)
qed

end
