(* ===== verification/FdLife.thy ===== *)
theory FdLife
  imports FdHandle
begin

text \<open>
  The life of descriptor numbers under \<open>fd_handle.rs\<close>: any number of calls open, hold, release and
  close handles while the kernel hands out the lowest free numbers, or any. Every load and every
  compare-exchange is a step, and a failed exchange, also a spurious one, takes the word it found. A
  description is what the kernel opened; a number stands for one until its \<open>close(2)\<close>.
\<close>

subsection \<open>States and steps\<close>

text \<open>Where a call stands. \<open>Raw n\<close> has number \<open>n\<close> from the kernel and has not registered it; \<open>Inside h\<close>
  holds a guard; \<open>Shutting\<close> and \<open>Waking\<close> are the end of a \<open>close\<close> that found users inside.\<close>

datatype fd_call =
    Out
  | Raw nat
  | Opening nat fd_kind u64
  | Acquiring u64 fd_kind u64
  | Inside u64
  | Releasing u64 u64
  | Closing u64 u64
  | Finishing u64
  | Shutting u64 u64
  | Waking u64

text \<open>\<open>named\<close>, \<open>fresh\<close>, \<open>closes\<close> and \<open>shuts\<close> are ghosts: the description that a handle was last made for,
  the next description, and what each \<open>close(2)\<close> and \<open>shutdown(2)\<close> of this module landed on.\<close>

record fd_state =
  table :: "nat \<Rightarrow> u64"
  kernel :: "nat \<Rightarrow> nat option"
  calls :: "nat \<Rightarrow> fd_call"
  named :: "nat \<times> u64 \<Rightarrow> nat option"
  fresh :: nat
  closes :: "(u64 \<times> nat option) list"
  shuts :: "(u64 \<times> nat option) list"

definition fd_start :: "fd_state \<Rightarrow> bool" where
  "fd_start s \<longleftrightarrow>
     table s = (\<lambda>n. 0) \<and> calls s = (\<lambda>c. Out) \<and> named s = (\<lambda>h. None) \<and> closes s = [] \<and> shuts s = [] \<and>
     (\<forall>n d. kernel s n = Some d \<longrightarrow> d < fresh s) \<and>
     (\<forall>n m d. kernel s n = Some d \<longrightarrow> kernel s m = Some d \<longrightarrow> n = m)"

abbreviation goes :: "nat \<Rightarrow> fd_call \<Rightarrow> fd_state \<Rightarrow> fd_state" where
  "goes c p s \<equiv> s\<lparr>calls := (calls s)(c := p)\<rparr>"

definition number :: "u64 \<Rightarrow> nat" where
  "number h = unat (h AND FD_MASK)"

definition gen_of :: "u64 \<Rightarrow> u64" where
  "gen_of h = drop_bit 32 h AND GEN_MASK"

definition opening_of :: "fd_state \<Rightarrow> nat \<Rightarrow> fd_kind \<Rightarrow> fd_state" where
  "opening_of s n kind =
     s\<lparr>table := (table s)(n := opened_word n kind (table s n)),
       named := (named s)((n, next_generation n (table s n)) := kernel s n)\<rparr>"

text \<open>\<open>open\<close>, from the load of the word; \<open>cas\<close> is the exchange.\<close>

definition open_cas :: "nat \<Rightarrow> nat \<Rightarrow> fd_kind \<Rightarrow> u64 \<Rightarrow> fd_state \<Rightarrow> fd_state" where
  "open_cas c n kind word s =
     (if table s n = word then goes c Out (opening_of s n kind) else goes c (Opening n kind (table s n)) s)"

definition acquire_turn :: "nat \<Rightarrow> u64 \<Rightarrow> fd_kind \<Rightarrow> u64 \<Rightarrow> fd_state \<Rightarrow> fd_state" where
  "acquire_turn c h kind word s =
     (if refused (gen_of h) kind word then goes c Out s
      else if table s (number h) = word
      then goes c (Inside h) (s\<lparr>table := (table s)(number h := word + 1)\<rparr>)
      else goes c (Acquiring h kind (table s (number h))) s)"

definition release_turn :: "nat \<Rightarrow> u64 \<Rightarrow> u64 \<Rightarrow> fd_state \<Rightarrow> fd_state" where
  "release_turn c h word s =
     (if gen_of h \<noteq> generation word \<or> users word = 0 then goes c Out s
      else if table s (number h) = word
      then goes c (if (word - 1) AND LIVE = 0 \<and> users (word - 1) = 0 then Finishing h else Out)
             (s\<lparr>table := (table s)(number h := word - 1)\<rparr>)
      else goes c (Releasing h (table s (number h))) s)"

definition close_turn :: "nat \<Rightarrow> u64 \<Rightarrow> u64 \<Rightarrow> fd_state \<Rightarrow> fd_state" where
  "close_turn c h word s =
     (if gen_of h \<noteq> generation word \<or> word AND LIVE = 0 then goes c Out s
      else if table s (number h) = word
      then goes c (if users (word AND NOT LIVE) = 0 then Finishing h else Shutting h (word AND NOT LIVE))
             (s\<lparr>table := (table s)(number h := word AND NOT LIVE)\<rparr>)
      else goes c (Closing h (table s (number h))) s)"

text \<open>\<open>finish_close\<close>: the reactor forgets the number, then \<open>close(2)\<close>.\<close>

definition finish_close :: "nat \<Rightarrow> u64 \<Rightarrow> fd_state \<Rightarrow> fd_state" where
  "finish_close c h s =
     goes c Out (s\<lparr>kernel := (kernel s)(number h := None), closes := closes s @ [(h, kernel s (number h))]\<rparr>)"

definition shut_down :: "nat \<Rightarrow> u64 \<Rightarrow> u64 \<Rightarrow> fd_state \<Rightarrow> fd_state" where
  "shut_down c h next s =
     goes c (Waking h)
       (if next AND PIPE = 0 then s\<lparr>shuts := shuts s @ [(h, kernel s (number h))]\<rparr> else s)"

inductive fd_step :: "fd_state \<Rightarrow> fd_state \<Rightarrow> bool" where
  kernel_opens: "calls s c = Out \<Longrightarrow> kernel s n = None \<Longrightarrow> n < 2 ^ 31 \<Longrightarrow>
    fd_step s (goes c (Raw n) (s\<lparr>kernel := (kernel s)(n := Some (fresh s)), fresh := fresh s + 1\<rparr>))"
| raw_closes: "calls s c = Raw n \<Longrightarrow> fd_step s (goes c Out (s\<lparr>kernel := (kernel s)(n := None)\<rparr>))"
| open_loads: "calls s c = Raw n \<Longrightarrow> n div CHUNK < CHUNKS \<Longrightarrow>
    fd_step s (goes c (Opening n kind (table s n)) s)"
| opens: "calls s c = Opening n kind word \<Longrightarrow> fd_step s (open_cas c n kind word s)"
| open_spurious: "calls s c = Opening n kind word \<Longrightarrow> fd_step s (goes c (Opening n kind (table s n)) s)"
| acquire_loads: "calls s c = Out \<Longrightarrow> 0 < sint h \<Longrightarrow> fd_step s (goes c (Acquiring h kind (table s (number h))) s)"
| acquires: "calls s c = Acquiring h kind word \<Longrightarrow> fd_step s (acquire_turn c h kind word s)"
| acquire_spurious: "calls s c = Acquiring h kind word \<Longrightarrow>
    fd_step s (goes c (Acquiring h kind (table s (number h))) s)"
| release_loads: "calls s c = Inside h \<Longrightarrow> fd_step s (goes c (Releasing h (table s (number h))) s)"
| releases: "calls s c = Releasing h word \<Longrightarrow> fd_step s (release_turn c h word s)"
| release_spurious: "calls s c = Releasing h word \<Longrightarrow> fd_step s (goes c (Releasing h (table s (number h))) s)"
| close_loads: "calls s c = Out \<Longrightarrow> 0 < sint h \<Longrightarrow> fd_step s (goes c (Closing h (table s (number h))) s)"
| closes: "calls s c = Closing h word \<Longrightarrow> fd_step s (close_turn c h word s)"
| close_spurious: "calls s c = Closing h word \<Longrightarrow> fd_step s (goes c (Closing h (table s (number h))) s)"
| finishes: "calls s c = Finishing h \<Longrightarrow> fd_step s (finish_close c h s)"
| shuts_down: "calls s c = Shutting h next \<Longrightarrow> fd_step s (shut_down c h next s)"
| wakes: "calls s c = Waking h \<Longrightarrow> fd_step s (goes c Out s)"

subsection \<open>The invariant\<close>

text \<open>The calls that hold a guard on a number, and the one call that owns a number nobody may use.\<close>

fun holds :: "nat \<Rightarrow> fd_call \<Rightarrow> bool" where
  "holds n (Inside h) \<longleftrightarrow> number h = n"
| "holds n (Releasing h word) \<longleftrightarrow> number h = n"
| "holds n _ \<longleftrightarrow> False"

fun owns_number :: "nat \<Rightarrow> fd_call \<Rightarrow> bool" where
  "owns_number n (Raw m) \<longleftrightarrow> m = n"
| "owns_number n (Opening m kind word) \<longleftrightarrow> m = n"
| "owns_number n (Finishing h) \<longleftrightarrow> number h = n"
| "owns_number n _ \<longleftrightarrow> False"

definition guards_on :: "fd_state \<Rightarrow> nat \<Rightarrow> nat set" where
  "guards_on s n = {c. holds n (calls s c)}"

text \<open>In use: the handle is live, or a call is inside, or its \<open>close(2)\<close> is due.\<close>

definition in_use :: "fd_state \<Rightarrow> nat \<Rightarrow> bool" where
  "in_use s n \<longleftrightarrow> table s n AND LIVE \<noteq> 0 \<or> users (table s n) \<noteq> 0 \<or>
     (\<exists>c h. calls s c = Finishing h \<and> number h = n)"

definition handle_named :: "fd_state \<Rightarrow> nat \<Rightarrow> nat option" where
  "handle_named s n = named s (n, generation (table s n))"

definition counted :: "fd_state \<Rightarrow> bool" where
  "counted s \<longleftrightarrow> (\<forall>n. finite (guards_on s n) \<and> card (guards_on s n) = unat (users (table s n)))"

definition pc_ok :: "(nat \<Rightarrow> u64) \<Rightarrow> fd_call \<Rightarrow> bool" where
  "pc_ok t p \<longleftrightarrow>
     (case p of
        Inside h \<Rightarrow> gen_of h = generation (t (number h))
      | Releasing h word \<Rightarrow>
          gen_of h = generation (t (number h)) \<and> gen_of h = generation word \<and> users word \<noteq> 0
      | Finishing h \<Rightarrow> gen_of h = generation (t (number h))
      | _ \<Rightarrow> True)"

definition current :: "fd_state \<Rightarrow> bool" where
  "current s \<longleftrightarrow> (\<forall>c. pc_ok (table s) (calls s c))"

definition owned :: "fd_state \<Rightarrow> bool" where
  "owned s \<longleftrightarrow>
     (\<forall>c n. owns_number n (calls s c) \<longrightarrow>
        kernel s n \<noteq> None \<and> table s n AND LIVE = 0 \<and> users (table s n) = 0 \<and>
        (\<forall>c'. owns_number n (calls s c') \<longrightarrow> c' = c))"

definition backed :: "fd_state \<Rightarrow> bool" where
  "backed s \<longleftrightarrow>
     (\<forall>n. in_use s n \<longrightarrow> kernel s n = handle_named s n \<and> kernel s n \<noteq> None) \<and>
     (\<forall>n. kernel s n \<noteq> None \<longrightarrow> kernel s n = handle_named s n \<longrightarrow> in_use s n)"

definition described :: "fd_state \<Rightarrow> bool" where
  "described s \<longleftrightarrow>
     (\<forall>n d. kernel s n = Some d \<longrightarrow> d < fresh s) \<and>
     (\<forall>x d. named s x = Some d \<longrightarrow> d < fresh s) \<and>
     (\<forall>n m d. kernel s n = Some d \<longrightarrow> kernel s m = Some d \<longrightarrow> n = m) \<and>
     (\<forall>h v. (h, v) \<in> set (closes s) \<longrightarrow> (\<exists>d. v = Some d \<and> d < fresh s \<and> (\<forall>n. kernel s n \<noteq> Some d))) \<and>
     distinct (map snd (closes s))"

definition fd_inv :: "fd_state \<Rightarrow> bool" where
  "fd_inv s \<longleftrightarrow> counted s \<and> current s \<and> owned s \<and> backed s \<and> described s"

lemma currentD:
  assumes "current s"
  shows "calls s c = Inside h \<Longrightarrow> gen_of h = generation (table s (number h))"
    "calls s c = Releasing h word \<Longrightarrow> gen_of h = generation (table s (number h))"
    "calls s c = Releasing h word \<Longrightarrow> gen_of h = generation word"
    "calls s c = Releasing h word \<Longrightarrow> users word \<noteq> 0"
    "calls s c = Finishing h \<Longrightarrow> gen_of h = generation (table s (number h))"
  using assms [unfolded current_def, rule_format, of c] by (auto simp: pc_ok_def)

lemma ownedD:
  assumes "owned s" and "owns_number n (calls s c)"
  shows "kernel s n \<noteq> None" "table s n AND LIVE = 0" "users (table s n) = 0"
    "owns_number n (calls s c') \<Longrightarrow> c' = c"
  using assms unfolding owned_def by blast+

lemma backedD:
  assumes "backed s"
  shows "in_use s n \<Longrightarrow> kernel s n = handle_named s n" "in_use s n \<Longrightarrow> kernel s n \<noteq> None"
    "kernel s n \<noteq> None \<Longrightarrow> kernel s n = handle_named s n \<Longrightarrow> in_use s n"
  using assms unfolding backed_def by blast+

lemma countedD:
  assumes "counted s"
  shows "finite (guards_on s n)" "card (guards_on s n) = unat (users (table s n))"
    "holds n (calls s c) \<Longrightarrow> users (table s n) \<noteq> 0"
proof -
  show f: "finite (guards_on s n)" "card (guards_on s n) = unat (users (table s n))"
    using assms unfolding counted_def by blast+
  assume "holds n (calls s c)"
  then have "c \<in> guards_on s n" by (simp add: guards_on_def)
  then show "users (table s n) \<noteq> 0" using f by (metis card_gt_0_iff empty_iff less_numeral_extra(3) unsigned_0)
qed

lemmas turns = open_cas_def opening_of_def acquire_turn_def release_turn_def close_turn_def finish_close_def
  shut_down_def

lemma guards_on_goes: "calls s' = (calls s)(c := p) \<Longrightarrow>
    guards_on s' n = (if holds n p then insert c (guards_on s n) else guards_on s n - {c})"
  by (auto simp: guards_on_def)

lemma guards_on_same:
  "calls s' = (calls s)(c := p) \<Longrightarrow> (\<And>n. holds n p \<longleftrightarrow> holds n (calls s c)) \<Longrightarrow> guards_on s' = guards_on s"
  by (auto simp: fun_eq_iff guards_on_def)

lemma counted_same:
  assumes "counted s" "calls s' = (calls s)(c := p)" "\<And>n. holds n p \<longleftrightarrow> holds n (calls s c)"
    "\<And>n. users (table s' n) = users (table s n)"
  shows "counted s'"
  using assms(1) guards_on_same [OF assms(2,3)] assms(4) by (simp add: counted_def)

lemma counted_still:
  assumes "counted s" "\<And>c n. holds n (calls s' c) \<longleftrightarrow> holds n (calls s c)"
    "\<And>n. users (table s' n) = users (table s n)"
  shows "counted s'"
  using assms by (simp add: counted_def guards_on_def)

lemma unat_users_0 [simp]: "unat (users w) = 0 \<longleftrightarrow> users w = 0"
  by (simp add: unsigned_eq_0_iff)

lemma counted_acquire:
  assumes "counted s" and "calls s c = Acquiring h kind word"
  shows "counted (acquire_turn c h kind word s)"
proof -
  let ?s = "acquire_turn c h kind word s"
  have c: "c \<notin> guards_on s n" for n using assms(2) by (simp add: guards_on_def)
  show ?thesis
  proof (cases "\<not> refused (gen_of h) kind word \<and> table s (number h) = word")
    case True
    then have e: "?s = goes c (Inside h) (s\<lparr>table := (table s)(number h := word + 1)\<rparr>)"
      by (simp add: acquire_turn_def)
    have "users word \<noteq> USERS_MASK" using True by (simp add: refused_def)
    note u = one_more_user(2) [OF this]
    have "guards_on ?s n = (if n = number h then insert c (guards_on s n) else guards_on s n)" for n
      using c [of n] by (auto simp: e guards_on_def)
    then show ?thesis
      using assms(1) c True u by (auto simp: counted_def e)
  next
    case False
    then have "\<exists>p. ?s = goes c p s \<and> (\<forall>n. \<not> holds n p)" by (auto simp: acquire_turn_def)
    then obtain p where p: "?s = goes c p s" "\<And>n. \<not> holds n p" by blast
    show ?thesis by (rule counted_same [OF assms(1), where c = c and p = p]) (use p assms(2) in simp_all)
  qed
qed

lemma counted_release:
  assumes "counted s" and "current s" and "calls s c = Releasing h word"
  shows "counted (release_turn c h word s)"
proof -
  let ?s = "release_turn c h word s"
  have ok: "gen_of h = generation word" "users word \<noteq> 0"
    using currentD(3,4) [OF assms(2,3)] by simp_all
  have c: "c \<in> guards_on s n \<longleftrightarrow> n = number h" for n using assms(3) by (auto simp: guards_on_def)
  show ?thesis
  proof (cases "table s (number h) = word")
    case True
    obtain p where e: "?s = goes c p (s\<lparr>table := (table s)(number h := word - 1)\<rparr>)" and p: "\<And>n. \<not> holds n p"
      using ok True by (auto simp: release_turn_def)
    have "guards_on ?s n = (if n = number h then guards_on s n - {c} else guards_on s n)" for n
      using c [of n] p [of n] by (auto simp: e guards_on_def)
    moreover have "finite (guards_on s (number h))" "card (guards_on s (number h)) = unat (users word)"
      using assms(1) True by (auto simp: counted_def)
    then have "card (guards_on s (number h) - {c}) = unat (users (word - 1))"
      using c [of "number h"] one_less_user(2) [OF ok(2)] by (simp add: card_Diff_singleton)
    ultimately show ?thesis using assms(1) by (auto simp: counted_def e)
  next
    case False
    then have e: "?s = goes c (Releasing h (table s (number h))) s" using ok by (simp add: release_turn_def)
    show ?thesis
      by (rule counted_same [OF assms(1), where c = c and p = "Releasing h (table s (number h))"])
        (use e assms(3) in simp_all)
  qed
qed

lemma counted_step:
  assumes "fd_step s s'" and "counted s" and "current s" and "owned s"
  shows "counted s'"
  using assms(1)
proof cases
  case (opens c n kind word)
  show ?thesis
  proof (rule counted_still [OF assms(2)])
    have "users (table s n) = 0" by (rule ownedD(3) [OF assms(4), of _ c]) (simp add: opens(2))
    then show "users (table s' m) = users (table s m)" for m
      using opens(1) by (auto simp: open_cas_def opening_of_def opened_word_fields)
  qed (use opens in \<open>auto simp: open_cas_def opening_of_def fun_eq_iff\<close>)
next
  case (closes c h word)
  show ?thesis
  proof (rule counted_still [OF assms(2)])
    show "users (table s' m) = users (table s m)" for m
      using closes(1) by (simp add: close_turn_def closed_word)
  qed (use closes in \<open>auto simp: close_turn_def fun_eq_iff\<close>)
next
  case (acquires c h kind word)
  then show ?thesis using counted_acquire [OF assms(2)] by simp
next
  case (releases c h word)
  then show ?thesis using counted_release [OF assms(2,3)] by simp
qed (auto intro!: counted_still [OF assms(2)] simp: finish_close_def shut_down_def split: if_splits)

text \<open>What a step does to the words: nothing, or one exchange on one number.\<close>

lemma table_step:
  assumes "fd_step s s'" and "current s" and "owned s"
  shows "(\<forall>n. generation (table s' n) = generation (table s n)) \<or>
    (\<exists>c n kind. calls s c = Opening n kind (table s n) \<and>
       (\<forall>m. m \<noteq> n \<longrightarrow> table s' m = table s m) \<and> s' = goes c Out (opening_of s n kind))"
  using assms(1)
proof cases
  case (opens c n kind word)
  then show ?thesis by (auto simp: open_cas_def opening_of_def split: if_splits)
next
  case (acquires c h kind word)
  have "generation (word + 1) = generation word" if "\<not> refused (gen_of h) kind word"
    using high_bits_same(1) [OF one_more_user(1)] that by (simp add: refused_def)
  then show ?thesis using acquires by (auto simp: acquire_turn_def)
next
  case (releases c h word)
  have "generation (word - 1) = generation word" if "users word \<noteq> 0"
    using high_bits_same(1) [OF one_less_user(1) [OF that]] .
  then show ?thesis using releases by (auto simp: release_turn_def)
next
  case (closes c h word)
  then show ?thesis by (auto simp: close_turn_def closed_word)
qed (simp_all add: finish_close_def shut_down_def)

lemma no_holders_opening:
  assumes "counted s" "owned s" "calls s c = Opening n kind word" "holds n (calls s c')"
  shows False
  using countedD(3) [OF assms(1,4)] ownedD(3) [OF assms(2), of n c] assms(3) by simp

lemma pc_ok_simps [simp]:
  "pc_ok t Out" "pc_ok t (Raw n)" "pc_ok t (Opening n kind word)" "pc_ok t (Acquiring h kind word)"
  "pc_ok t (Closing h word)" "pc_ok t (Shutting h word)" "pc_ok t (Waking h)"
  "pc_ok t (Inside h) \<longleftrightarrow> gen_of h = generation (t (number h))"
  "pc_ok t (Finishing h) \<longleftrightarrow> gen_of h = generation (t (number h))"
  "pc_ok t (Releasing h word) \<longleftrightarrow>
     gen_of h = generation (t (number h)) \<and> gen_of h = generation word \<and> users word \<noteq> 0"
  by (simp_all add: pc_ok_def)

lemma pc_ok_generations:
  "(\<And>n. generation (t' n) = generation (t n)) \<Longrightarrow> pc_ok t' p \<longleftrightarrow> pc_ok t p"
  by (simp add: pc_ok_def split: fd_call.splits)

lemma moved_pc_ok:
  assumes st: "fd_step s s'" and "counted s" and cur: "current s"
    and g: "\<And>n. generation (table s' n) = generation (table s n)"
  shows "pc_ok (table s) (calls s' c')"
proof -
  have old: "pc_ok (table s) (calls s c')" for c' using cur by (simp add: current_def)
  have u: "users (table s (number h)) \<noteq> 0" if "calls s c = Inside h \<or> calls s c = Releasing h word" for c h word
    by (rule countedD(3) [OF assms(2), of _ c]) (use that in auto)
  note old = old [of c']
  from st show ?thesis
  proof cases
    case (acquires c1 h kind word)
    then show ?thesis using old by (auto simp: acquire_turn_def refused_def)
  next
    case (releases c1 h word)
    have a: "gen_of h = generation (table s (number h))" by (rule currentD(2) [OF cur releases(2)])
    have "users (table s (number h)) \<noteq> 0" using u [of c1 h word] releases(2) by simp
    then show ?thesis unfolding releases(1) release_turn_def using old a by simp
  next
    case (release_loads c1 h)
    then show ?thesis using old currentD(1) [OF cur release_loads(2)] u [of c1 h] by simp
  next
    case (release_spurious c1 h word)
    then show ?thesis using old currentD(2) [OF cur release_spurious(2)] u [of c1 h word] by simp
  next
    case (closes c1 h word)
    then show ?thesis using old by (auto simp: close_turn_def)
  next
    case (opens c1 n kind word)
    then show ?thesis using old by (auto simp: open_cas_def opening_of_def)
  next
    case (shuts_down c1 h nxt)
    then show ?thesis using old by (auto simp: shut_down_def)
  qed (use old in \<open>simp_all add: finish_close_def\<close>)
qed

lemma current_step:
  assumes st: "fd_step s s'" and "counted s" and cur: "current s" and own: "owned s"
  shows "current s'"
proof -
  from table_step [OF st cur own] show ?thesis
  proof (elim disjE exE conjE)
    fix c n kind assume o': "calls s c = Opening n kind (table s n)" and s': "s' = goes c Out (opening_of s n kind)"
    have "pc_ok (table s') (calls s' c')" for c'
    proof (cases "c' = c")
      case True
      then show ?thesis by (simp add: s' pc_ok_def)
    next
      case False
      have nh: "\<not> holds n (calls s c')" using no_holders_opening [OF assms(2) own o'] by blast
      have nf: "\<not> owns_number n (calls s c')" using ownedD(4) [OF own, of n c c'] o' False by auto
      have "pc_ok (table s) (calls s c')" using cur by (simp add: current_def)
      then show ?thesis
        using nh nf False by (cases "calls s c'") (auto simp: s' opening_of_def pc_ok_def)
    qed
    then show ?thesis by (simp add: current_def)
  next
    assume g: "\<forall>n. generation (table s' n) = generation (table s n)"
    show ?thesis
      unfolding current_def pc_ok_generations [of "table s'" "table s", OF g [rule_format]]
      using moved_pc_ok [OF st assms(2) cur g [rule_format]] by blast
  qed
qed

text \<open>One call at a time owns a number; what the others do leaves it alone.\<close>

lemma owned_intro:
  assumes "owned s" and "calls s' = (calls s)(c := p)"
    and "\<And>n. owns_number n p \<Longrightarrow> kernel s' n \<noteq> None \<and> table s' n AND LIVE = 0 \<and> users (table s' n) = 0 \<and>
      (\<forall>c'. c' \<noteq> c \<longrightarrow> \<not> owns_number n (calls s c'))"
    and "\<And>n c'. c' \<noteq> c \<Longrightarrow> owns_number n (calls s c') \<Longrightarrow> kernel s' n = kernel s n \<and> table s' n = table s n"
  shows "owned s'"
  unfolding owned_def
proof (intro allI impI)
  fix c' n assume o': "owns_number n (calls s' c')"
  show "kernel s' n \<noteq> None \<and> table s' n AND LIVE = 0 \<and> users (table s' n) = 0 \<and>
    (\<forall>c''. owns_number n (calls s' c'') \<longrightarrow> c'' = c')"
  proof (cases "c' = c")
    case True
    then show ?thesis using o' assms(2) assms(3) [of n] by auto
  next
    case False
    then have a: "owns_number n (calls s c')" using o' assms(2) by simp
    have "\<not> owns_number n p" using assms(3) [of n] a False by blast
    then show ?thesis
      using ownedD [OF assms(1) a] assms(4) [OF False a] assms(2) by auto
  qed
qed

lemma owned_keep:
  assumes "owned s" and "calls s' = (calls s)(c := p)" and "kernel s' = kernel s"
    and "\<And>n. owns_number n p \<Longrightarrow> owns_number n (calls s c)"
    and "\<And>n c'. owns_number n (calls s c') \<Longrightarrow> table s' n = table s n"
  shows "owned s'"
proof (rule owned_intro [OF assms(1,2)])
  fix n assume "owns_number n p"
  then have "owns_number n (calls s c)" by (rule assms(4))
  from ownedD [OF assms(1) this] assms(5) [OF this] assms(3)
  show "kernel s' n \<noteq> None \<and> table s' n AND LIVE = 0 \<and> users (table s' n) = 0 \<and>
      (\<forall>c'. c' \<noteq> c \<longrightarrow> \<not> owns_number n (calls s c'))" by auto
qed (use assms(3,5) in auto)

lemma owned_goes:
  assumes "owned s" and "\<And>n. owns_number n p \<Longrightarrow> owns_number n (calls s c)"
  shows "owned (goes c p s)"
  by (rule owned_keep [OF assms(1), where c = c and p = p]) (use assms(2) in simp_all)

lemma not_live_unowned: "owned s \<Longrightarrow> table s n AND LIVE \<noteq> 0 \<or> users (table s n) \<noteq> 0 \<Longrightarrow> \<not> owns_number n (calls s c)"
  using ownedD [of s n c] by blast

text \<open>The last user of a closed handle, or the closer without users, takes the number over.\<close>

lemma owned_taken:
  assumes "owned s" and "backed s" and used: "table s n AND LIVE \<noteq> 0 \<or> users (table s n) \<noteq> 0"
    and "calls s' = (calls s)(c := p)" and "table s' = (table s)(n := word)" and "kernel s' = kernel s"
    and "\<And>m. owns_number m p \<Longrightarrow> m = n \<and> word AND LIVE = 0 \<and> users word = 0"
  shows "owned s'"
proof (rule owned_intro [OF assms(1,4)])
  fix m assume "owns_number m p"
  then have m: "m = n" "word AND LIVE = 0" "users word = 0" using assms(7) by blast+
  have "kernel s n \<noteq> None" using backedD(2) [OF assms(2)] used unfolding in_use_def by blast
  then show "kernel s' m \<noteq> None \<and> table s' m AND LIVE = 0 \<and> users (table s' m) = 0 \<and>
      (\<forall>c'. c' \<noteq> c \<longrightarrow> \<not> owns_number m (calls s c'))"
    using m not_live_unowned [OF assms(1) used] by (simp add: assms(5,6))
next
  fix m c' assume "owns_number m (calls s c')"
  then have "m \<noteq> n" using not_live_unowned [OF assms(1) used] by blast
  then show "kernel s' m = kernel s m \<and> table s' m = table s m" by (simp add: assms(5,6))
qed

lemma owned_step:
  assumes st: "fd_step s s'" and own: "owned s" and cur: "current s" and bk: "backed s"
  shows "owned s'"
  using st
proof cases
  case (kernel_opens c n)
  have "\<not> in_use s n" using backedD(2) [OF bk, of n] kernel_opens by blast
  then have free: "table s n AND LIVE = 0" "users (table s n) = 0" unfolding in_use_def by blast+
  have none: "\<not> owns_number n (calls s c')" for c' using ownedD(1) [OF own, of n c'] kernel_opens by blast
  show ?thesis
    by (rule owned_intro [OF own, where c = c and p = "Raw n"])
      (use kernel_opens free none in \<open>auto split: if_splits\<close>)
next
  case (raw_closes c n)
  show ?thesis
    by (rule owned_intro [OF own, where c = c and p = Out])
      (use raw_closes ownedD(4) [OF own, of n c] in auto)
next
  case (opens c n kind word)
  show ?thesis
  proof (cases "table s n = word")
    case True
    then show ?thesis
      using opens ownedD(4) [OF own, of n c]
      by (intro owned_intro [OF own, where c = c and p = Out]) (auto simp: open_cas_def opening_of_def)
  next
    case False
    show ?thesis
      by (rule owned_keep [OF own, where c = c and p = "Opening n kind (table s n)"])
        (use False opens in \<open>auto simp: open_cas_def\<close>)
  qed
next
  case (finishes c h)
  show ?thesis
    by (rule owned_intro [OF own, where c = c and p = Out])
      (use finishes ownedD(4) [OF own, of "number h" c] in \<open>auto simp: finish_close_def\<close>)
next
  case (acquires c h kind word)
  show ?thesis
  proof (cases "\<not> refused (gen_of h) kind word \<and> table s (number h) = word")
    case True
    show ?thesis
      by (rule owned_taken [OF own bk, where n = "number h" and c = c and p = "Inside h" and word = "word + 1"])
        (use True acquires in \<open>auto simp: acquire_turn_def refused_def\<close>)
  next
    case False
    show ?thesis
      by (rule owned_keep [OF own, where c = c and p = "calls s' c"])
        (use False acquires in \<open>auto simp: acquire_turn_def split: if_splits\<close>)
  qed
next
  case (releases c h word)
  have ok: "gen_of h = generation word" "users word \<noteq> 0"
    using currentD(3,4) [OF cur releases(2)] by simp_all
  show ?thesis
  proof (cases "table s (number h) = word")
    case True
    show ?thesis
      by (rule owned_taken [OF own bk, where n = "number h" and c = c and p = "calls s' c" and word = "word - 1"])
        (use True ok releases in \<open>auto simp: release_turn_def split: if_splits\<close>)
  next
    case False
    show ?thesis
      by (rule owned_keep [OF own, where c = c and p = "calls s' c"])
        (use False ok releases in \<open>auto simp: release_turn_def\<close>)
  qed
next
  case (closes c h word)
  show ?thesis
  proof (cases "gen_of h = generation word \<and> word AND LIVE \<noteq> 0 \<and> table s (number h) = word")
    case True
    show ?thesis
      by (rule owned_taken [OF own bk, where n = "number h" and c = c and p = "calls s' c" and word = "word AND NOT LIVE"])
        (use True closes closed_word in \<open>auto simp: close_turn_def split: if_splits\<close>)
  next
    case False
    show ?thesis
      by (rule owned_keep [OF own, where c = c and p = "calls s' c"])
        (use False closes in \<open>auto simp: close_turn_def split: if_splits\<close>)
  qed
next
  case (shuts_down c h nxt)
  show ?thesis
    by (rule owned_keep [OF own, where c = c and p = "Waking h"]) (use shuts_down in \<open>auto simp: shut_down_def\<close>)
qed (auto intro!: owned_goes [OF own])

lemma backed_keep:
  assumes "backed s" and "kernel s' = kernel s" and "named s' = named s"
    and "\<And>n. generation (table s' n) = generation (table s n)" and "\<And>n. in_use s' n \<longleftrightarrow> in_use s n"
  shows "backed s'"
  using assms(1) unfolding backed_def handle_named_def assms(2-5) .

lemma in_use_same:
  assumes "table s' = table s" and "\<And>c h. calls s' c = Finishing h \<longleftrightarrow> calls s c = Finishing h"
  shows "in_use s' n \<longleftrightarrow> in_use s n"
  by (simp add: in_use_def assms)

lemma backed_goes:
  assumes "backed s" and "\<And>h. p \<noteq> Finishing h" and "\<And>h. calls s c \<noteq> Finishing h"
  shows "backed (goes c p s)"
proof (rule backed_keep [OF assms(1)])
  show "in_use (goes c p s) n \<longleftrightarrow> in_use s n" for n
    by (rule in_use_same) (use assms(2,3) in auto)
qed simp_all

text \<open>An exchange on a number in use keeps it in use: what was live or held is live, held or due to be
  closed.\<close>

lemma backed_exchange:
  assumes "backed s" and "in_use s n" and "kernel s' = kernel s" and "named s' = named s"
    and "table s' = (table s)(n := word)" and "generation word = generation (table s n)"
    and "in_use s' n" and "\<And>c h. number h \<noteq> n \<Longrightarrow> calls s' c = Finishing h \<longleftrightarrow> calls s c = Finishing h"
  shows "backed s'"
proof (rule backed_keep [OF assms(1,3,4)])
  show "generation (table s' m) = generation (table s m)" for m by (simp add: assms(5,6))
  show "in_use s' m \<longleftrightarrow> in_use s m" for m
  proof (cases "m = n")
    case True
    then show ?thesis using assms(2,7) by simp
  next
    case False
    then show ?thesis using assms(8) by (auto simp: in_use_def assms(5))
  qed
qed

lemma unowned_free:
  assumes "owned s" and "owns_number n (calls s c)" and "calls s' = (calls s)(c := Out)" and "table s' = table s"
  shows "\<not> in_use s' n"
  using ownedD [OF assms(1,2)] assms(3,4) by (auto simp: in_use_def split: if_splits)

lemma backed_freed:
  assumes "backed s" and "owned s" and "owns_number n (calls s c)" and "calls s' = (calls s)(c := Out)"
    and "table s' = table s" and "named s' = named s" and "kernel s' = (kernel s)(n := None)"
    and "\<And>h. calls s c = Finishing h \<Longrightarrow> number h = n"
  shows "backed s'"
  unfolding backed_def
proof (intro conjI allI impI)
  have other: "in_use s' m \<longleftrightarrow> in_use s m" if "m \<noteq> n" for m
  proof -
    have "calls s' c' = Finishing h \<and> number h = m \<longleftrightarrow> calls s c' = Finishing h \<and> number h = m" for c' h
      using that assms(8) by (auto simp: assms(4))
    then show ?thesis by (simp add: in_use_def assms(5))
  qed
  have free: "\<not> in_use s' n" by (rule unowned_free [OF assms(2,3,4,5)])
  fix m
  show "kernel s' m = handle_named s' m" "kernel s' m \<noteq> None" if "in_use s' m"
    using that free other [of m] backedD(1,2) [OF assms(1), of m]
    by (cases "m = n"; simp add: assms(5-7) handle_named_def)+
  show "in_use s' m" if "kernel s' m \<noteq> None" "kernel s' m = handle_named s' m"
    using that other [of m] backedD(3) [OF assms(1), of m]
    by (cases "m = n") (simp_all add: assms(5-7) handle_named_def)
qed

lemma describedD:
  assumes "described s"
  shows "kernel s n = Some d \<Longrightarrow> d < fresh s" "named s x = Some d \<Longrightarrow> d < fresh s"
    "kernel s n = Some d \<Longrightarrow> kernel s m = Some d \<Longrightarrow> n = m"
    "(h, v) \<in> set (closes s) \<Longrightarrow> \<exists>d. v = Some d \<and> d < fresh s \<and> (\<forall>n. kernel s n \<noteq> Some d)"
    "distinct (map snd (closes s))"
  using assms unfolding described_def by blast+

lemma backed_step:
  assumes st: "fd_step s s'" and bk: "backed s" and own: "owned s" and cur: "current s" and d: "described s"
  shows "backed s'"
  using st
proof cases
  case (kernel_opens c n)
  have in_use: "in_use s' m \<longleftrightarrow> in_use s m" for m
    by (rule in_use_same) (use kernel_opens in auto)
  have idle: "\<not> in_use s' n" unfolding in_use using backedD(2) [OF bk, of n] kernel_opens by blast
  have new: "handle_named s' n \<noteq> kernel s' n"
    using describedD(2) [OF d, of "(n, generation (table s n))" "fresh s"] kernel_opens(1)
    by (auto simp: handle_named_def)
  have same: "handle_named s' m = handle_named s m" "m \<noteq> n \<Longrightarrow> kernel s' m = kernel s m" for m
    by (simp_all add: kernel_opens(1) handle_named_def)
  have "(in_use s' m \<longrightarrow> kernel s' m = handle_named s' m \<and> kernel s' m \<noteq> None) \<and>
      (kernel s' m \<noteq> None \<longrightarrow> kernel s' m = handle_named s' m \<longrightarrow> in_use s' m)" for m
  proof (cases "m = n")
    case True
    then show ?thesis using idle new by metis
  next
    case False
    show ?thesis unfolding in_use same(1) same(2) [OF False] using backedD [OF bk, of m] by blast
  qed
  then show ?thesis unfolding backed_def by blast
next
  case (raw_closes c n)
  then show ?thesis by (intro backed_freed [OF bk own, where c = c and n = n]) auto
next
  case (opens c n kind word)
  show ?thesis
  proof (cases "table s n = word")
    case True
    then have s': "s' = goes c Out (opening_of s n kind)" using opens by (simp add: open_cas_def)
    have k: "kernel s n \<noteq> None" by (rule ownedD(1) [OF own, of _ c]) (simp add: opens)
    have live: "in_use s' n" by (simp add: s' opening_of_def in_use_def opened_word_fields)
    have other: "in_use s' m \<longleftrightarrow> in_use s m" if "m \<noteq> n" for m
    proof -
      have "calls s' c' = Finishing h \<longleftrightarrow> calls s c' = Finishing h" for c' h
        using opens(2) by (auto simp: s' opening_of_def)
      then show ?thesis using that by (simp add: in_use_def s' opening_of_def)
    qed
    have named: "handle_named s' m = (if m = n then kernel s n else handle_named s m)" for m
      by (simp add: s' opening_of_def handle_named_def opened_word_fields)
    have kernel: "kernel s' = kernel s" by (simp add: s' opening_of_def)
    have "(in_use s' m \<longrightarrow> kernel s' m = handle_named s' m \<and> kernel s' m \<noteq> None) \<and>
        (kernel s' m \<noteq> None \<longrightarrow> kernel s' m = handle_named s' m \<longrightarrow> in_use s' m)" for m
    proof (cases "m = n")
      case True
      then show ?thesis using k live by (simp add: named kernel)
    next
      case False
      then have "handle_named s' m = handle_named s m" by (simp add: named)
      then show ?thesis unfolding other [OF False] kernel using backedD [OF bk, of m] by metis
    qed
    then show ?thesis unfolding backed_def by blast
  next
    case False
    then show ?thesis using opens by (auto simp: open_cas_def intro!: backed_goes [OF bk])
  qed
next
  case (acquires c h kind word)
  show ?thesis
  proof (cases "\<not> refused (gen_of h) kind word \<and> table s (number h) = word")
    case True
    have live: "word AND LIVE \<noteq> 0" and u: "users word \<noteq> USERS_MASK" using True by (auto simp: refused_def)
    note w = high_bits_same [OF one_more_user(1) [OF u]]
    show ?thesis
      by (rule backed_exchange [OF bk, where n = "number h" and word = "word + 1"])
        (use True acquires live w in \<open>auto simp: acquire_turn_def in_use_def\<close>)
  next
    case False
    then show ?thesis using acquires by (auto simp: acquire_turn_def intro!: backed_goes [OF bk])
  qed
next
  case (releases c h word)
  have ok: "gen_of h = generation word" "users word \<noteq> 0"
    using currentD(3,4) [OF cur releases(2)] by simp_all
  note w = high_bits_same [OF one_less_user(1) [OF ok(2)]]
  show ?thesis
  proof (cases "table s (number h) = word")
    case True
    show ?thesis
      by (rule backed_exchange [OF bk, where n = "number h" and word = "word - 1"])
        (use True releases ok w in \<open>auto simp: release_turn_def in_use_def\<close>)
  next
    case False
    then show ?thesis using releases ok by (auto simp: release_turn_def intro!: backed_goes [OF bk])
  qed
next
  case (closes c h word)
  show ?thesis
  proof (cases "gen_of h = generation word \<and> word AND LIVE \<noteq> 0 \<and> table s (number h) = word")
    case True
    show ?thesis
      by (rule backed_exchange [OF bk, where n = "number h" and word = "word AND NOT LIVE"])
        (use True closes closed_word in \<open>auto simp: close_turn_def in_use_def\<close>)
  next
    case False
    then show ?thesis using closes by (auto simp: close_turn_def intro!: backed_goes [OF bk])
  qed
next
  case (finishes c h)
  then show ?thesis
    by (intro backed_freed [OF bk own, where c = c and n = "number h"]) (auto simp: finish_close_def)
next
  case (shuts_down c h nxt)
  show ?thesis
  proof (rule backed_keep [OF bk])
    show "in_use s' n \<longleftrightarrow> in_use s n" for n
      by (rule in_use_same) (use shuts_down in \<open>auto simp: shut_down_def\<close>)
  qed (use shuts_down in \<open>auto simp: shut_down_def\<close>)
qed (auto intro!: backed_goes [OF bk])

lemma described_keep:
  assumes "described s" and "kernel s' = kernel s" and "fresh s' = fresh s" and "closes s' = closes s"
    and "\<And>x d. named s' x = Some d \<Longrightarrow> d < fresh s"
  shows "described s'"
  using assms(1,5) unfolding described_def assms(2-4) by blast

lemma described_step:
  assumes st: "fd_step s s'" and d: "described s" and own: "owned s"
  shows "described s'"
  using st
proof cases
  case (kernel_opens c n)
  note D = describedD [OF d]
  have s': "fresh s' = fresh s + 1" "kernel s' = (kernel s)(n := Some (fresh s))" "named s' = named s"
    "closes s' = closes s" by (simp_all add: kernel_opens(1))
  show ?thesis
    unfolding described_def s'
  proof (intro conjI allI impI)
    show "distinct (map snd (closes s))" by (rule D(5))
    show "\<exists>e. v = Some e \<and> e < fresh s + 1 \<and> (\<forall>m. ((kernel s)(n := Some (fresh s))) m \<noteq> Some e)"
      if "(h, v) \<in> set (closes s)" for h v
      using D(4) [OF that] by (metis fun_upd_apply less_SucI nat_neq_iff Suc_eq_plus1 option.inject)
  qed (use D(1-3) in \<open>fastforce split: if_splits\<close>)+
next
  case (raw_closes c n)
  note D = describedD [OF d]
  have s': "fresh s' = fresh s" "kernel s' = (kernel s)(n := None)" "named s' = named s" "closes s' = closes s"
    by (simp_all add: raw_closes(1))
  show ?thesis
    unfolding described_def s'
  proof (intro conjI allI impI)
    show "distinct (map snd (closes s))" by (rule D(5))
    show "\<exists>e. v = Some e \<and> e < fresh s \<and> (\<forall>m. ((kernel s)(n := None)) m \<noteq> Some e)"
      if "(h, v) \<in> set (closes s)" for h v
      using D(4) [OF that] by auto
  qed (use D(1-3) in \<open>fastforce split: if_splits\<close>)+
next
  case (finishes c h)
  note D = describedD [OF d]
  obtain e where e: "kernel s (number h) = Some e"
    using ownedD(1) [OF own, of "number h" c] finishes(2) by auto
  have s': "fresh s' = fresh s" "kernel s' = (kernel s)(number h := None)" "named s' = named s"
    "closes s' = closes s @ [(h, Some e)]" using e by (simp_all add: finishes(1) finish_close_def)
  have new: "Some e \<notin> snd ` set (closes s)" using D(4) e by force
  show ?thesis
    unfolding described_def s'
  proof (intro conjI allI impI)
    show "distinct (map snd (closes s @ [(h, Some e)]))" using D(5) new by simp
    show "\<exists>e'. v = Some e' \<and> e' < fresh s \<and> (\<forall>m. ((kernel s)(number h := None)) m \<noteq> Some e')"
      if "(h', v) \<in> set (closes s @ [(h, Some e)])" for h' v
    proof (cases "(h', v) \<in> set (closes s)")
      case True
      then show ?thesis using D(4) [OF True] by auto
    next
      case False
      then have "v = Some e" using that by simp
      then show ?thesis using D(1) [OF e] D(3) [OF e] by (auto split: if_splits)
    qed
  qed (use D(1-3) in \<open>fastforce split: if_splits\<close>)+
next
  case (opens c n kind word)
  show ?thesis
    by (rule described_keep [OF d])
      (use describedD(1,2) [OF d] opens in \<open>auto simp: open_cas_def opening_of_def split: if_splits\<close>)
next
  case (acquires c h kind word)
  then show ?thesis
    by (intro described_keep [OF d] describedD(2) [OF d]) (auto simp: acquire_turn_def split: if_splits)
next
  case (releases c h word)
  then show ?thesis
    by (intro described_keep [OF d] describedD(2) [OF d]) (auto simp: release_turn_def split: if_splits)
next
  case (closes c h word)
  then show ?thesis
    by (intro described_keep [OF d] describedD(2) [OF d]) (auto simp: close_turn_def split: if_splits)
next
  case (shuts_down c h nxt)
  then show ?thesis
    by (intro described_keep [OF d] describedD(2) [OF d]) (auto simp: shut_down_def split: if_splits)
qed (auto intro!: described_keep [OF d] dest: describedD(2) [OF d])

lemma fd_inv_step [pith_inv]: "fd_inv s \<Longrightarrow> fd_step s s' \<Longrightarrow> fd_inv s'"
  unfolding fd_inv_def using counted_step current_step owned_step backed_step described_step by blast

lemma fd_inv_start: "fd_start s \<Longrightarrow> fd_inv s"
  unfolding fd_inv_def fd_start_def counted_def current_def owned_def backed_def described_def in_use_def
    handle_named_def guards_on_def
  by (auto simp: users_def)

interpretation fd: inductive_invariant fd_start fd_step fd_inv
  by unfold_locales (use fd_inv_start fd_inv_step in blast)+

end
