(* ===== verification/FdSafety.thy ===== *)
theory FdSafety
  imports FdLife
begin

text \<open>
  What the handles of \<open>fd_handle.rs\<close> promise, over all interleavings, and where a close breaks it.
\<close>

text \<open>C18. A call inside a guard runs its system call on the descriptor its handle was made for; a
  deferred \<open>close(2)\<close> lands on the descriptor of the handle that was retired, with no guard on that
  number; no descriptor is closed twice; and none is lost: while the kernel has the descriptor of
  the last handle of a number, the handle is live, or a call is inside it, or its \<open>close(2)\<close> is due.\<close>

theorem guards_keep_their_descriptor:
  assumes "reachable fd_start fd_step s"
  shows "(\<forall>c h. calls s c = Inside h \<longrightarrow>
      kernel s (number h) = named s (number h, gen_of h) \<and> kernel s (number h) \<noteq> None) \<and>
    (\<forall>c h. calls s c = Finishing h \<longrightarrow>
      kernel s (number h) = named s (number h, gen_of h) \<and> kernel s (number h) \<noteq> None \<and>
      guards_on s (number h) = {}) \<and>
    distinct (map snd (closes s)) \<and>
    (\<forall>n d. kernel s n = Some d \<longrightarrow> named s (n, generation (table s n)) = Some d \<longrightarrow>
      table s n AND LIVE \<noteq> 0 \<or> guards_on s n \<noteq> {} \<or> (\<exists>c h. calls s c = Finishing h \<and> number h = n))"
proof -
  have i: "counted s" "current s" "owned s" "backed s" "described s"
    using fd.invariant [OF assms] by (simp_all add: fd_inv_def)
  have use: "kernel s (number h) = named s (number h, gen_of h) \<and> kernel s (number h) \<noteq> None"
    if "in_use s (number h)" "gen_of h = generation (table s (number h))" for h
    using backedD(1,2) [OF i(4) that(1)] that(2) by (simp add: handle_named_def)
  have inside: "kernel s (number h) = named s (number h, gen_of h) \<and> kernel s (number h) \<noteq> None"
    if "calls s c = Inside h" for c h
  proof (rule use)
    have "holds (number h) (calls s c)" using that by simp
    then show "in_use s (number h)" using countedD(3) [OF i(1)] unfolding in_use_def by blast
  qed (rule currentD(1) [OF i(2) that])
  have finishing: "kernel s (number h) = named s (number h, gen_of h) \<and> kernel s (number h) \<noteq> None"
    if "calls s c = Finishing h" for c h
    by (rule use [OF _ currentD(5) [OF i(2) that]]) (use that in \<open>auto simp: in_use_def\<close>)
  have alone: "guards_on s (number h) = {}" if "calls s c = Finishing h" for c h
  proof -
    have "users (table s (number h)) = 0" by (rule ownedD(3) [OF i(3), of _ c]) (simp add: that)
    then show ?thesis using countedD(1,2) [OF i(1), of "number h"] by simp
  qed
  have lost: "table s n AND LIVE \<noteq> 0 \<or> guards_on s n \<noteq> {} \<or> (\<exists>c h. calls s c = Finishing h \<and> number h = n)"
    if "kernel s n = Some d" "named s (n, generation (table s n)) = Some d" for n d
  proof -
    have "in_use s n" using backedD(3) [OF i(4), of n] that by (simp add: handle_named_def)
    moreover have "guards_on s n \<noteq> {}" if "users (table s n) \<noteq> 0"
      using countedD(1,2) [OF i(1), of n] that by (metis card.empty unat_users_0)
    ultimately show ?thesis unfolding in_use_def by blast
  qed
  show ?thesis using inside finishing alone lost describedD(5) [OF i(5)] by blast
qed

subsection \<open>A run on one number\<close>

text \<open>The states of three calls on number 3, all other numbers untouched.\<close>

definition fd_at ::
  "u64 \<Rightarrow> nat option \<Rightarrow> fd_call \<times> fd_call \<times> fd_call \<Rightarrow> (u64 \<times> nat) list \<Rightarrow> nat \<Rightarrow>
   (u64 \<times> nat option) list \<Rightarrow> (u64 \<times> nat option) list \<Rightarrow> fd_state"
where
  "fd_at word k ps nm fr cl sh =
     \<lparr>table = (\<lambda>n. 0)(3 := word), kernel = (\<lambda>n. None)(3 := k),
      calls = (\<lambda>c. Out)(0 := fst ps, 1 := fst (snd ps), 2 := snd (snd ps)),
      named = (\<lambda>x. if fst x = 3 then map_of nm (snd x) else None), fresh = fr, closes = cl, shuts = sh\<rparr>"

abbreviation fd_run :: "fd_state \<Rightarrow> bool" where
  "fd_run \<equiv> reachable fd_start fd_step"

lemma fd_goes: "fd_run s \<Longrightarrow> fd_step s t \<Longrightarrow> t = s' \<Longrightarrow> fd_run s'"
  by (blast intro: reachable_step)

lemma fd_begins: "fd_run (fd_at 0 None (Out, Out, Out) [] 0 [] [])"
  by (rule reachable_init) (auto simp: fd_start_def fd_at_def)

lemma fd_at_opened:
  "fd_run (fd_at 0xA0000000 (Some 0) (Out, Out, Out) [(0, 0)] 1 [] [])"
proof -
  have "fd_run (fd_at 0 (Some 0) (Raw 3, Out, Out) [] 1 [] [])"
    by (rule fd_goes [OF fd_begins kernel_opens [where c = 0 and n = 3]]) (auto simp: fd_at_def fun_eq_iff)
  then have "fd_run (fd_at 0 (Some 0) (Opening 3 Socket 0, Out, Out) [] 1 [] [])"
    by (rule fd_goes [OF _ open_loads [where c = 0 and n = 3 and kind = Socket]])
      (auto simp: fd_at_def fun_eq_iff CHUNK_def CHUNKS_def)
  then show ?thesis
    by (rule fd_goes [OF _ opens [where c = 0 and n = 3 and kind = Socket and word = 0]])
      (auto simp: fd_at_def fun_eq_iff open_cas_def opening_of_def opened_word_def next_generation_def
        make_handle_def LIVE_def OPENED_def kind_bit_def)
qed

lemmas fd_at_eqs = fd_at_def fun_eq_iff generation_def users_def LIVE_def PIPE_def USERS_MASK_def GEN_MASK_def
  number_def FD_MASK_def gen_of_def kind_bit_def

lemma fd_at_inside:
  "fd_run (fd_at 0xA0000001 (Some 0) (Inside 3, Out, Out) [(0, 0)] 1 [] [])"
proof -
  have "fd_run (fd_at 0xA0000000 (Some 0) (Acquiring 3 Socket 0xA0000000, Out, Out) [(0, 0)] 1 [] [])"
    by (rule fd_goes [OF fd_at_opened acquire_loads [where c = 0 and h = 3 and kind = Socket]])
      (auto simp: fd_at_eqs)
  then show ?thesis
    by (rule fd_goes [OF _ acquires [where c = 0 and h = 3 and kind = Socket and word = "0xA0000000"]])
      (auto simp: fd_at_eqs acquire_turn_def refused_def)
qed

lemma fd_at_shutting:
  "fd_run (fd_at 0x20000001 (Some 0) (Inside 3, Shutting 3 0x20000001, Out) [(0, 0)] 1 [] [])"
proof -
  have "fd_run (fd_at 0xA0000001 (Some 0) (Inside 3, Closing 3 0xA0000001, Out) [(0, 0)] 1 [] [])"
    by (rule fd_goes [OF fd_at_inside close_loads [where c = 1 and h = 3]]) (auto simp: fd_at_eqs)
  then show ?thesis
    by (rule fd_goes [OF _ closes [where c = 1 and h = 3 and word = "0xA0000001"]])
      (auto simp: fd_at_eqs close_turn_def)
qed

lemma fd_at_freed:
  "fd_run (fd_at 0x20000000 None (Out, Shutting 3 0x20000001, Out) [(0, 0)] 1 [(3, Some 0)] [])"
proof -
  have "fd_run (fd_at 0x20000001 (Some 0) (Releasing 3 0x20000001, Shutting 3 0x20000001, Out) [(0, 0)] 1 [] [])"
    by (rule fd_goes [OF fd_at_shutting release_loads [where c = 0 and h = 3]]) (auto simp: fd_at_eqs)
  then have "fd_run (fd_at 0x20000000 (Some 0) (Finishing 3, Shutting 3 0x20000001, Out) [(0, 0)] 1 [] [])"
    by (rule fd_goes [OF _ releases [where c = 0 and h = 3 and word = "0x20000001"]])
      (auto simp: fd_at_eqs release_turn_def)
  then show ?thesis
    by (rule fd_goes [OF _ finishes [where c = 0 and h = 3]]) (auto simp: fd_at_eqs finish_close_def)
qed

lemma fd_at_reused:
  "fd_run (fd_at 0x1A0000000 (Some 1) (Out, Shutting 3 0x20000001, Out) [(1, 1), (0, 0)] 2 [(3, Some 0)] [])"
proof -
  have "fd_run (fd_at 0x20000000 (Some 1) (Out, Shutting 3 0x20000001, Raw 3) [(0, 0)] 2 [(3, Some 0)] [])"
    by (rule fd_goes [OF fd_at_freed kernel_opens [where c = 2 and n = 3]]) (auto simp: fd_at_eqs)
  then have "fd_run (fd_at 0x20000000 (Some 1) (Out, Shutting 3 0x20000001, Opening 3 Socket 0x20000000)
      [(0, 0)] 2 [(3, Some 0)] [])"
    by (rule fd_goes [OF _ open_loads [where c = 2 and n = 3 and kind = Socket]])
      (auto simp: fd_at_eqs CHUNK_def CHUNKS_def)
  then show ?thesis
    by (rule fd_goes [OF _ opens [where c = 2 and n = 3 and kind = Socket and word = "0x20000000"]])
      (auto simp: fd_at_eqs open_cas_def opening_of_def opened_word_def next_generation_def
        make_handle_def OPENED_def)
qed

lemma guards_keep_their_descriptor_witness:
  "kernel (fd_at 0xA0000001 (Some 0) (Inside 3, Out, Out) [(0, 0)] 1 [] []) 3 = Some 0"
  using guards_keep_their_descriptor [OF fd_at_inside, THEN conjunct1, rule_format, of 0 3]
  by (simp add: fd_at_def number_def FD_MASK_def gen_of_def)

text \<open>C29. The \<open>shutdown(2)\<close> of a close that found users inside runs after its exchange and holds no
  guard, though its comment says that one still holds the number: the last user may leave and close
  the number first, and the kernel may give it to the next connection. There is a run in which the
  shutdown lands on a description that its handle was never made for, that of another, live handle
  on the same number.\<close>

theorem shutdown_can_hit_the_next_connection:
  "\<exists>s s' h g d. reachable fd_start fd_step s \<and> fd_step s s' \<and> shuts s' = shuts s @ [(h, Some d)] \<and>
     named s (number h, gen_of h) \<noteq> Some d \<and>
     g \<noteq> h \<and> number g = number h \<and> is_live (table s) g \<and> named s (number g, gen_of g) = Some d"
proof -
  define s where
    "s = fd_at 0x1A0000000 (Some 1) (Out, Shutting 3 0x20000001, Out) [(1, 1), (0, 0)] 2 [(3, Some 0)] []"
  define s' where "s' = shut_down 1 3 0x20000001 s"
  define g :: u64 where "g = 0x100000003"
  have 1: "reachable fd_start fd_step s" unfolding s_def by (rule fd_at_reused)
  have 2: "fd_step s s'" unfolding s'_def by (rule shuts_down) (simp add: s_def fd_at_def)
  have 3: "shuts s' = shuts s @ [(3, Some 1)]" by (simp add: s'_def s_def shut_down_def fd_at_eqs)
  have 4: "named s (number 3, gen_of 3) \<noteq> Some 1" by (simp add: s_def fd_at_eqs)
  have 5: "g \<noteq> 3" "number g = number 3" "is_live (table s) g" "named s (number g, gen_of g) = Some 1"
    by (simp_all add: g_def s_def fd_at_eqs is_live_def split_def)
  show ?thesis by (intro exI conjI) (rule 1 2 3 4 5)+
qed

end
