(* ===== verification/Rfc7693.thy ===== *)
theory Rfc7693
  imports Prelude Complex_Main
begin

text \<open>
  BLAKE2b as RFC 7693 states it, section by section, with nothing taken from \<open>blake2b.rs\<close>: the
  initial words are the first 64 bits of the fractional parts of square roots of primes, the
  schedule is a table of ten rows used in turn, a rotation is two shifts, the work vector is a
  function on indices, lengths and counts are natural numbers, and the message is cut into numbered
  blocks. \<open>Blake2b\<close> proves that the code's own constants, rounds, buffer and counter compute it.
\<close>

subsection \<open>Constants (2.6, 2.7)\<close>

text \<open>\<open>IV[i] = floor(2**w * frac(sqrt(prime(i+1))))\<close> with \<open>w = 64\<close>.\<close>

definition first_primes :: "nat list" where
  "first_primes = [2, 3, 5, 7, 11, 13, 17, 19]"

definition iv_word :: "nat \<Rightarrow> u64" where
  "iv_word i = of_int \<lfloor>2 ^ 64 * frac (sqrt (real (first_primes ! i)))\<rfloor>"

text \<open>Row \<open>i mod 10\<close> is the schedule of round \<open>i\<close>.\<close>

definition sigma_rows :: "nat list list" where
  "sigma_rows =
    [[ 0,  1,  2,  3,  4,  5,  6,  7,  8,  9, 10, 11, 12, 13, 14, 15],
     [14, 10,  4,  8,  9, 15, 13,  6,  1, 12,  0,  2, 11,  7,  5,  3],
     [11,  8, 12,  0,  5,  2, 15, 13, 10, 14,  3,  6,  7,  1,  9,  4],
     [ 7,  9,  3,  1, 13, 12, 11, 14,  2,  6,  5, 10,  4,  0, 15,  8],
     [ 9,  0,  5,  7,  2,  4, 10, 15, 14,  1, 11, 12,  6,  8,  3, 13],
     [ 2, 12,  6, 10,  0, 11,  8,  3,  4, 13,  7,  5, 15, 14,  1,  9],
     [12,  5,  1, 15, 14, 13,  4, 10,  0,  7,  6,  3,  9,  2,  8, 11],
     [13, 11,  7, 14, 12,  1,  3,  9,  5,  0, 15,  4,  8,  6,  2, 10],
     [ 6, 15, 14,  9, 11,  3,  0,  8, 12,  2, 13,  7,  1,  4, 10,  5],
     [10,  2,  8,  4,  7,  6,  1,  5, 15, 11,  9, 14,  3, 12, 13,  0]]"

subsection \<open>Mixing and compression (3.1, 3.2)\<close>

type_synonym vector = "nat \<Rightarrow> u64"

definition rotr64 :: "nat \<Rightarrow> u64 \<Rightarrow> u64" where
  "rotr64 n x = drop_bit n x XOR push_bit (64 - n) x"

text \<open>Sums of \<open>64 word\<close>s are modulo \<open>2 ^ 64\<close>; the rotation constants are 32, 24, 16 and 63.\<close>

definition rfc_G :: "vector \<Rightarrow> nat \<Rightarrow> nat \<Rightarrow> nat \<Rightarrow> nat \<Rightarrow> u64 \<Rightarrow> u64 \<Rightarrow> vector" where
  "rfc_G v a b c d x y =
     (let v = v(a := v a + v b + x);
          v = v(d := rotr64 32 (v d XOR v a));
          v = v(c := v c + v d);
          v = v(b := rotr64 24 (v b XOR v c));
          v = v(a := v a + v b + y);
          v = v(d := rotr64 16 (v d XOR v a));
          v = v(c := v c + v d);
          v = v(b := rotr64 63 (v b XOR v c))
      in v)"

text \<open>The columns and then the diagonals of the four by four matrix, two message words to each.\<close>

definition rfc_round :: "vector \<Rightarrow> nat \<Rightarrow> vector \<Rightarrow> vector" where
  "rfc_round m i v =
     (let s = (\<lambda>k. m (sigma_rows ! (i mod 10) ! k)) in
      fold (\<lambda>(k, a, b, c, d) v. rfc_G v a b c d (s (2 * k)) (s (2 * k + 1)))
        [(0, 0, 4, 8, 12), (1, 1, 5, 9, 13), (2, 2, 6, 10, 14), (3, 3, 7, 11, 15),
         (4, 0, 5, 10, 15), (5, 1, 6, 11, 12), (6, 2, 7, 8, 13), (7, 3, 4, 9, 14)] v)"

text \<open>\<open>t\<close> counts bytes; its low and high words enter at 12 and 13, and the last block inverts
  every bit of word 14.\<close>

definition rfc_F :: "vector \<Rightarrow> vector \<Rightarrow> nat \<Rightarrow> bool \<Rightarrow> vector" where
  "rfc_F h m t f =
     (let v = (\<lambda>i. if i < 8 then h i else iv_word (i - 8));
          v = v(12 := v 12 XOR of_nat (t mod 2 ^ 64));
          v = v(13 := v 13 XOR of_nat (t div 2 ^ 64));
          v = (if f then v(14 := v 14 XOR 0xFFFFFFFFFFFFFFFF) else v);
          v = fold (rfc_round m) [0..<12] v
      in (\<lambda>i. h i XOR v i XOR v (i + 8)))"

subsection \<open>The hash (2.4, 3.3)\<close>

text \<open>Words are little-endian. Block \<open>i\<close> of a text is its bytes from \<open>128 i\<close> on, with zeros after
  the end.\<close>

definition word_at :: "bytes \<Rightarrow> vector" where
  "word_at block i = (\<Sum>j<8. of_nat (unat (block ! (8 * i + j)) * 256 ^ j))"

definition padded :: "bytes \<Rightarrow> bytes" where
  "padded bs = bs @ replicate (128 - length bs) 0"

definition block_at :: "bytes \<Rightarrow> nat \<Rightarrow> bytes" where
  "block_at d i = padded (take 128 (drop (128 * i) d))"

definition digest_bytes :: "vector \<Rightarrow> bytes" where
  "digest_bytes h = map (\<lambda>k. of_nat (unat (h (k div 8)) div 256 ^ (k mod 8))) [0..<64]"

text \<open>The key, when there is one, is a block of its own before the message; there is always at
  least one block; and the last is compressed with the length of the whole input.\<close>

definition rfc7693 :: "nat \<Rightarrow> bytes \<Rightarrow> bytes \<Rightarrow> bytes option" where
  "rfc7693 nn key data =
     (if 1 \<le> nn \<and> nn \<le> 64 \<and> length key \<le> 64 then
        let kk = length key; ll = length data;
            d = (if kk = 0 then data else padded key @ data);
            dd = max 1 ((length d + 127) div 128);
            h = iv_word(0 := iv_word 0 XOR (0x01010000 XOR of_nat (kk * 256) XOR of_nat nn));
            h = fold (\<lambda>i h. rfc_F h (word_at (block_at d i)) ((i + 1) * 128) False) [0..<dd - 1] h;
            h = rfc_F h (word_at (block_at d (dd - 1))) (if kk = 0 then ll else ll + 128) True
        in Some (take nn (digest_bytes h))
      else None)"

subsection \<open>The initial words\<close>

lemma sqrt_digits:
  fixes p q s :: nat
  assumes "q * q \<le> p" and "p < (q + 1) * (q + 1)"
    and "s * s \<le> p * 2 ^ 128" and "p * 2 ^ 128 < (s + 1) * (s + 1)"
  shows "\<lfloor>2 ^ 64 * frac (sqrt (real p))\<rfloor> = int s - int q * 2 ^ 64"
proof -
  have r: "real (q * q) \<le> real p" "real p < real ((q + 1) * (q + 1))"
    "real (s * s) \<le> real (p * 2 ^ 128)" "real (p * 2 ^ 128) < real ((s + 1) * (s + 1))"
    using assms by (simp_all only: of_nat_le_iff of_nat_less_iff)
  have "real q \<le> sqrt (real p)" "sqrt (real p) < real q + 1"
    using r(1,2) by (auto intro!: real_le_rsqrt real_less_lsqrt simp: power2_eq_square algebra_simps)
  then have "\<lfloor>sqrt (real p)\<rfloor> = int q" by (intro floor_unique) simp_all
  then have fr: "frac (sqrt (real p)) = sqrt (real p) - real q" by (simp add: frac_def)
  have "2 ^ 64 * sqrt (real p) = sqrt (real (p * 2 ^ 128))"
  proof -
    have "sqrt ((2 ^ 64) ^ 2) = (2 ^ 64 :: real)" by (rule real_sqrt_abs [THEN trans]) simp
    then show ?thesis by (simp add: real_sqrt_mult)
  qed
  moreover have "real s \<le> sqrt (real (p * 2 ^ 128))"
    using r(3) by (intro real_le_rsqrt) (simp add: power2_eq_square)
  moreover have "sqrt (real (p * 2 ^ 128)) < real s + 1"
    using r(4) by (intro real_less_lsqrt) (simp_all add: power2_eq_square algebra_simps)
  ultimately show ?thesis
    unfolding fr by (intro floor_unique) (auto simp: algebra_simps)
qed

end
