(* ===== verification/Blake2b.thy ===== *)
theory Blake2b
  imports ByteStore Rfc7693
begin

text \<open>
  BLAKE2b, \<open>blake2b.rs\<close>: the compression function and the incremental state, with the byte counter
  a \<open>128 word\<close> as in the code. The state computes one recursion over the whole message
  (\<open>chained\<close>), and that is the hash RFC 7693 defines (\<open>Rfc7693\<close>): the code's initial words, its
  schedule, its mixing, its counter and its buffer are each proved to be the standard's.
\<close>

subsection \<open>The compression function\<close>

definition MAX_OUT_LEN :: nat where "MAX_OUT_LEN = 64"
definition MAX_KEY_LEN :: nat where "MAX_KEY_LEN = 64"
definition BLOCK_LEN :: nat where "BLOCK_LEN = 128"

definition IV :: "u64 list" where
  "IV =
     [0x6a09e667f3bcc908, 0xbb67ae8584caa73b, 0x3c6ef372fe94f82b, 0xa54ff53a5f1d36f1,
      0x510e527fade682d1, 0x9b05688c2b3e6c1f, 0x1f83d9abfb41bd6b, 0x5be0cd19137e2179]"

definition SCHEDULE :: "nat list list" where
  "SCHEDULE =
     [[0, 1, 2, 3, 4, 5, 6, 7, 8, 9, 10, 11, 12, 13, 14, 15],
      [14, 10, 4, 8, 9, 15, 13, 6, 1, 12, 0, 2, 11, 7, 5, 3],
      [11, 8, 12, 0, 5, 2, 15, 13, 10, 14, 3, 6, 7, 1, 9, 4],
      [7, 9, 3, 1, 13, 12, 11, 14, 2, 6, 5, 10, 4, 0, 15, 8],
      [9, 0, 5, 7, 2, 4, 10, 15, 14, 1, 11, 12, 6, 8, 3, 13],
      [2, 12, 6, 10, 0, 11, 8, 3, 4, 13, 7, 5, 15, 14, 1, 9],
      [12, 5, 1, 15, 14, 13, 4, 10, 0, 7, 6, 3, 9, 2, 8, 11],
      [13, 11, 7, 14, 12, 1, 3, 9, 5, 0, 15, 4, 8, 6, 2, 10],
      [6, 15, 14, 9, 11, 3, 0, 8, 12, 2, 13, 7, 1, 4, 10, 5],
      [10, 2, 8, 4, 7, 6, 1, 5, 15, 11, 9, 14, 3, 12, 13, 0],
      [0, 1, 2, 3, 4, 5, 6, 7, 8, 9, 10, 11, 12, 13, 14, 15],
      [14, 10, 4, 8, 9, 15, 13, 6, 1, 12, 0, 2, 11, 7, 5, 3]]"

definition mix :: "u64 list \<Rightarrow> nat \<Rightarrow> nat \<Rightarrow> nat \<Rightarrow> nat \<Rightarrow> u64 \<Rightarrow> u64 \<Rightarrow> u64 list" where
  "mix v a b c d x y =
     (let v = v[a := v ! a + v ! b + x];
          v = v[d := word_rotr 32 (v ! d XOR v ! a)];
          v = v[c := v ! c + v ! d];
          v = v[b := word_rotr 24 (v ! b XOR v ! c)];
          v = v[a := v ! a + v ! b + y];
          v = v[d := word_rotr 16 (v ! d XOR v ! a)];
          v = v[c := v ! c + v ! d]
      in v[b := word_rotr 63 (v ! b XOR v ! c)])"

definition round_of :: "u64 list \<Rightarrow> nat list \<Rightarrow> u64 list \<Rightarrow> u64 list" where
  "round_of m sigma v =
     (let v = mix v 0 4 8 12 (m ! (sigma ! 0)) (m ! (sigma ! 1));
          v = mix v 1 5 9 13 (m ! (sigma ! 2)) (m ! (sigma ! 3));
          v = mix v 2 6 10 14 (m ! (sigma ! 4)) (m ! (sigma ! 5));
          v = mix v 3 7 11 15 (m ! (sigma ! 6)) (m ! (sigma ! 7));
          v = mix v 0 5 10 15 (m ! (sigma ! 8)) (m ! (sigma ! 9));
          v = mix v 1 6 11 12 (m ! (sigma ! 10)) (m ! (sigma ! 11));
          v = mix v 2 7 8 13 (m ! (sigma ! 12)) (m ! (sigma ! 13))
      in mix v 3 4 9 14 (m ! (sigma ! 14)) (m ! (sigma ! 15)))"

definition block_words :: "bytes \<Rightarrow> nat \<Rightarrow> u64 list" where
  "block_words block n = map (\<lambda>i. from_le_bytes (take 8 (drop (i * 8) block))) [0..<n]"

definition compress :: "u64 list \<Rightarrow> 128 word \<Rightarrow> bytes \<Rightarrow> bool \<Rightarrow> u64 list" where
  "compress h t block final =
     (let m = block_words block 16;
          v = h @ IV;
          v = v[12 := v ! 12 XOR ucast t];
          v = v[13 := v ! 13 XOR ucast (drop_bit 64 t)];
          v = (if final then v[14 := NOT (v ! 14)] else v);
          v = fold (round_of m) SCHEDULE v
      in map (\<lambda>i. h ! i XOR (v ! i XOR v ! (i + 8))) [0..<8])"

subsection \<open>The incremental state\<close>

record blake2b =
  h_words :: "u64 list"
  t_bytes :: "128 word"
  buf :: bytes
  buf_len :: nat
  out_len :: nat

definition blake2b_new :: "nat \<Rightarrow> bytes \<Rightarrow> blake2b option" where
  "blake2b_new olen key =
     (if olen = 0 \<or> olen > MAX_OUT_LEN \<or> length key > MAX_KEY_LEN then None
      else
        let s = \<lparr>h_words = IV[0 := IV ! 0 XOR (0x01010000 XOR push_bit 8 (of_nat (length key)) XOR of_nat olen)],
                 t_bytes = 0, buf = replicate BLOCK_LEN 0, buf_len = 0, out_len = olen\<rparr>
        in if key \<noteq> [] then Some (s\<lparr>buf := key @ drop (length key) (buf s), buf_len := BLOCK_LEN\<rparr>)
           else Some s)"

definition flush :: "blake2b \<Rightarrow> blake2b" where
  "flush s =
     (if buf_len s = BLOCK_LEN
      then let t = t_bytes s + of_nat BLOCK_LEN
           in s\<lparr>h_words := compress (h_words s) t (buf s) False, t_bytes := t, buf_len := 0\<rparr>
      else s)"

text \<open>The bytes of a slice written over a buffer.\<close>

definition copy_over :: "bytes \<Rightarrow> nat \<Rightarrow> bytes \<Rightarrow> bytes" where
  "copy_over d i src = take i d @ src @ drop (i + length src) d"

text \<open>A buffer fuller than a block, where the subtraction would stop the program, never occurs
  (\<open>blake2b_ok\<close>).\<close>


function blake2b_update :: "blake2b \<Rightarrow> bytes \<Rightarrow> blake2b" where
  "blake2b_update s input =
     (if input = [] \<or> buf_len s > BLOCK_LEN then s
      else
        let s = flush s;
            n = min (BLOCK_LEN - buf_len s) (length input)
        in blake2b_update
             (s\<lparr>buf := copy_over (buf s) (buf_len s) (take n input), buf_len := buf_len s + n\<rparr>)
             (drop n input))"
  by auto
termination
  by (relation "measure (\<lambda>(s, input). length input)") (auto simp: flush_def BLOCK_LEN_def Let_def)

definition blake2b_finalize :: "blake2b \<Rightarrow> bytes" where
  "blake2b_finalize s =
     (let t = t_bytes s + of_nat (buf_len s);
          block = take (buf_len s) (buf s) @ replicate (BLOCK_LEN - buf_len s) 0;
          h = compress (h_words s) t block True
      in take (out_len s) (concat (map to_le_bytes h)))"

definition blake2b_hash :: "nat \<Rightarrow> bytes \<Rightarrow> bytes \<Rightarrow> bytes option" where
  "blake2b_hash olen key data =
     (case blake2b_new olen key of None \<Rightarrow> None
      | Some s \<Rightarrow> Some (blake2b_finalize (blake2b_update s data)))"

declare blake2b_update.simps [simp del]

subsection \<open>The whole message\<close>

text \<open>The whole message: every block but the last is compressed with the count of bytes up to its
  end, the last is padded and flagged.\<close>

function chain :: "u64 list \<Rightarrow> 128 word \<Rightarrow> bytes \<Rightarrow> u64 list" where
  "chain h t data =
     (if length data \<le> 128
      then compress h (t + of_nat (length data)) (data @ replicate (128 - length data) 0) True
      else chain (compress h (t + 128) (take 128 data) False) (t + 128) (drop 128 data))"
  by auto
termination by (relation "measure (\<lambda>(h, t, data). length data)") auto

declare chain.simps [simp del]

definition chained :: "nat \<Rightarrow> bytes \<Rightarrow> bytes \<Rightarrow> bytes option" where
  "chained olen key data =
     (if 1 \<le> olen \<and> olen \<le> 64 \<and> length key \<le> 64
      then
        let h = IV[0 := IV ! 0 XOR (0x01010000 XOR push_bit 8 (of_nat (length key)) XOR of_nat olen)];
            block = (if key = [] then [] else key @ replicate (128 - length key) 0)
        in Some (take olen (concat (map to_le_bytes (chain h 0 (block @ data)))))
      else None)"

subsection \<open>The incremental state computes it\<close>

definition blake2b_ok :: "blake2b \<Rightarrow> bool" where
  "blake2b_ok s \<longleftrightarrow> length (buf s) = BLOCK_LEN \<and> buf_len s \<le> BLOCK_LEN"

text \<open>The bytes read and not yet compressed.\<close>

definition pending :: "blake2b \<Rightarrow> bytes" where
  "pending s = take (buf_len s) (buf s)"

definition closing :: "blake2b \<Rightarrow> bytes \<Rightarrow> u64 list" where
  "closing s rest = chain (h_words s) (t_bytes s) (pending s @ rest)"

lemma length_pending: "blake2b_ok s \<Longrightarrow> length (pending s) = buf_len s"
  by (simp add: blake2b_ok_def pending_def)

lemma flush_ok: "blake2b_ok s \<Longrightarrow> blake2b_ok (flush s) \<and> buf_len (flush s) < BLOCK_LEN"
  by (auto simp: flush_def blake2b_ok_def Let_def BLOCK_LEN_def)

lemma out_len_flush [simp]: "out_len (flush s) = out_len s"
  by (simp add: flush_def Let_def)

lemma closing_flush:
  assumes "blake2b_ok s" and "rest \<noteq> []"
  shows "closing (flush s) rest = closing s rest"
  using assms
  by (auto simp: flush_def closing_def pending_def blake2b_ok_def BLOCK_LEN_def Let_def
      chain.simps [of "h_words s" _ "buf s @ rest"])

lemma copy_ok:
  assumes "blake2b_ok s" and "n \<le> BLOCK_LEN - buf_len s" and "n \<le> length input"
  shows "blake2b_ok (s\<lparr>buf := copy_over (buf s) (buf_len s) (take n input), buf_len := buf_len s + n\<rparr>)"
    and "closing (s\<lparr>buf := copy_over (buf s) (buf_len s) (take n input), buf_len := buf_len s + n\<rparr>)
           (drop n input @ rest) = closing s (input @ rest)"
proof -
  have e: "take n input @ drop n input @ rest = input @ rest" by (simp flip: append_assoc)
  show "blake2b_ok (s\<lparr>buf := copy_over (buf s) (buf_len s) (take n input), buf_len := buf_len s + n\<rparr>)"
    "closing (s\<lparr>buf := copy_over (buf s) (buf_len s) (take n input), buf_len := buf_len s + n\<rparr>)
       (drop n input @ rest) = closing s (input @ rest)"
    using assms by (auto simp: copy_over_def blake2b_ok_def closing_def pending_def min_absorb2 e)
qed

lemma update_closing:
  "blake2b_ok s \<Longrightarrow>
     blake2b_ok (blake2b_update s input) \<and> out_len (blake2b_update s input) = out_len s \<and>
     closing (blake2b_update s input) rest = closing s (input @ rest)"
proof (induction s input rule: blake2b_update.induct)
  case (1 s input)
  show ?case
  proof (cases "input = []")
    case True
    then show ?thesis using 1(2) by (simp add: blake2b_update.simps)
  next
    case False
    then have go: "\<not> (input = [] \<or> buf_len s > BLOCK_LEN)" using 1(2) by (auto simp: blake2b_ok_def)
    let ?f = "flush s"
    let ?n = "min (BLOCK_LEN - buf_len ?f) (length input)"
    let ?s = "?f\<lparr>buf := copy_over (buf ?f) (buf_len ?f) (take ?n input), buf_len := buf_len ?f + ?n\<rparr>"
    have f: "blake2b_ok ?f" using flush_ok [OF 1(2)] by simp
    have u: "blake2b_update s input = blake2b_update ?s (drop ?n input)"
      using go by (subst blake2b_update.simps) (simp add: Let_def)
    have s: "blake2b_ok ?s" by (rule copy_ok(1) [OF f]) simp_all
    have c: "closing ?s (drop ?n input @ rest) = closing s (input @ rest)"
      using copy_ok(2) [OF f, of ?n input rest] closing_flush [OF 1(2), of "input @ rest"] go by simp
    show ?thesis
      unfolding u using 1(1) [OF go refl refl s] c by simp
  qed
qed

lemma update_all:
  "blake2b_ok s \<Longrightarrow>
     blake2b_ok (foldl blake2b_update s chunks) \<and> out_len (foldl blake2b_update s chunks) = out_len s \<and>
     closing (foldl blake2b_update s chunks) rest = closing s (concat chunks @ rest)"
  by (induction chunks arbitrary: s) (use update_closing in auto)

lemma finalize_closing:
  "blake2b_ok s \<Longrightarrow> blake2b_finalize s = take (out_len s) (concat (map to_le_bytes (closing s [])))"
  by (simp add: blake2b_finalize_def closing_def pending_def blake2b_ok_def BLOCK_LEN_def Let_def chain.simps)

lemma new_ok:
  "blake2b_new olen key = Some s \<Longrightarrow>
     1 \<le> olen \<and> olen \<le> 64 \<and> length key \<le> 64 \<and> blake2b_ok s \<and> out_len s = olen \<and>
     chained olen key data = Some (take olen (concat (map to_le_bytes (closing s data))))"
  by (auto simp: blake2b_new_def chained_def blake2b_ok_def closing_def pending_def MAX_OUT_LEN_def
      MAX_KEY_LEN_def BLOCK_LEN_def Let_def split: if_splits)

lemma new_none: "blake2b_new olen key = None \<Longrightarrow> chained olen key data = None"
  by (auto simp: blake2b_new_def chained_def MAX_OUT_LEN_def MAX_KEY_LEN_def Let_def split: if_splits)

lemma length_chain [simp]: "length (chain h t data) = 8"
  by (induction h t data rule: chain.induct) (subst chain.simps, simp add: compress_def Let_def)

lemma length_words: "length (concat (map to_le_bytes ws)) = 8 * length ws"
  by (induction ws) (simp_all add: to_le_bytes_def)

subsection \<open>It is RFC 7693\<close>

text \<open>The initial words: \<open>s\<close> is the integer part of \<open>2 ^ 64\<close> times the square root.\<close>

lemma iv_word_digits:
  assumes "q * q \<le> first_primes ! i" and "first_primes ! i < (q + 1) * (q + 1)"
    and "s * s \<le> first_primes ! i * 2 ^ 128" and "first_primes ! i * 2 ^ 128 < (s + 1) * (s + 1)"
  shows "iv_word i = of_int (int s - int q * 2 ^ 64)"
  unfolding iv_word_def using sqrt_digits [OF assms] by simp

lemma iv_words:
  "iv_word 0 = 0x6a09e667f3bcc908" "iv_word 1 = 0xbb67ae8584caa73b" "iv_word 2 = 0x3c6ef372fe94f82b"
  "iv_word 3 = 0xa54ff53a5f1d36f1" "iv_word 4 = 0x510e527fade682d1" "iv_word 5 = 0x9b05688c2b3e6c1f"
  "iv_word 6 = 0x1f83d9abfb41bd6b" "iv_word 7 = 0x5be0cd19137e2179"
proof -
  show "iv_word 0 = 0x6a09e667f3bcc908"
    by (subst iv_word_digits [where q = 1 and s = "0x16a09e667f3bcc908"]) (simp_all add: first_primes_def)
  show "iv_word 1 = 0xbb67ae8584caa73b"
    by (subst iv_word_digits [where q = 1 and s = "0x1bb67ae8584caa73b"]) (simp_all add: first_primes_def)
  show "iv_word 2 = 0x3c6ef372fe94f82b"
    by (subst iv_word_digits [where q = 2 and s = "0x23c6ef372fe94f82b"]) (simp_all add: first_primes_def)
  show "iv_word 3 = 0xa54ff53a5f1d36f1"
    by (subst iv_word_digits [where q = 2 and s = "0x2a54ff53a5f1d36f1"]) (simp_all add: first_primes_def)
  show "iv_word 4 = 0x510e527fade682d1"
    by (subst iv_word_digits [where q = 3 and s = "0x3510e527fade682d1"]) (simp_all add: first_primes_def)
  show "iv_word 5 = 0x9b05688c2b3e6c1f"
    by (subst iv_word_digits [where q = 3 and s = "0x39b05688c2b3e6c1f"]) (simp_all add: first_primes_def)
  show "iv_word 6 = 0x1f83d9abfb41bd6b"
    by (subst iv_word_digits [where q = 4 and s = "0x41f83d9abfb41bd6b"]) (simp_all add: first_primes_def)
  show "iv_word 7 = 0x5be0cd19137e2179"
    by (subst iv_word_digits [where q = 4 and s = "0x45be0cd19137e2179"]) (simp_all add: first_primes_def)
qed

lemma IV_map: "IV = map iv_word [0..<8]"
  using iv_words by (simp add: IV_def upt_rec numeral_eq_Suc)

lemma SCHEDULE_map: "SCHEDULE = map (\<lambda>i. sigma_rows ! (i mod 10)) [0..<12]"
  by (simp add: SCHEDULE_def sigma_rows_def upt_rec)

lemma sigma_small: "k < 16 \<Longrightarrow> sigma_rows ! (i mod 10) ! k < 16"
proof -
  assume k: "k < 16"
  have all: "list_all (\<lambda>r. length r = 16 \<and> list_all (\<lambda>x. x < 16) r) sigma_rows" "length sigma_rows = 10"
    by (simp_all add: sigma_rows_def)
  have "sigma_rows ! (i mod 10) \<in> set sigma_rows" using all(2) by (intro nth_mem) simp
  then have "length (sigma_rows ! (i mod 10)) = 16" "list_all (\<lambda>x. x < 16) (sigma_rows ! (i mod 10))"
    using all(1) by (simp_all add: list_all_iff)
  then show ?thesis using k by (simp add: list_all_length)
qed

lemma rotr_two_shifts: "n \<le> 64 \<Longrightarrow> word_rotr n x = rotr64 n x"
proof (rule bit_word_eqI)
  fix m assume "n \<le> 64" "m < LENGTH(64)"
  then show "bit (word_rotr n x) m = bit (rotr64 n x) m"
  proof (cases "m + n < 64")
    case True
    then have "\<not> 64 - n \<le> m" using \<open>m < LENGTH(64)\<close> by simp
    then show ?thesis
      using True by (simp add: rotr64_def bit_word_rotr_iff bit_xor_iff bit_drop_bit_eq bit_push_bit_iff add.commute)
  next
    case False
    moreover have "\<not> bit x (m + n)" using False bit_imp_le_length [of x "m + n"] by auto
    moreover have "64 - n \<le> m" using False by simp
    moreover have "(m + n) mod 64 = m - (64 - n)"
      using False \<open>n \<le> 64\<close> \<open>m < LENGTH(64)\<close> by (simp add: mod_if)
    ultimately show ?thesis
      using \<open>n \<le> 64\<close> \<open>m < LENGTH(64)\<close>
      by (simp add: rotr64_def bit_word_rotr_iff bit_xor_iff bit_drop_bit_eq bit_push_bit_iff add.commute)
  qed
qed

lemma rotations:
  "word_rotr 32 x = rotr64 32 x" "word_rotr 24 x = rotr64 24 x"
  "word_rotr 16 x = rotr64 16 x" "word_rotr 63 x = rotr64 63 x"
  by (simp_all add: rotr_two_shifts)

text \<open>A list of 16 words is the vector of its first 16 indices.\<close>

lemma vec_nth: "a < 16 \<Longrightarrow> map (f :: vector) [0..<16] ! a = f a"
  by simp

lemma vec_update: "a < 16 \<Longrightarrow> (map (f :: vector) [0..<16])[a := e] = map (f(a := e)) [0..<16]"
  by (rule nth_equalityI) (auto simp: nth_list_update)

lemma vec_let: "(\<And>h. k (map h [0..<16]) = map (g h) [0..<16]) \<Longrightarrow>
    Let (map (f :: vector) [0..<16]) k = map (Let f g :: vector) [0..<16]"
  by simp

lemma mix_G:
  assumes "a < 16" and "b < 16" and "c < 16" and "d < 16"
  shows "mix (map v [0..<16]) a b c d x y = map (rfc_G v a b c d x y) [0..<16]"
  unfolding mix_def rfc_G_def
  by (simp only: vec_nth vec_update assms rotations, rule vec_let)+
    (simp only: vec_nth vec_update assms rotations Let_def)

lemma round_rfc:
  assumes "\<And>k. k < 16 \<Longrightarrow> sigma ! k = sigma_rows ! (i mod 10) ! k"
  shows "round_of (map m [0..<16]) sigma (map v [0..<16]) = map (rfc_round m i v) [0..<16]"
proof -
  have word: "map m [0..<16] ! (sigma_rows ! (i mod 10) ! k) = m (sigma_rows ! (i mod 10) ! k)" if "k < 16" for k
    using sigma_small [OF that] by (rule vec_nth)
  show ?thesis
    by (simp add: round_of_def rfc_round_def Let_def mix_G assms word del: map_map upt_rec)
qed

lemma rounds_rfc:
  "fold (round_of (map m [0..<16])) (map (\<lambda>i. sigma_rows ! (i mod 10)) is) (map v [0..<16]) =
     map (fold (rfc_round m) is v) [0..<16]"
  by (induction "is" arbitrary: v) (simp_all add: round_rfc)

lemma from_le_bytes_sum: "from_le_bytes bs = (\<Sum>j<length bs. of_nat (unat (bs ! j) * 256 ^ j))"
proof (induction bs)
  case (Cons b bs)
  have "n < 8" if "bit b n" for n using bit_imp_le_length [OF that] by simp
  then have "from_le_bytes (b # bs) = ucast b + push_bit 8 (from_le_bytes bs)"
    by (simp, intro disjunctive_add_eq_or [symmetric])
      (fastforce intro!: bit_eqI simp: bit_simps)
  also have "\<dots> = of_nat (unat b) + 256 * (\<Sum>j<length bs. of_nat (unat (bs ! j) * 256 ^ j))"
    by (simp add: Cons.IH push_bit_eq_mult mult.commute)
  also have "\<dots> = (\<Sum>j<length (b # bs). of_nat (unat ((b # bs) ! j) * 256 ^ j))"
    by (simp add: sum.lessThan_Suc_shift sum_distrib_left mult.left_commute del: sum.lessThan_Suc)
  finally show ?case .
qed simp

lemma block_words_rfc:
  assumes "length block = 128"
  shows "block_words block 16 = map (word_at block) [0..<16]"
proof -
  have "from_le_bytes (take 8 (drop (i * 8) block)) = word_at block i" if "i < 16" for i
  proof -
    have "length (take 8 (drop (i * 8) block)) = 8" using that assms by simp
    then show ?thesis unfolding from_le_bytes_sum word_at_def by (simp add: mult.commute)
  qed
  then show ?thesis by (simp add: block_words_def)
qed

text \<open>The counter is kept in 128 bits; its two halves are the words of the standard.\<close>

lemma counter_words:
  "(ucast (of_nat T :: 128 word) :: u64) = of_nat (T mod 2 ^ 64)"
  "(ucast (drop_bit 64 (of_nat T :: 128 word)) :: u64) = of_nat (T div 2 ^ 64)"
  unfolding drop_bit_eq_div [symmetric] take_bit_eq_mod [symmetric]
  by (auto intro!: bit_eqI simp: bit_simps)

lemma compress_rfc:
  assumes "length block = 128"
  shows "compress (map h [0..<8]) (of_nat T) block final = map (rfc_F h (word_at block) T final) [0..<8]"
proof -
  have v: "map h [0..<8] @ IV = map (\<lambda>i. if i < 8 then h i else iv_word (i - 8)) [0..<16]"
    by (rule nth_equalityI) (auto simp: IV_map nth_append)
  have "(0xFFFFFFFFFFFFFFFF :: u64) = - 1" by simp
  then have inv: "NOT x = x XOR 0xFFFFFFFFFFFFFFFF" for x :: u64
    by (simp only: bit.xor_one_right)
  show ?thesis
    unfolding compress_def rfc_F_def Let_def v SCHEDULE_map block_words_rfc [OF assms] counter_words
    by (cases final) (simp_all add: vec_nth vec_update rounds_rfc inv xor.assoc)
qed

subsection \<open>The message\<close>

definition blocks :: "bytes \<Rightarrow> nat" where
  "blocks d = max 1 ((length d + 127) div 128)"

text \<open>The standard's loop over the blocks of a text, \<open>T\<close> bytes into the input.\<close>

definition run_blocks :: "vector \<Rightarrow> nat \<Rightarrow> bytes \<Rightarrow> vector" where
  "run_blocks h T d =
     rfc_F (fold (\<lambda>i h. rfc_F h (word_at (block_at d i)) (T + (i + 1) * 128) False) [0..<blocks d - 1] h)
       (word_at (block_at d (blocks d - 1))) (T + length d) True"

lemma run_blocks_one: "length d \<le> 128 \<Longrightarrow> run_blocks h T d = rfc_F h (word_at (padded d)) (T + length d) True"
proof -
  assume "length d \<le> 128"
  then have "blocks d = 1" by (simp add: blocks_def)
  then show ?thesis using \<open>length d \<le> 128\<close> by (simp add: run_blocks_def block_at_def)
qed

lemma run_blocks_more:
  assumes "128 < length d"
  shows "run_blocks h T d = run_blocks (rfc_F h (word_at (take 128 d)) (T + 128) False) (T + 128) (drop 128 d)"
proof -
  let ?d = "drop 128 d"
  obtain n where n: "blocks ?d = Suc n" by (cases "blocks ?d") (simp_all add: blocks_def)
  have "(length d + 127) div 128 = Suc ((length ?d + 127) div 128)" using assms by simp
  moreover have "1 \<le> (length ?d + 127) div 128" using assms by simp
  ultimately have b: "blocks d - 1 = Suc n" using n by (simp add: blocks_def)
  have at: "block_at d (Suc i) = block_at ?d i" for i
    by (simp add: block_at_def add.commute)
  have first: "block_at d 0 = take 128 d" using assms by (simp add: block_at_def padded_def)
  let ?f = "\<lambda>i h. rfc_F h (word_at (block_at d i)) (T + (i + 1) * 128) False"
  have "fold ?f [0..<Suc n] h = fold (\<lambda>i. ?f (Suc i)) [0..<n] (?f 0 h)"
    by (simp only: upt_conv_Cons zero_less_Suc map_Suc_upt [symmetric] fold_simps fold_map comp_def)
  then show ?thesis
    using n assms by (simp only: run_blocks_def b) (simp add: at first add.assoc del: upt_Suc)
qed

lemma chain_rfc: "chain (map h [0..<8]) (of_nat T) d = map (run_blocks h T d) [0..<8]"
proof (induction "length d" arbitrary: h T d rule: less_induct)
  case less
  show ?case
  proof (cases "length d \<le> 128")
    case True
    then have "length (d @ replicate (128 - length d) 0) = 128" by simp
    from compress_rfc [OF this, of h "T + length d" True] True show ?thesis
      by (subst chain.simps) (simp add: run_blocks_one padded_def)
  next
    case False
    then have l: "length (take 128 d) = 128" by simp
    have "of_nat T + 128 = (of_nat (T + 128) :: 128 word)" by simp
    then show ?thesis
      using False less [of "drop 128 d" "rfc_F h (word_at (take 128 d)) (T + 128) False" "T + 128"]
        compress_rfc [OF l, of h "T + 128" False] run_blocks_more [of d h T]
      by (subst chain.simps) simp
  qed
qed

lemma concat_blocks:
  "concat (map (\<lambda>i. map (f i) [0..<8]) [0..<n]) = map (\<lambda>k. f (k div 8) (k mod 8)) [0..<8 * n]"
proof (induction n)
  case (Suc n)
  have "[0..<8 * Suc n] = [0..<8 * n] @ map (\<lambda>j. j + 8 * n) [0..<8]"
    using upt_add_eq_append [of 0 "8 * n" 8] by (simp add: map_add_upt add.commute)
  moreover have "map (f n) [0..<8] = map (\<lambda>j. f ((j + 8 * n) div 8) ((j + 8 * n) mod 8)) [0..<8]"
    by simp
  ultimately show ?case using Suc by simp
qed simp

lemma digest_rfc: "concat (map to_le_bytes (map h [0..<8])) = digest_bytes h"
proof -
  have "(ucast (drop_bit (8 * j) w) :: u8) = of_nat (unat (drop_bit (8 * j) w))" for j and w :: u64
    by (rule of_nat_unat [symmetric])
  moreover have "unat (drop_bit (8 * j) w) = unat w div 256 ^ j" for j and w :: u64
    by (simp only: unat_drop_bit_eq) (simp add: drop_bit_eq_div power_mult)
  ultimately have "to_le_bytes w = map (\<lambda>j. of_nat (unat w div 256 ^ j)) [0..<8]" for w
    by (simp only: to_le_bytes_def)
  then show ?thesis
    using concat_blocks [of "\<lambda>i j. of_nat (unat (h i) div 256 ^ j)" 8]
    by (simp add: digest_bytes_def comp_def)
qed

lemma chained_rfc: "chained olen key data = rfc7693 olen key data"
proof -
  let ?h = "iv_word(0 := iv_word 0 XOR (0x01010000 XOR of_nat (length key * 256) XOR of_nat olen))"
  let ?d = "if length key = 0 then data else padded key @ data"
  have "IV[0 := IV ! 0 XOR (0x01010000 XOR push_bit 8 (of_nat (length key)) XOR of_nat olen)] = map ?h [0..<8]"
    by (rule nth_equalityI) (auto simp: IV_map nth_list_update push_bit_eq_mult)
  moreover have "(if key = [] then [] else key @ replicate (128 - length key) 0) @ data = ?d"
    by (simp add: padded_def)
  moreover have "chain (map ?h [0..<8]) 0 ?d = map (run_blocks ?h 0 ?d) [0..<8]"
    using chain_rfc [of ?h 0 ?d] by simp
  ultimately have c: "chained olen key data =
      (if 1 \<le> olen \<and> olen \<le> 64 \<and> length key \<le> 64 then Some (take olen (digest_bytes (run_blocks ?h 0 ?d))) else None)"
    by (simp only: chained_def Let_def digest_rfc)
  have "0 + length ?d = (if length key = 0 then length data else length data + 128)"
    if "length key \<le> 64" using that by (simp add: padded_def)
  then show ?thesis
    unfolding c rfc7693_def Let_def run_blocks_def blocks_def by (simp only: add_0 cong: if_cong)
qed

lemma rfc7693_length:
  "map_option length (rfc7693 olen key data) = (if 1 \<le> olen \<and> olen \<le> 64 \<and> length key \<le> 64 then Some olen else None)"
  by (simp add: rfc7693_def digest_bytes_def Let_def)

lemma blake2b_fed:
  "map_option (\<lambda>s. blake2b_finalize (foldl blake2b_update s cs)) (blake2b_new olen key) =
     rfc7693 olen key (concat cs)"
proof (cases "blake2b_new olen key")
  case None
  then show ?thesis by (simp add: new_none flip: chained_rfc)
next
  case (Some s)
  note n = new_ok [OF Some, of "concat cs"]
  show ?thesis
    using n update_all [of s cs "[]"] by (simp add: Some finalize_closing flip: chained_rfc)
qed

lemma blake2b_one_shot: "blake2b_hash olen key data = rfc7693 olen key data"
  using blake2b_fed [of "[data]" olen key] by (cases "blake2b_new olen key") (simp_all add: blake2b_hash_def)

text \<open>C24. However a message is cut into chunks, feeding them one after the other and closing gives
  the digest RFC 7693 defines for the whole message, from the standard's own constants, rounds, byte
  counts and numbering of blocks; so does the one-shot \<open>hash\<close>; the digest has the length asked for; and it is refused exactly when that length is 0 or
  over 64 or the key is over 64 bytes.\<close>

theorem blake2b_is_rfc7693:
  "map_option (\<lambda>s. blake2b_finalize (foldl blake2b_update s chunks)) (blake2b_new olen key) =
     rfc7693 olen key (concat chunks) \<and>
   blake2b_hash olen key data = rfc7693 olen key data \<and>
   map_option length (blake2b_hash olen key data) =
     (if 1 \<le> olen \<and> olen \<le> 64 \<and> length key \<le> 64 then Some olen else None)"
  by (simp add: blake2b_fed blake2b_one_shot rfc7693_length)

end
