(* ===== verification/Blake2bVector.thy ===== *)
theory Blake2bVector
  imports Blake2b
begin

text \<open>
  The test vector of RFC 7693, appendix A: BLAKE2b-512 of the three bytes \<open>abc\<close>, given by the code
  and by the transcription of the standard. The twelve rounds are run on natural numbers below
  \<open>2 ^ 64\<close>, one lemma a round, each ending in a state the appendix prints.
\<close>

subsection \<open>The rounds on natural numbers\<close>

definition nat_rotr :: "nat \<Rightarrow> nat \<Rightarrow> nat" where
  "nat_rotr n x = drop_bit n (take_bit 64 x) XOR push_bit (64 - n) (take_bit n x)"

definition nat_sum :: "nat \<Rightarrow> nat \<Rightarrow> nat" where
  "nat_sum x y = take_bit 64 (x + y)"

text \<open>The mixing of four numbers, in the order of its eight assignments.\<close>

type_synonym four = "nat \<times> nat \<times> nat \<times> nat"

fun add_to_a :: "nat \<Rightarrow> four \<Rightarrow> four" where
  "add_to_a x (a, b, c, d) = (nat_sum (nat_sum a b) x, b, c, d)"

fun turn_d :: "nat \<Rightarrow> four \<Rightarrow> four" where
  "turn_d n (a, b, c, d) = (a, b, c, nat_rotr n (d XOR a))"

fun add_to_c :: "four \<Rightarrow> four" where
  "add_to_c (a, b, c, d) = (a, b, nat_sum c d, d)"

fun turn_b :: "nat \<Rightarrow> four \<Rightarrow> four" where
  "turn_b n (a, b, c, d) = (a, nat_rotr n (b XOR c), c, d)"

definition nat_mix :: "nat \<Rightarrow> nat \<Rightarrow> nat \<Rightarrow> nat \<Rightarrow> nat \<Rightarrow> nat \<Rightarrow> four" where
  "nat_mix a b c d x y =
     turn_b 63 (add_to_c (turn_d 16 (add_to_a y
       (turn_b 24 (add_to_c (turn_d 32 (add_to_a x (a, b, c, d))))))))"

text \<open>The vector a list of numbers stands for.\<close>

definition of_list :: "nat list \<Rightarrow> vector" where
  "of_list ns i = of_nat (ns ! i)"

lemma rotr_nat: "0 < n \<Longrightarrow> n < 64 \<Longrightarrow> rotr64 n (of_nat x) = of_nat (nat_rotr n x)"
  by (rule bit_word_eqI) (auto simp: rotr64_def nat_rotr_def bit_simps)

lemma sum_nat: "of_nat (nat_sum x y) = (of_nat x + of_nat y :: u64)"
  unfolding nat_sum_def by (simp add: word_of_nat_eq_iff flip: of_nat_add)

lemma xor_nat: "of_nat (x XOR y) = (of_nat x XOR of_nat y :: u64)"
  by (rule bit_word_eqI) (simp add: bit_simps)

lemma of_list_update: "i < length ns \<Longrightarrow> of_list (ns[i := x]) = (of_list ns)(i := of_nat x)"
  by (rule ext) (simp add: of_list_def)

text \<open>The standard's mixing, as four updates.\<close>

lemma G_updates:
  assumes "a \<noteq> b" "a \<noteq> c" "a \<noteq> d" "b \<noteq> c" "b \<noteq> d" "c \<noteq> d"
  shows "rfc_G v a b c d x y =
    (let a1 = v a + v b + x; d1 = rotr64 32 (v d XOR a1); c1 = v c + d1; b1 = rotr64 24 (v b XOR c1);
         a2 = a1 + b1 + y; d2 = rotr64 16 (d1 XOR a2); c2 = c1 + d2; b2 = rotr64 63 (b1 XOR c2)
     in v(a := a2, b := b2, c := c2, d := d2))"
proof (rule ext)
  fix k
  consider "k = a" | "k = b" | "k = c" | "k = d" | "k \<noteq> a" "k \<noteq> b" "k \<noteq> c" "k \<noteq> d" by blast
  then show "rfc_G v a b c d x y k =
    (let a1 = v a + v b + x; d1 = rotr64 32 (v d XOR a1); c1 = v c + d1; b1 = rotr64 24 (v b XOR c1);
         a2 = a1 + b1 + y; d2 = rotr64 16 (d1 XOR a2); c2 = c1 + d2; b2 = rotr64 63 (b1 XOR c2)
     in v(a := a2, b := b2, c := c2, d := d2)) k"
    by cases (simp_all add: rfc_G_def Let_def assms assms [symmetric])
qed

lemma G_nat:
  assumes "a < length ns" "b < length ns" "c < length ns" "d < length ns"
    and "a \<noteq> b" "a \<noteq> c" "a \<noteq> d" "b \<noteq> c" "b \<noteq> d" "c \<noteq> d"
  shows "rfc_G (of_list ns) a b c d (of_list ms i) (of_list ms j) =
    (case nat_mix (ns ! a) (ns ! b) (ns ! c) (ns ! d) (ms ! i) (ms ! j) of
       (a', b', c', d') \<Rightarrow> of_list (ns[a := a', b := b', c := c', d := d']))"
proof -
  have at: "of_list ns k = of_nat (ns ! k)" for ns k by (simp add: of_list_def)
  show ?thesis
    unfolding G_updates [OF assms(5-10)] nat_mix_def Let_def prod.case add_to_a.simps turn_d.simps
      add_to_c.simps turn_b.simps
    using assms(1-4) by (simp add: of_list_update at sum_nat xor_nat flip: rotr_nat)
qed

lemma update_16:
  "[v0, v1, v2, v3, v4, v5, v6, v7, v8, v9, v10, v11, v12, v13, v14, v15][0 := z] = [z, v1, v2, v3, v4, v5, v6, v7, v8, v9, v10, v11, v12, v13, v14, v15]"
  "[v0, v1, v2, v3, v4, v5, v6, v7, v8, v9, v10, v11, v12, v13, v14, v15][1 := z] = [v0, z, v2, v3, v4, v5, v6, v7, v8, v9, v10, v11, v12, v13, v14, v15]"
  "[v0, v1, v2, v3, v4, v5, v6, v7, v8, v9, v10, v11, v12, v13, v14, v15][2 := z] = [v0, v1, z, v3, v4, v5, v6, v7, v8, v9, v10, v11, v12, v13, v14, v15]"
  "[v0, v1, v2, v3, v4, v5, v6, v7, v8, v9, v10, v11, v12, v13, v14, v15][3 := z] = [v0, v1, v2, z, v4, v5, v6, v7, v8, v9, v10, v11, v12, v13, v14, v15]"
  "[v0, v1, v2, v3, v4, v5, v6, v7, v8, v9, v10, v11, v12, v13, v14, v15][4 := z] = [v0, v1, v2, v3, z, v5, v6, v7, v8, v9, v10, v11, v12, v13, v14, v15]"
  "[v0, v1, v2, v3, v4, v5, v6, v7, v8, v9, v10, v11, v12, v13, v14, v15][5 := z] = [v0, v1, v2, v3, v4, z, v6, v7, v8, v9, v10, v11, v12, v13, v14, v15]"
  "[v0, v1, v2, v3, v4, v5, v6, v7, v8, v9, v10, v11, v12, v13, v14, v15][6 := z] = [v0, v1, v2, v3, v4, v5, z, v7, v8, v9, v10, v11, v12, v13, v14, v15]"
  "[v0, v1, v2, v3, v4, v5, v6, v7, v8, v9, v10, v11, v12, v13, v14, v15][7 := z] = [v0, v1, v2, v3, v4, v5, v6, z, v8, v9, v10, v11, v12, v13, v14, v15]"
  "[v0, v1, v2, v3, v4, v5, v6, v7, v8, v9, v10, v11, v12, v13, v14, v15][8 := z] = [v0, v1, v2, v3, v4, v5, v6, v7, z, v9, v10, v11, v12, v13, v14, v15]"
  "[v0, v1, v2, v3, v4, v5, v6, v7, v8, v9, v10, v11, v12, v13, v14, v15][9 := z] = [v0, v1, v2, v3, v4, v5, v6, v7, v8, z, v10, v11, v12, v13, v14, v15]"
  "[v0, v1, v2, v3, v4, v5, v6, v7, v8, v9, v10, v11, v12, v13, v14, v15][10 := z] = [v0, v1, v2, v3, v4, v5, v6, v7, v8, v9, z, v11, v12, v13, v14, v15]"
  "[v0, v1, v2, v3, v4, v5, v6, v7, v8, v9, v10, v11, v12, v13, v14, v15][11 := z] = [v0, v1, v2, v3, v4, v5, v6, v7, v8, v9, v10, z, v12, v13, v14, v15]"
  "[v0, v1, v2, v3, v4, v5, v6, v7, v8, v9, v10, v11, v12, v13, v14, v15][12 := z] = [v0, v1, v2, v3, v4, v5, v6, v7, v8, v9, v10, v11, z, v13, v14, v15]"
  "[v0, v1, v2, v3, v4, v5, v6, v7, v8, v9, v10, v11, v12, v13, v14, v15][13 := z] = [v0, v1, v2, v3, v4, v5, v6, v7, v8, v9, v10, v11, v12, z, v14, v15]"
  "[v0, v1, v2, v3, v4, v5, v6, v7, v8, v9, v10, v11, v12, v13, v14, v15][14 := z] = [v0, v1, v2, v3, v4, v5, v6, v7, v8, v9, v10, v11, v12, v13, z, v15]"
  "[v0, v1, v2, v3, v4, v5, v6, v7, v8, v9, v10, v11, v12, v13, v14, v15][15 := z] = [v0, v1, v2, v3, v4, v5, v6, v7, v8, v9, v10, v11, v12, v13, v14, z]"
  by (simp_all add: numeral_eq_Suc)

lemma round_nat:
  assumes "nat_mix v0 v4 v8 v12 (ms ! (sigma_rows ! (i mod 10) ! 0)) (ms ! (sigma_rows ! (i mod 10) ! 1)) =
      (c0, c4, c8, c12)"
    and "nat_mix v1 v5 v9 v13 (ms ! (sigma_rows ! (i mod 10) ! 2)) (ms ! (sigma_rows ! (i mod 10) ! 3)) =
      (c1, c5, c9, c13)"
    and "nat_mix v2 v6 v10 v14 (ms ! (sigma_rows ! (i mod 10) ! 4)) (ms ! (sigma_rows ! (i mod 10) ! 5)) =
      (c2, c6, c10, c14)"
    and "nat_mix v3 v7 v11 v15 (ms ! (sigma_rows ! (i mod 10) ! 6)) (ms ! (sigma_rows ! (i mod 10) ! 7)) =
      (c3, c7, c11, c15)"
    and "nat_mix c0 c5 c10 c15 (ms ! (sigma_rows ! (i mod 10) ! 8)) (ms ! (sigma_rows ! (i mod 10) ! 9)) =
      (d0, d5, d10, d15)"
    and "nat_mix c1 c6 c11 c12 (ms ! (sigma_rows ! (i mod 10) ! 10)) (ms ! (sigma_rows ! (i mod 10) ! 11)) =
      (d1, d6, d11, d12)"
    and "nat_mix c2 c7 c8 c13 (ms ! (sigma_rows ! (i mod 10) ! 12)) (ms ! (sigma_rows ! (i mod 10) ! 13)) =
      (d2, d7, d8, d13)"
    and "nat_mix c3 c4 c9 c14 (ms ! (sigma_rows ! (i mod 10) ! 14)) (ms ! (sigma_rows ! (i mod 10) ! 15)) =
      (d3, d4, d9, d14)"
  shows "rfc_round (of_list ms) i (of_list [v0, v1, v2, v3, v4, v5, v6, v7, v8, v9, v10, v11, v12, v13, v14, v15]) =
    of_list [d0, d1, d2, d3, d4, d5, d6, d7, d8, d9, d10, d11, d12, d13, d14, d15]"
  using assms by (simp add: rfc_round_def G_nat update_16)

text \<open>The message block: the three bytes, and zeros.\<close>

definition abc_words :: "nat list" where
  "abc_words = 0x636261 # replicate 15 0"

lemma abc_round_0:
  "rfc_round (of_list abc_words) 0 (of_list
     [0x6A09E667F2BDC948, 0xBB67AE8584CAA73B, 0x3C6EF372FE94F82B, 0xA54FF53A5F1D36F1,
      0x510E527FADE682D1, 0x9B05688C2B3E6C1F, 0x1F83D9ABFB41BD6B, 0x5BE0CD19137E2179,
      0x6A09E667F3BCC908, 0xBB67AE8584CAA73B, 0x3C6EF372FE94F82B, 0xA54FF53A5F1D36F1,
      0x510E527FADE682D2, 0x9B05688C2B3E6C1F, 0xE07C265404BE4294, 0x5BE0CD19137E2179]) =
   of_list
     [0x86B7C1568029BB79, 0xC12CBCC809FF59F3, 0xC6A5214CC0EACA8E, 0xC87CD524C14CC5D,
      0x44EE6039BD86A9F7, 0xA447C850AA694A7E, 0xDE080F1BB1C0F84B, 0x595CB8A9A1ACA66C,
      0xBEC3AE837EAC4887, 0x6267FC79DF9D6AD1, 0xFA87B01273FA6DBE, 0x521A715C63E08D8A,
      0xE02D0975B8D37A83, 0x1C7B754F08B7D193, 0x8F885A76B6E578FE, 0x2318A24E2140FC64]"
  by (rule round_nat) (simp add: nat_mix_def nat_sum_def nat_rotr_def abc_words_def sigma_rows_def)+

lemma abc_round_1:
  "rfc_round (of_list abc_words) 1 (of_list
     [0x86B7C1568029BB79, 0xC12CBCC809FF59F3, 0xC6A5214CC0EACA8E, 0xC87CD524C14CC5D,
      0x44EE6039BD86A9F7, 0xA447C850AA694A7E, 0xDE080F1BB1C0F84B, 0x595CB8A9A1ACA66C,
      0xBEC3AE837EAC4887, 0x6267FC79DF9D6AD1, 0xFA87B01273FA6DBE, 0x521A715C63E08D8A,
      0xE02D0975B8D37A83, 0x1C7B754F08B7D193, 0x8F885A76B6E578FE, 0x2318A24E2140FC64]) =
   of_list
     [0x53281E83806010F2, 0x3594B403F81B4393, 0x8CD63C7462DE0DFF, 0x85F693F3DA53F974,
      0xBAABDBB2F386D9AE, 0xCA5425AEC65A10A8, 0xC6A22E2FF0F7AA48, 0xC6A56A51CB89C595,
      0x224E6A3369224F96, 0x500E125E58A92923, 0xE9E4AD0D0E1A0D48, 0x85DF9DC143C59A74,
      0x92A3AAAA6D952B7F, 0xC5FDF71090FAE853, 0x2A8A40F15A462DD0, 0x572D17EFFDD37358]"
  by (rule round_nat) (simp add: nat_mix_def nat_sum_def nat_rotr_def abc_words_def sigma_rows_def)+

lemma abc_round_2:
  "rfc_round (of_list abc_words) 2 (of_list
     [0x53281E83806010F2, 0x3594B403F81B4393, 0x8CD63C7462DE0DFF, 0x85F693F3DA53F974,
      0xBAABDBB2F386D9AE, 0xCA5425AEC65A10A8, 0xC6A22E2FF0F7AA48, 0xC6A56A51CB89C595,
      0x224E6A3369224F96, 0x500E125E58A92923, 0xE9E4AD0D0E1A0D48, 0x85DF9DC143C59A74,
      0x92A3AAAA6D952B7F, 0xC5FDF71090FAE853, 0x2A8A40F15A462DD0, 0x572D17EFFDD37358]) =
   of_list
     [0x60ED96AA7AD41725, 0xE46A743C71800B9D, 0x1A04B543A01F156B, 0xA2F8716E775C4877,
      0xDA0A61BCDE4267EA, 0xB1DD230754D7BDEE, 0x25A1422779E06D14, 0xE6823AE4C3FF58A5,
      0xA1677E19F37FD5DA, 0x22BDCE6976B08C51, 0xF1DE8696BEC11BF1, 0xA0EBD586A4A1D2C8,
      0xC804EBAB11C99FA9, 0x8E0CEC959C715793, 0x7C45557FAE0D4D89, 0x716343F52FDD265E]"
  by (rule round_nat) (simp add: nat_mix_def nat_sum_def nat_rotr_def abc_words_def sigma_rows_def)+

lemma abc_round_3:
  "rfc_round (of_list abc_words) 3 (of_list
     [0x60ED96AA7AD41725, 0xE46A743C71800B9D, 0x1A04B543A01F156B, 0xA2F8716E775C4877,
      0xDA0A61BCDE4267EA, 0xB1DD230754D7BDEE, 0x25A1422779E06D14, 0xE6823AE4C3FF58A5,
      0xA1677E19F37FD5DA, 0x22BDCE6976B08C51, 0xF1DE8696BEC11BF1, 0xA0EBD586A4A1D2C8,
      0xC804EBAB11C99FA9, 0x8E0CEC959C715793, 0x7C45557FAE0D4D89, 0x716343F52FDD265E]) =
   of_list
     [0xBB2A77D3A8382351, 0x45EB47971F23B103, 0x98BE297F6E45C684, 0xA36077DEE3370B89,
      0x8A03C4CB7E97590A, 0x24192E49EBF54EA0, 0x4F82C9401CB32D7A, 0x8CCD013726420DC4,
      0xA9C9A8F17B1FC614, 0x55908187977514A0, 0x5B44273E66B19D27, 0xB6D5C9FCA2579327,
      0x86092CFB858437E, 0x5C4BE2156DBEECF9, 0x2EFEDE99ED4EFF16, 0x3E7B5F234CD1F804]"
  by (rule round_nat) (simp add: nat_mix_def nat_sum_def nat_rotr_def abc_words_def sigma_rows_def)+

lemma abc_round_4:
  "rfc_round (of_list abc_words) 4 (of_list
     [0xBB2A77D3A8382351, 0x45EB47971F23B103, 0x98BE297F6E45C684, 0xA36077DEE3370B89,
      0x8A03C4CB7E97590A, 0x24192E49EBF54EA0, 0x4F82C9401CB32D7A, 0x8CCD013726420DC4,
      0xA9C9A8F17B1FC614, 0x55908187977514A0, 0x5B44273E66B19D27, 0xB6D5C9FCA2579327,
      0x86092CFB858437E, 0x5C4BE2156DBEECF9, 0x2EFEDE99ED4EFF16, 0x3E7B5F234CD1F804]) =
   of_list
     [0xC79C15B3D423B099, 0x2DA2224E8DA97556, 0x77D2B26DF1C45C55, 0x8934EB09A3456052,
      0xF6D9EEED157DA2A, 0x6FE66467AF88C0A9, 0x4EB0B76284C7AAFB, 0x299C8E725D954697,
      0xB2240B59E6D567D3, 0x2643C2370E49EBFD, 0x79E02EEF20CDB1AE, 0x64B3EED7BB602F39,
      0xB97D2D439E4DF63D, 0xC718E755294C9111, 0x1F0893F2772BB373, 0x1205EA4A7859807D]"
  by (rule round_nat) (simp add: nat_mix_def nat_sum_def nat_rotr_def abc_words_def sigma_rows_def)+

lemma abc_round_5:
  "rfc_round (of_list abc_words) 5 (of_list
     [0xC79C15B3D423B099, 0x2DA2224E8DA97556, 0x77D2B26DF1C45C55, 0x8934EB09A3456052,
      0xF6D9EEED157DA2A, 0x6FE66467AF88C0A9, 0x4EB0B76284C7AAFB, 0x299C8E725D954697,
      0xB2240B59E6D567D3, 0x2643C2370E49EBFD, 0x79E02EEF20CDB1AE, 0x64B3EED7BB602F39,
      0xB97D2D439E4DF63D, 0xC718E755294C9111, 0x1F0893F2772BB373, 0x1205EA4A7859807D]) =
   of_list
     [0xE58F97D6385BAEE4, 0x7640AA9764DA137A, 0xDEB4C7C23EFE287E, 0x70F6F41C8783C9F6,
      0x7127CD48C76A7708, 0x9E472AF0BE3DB3F6, 0xF244C62DDF71788, 0x219828AA83880842,
      0x41CCA9073C8C4D0D, 0x5C7912BC10DF3B4B, 0xA2C3ABBD37510EE2, 0xCB5668CC2A9F7859,
      0x8733794F07AC1500, 0xC67A6BE42335AA6F, 0xACB22B28681E4C82, 0xDB2161604CBC9828]"
  by (rule round_nat) (simp add: nat_mix_def nat_sum_def nat_rotr_def abc_words_def sigma_rows_def)+

lemma abc_round_6:
  "rfc_round (of_list abc_words) 6 (of_list
     [0xE58F97D6385BAEE4, 0x7640AA9764DA137A, 0xDEB4C7C23EFE287E, 0x70F6F41C8783C9F6,
      0x7127CD48C76A7708, 0x9E472AF0BE3DB3F6, 0xF244C62DDF71788, 0x219828AA83880842,
      0x41CCA9073C8C4D0D, 0x5C7912BC10DF3B4B, 0xA2C3ABBD37510EE2, 0xCB5668CC2A9F7859,
      0x8733794F07AC1500, 0xC67A6BE42335AA6F, 0xACB22B28681E4C82, 0xDB2161604CBC9828]) =
   of_list
     [0x6E2D286EEADEDC81, 0xBCF02C0787E86358, 0x57D56A56DD015EDF, 0x55D899D40A5D0D0A,
      0x819415B56220C459, 0xB63C479A6A769F02, 0x258E55E0EC1F362A, 0x3A3B4EC60E19DFDC,
      0x4D769B3FCB048DB, 0xB78A9A33E9BFF4DD, 0x5777272AE1E930C0, 0x5A387849E578DBF6,
      0x92AAC307CF2C0AFC, 0x30AACCC4F06DAFAA, 0x483893CC094F8863, 0xE03C6CC89C26BF92]"
  by (rule round_nat) (simp add: nat_mix_def nat_sum_def nat_rotr_def abc_words_def sigma_rows_def)+

lemma abc_round_7:
  "rfc_round (of_list abc_words) 7 (of_list
     [0x6E2D286EEADEDC81, 0xBCF02C0787E86358, 0x57D56A56DD015EDF, 0x55D899D40A5D0D0A,
      0x819415B56220C459, 0xB63C479A6A769F02, 0x258E55E0EC1F362A, 0x3A3B4EC60E19DFDC,
      0x4D769B3FCB048DB, 0xB78A9A33E9BFF4DD, 0x5777272AE1E930C0, 0x5A387849E578DBF6,
      0x92AAC307CF2C0AFC, 0x30AACCC4F06DAFAA, 0x483893CC094F8863, 0xE03C6CC89C26BF92]) =
   of_list
     [0xFFC83ECE76024D01, 0x1BE7BFFB8C5CC5F9, 0xA35A18CBAC4C65B7, 0xB7C2C7E6D88C285F,
      0x81937DA314A50838, 0xE1179523A2541963, 0x3A1FAD7106232B8F, 0x1C7EDE92AB8B9C46,
      0xA3C2D35E4F685C10, 0xA53D3F73AA619624, 0x30BBCC0285A22F65, 0xBCEFBB6A81539E5D,
      0x3841DEF6F4C9848A, 0x98662C85FBA726D4, 0x7762439BD5A851BD, 0xB0B9F0D443D1A889]"
  by (rule round_nat) (simp add: nat_mix_def nat_sum_def nat_rotr_def abc_words_def sigma_rows_def)+

lemma abc_round_8:
  "rfc_round (of_list abc_words) 8 (of_list
     [0xFFC83ECE76024D01, 0x1BE7BFFB8C5CC5F9, 0xA35A18CBAC4C65B7, 0xB7C2C7E6D88C285F,
      0x81937DA314A50838, 0xE1179523A2541963, 0x3A1FAD7106232B8F, 0x1C7EDE92AB8B9C46,
      0xA3C2D35E4F685C10, 0xA53D3F73AA619624, 0x30BBCC0285A22F65, 0xBCEFBB6A81539E5D,
      0x3841DEF6F4C9848A, 0x98662C85FBA726D4, 0x7762439BD5A851BD, 0xB0B9F0D443D1A889]) =
   of_list
     [0x753A70A1E8FAEADD, 0x6B0D43CA2C25D629, 0xF8343BA8B94F8C0B, 0xBC7D062B0DB5CF35,
      0x58540EE1B1AEBC47, 0x63C5B9B80D294CB9, 0x490870ECAD27DEBD, 0xB2A90DDF667287FE,
      0x316CC9EBEEFAD8FC, 0x4A466BCD021526A4, 0x5DA7F7638CEC5669, 0xD9C8826727D306FC,
      0x88ED6C4F3BD7A537, 0x19AE688DDF67F026, 0x4D8707AAB40F7E6D, 0xFD3F572687FEA4F1]"
  by (rule round_nat) (simp add: nat_mix_def nat_sum_def nat_rotr_def abc_words_def sigma_rows_def)+

lemma abc_round_9:
  "rfc_round (of_list abc_words) 9 (of_list
     [0x753A70A1E8FAEADD, 0x6B0D43CA2C25D629, 0xF8343BA8B94F8C0B, 0xBC7D062B0DB5CF35,
      0x58540EE1B1AEBC47, 0x63C5B9B80D294CB9, 0x490870ECAD27DEBD, 0xB2A90DDF667287FE,
      0x316CC9EBEEFAD8FC, 0x4A466BCD021526A4, 0x5DA7F7638CEC5669, 0xD9C8826727D306FC,
      0x88ED6C4F3BD7A537, 0x19AE688DDF67F026, 0x4D8707AAB40F7E6D, 0xFD3F572687FEA4F1]) =
   of_list
     [0xE630C747CCD59C4F, 0xBC713D41127571CA, 0x46DB183025025078, 0x6727E81260610140,
      0x2D04185EAC2A8CBA, 0x5F311B88904056EC, 0x40BD313009201AAB, 0x99D4F82A2A1EAB,
      0x6DD4FBC1DE60165D, 0xB3B0B51DE3C86270, 0x900AEE2F233B08E5, 0xA07199D87AD058D8,
      0x2C6B25593D717852, 0x37E8CA471BEAA5F8, 0x2CFC1BAC10EF4457, 0x1369EC18746E775]"
  by (rule round_nat) (simp add: nat_mix_def nat_sum_def nat_rotr_def abc_words_def sigma_rows_def)+

lemma abc_round_10:
  "rfc_round (of_list abc_words) 10 (of_list
     [0xE630C747CCD59C4F, 0xBC713D41127571CA, 0x46DB183025025078, 0x6727E81260610140,
      0x2D04185EAC2A8CBA, 0x5F311B88904056EC, 0x40BD313009201AAB, 0x99D4F82A2A1EAB,
      0x6DD4FBC1DE60165D, 0xB3B0B51DE3C86270, 0x900AEE2F233B08E5, 0xA07199D87AD058D8,
      0x2C6B25593D717852, 0x37E8CA471BEAA5F8, 0x2CFC1BAC10EF4457, 0x1369EC18746E775]) =
   of_list
     [0xE801F73B9768C760, 0x35C6D22320BE511D, 0x306F27584F65495E, 0xB51776ADF569A77B,
      0xF4F1BE86690B3C34, 0x3CC88735D1475E4B, 0x5DAC67921FF76949, 0x1CDB9D31AD70CC4E,
      0x35BA354A9C7DF448, 0x4929CBE45679D73E, 0x733D1A17248F39DB, 0x92D57B736F5F170A,
      0x61B5C0A41D491399, 0xB5C333457E12844A, 0xBD696BE010D0D889, 0x2231E1A917FE0BD]"
  by (rule round_nat) (simp add: nat_mix_def nat_sum_def nat_rotr_def abc_words_def sigma_rows_def)+

lemma abc_round_11:
  "rfc_round (of_list abc_words) 11 (of_list
     [0xE801F73B9768C760, 0x35C6D22320BE511D, 0x306F27584F65495E, 0xB51776ADF569A77B,
      0xF4F1BE86690B3C34, 0x3CC88735D1475E4B, 0x5DAC67921FF76949, 0x1CDB9D31AD70CC4E,
      0x35BA354A9C7DF448, 0x4929CBE45679D73E, 0x733D1A17248F39DB, 0x92D57B736F5F170A,
      0x61B5C0A41D491399, 0xB5C333457E12844A, 0xBD696BE010D0D889, 0x2231E1A917FE0BD]) =
   of_list
     [0x12EF8A641EC4F6D6, 0xBCED5DE977C9FAF5, 0x733CA476C5148639, 0x97DF596B0610F6FC,
      0xF42C16519AD5AFA7, 0xAA5AC1888E10467E, 0x217D930AA51787F3, 0x906A6FF19E573942,
      0x75AB709BD3DCBF24, 0xEE7CE1F345947AA4, 0xF8960D6C2FAF5F5E, 0xE332538A36B6D246,
      0x885BEF040EF6AA0B, 0xA4939A417BFB78A3, 0x646CBB7AF6DCE980, 0xE813A23C60AF3B82]"
  by (rule round_nat) (simp add: nat_mix_def nat_sum_def nat_rotr_def abc_words_def sigma_rows_def)+

lemmas abc_rounds = abc_round_0 abc_round_1 abc_round_2 abc_round_3 abc_round_4 abc_round_5 abc_round_6 abc_round_7 abc_round_8 abc_round_9 abc_round_10 abc_round_11

lemma upt_12: "[0..<12] = [0, 1, 2, 3, 4, 5, 6, 7, 8, 9, 10, 11]"
  by (simp add: upt_rec numeral_eq_Suc)

lemma upt_16: "[0..<16] = [0, 1, 2, 3, 4, 5, 6, 7, 8, 9, 10, 11, 12, 13, 14, 15]"
  by (simp add: upt_rec numeral_eq_Suc)

lemma upt_8: "[0..<8] = [0, 1, 2, 3, 4, 5, 6, 7]"
  by (simp add: upt_rec numeral_eq_Suc)

lemma abc_fold:
  "fold (rfc_round (of_list abc_words)) [0..<12] (of_list
     [0x6A09E667F2BDC948, 0xBB67AE8584CAA73B, 0x3C6EF372FE94F82B, 0xA54FF53A5F1D36F1,
      0x510E527FADE682D1, 0x9B05688C2B3E6C1F, 0x1F83D9ABFB41BD6B, 0x5BE0CD19137E2179,
      0x6A09E667F3BCC908, 0xBB67AE8584CAA73B, 0x3C6EF372FE94F82B, 0xA54FF53A5F1D36F1,
      0x510E527FADE682D2, 0x9B05688C2B3E6C1F, 0xE07C265404BE4294, 0x5BE0CD19137E2179]) =
   of_list
     [0x12EF8A641EC4F6D6, 0xBCED5DE977C9FAF5, 0x733CA476C5148639, 0x97DF596B0610F6FC,
      0xF42C16519AD5AFA7, 0xAA5AC1888E10467E, 0x217D930AA51787F3, 0x906A6FF19E573942,
      0x75AB709BD3DCBF24, 0xEE7CE1F345947AA4, 0xF8960D6C2FAF5F5E, 0xE332538A36B6D246,
      0x885BEF040EF6AA0B, 0xA4939A417BFB78A3, 0x646CBB7AF6DCE980, 0xE813A23C60AF3B82]"
  unfolding upt_12 by (simp only: fold_simps abc_rounds)

lemma abc_schedule:
  "fold (round_of (map (of_list abc_words) [0..<16])) SCHEDULE
     [0x6A09E667F2BDC948, 0xBB67AE8584CAA73B, 0x3C6EF372FE94F82B, 0xA54FF53A5F1D36F1,
      0x510E527FADE682D1, 0x9B05688C2B3E6C1F, 0x1F83D9ABFB41BD6B, 0x5BE0CD19137E2179,
      0x6A09E667F3BCC908, 0xBB67AE8584CAA73B, 0x3C6EF372FE94F82B, 0xA54FF53A5F1D36F1,
      0x510E527FADE682D2, 0x9B05688C2B3E6C1F, 0xE07C265404BE4294, 0x5BE0CD19137E2179] =
   [0x12EF8A641EC4F6D6, 0xBCED5DE977C9FAF5, 0x733CA476C5148639, 0x97DF596B0610F6FC,
      0xF42C16519AD5AFA7, 0xAA5AC1888E10467E, 0x217D930AA51787F3, 0x906A6FF19E573942,
      0x75AB709BD3DCBF24, 0xEE7CE1F345947AA4, 0xF8960D6C2FAF5F5E, 0xE332538A36B6D246,
      0x885BEF040EF6AA0B, 0xA4939A417BFB78A3, 0x646CBB7AF6DCE980, 0xE813A23C60AF3B82]"
  unfolding SCHEDULE_map
  using rounds_rfc [of "of_list abc_words" "[0..<12]" "of_list [0x6A09E667F2BDC948, 0xBB67AE8584CAA73B, 0x3C6EF372FE94F82B, 0xA54FF53A5F1D36F1,
         0x510E527FADE682D1, 0x9B05688C2B3E6C1F, 0x1F83D9ABFB41BD6B, 0x5BE0CD19137E2179,
         0x6A09E667F3BCC908, 0xBB67AE8584CAA73B, 0x3C6EF372FE94F82B, 0xA54FF53A5F1D36F1,
         0x510E527FADE682D2, 0x9B05688C2B3E6C1F, 0xE07C265404BE4294, 0x5BE0CD19137E2179]", unfolded abc_fold]
  by (simp add: of_list_def upt_16)

lemma abc_message: "block_words ([0x61, 0x62, 0x63] @ replicate 125 0) 16 = map (of_list abc_words) [0..<16]"
proof -
  have "from_le_bytes (take 8 (drop (i * 8) ([0x61, 0x62, 0x63] @ replicate 125 0))) = of_list abc_words i"
    if i: "i < 16" for i
  proof (cases i)
    case 0
    have "take 8 ([0x61, 0x62, 0x63] @ replicate 125 0) = [0x61, 0x62, 0x63, 0, 0, 0, 0, 0 :: u8]"
      by (simp add: numeral_eq_Suc)
    then show ?thesis using 0 by (simp add: of_list_def abc_words_def)
  next
    case (Suc j)
    then have "take 8 (drop (i * 8) ([0x61, 0x62, 0x63] @ replicate 125 0)) = (replicate 8 0 :: bytes)"
      using i unfolding drop_append drop_replicate by simp
    moreover have "from_le_bytes (replicate 8 0) = 0" by (simp add: numeral_eq_Suc)
    moreover have "abc_words ! i = 0" using i Suc by (simp add: abc_words_def)
    ultimately show ?thesis by (simp only: of_list_def semiring_1_class.of_nat_0)
  qed
  then show ?thesis by (simp add: block_words_def)
qed

lemma abc_compress:
  "compress (IV[0 := 0x6A09E667F2BDC948]) 3 ([0x61, 0x62, 0x63] @ replicate 125 0) True =
     [0xD4D1C983FA580BA, 0xE9F6129FB697276A, 0xB7C45A68142F214C, 0xD1A2FFDB6FBB124B,
      0x2D79AB2A39C5877D, 0x95CC3345DED552C2, 0x5A92F1DBA88AD318, 0x239900D4ED8623B9]"
proof -
  have inverted: "- 0x1F83D9ABFB41BD6C = (0xE07C265404BE4294 :: u64)" by simp
  show ?thesis
    unfolding compress_def abc_message by (simp add: IV_def Let_def inverted abc_schedule upt_8)
qed

text \<open>The digest of the appendix.\<close>

theorem abc_digest:
  "rfc7693 64 [] [0x61, 0x62, 0x63] = Some
     [0xBA, 0x80, 0xA5, 0x3F, 0x98, 0x1C, 0x4D, 0x0D, 0x6A, 0x27, 0x97, 0xB6, 0x9F, 0x12, 0xF6, 0xE9,
      0x4C, 0x21, 0x2F, 0x14, 0x68, 0x5A, 0xC4, 0xB7, 0x4B, 0x12, 0xBB, 0x6F, 0xDB, 0xFF, 0xA2, 0xD1,
      0x7D, 0x87, 0xC5, 0x39, 0x2A, 0xAB, 0x79, 0x2D, 0xC2, 0x52, 0xD5, 0xDE, 0x45, 0x33, 0xCC, 0x95,
      0x18, 0xD3, 0x8A, 0xA8, 0xDB, 0xF1, 0x92, 0x5A, 0xB9, 0x23, 0x86, 0xED, 0xD4, 0x00, 0x99, 0x23]"
  "blake2b_hash 64 [] [0x61, 0x62, 0x63] = rfc7693 64 [] [0x61, 0x62, 0x63]"
proof -
  have "chain (IV[0 := 0x6A09E667F2BDC948]) 0 [0x61, 0x62, 0x63] =
      [0xD4D1C983FA580BA, 0xE9F6129FB697276A, 0xB7C45A68142F214C, 0xD1A2FFDB6FBB124B,
      0x2D79AB2A39C5877D, 0x95CC3345DED552C2, 0x5A92F1DBA88AD318, 0x239900D4ED8623B9]"
    using abc_compress by (subst chain.simps) simp
  then show "rfc7693 64 [] [0x61, 0x62, 0x63] = Some
     [0xBA, 0x80, 0xA5, 0x3F, 0x98, 0x1C, 0x4D, 0x0D, 0x6A, 0x27, 0x97, 0xB6, 0x9F, 0x12, 0xF6, 0xE9,
      0x4C, 0x21, 0x2F, 0x14, 0x68, 0x5A, 0xC4, 0xB7, 0x4B, 0x12, 0xBB, 0x6F, 0xDB, 0xFF, 0xA2, 0xD1,
      0x7D, 0x87, 0xC5, 0x39, 0x2A, 0xAB, 0x79, 0x2D, 0xC2, 0x52, 0xD5, 0xDE, 0x45, 0x33, 0xCC, 0x95,
      0x18, 0xD3, 0x8A, 0xA8, 0xDB, 0xF1, 0x92, 0x5A, 0xB9, 0x23, 0x86, 0xED, 0xD4, 0x00, 0x99, 0x23]"
    unfolding chained_rfc [symmetric] chained_def
    by (simp add: Let_def IV_def to_le_bytes_def upt_8)
qed (rule blake2b_one_shot)

end
