(* ===== verification/Argon2.thy ===== *)
theory Argon2
  imports Blake2b
begin

text \<open>
  Argon2, \<open>argon2.rs\<close>, on BLAKE2b. A \<open>u32\<close> or \<open>usize\<close> argument is a \<open>nat\<close>. The value \<open>None\<close> of a definition
  is a panic: an index out of range, an underflow or overflow of \<open>usize\<close> arithmetic, a division by
  zero, or slices of different lengths. \<open>Inl\<close> is an error that the code returns. Whether the memory can
  be allocated is the parameter \<open>fits\<close>.
\<close>

subsection \<open>Checked operations\<close>

definition fetch :: "'a list \<Rightarrow> nat \<Rightarrow> 'a option" where
  "fetch xs i = (if i < length xs then Some (xs ! i) else None)"

definition less_by :: "nat \<Rightarrow> nat \<Rightarrow> nat option" where
  "less_by a b = (if b \<le> a then Some (a - b) else None)"

fun repeat_for :: "('i \<Rightarrow> 's \<Rightarrow> 's option) \<Rightarrow> 'i list \<Rightarrow> 's \<Rightarrow> 's option" where
  "repeat_for f [] s = Some s"
| "repeat_for f (i # is) s = Option.bind (f i s) (repeat_for f is)"

text \<open>The \<open>?\<close> of the code: an error ends the function, a panic the program.\<close>

fun or_error :: "(string + 'a) option \<Rightarrow> ('a \<Rightarrow> (string + 'b) option) \<Rightarrow> (string + 'b) option" where
  "or_error (Some (Inr x)) f = f x"
| "or_error (Some (Inl e)) f = Some (Inl e)"
| "or_error None f = None"

subsection \<open>Parameters and hashes\<close>

definition MAX_MEMORY_KIB :: nat where "MAX_MEMORY_KIB = 2 ^ 20"
definition MIN_SALT_LEN :: nat where "MIN_SALT_LEN = 8"
definition MAX_SALT_LEN :: nat where "MAX_SALT_LEN = 1024"
definition MIN_TAG_LEN :: nat where "MIN_TAG_LEN = 4"
definition MAX_TAG_LEN :: nat where "MAX_TAG_LEN = 1024"
definition MAX_PASSES :: nat where "MAX_PASSES = 1024"
definition MAX_LANES :: nat where "MAX_LANES = 64"
definition BLOCK_WORDS :: nat where "BLOCK_WORDS = 128"
definition SYNC_POINTS :: nat where "SYNC_POINTS = 4"
definition VERSION :: nat where "VERSION = 0x13"

definition ZERO_BLOCK :: "u64 list" where
  "ZERO_BLOCK = replicate BLOCK_WORDS 0"

datatype argon_variant = Argon2d | Argon2i | Argon2id

definition variant_number :: "argon_variant \<Rightarrow> nat" where
  "variant_number v = (case v of Argon2d \<Rightarrow> 0 | Argon2i \<Rightarrow> 1 | Argon2id \<Rightarrow> 2)"

definition u32_le_bytes :: "nat \<Rightarrow> bytes" where
  "u32_le_bytes n = map (\<lambda>i. ucast (drop_bit (8 * i) (of_nat n :: u32))) [0..<4]"

definition initial_hash ::
  "argon_variant \<Rightarrow> bytes \<Rightarrow> bytes \<Rightarrow> bytes \<Rightarrow> bytes \<Rightarrow> nat \<Rightarrow> nat \<Rightarrow> nat \<Rightarrow> nat \<Rightarrow> (string + bytes) option"
where
  "initial_hash variant password salt secret ad passes memory_kib lanes tag_len =
     (if length password > 2 ^ 32 - 1 \<or> length secret > 2 ^ 32 - 1 \<or> length ad > 2 ^ 32 - 1
      then Some (Inl ''argon2 input too long'')
      else
        let fixed = concat (map u32_le_bytes
              [lanes, tag_len, memory_kib, passes, VERSION, variant_number variant]);
            input = fixed @ concat (map (\<lambda>var. u32_le_bytes (length var) @ var) [password, salt, secret, ad])
        in case blake2b_hash 64 [] input of
             None \<Rightarrow> Some (Inl ''argon2 initial hash failed'')
           | Some digest \<Rightarrow> if length digest = 64 then Some (Inr digest) else None)"

text \<open>The loop of \<open>h_prime\<close>: \<open>out\<close> is what has been written, \<open>remaining\<close> the bytes after it.\<close>

function h_tail :: "bytes \<Rightarrow> nat \<Rightarrow> bytes \<Rightarrow> (string + bytes) option" where
  "h_tail out remaining v =
     (if remaining > 64 then
        (if length v < 32 then None
         else case blake2b_hash (min (remaining - 32) 64) [] v of
             None \<Rightarrow> Some (Inl ''argon2 h' failed'')
           | Some v' \<Rightarrow> h_tail (out @ take 32 v) (remaining - 32) v')
      else if length v = remaining then Some (Inr (out @ v)) else None)"
  by auto
termination by (relation "measure (\<lambda>(out, remaining, v). remaining)") auto

declare h_tail.simps [simp del]

definition h_prime :: "nat \<Rightarrow> bytes \<Rightarrow> (string + bytes) option" where
  "h_prime wanted input =
     (let prefixed = u32_le_bytes wanted @ input
      in if wanted \<le> 64
         then case blake2b_hash wanted [] prefixed of
                None \<Rightarrow> Some (Inl ''argon2 h' failed'')
              | Some digest \<Rightarrow> if length digest = wanted then Some (Inr digest) else None
         else case blake2b_hash 64 [] prefixed of
                None \<Rightarrow> Some (Inl ''argon2 h' failed'')
              | Some v \<Rightarrow> h_tail [] wanted v)"

subsection \<open>Blocks\<close>

definition mul_add :: "u64 \<Rightarrow> u64 \<Rightarrow> u64" where
  "mul_add a b =
     (let product = ucast (ucast a :: u32) * ucast (ucast b :: u32) in a + b + (product + product))"

definition quarter_round :: "nat \<times> nat \<times> nat \<times> nat \<Rightarrow> u64 list \<Rightarrow> u64 list" where
  "quarter_round = (\<lambda>(a, b, c, d) v.
     (let v = v[a := mul_add (v ! a) (v ! b)];
          v = v[d := word_rotr 32 (v ! d XOR v ! a)];
          v = v[c := mul_add (v ! c) (v ! d)];
          v = v[b := word_rotr 24 (v ! b XOR v ! c)];
          v = v[a := mul_add (v ! a) (v ! b)];
          v = v[d := word_rotr 16 (v ! d XOR v ! a)];
          v = v[c := mul_add (v ! c) (v ! d)]
      in v[b := word_rotr 63 (v ! b XOR v ! c)]))"

definition permute :: "u64 list \<Rightarrow> (nat \<Rightarrow> nat) \<Rightarrow> u64 list" where
  "permute z idx =
     (let v = map (\<lambda>i. z ! idx i) [0..<16];
          v = fold quarter_round
                [(0, 4, 8, 12), (1, 5, 9, 13), (2, 6, 10, 14), (3, 7, 11, 15),
                 (0, 5, 10, 15), (1, 6, 11, 12), (2, 7, 8, 13), (3, 4, 9, 14)] v
      in fold (\<lambda>i z. z[idx i := v ! i]) [0..<16] z)"

definition fill_block :: "u64 list \<Rightarrow> u64 list \<Rightarrow> u64 list \<Rightarrow> bool \<Rightarrow> u64 list" where
  "fill_block prev reference next with_xor =
     (let r = map (\<lambda>i. prev ! i XOR reference ! i) [0..<BLOCK_WORDS];
          z = fold (\<lambda>row z. permute z (\<lambda>i. row * 16 + i)) [0..<8] r;
          z = fold (\<lambda>col z. permute z (\<lambda>i. i div 2 * 16 + col * 2 + i mod 2)) [0..<8] z
      in map (\<lambda>i. let value = r ! i XOR z ! i in if with_xor then next ! i XOR value else value)
           [0..<BLOCK_WORDS])"

definition next_addresses :: "u64 list \<times> u64 list \<Rightarrow> u64 list \<times> u64 list" where
  "next_addresses = (\<lambda>(address, input).
     (let input = input[6 := input ! 6 + 1];
          address = fill_block ZERO_BLOCK input address False;
          address = fill_block ZERO_BLOCK address address False
      in (address, input)))"

definition block_from_le_bytes :: "bytes \<Rightarrow> u64 list" where
  "block_from_le_bytes bs = block_words bs BLOCK_WORDS"

subsection \<open>The memory\<close>

record argon =
  memory :: "u64 list list"
  lanes :: nat
  lane_len :: nat
  segment_len :: nat
  pass_count :: nat
  variant :: argon_variant

definition first_block :: "bytes \<Rightarrow> nat \<times> nat \<Rightarrow> argon \<Rightarrow> (string + argon) option" where
  "first_block h0 = (\<lambda>(lane, col) a.
     or_error (h_prime 1024 (h0 @ u32_le_bytes col @ u32_le_bytes lane))
       (\<lambda>bs. if lane * lane_len a + col < length (memory a)
             then Some (Inr (a\<lparr>memory := (memory a)[lane * lane_len a + col := block_from_le_bytes bs]\<rparr>))
             else None))"

fun for_each :: "('i \<Rightarrow> 's \<Rightarrow> (string + 's) option) \<Rightarrow> 'i list \<Rightarrow> 's \<Rightarrow> (string + 's) option" where
  "for_each f [] s = Some (Inr s)"
| "for_each f (i # is) s = or_error (f i s) (for_each f is)"

definition fill_first_blocks :: "bytes \<Rightarrow> argon \<Rightarrow> (string + argon) option" where
  "fill_first_blocks h0 a = for_each (first_block h0) (List.product [0..<lanes a] [0..<2]) a"

definition reference_area :: "argon \<Rightarrow> nat \<Rightarrow> nat \<Rightarrow> nat \<Rightarrow> bool \<Rightarrow> nat option" where
  "reference_area a pass quarter index same_lane =
     (if pass = 0 then
        if quarter = 0 then less_by index 1
        else if same_lane then less_by (quarter * segment_len a + index) 1
        else less_by (quarter * segment_len a) (if index = 0 then 1 else 0)
      else Option.bind (less_by (lane_len a) (segment_len a)) (\<lambda>n.
        if same_lane then less_by (n + index) 1 else less_by n (if index = 0 then 1 else 0)))"

definition index_alpha :: "argon \<Rightarrow> nat \<Rightarrow> nat \<Rightarrow> nat \<Rightarrow> u32 \<Rightarrow> bool \<Rightarrow> nat option" where
  "index_alpha a pass quarter index j1 same_lane =
     Option.bind (reference_area a pass quarter index same_lane) (\<lambda>area.
       let x = unat j1 * unat j1 div 2 ^ 32;
           start = (if pass = 0 \<or> quarter = SYNC_POINTS - 1 then 0 else (quarter + 1) * segment_len a)
       in if area * x < 2 ^ 64 then
            Option.bind (Option.bind (less_by area 1) (\<lambda>n. less_by n (area * x div 2 ^ 32)))
              (\<lambda>relative. if lane_len a = 0 then None else Some ((start + relative) mod lane_len a))
          else None)"

text \<open>One block of a segment, with the address block and its input carried along.\<close>

definition fill_step ::
  "argon \<Rightarrow> nat \<Rightarrow> nat \<Rightarrow> nat \<Rightarrow> bool \<Rightarrow> nat \<Rightarrow> u64 list list \<times> u64 list \<times> u64 list \<Rightarrow>
   (u64 list list \<times> u64 list \<times> u64 list) option"
where
  "fill_step a pass lane quarter data_independent index = (\<lambda>(mem, addresses).
     (let col = quarter * segment_len a + index in
      Option.bind (if col = 0 then less_by (lane_len a) 1 else Some (col - 1)) (\<lambda>prev_col.
      let prev_idx = lane * lane_len a + prev_col;
          addresses = (if data_independent \<and> index mod BLOCK_WORDS = 0 then next_addresses addresses else addresses)
      in Option.bind (if data_independent then fetch (fst addresses) (index mod BLOCK_WORDS)
                      else Option.bind (fetch mem prev_idx) (\<lambda>block. fetch block 0)) (\<lambda>pseudo_rand.
      Option.bind (if pass = 0 \<and> quarter = 0 then Some lane
                   else if lanes a = 0 then None else Some (unat (drop_bit 32 pseudo_rand) mod lanes a)) (\<lambda>ref_lane.
      Option.bind (index_alpha a pass quarter index (ucast pseudo_rand) (ref_lane = lane)) (\<lambda>ref_index.
      Option.bind (fetch mem prev_idx) (\<lambda>prev.
      Option.bind (fetch mem (ref_lane * lane_len a + ref_index)) (\<lambda>reference.
      Option.bind (fetch mem (lane * lane_len a + col)) (\<lambda>next.
        Some (mem[lane * lane_len a + col := fill_block prev reference next (pass > 0)], addresses))))))))))"

definition fill_segment :: "nat \<Rightarrow> nat \<times> nat \<Rightarrow> argon \<Rightarrow> argon option" where
  "fill_segment pass = (\<lambda>(quarter, lane) a.
     (let data_independent =
            (case variant a of Argon2d \<Rightarrow> False | Argon2i \<Rightarrow> True | Argon2id \<Rightarrow> pass = 0 \<and> quarter < 2);
          input = (if data_independent
            then map of_nat [pass, lane, quarter, length (memory a), pass_count a, variant_number (variant a)] @
                 replicate (BLOCK_WORDS - 6) 0
            else ZERO_BLOCK);
          starting_index = (if pass = 0 \<and> quarter = 0 then 2 else 0);
          addresses = (if pass = 0 \<and> quarter = 0 \<and> data_independent
            then next_addresses (ZERO_BLOCK, input) else (ZERO_BLOCK, input))
      in map_option (\<lambda>(mem, _). a\<lparr>memory := mem\<rparr>)
           (repeat_for (fill_step a pass lane quarter data_independent) [starting_index..<segment_len a]
             (memory a, addresses))))"

definition fill_pass :: "nat \<Rightarrow> argon \<Rightarrow> argon option" where
  "fill_pass pass a = repeat_for (fill_segment pass) (List.product [0..<SYNC_POINTS] [0..<lanes a]) a"

definition extract_tag :: "nat \<Rightarrow> argon \<Rightarrow> (string + bytes) option" where
  "extract_tag tag_len a =
     Option.bind (less_by (lane_len a) 1) (\<lambda>last_col.
     Option.bind (fetch (memory a) last_col) (\<lambda>final.
     Option.bind (repeat_for (\<lambda>lane acc.
         map_option (\<lambda>block. map2 (XOR) acc block) (fetch (memory a) (lane * lane_len a + last_col)))
         [1..<lanes a] final) (\<lambda>final.
     h_prime tag_len (concat (map to_le_bytes final)))))"

definition argon2 ::
  "(nat \<Rightarrow> bool) \<Rightarrow> argon_variant \<Rightarrow> bytes \<Rightarrow> bytes \<Rightarrow> bytes \<Rightarrow> bytes \<Rightarrow> nat \<Rightarrow> nat \<Rightarrow> nat \<Rightarrow> nat \<Rightarrow>
   (string + bytes) option"
where
  "argon2 fits v password salt secret ad passes memory_kib n tag_len =
     (if \<not> (MIN_TAG_LEN \<le> tag_len \<and> tag_len \<le> MAX_TAG_LEN)
      then Some (Inl ''argon2 tag length out of range'')
      else if \<not> (MIN_SALT_LEN \<le> length salt \<and> length salt \<le> MAX_SALT_LEN)
      then Some (Inl ''argon2 salt length out of range'')
      else if passes = 0 \<or> passes > MAX_PASSES then Some (Inl ''argon2 pass count out of range'')
      else if n = 0 \<or> n > MAX_LANES then Some (Inl ''argon2 parallelism out of range'')
      else if memory_kib > MAX_MEMORY_KIB then Some (Inl ''argon2 memory cost above the runtime cap'')
      else if memory_kib < 8 * n then Some (Inl ''argon2 memory cost below 8 blocks per lane'')
      else
        let seg = memory_kib div (SYNC_POINTS * n); len = seg * SYNC_POINTS
        in if \<not> fits (len * n) then Some (Inl ''argon2 memory allocation failed'')
           else or_error (initial_hash v password salt secret ad passes memory_kib n tag_len) (\<lambda>h0.
             or_error (fill_first_blocks h0
                 \<lparr>memory = replicate (len * n) ZERO_BLOCK, lanes = n, lane_len = len, segment_len = seg,
                  pass_count = passes, variant = v\<rparr>) (\<lambda>a.
             Option.bind (repeat_for fill_pass [0..<passes] a) (extract_tag tag_len))))"

definition argon2id ::
  "(nat \<Rightarrow> bool) \<Rightarrow> bytes \<Rightarrow> bytes \<Rightarrow> bytes \<Rightarrow> bytes \<Rightarrow> nat \<Rightarrow> nat \<Rightarrow> nat \<Rightarrow> nat \<Rightarrow> (string + bytes) option"
where
  "argon2id fits = argon2 fits Argon2id"

end
