(* ===== verification/Argon2Fill.thy ===== *)
theory Argon2Fill
  imports Argon2 "HOL-Library.Multiset"
begin

text \<open>
  Why Argon2 never panics, and why the lanes of a slice may be filled in any order: every reference
  lies in a block that the other lanes of the same slice do not write.
\<close>

subsection \<open>Where blocks are\<close>

definition mem_ok :: "argon \<Rightarrow> u64 list list \<Rightarrow> bool" where
  "mem_ok a mem \<longleftrightarrow> length mem = lanes a * lane_len a \<and> (\<forall>b\<in>set mem. length b = 128)"

definition argon_ok :: "argon \<Rightarrow> bool" where
  "argon_ok a \<longleftrightarrow>
     1 \<le> lanes a \<and> 2 \<le> segment_len a \<and> lane_len a = 4 * segment_len a \<and> lane_len a \<le> 2 ^ 20 \<and>
     mem_ok a (memory a)"

text \<open>The blocks that a segment fills: the first two of a lane are there from the start.\<close>

definition fills :: "argon \<Rightarrow> nat \<Rightarrow> nat \<Rightarrow> nat \<Rightarrow> bool" where
  "fills a pass quarter index \<longleftrightarrow>
     quarter < 4 \<and> index < segment_len a \<and> (pass = 0 \<and> quarter = 0 \<longrightarrow> 2 \<le> index)"

lemma cell_bound:
  assumes "l < n" and "c < len"
  shows "l * len + c < n * (len :: nat)"
proof -
  have "l * len + c < (l + 1) * len" using assms(2) by simp
  also have "\<dots> \<le> n * len" using assms(1) by (intro mult_le_mono1) simp
  finally show ?thesis .
qed

lemma cell_eq:
  assumes "c < len" and "c' < (len :: nat)"
  shows "l * len + c = l' * len + c' \<longleftrightarrow> l = l' \<and> c = c'"
proof
  assume e: "l * len + c = l' * len + c'"
  have "(l * len + c) div len = l" "(l' * len + c') div len = l'" using assms by simp_all
  then have "l = l'" using e by metis
  then show "l = l' \<and> c = c'" using e by simp
qed simp

lemma other_quarter: "k < q * n \<or> q * n + n \<le> k \<Longrightarrow> k div n \<noteq> (q :: nat)" if "0 < n"
proof
  assume a: "k < q * n \<or> q * n + n \<le> k" "k div n = q"
  have "k = q * n + k mod n" using a(2) by (metis div_mult_mod_eq)
  moreover have "k mod n < n" using that by simp
  ultimately show False using a(1) by linarith
qed

lemma quarter_col:
  assumes "argon_ok a" and "quarter < 4" and "index < segment_len a"
  shows "quarter * segment_len a + index < lane_len a" "(quarter * segment_len a + index) div segment_len a = quarter"
  using assms cell_bound [of quarter 4 index "segment_len a"] by (simp_all add: argon_ok_def)

subsection \<open>References\<close>

text \<open>The window of \<open>index_alpha\<close> and its start.\<close>

lemma skew_bound:
  assumes "1 \<le> area"
  shows "area * (unat (j1 :: u32) * unat j1 div 2 ^ 32) div 2 ^ 32 \<le> area - 1"
    and "area \<le> 2 ^ 20 \<Longrightarrow> area * (unat j1 * unat j1 div 2 ^ 32) < 2 ^ 64"
proof -
  let ?j = "unat j1"
  have j: "?j < 2 ^ 32" using unsigned_less [of j1, where ?'a = nat] by simp
  then have "?j * ?j < 2 ^ 32 * 2 ^ 32" by (intro mult_strict_mono') simp_all
  then have x: "?j * ?j div 2 ^ 32 < 2 ^ 32" by (rule less_mult_imp_div_less)
  then have "area * (?j * ?j div 2 ^ 32) < area * 2 ^ 32" using assms by simp
  then have "area * (?j * ?j div 2 ^ 32) div 2 ^ 32 < area" by (rule less_mult_imp_div_less)
  then show "area * (?j * ?j div 2 ^ 32) div 2 ^ 32 \<le> area - 1" by simp
  assume "area \<le> 2 ^ 20"
  then have "area * (?j * ?j div 2 ^ 32) \<le> 2 ^ 20 * 2 ^ 32" using x by (intro mult_le_mono) simp_all
  then show "area * (?j * ?j div 2 ^ 32) < 2 ^ 64" by simp
qed

lemma reference_found:
  assumes "argon_ok a" and "fills a pass quarter index" and "pass = 0 \<and> quarter = 0 \<longrightarrow> same"
  obtains k where "index_alpha a pass quarter index j1 same = Some k" and "k < lane_len a"
    and "same \<Longrightarrow> k \<noteq> quarter * segment_len a + index"
    and "pass = 0 \<Longrightarrow> same \<Longrightarrow> k + 1 < quarter * segment_len a + index"
    and "pass = 0 \<Longrightarrow> \<not> same \<Longrightarrow> k < quarter * segment_len a"
    and "\<not> same \<Longrightarrow> k div segment_len a \<noteq> quarter"
proof -
  let ?n = "segment_len a"
  have n: "2 \<le> ?n" "lane_len a = 4 * ?n" "lane_len a \<le> 2 ^ 20" using assms(1) by (auto simp: argon_ok_def)
  have f: "quarter < 4" "index < ?n" "0 < pass \<or> 0 < quarter \<or> 2 \<le> index"
    using assms(2) by (auto simp: fills_def)
  define Q where "Q = quarter * ?n"
  have Q: "Q + ?n \<le> 4 * ?n" using mult_le_mono1 [of "quarter + 1" 4 ?n] f(1) by (simp add: Q_def)
  have Q1: "1 \<le> quarter \<Longrightarrow> ?n \<le> Q" "quarter = 3 \<Longrightarrow> Q = 3 * ?n" "quarter = 0 \<Longrightarrow> Q = 0"
    by (simp_all add: Q_def)
  let ?e = "if index = 0 then 1 else (0 :: nat)"
  define area where "area =
    (if pass = 0 then if same then Q + index - 1 else Q - ?e
     else if same then 3 * ?n + index - 1 else 3 * ?n - ?e)"
  have one: "1 \<le> area"
  proof (cases "quarter = 0")
    case True
    then show ?thesis using n f Q1(3) assms(3) by (auto simp: area_def)
  next
    case False
    then have "2 \<le> Q" using Q1(1) n(1) by linarith
    then show ?thesis using n False by (auto simp: area_def)
  qed
  have big: "area \<le> 4 * ?n" using f(2) Q by (auto simp: area_def)
  let ?x = "unat j1 * unat j1 div 2 ^ 32"
  define r where "r = area - 1 - area * ?x div 2 ^ 32"
  define start where "start = (if pass = 0 \<or> quarter = 3 then 0 else Q + ?n)"
  define k where "k = (start + r) mod (4 * ?n)"
  have r: "r < area" using one by (simp add: r_def)
  have b: "area * ?x < 2 ^ 64" by (rule skew_bound(2)) (use one big n in simp_all)
  have "reference_area a pass quarter index same = Some area"
    using n f Q1 assms(3) by (auto simp: reference_area_def area_def less_by_def simp flip: Q_def)
  moreover have "(if pass = 0 \<or> quarter = SYNC_POINTS - 1 then 0 else (quarter + 1) * ?n) = start"
    by (simp add: start_def SYNC_POINTS_def Q_def)
  moreover have "lane_len a \<noteq> 0" using n by simp
  moreover have "Option.bind (less_by area 1) (\<lambda>n. less_by n (area * ?x div 2 ^ 32)) = Some r"
    using one skew_bound(1) [OF one, of j1] by (simp add: less_by_def r_def)
  ultimately have i: "index_alpha a pass quarter index j1 same = Some k"
    using b n(2) unfolding index_alpha_def Let_def k_def by simp
  have lt: "k < lane_len a" using n by (simp add: k_def)
  have k: "(pass = 0 \<or> quarter = 3) \<and> k = r \<or>
      0 < pass \<and> quarter < 3 \<and> (k = Q + ?n + r \<or> 3 * ?n \<le> Q + r \<and> k + 3 * ?n = Q + r)"
  proof (cases "pass = 0 \<or> quarter = 3")
    case True
    then show ?thesis using r big by (simp add: k_def start_def)
  next
    case False
    then have s: "start = Q + ?n" "0 < pass" "quarter < 3" using f(1) by (auto simp: start_def)
    show ?thesis
    proof (cases "Q + ?n + r < 4 * ?n")
      case True
      then show ?thesis using s by (simp add: k_def)
    next
      case False
      moreover have "Q + ?n + r - 4 * ?n < 4 * ?n" using r big Q by linarith
      ultimately have "k = Q + ?n + r - 4 * ?n"
        using s(1) by (simp add: k_def le_mod_geq)
      then show ?thesis using s False by linarith
    qed
  qed
  have same: "same \<Longrightarrow> k \<noteq> Q + index"
    using k r Q1(2) f(2) by (auto simp: area_def split: if_splits)
  have first: "pass = 0 \<Longrightarrow> same \<Longrightarrow> k + 1 < Q + index"
    using k r by (auto simp: area_def)
  have before: "pass = 0 \<Longrightarrow> \<not> same \<Longrightarrow> k < Q"
    using k r by (auto simp: area_def)
  have away: "\<not> same \<Longrightarrow> k div ?n \<noteq> quarter"
    using k r Q1(2) n(1) by (intro other_quarter) (auto simp: area_def simp flip: Q_def split: if_splits)
  show thesis
    by (rule that [OF i lt]) (use same first before away in \<open>simp_all add: Q_def\<close>)
qed

subsection \<open>One segment\<close>

text \<open>Memories that look the same to a segment: its own lane, and the other quarters of the others.\<close>

definition agree :: "argon \<Rightarrow> nat \<Rightarrow> nat \<Rightarrow> u64 list list \<Rightarrow> u64 list list \<Rightarrow> bool" where
  "agree a lane quarter m m' \<longleftrightarrow>
     (\<forall>l c. l < lanes a \<longrightarrow> c < lane_len a \<longrightarrow> l = lane \<or> c div segment_len a \<noteq> quarter \<longrightarrow>
        m ! (l * lane_len a + c) = m' ! (l * lane_len a + c))"

text \<open>Memories that differ on the segment at most.\<close>

definition only_segment :: "argon \<Rightarrow> nat \<Rightarrow> nat \<Rightarrow> u64 list list \<Rightarrow> u64 list list \<Rightarrow> bool" where
  "only_segment a lane quarter m m' \<longleftrightarrow>
     (\<forall>l c. l < lanes a \<longrightarrow> c < lane_len a \<longrightarrow> l \<noteq> lane \<or> c div segment_len a \<noteq> quarter \<longrightarrow>
        m ! (l * lane_len a + c) = m' ! (l * lane_len a + c))"

lemma fetch_cell: "mem_ok a mem \<Longrightarrow> l < lanes a \<Longrightarrow> c < lane_len a \<Longrightarrow>
    fetch mem (l * lane_len a + c) = Some (mem ! (l * lane_len a + c))"
  by (simp add: fetch_def mem_ok_def cell_bound)

lemma length_fill_block [simp]: "length (fill_block p r n x) = 128"
  by (simp add: fill_block_def Let_def BLOCK_WORDS_def)

lemma mem_ok_update: "mem_ok a mem \<Longrightarrow> length b = 128 \<Longrightarrow> mem_ok a (mem[i := b])"
  by (auto simp: mem_ok_def dest: set_update_subset_insert [THEN subsetD])

lemma next_addresses_length [simp]: "length (fst (next_addresses x)) = 128"
  by (simp add: next_addresses_def Let_def split: prod.splits)

lemma fill_step_agree:
  assumes ok: "argon_ok a" and fl: "fills a pass quarter index" and lane: "lane < lanes a"
    and m: "mem_ok a m" "mem_ok a m'" "agree a lane quarter m m'" and ad: "length (fst ad) = 128"
  obtains b ad' where "length b = 128" and "length (fst ad') = 128"
    and "fill_step a pass lane quarter ind index (m, ad) =
           Some (m[lane * lane_len a + (quarter * segment_len a + index) := b], ad')"
    and "fill_step a pass lane quarter ind index (m', ad) =
           Some (m'[lane * lane_len a + (quarter * segment_len a + index) := b], ad')"
proof -
  let ?n = "segment_len a" and ?len = "lane_len a"
  define col where "col = quarter * ?n + index"
  have n: "0 < lanes a" "2 \<le> ?n" "?len = 4 * ?n" using ok by (auto simp: argon_ok_def)
  have f: "quarter < 4" "index < ?n" using fl by (auto simp: fills_def)
  have col: "col < ?len" unfolding col_def by (rule quarter_col(1) [OF ok f])
  define prev where "prev = (if col = 0 then ?len - 1 else col - 1)"
  have prev: "prev < ?len" "(if col = 0 then less_by ?len 1 else Some (col - 1)) = Some prev"
    using col n by (auto simp: prev_def less_by_def)
  have own: "m ! (lane * ?len + c) = m' ! (lane * ?len + c)" if "c < ?len" for c
    using m(3) lane that unfolding agree_def by blast
  define ad' where "ad' = (if ind \<and> index mod BLOCK_WORDS = 0 then next_addresses ad else ad)"
  have ad': "length (fst ad') = 128" using ad by (simp add: ad'_def)
  define j where "j = (if ind then fst ad' ! (index mod BLOCK_WORDS) else m ! (lane * ?len + prev) ! 0)"
  have j: "(if ind then fetch (fst ad') (index mod BLOCK_WORDS)
        else Option.bind (fetch w (lane * ?len + prev)) (\<lambda>block. fetch block 0)) = Some j"
    if "w = m \<or> w = m'" for w
  proof -
    have w: "mem_ok a w" "w ! (lane * ?len + prev) = m ! (lane * ?len + prev)"
      using that m own [OF prev(1)] by auto
    have "w ! (lane * ?len + prev) \<in> set w"
      using w(1) cell_bound [OF lane prev(1)] by (simp add: mem_ok_def)
    then have "length (w ! (lane * ?len + prev)) = 128" using w(1) by (simp add: mem_ok_def)
    then show ?thesis
      using fetch_cell [OF w(1) lane prev(1)] w(2) ad' by (auto simp: j_def fetch_def BLOCK_WORDS_def)
  qed
  define rl where "rl = (if pass = 0 \<and> quarter = 0 then lane else unat (drop_bit 32 j) mod lanes a)"
  have rl: "rl < lanes a" "(if pass = 0 \<and> quarter = 0 then Some lane
      else if lanes a = 0 then None else Some (unat (drop_bit 32 j) mod lanes a)) = Some rl"
    using n lane by (auto simp: rl_def)
  obtain k where k: "index_alpha a pass quarter index (ucast j) (rl = lane) = Some k" "k < ?len"
    "rl \<noteq> lane \<Longrightarrow> k div ?n \<noteq> quarter"
    by (rule reference_found [OF ok fl, of "rl = lane" "ucast j"]) (auto simp: rl_def)
  have ref: "m ! (rl * ?len + k) = m' ! (rl * ?len + k)"
    using m(3) rl(1) k(2,3) unfolding agree_def by blast
  let ?b = "fill_block (m ! (lane * ?len + prev)) (m ! (rl * ?len + k)) (m ! (lane * ?len + col)) (pass > 0)"
  have step: "fill_step a pass lane quarter ind index (w, ad) = Some (w[lane * ?len + col := ?b], ad')"
    if w: "w = m \<or> w = m'" for w
  proof -
    have ok: "mem_ok a w" using w m by auto
    have s: "w ! (lane * ?len + prev) = m ! (lane * ?len + prev)" "w ! (rl * ?len + k) = m ! (rl * ?len + k)"
      "w ! (lane * ?len + col) = m ! (lane * ?len + col)"
      using w own [OF prev(1)] own [OF col] ref by auto
    show ?thesis
      unfolding fill_step_def Let_def split col_def [symmetric] prev(2) Option.bind.simps ad'_def [symmetric]
      unfolding j [OF w] rl(2) k(1) Option.bind.simps
      unfolding fetch_cell [OF ok lane prev(1)] fetch_cell [OF ok lane col]
        fetch_cell [OF ok rl(1) k(2)] s Option.bind.simps by (rule refl)
  qed
  show thesis
    by (rule that [of ?b ad']) (use step ad' in \<open>simp_all add: col_def\<close>)
qed

lemma only_refl: "only_segment a lane quarter m m"
  by (simp add: only_segment_def)

lemma only_update:
  assumes ok: "argon_ok a" and q: "quarter < 4" "index < segment_len a" and o: "only_segment a lane quarter v m"
  shows "only_segment a lane quarter v (m[lane * lane_len a + (quarter * segment_len a + index) := b])"
  unfolding only_segment_def
proof (intro allI impI)
  fix l c
  assume lc: "l < lanes a" "c < lane_len a" "l \<noteq> lane \<or> c div segment_len a \<noteq> quarter"
  note col = quarter_col [OF ok q]
  have "l * lane_len a + c \<noteq> lane * lane_len a + (quarter * segment_len a + index)"
    using cell_eq [OF lc(2) col(1)] lc(3) col(2) by auto
  then show "v ! (l * lane_len a + c) =
      m[lane * lane_len a + (quarter * segment_len a + index) := b] ! (l * lane_len a + c)"
    using o lc unfolding only_segment_def by auto
qed

lemma agree_update:
  assumes ok: "argon_ok a" and q: "quarter < 4" "index < segment_len a" and lane: "lane < lanes a"
    and m: "mem_ok a m" "mem_ok a m'" "agree a lane quarter m m'"
  shows "agree a lane quarter (m[lane * lane_len a + (quarter * segment_len a + index) := b])
    (m'[lane * lane_len a + (quarter * segment_len a + index) := b])"
proof -
  have l: "length m = length m'" using m by (simp add: mem_ok_def)
  have u: "w[i := b] ! k = (if k = i \<and> i < length w then b else w ! k)" for w :: "u64 list list" and i k
    by (cases "i < length w") (auto simp: not_less list_update_beyond)
  show ?thesis using m(3) unfolding agree_def by (auto simp: u l)
qed

lemma fill_steps:
  assumes ok: "argon_ok a" and lane: "lane < lanes a" and "\<forall>i\<in>set is. fills a pass quarter i"
    and "mem_ok a m" and "mem_ok a m'" and "agree a lane quarter m m'" and "length (fst ad) = 128"
  shows "\<exists>m2 m2' ad'.
    repeat_for (fill_step a pass lane quarter ind) is (m, ad) = Some (m2, ad') \<and>
    repeat_for (fill_step a pass lane quarter ind) is (m', ad) = Some (m2', ad') \<and>
    mem_ok a m2 \<and> mem_ok a m2' \<and> agree a lane quarter m2 m2' \<and>
    only_segment a lane quarter m m2 \<and> only_segment a lane quarter m' m2'"
  using assms(3-7)
proof (induction "is" arbitrary: m m' ad)
  case Nil
  then show ?case by (simp add: only_refl)
next
  case (Cons i "is")
  have f: "fills a pass quarter i" using Cons.prems(1) by simp
  then have q: "quarter < 4" "i < segment_len a" by (auto simp: fills_def)
  obtain b ad' where b: "length b = 128" "length (fst ad') = 128"
    "fill_step a pass lane quarter ind i (m, ad) =
       Some (m[lane * lane_len a + (quarter * segment_len a + i) := b], ad')"
    "fill_step a pass lane quarter ind i (m', ad) =
       Some (m'[lane * lane_len a + (quarter * segment_len a + i) := b], ad')"
    using fill_step_agree [OF ok f lane Cons.prems(2-5)] by blast
  let ?u = "\<lambda>m. m[lane * lane_len a + (quarter * segment_len a + i) := b]"
  obtain m2 m2' ad2 where r:
    "repeat_for (fill_step a pass lane quarter ind) is (?u m, ad') = Some (m2, ad2)"
    "repeat_for (fill_step a pass lane quarter ind) is (?u m', ad') = Some (m2', ad2)"
    "mem_ok a m2" "mem_ok a m2'" "agree a lane quarter m2 m2'"
    "only_segment a lane quarter (?u m) m2" "only_segment a lane quarter (?u m') m2'"
    using Cons.IH [of "?u m" "?u m'" ad'] Cons.prems(1) b(1,2)
      mem_ok_update [OF Cons.prems(2) b(1)] mem_ok_update [OF Cons.prems(3) b(1)]
      agree_update [OF ok q lane Cons.prems(2-4)] by auto
  have "only_segment a lane quarter m m2" "only_segment a lane quarter m' m2'"
    using only_update [OF ok q only_refl] r(6,7) unfolding only_segment_def by (metis)+
  then show ?case using r b(3,4) by auto
qed

text \<open>What a segment computes depends on what agrees, and changes only its own blocks.\<close>

lemma fill_step_memory: "fill_step (a\<lparr>memory := m\<rparr>) = fill_step a"
proof -
  have r: "lanes (a\<lparr>memory := m\<rparr>) = lanes a" "lane_len (a\<lparr>memory := m\<rparr>) = lane_len a"
    "segment_len (a\<lparr>memory := m\<rparr>) = segment_len a" by simp_all
  show ?thesis
    by (intro ext) (simp only: fill_step_def index_alpha_def reference_area_def r)
qed

lemma fill_segment_agree:
  assumes ok: "argon_ok a" and lane: "lane < lanes a" and q: "quarter < 4"
    and m: "mem_ok a m" "mem_ok a m'" "agree a lane quarter m m'"
  obtains m2 m2' where
    "fill_segment pass (quarter, lane) (a\<lparr>memory := m\<rparr>) = Some (a\<lparr>memory := m2\<rparr>)"
    "fill_segment pass (quarter, lane) (a\<lparr>memory := m'\<rparr>) = Some (a\<lparr>memory := m2'\<rparr>)"
    "mem_ok a m2" "mem_ok a m2'" "agree a lane quarter m2 m2'"
    "only_segment a lane quarter m m2" "only_segment a lane quarter m' m2'"
proof -
  define ind where "ind = (case variant a of Argon2d \<Rightarrow> False | Argon2i \<Rightarrow> True | Argon2id \<Rightarrow> pass = 0 \<and> quarter < 2)"
  define input :: "u64 list" where "input = (if ind
            then map of_nat [pass, lane, quarter, length m, pass_count a, variant_number (variant a)] @
                 replicate (BLOCK_WORDS - 6) 0
            else ZERO_BLOCK)"
  define first :: nat where "first = (if pass = 0 \<and> quarter = 0 then 2 else 0)"
  define ad where "ad = (if pass = 0 \<and> quarter = 0 \<and> ind
            then next_addresses (ZERO_BLOCK, input) else (ZERO_BLOCK, input))"
  have l: "length m' = length m" using m by (simp add: mem_ok_def)
  have seg: "fill_segment pass (quarter, lane) (a\<lparr>memory := w\<rparr>) =
      map_option (\<lambda>(mem, _). a\<lparr>memory := mem\<rparr>)
        (repeat_for (fill_step a pass lane quarter ind) [first..<segment_len a] (w, ad))"
    if "length w = length m" for w
    using that
    by (simp add: fill_segment_def Let_def fill_step_memory ind_def input_def first_def ad_def split: prod.splits)
  have fl: "\<forall>i\<in>set [first..<segment_len a]. fills a pass quarter i" using q by (auto simp: fills_def first_def)
  have "length (fst ad) = 128" by (simp add: ad_def ZERO_BLOCK_def BLOCK_WORDS_def)
  from fill_steps [OF ok lane fl m this, of ind] show thesis
    using that seg [OF refl] seg [OF l] by fastforce
qed

subsection \<open>The lanes of a slice\<close>

lemma only_agree: "only_segment a l' quarter m m' \<Longrightarrow> l \<noteq> l' \<Longrightarrow> agree a l quarter m m'"
  unfolding only_segment_def agree_def by blast

lemma mem_eq:
  assumes "mem_ok a m" and "mem_ok a m'"
    and "\<And>l c. l < lanes a \<Longrightarrow> c < lane_len a \<Longrightarrow> m ! (l * lane_len a + c) = m' ! (l * lane_len a + c)"
  shows "m = m'"
proof (rule nth_equalityI)
  show "length m = length m'" using assms by (simp add: mem_ok_def)
  fix i
  assume "i < length m"
  then have i: "i < lanes a * lane_len a" using assms(1) by (simp add: mem_ok_def)
  then have "0 < lane_len a" by (cases "lane_len a") auto
  then show "m ! i = m' ! i"
    using assms(3) [of "i div lane_len a" "i mod lane_len a"] i by (simp add: less_mult_imp_div_less)
qed

lemma memory_inject: "a\<lparr>memory := m\<rparr> = a\<lparr>memory := m'\<rparr> \<longleftrightarrow> m = m'"
  by (cases a) simp

lemma lanes_commute:
  assumes ok: "argon_ok a" and l: "l < lanes a" "l' < lanes a" and q: "quarter < 4"
  shows "Option.bind (fill_segment pass (quarter, l) a) (fill_segment pass (quarter, l')) =
    Option.bind (fill_segment pass (quarter, l') a) (fill_segment pass (quarter, l))"
proof (cases "l = l'")
  case False
  let ?m = "memory a"
  have m: "mem_ok a ?m" using ok by (simp add: argon_ok_def)
  have r: "agree a x quarter ?m ?m" for x by (simp add: agree_def)
  obtain m1 where m1: "fill_segment pass (quarter, l) (a\<lparr>memory := ?m\<rparr>) = Some (a\<lparr>memory := m1\<rparr>)"
    "mem_ok a m1" "only_segment a l quarter ?m m1"
    using fill_segment_agree [OF ok l(1) q m m r] by metis
  obtain n1 where n1: "fill_segment pass (quarter, l') (a\<lparr>memory := ?m\<rparr>) = Some (a\<lparr>memory := n1\<rparr>)"
    "mem_ok a n1" "only_segment a l' quarter ?m n1"
    using fill_segment_agree [OF ok l(2) q m m r] by metis
  obtain n2 where n2: "fill_segment pass (quarter, l) (a\<lparr>memory := n1\<rparr>) = Some (a\<lparr>memory := n2\<rparr>)"
    "mem_ok a n2" "agree a l quarter m1 n2" "only_segment a l quarter n1 n2"
    by (rule fill_segment_agree [OF ok l(1) q m n1(2) only_agree [OF n1(3) False], of pass])
      (use m1(1) in \<open>auto simp: memory_inject\<close>)
  obtain m2 where m2: "fill_segment pass (quarter, l') (a\<lparr>memory := m1\<rparr>) = Some (a\<lparr>memory := m2\<rparr>)"
    "mem_ok a m2" "agree a l' quarter n1 m2" "only_segment a l' quarter m1 m2"
    by (rule fill_segment_agree [OF ok l(2) q m m1(2) only_agree [OF m1(3) False [symmetric]], of pass])
      (use n1(1) in \<open>auto simp: memory_inject\<close>)
  have "m2 = n2"
  proof (rule mem_eq [OF m2(2) n2(2)])
    fix x c
    assume x: "x < lanes a" "c < lane_len a"
    show "m2 ! (x * lane_len a + c) = n2 ! (x * lane_len a + c)"
      using m1(3) n1(3) n2(3,4) m2(3,4) x False unfolding only_segment_def agree_def by metis
  qed
  then show ?thesis using m1(1) n1(1) n2(1) m2(1) by simp
qed simp

lemma segment_keeps:
  assumes ok: "argon_ok a" and "l < lanes a" and "quarter < 4"
  obtains m where "fill_segment pass (quarter, l) a = Some (a\<lparr>memory := m\<rparr>)" "argon_ok (a\<lparr>memory := m\<rparr>)"
proof -
  have m: "mem_ok a (memory a)" using ok by (simp add: argon_ok_def)
  show thesis
    by (rule fill_segment_agree [OF ok assms(2,3) m m, of pass])
      (use ok that in \<open>auto simp: agree_def argon_ok_def mem_ok_def\<close>)
qed

text \<open>Steps that commute may be taken in any order.\<close>

lemma repeat_for_move:
  assumes "\<And>i s. P s \<Longrightarrow> i \<in> A \<Longrightarrow> \<exists>s'. f i s = Some s' \<and> P s'"
    and "\<And>i j s. P s \<Longrightarrow> i \<in> A \<Longrightarrow> j \<in> A \<Longrightarrow> Option.bind (f i s) (f j) = Option.bind (f j s) (f i)"
    and "P s" and "x \<in> A" and "set us \<subseteq> A"
  shows "repeat_for f (us @ x # vs) s = repeat_for f (x # us @ vs) s"
  using assms(3,5)
proof (induction us arbitrary: s)
  case (Cons u us)
  have u: "u \<in> A" using Cons.prems(2) by simp
  obtain s' where s': "f u s = Some s'" "P s'" using assms(1) [OF Cons.prems(1) u] by blast
  obtain t where t: "f x s = Some t" "P t" using assms(1) [OF Cons.prems(1) assms(4)] by blast
  have c: "f x s' = f u t" using assms(2) [OF Cons.prems(1) u assms(4)] s'(1) t(1) by simp
  have "repeat_for f (us @ x # vs) s' = repeat_for f (x # us @ vs) s'"
    by (rule Cons.IH) (use s' Cons.prems in auto)
  then show ?case using s' t c by simp
qed simp

lemma repeat_for_order:
  assumes "\<And>i s. P s \<Longrightarrow> i \<in> A \<Longrightarrow> \<exists>s'. f i s = Some s' \<and> P s'"
    and "\<And>i j s. P s \<Longrightarrow> i \<in> A \<Longrightarrow> j \<in> A \<Longrightarrow> Option.bind (f i s) (f j) = Option.bind (f j s) (f i)"
    and "mset xs = mset ys" and "set xs \<subseteq> A" and "P s"
  shows "repeat_for f xs s = repeat_for f ys s"
  using assms(3-5)
proof (induction xs arbitrary: ys s)
  case (Cons x xs)
  have "x \<in> set ys" using Cons.prems(1) by (metis list.set_intros(1) set_mset_mset)
  then obtain us vs where ys: "ys = us @ x # vs" by (meson split_list)
  have sub: "set ys \<subseteq> A" using Cons.prems(1,2) by (metis set_mset_mset)
  have m: "mset xs = mset (us @ vs)" using Cons.prems(1) by (simp add: ys)
  obtain t where t: "f x s = Some t" "P t" using assms(1) [OF Cons.prems(3), of x] Cons.prems(2) by auto
  have "repeat_for f ys s = repeat_for f (x # us @ vs) s"
    unfolding ys using assms(1,2) Cons.prems(3) by (rule repeat_for_move [where P = P and A = A]) (use sub ys in auto)
  then show ?case using Cons.IH [OF m _ t(2)] Cons.prems(2) t(1) by simp
qed simp

lemma repeat_for_keeps:
  assumes "\<And>i s. P s \<Longrightarrow> i \<in> set is \<Longrightarrow> \<exists>s'. f i s = Some s' \<and> P s'" and "P s"
  shows "\<exists>s'. repeat_for f is s = Some s' \<and> P s'"
  using assms
proof (induction "is" arbitrary: s)
  case (Cons i "is")
  obtain s' where "f i s = Some s'" "P s'" using Cons.prems(1) [OF Cons.prems(2), of i] by auto
  then show ?case using Cons.IH [of s'] Cons.prems(1) by simp
qed simp

text \<open>C26. The lanes of a slice depend on each other only through earlier slices: filling their
  segments in any order gives the memory that filling them one after the other gives, so they may
  also be filled at once; and no index of a fill is out of bounds and no subtraction or product in the
  choice of a reference underflows or overflows.\<close>

theorem lanes_fill_in_any_order:
  assumes "argon_ok a" and "quarter < 4" and "mset ls = mset [0..<lanes a]"
  shows "repeat_for (fill_segment pass) (map (Pair quarter) ls) a =
      repeat_for (fill_segment pass) (map (Pair quarter) [0..<lanes a]) a \<and>
    map_option argon_ok (repeat_for (fill_segment pass) (map (Pair quarter) ls) a) = Some True"
proof -
  let ?A = "Pair quarter ` {..<lanes a}"
  let ?P = "\<lambda>b. argon_ok b \<and> lanes b = lanes a"
  have ls: "set ls = {..<lanes a}" using assms(3) by (metis atLeast0LessThan set_mset_mset set_upt)
  have keeps: "\<exists>s'. fill_segment pass i s = Some s' \<and> ?P s'" if p: "?P s" "i \<in> ?A" for i s
  proof -
    obtain l where l: "i = (quarter, l)" "l < lanes s" using p by auto
    show ?thesis using segment_keeps [OF conjunct1 [OF p(1)] l(2) assms(2), of pass] p(1) l(1) by force
  qed
  have swap: "Option.bind (fill_segment pass i s) (fill_segment pass j) =
      Option.bind (fill_segment pass j s) (fill_segment pass i)" if "?P s" "i \<in> ?A" "j \<in> ?A" for i j s
    using that lanes_commute [OF conjunct1 [OF that(1)] _ _ assms(2)] by auto
  have start: "?P a" using assms(1) by simp
  have "repeat_for (fill_segment pass) (map (Pair quarter) ls) a =
      repeat_for (fill_segment pass) (map (Pair quarter) [0..<lanes a]) a"
    by (rule repeat_for_order [where P = ?P and A = ?A, OF keeps swap _ _ start])
      (use ls assms(3) in \<open>auto simp: mset_map\<close>)
  moreover have "\<exists>s'. repeat_for (fill_segment pass) (map (Pair quarter) ls) a = Some s' \<and> ?P s'"
    by (rule repeat_for_keeps [OF keeps start]) (use ls in auto)
  ultimately show ?thesis by auto
qed

lemma lanes_fill_in_any_order_witness:
  "repeat_for (fill_segment 1) [(2, 1), (2, 0)]
     \<lparr>memory = replicate 16 ZERO_BLOCK, lanes = 2, lane_len = 8, segment_len = 2, pass_count = 3, variant = Argon2id\<rparr> =
   repeat_for (fill_segment 1) [(2, 0), (2, 1)]
     \<lparr>memory = replicate 16 ZERO_BLOCK, lanes = 2, lane_len = 8, segment_len = 2, pass_count = 3, variant = Argon2id\<rparr>"
proof -
  let ?a = "\<lparr>memory = replicate 16 ZERO_BLOCK, lanes = 2, lane_len = 8, segment_len = 2, pass_count = 3, variant = Argon2id\<rparr>"
  have a: "argon_ok ?a" by (simp add: argon_ok_def mem_ok_def ZERO_BLOCK_def BLOCK_WORDS_def)
  have m: "mset [1, 0] = mset [0..<lanes ?a]" by (simp add: upt_conv_Cons)
  show ?thesis
    using lanes_fill_in_any_order [OF a _ m, of 2 1, THEN conjunct1] by (simp add: upt_conv_Cons)
qed

end
