(* ===== verification/Argon2Tag.thy ===== *)
theory Argon2Tag
  imports Argon2Fill
begin

text \<open>
  The variable-length hash of Argon2 against RFC 9106, and the answers of \<open>argon2\<close>: it never panics,
  and gives a tag exactly for the parameters it accepts.
\<close>

subsection \<open>The variable-length hash\<close>

text \<open>H and H' of RFC 9106, sections 3.2 and 3.3.\<close>

definition H_of :: "nat \<Rightarrow> bytes \<Rightarrow> bytes" where
  "H_of n x = the (rfc7693 n [] x)"

fun V_of :: "nat \<Rightarrow> bytes \<Rightarrow> bytes" where
  "V_of 0 v = v"
| "V_of (Suc i) v = H_of 64 (V_of i v)"

text \<open>\<open>V_of i\<close> is V of index \<open>i + 1\<close> there.\<close>

definition H_prime_of :: "nat \<Rightarrow> bytes \<Rightarrow> bytes" where
  "H_prime_of T x =
     (if T \<le> 64 then H_of T (u32_le_bytes T @ x)
      else
        let r = (T + 31) div 32 - 2;
            v = H_of 64 (u32_le_bytes T @ x)
        in concat (map (\<lambda>i. take 32 (V_of i v)) [0..<r]) @ H_of (T - 32 * r) (V_of (r - 1) v))"

lemma hash_H: "1 \<le> n \<Longrightarrow> n \<le> 64 \<Longrightarrow> blake2b_hash n [] x = Some (H_of n x)"
  using blake2b_one_shot [of n "[]" x] rfc7693_length [of n "[]" x]
  by (cases "rfc7693 n [] x") (simp_all add: H_of_def)

lemma hash_0: "blake2b_hash 0 [] x = None"
  by (simp add: blake2b_hash_def blake2b_new_def)

lemma length_H: "1 \<le> n \<Longrightarrow> n \<le> 64 \<Longrightarrow> length (H_of n x) = n"
  using rfc7693_length [of n "[]" x] by (cases "rfc7693 n [] x") (simp_all add: H_of_def)

lemma V_shift: "V_of (Suc i) v = V_of i (H_of 64 v)"
  by (induction i) simp_all

lemma h_tail_chain:
  assumes "64 < remaining" and "length v = 64"
  shows "h_tail out remaining v = Some (Inr (out @
      concat (map (\<lambda>i. take 32 (V_of i v)) [0..<(remaining + 31) div 32 - 2]) @
      H_of (remaining - 32 * ((remaining + 31) div 32 - 2)) (V_of ((remaining + 31) div 32 - 2 - 1) v)))"
  using assms
proof (induction out remaining v rule: h_tail.induct)
  case (1 out remaining v)
  let ?r = "(remaining + 31) div 32 - 2"
  let ?n = "min (remaining - 32) 64"
  have n: "1 \<le> ?n" "?n \<le> 64" using 1(2) by auto
  have step: "h_tail out remaining v = h_tail (out @ take 32 v) (remaining - 32) (H_of ?n v)"
    using 1(2,3) hash_H [OF n] by (subst h_tail.simps) simp
  show ?case
  proof (cases "remaining - 32 > 64")
    case True
    then have m: "?n = 64" by simp
    let ?r' = "(remaining - 32 + 31) div 32 - 2"
    have r: "?r = Suc ?r'" "1 \<le> ?r'" using True by auto
    have u: "map (\<lambda>i. take 32 (V_of i v)) [0..<?r] =
        take 32 v # map (\<lambda>i. take 32 (V_of i (H_of 64 v))) [0..<?r']"
      unfolding r(1) upt_conv_Cons [OF zero_less_Suc]
      by (simp add: V_shift map_Suc_upt [symmetric] comp_def del: V_of.simps(2) upt_Suc) 
    have e: "h_tail (out @ take 32 v) (remaining - 32) (H_of 64 v) = Some (Inr ((out @ take 32 v) @
      concat (map (\<lambda>i. take 32 (V_of i (H_of 64 v))) [0..<?r']) @
      H_of (remaining - 32 - 32 * ?r') (V_of (?r' - 1) (H_of 64 v))))"
      using 1(1) [OF 1(2) _ hash_H [OF n]] 1(3) True length_H [OF n] m by simp
    have "V_of (?r' - 1) (H_of 64 v) = V_of (?r - 1) v"
    proof -
      have "?r - 1 = Suc (?r' - 1)" using r by linarith
      then show ?thesis by (simp only: V_shift)
    qed
    moreover have "remaining - 32 - 32 * ?r' = remaining - 32 * ?r" using r(1) by simp
    ultimately show ?thesis unfolding step m e u by simp
  next
    case False
    then have m: "?n = remaining - 32" by simp
    have "(remaining + 31) div 32 = 3" using 1(2) False by auto
    then show ?thesis
      using step length_H [OF n] False unfolding m by (simp add: h_tail.simps)
  qed
qed

text \<open>A call of \<open>h_prime\<close> fills its output with H' of RFC 9106, and fails for an empty output only.\<close>

lemma h_prime_is_rfc9106:
  "h_prime T x = (if T = 0 then Some (Inl ''argon2 h' failed'') else Some (Inr (H_prime_of T x)))"
proof -
  have "h_prime T x = Some (Inr (H_prime_of T x))" if T: "1 \<le> T"
  proof (cases "T \<le> 64")
    case True
    then show ?thesis using T hash_H [OF T True] length_H [OF T True]
      by (simp add: h_prime_def H_prime_of_def Let_def)
  next
    case False
    have "length (H_of 64 y) = 64" for y by (rule length_H) simp_all
    then show ?thesis using False hash_H [of 64] h_tail_chain [of T]
      by (simp add: h_prime_def H_prime_of_def Let_def)
  qed
  then show ?thesis by (simp add: h_prime_def hash_0)
qed

lemma length_V: "length v = 64 \<Longrightarrow> length (V_of i v) = 64"
  by (cases i) (simp_all add: length_H)

lemma length_H_prime: "1 \<le> T \<Longrightarrow> length (H_prime_of T x) = T"
proof (cases "T \<le> 64")
  case False
  let ?r = "(T + 31) div 32 - 2" and ?v = "H_of 64 (u32_le_bytes T @ x)"
  have t: "length (take 32 (V_of i ?v)) = 32" for i by (simp add: length_V length_H)
  have c: "length (concat (map (\<lambda>i. take 32 (V_of i ?v)) [0..<r])) = 32 * r" for r
    by (induction r) (use t in simp_all)
  have T: "1 \<le> T - 32 * ?r" "T - 32 * ?r \<le> 64" "32 * ?r \<le> T" using False by auto
  have h: "length (H_of (T - 32 * ?r) y) = T - 32 * ?r" for y by (rule length_H [OF T(1,2)])
  show ?thesis
    unfolding H_prime_of_def Let_def using False T(3) by (simp only: if_False length_append c h)
qed (simp add: H_prime_of_def length_H)

subsection \<open>The answers\<close>

lemma for_each_keeps:
  assumes "\<And>i s. P s \<Longrightarrow> i \<in> set is \<Longrightarrow> \<exists>s'. f i s = Some (Inr s') \<and> P s'" and "P s"
  shows "\<exists>s'. for_each f is s = Some (Inr s') \<and> P s'"
  using assms
proof (induction "is" arbitrary: s)
  case (Cons i "is")
  obtain s' where "f i s = Some (Inr s')" "P s'" using Cons.prems(1) [OF Cons.prems(2), of i] by auto
  then show ?case using Cons.IH [of s'] Cons.prems(1) by simp
qed simp

lemma first_blocks_keep:
  assumes "argon_ok a"
  shows "\<exists>a'. fill_first_blocks h0 a = Some (Inr a') \<and> argon_ok a' \<and> lanes a' = lanes a"
proof -
  let ?P = "\<lambda>b. argon_ok b \<and> lanes b = lanes a"
  have "\<exists>a'. for_each (first_block h0) (List.product [0..<lanes a] [0..<2]) a = Some (Inr a') \<and> ?P a'"
  proof (rule for_each_keeps)
    fix i s
    assume s: "?P s" and i: "i \<in> set (List.product [0..<lanes a] [0..<2])"
    obtain l c where lc: "i = (l, c)" "l < lanes s" "c < 2" using i s by auto
    let ?x = "h0 @ u32_le_bytes c @ u32_le_bytes l"
    have "c < lane_len s" using lc s by (auto simp: argon_ok_def)
    then have b: "l * lane_len s + c < length (memory s)"
      using cell_bound [OF lc(2)] s by (simp add: argon_ok_def mem_ok_def)
    have "first_block h0 i s = Some (Inr
        (s\<lparr>memory := (memory s)[l * lane_len s + c := block_from_le_bytes (H_prime_of 1024 ?x)]\<rparr>))"
      using b by (simp add: first_block_def lc(1) h_prime_is_rfc9106)
    moreover have "length (block_from_le_bytes y) = 128" for y
      by (simp add: block_from_le_bytes_def block_words_def BLOCK_WORDS_def)
    then have "mem_ok s ((memory s)[l * lane_len s + c := block_from_le_bytes (H_prime_of 1024 ?x)])"
      using s by (intro mem_ok_update) (simp_all add: argon_ok_def)
    then have "?P (s\<lparr>memory := (memory s)[l * lane_len s + c := block_from_le_bytes (H_prime_of 1024 ?x)]\<rparr>)"
      using s by (simp add: argon_ok_def mem_ok_def)
    ultimately show "\<exists>s'. first_block h0 i s = Some (Inr s') \<and> ?P s'" by blast
  qed (use assms in simp)
  then show ?thesis unfolding fill_first_blocks_def .
qed

lemma pass_keeps:
  assumes "argon_ok a"
  shows "\<exists>a'. fill_pass pass a = Some a' \<and> argon_ok a'"
proof -
  let ?P = "\<lambda>b. argon_ok b \<and> lanes b = lanes a"
  have "\<exists>a'. repeat_for (fill_segment pass) (List.product [0..<SYNC_POINTS] [0..<lanes a]) a = Some a' \<and> ?P a'"
  proof (rule repeat_for_keeps)
    fix i s
    assume s: "?P s" and i: "i \<in> set (List.product [0..<SYNC_POINTS] [0..<lanes a])"
    obtain q l where ql: "i = (q, l)" "q < 4" "l < lanes s" using i s by (auto simp: SYNC_POINTS_def)
    show "\<exists>s'. fill_segment pass i s = Some s' \<and> ?P s'"
      using segment_keeps [OF conjunct1 [OF s] ql(3,2), of pass] s ql(1) by force
  qed (use assms in simp)
  then show ?thesis unfolding fill_pass_def by blast
qed

lemma tag_extracted:
  assumes "argon_ok a" and "1 \<le> tag_len"
  shows "\<exists>tag. extract_tag tag_len a = Some (Inr tag) \<and> length tag = tag_len"
proof -
  have a: "0 < lanes a" "1 \<le> lane_len a" "mem_ok a (memory a)" using assms(1) by (auto simp: argon_ok_def)
  let ?c = "lane_len a - 1"
  have cell: "fetch (memory a) (l * lane_len a + ?c) = Some (memory a ! (l * lane_len a + ?c))"
    if "l < lanes a" for l by (rule fetch_cell [OF a(3) that]) (use a(2) in simp)
  have "\<exists>final. repeat_for (\<lambda>lane acc. map_option (\<lambda>block. map2 (XOR) acc block)
      (fetch (memory a) (lane * lane_len a + ?c))) [1..<lanes a] (memory a ! ?c) = Some final \<and> True"
    by (rule repeat_for_keeps) (use cell in auto)
  then obtain final where "repeat_for (\<lambda>lane acc. map_option (\<lambda>block. map2 (XOR) acc block)
      (fetch (memory a) (lane * lane_len a + ?c))) [1..<lanes a] (memory a ! ?c) = Some final" by blast
  then have "extract_tag tag_len a = h_prime tag_len (concat (map to_le_bytes final))"
    using a(2) cell [OF a(1)] by (simp add: extract_tag_def less_by_def)
  then show ?thesis using assms(2) by (simp add: h_prime_is_rfc9106 length_H_prime)
qed

definition accepted :: "(nat \<Rightarrow> bool) \<Rightarrow> bytes \<Rightarrow> bytes \<Rightarrow> bytes \<Rightarrow> bytes \<Rightarrow> nat \<Rightarrow> nat \<Rightarrow> nat \<Rightarrow> nat \<Rightarrow> bool" where
  "accepted fits password salt secret ad passes memory_kib n tag_len \<longleftrightarrow>
     4 \<le> tag_len \<and> tag_len \<le> 1024 \<and> 8 \<le> length salt \<and> length salt \<le> 1024 \<and> 1 \<le> passes \<and> passes \<le> 1024 \<and>
     1 \<le> n \<and> n \<le> 64 \<and> 8 * n \<le> memory_kib \<and> memory_kib \<le> 2 ^ 20 \<and>
     fits (memory_kib div (4 * n) * 4 * n) \<and>
     length password < 2 ^ 32 \<and> length secret < 2 ^ 32 \<and> length ad < 2 ^ 32"

text \<open>C25. Argon2 never panics, for any parameters: it gives a tag of the length asked for exactly when
  the parameters are in the ranges of RFC 9106 and of the runtime's caps and the memory can be
  allocated, and an error otherwise.\<close>

theorem argon2_answers:
  "\<exists>r. argon2 fits v password salt secret ad passes memory_kib n tag_len = Some r \<and>
     (case r of
        Inl e \<Rightarrow> \<not> accepted fits password salt secret ad passes memory_kib n tag_len
      | Inr tag \<Rightarrow> accepted fits password salt secret ad passes memory_kib n tag_len \<and> length tag = tag_len)"
proof -
  let ?ok = "4 \<le> tag_len \<and> tag_len \<le> 1024 \<and> 8 \<le> length salt \<and> length salt \<le> 1024 \<and> 1 \<le> passes \<and>
    passes \<le> 1024 \<and> 1 \<le> n \<and> n \<le> 64 \<and> 8 * n \<le> memory_kib \<and> memory_kib \<le> 2 ^ 20"
  show ?thesis
  proof (cases ?ok)
    case False
    then show ?thesis
      by (auto simp: argon2_def accepted_def MIN_TAG_LEN_def MAX_TAG_LEN_def MIN_SALT_LEN_def
          MAX_SALT_LEN_def MAX_PASSES_def MAX_LANES_def MAX_MEMORY_KIB_def)
  next
    case True
    let ?seg = "memory_kib div (4 * n)"
    let ?a = "\<lparr>memory = replicate (?seg * 4 * n) ZERO_BLOCK, lanes = n, lane_len = ?seg * 4, segment_len = ?seg,
      pass_count = passes, variant = v\<rparr>"
    define seg where "seg = ?seg"
    have seg: "2 \<le> seg" "seg * 4 \<le> 2 ^ 20"
    proof -
      have "2 * (4 * n) \<le> memory_kib" using True by simp
      then have "2 \<le> memory_kib div (4 * n)" using True by (simp add: less_eq_div_iff_mult_less_eq)
      then show "2 \<le> seg" by (simp add: seg_def)
      have "seg * 4 * 1 \<le> seg * 4 * n" using True by (intro mult_le_mono2) simp
      also have "\<dots> \<le> memory_kib" unfolding seg_def by (metis div_times_less_eq_dividend mult.assoc)
      finally show "seg * 4 \<le> 2 ^ 20" using True by simp
    qed
    have a: "argon_ok ?a"
      using seg True by (simp add: argon_ok_def mem_ok_def ZERO_BLOCK_def BLOCK_WORDS_def flip: seg_def)
    have run: "argon2 fits v password salt secret ad passes memory_kib n tag_len =
      (if \<not> fits (?seg * 4 * n) then Some (Inl ''argon2 memory allocation failed'')
       else or_error (initial_hash v password salt secret ad passes memory_kib n tag_len) (\<lambda>h0.
             or_error (fill_first_blocks h0 ?a) (\<lambda>a.
             Option.bind (repeat_for fill_pass [0..<passes] a) (extract_tag tag_len))))"
      using True by (simp add: argon2_def MIN_TAG_LEN_def MAX_TAG_LEN_def MIN_SALT_LEN_def
          MAX_SALT_LEN_def MAX_PASSES_def MAX_LANES_def MAX_MEMORY_KIB_def SYNC_POINTS_def Let_def)
    let ?long = "length password > 2 ^ 32 - 1 \<or> length secret > 2 ^ 32 - 1 \<or> length ad > 2 ^ 32 - 1"
    have acc: "accepted fits password salt secret ad passes memory_kib n tag_len \<longleftrightarrow>
        fits (?seg * 4 * n) \<and> \<not> ?long"
      using True by (auto simp: accepted_def)
    show ?thesis
    proof (cases "fits (?seg * 4 * n) \<and> \<not> ?long")
      case False
      then show ?thesis using acc by (auto simp: run initial_hash_def)
    next
      case yes: True
      obtain h0 where h0: "initial_hash v password salt secret ad passes memory_kib n tag_len = Some (Inr h0)"
        using yes by (simp add: initial_hash_def hash_H length_H Let_def)
      obtain a1 where a1: "fill_first_blocks h0 ?a = Some (Inr a1)" "argon_ok a1"
        using first_blocks_keep [OF a, of h0] by blast
      obtain a2 where a2: "repeat_for fill_pass [0..<passes] a1 = Some a2" "argon_ok a2"
        using repeat_for_keeps [of argon_ok "[0..<passes]" fill_pass a1] pass_keeps a1(2) by blast
      obtain tag where "extract_tag tag_len a2 = Some (Inr tag)" "length tag = tag_len"
        using tag_extracted [OF a2(2), of tag_len] True by auto
      then show ?thesis using yes acc by (simp add: run h0 a1(1) a2(1))
    qed
  qed
qed

end
