(* ===== verification/StructLife.thy ===== *)
theory StructLife
  imports Steps "HOL-Library.Numeral_Type"
begin

text \<open>
  The counts of a shared struct, \<open>runtime_core.rs\<close>: strong owners, weak references with one unit that
  the strong owners hold together, the destructor under its guard count, and the freeing of the
  header. Any number of threads retain, release, upgrade and hand on references to one struct; every
  load and every read-modify-write is a step. A count is a \<open>nat\<close>: it would wrap at \<open>2 ^ 32\<close> references.
  The struct is marked shared, and the cycle collector and the debugging switches are off.
\<close>

subsection \<open>States and steps\<close>

text \<open>\<open>Idle\<close> threads run the program. \<open>SawOne\<close> is between the two loads of the sole-owner test;
  \<open>InDtor k\<close> runs the destructor, which holds \<open>k\<close> counts of its own; \<open>DropLook\<close> and \<open>DropSub\<close> drop a weak
  unit, the one of the strong owners if the flag is set.\<close>

datatype struct_pc =
    Idle
  | Retaining
  | SawOne
  | Subbing
  | Ending
  | InDtor nat
  | Checking
  | Marking
  | DropLook bool
  | DropSub bool
  | Upgrading "nat option"

definition STRUCT_DTOR_GUARD :: nat where "STRUCT_DTOR_GUARD = 2 ^ 31"

text \<open>\<open>owns\<close> and \<open>weaks\<close> are the references of each thread, \<open>ender\<close> the thread that found the last
  count, \<open>implicit\<close> whether the strong owners' weak unit is there, \<open>destroyed\<close> how often the value was
  given up: ghosts, like nothing in the code.\<close>

record 't struct_state =
  strong :: nat
  weak :: nat
  dead :: bool
  freed :: bool
  pcs :: "'t \<Rightarrow> struct_pc"
  owns :: "'t \<Rightarrow> nat"
  weaks :: "'t \<Rightarrow> nat"
  ender :: "'t option"
  implicit :: bool
  destroyed :: nat

abbreviation at_pc :: "'t \<Rightarrow> struct_pc \<Rightarrow> 't struct_state \<Rightarrow> 't struct_state" where
  "at_pc c p s \<equiv> s\<lparr>pcs := (pcs s)(c := p)\<rparr>"

abbreviation gain :: "'t \<Rightarrow> 't struct_state \<Rightarrow> 't struct_state" where
  "gain c s \<equiv> s\<lparr>strong := strong s + 1, owns := (owns s)(c := owns s c + 1)\<rparr>"

definition pith_struct_alloc :: "'t \<Rightarrow> 't struct_state" where
  "pith_struct_alloc c =
     \<lparr>strong = 1, weak = 1, dead = False, freed = False, pcs = (\<lambda>t. Idle), owns = (\<lambda>t. 0)(c := 1),
      weaks = (\<lambda>t. 0), ender = None, implicit = True, destroyed = 0\<rparr>"

text \<open>\<open>pith_struct_retain\<close>: the flag word, then the count.\<close>

definition retain_look :: "'t \<Rightarrow> 't struct_state \<Rightarrow> 't struct_state" where
  "retain_look c s = at_pc c (if dead s then Idle else Retaining) s"

definition retain_add :: "'t \<Rightarrow> 't struct_state \<Rightarrow> 't struct_state" where
  "retain_add c s = at_pc c Idle (gain c s)"

text \<open>\<open>pith_struct_release\<close>: the sole-owner test, the decrement, and what the last owner does. A count
  that is given up leaves \<open>owns\<close>.\<close>

definition release_look :: "'t \<Rightarrow> 't struct_state \<Rightarrow> 't struct_state" where
  "release_look c s = at_pc c (if strong s = 1 then SawOne else Subbing) s"

definition give_up :: "'t \<Rightarrow> 't struct_state \<Rightarrow> 't struct_state" where
  "give_up c s = s\<lparr>owns := (owns s)(c := owns s c - 1)\<rparr>"

definition end_value :: "'t \<Rightarrow> 't struct_state \<Rightarrow> 't struct_state" where
  "end_value c s = at_pc c Ending (s\<lparr>ender := Some c\<rparr>)"

definition release_look_weak :: "'t \<Rightarrow> 't struct_state \<Rightarrow> 't struct_state" where
  "release_look_weak c s = (if weak s = 1 then end_value c (give_up c s) else at_pc c Subbing s)"

definition release_sub :: "'t \<Rightarrow> 't struct_state \<Rightarrow> 't struct_state" where
  "release_sub c s =
     (let prev = strong s in
      if prev = 0 then at_pc c Idle s
      else
        let s = give_up c (s\<lparr>strong := prev - 1\<rparr>)
        in if prev > 1 then at_pc c Idle s else end_value c s)"

definition run_dtor :: "bool \<Rightarrow> 't \<Rightarrow> 't struct_state \<Rightarrow> 't struct_state" where
  "run_dtor dtor c s =
     (if dtor then at_pc c (InDtor 0) (s\<lparr>strong := STRUCT_DTOR_GUARD, destroyed := destroyed s + 1\<rparr>)
      else at_pc c Checking (s\<lparr>destroyed := destroyed s + 1\<rparr>))"

definition free_header :: "'t \<Rightarrow> 't struct_state \<Rightarrow> 't struct_state" where
  "free_header c s = at_pc c Idle (s\<lparr>freed := True\<rparr>)"

text \<open>The weak unit that a drop gives back: the one of the owners, or one of the thread's.\<close>

definition give_unit :: "bool \<Rightarrow> 't \<Rightarrow> 't struct_state \<Rightarrow> 't struct_state" where
  "give_unit own c s =
     (if own then s\<lparr>implicit := False, ender := None\<rparr> else s\<lparr>weaks := (weaks s)(c := weaks s c - 1)\<rparr>)"

definition check_weak :: "'t \<Rightarrow> 't struct_state \<Rightarrow> 't struct_state" where
  "check_weak c s = (if weak s = 1 then free_header c (give_unit True c s) else at_pc c Marking s)"

definition mark_dead :: "'t \<Rightarrow> 't struct_state \<Rightarrow> 't struct_state" where
  "mark_dead c s = at_pc c (DropLook True) (s\<lparr>dead := True\<rparr>)"

text \<open>\<open>struct_weak_drop\<close>.\<close>

definition drop_look :: "bool \<Rightarrow> 't \<Rightarrow> 't struct_state \<Rightarrow> 't struct_state" where
  "drop_look own c s = (if weak s = 1 then free_header c (give_unit own c s) else at_pc c (DropSub own) s)"

definition drop_sub :: "bool \<Rightarrow> 't \<Rightarrow> 't struct_state \<Rightarrow> 't struct_state" where
  "drop_sub own c s =
     (let s' = give_unit own c (s\<lparr>weak := weak s - 1\<rparr>)
      in if weak s = 1 then free_header c s' else at_pc c Idle s')"

definition pith_struct_weak_retain :: "'t \<Rightarrow> 't struct_state \<Rightarrow> 't struct_state" where
  "pith_struct_weak_retain c s = s\<lparr>weak := weak s + 1, weaks := (weaks s)(c := weaks s c + 1)\<rparr>"

text \<open>\<open>weak_upgrade\<close>: the flag word, the count, and the exchange.\<close>

definition upgrade_look :: "'t \<Rightarrow> 't struct_state \<Rightarrow> 't struct_state" where
  "upgrade_look c s = at_pc c (if dead s then Idle else Upgrading None) s"

definition upgrade_load :: "'t \<Rightarrow> 't struct_state \<Rightarrow> 't struct_state" where
  "upgrade_load c s = at_pc c (Upgrading (Some (strong s))) s"

definition refuses :: "nat \<Rightarrow> bool" where
  "refuses n \<longleftrightarrow> n = 0 \<or> n \<ge> STRUCT_DTOR_GUARD"

definition upgrade_cas :: "'t \<Rightarrow> nat \<Rightarrow> 't struct_state \<Rightarrow> 't struct_state" where
  "upgrade_cas c n s =
     (if refuses n then at_pc c Idle s
      else if strong s = n then at_pc c Idle (gain c s)
      else upgrade_load c s)"

text \<open>\<open>race\<close> allows an upgrade to succeed while another thread is between the two loads of the
  sole-owner test, as the code does.\<close>

inductive struct_step :: "bool \<Rightarrow> bool \<Rightarrow> 't struct_state \<Rightarrow> 't struct_state \<Rightarrow> bool" for dtor race where
  retain_looks: "pcs s c = Idle \<Longrightarrow> 1 \<le> owns s c \<Longrightarrow> struct_step dtor race s (retain_look c s)"
| retain_adds: "pcs s c = Retaining \<Longrightarrow> struct_step dtor race s (retain_add c s)"
| release_looks: "pcs s c = Idle \<Longrightarrow> 1 \<le> owns s c \<Longrightarrow> struct_step dtor race s (release_look c s)"
| release_looks_weak: "pcs s c = SawOne \<Longrightarrow> struct_step dtor race s (release_look_weak c s)"
| release_subs: "pcs s c = Subbing \<Longrightarrow> struct_step dtor race s (release_sub c s)"
| runs_dtor: "pcs s c = Ending \<Longrightarrow> struct_step dtor race s (run_dtor dtor c s)"
| dtor_retains: "pcs s c = InDtor k \<Longrightarrow>
    struct_step dtor race s (at_pc c (InDtor (k + 1)) (s\<lparr>strong := strong s + 1\<rparr>))"
| dtor_releases: "pcs s c = InDtor (Suc k) \<Longrightarrow>
    struct_step dtor race s (at_pc c (InDtor k) (s\<lparr>strong := strong s - 1\<rparr>))"
| dtor_weak_retains: "pcs s c = InDtor k \<Longrightarrow> struct_step dtor race s (pith_struct_weak_retain c s)"
| dtor_ends: "pcs s c = InDtor 0 \<Longrightarrow> struct_step dtor race s (at_pc c Checking s)"
| checks_weak: "pcs s c = Checking \<Longrightarrow> struct_step dtor race s (check_weak c s)"
| marks_dead: "pcs s c = Marking \<Longrightarrow> struct_step dtor race s (mark_dead c s)"
| drop_looks: "pcs s c = DropLook own \<Longrightarrow> struct_step dtor race s (drop_look own c s)"
| drop_subs: "pcs s c = DropSub own \<Longrightarrow> struct_step dtor race s (drop_sub own c s)"
| weak_retains: "pcs s c = Idle \<Longrightarrow> 1 \<le> owns s c + weaks s c \<Longrightarrow>
    struct_step dtor race s (pith_struct_weak_retain c s)"
| weak_releases: "pcs s c = Idle \<Longrightarrow> 1 \<le> weaks s c \<Longrightarrow> struct_step dtor race s (at_pc c (DropLook False) s)"
| upgrade_looks: "pcs s c = Idle \<Longrightarrow> 1 \<le> owns s c + weaks s c \<Longrightarrow>
    struct_step dtor race s (upgrade_look c s)"
| upgrade_loads: "pcs s c = Upgrading n \<Longrightarrow> struct_step dtor race s (upgrade_load c s)"
| upgrades: "pcs s c = Upgrading (Some n) \<Longrightarrow> race \<or> (\<forall>c'. pcs s c' \<noteq> SawOne) \<Longrightarrow>
    struct_step dtor race s (upgrade_cas c n s)"
| gives_strong: "pcs s c = Idle \<Longrightarrow> pcs s c' = Idle \<Longrightarrow> c \<noteq> c' \<Longrightarrow> 1 \<le> owns s c \<Longrightarrow>
    struct_step dtor race s (s\<lparr>owns := (owns s)(c := owns s c - 1, c' := owns s c' + 1)\<rparr>)"
| gives_weak: "pcs s c = Idle \<Longrightarrow> pcs s c' = Idle \<Longrightarrow> c \<noteq> c' \<Longrightarrow> 1 \<le> weaks s c \<Longrightarrow>
    struct_step dtor race s (s\<lparr>weaks := (weaks s)(c := weaks s c - 1, c' := weaks s c' + 1)\<rparr>)"

subsection \<open>The invariant\<close>

definition S_of :: "'t::finite struct_state \<Rightarrow> nat" where
  "S_of s = (\<Sum>t\<in>UNIV. owns s t)"

definition W_of :: "'t::finite struct_state \<Rightarrow> nat" where
  "W_of s = (\<Sum>t\<in>UNIV. weaks s t)"

fun ends :: "struct_pc \<Rightarrow> bool" where
  "ends Ending \<longleftrightarrow> True"
| "ends (InDtor k) \<longleftrightarrow> True"
| "ends Checking \<longleftrightarrow> True"
| "ends Marking \<longleftrightarrow> True"
| "ends (DropLook own) \<longleftrightarrow> own"
| "ends (DropSub own) \<longleftrightarrow> own"
| "ends _ \<longleftrightarrow> False"

text \<open>What a thread holds at its point.\<close>

definition pc_ok :: "'t struct_state \<Rightarrow> 't \<Rightarrow> bool" where
  "pc_ok s t \<longleftrightarrow>
     (case pcs s t of
        Retaining \<Rightarrow> 1 \<le> owns s t
      | SawOne \<Rightarrow> 1 \<le> owns s t \<and> strong s = 1
      | Subbing \<Rightarrow> 1 \<le> owns s t
      | Upgrading n \<Rightarrow> 1 \<le> owns s t + weaks s t
      | DropLook own \<Rightarrow> own \<or> 1 \<le> weaks s t
      | DropSub own \<Rightarrow> own \<or> 1 \<le> weaks s t
      | _ \<Rightarrow> True)"

text \<open>No upgrade can find a live count.\<close>

definition refused_all :: "'t::finite struct_state \<Rightarrow> bool" where
  "refused_all s \<longleftrightarrow> refuses (strong s)"

definition live :: "'t::finite struct_state \<Rightarrow> bool" where
  "live s \<longleftrightarrow> ender s = None \<and> implicit s \<and> \<not> freed s \<and> \<not> dead s \<and> destroyed s = 0 \<and>
     strong s = S_of s \<and> 1 \<le> S_of s"

definition ending_at :: "bool \<Rightarrow> 't::finite struct_state \<Rightarrow> struct_pc \<Rightarrow> bool" where
  "ending_at dtor s p \<longleftrightarrow>
     (case p of
        Ending \<Rightarrow> destroyed s = 0 \<and> \<not> dead s \<and> (refused_all s \<or> W_of s = 0)
      | InDtor k \<Rightarrow> dtor \<and> destroyed s = 1 \<and> \<not> dead s \<and> strong s = STRUCT_DTOR_GUARD + k
      | Checking \<Rightarrow> destroyed s = 1 \<and> \<not> dead s \<and> (refused_all s \<or> W_of s = 0)
      | Marking \<Rightarrow> destroyed s = 1 \<and> \<not> dead s \<and> refused_all s
      | _ \<Rightarrow> destroyed s = 1 \<and> dead s \<and> refused_all s)"

definition ending :: "bool \<Rightarrow> 't::finite struct_state \<Rightarrow> bool" where
  "ending dtor s \<longleftrightarrow> (\<exists>t. ender s = Some t \<and> ending_at dtor s (pcs s t)) \<and> implicit s \<and> \<not> freed s \<and> S_of s = 0"

definition over :: "'t::finite struct_state \<Rightarrow> bool" where
  "over s \<longleftrightarrow> ender s = None \<and> \<not> implicit s \<and> S_of s = 0 \<and> destroyed s = 1 \<and>
     (if freed s then W_of s = 0 \<and> (\<forall>t. pcs s t = Idle) else dead s \<and> refused_all s \<and> 1 \<le> W_of s)"

definition struct_inv :: "bool \<Rightarrow> 't::finite struct_state \<Rightarrow> bool" where
  "struct_inv dtor s \<longleftrightarrow>
     (\<not> freed s \<longrightarrow> weak s = W_of s + of_bool (implicit s)) \<and>
     (\<forall>t. pc_ok s t) \<and> (\<forall>t. ends (pcs s t) \<longleftrightarrow> ender s = Some t) \<and>
     (live s \<or> ending dtor s \<or> over s)"

lemma S_upd: "S_of (s\<lparr>owns := (owns s)(c := x)\<rparr>) + owns s c = S_of s + x"
  using sum_upd [of "owns s" c x] by (simp add: S_of_def)

lemma W_upd: "W_of (s\<lparr>weaks := (weaks s)(c := x)\<rparr>) + weaks s c = W_of s + x"
  using sum_upd [of "weaks s" c x] by (simp add: W_of_def)

lemma S_zero: "S_of s = 0 \<longleftrightarrow> (\<forall>t. owns s t = 0)"
  by (simp add: S_of_def)

lemma W_zero: "W_of s = 0 \<longleftrightarrow> (\<forall>t. weaks s t = 0)"
  by (simp add: W_of_def)

lemma owns_le: "owns s t \<le> S_of s"
  unfolding S_of_def by (rule member_le_sum) simp_all

lemma weaks_le: "weaks s t \<le> W_of s"
  unfolding W_of_def by (rule member_le_sum) simp_all

lemma owns_two: "t \<noteq> t' \<Longrightarrow> owns s t + owns s t' \<le> S_of s"
proof -
  assume "t \<noteq> t'"
  then have "owns s t + owns s t' = (\<Sum>x\<in>{t, t'}. owns s x)" by simp
  also have "\<dots> \<le> S_of s" unfolding S_of_def by (rule sum_mono2) simp_all
  finally show ?thesis .
qed

lemma W_upd_eq: "weaks s' = (weaks s)(c := x) \<Longrightarrow> W_of s' = W_of s + x - weaks s c"
  using sum_upd [of "weaks s" c x] by (simp add: W_of_def)

lemma S_upd_eq: "owns s' = (owns s)(c := x) \<Longrightarrow> S_of s' = S_of s + x - owns s c"
  using sum_upd [of "owns s" c x] by (simp add: S_of_def)

lemma S_same: "owns s' = owns s \<Longrightarrow> S_of s' = S_of s"
  by (simp add: S_of_def)

lemma W_same: "weaks s' = weaks s \<Longrightarrow> W_of s' = W_of s"
  by (simp add: W_of_def)

lemma struct_invD:
  assumes "struct_inv dtor s"
  shows "\<not> freed s \<Longrightarrow> weak s = W_of s + of_bool (implicit s)" "pc_ok s t" "ends (pcs s t) \<longleftrightarrow> ender s = Some t"
    "live s \<or> ending dtor s \<or> over s"
  using assms unfolding struct_inv_def by blast+

lemma owner_live: "struct_inv dtor s \<Longrightarrow> 1 \<le> owns s c \<Longrightarrow> live s"
  using struct_invD(4) [of dtor s] owns_le [of s c] by (auto simp: ending_def over_def)

lemma ender_ending:
  assumes "struct_inv dtor s" "ends (pcs s c)"
  shows "ender s = Some c" "ending_at dtor s (pcs s c)" "implicit s" "\<not> freed s" "S_of s = 0"
proof -
  show e: "ender s = Some c" using struct_invD(3) [OF assms(1), of c] assms(2) by simp
  then have "ending dtor s" using struct_invD(4) [OF assms(1)] by (auto simp: live_def over_def)
  then show "ending_at dtor s (pcs s c)" "implicit s" "\<not> freed s" "S_of s = 0"
    using e by (auto simp: ending_def)
qed

lemma not_freed:
  assumes "struct_inv dtor s" "pcs s c \<noteq> Idle \<or> 1 \<le> owns s c + weaks s c"
  shows "\<not> freed s"
proof
  assume f: "freed s"
  then have "over s" using struct_invD(4) [OF assms(1)] by (auto simp: live_def ending_def)
  then show False using assms(2) f by (auto simp: over_def S_zero W_zero)
qed

lemma saw_one_alone:
  assumes "struct_inv dtor s" "pcs s t = SawOne" "1 \<le> owns s c"
  shows "t = c"
proof (rule ccontr)
  assume "t \<noteq> c"
  have "1 \<le> owns s t" "strong s = 1" using struct_invD(2) [OF assms(1), of t] assms(2) by (auto simp: pc_ok_def)
  moreover have "strong s = S_of s" using owner_live [OF assms(1,3)] by (simp add: live_def)
  ultimately show False using owns_two [OF \<open>t \<noteq> c\<close>, of s] assms(3) by simp
qed

lemma saw_one_live: "struct_inv dtor s \<Longrightarrow> pcs s t = SawOne \<Longrightarrow> live s"
  using struct_invD(2) [of dtor s t] owner_live [of dtor s t] by (simp add: pc_ok_def)

text \<open>A thread's step leaves the others where they were.\<close>

definition others :: "'t \<Rightarrow> 't struct_state \<Rightarrow> 't struct_state \<Rightarrow> bool" where
  "others c s s' \<longleftrightarrow>
     (\<forall>t. t \<noteq> c \<longrightarrow> pcs s' t = pcs s t \<and> owns s' t = owns s t \<and> weaks s' t = weaks s t \<and>
        (pcs s t = SawOne \<longrightarrow> strong s' = strong s))"

lemma pcs_ok_step:
  assumes "struct_inv dtor s" and "others c s s'" and "pc_ok s' c"
  shows "pc_ok s' t"
proof (cases "t = c")
  case False
  then have "pcs s' t = pcs s t" "owns s' t = owns s t" "weaks s' t = weaks s t"
    "pcs s t = SawOne \<longrightarrow> strong s' = strong s" using assms(2) by (auto simp: others_def)
  then show ?thesis using struct_invD(2) [OF assms(1), of t] by (auto simp: pc_ok_def split: struct_pc.splits)
qed (use assms(3) in simp)

lemma struct_invI:
  assumes "struct_inv dtor s" and "others c s s'" and "pc_ok s' c"
    and "\<not> freed s' \<Longrightarrow> weak s' = W_of s' + of_bool (implicit s')"
    and "ends (pcs s' c) \<longleftrightarrow> ender s' = Some c" and "\<And>t. t \<noteq> c \<Longrightarrow> ender s' = Some t \<longleftrightarrow> ender s = Some t"
    and "live s' \<or> ending dtor s' \<or> over s'"
  shows "struct_inv dtor s'"
  unfolding struct_inv_def
proof (intro conjI allI impI)
  fix t
  show "pc_ok s' t" by (rule pcs_ok_step [OF assms(1-3)])
  show "ends (pcs s' t) \<longleftrightarrow> ender s' = Some t"
  proof (cases "t = c")
    case False
    then show ?thesis
      using struct_invD(3) [OF assms(1), of t] assms(2) assms(6) [OF False] by (simp add: others_def)
  qed (use assms(5) in simp)
qed (use assms in auto)

text \<open>A step that moves only the point of its thread, outside the end of the value.\<close>

lemma move_inv:
  assumes "struct_inv dtor s" and "\<not> ends (pcs s c)" and "\<not> ends p" and "\<not> freed s" and "pc_ok (at_pc c p s) c"
  shows "struct_inv dtor (at_pc c p s)"
proof (rule struct_invI [OF assms(1), where c = c])
  have e: "ender s \<noteq> Some c" using struct_invD(3) [OF assms(1), of c] assms(2) by simp
  show "others c s (at_pc c p s)" by (simp add: others_def)
  show "pc_ok (at_pc c p s) c" by (rule assms(5))
  show "weak (at_pc c p s) = W_of (at_pc c p s) + of_bool (implicit (at_pc c p s))"
    using struct_invD(1) [OF assms(1,4)] by (simp add: W_of_def)
  show "ends (pcs (at_pc c p s) c) \<longleftrightarrow> ender (at_pc c p s) = Some c" using e assms(3) by simp
  show "ender (at_pc c p s) = Some t \<longleftrightarrow> ender s = Some t" if "t \<noteq> c" for t by simp
  let ?s = "at_pc c p s"
  have sums: "S_of ?s = S_of s" "W_of ?s = W_of s" by (simp_all add: S_of_def W_of_def)
  then have "ending_at dtor ?s = ending_at dtor s"
    by (simp add: fun_eq_iff ending_at_def refused_all_def split: struct_pc.split)
  then have "ending dtor ?s = ending dtor s" using sums e by (auto simp: ending_def)
  moreover have "live ?s = live s" using sums by (simp add: live_def)
  moreover have "over ?s = over s" using sums assms(4) by (simp add: over_def refused_all_def)
  ultimately show "live ?s \<or> ending dtor ?s \<or> over ?s" using struct_invD(4) [OF assms(1)] by simp
qed

lemmas phase_defs = live_def ending_def over_def ending_at_def refused_all_def

lemma strong_up_inv:
  assumes inv: "struct_inv dtor s" and l: "live s" and c: "pcs s c \<noteq> SawOne" "\<not> ends (pcs s c)"
    and one: "\<forall>t. pcs s t \<noteq> SawOne"
  shows "struct_inv dtor (at_pc c Idle (gain c s))"
proof (rule struct_invI [OF inv, where c = c])
  let ?s = "at_pc c Idle (gain c s)"
  have S: "S_of ?s = S_of s + 1" using S_upd_eq [of ?s s c "owns s c + 1"] owns_le [of s c] by simp
  have W: "W_of ?s = W_of s" by (rule W_same) simp
  show "others c s ?s" using one by (simp add: others_def)
  show "pc_ok ?s c" by (simp add: pc_ok_def)
  show "weak ?s = W_of ?s + of_bool (implicit ?s)" using struct_invD(1) [OF inv] l W by (simp add: live_def)
  show "ends (pcs ?s c) \<longleftrightarrow> ender ?s = Some c" "live ?s \<or> ending dtor ?s \<or> over ?s"
    using l S by (simp_all add: live_def)
qed simp

lemma retain_adds_inv:
  assumes inv: "struct_inv dtor s" and c: "pcs s c = Retaining"
  shows "struct_inv dtor (retain_add c s)"
proof -
  have o': "1 \<le> owns s c" using struct_invD(2) [OF inv, of c] c by (simp add: pc_ok_def)
  have "pcs s t \<noteq> SawOne" for t using saw_one_alone [OF inv _ o', of t] c by auto
  then show ?thesis unfolding retain_add_def by (intro strong_up_inv inv owner_live [OF inv o']) (use c in auto)
qed

text \<open>The last count is given up.\<close>

lemma end_value_inv:
  assumes inv: "struct_inv dtor s" and l: "live s" and o': "owns s c = 1" "S_of s = 1" and c: "\<not> ends (pcs s c)"
    and n: "n = 0 \<or> n = strong s \<and> W_of s = 0"
  shows "struct_inv dtor (end_value c (give_up c (s\<lparr>strong := n\<rparr>)))"
proof (rule struct_invI [OF inv, where c = c])
  let ?s = "end_value c (give_up c (s\<lparr>strong := n\<rparr>))"
  have S: "S_of ?s = 0" using S_upd_eq [of ?s s c 0] o' by (simp add: end_value_def give_up_def)
  have W: "W_of ?s = W_of s" by (rule W_same) (simp add: end_value_def give_up_def)
  have "owns s t = 0" if "t \<noteq> c" for t using owns_two [of t c s] that o' by simp
  then have "pcs s t \<noteq> SawOne" if "t \<noteq> c" for t using struct_invD(2) [OF inv, of t] that by (auto simp: pc_ok_def)
  then show "others c s ?s" by (simp add: others_def end_value_def give_up_def)
  show "pc_ok ?s c" by (simp add: pc_ok_def end_value_def)
  show "weak ?s = W_of ?s + of_bool (implicit ?s)"
    using struct_invD(1) [OF inv] l W by (simp add: live_def end_value_def give_up_def)
  show "ends (pcs ?s c) \<longleftrightarrow> ender ?s = Some c" by (simp add: end_value_def)
  show "ender ?s = Some t \<longleftrightarrow> ender s = Some t" if "t \<noteq> c" for t using l that by (simp add: end_value_def live_def)
  have "ending dtor ?s"
    using l n S W by (auto simp: phase_defs end_value_def give_up_def refuses_def)
  then show "live ?s \<or> ending dtor ?s \<or> over ?s" by simp
qed

lemma release_looks_weak_inv:
  assumes inv: "struct_inv dtor s" and c: "pcs s c = SawOne"
  shows "struct_inv dtor (release_look_weak c s)"
proof -
  have o': "1 \<le> owns s c" "strong s = 1" using struct_invD(2) [OF inv, of c] c by (auto simp: pc_ok_def)
  have l: "live s" by (rule owner_live [OF inv o'(1)])
  then have S: "S_of s = 1" "owns s c = 1" using o' owns_le [of s c] by (auto simp: live_def)
  show ?thesis
  proof (cases "weak s = 1")
    case True
    have f: "\<not> freed s" "implicit s" using l by (simp_all add: live_def)
    have "W_of s = 0" using struct_invD(1) [OF inv f(1)] f(2) True by simp
    moreover have "s\<lparr>strong := strong s\<rparr> = s" by simp
    moreover have "\<not> ends (pcs s c)" using c by simp
    ultimately have "struct_inv dtor (end_value c (give_up c s))"
      using end_value_inv [OF inv l S(2,1), of "strong s"] by metis
    then show ?thesis using True by (simp only: release_look_weak_def refl if_True)
  next
    case False
    have "struct_inv dtor (at_pc c Subbing s)"
      by (rule move_inv [OF inv]) (use c l o' in \<open>simp_all add: pc_ok_def live_def\<close>)
    then show ?thesis using False by (simp add: release_look_weak_def)
  qed
qed

lemma release_subs_inv:
  assumes inv: "struct_inv dtor s" and c: "pcs s c = Subbing"
  shows "struct_inv dtor (release_sub c s)"
proof -
  have o': "1 \<le> owns s c" using struct_invD(2) [OF inv, of c] c by (auto simp: pc_ok_def)
  have l: "live s" by (rule owner_live [OF inv o'(1)])
  then have S: "strong s = S_of s" "1 \<le> S_of s" by (auto simp: live_def)
  show ?thesis
  proof (cases "strong s > 1")
    case False
    then have one: "S_of s = 1" "owns s c = 1" "strong s = 1" using S o' owns_le [of s c] by auto
    show ?thesis using end_value_inv [OF inv l one(2,1), of 0] c one by (simp add: release_sub_def)
  next
    case True
    let ?s = "at_pc c Idle (give_up c (s\<lparr>strong := strong s - 1\<rparr>))"
    have "struct_inv dtor ?s"
    proof (rule struct_invI [OF inv, where c = c])
      have S': "S_of ?s = S_of s - 1"
        using S_upd_eq [of ?s s c "owns s c - 1"] o' owns_le [of s c] by (simp add: give_up_def)
      have W: "W_of ?s = W_of s" by (rule W_same) (simp add: give_up_def)
      have "pcs s t \<noteq> SawOne" for t using saw_one_alone [OF inv _ o', of t] c by auto
      then show "others c s ?s" by (simp add: others_def give_up_def)
      show "pc_ok ?s c" by (simp add: pc_ok_def)
      show "weak ?s = W_of ?s + of_bool (implicit ?s)"
        using struct_invD(1) [OF inv] l W by (simp add: live_def give_up_def)
      show "ends (pcs ?s c) \<longleftrightarrow> ender ?s = Some c" using l by (simp add: live_def give_up_def)
      have "1 \<le> S_of s - 1" using S True by linarith
      then have "live ?s" using l S' S unfolding live_def by (simp add: give_up_def)
      then show "live ?s \<or> ending dtor ?s \<or> over ?s" by blast
      show "ender ?s = Some t \<longleftrightarrow> ender s = Some t" for t by (simp add: give_up_def)
    qed
    then show ?thesis using True by (simp add: release_sub_def Let_def)
  qed
qed

text \<open>The thread that ends the value, step by step.\<close>

lemma ender_step_inv:
  assumes inv: "struct_inv dtor s" and c: "ends (pcs s c)"
    and s': "others c s s'" "ender s' = Some c" "ends (pcs s' c)" "implicit s'" "\<not> freed s'" "owns s' = owns s"
    and w: "weak s' + W_of s = weak s + W_of s'" and e: "ending_at dtor s' (pcs s' c)"
    and ok: "pc_ok s' c"
  shows "struct_inv dtor s'"
proof (rule struct_invI [OF inv s'(1) ok])
  note E = ender_ending [OF inv c]
  show "weak s' = W_of s' + of_bool (implicit s')" using w struct_invD(1) [OF inv E(4)] E(3) s'(4) by simp
  show "ends (pcs s' c) \<longleftrightarrow> ender s' = Some c" using s'(2,3) by simp
  show "ender s' = Some t \<longleftrightarrow> ender s = Some t" if "t \<noteq> c" for t using s'(2) E(1) that by simp
  have "S_of s' = 0" using S_same [OF s'(6)] E(5) by simp
  then have "ending dtor s'" using s' e unfolding ending_def by blast
  then show "live s' \<or> ending dtor s' \<or> over s'" by blast
qed

lemma no_saw_one: "struct_inv dtor s \<Longrightarrow> ends (pcs s c) \<Longrightarrow> pcs s t \<noteq> SawOne"
  using saw_one_live [of dtor s t] ender_ending(1) [of dtor s c] by (auto simp: live_def)

lemma runs_dtor_inv:
  assumes inv: "struct_inv dtor s" and c: "pcs s c = Ending"
  shows "struct_inv dtor (run_dtor dtor c s)"
proof -
  have e: "ends (pcs s c)" using c by simp
  note E = ender_ending [OF inv e]
  have a: "destroyed s = 0 \<and> \<not> dead s \<and> (refused_all s \<or> W_of s = 0)" using E(2) c by (simp add: ending_at_def)
  show ?thesis
  proof (rule ender_step_inv [OF inv e])
    have w: "W_of (run_dtor dtor c s) = W_of s" by (rule W_same) (simp add: run_dtor_def)
    then show "weak (run_dtor dtor c s) + W_of s = weak s + W_of (run_dtor dtor c s)" by (simp add: run_dtor_def)
    show "ending_at dtor (run_dtor dtor c s) (pcs (run_dtor dtor c s) c)"
      using a w by (auto simp: run_dtor_def ending_at_def refused_all_def)
    show "others c s (run_dtor dtor c s)" using no_saw_one [OF inv e] by (auto simp: others_def run_dtor_def)
  qed (use E in \<open>simp_all add: run_dtor_def pc_ok_def\<close>)
qed

lemma dtor_counts_inv:
  assumes inv: "struct_inv dtor s" and c: "pcs s c = InDtor k" and n: "n = STRUCT_DTOR_GUARD + k'"
  shows "struct_inv dtor (at_pc c (InDtor k') (s\<lparr>strong := n\<rparr>))"
proof -
  have e: "ends (pcs s c)" using c by simp
  note E = ender_ending [OF inv e]
  have a: "dtor \<and> destroyed s = 1 \<and> \<not> dead s" using E(2) c by (simp add: ending_at_def)
  show ?thesis
  proof (rule ender_step_inv [OF inv e])
    show "others c s (at_pc c (InDtor k') (s\<lparr>strong := n\<rparr>))"
      using no_saw_one [OF inv e] by (auto simp: others_def)
  qed (use E a n in \<open>simp_all add: pc_ok_def ending_at_def W_of_def\<close>)
qed

lemma weak_up_inv:
  assumes inv: "struct_inv dtor s" and c: "pcs s c = Idle \<and> 1 \<le> owns s c + weaks s c \<or> (\<exists>k. pcs s c = InDtor k)"
  shows "struct_inv dtor (pith_struct_weak_retain c s)"
proof (rule struct_invI [OF inv, where c = c])
  let ?s = "pith_struct_weak_retain c s"
  have f: "\<not> freed s" using not_freed [OF inv, of c] c by auto
  have W: "W_of ?s = W_of s + 1"
    using W_upd_eq [of ?s s c "weaks s c + 1"] weaks_le [of s c] by (simp add: pith_struct_weak_retain_def)
  have S: "S_of ?s = S_of s" by (rule S_same) (simp add: pith_struct_weak_retain_def)
  show "others c s ?s" by (simp add: others_def pith_struct_weak_retain_def)
  show "pc_ok ?s c" using c by (auto simp: pc_ok_def pith_struct_weak_retain_def)
  show "weak ?s = W_of ?s + of_bool (implicit ?s)"
    using struct_invD(1) [OF inv f] W by (simp add: pith_struct_weak_retain_def)
  show "ends (pcs ?s c) \<longleftrightarrow> ender ?s = Some c"
    using struct_invD(3) [OF inv, of c] by (simp add: pith_struct_weak_retain_def)
  show "ender ?s = Some t \<longleftrightarrow> ender s = Some t" for t by (simp add: pith_struct_weak_retain_def)
  consider "live s" | "ending dtor s" | "over s" using struct_invD(4) [OF inv] by blast
  then show "live ?s \<or> ending dtor ?s \<or> over ?s"
  proof cases
    case 1
    then have "live ?s" using S by (simp add: live_def pith_struct_weak_retain_def)
    then show ?thesis ..
  next
    case 2
    then obtain t where t: "ender s = Some t" "ending_at dtor s (pcs s t)" "implicit s" "S_of s = 0"
      by (auto simp: ending_def)
    have o': "owns s c = 0" using t(4) by (simp add: S_zero)
    have w: "(\<exists>k. pcs s t = InDtor k) \<or> W_of s \<noteq> 0"
      using c o' weaks_le [of s c] t(1) struct_invD(3) [OF inv, of c] by auto
    have "ending_at dtor ?s (pcs s t)"
      using t(2) w by (auto simp: ending_at_def refused_all_def pith_struct_weak_retain_def split: struct_pc.splits)
    then have "ending dtor ?s" using t S f by (simp add: ending_def pith_struct_weak_retain_def)
    then show ?thesis by blast
  next
    case 3
    then have "over ?s" using S W f by (simp add: over_def refused_all_def pith_struct_weak_retain_def)
    then show ?thesis by blast
  qed
qed

lemma checks_to_marking_inv:
  assumes inv: "struct_inv dtor s" and c: "pcs s c = Checking" and w: "weak s \<noteq> 1"
  shows "struct_inv dtor (at_pc c Marking s)"
proof -
  have e: "ends (pcs s c)" using c by simp
  note E = ender_ending [OF inv e]
  have "W_of s \<noteq> 0" using w struct_invD(1) [OF inv E(4)] E(3) by simp
  then have a: "destroyed s = 1 \<and> \<not> dead s \<and> refused_all s" using E(2) c by (simp add: ending_at_def)
  show ?thesis
    by (rule ender_step_inv [OF inv e]) (use E a in \<open>simp_all add: pc_ok_def ending_at_def refused_all_def W_of_def others_def\<close>)
qed

lemma marks_dead_inv:
  assumes inv: "struct_inv dtor s" and c: "pcs s c = Marking"
  shows "struct_inv dtor (mark_dead c s)"
proof -
  have e: "ends (pcs s c)" using c by simp
  note E = ender_ending [OF inv e]
  have a: "destroyed s = 1 \<and> refused_all s" using E(2) c by (simp add: ending_at_def)
  show ?thesis
    by (rule ender_step_inv [OF inv e])
      (use E a in \<open>simp_all add: pc_ok_def ending_at_def refused_all_def W_of_def others_def mark_dead_def\<close>)
qed

lemma nobody_else:
  assumes inv: "struct_inv dtor s" and S: "S_of s = 0" and W: "\<And>t. t \<noteq> c \<Longrightarrow> weaks s t = 0"
    and e: "\<And>t. t \<noteq> c \<Longrightarrow> ender s \<noteq> Some t"
  shows "t \<noteq> c \<Longrightarrow> pcs s t = Idle"
proof (rule ccontr)
  assume t: "t \<noteq> c" "pcs s t \<noteq> Idle"
  have "\<not> ends (pcs s t)" using struct_invD(3) [OF inv, of t] e [OF t(1)] by simp
  moreover have "owns s t = 0" "weaks s t = 0" using S W [OF t(1)] by (simp_all add: S_zero)
  ultimately show False
    using struct_invD(2) [OF inv, of t] t(2) by (cases "pcs s t") (auto simp: pc_ok_def)
qed

text \<open>The last weak unit, of the strong owners or of a thread, is dropped.\<close>

lemma last_unit_inv:
  assumes inv: "struct_inv dtor s" and w: "weak s = 1"
    and c: "if own then ends (pcs s c) \<and> destroyed s = 1
      else \<not> ends (pcs s c) \<and> 1 \<le> weaks s c \<and> \<not> freed s"
  shows "struct_inv dtor (free_header c (give_unit own c (s\<lparr>weak := n\<rparr>)))"
proof (rule struct_invI [OF inv, where c = c])
  let ?s = "free_header c (give_unit own c (s\<lparr>weak := n\<rparr>))"
  have k: "S_of s = 0 \<and> destroyed s = 1 \<and> (\<forall>t. t \<noteq> c \<longrightarrow> weaks s t = 0 \<and> ender s \<noteq> Some t) \<and>
    weaks s c = of_bool (\<not> own) \<and> (if own then True else ender s = None \<and> \<not> implicit s)"
  proof (cases own)
    case True
    then have e: "ends (pcs s c)" using c by simp
    note E = ender_ending [OF inv e]
    have "W_of s = 0" using struct_invD(1) [OF inv E(4)] E(3) w by simp
    then show ?thesis using E True c by (simp add: W_zero)
  next
    case False
    then have f: "\<not> freed s" "1 \<le> weaks s c" using c by auto
    have "weak s = W_of s + of_bool (implicit s)" by (rule struct_invD(1) [OF inv f(1)])
    moreover have "weaks s c \<le> W_of s" by (rule weaks_le)
    moreover have "of_bool (implicit s) = (0 :: nat) \<or> implicit s" by simp
    moreover have "implicit s \<longrightarrow> of_bool (implicit s) = (1 :: nat)" by simp
    ultimately have W: "W_of s = 1" "\<not> implicit s" "weaks s c = 1" using w f(2) by linarith+
    then have o': "over s" using struct_invD(4) [OF inv] by (auto simp: live_def ending_def)
    have "weaks s t = 0" if "t \<noteq> c" for t
    proof -
      have "weaks s c + weaks s t = (\<Sum>x\<in>{c, t}. weaks s x)" using that by simp
      also have "\<dots> \<le> W_of s" unfolding W_of_def by (rule sum_mono2) simp_all
      finally show ?thesis using W by simp
    qed
    then show ?thesis using False o' W by (simp add: over_def)
  qed
  then have idle: "t \<noteq> c \<Longrightarrow> pcs s t = Idle" for t using nobody_else [OF inv, of c t] by blast
  have "owns ?s = owns s" by (simp add: free_header_def give_unit_def)
  then have S: "S_of ?s = 0" using S_same [of ?s s] k by simp
  have "weaks ?s t = 0" for t using k by (cases "t = c") (auto simp: free_header_def give_unit_def)
  then have W: "W_of ?s = 0" by (simp add: W_zero)
  show "others c s ?s" by (simp add: others_def free_header_def give_unit_def)
  show "pc_ok ?s c" by (simp add: pc_ok_def free_header_def)
  show "weak ?s = W_of ?s + of_bool (implicit ?s)" if "\<not> freed ?s" using that by (simp add: free_header_def)
  show "ends (pcs ?s c) \<longleftrightarrow> ender ?s = Some c" using k by (auto simp: free_header_def give_unit_def)
  show "ender ?s = Some t \<longleftrightarrow> ender s = Some t" if "t \<noteq> c" for t
    using k that by (auto simp: free_header_def give_unit_def)
  have "over ?s"
    using S W k idle by (auto simp: over_def free_header_def give_unit_def)
  then show "live ?s \<or> ending dtor ?s \<or> over ?s" by blast
qed

lemma last_look_inv:
  assumes "struct_inv dtor s" and "weak s = 1"
    and "if own then ends (pcs s c) \<and> destroyed s = 1 else \<not> ends (pcs s c) \<and> 1 \<le> weaks s c \<and> \<not> freed s"
  shows "struct_inv dtor (free_header c (give_unit own c s))"
proof -
  have "s\<lparr>weak := weak s\<rparr> = s" by simp
  then show ?thesis using last_unit_inv [OF assms, of "weak s"] by argo
qed

lemma own_unit_inv:
  assumes inv: "struct_inv dtor s" and c: "pcs s c = DropSub True" and w: "weak s \<noteq> 1"
  shows "struct_inv dtor (at_pc c Idle (give_unit True c (s\<lparr>weak := weak s - 1\<rparr>)))"
proof (rule struct_invI [OF inv, where c = c])
  let ?s = "at_pc c Idle (give_unit True c (s\<lparr>weak := weak s - 1\<rparr>))"
  have e: "ends (pcs s c)" using c by simp
  note E = ender_ending [OF inv e]
  have a: "destroyed s = 1 \<and> dead s \<and> refused_all s" using E(2) c by (simp add: ending_at_def)
  show "others c s ?s" by (simp add: others_def give_unit_def)
  show "pc_ok ?s c" by (simp add: pc_ok_def)
  show "weak ?s = W_of ?s + of_bool (implicit ?s)"
    using struct_invD(1) [OF inv E(4)] E(3) by (simp add: give_unit_def W_of_def)
  show "ends (pcs ?s c) \<longleftrightarrow> ender ?s = Some c" by (simp add: give_unit_def)
  show "ender ?s = Some t \<longleftrightarrow> ender s = Some t" if "t \<noteq> c" for t using E(1) that by (simp add: give_unit_def)
  have "W_of s \<noteq> 0" using w struct_invD(1) [OF inv E(4)] E(3) by simp
  moreover have "W_of ?s = W_of s" "S_of ?s = S_of s" by (simp_all add: give_unit_def W_of_def S_of_def)
  ultimately have "over ?s" using a E by (simp add: over_def give_unit_def refused_all_def)
  then show "live ?s \<or> ending dtor ?s \<or> over ?s" by blast
qed

lemma weak_down_inv:
  assumes inv: "struct_inv dtor s" and c: "pcs s c = DropSub False" and w: "weak s \<noteq> 1"
  shows "struct_inv dtor (at_pc c Idle (give_unit False c (s\<lparr>weak := weak s - 1\<rparr>)))"
proof (rule struct_invI [OF inv, where c = c])
  let ?s = "at_pc c Idle (give_unit False c (s\<lparr>weak := weak s - 1\<rparr>))"
  have f: "\<not> freed s" using not_freed [OF inv, of c] c by simp
  have k: "1 \<le> weaks s c" "ender s \<noteq> Some c"
    using struct_invD(2,3) [OF inv, of c] c by (simp_all add: pc_ok_def)
  have W: "W_of ?s + 1 = W_of s"
    using W_upd_eq [of ?s s c "weaks s c - 1"] weaks_le [of s c] k(1) by (simp add: give_unit_def)
  have S: "S_of ?s = S_of s" by (rule S_same) (simp add: give_unit_def)
  show "others c s ?s" by (simp add: others_def give_unit_def)
  show "pc_ok ?s c" by (simp add: pc_ok_def)
  show "weak ?s = W_of ?s + of_bool (implicit ?s)"
    using struct_invD(1) [OF inv f] W by (simp add: give_unit_def)
  show "ends (pcs ?s c) \<longleftrightarrow> ender ?s = Some c" using k(2) by (simp add: give_unit_def)
  show "ender ?s = Some t \<longleftrightarrow> ender s = Some t" for t by (simp add: give_unit_def)
  consider "live s" | "ending dtor s" | "over s" using struct_invD(4) [OF inv] by blast
  then show "live ?s \<or> ending dtor ?s \<or> over ?s"
  proof cases
    case 1
    then have "live ?s" using S by (simp add: live_def give_unit_def)
    then show ?thesis ..
  next
    case 2
    then obtain t where t: "ender s = Some t" "ending_at dtor s (pcs s t)" "implicit s" "S_of s = 0"
      by (auto simp: ending_def)
    have "t \<noteq> c" using t(1) k(2) by auto
    moreover have "W_of s \<noteq> 0" using k(1) weaks_le [of s c] by simp
    then have "ending_at dtor ?s (pcs s t)"
      using t(2) by (auto simp: ending_at_def refused_all_def give_unit_def split: struct_pc.splits)
    ultimately have "ending dtor ?s" using t S f by (simp add: ending_def give_unit_def)
    then show ?thesis by blast
  next
    case 3
    then have "W_of s \<noteq> 1" using w struct_invD(1) [OF inv f] by (simp add: over_def)
    then have "1 \<le> W_of ?s" using W k(1) weaks_le [of s c] by linarith
    with 3 have "over ?s" using S f by (simp add: over_def refused_all_def give_unit_def)
    then show ?thesis by blast
  qed
qed

lemma unrefused_live:
  assumes inv: "struct_inv dtor s" and c: "\<not> ends (pcs s c)" "1 \<le> owns s c + weaks s c" and r: "\<not> refuses (strong s)"
  shows "live s"
proof (cases "1 \<le> owns s c")
  case True
  then show ?thesis by (rule owner_live [OF inv])
next
  case False
  then have W: "W_of s \<noteq> 0" using c(2) weaks_le [of s c] by simp
  have "\<not> ending dtor s"
    using W r by (auto simp: ending_def ending_at_def refused_all_def refuses_def split: struct_pc.splits)
  moreover have "\<not> over s" using W r by (auto simp: over_def refused_all_def)
  ultimately show ?thesis using struct_invD(4) [OF inv] by blast
qed

lemma struct_gives_inv:
  assumes inv: "struct_inv dtor s" and c: "pcs s c = Idle" "pcs s c' = Idle"
    and f: "\<not> freed s" and s': "s' = s\<lparr>owns := o', weaks := w'\<rparr>" and S: "S_of s' = S_of s" "W_of s' = W_of s"
    and t: "\<And>t. t \<noteq> c \<Longrightarrow> t \<noteq> c' \<Longrightarrow> o' t = owns s t \<and> w' t = weaks s t"
  shows "struct_inv dtor s'"
  unfolding struct_inv_def
proof (intro conjI allI impI)
  show "weak s' = W_of s' + of_bool (implicit s')" using struct_invD(1) [OF inv f] S s' by simp
  show "pc_ok s' t" for t
    using struct_invD(2) [OF inv, of t] t [of t] c s'
    by (cases "t = c \<or> t = c'") (auto simp: pc_ok_def split: struct_pc.splits)
  show "ends (pcs s' t) \<longleftrightarrow> ender s' = Some t" for t using struct_invD(3) [OF inv, of t] s' by simp
  have "ending_at dtor s' = ending_at dtor s"
    using S(2) s' by (simp add: fun_eq_iff ending_at_def refused_all_def split: struct_pc.splits)
  then have "ending dtor s' = ending dtor s" using S s' by (simp add: ending_def)
  moreover have "live s' = live s" using S s' by (simp add: live_def)
  moreover have "over s' = over s" using S s' by (simp add: over_def refused_all_def)
  ultimately show "live s' \<or> ending dtor s' \<or> over s'" using struct_invD(4) [OF inv] by blast
qed

lemma sum_two:
  fixes f :: "'t::finite \<Rightarrow> nat"
  assumes "c \<noteq> c'" and "1 \<le> f c"
  shows "(\<Sum>t\<in>UNIV. (f(c := f c - 1, c' := f c' + 1)) t) = (\<Sum>t\<in>UNIV. f t)"
  using sum_upd [of f c "f c - 1"] sum_upd [of "f(c := f c - 1)" c' "f c' + 1"] assms by simp

lemma struct_step_inv:
  assumes inv: "struct_inv dtor s" and step: "struct_step dtor False s s'"
  shows "struct_inv dtor s'"
  using step
proof cases
  case (retain_looks c)
  then show ?thesis
    unfolding retain_looks(1) retain_look_def
    by (intro move_inv [OF inv] not_freed [OF inv, of c]) (auto simp: pc_ok_def)
next
  case (retain_adds c)
  then show ?thesis using retain_adds_inv [OF inv] by simp
next
  case (release_looks c)
  then show ?thesis
    unfolding release_looks(1) release_look_def
    by (intro move_inv [OF inv] not_freed [OF inv, of c]) (auto simp: pc_ok_def)
next
  case (release_looks_weak c)
  then show ?thesis using release_looks_weak_inv [OF inv] by simp
next
  case (release_subs c)
  then show ?thesis using release_subs_inv [OF inv] by simp
next
  case (runs_dtor c)
  then show ?thesis using runs_dtor_inv [OF inv] by simp
next
  case (dtor_retains c k)
  then have "strong s = STRUCT_DTOR_GUARD + k"
    using ender_ending(2) [OF inv, of c] by (simp add: ending_at_def)
  then show ?thesis using dtor_counts_inv [OF inv dtor_retains(2), of _ "k + 1"] dtor_retains(1) by simp
next
  case (dtor_releases c k)
  then have "strong s = STRUCT_DTOR_GUARD + Suc k"
    using ender_ending(2) [OF inv, of c] by (simp add: ending_at_def)
  then show ?thesis using dtor_counts_inv [OF inv dtor_releases(2), of _ k] dtor_releases(1) by simp
next
  case (dtor_weak_retains c k)
  then show ?thesis using weak_up_inv [OF inv, of c] by simp
next
  case (dtor_ends c)
  have e: "ends (pcs s c)" using dtor_ends by simp
  note E = ender_ending [OF inv e]
  show ?thesis
    by (rule ender_step_inv [OF inv e])
      (use E dtor_ends in \<open>simp_all add: pc_ok_def ending_at_def refused_all_def W_of_def others_def refuses_def\<close>)
next
  case (checks_weak c)
  have e: "ends (pcs s c)" "destroyed s = 1"
    using checks_weak ender_ending(2) [OF inv, of c] by (simp_all add: ending_at_def)
  have "struct_inv dtor (free_header c (give_unit True c s))" if "weak s = 1"
    by (rule last_look_inv [OF inv that]) (use e in simp)
  then show ?thesis
    using checks_to_marking_inv [OF inv checks_weak(2)] checks_weak(1) by (auto simp: check_weak_def)
next
  case (marks_dead c)
  then show ?thesis using marks_dead_inv [OF inv] by simp
next
  case (drop_looks c own)
  have k: "if own then ends (pcs s c) \<and> destroyed s = 1 else \<not> ends (pcs s c) \<and> 1 \<le> weaks s c \<and> \<not> freed s"
    using drop_looks ender_ending(2) [OF inv, of c] struct_invD(2) [OF inv, of c] not_freed [OF inv, of c]
    by (auto simp: ending_at_def pc_ok_def)
  have "struct_inv dtor (free_header c (give_unit own c s))" if "weak s = 1"
    by (rule last_look_inv [OF inv that k])
  moreover have "struct_inv dtor (at_pc c (DropSub own) s)"
  proof (cases own)
    case True
    have e: "ends (pcs s c)" using drop_looks True by simp
    note E = ender_ending [OF inv e]
    show ?thesis
      by (rule ender_step_inv [OF inv e])
        (use E drop_looks True in \<open>simp_all add: pc_ok_def ending_at_def refused_all_def W_of_def others_def\<close>)
  next
    case False
    then show ?thesis using k drop_looks by (intro move_inv [OF inv]) (auto simp: pc_ok_def)
  qed
  ultimately show ?thesis using drop_looks(1) by (auto simp: drop_look_def)
next
  case (drop_subs c own)
  have k: "if own then ends (pcs s c) \<and> destroyed s = 1 else \<not> ends (pcs s c) \<and> 1 \<le> weaks s c \<and> \<not> freed s"
    using drop_subs ender_ending(2) [OF inv, of c] struct_invD(2) [OF inv, of c] not_freed [OF inv, of c]
    by (auto simp: ending_at_def pc_ok_def)
  show ?thesis
    using last_unit_inv [OF inv _ k, of "weak s - 1"] own_unit_inv [OF inv, of c] weak_down_inv [OF inv, of c]
      drop_subs by (cases own) (auto simp: drop_sub_def Let_def)
next
  case (weak_retains c)
  then show ?thesis using weak_up_inv [OF inv, of c] by simp
next
  case (weak_releases c)
  then show ?thesis
    unfolding weak_releases(1) by (intro move_inv [OF inv] not_freed [OF inv, of c]) (auto simp: pc_ok_def)
next
  case (upgrade_looks c)
  then show ?thesis
    unfolding upgrade_looks(1) upgrade_look_def
    by (intro move_inv [OF inv] not_freed [OF inv, of c]) (auto simp: pc_ok_def)
next
  case (upgrade_loads c n)
  then show ?thesis
    unfolding upgrade_loads(1) upgrade_load_def using struct_invD(2) [OF inv, of c]
    by (intro move_inv [OF inv] not_freed [OF inv, of c]) (auto simp: pc_ok_def)
next
  case (upgrades c n)
  have k: "1 \<le> owns s c + weaks s c" "\<not> ends (pcs s c)" "\<not> freed s"
    using upgrades(2) struct_invD(2) [OF inv, of c] not_freed [OF inv, of c] by (auto simp: pc_ok_def)
  have "struct_inv dtor (at_pc c Idle (gain c s))" if "\<not> refuses (strong s)"
    using strong_up_inv [OF inv unrefused_live [OF inv k(2,1) that] _ k(2)] upgrades(2,3) by simp
  moreover have "struct_inv dtor (at_pc c Idle s)"
    by (rule move_inv [OF inv k(2) _ k(3)]) (simp_all add: pc_ok_def)
  moreover have "struct_inv dtor (upgrade_load c s)"
    unfolding upgrade_load_def by (rule move_inv [OF inv k(2) _ k(3)]) (use k in \<open>simp_all add: pc_ok_def\<close>)
  ultimately show ?thesis using upgrades(1) by (auto simp: upgrade_cas_def)
next
  case (gives_strong c c')
  have f: "\<not> freed s" using not_freed [OF inv, of c] gives_strong by simp
  have S: "S_of s' = S_of s" unfolding gives_strong(1) S_of_def using sum_two [where f = "owns s", OF gives_strong(4,5)] by simp
  show ?thesis
    by (rule struct_gives_inv [OF inv gives_strong(2,3) f, where o' = "(owns s)(c := owns s c - 1, c' := owns s c' + 1)" and w' = "weaks s"])
      (use gives_strong(1) S in \<open>auto simp: W_of_def\<close>)
next
  case (gives_weak c c')
  have f: "\<not> freed s" using not_freed [OF inv, of c] gives_weak by simp
  have W: "W_of s' = W_of s" unfolding gives_weak(1) W_of_def using sum_two [where f = "weaks s", OF gives_weak(4,5)] by simp
  show ?thesis
    by (rule struct_gives_inv [OF inv gives_weak(2,3) f, where o' = "owns s" and w' = "(weaks s)(c := weaks s c - 1, c' := weaks s c' + 1)"])
      (use gives_weak(1) W in \<open>auto simp: S_of_def\<close>)
qed

lemma struct_born: "struct_inv dtor (pith_struct_alloc c)"
proof -
  let ?s = "pith_struct_alloc c"
  have "S_of ?s = 1" using sum_upd [of "\<lambda>t. 0" c 1] by (simp add: S_of_def pith_struct_alloc_def)
  moreover have "W_of ?s = 0" by (simp add: W_of_def pith_struct_alloc_def)
  ultimately show ?thesis
    by (simp add: struct_inv_def live_def pc_ok_def pith_struct_alloc_def)
qed

interpretation struct: inductive_invariant "\<lambda>s. s = pith_struct_alloc c" "struct_step dtor False" "struct_inv dtor"
  by unfold_locales (auto intro: struct_born struct_step_inv)

subsection \<open>What the counts promise\<close>

text \<open>C11. As long as no upgrade slips between the two loads of the sole-owner test, a struct's counts keep
  their promise under any interleaving: while any thread owns a count the value is not destroyed, so an
  upgrade never revives a dying value; the destructor runs at most once; the header is freed only
  after it, when nobody holds a reference or is inside an operation, so nothing reads a freed
  header; and when the last owner is gone the value is destroyed, and the header freed if no weak
  reference is left.\<close>

theorem value_lives_as_long_as_its_owners:
  fixes s :: "'t::finite struct_state"
  assumes "reachable (\<lambda>s. s = pith_struct_alloc c) (struct_step dtor False) s"
  shows "destroyed s \<le> 1 \<and> (destroyed s = 1 \<longrightarrow> (\<forall>t. owns s t = 0)) \<and>
    (freed s \<longrightarrow> destroyed s = 1 \<and> (\<forall>t. pcs s t = Idle \<and> owns s t = 0 \<and> weaks s t = 0)) \<and>
    ((\<forall>t. pcs s t = Idle \<and> owns s t = 0) \<longrightarrow>
       destroyed s = 1 \<and> ((\<forall>t. weaks s t = 0) \<longrightarrow> freed s))"
proof -
  have inv: "struct_inv dtor s" by (rule struct.invariant [OF assms])
  consider "live s" | "ending dtor s" | "over s" using struct_invD(4) [OF inv] by blast
  then show ?thesis
  proof cases
    case 1
    then have "S_of s \<noteq> 0" by (simp add: live_def)
    then obtain t where "owns s t \<noteq> 0" unfolding S_zero by blast
    then show ?thesis using 1 by (auto simp: live_def)
  next
    case 2
    then obtain t where t: "ender s = Some t" "ending_at dtor s (pcs s t)" "\<not> freed s" "S_of s = 0"
      by (auto simp: ending_def)
    have "ends (pcs s t)" using struct_invD(3) [OF inv, of t] t(1) by simp
    then have "pcs s t \<noteq> Idle" by auto
    moreover have "destroyed s \<le> 1" using t(2) by (auto simp: ending_at_def split: struct_pc.splits)
    ultimately show ?thesis using t(3,4) by (auto simp: S_zero)
  next
    case 3
    have "freed s \<or> W_of s \<noteq> 0" using 3 by (cases "freed s") (auto simp: over_def)
    then have "freed s \<or> (\<exists>t. weaks s t \<noteq> 0)" unfolding W_zero by blast
    then show ?thesis using 3 by (auto simp: over_def S_zero W_zero)
  qed
qed

subsection \<open>The bad run\<close>

text \<open>Two threads: the first has the last strong count, the second a weak reference.\<close>

definition struct_at ::
  "nat \<times> nat \<Rightarrow> struct_pc \<times> struct_pc \<Rightarrow> nat \<times> nat \<Rightarrow> nat \<times> nat \<Rightarrow> bool option \<Rightarrow> nat \<Rightarrow> bool struct_state"
where
  "struct_at n p o' w e d =
     \<lparr>strong = fst n, weak = snd n, dead = False, freed = False,
      pcs = (\<lambda>t. if t then fst p else snd p), owns = (\<lambda>t. if t then fst o' else snd o'),
      weaks = (\<lambda>t. if t then fst w else snd w), ender = e, implicit = True, destroyed = d\<rparr>"

lemma struct_goes:
  "reachable i (struct_step dtor race) s \<Longrightarrow> struct_step dtor race s t \<Longrightarrow> t = s' \<Longrightarrow>
     reachable i (struct_step dtor race) s'"
  by (blast intro: reachable_step)

abbreviation struct_runs :: "bool \<Rightarrow> bool \<Rightarrow> bool struct_state \<Rightarrow> bool" where
  "struct_runs dtor race \<equiv> reachable (\<lambda>s. s = pith_struct_alloc True) (struct_step dtor race)"

lemma struct_runs_born: "struct_runs dtor race (pith_struct_alloc True)"
  by (rule reachable_init) (rule refl)

lemma struct_at_shared: "struct_runs dtor race (struct_at (1, 2) (Idle, Idle) (1, 0) (0, 1) None 0)"
proof -
  have "struct_runs dtor race (struct_at (1, 2) (Idle, Idle) (1, 0) (1, 0) None 0)"
    by (rule struct_goes [OF struct_runs_born weak_retains [where c = True]])
      (auto simp: pith_struct_alloc_def pith_struct_weak_retain_def struct_at_def fun_eq_iff)
  then show ?thesis
    by (rule struct_goes [OF _ gives_weak [where c = True and c' = False]]) (auto simp: struct_at_def fun_eq_iff)
qed

lemma struct_at_upgraded: "struct_runs dtor True (struct_at (2, 2) (SawOne, Idle) (1, 1) (0, 1) None 0)"
proof -
  have "struct_runs dtor True (struct_at (1, 2) (SawOne, Idle) (1, 0) (0, 1) None 0)"
    by (rule struct_goes [OF struct_at_shared release_looks [where c = True]])
      (auto simp: struct_at_def fun_eq_iff release_look_def)
  then have "struct_runs dtor True (struct_at (1, 2) (SawOne, Upgrading None) (1, 0) (0, 1) None 0)"
    by (rule struct_goes [OF _ upgrade_looks [where c = False]]) (auto simp: struct_at_def fun_eq_iff upgrade_look_def)
  then have "struct_runs dtor True (struct_at (1, 2) (SawOne, Upgrading (Some 1)) (1, 0) (0, 1) None 0)"
    by (rule struct_goes [OF _ upgrade_loads [where c = False and n = None]])
      (auto simp: struct_at_def fun_eq_iff upgrade_load_def)
  then show ?thesis
    by (rule struct_goes [OF _ upgrades [where c = False and n = 1]])
      (auto simp: struct_at_def fun_eq_iff upgrade_cas_def refuses_def STRUCT_DTOR_GUARD_def)
qed

lemma struct_at_sole: "struct_runs dtor True (struct_at (2, 1) (Ending, Idle) (0, 1) (0, 0) (Some True) 0)"
proof -
  have "struct_runs dtor True (struct_at (2, 2) (SawOne, DropLook False) (1, 1) (0, 1) None 0)"
    by (rule struct_goes [OF struct_at_upgraded weak_releases [where c = False]]) (auto simp: struct_at_def fun_eq_iff)
  then have "struct_runs dtor True (struct_at (2, 2) (SawOne, DropSub False) (1, 1) (0, 1) None 0)"
    by (rule struct_goes [OF _ drop_looks [where c = False and own = False]])
      (auto simp: struct_at_def fun_eq_iff drop_look_def)
  then have "struct_runs dtor True (struct_at (2, 1) (SawOne, Idle) (1, 1) (0, 0) None 0)"
    by (rule struct_goes [OF _ drop_subs [where c = False and own = False]])
      (auto simp: struct_at_def fun_eq_iff drop_sub_def give_unit_def)
  then show ?thesis
    by (rule struct_goes [OF _ release_looks_weak [where c = True]])
      (auto simp: struct_at_def fun_eq_iff release_look_weak_def end_value_def give_up_def)
qed

text \<open>C12. The sole-owner test of \<open>struct_release\<close> loads the strong count and then the weak count, and takes
  1 and 1 for proof that nobody else has the struct. Between the loads a weak holder can upgrade, which
  makes the strong count 2, and drop its weak reference, which makes the weak count 1: the release then
  destroys the value and frees the header while that holder owns a strong count.\<close>

theorem sole_release_frees_an_owned_struct:
  "\<exists>s t. reachable (\<lambda>s. s = pith_struct_alloc True) (struct_step dtor True) s \<and>
     destroyed s = 1 \<and> freed s \<and> owns s t = 1"
proof -
  let ?e = "struct_at (2, 1) (Ending, Idle) (0, 1) (0, 0) (Some True) 0"
  obtain n where c: "struct_runs dtor True (struct_at (n, 1) (Checking, Idle) (0, 1) (0, 0) (Some True) 1)"
  proof (cases dtor)
    case True
    have "struct_runs dtor True (struct_at (STRUCT_DTOR_GUARD, 1) (InDtor 0, Idle) (0, 1) (0, 0) (Some True) 1)"
      by (rule struct_goes [OF struct_at_sole runs_dtor [where c = True]])
        (use True in \<open>auto simp: struct_at_def fun_eq_iff run_dtor_def\<close>)
    then have "struct_runs dtor True (struct_at (STRUCT_DTOR_GUARD, 1) (Checking, Idle) (0, 1) (0, 0) (Some True) 1)"
      by (rule struct_goes [OF _ dtor_ends [where c = True]]) (auto simp: struct_at_def fun_eq_iff)
    then show thesis by (rule that)
  next
    case False
    have "struct_runs dtor True (struct_at (2, 1) (Checking, Idle) (0, 1) (0, 0) (Some True) 1)"
      by (rule struct_goes [OF struct_at_sole runs_dtor [where c = True]])
        (use False in \<open>auto simp: struct_at_def fun_eq_iff run_dtor_def\<close>)
    then show thesis by (rule that)
  qed
  let ?f = "check_weak True (struct_at (n, 1) (Checking, Idle) (0, 1) (0, 0) (Some True) 1)"
  have "struct_runs dtor True ?f"
    by (rule struct_goes [OF c checks_weak [where c = True] refl]) (simp add: struct_at_def)
  moreover have "destroyed ?f = 1" "freed ?f" "owns ?f False = 1"
    by (simp_all add: struct_at_def check_weak_def free_header_def give_unit_def)
  ultimately show ?thesis by blast
qed

text \<open>An undisturbed release of a shared struct whose weak reference outlives it.\<close>

lemma struct_at_ended:
  "struct_runs False False
     (struct_at (0, 1) (Idle, Idle) (0, 0) (0, 1) None 1 \<lparr>dead := True, implicit := False\<rparr>)"
proof -
  have "struct_runs False False (struct_at (1, 2) (SawOne, Idle) (1, 0) (0, 1) None 0)"
    by (rule struct_goes [OF struct_at_shared release_looks [where c = True]])
      (auto simp: struct_at_def fun_eq_iff release_look_def)
  then have "struct_runs False False (struct_at (1, 2) (Subbing, Idle) (1, 0) (0, 1) None 0)"
    by (rule struct_goes [OF _ release_looks_weak [where c = True]])
      (auto simp: struct_at_def fun_eq_iff release_look_weak_def)
  then have "struct_runs False False (struct_at (0, 2) (Ending, Idle) (0, 0) (0, 1) (Some True) 0)"
    by (rule struct_goes [OF _ release_subs [where c = True]])
      (auto simp: struct_at_def fun_eq_iff release_sub_def give_up_def end_value_def)
  then have "struct_runs False False (struct_at (0, 2) (Checking, Idle) (0, 0) (0, 1) (Some True) 1)"
    by (rule struct_goes [OF _ runs_dtor [where c = True]]) (auto simp: struct_at_def fun_eq_iff run_dtor_def)
  then have "struct_runs False False (struct_at (0, 2) (Marking, Idle) (0, 0) (0, 1) (Some True) 1)"
    by (rule struct_goes [OF _ checks_weak [where c = True]]) (auto simp: struct_at_def fun_eq_iff check_weak_def)
  then have "struct_runs False False
      (struct_at (0, 2) (DropLook True, Idle) (0, 0) (0, 1) (Some True) 1 \<lparr>dead := True\<rparr>)"
    by (rule struct_goes [OF _ marks_dead [where c = True]]) (auto simp: struct_at_def fun_eq_iff mark_dead_def)
  then have "struct_runs False False
      (struct_at (0, 2) (DropSub True, Idle) (0, 0) (0, 1) (Some True) 1 \<lparr>dead := True\<rparr>)"
    by (rule struct_goes [OF _ drop_looks [where c = True and own = True]])
      (auto simp: struct_at_def fun_eq_iff drop_look_def)
  then show ?thesis
    by (rule struct_goes [OF _ drop_subs [where c = True and own = True]])
      (auto simp: struct_at_def fun_eq_iff drop_sub_def give_unit_def)
qed

lemma value_lives_as_long_as_its_owners_witness:
  "destroyed (struct_at (0, 1) (Idle, Idle) (0, 0) (0, 1) None 1 \<lparr>dead := True, implicit := False\<rparr>) = 1"
  using value_lives_as_long_as_its_owners [OF struct_at_ended, THEN conjunct2, THEN conjunct2, THEN conjunct2]
  by (simp add: struct_at_def)

end
