(* ===== verification/TaskHandle.thy ===== *)
theory TaskHandle
  imports Prelude
begin

text \<open>
  What both task backends share: the choice of the backend and the handle codec of
  \<open>concurrency/scheduler.rs\<close>, and the registry of live handles of \<open>handle_registry.rs\<close>. A
  \<open>usize\<close> that indexes the task table is a \<open>nat\<close>, a handle the 64 bits of its \<open>i64\<close>.
\<close>

subsection \<open>The backend\<close>

datatype backend = OsThread | Green

text \<open>An environment value is the list of its code points; \<open>white_space\<close> is the Unicode property that
  \<open>str::trim\<close> goes by.\<close>

definition white_space :: "nat \<Rightarrow> bool" where
  "white_space c \<longleftrightarrow>
     9 \<le> c \<and> c \<le> 13 \<or> c = 0x20 \<or> c = 0x85 \<or> c = 0xA0 \<or> c = 0x1680 \<or> 0x2000 \<le> c \<and> c \<le> 0x200A \<or>
     c = 0x2028 \<or> c = 0x2029 \<or> c = 0x202F \<or> c = 0x205F \<or> c = 0x3000"

definition str_trim :: "nat list \<Rightarrow> nat list" where
  "str_trim s = rev (dropWhile white_space (rev (dropWhile white_space s)))"

definition lowercase_point :: "nat \<Rightarrow> nat" where
  "lowercase_point c = (if 65 \<le> c \<and> c \<le> 90 then c + 32 else c)"

definition platform_default :: "bool \<Rightarrow> backend" where
  "platform_default linux = (if linux then Green else OsThread)"

definition spelled :: "string list \<Rightarrow> nat list list" where
  "spelled = map (map of_char)"

definition backend_from_env :: "bool \<Rightarrow> nat list option \<Rightarrow> backend" where
  "backend_from_env linux value =
     (case map_option (\<lambda>v. map lowercase_point (str_trim v)) value of
        None \<Rightarrow> platform_default linux
      | Some v \<Rightarrow>
          if v \<in> set (spelled [''1'', ''on'', ''true'', ''yes'', ''y'']) then Green
          else if v \<in> set (spelled [''0'', ''off'', ''false'', ''no'', ''n'']) then OsThread
          else platform_default linux)"

text \<open>White space around the value and the case of its letters do not matter.\<close>

lemma str_trim_pad:
  assumes "list_all white_space p" and "list_all white_space q"
  shows "str_trim (p @ s @ q) = str_trim s"
proof -
  have d: "dropWhile white_space (p @ r) = dropWhile white_space r" for r
    using assms(1) by (induction p) auto
  have e: "dropWhile white_space (rev q @ r) = dropWhile white_space r" for r
    using assms(2) by (induction q rule: rev_induct) auto
  show ?thesis
  proof (cases "list_all white_space s")
    case True
    then have "dropWhile white_space s = []" by (simp add: list_all_iff)
    moreover have "dropWhile white_space (s @ q) = []" using True assms(2) by (auto simp: list_all_iff)
    ultimately show ?thesis unfolding str_trim_def d by (simp only:)
  next
    case False
    then have "dropWhile white_space (s @ q) = dropWhile white_space s @ q"
      by (metis dropWhile_append1 list_all_iff)
    then show ?thesis unfolding str_trim_def d by (simp add: e)
  qed
qed

lemma backend_ignores_padding:
  "list_all white_space p \<Longrightarrow> list_all white_space q \<Longrightarrow>
   backend_from_env linux (Some (p @ s @ q)) = backend_from_env linux (Some s)"
  by (simp add: backend_from_env_def str_trim_pad)

lemma unknown_value_is_no_value:
  assumes "map lowercase_point (str_trim v) \<notin>
    set (spelled [''1'', ''on'', ''true'', ''yes'', ''y'', ''0'', ''off'', ''false'', ''no'', ''n''])"
  shows "backend_from_env linux (Some v) = backend_from_env linux None"
  using assms by (simp add: backend_from_env_def spelled_def)

subsection \<open>Task handles\<close>

definition TASK_GEN_MASK :: u32 where "TASK_GEN_MASK = 0x7fffffff"

definition make_task_handle :: "nat \<Rightarrow> u32 \<Rightarrow> u64" where
  "make_task_handle index generation =
     push_bit 32 (ucast (generation AND TASK_GEN_MASK)) OR (of_nat index + 1)"

definition split_handle :: "u64 \<Rightarrow> (nat \<times> u32) option" where
  "split_handle handle =
     (if sint handle \<le> 0 then None
      else (let low = handle AND 0xffffffff in
            if low = 0 then None
            else Some (unat (low - 1), ucast (drop_bit 32 handle) AND TASK_GEN_MASK)))"

lemma TASK_GEN_MASK_mask: "TASK_GEN_MASK = mask 31"
  by (simp add: TASK_GEN_MASK_def mask_eq_exp_minus_1)

lemma low_mask: "(0xffffffff :: u64) = mask 32"
  by (simp add: mask_eq_exp_minus_1)

text \<open>A handle is positive, and splits into what it was made of.\<close>

theorem task_handle_round_trip:
  assumes "index < 2 ^ 32 - 1"
  shows "split_handle (make_task_handle index g) = Some (index, g AND TASK_GEN_MASK)"
    and "0 < sint (make_task_handle index g)"
proof -
  let ?h = "make_task_handle index g" and ?i = "of_nat index + 1 :: u64"
  have i: "unat ?i = index + 1"
    using assms by (simp add: unat_word_ariths unat_of_nat take_bit_nat_eq_self)
  have low: "bit ?i n \<Longrightarrow> n < 32" for n
  proof -
    have "take_bit 32 (unat ?i) = unat ?i" using assms i by (intro take_bit_nat_eq_self) simp
    then have "bit (unat ?i) n \<Longrightarrow> n < 32" by (metis bit_take_bit_iff)
    then show "bit ?i n \<Longrightarrow> n < 32" by (simp only: bit_unsigned_iff) (auto dest: bit_imp_le_length)
  qed
  have b: "bit ?h n \<longleftrightarrow> bit ?i n \<or> 32 \<le> n \<and> n < 63 \<and> bit g (n - 32)" for n
    by (auto simp: make_task_handle_def bit_or_iff bit_push_bit_iff bit_and_iff bit_ucast_iff
        TASK_GEN_MASK_mask bit_mask_iff possible_bit_word dest: low)
  have l: "?h AND 0xffffffff = ?i"
    unfolding low_mask by (intro bit_eqI) (auto simp: bit_and_iff bit_mask_iff possible_bit_word b dest: low)
  have i0: "?i \<noteq> 0" using i by (metis add_is_0 one_neq_zero unat_0)
  have u: "ucast (drop_bit 32 ?h) AND TASK_GEN_MASK = g AND TASK_GEN_MASK"
    by (intro bit_eqI) (auto simp: bit_and_iff bit_ucast_iff bit_drop_bit_eq TASK_GEN_MASK_mask bit_mask_iff
        possible_bit_word b dest: low)
  have "\<not> bit ?h 63" using low [of 63] by (auto simp: b)
  then have "0 \<le> sint ?h" using bit_last_iff [of ?h] by simp
  moreover have "?h \<noteq> 0" using l i0 by auto
  ultimately show pos: "0 < sint ?h" by (metis order_le_imp_less_or_eq signed_eq_0_iff)
  have "unat (?i - 1) = index" using assms by (simp add: unat_of_nat take_bit_nat_eq_self)
  then show "split_handle ?h = Some (index, g AND TASK_GEN_MASK)"
    using pos i0 by (simp add: split_handle_def l u Let_def)
qed

lemma make_task_handle_inj:
  assumes "make_task_handle i g = make_task_handle j k" and "i < 2 ^ 32 - 1" and "j < 2 ^ 32 - 1"
  shows "i = j \<and> g AND TASK_GEN_MASK = k AND TASK_GEN_MASK"
  using task_handle_round_trip(1) [OF assms(2), of g] task_handle_round_trip(1) [OF assms(3), of k] assms(1)
  by simp

subsection \<open>The registry of live handles\<close>

datatype handle_kind =
  ListKind | ProcessKind | ProcessOutputKind | SemaphoreKind | TaskKind | WaitGroupKind | X25519KeyKind

definition plausibly_aligned :: "nat \<Rightarrow> u64 \<Rightarrow> bool" where
  "plausibly_aligned align ptr \<longleftrightarrow> ptr \<noteq> 0 \<and> unat ptr mod align = 0"

text \<open>One lock and one set for each of the 256 shards; the lock makes an operation one step.\<close>

type_synonym registry = "nat \<Rightarrow> (u64 \<times> handle_kind) set"

definition SHARDS :: nat where "SHARDS = 256"

definition shard :: "u64 \<Rightarrow> nat" where
  "shard key = unat (drop_bit (64 - 8) (key * 0x9E3779B97F4A7C15))"

definition register :: "u64 \<Rightarrow> handle_kind \<Rightarrow> registry \<Rightarrow> registry" where
  "register ptr kind r = (if ptr = 0 then r else r(shard ptr := insert (ptr, kind) (r (shard ptr))))"

definition unregister :: "u64 \<Rightarrow> handle_kind \<Rightarrow> registry \<Rightarrow> registry" where
  "unregister ptr kind r = (if ptr = 0 then r else r(shard ptr := r (shard ptr) - {(ptr, kind)}))"

definition is_valid :: "u64 \<Rightarrow> handle_kind \<Rightarrow> registry \<Rightarrow> bool" where
  "is_valid ptr kind r \<longleftrightarrow> ptr \<noteq> 0 \<and> (ptr, kind) \<in> r (shard ptr)"

definition register_id :: "u64 \<Rightarrow> handle_kind \<Rightarrow> registry \<Rightarrow> registry" where
  "register_id k kind r = (if 0 < sint k then register k kind r else r)"

definition unregister_id :: "u64 \<Rightarrow> handle_kind \<Rightarrow> registry \<Rightarrow> registry" where
  "unregister_id k kind r = (if 0 < sint k then unregister k kind r else r)"

definition is_valid_id :: "u64 \<Rightarrow> handle_kind \<Rightarrow> registry \<Rightarrow> bool" where
  "is_valid_id k kind r \<longleftrightarrow> 0 < sint k \<and> is_valid k kind r"

text \<open>Every key has one of the shards, and together they are one set of handles.\<close>

lemma shard_in_range: "shard key < SHARDS"
proof -
  have "unat (drop_bit 56 w) < 256" for w :: u64
  proof -
    have "unat w < 2 ^ LENGTH(64)" by (rule unsigned_less)
    then show ?thesis by (simp add: drop_bit_eq_div unat_div less_mult_imp_div_less)
  qed
  then show ?thesis by (simp add: shard_def SHARDS_def)
qed

lemma is_valid_register [simp]:
  "is_valid k kd (register p kind r) \<longleftrightarrow> p \<noteq> 0 \<and> k = p \<and> kd = kind \<or> is_valid k kd r"
  by (auto simp: is_valid_def register_def)

lemma is_valid_unregister [simp]:
  "is_valid k kd (unregister p kind r) \<longleftrightarrow> is_valid k kd r \<and> (k, kd) \<noteq> (p, kind)"
  by (auto simp: is_valid_def unregister_def)

lemma is_valid_register_id [simp]:
  "is_valid_id k kd (register_id p kind r) \<longleftrightarrow> 0 < sint p \<and> k = p \<and> kd = kind \<or> is_valid_id k kd r"
  by (auto simp: is_valid_id_def register_id_def)

lemma is_valid_unregister_id [simp]:
  "is_valid_id k kd (unregister_id p kind r) \<longleftrightarrow> is_valid_id k kd r \<and> (k, kd) \<noteq> (p, kind)"
  by (auto simp: is_valid_id_def unregister_id_def)

end
