(* ===== verification/TaskSlab.thy ===== *)
theory TaskSlab
  imports TaskHandle
begin

text \<open>
  The table of os-thread tasks, \<open>concurrency/task.rs\<close>: a vector of slots with a generation each and
  the list of the free ones. The last element of the code's \<open>free\<close> vector, the next to be popped, is
  the head of the list here. A join handle is the number of the thread it joins, a join cell (the
  \<open>Arc\<close>) the number of its task.
\<close>

record task_state =
  join_handle :: "nat option"
  cell :: nat
  reclaim_on_done :: bool
  finished :: bool

record task_slot =
  slot_task :: "task_state option"
  slot_generation :: u32

record slab =
  entries :: "task_slot list"
  free_list :: "nat list"

definition slab_new :: slab where
  "slab_new = \<lparr>entries = [], free_list = []\<rparr>"

definition slab_insert :: "task_state \<Rightarrow> slab \<Rightarrow> slab \<times> nat \<times> u32" where
  "slab_insert t s =
     (case free_list s of
        i # rest \<Rightarrow>
          (s\<lparr>entries := (entries s)[i := (entries s ! i)\<lparr>slot_task := Some t\<rparr>], free_list := rest\<rparr>,
           i, slot_generation (entries s ! i))
      | [] \<Rightarrow>
          (s\<lparr>entries := entries s @ [\<lparr>slot_task = Some t, slot_generation = 0\<rparr>]\<rparr>, length (entries s), 0))"

definition get_checked :: "nat \<Rightarrow> u32 \<Rightarrow> slab \<Rightarrow> task_state option" where
  "get_checked i g s =
     (if i < length (entries s) then
        (if slot_generation (entries s ! i) \<noteq> g then None else slot_task (entries s ! i))
      else None)"

text \<open>The write through the reference that \<open>get_checked\<close> answers.\<close>

definition put_task :: "nat \<Rightarrow> task_state \<Rightarrow> slab \<Rightarrow> slab" where
  "put_task i t s = s\<lparr>entries := (entries s)[i := (entries s ! i)\<lparr>slot_task := Some t\<rparr>]\<rparr>"

definition free_slot :: "nat \<Rightarrow> slab \<Rightarrow> slab \<times> u64" where
  "free_slot i s =
     (let sl = entries s ! i in
      (s\<lparr>entries := (entries s)
           [i := sl\<lparr>slot_task := None, slot_generation := (slot_generation sl + 1) AND TASK_GEN_MASK\<rparr>],
         free_list := i # free_list s\<rparr>,
       make_task_handle i (slot_generation sl)))"

definition reclaim :: "nat \<Rightarrow> u32 \<Rightarrow> slab \<Rightarrow> slab \<times> bool" where
  "reclaim i g s =
     (if i < length (entries s) \<and> slot_generation (entries s ! i) = g \<and> slot_task (entries s ! i) \<noteq> None
      then (fst (free_slot i s), True)
      else (s, False))"

definition mark_finished_and_maybe_reclaim :: "nat \<Rightarrow> u32 \<Rightarrow> slab \<Rightarrow> slab \<times> u64 option" where
  "mark_finished_and_maybe_reclaim i g s =
     (case get_checked i g s of
        None \<Rightarrow> (s, None)
      | Some t \<Rightarrow>
          if reclaim_on_done t then (let (s', h) = free_slot i s in (s', Some h))
          else (put_task i (t\<lparr>finished := True\<rparr>) s, None))"

definition slab_detach :: "nat \<Rightarrow> u32 \<Rightarrow> slab \<Rightarrow> slab \<times> u64 option" where
  "slab_detach i g s =
     (case get_checked i g s of
        None \<Rightarrow> (s, None)
      | Some t \<Rightarrow>
          if finished t then (let (s', h) = free_slot i s in (s', Some h))
          else (put_task i (t\<lparr>reclaim_on_done := True\<rparr>) s, None))"

subsection \<open>The table is sound\<close>

text \<open>The free list holds each empty slot once and nothing else, and a generation has 31 bits.\<close>

definition slab_ok :: "slab \<Rightarrow> bool" where
  "slab_ok s \<longleftrightarrow>
     distinct (free_list s) \<and>
     set (free_list s) = {i. i < length (entries s) \<and> slot_task (entries s ! i) = None} \<and>
     (\<forall>sl \<in> set (entries s). slot_generation sl AND TASK_GEN_MASK = slot_generation sl)"

lemma slab_ok_new: "slab_ok slab_new"
  by (simp add: slab_ok_def slab_new_def)

lemma get_checked_length: "get_checked i g s = Some t \<Longrightarrow> i < length (entries s)"
  by (simp add: get_checked_def split: if_splits)

lemma get_checked_generation:
  "get_checked i g s = Some t \<Longrightarrow> slot_generation (entries s ! i) = g"
  by (simp add: get_checked_def split: if_splits)

lemma generation_small:
  "slab_ok s \<Longrightarrow> i < length (entries s) \<Longrightarrow>
   slot_generation (entries s ! i) AND TASK_GEN_MASK = slot_generation (entries s ! i)"
  by (simp add: slab_ok_def)

text \<open>Insertion, one lemma for each place it can find.\<close>

lemma slab_insert_free:
  assumes "slab_ok s" and "free_list s = i # rest"
  shows "i < length (entries s)" "slot_task (entries s ! i) = None" "i \<notin> set rest"
    "slab_insert t s =
       (s\<lparr>entries := (entries s)[i := (entries s ! i)\<lparr>slot_task := Some t\<rparr>], free_list := rest\<rparr>,
        i, slot_generation (entries s ! i))"
proof -
  have "i \<in> set (free_list s)" using assms(2) by simp
  then show "i < length (entries s)" "slot_task (entries s ! i) = None" using assms(1) by (auto simp: slab_ok_def)
  show "i \<notin> set rest" using assms by (simp add: slab_ok_def)
qed (simp add: slab_insert_def assms(2))

lemma slab_ok_insert:
  assumes "slab_ok s"
  shows "slab_ok (fst (slab_insert t s))"
proof (cases "free_list s")
  case Nil
  then show ?thesis
    using assms by (auto simp: slab_ok_def slab_insert_def nth_append less_Suc_eq)
next
  case (Cons i rest)
  note f = slab_insert_free [OF assms Cons]
  have "set rest = set (free_list s) - {i}" using f(3) Cons by auto
  then have "set rest = {j. j < length (entries s) \<and> slot_task (entries s ! j) = None} - {i}"
    using assms by (simp add: slab_ok_def)
  then show ?thesis
    using assms Cons f(1) by (auto simp: slab_ok_def f(4) nth_list_update generation_small [OF assms]
        dest!: set_update_subset_insert [THEN subsetD])
qed

lemma slab_ok_put: "slab_ok s \<Longrightarrow> get_checked i g s = Some t \<Longrightarrow> slab_ok (put_task i u s)"
  by (auto simp: slab_ok_def put_task_def get_checked_def nth_list_update split: if_splits
      dest!: set_update_subset_insert [THEN subsetD])

lemma and_mask_twice: "(w AND TASK_GEN_MASK) AND TASK_GEN_MASK = w AND TASK_GEN_MASK"
  by (simp add: and.assoc)

lemma slab_ok_free:
  assumes "slab_ok s" and "get_checked i g s = Some t"
  shows "slab_ok (fst (free_slot i s))"
proof -
  have i: "i < length (entries s)" and t: "slot_task (entries s ! i) = Some t"
    using assms(2) by (auto simp: get_checked_def split: if_splits)
  have "i \<notin> set (free_list s)" using assms(1) t by (auto simp: slab_ok_def)
  then show ?thesis
    using assms(1) i by (auto simp: slab_ok_def free_slot_def Let_def nth_list_update and_mask_twice
        dest!: set_update_subset_insert [THEN subsetD])
qed

text \<open>What each operation does to the tasks that handles resolve to.\<close>

lemma insert_index_fresh:
  assumes "slab_ok s" and "slab_insert t s = (s', i, g)"
  shows "get_checked i k s = None"
  using assms by (auto simp: slab_insert_def get_checked_def slab_ok_def split: list.splits)

lemma get_checked_insert:
  assumes "slab_ok s" and "slab_insert t s = (s', i, g)"
  shows "get_checked j k s' = (if (j, k) = (i, g) then Some t else get_checked j k s)"
proof (cases "free_list s")
  case Nil
  have s': "s' = s\<lparr>entries := entries s @ [\<lparr>slot_task = Some t, slot_generation = 0\<rparr>]\<rparr>"
    and i: "i = length (entries s)" "g = 0"
    using assms(2) Nil by (simp_all add: slab_insert_def)
  show ?thesis
    unfolding s' i by (cases j "length (entries s)" rule: linorder_cases) (simp_all add: get_checked_def nth_append)
next
  case (Cons i' rest)
  note f = slab_insert_free [OF assms(1) Cons]
  have s': "s' = s\<lparr>entries := (entries s)[i' := (entries s ! i')\<lparr>slot_task := Some t\<rparr>], free_list := rest\<rparr>"
    and i: "i = i'" "g = slot_generation (entries s ! i')"
    using assms(2) [unfolded f(4)] by auto
  show ?thesis
  proof (cases "j = i'")
    case True
    then show ?thesis using f(1,2) by (simp add: s' i get_checked_def)
  next
    case False
    then show ?thesis by (simp add: s' i get_checked_def)
  qed
qed

lemma get_checked_put:
  assumes "get_checked i g s = Some t"
  shows "get_checked j k (put_task i u s) = (if (j, k) = (i, g) then Some u else get_checked j k s)"
  using assms by (auto simp: put_task_def get_checked_def nth_list_update split: if_splits)

lemma get_checked_free:
  assumes "get_checked i g s = Some t"
  shows "get_checked j k (fst (free_slot i s)) = (if j = i then None else get_checked j k s)"
  using assms by (auto simp: free_slot_def Let_def get_checked_def nth_list_update split: if_splits)

lemma get_checked_unique:
  "get_checked i g s = Some t \<Longrightarrow> get_checked i k s = Some u \<Longrightarrow> k = g \<and> u = t"
  by (auto simp: get_checked_def split: if_splits)

lemma free_slot_handle: "get_checked i g s = Some t \<Longrightarrow> snd (free_slot i s) = make_task_handle i g"
  by (auto simp: free_slot_def Let_def get_checked_def split: if_splits)

lemma reclaim_checked:
  "reclaim i g s = (case get_checked i g s of None \<Rightarrow> (s, False) | Some _ \<Rightarrow> (fst (free_slot i s), True))"
  by (auto simp: reclaim_def get_checked_def split: option.splits)

lemma slot_generation_ops:
  "get_checked i g s = Some t \<Longrightarrow> slot_generation (entries (put_task i u s) ! j) = slot_generation (entries s ! j)"
  "length (entries (put_task i u s)) = length (entries s)"
  "length (entries (fst (free_slot i s))) = length (entries s)"
  by (auto simp: put_task_def free_slot_def Let_def nth_list_update get_checked_def split: if_splits)

end
