(* ===== verification/OsTask.thy ===== *)
theory OsTask
  imports TaskSlab Steps
begin

text \<open>
  Tasks as os threads, \<open>concurrency/task.rs\<close>: threads that spawn, await and detach, and the thread of
  each task, interleaved at every lock. Each critical section of the table lock, of a task's own
  lock and of the registry is one step. A task is numbered by the order of the spawns; its number
  stands for its join cell and for its thread. The value its body answers is free. The number of
  waiters is a \<open>nat\<close>: it would wrap at \<open>2 ^ 32\<close> threads.
\<close>

subsection \<open>States\<close>

record task_shared =
  is_done :: bool
  stored :: u64
  waiters :: nat

text \<open>Where a thread is in a call: a spawn between its steps; an await that has passed the registry, holds
  the join handle, is about to take the task's lock, sleeps on the condition, has been woken, holds
  the result, or has reclaimed the slot; a detach that has passed the registry or freed the slot.\<close>

datatype os_pc =
    Ready
  | Reserved nat
  | Listed nat
  | Launched nat
  | Looking u64
  | Joining nat nat u64
  | Locking nat u64
  | Asleep nat u64
  | Woken nat u64
  | Reclaiming nat u64 u64
  | Unlisting u64
  | Detaching u64
  | UnlistingDetached u64

text \<open>The thread of a task: not started, in its body, done but not marked in the table, about to
  unregister a detached handle, gone.\<close>

datatype body_pc = Unstarted | InBody | Published | BodyUnlisting u64 | Exited

text \<open>\<open>home\<close> is the slot and generation of each task, as its thread's closure keeps them. \<open>answer\<close>, the
  value the body returned, \<open>takes\<close>, the results taken by awaits, and \<open>dropped\<close>, the tasks that were
  detached, only record what happened.\<close>

record 't os_world =
  slab :: slab
  registry :: registry
  cells :: "nat \<Rightarrow> task_shared"
  body :: "nat \<Rightarrow> body_pc"
  home :: "nat \<Rightarrow> nat \<times> u32"
  spawned :: nat
  pcs :: "'t \<Rightarrow> os_pc"
  answer :: "nat \<Rightarrow> u64"
  takes :: "(nat \<times> u64) list"
  dropped :: "nat set"

abbreviation goes :: "'t \<Rightarrow> os_pc \<Rightarrow> 't os_world \<Rightarrow> 't os_world" where
  "goes a p w \<equiv> w\<lparr>pcs := (pcs w)(a := p)\<rparr>"

definition task_handle :: "'t os_world \<Rightarrow> nat \<Rightarrow> u64" where
  "task_handle w n = make_task_handle (fst (home w n)) (snd (home w n))"

definition os_init :: "'t os_world" where
  "os_init =
     \<lparr>slab = slab_new, registry = (\<lambda>_. {}), cells = (\<lambda>_. \<lparr>is_done = False, stored = 0, waiters = 0\<rparr>),
      body = (\<lambda>_. Unstarted), home = (\<lambda>_. (0, 0)), spawned = 0, pcs = (\<lambda>_. Ready),
      answer = (\<lambda>_. 0), takes = [], dropped = {}\<rparr>"

subsection \<open>Spawn\<close>

definition spawn_reserve :: "'t \<Rightarrow> 't os_world \<Rightarrow> 't os_world" where
  "spawn_reserve a w =
     (let n = spawned w;
          (s, i, g) = slab_insert \<lparr>join_handle = None, cell = n, reclaim_on_done = False, finished = False\<rparr> (slab w)
      in goes a (Reserved n)
           (w\<lparr>slab := s, cells := (cells w)(n := \<lparr>is_done = False, stored = 0, waiters = 0\<rparr>),
              home := (home w)(n := (i, g)), spawned := n + 1\<rparr>))"

definition spawn_list :: "'t \<Rightarrow> nat \<Rightarrow> 't os_world \<Rightarrow> 't os_world" where
  "spawn_list a n w = goes a (Listed n) (w\<lparr>registry := register_id (task_handle w n) TaskKind (registry w)\<rparr>)"

definition spawn_launch :: "'t \<Rightarrow> nat \<Rightarrow> 't os_world \<Rightarrow> 't os_world" where
  "spawn_launch a n w = goes a (Launched n) (w\<lparr>body := (body w)(n := InBody)\<rparr>)"

definition spawn_store :: "'t \<Rightarrow> nat \<Rightarrow> 't os_world \<Rightarrow> 't os_world" where
  "spawn_store a n w =
     goes a Ready
       (case get_checked (fst (home w n)) (snd (home w n)) (slab w) of
          None \<Rightarrow> w
        | Some t \<Rightarrow> w\<lparr>slab := put_task (fst (home w n)) (t\<lparr>join_handle := Some n\<rparr>) (slab w)\<rparr>)"

subsection \<open>The thread of a task\<close>

definition wakes_all :: "nat \<Rightarrow> ('t \<Rightarrow> os_pc) \<Rightarrow> 't \<Rightarrow> os_pc" where
  "wakes_all n p a = (case p a of Asleep m h \<Rightarrow> if m = n then Woken m h else p a | _ \<Rightarrow> p a)"

definition body_publish :: "nat \<Rightarrow> u64 \<Rightarrow> 't os_world \<Rightarrow> 't os_world" where
  "body_publish n r w =
     w\<lparr>cells := (cells w)(n := (cells w n)\<lparr>is_done := True, stored := r\<rparr>), body := (body w)(n := Published),
       answer := (answer w)(n := r),
       pcs := (if 0 < waiters (cells w n) then wakes_all n (pcs w) else pcs w)\<rparr>"

definition body_mark :: "nat \<Rightarrow> 't os_world \<Rightarrow> 't os_world" where
  "body_mark n w =
     (let (s, r) = mark_finished_and_maybe_reclaim (fst (home w n)) (snd (home w n)) (slab w)
      in w\<lparr>slab := s, body := (body w)(n := (case r of Some h \<Rightarrow> BodyUnlisting h | None \<Rightarrow> Exited))\<rparr>)"

definition body_unlist :: "nat \<Rightarrow> u64 \<Rightarrow> 't os_world \<Rightarrow> 't os_world" where
  "body_unlist n h w = w\<lparr>registry := unregister_id h TaskKind (registry w), body := (body w)(n := Exited)\<rparr>"

subsection \<open>Await\<close>

definition await_check :: "'t \<Rightarrow> u64 \<Rightarrow> 't os_world \<Rightarrow> 't os_world" where
  "await_check a h w =
     (if \<not> is_valid_id h TaskKind (registry w) then w
      else (case split_handle h of None \<Rightarrow> w | Some _ \<Rightarrow> goes a (Looking h) w))"

definition await_look :: "'t \<Rightarrow> u64 \<Rightarrow> 't os_world \<Rightarrow> 't os_world" where
  "await_look a h w =
     (case split_handle h of
        None \<Rightarrow> goes a Ready w
      | Some (i, g) \<Rightarrow>
          (case get_checked i g (slab w) of
             None \<Rightarrow> goes a Ready w
           | Some t \<Rightarrow>
               goes a (case join_handle t of Some j \<Rightarrow> Joining j (cell t) h | None \<Rightarrow> Locking (cell t) h)
                 (w\<lparr>slab := put_task i (t\<lparr>join_handle := None\<rparr>) (slab w)\<rparr>)))"

text \<open>With the task's lock held: the loop test, and the take of the result behind it.\<close>

definition await_enter :: "'t \<Rightarrow> nat \<Rightarrow> u64 \<Rightarrow> 't os_world \<Rightarrow> 't os_world" where
  "await_enter a n h w =
     (let c = cells w n in
      if is_done c
      then goes a (Reclaiming n h (stored c))
             (w\<lparr>cells := (cells w)(n := c\<lparr>stored := 0\<rparr>), takes := takes w @ [(n, stored c)]\<rparr>)
      else goes a (Asleep n h) (w\<lparr>cells := (cells w)(n := c\<lparr>waiters := waiters c + 1\<rparr>)\<rparr>))"

definition await_resume :: "'t \<Rightarrow> nat \<Rightarrow> u64 \<Rightarrow> 't os_world \<Rightarrow> 't os_world" where
  "await_resume a n h w =
     await_enter a n h (w\<lparr>cells := (cells w)(n := (cells w n)\<lparr>waiters := waiters (cells w n) - 1\<rparr>)\<rparr>)"

definition await_reclaim :: "'t \<Rightarrow> u64 \<Rightarrow> 't os_world \<Rightarrow> 't os_world" where
  "await_reclaim a h w =
     (case split_handle h of
        None \<Rightarrow> goes a Ready w
      | Some (i, g) \<Rightarrow>
          (let (s, freed) = reclaim i g (slab w)
           in goes a (if freed then Unlisting h else Ready) (w\<lparr>slab := s\<rparr>)))"

definition unlist :: "'t \<Rightarrow> u64 \<Rightarrow> 't os_world \<Rightarrow> 't os_world" where
  "unlist a h w = goes a Ready (w\<lparr>registry := unregister_id h TaskKind (registry w)\<rparr>)"

subsection \<open>Polling and detaching\<close>

definition os_thread_is_done :: "u64 \<Rightarrow> 't os_world \<Rightarrow> bool" where
  "os_thread_is_done h w =
     (if \<not> is_valid_id h TaskKind (registry w) then False
      else (case split_handle h of
              None \<Rightarrow> False
            | Some (i, g) \<Rightarrow>
                (case get_checked i g (slab w) of None \<Rightarrow> False | Some t \<Rightarrow> is_done (cells w (cell t)))))"

definition detach_check :: "'t \<Rightarrow> u64 \<Rightarrow> 't os_world \<Rightarrow> 't os_world" where
  "detach_check a h w =
     (if \<not> is_valid_id h TaskKind (registry w) then w
      else (case split_handle h of None \<Rightarrow> w | Some _ \<Rightarrow> goes a (Detaching h) w))"

definition detach_do :: "'t \<Rightarrow> u64 \<Rightarrow> 't os_world \<Rightarrow> 't os_world" where
  "detach_do a h w =
     (case split_handle h of
        None \<Rightarrow> goes a Ready w
      | Some (i, g) \<Rightarrow>
          (let (s, r) = slab_detach i g (slab w)
           in goes a (case r of Some h' \<Rightarrow> UnlistingDetached h' | None \<Rightarrow> Ready)
                (w\<lparr>slab := s,
                   dropped := (case get_checked i g (slab w) of None \<Rightarrow> dropped w | Some t \<Rightarrow> insert (cell t) (dropped w))\<rparr>)))"

subsection \<open>Steps\<close>

inductive os_step :: "'t os_world \<Rightarrow> 't os_world \<Rightarrow> bool" where
  reserves: "pcs w a = Ready \<Longrightarrow> os_step w (spawn_reserve a w)"
| lists: "pcs w a = Reserved n \<Longrightarrow> os_step w (spawn_list a n w)"
| launches: "pcs w a = Listed n \<Longrightarrow> os_step w (spawn_launch a n w)"
| stores: "pcs w a = Launched n \<Longrightarrow> os_step w (spawn_store a n w)"
| publishes: "body w n = InBody \<Longrightarrow> os_step w (body_publish n r w)"
| marks: "body w n = Published \<Longrightarrow> os_step w (body_mark n w)"
| exits: "body w n = BodyUnlisting h \<Longrightarrow> os_step w (body_unlist n h w)"
| checks: "pcs w a = Ready \<Longrightarrow> os_step w (await_check a h w)"
| looks: "pcs w a = Looking h \<Longrightarrow> os_step w (await_look a h w)"
| joins: "pcs w a = Joining j n h \<Longrightarrow> body w j = Exited \<Longrightarrow> os_step w (goes a (Locking n h) w)"
| enters: "pcs w a = Locking n h \<Longrightarrow> os_step w (await_enter a n h w)"
| spurious: "pcs w a = Asleep n h \<Longrightarrow> os_step w (goes a (Woken n h) w)"
| resumes: "pcs w a = Woken n h \<Longrightarrow> os_step w (await_resume a n h w)"
| reclaims: "pcs w a = Reclaiming n h r \<Longrightarrow> os_step w (await_reclaim a h w)"
| unlists: "pcs w a = Unlisting h \<Longrightarrow> os_step w (unlist a h w)"
| drops: "pcs w a = Ready \<Longrightarrow> os_step w (detach_check a h w)"
| detaches: "pcs w a = Detaching h \<Longrightarrow> os_step w (detach_do a h w)"
| unlists_detached: "pcs w a = UnlistingDetached h \<Longrightarrow> os_step w (unlist a h w)"

inductive_cases os_step_cases: "os_step w v"

abbreviation os_reach :: "'t os_world \<Rightarrow> bool" where
  "os_reach \<equiv> reachable (\<lambda>w. w = os_init) os_step"


subsection \<open>Which task a thread works for\<close>

fun names_task :: "os_pc \<Rightarrow> nat option" where
  "names_task (Reserved n) = Some n"
| "names_task (Listed n) = Some n"
| "names_task (Launched n) = Some n"
| "names_task (Joining j n h) = Some n"
| "names_task (Locking n h) = Some n"
| "names_task (Asleep n h) = Some n"
| "names_task (Woken n h) = Some n"
| "names_task (Reclaiming n h r) = Some n"
| "names_task _ = None"

fun starting :: "os_pc \<Rightarrow> nat option" where
  "starting (Reserved n) = Some n"
| "starting (Listed n) = Some n"
| "starting _ = None"

fun waits_for :: "nat \<Rightarrow> os_pc \<Rightarrow> bool" where
  "waits_for n (Asleep m h) = (m = n)"
| "waits_for n (Woken m h) = (m = n)"
| "waits_for n _ = False"

lemma waits_names: "waits_for n p \<Longrightarrow> names_task p = Some n"
  by (cases p) auto

lemma starting_names: "starting p = Some n \<Longrightarrow> names_task p = Some n"
  by (cases p) auto

lemma wakes_all_same [simp]:
  "names_task (wakes_all n p a) = names_task (p a)"
  "starting (wakes_all n p a) = starting (p a)"
  "waits_for m (wakes_all n p a) = waits_for m (p a)"
  by (auto simp: wakes_all_def split: os_pc.splits)

subsection \<open>The table and the spawns\<close>

definition table_ok :: "slab \<Rightarrow> (nat \<Rightarrow> nat \<times> u32) \<Rightarrow> nat \<Rightarrow> bool" where
  "table_ok s hm k \<longleftrightarrow>
     slab_ok s \<and> (\<forall>i g t. get_checked i g s = Some t \<longrightarrow> cell t < k \<and> hm (cell t) = (i, g))"

lemma table_ok_put:
  "table_ok s hm k \<Longrightarrow> get_checked i g s = Some t \<Longrightarrow> cell u = cell t \<Longrightarrow> table_ok (put_task i u s) hm k"
  by (auto simp: table_ok_def slab_ok_put get_checked_put)

lemma table_ok_free: "table_ok s hm k \<Longrightarrow> get_checked i g s = Some t \<Longrightarrow> table_ok (fst (free_slot i s)) hm k"
  by (auto simp: table_ok_def slab_ok_free get_checked_free)

lemma table_ok_insert:
  "table_ok s hm k \<Longrightarrow> slab_insert t s = (s', i, g) \<Longrightarrow> cell t = k \<Longrightarrow> table_ok s' (hm(k := (i, g))) (k + 1)"
  unfolding table_ok_def
  using slab_ok_insert [of s t] by (fastforce simp: get_checked_insert split: if_splits)

lemma table_ok_reclaim: "table_ok s hm k \<Longrightarrow> table_ok (fst (reclaim i g s)) hm k"
  by (auto simp: reclaim_checked table_ok_free split: option.splits)

lemma table_ok_mark: "table_ok s hm k \<Longrightarrow> table_ok (fst (mark_finished_and_maybe_reclaim i g s)) hm k"
  by (auto simp: mark_finished_and_maybe_reclaim_def case_prod_unfold Let_def
      intro: table_ok_free table_ok_put split: option.splits)

lemma table_ok_detach: "table_ok s hm k \<Longrightarrow> table_ok (fst (slab_detach i g s)) hm k"
  by (auto simp: slab_detach_def case_prod_unfold Let_def
      intro: table_ok_free table_ok_put split: option.splits)

definition names_inv :: "'t os_world \<Rightarrow> bool" where
  "names_inv w \<longleftrightarrow>
     table_ok (slab w) (home w) (spawned w) \<and>
     (\<forall>a n. names_task (pcs w a) = Some n \<longrightarrow> n < spawned w) \<and>
     (\<forall>a b n. starting (pcs w a) = Some n \<longrightarrow> starting (pcs w b) = Some n \<longrightarrow> a = b) \<and>
     (\<forall>n. body w n = Unstarted \<longleftrightarrow> n \<ge> spawned w \<or> (\<exists>a. starting (pcs w a) = Some n))"

lemma names_init: "names_inv os_init"
  using slab_ok_new by (simp add: names_inv_def os_init_def table_ok_def get_checked_def slab_new_def)

text \<open>A step that starts no task keeps the naming.\<close>

lemma names_keep:
  assumes "names_inv w" and "table_ok (slab v) (home w) (spawned w)"
    and "home v = home w" "spawned v = spawned w"
    and "\<And>n. body v n = Unstarted \<longleftrightarrow> body w n = Unstarted"
    and "\<And>b. starting (pcs v b) = starting (pcs w b)"
    and "\<And>b n. names_task (pcs v b) = Some n \<Longrightarrow> n < spawned w"
  shows "names_inv v"
  using assms unfolding names_inv_def by simp

lemma names_table: "names_inv w \<Longrightarrow> table_ok (slab w) (home w) (spawned w)"
  by (simp add: names_inv_def)

lemma names_old: "names_inv w \<Longrightarrow> names_task (pcs w a) = Some n \<Longrightarrow> n < spawned w"
  by (simp add: names_inv_def)

lemma names_goes:
  assumes "names_inv w" and "table_ok (slab v) (home w) (spawned w)"
    and "home v = home w" "spawned v = spawned w" "body v = body w" "pcs v = (pcs w)(a := p)"
    and "starting p = starting (pcs w a)" and "\<And>n. names_task p = Some n \<Longrightarrow> n < spawned w"
  shows "names_inv v"
  by (rule names_keep [OF assms(1-4)]) (use assms names_old [OF assms(1)] in \<open>auto split: if_splits\<close>)

lemma names_reserve:
  assumes inv: "names_inv w" and a: "pcs w a = Ready"
  shows "names_inv (spawn_reserve a w)"
proof -
  let ?t = "\<lparr>join_handle = None, cell = spawned w, reclaim_on_done = False, finished = False\<rparr>"
  obtain s i g where i: "slab_insert ?t (slab w) = (s, i, g)" by (metis prod_cases3)
  have "table_ok s ((home w)(spawned w := (i, g))) (spawned w + 1)"
    using table_ok_insert [OF names_table [OF inv] i] by simp
  moreover have new: "starting (pcs w b) \<noteq> Some (spawned w)" for b
    using names_old [OF inv] starting_names [of "pcs w b"] by auto
  moreover have "(\<exists>b. starting (((pcs w)(a := Reserved (spawned w))) b) = Some n) \<longleftrightarrow>
      n = spawned w \<or> (\<exists>b. starting (pcs w b) = Some n)" for n
    using a by (auto intro: exI [of _ a]) (metis fun_upd_other option.distinct(1) starting.simps(3))
  moreover have "names_task (((pcs w)(a := Reserved (spawned w))) b) = Some n \<Longrightarrow> n < spawned w + 1" for b n
    using names_old [OF inv, of b n] by (auto split: if_splits)
  moreover have "starting (((pcs w)(a := Reserved (spawned w))) b) = Some n \<Longrightarrow>
      starting (((pcs w)(a := Reserved (spawned w))) c) = Some n \<Longrightarrow> b = c" for b c n
    using inv new [of b] new [of c] by (auto simp: names_inv_def split: if_splits)
  moreover have "body w n = Unstarted \<longleftrightarrow> n \<ge> spawned w \<or> (\<exists>b. starting (pcs w b) = Some n)" for n
    using inv by (simp add: names_inv_def)
  ultimately show ?thesis
    by (simp add: names_inv_def spawn_reserve_def i Let_def less_Suc_eq Suc_le_eq del: fun_upd_apply)
      (metis le_less)
qed

text \<open>The step that starts a task's thread.\<close>

lemma names_launch:
  assumes inv: "names_inv w" and a: "pcs w a = Listed n"
  shows "names_inv (spawn_launch a n w)"
proof -
  have n: "n < spawned w" using names_old [OF inv, of a] a by simp
  have only: "starting (pcs w b) = Some n \<Longrightarrow> b = a" for b
    using inv a by (simp add: names_inv_def)
  show ?thesis
    using inv n only a unfolding names_inv_def spawn_launch_def
    by (auto split: if_splits) (metis option.inject starting.simps(2))
qed

lemma names_publish:
  assumes "names_inv w" and "body w n = InBody"
  shows "names_inv (body_publish n r w)"
  by (rule names_keep [OF assms(1)])
    (use assms names_old [OF assms(1)] names_table [OF assms(1)] in \<open>auto simp: body_publish_def split: if_splits\<close>)

lemma names_mark:
  assumes "names_inv w" and "body w n = Published"
  shows "names_inv (body_mark n w)"
  by (rule names_keep [OF assms(1)])
    (use assms names_old [OF assms(1)] table_ok_mark [OF names_table [OF assms(1)]]
      in \<open>auto simp: body_mark_def case_prod_unfold Let_def split: option.splits\<close>)

lemma names_unlist:
  assumes "names_inv w" and "body w n = BodyUnlisting h"
  shows "names_inv (body_unlist n h w)"
  by (rule names_keep [OF assms(1)])
    (use assms names_old [OF assms(1)] names_table [OF assms(1)] in \<open>auto simp: body_unlist_def\<close>)

lemma names_store:
  assumes inv: "names_inv w" and a: "pcs w a = Launched n"
  shows "names_inv (spawn_store a n w)"
  by (rule names_goes [OF inv, where a = a and p = Ready])
    (use a names_table [OF inv] in \<open>auto simp: spawn_store_def intro: table_ok_put split: option.splits\<close>)

lemma names_look:
  assumes inv: "names_inv w" and a: "pcs w a = Looking h"
  shows "names_inv (await_look a h w)"
proof (cases "split_handle h")
  case None
  then show ?thesis
    by (intro names_goes [OF inv, where a = a and p = Ready])
      (use a names_table [OF inv] in \<open>auto simp: await_look_def\<close>)
next
  case (Some p)
  obtain i g where p: "p = (i, g)" by (cases p)
  show ?thesis
  proof (cases "get_checked i g (slab w)")
    case None
    then show ?thesis
      by (intro names_goes [OF inv, where a = a and p = Ready])
        (use a names_table [OF inv] Some p in \<open>auto simp: await_look_def\<close>)
  next
    case t: (Some t)
    have "cell t < spawned w" using names_table [OF inv] t by (simp add: table_ok_def)
    then show ?thesis
      by (intro names_goes [OF inv, where a = a
            and p = "case join_handle t of Some j \<Rightarrow> Joining j (cell t) h | None \<Rightarrow> Locking (cell t) h"])
        (use a names_table [OF inv] Some p t in \<open>auto simp: await_look_def intro: table_ok_put split: option.splits\<close>)
  qed
qed

lemma names_enter:
  assumes inv: "names_inv w" and a: "names_task (pcs w a) = Some n" "starting (pcs w a) = None"
  shows "names_inv (await_enter a n h w)"
  by (rule names_goes [OF inv, where a = a and p = "if is_done (cells w n) then Reclaiming n h (stored (cells w n)) else Asleep n h"])
    (use a names_table [OF inv] names_old [OF inv] in \<open>auto simp: await_enter_def Let_def split: if_splits\<close>)

lemma names_cells: "names_inv (w\<lparr>cells := c\<rparr>) = names_inv w"
  by (simp add: names_inv_def)

lemma names_reclaim:
  assumes inv: "names_inv w" and a: "starting (pcs w a) = None"
  shows "names_inv (await_reclaim a h w)"
proof (cases "split_handle h")
  case None
  then show ?thesis
    by (intro names_goes [OF inv, where a = a and p = Ready])
      (use a names_table [OF inv] in \<open>auto simp: await_reclaim_def\<close>)
next
  case (Some p)
  then show ?thesis
    by (intro names_goes [OF inv, where a = a and p = "if snd (reclaim (fst p) (snd p) (slab w)) then Unlisting h else Ready"])
      (use a table_ok_reclaim [OF names_table [OF inv]] in \<open>auto simp: await_reclaim_def case_prod_unfold Let_def split: if_splits\<close>)
qed

lemma names_detach:
  assumes inv: "names_inv w" and a: "starting (pcs w a) = None"
  shows "names_inv (detach_do a h w)"
proof (cases "split_handle h")
  case None
  then show ?thesis
    by (intro names_goes [OF inv, where a = a and p = Ready])
      (use a names_table [OF inv] in \<open>auto simp: detach_do_def\<close>)
next
  case (Some p)
  then show ?thesis
    by (intro names_goes [OF inv, where a = a
          and p = "case snd (slab_detach (fst p) (snd p) (slab w)) of Some h' \<Rightarrow> UnlistingDetached h' | None \<Rightarrow> Ready"])
      (use a table_ok_detach [OF names_table [OF inv]]
        in \<open>auto simp: detach_do_def case_prod_unfold Let_def split: option.splits\<close>)
qed

lemma names_step:
  assumes inv: "names_inv w" and step: "os_step w v"
  shows "names_inv v"
proof -
  note t = names_table [OF inv]
  show ?thesis
    using step
  proof cases
    case (lists a n)
    then show ?thesis
      by (intro names_goes [OF inv, where a = a and p = "Listed n"])
        (use t names_old [OF inv, of a] in \<open>auto simp: spawn_list_def\<close>)
  next
    case (checks a h)
    then show ?thesis
      using inv by (auto simp: await_check_def split: option.splits intro!: names_goes [OF inv, where a = a and p = "Looking h"] t)
  next
    case (drops a h)
    then show ?thesis
      using inv by (auto simp: detach_check_def split: option.splits intro!: names_goes [OF inv, where a = a and p = "Detaching h"] t)
  next
    case (joins a j n h)
    then show ?thesis
      by (intro names_goes [OF inv, where a = a and p = "Locking n h"])
        (use t names_old [OF inv, of a] in auto)
  next
    case (spurious a n h)
    then show ?thesis
      by (intro names_goes [OF inv, where a = a and p = "Woken n h"])
        (use t names_old [OF inv, of a] in auto)
  next
    case (resumes a n h)
    then show ?thesis
      unfolding await_resume_def by (simp add: names_enter names_cells inv)
  next
    case (unlists a h)
    then show ?thesis
      by (intro names_goes [OF inv, where a = a and p = Ready]) (use t in \<open>auto simp: unlist_def\<close>)
  next
    case (unlists_detached a h)
    then show ?thesis
      by (intro names_goes [OF inv, where a = a and p = Ready]) (use t in \<open>auto simp: unlist_def\<close>)
  qed (use inv in \<open>auto intro: names_reserve names_launch names_store names_publish names_mark names_unlist
      names_look names_enter names_reclaim names_detach\<close>)
qed


subsection \<open>Results\<close>

definition got :: "'t os_world \<Rightarrow> nat \<Rightarrow> u64 list" where
  "got w n = map snd (filter (\<lambda>x. fst x = n) (takes w))"

definition waiting :: "('t::finite \<Rightarrow> os_pc) \<Rightarrow> nat \<Rightarrow> nat" where
  "waiting p n = (\<Sum>a\<in>UNIV. if waits_for n (p a) then 1 else 0)"

lemma waiting_upd:
  "waiting (p(a := q)) n + (if waits_for n (p a) then 1 else 0) = waiting p n + (if waits_for n q then 1 else 0)"
proof -
  have "(\<lambda>b. if waits_for n ((p(a := q)) b) then 1 else 0) =
      (\<lambda>b. if waits_for n (p b) then 1 else 0)(a := (if waits_for n q then 1 else (0::nat)))"
    by auto
  then show ?thesis
    using sum_upd [of "\<lambda>b. if waits_for n (p b) then 1 else 0" a "if waits_for n q then 1 else 0"]
    by (simp only: waiting_def)
qed

lemma waiting_same: "waits_for n q = waits_for n (p a) \<Longrightarrow> waiting (p(a := q)) n = waiting p n"
  using waiting_upd [of p a q n] by simp

lemma waiting_more: "waits_for n q \<Longrightarrow> \<not> waits_for n (p a) \<Longrightarrow> waiting (p(a := q)) n = waiting p n + 1"
  using waiting_upd [of p a q n] by simp

lemma waiting_less: "\<not> waits_for n q \<Longrightarrow> waits_for n (p a) \<Longrightarrow> waiting (p(a := q)) n = waiting p n - 1"
  using waiting_upd [of p a q n] by simp

lemma waiting_pos: "waits_for n (p a) \<Longrightarrow> 0 < waiting p n"
  unfolding waiting_def by (rule sum_pos2 [of _ a]) auto

lemma waiting_none: "(\<And>a. \<not> waits_for n (p a)) \<Longrightarrow> waiting p n = 0"
  by (simp add: waiting_def)

lemma waiting_wakes_all [simp]: "waiting (wakes_all n p) m = waiting p m"
  by (simp add: waiting_def)

text \<open>What the awaits of one task have taken, and what is left for them.\<close>

definition result_ok :: "task_shared \<Rightarrow> u64 \<Rightarrow> u64 list \<Rightarrow> bool" where
  "result_ok c v xs \<longleftrightarrow>
     (if is_done c
      then xs = [] \<and> stored c = v \<or> stored c = 0 \<and> (\<exists>k. xs = v # replicate k 0)
      else xs = [])"

definition results_inv :: "('t::finite) os_world \<Rightarrow> bool" where
  "results_inv w \<longleftrightarrow>
     (\<forall>n. result_ok (cells w n) (answer w n) (got w n)) \<and>
     (\<forall>n. is_done (cells w n) \<longleftrightarrow> body w n \<noteq> Unstarted \<and> body w n \<noteq> InBody) \<and>
     (\<forall>n. waiters (cells w n) = waiting (pcs w) n) \<and>
     (\<forall>a n h. pcs w a = Asleep n h \<longrightarrow> \<not> is_done (cells w n))"

lemma results_invI:
  assumes "\<And>n. result_ok (cells w n) (answer w n) (got w n)"
    and "\<And>n. is_done (cells w n) \<longleftrightarrow> body w n \<noteq> Unstarted \<and> body w n \<noteq> InBody"
    and "\<And>n. waiters (cells w n) = waiting (pcs w) n"
    and "\<And>a n h. pcs w a = Asleep n h \<Longrightarrow> \<not> is_done (cells w n)"
  shows "results_inv w"
  using assms unfolding results_inv_def by blast

lemma results_facts:
  assumes "results_inv w"
  shows "result_ok (cells w n) (answer w n) (got w n)"
    and "is_done (cells w n) \<longleftrightarrow> body w n \<noteq> Unstarted \<and> body w n \<noteq> InBody"
    and "waiters (cells w n) = waiting (pcs w) n"
    and "pcs w a = Asleep n h \<Longrightarrow> \<not> is_done (cells w n)"
  using assms unfolding results_inv_def by blast+

lemma results_init: "results_inv (os_init :: ('t::finite) os_world)"
  by (simp add: results_inv_def os_init_def result_ok_def got_def waiting_def)

text \<open>A step that leaves cells and takes alone and moves a thread between places where it does not
  wait.\<close>

lemma results_keep:
  assumes inv: "results_inv w" and v: "cells v = cells w" "takes v = takes w" "answer v = answer w"
    and p: "pcs v = (pcs w)(a := p)" "\<And>n. waits_for n p = waits_for n (pcs w a)" "\<And>n h. p \<noteq> Asleep n h"
    and b: "\<And>n. body v n \<in> {Unstarted, InBody} \<longleftrightarrow> body w n \<in> {Unstarted, InBody}"
  shows "results_inv v"
proof (rule results_invI)
  show "result_ok (cells v n) (answer v n) (got v n)" for n
    using results_facts(1) [OF inv] by (simp add: v got_def)
  show "is_done (cells v n) \<longleftrightarrow> body v n \<noteq> Unstarted \<and> body v n \<noteq> InBody" for n
    using results_facts(2) [OF inv, of n] b [of n] by (auto simp: v)
  show "waiters (cells v n) = waiting (pcs v) n" for n
    using results_facts(3) [OF inv, of n] waiting_same [of n p "pcs w" a] p(2) [of n] by (simp add: v p(1))
  show "pcs v b = Asleep n h \<Longrightarrow> \<not> is_done (cells v n)" for b n h
    using results_facts(4) [OF inv, of b n h] p(1,3) by (auto simp: v split: if_splits)
qed

lemma results_body:
  assumes inv: "results_inv w" and v: "cells v = cells w" "takes v = takes w" "answer v = answer w" "pcs v = pcs w"
    and b: "body v = (body w)(n := b)" "body w n \<notin> {Unstarted, InBody}" "b \<notin> {Unstarted, InBody}"
  shows "results_inv v"
proof (rule results_invI)
  show "is_done (cells v m) \<longleftrightarrow> body v m \<noteq> Unstarted \<and> body v m \<noteq> InBody" for m
    using results_facts(2) [OF inv, of m] b by (simp add: v)
qed (use results_facts [OF inv] in \<open>auto simp: v got_def\<close>)

lemma results_reserve:
  assumes inv: "results_inv w" and names: "names_inv w" and a: "pcs w a = Ready"
  shows "results_inv (spawn_reserve a w)"
proof -
  let ?n = "spawned w" and ?v = "spawn_reserve a w"
  have un: "body w ?n = Unstarted" using names by (simp add: names_inv_def)
  have no: "\<not> waits_for ?n (pcs w b)" for b
    using names_old [OF names] waits_names by blast
  have sl: "\<not> waits_for m (Reserved ?n)" for m by simp
  have d: "\<not> is_done (cells w ?n)" using inv un by (simp add: results_inv_def)
  then have g: "got w ?n = []" using inv by (auto simp: results_inv_def result_ok_def split: if_splits)
  have w: "waiting ((pcs w)(a := Reserved ?n)) m = waiting (pcs w) m" for m
    using a by (intro waiting_same) simp
  have v: "cells ?v = (cells w)(?n := \<lparr>is_done = False, stored = 0, waiters = 0\<rparr>)" "takes ?v = takes w"
      "answer ?v = answer w" "body ?v = body w" "pcs ?v = (pcs w)(a := Reserved ?n)"
    by (simp_all add: spawn_reserve_def Let_def case_prod_unfold)
  have z: "waiting (pcs w) ?n = 0" by (rule waiting_none [OF no])
  show ?thesis
  proof (rule results_invI)
    show "is_done (cells ?v m) \<longleftrightarrow> body ?v m \<noteq> Unstarted \<and> body ?v m \<noteq> InBody" for m
      using results_facts(2) [OF inv, of m] un d by (simp add: v)
    show "result_ok (cells ?v m) (answer ?v m) (got ?v m)" for m
      using results_facts(1) [OF inv, of m] g by (cases "m = ?n") (simp_all add: v got_def result_ok_def)
    show "waiters (cells ?v m) = waiting (pcs ?v) m" for m
      using results_facts(3) [OF inv, of m] z by (simp add: v w del: fun_upd_apply) (simp add: v)
    show "pcs ?v b = Asleep m h \<Longrightarrow> \<not> is_done (cells ?v m)" for b m h
      using results_facts(4) [OF inv, of b m h] by (auto simp: v split: if_splits)
  qed
qed

lemma results_publish:
  assumes inv: "results_inv w" and b: "body w n = InBody"
  shows "results_inv (body_publish n r w)"
proof -
  let ?p = "if 0 < waiters (cells w n) then wakes_all n (pcs w) else pcs w"
  have d: "\<not> is_done (cells w n)" using inv b by (simp add: results_inv_def)
  then have g: "got w n = []" using inv by (auto simp: results_inv_def result_ok_def split: if_splits)
  have w: "waiting ?p m = waiting (pcs w) m" for m by simp
  have "?p a = Asleep m h \<Longrightarrow> m \<noteq> n \<and> pcs w a = Asleep m h" for a m h
  proof (cases "0 < waiters (cells w n)")
    case True
    then show "?p a = Asleep m h \<Longrightarrow> m \<noteq> n \<and> pcs w a = Asleep m h"
      by (auto simp: wakes_all_def split: os_pc.splits if_splits)
  next
    case False
    then have "\<not> waits_for n (pcs w a)" using inv waiting_pos [of n "pcs w" a] by (auto simp: results_inv_def)
    then show "?p a = Asleep m h \<Longrightarrow> m \<noteq> n \<and> pcs w a = Asleep m h" using False by auto
  qed
  note sl = this
  let ?v = "body_publish n r w"
  show ?thesis
  proof (rule results_invI)
    show "is_done (cells ?v m) \<longleftrightarrow> body ?v m \<noteq> Unstarted \<and> body ?v m \<noteq> InBody" for m
      using results_facts(2) [OF inv, of m] by (simp add: body_publish_def)
    show "result_ok (cells ?v m) (answer ?v m) (got ?v m)" for m
      using results_facts(1) [OF inv, of m] g by (cases "m = n") (simp_all add: body_publish_def got_def result_ok_def)
    show "waiters (cells ?v m) = waiting (pcs ?v) m" for m
      using results_facts(3) [OF inv, of m] by (cases "m = n") (auto simp: body_publish_def)
    show "pcs ?v b = Asleep m h \<Longrightarrow> \<not> is_done (cells ?v m)" for b m h
      using sl [of b m h] results_facts(4) [OF inv, of b m h] by (auto simp: body_publish_def)
  qed
qed

lemma results_enter:
  assumes inv: "results_inv w" and a: "pcs w a = Locking n h"
  shows "results_inv (await_enter a n h w)"
proof (cases "is_done (cells w n)")
  case True
  let ?v = "await_enter a n h w"
  have v: "cells ?v = (cells w)(n := (cells w n)\<lparr>stored := 0\<rparr>)" "takes ?v = takes w @ [(n, stored (cells w n))]"
      "answer ?v = answer w" "body ?v = body w" "pcs ?v = (pcs w)(a := Reclaiming n h (stored (cells w n)))"
    using True by (simp_all add: await_enter_def Let_def)
  have g: "got ?v m = (if m = n then got w n @ [stored (cells w n)] else got w m)" for m
    by (simp add: got_def v)
  have "result_ok (cells w n) (answer w n) (got w n)" using inv by (simp add: results_inv_def)
  then have "result_ok (cells ?v n) (answer w n) (got ?v n)"
    using True by (auto simp: result_ok_def v g replicate_append_same intro: exI [of _ 0])
      (metis replicate_Suc)
  moreover have "waiting (pcs ?v) m = waiting (pcs w) m" for m
    unfolding v by (rule waiting_same) (simp add: a)
  moreover have "pcs ?v b = Asleep m k \<Longrightarrow> \<not> is_done (cells ?v m)" for b m k
    using results_facts(4) [OF inv, of b m k] by (auto simp: v split: if_splits)
  moreover have "is_done (cells ?v m) \<longleftrightarrow> body ?v m \<noteq> Unstarted \<and> body ?v m \<noteq> InBody" for m
    using results_facts(2) [OF inv, of m] by (cases "m = n") (simp_all add: v)
  moreover have "result_ok (cells ?v m) (answer ?v m) (got ?v m)" if "m \<noteq> n" for m
    using results_facts(1) [OF inv, of m] that by (simp add: g) (simp add: v)
  moreover have "waiters (cells ?v m) = waiting (pcs w) m" for m
    using results_facts(3) [OF inv, of m] by (cases "m = n") (simp_all add: v)
  ultimately show ?thesis
    by (metis results_invI v(3))
next
  case False
  let ?v = "await_enter a n h w"
  have v: "cells ?v = (cells w)(n := (cells w n)\<lparr>waiters := waiters (cells w n) + 1\<rparr>)" "takes ?v = takes w"
      "answer ?v = answer w" "body ?v = body w" "pcs ?v = (pcs w)(a := Asleep n h)"
    using False by (simp_all add: await_enter_def Let_def)
  have w: "waiting ((pcs w)(a := Asleep n h)) m = waiting (pcs w) m + (if m = n then 1 else 0)" for m
    using waiting_upd [of "pcs w" a "Asleep n h" m] a by auto
  show ?thesis
  proof (rule results_invI)
    show "is_done (cells ?v m) \<longleftrightarrow> body ?v m \<noteq> Unstarted \<and> body ?v m \<noteq> InBody" for m
      using results_facts(2) [OF inv, of m] by (cases "m = n") (simp_all add: v)
    show "result_ok (cells ?v m) (answer ?v m) (got ?v m)" for m
      using results_facts(1) [OF inv, of m] by (cases "m = n") (auto simp: v got_def result_ok_def split: if_splits)
    show "waiters (cells ?v m) = waiting (pcs ?v) m" for m
      using results_facts(3) [OF inv, of m] w [of m] by (cases "m = n") (simp_all add: v)
    show "pcs ?v b = Asleep m k \<Longrightarrow> \<not> is_done (cells ?v m)" for b m k
      using results_facts(4) [OF inv, of b m k] False by (auto simp: v split: if_splits)
  qed
qed

text \<open>Waking up is letting go of the wait and entering again.\<close>

lemma resume_enter:
  "await_resume a n h w =
     await_enter a n h (goes a (Locking n h) (w\<lparr>cells := (cells w)(n := (cells w n)\<lparr>waiters := waiters (cells w n) - 1\<rparr>)\<rparr>))"
  by (simp add: await_resume_def await_enter_def Let_def)

lemma results_resume:
  assumes inv: "results_inv w" and a: "pcs w a = Woken n h"
  shows "results_inv (await_resume a n h w)"
proof -
  have "waiting ((pcs w)(a := Locking n h)) m = waiting (pcs w) m - (if m = n then 1 else 0)" for m
    using waiting_upd [of "pcs w" a "Locking n h" m] a by (auto split: if_splits)
  note w = this
  let ?v = "goes a (Locking n h) (w\<lparr>cells := (cells w)(n := (cells w n)\<lparr>waiters := waiters (cells w n) - 1\<rparr>)\<rparr>)"
  have "results_inv ?v"
  proof (rule results_invI)
    show "is_done (cells ?v m) \<longleftrightarrow> body ?v m \<noteq> Unstarted \<and> body ?v m \<noteq> InBody" for m
      using results_facts(2) [OF inv, of m] by (cases "m = n") simp_all
    show "result_ok (cells ?v m) (answer ?v m) (got ?v m)" for m
      using results_facts(1) [OF inv, of m] by (cases "m = n") (auto simp: got_def result_ok_def split: if_splits)
    show "waiters (cells ?v m) = waiting (pcs ?v) m" for m
      using results_facts(3) [OF inv, of m] w [of m] by (cases "m = n") simp_all
    show "pcs ?v b = Asleep m k \<Longrightarrow> \<not> is_done (cells ?v m)" for b m k
      using results_facts(4) [OF inv, of b m k] by (auto split: if_splits)
  qed
  then show ?thesis
    unfolding resume_enter by (rule results_enter) simp
qed


lemma results_step:
  assumes inv: "results_inv w" and names: "names_inv w" and step: "os_step w v"
  shows "results_inv v"
  using step
proof cases
  case (reserves a)
  then show ?thesis by (simp add: results_reserve inv names)
next
  case (lists a n)
  then show ?thesis
    by (intro results_keep [OF inv, where a = a and p = "Listed n"]) (auto simp: spawn_list_def)
next
  case (launches a n)
  have "body w n = Unstarted" using names launches(2) unfolding names_inv_def by (metis starting.simps(2))
  then show ?thesis
    using launches by (intro results_keep [OF inv, where a = a and p = "Launched n"]) (auto simp: spawn_launch_def)
next
  case (stores a n)
  then show ?thesis
    by (intro results_keep [OF inv, where a = a and p = Ready]) (auto simp: spawn_store_def split: option.splits)
next
  case (publishes n r)
  then show ?thesis by (simp add: results_publish inv)
next
  case (marks n)
  then show ?thesis
    by (intro results_body [OF inv, where n = n and b = "body v n"])
      (auto simp: body_mark_def case_prod_unfold Let_def split: option.splits)
next
  case (exits n h)
  then show ?thesis
    by (intro results_body [OF inv, where n = n and b = Exited]) (auto simp: body_unlist_def)
next
  case (checks a h)
  then show ?thesis
    using inv by (auto simp: await_check_def split: option.splits intro!: results_keep [OF inv, where a = a and p = "Looking h"])
next
  case (looks a h)
  then show ?thesis
    by (intro results_keep [OF inv, where a = a and p = "pcs v a"])
      (auto simp: await_look_def split: option.splits)
next
  case (joins a j n h)
  then show ?thesis
    by (intro results_keep [OF inv, where a = a and p = "Locking n h"]) auto
next
  case (enters a n h)
  then show ?thesis by (simp add: results_enter inv)
next
  case (spurious a n h)
  then show ?thesis
    by (intro results_keep [OF inv, where a = a and p = "Woken n h"]) auto
next
  case (resumes a n h)
  then show ?thesis by (simp add: results_resume inv)
next
  case (reclaims a n h r)
  then show ?thesis
    by (intro results_keep [OF inv, where a = a and p = "pcs v a"])
      (auto simp: await_reclaim_def case_prod_unfold Let_def split: option.splits)
next
  case (unlists a h)
  then show ?thesis
    by (intro results_keep [OF inv, where a = a and p = Ready]) (auto simp: unlist_def)
next
  case (drops a h)
  then show ?thesis
    using inv by (auto simp: detach_check_def split: option.splits intro!: results_keep [OF inv, where a = a and p = "Detaching h"])
next
  case (detaches a h)
  then show ?thesis
    by (intro results_keep [OF inv, where a = a and p = "pcs v a"])
      (auto simp: detach_do_def case_prod_unfold Let_def split: option.splits)
next
  case (unlists_detached a h)
  then show ?thesis
    by (intro results_keep [OF inv, where a = a and p = Ready]) (auto simp: unlist_def)
qed

interpretation os_results: inductive_invariant "\<lambda>w. w = (os_init :: ('t::finite) os_world)" os_step
    "\<lambda>w. names_inv w \<and> results_inv w"
  by unfold_locales (auto simp: names_init results_init names_step results_step)

end
