(* ===== verification/OsTaskLife.thy ===== *)
theory OsTaskLife
  imports OsTask
begin

text \<open>
  Who gets the result of an os-thread task, with a run in which two threads await one handle.
\<close>

subsection \<open>One result for all awaits\<close>

text \<open>C13. The awaits of a task that have read its result have read, in the order they took the lock,
  the value its body returned and then zeros: the owned result is handed out once. And no await
  sleeps on a task that is done.\<close>

theorem awaits_share_one_result:
  fixes w :: "('t::finite) os_world"
  assumes "os_reach w"
  shows "(got w n = [] \<or> is_done (cells w n) \<and> (\<exists>k. got w n = answer w n # replicate k 0)) \<and>
    (is_done (cells w n) \<longrightarrow> pcs w a \<noteq> Asleep n h)"
proof -
  have "results_inv w" using os_results.invariant [OF assms] by simp
  from results_facts [OF this] show ?thesis
    unfolding result_ok_def by metis
qed

text \<open>The run: one thread spawns and awaits with the join handle, the other awaits beside it.\<close>

definition one_spawned :: "bool os_world" where
  "one_spawned = spawn_store True 0 (spawn_launch True 0 (spawn_list True 0 (spawn_reserve True os_init)))"

text \<open>Its states: the cell, the thread of the task, where the two threads are, what was taken, whether
  the join handle is there and the mark is set, and the answer.\<close>

definition one_shared ::
  "task_shared \<Rightarrow> body_pc \<Rightarrow> os_pc \<Rightarrow> os_pc \<Rightarrow> (nat \<times> u64) list \<Rightarrow> nat option \<Rightarrow> bool \<Rightarrow> u64 \<Rightarrow> bool os_world" where
  "one_shared c b p q tk j fin v =
     \<lparr>slab = \<lparr>entries = [\<lparr>slot_task = Some \<lparr>join_handle = j, cell = 0, reclaim_on_done = False, finished = fin\<rparr>,
                          slot_generation = 0\<rparr>], free_list = []\<rparr>,
      registry = register_id 1 TaskKind (\<lambda>_. {}),
      cells = (\<lambda>_. \<lparr>is_done = False, stored = 0, waiters = 0\<rparr>)(0 := c), body = (\<lambda>_. Unstarted)(0 := b),
      home = (\<lambda>_. (0, 0)), spawned = 1, pcs = (\<lambda>x. if x then p else q), answer = (\<lambda>_. 0)(0 := v),
      takes = tk, dropped = {}\<rparr>"

lemma first_handle: "make_task_handle 0 0 = 1" "split_handle 1 = Some (0, 0)"
  by (simp_all add: make_task_handle_def split_handle_def TASK_GEN_MASK_def)

lemma one_spawned_eq:
  "one_spawned = one_shared \<lparr>is_done = False, stored = 0, waiters = 0\<rparr> InBody Ready Ready [] (Some 0) False 0"
  by (simp add: one_spawned_def one_shared_def spawn_store_def spawn_launch_def spawn_list_def spawn_reserve_def
      os_init_def slab_insert_def slab_new_def get_checked_def put_task_def task_handle_def first_handle fun_eq_iff)

lemma os_next: "os_reach w \<Longrightarrow> os_step w v \<Longrightarrow> os_reach v"
  by (rule reachable_step)

lemma os_goes: "os_reach w \<Longrightarrow> os_step w v \<Longrightarrow> v = u \<Longrightarrow> os_reach u"
  by (metis reachable_step)

lemma reach_one_spawned: "os_reach one_spawned"
proof -
  have "os_reach (spawn_reserve True os_init)"
    by (rule os_next [OF reachable_init reserves]) (simp_all add: os_init_def)
  then have "os_reach (spawn_list True 0 (spawn_reserve True os_init))"
    by (rule os_next [OF _ lists]) (simp add: spawn_reserve_def os_init_def slab_insert_def slab_new_def)
  then have "os_reach (spawn_launch True 0 (spawn_list True 0 (spawn_reserve True os_init)))"
    by (rule os_next [OF _ launches]) (simp add: spawn_list_def)
  then show ?thesis
    unfolding one_spawned_def by (rule os_next [OF _ stores]) (simp add: spawn_launch_def)
qed

lemmas await_ops = await_check_def await_look_def await_enter_def await_resume_def body_publish_def body_mark_def
  mark_finished_and_maybe_reclaim_def get_checked_def put_task_def wakes_all_def first_handle is_valid_id_def
  register_id_def register_def is_valid_def Let_def

lemma reach_two_awaits:
  "os_reach (one_shared \<lparr>is_done = True, stored = 0, waiters = 0\<rparr> Exited (Reclaiming 0 1 7) (Reclaiming 0 1 0)
     [(0, 7), (0, 0)] None True 7)"
proof -
  have "os_reach (one_shared \<lparr>is_done = False, stored = 0, waiters = 0\<rparr> InBody Ready Ready [] (Some 0) False 0)"
    using reach_one_spawned by (simp add: one_spawned_eq)
  then have "os_reach (one_shared \<lparr>is_done = False, stored = 0, waiters = 0\<rparr> InBody (Looking 1) Ready [] (Some 0) False 0)"
    by (rule os_goes [OF _ checks [where a = True and h = 1]]) (auto simp: one_shared_def fun_eq_iff await_ops)
  then have "os_reach (one_shared \<lparr>is_done = False, stored = 0, waiters = 0\<rparr> InBody (Joining 0 0 1) Ready [] None False 0)"
    by (rule os_goes [OF _ looks [where a = True and h = 1]]) (auto simp: one_shared_def fun_eq_iff await_ops)
  then have "os_reach (one_shared \<lparr>is_done = False, stored = 0, waiters = 0\<rparr> InBody (Joining 0 0 1) (Looking 1) [] None False 0)"
    by (rule os_goes [OF _ checks [where a = False and h = 1]]) (auto simp: one_shared_def fun_eq_iff await_ops)
  then have "os_reach (one_shared \<lparr>is_done = False, stored = 0, waiters = 0\<rparr> InBody (Joining 0 0 1) (Locking 0 1) [] None False 0)"
    by (rule os_goes [OF _ looks [where a = False and h = 1]]) (auto simp: one_shared_def fun_eq_iff await_ops)
  then have "os_reach (one_shared \<lparr>is_done = False, stored = 0, waiters = 1\<rparr> InBody (Joining 0 0 1) (Asleep 0 1) [] None False 0)"
    by (rule os_goes [OF _ enters [where a = False and n = 0 and h = 1]]) (auto simp: one_shared_def fun_eq_iff await_ops)
  then have "os_reach (one_shared \<lparr>is_done = True, stored = 7, waiters = 1\<rparr> Published (Joining 0 0 1) (Woken 0 1) [] None False 7)"
    by (rule os_goes [OF _ publishes [where n = 0 and r = 7]]) (auto simp: one_shared_def fun_eq_iff await_ops)
  then have "os_reach (one_shared \<lparr>is_done = True, stored = 7, waiters = 1\<rparr> Exited (Joining 0 0 1) (Woken 0 1) [] None True 7)"
    by (rule os_goes [OF _ marks [where n = 0]]) (auto simp: one_shared_def fun_eq_iff await_ops)
  then have "os_reach (one_shared \<lparr>is_done = True, stored = 7, waiters = 1\<rparr> Exited (Locking 0 1) (Woken 0 1) [] None True 7)"
    by (rule os_goes [OF _ joins [where a = True and j = 0 and n = 0 and h = 1]]) (auto simp: one_shared_def fun_eq_iff)
  then have "os_reach (one_shared \<lparr>is_done = True, stored = 0, waiters = 1\<rparr> Exited (Reclaiming 0 1 7) (Woken 0 1) [(0, 7)] None True 7)"
    by (rule os_goes [OF _ enters [where a = True and n = 0 and h = 1]]) (auto simp: one_shared_def fun_eq_iff await_ops)
  then show ?thesis
    by (rule os_goes [OF _ resumes [where a = False and n = 0 and h = 1]]) (auto simp: one_shared_def fun_eq_iff await_ops)
qed

theorem awaits_share_one_result_witness:
  "\<exists>w :: bool os_world. os_reach w \<and> got w 0 = [7, 0] \<and> is_done (cells w 0) \<and> pcs w True \<noteq> Asleep 0 1 \<and>
     (\<exists>k. got w 0 = answer w 0 # replicate k 0)"
proof -
  let ?w = "one_shared \<lparr>is_done = True, stored = 0, waiters = 0\<rparr> Exited (Reclaiming 0 1 7) (Reclaiming 0 1 0)
     [(0, 7), (0, 0)] None True 7"
  have "got ?w 0 = [7, 0]" "is_done (cells ?w 0)" by (simp_all add: got_def one_shared_def)
  then show ?thesis
    using awaits_share_one_result [OF reach_two_awaits, of 0 True 1] reach_two_awaits by auto
qed

end
