(* ===== verification/OsTaskSlots.thy ===== *)
theory OsTaskSlots
  imports OsTaskLife
begin

text \<open>
  When the slot and the handle of an os-thread task go. Everything here holds while fewer than
  \<open>2 ^ 31\<close> tasks were spawned, so that no generation has wrapped.
\<close>

subsection \<open>No two tasks have one slot and generation\<close>

definition held_at :: "slab \<Rightarrow> (nat \<Rightarrow> nat \<times> u32) \<Rightarrow> nat \<Rightarrow> task_state option" where
  "held_at s hm n = get_checked (fst (hm n)) (snd (hm n)) s"

abbreviation generation_at :: "slab \<Rightarrow> nat \<Rightarrow> nat" where
  "generation_at s i \<equiv> unat (slot_generation (entries s ! i))"

definition slots_ok :: "slab \<Rightarrow> (nat \<Rightarrow> nat \<times> u32) \<Rightarrow> nat \<Rightarrow> bool" where
  "slots_ok s hm k \<longleftrightarrow>
     length (entries s) \<le> k \<and>
     (\<forall>i < length (entries s). generation_at s i + (if slot_task (entries s ! i) = None then 0 else 1) \<le> k) \<and>
     inj_on hm {..<k} \<and>
     (\<forall>n<k. fst (hm n) < length (entries s) \<and>
        (held_at s hm n \<noteq> None \<or> unat (snd (hm n)) < generation_at s (fst (hm n))))"

lemma held_put:
  assumes "slots_ok s hm k" and "held_at s hm n = Some t" and "n < k" and "m < k"
  shows "held_at (put_task (fst (hm n)) u s) hm m = (if m = n then Some u else held_at s hm m)"
proof -
  have "hm m = hm n \<longleftrightarrow> m = n" using assms(1,3,4) by (auto simp: slots_ok_def inj_on_def)
  moreover have "get_checked (fst (hm n)) (snd (hm n)) s = Some t" using assms(2) by (simp add: held_at_def)
  ultimately show ?thesis
    by (simp add: held_at_def get_checked_put)
qed

lemma held_free:
  assumes "slots_ok s hm k" and "held_at s hm n = Some t" and "n < k" and "m < k"
  shows "held_at (fst (free_slot (fst (hm n)) s)) hm m = (if m = n then None else held_at s hm m)"
proof -
  have m: "hm m = hm n \<longleftrightarrow> m = n" using assms(1,3,4) by (auto simp: slots_ok_def inj_on_def)
  have g: "get_checked (fst (hm n)) (snd (hm n)) s = Some t" using assms(2) by (simp add: held_at_def)
  show ?thesis
  proof (cases "fst (hm m) = fst (hm n) \<and> m \<noteq> n")
    case True
    then have "snd (hm m) \<noteq> snd (hm n)" using m by (metis prod_eq_iff)
    then have "get_checked (fst (hm m)) (snd (hm m)) s = None"
      using True get_checked_generation [OF g] by (simp add: get_checked_def)
    then show ?thesis using True g by (simp add: held_at_def get_checked_free)
  next
    case False
    then show ?thesis using g by (auto simp: held_at_def get_checked_free)
  qed
qed

lemma slots_ok_put:
  assumes ok: "slots_ok s hm k" and t: "held_at s hm n = Some t" and n: "n < k"
  shows "slots_ok (put_task (fst (hm n)) u s) hm k"
proof -
  let ?i = "fst (hm n)"
  have i: "?i < length (entries s)" "slot_task (entries s ! ?i) = Some t"
    using t by (auto simp: held_at_def get_checked_def split: if_splits)
  have h: "held_at (put_task ?i u s) hm m \<noteq> None \<longleftrightarrow> held_at s hm m \<noteq> None" if "m < k" for m
    using held_put [OF ok t n that] t by simp
  have g: "slot_generation (entries (put_task ?i u s) ! j) = slot_generation (entries s ! j)" for j
    using slot_generation_ops(1) t by (simp add: held_at_def)
  have e: "slot_task (entries (put_task ?i u s) ! j) = None \<longleftrightarrow> slot_task (entries s ! j) = None" for j
    using i by (cases "j = ?i") (auto simp: put_task_def)
  show ?thesis
    using ok h unfolding slots_ok_def g e slot_generation_ops(2) by auto
qed

lemma generation_no_wrap:
  assumes "unat g + 1 < 2 ^ 31"
  shows "unat ((g + 1) AND TASK_GEN_MASK) = unat g + 1"
proof -
  have "unat (g + 1) = unat g + 1" using assms by (simp add: unat_word_ariths)
  then show ?thesis
    using assms by (simp add: TASK_GEN_MASK_mask unsigned_take_bit_eq take_bit_nat_eq_self flip: take_bit_eq_mask)
qed

lemma slots_ok_free:
  assumes ok: "slots_ok s hm k" and t: "held_at s hm n = Some t" and n: "n < k" and k: "k < 2 ^ 31"
  shows "slots_ok (fst (free_slot (fst (hm n)) s)) hm k"
proof -
  let ?i = "fst (hm n)" and ?s = "fst (free_slot (fst (hm n)) s)"
  have i: "?i < length (entries s)" "slot_task (entries s ! ?i) = Some t" "slot_generation (entries s ! ?i) = snd (hm n)"
    using t by (auto simp: held_at_def get_checked_def split: if_splits)
  then have "generation_at s ?i + 1 \<le> k" using ok by (fastforce simp: slots_ok_def)
  then have g: "generation_at ?s j = (if j = ?i then generation_at s ?i + 1 else generation_at s j)" for j
    using i k generation_no_wrap [of "slot_generation (entries s ! ?i)"]
    by (simp add: free_slot_def Let_def)
  have e: "slot_task (entries ?s ! j) = (if j = ?i then None else slot_task (entries s ! j))" for j
    using i by (simp add: free_slot_def Let_def)
  have h: "held_at ?s hm m = (if m = n then None else held_at s hm m)" if "m < k" for m
    by (rule held_free [OF ok t n that])
  have b: "unat (snd (hm m)) \<le> generation_at s (fst (hm m))" if "m < k" for m
  proof (cases "held_at s hm m")
    case None
    then show ?thesis using ok that by (auto simp: slots_ok_def)
  next
    case (Some u)
    then show ?thesis by (auto simp: held_at_def dest: get_checked_generation)
  qed
  show ?thesis
    unfolding slots_ok_def
  proof (intro conjI allI impI)
    show "length (entries ?s) \<le> k" using ok by (simp add: slots_ok_def slot_generation_ops(3))
    show "inj_on hm {..<k}" using ok by (simp add: slots_ok_def)
    show "generation_at ?s j + (if slot_task (entries ?s ! j) = None then 0 else 1) \<le> k"
      if "j < length (entries ?s)" for j
      using that ok \<open>generation_at s ?i + 1 \<le> k\<close> by (auto simp: g e slots_ok_def slot_generation_ops(3))
    show "fst (hm m) < length (entries ?s)" if "m < k" for m
      using that ok by (simp add: slots_ok_def slot_generation_ops(3))
    show "held_at ?s hm m \<noteq> None \<or> unat (snd (hm m)) < generation_at ?s (fst (hm m))" if "m < k" for m
      using that ok b [OF that] h [OF that] i(3) by (auto simp: g slots_ok_def)
  qed
qed

lemma slots_ok_insert:
  assumes tab: "table_ok s hm k" and ok: "slots_ok s hm k" and ins: "slab_insert t s = (s', i, g)"
  shows "slots_ok s' (hm(k := (i, g))) (k + 1)"
    and "m \<le> k \<Longrightarrow> held_at s' (hm(k := (i, g))) m = (if m = k then Some t else held_at s hm m)"
proof -
  let ?hm = "hm(k := (i, g))"
  have sok: "slab_ok s" using tab by (simp add: table_ok_def)
  have new: "hm m \<noteq> (i, g)" if "m < k" for m
  proof
    assume m: "hm m = (i, g)"
    have i: "i < length (entries s)" using ok that m by (fastforce simp: slots_ok_def)
    have "held_at s hm m = None" using insert_index_fresh [OF sok ins] m by (simp add: held_at_def)
    then have "unat g < generation_at s i" using ok that m by (fastforce simp: slots_ok_def)
    moreover have "generation_at s i = unat g"
      using ins i by (auto simp: slab_insert_def split: list.splits)
    ultimately show False by simp
  qed
  have hd: "m \<le> k \<Longrightarrow> held_at s' ?hm m = (if m = k then Some t else held_at s hm m)" for m
    using new [of m] by (auto simp: held_at_def get_checked_insert [OF sok ins] prod_eq_iff)
  then show "m \<le> k \<Longrightarrow> held_at s' ?hm m = (if m = k then Some t else held_at s hm m)" .
  have len: "length (entries s') = max (length (entries s)) (i + 1)" "i \<le> length (entries s)"
    and gen: "generation_at s' i = unat g" "unat g \<le> k" "slot_task (entries s' ! i) = Some t"
    and old: "\<And>j. j < length (entries s) \<Longrightarrow> j \<noteq> i \<Longrightarrow> entries s' ! j = entries s ! j"
    and old_i: "i < length (entries s) \<Longrightarrow> generation_at s i = unat g"
  proof -
    consider "free_list s = []" | j rest where "free_list s = j # rest" by (cases "free_list s")
    then have "length (entries s') = max (length (entries s)) (i + 1) \<and> i \<le> length (entries s) \<and>
        generation_at s' i = unat g \<and> unat g \<le> k \<and> slot_task (entries s' ! i) = Some t \<and>
        (\<forall>j. j < length (entries s) \<longrightarrow> j \<noteq> i \<longrightarrow> entries s' ! j = entries s ! j) \<and>
        (i < length (entries s) \<longrightarrow> generation_at s i = unat g)"
    proof cases
      case 1
      have "s' = s\<lparr>entries := entries s @ [\<lparr>slot_task = Some t, slot_generation = 0\<rparr>]\<rparr>" "i = length (entries s)" "g = 0"
        using ins 1 by (simp_all add: slab_insert_def)
      then show ?thesis by (simp add: nth_append)
    next
      case (2 j rest)
      note f = slab_insert_free [OF sok 2]
      have s': "s' = s\<lparr>entries := (entries s)[j := (entries s ! j)\<lparr>slot_task := Some t\<rparr>], free_list := rest\<rparr>"
        and i: "i = j" "g = slot_generation (entries s ! j)"
        using ins [unfolded f(4)] by auto
      have "generation_at s j \<le> k" using ok f(1) by (fastforce simp: slots_ok_def)
      then show ?thesis unfolding s' i using f(1) by simp
    qed
    then show "length (entries s') = max (length (entries s)) (i + 1)" "i \<le> length (entries s)"
      "generation_at s' i = unat g" "unat g \<le> k" "slot_task (entries s' ! i) = Some t"
      "\<And>j. j < length (entries s) \<Longrightarrow> j \<noteq> i \<Longrightarrow> entries s' ! j = entries s ! j"
      "i < length (entries s) \<Longrightarrow> generation_at s i = unat g"
      by blast+
  qed
  show "slots_ok s' ?hm (k + 1)"
    unfolding slots_ok_def
  proof (intro conjI allI impI)
    show "length (entries s') \<le> k + 1" using ok len by (simp add: slots_ok_def)
    show "inj_on ?hm {..<k + 1}"
    proof (rule inj_onI)
      fix x y
      assume xy: "x \<in> {..<k + 1}" "y \<in> {..<k + 1}" "?hm x = ?hm y"
      have "inj_on hm {..<k}" using ok by (simp add: slots_ok_def)
      then have "x < k \<Longrightarrow> y < k \<Longrightarrow> hm x = hm y \<Longrightarrow> x = y" by (simp add: inj_on_def)
      then show "x = y" using xy new [of x] new [of y] by (cases "x = k"; cases "y = k") auto
    qed
    show "generation_at s' j + (if slot_task (entries s' ! j) = None then 0 else 1) \<le> k + 1"
      if "j < length (entries s')" for j
    proof (cases "j = i")
      case True
      then show ?thesis using gen by simp
    next
      case False
      then have j: "j < length (entries s)" using that len by simp
      then have "generation_at s j + (if slot_task (entries s ! j) = None then 0 else 1) \<le> k"
        using ok by (simp add: slots_ok_def)
      then show ?thesis unfolding old [OF j False] by simp
    qed
    show "fst (?hm m) < length (entries s')" if "m < k + 1" for m
    proof (cases "m = k")
      case True
      then show ?thesis using len by simp
    next
      case False
      then have "fst (hm m) < length (entries s)" using ok that by (simp add: slots_ok_def)
      then show ?thesis using False len by simp
    qed
    show "held_at s' ?hm m \<noteq> None \<or> unat (snd (?hm m)) < generation_at s' (fst (?hm m))" if "m < k + 1" for m
    proof (cases "m = k")
      case True
      then show ?thesis using hd [of m] by simp
    next
      case False
      then have m: "m < k" "fst (hm m) < length (entries s)" using ok that by (auto simp: slots_ok_def)
      then have "held_at s hm m \<noteq> None \<or> unat (snd (hm m)) < generation_at s (fst (hm m))"
        using ok by (simp add: slots_ok_def)
      moreover have "generation_at s' (fst (hm m)) = generation_at s (fst (hm m))"
        using old [OF m(2)] gen(1) old_i m(2) by (cases "fst (hm m) = i") auto
      ultimately show ?thesis using hd [of m] m(1) False by auto
    qed
  qed
qed

lemma slots_ok_new: "slots_ok slab_new hm 0"
  by (simp add: slots_ok_def slab_new_def)

text \<open>So a handle names one task.\<close>

lemma handle_splits:
  assumes "slots_ok s hm k" and "n < k" and "k < 2 ^ 31"
  shows "split_handle (make_task_handle (fst (hm n)) (snd (hm n))) = Some (hm n)"
    and "0 < sint (make_task_handle (fst (hm n)) (snd (hm n)))"
proof -
  have len: "fst (hm n) < length (entries s)" "length (entries s) \<le> k"
    using assms(1,2) by (simp_all add: slots_ok_def)
  then have i: "fst (hm n) < 2 ^ 32 - 1" using assms(3) by simp
  have "unat (snd (hm n)) \<le> generation_at s (fst (hm n))"
    using assms(1,2) by (cases "held_at s hm n") (auto simp: slots_ok_def held_at_def dest: get_checked_generation)
  moreover have "generation_at s (fst (hm n)) \<le> k" using assms(1) len(1) by (fastforce simp: slots_ok_def)
  ultimately have "unat (snd (hm n)) < 2 ^ 31" using assms(3) by linarith
  then have "unat (snd (hm n) AND TASK_GEN_MASK) = unat (snd (hm n))"
    by (simp add: TASK_GEN_MASK_mask unsigned_take_bit_eq take_bit_nat_eq_self flip: take_bit_eq_mask)
  then have g: "snd (hm n) AND TASK_GEN_MASK = snd (hm n)" by (simp add: word_unat_eq_iff)
  show "split_handle (make_task_handle (fst (hm n)) (snd (hm n))) = Some (hm n)"
    using task_handle_round_trip(1) [OF i, of "snd (hm n)"] g by simp
  show "0 < sint (make_task_handle (fst (hm n)) (snd (hm n)))"
    by (rule task_handle_round_trip(2) [OF i])
qed


subsection \<open>The life of a slot\<close>

text \<open>The handle an await works with, behind the table look-up.\<close>

fun at_handle :: "os_pc \<Rightarrow> (nat \<times> u64) option" where
  "at_handle (Joining j n h) = Some (n, h)"
| "at_handle (Locking n h) = Some (n, h)"
| "at_handle (Asleep n h) = Some (n, h)"
| "at_handle (Woken n h) = Some (n, h)"
| "at_handle (Reclaiming n h r) = Some (n, h)"
| "at_handle _ = None"

fun took_result :: "nat \<Rightarrow> os_pc \<Rightarrow> bool" where
  "took_result n (Reclaiming m h r) = (m = n)"
| "took_result n _ = False"

fun looks_up :: "os_pc \<Rightarrow> u64 option" where
  "looks_up (Looking h) = Some h"
| "looks_up (Detaching h) = Some h"
| "looks_up _ = None"

fun unlisting :: "os_pc \<Rightarrow> u64 option" where
  "unlisting (Unlisting h) = Some h"
| "unlisting (UnlistingDetached h) = Some h"
| "unlisting _ = None"

fun reserving :: "os_pc \<Rightarrow> nat option" where
  "reserving (Reserved n) = Some n"
| "reserving _ = None"

lemma wakes_all_keeps [simp]:
  "at_handle (wakes_all n p a) = at_handle (p a)"
  "took_result m (wakes_all n p a) = took_result m (p a)"
  "looks_up (wakes_all n p a) = looks_up (p a)"
  "unlisting (wakes_all n p a) = unlisting (p a)"
  "reserving (wakes_all n p a) = reserving (p a)"
  by (auto simp: wakes_all_def split: os_pc.splits)

lemma took_at: "took_result n p \<Longrightarrow> \<exists>h. at_handle p = Some (n, h)"
  by (cases p) auto

abbreviation held :: "'t os_world \<Rightarrow> nat \<Rightarrow> task_state option" where
  "held w n \<equiv> held_at (slab w) (home w) n"

definition reserved :: "'t os_world \<Rightarrow> nat \<Rightarrow> bool" where
  "reserved w n \<longleftrightarrow> (\<exists>a. reserving (pcs w a) = Some n)"

definition pending :: "'t os_world \<Rightarrow> u64 \<Rightarrow> bool" where
  "pending w h \<longleftrightarrow> (\<exists>a. unlisting (pcs w a) = Some h) \<or> (\<exists>n. body w n = BodyUnlisting h)"

text \<open>A task in the table is marked when its thread is gone, and flagged when it was detached.\<close>

definition marks_ok :: "'t os_world \<Rightarrow> bool" where
  "marks_ok w \<longleftrightarrow> (\<forall>n t. n < spawned w \<longrightarrow> held w n = Some t \<longrightarrow>
     cell t = n \<and> (finished t \<longleftrightarrow> body w n = Exited) \<and> (\<forall>h. body w n \<noteq> BodyUnlisting h) \<and>
     (reclaim_on_done t \<longleftrightarrow> n \<in> dropped w) \<and> \<not> (reclaim_on_done t \<and> finished t))"

text \<open>One no longer there was awaited or detached; one that was awaited and is there has an await about
  to reclaim it.\<close>

definition gone_ok :: "'t os_world \<Rightarrow> bool" where
  "gone_ok w \<longleftrightarrow> dropped w \<subseteq> {..<spawned w} \<and>
     (\<forall>n. n < spawned w \<longrightarrow> held w n = None \<longrightarrow> (got w n \<noteq> [] \<or> n \<in> dropped w) \<and> \<not> reserved w n)"

definition taken_ok :: "'t os_world \<Rightarrow> bool" where
  "taken_ok w \<longleftrightarrow>
     (\<forall>n. n < spawned w \<longrightarrow> got w n \<noteq> [] \<longrightarrow> held w n \<noteq> None \<longrightarrow> (\<exists>a. took_result n (pcs w a))) \<and>
     (\<forall>a n. took_result n (pcs w a) \<longrightarrow> got w n \<noteq> [])"

text \<open>A call works on a task that has been listed.\<close>

definition calls_ok :: "'t os_world \<Rightarrow> bool" where
  "calls_ok w \<longleftrightarrow>
     (\<forall>a n h. at_handle (pcs w a) = Some (n, h) \<longrightarrow> n < spawned w \<and> h = task_handle w n \<and> \<not> reserved w n) \<and>
     (\<forall>a h. looks_up (pcs w a) = Some h \<longrightarrow> (\<exists>n. n < spawned w \<and> h = task_handle w n \<and> \<not> reserved w n))"

text \<open>A handle in the registry names a task in the table, up to the calls on their way.\<close>

definition listed_ok :: "'t os_world \<Rightarrow> bool" where
  "listed_ok w \<longleftrightarrow>
     (\<forall>h. is_valid_id h TaskKind (registry w) \<longrightarrow>
        (\<exists>n. n < spawned w \<and> h = task_handle w n \<and> \<not> reserved w n \<and> (held w n \<noteq> None \<or> pending w h))) \<and>
     (\<forall>n. n < spawned w \<longrightarrow> held w n \<noteq> None \<longrightarrow> \<not> reserved w n \<longrightarrow> is_valid_id (task_handle w n) TaskKind (registry w)) \<and>
     (\<forall>h. pending w h \<longrightarrow> (\<exists>n. n < spawned w \<and> h = task_handle w n \<and> held w n = None))"

definition life :: "'t os_world \<Rightarrow> bool" where
  "life w \<longleftrightarrow> marks_ok w \<and> gone_ok w \<and> taken_ok w \<and> calls_ok w \<and> listed_ok w"

definition slots_inv :: "'t os_world \<Rightarrow> bool" where
  "slots_inv w \<longleftrightarrow> slots_ok (slab w) (home w) (spawned w) \<and> life w"

lemmas life_parts = marks_ok_def gone_ok_def taken_ok_def calls_ok_def listed_ok_def

lemma slots_init: "slots_inv os_init"
  by (simp add: slots_inv_def os_init_def slots_ok_new life_def life_parts pending_def is_valid_id_def is_valid_def)

text \<open>Handles under the bound.\<close>

lemma handle_home:
  assumes "slots_inv w" and "n < spawned w" and "spawned w < 2 ^ 31"
  shows "split_handle (task_handle w n) = Some (home w n)" and "0 < sint (task_handle w n)"
  using handle_splits [of "slab w" "home w" "spawned w" n] assms by (auto simp: slots_inv_def task_handle_def)

lemma handle_eq:
  assumes "slots_inv w" and "n < spawned w" "m < spawned w" and "spawned w < 2 ^ 31"
  shows "task_handle w n = task_handle w m \<longleftrightarrow> n = m"
proof -
  have "inj_on (home w) {..<spawned w}" using assms(1) by (simp add: slots_inv_def slots_ok_def)
  then show ?thesis
    using handle_home(1) [OF assms(1,2,4)] handle_home(1) [OF assms(1,3,4)] assms(2,3)
    by (auto simp: inj_on_def)
qed


subsection \<open>Steps that free nothing\<close>

lemma held_same: "slab v = slab w \<Longrightarrow> home v = home w \<Longrightarrow> held v n = held w n"
  by simp

lemma handle_same: "home v = home w \<Longrightarrow> task_handle v n = task_handle w n"
  by (simp add: task_handle_def)

lemma listed_change:
  assumes w: "listed_ok w" and same: "home v = home w" "spawned v = spawned w" "\<And>n. reserved v n = reserved w n"
    and valid: "\<And>h. is_valid_id h TaskKind (registry v) \<Longrightarrow>
        is_valid_id h TaskKind (registry w) \<and> (pending w h \<longrightarrow> pending v h)"
    and held: "\<And>n. n < spawned w \<Longrightarrow> held v n \<noteq> None \<Longrightarrow> held w n \<noteq> None \<and>
        (is_valid_id (task_handle w n) TaskKind (registry w) \<longrightarrow> is_valid_id (task_handle w n) TaskKind (registry v))"
      "\<And>n. n < spawned w \<Longrightarrow> held v n = None \<Longrightarrow> held w n \<noteq> None \<Longrightarrow> pending v (task_handle w n)"
    and pend: "\<And>h. pending v h \<Longrightarrow> pending w h \<or> (\<exists>n. n < spawned w \<and> h = task_handle w n \<and> held v n = None)"
  shows "listed_ok v"
  unfolding listed_ok_def same(2,3) handle_same [OF same(1)]
proof (intro conjI allI impI)
  fix h
  assume h: "is_valid_id h TaskKind (registry v)"
  then obtain m where m: "m < spawned w" "h = task_handle w m" "\<not> reserved w m" "held w m \<noteq> None \<or> pending w h"
    using w valid [OF h] unfolding listed_ok_def by blast
  have "held v m \<noteq> None \<or> pending v h" using m(2,4) held(2) [OF m(1)] valid [OF h] by blast
  then show "\<exists>m. m < spawned w \<and> h = task_handle w m \<and> \<not> reserved w m \<and> (held v m \<noteq> None \<or> pending v h)"
    using m(1-3) by blast
next
  fix m
  assume "m < spawned w" "held v m \<noteq> None" "\<not> reserved w m"
  then show "is_valid_id (task_handle w m) TaskKind (registry v)"
    using w held(1) [of m] unfolding listed_ok_def by blast
next
  fix h
  assume "pending v h"
  then show "\<exists>m. m < spawned w \<and> h = task_handle w m \<and> held v m = None"
  proof (cases "pending w h")
    case True
    then obtain m where m: "m < spawned w" "h = task_handle w m" "held w m = None"
      using w unfolding listed_ok_def by blast
    have "held v m = None" using held(1) [OF m(1)] m(3) by (cases "held v m") auto
    then show ?thesis using m(1,2) by blast
  next
    case False
    then show ?thesis using pend \<open>pending v h\<close> by blast
  qed
qed

lemma life_keep:
  assumes life: "life w" and same: "home v = home w" "spawned v = spawned w"
    and held: "\<And>n. n < spawned w \<Longrightarrow> held v n = None \<longleftrightarrow> held w n = None"
    and marks: "marks_ok v" and calls: "calls_ok v"
    and got: "\<And>n. got v n = got w n" and dropped: "dropped w \<subseteq> dropped v" "dropped v \<subseteq> {..<spawned w}"
    and reserved: "\<And>n. reserved v n = reserved w n"
    and took: "\<And>n a. took_result n (pcs v a) \<Longrightarrow> \<exists>a. took_result n (pcs w a)"
      "\<And>n a. held w n \<noteq> None \<Longrightarrow> took_result n (pcs w a) \<Longrightarrow> \<exists>a. took_result n (pcs v a)"
    and listed: "registry v = registry w" "\<And>h. pending v h = pending w h"
  shows "life v"
proof -
  have "gone_ok v" using life held dropped unfolding life_def gone_ok_def same got reserved by blast
  moreover have "taken_ok v" using life held took unfolding life_def taken_ok_def same got by metis
  moreover have "listed_ok v"
    by (rule listed_change [of w]) (use life held [unfolded same(1)] in \<open>simp_all add: life_def same reserved listed\<close>)
  ultimately show ?thesis using marks calls by (simp add: life_def)
qed

lemma calls_goes:
  assumes "calls_ok w" and "home v = home w" "spawned v = spawned w" "pcs v = (pcs w)(a := p)"
    and "\<And>n. reserved v n \<Longrightarrow> reserved w n"
    and "\<And>n h. at_handle p = Some (n, h) \<Longrightarrow> n < spawned w \<and> h = task_handle w n \<and> \<not> reserved w n"
    and "\<And>h. looks_up p = Some h \<Longrightarrow> \<exists>n. n < spawned w \<and> h = task_handle w n \<and> \<not> reserved w n"
  shows "calls_ok v"
proof -
  have at: "n < spawned w \<and> h = task_handle w n \<and> \<not> reserved v n" if "at_handle (pcs v b) = Some (n, h)" for b n h
  proof (cases "b = a")
    case True
    then show ?thesis using assms(5) [of n] assms(6) [of n h] that by (auto simp: assms(4))
  next
    case False
    then have "at_handle (pcs w b) = Some (n, h)" using that by (simp add: assms(4))
    then show ?thesis using assms(1) assms(5) [of n] unfolding calls_ok_def by blast
  qed
  have looks: "\<exists>n. n < spawned w \<and> h = task_handle w n \<and> \<not> reserved v n" if "looks_up (pcs v b) = Some h" for b h
  proof (cases "b = a")
    case True
    then show ?thesis using assms(5) assms(7) [of h] that by (auto simp: assms(4))
  next
    case False
    then have "looks_up (pcs w b) = Some h" using that by (simp add: assms(4))
    moreover have "\<forall>a h. looks_up (pcs w a) = Some h \<longrightarrow> (\<exists>n. n < spawned w \<and> h = task_handle w n \<and> \<not> reserved w n)"
      using assms(1) by (simp add: calls_ok_def)
    ultimately obtain n where "n < spawned w" "h = task_handle w n" "\<not> reserved w n" by blast
    then show ?thesis using assms(5) [of n] by blast
  qed
  show ?thesis
    unfolding calls_ok_def assms(3) handle_same [OF assms(2)] using at looks by blast
qed

lemma calls_same:
  assumes "calls_ok w" and "home v = home w" "spawned v = spawned w" "\<And>n. reserved v n \<Longrightarrow> reserved w n"
    and "\<And>a. at_handle (pcs v a) = at_handle (pcs w a)" "\<And>a. looks_up (pcs v a) = looks_up (pcs w a)"
  shows "calls_ok v"
  using assms(1) unfolding calls_ok_def assms(2,3) handle_same [OF assms(2)] assms(5,6) using assms(4) by metis

lemma marks_same:
  assumes "marks_ok w" and "slab v = slab w" "home v = home w" "spawned v = spawned w" "dropped v = dropped w"
    and "\<And>n t. held w n = Some t \<Longrightarrow> (body v n = Exited) = (body w n = Exited) \<and> (\<forall>h. body w n \<noteq> BodyUnlisting h \<longrightarrow> body v n \<noteq> BodyUnlisting h)"
  shows "marks_ok v"
  using assms(1) unfolding marks_ok_def assms(2-5) using assms(6) by metis

lemma reserved_goes:
  assumes "pcs v = (pcs w)(a := p)" and "reserving (pcs w a) = reserving p"
  shows "reserved v n = reserved w n"
  unfolding reserved_def assms(1) using assms(2) by (metis fun_upd_apply)

lemma pending_goes:
  assumes "pcs v = (pcs w)(a := p)" and "unlisting (pcs w a) = unlisting p" and "body v = body w"
  shows "pending v h = pending w h"
  unfolding pending_def assms(1,3) using assms(2) by (metis fun_upd_apply)

lemma pending_body:
  assumes "\<And>c. unlisting (pcs v c) = unlisting (pcs w c)" and "body v = (body w)(n := b)"
    and "\<And>h. body w n \<noteq> BodyUnlisting h" and "\<And>h. b \<noteq> BodyUnlisting h"
  shows "pending v h = pending w h"
proof -
  have "body v m = BodyUnlisting h \<longleftrightarrow> body w m = BodyUnlisting h" for m
    using assms(3,4) [of h] by (cases "m = n") (simp_all add: assms(2))
  then show ?thesis by (simp add: pending_def assms(1))
qed

text \<open>One thread moves on and the table stays.\<close>

lemma life_goes:
  assumes life: "life w" and same: "slab v = slab w" "home v = home w" "spawned v = spawned w" "dropped v = dropped w"
      "body v = body w" "takes v = takes w" "registry v = registry w"
    and p: "pcs v = (pcs w)(a := p)" "reserving (pcs w a) = reserving p" "unlisting (pcs w a) = unlisting p"
    and took: "\<And>n. took_result n p \<Longrightarrow> took_result n (pcs w a)"
      "\<And>n. held w n \<noteq> None \<Longrightarrow> took_result n (pcs w a) \<Longrightarrow> took_result n p"
    and at: "\<And>n h. at_handle p = Some (n, h) \<Longrightarrow> n < spawned w \<and> h = task_handle w n \<and> \<not> reserved w n"
      "\<And>h. looks_up p = Some h \<Longrightarrow> \<exists>n. n < spawned w \<and> h = task_handle w n \<and> \<not> reserved w n"
  shows "life v"
proof (rule life_keep [OF life same(2,3)])
  show "marks_ok v" by (rule marks_same [of w]) (use life in \<open>simp_all add: life_def same\<close>)
  have c: "calls_ok w" using life by (simp add: life_def)
  have r: "\<And>n. reserved v n \<Longrightarrow> reserved w n" by (simp only: reserved_goes [OF p(1,2)])
  show "calls_ok v" by (rule calls_goes [OF c same(2,3) p(1) r at])
  show "took_result n (pcs v b) \<Longrightarrow> \<exists>b. took_result n (pcs w b)" for n b
    using took(1) [of n] by (auto simp: p(1) split: if_splits)
  show "held w n \<noteq> None \<Longrightarrow> took_result n (pcs w b) \<Longrightarrow> \<exists>b. took_result n (pcs v b)" for n b
    using took(2) [of n] by (metis fun_upd_apply p(1))
  show "reserved v n = reserved w n" for n by (rule reserved_goes [OF p(1,2)])
  show "pending v h = pending w h" for h by (rule pending_goes [OF p(1,3) same(5)])
  show "held v n = None \<longleftrightarrow> held w n = None" for n by (simp only: same)
  show "got v n = got w n" for n by (simp only: same got_def)
  show "dropped w \<subseteq> dropped v" "registry v = registry w" by (simp_all only: same order_refl)
  show "dropped v \<subseteq> {..<spawned w}" using life by (simp add: life_def gone_ok_def same)
qed

lemma slots_goes:
  assumes inv: "slots_inv w" and same: "slab v = slab w" "home v = home w" "spawned v = spawned w" and life: "life v"
  shows "slots_inv v"
  using inv life by (simp add: slots_inv_def same)

subsection \<open>Steps that free a slot or a handle\<close>

lemma life_free:
  assumes life: "life w" and same: "home v = home w" "spawned v = spawned w" "takes v = takes w" "registry v = registry w"
    and n: "n < spawned w" 
    and held: "\<And>m. m < spawned w \<Longrightarrow> held v m = (if m = n then None else held w m)"
    and body: "\<And>m. m \<noteq> n \<Longrightarrow> body v m = body w m" and dropped: "\<And>m. m \<noteq> n \<Longrightarrow> m \<in> dropped v \<longleftrightarrow> m \<in> dropped w"
    and why: "got w n \<noteq> [] \<or> n \<in> dropped v" and "\<not> reserved w n"
    and reserved: "\<And>m. reserved v m = reserved w m"
    and took: "\<And>m a. took_result m (pcs v a) \<Longrightarrow> \<exists>a. took_result m (pcs w a)"
      "\<And>m a. m \<noteq> n \<Longrightarrow> took_result m (pcs w a) \<Longrightarrow> \<exists>a. took_result m (pcs v a)"
    and calls: "calls_ok v"
    and pending: "\<And>h. pending v h \<longleftrightarrow> pending w h \<or> h = task_handle w n"
  shows "life v"
proof -
  have got: "got v m = got w m" for m by (simp add: got_def same)
  have "marks_ok v" using life held body dropped unfolding life_def marks_ok_def same(2) by (metis option.distinct(1))
  moreover have "dropped v \<subseteq> {..<spawned v}"
    using life dropped n unfolding life_def gone_ok_def same(2) by (auto simp: subset_iff) metis
  then have "gone_ok v"
    using life held why \<open>\<not> reserved w n\<close> dropped unfolding life_def gone_ok_def same(2) got reserved by metis
  moreover have "taken_ok v" using life held took unfolding life_def taken_ok_def same(2) got by metis
  moreover have "listed_ok v"
    by (rule listed_change [of w])
      (use life n held [unfolded same(1)] in \<open>auto simp: life_def same reserved pending split: if_splits\<close>)
  ultimately show ?thesis using calls by (simp add: life_def)
qed

lemma life_unlist:
  assumes inv: "slots_inv w" and k: "spawned w < 2 ^ 31"
    and same: "slab v = slab w" "home v = home w" "spawned v = spawned w" "takes v = takes w" "dropped v = dropped w"
    and listed: "registry v = unregister_id h TaskKind (registry w)"
    and pend: "pending w h" "\<And>k. pending v k \<Longrightarrow> pending w k" "\<And>k. k \<noteq> h \<Longrightarrow> pending w k \<Longrightarrow> pending v k"
    and marks: "marks_ok v" and calls: "calls_ok v"
    and reserved: "\<And>m. reserved v m = reserved w m"
    and took: "\<And>m. (\<exists>a. took_result m (pcs v a)) \<longleftrightarrow> (\<exists>a. took_result m (pcs w a))"
  shows "life v"
proof -
  have life: "life w" using inv by (simp add: slots_inv_def)
  have got: "got v m = got w m" for m by (simp add: got_def same)
  have held: "held v m = held w m" for m by (simp add: same)
  obtain n where n: "n < spawned w" "h = task_handle w n" "held w n = None"
    using life pend(1) unfolding life_def listed_ok_def by blast
  have other: "m < spawned w \<Longrightarrow> held w m \<noteq> None \<Longrightarrow> task_handle w m \<noteq> h" for m
    using handle_eq [OF inv _ n(1) k, of m] n by auto
  have "gone_ok v" using life unfolding life_def gone_ok_def same(3,5) got reserved held by blast
  moreover have "taken_ok v"
    using life unfolding life_def taken_ok_def same(3) got held took by (metis took)
  moreover have "listed_ok v"
    by (rule listed_change [of w])
      (use life other pend(2,3) in \<open>auto simp: life_def same reserved listed simp del: not_None_eq\<close>)
  ultimately show ?thesis using marks calls by (simp add: life_def)
qed


subsection \<open>Every step keeps it\<close>

lemma life_of: "slots_inv w \<Longrightarrow> life w"
  by (simp add: slots_inv_def)

lemma slots_of: "slots_inv w \<Longrightarrow> slots_ok (slab w) (home w) (spawned w)"
  by (simp add: slots_inv_def)

lemma not_reserved: "names_inv w \<Longrightarrow> body w n \<noteq> Unstarted \<Longrightarrow> \<not> reserved w n"
proof
  assume "names_inv w" "body w n \<noteq> Unstarted" "reserved w n"
  then obtain a where "reserving (pcs w a) = Some n" unfolding reserved_def by blast
  then have "starting (pcs w a) = Some n" by (cases "pcs w a") auto
  then show False using \<open>names_inv w\<close> \<open>body w n \<noteq> Unstarted\<close> by (auto simp: names_inv_def)
qed

lemma reserved_spawned: "names_inv w \<Longrightarrow> reserved w n \<Longrightarrow> n < spawned w"
proof -
  assume names: "names_inv w" and "reserved w n"
  then obtain a where "reserving (pcs w a) = Some n" unfolding reserved_def by blast
  then have "names_task (pcs w a) = Some n" by (cases "pcs w a") auto
  then show ?thesis by (rule names_old [OF names])
qed

lemma valid_listed:
  assumes "slots_inv w" and "is_valid_id h TaskKind (registry w)"
  shows "\<exists>n. n < spawned w \<and> h = task_handle w n \<and> \<not> reserved w n"
  using life_of [OF assms(1)] assms(2) unfolding life_def listed_ok_def by blast

lemma slots_check:
  assumes inv: "slots_inv w" and a: "pcs w a = Ready"
  shows "slots_inv (await_check a h w)" and "slots_inv (detach_check a h w)"
proof -
  have "slots_inv (goes a p w)" if "is_valid_id h TaskKind (registry w)" "p = Looking h \<or> p = Detaching h" for p
    by (rule slots_goes [OF inv])
      (use that a valid_listed [OF inv that(1)] in \<open>auto intro!: life_goes [OF life_of [OF inv], where a = a and p = p]\<close>)
  then show "slots_inv (await_check a h w)" "slots_inv (detach_check a h w)"
    using inv by (auto simp: await_check_def detach_check_def split: option.splits)
qed

text \<open>A write to one task's entry.\<close>

lemma marks_put:
  assumes inv: "slots_inv w" and n: "n < spawned w" and t: "held w n = Some t"
    and same: "slab v = put_task (fst (home w n)) u (slab w)" "home v = home w" "spawned v = spawned w"
    and rest: "\<And>m. m \<noteq> n \<Longrightarrow> body v m = body w m \<and> (m \<in> dropped v \<longleftrightarrow> m \<in> dropped w)"
    and u: "cell u = n \<and> (finished u \<longleftrightarrow> body v n = Exited) \<and> (\<forall>h. body v n \<noteq> BodyUnlisting h) \<and>
        (reclaim_on_done u \<longleftrightarrow> n \<in> dropped v) \<and> \<not> (reclaim_on_done u \<and> finished u)"
  shows "marks_ok v" and "slots_ok (slab v) (home v) (spawned v)"
    and "\<And>m. m < spawned w \<Longrightarrow> held v m = None \<longleftrightarrow> held w m = None"
proof -
  have h: "held v m = (if m = n then Some u else held w m)" if "m < spawned w" for m
    using held_put [OF slots_of [OF inv] t n that, of u] by (simp add: same)
  show "marks_ok v"
    unfolding marks_ok_def same(3)
  proof (intro allI impI)
    fix m s
    assume m: "m < spawned w" "held v m = Some s"
    show "cell s = m \<and> (finished s \<longleftrightarrow> body v m = Exited) \<and> (\<forall>h. body v m \<noteq> BodyUnlisting h) \<and>
        (reclaim_on_done s \<longleftrightarrow> m \<in> dropped v) \<and> \<not> (reclaim_on_done s \<and> finished s)"
    proof (cases "m = n")
      case True
      then show ?thesis using m h [OF m(1)] u by auto
    next
      case False
      then have "held w m = Some s" using m h [OF m(1)] by simp
      then show ?thesis using life_of [OF inv] m(1) rest [OF False] by (auto simp: life_def marks_ok_def)
    qed
  qed
  show "slots_ok (slab v) (home v) (spawned v)"
    unfolding same by (rule slots_ok_put [OF slots_of [OF inv] t n])
  show "\<And>m. m < spawned w \<Longrightarrow> held v m = None \<longleftrightarrow> held w m = None"
    using h t by auto
qed

lemma marks_fact:
  assumes "slots_inv w" and "n < spawned w" and "held w n = Some t"
  shows "cell t = n" "finished t \<longleftrightarrow> body w n = Exited" "body w n \<noteq> BodyUnlisting h"
    "reclaim_on_done t \<longleftrightarrow> n \<in> dropped w" "\<not> (reclaim_on_done t \<and> finished t)"
  using life_of [OF assms(1)] assms(2,3) by (auto simp: life_def marks_ok_def)

lemma slots_put_goes:
  assumes inv: "slots_inv w" and n: "n < spawned w" and t: "held w n = Some t"
    and v: "v = goes a p (w\<lparr>slab := put_task (fst (home w n)) (t\<lparr>join_handle := j\<rparr>) (slab w)\<rparr>)"
    and p: "reserving (pcs w a) = reserving p" "unlisting (pcs w a) = unlisting p"
      "\<And>n. took_result n p = took_result n (pcs w a)"
    and at: "\<And>n h. at_handle p = Some (n, h) \<Longrightarrow> n < spawned w \<and> h = task_handle w n \<and> \<not> reserved w n"
      "looks_up p = None"
  shows "slots_inv v"
proof -
  have same: "slab v = put_task (fst (home w n)) (t\<lparr>join_handle := j\<rparr>) (slab w)" "home v = home w" "spawned v = spawned w"
      "body v = body w" "dropped v = dropped w" "registry v = registry w" "takes v = takes w" "pcs v = (pcs w)(a := p)"
    by (simp_all add: v)
  note m = marks_fact [OF inv n t]
  note put = marks_put [OF inv n t same(1-3)]
  have put': "marks_ok v" "slots_ok (slab v) (home v) (spawned v)"
      "\<And>m. m < spawned w \<Longrightarrow> held v m = None \<longleftrightarrow> held w m = None"
    by (rule put; use m in \<open>auto simp: same\<close>)+
  have r: "reserved v k = reserved w k" for k by (rule reserved_goes [OF same(8) p(1)])
  have c: "calls_ok w" using life_of [OF inv] by (simp add: life_def)
  have "calls_ok v"
    by (rule calls_goes [OF c same(2,3,8)]) (use r at in auto)
  moreover have "took_result m (pcs v b) = took_result m (pcs w b)" for m b
    using p(3) by (simp add: same(8))
  moreover have "dropped w \<subseteq> {..<spawned w}" using life_of [OF inv] by (simp add: life_def gone_ok_def)
  ultimately have "life v"
    by (intro life_keep [OF life_of [OF inv] same(2,3) put'(3,1)])
      (use r pending_goes [OF same(8) p(2) same(4)] same(5-7) in \<open>auto simp only: got_def order_refl\<close>)
  then show ?thesis using put'(2) by (simp add: slots_inv_def)
qed

lemma slots_store:
  assumes inv: "slots_inv w" and names: "names_inv w" and a: "pcs w a = Launched n"
  shows "slots_inv (spawn_store a n w)"
proof -
  have n: "n < spawned w" using names_old [OF names, of a] a by simp
  show ?thesis
  proof (cases "held w n")
    case None
    then have "spawn_store a n w = goes a Ready w" by (simp add: spawn_store_def held_at_def)
    then show ?thesis
      by (intro slots_goes [OF inv] life_goes [OF life_of [OF inv], where a = a and p = Ready]) (auto simp: a)
  next
    case (Some t)
    then have "get_checked (fst (home w n)) (snd (home w n)) (slab w) = Some t" by (simp add: held_at_def)
    then have "spawn_store a n w = goes a Ready (w\<lparr>slab := put_task (fst (home w n)) (t\<lparr>join_handle := Some n\<rparr>) (slab w)\<rparr>)"
      by (simp add: spawn_store_def)
    then show ?thesis by (rule slots_put_goes [OF inv n Some]) (auto simp: a)
  qed
qed

lemma slots_look:
  assumes inv: "slots_inv w" and k: "spawned w < 2 ^ 31" and a: "pcs w a = Looking h"
  shows "slots_inv (await_look a h w)"
proof -
  have "calls_ok w" using life_of [OF inv] by (simp add: life_def)
  then obtain n where n: "n < spawned w" "h = task_handle w n" "\<not> reserved w n"
    using a unfolding calls_ok_def by (metis looks_up.simps(1))
  have sp: "split_handle h = Some (fst (home w n), snd (home w n))"
    using handle_home(1) [OF inv n(1) k] n(2) by simp
  show ?thesis
  proof (cases "held w n")
    case None
    then have "await_look a h w = goes a Ready w" by (simp add: await_look_def sp held_at_def case_prod_unfold)
    then show ?thesis
      by (intro slots_goes [OF inv] life_goes [OF life_of [OF inv], where a = a and p = Ready]) (auto simp: a)
  next
    case (Some t)
    let ?p = "case join_handle t of Some j \<Rightarrow> Joining j (cell t) h | None \<Rightarrow> Locking (cell t) h"
    have "get_checked (fst (home w n)) (snd (home w n)) (slab w) = Some t" using Some by (simp add: held_at_def)
    then have "await_look a h w = goes a ?p (w\<lparr>slab := put_task (fst (home w n)) (t\<lparr>join_handle := None\<rparr>) (slab w)\<rparr>)"
      by (simp add: await_look_def sp case_prod_unfold)
    then show ?thesis
      by (rule slots_put_goes [OF inv n(1) Some])
        (use n marks_fact(1) [OF inv n(1) Some] in \<open>auto simp: a split: option.splits\<close>)
  qed
qed


lemma slots_launch:
  assumes inv: "slots_inv w" and names: "names_inv w" and a: "pcs w a = Listed n"
  shows "slots_inv (spawn_launch a n w)"
proof -
  let ?v = "spawn_launch a n w"
  have v: "slab ?v = slab w" "home ?v = home w" "spawned ?v = spawned w" "dropped ?v = dropped w" "takes ?v = takes w"
      "registry ?v = registry w" "body ?v = (body w)(n := InBody)" "pcs ?v = (pcs w)(a := Launched n)"
    by (simp_all add: spawn_launch_def)
  have un: "body w n = Unstarted" using names a unfolding names_inv_def by (metis starting.simps(2))
  have r: "reserved ?v m = reserved w m" for m by (rule reserved_goes [OF v(8)]) (simp add: a)
  have took: "took_result m (pcs ?v b) = took_result m (pcs w b)" for m b by (simp add: v a)
  have pend: "pending ?v h = pending w h" for h
    by (rule pending_body [OF _ v(7)]) (simp_all add: v a un)
  have "life ?v"
  proof (rule life_keep [OF life_of [OF inv] v(2,3)])
    show "marks_ok ?v"
      by (rule marks_same [of w]) (use life_of [OF inv] in \<open>auto simp: life_def v un\<close>)
    have c: "calls_ok w" using life_of [OF inv] by (simp add: life_def)
    show "calls_ok ?v" by (rule calls_goes [OF c v(2,3,8)]) (simp_all add: r)
    show "dropped ?v \<subseteq> {..<spawned w}" using life_of [OF inv] by (simp add: life_def gone_ok_def v)
  qed (auto simp: v(1,2,4-6) got_def r took pend)
  then show ?thesis by (rule slots_goes [OF inv v(1-3)])
qed

lemma slots_publish:
  assumes inv: "slots_inv w" and b: "body w n = InBody"
  shows "slots_inv (body_publish n r w)"
proof -
  let ?v = "body_publish n r w"
  have v: "slab ?v = slab w" "home ?v = home w" "spawned ?v = spawned w" "dropped ?v = dropped w" "takes ?v = takes w"
      "registry ?v = registry w" "body ?v = (body w)(n := Published)"
    by (simp_all add: body_publish_def)
  have p: "at_handle (pcs ?v c) = at_handle (pcs w c)" "looks_up (pcs ?v c) = looks_up (pcs w c)"
      "took_result m (pcs ?v c) = took_result m (pcs w c)" "unlisting (pcs ?v c) = unlisting (pcs w c)"
      "reserving (pcs ?v c) = reserving (pcs w c)" for c m
    by (simp_all add: body_publish_def)
  have r: "reserved ?v m = reserved w m" for m by (simp add: reserved_def p)
  have pend: "pending ?v h = pending w h" for h
    by (rule pending_body [OF _ v(7)]) (simp_all add: p b)
  have "life ?v"
  proof (rule life_keep [OF life_of [OF inv] v(2,3)])
    show "marks_ok ?v"
      by (rule marks_same [of w]) (use life_of [OF inv] b in \<open>auto simp: life_def v\<close>)
    have c: "calls_ok w" using life_of [OF inv] by (simp add: life_def)
    show "calls_ok ?v" by (rule calls_same [OF c v(2,3)]) (simp_all add: r p)
    show "dropped ?v \<subseteq> {..<spawned w}" using life_of [OF inv] by (simp add: life_def gone_ok_def v)
  qed (auto simp: v(1,2,4-6) got_def r p pend)
  then show ?thesis by (rule slots_goes [OF inv v(1-3)])
qed

lemma slots_mark:
  assumes inv: "slots_inv w" and names: "names_inv w" and k: "spawned w < 2 ^ 31" and b: "body w n = Published"
  shows "slots_inv (body_mark n w)"
proof -
  let ?v = "body_mark n w"
  have n: "n < spawned w" using names b unfolding names_inv_def by (metis body_pc.distinct(3) not_le)
  have nr: "\<not> reserved w n" by (rule not_reserved [OF names]) (simp add: b)
  have v: "home ?v = home w" "spawned ?v = spawned w" "dropped ?v = dropped w" "takes ?v = takes w"
      "registry ?v = registry w" "pcs ?v = pcs w"
    by (simp_all add: body_mark_def Let_def case_prod_unfold)
  have r: "reserved ?v m = reserved w m" for m by (simp add: reserved_def v)
  have c: "calls_ok w" using life_of [OF inv] by (simp add: life_def)
  have calls: "calls_ok ?v" by (rule calls_same [OF c v(1,2)]) (simp_all add: r v)
  have drop: "dropped ?v \<subseteq> {..<spawned w}" using life_of [OF inv] by (simp add: life_def gone_ok_def v)
  have pend: "pending ?v h = pending w h" if "body ?v = (body w)(n := Exited)" for h
    by (rule pending_body [OF _ that]) (simp_all add: v b)
  show ?thesis
  proof (cases "held w n")
    case None
    then have s: "slab ?v = slab w" "body ?v = (body w)(n := Exited)"
      by (simp_all add: body_mark_def mark_finished_and_maybe_reclaim_def held_at_def)
    have "life ?v"
    proof (rule life_keep [OF life_of [OF inv] v(1,2) _ _ calls])
      show "marks_ok ?v"
        by (rule marks_same [of w]) (use life_of [OF inv] None in \<open>auto simp: life_def v s\<close>)
      show "dropped ?v \<subseteq> {..<spawned w}" by (rule drop)
    qed (auto simp: v s(1) got_def r pend [OF s(2)])
    then show ?thesis by (rule slots_goes [OF inv s(1) v(1,2)])
  next
    case (Some t)
    note m = marks_fact [OF inv n Some]
    have g: "get_checked (fst (home w n)) (snd (home w n)) (slab w) = Some t" using Some by (simp add: held_at_def)
    show ?thesis
    proof (cases "reclaim_on_done t")
      case True
      then have s: "slab ?v = fst (free_slot (fst (home w n)) (slab w))" "body ?v = (body w)(n := BodyUnlisting (task_handle w n))"
        using g free_slot_handle [OF g]
        by (simp_all add: body_mark_def mark_finished_and_maybe_reclaim_def case_prod_unfold Let_def task_handle_def)
      have h: "held ?v m = (if m = n then None else held w m)" if "m < spawned w" for m
        using held_free [OF slots_of [OF inv] Some n that] by (simp add: s v)
      have "slots_ok (slab ?v) (home ?v) (spawned ?v)"
        unfolding s v by (rule slots_ok_free [OF slots_of [OF inv] Some n k])
      moreover have "life ?v"
      proof (rule life_free [OF life_of [OF inv] v(1,2,4,5) n h])
        have "m \<noteq> n" if "body w m = BodyUnlisting h" for m h using that b by auto
        then show "pending ?v h = (pending w h \<or> h = task_handle w n)" for h
          unfolding pending_def v s by (metis fun_upd_apply body_pc.inject)
        show "got w n \<noteq> [] \<or> n \<in> dropped ?v" using m(4) True by (simp add: v)
      qed (auto simp: v s nr r calls)
      ultimately show ?thesis by (simp add: slots_inv_def)
    next
      case False
      then have s: "slab ?v = put_task (fst (home w n)) (t\<lparr>finished := True\<rparr>) (slab w)" "body ?v = (body w)(n := Exited)"
        using g by (simp_all add: body_mark_def mark_finished_and_maybe_reclaim_def case_prod_unfold Let_def)
      have put: "marks_ok ?v" "slots_ok (slab ?v) (home ?v) (spawned ?v)"
          "\<And>m. m < spawned w \<Longrightarrow> held ?v m = None \<longleftrightarrow> held w m = None"
        by (rule marks_put [OF inv n Some s(1) v(1,2)]; use m False in \<open>auto simp: v s(2)\<close>)+
      have "life ?v"
        by (rule life_keep [OF life_of [OF inv] v(1,2) put(3,1) calls])
          (use drop in \<open>auto simp: v(3-6) got_def r pend [OF s(2)]\<close>)
      then show ?thesis using put(2) by (simp add: slots_inv_def)
    qed
  qed
qed


lemma slots_exit:
  assumes inv: "slots_inv w" and k: "spawned w < 2 ^ 31" and b: "body w n = BodyUnlisting h"
  shows "slots_inv (body_unlist n h w)"
proof -
  let ?v = "body_unlist n h w"
  have v: "slab ?v = slab w" "home ?v = home w" "spawned ?v = spawned w" "takes ?v = takes w" "dropped ?v = dropped w"
      "registry ?v = unregister_id h TaskKind (registry w)" "body ?v = (body w)(n := Exited)" "pcs ?v = pcs w"
    by (simp_all add: body_unlist_def)
  have r: "reserved ?v m = reserved w m" for m by (simp add: reserved_def v)
  have m: "marks_ok w" and c: "calls_ok w" using life_of [OF inv] by (simp_all add: life_def)
  have gone: "m < spawned w \<Longrightarrow> held w m = Some t \<Longrightarrow> m \<noteq> n" for m t
    using m b unfolding marks_ok_def by blast
  have body_other: "m \<noteq> n \<Longrightarrow> body ?v m = body w m" for m by (simp add: v)
  have marks: "marks_ok ?v"
    using m gone unfolding marks_ok_def v(1-3,5) by (auto simp: v(7))
  have "life ?v"
  proof (rule life_unlist [OF inv k v(1-6) _ _ _ marks])
    show "pending w h" using b unfolding pending_def by blast
    show "pending ?v l \<Longrightarrow> pending w l" for l unfolding pending_def v by (auto split: if_splits)
    show "l \<noteq> h \<Longrightarrow> pending w l \<Longrightarrow> pending ?v l" for l
      unfolding pending_def v using b by (metis body_pc.inject fun_upd_apply)
    show "calls_ok ?v" by (rule calls_same [OF c v(2,3)]) (simp_all add: r v)
  qed (simp_all add: r v)
  then show ?thesis by (rule slots_goes [OF inv v(1-3)])
qed

lemma slots_unlist:
  assumes inv: "slots_inv w" and k: "spawned w < 2 ^ 31" and a: "unlisting (pcs w a) = Some h"
  shows "slots_inv (unlist a h w)"
proof -
  let ?v = "unlist a h w"
  have v: "slab ?v = slab w" "home ?v = home w" "spawned ?v = spawned w" "takes ?v = takes w" "dropped ?v = dropped w"
      "registry ?v = unregister_id h TaskKind (registry w)" "body ?v = body w" "pcs ?v = (pcs w)(a := Ready)"
    by (simp_all add: unlist_def)
  have p: "reserving (pcs w a) = None" "took_result m (pcs w a) = False" for m
    using a by (cases "pcs w a"; simp)+
  have r: "reserved ?v m = reserved w m" for m by (rule reserved_goes [OF v(8)]) (simp add: p)
  have m: "marks_ok w" and c: "calls_ok w" using life_of [OF inv] by (simp_all add: life_def)
  have took: "took_result m (pcs ?v b) = took_result m (pcs w b)" for m b by (simp add: v p)
  have "life ?v"
  proof (rule life_unlist [OF inv k v(1-6)])
    show "pending w h" using a unfolding pending_def by blast
    show "pending ?v l \<Longrightarrow> pending w l" for l unfolding pending_def v by (auto split: if_splits)
    show "l \<noteq> h \<Longrightarrow> pending w l \<Longrightarrow> pending ?v l" for l
      unfolding pending_def v using a by (metis fun_upd_apply option.inject)
    show "calls_ok ?v" by (rule calls_goes [OF c v(2,3,8)]) (simp_all add: r)
    show "marks_ok ?v" by (rule marks_same [of w]) (use m in \<open>simp_all add: v\<close>)
  qed (simp_all add: r took)
  then show ?thesis by (rule slots_goes [OF inv v(1-3)])
qed

lemma slots_list:
  assumes inv: "slots_inv w" and names: "names_inv w" and k: "spawned w < 2 ^ 31" and a: "pcs w a = Reserved n"
  shows "slots_inv (spawn_list a n w)"
proof -
  let ?v = "spawn_list a n w"
  have v: "slab ?v = slab w" "home ?v = home w" "spawned ?v = spawned w" "takes ?v = takes w" "dropped ?v = dropped w"
      "registry ?v = register_id (task_handle w n) TaskKind (registry w)" "body ?v = body w"
      "pcs ?v = (pcs w)(a := Listed n)"
    by (simp_all add: spawn_list_def)
  have n: "n < spawned w" using names_old [OF names, of a] a by simp
  have rn: "reserved w n" unfolding reserved_def using a by (metis reserving.simps(1))
  have only: "reserving (pcs w b) = Some m \<Longrightarrow> reserving (pcs w c) = Some m \<Longrightarrow> b = c" for b c m
    using names unfolding names_inv_def by (cases "pcs w b"; cases "pcs w c") (metis reserving.simps starting.simps option.distinct(1) option.inject)+
  have r: "reserved ?v m \<longleftrightarrow> reserved w m \<and> m \<noteq> n" for m
  proof -
    have "reserving (pcs ?v b) = Some m \<longleftrightarrow> reserving (pcs w b) = Some m \<and> m \<noteq> n" for b
      using only [of a n b] a by (cases "b = a") (auto simp: v)
    then show ?thesis unfolding reserved_def by blast
  qed
  have parts: "marks_ok w" "gone_ok w" "taken_ok w" "calls_ok w" "listed_ok w"
    using life_of [OF inv] by (simp_all add: life_def)
  have hn: "held w n \<noteq> None" using parts(2) n rn unfolding gone_ok_def by blast
  have held: "held ?v m = held w m" for m by (simp add: v)
  have took: "took_result m (pcs ?v b) = took_result m (pcs w b)" for m b by (simp add: v a)
  have pend: "pending ?v h = pending w h" for h by (rule pending_goes [OF v(8) _ v(7)]) (simp add: a)
  have got: "got ?v m = got w m" for m by (simp add: got_def v)
  have valid: "is_valid_id h TaskKind (registry ?v) \<longleftrightarrow> h = task_handle w n \<or> is_valid_id h TaskKind (registry w)" for h
    using handle_home(2) [OF inv n k] by (auto simp: v)
  have "marks_ok ?v" by (rule marks_same [of w]) (use parts(1) in \<open>simp_all add: v\<close>)
  moreover have "gone_ok ?v" using parts(2) unfolding gone_ok_def v(3,5) held got r by blast
  moreover have "taken_ok ?v" using parts(3) unfolding taken_ok_def v(3) held got took by blast
  moreover have "calls_ok ?v" by (rule calls_goes [OF parts(4) v(2,3,8)]) (simp_all add: r)
  moreover have "listed_ok ?v"
    unfolding listed_ok_def v(3) handle_same [OF v(2)] held pend r valid
  proof (intro conjI allI impI)
    fix h
    assume "h = task_handle w n \<or> is_valid_id h TaskKind (registry w)"
    then show "\<exists>m. m < spawned w \<and> h = task_handle w m \<and> \<not> (reserved w m \<and> m \<noteq> n) \<and> (held w m \<noteq> None \<or> pending w h)"
      using n hn parts(5) unfolding listed_ok_def by blast
  next
    fix m
    assume "m < spawned w" "held w m \<noteq> None" "\<not> (reserved w m \<and> m \<noteq> n)"
    then show "task_handle w m = task_handle w n \<or> is_valid_id (task_handle w m) TaskKind (registry w)"
      using parts(5) unfolding listed_ok_def by blast
  next
    fix h
    assume "pending w h"
    then show "\<exists>m. m < spawned w \<and> h = task_handle w m \<and> held w m = None"
      using parts(5) unfolding listed_ok_def by blast
  qed
  ultimately have "life ?v" by (simp add: life_def)
  then show ?thesis by (rule slots_goes [OF inv v(1-3)])
qed


lemma slots_reserve:
  assumes inv: "slots_inv w" and names: "names_inv w" and results: "results_inv w" and a: "pcs w a = Ready"
  shows "slots_inv (spawn_reserve a w)"
proof -
  let ?n = "spawned w" and ?v = "spawn_reserve a w"
  let ?t = "\<lparr>join_handle = None, cell = ?n, reclaim_on_done = False, finished = False\<rparr>"
  obtain s i g where ins: "slab_insert ?t (slab w) = (s, i, g)" by (metis prod_cases3)
  have v: "slab ?v = s" "home ?v = (home w)(?n := (i, g))" "spawned ?v = ?n + 1" "takes ?v = takes w"
      "dropped ?v = dropped w" "registry ?v = registry w" "body ?v = body w" "pcs ?v = (pcs w)(a := Reserved ?n)"
    by (simp_all add: spawn_reserve_def ins Let_def)
  note slots = slots_ok_insert [OF names_table [OF names] slots_of [OF inv] ins]
  have held: "held ?v m = (if m = ?n then Some ?t else held w m)" if "m < ?n + 1" for m
    using slots(2) [of m] that by (simp add: v)
  have hand: "task_handle ?v m = task_handle w m" if "m < ?n" for m using that by (simp add: task_handle_def v)
  have r: "reserved ?v m \<longleftrightarrow> reserved w m \<or> m = ?n" for m
  proof -
    have "reserving (pcs ?v b) = Some m \<longleftrightarrow> reserving (pcs w b) = Some m \<or> b = a \<and> m = ?n" for b
      by (cases "b = a") (auto simp: v a)
    then show ?thesis unfolding reserved_def by metis
  qed
  have un: "body w ?n = Unstarted" using names by (simp add: names_inv_def)
  have got: "got ?v m = got w m" for m by (simp add: got_def v)
  have "\<not> is_done (cells w ?n)" using results_facts(2) [OF results, of ?n] un by simp
  then have g0: "got w ?n = []" using results_facts(1) [OF results, of ?n] by (simp add: result_ok_def)
  have took: "took_result m (pcs ?v b) = took_result m (pcs w b)" for m b by (simp add: v a)
  have pend: "pending ?v h = pending w h" for h by (rule pending_goes [OF v(8) _ v(7)]) (simp add: a)
  have parts: "marks_ok w" "gone_ok w" "taken_ok w" "calls_ok w" "listed_ok w"
    using life_of [OF inv] by (simp_all add: life_def)
  have "?n \<notin> dropped w" using parts(2) by (auto simp: gone_ok_def)
  have "marks_ok ?v"
    unfolding marks_ok_def
  proof (intro allI impI)
    fix m u
    assume "m < spawned ?v" and u: "held ?v m = Some u"
    then have m: "m < ?n + 1" by (simp add: v)
    show "cell u = m \<and> (finished u \<longleftrightarrow> body ?v m = Exited) \<and> (\<forall>h. body ?v m \<noteq> BodyUnlisting h) \<and>
        (reclaim_on_done u \<longleftrightarrow> m \<in> dropped ?v) \<and> \<not> (reclaim_on_done u \<and> finished u)"
    proof (cases "m = ?n")
      case True
      then have "u = ?t" using u held [OF m] by simp
      then show ?thesis using True un \<open>?n \<notin> dropped w\<close> by (simp add: v)
    next
      case False
      then have "held w m = Some u" "m < ?n" using u held [OF m] m by simp_all
      then show ?thesis using parts(1) by (auto simp: marks_ok_def v)
    qed
  qed
  moreover have "gone_ok ?v"
    unfolding gone_ok_def
  proof (intro conjI allI impI)
    show "dropped ?v \<subseteq> {..<spawned ?v}" using parts(2) by (auto simp: gone_ok_def v)
    fix m
    assume "m < spawned ?v" "held ?v m = None"
    then have m: "m < ?n" "held w m = None" using held [of m] by (auto simp: v(3) split: if_splits)
    then show "got ?v m \<noteq> [] \<or> m \<in> dropped ?v" "\<not> reserved ?v m"
      using parts(2) unfolding gone_ok_def got r v(5) by auto
  qed
  moreover have "taken_ok ?v"
    unfolding taken_ok_def got took
  proof (intro conjI allI impI)
    fix m
    assume "m < spawned ?v" "got w m \<noteq> []" "held ?v m \<noteq> None"
    then have "m < ?n" "got w m \<noteq> []" "held w m \<noteq> None" using held [of m] g0 by (auto simp: v(3) split: if_splits)
    then show "\<exists>a. took_result m (pcs w a)" using parts(3) unfolding taken_ok_def by blast
  next
    fix b m
    assume "took_result m (pcs w b)"
    then show "got w m \<noteq> []" using parts(3) unfolding taken_ok_def by blast
  qed
  moreover have "calls_ok ?v"
    unfolding calls_ok_def
  proof (intro conjI allI impI)
    fix b m h
    assume "at_handle (pcs ?v b) = Some (m, h)"
    then have "at_handle (pcs w b) = Some (m, h)" by (auto simp: v split: if_splits)
    then have "m < ?n" "h = task_handle w m" "\<not> reserved w m" using parts(4) unfolding calls_ok_def by blast+
    then show "m < spawned ?v" "h = task_handle ?v m" "\<not> reserved ?v m" using hand [of m] by (simp_all add: r v(3))
  next
    fix b h
    assume "looks_up (pcs ?v b) = Some h"
    then have "looks_up (pcs w b) = Some h" by (auto simp: v split: if_splits)
    then obtain m where "m < ?n" "h = task_handle w m" "\<not> reserved w m" using parts(4) unfolding calls_ok_def by blast
    then show "\<exists>m. m < spawned ?v \<and> h = task_handle ?v m \<and> \<not> reserved ?v m"
      using hand [of m] by (intro exI [of _ m]) (simp add: r v(3))
  qed
  moreover have "listed_ok ?v"
    unfolding listed_ok_def pend v(6)
  proof (intro conjI allI impI)
    fix h
    assume "is_valid_id h TaskKind (registry w)"
    then obtain m where "m < ?n" "h = task_handle w m" "\<not> reserved w m" "held w m \<noteq> None \<or> pending w h"
      using parts(5) unfolding listed_ok_def by blast
    then show "\<exists>m. m < spawned ?v \<and> h = task_handle ?v m \<and> \<not> reserved ?v m \<and> (held ?v m \<noteq> None \<or> pending w h)"
      using hand [of m] held [of m] by (intro exI [of _ m]) (simp add: r v(3) del: not_None_eq)
  next
    fix m
    assume "m < spawned ?v" "held ?v m \<noteq> None" "\<not> reserved ?v m"
    then have m: "m < ?n" "held w m \<noteq> None" "\<not> reserved w m" using held [of m] by (auto simp: r v(3) split: if_splits)
    then show "is_valid_id (task_handle ?v m) TaskKind (registry w)"
      using parts(5) unfolding listed_ok_def hand [OF m(1)] by blast
  next
    fix h
    assume "pending w h"
    then obtain m where "m < ?n" "h = task_handle w m" "held w m = None"
      using parts(5) unfolding listed_ok_def by blast
    then show "\<exists>m. m < spawned ?v \<and> h = task_handle ?v m \<and> held ?v m = None"
      using hand [of m] held [of m] by (intro exI [of _ m]) (simp add: v(3))
  qed
  ultimately have "life ?v" by (simp add: life_def)
  moreover have "slots_ok (slab ?v) (home ?v) (spawned ?v)" using slots(1) by (simp add: v)
  ultimately show ?thesis by (simp add: slots_inv_def)
qed


lemma slots_enter:
  assumes inv: "slots_inv w" and names: "names_inv w" and a: "pcs w a = Locking n h"
  shows "slots_inv (await_enter a n h w)"
proof -
  have parts: "marks_ok w" "gone_ok w" "taken_ok w" "calls_ok w" "listed_ok w"
    using life_of [OF inv] by (simp_all add: life_def)
  have n: "n < spawned w" "h = task_handle w n" "\<not> reserved w n"
    using parts(4) a unfolding calls_ok_def by (metis at_handle.simps(2))+
  let ?v = "await_enter a n h w"
  show ?thesis
  proof (cases "is_done (cells w n)")
    case False
    then have v: "slab ?v = slab w" "home ?v = home w" "spawned ?v = spawned w" "dropped ?v = dropped w"
        "body ?v = body w" "takes ?v = takes w" "registry ?v = registry w" "pcs ?v = (pcs w)(a := Asleep n h)"
      by (simp_all add: await_enter_def Let_def)
    have "life ?v"
      by (rule life_goes [OF life_of [OF inv] v]) (use n in \<open>auto simp: a\<close>)
    then show ?thesis by (rule slots_goes [OF inv v(1-3)])
  next
    case True
    let ?r = "stored (cells w n)"
    have v: "slab ?v = slab w" "home ?v = home w" "spawned ?v = spawned w" "dropped ?v = dropped w"
        "body ?v = body w" "takes ?v = takes w @ [(n, ?r)]" "registry ?v = registry w"
        "pcs ?v = (pcs w)(a := Reclaiming n h ?r)"
      using True by (simp_all add: await_enter_def Let_def)
    have got: "got ?v m = [] \<longleftrightarrow> got w m = [] \<and> m \<noteq> n" for m by (auto simp: got_def v(6))
    have r: "reserved ?v m = reserved w m" for m by (rule reserved_goes [OF v(8)]) (simp add: a)
    have pend: "pending ?v l = pending w l" for l by (rule pending_goes [OF v(8) _ v(5)]) (simp add: a)
    have held: "held ?v m = held w m" for m by (simp add: v)
    have "took_result n (pcs ?v a)" by (simp add: v(8))
    have took: "took_result m (pcs ?v b) \<longleftrightarrow> took_result m (pcs w b) \<or> b = a \<and> m = n" for m b
      by (cases "b = a") (auto simp: v(8) a)
    have "marks_ok ?v" by (rule marks_same [of w]) (use parts(1) in \<open>simp_all add: v\<close>)
    moreover have "gone_ok ?v" using parts(2) unfolding gone_ok_def v(3,4) held got r by blast
    moreover have "taken_ok ?v"
      using parts(3) unfolding taken_ok_def v(3) held got took by blast
    moreover have "calls_ok ?v" by (rule calls_goes [OF parts(4) v(2,3,8)]) (use n r in auto)
    moreover have "listed_ok ?v"
      by (rule listed_change [OF parts(5) v(2,3) r]) (use pend in \<open>simp_all add: v(1,2,7)\<close>)
    ultimately have "life ?v" by (simp add: life_def)
    then show ?thesis by (rule slots_goes [OF inv v(1-3)])
  qed
qed

lemma slots_resume:
  assumes inv: "slots_inv w" and names: "names_inv w" and a: "pcs w a = Woken n h"
  shows "slots_inv (await_resume a n h w)"
proof -
  let ?u = "w\<lparr>cells := (cells w)(n := (cells w n)\<lparr>waiters := waiters (cells w n) - 1\<rparr>)\<rparr>"
  let ?v = "goes a (Locking n h) ?u"
  have n: "n < spawned w \<and> h = task_handle w n \<and> \<not> reserved w n"
    using life_of [OF inv] a unfolding life_def calls_ok_def by (metis at_handle.simps(4))
  have "slots_inv ?v"
    by (rule slots_goes [OF inv]; (rule life_goes [OF life_of [OF inv], where a = a and p = "Locking n h"])?)
      (use n in \<open>auto simp: a\<close>)
  moreover have "names_inv ?v"
    using names_goes [OF names, where a = a and p = "Locking n h" and v = ?v] names_table [OF names] names_old [OF names, of a] a
    by simp
  ultimately show ?thesis
    unfolding resume_enter by (rule slots_enter) simp
qed

lemma slots_freed:
  assumes inv: "slots_inv w" and k: "spawned w < 2 ^ 31" and n: "n < spawned w" "\<not> reserved w n" and t: "held w n = Some t"
    and same: "home v = home w" "spawned v = spawned w" "takes v = takes w" "registry v = registry w" "body v = body w"
    and slab: "slab v = fst (free_slot (fst (home w n)) (slab w))"
    and p: "pcs v = (pcs w)(a := p)" "unlisting p = Some (task_handle w n)" "unlisting (pcs w a) = None"
      "reserving p = None" "reserving (pcs w a) = None" "at_handle p = None" "looks_up p = None"
    and took: "\<And>m. \<not> took_result m p" "\<And>m. took_result m (pcs w a) \<Longrightarrow> m = n"
    and dropped: "\<And>m. m \<noteq> n \<Longrightarrow> m \<in> dropped v \<longleftrightarrow> m \<in> dropped w"
    and why: "got w n \<noteq> [] \<or> n \<in> dropped v"
  shows "slots_inv v"
proof -
  have h: "held v m = (if m = n then None else held w m)" if "m < spawned w" for m
    using held_free [OF slots_of [OF inv] t n(1) that] by (simp add: slab same)
  have r: "reserved v m = reserved w m" for m by (rule reserved_goes [OF p(1)]) (simp add: p)
  have "slots_ok (slab v) (home v) (spawned v)"
    unfolding same slab by (rule slots_ok_free [OF slots_of [OF inv] t n(1) k])
  moreover have "life v"
  proof (rule life_free [OF life_of [OF inv] same(1-4) n(1) h])
    show "pending v l = (pending w l \<or> l = task_handle w n)" for l
    proof -
      have "unlisting (pcs v b) = Some l \<longleftrightarrow> unlisting (pcs w b) = Some l \<or> b = a \<and> l = task_handle w n" for b
        using p(2,3) by (cases "b = a") (auto simp: p(1))
      then have "(\<exists>b. unlisting (pcs v b) = Some l) \<longleftrightarrow> (\<exists>b. unlisting (pcs w b) = Some l) \<or> l = task_handle w n"
        by (simp add: ex_disj_distrib)
      then show ?thesis by (auto simp: pending_def same(5))
    qed
    have c: "calls_ok w" using life_of [OF inv] by (simp add: life_def)
    show "calls_ok v" by (rule calls_goes [OF c same(1,2) p(1)]) (simp_all add: r p)
    show "took_result m (pcs v b) \<Longrightarrow> \<exists>b. took_result m (pcs w b)" for m b
      using took(1) by (auto simp: p(1) split: if_splits)
    show "m \<noteq> n \<Longrightarrow> took_result m (pcs w b) \<Longrightarrow> \<exists>b. took_result m (pcs v b)" for m b
      using took(2) [of m] by (intro exI [of _ b]) (auto simp: p(1))
  qed (use n dropped why in \<open>simp_all add: same r\<close>)
  ultimately show ?thesis by (simp add: slots_inv_def)
qed

lemma slots_reclaim:
  assumes inv: "slots_inv w" and k: "spawned w < 2 ^ 31" and a: "pcs w a = Reclaiming n h r"
  shows "slots_inv (await_reclaim a h w)"
proof -
  have parts: "taken_ok w" "calls_ok w" using life_of [OF inv] by (simp_all add: life_def)
  have n: "n < spawned w" "h = task_handle w n" "\<not> reserved w n"
    using parts(2) a unfolding calls_ok_def by (metis at_handle.simps(5))+
  have g: "got w n \<noteq> []" using parts(1) a unfolding taken_ok_def by (metis took_result.simps(1))
  have sp: "split_handle h = Some (fst (home w n), snd (home w n))"
    using handle_home(1) [OF inv n(1) k] n(2) by simp
  let ?v = "await_reclaim a h w"
  show ?thesis
  proof (cases "held w n")
    case None
    then have "?v = goes a Ready w"
      by (simp add: await_reclaim_def sp reclaim_checked held_at_def case_prod_unfold Let_def)
    moreover have "took_result m (pcs w a) \<Longrightarrow> held w m = None" for m using None by (simp add: a)
    ultimately show ?thesis
      by (intro slots_goes [OF inv] life_goes [OF life_of [OF inv], where a = a and p = Ready]) (auto simp: a)
  next
    case (Some t)
    then have "?v = goes a (Unlisting h) (w\<lparr>slab := fst (free_slot (fst (home w n)) (slab w))\<rparr>)"
      by (simp add: await_reclaim_def sp reclaim_checked held_at_def case_prod_unfold Let_def)
    then show ?thesis
      by (intro slots_freed [OF inv k n(1,3) Some, where a = a and p = "Unlisting h"]) (use n g in \<open>simp_all add: a\<close>)
  qed
qed

lemma slots_detach:
  assumes inv: "slots_inv w" and k: "spawned w < 2 ^ 31" and a: "pcs w a = Detaching h"
  shows "slots_inv (detach_do a h w)"
proof -
  have c: "calls_ok w" using life_of [OF inv] by (simp add: life_def)
  obtain n where n: "n < spawned w" "h = task_handle w n" "\<not> reserved w n"
    using c a unfolding calls_ok_def by (metis looks_up.simps(2))
  have sp: "split_handle h = Some (fst (home w n), snd (home w n))"
    using handle_home(1) [OF inv n(1) k] n(2) by simp
  let ?v = "detach_do a h w"
  show ?thesis
  proof (cases "held w n")
    case None
    then have "?v = goes a Ready w"
      by (simp add: detach_do_def sp slab_detach_def held_at_def case_prod_unfold Let_def)
    then show ?thesis
      by (intro slots_goes [OF inv] life_goes [OF life_of [OF inv], where a = a and p = Ready]) (auto simp: a)
  next
    case (Some t)
    note m = marks_fact [OF inv n(1) Some]
    have g: "get_checked (fst (home w n)) (snd (home w n)) (slab w) = Some t" using Some by (simp add: held_at_def)
    show ?thesis
    proof (cases "finished t")
      case True
      then have "?v = goes a (UnlistingDetached (task_handle w n))
          (w\<lparr>slab := fst (free_slot (fst (home w n)) (slab w)), dropped := insert n (dropped w)\<rparr>)"
        using g free_slot_handle [OF g] m(1)
        by (simp add: detach_do_def sp slab_detach_def case_prod_unfold Let_def task_handle_def)
      then show ?thesis
        by (intro slots_freed [OF inv k n(1,3) Some, where a = a and p = "UnlistingDetached (task_handle w n)"])
          (simp_all add: a)
    next
      case False
      then have v: "?v = goes a Ready
          (w\<lparr>slab := put_task (fst (home w n)) (t\<lparr>reclaim_on_done := True\<rparr>) (slab w), dropped := insert n (dropped w)\<rparr>)"
        using g m(1) by (simp add: detach_do_def sp slab_detach_def case_prod_unfold Let_def)
      have same: "slab ?v = put_task (fst (home w n)) (t\<lparr>reclaim_on_done := True\<rparr>) (slab w)" "home ?v = home w"
          "spawned ?v = spawned w" "dropped ?v = insert n (dropped w)" "body ?v = body w" "takes ?v = takes w"
          "registry ?v = registry w" "pcs ?v = (pcs w)(a := Ready)"
        unfolding v by simp_all
      have put: "marks_ok ?v" "slots_ok (slab ?v) (home ?v) (spawned ?v)"
          "\<And>m. m < spawned w \<Longrightarrow> held ?v m = None \<longleftrightarrow> held w m = None"
        by (rule marks_put [OF inv n(1) Some same(1-3)]; use m False in \<open>auto simp: same(4,5)\<close>)+
      have r: "reserved ?v l = reserved w l" for l by (rule reserved_goes [OF same(8)]) (simp add: a)
      have took: "took_result l (pcs ?v b) = took_result l (pcs w b)" for l b by (simp add: same(8) a)
      have pend: "pending ?v l = pending w l" for l by (rule pending_goes [OF same(8) _ same(5)]) (simp add: a)
      have calls: "calls_ok ?v" by (rule calls_goes [OF c same(2,3,8)]) (simp_all add: r)
      have "dropped w \<subseteq> {..<spawned w}" using life_of [OF inv] by (simp add: life_def gone_ok_def)
      then have "life ?v"
        by (intro life_keep [OF life_of [OF inv] same(2,3) put(3,1) calls])
          (use n(1) in \<open>auto simp: same(4,6,7) got_def r took pend\<close>)
      then show ?thesis using put(2) by (simp add: slots_inv_def)
    qed
  qed
qed


lemma spawned_grows: "os_step w v \<Longrightarrow> spawned w \<le> spawned v"
  by (erule os_step_cases)
    (auto simp: spawn_reserve_def spawn_list_def spawn_launch_def spawn_store_def body_publish_def body_mark_def
      body_unlist_def await_check_def await_look_def await_enter_def await_resume_def await_reclaim_def unlist_def
      detach_check_def detach_do_def Let_def case_prod_unfold split: option.splits)

lemma slots_step:
  assumes inv: "slots_inv w" and names: "names_inv w" and results: "results_inv w" and step: "os_step w v"
    and k: "spawned v < 2 ^ 31"
  shows "slots_inv v"
proof -
  have kw: "spawned w < 2 ^ 31" using spawned_grows [OF step] k by simp
  have at: "at_handle (pcs w a) = Some (n, h) \<Longrightarrow> n < spawned w \<and> h = task_handle w n \<and> \<not> reserved w n" for a n h
    using life_of [OF inv] by (simp add: life_def calls_ok_def)
  show ?thesis
    using step
  proof cases
    case (joins a j n h)
    then show ?thesis
      by (intro slots_goes [OF inv] life_goes [OF life_of [OF inv], where a = a and p = "Locking n h"])
        (use at [of a n h] in auto)
  next
    case (spurious a n h)
    then show ?thesis
      by (intro slots_goes [OF inv] life_goes [OF life_of [OF inv], where a = a and p = "Woken n h"])
        (use at [of a n h] in auto)
  qed (use inv names results kw in \<open>auto intro: slots_reserve slots_list slots_launch slots_store slots_publish slots_mark
      slots_exit slots_check slots_look slots_enter slots_resume slots_reclaim slots_unlist slots_detach\<close>)
qed

interpretation os_slots: inductive_invariant "\<lambda>w. w = (os_init :: ('t::finite) os_world)" os_step
    "\<lambda>w. names_inv w \<and> results_inv w \<and> (spawned w < 2 ^ 31 \<longrightarrow> slots_inv w)"
proof unfold_locales
  fix w v :: "'t os_world"
  assume inv: "names_inv w \<and> results_inv w \<and> (spawned w < 2 ^ 31 \<longrightarrow> slots_inv w)" and step: "os_step w v"
  have "slots_inv v" if k: "spawned v < 2 ^ 31"
    by (rule slots_step [OF _ _ _ step k]) (use inv spawned_grows [OF step] k in simp_all)
  then show "names_inv v \<and> results_inv v \<and> (spawned v < 2 ^ 31 \<longrightarrow> slots_inv v)"
    using inv step by (blast intro: names_step results_step)
qed (simp add: names_init results_init slots_init)



end
