(* ===== verification/Spec2Isabelle.thy ===== *)
theory Spec2Isabelle
  imports Prelude Utf8 ByteStore Search TextOps Codec
    Steps RunQueues GreenTask MutexLock SyncSites RefCount SyncHandle ChannelRing Rendezvous
    CountHeap Lists Maps Sets TypedHeap TrialDeletion Collection Containers Programs
    StopWorld ForcedCollection Rfc8259 Json JsonText JsonFloat JsonDocument JsonFill JsonSpec JsonDecode
    JsonExact JsonLoops JsonRoot CountIr CountCheck CountStep CountRun CountPaths CountBalance CountEntry
    CountVerdict CountSlots CountBorrow FdHandle FdLife FdSafety Rfc7693 Blake2b Blake2bVector
    Argon2 Argon2Fill Argon2Tag StructLife TaskHandle TaskSlab OsTask OsTaskLife OsTaskSlots
begin

text \<open>
  A verification development of the runtime of Pith, the Rust crate under
  \<open>src/cranelift/runtime/src\<close> that every compiled Pith program is linked with. File names below
  are relative to that directory, but for \<open>count_check.rs\<close>, the checker that the code generator
  (\<open>src/cranelift/codegen/src\<close>) runs over the code it is given. The compiled program calls the runtime through C functions over
  64-bit words; the theories model those functions, and the internal ones they are made of, as
  HOL functions and, where threads interleave, as step relations. A definition carries the name of
  the function it models wherever HOL allows it.

  \<^bold>\<open>How the program fits together.\<close> A Pith value is a word: a number, or a handle to a heap cell
  with a header and an owner count. Compiled code retains and releases handles; containers own what
  they hold and release it when they are released. Cells that own each other in a cycle are found by
  the cycle collector, which stops every thread that could touch a count first. Pith tasks are
  green threads: worker threads run them from queues, and a task that blocks on a mutex, semaphore,
  waitgroup or channel parks until a wake moves it. Text is UTF-8 in counted C strings; a JSON
  document is decoded straight into the structs of the program.

  \<^bold>\<open>Theories, in the order of their imports.\<close>

  \<^item> \<open>Prelude\<close>: machine types, the outcome of a call that may end the process, facts on lists and
    words. \<open>Steps\<close>: transition systems and the locale of an inductive invariant. \<open>RefCount\<close>: the locale
    of the retain/release contract, interpreted by bytes, synchronization handles and containers.
  \<^item> Text and bytes. \<open>Utf8\<close>: UTF-8 and \<open>splits_a_character\<close>. \<open>ByteStore\<close>: \<open>bytes.rs\<close>, counted immutable
    bytes and owned buffers in one heap of tagged cells. \<open>Search\<close>: \<open>substring.rs\<close>. \<open>TextOps\<close>: the string
    primitives of \<open>string_list.rs\<close>, \<open>utility.rs\<close> and \<open>runtime_core.rs\<close>. \<open>Codec\<close>: \<open>encoding.rs\<close>, base64,
    hexadecimal and decimal texts.
  \<^item> JSON, \<open>json.rs\<close>. \<open>Rfc8259\<close>: the standard's strings, numbers and documents, apart from the code.
    \<open>Json\<close>: the scanner. \<open>JsonText\<close>: its strings are the standard's, raw control bytes let through.
    \<open>JsonFloat\<close>: the float of a number is the nearest binary64. \<open>JsonDocument\<close>: the scan of the standard's
    documents. \<open>JsonFill\<close>: the one-pass struct filler driven by the field spec the compiler emits.
    \<open>JsonSpec\<close>: those specs as trees. \<open>JsonDecode\<close>: the two-pass reference decoder. \<open>JsonExact\<close>,
    \<open>JsonLoops\<close>, \<open>JsonRoot\<close>: the filler is the reference decoder on every document whose numbers the
    scanner keeps.
  \<^item> Scheduling, \<open>concurrency/green\<close>. \<open>RunQueues\<close>: \<open>queues.rs\<close>. \<open>GreenTask\<close>: the scheduling word of
    \<open>task.rs\<close>, \<open>wake.rs\<close>, \<open>run.rs\<close> and \<open>worker.rs\<close>, at its 64 bits, every CAS a step.
  \<^item> Tasks on os threads. \<open>TaskHandle\<close>: the handles and the choice of backend of \<open>scheduler.rs\<close>, and the
    registry of \<open>handle_registry.rs\<close>. \<open>TaskSlab\<close>: the table of \<open>concurrency/task.rs\<close>, slots with a
    generation. \<open>OsTask\<close>: spawn, the thread's end, await, is_done and detach, every lock a step.
    \<open>OsTaskLife\<close>: one result for all the awaits. \<open>OsTaskSlots\<close>: every slot and handle is let go.
  \<^item> Synchronization, \<open>concurrency\<close>. \<open>MutexLock\<close>: \<open>mutex.rs\<close>. \<open>SyncSites\<close>: \<open>semaphore.rs\<close> and
    \<open>waitgroup.rs\<close>. \<open>SyncHandle\<close>: the owner count of \<open>sync_handle.rs\<close>. \<open>ChannelRing\<close>: the lock-free ring of
    \<open>channel.rs\<close>, every atomic access a step. \<open>Rendezvous\<close>: the channel without a buffer.
  \<^item> Counted containers, \<open>collections\<close>. \<open>CountHeap\<close>: objects, counts and the cascade of a release.
    \<open>Lists\<close>, \<open>Maps\<close>, \<open>Sets\<close>: the operations of \<open>list.rs\<close>, \<open>map.rs\<close>, \<open>set.rs\<close>. \<open>TypedHeap\<close>, \<open>Containers\<close>: the
    typing and the accounts of the heap under any sequence of calls. \<open>Programs\<close>: what a program sees,
    as sequences, finite maps and sets.
  \<^item> The cycle collector, \<open>cycle.rs\<close>. \<open>TrialDeletion\<close>: mark, restore and collect with the code's
    worklists. \<open>Collection\<close>: destruction and freeing of what was found. \<open>StopWorld\<close>: the rendezvous of the
    stopper with the mutators. \<open>ForcedCollection\<close>: the requests to the collector thread.
  \<^item> The count checker, \<open>count_check.rs\<close>. \<open>CountIr\<close>: the textual IR, the classes of slots, basic blocks.
    \<open>CountCheck\<close>: states and block boundaries. \<open>CountStep\<close>: the instructions. \<open>CountRun\<close>: joins, the
    fixed point and the report. \<open>CountPaths\<close>: a machine that keeps the true account, and that a step
    of the checker tells a step of the machine. \<open>CountBalance\<close>, \<open>CountEntry\<close>, \<open>CountVerdict\<close>: from the entry
    to the return. \<open>CountSlots\<close>: the slots taken for plain. \<open>CountBorrow\<close>: the borrow rule of loops.
  \<^item> Structs, \<open>runtime_core.rs\<close>. \<open>StructLife\<close>: the strong and weak counts of a shared struct, every load and
    exchange a step, and the run in which the sole-owner test of a release is wrong.
  \<^item> Socket and pipe handles, \<open>fd_handle.rs\<close>. \<open>FdHandle\<close>: the word of a descriptor number and its
    fields. \<open>FdLife\<close>: calls that open, hold, release and close handles, every exchange a step, with the
    kernel handing out free numbers. \<open>FdSafety\<close>: what that promises, and where a close breaks it.
  \<^item> Password hashing. \<open>Rfc7693\<close>: the standard, apart from the code. \<open>Blake2b\<close>: \<open>blake2b.rs\<close> computes it.
    \<open>Blake2bVector\<close>: its test vector. \<open>Argon2\<close>: \<open>argon2.rs\<close>, a panic being a value. \<open>Argon2Fill\<close>:
    references and the lanes of a slice. \<open>Argon2Tag\<close>: H' of RFC 9106 and the answers.

  \<^bold>\<open>What the lemmas show.\<close> For the containers: an invariant of the heap (exact counts, typed entries)
  that every call keeps, and from it the refinement to sequences, finite maps and sets, whatever the
  program releases in between. For the collector: the whites are exactly the garbage of the
  candidates, and freeing them leaves the rest as it was. For the ring: a refinement to a bounded
  queue and at-most-once, in-order delivery; for the other primitives: exclusion, and that no wake is
  lost. For the scheduler: a task is in one place, a signalled task is not parked, and a ready one
  can run; the awaits of an os-thread task share one result, and its slot and handle are let go. For texts: UTF-8 is kept,
  searches and conversions are exact, encodings round-trip. For JSON: strings and skipped values
  are exact against RFC 8259, floats are nearest, and decoding in one pass equals decoding a tree. For the count checker: a
  function of one block that it passes is balanced on every run, its inferences (plain slots,
  functions that can drop a stored value) are least fixed points, and where paths meet it can pass a
  function that is not balanced. For structs: a value is
  destroyed once, when nobody owns it, and its header freed when nobody refers to it, unless an upgrade
  comes between the two loads of the sole-owner test. For descriptors: a call inside a guard uses the descriptor of its
  handle, and a deferred close hits no other. For the hashes: the incremental state computes the hash
  of RFC 7693, Argon2 never panics, and the lanes of a slice are independent.

  \<^bold>\<open>Fuel and bounds.\<close> A release takes one step for itself, one for each counting object and one for each
  handle in such an object (\<open>CountHeap\<close>). The scanner of \<open>Json\<close> takes at most three calls for each byte
  and the filler at most five: \<open>skip_ends\<close> and \<open>fill_returns\<close> show that the fuel never runs out. The
  loop over plain slots has a round for each store (\<open>scalar_loop_ends\<close>); the fixed point of the count
  checker stops after \<open>MAX_STEPS\<close> steps, as the code does. The other loops are structural or come with a
  measure. Words keep their width where the code relies
  on it (the scheduling word, hashes of bytes, base64, parsed integers, field masks); counts and
  sequence numbers that could only wrap after \<open>2 ^ 32\<close> or \<open>2 ^ 64\<close> live owners are natural numbers.

  \<^bold>\<open>Interleaving.\<close> In the step relations one step is one atomic access or one critical section, in any
  order over any number of threads; accesses are sequentially consistent.

  \<^bold>\<open>Not modelled.\<close> System calls and what they answer (files, processes, sockets, the reactor, terminals,
  signals, clocks), the memory of stacks and guard pages, third-party code (\<open>hashbrown\<close>, \<open>ring\<close>, \<open>zstd\<close>,
  Cranelift), profiling and diagnostics, the loom test harnesses. Of \<open>channel.rs\<close> the parking of a
  buffered send or receive; of \<open>cycle.rs\<close> the suspect buffer between collections; of the scheduler
  the workers' search for work and the joins of green tasks; of \<open>runtime_core.rs\<close> closures and the plain
  counts of unshared structs; the marking of shared values (\<open>share.rs\<close>) and the table of environment
  variables (\<open>env_overlay.rs\<close>). A JSON spec that no compiler emits (an empty element, an open
  parenthesis at its end, more than 63 fields) is outside the theorems on the filler.

  \<^bold>\<open>Open.\<close> The count checker is proved sound for one block; across joins it is not sound as it stands
  (\<open>one_sided_count_passes\<close>), and soundness for functions whose joins lose no count is not stated.
\<close>

end
